(* ===== verification/Prelude.thy ===== *)
theory Prelude
  imports Main "HOL-Library.Word" "HOL-Library.List_Lexorder" "HOL-Library.Multiset"
    "HOL-Library.Sublist"
begin

text \<open>
  Shared vocabulary of the development: bytes and byte strings with their
  lexicographic comparison (Go's \<open>bytes.Compare\<close>), the binary search
  \<open>sort.Search\<close>, the contract of \<open>sort.Slice\<close> as a locale with its
  interpretation, and the collections of hints the component theories share.
\<close>

named_theorems go_simps \<open>rewrite rules of the models of Go's standard library\<close>
named_theorems go_intros \<open>introduction rules for component invariants\<close>

section \<open>Bytes and their comparison\<close>

type_synonym byte = "8 word"
type_synonym bytes = "byte list"
type_synonym u16 = "16 word"
type_synonym u32 = "32 word"
type_synonym u64 = "64 word"

text \<open>\<open>bytes.Compare\<close>: -1, 0 or 1, lexicographic on unsigned bytes.\<close>

fun bytes_compare :: "bytes \<Rightarrow> bytes \<Rightarrow> int" where
  "bytes_compare [] [] = 0"
| "bytes_compare [] (b # bs) = -1"
| "bytes_compare (a # as) [] = 1"
| "bytes_compare (a # as) (b # bs) =
     (if a < b then -1 else if b < a then 1 else bytes_compare as bs)"

lemma bytes_compare_eq_0 [simp]: "bytes_compare a b = 0 \<longleftrightarrow> a = b"
  by (induction a b rule: bytes_compare.induct) auto

lemma bytes_compare_less_0 [simp]: "bytes_compare a b < 0 \<longleftrightarrow> a < b"
  by (induction a b rule: bytes_compare.induct) auto

lemma bytes_compare_greater_0 [simp]: "0 < bytes_compare a b \<longleftrightarrow> b < a"
  by (induction a b rule: bytes_compare.induct) auto

lemma bytes_compare_le_0 [simp]: "bytes_compare a b \<le> 0 \<longleftrightarrow> a \<le> b"
  by (metis bytes_compare_greater_0 not_less)

lemma bytes_compare_ge_0 [simp]: "0 \<le> bytes_compare a b \<longleftrightarrow> b \<le> a"
  by (metis bytes_compare_less_0 not_less)

text \<open>\<open>bytes.HasPrefix(s, p)\<close>.\<close>

definition has_prefix :: "bytes \<Rightarrow> bytes \<Rightarrow> bool" where
  "has_prefix s p \<longleftrightarrow> take (length p) s = p"

lemma has_prefix_iff: "has_prefix s p \<longleftrightarrow> prefix p s"
  by (metis append_take_drop_id has_prefix_def prefixI prefix_def append_eq_conv_conj)

section \<open>Binary search\<close>

text \<open>
  The loop of \<open>sort.Search(n, f)\<close>: \<open>i, j := 0, n\<close>, and while \<open>i < j\<close> the
  midpoint moves one of the ends.
\<close>

function search_loop :: "(nat \<Rightarrow> bool) \<Rightarrow> nat \<Rightarrow> nat \<Rightarrow> nat" where
  "search_loop f i j =
     (if i < j then
        let h = (i + j) div 2
        in if \<not> f h then search_loop f (h + 1) j else search_loop f i h
      else i)"
  by pat_completeness auto
termination
  by (relation "measure (\<lambda>(f, i, j). j - i)") auto

declare search_loop.simps [simp del]

definition sort_search :: "nat \<Rightarrow> (nat \<Rightarrow> bool) \<Rightarrow> nat" where
  "sort_search n f = search_loop f 0 n"

lemma search_loop_bounds: "i \<le> j \<Longrightarrow> i \<le> search_loop f i j \<and> search_loop f i j \<le> j"
proof (induction f i j rule: search_loop.induct)
  case (1 f i j)
  show ?case
  proof (cases "i < j")
    case True
    let ?h = "(i + j) div 2"
    have h: "i \<le> ?h" "?h < j" using True by auto
    show ?thesis
    proof (cases "f ?h")
      case True
      with "1.IH"(2) \<open>i < j\<close> h show ?thesis
        by (subst (1 2) search_loop.simps) (auto simp: Let_def)
    next
      case False
      with "1.IH"(1) \<open>i < j\<close> h show ?thesis
        by (subst (1 2) search_loop.simps) (auto simp: Let_def)
    qed
  next
    case False
    with 1 show ?thesis by (subst (1 2) search_loop.simps) simp
  qed
qed

text \<open>What the search returns for any predicate: a boundary of \<open>f\<close>.\<close>

lemma search_loop_boundary:
  "i \<le> j \<Longrightarrow> (search_loop f i j < j \<longrightarrow> f (search_loop f i j)) \<and>
    (i < search_loop f i j \<longrightarrow> \<not> f (search_loop f i j - 1))"
proof (induction f i j rule: search_loop.induct)
  case (1 f i j)
  show ?case
  proof (cases "i < j")
    case True
    let ?h = "(i + j) div 2"
    have h: "i \<le> ?h" "?h < j" using True by auto
    show ?thesis
    proof (cases "f ?h")
      case True
      have eq: "search_loop f i j = search_loop f i ?h"
        using True \<open>i < j\<close> by (subst search_loop.simps) (simp add: Let_def)
      have "search_loop f i ?h \<le> ?h" using search_loop_bounds h(1) by blast
      with "1.IH"(2) [OF \<open>i < j\<close> refl] True h show ?thesis
        unfolding eq using nat_less_le by fastforce
    next
      case False
      have eq: "search_loop f i j = search_loop f (?h + 1) j"
        using False \<open>i < j\<close> by (subst search_loop.simps) (simp add: Let_def)
      have "?h + 1 \<le> search_loop f (?h + 1) j"
        using search_loop_bounds [of "?h + 1" j f] h(2) by simp
      with "1.IH"(1) [OF \<open>i < j\<close> refl] False h show ?thesis
        unfolding eq by (cases "search_loop f (?h + 1) j = ?h + 1") auto
    qed
  next
    case False
    with 1 show ?thesis by (simp add: search_loop.simps)
  qed
qed

lemma sort_search_le [simp]: "sort_search n f \<le> n"
  unfolding sort_search_def using search_loop_bounds [of 0 n f] by simp

lemma sort_search_hit: "sort_search n f < n \<Longrightarrow> f (sort_search n f)"
  unfolding sort_search_def using search_loop_boundary [of 0 n f] by simp

lemma sort_search_pred: "0 < sort_search n f \<Longrightarrow> \<not> f (sort_search n f - 1)"
  unfolding sort_search_def using search_loop_boundary [of 0 n f] by simp

text \<open>For a predicate that stays true once true, the search finds the first index.\<close>

definition upward :: "nat \<Rightarrow> (nat \<Rightarrow> bool) \<Rightarrow> bool" where
  "upward n f \<longleftrightarrow> (\<forall>i j. i \<le> j \<longrightarrow> j < n \<longrightarrow> f i \<longrightarrow> f j)"

lemma upwardI [go_intros]:
  "(\<And>i j. i \<le> j \<Longrightarrow> j < n \<Longrightarrow> f i \<Longrightarrow> f j) \<Longrightarrow> upward n f"
  by (auto simp: upward_def)

lemma sort_search_before:
  assumes "upward n f" and "i < sort_search n f"
  shows "\<not> f i"
proof
  assume "f i"
  have "sort_search n f - 1 < n"
    using assms(2) sort_search_le [of n f] by linarith
  moreover have "i \<le> sort_search n f - 1" using assms(2) by simp
  ultimately have "f (sort_search n f - 1)"
    using assms(1) \<open>f i\<close> unfolding upward_def by blast
  with sort_search_pred [of n f] assms(2) show False by simp
qed

lemma sort_search_from:
  assumes "upward n f" and "sort_search n f \<le> i" and "i < n"
  shows "f i"
  using assms sort_search_hit [of n f] unfolding upward_def by fastforce

lemma sort_search_iff:
  "upward n f \<Longrightarrow> i < n \<Longrightarrow> f i \<longleftrightarrow> sort_search n f \<le> i"
  using sort_search_before sort_search_from not_less by blast

section \<open>Sorting\<close>

text \<open>
  \<open>sort.Slice(xs, less)\<close> rearranges \<open>xs\<close> so that no element is less than one
  before it; the order of elements that compare equal is not specified. The model is
  an insertion sort (what Go runs on short slices); clients rely only on the contract
  of the locale \<open>slice_sort\<close>, so their facts hold whatever is done with ties.
\<close>

fun insert_by :: "('a \<Rightarrow> 'a \<Rightarrow> bool) \<Rightarrow> 'a \<Rightarrow> 'a list \<Rightarrow> 'a list" where
  "insert_by lt x [] = [x]"
| "insert_by lt x (y # ys) = (if lt y x then y # insert_by lt x ys else x # y # ys)"

fun go_sort :: "('a \<Rightarrow> 'a \<Rightarrow> bool) \<Rightarrow> 'a list \<Rightarrow> 'a list" where
  "go_sort lt [] = []"
| "go_sort lt (x # xs) = insert_by lt x (go_sort lt xs)"

definition strict_weak :: "('a \<Rightarrow> 'a \<Rightarrow> bool) \<Rightarrow> bool" where
  "strict_weak lt \<longleftrightarrow> (\<forall>a b. lt a b \<longrightarrow> \<not> lt b a) \<and>
     (\<forall>a b c. \<not> lt a b \<longrightarrow> \<not> lt b c \<longrightarrow> \<not> lt a c)"

definition in_order :: "('a \<Rightarrow> 'a \<Rightarrow> bool) \<Rightarrow> 'a list \<Rightarrow> bool" where
  "in_order lt xs \<longleftrightarrow> sorted_wrt (\<lambda>a b. \<not> lt b a) xs"

text \<open>The contract of \<open>sort.Slice\<close>: a permutation, in order for a strict weak order.\<close>

locale slice_sort =
  fixes srt :: "('a \<Rightarrow> 'a \<Rightarrow> bool) \<Rightarrow> 'a list \<Rightarrow> 'a list"
  assumes perm: "mset (srt lt xs) = mset xs"
    and ordered: "strict_weak lt \<Longrightarrow> in_order lt (srt lt xs)"
begin

lemma set_srt: "set (srt lt xs) = set xs"
  using perm by (metis set_mset_mset)

lemma length_srt: "length (srt lt xs) = length xs"
  using perm by (metis size_mset)

lemma distinct_srt: "distinct (srt lt xs) \<longleftrightarrow> distinct xs"
  using perm mset_eq_imp_distinct_iff by blast

lemma distinct_map_srt: "distinct (map f (srt lt xs)) \<longleftrightarrow> distinct (map f xs)"
  by (rule mset_eq_imp_distinct_iff) (simp add: perm)

lemma sum_list_srt: "sum_list (map f (srt lt xs)) = (sum_list (map f xs) :: 'b :: comm_monoid_add)"
  using perm by (metis mset_map sum_mset_sum_list)

lemma nth_srt:
  "strict_weak lt \<Longrightarrow> i < j \<Longrightarrow> j < length xs \<Longrightarrow> \<not> lt (srt lt xs ! j) (srt lt xs ! i)"
  using ordered [of lt xs] length_srt [of lt xs]
  unfolding in_order_def sorted_wrt_iff_nth_less by simp

lemma srt_Nil: "srt lt [] = []"
  using length_srt [of lt "[]"] by simp

lemma srt_eq_Nil: "srt lt xs = [] \<longleftrightarrow> xs = []"
  using length_srt [of lt xs] by (metis length_0_conv)

end

lemma mset_insert_by: "mset (insert_by lt x ys) = add_mset x (mset ys)"
  by (induction ys) auto

lemma set_insert_by: "set (insert_by lt x ys) = insert x (set ys)"
  using mset_insert_by by (metis set_mset_add_mset_insert set_mset_mset)

lemma in_order_insert_by:
  assumes sw: "strict_weak lt"
  shows "in_order lt ys \<Longrightarrow> in_order lt (insert_by lt x ys)"
proof (induction ys)
  case Nil
  then show ?case by (simp add: in_order_def)
next
  case (Cons y ys)
  then have y: "\<forall>z \<in> set ys. \<not> lt z y" and IH: "in_order lt (insert_by lt x ys)"
    by (auto simp: in_order_def)
  show ?case
  proof (cases "lt y x")
    case True
    then have "\<not> lt x y" using sw unfolding strict_weak_def by blast
    with True y IH show ?thesis by (auto simp: in_order_def set_insert_by)
  next
    case False
    then have "\<forall>z \<in> set ys. \<not> lt z x"
      using y sw unfolding strict_weak_def by blast
    with False Cons.prems show ?thesis by (auto simp: in_order_def)
  qed
qed

lemma mset_go_sort: "mset (go_sort lt xs) = mset xs"
  by (induction xs) (auto simp: mset_insert_by)

lemma in_order_go_sort: "strict_weak lt \<Longrightarrow> in_order lt (go_sort lt xs)"
  by (induction xs) (auto simp: in_order_insert_by in_order_def [of lt "[]"])

interpretation gs: slice_sort go_sort
  by unfold_locales (auto simp: mset_go_sort in_order_go_sort)

lemmas go_sort_simps [simp] =
  gs.set_srt gs.length_srt gs.distinct_srt gs.srt_eq_Nil gs.distinct_map_srt

text \<open>Orders given by a key into a linear order are strict weak orders.\<close>

lemma strict_weak_key [simp, go_intros]:
  "strict_weak (\<lambda>a b. (f a :: 'b :: linorder) < f b)"
  by (auto simp: strict_weak_def)

lemma strict_weak_key_rev [simp, go_intros]:
  "strict_weak (\<lambda>a b. (f b :: 'b :: linorder) < f a)"
  by (auto simp: strict_weak_def)

lemma in_order_key: "in_order (\<lambda>a b. (f a :: 'b :: linorder) < f b) xs \<longleftrightarrow> sorted (map f xs)"
  by (simp add: in_order_def sorted_map not_less)

section \<open>Finite maps as functions, and lists\<close>

text \<open>\<open>delete(m, k)\<close> of a Go map.\<close>

abbreviation map_delete :: "('k \<rightharpoonup> 'v) \<Rightarrow> 'k \<Rightarrow> ('k \<rightharpoonup> 'v)" where
  "map_delete m k \<equiv> m(k := None)"

lemma sorted_wrt_nth_mono:
  "sorted_wrt R xs \<Longrightarrow> i < j \<Longrightarrow> j < length xs \<Longrightarrow> R (xs ! i) (xs ! j)"
  by (simp add: sorted_wrt_iff_nth_less)

lemma map_update_same: "f x = f (xs ! i) \<Longrightarrow> map f (xs[i := x]) = map f xs"
  by (metis list_update_id map_update)

lemma filter_mset_eqI: "mset xs = mset ys \<Longrightarrow> mset (filter P xs) = mset (filter P ys)"
  by (metis mset_filter)

end
