(* ===== verification/Codec.thy ===== *)
theory Codec
  imports Prelude
begin

unbundle bit_operations_syntax

text \<open>
  Byte formats: big-endian integers and varints (Go's \<open>encoding/binary\<close>), the
  internal keys of \<open>y/y.go\<close> (user key, then the complement of the timestamp), the
  value structs of \<open>y/iterator.go\<close>, and the value pointer, value-log header and
  entry of \<open>structs.go\<close>. The lemmas give the round trips, and the order of internal
  keys: by user key first, newer versions before older ones.
\<close>

section \<open>Integers as bytes\<close>

fun be_put :: "nat \<Rightarrow> nat \<Rightarrow> bytes" where
  "be_put 0 x = []"
| "be_put (Suc n) x = be_put n (x div 256) @ [word_of_nat x]"

definition be_get :: "bytes \<Rightarrow> nat" where
  "be_get bs = foldl (\<lambda>a b. a * 256 + unat b) 0 bs"

lemma length_be_put [simp]: "length (be_put n x) = n"
  by (induction n arbitrary: x) auto

lemma be_get_Nil [simp]: "be_get [] = 0"
  by (simp add: be_get_def)

lemma be_get_snoc [simp]: "be_get (bs @ [b]) = be_get bs * 256 + unat b"
  by (simp add: be_get_def)

lemma be_get_acc: "foldl (\<lambda>a b. a * 256 + unat b) k bs = k * 256 ^ length bs + be_get bs"
  by (induction bs rule: rev_induct) (auto simp: algebra_simps be_get_def)

lemma be_get_Cons: "be_get (b # bs) = unat b * 256 ^ length bs + be_get bs"
  using be_get_acc [of "unat b" bs] by (simp add: be_get_def)

lemma unat_byte_of_nat [simp]: "unat (word_of_nat x :: byte) = x mod 256"
  by (simp add: unat_of_nat)

lemma be_get_put: "be_get (be_put n x) = x mod 256 ^ n"
proof (induction n arbitrary: x)
  case 0
  then show ?case by simp
next
  case (Suc n)
  then show ?case by (simp add: mod_mult2_eq mult.commute)
qed

lemma be_get_less: "be_get bs < 256 ^ length bs"
proof (induction bs rule: rev_induct)
  case Nil
  then show ?case by simp
next
  case (snoc b bs)
  have "unat b < 256" using unsigned_less [of b, where ?'a = nat] by simp
  with snoc show ?case by simp
qed

text \<open>On strings of one length, the lexicographic order is the order of the numbers.\<close>

lemma be_get_less_iff: "length xs = length ys \<Longrightarrow> xs < ys \<longleftrightarrow> be_get xs < be_get ys"
proof (induction xs ys rule: list_induct2)
  case Nil
  then show ?case by simp
next
  case (Cons x xs y ys)
  let ?m = "256 ^ length xs :: nat"
  have lx: "be_get xs < ?m" and ly: "be_get ys < ?m"
    using be_get_less [of xs] be_get_less [of ys] Cons.hyps by auto
  have eq: "be_get (x # xs) = unat x * ?m + be_get xs" "be_get (y # ys) = unat y * ?m + be_get ys"
    using Cons.hyps by (simp_all add: be_get_Cons)
  consider "x < y" | "x = y" | "y < x" by fastforce
  then show ?case
  proof cases
    case 1
    then have "Suc (unat x) * ?m \<le> unat y * ?m"
      by (intro mult_le_mono) (auto simp: word_less_nat_alt)
    with 1 lx show ?thesis unfolding eq by simp
  next
    case 2
    with Cons.IH show ?thesis unfolding eq by simp
  next
    case 3
    then have "Suc (unat y) * ?m \<le> unat x * ?m"
      by (intro mult_le_mono) (auto simp: word_less_nat_alt)
    with 3 ly show ?thesis unfolding eq by (auto simp: not_less)
  qed
qed

text \<open>\<open>binary.BigEndian.PutUint64\<close> and \<open>Uint64\<close>, and the 16 and 32 bit ones.\<close>

definition PutUint64 :: "u64 \<Rightarrow> bytes" where
  "PutUint64 v = be_put 8 (unat v)"

definition Uint64 :: "bytes \<Rightarrow> u64" where
  "Uint64 bs = word_of_nat (be_get bs)"

lemma length_PutUint64 [simp]: "length (PutUint64 v) = 8"
  by (simp add: PutUint64_def)

lemma Uint64_Put [simp]: "Uint64 (PutUint64 v) = v"
proof -
  have "unat v mod 256 ^ 8 = unat v" using unsigned_less [of v, where ?'a = nat] by simp
  then show ?thesis by (simp add: Uint64_def PutUint64_def be_get_put)
qed

lemma be_get_inj: "length xs = length ys \<Longrightarrow> be_get xs = be_get ys \<Longrightarrow> xs = ys"
  using be_get_less_iff [of xs ys] be_get_less_iff [of ys xs] by simp

lemma Put_Uint64: "length s = 8 \<Longrightarrow> PutUint64 (Uint64 s) = s"
  using be_get_less [of s]
  by (intro be_get_inj) (auto simp: PutUint64_def Uint64_def be_get_put unat_of_nat)

lemma PutUint64_less_iff: "PutUint64 v < PutUint64 w \<longleftrightarrow> v < w"
proof -
  have "unat v mod 256 ^ 8 = unat v" "unat w mod 256 ^ 8 = unat w"
    using unsigned_less [of v, where ?'a = nat] unsigned_less [of w, where ?'a = nat] by simp_all
  then show ?thesis
    by (simp add: be_get_less_iff PutUint64_def be_get_put word_less_nat_alt)
qed

definition U16ToBytes :: "u16 \<Rightarrow> bytes" where
  "U16ToBytes v = be_put 2 (unat v)"

definition BytesToU16 :: "bytes \<Rightarrow> u16 option" where
  "BytesToU16 b = (if length b < 2 then None else Some (word_of_nat (be_get (take 2 b))))"

definition U32ToBytes :: "u32 \<Rightarrow> bytes" where
  "U32ToBytes v = be_put 4 (unat v)"

definition BytesToU32 :: "bytes \<Rightarrow> u32 option" where
  "BytesToU32 b = (if length b < 4 then None else Some (word_of_nat (be_get (take 4 b))))"

definition U64ToBytes :: "u64 \<Rightarrow> bytes" where
  "U64ToBytes v = PutUint64 v"

definition BytesToU64 :: "bytes \<Rightarrow> u64 option" where
  "BytesToU64 b = (if length b < 8 then None else Some (Uint64 (take 8 b)))"

lemma length_UToBytes [simp]: "length (U16ToBytes v) = 2" "length (U32ToBytes w) = 4"
  by (simp_all add: U16ToBytes_def U32ToBytes_def)

lemma BytesToU16_append [go_simps]: "BytesToU16 (U16ToBytes v @ r) = Some v"
proof -
  have "unat v mod 256 ^ 2 = unat v" using unsigned_less [of v, where ?'a = nat] by simp
  then show ?thesis by (simp add: BytesToU16_def U16ToBytes_def be_get_put)
qed

lemma BytesToU32_append [go_simps]: "BytesToU32 (U32ToBytes v @ r) = Some v"
proof -
  have "unat v mod 256 ^ 4 = unat v" using unsigned_less [of v, where ?'a = nat] by simp
  then show ?thesis by (simp add: BytesToU32_def U32ToBytes_def be_get_put)
qed

lemma BytesToU64_append [go_simps]: "BytesToU64 (U64ToBytes v @ r) = Some v"
  by (simp add: BytesToU64_def U64ToBytes_def)

section \<open>Internal keys\<close>

text \<open>\<open>KeyWithTs\<close> appends the complement of the timestamp, big-endian.\<close>

definition KeyWithTs :: "bytes \<Rightarrow> u64 \<Rightarrow> bytes" where
  "KeyWithTs key ts = key @ PutUint64 (- 1 - ts)"

definition ParseTs :: "bytes \<Rightarrow> u64" where
  "ParseTs key =
     (if length key \<le> 8 then 0 else - 1 - Uint64 (drop (length key - 8) key))"

text \<open>
  \<open>ParseKey\<close> slices off the suffix; a key shorter than eight bytes panics in Go
  (here \<open>None\<close>), and \<open>nil\<close> stays \<open>nil\<close> (the caller's empty case).
  \<open>parse_key\<close> and \<open>key_suffix\<close> are its total forms on keys that have a suffix.
\<close>

definition parse_key :: "bytes \<Rightarrow> bytes" where
  "parse_key key = take (length key - 8) key"

definition key_suffix :: "bytes \<Rightarrow> bytes" where
  "key_suffix key = drop (length key - 8) key"

definition ParseKey :: "bytes option \<Rightarrow> bytes option option" where
  "ParseKey key = (case key of None \<Rightarrow> Some None
     | Some k \<Rightarrow> if length k < 8 then None else Some (Some (parse_key k)))"

definition key_ok :: "bytes \<Rightarrow> bool" where
  "key_ok k \<longleftrightarrow> 8 \<le> length k"

text \<open>
  \<open>CompareKeys\<close> compares the user keys, then the suffixes; it panics on a key
  without a suffix. \<open>cmp_keys\<close> is the comparison where it does not panic.
\<close>

definition cmp_keys :: "bytes \<Rightarrow> bytes \<Rightarrow> int" where
  "cmp_keys key1 key2 =
     (let cmp = bytes_compare (parse_key key1) (parse_key key2)
      in if cmp \<noteq> 0 then cmp else bytes_compare (key_suffix key1) (key_suffix key2))"

definition CompareKeys :: "bytes \<Rightarrow> bytes \<Rightarrow> int option" where
  "CompareKeys key1 key2 =
     (if length key1 < 8 \<or> length key2 < 8 then None else Some (cmp_keys key1 key2))"

definition SameKey :: "bytes \<Rightarrow> bytes \<Rightarrow> bool" where
  "SameKey src dst \<longleftrightarrow> length src = length dst \<and> parse_key src = parse_key dst"

lemma parse_key_KeyWithTs [simp]: "parse_key (KeyWithTs k ts) = k"
  by (simp add: parse_key_def KeyWithTs_def)

lemma key_suffix_KeyWithTs: "key_suffix (KeyWithTs k ts) = PutUint64 (- 1 - ts)"
  by (simp add: key_suffix_def KeyWithTs_def)

lemma length_KeyWithTs [simp]: "length (KeyWithTs k ts) = length k + 8"
  by (simp add: KeyWithTs_def)

lemma key_ok_KeyWithTs [simp, go_intros]: "key_ok (KeyWithTs k ts)"
  by (simp add: key_ok_def)

lemma ParseTs_KeyWithTs [simp]: "k \<noteq> [] \<Longrightarrow> ParseTs (KeyWithTs k ts) = ts"
  by (cases k) (auto simp: ParseTs_def KeyWithTs_def)

lemma key_split: "parse_key k @ key_suffix k = k"
  by (simp add: parse_key_def key_suffix_def)

lemma key_ext: "parse_key a = parse_key b \<Longrightarrow> key_suffix a = key_suffix b \<Longrightarrow> a = b"
  by (metis key_split)

lemma SameKey_iff: "key_ok a \<Longrightarrow> key_ok b \<Longrightarrow> SameKey a b \<longleftrightarrow> parse_key a = parse_key b"
proof -
  assume "key_ok a" "key_ok b"
  then have "length (parse_key a) = length a - 8" "length (parse_key b) = length b - 8"
    "8 \<le> length a" "8 \<le> length b"
    by (auto simp: parse_key_def key_ok_def)
  then show ?thesis unfolding SameKey_def by (metis le_add_diff_inverse)
qed

lemma unat_complement: "unat (- 1 - s) = 2 ^ LENGTH('a) - 1 - unat (s :: 'a :: len word)"
proof -
  have "unat (- 1 - s) = unat (- 1 :: 'a word) - unat s"
    by (rule unat_sub) simp
  moreover have "unat (- 1 :: 'a word) = 2 ^ LENGTH('a) - 1"
    by (simp add: unsigned_minus_1_eq_mask mask_eq_exp_minus_1)
  ultimately show ?thesis by simp
qed

lemma complement_less_iff: "(- 1 - s < - 1 - t) \<longleftrightarrow> (t :: 'a :: len word) < s"
proof -
  have "unat s < 2 ^ LENGTH('a)" "unat t < 2 ^ LENGTH('a)" by (simp_all add: unsigned_less)
  then show ?thesis unfolding word_less_nat_alt unat_complement by linarith
qed

text \<open>The order of internal keys: user key ascending, then timestamp descending.\<close>

lemma cmp_keys_KeyWithTs_less:
  "cmp_keys (KeyWithTs k s) (KeyWithTs l t) < 0 \<longleftrightarrow> k < l \<or> k = l \<and> t < s"
  by (auto simp: cmp_keys_def Let_def key_suffix_KeyWithTs PutUint64_less_iff
      complement_less_iff)

text \<open>\<open>cmp_keys\<close> is a linear order, with \<open>key_less\<close> as its strict part.\<close>

definition key_less :: "bytes \<Rightarrow> bytes \<Rightarrow> bool" where
  "key_less a b \<longleftrightarrow> cmp_keys a b < 0"

definition key_le :: "bytes \<Rightarrow> bytes \<Rightarrow> bool" where
  "key_le a b \<longleftrightarrow> cmp_keys a b \<le> 0"

abbreviation key_rank :: "bytes \<Rightarrow> bytes \<times> bytes" where
  "key_rank k \<equiv> (parse_key k, key_suffix k)"

lemma cmp_keys_eq_0 [simp]: "cmp_keys a b = 0 \<longleftrightarrow> a = b"
  by (auto simp: cmp_keys_def Let_def intro: key_ext)

lemma key_less_alt:
  "key_less a b \<longleftrightarrow> parse_key a < parse_key b \<or> parse_key a = parse_key b \<and> key_suffix a < key_suffix b"
  by (auto simp: key_less_def cmp_keys_def Let_def)

lemma cmp_keys_greater: "0 < cmp_keys a b \<longleftrightarrow> key_less b a"
  by (auto simp: key_less_alt cmp_keys_def Let_def)

lemma cmp_keys_ge: "0 \<le> cmp_keys a b \<longleftrightarrow> key_le b a"
  using cmp_keys_greater [of b a] cmp_keys_greater [of a b]
  by (metis cmp_keys_eq_0 key_le_def key_less_def linorder_not_le linorder_neqE order_less_imp_le)

lemma key_le_iff: "key_le a b \<longleftrightarrow> key_less a b \<or> a = b"
  by (auto simp: key_le_def key_less_def order_le_less)

lemma key_less_irrefl [simp]: "\<not> key_less a a"
  by (simp add: key_less_alt)

lemma key_less_trans: "key_less a b \<Longrightarrow> key_less b c \<Longrightarrow> key_less a c"
  by (auto simp: key_less_alt)

lemma key_less_asym: "key_less a b \<Longrightarrow> \<not> key_less b a"
  by (auto simp: key_less_alt)

lemma key_less_linear: "key_less a b \<or> a = b \<or> key_less b a"
  unfolding key_less_alt by (metis key_ext linorder_less_linear)

lemma key_le_refl [simp]: "key_le a a"
  by (simp add: key_le_iff)

lemma not_key_less: "\<not> key_less a b \<longleftrightarrow> key_le b a"
  by (metis key_le_iff key_less_asym key_less_linear)

lemma not_key_le: "\<not> key_le a b \<longleftrightarrow> key_less b a"
  using not_key_less by blast

lemma key_le_trans: "key_le a b \<Longrightarrow> key_le b c \<Longrightarrow> key_le a c"
  by (metis key_le_iff key_less_trans)

lemma key_le_less_trans: "key_le a b \<Longrightarrow> key_less b c \<Longrightarrow> key_less a c"
  by (metis key_le_iff key_less_trans)

lemma key_less_le_trans: "key_less a b \<Longrightarrow> key_le b c \<Longrightarrow> key_less a c"
  by (metis key_le_iff key_less_trans)

lemma key_le_antisym: "key_le a b \<Longrightarrow> key_le b a \<Longrightarrow> a = b"
  by (metis key_le_iff key_less_asym)

lemmas key_order = key_less_trans key_le_trans key_le_less_trans key_less_le_trans

lemma strict_weak_key_less [simp, go_intros]: "strict_weak (\<lambda>a b. key_less (f a) (f b))"
  unfolding strict_weak_def by (metis key_less_asym not_key_less key_le_trans)

section \<open>Varints\<close>

text \<open>
  \<open>binary.PutUvarint\<close> writes seven bits per byte, low ones first, with the high
  bit set on all but the last byte. The numbers are the values of \<open>uint64\<close>s.
\<close>

fun put_uvarint :: "nat \<Rightarrow> bytes" where
  "put_uvarint x =
     (if x < 128 then [word_of_nat x]
      else word_of_nat (x mod 128 + 128) # put_uvarint (x div 128))"

declare put_uvarint.simps [simp del]

text \<open>
  \<open>binary.Uvarint\<close>: the value and the number of bytes read; 0 bytes when the
  input ends first, a negative count for more than 64 bits.
\<close>

fun uvarint_loop :: "nat \<Rightarrow> nat \<Rightarrow> bytes \<Rightarrow> nat \<times> int" where
  "uvarint_loop i x [] = (0, 0)"
| "uvarint_loop i x (b # bs) =
     (if i = 10 then (0, - int (i + 1))
      else if unat b < 128 then
        if i = 9 \<and> 1 < unat b then (0, - int (i + 1))
        else (x + unat b * 128 ^ i, int (i + 1))
      else uvarint_loop (i + 1) (x + (unat b - 128) * 128 ^ i) bs)"

definition Uvarint :: "bytes \<Rightarrow> nat \<times> int" where
  "Uvarint buf = uvarint_loop 0 0 buf"

text \<open>\<open>sizeVarint\<close> counts the seven-bit groups.\<close>

fun sizeVarint :: "nat \<Rightarrow> nat" where
  "sizeVarint x = (if x div 128 = 0 then 1 else 1 + sizeVarint (x div 128))"

declare sizeVarint.simps [simp del]

lemma length_put_uvarint [simp]: "length (put_uvarint x) = sizeVarint x"
proof (induction x rule: put_uvarint.induct)
  case (1 x)
  then show ?case
    by (subst put_uvarint.simps, subst sizeVarint.simps) (auto simp: div_eq_0_iff)
qed

lemma sizeVarint_pos [simp]: "0 < sizeVarint x"
  by (subst sizeVarint.simps) simp

lemma sizeVarint_bound: "x < 128 ^ n \<Longrightarrow> 0 < n \<Longrightarrow> sizeVarint x \<le> n"
proof (induction n arbitrary: x)
  case 0
  then show ?case by simp
next
  case (Suc n)
  show ?case
  proof (cases "x div 128 = 0")
    case True
    then show ?thesis by (subst sizeVarint.simps) simp
  next
    case False
    then have "0 < n" using Suc.prems by (cases n) auto
    moreover have "x div 128 < 128 ^ n" using Suc.prems by (simp add: less_mult_imp_div_less)
    ultimately have "sizeVarint (x div 128) \<le> n" using Suc.IH by blast
    with False show ?thesis by (subst sizeVarint.simps) simp
  qed
qed

lemma uvarint_loop_put:
  "x * 128 ^ i < 2 ^ 64 \<Longrightarrow> i \<le> 9 \<Longrightarrow>
    uvarint_loop i acc (put_uvarint x @ r) = (acc + x * 128 ^ i, int (i + sizeVarint x))"
proof (induction x arbitrary: i acc rule: put_uvarint.induct)
  case (1 x)
  have p9: "(2::nat) ^ 64 = 2 * 128 ^ 9" by simp
  show ?case
  proof (cases "x < 128")
    case True
    then have b: "unat (word_of_nat x :: byte) = x" by simp
    have "x < 2" if "i = 9" using "1.prems"(1) that by simp
    with True "1.prems"(2) b show ?thesis
      by (subst put_uvarint.simps, subst sizeVarint.simps) (auto simp del: unat_byte_of_nat)
  next
    case False
    let ?b = "word_of_nat (x mod 128 + 128) :: byte"
    have "x mod 128 < 128" by simp
    then have b: "unat ?b = x mod 128 + 128"
      by (subst unat_byte_of_nat) (rule mod_less, linarith)
    have "x * 128 ^ i = (x mod 128 + x div 128 * 128) * 128 ^ i" by simp
    also have "\<dots> = (x mod 128) * 128 ^ i + (x div 128) * 128 ^ (i + 1)"
      by (simp only: distrib_right distrib_left power_add power_one_right mult_ac)
    finally have split: "x * 128 ^ i = (x mod 128) * 128 ^ i + (x div 128) * 128 ^ (i + 1)" .
    have lt: "(x div 128) * 128 ^ (i + 1) < 2 ^ 64" using "1.prems"(1) split by linarith
    have "i + 1 \<le> 9"
    proof (rule ccontr)
      assume "\<not> ?thesis"
      then have "(128::nat) ^ 10 \<le> 128 ^ (i + 1)" by (intro power_increasing) auto
      also have "128 ^ (i + 1) \<le> (x div 128) * 128 ^ (i + 1)"
        using mult_le_mono1 [of 1 "x div 128" "128 ^ (i + 1)"] False by (simp add: Suc_le_eq div_greater_zero_iff)
      also note lt
      finally show False by simp
    qed
    moreover have "sizeVarint x = 1 + sizeVarint (x div 128)"
      using False by (subst sizeVarint.simps) (simp add: div_eq_0_iff)
    ultimately show ?thesis
      using "1.IH" [OF False lt] split b False "1.prems"(2)
      by (subst put_uvarint.simps) (simp del: unat_byte_of_nat)
  qed
qed

lemma Uvarint_put [go_simps]:
  "Uvarint (put_uvarint (unat (v :: u64)) @ r) = (unat v, int (sizeVarint (unat v)))"
proof -
  have "unat v < 2 ^ 64" using unsigned_less [of v, where ?'a = nat] by simp
  then show ?thesis using uvarint_loop_put [of "unat v" 0 0 r] by (simp add: Uvarint_def)
qed

lemma sizeVarint_u64: "sizeVarint (unat (v :: u64)) \<le> 10"
proof -
  have "unat v < 2 ^ 64" using unsigned_less [of v, where ?'a = nat] by simp
  then show ?thesis by (intro sizeVarint_bound) simp_all
qed

lemma sizeVarint_u32: "sizeVarint (unat (v :: u32)) \<le> 5"
proof -
  have "unat v < 2 ^ 32" using unsigned_less [of v, where ?'a = nat] by simp
  then show ?thesis by (intro sizeVarint_bound) simp_all
qed

section \<open>Value structs\<close>

text \<open>
  \<open>y.ValueStruct\<close>; a nil \<open>Value\<close> is \<open>None\<close>. \<open>Version\<close> is not serialized.
\<close>

record ValueStruct =
  vs_Meta :: byte
  vs_UserMeta :: byte
  vs_ExpiresAt :: u64
  vs_Value :: "bytes option"
  vs_Version :: u64

definition zero_vs :: ValueStruct where
  "zero_vs = \<lparr>vs_Meta = 0, vs_UserMeta = 0, vs_ExpiresAt = 0, vs_Value = None, vs_Version = 0\<rparr>"

definition slice_bytes :: "bytes option \<Rightarrow> bytes" where
  "slice_bytes v = (case v of None \<Rightarrow> [] | Some b \<Rightarrow> b)"

lemma slice_bytes_simps [simp]: "slice_bytes None = []" "slice_bytes (Some b) = b"
  by (simp_all add: slice_bytes_def)

text \<open>\<open>vs.Value == nil && vs.Meta == 0\<close>: no such key.\<close>

definition vs_absent :: "ValueStruct \<Rightarrow> bool" where
  "vs_absent vs \<longleftrightarrow> vs_Value vs = None \<and> vs_Meta vs = 0"

definition EncodedSize :: "ValueStruct \<Rightarrow> u32" where
  "EncodedSize v =
     word_of_nat (length (slice_bytes (vs_Value v)) + 2 + sizeVarint (unat (vs_ExpiresAt v)))"

definition EncodeTo :: "ValueStruct \<Rightarrow> bytes" where
  "EncodeTo v = [vs_Meta v, vs_UserMeta v] @ put_uvarint (unat (vs_ExpiresAt v)) @
     slice_bytes (vs_Value v)"

text \<open>
  \<open>Encode\<close> writes into a given slice: too short for the fixed part it panics
  (\<open>None\<close>), and \<open>copy\<close> truncates the value to the room that is left. The result is
  the slice afterwards and the number of bytes written.
\<close>

definition Encode :: "ValueStruct \<Rightarrow> bytes \<Rightarrow> (bytes \<times> u32) option" where
  "Encode v b =
     (let hd = [vs_Meta v, vs_UserMeta v] @ put_uvarint (unat (vs_ExpiresAt v));
          room = length b - length hd;
          val = take room (slice_bytes (vs_Value v));
          n = length hd + length val
      in if length b < length hd then None
         else Some (hd @ val @ drop n b, word_of_nat n))"

text \<open>
  \<open>Decode\<close> into a value struct: the two metas (indexing past the end panics), the
  varint, and the rest as the value; a malformed varint gives a count that is not
  positive, and slicing at a negative index panics.
\<close>

definition slice_from :: "bytes \<Rightarrow> int \<Rightarrow> bytes option" where
  "slice_from b i = (if 0 \<le> i \<and> i \<le> int (length b) then Some (drop (nat i) b) else None)"

definition Decode :: "ValueStruct \<Rightarrow> bytes \<Rightarrow> ValueStruct option" where
  "Decode v b =
     (if length b < 2 then None
      else let (x, sz) = Uvarint (drop 2 b) in
        case slice_from b (2 + sz) of None \<Rightarrow> None
        | Some val \<Rightarrow> Some (v\<lparr>vs_Meta := b ! 0, vs_UserMeta := b ! 1,
            vs_ExpiresAt := word_of_nat x, vs_Value := Some val\<rparr>))"

lemma length_EncodeTo:
  "length (EncodeTo v) = length (slice_bytes (vs_Value v)) + 2 + sizeVarint (unat (vs_ExpiresAt v))"
  by (simp add: EncodeTo_def)

lemma EncodedSize_EncodeTo: "EncodedSize v = word_of_nat (length (EncodeTo v))"
  unfolding EncodedSize_def length_EncodeTo by simp

lemma Encode_EncodeTo:
  "length (EncodeTo v) \<le> length b \<Longrightarrow>
    Encode v b = Some (EncodeTo v @ drop (length (EncodeTo v)) b, EncodedSize v)"
  by (simp add: Encode_def EncodedSize_EncodeTo Let_def length_EncodeTo)
    (simp add: EncodeTo_def add.commute)

lemma Decode_EncodeTo:
  "Decode w (EncodeTo v) = Some (v\<lparr>vs_Value := Some (slice_bytes (vs_Value v)),
     vs_Version := vs_Version w\<rparr>)"
  by (simp add: Decode_def EncodeTo_def Uvarint_put slice_from_def nat_add_distrib
      drop_append)

section \<open>Value pointers and value-log headers\<close>

record valuePointer =
  vp_Fid :: u32
  vp_Len :: u32
  vp_Offset :: u32

definition vp_Less :: "valuePointer \<Rightarrow> valuePointer \<Rightarrow> bool" where
  "vp_Less p q =
     (if vp_Fid p \<noteq> vp_Fid q then vp_Fid p < vp_Fid q
      else if vp_Offset p \<noteq> vp_Offset q then vp_Offset p < vp_Offset q
      else vp_Len p < vp_Len q)"

definition vp_IsZero :: "valuePointer \<Rightarrow> bool" where
  "vp_IsZero p \<longleftrightarrow> vp_Fid p = 0 \<and> vp_Offset p = 0 \<and> vp_Len p = 0"

text \<open>
  \<open>Encode\<close> copies the struct's memory: its three fields in order, each in the
  machine's byte order (little-endian on the platforms badger supports).
\<close>

definition le_u32 :: "u32 \<Rightarrow> bytes" where
  "le_u32 x = rev (U32ToBytes x)"

definition le_get_u32 :: "bytes \<Rightarrow> u32" where
  "le_get_u32 bs = word_of_nat (be_get (rev bs))"

definition vp_Encode :: "valuePointer \<Rightarrow> bytes" where
  "vp_Encode p = le_u32 (vp_Fid p) @ le_u32 (vp_Len p) @ le_u32 (vp_Offset p)"

definition vp_Decode :: "bytes \<Rightarrow> valuePointer option" where
  "vp_Decode b = (if length b < 12 then None else Some
     \<lparr>vp_Fid = le_get_u32 (take 4 b), vp_Len = le_get_u32 (take 4 (drop 4 b)),
      vp_Offset = le_get_u32 (take 4 (drop 8 b))\<rparr>)"

lemma length_le_u32 [simp]: "length (le_u32 x) = 4"
  by (simp add: le_u32_def)

lemma le_get_le_u32 [simp]: "le_get_u32 (le_u32 x) = x"
  using BytesToU32_append [of x "[]"] by (simp add: le_get_u32_def le_u32_def BytesToU32_def)

lemma vp_Decode_Encode [go_simps]: "vp_Decode (vp_Encode p @ r) = Some p"
  by (simp add: vp_Decode_def vp_Encode_def)

record header =
  h_klen :: u32
  h_vlen :: u32
  h_expiresAt :: u64
  h_meta :: byte
  h_userMeta :: byte

definition header_Encode :: "header \<Rightarrow> bytes" where
  "header_Encode h = [h_meta h, h_userMeta h] @ put_uvarint (unat (h_klen h)) @
     put_uvarint (unat (h_vlen h)) @ put_uvarint (unat (h_expiresAt h))"

text \<open>
  \<open>Decode\<close> returns the header and the index after it; every slicing of the buffer
  panics when the index has left it.
\<close>

definition header_Decode :: "bytes \<Rightarrow> (header \<times> int) option" where
  "header_Decode buf =
     (if length buf < 2 then None
      else let (klen, c1) = Uvarint (drop 2 buf); i1 = 2 + c1 in
        case slice_from buf i1 of None \<Rightarrow> None | Some b1 \<Rightarrow>
        let (vlen, c2) = Uvarint b1; i2 = i1 + c2 in
        case slice_from buf i2 of None \<Rightarrow> None | Some b2 \<Rightarrow>
        let (exp, c3) = Uvarint b2 in
        Some (\<lparr>h_klen = word_of_nat klen, h_vlen = word_of_nat vlen,
               h_expiresAt = word_of_nat exp, h_meta = buf ! 0, h_userMeta = buf ! 1\<rparr>,
              i2 + c3))"

lemma Uvarint_put_u32 [go_simps]:
  "Uvarint (put_uvarint (unat (v :: u32)) @ r) = (unat v, int (sizeVarint (unat v)))"
proof -
  have "unat v < 2 ^ 32" using unsigned_less [of v, where ?'a = nat] by simp
  then show ?thesis using uvarint_loop_put [of "unat v" 0 0 r] by (simp add: Uvarint_def)
qed

lemma slice_from_append:
  "i = int (length a) \<Longrightarrow> slice_from (a @ b) i = Some b"
  by (simp add: slice_from_def)

lemma header_Decode_Encode:
  "header_Decode (header_Encode h @ r) = Some (h, int (length (header_Encode h)))"
proof -
  let ?k = "put_uvarint (unat (h_klen h))" and ?v = "put_uvarint (unat (h_vlen h))"
    and ?e = "put_uvarint (unat (h_expiresAt h))" and ?m = "[h_meta h, h_userMeta h]"
  have s1: "slice_from (?m @ ?k @ ?v @ ?e @ r) (2 + int (sizeVarint (unat (h_klen h)))) =
      Some (?v @ ?e @ r)"
    using slice_from_append [of _ "?m @ ?k" "?v @ ?e @ r"] by simp
  have s2: "slice_from (?m @ ?k @ ?v @ ?e @ r)
      (2 + int (sizeVarint (unat (h_klen h))) + int (sizeVarint (unat (h_vlen h)))) =
      Some (?e @ r)"
    using slice_from_append [of _ "?m @ ?k @ ?v" "?e @ r"] by (simp add: add.assoc)
  show ?thesis
    using s1 s2 by (simp add: header_Decode_def header_Encode_def Let_def go_simps)
qed

lemma length_header_Encode: "length (header_Encode h) \<le> 22"
  using sizeVarint_u32 [of "h_klen h"] sizeVarint_u32 [of "h_vlen h"]
    sizeVarint_u64 [of "h_expiresAt h"]
  by (simp add: header_Encode_def)

end
