(* ===== verification/Manifest.thy ===== *)
theory Manifest
  imports Codec
begin

text \<open>
  \<open>manifest.go\<close>: the manifest in memory and its changes, and the MANIFEST file: the
  header, a frame (length, checksum, change set) per batch of changes, the rewrite
  that replaces the log by one change set, and the replay that opens a store. The
  protocol buffer encoding is third-party code: \<open>marshal\<close> and \<open>unmarshal\<close> are
  parameters. So is the order in which Go ranges over a map (\<open>keys\<close>). The error
  returns of the operating system's file calls are left out.
\<close>

section \<open>The manifest and its changes\<close>

record TableManifest =
  tm_Level :: byte
  tm_KeyID :: u64
  tm_Compression :: u32

record Manifest =
  m_Levels :: "u64 set list"
  m_Tables :: "u64 \<rightharpoonup> TableManifest"
  m_Creations :: int
  m_Deletions :: int

definition createManifest :: Manifest where
  "createManifest = \<lparr>m_Levels = [], m_Tables = Map.empty, m_Creations = 0, m_Deletions = 0\<rparr>"

datatype Operation = CREATE | DELETE | OtherOp int

record ManifestChange =
  mc_Id :: u64
  mc_Op :: Operation
  mc_Level :: u32
  mc_KeyId :: u64
  mc_EncryptionAlgo :: u32
  mc_Compression :: u32

datatype manifest_error =
  TableExists u64
| RemovesMissing u64
| InvalidOp
| BadMagic
| UnsupportedVersion u16
| ExternalMagicMismatch u16 u16
| BufferTooLong nat nat
| BadChecksum
| BadProto
| IndexOutOfRange nat

definition newCreateChange :: "u64 \<Rightarrow> nat \<Rightarrow> u64 \<Rightarrow> u32 \<Rightarrow> ManifestChange" where
  "newCreateChange tid level keyID c = \<lparr>mc_Id = tid, mc_Op = CREATE, mc_Level = word_of_nat level,
     mc_KeyId = keyID, mc_EncryptionAlgo = 0, mc_Compression = c\<rparr>"

definition newDeleteChange :: "u64 \<Rightarrow> ManifestChange" where
  "newDeleteChange tid = \<lparr>mc_Id = tid, mc_Op = DELETE, mc_Level = 0, mc_KeyId = 0,
     mc_EncryptionAlgo = 0, mc_Compression = 0\<rparr>"

text \<open>The levels grow until they reach the level of the change.\<close>

definition grow_levels :: "u64 set list \<Rightarrow> nat \<Rightarrow> u64 set list" where
  "grow_levels ls l = ls @ replicate (Suc l - length ls) {}"

text \<open>
  \<open>applyManifestChange\<close> gives the manifest afterwards and the error, if any. The error
  \<open>IndexOutOfRange\<close> stands for the panic at a level of a known table that is not in the
  slice of levels; \<open>manifest_inv\<close> below excludes it.
\<close>

definition applyManifestChange :: "Manifest \<Rightarrow> ManifestChange \<Rightarrow> Manifest \<times> manifest_error option" where
  "applyManifestChange build tc = (case mc_Op tc of
     CREATE \<Rightarrow>
       (case m_Tables build (mc_Id tc) of
          Some _ \<Rightarrow> (build, Some (TableExists (mc_Id tc)))
        | None \<Rightarrow>
            let build1 = build\<lparr>m_Tables := (m_Tables build)(mc_Id tc \<mapsto>
                  \<lparr>tm_Level = ucast (mc_Level tc), tm_KeyID = mc_KeyId tc,
                   tm_Compression = mc_Compression tc\<rparr>)\<rparr>
            in if mc_Level tc = 98 \<or> mc_Level tc = 99
               then (build1\<lparr>m_Creations := m_Creations build1 + 1\<rparr>, None)
               else
                 let l = unat (mc_Level tc); ls = grow_levels (m_Levels build1) l
                 in (build1\<lparr>m_Levels := ls[l := insert (mc_Id tc) (ls ! l)],
                            m_Creations := m_Creations build1 + 1\<rparr>, None))
   | DELETE \<Rightarrow>
       (case m_Tables build (mc_Id tc) of
          None \<Rightarrow> (build, Some (RemovesMissing (mc_Id tc)))
        | Some tm \<Rightarrow>
            if tm_Level tm = 98 \<or> tm_Level tm = 99
            then (build\<lparr>m_Tables := map_delete (m_Tables build) (mc_Id tc),
                        m_Deletions := m_Deletions build + 1\<rparr>, None)
            else
              let l = unat (tm_Level tm); ls = m_Levels build
              in if length ls \<le> l then (build, Some (IndexOutOfRange l))
                 else (build\<lparr>m_Levels := ls[l := (ls ! l) - {mc_Id tc}],
                        m_Tables := map_delete (m_Tables build) (mc_Id tc),
                        m_Deletions := m_Deletions build + 1\<rparr>, None))
   | OtherOp _ \<Rightarrow> (build, Some InvalidOp))"

fun applyChangeSet :: "Manifest \<Rightarrow> ManifestChange list \<Rightarrow> Manifest \<times> manifest_error option" where
  "applyChangeSet build [] = (build, None)"
| "applyChangeSet build (c # cs) = (case applyManifestChange build c of
     (b, Some e) \<Rightarrow> (b, Some e)
   | (b, None) \<Rightarrow> applyChangeSet b cs)"

text \<open>\<open>asChanges\<close>: one creation per table, in the order Go ranges over the map (\<open>keys\<close> gives
  keys of the map only; the zero value stands for a key it does not have).\<close>

definition asChanges :: "((u64 \<rightharpoonup> TableManifest) \<Rightarrow> u64 list) \<Rightarrow> Manifest \<Rightarrow> ManifestChange list" where
  "asChanges keys m = map (\<lambda>tid. case m_Tables m tid of
       None \<Rightarrow> newCreateChange tid 0 0 0
     | Some tm \<Rightarrow> newCreateChange tid (unat (tm_Level tm)) (tm_KeyID tm) (tm_Compression tm))
     (keys (m_Tables m))"

definition clone :: "((u64 \<rightharpoonup> TableManifest) \<Rightarrow> u64 list) \<Rightarrow> Manifest \<Rightarrow> Manifest" where
  "clone keys m = fst (applyChangeSet createManifest (asChanges keys m))"

definition keys_ok :: "((u64 \<rightharpoonup> TableManifest) \<Rightarrow> u64 list) \<Rightarrow> bool" where
  "keys_ok keys \<longleftrightarrow> (\<forall>t. finite (dom t) \<longrightarrow> distinct (keys t) \<and> set (keys t) = dom t)"

section \<open>The invariant between tables and levels\<close>

definition hot_level :: "nat \<Rightarrow> bool" where
  "hot_level l \<longleftrightarrow> l = 98 \<or> l = 99"

definition manifest_inv :: "Manifest \<Rightarrow> bool" where
  "manifest_inv m \<longleftrightarrow> finite (dom (m_Tables m)) \<and>
     (\<forall>tid tm. m_Tables m tid = Some tm \<longrightarrow> \<not> hot_level (unat (tm_Level tm)) \<longrightarrow>
        unat (tm_Level tm) < length (m_Levels m)) \<and>
     (\<forall>l < length (m_Levels m). m_Levels m ! l =
        {tid. \<exists>tm. m_Tables m tid = Some tm \<and> unat (tm_Level tm) = l \<and> \<not> hot_level l}) \<and>
     m_Creations m - m_Deletions m = int (card (dom (m_Tables m)))"

text \<open>Levels fit in a byte; the program's levels are at most 99.\<close>

definition change_ok :: "ManifestChange \<Rightarrow> bool" where
  "change_ok c \<longleftrightarrow> unat (mc_Level c) < 256"

definition manifest_abs :: "Manifest \<Rightarrow> (u64 \<rightharpoonup> TableManifest) \<times> int \<times> int" where
  "manifest_abs m = (m_Tables m, m_Creations m, m_Deletions m)"

lemma manifest_inv_create [simp, go_intros]: "manifest_inv createManifest"
  by (simp add: manifest_inv_def createManifest_def)

lemma unat_ucast_level: "change_ok c \<Longrightarrow> unat (ucast (mc_Level c) :: byte) = unat (mc_Level c)"
  by (simp add: change_ok_def unsigned_ucast_eq unsigned_take_bit_eq take_bit_eq_mod)

lemma hot_u32: "hot_level (unat (l :: u32)) \<longleftrightarrow> l = 98 \<or> l = 99"
  by (simp add: hot_level_def word_unat_eq_iff)

lemma hot_byte: "hot_level (unat (l :: byte)) \<longleftrightarrow> l = 98 \<or> l = 99"
  by (simp add: hot_level_def word_unat_eq_iff)

lemma length_grow: "length (grow_levels ls l) = max (length ls) (Suc l)"
  by (simp add: grow_levels_def)

lemma nth_grow: "i < length (grow_levels ls l) \<Longrightarrow>
    grow_levels ls l ! i = (if i < length ls then ls ! i else {})"
  by (auto simp: grow_levels_def nth_append)

lemma card_dom_upd: "finite (dom m) \<Longrightarrow> m k = None \<Longrightarrow> card (dom (m(k \<mapsto> v))) = Suc (card (dom m))"
  by (simp add: domIff)

lemma card_dom_del: "finite (dom m) \<Longrightarrow> m k = Some v \<Longrightarrow> Suc (card (dom m - {k})) = card (dom m)"
  by (metis card.remove domI)

text \<open>The invariant, one change at a time.\<close>

definition level_tables :: "(u64 \<rightharpoonup> TableManifest) \<Rightarrow> nat \<Rightarrow> u64 set" where
  "level_tables ts l = {tid. \<exists>tm. ts tid = Some tm \<and> unat (tm_Level tm) = l \<and> \<not> hot_level l}"

lemma manifest_inv_alt: "manifest_inv m \<longleftrightarrow> finite (dom (m_Tables m)) \<and>
     (\<forall>tid tm. m_Tables m tid = Some tm \<longrightarrow> \<not> hot_level (unat (tm_Level tm)) \<longrightarrow>
        unat (tm_Level tm) < length (m_Levels m)) \<and>
     (\<forall>l < length (m_Levels m). m_Levels m ! l = level_tables (m_Tables m) l) \<and>
     m_Creations m - m_Deletions m = int (card (dom (m_Tables m)))"
  by (simp add: manifest_inv_def level_tables_def)

lemma level_tables_upd:
  "ts tid = None \<Longrightarrow> level_tables (ts(tid \<mapsto> tm)) l =
    (if unat (tm_Level tm) = l \<and> \<not> hot_level l then insert tid (level_tables ts l) else level_tables ts l)"
  by (auto simp: level_tables_def)

lemma level_tables_del:
  "ts tid = Some tm \<Longrightarrow> level_tables (ts(tid := None)) l =
    (if unat (tm_Level tm) = l \<and> \<not> hot_level l then level_tables ts l - {tid} else level_tables ts l)"
  by (auto simp: level_tables_def)

lemma level_tables_high:
  "manifest_inv m \<Longrightarrow> length (m_Levels m) \<le> l \<Longrightarrow> level_tables (m_Tables m) l = {}"
  by (fastforce simp: manifest_inv_alt level_tables_def)

lemma apply_create_inv:
  assumes inv: "manifest_inv m" and ok: "change_ok c" and new: "m_Tables m (mc_Id c) = None"
    and op: "mc_Op c = CREATE"
  shows "manifest_inv (fst (applyManifestChange m c))"
proof (cases "hot_level (unat (mc_Level c))")
  case True
  with inv ok new op card_dom_upd [of "m_Tables m" "mc_Id c"] show ?thesis
    by (auto simp: manifest_inv_alt applyManifestChange_def Let_def level_tables_upd unat_ucast_level
        hot_u32 simp del: dom_fun_upd)
next
  case False
  let ?l = "unat (mc_Level c)" and ?ls = "m_Levels m"
  from False have nh: "mc_Level c \<noteq> 98" "mc_Level c \<noteq> 99" by (auto simp: hot_u32)
  have old: "grow_levels ?ls ?l ! i = level_tables (m_Tables m) i"
    if "i < length (grow_levels ?ls ?l)" for i
    using that inv level_tables_high [OF inv, of i] by (auto simp: nth_grow manifest_inv_alt)
  have step: "fst (applyManifestChange m c) = m\<lparr>m_Tables := (m_Tables m)(mc_Id c \<mapsto>
        \<lparr>tm_Level = ucast (mc_Level c), tm_KeyID = mc_KeyId c, tm_Compression = mc_Compression c\<rparr>),
      m_Levels := (grow_levels ?ls ?l)[?l := insert (mc_Id c) (grow_levels ?ls ?l ! ?l)],
      m_Creations := m_Creations m + 1\<rparr>"
    using new op nh by (simp add: applyManifestChange_def Let_def)
  have "\<forall>tid tm. m_Tables (fst (applyManifestChange m c)) tid = Some tm \<longrightarrow>
      \<not> hot_level (unat (tm_Level tm)) \<longrightarrow>
      unat (tm_Level tm) < length (m_Levels (fst (applyManifestChange m c)))"
    unfolding step using inv
    by (auto simp: manifest_inv_alt length_grow unat_ucast_level [OF ok] less_max_iff_disj)
  moreover have "m_Levels (fst (applyManifestChange m c)) ! l =
      level_tables (m_Tables (fst (applyManifestChange m c))) l"
    if "l < length (m_Levels (fst (applyManifestChange m c)))" for l
    using that old [of l] False unfolding step
    by (cases "l = ?l") (simp_all add: level_tables_upd new unat_ucast_level [OF ok])
  moreover have "finite (dom (m_Tables (fst (applyManifestChange m c))))"
    "m_Creations (fst (applyManifestChange m c)) - m_Deletions (fst (applyManifestChange m c)) =
      int (card (dom (m_Tables (fst (applyManifestChange m c)))))"
    unfolding step using inv new card_dom_upd [of "m_Tables m" "mc_Id c"]
    by (auto simp: manifest_inv_alt simp del: dom_fun_upd)
  ultimately show ?thesis unfolding manifest_inv_alt by blast
qed

lemma apply_delete_inv:
  assumes inv: "manifest_inv m" and known: "m_Tables m (mc_Id c) = Some tm"
    and op: "mc_Op c = DELETE"
  shows "manifest_inv (fst (applyManifestChange m c)) \<and> snd (applyManifestChange m c) = None"
proof (cases "hot_level (unat (tm_Level tm))")
  case True
  with inv known op card_dom_del [of "m_Tables m" "mc_Id c" tm] show ?thesis
    by (auto simp: manifest_inv_alt applyManifestChange_def Let_def level_tables_del hot_byte)
next
  case False
  let ?l = "unat (tm_Level tm)"
  from False have nh: "tm_Level tm \<noteq> 98" "tm_Level tm \<noteq> 99" by (auto simp: hot_byte)
  have l: "?l < length (m_Levels m)" using inv known False by (simp add: manifest_inv_alt)
  then have "\<not> length (m_Levels m) \<le> ?l" by simp
  with inv known op nh False card_dom_del [of "m_Tables m" "mc_Id c" tm] show ?thesis
    by (auto simp: manifest_inv_alt applyManifestChange_def Let_def level_tables_del nth_list_update)
qed

lemma applyManifestChange_inv [go_intros]:
  assumes "manifest_inv m" "change_ok c"
  shows "manifest_inv (fst (applyManifestChange m c))"
proof (cases "mc_Op c")
  case CREATE
  show ?thesis
  proof (cases "m_Tables m (mc_Id c)")
    case None
    with CREATE assms apply_create_inv show ?thesis by blast
  qed (use CREATE assms in \<open>simp add: applyManifestChange_def\<close>)
next
  case DELETE
  show ?thesis
  proof (cases "m_Tables m (mc_Id c)")
    case (Some tm)
    with DELETE assms apply_delete_inv show ?thesis by blast
  qed (use DELETE assms in \<open>simp add: applyManifestChange_def\<close>)
next
  case (OtherOp i)
  with assms show ?thesis by (simp add: applyManifestChange_def)
qed

lemma applyChangeSet_inv [go_intros]:
  "manifest_inv m \<Longrightarrow> list_all change_ok cs \<Longrightarrow> manifest_inv (fst (applyChangeSet m cs))"
proof (induction m cs rule: applyChangeSet.induct)
  case (2 build c cs)
  then have "manifest_inv (fst (applyManifestChange build c))" by (auto intro: applyManifestChange_inv)
  with 2 show ?case by (auto split: prod.split option.split)
qed simp

section \<open>Cloning\<close>

lemma newCreateChange_sel [simp]:
  "mc_Id (newCreateChange i l k c) = i" "mc_Op (newCreateChange i l k c) = CREATE"
  "mc_Level (newCreateChange i l k c) = word_of_nat l" "mc_KeyId (newCreateChange i l k c) = k"
  "mc_Compression (newCreateChange i l k c) = c"
  by (simp_all add: newCreateChange_def)

lemma unat_level_u32 [simp]: "unat (ucast (l :: byte) :: u32) = unat l"
proof -
  have "unat l < 256" using unsigned_less [of l, where ?'a = nat] by simp
  then show ?thesis by (simp add: unsigned_ucast_eq take_bit_nat_eq_self)
qed

lemma ucast_level_u32 [simp]: "(ucast (ucast (l :: byte) :: u32) :: byte) = l"
  by (rule word_unat_eq_iff [THEN iffD2]) (simp add: unsigned_ucast_eq take_bit_word_eq_self)

lemma TableManifest_eta [simp]:
  "\<lparr>tm_Level = tm_Level tm, tm_KeyID = tm_KeyID tm, tm_Compression = tm_Compression tm\<rparr> = tm"
  by simp

lemma asChanges_ok: "list_all change_ok (asChanges keys m)"
proof -
  have "unat (l :: byte) < 256" for l using unsigned_less [of l, where ?'a = nat] by simp
  then show ?thesis by (auto simp: asChanges_def list_all_iff change_ok_def split: option.split)
qed

lemma apply_create_some:
  assumes "m_Tables b i = None"
  shows "\<exists>b'. applyManifestChange b (newCreateChange i (unat (tm_Level tm)) (tm_KeyID tm) (tm_Compression tm)) = (b', None) \<and>
    m_Tables b' = (m_Tables b)(i \<mapsto> tm) \<and> m_Creations b' = m_Creations b + 1 \<and>
    m_Deletions b' = m_Deletions b"
  using assms by (simp add: applyManifestChange_def Let_def)

lemma applyChangeSet_creates:
  assumes "distinct ks" "\<forall>k \<in> set ks. ts k \<noteq> None" "\<forall>k \<in> set ks. m_Tables b k = None"
  shows "\<exists>b'. applyChangeSet b (map (\<lambda>k. case ts k of None \<Rightarrow> newCreateChange k 0 0 0
       | Some tm \<Rightarrow> newCreateChange k (unat (tm_Level tm)) (tm_KeyID tm) (tm_Compression tm)) ks) = (b', None) \<and>
    m_Tables b' = m_Tables b ++ (ts |` set ks) \<and> m_Creations b' = m_Creations b + int (length ks) \<and>
    m_Deletions b' = m_Deletions b"
  using assms
proof (induction ks arbitrary: b)
  case Nil
  then show ?case by simp
next
  case (Cons k ks)
  from Cons.prems(2) obtain tm where tm: "ts k = Some tm" by auto
  from apply_create_some [of b k tm] Cons.prems(3) obtain b1 where
    b1: "applyManifestChange b (newCreateChange k (unat (tm_Level tm)) (tm_KeyID tm) (tm_Compression tm)) = (b1, None)"
    "m_Tables b1 = (m_Tables b)(k \<mapsto> tm)" "m_Creations b1 = m_Creations b + 1"
    "m_Deletions b1 = m_Deletions b" by auto
  have "\<forall>j \<in> set ks. m_Tables b1 j = None" using Cons.prems b1(2) by auto
  with Cons.IH [of b1] Cons.prems obtain b' where
    "applyChangeSet b1 (map (\<lambda>k. case ts k of None \<Rightarrow> newCreateChange k 0 0 0
       | Some tm \<Rightarrow> newCreateChange k (unat (tm_Level tm)) (tm_KeyID tm) (tm_Compression tm)) ks) = (b', None)"
    "m_Tables b' = m_Tables b1 ++ (ts |` set ks)" "m_Creations b' = m_Creations b1 + int (length ks)"
    "m_Deletions b' = m_Deletions b1" by auto
  moreover have "m_Tables b1 ++ (ts |` set ks) = m_Tables b ++ (ts |` set (k # ks))"
    using b1(2) tm by (auto simp: map_add_def restrict_map_def fun_eq_iff split: option.split)
  ultimately show ?case using b1 tm by simp
qed

lemma applyChangeSet_asChanges:
  assumes "keys_ok keys" "finite (dom (m_Tables m))"
  shows "\<exists>b. applyChangeSet createManifest (asChanges keys m) = (b, None) \<and>
    m_Tables b = m_Tables m \<and> m_Creations b = int (length (keys (m_Tables m))) \<and> m_Deletions b = 0"
proof -
  have ks: "distinct (keys (m_Tables m))" "set (keys (m_Tables m)) = dom (m_Tables m)"
    using assms by (auto simp: keys_ok_def)
  from applyChangeSet_creates [OF ks(1), of "m_Tables m" createManifest]
  obtain b where b: "applyChangeSet createManifest (asChanges keys m) = (b, None)"
    "m_Tables b = Map.empty ++ (m_Tables m |` set (keys (m_Tables m)))"
    "m_Creations b = int (length (keys (m_Tables m)))" "m_Deletions b = 0"
    using ks(2) by (auto simp: asChanges_def createManifest_def)
  moreover have "Map.empty ++ (m_Tables m |` set (keys (m_Tables m))) = m_Tables m"
    unfolding ks(2) by (auto simp: restrict_map_def fun_eq_iff domIff)
  ultimately show ?thesis by auto
qed

section \<open>The file\<close>

text \<open>
  \<open>crc32.Checksum\<close> with the Castagnoli table: the reflected polynomial, bit by bit.
\<close>

fun crc_bits :: "nat \<Rightarrow> u32 \<Rightarrow> u32" where
  "crc_bits 0 c = c"
| "crc_bits (Suc n) c = crc_bits n (if odd c then drop_bit 1 c XOR 0x82f63b78 else drop_bit 1 c)"

definition crc32c :: "bytes \<Rightarrow> u32" where
  "crc32c bs = NOT (foldl (\<lambda>c b. crc_bits 8 (c XOR ucast b)) (NOT 0) bs)"

text \<open>\<open>magicText\<close>, \<open>badgerMagicVersion\<close>, and the two constants of the rewrite.\<close>

definition magicText :: bytes where
  "magicText = [66, 100, 103, 114]"

definition badgerMagicVersion :: u16 where
  "badgerMagicVersion = 8"

definition manifestDeletionsRewriteThreshold :: int where
  "manifestDeletionsRewriteThreshold = 10000"

definition manifestDeletionsRatio :: int where
  "manifestDeletionsRatio = 10"

definition file_header :: "u16 \<Rightarrow> bytes" where
  "file_header extMagic = magicText @ U16ToBytes extMagic @ U16ToBytes badgerMagicVersion"

definition change_frame :: "(ManifestChange list \<Rightarrow> bytes) \<Rightarrow> ManifestChange list \<Rightarrow> bytes" where
  "change_frame marshal changes = (let buf = marshal changes
    in U32ToBytes (word_of_nat (length buf)) @ U32ToBytes (crc32c buf) @ buf)"

text \<open>
  The open manifest: \<open>mf_file\<close> is the content of the file behind \<open>fp\<close>.
\<close>

record manifestFile =
  mf_file :: bytes
  mf_externalMagic :: u16
  mf_deletionsRewriteThreshold :: int
  mf_manifest :: Manifest
  mf_inMemory :: bool

text \<open>
  \<open>helpRewrite\<close>: the content of the new file, which replaces the old one by a rename,
  and the number of tables.
\<close>

definition helpRewrite :: "(ManifestChange list \<Rightarrow> bytes) \<Rightarrow> ((u64 \<rightharpoonup> TableManifest) \<Rightarrow> u64 list) \<Rightarrow>
    Manifest \<Rightarrow> u16 \<Rightarrow> bytes \<times> int" where
  "helpRewrite marshal keys m extMagic =
     (file_header extMagic @ change_frame marshal (asChanges keys m), int (length (keys (m_Tables m))))"

definition rewrite :: "(ManifestChange list \<Rightarrow> bytes) \<Rightarrow> ((u64 \<rightharpoonup> TableManifest) \<Rightarrow> u64 list) \<Rightarrow>
    manifestFile \<Rightarrow> manifestFile" where
  "rewrite marshal keys mf =
     (let (file, netCreations) = helpRewrite marshal keys (mf_manifest mf) (mf_externalMagic mf)
      in mf\<lparr>mf_file := file,
            mf_manifest := (mf_manifest mf)\<lparr>m_Creations := netCreations, m_Deletions := 0\<rparr>\<rparr>)"

definition addChanges :: "(ManifestChange list \<Rightarrow> bytes) \<Rightarrow> ((u64 \<rightharpoonup> TableManifest) \<Rightarrow> u64 list) \<Rightarrow>
    manifestFile \<Rightarrow> ManifestChange list \<Rightarrow> manifestFile \<times> manifest_error option" where
  "addChanges marshal keys mf changes =
     (if mf_inMemory mf then (mf, None)
      else case applyChangeSet (mf_manifest mf) changes of
        (m, Some e) \<Rightarrow> (mf\<lparr>mf_manifest := m\<rparr>, Some e)
      | (m, None) \<Rightarrow>
          let mf1 = mf\<lparr>mf_manifest := m\<rparr>
          in if m_Deletions m > mf_deletionsRewriteThreshold mf \<and>
                m_Deletions m > manifestDeletionsRatio * (m_Creations m - m_Deletions m)
             then (rewrite marshal keys mf1, None)
             else (mf1\<lparr>mf_file := mf_file mf @ change_frame marshal changes\<rparr>, None))"

text \<open>
  \<open>ReplayManifestFile\<close>: the frames one by one. A frame cut short by the end of the file
  stops the replay with the offset of the last complete one; a length beyond
  \<open>uint32\<close> of the file size is refused before anything is read.
\<close>

function replay_loop :: "(bytes \<Rightarrow> ManifestChange list option) \<Rightarrow> nat \<Rightarrow> bytes \<Rightarrow> nat \<Rightarrow> Manifest \<Rightarrow>
    manifest_error + (Manifest \<times> nat)" where
  "replay_loop unmarshal fsize r offset build =
     (if length r < 8 then Inr (build, offset)
      else
        let len = be_get (take 4 r); crc = be_get (take 4 (drop 4 r)); r1 = drop 8 r
        in if len > fsize mod 2 ^ 32 then Inl (BufferTooLong len fsize)
           else if length r1 < len then Inr (build, offset)
           else if unat (crc32c (take len r1)) \<noteq> crc then Inl BadChecksum
           else case unmarshal (take len r1) of
             None \<Rightarrow> Inl BadProto
           | Some changes \<Rightarrow>
               (case applyChangeSet build changes of
                  (_, Some e) \<Rightarrow> Inl e
                | (b, None) \<Rightarrow> replay_loop unmarshal fsize (drop len r1) (offset + 8 + len) b))"
  by pat_completeness auto
termination
  by (relation "measure (\<lambda>(_, _, r, _, _). length r)") auto

declare replay_loop.simps [simp del]

definition ReplayManifestFile :: "(bytes \<Rightarrow> ManifestChange list option) \<Rightarrow> bytes \<Rightarrow> u16 \<Rightarrow>
    manifest_error + (Manifest \<times> nat)" where
  "ReplayManifestFile unmarshal file extMagic =
     (if length file < 8 then Inl BadMagic
      else if take 4 file \<noteq> magicText then Inl BadMagic
      else
        let extVersion = word_of_nat (be_get (take 2 (drop 4 file))) :: u16;
            version = word_of_nat (be_get (take 2 (drop 6 file))) :: u16
        in if version \<noteq> badgerMagicVersion then Inl (UnsupportedVersion version)
           else if extVersion \<noteq> extMagic then Inl (ExternalMagicMismatch extMagic extVersion)
           else replay_loop unmarshal (length file) (drop 8 file) 8 createManifest)"

text \<open>
  \<open>openOrCreateManifestFile\<close>: no file (\<open>None\<close>) is created unless the store is read-only
  (\<open>Inl None\<close> is its error); an existing one is replayed, truncated behind the last
  complete frame, and its manifest cloned.
\<close>

definition helpOpenOrCreateManifestFile :: "(ManifestChange list \<Rightarrow> bytes) \<Rightarrow>
    (bytes \<Rightarrow> ManifestChange list option) \<Rightarrow> ((u64 \<rightharpoonup> TableManifest) \<Rightarrow> u64 list) \<Rightarrow>
    bytes option \<Rightarrow> bool \<Rightarrow> u16 \<Rightarrow> int \<Rightarrow> manifest_error option + (manifestFile \<times> Manifest)" where
  "helpOpenOrCreateManifestFile marshal unmarshal keys disk readOnly extMagic deletionsThreshold =
     (case disk of
        None \<Rightarrow>
          if readOnly then Inl None
          else let m = createManifest; (file, _) = helpRewrite marshal keys m extMagic
            in Inr (\<lparr>mf_file = file, mf_externalMagic = extMagic,
                     mf_deletionsRewriteThreshold = deletionsThreshold,
                     mf_manifest = clone keys m, mf_inMemory = False\<rparr>, m)
      | Some file \<Rightarrow>
          (case ReplayManifestFile unmarshal file extMagic of
             Inl e \<Rightarrow> Inl (Some e)
           | Inr (m, truncOffset) \<Rightarrow>
               Inr (\<lparr>mf_file = (if readOnly then file else take truncOffset file),
                     mf_externalMagic = extMagic,
                     mf_deletionsRewriteThreshold = deletionsThreshold,
                     mf_manifest = clone keys m, mf_inMemory = False\<rparr>, m)))"

definition openOrCreateManifestFile :: "(ManifestChange list \<Rightarrow> bytes) \<Rightarrow>
    (bytes \<Rightarrow> ManifestChange list option) \<Rightarrow> ((u64 \<rightharpoonup> TableManifest) \<Rightarrow> u64 list) \<Rightarrow>
    bytes option \<Rightarrow> bool \<Rightarrow> bool \<Rightarrow> u16 \<Rightarrow> manifest_error option + (manifestFile \<times> Manifest)" where
  "openOrCreateManifestFile marshal unmarshal keys disk inMemory readOnly extMagic =
     (if inMemory
      then Inr (\<lparr>mf_file = [], mf_externalMagic = 0, mf_deletionsRewriteThreshold = 0,
                 mf_manifest = createManifest, mf_inMemory = True\<rparr>, createManifest)
      else helpOpenOrCreateManifestFile marshal unmarshal keys disk readOnly extMagic
             manifestDeletionsRewriteThreshold)"

section \<open>Replay and the log\<close>

text \<open>What is asked of the protocol buffers: a set of creations and deletions comes back.\<close>

definition plain_change :: "ManifestChange \<Rightarrow> bool" where
  "plain_change c \<longleftrightarrow> change_ok c \<and> (mc_Op c = CREATE \<or> mc_Op c = DELETE)"

definition proto_ok :: "(ManifestChange list \<Rightarrow> bytes) \<Rightarrow> (bytes \<Rightarrow> ManifestChange list option) \<Rightarrow> bool" where
  "proto_ok marshal unmarshal \<longleftrightarrow> (\<forall>cs. list_all plain_change cs \<longrightarrow> unmarshal (marshal cs) = Some cs)"

definition frames :: "(ManifestChange list \<Rightarrow> bytes) \<Rightarrow> ManifestChange list list \<Rightarrow> bytes" where
  "frames marshal css = concat (map (change_frame marshal) css)"

lemma be_get_U32 [simp]: "be_get (U32ToBytes x) = unat x"
  using unsigned_less [of x, where ?'a = nat] by (simp add: U32ToBytes_def be_get_put)

lemma length_U32 [simp]: "length (U32ToBytes x) = 4"
  by (simp add: U32ToBytes_def)

lemma length_U16 [simp]: "length (U16ToBytes x) = 2"
  by (simp add: U16ToBytes_def)

lemma be_get_U16 [simp]: "be_get (U16ToBytes x) = unat x"
  using unsigned_less [of x, where ?'a = nat] by (simp add: U16ToBytes_def be_get_put)

lemma length_change_frame: "length (change_frame marshal cs) = 8 + length (marshal cs)"
  by (simp add: change_frame_def Let_def)

lemma length_file_header [simp]: "length (file_header e) = 8"
  by (simp add: file_header_def magicText_def)

lemma unat_len_u32: "n < 2 ^ 32 \<Longrightarrow> unat (word_of_nat n :: u32) = n"
  by (simp add: unat_of_nat)

text \<open>A complete frame is applied; the replay goes on behind it.\<close>

lemma replay_frame:
  assumes "proto_ok marshal unmarshal" "list_all plain_change cs"
    and "length (marshal cs) \<le> fsize" "fsize < 2 ^ 32"
    and "applyChangeSet build cs = (b, None)"
  shows "replay_loop unmarshal fsize (change_frame marshal cs @ r) off build =
    replay_loop unmarshal fsize r (off + length (change_frame marshal cs)) b"
proof -
  have "unat (word_of_nat (length (marshal cs)) :: u32) = length (marshal cs)"
    using assms(3,4) by (intro unat_len_u32) simp
  moreover have "unmarshal (marshal cs) = Some cs" using assms(1,2) by (simp add: proto_ok_def)
  ultimately show ?thesis
    using assms(3-5) by (subst replay_loop.simps) (simp add: change_frame_def Let_def add.assoc)
qed

text \<open>A frame cut short: fewer than 8 bytes, or a length that the rest does not have.\<close>

lemma replay_torn:
  assumes "length (marshal cs) < 2 ^ 32" "fsize < 2 ^ 32" "k < length (change_frame marshal cs)"
  shows "replay_loop unmarshal fsize (take k (change_frame marshal cs)) off build =
    (if 8 \<le> k \<and> fsize < length (marshal cs) then Inl (BufferTooLong (length (marshal cs)) fsize)
     else Inr (build, off))"
proof (cases "k < 8")
  case True
  then show ?thesis using assms by (subst replay_loop.simps) simp
next
  case False
  then have u: "unat (word_of_nat (length (marshal cs)) :: u32) = length (marshal cs)"
    using assms(1) by (intro unat_len_u32) simp
  have "take k (change_frame marshal cs) = U32ToBytes (word_of_nat (length (marshal cs))) @
      U32ToBytes (crc32c (marshal cs)) @ take (k - 8) (marshal cs)"
    using False by (simp add: change_frame_def Let_def)
  moreover have "k - 8 < length (marshal cs)" using assms(3) False by (simp add: length_change_frame)
  ultimately show ?thesis
    using False assms(2) u by (subst replay_loop.simps) (simp add: Let_def)
qed

lemma replay_frames:
  "proto_ok marshal unmarshal \<Longrightarrow> list_all (list_all plain_change) css \<Longrightarrow> fsize < 2 ^ 32 \<Longrightarrow>
    \<forall>cs \<in> set css. length (marshal cs) \<le> fsize \<Longrightarrow>
    applyChangeSet build (concat css) = (b, None) \<Longrightarrow>
    replay_loop unmarshal fsize (frames marshal css @ r) off build =
      replay_loop unmarshal fsize r (off + length (frames marshal css)) b"
proof (induction css arbitrary: build off)
  case Nil
  then show ?case by (simp add: frames_def)
next
  case (Cons cs css)
  have app: "applyChangeSet x (as @ bs) = (case applyChangeSet x as of (y, Some e) \<Rightarrow> (y, Some e)
      | (y, None) \<Rightarrow> applyChangeSet y bs)" for x as bs
    by (induction x as rule: applyChangeSet.induct) (auto split: prod.splits option.splits)
  obtain b1 where b1: "applyChangeSet build cs = (b1, None)"
    "applyChangeSet b1 (concat css) = (b, None)"
    using Cons.prems(5) by (auto simp: app split: prod.splits option.splits)
  have "replay_loop unmarshal fsize (frames marshal (cs # css) @ r) off build =
      replay_loop unmarshal fsize (frames marshal css @ r) (off + length (change_frame marshal cs)) b1"
    using replay_frame [OF Cons.prems(1) _ _ Cons.prems(3) b1(1), of "frames marshal css @ r"]
      Cons.prems by (simp add: frames_def)
  also have "\<dots> = replay_loop unmarshal fsize r
      (off + length (change_frame marshal cs) + length (frames marshal css)) b"
    using Cons.IH [OF Cons.prems(1) _ Cons.prems(3) _ b1(2)] Cons.prems by simp
  finally show ?case by (simp add: frames_def add.assoc)
qed

text \<open>
  What a manifest promises: a map of tables, and changes that add or remove one. Counters
  and levels are the implementation's.
\<close>

fun spec_change :: "(u64 \<rightharpoonup> TableManifest) \<Rightarrow> ManifestChange \<Rightarrow> manifest_error + (u64 \<rightharpoonup> TableManifest)" where
  "spec_change ts c = (case mc_Op c of
     CREATE \<Rightarrow> (case ts (mc_Id c) of Some _ \<Rightarrow> Inl (TableExists (mc_Id c))
       | None \<Rightarrow> Inr (ts(mc_Id c \<mapsto> \<lparr>tm_Level = ucast (mc_Level c), tm_KeyID = mc_KeyId c,
                   tm_Compression = mc_Compression c\<rparr>)))
   | DELETE \<Rightarrow> (case ts (mc_Id c) of None \<Rightarrow> Inl (RemovesMissing (mc_Id c))
       | Some _ \<Rightarrow> Inr (map_delete ts (mc_Id c)))
   | OtherOp _ \<Rightarrow> Inl InvalidOp)"

fun spec_changes :: "(u64 \<rightharpoonup> TableManifest) \<Rightarrow> ManifestChange list \<Rightarrow> manifest_error + (u64 \<rightharpoonup> TableManifest)" where
  "spec_changes ts [] = Inr ts"
| "spec_changes ts (c # cs) = (case spec_change ts c of Inl e \<Rightarrow> Inl e | Inr ts' \<Rightarrow> spec_changes ts' cs)"

definition outcome :: "Manifest \<times> manifest_error option \<Rightarrow> manifest_error + (u64 \<rightharpoonup> TableManifest)" where
  "outcome r = (case r of (m, None) \<Rightarrow> Inr (m_Tables m) | (_, Some e) \<Rightarrow> Inl e)"

lemma outcome_simps [simp]: "outcome (m, None) = Inr (m_Tables m)" "outcome (m, Some e) = Inl e"
  by (simp_all add: outcome_def)

lemma manifest_inv_level:
  "manifest_inv m \<Longrightarrow> m_Tables m i = Some tm \<Longrightarrow> tm_Level tm \<noteq> 98 \<Longrightarrow> tm_Level tm \<noteq> 99 \<Longrightarrow>
    unat (tm_Level tm) < length (m_Levels m)"
  by (auto simp: manifest_inv_alt hot_byte)

lemma applyManifestChange_spec:
  "manifest_inv m \<Longrightarrow> outcome (applyManifestChange m c) = spec_change (m_Tables m) c"
  by (auto simp: applyManifestChange_def Let_def split: Operation.split option.split)
    (meson manifest_inv_level not_le)+

lemma applyChangeSet_spec:
  "manifest_inv m \<Longrightarrow> list_all change_ok cs \<Longrightarrow> outcome (applyChangeSet m cs) = spec_changes (m_Tables m) cs"
proof (induction m cs rule: applyChangeSet.induct)
  case (2 build c cs)
  obtain b e where b: "applyManifestChange build c = (b, e)" by fastforce
  have inv: "manifest_inv b" using applyManifestChange_inv [of build c] 2 b by simp
  have "outcome (b, e) = spec_change (m_Tables build) c"
    using applyManifestChange_spec [of build c] 2 b by simp
  with 2 b inv show ?case by (cases e) (auto split: sum.split)
qed simp

lemma applyChangeSet_append:
  "applyChangeSet x (as @ bs) = (case applyChangeSet x as of (y, Some e) \<Rightarrow> (y, Some e)
      | (y, None) \<Rightarrow> applyChangeSet y bs)"
  by (induction x as rule: applyChangeSet.induct) (auto split: prod.splits option.splits)

lemma applyChangeSet_same_tables:
  assumes "manifest_inv m" "manifest_inv m'" "m_Tables m = m_Tables m'" "list_all change_ok cs"
    and "applyChangeSet m cs = (b, None)"
  shows "\<exists>b'. applyChangeSet m' cs = (b', None) \<and> m_Tables b' = m_Tables b"
proof -
  obtain b' e' where b': "applyChangeSet m' cs = (b', e')" by fastforce
  have "outcome (applyChangeSet m cs) = outcome (applyChangeSet m' cs)"
    using applyChangeSet_spec [OF assms(1,4)] applyChangeSet_spec [OF assms(2,4)] assms(3) by simp
  with b' assms(5) show ?thesis by (cases e') auto
qed

text \<open>
  The relation between an open manifest and its file: the frames on disk, applied in
  order to an empty manifest, give the tables of the manifest in memory.
\<close>

definition plain_log :: "ManifestChange list list \<Rightarrow> bool" where
  "plain_log css \<longleftrightarrow> list_all (list_all plain_change) css"

definition mf_log :: "(ManifestChange list \<Rightarrow> bytes) \<Rightarrow> manifestFile \<Rightarrow> ManifestChange list list \<Rightarrow> bool" where
  "mf_log marshal mf css \<longleftrightarrow>
     mf_file mf = file_header (mf_externalMagic mf) @ frames marshal css \<and> plain_log css \<and>
     length (mf_file mf) < 2 ^ 32 \<and> manifest_inv (mf_manifest mf) \<and>
     (\<exists>b. applyChangeSet createManifest (concat css) = (b, None) \<and>
          m_Tables b = m_Tables (mf_manifest mf))"

lemma plain_log_ok: "plain_log css \<Longrightarrow> list_all change_ok (concat css)"
  by (auto simp: plain_log_def plain_change_def list_all_iff)

lemma frame_in_frames: "cs \<in> set css \<Longrightarrow> length (marshal cs) + 8 \<le> length (frames marshal css)"
  by (induction css) (auto simp: frames_def length_change_frame)

lemma replay_header:
  "ReplayManifestFile unmarshal (file_header e @ r) e =
    replay_loop unmarshal (8 + length r) r 8 createManifest"
proof -
  have m: "length magicText = 4" by (simp add: magicText_def)
  show ?thesis by (simp add: ReplayManifestFile_def file_header_def m Let_def)
qed

lemma replay_log:
  assumes "proto_ok marshal unmarshal" "mf_log marshal mf css" "length (mf_file mf @ r) < 2 ^ 32"
  shows "\<exists>b. ReplayManifestFile unmarshal (mf_file mf @ r) (mf_externalMagic mf) =
      replay_loop unmarshal (length (mf_file mf @ r)) r (length (mf_file mf)) b \<and>
    m_Tables b = m_Tables (mf_manifest mf) \<and> manifest_inv b"
proof -
  from assms(2) obtain b where b: "applyChangeSet createManifest (concat css) = (b, None)"
    "m_Tables b = m_Tables (mf_manifest mf)" and f: "mf_file mf = file_header (mf_externalMagic mf) @ frames marshal css"
    and pl: "plain_log css" by (auto simp: mf_log_def)
  have "manifest_inv b"
    using applyChangeSet_inv [OF _ plain_log_ok [OF pl], of createManifest] b(1) by simp
  moreover have "\<forall>cs \<in> set css. length (marshal cs) \<le> length (mf_file mf @ r)"
    using frame_in_frames [of _ css marshal] f by fastforce
  ultimately show ?thesis
    using replay_frames [OF assms(1) _ assms(3) _ b(1), of r 8] b(2) pl f replay_header
    by (auto simp: plain_log_def add.assoc)
qed

lemma manifest_inv_rewrite:
  "manifest_inv m \<Longrightarrow> keys_ok keys \<Longrightarrow>
    manifest_inv (m\<lparr>m_Creations := int (length (keys (m_Tables m))), m_Deletions := 0\<rparr>)"
  by (auto simp: manifest_inv_alt keys_ok_def) (metis distinct_card)

lemma asChanges_plain: "list_all plain_change (asChanges keys m)"
  using asChanges_ok [of keys m]
  by (auto simp: list_all_iff plain_change_def) (auto simp: asChanges_def split: option.splits)

lemma frames_snoc: "frames marshal (css @ [cs]) = frames marshal css @ change_frame marshal cs"
  by (simp add: frames_def)

lemma addChanges_log:
  assumes log: "mf_log marshal mf css" and keys: "keys_ok keys" and cs: "list_all plain_change cs"
    and add: "addChanges marshal keys mf cs = (mf', None)" and len: "length (mf_file mf') < 2 ^ 32"
    and disk: "\<not> mf_inMemory mf"
  shows "\<exists>css'. mf_log marshal mf' css' \<and> mf_externalMagic mf' = mf_externalMagic mf \<and>
    \<not> mf_inMemory mf'"
proof -
  obtain m where m: "applyChangeSet (mf_manifest mf) cs = (m, None)"
    using add disk by (auto simp: addChanges_def split: prod.splits option.splits)
  have ok: "list_all change_ok cs" using cs by (auto simp: list_all_iff plain_change_def)
  have inv: "manifest_inv m" using applyChangeSet_inv [of "mf_manifest mf" cs] log ok m by (simp add: mf_log_def)
  show ?thesis
  proof (cases "m_Deletions m > mf_deletionsRewriteThreshold mf \<and>
                m_Deletions m > manifestDeletionsRatio * (m_Creations m - m_Deletions m)")
    case True
    then have mf': "mf' = rewrite marshal keys (mf\<lparr>mf_manifest := m\<rparr>)"
      using add disk m by (simp add: addChanges_def)
    obtain b where "applyChangeSet createManifest (asChanges keys m) = (b, None)" "m_Tables b = m_Tables m"
      using applyChangeSet_asChanges [OF keys, of m] inv by (auto simp: manifest_inv_def)
    then have "mf_log marshal mf' [asChanges keys m]"
      using len inv keys asChanges_plain [of keys m] unfolding mf'
      by (simp add: mf_log_def rewrite_def helpRewrite_def plain_log_def frames_def
          manifest_inv_rewrite)
    with mf' disk show ?thesis by (auto simp: rewrite_def helpRewrite_def)
  next
    case False
    then have mf': "mf' = mf\<lparr>mf_manifest := m, mf_file := mf_file mf @ change_frame marshal cs\<rparr>"
      using add disk m by (simp add: addChanges_def Let_def split: if_splits)
    from log obtain b where b: "applyChangeSet createManifest (concat css) = (b, None)"
      "m_Tables b = m_Tables (mf_manifest mf)" and pl: "plain_log css" by (auto simp: mf_log_def)
    have "manifest_inv b"
      using applyChangeSet_inv [OF _ plain_log_ok [OF pl], of createManifest] b(1) by simp
    then obtain b' where "applyChangeSet b cs = (b', None)" "m_Tables b' = m_Tables m"
      using applyChangeSet_same_tables [of "mf_manifest mf" b cs m] log b(2) ok m by (auto simp: mf_log_def)
    then have "mf_log marshal mf' (css @ [cs])"
      using log len inv b cs unfolding mf'
      by (auto simp: mf_log_def frames_snoc plain_log_def applyChangeSet_append)
    with mf' disk show ?thesis by auto
  qed
qed

lemma clone_ok:
  assumes "keys_ok keys" "manifest_inv m"
  shows "m_Tables (clone keys m) = m_Tables m \<and> manifest_inv (clone keys m) \<and>
    m_Creations (clone keys m) = int (card (dom (m_Tables m))) \<and> m_Deletions (clone keys m) = 0"
proof -
  from assms(2) have fin: "finite (dom (m_Tables m))" by (simp add: manifest_inv_def)
  from applyChangeSet_asChanges [OF assms(1) fin] obtain b where
    "applyChangeSet createManifest (asChanges keys m) = (b, None)" "m_Tables b = m_Tables m"
    "m_Creations b = int (length (keys (m_Tables m)))" "m_Deletions b = 0" by auto
  moreover have "manifest_inv b"
    using applyChangeSet_inv [OF _ asChanges_ok, of createManifest keys m] calculation(1) by simp
  moreover have "length (keys (m_Tables m)) = card (dom (m_Tables m))"
    using assms(1) fin distinct_card [of "keys (m_Tables m)"] unfolding keys_ok_def by metis
  ultimately show ?thesis by (simp add: clone_def)
qed

text \<open>
  The life of a MANIFEST file: created, changed, and opened again, also after a crash
  that left only a part of the last frame.
\<close>

inductive mreach :: "(ManifestChange list \<Rightarrow> bytes) \<Rightarrow> (bytes \<Rightarrow> ManifestChange list option) \<Rightarrow>
    ((u64 \<rightharpoonup> TableManifest) \<Rightarrow> u64 list) \<Rightarrow> u16 \<Rightarrow> int \<Rightarrow> manifestFile \<Rightarrow> bool"
  for marshal unmarshal keys extMagic threshold where
  create: "helpOpenOrCreateManifestFile marshal unmarshal keys None False extMagic threshold = Inr (mf, m) \<Longrightarrow>
    length (mf_file mf) < 2 ^ 32 \<Longrightarrow> mreach marshal unmarshal keys extMagic threshold mf"
| change: "mreach marshal unmarshal keys extMagic threshold mf \<Longrightarrow> list_all plain_change cs \<Longrightarrow>
    addChanges marshal keys mf cs = (mf', None) \<Longrightarrow> length (mf_file mf') < 2 ^ 32 \<Longrightarrow>
    mreach marshal unmarshal keys extMagic threshold mf'"
| reopen: "mreach marshal unmarshal keys extMagic threshold mf \<Longrightarrow>
    helpOpenOrCreateManifestFile marshal unmarshal keys (Some (mf_file mf)) False extMagic threshold = Inr (mf', m) \<Longrightarrow>
    mreach marshal unmarshal keys extMagic threshold mf'"
| crash: "mreach marshal unmarshal keys extMagic threshold mf \<Longrightarrow> list_all plain_change cs \<Longrightarrow>
    length (marshal cs) < 2 ^ 32 \<Longrightarrow> k < length (change_frame marshal cs) \<Longrightarrow>
    length (mf_file mf) + k < 2 ^ 32 \<Longrightarrow>
    helpOpenOrCreateManifestFile marshal unmarshal keys
      (Some (mf_file mf @ take k (change_frame marshal cs))) False extMagic threshold = Inr (mf', m) \<Longrightarrow>
    mreach marshal unmarshal keys extMagic threshold mf'"

lemma replay_log_end:
  assumes "proto_ok marshal unmarshal" "mf_log marshal mf css"
  shows "\<exists>b. ReplayManifestFile unmarshal (mf_file mf) (mf_externalMagic mf) = Inr (b, length (mf_file mf)) \<and>
    m_Tables b = m_Tables (mf_manifest mf) \<and> manifest_inv b"
proof -
  have "replay_loop unmarshal n [] off b = Inr (b, off)" for n off b
    by (subst replay_loop.simps) simp
  moreover have "length (mf_file mf @ []) < 2 ^ 32" using assms(2) unfolding mf_log_def append_Nil2 by blast
  ultimately show ?thesis using replay_log [OF assms, of "[]"] by simp
qed

lemma replay_log_torn:
  assumes "proto_ok marshal unmarshal" "mf_log marshal mf css" "length (marshal cs) < 2 ^ 32"
    and "k < length (change_frame marshal cs)" "length (mf_file mf) + k < 2 ^ 32"
  shows "\<exists>b. ReplayManifestFile unmarshal (mf_file mf @ take k (change_frame marshal cs)) (mf_externalMagic mf) =
      (if 8 \<le> k \<and> length (mf_file mf) + k < length (marshal cs)
       then Inl (BufferTooLong (length (marshal cs)) (length (mf_file mf) + k))
       else Inr (b, length (mf_file mf))) \<and>
    m_Tables b = m_Tables (mf_manifest mf) \<and> manifest_inv b"
proof -
  have k: "length (take k (change_frame marshal cs)) = k" using assms(4) by simp
  have len: "length (mf_file mf @ take k (change_frame marshal cs)) = length (mf_file mf) + k"
    unfolding length_append k ..
  from replay_log [OF assms(1,2), of "take k (change_frame marshal cs)"] assms(5)
  obtain b where "ReplayManifestFile unmarshal (mf_file mf @ take k (change_frame marshal cs)) (mf_externalMagic mf) =
      replay_loop unmarshal (length (mf_file mf) + k) (take k (change_frame marshal cs)) (length (mf_file mf)) b"
    "m_Tables b = m_Tables (mf_manifest mf)" "manifest_inv b" unfolding len by blast
  then show ?thesis using replay_torn [OF assms(3,5,4)] by auto
qed

lemma frames_Nil_log:
  "mf_externalMagic mf = e \<Longrightarrow> mf_file mf = file_header e @ change_frame marshal [] \<Longrightarrow>
    length (mf_file mf) < 2 ^ 32 \<Longrightarrow> manifest_inv (mf_manifest mf) \<Longrightarrow>
    m_Tables (mf_manifest mf) = Map.empty \<Longrightarrow> mf_log marshal mf [[]]"
  by (simp add: mf_log_def frames_def plain_log_def createManifest_def)

lemma keys_ok_empty: "keys_ok keys \<Longrightarrow> keys Map.empty = []"
  unfolding keys_ok_def by (metis dom_empty finite.emptyI set_empty)

lemma mreach_log:
  assumes p: "proto_ok marshal unmarshal" and k: "keys_ok keys"
  shows "mreach marshal unmarshal keys extMagic threshold mf \<Longrightarrow>
    \<exists>css. mf_log marshal mf css \<and> mf_externalMagic mf = extMagic \<and> \<not> mf_inMemory mf"
proof (induction rule: mreach.induct)
  case (create mf m)
  have "clone keys createManifest = createManifest" "asChanges keys createManifest = []"
    using keys_ok_empty [OF k] by (simp_all add: clone_def asChanges_def createManifest_def)
  then have "mf_log marshal mf [[]] \<and> mf_externalMagic mf = extMagic \<and> \<not> mf_inMemory mf"
    using create
    by (auto simp: helpOpenOrCreateManifestFile_def helpRewrite_def Let_def createManifest_def
        intro!: frames_Nil_log) (simp add: createManifest_def [symmetric])
  then show ?case by blast
next
  case (change mf cs mf')
  then show ?case using addChanges_log [OF _ k] by metis
next
  case (reopen mf mf' m)
  from reopen.IH obtain css where log: "mf_log marshal mf css" and e: "mf_externalMagic mf = extMagic"
    by blast
  from replay_log_end [OF p log] e obtain b where
    b: "ReplayManifestFile unmarshal (mf_file mf) extMagic = Inr (b, length (mf_file mf))"
    "m_Tables b = m_Tables (mf_manifest mf)" "manifest_inv b" by blast
  with reopen.hyps(2) have mf': "mf' = \<lparr>mf_file = mf_file mf, mf_externalMagic = extMagic,
      mf_deletionsRewriteThreshold = threshold, mf_manifest = clone keys b, mf_inMemory = False\<rparr>"
    by (auto simp: helpOpenOrCreateManifestFile_def)
  have "mf_log marshal mf' css"
    using log b(2) clone_ok [OF k b(3)] e unfolding mf' by (auto simp: mf_log_def)
  then show ?case unfolding mf' by auto
next
  case (crash mf cs kk mf' m)
  from crash.IH obtain css where log: "mf_log marshal mf css" and e: "mf_externalMagic mf = extMagic"
    by blast
  from replay_log_torn [OF p log crash.hyps(3,4,5)] e crash.hyps(6) obtain b where
    b: "ReplayManifestFile unmarshal (mf_file mf @ take kk (change_frame marshal cs)) extMagic =
      Inr (b, length (mf_file mf))"
    "m_Tables b = m_Tables (mf_manifest mf)" "manifest_inv b"
    by (auto simp: helpOpenOrCreateManifestFile_def split: if_splits)
  with crash.hyps(6) have mf': "mf' = \<lparr>mf_file = mf_file mf, mf_externalMagic = extMagic,
      mf_deletionsRewriteThreshold = threshold, mf_manifest = clone keys b, mf_inMemory = False\<rparr>"
    by (auto simp: helpOpenOrCreateManifestFile_def)
  have "mf_log marshal mf' css"
    using log b(2) clone_ok [OF k b(3)] e unfolding mf' by (auto simp: mf_log_def)
  then show ?case unfolding mf' by auto
qed

section \<open>A concrete encoding\<close>

text \<open>
  A fixed-width encoding of change sets and an order of map keys, to instantiate the
  parameters at concrete inputs.
\<close>

definition fixed_change :: "ManifestChange \<Rightarrow> bytes" where
  "fixed_change c = U64ToBytes (mc_Id c) @ [case mc_Op c of CREATE \<Rightarrow> 0 | DELETE \<Rightarrow> 1 | OtherOp _ \<Rightarrow> 2] @
     U32ToBytes (mc_Level c) @ U64ToBytes (mc_KeyId c) @ U32ToBytes (mc_EncryptionAlgo c) @
     U32ToBytes (mc_Compression c)"

definition fixed_marshal :: "ManifestChange list \<Rightarrow> bytes" where
  "fixed_marshal cs = concat (map fixed_change cs)"

fun fixed_unmarshal :: "bytes \<Rightarrow> ManifestChange list option" where
  "fixed_unmarshal bs = (if bs = [] then Some []
     else if length bs < 29 then None
     else map_option ((#) \<lparr>mc_Id = word_of_nat (be_get (take 8 bs)),
        mc_Op = (if bs ! 8 = 0 then CREATE else if bs ! 8 = 1 then DELETE else OtherOp 2),
        mc_Level = word_of_nat (be_get (take 4 (drop 9 bs))),
        mc_KeyId = word_of_nat (be_get (take 8 (drop 13 bs))),
        mc_EncryptionAlgo = word_of_nat (be_get (take 4 (drop 21 bs))),
        mc_Compression = word_of_nat (be_get (take 4 (drop 25 bs)))\<rparr>) (fixed_unmarshal (drop 29 bs)))"

declare fixed_unmarshal.simps [simp del]

definition sorted_keys :: "(u64 \<rightharpoonup> TableManifest) \<Rightarrow> u64 list" where
  "sorted_keys t = sorted_list_of_set (dom t)"

lemma be_get_U64 [simp]: "be_get (U64ToBytes x) = unat x"
  using unsigned_less [of x, where ?'a = nat] by (simp add: U64ToBytes_def PutUint64_def be_get_put)

lemma length_U64 [simp]: "length (U64ToBytes x) = 8"
  by (simp add: U64ToBytes_def)

lemma length_fixed_change [simp]: "length (fixed_change c) = 29"
  by (simp add: fixed_change_def)

lemma fixed_unmarshal_change:
  "plain_change c \<Longrightarrow> fixed_unmarshal (fixed_change c @ r) = map_option ((#) c) (fixed_unmarshal r)"
  by (cases c; subst fixed_unmarshal.simps)
    (auto simp: fixed_change_def nth_append plain_change_def)

lemma proto_ok_fixed: "proto_ok fixed_marshal fixed_unmarshal"
proof -
  have "list_all plain_change cs \<Longrightarrow> fixed_unmarshal (fixed_marshal cs) = Some cs" for cs
  proof (induction cs)
    case Nil
    then show ?case by (simp add: fixed_marshal_def fixed_unmarshal.simps)
  next
    case (Cons c cs)
    then have "fixed_unmarshal (fixed_marshal (c # cs)) = map_option ((#) c) (fixed_unmarshal (fixed_marshal cs))"
      using fixed_unmarshal_change by (simp add: fixed_marshal_def)
    with Cons show ?case by simp
  qed
  then show ?thesis by (simp add: proto_ok_def)
qed

lemma keys_ok_sorted: "keys_ok sorted_keys"
  by (simp add: keys_ok_def sorted_keys_def)

section \<open>Properties\<close>

text \<open>
  C21: applying a change set refines the map of tables: the same tables and the same
  error, change by change, as the abstract map gives. The levels and the counters agree
  with the tables afterwards, also after an error in the middle of a set.
\<close>

theorem manifest_refines_map:
  assumes "manifest_inv m" and "list_all change_ok cs"
  shows "outcome (applyChangeSet m cs) = spec_changes (m_Tables m) cs \<and>
    manifest_inv (fst (applyChangeSet m cs))"
  using applyChangeSet_spec [OF assms] applyChangeSet_inv [OF assms] by blast

definition ex_changes :: "ManifestChange list" where
  "ex_changes = [newCreateChange 1 0 0 0, newCreateChange 2 98 0 0, newCreateChange 3 2 0 0,
     newDeleteChange 1]"

lemma ex_changes_plain: "list_all plain_change ex_changes"
  by (simp add: ex_changes_def plain_change_def change_ok_def newCreateChange_def newDeleteChange_def)

lemma manifest_refines_map_witness:
  "outcome (applyChangeSet createManifest ex_changes) = spec_changes Map.empty ex_changes \<and>
    spec_changes Map.empty ex_changes = Inr [2 \<mapsto> \<lparr>tm_Level = 98, tm_KeyID = 0, tm_Compression = 0\<rparr>,
      3 \<mapsto> \<lparr>tm_Level = 2, tm_KeyID = 0, tm_Compression = 0\<rparr>]"
proof -
  have "list_all change_ok ex_changes"
    using ex_changes_plain by (auto simp: list_all_iff plain_change_def)
  with manifest_refines_map [OF manifest_inv_create, of ex_changes] show ?thesis
    by (simp add: createManifest_def ex_changes_def newCreateChange_def newDeleteChange_def fun_upd_twist)
qed

text \<open>
  C5: whatever was created, changed, reopened or cut short by a crash, the
  MANIFEST file replays to its end, and to the tables the open manifest has in memory.
\<close>

theorem manifest_replay:
  assumes "proto_ok marshal unmarshal" and "keys_ok keys"
    and "mreach marshal unmarshal keys extMagic threshold mf"
  shows "\<exists>m. ReplayManifestFile unmarshal (mf_file mf) extMagic = Inr (m, length (mf_file mf)) \<and>
    m_Tables m = m_Tables (mf_manifest mf) \<and> manifest_inv m \<and> manifest_inv (mf_manifest mf)"
proof -
  from mreach_log [OF assms] obtain css where log: "mf_log marshal mf css"
    and e: "mf_externalMagic mf = extMagic" by blast
  from replay_log_end [OF assms(1) log] log e show ?thesis by (auto simp: mf_log_def)
qed

definition ex_manifest :: manifestFile where
  "ex_manifest = fst (projr (helpOpenOrCreateManifestFile fixed_marshal fixed_unmarshal sorted_keys
     None False 7 manifestDeletionsRewriteThreshold))"

lemma ex_manifest: "helpOpenOrCreateManifestFile fixed_marshal fixed_unmarshal sorted_keys
     None False 7 manifestDeletionsRewriteThreshold = Inr (ex_manifest, createManifest)"
    "mf_file ex_manifest = file_header 7 @ change_frame fixed_marshal []"
    "mf_manifest ex_manifest = createManifest" "mf_inMemory ex_manifest = False"
    "mf_deletionsRewriteThreshold ex_manifest = 10000"
  by (simp_all add: ex_manifest_def helpOpenOrCreateManifestFile_def helpRewrite_def Let_def
      asChanges_def sorted_keys_def clone_def manifestDeletionsRewriteThreshold_def)
    (simp_all add: createManifest_def)

lemma ex_manifest_reach: "mreach fixed_marshal fixed_unmarshal sorted_keys 7
     manifestDeletionsRewriteThreshold ex_manifest"
  by (rule mreach.create [OF ex_manifest(1)])
    (simp add: ex_manifest(2) length_change_frame fixed_marshal_def)

lemma length_fixed_marshal: "length (fixed_marshal cs) = 29 * length cs"
  by (induction cs) (simp_all add: fixed_marshal_def)

lemma ex_changes_apply: "\<exists>m. applyChangeSet createManifest ex_changes = (m, None) \<and> m_Deletions m = 1"
  by (simp add: ex_changes_def applyManifestChange_def newCreateChange_def newDeleteChange_def
      createManifest_def Let_def grow_levels_def)

lemma manifest_replay_witness:
  "\<exists>mf m. addChanges fixed_marshal sorted_keys ex_manifest ex_changes = (mf, None) \<and>
    ReplayManifestFile fixed_unmarshal (mf_file mf) 7 = Inr (m, length (mf_file mf)) \<and>
    length (mf_file mf) = 140 \<and> m_Tables m = m_Tables (mf_manifest mf)"
proof -
  obtain m where m: "applyChangeSet createManifest ex_changes = (m, None)" "m_Deletions m = 1"
    using ex_changes_apply by blast
  obtain mf where mf: "addChanges fixed_marshal sorted_keys ex_manifest ex_changes = (mf, None)"
    "mf_file mf = mf_file ex_manifest @ change_frame fixed_marshal ex_changes"
    using m by (simp add: addChanges_def ex_manifest Let_def)
  then have len: "length (mf_file mf) = 140"
    by (simp add: ex_manifest length_change_frame length_fixed_marshal ex_changes_def)
  have "mreach fixed_marshal fixed_unmarshal sorted_keys 7 manifestDeletionsRewriteThreshold mf"
    using mreach.change [OF ex_manifest_reach ex_changes_plain mf(1)] len by simp
  from manifest_replay [OF proto_ok_fixed keys_ok_sorted this] mf(1) len show ?thesis by blast
qed

text \<open>
  C32: a crash that leaves the first \<open>k\<close> bytes of a frame behind the log: the
  replay gives the tables before the change and the offset of the torn frame, except when
  the frame's length field (\<open>8 \<le> k\<close>) exceeds the size of the whole file: then opening fails.
\<close>

theorem manifest_torn_frame:
  assumes "proto_ok marshal unmarshal" and "keys_ok keys"
    and "mreach marshal unmarshal keys extMagic threshold mf"
    and "length (marshal cs) < 2 ^ 32" and "k < length (change_frame marshal cs)"
    and "length (mf_file mf) + k < 2 ^ 32"
  shows "\<exists>m. m_Tables m = m_Tables (mf_manifest mf) \<and>
    ReplayManifestFile unmarshal (mf_file mf @ take k (change_frame marshal cs)) extMagic =
      (if 8 \<le> k \<and> length (mf_file mf) + k < length (marshal cs)
       then Inl (BufferTooLong (length (marshal cs)) (length (mf_file mf) + k))
       else Inr (m, length (mf_file mf)))"
proof -
  from mreach_log [OF assms(1-3)] obtain css where log: "mf_log marshal mf css"
    and e: "mf_externalMagic mf = extMagic" by blast
  from replay_log_torn [OF assms(1) log assms(4-6)] e show ?thesis by blast
qed

lemma manifest_torn_frame_witness:
  "ReplayManifestFile fixed_unmarshal
     (mf_file ex_manifest @ take 9 (change_frame fixed_marshal ex_changes)) 7 =
       Inl (BufferTooLong 116 25) \<and>
   (\<exists>m. ReplayManifestFile fixed_unmarshal
     (mf_file ex_manifest @ take 123 (change_frame fixed_marshal ex_changes)) 7 = Inr (m, 16) \<and>
     m_Tables m = Map.empty)"
proof -
  have len: "length (mf_file ex_manifest) = 16" "length (change_frame fixed_marshal ex_changes) = 124"
    "length (fixed_marshal ex_changes) = 116"
    by (simp_all add: ex_manifest length_change_frame length_fixed_marshal ex_changes_def)
  note torn = manifest_torn_frame [OF proto_ok_fixed keys_ok_sorted ex_manifest_reach, of ex_changes]
  from torn [of 9] torn [of 123] len show ?thesis
    by (auto simp: ex_manifest createManifest_def)
qed

text \<open>
  opening an existing MANIFEST gives the tables the last process left, in the
  manifest returned and in the clone kept for rewriting; the clone's counters start
  again (as many creations as tables, no deletions), whatever the file has recorded.
\<close>

theorem manifest_reopen:
  assumes "proto_ok marshal unmarshal" and "keys_ok keys"
    and "mreach marshal unmarshal keys extMagic threshold mf"
  shows "\<exists>mf' m. helpOpenOrCreateManifestFile marshal unmarshal keys (Some (mf_file mf)) False
      extMagic threshold' = Inr (mf', m) \<and>
    mf_file mf' = mf_file mf \<and> m_Tables m = m_Tables (mf_manifest mf) \<and>
    m_Tables (mf_manifest mf') = m_Tables (mf_manifest mf) \<and> manifest_inv (mf_manifest mf') \<and>
    m_Creations (mf_manifest mf') = int (card (dom (m_Tables (mf_manifest mf)))) \<and>
    m_Deletions (mf_manifest mf') = 0"
proof -
  from mreach_log [OF assms] obtain css where log: "mf_log marshal mf css"
    and e: "mf_externalMagic mf = extMagic" by blast
  from replay_log_end [OF assms(1) log] e obtain b where
    "ReplayManifestFile unmarshal (mf_file mf) extMagic = Inr (b, length (mf_file mf))"
    "m_Tables b = m_Tables (mf_manifest mf)" "manifest_inv b" by blast
  with clone_ok [OF assms(2), of b] show ?thesis by (simp add: helpOpenOrCreateManifestFile_def)
qed

lemma manifest_reopen_witness:
  "\<exists>mf. helpOpenOrCreateManifestFile fixed_marshal fixed_unmarshal sorted_keys
      (Some (mf_file ex_manifest)) False 7 10000 = Inr (mf, createManifest) \<and>
    m_Tables (mf_manifest mf) = Map.empty \<and> m_Deletions (mf_manifest mf) = 0"
proof -
  have "ReplayManifestFile fixed_unmarshal (mf_file ex_manifest) 7 = Inr (createManifest, 16)"
  proof -
    have end0: "replay_loop fixed_unmarshal n [] off b = Inr (b, off)" for n off b
      by (subst replay_loop.simps) simp
    have "replay_loop fixed_unmarshal 16 (change_frame fixed_marshal [] @ []) 8 createManifest =
        replay_loop fixed_unmarshal 16 [] (8 + length (change_frame fixed_marshal [])) createManifest"
      by (rule replay_frame [OF proto_ok_fixed]) (simp_all add: length_fixed_marshal)
    then show ?thesis
      using replay_header [of fixed_unmarshal 7 "change_frame fixed_marshal []"]
      by (simp add: ex_manifest end0 length_change_frame length_fixed_marshal)
  qed
  then obtain mf where "helpOpenOrCreateManifestFile fixed_marshal fixed_unmarshal sorted_keys
      (Some (mf_file ex_manifest)) False 7 10000 = Inr (mf, createManifest)"
    by (simp add: helpOpenOrCreateManifestFile_def)
  with manifest_reopen [OF proto_ok_fixed keys_ok_sorted ex_manifest_reach, of 10000]
  show ?thesis by (auto simp: ex_manifest createManifest_def)
qed

end
