(* ===== verification/TableBlock.thy ===== *)
theory TableBlock
  imports Manifest
begin

text \<open>
  The blocks of a table file: how the builder lays entries out with prefix compression
  against the first key (\<open>table/builder.go\<close>: \<open>header\<close>, \<open>keyDiff\<close>, the block part of
  \<open>addHelper\<close> and \<open>finishBlock\<close>), how a block is taken apart (\<open>table/table.go\<close>: the end of
  \<open>block\<close>), and the block iterator (\<open>table/iterator.go\<close>), which rebuilds keys in a buffer
  that it keeps from one entry to the next. \<open>None\<close> is a panic. Slices are checked against
  their length; memory behind the length of a slice is not modelled.
\<close>

section \<open>Slices and words\<close>

definition go_slice :: "'a list \<Rightarrow> int \<Rightarrow> int \<Rightarrow> 'a list option" where
  "go_slice xs i j = (if 0 \<le> i \<and> i \<le> j \<and> j \<le> int (length xs) then Some (take (nat (j - i)) (drop (nat i) xs)) else None)"

lemma slice_simps [simp]: "i \<le> j \<Longrightarrow> j \<le> length xs \<Longrightarrow> go_slice xs (int i) (int j) = Some (take (j - i) (drop i xs))"
  by (simp add: go_slice_def nat_diff_distrib)

text \<open>The machine's byte order, which \<open>header\<close> and \<open>U32SliceToBytes\<close> copy.\<close>

definition le_u16 :: "u16 \<Rightarrow> bytes" where
  "le_u16 x = rev (U16ToBytes x)"

definition le_get_u16 :: "bytes \<Rightarrow> u16" where
  "le_get_u16 bs = word_of_nat (be_get (rev bs))"

lemma length_le_u16 [simp]: "length (le_u16 x) = 2"
  by (simp add: le_u16_def)

lemma le_get_le_u16 [simp]: "le_get_u16 (le_u16 x) = x"
  using BytesToU16_append [of x "[]"] by (simp add: le_get_u16_def le_u16_def BytesToU16_def)

definition U32SliceToBytes :: "u32 list \<Rightarrow> bytes" where
  "U32SliceToBytes xs = concat (map le_u32 xs)"

fun BytesToU32Slice :: "bytes \<Rightarrow> u32 list" where
  "BytesToU32Slice (a # b # c # d # r) = le_get_u32 [a, b, c, d] # BytesToU32Slice r"
| "BytesToU32Slice _ = []"

lemma BytesToU32Slice_append: "length x = 4 \<Longrightarrow> BytesToU32Slice (x @ r) = le_get_u32 x # BytesToU32Slice r"
proof -
  assume "length x = 4"
  then obtain a b c d where "x = [a, b, c, d]" by (auto simp: numeral_eq_Suc length_Suc_conv)
  then show ?thesis by simp
qed

lemma BytesToU32Slice_U32 [simp]: "BytesToU32Slice (U32SliceToBytes xs) = xs"
  by (induction xs) (simp_all add: U32SliceToBytes_def BytesToU32Slice_append)

lemma length_U32SliceToBytes [simp]: "length (U32SliceToBytes xs) = 4 * length xs"
  by (induction xs) (simp_all add: U32SliceToBytes_def)

section \<open>Writing a block\<close>

record key_header =
  kh_overlap :: u16
  kh_diff :: u16

definition kh_Encode :: "key_header \<Rightarrow> bytes" where
  "kh_Encode h = le_u16 (kh_overlap h) @ le_u16 (kh_diff h)"

definition kh_Decode :: "bytes \<Rightarrow> key_header option" where
  "kh_Decode buf = map_option (\<lambda>b. \<lparr>kh_overlap = le_get_u16 (take 2 b), kh_diff = le_get_u16 (drop 2 b)\<rparr>) (go_slice buf 0 4)"

lemma length_kh [simp]: "length (kh_Encode h) = 4"
  by (simp add: kh_Encode_def)

lemma kh_Decode_Encode [simp]: "kh_Decode (kh_Encode h @ r) = Some h"
  by (simp add: kh_Decode_def go_slice_def kh_Encode_def)

record bblock =
  bb_data :: bytes
  bb_baseKey :: bytes
  bb_entryOffsets :: "u32 list"

definition new_bblock :: bblock where
  "new_bblock = \<lparr>bb_data = [], bb_baseKey = [], bb_entryOffsets = []\<rparr>"

text \<open>The loop of \<open>keyDiff\<close> counts the bytes that the key has in common with the base key.\<close>

fun key_overlap :: "bytes \<Rightarrow> bytes \<Rightarrow> nat" where
  "key_overlap (a # as) (b # bs) = (if a \<noteq> b then 0 else Suc (key_overlap as bs))"
| "key_overlap _ _ = 0"

definition keyDiff :: "bytes \<Rightarrow> bytes \<Rightarrow> bytes" where
  "keyDiff baseKey newKey = drop (key_overlap newKey baseKey) newKey"

text \<open>What \<open>addHelper\<close> does to the block; the assertions on the lengths panic.\<close>

definition block_add :: "bblock \<Rightarrow> bytes \<Rightarrow> ValueStruct \<Rightarrow> bblock option" where
  "block_add bb key v =
     (let (baseKey, diffKey) = (if length (bb_baseKey bb) = 0 then (key, key) else (bb_baseKey bb, keyDiff (bb_baseKey bb) key))
      in if 65535 < length key - length diffKey \<or> 65535 < length diffKey then None
         else
           let h = \<lparr>kh_overlap = word_of_nat (length key - length diffKey), kh_diff = word_of_nat (length diffKey)\<rparr>
           in case Encode v (replicate (unat (EncodedSize v)) 0) of None \<Rightarrow> None
              | Some (dst, _) \<Rightarrow> Some (bb\<lparr>bb_baseKey := baseKey,
                  bb_entryOffsets := bb_entryOffsets bb @ [word_of_nat (length (bb_data bb))],
                  bb_data := bb_data bb @ kh_Encode h @ diffKey @ dst\<rparr>))"

text \<open>\<open>calculateChecksum\<close>: the message with the sum is marshalled by the protocol buffers (\<open>marshal\<close>).\<close>

definition calculateChecksum :: "(u64 \<Rightarrow> bytes) \<Rightarrow> bytes \<Rightarrow> bytes" where
  "calculateChecksum marshal data = marshal (ucast (crc32c data))"

definition block_finish :: "(u64 \<Rightarrow> bytes) \<Rightarrow> bblock \<Rightarrow> bblock" where
  "block_finish marshal bb =
     (let data = bb_data bb @ U32SliceToBytes (bb_entryOffsets bb) @ U32ToBytes (word_of_nat (length (bb_entryOffsets bb)));
          checksum = calculateChecksum marshal data
      in bb\<lparr>bb_data := data @ checksum @ U32ToBytes (word_of_nat (length checksum))\<rparr>)"

section \<open>Taking a block apart\<close>

datatype table_error =
  ChecksumLength | BadSum | SumMismatch u64 u64 | NoBlock int | ReadFailed int int | CannotDecompress | NoBiggest | ZeroBlockSize

record block =
  bk_data :: bytes
  bk_checksum :: bytes
  bk_entriesIndexStart :: nat
  bk_entryOffsets :: "u32 list"

definition u32_at :: "bytes \<Rightarrow> int \<Rightarrow> nat option" where
  "u32_at data i = Option.bind (go_slice data i (i + 4)) (\<lambda>b. map_option unat (BytesToU32 b))"

definition parse_block :: "bytes \<Rightarrow> (table_error + block) option" where
  "parse_block data =
     (let p1 = int (length data) - 4
      in case u32_at data p1 of None \<Rightarrow> None
         | Some chkLen \<Rightarrow>
            if length data < chkLen then Some (Inl ChecksumLength)
            else
              let p2 = p1 - int chkLen
              in case go_slice data p2 (p2 + int chkLen) of None \<Rightarrow> None
                 | Some checksum \<Rightarrow>
                    (let p3 = p2 - 4
                     in case u32_at data p3 of None \<Rightarrow> None
                        | Some numEntries \<Rightarrow>
                           let start = p3 - int (numEntries * 4)
                           in case go_slice data start (start + int (numEntries * 4)) of None \<Rightarrow> None
                              | Some offs \<Rightarrow>
                                 Some (Inr \<lparr>bk_data = take (nat (p3 + 4)) data, bk_checksum = checksum,
                                   bk_entriesIndexStart = nat start, bk_entryOffsets = BytesToU32Slice offs\<rparr>)))"

text \<open>\<open>verifyCheckSum\<close> and \<open>y.VerifyChecksum\<close>; the builder only writes CRC32C sums.\<close>

definition verifyChecksum :: "(bytes \<Rightarrow> u64 option) \<Rightarrow> bytes \<Rightarrow> bytes \<Rightarrow> table_error option" where
  "verifyChecksum unmarshal data checksum = (case unmarshal checksum of None \<Rightarrow> Some BadSum
     | Some expected \<Rightarrow> (let actual = ucast (crc32c data) in if actual \<noteq> expected then Some (SumMismatch actual expected) else None))"

section \<open>The block iterator\<close>

record block_iter =
  bi_data :: bytes
  bi_idx :: int
  bi_eof :: bool
  bi_baseKey :: bytes
  bi_key :: bytes
  bi_val :: bytes
  bi_entryOffsets :: "u32 list"
  bi_prevOverlap :: u16

definition setBlock :: "block \<Rightarrow> block_iter" where
  "setBlock b = \<lparr>bi_data = take (bk_entriesIndexStart b) (bk_data b), bi_idx = 0, bi_eof = False, bi_baseKey = [],
     bi_key = [], bi_val = [], bi_entryOffsets = bk_entryOffsets b, bi_prevOverlap = 0\<rparr>"

text \<open>\<open>headerSize\<close> is a \<open>uint16\<close>, so its sum with a difference wraps at $2^{16}$.\<close>

definition read_baseKey :: "block_iter \<Rightarrow> bytes option" where
  "read_baseKey itr = (if length (bi_baseKey itr) = 0
     then Option.bind (kh_Decode (bi_data itr)) (\<lambda>h. go_slice (bi_data itr) 4 (int (unat (4 + kh_diff h))))
     else Some (bi_baseKey itr))"

definition read_entry :: "block_iter \<Rightarrow> bytes \<Rightarrow> bytes \<Rightarrow> block_iter option" where
  "read_entry itr baseKey entryData =
     Option.bind (kh_Decode entryData) (\<lambda>h.
     Option.bind (if bi_prevOverlap itr < kh_overlap h
        then Option.bind (go_slice (bi_key itr) 0 (int (unat (bi_prevOverlap itr)))) (\<lambda>a.
             map_option (\<lambda>b. a @ b) (go_slice baseKey (int (unat (bi_prevOverlap itr))) (int (unat (kh_overlap h)))))
        else Some (bi_key itr)) (\<lambda>key1.
     Option.bind (go_slice entryData 4 (int (unat (4 + kh_diff h)))) (\<lambda>diffKey.
     Option.bind (go_slice key1 0 (int (unat (kh_overlap h)))) (\<lambda>key2.
     map_option (\<lambda>val. itr\<lparr>bi_baseKey := baseKey, bi_prevOverlap := kh_overlap h, bi_key := key2 @ diffKey, bi_val := val\<rparr>)
       (go_slice entryData (int (unat (4 + kh_diff h))) (int (length entryData)))))))"

definition setIdx :: "block_iter \<Rightarrow> int \<Rightarrow> block_iter option" where
  "setIdx itr0 i =
     (let itr = itr0\<lparr>bi_idx := i\<rparr>
      in if int (length (bi_entryOffsets itr)) \<le> i \<or> i < 0 then Some (itr\<lparr>bi_eof := True\<rparr>)
         else
           let itr1 = itr\<lparr>bi_eof := False\<rparr>; startOffset = unat (bi_entryOffsets itr ! nat i)
           in Option.bind (read_baseKey itr1) (\<lambda>baseKey.
              let endOffset = (if i + 1 = int (length (bi_entryOffsets itr)) then length (bi_data itr)
                               else unat (bi_entryOffsets itr ! nat (i + 1)))
              in Option.bind (go_slice (bi_data itr) (int startOffset) (int endOffset)) (read_entry itr1 baseKey)))"

definition bi_seekToFirst :: "block_iter \<Rightarrow> block_iter option" where
  "bi_seekToFirst itr = setIdx itr 0"

definition bi_seekToLast :: "block_iter \<Rightarrow> block_iter option" where
  "bi_seekToLast itr = setIdx itr (int (length (bi_entryOffsets itr)) - 1)"

definition bi_next :: "block_iter \<Rightarrow> block_iter option" where
  "bi_next itr = setIdx itr (bi_idx itr + 1)"

definition bi_prev :: "block_iter \<Rightarrow> block_iter option" where
  "bi_prev itr = setIdx itr (bi_idx itr - 1)"

text \<open>\<open>sort.Search\<close> with a predicate that moves the iterator.\<close>

function bi_search :: "bytes \<Rightarrow> int \<Rightarrow> block_iter \<Rightarrow> nat \<Rightarrow> nat \<Rightarrow> (block_iter \<times> nat) option" where
  "bi_search key startIndex itr i j =
     (if j \<le> i then Some (itr, i)
      else let h = (i + j) div 2
        in if int h < startIndex then bi_search key startIndex itr (h + 1) j
           else case setIdx itr (int h) of None \<Rightarrow> None
             | Some itr1 \<Rightarrow> if 0 \<le> cmp_keys (bi_key itr1) key then bi_search key startIndex itr1 i h
                 else bi_search key startIndex itr1 (h + 1) j)"
  by pat_completeness auto
termination
  by (relation "measure (\<lambda>(_, _, _, i, j). j - i)") auto

declare bi_search.simps [simp del]

definition bi_seek :: "block_iter \<Rightarrow> bytes \<Rightarrow> bool \<Rightarrow> block_iter option" where
  "bi_seek itr key from_current =
     (case bi_search key (if from_current then bi_idx itr else 0) (itr\<lparr>bi_eof := False\<rparr>) 0 (length (bi_entryOffsets itr)) of
        None \<Rightarrow> None
      | Some (itr1, i) \<Rightarrow> setIdx itr1 (int i))"

section \<open>Blocks as lists of entries\<close>

text \<open>The entry of a key that shares its first \<open>n\<close> bytes with the base key.\<close>

type_synonym item = "nat \<times> bytes \<times> ValueStruct"

definition item_bytes :: "item \<Rightarrow> bytes" where
  "item_bytes x = (case x of (n, k, v) \<Rightarrow>
     kh_Encode \<lparr>kh_overlap = word_of_nat n, kh_diff = word_of_nat (length k - n)\<rparr> @ drop n k @ EncodeTo v)"

definition items_bytes :: "item list \<Rightarrow> bytes" where
  "items_bytes xs = concat (map item_bytes xs)"

definition item_offset :: "item list \<Rightarrow> nat \<Rightarrow> nat" where
  "item_offset xs i = length (items_bytes (take i xs))"

definition offsets_of :: "item list \<Rightarrow> u32 list" where
  "offsets_of xs = map (\<lambda>i. word_of_nat (item_offset xs i)) [0..<length xs]"

text \<open>
  The bound on the differences is what the reader can take: four less than what the
  assertions of the builder allow, since \<open>headerSize + diff\<close> must not wrap.
\<close>

definition item_ok :: "bytes \<Rightarrow> item \<Rightarrow> bool" where
  "item_ok base x \<longleftrightarrow> (case x of (n, k, v) \<Rightarrow> n \<le> length k \<and> n \<le> length base \<and> take n k = take n base \<and>
     n < 2 ^ 16 \<and> length k - n + 4 < 2 ^ 16)"

definition items_ok :: "bytes \<Rightarrow> item list \<Rightarrow> bool" where
  "items_ok base xs \<longleftrightarrow> (\<forall>x \<in> set xs. item_ok base x) \<and> length (items_bytes xs) < 2 ^ 32 \<and>
     (xs \<noteq> [] \<longrightarrow> base \<noteq> [] \<and> fst (hd xs) = 0 \<and> fst (snd (hd xs)) = base)"

definition bblock_of :: "bytes \<Rightarrow> item list \<Rightarrow> bblock" where
  "bblock_of base xs = \<lparr>bb_data = items_bytes xs, bb_baseKey = base, bb_entryOffsets = offsets_of xs\<rparr>"

lemma items_bytes_append [simp]: "items_bytes (xs @ ys) = items_bytes xs @ items_bytes ys" "items_bytes [] = []"
  "items_bytes (x # xs) = item_bytes x @ items_bytes xs"
  by (simp_all add: items_bytes_def)

lemma offsets_snoc: "offsets_of (xs @ [x]) = offsets_of xs @ [word_of_nat (length (items_bytes xs))]"
  by (simp add: offsets_of_def item_offset_def)

lemma length_offsets [simp]: "length (offsets_of xs) = length xs"
  by (simp add: offsets_of_def)

lemma key_overlap_prefix: "key_overlap k b \<le> length k \<and> key_overlap k b \<le> length b \<and> take (key_overlap k b) k = take (key_overlap k b) b"
  by (induction k b rule: key_overlap.induct) auto

text \<open>Adding an entry to a block adds an item.\<close>

definition next_item :: "bytes \<Rightarrow> bytes \<Rightarrow> ValueStruct \<Rightarrow> item" where
  "next_item base k v = (if base = [] then 0 else key_overlap k base, k, v)"

lemma block_add_items:
  assumes ok: "items_ok base xs" and base: "xs = [] \<Longrightarrow> base = []" and k: "k \<noteq> []" "length k + 4 < 2 ^ 16"
    and v: "length (EncodeTo v) < 2 ^ 32" and room: "length (items_bytes (xs @ [next_item base k v])) < 2 ^ 32"
  shows "block_add (bblock_of base xs) k v = Some (bblock_of (if base = [] then k else base) (xs @ [next_item base k v])) \<and>
    items_ok (if base = [] then k else base) (xs @ [next_item base k v])"
proof -
  let ?n = "if base = [] then 0 else key_overlap k base"
  have n: "?n \<le> length k" "?n \<le> length (if base = [] then k else base)" "take ?n k = take ?n (if base = [] then k else base)"
    using key_overlap_prefix [of k base] by auto
  have d: "length k - (length k - ?n) = ?n" using n(1) by simp
  have u: "unat (EncodedSize v) = length (EncodeTo v)" using v by (simp add: EncodedSize_EncodeTo unat_of_nat)
  have e: "Encode v (replicate (unat (EncodedSize v)) 0) = Some (EncodeTo v, EncodedSize v)"
    using Encode_EncodeTo [of v "replicate (unat (EncodedSize v)) 0"] u by simp
  have item: "item_bytes (next_item base k v) =
      kh_Encode \<lparr>kh_overlap = word_of_nat ?n, kh_diff = word_of_nat (length k - ?n)\<rparr> @ drop ?n k @ EncodeTo v"
    by (simp add: item_bytes_def next_item_def)
  have add: "block_add (bblock_of base xs) k v = Some (bblock_of (if base = [] then k else base) (xs @ [next_item base k v]))"
    using n(1) d e k item by (auto simp: block_add_def bblock_of_def keyDiff_def offsets_snoc Let_def)
  have "item_ok (if base = [] then k else base) (next_item base k v)"
    using n k by (auto simp: item_ok_def next_item_def)
  moreover have "xs \<noteq> [] \<Longrightarrow> base \<noteq> []" using ok by (simp add: items_ok_def)
  ultimately have "items_ok (if base = [] then k else base) (xs @ [next_item base k v])"
    using ok base room k(1) unfolding items_ok_def by (cases xs) (auto simp: next_item_def)
  then show ?thesis using add by blast
qed

section \<open>Reading the items back\<close>

lemma item_offset_add: "i < length xs \<Longrightarrow> item_offset xs (Suc i) = item_offset xs i + length (item_bytes (xs ! i))"
  by (simp add: item_offset_def take_Suc_conv_app_nth)

lemma item_offset_end: "item_offset xs (length xs) = length (items_bytes xs)" "item_offset xs 0 = 0"
  by (simp_all add: item_offset_def)

lemma item_offset_le: "item_offset xs i \<le> length (items_bytes xs)"
proof -
  have "items_bytes xs = items_bytes (take i xs) @ items_bytes (drop i xs)" by (metis append_take_drop_id items_bytes_append(1))
  then show ?thesis unfolding item_offset_def by (metis le_add1 length_append)
qed

lemma item_slice:
  assumes "i < length xs"
  shows "go_slice (items_bytes xs) (int (item_offset xs i)) (int (item_offset xs (Suc i))) = Some (item_bytes (xs ! i))"
proof -
  have x: "items_bytes xs = items_bytes (take i xs) @ item_bytes (xs ! i) @ items_bytes (drop (Suc i) xs)"
    using id_take_nth_drop [OF assms] by (metis items_bytes_append(1) items_bytes_append(3))
  have a: "item_offset xs (Suc i) - item_offset xs i = length (item_bytes (xs ! i))" using item_offset_add [OF assms] by simp
  have "go_slice (items_bytes xs) (int (item_offset xs i)) (int (item_offset xs (Suc i))) =
      Some (take (length (item_bytes (xs ! i))) (drop (item_offset xs i) (items_bytes xs)))"
    unfolding a [symmetric] by (rule slice_simps) (use item_offset_add [OF assms] item_offset_le [of xs "Suc i"] in auto)
  then show ?thesis by (subst (asm) x) (simp add: item_offset_def)
qed

text \<open>What the iterator keeps true: its buffer agrees with the base key as far as it says.\<close>

definition bi_inv :: "bytes \<Rightarrow> item list \<Rightarrow> block_iter \<Rightarrow> bool" where
  "bi_inv base xs itr \<longleftrightarrow> bi_data itr = items_bytes xs \<and> bi_entryOffsets itr = offsets_of xs \<and>
     (bi_baseKey itr = [] \<or> bi_baseKey itr = base) \<and> unat (bi_prevOverlap itr) \<le> length (bi_key itr) \<and>
     unat (bi_prevOverlap itr) \<le> length base \<and>
     take (unat (bi_prevOverlap itr)) (bi_key itr) = take (unat (bi_prevOverlap itr)) base \<and>
     (bi_key itr = [] \<or> bi_key itr \<in> (fst \<circ> snd) ` set xs)"

definition at_item :: "item \<Rightarrow> int \<Rightarrow> block_iter \<Rightarrow> bool" where
  "at_item x i itr \<longleftrightarrow> bi_idx itr = i \<and> \<not> bi_eof itr \<and> (case x of (n, k, v) \<Rightarrow> bi_key itr = k \<and> bi_val itr = EncodeTo v)"

lemma unat_u16: "n < 2 ^ 16 \<Longrightarrow> unat (word_of_nat n :: u16) = n"
  by (simp add: unat_of_nat)

lemma unat_u16_add4: "n + 4 < 2 ^ 16 \<Longrightarrow> unat (4 + word_of_nat n :: u16) = 4 + n"
  using unat_u16 [of "4 + n"] by simp

lemma item_parts:
  assumes "item_ok base (n, k, v)"
  shows "kh_Decode (item_bytes (n, k, v)) = Some \<lparr>kh_overlap = word_of_nat n, kh_diff = word_of_nat (length k - n)\<rparr>"
    and "go_slice (item_bytes (n, k, v)) 4 (int (unat (4 + word_of_nat (length k - n) :: u16))) = Some (drop n k)"
    and "go_slice (item_bytes (n, k, v)) (int (unat (4 + word_of_nat (length k - n) :: u16))) (int (length (item_bytes (n, k, v)))) = Some (EncodeTo v)"
proof -
  have d: "unat (4 + word_of_nat (length k - n) :: u16) = 4 + (length k - n)"
    using unat_u16_add4 [of "length k - n"] assms unfolding item_ok_def prod.case by blast
  show "kh_Decode (item_bytes (n, k, v)) = Some \<lparr>kh_overlap = word_of_nat n, kh_diff = word_of_nat (length k - n)\<rparr>"
    by (simp add: item_bytes_def)
  show "go_slice (item_bytes (n, k, v)) 4 (int (unat (4 + word_of_nat (length k - n) :: u16))) = Some (drop n k)"
    unfolding d using slice_simps [of 4 "4 + (length k - n)" "item_bytes (n, k, v)"] by (simp add: item_bytes_def)
  show "go_slice (item_bytes (n, k, v)) (int (unat (4 + word_of_nat (length k - n) :: u16))) (int (length (item_bytes (n, k, v)))) = Some (EncodeTo v)"
    unfolding d by (subst slice_simps) (simp_all add: item_bytes_def)
qed

lemma read_entry_item:
  assumes inv: "bi_inv base xs itr" and x: "item_ok base (n, k, v)" and mem: "(n, k, v) \<in> set xs"
  shows "\<exists>itr'. read_entry itr base (item_bytes (n, k, v)) = Some itr' \<and> bi_inv base xs itr' \<and> bi_key itr' = k \<and>
    bi_val itr' = EncodeTo v \<and> bi_idx itr' = bi_idx itr \<and> bi_eof itr' = bi_eof itr \<and> bi_baseKey itr' = base"
proof -
  let ?p = "unat (bi_prevOverlap itr)"
  have n: "n \<le> length k" "n \<le> length base" "take n k = take n base" "unat (word_of_nat n :: u16) = n"
    using x unat_u16 by (auto simp: item_ok_def)
  have pk: "?p \<le> length (bi_key itr)" "?p \<le> length base" "take ?p (bi_key itr) = take ?p base"
    using inv by (auto simp: bi_inv_def)
  obtain key1 where key1: "(if bi_prevOverlap itr < word_of_nat n
        then Option.bind (go_slice (bi_key itr) 0 (int ?p)) (\<lambda>a. map_option (\<lambda>b. a @ b) (go_slice base (int ?p) (int n)))
        else Some (bi_key itr)) = Some key1" and k1: "n \<le> length key1" "take n key1 = take n base"
  proof (cases "bi_prevOverlap itr < word_of_nat n")
    case True
    then have lt: "?p < n" using n(4) by (simp add: word_less_nat_alt)
    have "go_slice (bi_key itr) 0 (int ?p) = Some (take ?p base)" using slice_simps [of 0 ?p "bi_key itr"] pk by simp
    moreover have "go_slice base (int ?p) (int n) = Some (take (n - ?p) (drop ?p base))"
      by (rule slice_simps) (use lt n(2) in simp_all)
    moreover have "take ?p base @ take (n - ?p) (drop ?p base) = take n base" using lt by (metis le_add_diff_inverse less_imp_le take_add)
    ultimately show ?thesis using that [of "take n base"] True n(2) by simp
  next
    case False
    then have le: "n \<le> ?p" using n(4) by (simp add: word_less_nat_alt)
    have "take n (bi_key itr) = take n base" using pk(3) le by (metis min.absorb1 take_take)
    then show ?thesis using that [of "bi_key itr"] False pk(1) le by simp
  qed
  have k2: "go_slice key1 0 (int n) = Some (take n base)" using slice_simps [of 0 n key1] k1 by simp
  have key: "take n base @ drop n k = k" using n(3) by (metis append_take_drop_id)
  let ?itr = "itr\<lparr>bi_baseKey := base, bi_prevOverlap := word_of_nat n, bi_key := k, bi_val := EncodeTo v\<rparr>"
  have "read_entry itr base (item_bytes (n, k, v)) = Some ?itr"
    unfolding read_entry_def item_parts(1) [OF x] Option.bind.simps key_header.select_convs n(4) key1
    by (simp add: item_parts [OF x] k2 key del: of_nat_unat)
  moreover have "k \<in> (fst \<circ> snd) ` set xs" using mem by force
  then have "bi_inv base xs ?itr" using inv n by (simp add: bi_inv_def)
  ultimately show ?thesis by simp
qed

lemma offset_at:
  assumes "items_ok base xs" and "i < length xs"
  shows "unat (offsets_of xs ! i) = item_offset xs i"
proof -
  have "item_offset xs i < 2 ^ 32" using item_offset_le [of xs i] assms(1) by (simp add: items_ok_def)
  then show ?thesis using assms(2) by (simp add: offsets_of_def unat_of_nat)
qed

lemma read_baseKey_items:
  assumes ok: "items_ok base xs" and ne: "xs \<noteq> []" and inv: "bi_inv base xs itr"
  shows "read_baseKey itr = Some base"
proof (cases "bi_baseKey itr = []")
  case True
  obtain v ys where xs: "xs = (0, base, v) # ys" using ok ne by (cases xs) (auto simp: items_ok_def)
  have x: "item_ok base (0, base, v)" using ok xs by (simp add: items_ok_def)
  have d: "unat (4 + word_of_nat (length base) :: u16) = 4 + length base"
    using unat_u16_add4 [of "length base"] x by (simp add: item_ok_def)
  let ?data = "items_bytes xs"
  have data: "?data = kh_Encode \<lparr>kh_overlap = 0, kh_diff = word_of_nat (length base)\<rparr> @ base @ EncodeTo v @ items_bytes ys"
    by (simp add: xs item_bytes_def)
  have "go_slice ?data (int 4) (int (4 + length base)) = Some base"
    by (subst slice_simps) (simp_all add: data)
  moreover have "kh_Decode ?data = Some \<lparr>kh_overlap = 0, kh_diff = word_of_nat (length base)\<rparr>" by (simp add: data)
  moreover have "bi_data itr = ?data" using inv by (simp add: bi_inv_def)
  ultimately show ?thesis using True d by (simp add: read_baseKey_def del: of_nat_unat)
next
  case False
  then show ?thesis using inv by (auto simp: read_baseKey_def bi_inv_def)
qed

lemma setIdx_item:
  assumes ok: "items_ok base xs" and inv: "bi_inv base xs itr" and i: "i < length xs"
  shows "\<exists>itr'. setIdx itr (int i) = Some itr' \<and> bi_inv base xs itr' \<and> at_item (xs ! i) (int i) itr'"
proof -
  let ?itr = "itr\<lparr>bi_idx := int i, bi_eof := False\<rparr>"
  obtain n k v where x: "xs ! i = (n, k, v)" by (cases "xs ! i")
  have xok: "item_ok base (n, k, v)" using ok nth_mem [OF i] by (simp add: items_ok_def x)
  have d: "bi_data itr = items_bytes xs" "bi_entryOffsets itr = offsets_of xs" using inv by (simp_all add: bi_inv_def)
  have inv': "bi_inv base xs ?itr" using inv by (simp add: bi_inv_def)
  have ne: "xs \<noteq> []" using i by auto
  have e: "(if int i + 1 = int (length xs) then length (items_bytes xs) else unat (offsets_of xs ! nat (int i + 1))) = item_offset xs (Suc i)"
  proof (cases "Suc i = length xs")
    case True
    have "item_offset xs (Suc i) = length (items_bytes xs)" unfolding True by (rule item_offset_end)
    then show ?thesis using True by simp
  next
    case False
    then have "unat (offsets_of xs ! Suc i) = item_offset xs (Suc i)" using i by (intro offset_at [OF ok]) simp
    moreover have "nat (int i + 1) = Suc i" by simp
    ultimately show ?thesis using False by simp
  qed
  have "setIdx itr (int i) = read_entry ?itr base (item_bytes (n, k, v))"
    using i e item_slice [OF i] read_baseKey_items [OF ok ne inv'] offset_at [OF ok i]
    by (cases "int i + 1 = int (length xs)") (simp_all add: setIdx_def Let_def d x del: of_nat_unat)
  moreover have "(n, k, v) \<in> set xs" using nth_mem [OF i] x by simp
  ultimately show ?thesis using read_entry_item [OF inv' xok] by (auto simp: at_item_def x)
qed

lemma setIdx_out: "i < 0 \<or> int (length (bi_entryOffsets itr)) \<le> i \<Longrightarrow> setIdx itr i = Some (itr\<lparr>bi_idx := i, bi_eof := True\<rparr>)"
  by (auto simp: setIdx_def)

lemma bi_inv_at: "bi_inv base xs itr \<Longrightarrow> bi_inv base xs (itr\<lparr>bi_idx := i, bi_eof := e\<rparr>)"
  "bi_inv base xs itr \<Longrightarrow> bi_inv base xs (itr\<lparr>bi_eof := e\<rparr>)"
  by (simp_all add: bi_inv_def)

text \<open>The search is the binary search over the keys, whatever the buffer held.\<close>

abbreviation item_key :: "item \<Rightarrow> bytes" where
  "item_key x \<equiv> fst (snd x)"

lemma bi_search_loop:
  assumes ok: "items_ok base xs"
  shows "bi_inv base xs itr \<Longrightarrow> j \<le> length xs \<Longrightarrow>
    \<exists>itr'. bi_search key s itr i j = Some (itr', search_loop (\<lambda>h. s \<le> int h \<and> key_le key (item_key (xs ! h))) i j) \<and> bi_inv base xs itr'"
proof (induction key s itr i j rule: bi_search.induct)
  case (1 key s itr i j)
  let ?f = "\<lambda>h. s \<le> int h \<and> key_le key (item_key (xs ! h))" and ?h = "(i + j) div 2"
  show ?case
  proof (cases "j \<le> i")
    case True
    then show ?thesis using "1.prems" by (subst bi_search.simps, subst search_loop.simps) simp
  next
    case lt: False
    have h: "?h < length xs" using lt "1.prems"(2) by simp
    show ?thesis
    proof (cases "int ?h < s")
      case True
      then have s: "search_loop ?f i j = search_loop ?f (?h + 1) j" using lt by (subst search_loop.simps) (simp add: Let_def)
      have b: "bi_search key s itr i j = bi_search key s itr (?h + 1) j" using lt True by (subst bi_search.simps) (simp add: Let_def)
      show ?thesis unfolding s b by (rule "1.IH"(1) [OF lt refl True "1.prems"])
    next
      case ge: False
      obtain itr1 where itr1: "setIdx itr (int ?h) = Some itr1" "bi_inv base xs itr1" "at_item (xs ! ?h) (int ?h) itr1"
        using setIdx_item [OF ok "1.prems"(1) h] by blast
      have key1: "bi_key itr1 = item_key (xs ! ?h)" using itr1(3) by (cases "xs ! ?h") (simp add: at_item_def)
      show ?thesis
      proof (cases "0 \<le> cmp_keys (bi_key itr1) key")
        case True
        then have "?f ?h" using ge key1 by (simp add: cmp_keys_ge)
        then have s: "search_loop ?f i j = search_loop ?f i ?h" using lt by (subst search_loop.simps) (simp add: Let_def)
        have b: "bi_search key s itr i j = bi_search key s itr1 i ?h" using lt ge itr1(1) True by (subst bi_search.simps) (simp add: Let_def)
        have "?h \<le> length xs" using h by simp
        then show ?thesis unfolding s b by (rule "1.IH"(2) [OF lt refl ge itr1(1) True itr1(2)])
      next
        case False
        then have "\<not> ?f ?h" using key1 by (simp add: cmp_keys_ge)
        then have s: "search_loop ?f i j = search_loop ?f (?h + 1) j" using lt by (subst search_loop.simps) (simp add: Let_def)
        have b: "bi_search key s itr i j = bi_search key s itr1 (?h + 1) j" using lt ge itr1(1) False by (subst bi_search.simps) (simp add: Let_def)
        show ?thesis unfolding s b by (rule "1.IH"(3) [OF lt refl ge itr1(1) False itr1(2) "1.prems"(2)])
      qed
    qed
  qed
qed

lemma bi_seek_item:
  assumes ok: "items_ok base xs" and inv: "bi_inv base xs itr"
    and up: "upward (length xs) (\<lambda>h. key_le key (item_key (xs ! h)))"
  defines "i \<equiv> sort_search (length xs) (\<lambda>h. key_le key (item_key (xs ! h)))"
  shows "\<exists>itr'. bi_seek itr key False = Some itr' \<and> bi_inv base xs itr' \<and>
    (if i < length xs then at_item (xs ! i) (int i) itr' else bi_eof itr' \<and> bi_idx itr' = int (length xs))"
proof -
  let ?f = "\<lambda>h. 0 \<le> int h \<and> key_le key (item_key (xs ! h))"
  have len: "length (bi_entryOffsets itr) = length xs" using inv by (simp add: bi_inv_def)
  obtain itr1 where s: "bi_search key 0 (itr\<lparr>bi_eof := False\<rparr>) 0 (length xs) = Some (itr1, search_loop ?f 0 (length xs))"
    and inv1: "bi_inv base xs itr1"
    using bi_search_loop [OF ok bi_inv_at(2) [OF inv], of "length xs" key 0 False 0] by auto
  have i: "search_loop ?f 0 (length xs) = i" unfolding i_def sort_search_def by simp
  have sk: "bi_seek itr key False = setIdx itr1 (int i)" using s len i by (simp add: bi_seek_def)
  show ?thesis
  proof (cases "i < length xs")
    case True
    then show ?thesis using setIdx_item [OF ok inv1 True] sk by auto
  next
    case False
    then have "i = length xs" unfolding i_def using sort_search_le [of "length xs"] by (simp add: le_antisym)
    moreover have "length (bi_entryOffsets itr1) = length xs" using inv1 by (simp add: bi_inv_def)
    ultimately show ?thesis using sk setIdx_out [of "int i" itr1] bi_inv_at(1) [OF inv1] by simp
  qed
qed

section \<open>A block in the file\<close>

lemma u32_at_append: "u32_at (a @ U32ToBytes w @ r) (int (length a)) = Some (unat w)"
proof -
  have "go_slice (a @ U32ToBytes w @ r) (int (length a)) (int (length a + 4)) = Some (U32ToBytes w)"
    by (subst slice_simps) simp_all
  then show ?thesis using BytesToU32_append [of w "[]"] by (simp add: u32_at_def)
qed

lemma go_slice_middle: "go_slice (a @ b @ c) (int (length a)) (int (length a) + int (length b)) = Some b"
  using slice_simps [of "length a" "length a + length b" "a @ b @ c"] by simp

lemma parse_block_finish:
  assumes "length (items_bytes xs) < 2 ^ 32" and "length xs < 2 ^ 30" and "\<forall>s. length (marshal s) < 2 ^ 30"
  shows "\<exists>b. parse_block (bb_data (block_finish marshal (bblock_of base xs))) = Some (Inr b) \<and>
    bi_inv base xs (setBlock b) \<and> bk_checksum b = calculateChecksum marshal (bk_data b) \<and>
    bk_entryOffsets b = offsets_of xs"
proof -
  let ?d = "items_bytes xs" and ?o = "U32SliceToBytes (offsets_of xs)" and ?n = "U32ToBytes (word_of_nat (length xs))"
  let ?c = "calculateChecksum marshal (?d @ ?o @ ?n)"
  let ?l = "U32ToBytes (word_of_nat (length ?c))"
  let ?all = "?d @ ?o @ ?n @ ?c @ ?l"
  have all: "bb_data (block_finish marshal (bblock_of base xs)) = ?all"
    by (simp add: block_finish_def bblock_of_def Let_def)
  have lc: "length ?c < 2 ^ 30" using assms(3) by (simp add: calculateChecksum_def)
  have u: "unat (word_of_nat (length ?c) :: u32) = length ?c" "unat (word_of_nat (length xs) :: u32) = length xs"
    using lc assms(2) by (simp_all add: unat_of_nat)
  have o: "length ?o = 4 * length xs" by simp
  have p1: "int (length ?all) - 4 = int (length (?d @ ?o @ ?n @ ?c))" by simp
  have 1: "u32_at ?all (int (length (?d @ ?o @ ?n @ ?c))) = Some (length ?c)"
    using u32_at_append [of "?d @ ?o @ ?n @ ?c" "word_of_nat (length ?c)" "[]"] u by simp
  have p2: "int (length (?d @ ?o @ ?n @ ?c)) - int (length ?c) = int (length (?d @ ?o @ ?n))" by simp
  have 2: "go_slice ?all (int (length (?d @ ?o @ ?n))) (int (length (?d @ ?o @ ?n)) + int (length ?c)) = Some ?c"
    using go_slice_middle [of "?d @ ?o @ ?n" ?c ?l] by simp
  have p3: "int (length (?d @ ?o @ ?n)) - 4 = int (length (?d @ ?o))" by simp
  have 3: "u32_at ?all (int (length (?d @ ?o))) = Some (length xs)"
    using u32_at_append [of "?d @ ?o" "word_of_nat (length xs)" "?c @ ?l"] u by simp
  have p4: "int (length (?d @ ?o)) - int (length xs * 4) = int (length ?d)" using o by simp
  have 4: "go_slice ?all (int (length ?d)) (int (length ?d) + int (length xs * 4)) = Some ?o"
    using go_slice_middle [of ?d ?o "?n @ ?c @ ?l"] o by (simp add: mult.commute)
  have p5: "nat (int (length (?d @ ?o)) + 4) = length (?d @ ?o @ ?n)" by simp
  have le: "\<not> length ?all < length ?c" by simp
  let ?b = "\<lparr>bk_data = ?d @ ?o @ ?n, bk_checksum = ?c, bk_entriesIndexStart = length ?d, bk_entryOffsets = offsets_of xs\<rparr>"
  have "parse_block ?all = Some (Inr ?b)"
    unfolding parse_block_def Let_def p1 1 option.case p2 2 p3 3 p4 4 p5 if_not_P [OF le] by simp
  moreover have "bi_inv base xs (setBlock ?b)" by (simp add: setBlock_def bi_inv_def)
  ultimately show ?thesis unfolding all by (intro exI [of _ ?b]) simp
qed

lemma verifyChecksum_ok: "\<forall>s. unmarshal (marshal s) = Some s \<Longrightarrow> verifyChecksum unmarshal data (calculateChecksum marshal data) = None"
  by (simp add: verifyChecksum_def calculateChecksum_def)

end
