(* ===== verification/GoFloat.thy ===== *)
theory GoFloat
  imports Prelude Complex_Main
begin

text \<open>
  Go's \<open>float64\<close> where the program computes ratios and thresholds: a rational number
  that every operation rounds to 53 significant bits, ties to even. Overflow,
  subnormal numbers, infinities and NaN are outside the model; the program's values
  are counts, byte sizes and ratios of them, and it tests its divisors before dividing.
\<close>

type_synonym f64 = rat

text \<open>The number of binary digits of a positive integer.\<close>

function bit_len :: "int \<Rightarrow> int" where
  "bit_len n = (if n \<le> 0 then 0 else 1 + bit_len (n div 2))"
  by pat_completeness auto
termination
  by (relation "measure nat") auto

declare bit_len.simps [simp del]

text \<open>The exponent of a positive number: \<open>2 powi e \<le> x < 2 powi (e + 1)\<close>.\<close>

definition exponent2 :: "rat \<Rightarrow> int" where
  "exponent2 x = (let (p, q) = quotient_of x;
      e = bit_len p - bit_len q
    in if 2 powi e \<le> x then e else e - 1)"

text \<open>Rounding to the nearest integer, ties to the even one.\<close>

definition round_even :: "rat \<Rightarrow> int" where
  "round_even x = (let f = \<lfloor>x\<rfloor>; d = x - of_int f
    in if d < 1 / 2 then f else if 1 / 2 < d then f + 1 else if even f then f else f + 1)"

definition rnd_pos :: "rat \<Rightarrow> rat" where
  "rnd_pos x = (let e = exponent2 x
    in of_int (round_even (x * 2 powi (52 - e))) * 2 powi (e - 52))"

definition rnd :: "rat \<Rightarrow> f64" where
  "rnd x = (if x = 0 then 0 else if 0 < x then rnd_pos x else - rnd_pos (- x))"

text \<open>The operations the program uses.\<close>

definition f_of_int :: "int \<Rightarrow> f64" where
  "f_of_int n = rnd (of_int n)"

definition f_add :: "f64 \<Rightarrow> f64 \<Rightarrow> f64" where
  "f_add a b = rnd (a + b)"

definition f_sub :: "f64 \<Rightarrow> f64 \<Rightarrow> f64" where
  "f_sub a b = rnd (a - b)"

definition f_mul :: "f64 \<Rightarrow> f64 \<Rightarrow> f64" where
  "f_mul a b = rnd (a * b)"

definition f_div :: "f64 \<Rightarrow> f64 \<Rightarrow> f64" where
  "f_div a b = rnd (a / b)"

text \<open>Conversion to an integer truncates towards zero.\<close>

definition f_to_int :: "f64 \<Rightarrow> int" where
  "f_to_int x = (if x < 0 then \<lceil>x\<rceil> else \<lfloor>x\<rfloor>)"

section \<open>The exponent\<close>

lemma powi2_add: "(2::rat) powi m * 2 powi n = 2 powi (m + n)"
  by (simp add: power_int_add)

lemma bit_len_bounds: "0 < n \<Longrightarrow> (2::rat) powi (bit_len n - 1) \<le> of_int n \<and>
    of_int n < (2::rat) powi bit_len n"
proof (induction n rule: bit_len.induct)
  case (1 n)
  show ?case
  proof (cases "n = 1")
    case True
    then show ?thesis by (simp add: bit_len.simps [of 1] bit_len.simps [of 0])
  next
    case False
    let ?m = "n div 2"
    have m: "0 < ?m" using "1.prems" False by linarith
    have eq: "bit_len n = 1 + bit_len ?m" using "1.prems" by (subst bit_len.simps) simp
    from "1.IH" m "1.prems" have IH: "(2::rat) powi (bit_len ?m - 1) \<le> of_int ?m"
      "of_int ?m < (2::rat) powi bit_len ?m" by auto
    have two: "(2::rat) powi (1 + k) = 2 * 2 powi k" for k by (simp add: power_int_add)
    have "bit_len ?m = 1 + (bit_len ?m - 1)" by simp
    then have lo: "(2::rat) powi bit_len ?m = 2 * 2 powi (bit_len ?m - 1)" using two by metis
    have "0 \<le> bit_len ?m"
    proof (rule ccontr)
      assume "\<not> ?thesis"
      then have "(2::rat) powi bit_len ?m \<le> 2 powi 0" by (intro power_int_increasing) auto
      with IH(2) m show False by simp
    qed
    then have int: "(2::rat) powi bit_len ?m = of_int (2 ^ nat (bit_len ?m))"
      by (simp add: power_int_def)
    have "?m < 2 ^ nat (bit_len ?m)" using IH(2) unfolding int by (simp only: of_int_less_iff)
    then have "n < 2 * 2 ^ nat (bit_len ?m)" by linarith
    then have "(of_int n :: rat) < of_int (2 * 2 ^ nat (bit_len ?m))" by (simp only: of_int_less_iff)
    then have hi: "of_int n < (2::rat) powi bit_len n" unfolding eq two int by simp
    have "2 * ?m \<le> n" by simp
    then have "(of_int (2 * ?m) :: rat) \<le> of_int n" by (simp only: of_int_le_iff)
    with IH(1) have "(2::rat) powi (bit_len n - 1) \<le> of_int n" unfolding eq using lo by simp
    with hi show ?thesis by blast
  qed
qed

lemma exponent2_bounds:
  assumes "0 < x"
  shows "2 powi exponent2 x \<le> x \<and> x < 2 powi (exponent2 x + 1)"
proof -
  obtain p q where pq: "quotient_of x = (p, q)" by (cases "quotient_of x")
  then have x: "x = of_int p / of_int q" and q: "0 < q"
    using quotient_of_div quotient_of_denom_pos by blast+
  with assms have p: "0 < p" by (simp add: zero_less_divide_iff)
  let ?a = "bit_len p" and ?b = "bit_len q"
  let ?e = "?a - ?b"
  note a' = bit_len_bounds [OF p, THEN conjunct1] bit_len_bounds [OF p, THEN conjunct2]
  note b' = bit_len_bounds [OF q, THEN conjunct1] bit_len_bounds [OF q, THEN conjunct2]
  have qpos: "(0::rat) < of_int q" using q by simp
  have low: "(2::rat) powi (?e - 1) \<le> x"
  proof -
    have "(2::rat) powi (?e - 1) * of_int q \<le> 2 powi (?e - 1) * 2 powi ?b"
      using b'(2) by (intro mult_left_mono) auto
    also have "\<dots> = 2 powi (?a - 1)"
      by (simp only: powi2_add) simp
    also have "\<dots> \<le> of_int p" by (rule a')
    finally show ?thesis using qpos by (simp add: x pos_le_divide_eq)
  qed
  have high: "x < (2::rat) powi (?e + 1)"
  proof -
    have "of_int p < (2::rat) powi ?a" by (rule a')
    also have "\<dots> = 2 powi (?e + 1) * 2 powi (?b - 1)"
      by (simp only: powi2_add) simp
    also have "\<dots> \<le> 2 powi (?e + 1) * of_int q"
      using b'(1) by (intro mult_left_mono) auto
    finally show ?thesis using qpos by (simp add: x pos_divide_less_eq)
  qed
  show ?thesis
    using low high by (auto simp: exponent2_def pq Let_def not_le)
qed

lemma exponent2_mono: "0 < x \<Longrightarrow> x \<le> y \<Longrightarrow> exponent2 x \<le> exponent2 y"
proof (rule ccontr)
  assume "0 < x" "x \<le> y" "\<not> exponent2 x \<le> exponent2 y"
  then have "(2::rat) powi (exponent2 y + 1) \<le> 2 powi exponent2 x"
    by (intro power_int_increasing) auto
  also have "\<dots> \<le> x" using exponent2_bounds \<open>0 < x\<close> by blast
  also have "\<dots> \<le> y" by fact
  also have "\<dots> < 2 powi (exponent2 y + 1)"
    using exponent2_bounds \<open>0 < x\<close> \<open>x \<le> y\<close> by (meson less_le_trans)
  finally show False by simp
qed

section \<open>Rounding\<close>

lemma round_even_bounds: "\<lfloor>x\<rfloor> \<le> round_even x \<and> round_even x \<le> \<lfloor>x\<rfloor> + 1"
  by (auto simp: round_even_def Let_def)

lemma round_even_of_int [simp]: "round_even (of_int n) = n"
  by (simp add: round_even_def)

lemma round_even_mono: "x \<le> y \<Longrightarrow> round_even x \<le> round_even y"
proof -
  assume le: "x \<le> y"
  then have f: "\<lfloor>x\<rfloor> \<le> \<lfloor>y\<rfloor>" by (rule floor_mono)
  show ?thesis
  proof (cases "\<lfloor>x\<rfloor> = \<lfloor>y\<rfloor>")
    case True
    with le show ?thesis by (auto simp: round_even_def Let_def)
  next
    case False
    with f have "\<lfloor>x\<rfloor> + 1 \<le> \<lfloor>y\<rfloor>" by simp
    with round_even_bounds [of x] round_even_bounds [of y] show ?thesis by linarith
  qed
qed

lemma rnd_pos_range:
  assumes "0 < x"
  shows "2 powi exponent2 x \<le> rnd_pos x \<and> rnd_pos x \<le> 2 powi (exponent2 x + 1)"
proof -
  let ?e = "exponent2 x"
  have split: "(2::rat) powi (52 - ?e) * 2 powi (?e - 52) = 1"
    by (simp add: powi2_add)
  have s: "(2::rat) powi ?e * 2 powi (52 - ?e) = of_int (2 ^ 52)"
    by (simp add: powi2_add)
  have t: "(2::rat) powi (?e + 1) * 2 powi (52 - ?e) = of_int (2 ^ 53)"
    by (simp add: powi2_add)
  have "of_int (2 ^ 52) \<le> x * 2 powi (52 - ?e)"
    unfolding s [symmetric] using exponent2_bounds [OF assms] by (intro mult_right_mono) auto
  then have lo: "2 ^ 52 \<le> round_even (x * 2 powi (52 - ?e))"
    using round_even_mono round_even_of_int by metis
  have "x * 2 powi (52 - ?e) \<le> of_int (2 ^ 53)"
    unfolding t [symmetric] using exponent2_bounds [OF assms] by (intro mult_right_mono) auto
  then have hi: "round_even (x * 2 powi (52 - ?e)) \<le> 2 ^ 53"
    using round_even_mono round_even_of_int by metis
  have "(2::rat) powi ?e = of_int (2 ^ 52) * 2 powi (?e - 52)"
    unfolding s [symmetric] using split by (simp add: mult.assoc)
  also have "\<dots> \<le> rnd_pos x"
    unfolding rnd_pos_def Let_def using lo by (intro mult_right_mono) (simp_all only: of_int_le_iff, simp)
  finally have 1: "(2::rat) powi ?e \<le> rnd_pos x" .
  have "rnd_pos x \<le> of_int (2 ^ 53) * 2 powi (?e - 52)"
    unfolding rnd_pos_def Let_def using hi by (intro mult_right_mono) (simp_all only: of_int_le_iff, simp)
  also have "\<dots> = (2::rat) powi (?e + 1)"
    unfolding t [symmetric] using split by (simp add: mult.assoc)
  finally show ?thesis using 1 by blast
qed

lemma rnd_pos_mono:
  assumes "0 < x" "x \<le> y"
  shows "rnd_pos x \<le> rnd_pos y"
proof (cases "exponent2 x = exponent2 y")
  case True
  have "x * 2 powi (52 - exponent2 y) \<le> y * 2 powi (52 - exponent2 y)"
    using assms by (intro mult_right_mono) auto
  then show ?thesis
    unfolding rnd_pos_def Let_def True
    by (intro mult_right_mono) (auto intro: round_even_mono)
next
  case False
  with exponent2_mono [OF assms] have "exponent2 x + 1 \<le> exponent2 y" by simp
  then have "(2::rat) powi (exponent2 x + 1) \<le> 2 powi exponent2 y"
    by (intro power_int_increasing) auto
  with rnd_pos_range [of x] rnd_pos_range [of y] assms show ?thesis by fastforce
qed

lemma rnd_pos_pos: "0 < x \<Longrightarrow> 0 < rnd_pos x"
  using rnd_pos_range [of x] by (meson less_le_trans zero_less_numeral zero_less_power_int)

lemma rnd_0 [simp]: "rnd 0 = 0"
  by (simp add: rnd_def)

lemma rnd_mono: "x \<le> y \<Longrightarrow> rnd x \<le> rnd y"
  using rnd_pos_pos [of "- x"] rnd_pos_pos [of y] rnd_pos_mono [of x y] rnd_pos_mono [of "- y" "- x"]
  by (auto simp: rnd_def)

text \<open>Numbers with at most 53 significant bits are kept.\<close>

lemma rnd_pos_exact:
  assumes x: "x = of_int n * 2 powi k" "0 < n" "n < 2 ^ 53"
  shows "rnd_pos x = x"
proof -
  let ?e = "exponent2 x"
  have xpos: "0 < x" using x by simp
  have "(2::rat) powi ?e \<le> x" using exponent2_bounds [OF xpos] by blast
  also have "\<dots> < of_int (2 ^ 53) * 2 powi k"
    unfolding x(1) using x(3) by (intro mult_strict_right_mono) (simp_all only: of_int_less_iff, simp)
  also have "\<dots> = 2 powi (53 + k)" by (simp add: power_int_add)
  finally have lt: "(2::rat) powi ?e < 2 powi (53 + k)" .
  have "?e < 53 + k"
  proof (rule ccontr)
    assume "\<not> ?thesis"
    then have "(2::rat) powi (53 + k) \<le> 2 powi ?e" by (intro power_int_increasing) auto
    with lt show False by simp
  qed
  then have k: "0 \<le> k + 52 - ?e" by simp
  have "x * 2 powi (52 - ?e) = of_int n * 2 powi (k + 52 - ?e)"
    unfolding x(1) by (simp add: power_int_add power_int_diff)
  also have "\<dots> = of_int (n * 2 ^ nat (k + 52 - ?e))"
    using k by (simp add: power_int_def)
  finally have m: "x * 2 powi (52 - ?e) = of_int (n * 2 ^ nat (k + 52 - ?e))" .
  have "of_int (round_even (x * 2 powi (52 - ?e))) = x * 2 powi (52 - ?e)"
    by (simp only: m round_even_of_int)
  then show ?thesis
    unfolding rnd_pos_def Let_def by (simp add: mult.assoc powi2_add)
qed

lemma rnd_exact:
  assumes "x = of_int n * 2 powi k" "\<bar>n\<bar> < 2 ^ 53"
  shows "rnd x = x"
proof -
  have p: "(0::rat) < 2 powi k" by simp
  consider "n = 0" | "0 < n" | "n < 0" by linarith
  then show ?thesis
  proof cases
    case 1
    with assms(1) show ?thesis by simp
  next
    case 2
    with assms rnd_pos_exact [of x n k] p show ?thesis by (simp add: rnd_def)
  next
    case 3
    then have "x < 0" using assms(1) p by (simp add: mult_less_0_iff)
    moreover have "rnd_pos (- x) = - x" using assms 3 rnd_pos_exact [of "- x" "- n" k] by simp
    ultimately show ?thesis by (simp add: rnd_def)
  qed
qed

lemma rnd_of_int: "\<bar>n\<bar> < 2 ^ 53 \<Longrightarrow> rnd (of_int n) = of_int n"
  using rnd_exact [of "of_int n" n 0] by simp

lemma rnd_1 [simp]: "rnd 1 = 1"
  using rnd_of_int [of 1] by simp

lemma f_of_int_exact: "\<bar>n\<bar> < 2 ^ 53 \<Longrightarrow> f_of_int n = of_int n"
  by (simp add: f_of_int_def rnd_of_int)

lemma rnd_nonneg: "0 \<le> x \<Longrightarrow> 0 \<le> rnd x"
  using rnd_mono [of 0 x] by simp

lemma rnd_le_1: "x \<le> 1 \<Longrightarrow> rnd x \<le> 1"
  using rnd_mono [of x 1] by simp

lemma f_of_int_nonneg: "0 \<le> n \<Longrightarrow> 0 \<le> f_of_int n"
  by (simp add: f_of_int_def rnd_nonneg)

lemma f_of_int_mono: "m \<le> n \<Longrightarrow> f_of_int m \<le> f_of_int n"
  by (simp add: f_of_int_def rnd_mono)

lemma f_to_int_of_int [simp]: "f_to_int (of_int n) = n"
  by (simp add: f_to_int_def)

lemma f_to_int_mono: "x \<le> y \<Longrightarrow> f_to_int x \<le> f_to_int y"
  unfolding f_to_int_def by (auto intro: floor_mono ceiling_mono)
    (meson ceiling_le_zero floor_le_zero le_less not_le order_trans zero_le_floor)

end
