(* ===== verification/Bloom.thy ===== *)
theory Bloom
  imports Codec GoFloat
begin

unbundle bit_operations_syntax

text \<open>
  \<open>y/bloom.go\<close>: the Bloom filter of a table's key hashes and the hash itself, with
  \<open>uint32\<close> arithmetic at its width. The remainder by \<open>uint32(nBits)\<close> panics when that is
  zero, so building and querying give an option. What the tables rely on is the locale
  \<open>key_filter\<close>: a filter never denies a hash it was built from.
\<close>

section \<open>The hash\<close>

definition hash_m :: u32 where
  "hash_m = 0xc6a4a793"

fun hash_loop :: "u32 \<Rightarrow> bytes \<Rightarrow> u32" where
  "hash_loop h (b0 # b1 # b2 # b3 # b) =
     (let h1 = h + (ucast b0 OR push_bit 8 (ucast b1) OR push_bit 16 (ucast b2) OR push_bit 24 (ucast b3));
          h2 = h1 * hash_m
      in hash_loop (h2 XOR drop_bit 16 h2) b)"
| "hash_loop h [b0, b1, b2] =
     (let h3 = (h + push_bit 16 (ucast b2) + push_bit 8 (ucast b1) + ucast b0) * hash_m
      in h3 XOR drop_bit 24 h3)"
| "hash_loop h [b0, b1] =
     (let h3 = (h + push_bit 8 (ucast b1) + ucast b0) * hash_m in h3 XOR drop_bit 24 h3)"
| "hash_loop h [b0] = (let h3 = (h + ucast b0) * hash_m in h3 XOR drop_bit 24 h3)"
| "hash_loop h [] = h"

definition Hash :: "bytes \<Rightarrow> u32" where
  "Hash b = hash_loop (0xbc9f1d34 XOR of_nat (length b) * hash_m) b"

section \<open>Building and querying\<close>

definition hash_delta :: "u32 \<Rightarrow> u32" where
  "hash_delta h = drop_bit 17 h OR push_bit 15 h"

definition set_bit_at :: "bytes \<Rightarrow> u32 \<Rightarrow> bytes" where
  "set_bit_at f bitPos = f[unat (bitPos div 8) := f ! unat (bitPos div 8) OR push_bit (unat (bitPos mod 8)) 1]"

definition bit_at :: "bytes \<Rightarrow> u32 \<Rightarrow> bool" where
  "bit_at f bitPos \<longleftrightarrow> f ! unat (bitPos div 8) AND push_bit (unat (bitPos mod 8)) 1 \<noteq> 0"

text \<open>The \<open>k\<close> probes of one hash, in \<open>appendFilter\<close> and in \<open>MayContain\<close>.\<close>

fun add_hash :: "nat \<Rightarrow> u32 \<Rightarrow> u32 \<Rightarrow> u32 \<Rightarrow> bytes \<Rightarrow> bytes" where
  "add_hash 0 nBits delta h f = f"
| "add_hash (Suc k) nBits delta h f = add_hash k nBits delta (h + delta) (set_bit_at f (h mod nBits))"

fun probe :: "nat \<Rightarrow> u32 \<Rightarrow> u32 \<Rightarrow> u32 \<Rightarrow> bytes \<Rightarrow> bool" where
  "probe 0 nBits delta h f = True"
| "probe (Suc k) nBits delta h f =
     (if \<not> bit_at f (h mod nBits) then False else probe k nBits delta (h + delta) f)"

definition MayContain :: "bytes \<Rightarrow> u32 \<Rightarrow> bool option" where
  "MayContain f h =
     (if length f < 2 then Some False
      else let k = last f in
        if 30 < k then Some True
        else let nBits = (of_nat (8 * (length f - 1)) :: u32) in
          if nBits = 0 \<and> 0 < k then None
          else Some (probe (unat k) nBits (hash_delta h) h f))"

definition MayContainKey :: "bytes \<Rightarrow> bytes \<Rightarrow> bool option" where
  "MayContainKey f k = MayContain f (Hash k)"

text \<open>\<open>extend\<close>: the trailer of \<open>n\<close> bytes is zeroed, whether the slice had room or not.\<close>

definition extend_zeros :: "bytes \<Rightarrow> nat \<Rightarrow> bytes \<times> bytes" where
  "extend_zeros b n = (b, replicate n 0)"

definition filter_probes :: "int \<Rightarrow> u32" where
  "filter_probes bitsPerKey =
     (let k = (word_of_int (f_to_int (f_mul (f_of_int bitsPerKey) (rnd (69 / 100)))) :: u32);
          k = (if k < 1 then 1 else k)
      in if 30 < k then 30 else k)"

definition filter_bytes :: "nat \<Rightarrow> int \<Rightarrow> nat" where
  "filter_bytes n bitsPerKey =
     (let nBits = int n * bitsPerKey; nBits = (if nBits < 64 then 64 else nBits)
      in nat ((nBits + 7) div 8))"

definition appendFilter :: "bytes \<Rightarrow> u32 list \<Rightarrow> int \<Rightarrow> bytes option" where
  "appendFilter buf keys bitsPerKey0 =
     (let bitsPerKey = (if bitsPerKey0 < 0 then 0 else bitsPerKey0);
          k = filter_probes bitsPerKey;
          nBytes = filter_bytes (length keys) bitsPerKey;
          nBits = (of_nat (nBytes * 8) :: u32);
          (front, trailer) = extend_zeros buf (nBytes + 1)
      in if nBits = 0 \<and> keys \<noteq> [] then None
         else Some (front @ (fold (\<lambda>h. add_hash (unat k) nBits (hash_delta h) h) keys trailer)
                [nBytes := ucast k]))"

definition NewFilter :: "u32 list \<Rightarrow> int \<Rightarrow> bytes option" where
  "NewFilter keys bitsPerKey = appendFilter [] keys bitsPerKey"

section \<open>What the bits mean\<close>

lemma unat_mod_less: "0 < (n :: u32) \<Longrightarrow> unat (h mod n) < unat n"
  by (simp add: word_less_nat_alt unat_mod)

lemma length_set_bit_at [simp]: "length (set_bit_at f p) = length f"
  by (simp add: set_bit_at_def)

lemma length_add_hash [simp]: "length (add_hash k n d h f) = length f"
  by (induction k n d h f rule: add_hash.induct) auto

lemma bit_at_iff: "bit_at f p \<longleftrightarrow> bit (f ! unat (p div 8)) (unat (p mod 8))"
proof -
  have "unat (p mod 8) < 8" by (simp add: unat_mod)
  then have "f ! unat (p div 8) AND push_bit (unat (p mod 8)) 1 \<noteq> 0 \<longleftrightarrow>
    bit (f ! unat (p div 8)) (unat (p mod 8))"
    by (metis and_exp_eq_0_iff_not_bit push_bit_of_1)
  then show ?thesis by (simp add: bit_at_def)
qed

lemma bit_at_set_same:
  "unat p < 8 * length f \<Longrightarrow> bit_at (set_bit_at f p) p"
  by (simp add: bit_at_iff set_bit_at_def bit_or_iff push_bit_of_1 bit_exp_iff unat_div unat_mod
      less_mult_imp_div_less mult.commute)

lemma bit_at_set_mono: "bit_at f q \<Longrightarrow> bit_at (set_bit_at f p) q"
  by (cases "unat (p div 8) < length f")
    (auto simp: bit_at_iff set_bit_at_def bit_or_iff nth_list_update list_update_beyond not_less)

lemma bit_at_add_mono: "bit_at f q \<Longrightarrow> bit_at (add_hash k n d h f) q"
  by (induction k n d h f rule: add_hash.induct) (auto intro: bit_at_set_mono)

lemma probe_add_hash:
  assumes "0 < n" and "unat n \<le> 8 * length f"
  shows "probe k n d h (add_hash k n d h f)"
  using assms
proof (induction k n d h f rule: add_hash.induct)
  case (2 k n d h f)
  have "unat (h mod n) < unat n" by (rule unat_mod_less [OF 2(2)])
  then have "unat (h mod n) < 8 * length f" using 2(3) by simp
  then have "bit_at (set_bit_at f (h mod n)) (h mod n)" by (rule bit_at_set_same)
  then have "bit_at (add_hash k n d (h + d) (set_bit_at f (h mod n))) (h mod n)"
    by (rule bit_at_add_mono)
  then show ?case using 2 by simp
qed simp

lemma probe_mono:
  "probe k n d h f \<Longrightarrow> (\<And>q. bit_at f q \<Longrightarrow> bit_at g q) \<Longrightarrow> probe k n d h g"
  by (induction k n d h f rule: probe.induct) (auto split: if_splits)

lemma length_fold_add [simp]: "length (fold (\<lambda>h. add_hash k n (hash_delta h) h) hs f) = length f"
  by (induction hs arbitrary: f) auto

lemma fold_add_mono: "bit_at f q \<Longrightarrow> bit_at (fold (\<lambda>h. add_hash k n (hash_delta h) h) hs f) q"
  by (induction hs arbitrary: f) (auto intro: bit_at_add_mono)

lemma probe_fold_add:
  assumes "0 < n" and "h \<in> set hs" and "unat n \<le> 8 * length f"
  shows "probe k n (hash_delta h) h (fold (\<lambda>h. add_hash k n (hash_delta h) h) hs f)"
  using assms(2,3)
proof (induction hs arbitrary: f)
  case (Cons a hs)
  show ?case
  proof (cases "h = a")
    case True
    have "probe k n (hash_delta h) h (add_hash k n (hash_delta h) h f)"
      by (rule probe_add_hash [OF assms(1) Cons.prems(2)])
    then show ?thesis using True by (auto intro: probe_mono fold_add_mono)
  next
    case False
    then show ?thesis using Cons by simp
  qed
qed simp

text \<open>The last byte is not probed: positions stay below the byte of \<open>k\<close>.\<close>

lemma probe_append:
  "0 < n \<Longrightarrow> unat n \<le> 8 * m \<Longrightarrow> m \<le> length f \<Longrightarrow>
    probe k n d h (f[m := x]) \<longleftrightarrow> probe k n d h f"
proof (induction k arbitrary: h)
  case (Suc k)
  have "unat (h mod n) < unat n" by (rule unat_mod_less [OF Suc.prems(1)])
  then have "unat ((h mod n) div 8) < m"
    using Suc.prems(2) by (simp add: unat_div less_mult_imp_div_less mult.commute)
  then have "bit_at (f[m := x]) (h mod n) \<longleftrightarrow> bit_at f (h mod n)"
    by (simp add: bit_at_iff)
  then show ?case using Suc by simp
qed simp

lemma filter_probes_bounds: "1 \<le> filter_probes b \<and> filter_probes b \<le> 30"
  by (auto simp: filter_probes_def Let_def word_le_nat_alt word_less_nat_alt)

lemma filter_bytes_ge: "8 \<le> filter_bytes n b"
  by (auto simp: filter_bytes_def Let_def)

text \<open>A filter that was built, and what querying it computes.\<close>

lemma NewFilter_query:
  assumes "NewFilter hs b = Some f"
  obtains k n where "\<And>h. hs \<noteq> [] \<Longrightarrow> MayContain f h = Some (probe k n (hash_delta h) h f)"
    "\<And>h. h \<in> set hs \<Longrightarrow> probe k n (hash_delta h) h f"
proof -
  define b' where "b' = (if b < 0 then 0 else b)"
  define k where "k = filter_probes b'"
  define m where "m = filter_bytes (length hs) b'"
  define n where "n = (of_nat (m * 8) :: u32)"
  define g where "g = fold (\<lambda>h. add_hash (unat k) n (hash_delta h) h) hs (replicate (m + 1) 0)"
  have n0: "n \<noteq> 0 \<or> hs = []" and f: "f = g[m := ucast k]"
    using assms unfolding NewFilter_def appendFilter_def extend_zeros_def g_def n_def m_def k_def b'_def
    by (auto simp: Let_def split: if_splits)
  have lg: "length g = m + 1" by (simp add: g_def)
  have k: "1 \<le> k" "k \<le> 30" using filter_probes_bounds unfolding k_def by auto
  have uk: "unat (ucast k :: byte) = unat k"
    using k by (simp add: unsigned_ucast_eq take_bit_eq_mod word_le_nat_alt)
  have m: "8 \<le> m" unfolding m_def by (rule filter_bytes_ge)
  have nm: "unat n \<le> 8 * m"
    unfolding n_def unat_of_nat by (metis mod_less_eq_dividend mult.commute)
  have lst: "last f = ucast k"
    using lg by (simp add: f last_conv_nth nth_list_update flip: length_0_conv)
  have le: "\<not> 30 < (ucast k :: byte)"
    using k(2) uk by (simp add: word_less_nat_alt word_le_nat_alt)
  show ?thesis
  proof (rule that [of "unat k" n])
    fix h
    assume "hs \<noteq> []"
    with n0 show "MayContain f h = Some (probe (unat k) n (hash_delta h) h f)"
      using m lg uk f lst le by (simp add: MayContain_def Let_def n_def mult.commute)
  next
    fix h
    assume h: "h \<in> set hs"
    then have n: "n \<noteq> 0" using n0 by auto
    have "probe (unat k) n (hash_delta h) h g"
      unfolding g_def by (rule probe_fold_add) (use n h nm in \<open>auto simp: word_gt_0\<close>)
    then show "probe (unat k) n (hash_delta h) h f"
      unfolding f using probe_append [of n m g] n nm lg by (simp add: word_gt_0)
  qed
qed

lemma NewFilter_no_false_negative:
  "NewFilter hs b = Some f \<Longrightarrow> h \<in> set hs \<Longrightarrow> MayContain f h = Some True"
  by (elim NewFilter_query) fastforce

lemma NewFilter_answers: "NewFilter hs b = Some f \<Longrightarrow> hs \<noteq> [] \<Longrightarrow> \<exists>r. MayContain f h = Some r"
  by (elim NewFilter_query) blast

lemma NewFilter_total:
  assumes "int (length hs) * b < 2 ^ 32 - 8"
  shows "\<exists>f. NewFilter hs b = Some f"
proof -
  define b' where "b' = (if b < 0 then 0 else b)"
  have 1: "int (length hs) * b' < 2 ^ 32 - 8" using assms by (auto simp: b'_def)
  then have "filter_bytes (length hs) b' * 8 < 2 ^ 32"
    unfolding filter_bytes_def Let_def by auto
  moreover have "0 < filter_bytes (length hs) b'" using filter_bytes_ge [of "length hs" b'] by linarith
  ultimately have "unat (of_nat (filter_bytes (length hs) b' * 8) :: u32) \<noteq> 0"
    unfolding unat_of_nat by simp
  then have "(of_nat (filter_bytes (length hs) b' * 8) :: u32) \<noteq> 0" by (metis unat_0)
  then show ?thesis
    by (simp add: NewFilter_def appendFilter_def extend_zeros_def Let_def flip: b'_def)
qed

section \<open>The contract\<close>

locale key_filter =
  fixes build :: "u32 list \<Rightarrow> 'f option" and query :: "'f \<Rightarrow> u32 \<Rightarrow> bool option"
  assumes no_false_negative: "build hs = Some f \<Longrightarrow> h \<in> set hs \<Longrightarrow> query f h = Some True"
    and answers: "build hs = Some f \<Longrightarrow> hs \<noteq> [] \<Longrightarrow> \<exists>r. query f h = Some r"
begin

lemma denied_absent: "build hs = Some f \<Longrightarrow> query f h = Some False \<Longrightarrow> h \<notin> set hs"
  using no_false_negative by fastforce

text \<open>A query has an answer, and when it denies a key, no key with that hash is there.\<close>

lemma denial:
  assumes "build (map hash ks) = Some f" and "ks \<noteq> []"
  shows "\<exists>r. query f h = Some r \<and> (\<not> r \<longrightarrow> (\<forall>k \<in> set ks. hash k \<noteq> h))"
  using answers [OF assms(1), of h] denied_absent [OF assms(1), of h] assms(2) by fastforce

end

interpretation bf: key_filter "\<lambda>hs. NewFilter hs b" MayContain for b
  by unfold_locales (rule NewFilter_no_false_negative NewFilter_answers; assumption)+

text \<open>
  C28: the Bloom filter has no false negatives. A filter built from any keys with any
  number of bits per key answers that it may contain each of them; building does not
  panic while the number of bits stays below \<open>2 ^ 32 - 8\<close>.
\<close>

theorem bloom_no_false_negative:
  assumes "key \<in> set keys" and "int (length keys) * bitsPerKey < 2 ^ 32 - 8"
  shows "\<exists>f. NewFilter (map Hash keys) bitsPerKey = Some f \<and> MayContainKey f key = Some True"
proof -
  obtain f where f: "NewFilter (map Hash keys) bitsPerKey = Some f"
    using NewFilter_total [of "map Hash keys" bitsPerKey] assms(2) by auto
  with bf.no_false_negative [OF f, of "Hash key"] assms(1) show ?thesis
    by (auto simp: MayContainKey_def)
qed

lemma bloom_no_false_negative_witness:
  "\<exists>f. NewFilter (map Hash [[1], [2, 3]]) 10 = Some f \<and> MayContainKey f [2, 3] = Some True"
  by (rule bloom_no_false_negative) simp_all

end
