(* ===== verification/TableBuild.thy ===== *)
theory TableBuild
  imports TableBlock GoFloat Bloom
begin

text \<open>
  The table builder (\<open>table/builder.go\<close>): entries go to blocks of bounded size, and
  \<open>Done\<close> and \<open>Copy\<close> lay the blocks, the index and the checksum out in one file. Third-party
  code is a parameter (\<open>table_codec\<close>): the protocol buffers and flatbuffers, the compressors
  and the AES key stream; so are the random initial vectors and \<open>BloomBitsPerKey\<close>, which
  takes a logarithm. The blocks are compressed and encrypted by goroutines while the builder
  goes on; here this happens in \<open>Done\<close>, which waits for them. \<open>None\<close> is a panic.
\<close>

record block_offset =
  bo_key :: bytes
  bo_offset :: u32
  bo_len :: u32

record table_index =
  ti_offsets :: "block_offset list"
  ti_bloom :: bytes
  ti_maxVersion :: u64
  ti_uncompressedSize :: u32
  ti_keyCount :: u32
  ti_onDiskSize :: u32
  ti_staleDataSize :: u32

record table_codec =
  tc_sum :: "u64 \<Rightarrow> bytes"
  tc_unsum :: "bytes \<Rightarrow> u64 option"
  tc_index :: "table_index \<Rightarrow> bytes"
  tc_unindex :: "bytes \<Rightarrow> table_index"
  tc_compress :: "bytes \<Rightarrow> bytes"
  tc_decompress :: "bytes \<Rightarrow> bytes option"
  tc_stream :: "bytes \<Rightarrow> nat \<Rightarrow> byte"
  tc_iv :: "nat \<Rightarrow> bytes"
  tc_bits :: "nat \<Rightarrow> int"

datatype chk_mode = NoVerification | OnTableRead | OnBlockRead | OnTableAndBlockRead

record tbl_opts =
  to_TableSize :: u64
  to_BlockSize :: int
  to_Bloom :: bool
  to_DataKey :: "u64 option"
  to_Compression :: u32
  to_ChkMode :: chk_mode

text \<open>\<open>b.opts.tableCapacity = uint64(float64(b.opts.TableSize) * 0.95)\<close>\<close>

definition tableCapacity :: "tbl_opts \<Rightarrow> u64" where
  "tableCapacity opt = word_of_int (f_to_int (f_mul (f_of_int (uint (to_TableSize opt))) (rnd (95 / 100))))"

definition shouldEncrypt :: "tbl_opts \<Rightarrow> bool" where
  "shouldEncrypt opt \<longleftrightarrow> to_DataKey opt \<noteq> None"

record builder =
  tb_curBlock :: bblock
  tb_blockList :: "bblock list"
  tb_uncompressedSize :: u32
  tb_lenOffsets :: u32
  tb_keyHashes :: "u32 list"
  tb_maxVersion :: u64
  tb_onDiskSize :: u32
  tb_staleDataSize :: int

definition NewTableBuilder :: builder where
  "NewTableBuilder = \<lparr>tb_curBlock = new_bblock, tb_blockList = [], tb_uncompressedSize = 0, tb_lenOffsets = 0,
     tb_keyHashes = [], tb_maxVersion = 0, tb_onDiskSize = 0, tb_staleDataSize = 0\<rparr>"

definition tb_Empty :: "builder \<Rightarrow> bool" where
  "tb_Empty b \<longleftrightarrow> length (tb_keyHashes b) = 0"

section \<open>Adding entries\<close>

definition addHelper :: "builder \<Rightarrow> bytes \<Rightarrow> ValueStruct \<Rightarrow> u32 \<Rightarrow> builder option" where
  "addHelper b key v vpLen =
     map_option (\<lambda>bb. b\<lparr>tb_keyHashes := tb_keyHashes b @ [Hash (parse_key key)],
       tb_maxVersion := (if tb_maxVersion b < ParseTs key then ParseTs key else tb_maxVersion b),
       tb_curBlock := bb, tb_onDiskSize := tb_onDiskSize b + vpLen\<rparr>)
     (block_add (tb_curBlock b) key v)"

text \<open>\<open>uint32(int(math.Ceil(float64(len(baseKey))/4))*4) + 40\<close>\<close>

definition offset_estimate :: "bytes \<Rightarrow> u32" where
  "offset_estimate baseKey = word_of_int (\<lceil>f_div (f_of_int (int (length baseKey))) 4\<rceil> * 4) + 40"

definition finishBlock :: "(u64 \<Rightarrow> bytes) \<Rightarrow> builder \<Rightarrow> builder" where
  "finishBlock marshal b =
     (if length (bb_entryOffsets (tb_curBlock b)) = 0 then b
      else let bb = block_finish marshal (tb_curBlock b)
        in b\<lparr>tb_curBlock := bb, tb_blockList := tb_blockList b @ [bb],
             tb_uncompressedSize := tb_uncompressedSize b + word_of_nat (length (bb_data bb)),
             tb_lenOffsets := tb_lenOffsets b + offset_estimate (bb_baseKey bb)\<rparr>)"

text \<open>All sums are of \<open>uint32\<close> values; the two assertions panic.\<close>

definition estimatedSize :: "tbl_opts \<Rightarrow> bblock \<Rightarrow> bytes \<Rightarrow> ValueStruct \<Rightarrow> u32" where
  "estimatedSize opt bb key v =
     (let entriesOffsetsSize = word_of_nat ((length (bb_entryOffsets bb) + 1) * 4 + 4 + 8 + 4);
          s = word_of_nat (length (bb_data bb)) + 6 + word_of_nat (length key) + EncodedSize v + entriesOffsetsSize
      in if shouldEncrypt opt then s + 16 else s)"

definition shouldFinishBlock :: "tbl_opts \<Rightarrow> builder \<Rightarrow> bytes \<Rightarrow> ValueStruct \<Rightarrow> bool option" where
  "shouldFinishBlock opt b key v =
     (let bb = tb_curBlock b; n = word_of_nat (length (bb_entryOffsets bb)) :: u32
      in if length (bb_entryOffsets bb) = 0 then Some False
         else if \<not> (n + 1) * 4 + 4 + 8 + 4 < - 1 then None
         else let s = estimatedSize opt bb key v
           in if \<not> word_of_nat (length (bb_data bb)) + ucast s < (2 ^ 32 - 1 :: u64) then None
              else Some (word_of_int (to_BlockSize opt) < s))"

definition addInternal :: "(u64 \<Rightarrow> bytes) \<Rightarrow> tbl_opts \<Rightarrow> builder \<Rightarrow> bytes \<Rightarrow> ValueStruct \<Rightarrow> u32 \<Rightarrow> bool \<Rightarrow> builder option" where
  "addInternal marshal opt b key v valueLen isStale =
     (case shouldFinishBlock opt b key v of None \<Rightarrow> None
      | Some False \<Rightarrow> addHelper b key v valueLen
      | Some True \<Rightarrow>
          let b1 = (if isStale then b\<lparr>tb_staleDataSize := tb_staleDataSize b + int (length key) + 4 + 4\<rparr> else b);
              b2 = (finishBlock marshal b1)\<lparr>tb_curBlock := new_bblock\<rparr>
          in addHelper b2 key v valueLen)"

definition AddStaleKey :: "(u64 \<Rightarrow> bytes) \<Rightarrow> tbl_opts \<Rightarrow> builder \<Rightarrow> bytes \<Rightarrow> ValueStruct \<Rightarrow> u32 \<Rightarrow> builder option" where
  "AddStaleKey marshal opt b key v valueLen =
     addInternal marshal opt
       (b\<lparr>tb_staleDataSize := tb_staleDataSize b + int (length key) + int (length (slice_bytes (vs_Value v))) + 4 + 4\<rparr>)
       key v valueLen True"

definition Add :: "(u64 \<Rightarrow> bytes) \<Rightarrow> tbl_opts \<Rightarrow> builder \<Rightarrow> bytes \<Rightarrow> ValueStruct \<Rightarrow> u32 \<Rightarrow> builder option" where
  "Add marshal opt b key v valueLen = addInternal marshal opt b key v valueLen False"

text \<open>
  \<open>ReachedCapacity\<close>; with compression or encryption the size of the finished blocks depends
  on how far the goroutines have come, so it is an argument.
\<close>

definition ReachedCapacity :: "tbl_opts \<Rightarrow> u32 \<Rightarrow> builder \<Rightarrow> bool" where
  "ReachedCapacity opt compressedSize b =
     (let sumBlockSizes = (if to_Compression opt = 0 \<and> to_DataKey opt = None then tb_uncompressedSize b else compressedSize);
          blocksSize = sumBlockSizes + word_of_nat (length (bb_entryOffsets (tb_curBlock b)) * 4) + 4 + 8 + 4;
          estimateSz = blocksSize + 4 + tb_lenOffsets b
      in tableCapacity opt < ucast estimateSz)"

section \<open>The file\<close>

definition XORBlock :: "(nat \<Rightarrow> byte) \<Rightarrow> bytes \<Rightarrow> bytes" where
  "XORBlock stream src = map (\<lambda>(i, b). b XOR stream i) (zip [0..<length src] src)"

definition tb_encrypt :: "table_codec \<Rightarrow> bytes \<Rightarrow> bytes \<Rightarrow> bytes" where
  "tb_encrypt tc iv data = XORBlock (tc_stream tc iv) data @ iv"

definition handleBlock :: "table_codec \<Rightarrow> tbl_opts \<Rightarrow> bytes \<Rightarrow> bytes \<Rightarrow> bytes" where
  "handleBlock tc opt iv data =
     (let d1 = (if to_Compression opt \<noteq> 0 then tc_compress tc data else data)
      in if shouldEncrypt opt then tb_encrypt tc iv d1 else d1)"

fun writeBlockOffsets :: "(bytes \<times> bytes) list \<Rightarrow> u32 \<Rightarrow> block_offset list \<times> u32" where
  "writeBlockOffsets [] startOffset = ([], startOffset)"
| "writeBlockOffsets ((key, data) # bls) startOffset =
     (let (offs, e) = writeBlockOffsets bls (startOffset + word_of_nat (length data))
      in (\<lparr>bo_key = key, bo_offset = startOffset, bo_len = word_of_nat (length data)\<rparr> # offs, e))"

definition buildIndex :: "table_codec \<Rightarrow> builder \<Rightarrow> (bytes \<times> bytes) list \<Rightarrow> bytes \<Rightarrow> bytes \<times> u32" where
  "buildIndex tc b blocks bloom =
     (let (offs, dataSize) = writeBlockOffsets blocks 0;
          ix = \<lparr>ti_offsets = offs, ti_bloom = bloom, ti_maxVersion = tb_maxVersion b, ti_uncompressedSize = tb_uncompressedSize b,
                ti_keyCount = word_of_nat (length (tb_keyHashes b)), ti_onDiskSize = tb_onDiskSize b + dataSize,
                ti_staleDataSize = word_of_int (tb_staleDataSize b)\<rparr>
      in (tc_index tc (ix\<lparr>ti_onDiskSize := ti_onDiskSize ix + word_of_nat (length (tc_index tc ix))\<rparr>), dataSize))"

record buildData =
  bd_blockList :: "bytes list"
  bd_index :: bytes
  bd_checksum :: bytes
  bd_Size :: int

text \<open>\<open>None\<close> is a filter of no bits.\<close>

definition tb_Done :: "table_codec \<Rightarrow> tbl_opts \<Rightarrow> builder \<Rightarrow> buildData option" where
  "tb_Done tc opt b0 =
     (let b = finishBlock (tc_sum tc) b0
      in if length (tb_blockList b) = 0 then Some \<lparr>bd_blockList = [], bd_index = [], bd_checksum = [], bd_Size = 0\<rparr>
         else
           let blocks = map (\<lambda>(i, bb). (bb_baseKey bb, handleBlock tc opt (tc_iv tc i) (bb_data bb)))
                          (zip [0..<length (tb_blockList b)] (tb_blockList b))
           in case (if to_Bloom opt then NewFilter (tb_keyHashes b) (tc_bits tc (length (tb_keyHashes b))) else Some []) of
                None \<Rightarrow> None
              | Some f \<Rightarrow>
                  (let (index0, dataSize) = buildIndex tc b blocks f;
                       index = (if shouldEncrypt opt then tb_encrypt tc (tc_iv tc (length blocks)) index0 else index0);
                       checksum = calculateChecksum (tc_sum tc) index
                   in Some \<lparr>bd_blockList = map snd blocks, bd_index = index, bd_checksum = checksum,
                       bd_Size = uint dataSize + int (length index) + int (length checksum) + 4 + 4\<rparr>))"

definition bd_Copy :: "buildData \<Rightarrow> bytes" where
  "bd_Copy bd = concat (bd_blockList bd) @ bd_index bd @ U32ToBytes (word_of_nat (length (bd_index bd))) @
     bd_checksum bd @ U32ToBytes (word_of_nat (length (bd_checksum bd)))"

text \<open>
  \<open>Finish\<close> copies into a slice of \<open>Size\<close> bytes, which cuts off what does not fit, and asserts
  that the slice is full; \<open>CreateTable\<close> does the same with the file.
\<close>

definition tb_Finish :: "table_codec \<Rightarrow> tbl_opts \<Rightarrow> builder \<Rightarrow> bytes option" where
  "tb_Finish tc opt b = (case tb_Done tc opt b of None \<Rightarrow> None
     | Some bd \<Rightarrow> if int (length (bd_Copy bd)) < bd_Size bd then None else Some (take (nat (bd_Size bd)) (bd_Copy bd)))"

section \<open>What a builder holds\<close>

type_synonym chunk = "bytes \<times> item list"

definition item_entry :: "item \<Rightarrow> bytes \<times> ValueStruct" where
  "item_entry x = (fst (snd x), snd (snd x))"

definition chunk_entries :: "chunk list \<Rightarrow> (bytes \<times> ValueStruct) list" where
  "chunk_entries cs = concat (map (\<lambda>c. map item_entry (snd c)) cs)"

definition chunk_block :: "(u64 \<Rightarrow> bytes) \<Rightarrow> chunk \<Rightarrow> bblock" where
  "chunk_block marshal c = block_finish marshal (bblock_of (fst c) (snd c))"

definition chunk_ok :: "chunk \<Rightarrow> bool" where
  "chunk_ok c \<longleftrightarrow> snd c \<noteq> [] \<and> items_ok (fst c) (snd c) \<and> length (snd c) < 2 ^ 30"

text \<open>Sizes: an entry takes at most four bytes more than its key and its encoded value.\<close>

definition weight :: "bytes \<times> ValueStruct \<Rightarrow> nat" where
  "weight e = 4 + length (fst e) + length (EncodeTo (snd e))"

definition weights :: "(bytes \<times> ValueStruct) list \<Rightarrow> nat" where
  "weights es = sum_list (map weight es)"

lemma weights_simps [simp]: "weights [] = 0" "weights (e # es) = weight e + weights es" "weights (es @ fs) = weights es + weights fs"
  by (simp_all add: weights_def)

lemma item_weight: "item_ok base x \<Longrightarrow> length (item_bytes x) \<le> weight (item_entry x)"
  by (cases x) (auto simp: item_ok_def item_bytes_def item_entry_def weight_def)

lemma items_weight: "\<forall>x \<in> set xs. item_ok base x \<Longrightarrow> length (items_bytes xs) \<le> weights (map item_entry xs)"
proof (induction xs)
  case (Cons x xs)
  then show ?case using item_weight [of base x] by fastforce
qed simp

lemma weights_length: "4 * length es \<le> weights es"
  by (induction es) (simp_all add: weight_def)

definition tb_holds :: "(u64 \<Rightarrow> bytes) \<Rightarrow> builder \<Rightarrow> chunk list \<Rightarrow> chunk \<Rightarrow> bool" where
  "tb_holds marshal b cs cur \<longleftrightarrow> tb_blockList b = map (chunk_block marshal) cs \<and> (\<forall>c \<in> set cs. chunk_ok c) \<and>
     tb_curBlock b = bblock_of (fst cur) (snd cur) \<and> items_ok (fst cur) (snd cur) \<and> (snd cur = [] \<longrightarrow> fst cur = []) \<and>
     tb_keyHashes b = map (\<lambda>e. Hash (parse_key (fst e))) (chunk_entries (cs @ [cur])) \<and>
     tb_maxVersion b = fold (\<lambda>e m. if m < ParseTs (fst e) then ParseTs (fst e) else m) (chunk_entries (cs @ [cur])) 0"

lemma chunk_entries_simps [simp]: "chunk_entries [] = []" "chunk_entries (c # cs) = map item_entry (snd c) @ chunk_entries cs"
  "chunk_entries (cs @ ds) = chunk_entries cs @ chunk_entries ds"
  by (simp_all add: chunk_entries_def)

lemma bblock_of_simps [simp]: "bb_data (bblock_of base xs) = items_bytes xs" "bb_entryOffsets (bblock_of base xs) = offsets_of xs"
  "bb_baseKey (bblock_of base xs) = base"
  by (simp_all add: bblock_of_def)

lemma offsets_of_Nil [simp]: "offsets_of xs = [] \<longleftrightarrow> xs = []"
  using length_offsets [of xs] by (metis length_0_conv)

lemma new_bblock_of: "new_bblock = bblock_of [] []"
  by (simp add: new_bblock_def bblock_of_def offsets_of_def)

lemma NewTableBuilder_holds: "tb_holds marshal NewTableBuilder [] ([], [])"
  by (simp add: tb_holds_def NewTableBuilder_def new_bblock_of items_ok_def)

lemma addHelper_holds:
  assumes h: "tb_holds marshal b cs (base, xs)" and k: "k \<noteq> []" "length k + 4 < 2 ^ 16"
    and w: "weights (chunk_entries (cs @ [(base, xs)]) @ [(k, v)]) < 2 ^ 28"
  shows "\<exists>b' base' x. addHelper b k v n = Some b' \<and> tb_holds marshal b' cs (base', xs @ [x]) \<and> item_entry x = (k, v) \<and>
    tb_staleDataSize b' = tb_staleDataSize b"
proof -
  have ok: "items_ok base xs" "xs = [] \<Longrightarrow> base = []" using h by (simp_all add: tb_holds_def)
  let ?x = "next_item base k v" and ?base = "if base = [] then k else base"
  have e: "item_entry ?x = (k, v)" by (simp add: next_item_def item_entry_def)
  have len: "length (EncodeTo v) < 2 ^ 32" using w by (simp add: weight_def)
  have x: "item_ok ?base ?x"
    using key_overlap_prefix [of k base] k by (auto simp: item_ok_def next_item_def)
  have "length (items_bytes xs) \<le> weights (map item_entry xs)" using items_weight [of xs base] ok(1) by (simp add: items_ok_def)
  moreover have "length (item_bytes ?x) \<le> weight (k, v)" using item_weight [OF x] e by simp
  ultimately have room: "length (items_bytes (xs @ [?x])) < 2 ^ 32" using w by simp
  note add = block_add_items [OF ok k len room]
  have c: "tb_curBlock b = bblock_of base xs" using h by (simp add: tb_holds_def)
  let ?b = "b\<lparr>tb_keyHashes := tb_keyHashes b @ [Hash (parse_key k)],
       tb_maxVersion := (if tb_maxVersion b < ParseTs k then ParseTs k else tb_maxVersion b),
       tb_curBlock := bblock_of ?base (xs @ [?x]), tb_onDiskSize := tb_onDiskSize b + n\<rparr>"
  have "addHelper b k v n = Some ?b" using add by (simp add: addHelper_def c)
  moreover have "tb_holds marshal ?b cs (?base, xs @ [?x])"
    using h add e by (simp add: tb_holds_def)
  ultimately show ?thesis using e by (intro exI [of _ ?b] exI [of _ ?base] exI [of _ ?x]) simp
qed

lemma finishBlock_holds:
  assumes "tb_holds marshal b cs (base, xs)" and "xs \<noteq> []" and "length xs < 2 ^ 30"
  shows "tb_holds marshal ((finishBlock marshal b)\<lparr>tb_curBlock := new_bblock\<rparr>) (cs @ [(base, xs)]) ([], []) \<and>
    tb_staleDataSize (finishBlock marshal b) = tb_staleDataSize b"
  using assms by (auto simp: tb_holds_def finishBlock_def Let_def chunk_block_def chunk_ok_def new_bblock_of items_ok_def)

lemma unat_sum_le: "unat (a + b) \<le> unat a + unat b"
  by (simp add: unat_word_ariths)

lemma unat_of_nat_le: "unat (word_of_nat n :: 'a :: len word) \<le> n"
  by (simp add: unat_of_nat)

lemma unat_sum_bound: "unat a \<le> m \<Longrightarrow> unat b \<le> n \<Longrightarrow> unat (a + b) \<le> m + n"
  using unat_sum_le [of a b] by linarith

text \<open>Within the bound on the sizes no assertion of the builder fails.\<close>

lemma shouldFinishBlock_ok:
  assumes h: "tb_holds marshal b cs (base, xs)" and k: "length k < 2 ^ 16"
    and w: "weights (chunk_entries (cs @ [(base, xs)]) @ [(k, v)]) < 2 ^ 28"
  shows "\<exists>r. shouldFinishBlock opt b k v = Some r \<and> (r \<longrightarrow> xs \<noteq> [])"
proof (cases "xs = []")
  case True
  then have "length (bb_entryOffsets (tb_curBlock b)) = 0" using h by (simp add: tb_holds_def)
  then show ?thesis by (simp add: shouldFinishBlock_def Let_def) blast
next
  case False
  have c: "tb_curBlock b = bblock_of base xs" and ok: "items_ok base xs" using h by (simp_all add: tb_holds_def)
  let ?n = "length xs" and ?d = "length (items_bytes xs)" and ?e = "length (EncodeTo v)"
  have d: "?d \<le> weights (map item_entry xs)" using items_weight [of xs base] ok by (simp add: items_ok_def)
  have n: "4 * ?n \<le> weights (map item_entry xs)" using weights_length [of "map item_entry xs"] by simp
  have b: "?d < 2 ^ 28" "4 * ?n < 2 ^ 28" "?e < 2 ^ 28" using d n w by (simp_all add: weight_def)
  have a1: "unat ((word_of_nat ?n + 1) * 4 + 4 + 8 + 4 :: u32) = 4 * ?n + 20"
  proof -
    have "((word_of_nat ?n + 1) * 4 + 4 + 8 + 4 :: u32) = word_of_nat (4 * ?n + 20)" by simp
    also have "unat \<dots> = 4 * ?n + 20" using b(2) by (subst unat_of_nat) simp
    finally show ?thesis .
  qed
  have top: "unat (- 1 :: u32) = 2 ^ 32 - 1" by (simp add: unsigned_minus_1_eq_mask mask_eq_exp_minus_1)
  have 1: "((word_of_nat ?n + 1) * 4 + 4 + 8 + 4 :: u32) < - 1"
    unfolding word_less_nat_alt a1 top using b(2) by simp
  have e: "unat (EncodedSize v) \<le> ?e" unfolding EncodedSize_EncodeTo by (rule unat_of_nat_le)
  have s0: "unat (word_of_nat ?d + 6 + word_of_nat (length k) + EncodedSize v + word_of_nat ((?n + 1) * 4 + 4 + 8 + 4) :: u32)
      \<le> ?d + 6 + length k + ?e + ((?n + 1) * 4 + 4 + 8 + 4)"
    by (intro unat_sum_bound unat_of_nat_le e) simp
  have "unat (estimatedSize opt (bblock_of base xs) k v) \<le> ?d + 6 + length k + ?e + ((?n + 1) * 4 + 4 + 8 + 4) + 16"
    unfolding estimatedSize_def Let_def bblock_of_simps length_offsets using unat_sum_bound [OF s0, of 16 16] s0 by simp
  then have s: "unat (ucast (estimatedSize opt (bblock_of base xs) k v) :: u64) < 2 ^ 31"
  proof -
    let ?s = "estimatedSize opt (bblock_of base xs) k v"
    assume le: "unat ?s \<le> ?d + 6 + length k + ?e + ((?n + 1) * 4 + 4 + 8 + 4) + 16"
    have "unat ?s < 2 ^ 31" using le b k by simp
    then show ?thesis by (simp add: unsigned_ucast_eq take_bit_nat_eq_self)
  qed
  have "unat (word_of_nat ?d + ucast (estimatedSize opt (bblock_of base xs) k v) :: u64) < 2 ^ 32 - 1"
    using unat_sum_le [of "word_of_nat ?d :: u64" "ucast (estimatedSize opt (bblock_of base xs) k v)"] s b(1)
      unat_of_nat_le [of ?d, where 'a = 64] by simp
  then have 2: "word_of_nat ?d + ucast (estimatedSize opt (bblock_of base xs) k v) < (2 ^ 32 - 1 :: u64)"
    by (simp add: word_less_nat_alt)
  show ?thesis using 1 2 False by (simp add: shouldFinishBlock_def Let_def c)
qed

lemma addInternal_holds:
  assumes h: "tb_holds marshal b cs cur" and k: "k \<noteq> []" "length k + 4 < 2 ^ 16"
    and w: "weights (chunk_entries (cs @ [cur]) @ [(k, v)]) < 2 ^ 28"
  shows "\<exists>b' cs' cur'. addInternal marshal opt b k v n st = Some b' \<and> tb_holds marshal b' cs' cur' \<and> snd cur' \<noteq> [] \<and>
    chunk_entries (cs' @ [cur']) = chunk_entries (cs @ [cur]) @ [(k, v)]"
proof -
  obtain base xs where cur: "cur = (base, xs)" by fastforce
  note h = h [unfolded cur] and w = w [unfolded cur]
  have k': "length k < 2 ^ 16" using k(2) by simp
  obtain r where r: "shouldFinishBlock opt b k v = Some r" "r \<longrightarrow> xs \<noteq> []"
    using shouldFinishBlock_ok [OF h k' w] by blast
  show ?thesis
  proof (cases r)
    case False
    obtain b' base' x where "addHelper b k v n = Some b'" "tb_holds marshal b' cs (base', xs @ [x])" "item_entry x = (k, v)"
      using addHelper_holds [OF h k w] by blast
    then show ?thesis using r False by (intro exI [of _ b'] exI [of _ cs] exI [of _ "(base', xs @ [x])"]) (simp add: addInternal_def cur)
  next
    case True
    have len: "length xs < 2 ^ 30" using weights_length [of "map item_entry xs"] w by simp
    let ?b1 = "if st then b\<lparr>tb_staleDataSize := tb_staleDataSize b + int (length k) + 4 + 4\<rparr> else b"
    have "tb_holds marshal ?b1 cs (base, xs)" using h by (simp add: tb_holds_def)
    then have f: "tb_holds marshal ((finishBlock marshal ?b1)\<lparr>tb_curBlock := new_bblock\<rparr>) (cs @ [(base, xs)]) ([], [])"
      using finishBlock_holds True r(2) len by blast
    have w': "weights (chunk_entries ((cs @ [(base, xs)]) @ [([], [])]) @ [(k, v)]) < 2 ^ 28" using w by simp
    obtain b' base' x where "addHelper ((finishBlock marshal ?b1)\<lparr>tb_curBlock := new_bblock\<rparr>) k v n = Some b'"
      "tb_holds marshal b' (cs @ [(base, xs)]) (base', [] @ [x])" "item_entry x = (k, v)"
      using addHelper_holds [OF f k w'] by blast
    then show ?thesis using r True by (intro exI [of _ b'] exI [of _ "cs @ [(base, xs)]"] exI [of _ "(base', [x])"]) (simp add: addInternal_def cur)
  qed
qed

section \<open>The layout of the file\<close>

definition sealed :: "table_codec \<Rightarrow> tbl_opts \<Rightarrow> chunk list \<Rightarrow> nat \<Rightarrow> bytes" where
  "sealed tc opt cs i = handleBlock tc opt (tc_iv tc i) (bb_data (chunk_block (tc_sum tc) (cs ! i)))"

definition sealed_all :: "table_codec \<Rightarrow> tbl_opts \<Rightarrow> chunk list \<Rightarrow> bytes list" where
  "sealed_all tc opt cs = map (sealed tc opt cs) [0..<length cs]"

definition sealed_offset :: "table_codec \<Rightarrow> tbl_opts \<Rightarrow> chunk list \<Rightarrow> nat \<Rightarrow> nat" where
  "sealed_offset tc opt cs i = length (concat (take i (sealed_all tc opt cs)))"

lemma writeBlockOffsets_eq:
  "writeBlockOffsets bls s = (map (\<lambda>i. \<lparr>bo_key = fst (bls ! i), bo_offset = s + word_of_nat (length (concat (take i (map snd bls)))),
      bo_len = word_of_nat (length (snd (bls ! i)))\<rparr>) [0..<length bls], s + word_of_nat (length (concat (map snd bls))))"
proof (induction bls arbitrary: s)
  case (Cons b bls)
  obtain k d where b: "b = (k, d)" by fastforce
  have u: "[0..<length (b # bls)] = 0 # map Suc [0..<length bls]" by (simp add: map_Suc_upt upt_conv_Cons del: upt_Suc)
  show ?case unfolding u by (simp add: b Cons.IH add_ac)
qed simp

definition index_of :: "table_codec \<Rightarrow> tbl_opts \<Rightarrow> builder \<Rightarrow> chunk list \<Rightarrow> bytes \<Rightarrow> table_index" where
  "index_of tc opt b cs bloom =
     (let dataSize = word_of_nat (length (concat (sealed_all tc opt cs)));
          ix = \<lparr>ti_offsets = map (\<lambda>i. \<lparr>bo_key = fst (cs ! i), bo_offset = word_of_nat (sealed_offset tc opt cs i),
                  bo_len = word_of_nat (length (sealed tc opt cs i))\<rparr>) [0..<length cs],
                ti_bloom = bloom, ti_maxVersion = tb_maxVersion b, ti_uncompressedSize = tb_uncompressedSize b,
                ti_keyCount = word_of_nat (length (tb_keyHashes b)), ti_onDiskSize = tb_onDiskSize b + dataSize,
                ti_staleDataSize = word_of_int (tb_staleDataSize b)\<rparr>
      in ix\<lparr>ti_onDiskSize := ti_onDiskSize ix + word_of_nat (length (tc_index tc ix))\<rparr>)"

definition sealed_index :: "table_codec \<Rightarrow> tbl_opts \<Rightarrow> nat \<Rightarrow> bytes \<Rightarrow> bytes" where
  "sealed_index tc opt n index0 = (if shouldEncrypt opt then tb_encrypt tc (tc_iv tc n) index0 else index0)"

definition file_of :: "table_codec \<Rightarrow> tbl_opts \<Rightarrow> chunk list \<Rightarrow> bytes \<Rightarrow> bytes" where
  "file_of tc opt cs index = (let checksum = calculateChecksum (tc_sum tc) index
     in concat (sealed_all tc opt cs) @ index @ U32ToBytes (word_of_nat (length index)) @ checksum @ U32ToBytes (word_of_nat (length checksum)))"

lemma tb_Done_file:
  assumes h: "tb_holds (tc_sum tc) b cs cur" and ne: "snd cur \<noteq> []" "length (snd cur) < 2 ^ 30"
    and f: "(if to_Bloom opt then NewFilter (tb_keyHashes b) (tc_bits tc (length (tb_keyHashes b))) else Some []) = Some bloom"
  defines "b' \<equiv> finishBlock (tc_sum tc) b" and "all \<equiv> cs @ [cur]"
  defines "index \<equiv> sealed_index tc opt (length all) (tc_index tc (index_of tc opt b' all bloom))"
  shows "tb_Done tc opt b = Some \<lparr>bd_blockList = sealed_all tc opt all, bd_index = index, bd_checksum = calculateChecksum (tc_sum tc) index,
      bd_Size = uint (word_of_nat (length (concat (sealed_all tc opt all))) :: u32) + int (length index) +
        int (length (calculateChecksum (tc_sum tc) index)) + 4 + 4\<rparr>"
    and "\<forall>c \<in> set all. chunk_ok c"
    and "tb_keyHashes b' = tb_keyHashes b" and "tb_maxVersion b' = tb_maxVersion b"
proof -
  obtain base xs where cur: "cur = (base, xs)" by fastforce
  have e: "length (bb_entryOffsets (tb_curBlock b)) \<noteq> 0" using h ne by (simp add: tb_holds_def)
  have bl: "tb_blockList b' = map (chunk_block (tc_sum tc)) all" "tb_keyHashes b' = tb_keyHashes b" "tb_maxVersion b' = tb_maxVersion b"
    using h e by (simp_all add: b'_def all_def finishBlock_def tb_holds_def Let_def chunk_block_def)
  show "tb_keyHashes b' = tb_keyHashes b" "tb_maxVersion b' = tb_maxVersion b" by (rule bl)+
  show "\<forall>c \<in> set all. chunk_ok c" using h ne by (simp add: tb_holds_def all_def chunk_ok_def cur)
  let ?blocks = "map (\<lambda>(i, bb). (bb_baseKey bb, handleBlock tc opt (tc_iv tc i) (bb_data bb))) (zip [0..<length (tb_blockList b')] (tb_blockList b'))"
  have base: "bb_baseKey (chunk_block m c) = fst c" for m c by (simp add: chunk_block_def block_finish_def Let_def bblock_of_def)
  have blocks: "?blocks = map (\<lambda>i. (fst (all ! i), sealed tc opt all i)) [0..<length all]"
    by (rule nth_equalityI) (simp_all add: bl sealed_def base)
  have snds: "map snd ?blocks = sealed_all tc opt all" unfolding blocks by (simp add: sealed_all_def)
  have len: "length all \<noteq> 0" by (simp add: all_def)
  have wb: "writeBlockOffsets ?blocks 0 = (map (\<lambda>i. \<lparr>bo_key = fst (all ! i), bo_offset = word_of_nat (sealed_offset tc opt all i),
      bo_len = word_of_nat (length (sealed tc opt all i))\<rparr>) [0..<length all], word_of_nat (length (concat (sealed_all tc opt all))))"
    unfolding writeBlockOffsets_eq snds by (simp add: blocks sealed_offset_def)
  have ix: "buildIndex tc b' ?blocks bloom = (tc_index tc (index_of tc opt b' all bloom), word_of_nat (length (concat (sealed_all tc opt all))))"
    unfolding buildIndex_def wb by (simp add: index_of_def Let_def)
  have bl0: "length (tb_blockList b') \<noteq> 0" using len bl(1) by simp
  have lb: "length ?blocks = length all" by (simp add: bl(1))
  show "tb_Done tc opt b = Some \<lparr>bd_blockList = sealed_all tc opt all, bd_index = index, bd_checksum = calculateChecksum (tc_sum tc) index,
      bd_Size = uint (word_of_nat (length (concat (sealed_all tc opt all))) :: u32) + int (length index) +
        int (length (calculateChecksum (tc_sum tc) index)) + 4 + 4\<rparr>"
    unfolding tb_Done_def b'_def [symmetric] Let_def if_not_P [OF bl0] bl(2) f option.case ix prod.case lb snds
    by (simp add: index_def sealed_index_def del: length_concat)
qed

lemma tb_Finish_file:
  assumes "tb_Done tc opt b = Some \<lparr>bd_blockList = sealed_all tc opt cs, bd_index = index, bd_checksum = calculateChecksum (tc_sum tc) index,
      bd_Size = uint (word_of_nat (length (concat (sealed_all tc opt cs))) :: u32) + int (length index) +
        int (length (calculateChecksum (tc_sum tc) index)) + 4 + 4\<rparr>"
    and small: "length (file_of tc opt cs index) < 2 ^ 32"
  shows "tb_Finish tc opt b = Some (file_of tc opt cs index)"
proof -
  have total: "length (concat (sealed_all tc opt cs)) < 2 ^ 32" using small by (simp add: file_of_def Let_def)
  have ud: "uint (word_of_nat (length (concat (sealed_all tc opt cs))) :: u32) = int (length (concat (sealed_all tc opt cs)))"
    using total by (simp add: uint_nat unat_of_nat del: length_concat)
  show ?thesis using assms(1) unfolding ud
    by (simp add: tb_Finish_def bd_Copy_def file_of_def Let_def del: length_concat)
qed

end
