(* ===== verification/Watermark.thy ===== *)
theory Watermark
  imports Prelude "HOL-Library.AList"
begin

text \<open>
  \<open>y/watermark.go\<close>: the goroutine \<open>process\<close> that keeps, for indices that begin and
  finish in any order, the highest index up to which everything is done, and wakes the
  waiters. Indices are timestamps, counted from zero; they are natural numbers here
  (\<open>uint64\<close> in the code, which its counters do not reach).
\<close>

section \<open>The heap\<close>

text \<open>
  What \<open>container/heap\<close> gives on a \<open>uint64Heap\<close>: the least element first, and a
  multiset of elements. The model keeps the elements in ascending order.
\<close>

locale min_heap =
  fixes push :: "'a :: linorder \<Rightarrow> 'h \<Rightarrow> 'h" and pop :: "'h \<Rightarrow> 'h"
    and top :: "'h \<Rightarrow> 'a" and elems :: "'h \<Rightarrow> 'a multiset" and ok :: "'h \<Rightarrow> bool"
  assumes elems_push: "ok h \<Longrightarrow> elems (push x h) = add_mset x (elems h)"
    and ok_push: "ok h \<Longrightarrow> ok (push x h)"
    and elems_pop: "ok h \<Longrightarrow> elems h \<noteq> {#} \<Longrightarrow> add_mset (top h) (elems (pop h)) = elems h"
    and ok_pop: "ok h \<Longrightarrow> elems h \<noteq> {#} \<Longrightarrow> ok (pop h)"
    and top_least: "ok h \<Longrightarrow> x \<in># elems h \<Longrightarrow> top h \<le> x"
begin

lemma top_in: "ok h \<Longrightarrow> elems h \<noteq> {#} \<Longrightarrow> top h \<in># elems h"
  using elems_pop by (metis union_single_eq_member)

lemma pop_elems_le: "ok h \<Longrightarrow> elems h \<noteq> {#} \<Longrightarrow> x \<in># elems (pop h) \<Longrightarrow> top h \<le> x"
  using elems_pop top_least by (metis insert_iff set_mset_add_mset_insert)

end

fun heap_push :: "nat \<Rightarrow> nat list \<Rightarrow> nat list" where
  "heap_push x [] = [x]"
| "heap_push x (y # ys) = (if x \<le> y then x # y # ys else y # heap_push x ys)"

lemma heap_push_mset: "mset (heap_push x h) = add_mset x (mset h)"
  by (induction h) auto

lemma heap_push_set [simp]: "set (heap_push x h) = insert x (set h)"
  using heap_push_mset by (metis set_mset_add_mset_insert set_mset_mset)

lemma heap_push_sorted: "sorted h \<Longrightarrow> sorted (heap_push x h)"
  by (induction h) auto

lemma heap_push_distinct: "distinct h \<Longrightarrow> x \<notin> set h \<Longrightarrow> distinct (heap_push x h)"
  by (induction h) auto

interpretation wh: min_heap heap_push tl hd mset sorted
proof unfold_locales
  fix h :: "nat list" and x
  show "sorted h \<Longrightarrow> mset h \<noteq> {#} \<Longrightarrow> add_mset (hd h) (mset (tl h)) = mset h"
    by (cases h) auto
  show "sorted h \<Longrightarrow> mset h \<noteq> {#} \<Longrightarrow> sorted (tl h)" by (simp add: sorted_tl)
  show "sorted h \<Longrightarrow> x \<in># mset h \<Longrightarrow> hd h \<le> x" by (cases h) auto
qed (simp_all add: heap_push_mset heap_push_sorted)

section \<open>State and operations\<close>

text \<open>Channels are numbered; a closed one is in \<open>wm_closed\<close>. Go maps whose length is taken
  are association lists with distinct keys.\<close>

record watermark =
  wm_doneUntil :: nat
  wm_pending :: "nat \<rightharpoonup> int"
  wm_indices :: "nat list"
  wm_waiters :: "(nat \<times> nat list) list"
  wm_closed :: "nat set"

record mark =
  mk_index :: nat
  mk_waiter :: "nat option"
  mk_indices :: "nat list"
  mk_done :: bool

definition Begin :: "nat \<Rightarrow> mark" where
  "Begin index = \<lparr>mk_index = index, mk_waiter = None, mk_indices = [], mk_done = False\<rparr>"

definition BeginMany :: "nat list \<Rightarrow> mark" where
  "BeginMany indices = \<lparr>mk_index = 0, mk_waiter = None, mk_indices = indices, mk_done = False\<rparr>"

definition Done :: "nat \<Rightarrow> mark" where
  "Done index = \<lparr>mk_index = index, mk_waiter = None, mk_indices = [], mk_done = True\<rparr>"

definition DoneMany :: "nat list \<Rightarrow> mark" where
  "DoneMany indices = \<lparr>mk_index = 0, mk_waiter = None, mk_indices = indices, mk_done = True\<rparr>"

text \<open>\<open>WaitForMark\<close> returns at once, or sends a mark and blocks until its channel is closed.\<close>

definition WaitForMark :: "watermark \<Rightarrow> nat \<Rightarrow> nat \<Rightarrow> mark option" where
  "WaitForMark w index ch = (if wm_doneUntil w \<ge> index then None
     else Some \<lparr>mk_index = index, mk_waiter = Some ch, mk_indices = [], mk_done = False\<rparr>)"

text \<open>The popping loop of \<open>processOne\<close>: the heap, the pending counts and \<open>until\<close>.\<close>

fun pop_done :: "nat list \<Rightarrow> (nat \<rightharpoonup> int) \<Rightarrow> nat \<Rightarrow> nat list \<times> (nat \<rightharpoonup> int) \<times> nat" where
  "pop_done [] p until = ([], p, until)"
| "pop_done (m # h) p until =
     (if (case p m of None \<Rightarrow> 0 | Some n \<Rightarrow> n) > 0 then (m # h, p, until)
      else pop_done h (p(m := None)) m)"

text \<open>\<open>notifyAndRemove\<close>, and the two ways to find the waiters to notify.\<close>

definition notifyAndRemove :: "nat \<Rightarrow> nat list \<Rightarrow> (nat \<times> nat list) list \<times> nat set \<Rightarrow> (nat \<times> nat list) list \<times> nat set" where
  "notifyAndRemove idx toNotify s = (AList.delete idx (fst s), snd s \<union> set toNotify)"

definition notify_range :: "nat \<Rightarrow> nat \<Rightarrow> (nat \<times> nat list) list \<times> nat set \<Rightarrow> (nat \<times> nat list) list \<times> nat set" where
  "notify_range doneUntil until s = foldl (\<lambda>s idx. case map_of (fst s) idx of
       None \<Rightarrow> s | Some toNotify \<Rightarrow> notifyAndRemove idx toNotify s) s [doneUntil + 1 ..< until + 1]"

definition notify_all :: "nat \<Rightarrow> (nat \<times> nat list) list \<times> nat set \<Rightarrow> (nat \<times> nat list) list \<times> nat set" where
  "notify_all until s = foldl (\<lambda>s (idx, toNotify).
       if idx \<le> until then notifyAndRemove idx toNotify s else s) s (fst s)"

text \<open>\<open>processOne\<close>; \<open>None\<close> is the failed assertion on an index below \<open>doneUntil\<close>.\<close>

definition processOne :: "watermark \<Rightarrow> nat \<Rightarrow> bool \<Rightarrow> watermark option" where
  "processOne w index finished =
     (let prev = (case wm_pending w index of None \<Rightarrow> 0 | Some n \<Rightarrow> n);
          indices = (if wm_pending w index = None then heap_push index (wm_indices w) else wm_indices w);
          delta = (if finished then - 1 else 1);
          pending = (wm_pending w)(index \<mapsto> prev + delta);
          doneUntil = wm_doneUntil w
      in if doneUntil > index then None
         else
           let (indices', pending', until) = pop_done indices pending doneUntil;
               s = (wm_waiters w, wm_closed w);
               (waiters, closed) = (if until - doneUntil \<le> length (wm_waiters w)
                 then notify_range doneUntil until s else notify_all until s)
           in Some \<lparr>wm_doneUntil = until, wm_pending = pending', wm_indices = indices',
                    wm_waiters = waiters, wm_closed = closed\<rparr>)"

fun processMany :: "watermark \<Rightarrow> nat list \<Rightarrow> bool \<Rightarrow> watermark option" where
  "processMany w [] finished = Some w"
| "processMany w (i # is) finished = Option.bind (processOne w i finished) (\<lambda>w. processMany w is finished)"

text \<open>One round of the loop of \<open>process\<close>: what it does with a mark.\<close>

definition process_mark :: "watermark \<Rightarrow> mark \<Rightarrow> watermark option" where
  "process_mark w m = (case mk_waiter m of
     Some ch \<Rightarrow>
       if wm_doneUntil w \<ge> mk_index m then Some (w\<lparr>wm_closed := insert ch (wm_closed w)\<rparr>)
       else Some (w\<lparr>wm_waiters := (case map_of (wm_waiters w) (mk_index m) of
           None \<Rightarrow> AList.update (mk_index m) [ch] (wm_waiters w)
         | Some ws \<Rightarrow> AList.update (mk_index m) (ws @ [ch]) (wm_waiters w))\<rparr>)
   | None \<Rightarrow>
       Option.bind
         (if mk_index m > 0 \<or> mk_index m = 0 \<and> length (mk_indices m) = 0
          then processOne w (mk_index m) (mk_done m) else Some w)
         (\<lambda>w. processMany w (mk_indices m) (mk_done m)))"

fun process :: "watermark \<Rightarrow> mark list \<Rightarrow> watermark option" where
  "process w [] = Some w"
| "process w (m # ms) = Option.bind (process_mark w m) (\<lambda>w. process w ms)"

definition new_watermark :: "nat \<Rightarrow> watermark" where
  "new_watermark d = \<lparr>wm_doneUntil = d, wm_pending = Map.empty, wm_indices = [], wm_waiters = [],
     wm_closed = {}\<rparr>"

lemma process_first_done: "process (new_watermark 0) [Done d] = Some (new_watermark d)"
  by (auto simp: process_mark_def Done_def processOne_def new_watermark_def notify_range_def
      notify_all_def Let_def fun_eq_iff)

section \<open>Popping\<close>

abbreviation count_of :: "(nat \<rightharpoonup> int) \<Rightarrow> nat \<Rightarrow> int" where
  "count_of p i \<equiv> (case p i of None \<Rightarrow> 0 | Some n \<Rightarrow> n)"

definition popped :: "nat list \<Rightarrow> (nat \<rightharpoonup> int) \<Rightarrow> nat \<Rightarrow> nat list \<Rightarrow> (nat \<rightharpoonup> int) \<Rightarrow> nat \<Rightarrow> bool" where
  "popped h p u h' p' u' \<longleftrightarrow> sorted h' \<and> distinct h' \<and> set h' = dom p' \<and> (\<forall>i \<in> set h'. u' \<le> i) \<and> u \<le> u' \<and>
    (h' \<noteq> [] \<longrightarrow> 0 < count_of p' (hd h')) \<and> u' \<in> insert u (set h) \<and> set h' \<subseteq> set h \<and>
    (u' = u \<or> u' \<notin> set h') \<and>
    (\<forall>i. p' i = (if i \<in> set h' then p i else None)) \<and>
    (\<forall>i. i \<in> set h \<longrightarrow> i \<notin> set h' \<longrightarrow> i \<le> u' \<and> count_of p i \<le> 0)"

lemma popped_step:
  assumes "popped h (p(m := None)) m h' p' u'" "m \<notin> set h" "\<not> 0 < count_of p m" "u \<le> m"
  shows "popped (m # h) p u h' p' u'"
proof -
  have "p' i = (if i \<in> set h' then p i else None)" for i
    using assms(1,2) unfolding popped_def by (cases "i = m") auto
  moreover have "i \<le> u' \<and> count_of p i \<le> 0" if "i \<in> set (m # h)" "i \<notin> set h'" for i
  proof (cases "i = m")
    case True
    then show ?thesis using assms(1,3) unfolding popped_def by simp
  next
    case False
    then have "i \<le> u' \<and> count_of (p(m := None)) i \<le> 0"
      using that assms(1) unfolding popped_def by (metis set_ConsD)
    then show ?thesis using False by simp
  qed
  moreover have "m \<le> u'" "sorted h'" "distinct h'" "set h' = dom p'" "\<forall>i \<in> set h'. u' \<le> i"
    "h' \<noteq> [] \<longrightarrow> 0 < count_of p' (hd h')" "u' \<in> insert u (set (m # h))" "set h' \<subseteq> set (m # h)"
    "u' = u \<or> u' \<notin> set h'"
    using assms(1,2) unfolding popped_def list.set by blast+
  moreover from this(1) have "u \<le> u'" using assms(4) by simp
  ultimately show ?thesis unfolding popped_def by blast
qed

lemma pop_done_spec:
  "sorted h \<Longrightarrow> distinct h \<Longrightarrow> set h = dom p \<Longrightarrow> \<forall>i \<in> set h. u \<le> i \<Longrightarrow>
    pop_done h p u = (h', p', u') \<Longrightarrow> popped h p u h' p' u'"
proof (induction h p u arbitrary: h' p' u' rule: pop_done.induct)
  case (1 p until)
  then show ?case by (auto simp: domIff popped_def)
next
  case (2 m h p until)
  show ?case
  proof (cases "0 < count_of p m")
    case True
    then have "h' = m # h" "p' = p" "u' = until" using "2.prems"(5) by auto
    with "2.prems"(1-4) True show ?thesis by (auto simp: domIff popped_def)
  next
    case False
    then have rec: "pop_done h (p(m := None)) m = (h', p', u')" using "2.prems"(5) by simp
    have "sorted h" "distinct h" "set h = dom (p(m := None))" "\<forall>i \<in> set h. m \<le> i"
      using "2.prems"(1-4) by auto
    from "2.IH" [OF False this rec] have "popped h (p(m := None)) m h' p' u'" .
    then show ?thesis using False "2.prems"(2,4) by (intro popped_step) auto
  qed
qed

section \<open>Notification\<close>

definition keys_of :: "(nat \<times> 'v) list \<Rightarrow> nat set" where
  "keys_of xs = fst ` set xs"

text \<open>What both branches amount to: the waiters up to \<open>until\<close> are woken, the others stay.\<close>

definition woken :: "nat \<Rightarrow> (nat \<times> nat list) list \<Rightarrow> nat set" where
  "woken until ws = {c. \<exists>i cs. (i, cs) \<in> set ws \<and> i \<le> until \<and> c \<in> set cs}"

lemma delete_filter: "AList.delete k xs = filter (\<lambda>(i, _). i \<noteq> k) xs"
  by (induction xs) auto

lemma notify_range_aux:
  "distinct (map fst ws) \<Longrightarrow> foldl (\<lambda>s idx. case map_of (fst s) idx of
       None \<Rightarrow> s | Some toNotify \<Rightarrow> notifyAndRemove idx toNotify s) (ws, C) is =
   (filter (\<lambda>(i, _). i \<notin> set is) ws, C \<union> {c. \<exists>i cs. (i, cs) \<in> set ws \<and> i \<in> set is \<and> c \<in> set cs})"
proof (induction "is" arbitrary: ws C)
  case Nil
  then show ?case by simp
next
  case (Cons a "is")
  show ?case
  proof (cases "map_of ws a")
    case None
    then have no: "\<forall>(i, cs) \<in> set ws. i \<noteq> a" by (force simp: map_of_eq_None_iff)
    then have "filter (\<lambda>(i, _). i \<notin> set is) ws = filter (\<lambda>(i, _). i \<notin> set (a # is)) ws"
      by (auto intro: filter_cong)
    moreover have "{c. \<exists>i cs. (i, cs) \<in> set ws \<and> i \<in> set is \<and> c \<in> set cs} =
        {c. \<exists>i cs. (i, cs) \<in> set ws \<and> i \<in> set (a # is) \<and> c \<in> set cs}" using no by auto
    ultimately show ?thesis using Cons None by simp
  next
    case (Some cs)
    then have a: "(a, cs') \<in> set ws \<longleftrightarrow> cs' = cs" for cs'
      using Cons.prems by (metis map_of_eq_Some_iff option.inject)
    have d: "distinct (map fst (AList.delete a ws))" using Cons.prems by (rule AList.distinct_delete)
    have "filter (\<lambda>(i, _). i \<notin> set is) (AList.delete a ws) = filter (\<lambda>(i, _). i \<notin> set (a # is)) ws"
      unfolding delete_filter filter_filter by (auto intro: filter_cong)
    moreover have "(C \<union> set cs) \<union> {c. \<exists>i cs. (i, cs) \<in> set (AList.delete a ws) \<and> i \<in> set is \<and> c \<in> set cs} =
        C \<union> {c. \<exists>i cs. (i, cs) \<in> set ws \<and> i \<in> set (a # is) \<and> c \<in> set cs}"
      unfolding delete_filter using a by (auto; metis)
    ultimately show ?thesis using Cons.IH [OF d, of "C \<union> set cs"] Some
      by (simp add: notifyAndRemove_def)
  qed
qed

lemma notify_all_aux:
  "foldl (\<lambda>s (idx, toNotify). if idx \<le> until then notifyAndRemove idx toNotify s else s) (vs, C) ws =
   (filter (\<lambda>(i, _). \<not> (i \<le> until \<and> i \<in> keys_of ws)) vs, C \<union> woken until ws)"
proof (induction ws arbitrary: vs C)
  case Nil
  then show ?case by (simp add: keys_of_def woken_def)
next
  case (Cons w ws)
  obtain i cs where w: "w = (i, cs)" by fastforce
  show ?case
  proof (cases "i \<le> until")
    case True
    have "filter (\<lambda>(j, _). \<not> (j \<le> until \<and> j \<in> keys_of ws)) (AList.delete i vs) =
        filter (\<lambda>(j, _). \<not> (j \<le> until \<and> j \<in> keys_of (w # ws))) vs"
      unfolding delete_filter filter_filter using True by (auto simp: w keys_of_def intro!: filter_cong)
    moreover have "(C \<union> set cs) \<union> woken until ws = C \<union> woken until (w # ws)"
      using True by (auto simp: w woken_def)
    ultimately show ?thesis using Cons.IH [of "AList.delete i vs" "C \<union> set cs"] True
      by (simp add: w notifyAndRemove_def)
  next
    case False
    then have "filter (\<lambda>(j, _). \<not> (j \<le> until \<and> j \<in> keys_of ws)) vs =
        filter (\<lambda>(j, _). \<not> (j \<le> until \<and> j \<in> keys_of (w # ws))) vs"
      by (auto simp: w keys_of_def intro!: filter_cong)
    moreover have "woken until ws = woken until (w # ws)" using False by (auto simp: w woken_def)
    ultimately show ?thesis using Cons.IH [of vs C] False by (simp add: w)
  qed
qed

lemma notify_branches:
  assumes "distinct (map fst ws)" "\<forall>(i, cs) \<in> set ws. d < i"
  shows "notify_range d u (ws, C) = (filter (\<lambda>(i, _). u < i) ws, C \<union> woken u ws)"
    and "notify_all u (ws, C) = (filter (\<lambda>(i, _). u < i) ws, C \<union> woken u ws)"
proof -
  have "filter (\<lambda>(i, _). i \<notin> set [d + 1 ..< u + 1]) ws = filter (\<lambda>(i, _). u < i) ws"
    using assms(2) by (auto intro!: filter_cong)
  moreover have "{c. \<exists>i cs. (i, cs) \<in> set ws \<and> i \<in> set [d + 1 ..< u + 1] \<and> c \<in> set cs} = woken u ws"
    using assms(2) by (fastforce simp: woken_def)
  ultimately show "notify_range d u (ws, C) = (filter (\<lambda>(i, _). u < i) ws, C \<union> woken u ws)"
    unfolding notify_range_def using notify_range_aux [OF assms(1), of C "[d + 1 ..< u + 1]"] by simp
  have "filter (\<lambda>(i, _). \<not> (i \<le> u \<and> i \<in> keys_of ws)) ws = filter (\<lambda>(i, _). u < i) ws"
    by (force simp: keys_of_def intro!: filter_cong)
  then show "notify_all u (ws, C) = (filter (\<lambda>(i, _). u < i) ws, C \<union> woken u ws)"
    unfolding notify_all_def using notify_all_aux [of u ws C ws] by simp
qed

section \<open>The invariant\<close>

text \<open>The marks that say an index begins or is done, and how often each is open.\<close>

definition events_of :: "mark \<Rightarrow> (nat \<times> bool) list" where
  "events_of m = (case mk_waiter m of Some _ \<Rightarrow> []
   | None \<Rightarrow> (if mk_index m > 0 \<or> mk_indices m = [] then [(mk_index m, mk_done m)] else []) @
       map (\<lambda>i. (i, mk_done m)) (mk_indices m))"

definition waits_of :: "mark \<Rightarrow> (nat \<times> nat) list" where
  "waits_of m = (case mk_waiter m of Some ch \<Rightarrow> [(mk_index m, ch)] | None \<Rightarrow> [])"

definition history :: "mark list \<Rightarrow> (nat \<times> bool) list" where
  "history ms = concat (map events_of ms)"

definition open_count :: "(nat \<times> bool) list \<Rightarrow> nat \<Rightarrow> int" where
  "open_count h i = int (length (filter (\<lambda>e. e = (i, False)) h)) - int (length (filter (\<lambda>e. e = (i, True)) h))"

text \<open>Every \<open>Done\<close> comes after its \<open>Begin\<close>.\<close>

definition disciplined :: "(nat \<times> bool) list \<Rightarrow> bool" where
  "disciplined h \<longleftrightarrow> (\<forall>n \<in> set [0 ..< Suc (length h)]. \<forall>e \<in> set h. 0 \<le> open_count (take n h) (fst e))"

definition wm_inv :: "nat \<Rightarrow> (nat \<times> bool) list \<Rightarrow> (nat \<times> nat) set \<Rightarrow> watermark \<Rightarrow> bool" where
  "wm_inv d h W w \<longleftrightarrow>
     sorted (wm_indices w) \<and> distinct (wm_indices w) \<and> set (wm_indices w) = dom (wm_pending w) \<and>
     (\<forall>i \<in> set (wm_indices w). wm_doneUntil w \<le> i) \<and>
     (wm_indices w \<noteq> [] \<longrightarrow> 0 < count_of (wm_pending w) (hd (wm_indices w))) \<and>
     (\<forall>i \<in> fst ` set h. i \<in> set (wm_indices w) \<or> i \<le> wm_doneUntil w) \<and>
     wm_doneUntil w \<in> insert d (fst ` set h) \<and> set (wm_indices w) \<subseteq> fst ` set h \<and>
     (\<forall>i. count_of (wm_pending w) i = open_count h i) \<and>
     distinct (map fst (wm_waiters w)) \<and> (\<forall>(i, cs) \<in> set (wm_waiters w). wm_doneUntil w < i) \<and>
     (\<forall>i c. (i, c) \<in> W \<and> wm_doneUntil w < i \<longleftrightarrow> (\<exists>cs. (i, cs) \<in> set (wm_waiters w) \<and> c \<in> set cs)) \<and>
     wm_closed w = {c. \<exists>i. (i, c) \<in> W \<and> i \<le> wm_doneUntil w} \<and>
     (distinct h \<and> (\<forall>e \<in> set h. d < fst e) \<longrightarrow> open_count h (wm_doneUntil w) = 0)"

lemma open_count_snoc: "open_count (h @ [(j, b)]) i = open_count h i + (if i = j then if b then - 1 else 1 else 0)"
  by (simp add: open_count_def)

lemma wm_inv_new: "wm_inv d [] {} (new_watermark d)"
  by (simp add: wm_inv_def new_watermark_def open_count_def)

lemma wm_inv_one:
  assumes inv: "wm_inv d h W w" and step: "processOne w j b = Some w'"
    and pos: "\<forall>i \<in> insert j (fst ` set h). 0 \<le> open_count (h @ [(j, b)]) i"
  shows "wm_inv d (h @ [(j, b)]) W w' \<and> wm_doneUntil w \<le> wm_doneUntil w'"
proof -
  let ?d = "wm_doneUntil w" and ?p = "wm_pending w"
  define hp where "hp = (if ?p j = None then heap_push j (wm_indices w) else wm_indices w)"
  define p where "p = ?p(j \<mapsto> count_of ?p j + (if b then - 1 else 1))"
  obtain h' p' u' where pop: "pop_done hp p ?d = (h', p', u')" by (metis prod_cases3)
  have I: "sorted (wm_indices w)" "distinct (wm_indices w)" "set (wm_indices w) = dom ?p"
    "\<forall>i \<in> set (wm_indices w). ?d \<le> i" "\<forall>i \<in> fst ` set h. i \<in> set (wm_indices w) \<or> i \<le> ?d"
    "?d \<in> insert d (fst ` set h)" "set (wm_indices w) \<subseteq> fst ` set h"
    "\<forall>i. count_of ?p i = open_count h i"
    using inv unfolding wm_inv_def by blast+
  have le: "?d \<le> j" using step by (auto simp: processOne_def Let_def split: if_splits)
  have hp: "sorted hp" "distinct hp" "set hp = dom p" "\<forall>i \<in> set hp. ?d \<le> i"
    "set hp = insert j (set (wm_indices w))"
    using I(1-4) le unfolding hp_def p_def
    by (auto simp: heap_push_sorted heap_push_distinct domIff)
  from pop_done_spec [OF hp(1-4) pop] have P: "popped hp p ?d h' p' u'" .
  have ws: "distinct (map fst (wm_waiters w))" "\<forall>(i, cs) \<in> set (wm_waiters w). ?d < i"
    using inv unfolding wm_inv_def by blast+
  have w': "w' = \<lparr>wm_doneUntil = u', wm_pending = p', wm_indices = h',
      wm_waiters = filter (\<lambda>(i, _). u' < i) (wm_waiters w),
      wm_closed = wm_closed w \<union> woken u' (wm_waiters w)\<rparr>"
    using step pop le notify_branches [OF ws, of u' "wm_closed w"]
    by (auto simp: processOne_def Let_def hp_def [symmetric] p_def [symmetric] split: if_splits)
  have cnt: "count_of p i = open_count (h @ [(j, b)]) i" for i
    using I(8) by (simp add: p_def open_count_snoc)
  have closed: "count_of p' i = open_count (h @ [(j, b)]) i" for i
  proof (cases "i \<in> set h'")
    case True
    then show ?thesis using P cnt unfolding popped_def by simp
  next
    case False
    then have 0: "count_of p' i = 0" using P unfolding popped_def by simp
    show ?thesis
    proof (cases "i \<in> set hp")
      case True
      then have "count_of p i \<le> 0" using P False unfolding popped_def by blast
      moreover have "0 \<le> count_of p i"
      proof (cases "i \<in> insert j (fst ` set h)")
        case True
        then show ?thesis using pos cnt by metis
      next
        case False
        then have "filter (\<lambda>e. e = (i, x)) (h @ [(j, b)]) = []" for x
          unfolding filter_empty_conv by force
        then have "open_count (h @ [(j, b)]) i = 0" by (simp only: open_count_def)
        then show ?thesis using cnt by simp
      qed
      ultimately show ?thesis using 0 cnt by simp
    next
      case False
      then have "count_of p i = 0" using hp(3) by (auto simp: domIff)
      then show ?thesis using 0 cnt by simp
    qed
  qed
  have mono: "?d \<le> u'" using P unfolding popped_def by blast
  have "i \<in> set h' \<or> i \<le> u'" if "i \<in> set hp" for i
    using that P unfolding popped_def by blast
  then have seen: "i \<in> set h' \<or> i \<le> u'" if "i \<in> fst ` set (h @ [(j, b)])" for i
    using that I(5) hp(5) mono by (auto intro: order_trans)
  have sub: "set h' \<subseteq> fst ` set (h @ [(j, b)])" "u' \<in> insert d (fst ` set (h @ [(j, b)]))"
  proof -
    have "set h' \<subseteq> set hp" "u' \<in> insert ?d (set hp)" using P unfolding popped_def by blast+
    then show "set h' \<subseteq> fst ` set (h @ [(j, b)])" "u' \<in> insert d (fst ` set (h @ [(j, b)]))"
      using hp(5) I(6,7) by auto
  qed
  have inW: "(i, c) \<in> W \<and> ?d < i \<longleftrightarrow> (\<exists>cs. (i, cs) \<in> set (wm_waiters w) \<and> c \<in> set cs)" for i c
    using inv unfolding wm_inv_def by blast
  have waits: "(i, c) \<in> W \<and> u' < i \<longleftrightarrow> (\<exists>cs. (i, cs) \<in> set (filter (\<lambda>(i, _). u' < i) (wm_waiters w)) \<and> c \<in> set cs)"
    for i c using inW [of i c] mono by auto
  have "wm_closed w = {c. \<exists>i. (i, c) \<in> W \<and> i \<le> ?d}" using inv unfolding wm_inv_def by blast
  moreover have "woken u' (wm_waiters w) = {c. \<exists>i. ((i, c) \<in> W \<and> ?d < i) \<and> i \<le> u'}"
    unfolding woken_def inW by blast
  ultimately have chans: "wm_closed w \<union> woken u' (wm_waiters w) = {c. \<exists>i. (i, c) \<in> W \<and> i \<le> u'}"
    using mono by (auto intro: order_trans) (meson not_le)
  have pp: "sorted h'" "distinct h'" "set h' = dom p'" "\<forall>i \<in> set h'. u' \<le> i"
    "h' \<noteq> [] \<longrightarrow> 0 < count_of p' (hd h')"
    using P unfolding popped_def by blast+
  have ws': "distinct (map fst (filter (\<lambda>(i, _). u' < i) (wm_waiters w)))"
    "\<forall>(i, cs) \<in> set (filter (\<lambda>(i, _). u' < i) (wm_waiters w)). u' < i"
    using ws(1) by (auto simp: distinct_map_filter)
  have uniq: "open_count (h @ [(j, b)]) u' = 0"
    if "distinct (h @ [(j, b)])" "\<forall>e \<in> set (h @ [(j, b)]). d < fst e"
  proof (cases "u' = ?d")
    case False
    then have "u' \<notin> set h'" using P unfolding popped_def by blast
    then show ?thesis using closed [of u'] pp(3) by (auto simp: domIff split: option.splits)
  next
    case True
    have 0: "open_count h ?d = 0" using inv that unfolding wm_inv_def by simp
    show ?thesis
    proof (cases "j = ?d")
      case False
      then show ?thesis using 0 True by (simp add: open_count_snoc)
    next
      case jd: True
      then have "d < ?d" using that(2) by simp
      then have "?d \<in> fst ` set h" using I(6) by auto
      then obtain x where "(?d, x) \<in> set h" by auto
      then have "(?d, True) \<in> set h \<or> (?d, False) \<in> set h" by (cases x) auto
      then have both: "(?d, True) \<in> set h \<and> (?d, False) \<in> set h"
      proof -
        have mem: "(?d, x) \<in> set h \<longleftrightarrow> 0 < length (filter (\<lambda>e. e = (?d, x)) h)" for x
          by (auto simp: filter_empty_conv)
        assume "(?d, True) \<in> set h \<or> (?d, False) \<in> set h"
        then show ?thesis using 0 unfolding open_count_def mem by linarith
      qed
      then show ?thesis using that(1) jd by (cases b) auto
    qed
  qed
  have "wm_inv d (h @ [(j, b)]) W w'"
    unfolding wm_inv_def w' watermark.simps using uniq pp closed seen sub waits chans ws' by blast
  then show ?thesis using mono w' by simp
qed

lemma disciplined_prefix:
  "disciplined (h @ e # r) \<Longrightarrow> i \<in> insert (fst e) (fst ` set h) \<Longrightarrow> 0 \<le> open_count (h @ [e]) i"
proof -
  assume d: "disciplined (h @ e # r)" and i: "i \<in> insert (fst e) (fst ` set h)"
  have "Suc (length h) \<in> set [0 ..< Suc (length (h @ e # r))]" unfolding set_upt by simp
  then have "\<forall>x \<in> set (h @ e # r). 0 \<le> open_count (take (Suc (length h)) (h @ e # r)) (fst x)"
    using d unfolding disciplined_def by blast
  moreover have "\<exists>x \<in> set (h @ e # r). i = fst x" using i by auto
  moreover have "take (Suc (length h)) (h @ e # r) = h @ [e]" by simp
  ultimately show ?thesis by metis
qed

lemma wm_inv_many:
  "wm_inv d h W w \<Longrightarrow> processMany w is b = Some w' \<Longrightarrow>
    disciplined (h @ map (\<lambda>i. (i, b)) is @ r) \<Longrightarrow>
    wm_inv d (h @ map (\<lambda>i. (i, b)) is) W w' \<and> wm_doneUntil w \<le> wm_doneUntil w'"
proof (induction "is" arbitrary: h w)
  case Nil
  then show ?case by simp
next
  case (Cons i "is")
  from Cons.prems(2) obtain w1 where w1: "processOne w i b = Some w1" "processMany w1 is b = Some w'"
    by (auto simp: bind_eq_Some_conv)
  have dis: "disciplined (h @ (i, b) # map (\<lambda>i. (i, b)) is @ r)" using Cons.prems(3) by simp
  have "wm_inv d (h @ [(i, b)]) W w1 \<and> wm_doneUntil w \<le> wm_doneUntil w1"
    using disciplined_prefix [OF dis] by (intro wm_inv_one [OF Cons.prems(1) w1(1)]) simp
  with Cons.IH [of "h @ [(i, b)]" w1] w1(2) dis show ?case by fastforce
qed

lemma wm_inv_wait:
  assumes inv: "wm_inv d h W w" and m: "mk_waiter m = Some ch" and step: "process_mark w m = Some w'"
  shows "wm_inv d h (insert (mk_index m, ch) W) w' \<and> wm_doneUntil w \<le> wm_doneUntil w'"
proof (cases "mk_index m \<le> wm_doneUntil w")
  case True
  with step m have w': "w' = w\<lparr>wm_closed := insert ch (wm_closed w)\<rparr>" by (simp add: process_mark_def)
  have "wm_closed w = {c. \<exists>i. (i, c) \<in> W \<and> i \<le> wm_doneUntil w}" using inv unfolding wm_inv_def by blast
  then have "insert ch (wm_closed w) = {c. \<exists>i. (i, c) \<in> insert (mk_index m, ch) W \<and> i \<le> wm_doneUntil w}"
    using True by auto
  moreover have "\<forall>i c. (i, c) \<in> insert (mk_index m, ch) W \<and> wm_doneUntil w < i \<longleftrightarrow>
      (\<exists>cs. (i, cs) \<in> set (wm_waiters w) \<and> c \<in> set cs)"
  proof -
    have inW: "(\<exists>cs. (i, cs) \<in> set (wm_waiters w) \<and> c \<in> set cs) \<longleftrightarrow> (i, c) \<in> W \<and> wm_doneUntil w < i" for i c
      using inv unfolding wm_inv_def by blast
    show ?thesis unfolding inW using True by auto
  qed
  moreover have f: "wm_indices w' = wm_indices w" "wm_pending w' = wm_pending w"
    "wm_doneUntil w' = wm_doneUntil w" "wm_waiters w' = wm_waiters w"
    "wm_closed w' = insert ch (wm_closed w)" by (simp_all add: w')
  ultimately show ?thesis using inv unfolding wm_inv_def f by blast
next
  case False
  let ?k = "mk_index m" and ?ws = "wm_waiters w"
  define new where "new = (case map_of ?ws ?k of None \<Rightarrow> [ch] | Some ws \<Rightarrow> ws @ [ch])"
  have w': "w' = w\<lparr>wm_waiters := AList.update ?k new ?ws\<rparr>"
    using step m False by (auto simp: process_mark_def new_def split: option.splits)
  have dis: "distinct (map fst ?ws)" using inv by (simp add: wm_inv_def)
  have dis': "distinct (map fst (AList.update ?k new ?ws))"
    using dis by (rule AList.distinct_update)
  have at: "(i, cs) \<in> set (AList.update ?k new ?ws) \<longleftrightarrow> (if i = ?k then cs = new else (i, cs) \<in> set ?ws)" for i cs
    unfolding map_of_eq_Some_iff [OF dis', symmetric] map_of_eq_Some_iff [OF dis, symmetric]
    by (auto simp: AList.update_conv')
  have mem: "c \<in> set new \<longleftrightarrow> c = ch \<or> (\<exists>cs. (?k, cs) \<in> set ?ws \<and> c \<in> set cs)" for c
    by (cases "map_of ?ws ?k") (auto simp: new_def simp flip: map_of_eq_Some_iff [OF dis])
  have "(i, c) \<in> insert (?k, ch) W \<and> wm_doneUntil w < i \<longleftrightarrow>
      (\<exists>cs. (i, cs) \<in> set (AList.update ?k new ?ws) \<and> c \<in> set cs)" for i c
  proof -
    have "(i, c) \<in> W \<and> wm_doneUntil w < i \<longleftrightarrow> (\<exists>cs. (i, cs) \<in> set ?ws \<and> c \<in> set cs)"
      using inv unfolding wm_inv_def by blast
    with mem [of c] False show ?thesis unfolding at by (cases "i = ?k") auto
  qed
  moreover have "\<forall>(i, cs) \<in> set (AList.update ?k new ?ws). wm_doneUntil w < i"
  proof -
    have "\<forall>(i, cs) \<in> set ?ws. wm_doneUntil w < i" using inv unfolding wm_inv_def by blast
    with False show ?thesis by (auto simp: at split: if_splits)
  qed
  moreover have "wm_closed w = {c. \<exists>i. (i, c) \<in> insert (?k, ch) W \<and> i \<le> wm_doneUntil w}"
  proof -
    have "wm_closed w = {c. \<exists>i. (i, c) \<in> W \<and> i \<le> wm_doneUntil w}"
      using inv unfolding wm_inv_def by blast
    then show ?thesis using False by auto
  qed
  moreover have f: "wm_indices w' = wm_indices w" "wm_pending w' = wm_pending w"
    "wm_doneUntil w' = wm_doneUntil w" "wm_waiters w' = AList.update ?k new ?ws"
    "wm_closed w' = wm_closed w" by (simp_all add: w')
  ultimately have "wm_inv d h (insert (?k, ch) W) w'"
    using inv dis' unfolding wm_inv_def f by blast
  with f(3) show ?thesis by simp
qed

lemma events_of_mark: "mk_waiter m = None \<Longrightarrow> events_of m =
    map (\<lambda>i. (i, mk_done m)) ((if mk_index m > 0 \<or> mk_indices m = [] then [mk_index m] else []) @ mk_indices m)"
  by (simp add: events_of_def)

lemma wm_inv_mark:
  assumes inv: "wm_inv d h W w" and step: "process_mark w m = Some w'"
    and dis: "disciplined (h @ events_of m @ r)"
  shows "wm_inv d (h @ events_of m) (W \<union> set (waits_of m)) w' \<and> wm_doneUntil w \<le> wm_doneUntil w'"
proof (cases "mk_waiter m")
  case (Some ch)
  with wm_inv_wait [OF inv Some step] show ?thesis by (simp add: events_of_def waits_of_def)
next
  case None
  have "processMany w ((if mk_index m > 0 \<or> mk_indices m = [] then [mk_index m] else []) @ mk_indices m)
      (mk_done m) = Some w'"
    using step None by (auto simp: process_mark_def split: if_splits)
  from wm_inv_many [OF inv this] dis None show ?thesis
    by (simp add: events_of_mark waits_of_def)
qed

definition waits :: "mark list \<Rightarrow> (nat \<times> nat) set" where
  "waits ms = set (concat (map waits_of ms))"

lemma wm_inv_process:
  "wm_inv d h W w \<Longrightarrow> process w ms = Some w' \<Longrightarrow> disciplined (h @ history ms @ r) \<Longrightarrow>
    wm_inv d (h @ history ms) (W \<union> waits ms) w' \<and> wm_doneUntil w \<le> wm_doneUntil w'"
proof (induction ms arbitrary: h W w)
  case Nil
  then show ?case by (simp add: history_def waits_def)
next
  case (Cons m ms)
  from Cons.prems(2) obtain w1 where w1: "process_mark w m = Some w1" "process w1 ms = Some w'"
    by (auto simp: bind_eq_Some_conv)
  have dis: "disciplined (h @ events_of m @ history ms @ r)" using Cons.prems(3) by (simp add: history_def)
  from wm_inv_mark [OF Cons.prems(1) w1(1) dis] Cons.IH [of "h @ events_of m" "W \<union> set (waits_of m)" w1] w1(2) dis
  show ?case by (auto simp: history_def waits_def Un_assoc)
qed

lemma process_append: "process w (ms @ ms') = Option.bind (process w ms) (\<lambda>w. process w ms')"
  by (induction ms arbitrary: w) (auto split: Option.bind_split)

section \<open>Properties\<close>

text \<open>
  C12: for marks in which every \<open>Done\<close> follows its \<open>Begin\<close>, an index that is open is
  never below \<open>DoneUntil\<close>; an index above \<open>DoneUntil\<close> has something open at or below it,
  so the watermark is as high as it can be; and it is the initial value or an index that
  was marked. It never moves back.
\<close>

theorem watermark_tracks:
  assumes "process (new_watermark d) ms = Some w0" and "process w0 ms' = Some w"
    and "disciplined (history (ms @ ms'))"
  shows "(\<forall>i. 0 < open_count (history (ms @ ms')) i \<longrightarrow> wm_doneUntil w \<le> i) \<and>
    (\<forall>i \<in> fst ` set (history (ms @ ms')). wm_doneUntil w < i \<longrightarrow>
       (\<exists>j \<le> i. 0 < open_count (history (ms @ ms')) j)) \<and>
    wm_doneUntil w \<in> insert d (fst ` set (history (ms @ ms'))) \<and> wm_doneUntil w0 \<le> wm_doneUntil w"
proof -
  let ?h = "history (ms @ ms')"
  have h: "?h = history ms @ history ms'" by (simp add: history_def)
  have inv0: "wm_inv d (history ms) (waits ms) w0"
    using wm_inv_process [OF wm_inv_new assms(1), of "history ms'"] assms(3) h by simp
  have inv: "wm_inv d ?h (waits ms \<union> waits ms') w" and mono: "wm_doneUntil w0 \<le> wm_doneUntil w"
    using wm_inv_process [OF inv0 assms(2), of "[]"] assms(3) h by simp_all
  have I: "set (wm_indices w) = dom (wm_pending w)" "\<forall>i \<in> set (wm_indices w). wm_doneUntil w \<le> i"
    "wm_indices w \<noteq> [] \<longrightarrow> 0 < count_of (wm_pending w) (hd (wm_indices w))" "sorted (wm_indices w)"
    "\<forall>i \<in> fst ` set ?h. i \<in> set (wm_indices w) \<or> i \<le> wm_doneUntil w"
    "\<forall>i. count_of (wm_pending w) i = open_count ?h i" "wm_doneUntil w \<in> insert d (fst ` set ?h)"
    using inv unfolding wm_inv_def by blast+
  have "wm_doneUntil w \<le> i" if "0 < open_count ?h i" for i
  proof -
    have "0 < count_of (wm_pending w) i" using that I(6) by simp
    then have "i \<in> dom (wm_pending w)" by (auto split: option.splits)
    with I(1,2) show ?thesis by blast
  qed
  moreover have "\<exists>j \<le> i. 0 < open_count ?h j" if "i \<in> fst ` set ?h" "wm_doneUntil w < i" for i
  proof -
    from that I(5) have "i \<in> set (wm_indices w)" by fastforce
    then have "wm_indices w \<noteq> []" "hd (wm_indices w) \<le> i"
      using I(4) by (cases "wm_indices w"; auto)+
    with I(3,6) show ?thesis by metis
  qed
  ultimately show ?thesis using I(7) mono by blast
qed

lemma watermark_tracks_witness:
  "\<exists>w0 w. process (new_watermark 4) [Begin 5, Begin 6, Done 6] = Some w0 \<and>
    process w0 [Begin 7, Done 5] = Some w \<and> wm_doneUntil w0 = 4 \<and> wm_doneUntil w = 6 \<and>
    (\<forall>i. 0 < open_count (history ([Begin 5, Begin 6, Done 6] @ [Begin 7, Done 5])) i \<longrightarrow> wm_doneUntil w \<le> i)"
proof -
  let ?a = "[Begin 5, Begin 6, Done 6]" and ?b = "[Begin 7, Done 5]"
  have "\<exists>w0 w. process (new_watermark 4) ?a = Some w0 \<and> process w0 ?b = Some w \<and>
      wm_doneUntil w0 = 4 \<and> wm_doneUntil w = 6"
    by (simp add: process_mark_def Begin_def Done_def processOne_def new_watermark_def Let_def
        notify_range_def notify_all_def upt_rec)
  moreover have "disciplined (history (?a @ ?b))"
    by code_simp
  ultimately show ?thesis using watermark_tracks by blast
qed

text \<open>
  the channels of the waiters: at any time exactly those are closed that wait for
  an index the watermark has reached, whichever way the notification loop goes.
\<close>

theorem watermark_waiters:
  assumes "process (new_watermark d) ms = Some w" and "disciplined (history ms)"
  shows "wm_closed w = {c. \<exists>i. (i, c) \<in> waits ms \<and> i \<le> wm_doneUntil w}"
proof -
  have "wm_inv d (history ms) (waits ms) w"
    using wm_inv_process [OF wm_inv_new assms(1), of "[]"] assms(2) by simp
  then show ?thesis unfolding wm_inv_def by blast
qed

lemma watermark_waiters_witness:
  "\<exists>w. process (new_watermark 4) [Begin 5, Begin 6, the (WaitForMark (new_watermark 4) 5 0),
      the (WaitForMark (new_watermark 4) 6 1), Done 5] = Some w \<and> wm_closed w = {0}"
proof -
  let ?ms = "[Begin 5, Begin 6, the (WaitForMark (new_watermark 4) 5 0),
      the (WaitForMark (new_watermark 4) 6 1), Done 5]"
  have "\<exists>w. process (new_watermark 4) ?ms = Some w \<and> wm_doneUntil w = 5"
  proof -
    have "map_option wm_doneUntil (process (new_watermark 4) ?ms) = Some 5" by code_simp
    then show ?thesis unfolding map_option_eq_Some by metis
  qed
  then obtain w where w: "process (new_watermark 4) ?ms = Some w" "wm_doneUntil w = 5" by blast
  have "disciplined (history ?ms)" by code_simp
  from watermark_waiters [OF w(1) this]
  have closed: "wm_closed w = {c. \<exists>i. (i, c) \<in> waits ?ms \<and> i \<le> 5}" unfolding w(2) .
  have waits: "waits ?ms = {(5, 0), (6, 1)}"
    by (auto simp: waits_def waits_of_def Begin_def Done_def WaitForMark_def new_watermark_def)
  have "wm_closed w = {0}" unfolding closed waits by auto
  with w(1) show ?thesis by blast
qed

end
