(* ===== verification/Txn.thy ===== *)
theory Txn
  imports Codec Watermark
begin

unbundle bit_operations_syntax

text \<open>
  \<open>txn.go\<close>: the oracle that gives out read and commit timestamps and detects
  conflicts, and transactions: \<open>modify\<close>, \<open>Get\<close>, the iterator over pending writes and
  \<open>commitAndSend\<close>. Also the entries of \<open>structs.go\<close>. Timestamps are natural
  numbers, turned into \<open>uint64\<close>s where they become part of a key. \<open>z.MemHash\<close> of the
  ristretto module is the parameter \<open>op_memhash\<close>, the clock is an argument.
\<close>

section \<open>Entries\<close>

record Entry =
  e_Key :: bytes
  e_Value :: "bytes option"
  e_ExpiresAt :: u64
  e_version :: nat
  e_UserMeta :: byte
  e_meta :: byte
  e_valThreshold :: int

definition bitDelete :: byte where "bitDelete = 1"
definition bitValuePointer :: byte where "bitValuePointer = 2"
definition bitDiscardEarlierVersions :: byte where "bitDiscardEarlierVersions = 4"
definition bitMergeEntry :: byte where "bitMergeEntry = 8"
definition bitTxn :: byte where "bitTxn = 64"
definition bitFinTxn :: byte where "bitFinTxn = 128"

definition entry_isZero :: "Entry \<Rightarrow> bool" where
  "entry_isZero e \<longleftrightarrow> length (e_Key e) = 0"

definition value_len :: "Entry \<Rightarrow> int" where
  "value_len e = int (length (slice_bytes (e_Value e)))"

definition set_threshold :: "Entry \<Rightarrow> int \<Rightarrow> Entry" where
  "set_threshold e threshold = (if e_valThreshold e = 0 then e\<lparr>e_valThreshold := threshold\<rparr> else e)"

definition estimateSizeAndSetThreshold :: "Entry \<Rightarrow> int \<Rightarrow> Entry \<times> int" where
  "estimateSizeAndSetThreshold e threshold =
     (let e1 = set_threshold e threshold; k = int (length (e_Key e1)); v = value_len e1
      in if v < e_valThreshold e1 then (e1, k + v + 2) else (e1, k + 12 + 2))"

definition skipVlogAndSetThreshold :: "Entry \<Rightarrow> int \<Rightarrow> Entry \<times> bool" where
  "skipVlogAndSetThreshold e threshold =
     (let e1 = set_threshold e threshold in (e1, value_len e1 < e_valThreshold e1))"

definition NewEntry :: "bytes \<Rightarrow> bytes option \<Rightarrow> Entry" where
  "NewEntry key val = \<lparr>e_Key = key, e_Value = val, e_ExpiresAt = 0, e_version = 0,
     e_UserMeta = 0, e_meta = 0, e_valThreshold = 0\<rparr>"

definition WithMeta :: "Entry \<Rightarrow> byte \<Rightarrow> Entry" where
  "WithMeta e m = e\<lparr>e_UserMeta := m\<rparr>"

definition WithDiscard :: "Entry \<Rightarrow> Entry" where
  "WithDiscard e = e\<lparr>e_meta := bitDiscardEarlierVersions\<rparr>"

definition withMergeBit :: "Entry \<Rightarrow> Entry" where
  "withMergeBit e = e\<lparr>e_meta := bitMergeEntry\<rparr>"

text \<open>\<open>isDeletedOrExpired\<close>, with the time in seconds.\<close>

definition isDeletedOrExpired :: "nat \<Rightarrow> byte \<Rightarrow> u64 \<Rightarrow> bool" where
  "isDeletedOrExpired now meta expiresAt =
     (if 0 < meta AND bitDelete then True
      else if expiresAt = 0 then False
      else unat expiresAt \<le> now)"

section \<open>Transactions\<close>

record txn_opts =
  op_DetectConflicts :: bool
  op_InMemory :: bool
  op_ReadOnly :: bool
  op_managedTxns :: bool
  op_maxBatchCount :: int
  op_maxBatchSize :: int
  op_ValueLogFileSize :: int
  op_valueThreshold :: int
  op_NamespaceOffset :: int
  op_banned :: "u64 set"
  op_memhash :: "bytes \<Rightarrow> u64"

record Txn =
  tx_readTs :: nat
  tx_commitTs :: nat
  tx_size :: int
  tx_count :: int
  tx_reads :: "u64 list"
  tx_conflictKeys :: "u64 set"
  tx_pendingWrites :: "(bytes \<times> Entry) list"
  tx_duplicateWrites :: "Entry list"
  tx_numIterators :: int
  tx_discarded :: bool
  tx_doneRead :: bool
  tx_update :: bool

datatype txn_error = ErrReadOnlyTxn | ErrDiscardedTxn | ErrEmptyKey | ErrInvalidKey
  | ErrKeyTooLong | ErrValueTooLong | ErrBannedKey | ErrTxnTooBig | ErrKeyNotFound
  | ErrConflict | ErrDiscardedCommit | ErrCommitTsZero | ErrStore

text \<open>The internal prefix \<open>!badger!\<close> and the key \<open>!badger!txn\<close>.\<close>

definition badgerPrefix :: bytes where
  "badgerPrefix = [33, 98, 97, 100, 103, 101, 114, 33]"

definition txnKey :: bytes where
  "txnKey = badgerPrefix @ [116, 120, 110]"

definition maxKeySize :: nat where
  "maxKeySize = 65000"

definition newTransaction :: "txn_opts \<Rightarrow> bool \<Rightarrow> nat \<Rightarrow> Txn" where
  "newTransaction opt update readTs =
     \<lparr>tx_readTs = readTs, tx_commitTs = 0, tx_size = int (length txnKey + 10), tx_count = 1,
      tx_reads = [], tx_conflictKeys = {}, tx_pendingWrites = [], tx_duplicateWrites = [],
      tx_numIterators = 0, tx_discarded = False, tx_doneRead = False,
      tx_update = (update \<and> \<not> op_ReadOnly opt)\<rparr>"

definition isBanned :: "txn_opts \<Rightarrow> bytes \<Rightarrow> bool" where
  "isBanned opt key =
     (if op_NamespaceOffset opt < 0 then False
      else if int (length key) \<le> op_NamespaceOffset opt + 8 then False
      else (case BytesToU64 (drop (nat (op_NamespaceOffset opt)) key) of
          None \<Rightarrow> False | Some ns \<Rightarrow> ns \<in> op_banned opt))"

text \<open>The methods give the error, if any, and the transaction afterwards.\<close>

definition checkSize :: "txn_opts \<Rightarrow> Txn \<Rightarrow> Entry \<Rightarrow> txn_error option \<times> Txn \<times> Entry" where
  "checkSize opt txn e =
     (let count = tx_count txn + 1; (e1, sz) = estimateSizeAndSetThreshold e (op_valueThreshold opt);
          size' = tx_size txn + sz + 10
      in if count \<ge> op_maxBatchCount opt \<or> size' \<ge> op_maxBatchSize opt then (Some ErrTxnTooBig, txn, e1)
         else (None, txn\<lparr>tx_count := count, tx_size := size'\<rparr>, e1))"

text \<open>The end of \<open>modify\<close>: the entry replaces one of another version only after that was
  kept aside.\<close>

definition record_write :: "txn_opts \<Rightarrow> Txn \<Rightarrow> Entry \<Rightarrow> Txn" where
  "record_write opt txn e =
     (let txn1 = (if op_DetectConflicts opt
            then txn\<lparr>tx_conflictKeys := insert (op_memhash opt (e_Key e)) (tx_conflictKeys txn)\<rparr>
            else txn);
          txn2 = (case map_of (tx_pendingWrites txn1) (e_Key e) of
              Some oldEntry \<Rightarrow>
                if e_version oldEntry \<noteq> e_version e
                then txn1\<lparr>tx_duplicateWrites := tx_duplicateWrites txn1 @ [oldEntry]\<rparr> else txn1
            | None \<Rightarrow> txn1)
      in txn2\<lparr>tx_pendingWrites := AList.update (e_Key e) e (tx_pendingWrites txn2)\<rparr>)"

definition modify :: "txn_opts \<Rightarrow> Txn \<Rightarrow> Entry \<Rightarrow> txn_error option \<times> Txn" where
  "modify opt txn e =
     (if \<not> tx_update txn then (Some ErrReadOnlyTxn, txn)
      else if tx_discarded txn then (Some ErrDiscardedTxn, txn)
      else if length (e_Key e) = 0 then (Some ErrEmptyKey, txn)
      else if has_prefix (e_Key e) badgerPrefix then (Some ErrInvalidKey, txn)
      else if length (e_Key e) > maxKeySize then (Some ErrKeyTooLong, txn)
      else if value_len e > op_ValueLogFileSize opt then (Some ErrValueTooLong, txn)
      else if op_InMemory opt \<and> value_len e > op_valueThreshold opt then (Some ErrValueTooLong, txn)
      else if isBanned opt (e_Key e) then (Some ErrBannedKey, txn)
      else case checkSize opt txn e of
        (Some err, txn1, e1) \<Rightarrow> (Some err, txn1)
      | (None, txn1, e1) \<Rightarrow> (None, record_write opt txn1 e1))"

definition SetEntry :: "txn_opts \<Rightarrow> Txn \<Rightarrow> Entry \<Rightarrow> txn_error option \<times> Txn" where
  "SetEntry opt txn e = modify opt txn e"

definition txn_Delete :: "txn_opts \<Rightarrow> Txn \<Rightarrow> bytes \<Rightarrow> txn_error option \<times> Txn" where
  "txn_Delete opt txn key = modify opt txn ((NewEntry key None)\<lparr>e_meta := bitDelete\<rparr>)"

definition addReadKey :: "txn_opts \<Rightarrow> Txn \<Rightarrow> bytes \<Rightarrow> Txn" where
  "addReadKey opt txn key =
     (if tx_update txn then txn\<lparr>tx_reads := tx_reads txn @ [op_memhash opt key]\<rparr> else txn)"

record Item =
  it_key :: bytes
  it_val :: "bytes option"
  it_vptr :: "bytes option"
  it_meta :: byte
  it_userMeta :: byte
  it_version :: nat
  it_expiresAt :: u64
  it_prefetched :: bool

definition own_write :: "Txn \<Rightarrow> bytes \<Rightarrow> Entry option" where
  "own_write txn key = (if tx_update txn then
     (case map_of (tx_pendingWrites txn) key of
        Some e \<Rightarrow> if key = e_Key e then Some e else None | None \<Rightarrow> None) else None)"

text \<open>
  \<open>Get\<close>: the transaction's own write if there is one, and otherwise what the store
  (\<open>db_get\<close>, \<open>None\<close> for its errors) has at the read timestamp. The lookup of a store
  value is recorded for conflict detection before it is made.
\<close>

definition txn_Get :: "txn_opts \<Rightarrow> nat \<Rightarrow> (bytes \<Rightarrow> ValueStruct option) \<Rightarrow> Txn \<Rightarrow> bytes \<Rightarrow>
    (txn_error + Item) \<times> Txn" where
  "txn_Get opt now db_get txn key =
     (if length key = 0 then (Inl ErrEmptyKey, txn)
      else if tx_discarded txn then (Inl ErrDiscardedTxn, txn)
      else if isBanned opt key then (Inl ErrBannedKey, txn)
      else case own_write txn key of
        Some e \<Rightarrow>
          if isDeletedOrExpired now (e_meta e) (e_ExpiresAt e) then (Inl ErrKeyNotFound, txn)
          else (Inr \<lparr>it_key = key, it_val = e_Value e, it_vptr = None, it_meta = e_meta e,
                     it_userMeta = e_UserMeta e, it_version = tx_readTs txn,
                     it_expiresAt = e_ExpiresAt e, it_prefetched = True\<rparr>, txn)
      | None \<Rightarrow>
          let txn1 = addReadKey opt txn key
          in case db_get (KeyWithTs key (word_of_nat (tx_readTs txn1))) of
            None \<Rightarrow> (Inl ErrStore, txn1)
          | Some vs \<Rightarrow>
              if vs_absent vs then (Inl ErrKeyNotFound, txn1)
              else if isDeletedOrExpired now (vs_Meta vs) (vs_ExpiresAt vs) then (Inl ErrKeyNotFound, txn1)
              else (Inr \<lparr>it_key = key, it_val = None, it_vptr = vs_Value vs, it_meta = vs_Meta vs,
                         it_userMeta = vs_UserMeta vs, it_version = unat (vs_Version vs),
                         it_expiresAt = vs_ExpiresAt vs, it_prefetched = False\<rparr>, txn1))"

section \<open>The iterator over pending writes\<close>

record pendingWritesIterator =
  pi_entries :: "Entry list"
  pi_nextIdx :: nat
  pi_readTs :: nat
  pi_reversed :: bool

definition newPendingWritesIterator :: "Txn \<Rightarrow> bool \<Rightarrow> pendingWritesIterator option" where
  "newPendingWritesIterator txn reversed =
     (if \<not> tx_update txn \<or> length (tx_pendingWrites txn) = 0 then None
      else Some \<lparr>pi_entries = go_sort (\<lambda>a b. if \<not> reversed then bytes_compare (e_Key a) (e_Key b) < 0
            else bytes_compare (e_Key a) (e_Key b) > 0) (map snd (tx_pendingWrites txn)),
         pi_nextIdx = 0, pi_readTs = tx_readTs txn, pi_reversed = reversed\<rparr>)"

definition pi_Next :: "pendingWritesIterator \<Rightarrow> pendingWritesIterator" where
  "pi_Next p = p\<lparr>pi_nextIdx := pi_nextIdx p + 1\<rparr>"

definition pi_Rewind :: "pendingWritesIterator \<Rightarrow> pendingWritesIterator" where
  "pi_Rewind p = p\<lparr>pi_nextIdx := 0\<rparr>"

definition pi_Seek :: "pendingWritesIterator \<Rightarrow> bytes \<Rightarrow> pendingWritesIterator" where
  "pi_Seek p key0 = (let key = parse_key key0 in
     p\<lparr>pi_nextIdx := sort_search (length (pi_entries p)) (\<lambda>idx.
         let c = bytes_compare (e_Key (pi_entries p ! idx)) key
         in if \<not> pi_reversed p then c \<ge> 0 else c \<le> 0)\<rparr>)"

definition pi_Valid :: "pendingWritesIterator \<Rightarrow> bool" where
  "pi_Valid p \<longleftrightarrow> pi_nextIdx p < length (pi_entries p)"

text \<open>\<open>Key\<close> and \<open>Value\<close> assert that the iterator is valid.\<close>

definition pi_Key :: "pendingWritesIterator \<Rightarrow> bytes option" where
  "pi_Key p = (if pi_Valid p
     then Some (KeyWithTs (e_Key (pi_entries p ! pi_nextIdx p)) (word_of_nat (pi_readTs p))) else None)"

definition pi_Value :: "pendingWritesIterator \<Rightarrow> ValueStruct option" where
  "pi_Value p = (if pi_Valid p
     then (let e = pi_entries p ! pi_nextIdx p in
       Some \<lparr>vs_Meta = e_meta e, vs_UserMeta = e_UserMeta e, vs_ExpiresAt = e_ExpiresAt e,
             vs_Value = e_Value e, vs_Version = word_of_nat (pi_readTs p)\<rparr>) else None)"

section \<open>The orc\<close>

record committedTxn =
  ct_ts :: nat
  ct_conflictKeys :: "u64 set"

text \<open>
  The two watermarks with the marks sent to them and not yet processed.
\<close>

record orc =
  o_isManaged :: bool
  o_detectConflicts :: bool
  o_nextTxnTs :: nat
  o_txnMark :: watermark
  o_txnQueue :: "mark list"
  o_discardTs :: nat
  o_readMark :: watermark
  o_readQueue :: "mark list"
  o_committedTxns :: "committedTxn list"
  o_lastCleanupTs :: nat

definition newOracle :: "txn_opts \<Rightarrow> orc" where
  "newOracle opt = \<lparr>o_isManaged = op_managedTxns opt, o_detectConflicts = op_DetectConflicts opt,
     o_nextTxnTs = 0, o_txnMark = new_watermark 0, o_txnQueue = [], o_discardTs = 0,
     o_readMark = new_watermark 0, o_readQueue = [], o_committedTxns = [], o_lastCleanupTs = 0\<rparr>"

text \<open>
  \<open>readTs\<close>: under the lock the timestamp is taken and announced; the caller then
  waits until every commit up to it is done (\<open>readTs_ready\<close>).
\<close>

definition readTs :: "orc \<Rightarrow> orc \<times> nat" where
  "readTs o1 = (let r = o_nextTxnTs o1 - 1
     in (o1\<lparr>o_readQueue := o_readQueue o1 @ [Begin r]\<rparr>, r))"

definition readTs_ready :: "orc \<Rightarrow> nat \<Rightarrow> bool" where
  "readTs_ready o1 r \<longleftrightarrow> WaitForMark (o_txnMark o1) r 0 = None"

definition nextTs :: "orc \<Rightarrow> nat" where
  "nextTs o1 = o_nextTxnTs o1"

definition incrementNextTs :: "orc \<Rightarrow> orc" where
  "incrementNextTs o1 = o1\<lparr>o_nextTxnTs := o_nextTxnTs o1 + 1\<rparr>"

definition discardAtOrBelow :: "orc \<Rightarrow> nat" where
  "discardAtOrBelow o1 = (if o_isManaged o1 then o_discardTs o1 else wm_doneUntil (o_readMark o1))"

definition hasConflict :: "orc \<Rightarrow> Txn \<Rightarrow> bool" where
  "hasConflict o1 txn = (if length (tx_reads txn) = 0 then False
     else list_ex (\<lambda>c. if ct_ts c \<le> tx_readTs txn then False
            else list_ex (\<lambda>ro. ro \<in> ct_conflictKeys c) (tx_reads txn)) (o_committedTxns o1))"

text \<open>\<open>cleanupCommittedTransactions\<close>; \<open>None\<close> is its failed assertion.\<close>

definition cleanupCommittedTransactions :: "orc \<Rightarrow> orc option" where
  "cleanupCommittedTransactions o1 =
     (if \<not> o_detectConflicts o1 then Some o1
      else
        let maxReadTs = (if o_isManaged o1 then o_discardTs o1 else wm_doneUntil (o_readMark o1))
        in if maxReadTs < o_lastCleanupTs o1 then None
           else if maxReadTs = o_lastCleanupTs o1 then Some o1
           else Some (o1\<lparr>o_lastCleanupTs := maxReadTs,
             o_committedTxns := filter (\<lambda>c. \<not> ct_ts c \<le> maxReadTs) (o_committedTxns o1)\<rparr>))"

definition setDiscardTs :: "orc \<Rightarrow> nat \<Rightarrow> orc option" where
  "setDiscardTs o1 ts = cleanupCommittedTransactions (o1\<lparr>o_discardTs := ts\<rparr>)"

definition doneRead :: "orc \<Rightarrow> Txn \<Rightarrow> orc \<times> Txn" where
  "doneRead o1 txn =
     (if \<not> tx_doneRead txn
      then (o1\<lparr>o_readQueue := o_readQueue o1 @ [Done (tx_readTs txn)]\<rparr>, txn\<lparr>tx_doneRead := True\<rparr>)
      else (o1, txn))"

definition newCommitTs :: "orc \<Rightarrow> Txn \<Rightarrow> (orc \<times> Txn \<times> nat \<times> bool) option" where
  "newCommitTs o1 txn =
     (if hasConflict o1 txn then Some (o1, txn, 0, True)
      else
        Option.bind
          (if \<not> o_isManaged o1 then
             let (o2, txn2) = doneRead o1 txn in
             Option.bind (cleanupCommittedTransactions o2) (\<lambda>o3.
               let ts = o_nextTxnTs o3
               in Some (o3\<lparr>o_nextTxnTs := o_nextTxnTs o3 + 1,
                          o_txnQueue := o_txnQueue o3 @ [Begin ts]\<rparr>, txn2, ts))
           else Some (o1, txn, tx_commitTs txn))
          (\<lambda>(o4, txn4, ts).
             if \<not> o_lastCleanupTs o4 \<le> ts then None
             else Some (if o_detectConflicts o4
               then o4\<lparr>o_committedTxns := o_committedTxns o4 @
                      [\<lparr>ct_ts = ts, ct_conflictKeys = tx_conflictKeys txn4\<rparr>]\<rparr>
               else o4, txn4, ts, False)))"

definition doneCommit :: "orc \<Rightarrow> nat \<Rightarrow> orc" where
  "doneCommit o1 cts = (if o_isManaged o1 then o1
     else o1\<lparr>o_txnQueue := o_txnQueue o1 @ [Done cts]\<rparr>)"

text \<open>\<open>Discard\<close>; \<open>None\<close> is the panic about an iterator that is still open.\<close>

definition Discard :: "orc \<Rightarrow> Txn \<Rightarrow> (orc \<times> Txn) option" where
  "Discard o1 txn =
     (if tx_discarded txn then Some (o1, txn)
      else if tx_numIterators txn > 0 then None
      else let txn1 = txn\<lparr>tx_discarded := True\<rparr>
        in Some (if \<not> o_isManaged o1 then doneRead o1 txn1 else (o1, txn1)))"

section \<open>Committing\<close>

text \<open>\<open>strconv.FormatUint(n, 10)\<close>.\<close>

fun format_uint :: "nat \<Rightarrow> bytes" where
  "format_uint n = (if n < 10 then [word_of_nat (48 + n)]
     else format_uint (n div 10) @ [word_of_nat (48 + n mod 10)])"

declare format_uint.simps [simp del]

definition setVersion :: "nat \<Rightarrow> Entry \<Rightarrow> Entry" where
  "setVersion commitTs e = (if e_version e = 0 then e\<lparr>e_version := commitTs\<rparr> else e)"

definition processEntry :: "bool \<Rightarrow> Entry \<Rightarrow> Entry" where
  "processEntry keepTogether e =
     (let e1 = e\<lparr>e_Key := KeyWithTs (e_Key e) (word_of_nat (e_version e))\<rparr>
      in if keepTogether then e1\<lparr>e_meta := e_meta e1 OR bitTxn\<rparr> else e1)"

definition fin_entry :: "nat \<Rightarrow> Entry" where
  "fin_entry commitTs = \<lparr>e_Key = KeyWithTs txnKey (word_of_nat commitTs),
     e_Value = Some (format_uint commitTs), e_ExpiresAt = 0, e_version = 0, e_UserMeta = 0,
     e_meta = bitFinTxn, e_valThreshold = 0\<rparr>"

text \<open>The entries sent to the write channel; \<open>None\<close> is the assertion that a batch to be
  kept together has a commit timestamp.\<close>

definition commit_entries :: "Txn \<Rightarrow> nat \<Rightarrow> Entry list option" where
  "commit_entries txn commitTs =
     (let es = map snd (tx_pendingWrites txn) @ tx_duplicateWrites txn;
          keepTogether = list_all (\<lambda>e. e_version e = 0) es;
          entries = map (\<lambda>e. processEntry keepTogether (setVersion commitTs e)) es
      in if keepTogether then (if commitTs = 0 then None else Some (entries @ [fin_entry commitTs]))
         else Some entries)"

text \<open>
  \<open>commitAndSend\<close> up to \<open>sendToWriteCh\<close>, whose failure (\<open>sent = False\<close>) ends the commit at
  once; otherwise \<open>doneCommit\<close> follows when the request is done.
\<close>

definition commitAndSend :: "bool \<Rightarrow> orc \<Rightarrow> Txn \<Rightarrow> (orc \<times> Txn \<times> (txn_error + nat \<times> Entry list)) option" where
  "commitAndSend sent o1 txn =
     Option.bind (newCommitTs o1 txn) (\<lambda>(o2, txn2, commitTs, conflict).
       if conflict then Some (o2, txn2, Inl ErrConflict)
       else Option.bind (commit_entries txn2 commitTs) (\<lambda>entries.
         if \<not> sent then Some (doneCommit o2 commitTs, txn2, Inl ErrStore)
         else Some (o2, txn2, Inr (commitTs, entries))))"

definition commitPrecheck :: "txn_opts \<Rightarrow> Txn \<Rightarrow> txn_error option" where
  "commitPrecheck opt txn =
     (if tx_discarded txn then Some ErrDiscardedCommit
      else
        let keepTogether = list_all (\<lambda>e. e_version e = 0) (map snd (tx_pendingWrites txn))
        in if keepTogether \<and> op_managedTxns opt \<and> tx_commitTs txn = 0 then Some ErrCommitTsZero
           else None)"

text \<open>
  \<open>Commit\<close> up to the wait for the request: nothing to write only discards; a failed
  precheck returns without discarding; the rest discards at the end.
\<close>

definition Commit :: "txn_opts \<Rightarrow> bool \<Rightarrow> orc \<Rightarrow> Txn \<Rightarrow>
    (orc \<times> Txn \<times> (txn_error + (nat \<times> Entry list) option)) option" where
  "Commit opt sent o1 txn =
     (if length (tx_pendingWrites txn) = 0 then
        map_option (\<lambda>(o2, txn2). (o2, txn2, Inr None)) (Discard o1 txn)
      else case commitPrecheck opt txn of
        Some e \<Rightarrow> Some (o1, txn, Inl e)
      | None \<Rightarrow>
          Option.bind (commitAndSend sent o1 txn) (\<lambda>(o2, txn2, res).
            Option.bind (Discard o2 txn2) (\<lambda>(o3, txn3).
              Some (o3, txn3, map_sum (\<lambda>e. e) Some res))))"

definition CommitAt :: "txn_opts \<Rightarrow> bool \<Rightarrow> orc \<Rightarrow> Txn \<Rightarrow> nat \<Rightarrow>
    (orc \<times> Txn \<times> (txn_error + (nat \<times> Entry list) option)) option" where
  "CommitAt opt sent o1 txn commitTs = (if \<not> op_managedTxns opt then None
     else Commit opt sent o1 (txn\<lparr>tx_commitTs := commitTs\<rparr>))"

section \<open>Own writes\<close>

text \<open>
  What every operation keeps: pending writes are filed under their own keys, once each,
  and with conflict detection their fingerprints are among the conflict keys.
\<close>

definition txn_wf :: "txn_opts \<Rightarrow> Txn \<Rightarrow> bool" where
  "txn_wf opt t \<longleftrightarrow> distinct (map fst (tx_pendingWrites t)) \<and>
     (\<forall>(k, e) \<in> set (tx_pendingWrites t). e_Key e = k \<and> k \<noteq> [] \<and> \<not> has_prefix k badgerPrefix \<and>
        (op_DetectConflicts opt \<longrightarrow> op_memhash opt k \<in> tx_conflictKeys t))"

lemma txn_wf_new [simp, go_intros]: "txn_wf opt (newTransaction opt upd r)"
  by (simp add: txn_wf_def newTransaction_def)

lemma txn_wf_addReadKey [go_intros]: "txn_wf opt t \<Longrightarrow> txn_wf opt (addReadKey opt t k)"
  by (simp add: txn_wf_def addReadKey_def)

lemma set_update: "distinct (map fst xs) \<Longrightarrow>
    set (AList.update k v xs) = insert (k, v) {(i, x). (i, x) \<in> set xs \<and> i \<noteq> k}"
  by (induction xs) (auto simp: image_iff)

lemma checkSize_entry: "checkSize opt t e = (r, t', e') \<Longrightarrow> e_Key e' = e_Key e \<and> e_Value e' = e_Value e \<and>
    e_meta e' = e_meta e \<and> e_UserMeta e' = e_UserMeta e \<and> e_ExpiresAt e' = e_ExpiresAt e \<and> e_version e' = e_version e \<and>
    tx_pendingWrites t' = tx_pendingWrites t \<and> tx_conflictKeys t' = tx_conflictKeys t \<and>
    tx_reads t' = tx_reads t \<and> tx_update t' = tx_update t \<and> tx_discarded t' = tx_discarded t"
  by (auto simp: checkSize_def estimateSizeAndSetThreshold_def set_threshold_def Let_def split: if_splits prod.splits)

lemma modify_ok:
  assumes "modify opt t e = (None, t')"
  shows "tx_update t \<and> \<not> tx_discarded t \<and> e_Key e \<noteq> [] \<and> \<not> has_prefix (e_Key e) badgerPrefix \<and>
    \<not> isBanned opt (e_Key e) \<and> tx_update t' \<and> \<not> tx_discarded t' \<and> tx_readTs t' = tx_readTs t \<and> tx_reads t' = tx_reads t \<and>
    (\<exists>e'. e_Key e' = e_Key e \<and> e_Value e' = e_Value e \<and> e_meta e' = e_meta e \<and>
       e_UserMeta e' = e_UserMeta e \<and> e_ExpiresAt e' = e_ExpiresAt e \<and>
       tx_pendingWrites t' = AList.update (e_Key e) e' (tx_pendingWrites t)) \<and>
    tx_conflictKeys t' = (if op_DetectConflicts opt then insert (op_memhash opt (e_Key e)) (tx_conflictKeys t)
      else tx_conflictKeys t)"
proof -
  obtain r t1 e1 where c: "checkSize opt t e = (r, t1, e1)" by (metis prod_cases3)
  then have rt: "tx_readTs t1 = tx_readTs t"
    by (auto simp: checkSize_def Let_def split: if_splits prod.splits)
  have G: "tx_update t" "\<not> tx_discarded t" "e_Key e \<noteq> []" "\<not> has_prefix (e_Key e) badgerPrefix"
    "\<not> isBanned opt (e_Key e)" "r = None"
    using assms unfolding modify_def c by (simp_all split: if_split_asm option.split_asm)
  then have t': "t' = record_write opt t1 e1" using assms unfolding modify_def c
    by (simp split: if_split_asm)
  have R: "tx_pendingWrites t' = AList.update (e_Key e1) e1 (tx_pendingWrites t1)"
    "tx_conflictKeys t' = (if op_DetectConflicts opt
       then insert (op_memhash opt (e_Key e1)) (tx_conflictKeys t1) else tx_conflictKeys t1)"
    "tx_update t' = tx_update t1" "tx_discarded t' = tx_discarded t1" "tx_readTs t' = tx_readTs t1"
    "tx_reads t' = tx_reads t1"
    unfolding t' record_write_def Let_def by (simp_all split: option.split)
  show ?thesis using checkSize_entry [OF c] rt G unfolding R by auto
qed

lemma txn_wf_modify [go_intros]:
  assumes "txn_wf opt t" "modify opt t e = (err, t')"
  shows "txn_wf opt t'"
proof (cases err)
  case None
  then obtain e' where e': "e_Key e' = e_Key e" "tx_pendingWrites t' = AList.update (e_Key e) e' (tx_pendingWrites t)"
    "e_Key e \<noteq> []" "\<not> has_prefix (e_Key e) badgerPrefix"
    "tx_conflictKeys t' = (if op_DetectConflicts opt then insert (op_memhash opt (e_Key e)) (tx_conflictKeys t)
      else tx_conflictKeys t)" using modify_ok [of opt t e t'] assms(2) by auto
  have "distinct (map fst (tx_pendingWrites t'))"
    unfolding e'(2) using assms(1) by (intro AList.distinct_update) (simp add: txn_wf_def)
  then show ?thesis using assms(1) e' by (auto simp: txn_wf_def set_update)
next
  case (Some er)
  have "tx_pendingWrites t' = tx_pendingWrites t \<and> tx_conflictKeys t' = tx_conflictKeys t"
  proof -
    obtain r t1 e1 where c: "checkSize opt t e = (r, t1, e1)" by (metis prod_cases3)
    from assms(2) Some checkSize_entry [OF c] show ?thesis
      unfolding modify_def c by (auto simp: Let_def split: if_split_asm option.split_asm)
  qed
  with assms(1) show ?thesis by (simp add: txn_wf_def)
qed

text \<open>
  C27: a transaction reads its own writes. After a successful \<open>modify\<close>, \<open>Get\<close> of its key
  gives the entry written (or \<open>ErrKeyNotFound\<close> when that is a deletion or has expired),
  without asking the store and without recording a read; lookups of other keys are not
  affected, and the key's fingerprint is among the conflict keys.
\<close>

theorem read_own_write:
  assumes "txn_wf opt t" and "modify opt t e = (None, t')"
  shows "txn_Get opt now db_get t' (e_Key e) =
      (if isDeletedOrExpired now (e_meta e) (e_ExpiresAt e) then Inl ErrKeyNotFound
       else Inr \<lparr>it_key = e_Key e, it_val = e_Value e, it_vptr = None, it_meta = e_meta e,
          it_userMeta = e_UserMeta e, it_version = tx_readTs t, it_expiresAt = e_ExpiresAt e,
          it_prefetched = True\<rparr>, t') \<and>
    (\<forall>k. k \<noteq> e_Key e \<longrightarrow> own_write t' k = own_write t k) \<and>
    (op_DetectConflicts opt \<longrightarrow> op_memhash opt (e_Key e) \<in> tx_conflictKeys t') \<and> txn_wf opt t'"
proof -
  from modify_ok [OF assms(2)] obtain e' where
    e': "e_Key e' = e_Key e" "e_Value e' = e_Value e" "e_meta e' = e_meta e"
       "e_UserMeta e' = e_UserMeta e" "e_ExpiresAt e' = e_ExpiresAt e"
       "tx_pendingWrites t' = AList.update (e_Key e) e' (tx_pendingWrites t)"
    and m: "tx_update t" "\<not> tx_discarded t'" "e_Key e \<noteq> []" "\<not> isBanned opt (e_Key e)" "tx_update t'"
       "tx_readTs t' = tx_readTs t"
       "op_DetectConflicts opt \<longrightarrow> op_memhash opt (e_Key e) \<in> tx_conflictKeys t'" by auto
  have "own_write t' (e_Key e) = Some e'" using e' m by (simp add: own_write_def AList.update_conv')
  moreover have "own_write t' k = own_write t k" if "k \<noteq> e_Key e" for k
    using that e' m by (simp add: own_write_def AList.update_conv')
  ultimately show ?thesis
    using e' m txn_wf_modify [OF assms] by (simp add: txn_Get_def)
qed

definition small_opts :: txn_opts where
  "small_opts = \<lparr>op_DetectConflicts = True, op_InMemory = False, op_ReadOnly = False,
     op_managedTxns = False, op_maxBatchCount = 1000, op_maxBatchSize = 100000,
     op_ValueLogFileSize = 1048576, op_valueThreshold = 1024, op_NamespaceOffset = -1,
     op_banned = {}, op_memhash = (\<lambda>k. word_of_nat (be_get k))\<rparr>"

lemmas modify_eval = modify_def record_write_def NewEntry_def checkSize_def estimateSizeAndSetThreshold_def
  set_threshold_def value_len_def has_prefix_def badgerPrefix_def txnKey_def maxKeySize_def
  isBanned_def newTransaction_def Let_def

definition small_txn :: Txn where
  "small_txn = snd (modify small_opts (newTransaction small_opts True 5) (NewEntry [3] (Some [7])))"

lemma small_txn: "modify small_opts (newTransaction small_opts True 5) (NewEntry [3] (Some [7])) = (None, small_txn)"
  by (simp add: small_txn_def modify_eval small_opts_def)

lemma read_own_write_witness:
  "fst (txn_Get small_opts 0 (\<lambda>_. None) small_txn [3]) = Inr \<lparr>it_key = [3], it_val = Some [7],
     it_vptr = None, it_meta = 0, it_userMeta = 0, it_version = 5, it_expiresAt = 0, it_prefetched = True\<rparr>"
  using read_own_write [OF txn_wf_new small_txn, of 0 "\<lambda>_. None"]
  by (simp add: NewEntry_def isDeletedOrExpired_def bitDelete_def newTransaction_def)

lemma pending_iterator_ok:
  assumes "txn_wf opt t" and "newPendingWritesIterator t reversed = Some p"
  shows "mset (pi_entries p) = mset (map snd (tx_pendingWrites t)) \<and>
    sorted_wrt (\<lambda>a b. if reversed then e_Key b < e_Key a else e_Key a < e_Key b) (pi_entries p) \<and>
    (let q = pi_Seek p k; before = (\<lambda>e. if reversed then parse_key k < e_Key e else e_Key e < parse_key k)
     in (\<forall>i < pi_nextIdx q. before (pi_entries p ! i)) \<and>
        (\<forall>i. pi_nextIdx q \<le> i \<longrightarrow> i < length (pi_entries p) \<longrightarrow> \<not> before (pi_entries p ! i)))"
proof -
  define lt where "lt = (\<lambda>(a :: Entry) (b :: Entry). if \<not> reversed then bytes_compare (e_Key a) (e_Key b) < 0
            else bytes_compare (e_Key a) (e_Key b) > 0)"
  define es where "es = go_sort lt (map snd (tx_pendingWrites t))"
  have p: "p = \<lparr>pi_entries = es, pi_nextIdx = 0, pi_readTs = tx_readTs t, pi_reversed = reversed\<rparr>"
    using assms(2) unfolding newPendingWritesIterator_def es_def lt_def
    by (metis (no_types, lifting) option.distinct(1) option.inject)
  have lt: "lt = (\<lambda>a b. if reversed then e_Key b < e_Key a else e_Key a < e_Key b)"
    by (auto simp: lt_def fun_eq_iff)
  have sw: "strict_weak lt" unfolding lt by (cases reversed) simp_all
  have ms: "mset es = mset (map snd (tx_pendingWrites t))" unfolding es_def by (rule gs.perm)
  have keys: "map e_Key (map snd (tx_pendingWrites t)) = map fst (tx_pendingWrites t)"
    using assms(1) by (auto simp: txn_wf_def)
  have "distinct (map e_Key (map snd (tx_pendingWrites t)))"
    unfolding keys using assms(1) by (simp add: txn_wf_def)
  then have dis: "distinct (map e_Key es)" using ms by (metis mset_eq_imp_distinct_iff mset_map)
  have "sorted_wrt (\<lambda>a b. \<not> lt b a) es"
    using gs.ordered [OF sw] unfolding es_def in_order_def .
  then have srt: "sorted_wrt lt es"
    using dis unfolding sorted_wrt_iff_nth_less lt
    by (auto simp: distinct_conv_nth not_less order_le_less) 
  define f where "f = (\<lambda>idx. let c = bytes_compare (e_Key (es ! idx)) (parse_key k)
         in if \<not> reversed then c \<ge> 0 else c \<le> 0)"
  have f: "f i \<longleftrightarrow> \<not> (if reversed then parse_key k < e_Key (es ! i) else e_Key (es ! i) < parse_key k)" for i
    by (auto simp: f_def Let_def)
  have up: "upward (length es) f"
  proof (rule upwardI)
    fix i j assume "i \<le> j" "j < length es" "f i"
    show "f j"
    proof (cases "i = j")
      case True
      with \<open>f i\<close> show ?thesis by simp
    next
      case False
      then have "lt (es ! i) (es ! j)"
        using srt \<open>i \<le> j\<close> \<open>j < length es\<close> by (simp add: sorted_wrt_iff_nth_less)
      with \<open>f i\<close> show ?thesis unfolding f lt by (auto split: if_splits)
    qed
  qed
  have idx: "pi_nextIdx (pi_Seek p k) = sort_search (length es) f"
    by (simp add: pi_Seek_def p f_def Let_def)
  have A: "if reversed then parse_key k < e_Key (es ! i) else e_Key (es ! i) < parse_key k"
    if "i < pi_nextIdx (pi_Seek p k)" for i
    using sort_search_before [OF up] that unfolding idx f by blast
  have B: "\<not> (if reversed then parse_key k < e_Key (es ! i) else e_Key (es ! i) < parse_key k)"
    if "pi_nextIdx (pi_Seek p k) \<le> i" "i < length es" for i
    using sort_search_from [OF up] that unfolding idx f by blast
  have es: "pi_entries p = es" by (simp add: p)
  show ?thesis unfolding es Let_def using ms srt [unfolded lt] A B by blast
qed

text \<open>
  the iterator over pending writes has every written key once, in the order of the
  iteration, and \<open>Seek\<close> stops at the first key at or behind the one sought.
\<close>

theorem pending_iterator:
  assumes "txn_wf opt t" and "newPendingWritesIterator t reversed = Some p"
  shows "mset (pi_entries p) = mset (map snd (tx_pendingWrites t)) \<and>
    sorted_wrt (\<lambda>a b. if reversed then e_Key b < e_Key a else e_Key a < e_Key b) (pi_entries p) \<and>
    (let q = pi_Seek p k; before = (\<lambda>e. if reversed then parse_key k < e_Key e else e_Key e < parse_key k)
     in (\<forall>i < pi_nextIdx q. before (pi_entries p ! i)) \<and>
        (\<forall>i. pi_nextIdx q \<le> i \<longrightarrow> i < length (pi_entries p) \<longrightarrow> \<not> before (pi_entries p ! i)))"
  by (rule pending_iterator_ok [OF assms])

lemma pending_iterator_witness:
  "\<exists>p. newPendingWritesIterator small_txn False = Some p \<and>
    (\<forall>i. pi_nextIdx (pi_Seek p (KeyWithTs [2] 5)) \<le> i \<longrightarrow> i < length (pi_entries p) \<longrightarrow>
       \<not> e_Key (pi_entries p ! i) < [2])"
proof -
  have "tx_update small_txn" "tx_pendingWrites small_txn \<noteq> []"
    by (simp_all add: small_txn_def modify_eval small_opts_def)
  then obtain p where p: "newPendingWritesIterator small_txn False = Some p"
    by (simp add: newPendingWritesIterator_def)
  have "txn_wf small_opts small_txn" using txn_wf_modify [OF txn_wf_new small_txn] .
  from pending_iterator [OF this p, of "KeyWithTs [2] 5"] p show ?thesis by (simp add: Let_def)
qed
end
