(* ===== verification/Iterators.thy ===== *)
theory Iterators
  imports Txn "HOL-Library.While_Combinator"
begin

text \<open>
  \<open>y.Iterator\<close> (\<open>y/iterator.go\<close>) as an interface, and the merge iterator of
  \<open>table/merge_iterator.go\<close> over a tree of iterators. The iterators at the leaves are given by
  the entries they run through, in their direction; the merge iterator's laws are
  those of the interface again, so merge iterators nest.
\<close>

section \<open>The interface\<close>

type_synonym entries = "(bytes \<times> ValueStruct) list"

text \<open>
  What a client of an iterator relies on: \<open>items\<close> are the entries from the current
  position on.
\<close>

locale iterator =
  fixes valid :: "'i \<Rightarrow> bool" and key :: "'i \<Rightarrow> bytes" and val :: "'i \<Rightarrow> ValueStruct"
    and nxt :: "'i \<Rightarrow> 'i" and items :: "'i \<Rightarrow> entries" and ok :: "'i \<Rightarrow> bool"
  assumes valid_items: "ok i \<Longrightarrow> valid i \<longleftrightarrow> items i \<noteq> []"
    and key_hd: "ok i \<Longrightarrow> valid i \<Longrightarrow> (key i, val i) = hd (items i)"
    and ok_nxt: "ok i \<Longrightarrow> valid i \<Longrightarrow> ok (nxt i)"
    and items_nxt: "ok i \<Longrightarrow> valid i \<Longrightarrow> items (nxt i) = tl (items i)"
begin

text \<open>The loop \<open>for it.Valid() { ... it.Next() }\<close>, with a bound on its rounds.\<close>

fun drain :: "nat \<Rightarrow> 'i \<Rightarrow> entries" where
  "drain 0 i = []"
| "drain (Suc n) i = (if valid i then (key i, val i) # drain n (nxt i) else [])"

lemma drain_take: "ok i \<Longrightarrow> drain n i = take n (items i)"
proof (induction n arbitrary: i)
  case 0
  then show ?case by simp
next
  case (Suc n)
  show ?case
  proof (cases "valid i")
    case True
    then have "items i = (key i, val i) # items (nxt i)"
      using Suc.prems valid_items key_hd items_nxt by (metis list.collapse)
    with Suc True ok_nxt show ?thesis by simp
  next
    case False
    with Suc.prems valid_items show ?thesis by simp
  qed
qed

lemma drain_all: "ok i \<Longrightarrow> length (items i) \<le> n \<Longrightarrow> drain n i = items i"
  by (simp add: drain_take)

end

section \<open>Merge iterators\<close>

datatype 'i node = Node (n_valid: bool) (n_key: bytes) (n_iter: 'i)

text \<open>
  A leaf holds its entries and the position; a merge iterator its two nodes, whether
  \<open>small\<close> points to the left one, \<open>curKey\<close> and the direction.
\<close>

datatype iter =
  Leaf entries nat
| Merge "iter node" "iter node" bool bytes bool

fun small :: "iter node \<Rightarrow> iter node \<Rightarrow> bool \<Rightarrow> iter node" where
  "small l r s = (if s then l else r)"

fun mi_Valid :: "iter \<Rightarrow> bool" where
  "mi_Valid (Leaf xs p) \<longleftrightarrow> p < length xs"
| "mi_Valid (Merge l r s c rv) \<longleftrightarrow> n_valid (small l r s)"

fun mi_Key :: "iter \<Rightarrow> bytes" where
  "mi_Key (Leaf xs p) = fst (xs ! p)"
| "mi_Key (Merge l r s c rv) = n_key (small l r s)"

fun mi_Value :: "iter \<Rightarrow> ValueStruct" where
  "mi_Value (Leaf xs p) = snd (xs ! p)"
| "mi_Value (Merge (Node lv lk l) (Node rv rk r) s c d) = (if s then mi_Value l else mi_Value r)"

text \<open>\<open>setKey\<close> has one case for each kind of iterator; all do this.\<close>

definition setKey :: "iter node \<Rightarrow> iter node" where
  "setKey n = (let v = mi_Valid (n_iter n)
     in Node v (if v then mi_Key (n_iter n) else n_key n) (n_iter n))"

definition node_next :: "(iter \<Rightarrow> iter) \<Rightarrow> iter node \<Rightarrow> iter node" where
  "node_next nx n = setKey (Node (n_valid n) (n_key n) (nx (n_iter n)))"

text \<open>\<open>fix\<close>, with the \<open>Next\<close> of the iterators below as \<open>nx\<close>; \<open>swapSmall\<close> negates the flag.\<close>

fun mi_fix :: "(iter \<Rightarrow> iter) \<Rightarrow> iter \<Rightarrow> iter" where
  "mi_fix nx (Leaf xs p) = Leaf xs p"
| "mi_fix nx (Merge l r s c rv) =
     (let sm = small l r s; bg = small l r (\<not> s)
      in if \<not> n_valid bg then Merge l r s c rv
         else if \<not> n_valid sm then Merge l r (\<not> s) c rv
         else
           let c0 = cmp_keys (n_key sm) (n_key bg)
           in if c0 = 0 then
                (let r' = node_next nx r in Merge l r' (if \<not> s then \<not> s else s) c rv)
              else if c0 < 0 then (if rv then Merge l r (\<not> s) c rv else Merge l r s c rv)
              else (if rv then Merge l r s c rv else Merge l r (\<not> s) c rv))"

fun setCurrent :: "iter \<Rightarrow> iter" where
  "setCurrent (Leaf xs p) = Leaf xs p"
| "setCurrent (Merge l r s c rv) = Merge l r s (n_key (small l r s)) rv"

fun small_next :: "(iter \<Rightarrow> iter) \<Rightarrow> iter \<Rightarrow> iter" where
  "small_next nx (Leaf xs p) = Leaf xs p"
| "small_next nx (Merge l r s c rv) =
     (if s then Merge (node_next nx l) r s c rv else Merge l (node_next nx r) s c rv)"

fun curKey :: "iter \<Rightarrow> bytes" where
  "curKey (Leaf xs p) = []"
| "curKey (Merge l r s c rv) = c"

text \<open>\<open>Next\<close> of a merge iterator: skip everything with the current key.\<close>

definition mi_Next :: "(iter \<Rightarrow> iter) \<Rightarrow> iter \<Rightarrow> iter" where
  "mi_Next nx m = setCurrent (while (\<lambda>m. mi_Valid m \<and> mi_Key m = curKey m)
     (\<lambda>m. mi_fix nx (small_next nx m)) m)"

text \<open>Calls go down the tree, whose height bounds them.\<close>

fun height :: "iter \<Rightarrow> nat" where
  "height (Leaf xs p) = 0"
| "height (Merge (Node lv lk l) (Node rv rk r) s c d) = Suc (max (height l) (height r))"

fun next_at :: "nat \<Rightarrow> iter \<Rightarrow> iter" where
  "next_at h (Leaf xs p) = Leaf xs (p + 1)"
| "next_at 0 (Merge l r s c d) = Merge l r s c d"
| "next_at (Suc h) (Merge l r s c d) = mi_Next (next_at h) (Merge l r s c d)"

definition iter_Next :: "iter \<Rightarrow> iter" where
  "iter_Next m = next_at (height m) m"

fun iter_Rewind :: "iter \<Rightarrow> iter" where
  "iter_Rewind (Leaf xs p) = Leaf xs 0"
| "iter_Rewind (Merge (Node lv lk l) (Node rv rk r) s c d) =
     setCurrent (mi_fix iter_Next (Merge (setKey (Node lv lk (iter_Rewind l)))
       (setKey (Node rv rk (iter_Rewind r))) s c d))"

text \<open>A leaf stands at the first entry at or behind the key in its direction.\<close>

definition before :: "bool \<Rightarrow> bytes \<Rightarrow> bytes \<Rightarrow> bool" where
  "before d a b = (if d then key_less b a else key_less a b)"

fun iter_Seek :: "bool \<Rightarrow> bytes \<Rightarrow> iter \<Rightarrow> iter" where
  "iter_Seek d k (Leaf xs p) = Leaf xs (length (takeWhile (\<lambda>e. before d (fst e) k) xs))"
| "iter_Seek d0 k (Merge (Node lv lk l) (Node rv rk r) s c d) =
     setCurrent (mi_fix iter_Next (Merge (setKey (Node lv lk (iter_Seek d0 k l)))
       (setKey (Node rv rk (iter_Seek d0 k r))) s c d))"

definition merge_two :: "iter \<Rightarrow> iter \<Rightarrow> bool \<Rightarrow> iter" where
  "merge_two a b reversed = Merge (Node False [] a) (Node False [] b) True [] reversed"

text \<open>\<open>NewMergeIterator\<close>: \<open>None\<close> for nil; more than two are split in the middle.\<close>

function NewMergeIterator :: "iter list \<Rightarrow> bool \<Rightarrow> iter option" where
  "NewMergeIterator iters reversed =
     (case iters of
        [] \<Rightarrow> None
      | [i] \<Rightarrow> Some i
      | [i, j] \<Rightarrow> Some (merge_two i j reversed)
      | _ \<Rightarrow>
          let mid = length iters div 2
          in case (NewMergeIterator (take mid iters) reversed, NewMergeIterator (drop mid iters) reversed) of
               (Some i, Some j) \<Rightarrow> Some (merge_two i j reversed)
             | _ \<Rightarrow> None)"
  by pat_completeness auto
termination
  by (relation "measure (\<lambda>(iters, _). length iters)") auto

declare NewMergeIterator.simps [simp del]

section \<open>What a merge iterator runs through\<close>

text \<open>The merge of two sorted lists; of two entries with one key the left one is kept.\<close>

fun merge2 :: "bool \<Rightarrow> entries \<Rightarrow> entries \<Rightarrow> entries" where
  "merge2 d [] ys = ys"
| "merge2 d xs [] = xs"
| "merge2 d (x # xs) (y # ys) =
     (if fst x = fst y then x # merge2 d xs ys
      else if before d (fst x) (fst y) then x # merge2 d xs (y # ys)
      else y # merge2 d (x # xs) ys)"

abbreviation in_dir :: "bool \<Rightarrow> entries \<Rightarrow> bool" where
  "in_dir d \<equiv> sorted_wrt (\<lambda>a b. before d (fst a) (fst b))"

lemma before_irrefl [simp]: "\<not> before d a a"
  by (simp add: before_def)

lemma before_trans: "before d a b \<Longrightarrow> before d b c \<Longrightarrow> before d a c"
  by (auto simp: before_def intro: key_less_trans split: if_splits)

lemma before_linear: "before d a b \<or> a = b \<or> before d b a"
  using key_less_linear by (auto simp: before_def)

lemma before_asym: "before d a b \<Longrightarrow> \<not> before d b a"
  using before_trans before_irrefl by blast

lemma merge2_Nil2 [simp]: "merge2 d xs [] = xs"
  by (cases xs) auto

lemma set_merge2: "set (merge2 d xs ys) \<subseteq> set xs \<union> set ys"
  by (induction d xs ys rule: merge2.induct) auto

lemma merge2_eq_Nil [simp]: "merge2 d xs ys = [] \<longleftrightarrow> xs = [] \<and> ys = []"
  by (cases xs; cases ys) auto

lemma in_dir_merge2: "in_dir d xs \<Longrightarrow> in_dir d ys \<Longrightarrow> in_dir d (merge2 d xs ys)"
proof (induction d xs ys rule: merge2.induct)
  case (3 d x xs y ys)
  have mem: "e \<in> set (merge2 d as bs) \<Longrightarrow> e \<in> set as \<or> e \<in> set bs" for e as bs
    using set_merge2 by blast
  consider "fst x = fst y" | "fst x \<noteq> fst y" "before d (fst x) (fst y)"
    | "fst x \<noteq> fst y" "\<not> before d (fst x) (fst y)" "before d (fst y) (fst x)"
    using before_linear by blast
  then show ?case
  proof cases
    case 1
    have "before d (fst x) (fst e)" if "e \<in> set (merge2 d xs ys)" for e
      using mem [OF that] "3.prems" 1 by auto
    with 1 "3.IH"(1) "3.prems" show ?thesis by simp
  next
    case 2
    have "before d (fst x) (fst e)" if "e \<in> set (merge2 d xs (y # ys))" for e
      using mem [OF that] "3.prems" 2 before_trans by auto
    with 2 "3.IH"(2) "3.prems" show ?thesis by simp
  next
    case 3
    have "before d (fst y) (fst e)" if "e \<in> set (merge2 d (x # xs) ys)" for e
      using mem [OF that] "3.prems" 3 before_trans by auto
    with 3 "3.IH"(3) "3.prems" show ?thesis by simp
  qed
qed simp_all

lemma map_of_merge2: "in_dir d xs \<Longrightarrow> in_dir d ys \<Longrightarrow> map_of (merge2 d xs ys) = map_of ys ++ map_of xs"
proof (induction d xs ys rule: merge2.induct)
  case (3 d x xs y ys)
  have none: "map_of zs k = None" if "\<forall>e \<in> set zs. before d k (fst e)" for zs k
    using that by (fastforce simp: map_of_eq_None_iff)
  show ?case
  proof (rule ext)
    fix k
    consider "fst x = fst y" | "fst x \<noteq> fst y" "before d (fst x) (fst y)"
      | "fst x \<noteq> fst y" "\<not> before d (fst x) (fst y)" "before d (fst y) (fst x)"
      using before_linear by blast
    then show "map_of (merge2 d (x # xs) (y # ys)) k = (map_of (y # ys) ++ map_of (x # xs)) k"
    proof cases
      case 1
      with 3 show ?thesis by (cases x; cases y) (auto simp: map_add_def split: option.split)
    next
      case 2
      with 3 show ?thesis by (cases x) (auto simp: map_add_def split: option.split)
    next
      case 3
      have "map_of (x # xs) (fst y) = None"
        using "3.prems"(1) 3 by (intro none) (auto intro: before_trans)
      with 3 "3.IH"(3) "3.prems" show ?thesis
        by (cases y) (auto simp: map_add_def split: option.split)
    qed
  qed
qed (simp_all add: map_add_def fun_eq_iff)

text \<open>Entries from the current position on, and all entries.\<close>

fun rest :: "iter \<Rightarrow> entries" where
  "rest (Leaf xs p) = drop p xs"
| "rest (Merge (Node lv lk l) (Node rv rk r) s c d) = merge2 d (rest l) (rest r)"

fun merged :: "iter \<Rightarrow> entries" where
  "merged (Leaf xs p) = xs"
| "merged (Merge (Node lv lk l) (Node rv rk r) s c d) = merge2 d (merged l) (merged r)"

text \<open>Leaves in order, all nodes with one direction.\<close>

fun leaves_ok :: "bool \<Rightarrow> iter \<Rightarrow> bool" where
  "leaves_ok d (Leaf xs p) \<longleftrightarrow> in_dir d xs"
| "leaves_ok d (Merge (Node lv lk l) (Node rv rk r) s c e) \<longleftrightarrow> e = d \<and> leaves_ok d l \<and> leaves_ok d r"

definition synced :: "iter node \<Rightarrow> bool" where
  "synced n \<longleftrightarrow> n_valid n = mi_Valid (n_iter n) \<and> (n_valid n \<longrightarrow> n_key n = mi_Key (n_iter n))"

definition chosen :: "bool \<Rightarrow> iter node \<Rightarrow> iter node \<Rightarrow> bool \<Rightarrow> bool" where
  "chosen d l r s \<longleftrightarrow> (n_valid (small l r (\<not> s)) \<longrightarrow> n_valid (small l r s) \<and>
     before d (n_key (small l r s)) (n_key (small l r (\<not> s))))"

text \<open>A positioned iterator: nodes know their iterators, \<open>small\<close> is the first of two
  different keys, and \<open>curKey\<close> is its key.\<close>

fun good :: "bool \<Rightarrow> iter \<Rightarrow> bool" where
  "good d (Leaf xs p) \<longleftrightarrow> in_dir d xs"
| "good d (Merge (Node lv lk l) (Node rv rk r) s c e) \<longleftrightarrow> e = d \<and> good d l \<and> good d r \<and>
     synced (Node lv lk l) \<and> synced (Node rv rk r) \<and> chosen d (Node lv lk l) (Node rv rk r) s \<and>
     (n_valid (small (Node lv lk l) (Node rv rk r) s) \<longrightarrow> c = n_key (small (Node lv lk l) (Node rv rk r) s))"

lemma good_leaves: "good d m \<Longrightarrow> leaves_ok d m"
  by (induction d m rule: good.induct) auto

lemma in_dir_rest: "leaves_ok d m \<Longrightarrow> in_dir d (rest m)"
  by (induction d m rule: leaves_ok.induct) (auto simp: in_dir_merge2 sorted_wrt_drop)

lemma in_dir_merged: "leaves_ok d m \<Longrightarrow> in_dir d (merged m)"
  by (induction d m rule: leaves_ok.induct) (auto simp: in_dir_merge2)

lemma synced_setKey [simp]: "synced (setKey n)" "n_iter (setKey n) = n_iter n"
  by (simp_all add: synced_def setKey_def Let_def)

text \<open>What a positioned iterator shows is the first entry of the rest.\<close>

lemma good_head:
  "good d m \<Longrightarrow> (mi_Valid m \<longleftrightarrow> rest m \<noteq> []) \<and> (mi_Valid m \<longrightarrow> (mi_Key m, mi_Value m) = hd (rest m))"
proof (induction d m rule: good.induct)
  case (1 d xs p)
  then show ?case by (auto simp: hd_drop_conv_nth)
next
  case (2 d lv lk l rv rk r s c e)
  then have l: "lv = (rest l \<noteq> [])" "lv \<longrightarrow> lk = mi_Key l \<and> (mi_Key l, mi_Value l) = hd (rest l)"
    and r: "rv = (rest r \<noteq> [])" "rv \<longrightarrow> rk = mi_Key r \<and> (mi_Key r, mi_Value r) = hd (rest r)"
    and ch: "chosen d (Node lv lk l) (Node rv rk r) s" and e: "e = d"
    by (auto simp: synced_def)
  show ?case
  proof (cases "rest l")
    case Nil
    with l r ch e show ?thesis by (cases s) (auto simp: chosen_def)
  next
    case (Cons x xs)
    with l have x: "lv" "x = (lk, mi_Value l)" by auto
    show ?thesis
    proof (cases "rest r")
      case Nil
      with Cons x l r ch e show ?thesis by (cases s) (auto simp: chosen_def)
    next
      case C2: (Cons y ys)
      with r have y: "rv" "y = (rk, mi_Value r)" by auto
      show ?thesis
        using Cons C2 x y ch e before_asym by (cases s) (auto simp: chosen_def)
    qed
  qed
qed

section \<open>Stepping\<close>

lemma merge_simps:
  "rest (Merge l r s c e) = merge2 e (rest (n_iter l)) (rest (n_iter r))"
  "height (Merge l r s c e) = Suc (max (height (n_iter l)) (height (n_iter r)))"
  "good d (Merge l r s c e) \<longleftrightarrow> e = d \<and> good d (n_iter l) \<and> good d (n_iter r) \<and> synced l \<and> synced r \<and>
     chosen d l r s \<and> (n_valid (small l r s) \<longrightarrow> c = n_key (small l r s))"
  by (cases l; cases r; simp)+

text \<open>What \<open>Next\<close> does to the iterators up to a height.\<close>

definition steps :: "bool \<Rightarrow> nat \<Rightarrow> (iter \<Rightarrow> iter) \<Rightarrow> bool" where
  "steps d h nx \<longleftrightarrow> (\<forall>i. height i \<le> h \<longrightarrow> good d i \<longrightarrow> mi_Valid i \<longrightarrow>
     good d (nx i) \<and> rest (nx i) = tl (rest i) \<and> height (nx i) = height i)"

definition node_ok :: "bool \<Rightarrow> nat \<Rightarrow> iter node \<Rightarrow> bool" where
  "node_ok d h n \<longleftrightarrow> synced n \<and> good d (n_iter n) \<and> height (n_iter n) \<le> h"

lemma node_ok_head:
  assumes "node_ok d h n"
  shows "n_valid n \<longleftrightarrow> rest (n_iter n) \<noteq> []"
    "n_valid n \<Longrightarrow> rest (n_iter n) = (n_key n, mi_Value (n_iter n)) # tl (rest (n_iter n))"
  using assms good_head [of d "n_iter n"] unfolding node_ok_def synced_def
  by (auto simp: prod_eq_iff intro: list.exhaust_sel)

lemma node_next_ok:
  "steps d h nx \<Longrightarrow> node_ok d h n \<Longrightarrow> n_valid n \<Longrightarrow> node_ok d h (node_next nx n) \<and>
    rest (n_iter (node_next nx n)) = tl (rest (n_iter n)) \<and>
    height (n_iter (node_next nx n)) = height (n_iter n)"
  by (auto simp: steps_def node_ok_def node_next_def synced_def [of n])

definition pair_ok :: "bool \<Rightarrow> nat \<Rightarrow> iter \<Rightarrow> entries \<Rightarrow> nat \<Rightarrow> bool" where
  "pair_ok d h m es k \<longleftrightarrow> (\<exists>l r s c. m = Merge l r s c d \<and> node_ok d h l \<and> node_ok d h r \<and>
     chosen d l r s \<and> rest m = es \<and> height m = k)"

lemma in_dir_node: "node_ok d h n \<Longrightarrow> in_dir d (rest (n_iter n))"
  by (simp add: node_ok_def good_leaves in_dir_rest)

lemma mi_fix_ok:
  assumes st: "steps d h nx" and l: "node_ok d h l" and r: "node_ok d h r"
  shows "pair_ok d h (mi_fix nx (Merge l r s c d)) (merge2 d (rest (n_iter l)) (rest (n_iter r)))
    (Suc (max (height (n_iter l)) (height (n_iter r)))) \<and> curKey (mi_fix nx (Merge l r s c d)) = c"
proof (cases "n_valid l \<and> n_valid r \<and> n_key l = n_key r")
  case False
  define s' where "s' = (if \<not> n_valid (small l r (\<not> s)) then s else if \<not> n_valid (small l r s) then \<not> s
    else if before d (n_key (small l r s)) (n_key (small l r (\<not> s))) then s else \<not> s)"
  have cmp: "cmp_keys a b < 0 \<longleftrightarrow> key_less a b" "cmp_keys a b = 0 \<longleftrightarrow> a = b" for a b
    by (simp_all add: key_less_def)
  have dir: "before d a b \<longleftrightarrow> (if d then \<not> key_less a b else key_less a b)" if "a \<noteq> b" for a b
    using that key_less_linear [of a b] key_less_asym by (auto simp: before_def)
  have "mi_fix nx (Merge l r s c d) = Merge l r s' c d"
  proof (cases "n_valid l \<and> n_valid r")
    case True
    with False have "n_key l \<noteq> n_key r" by blast
    with True dir [of "n_key l" "n_key r"] dir [of "n_key r" "n_key l"] show ?thesis
      by (cases s; cases d) (simp_all add: s'_def Let_def cmp)
  qed (cases s; auto simp: s'_def)
  moreover have "chosen d l r s'"
    using False before_linear [of d "n_key l" "n_key r"]
    by (cases s) (auto simp: s'_def chosen_def)
  ultimately show ?thesis using l r by (auto simp: pair_ok_def merge_simps)
next
  case True
  let ?r = "node_next nx r"
  have fixeq: "mi_fix nx (Merge l r s c d) = Merge l ?r True c d"
    using True by (cases s) (auto simp: Let_def)
  have r': "node_ok d h ?r" "rest (n_iter ?r) = tl (rest (n_iter r))" "height (n_iter ?r) = height (n_iter r)"
    using node_next_ok [OF st r] True by auto
  have ll: "rest (n_iter l) = (n_key l, mi_Value (n_iter l)) # tl (rest (n_iter l))"
    and rr: "rest (n_iter r) = (n_key r, mi_Value (n_iter r)) # tl (rest (n_iter r))"
    using node_ok_head(2) [OF l] node_ok_head(2) [OF r] True by auto
  have after: "\<forall>e \<in> set (tl (rest (n_iter r))). before d (n_key r) (fst e)"
    using in_dir_node [OF r] by (subst (asm) rr) simp
  have "chosen d l ?r True"
    unfolding chosen_def using True node_ok_head(2) [OF r'(1)] after r'(2)
    by (auto simp: True) (metis fst_conv list.set_intros(1))
  moreover have "merge2 d (rest (n_iter l)) (tl (rest (n_iter r))) =
      merge2 d (rest (n_iter l)) (rest (n_iter r))"
  proof -
    have "merge2 d (rest (n_iter l)) (rest (n_iter r)) =
        (n_key l, mi_Value (n_iter l)) # merge2 d (tl (rest (n_iter l))) (tl (rest (n_iter r)))"
      using True by (subst ll, subst rr) simp
    also have "\<dots> = merge2 d (rest (n_iter l)) (tl (rest (n_iter r)))"
      using after True by (subst (2) ll, cases "tl (rest (n_iter r))") (auto simp: before_def)
    finally show ?thesis ..
  qed
  ultimately show ?thesis
    unfolding fixeq pair_ok_def using l r' by (auto simp: merge_simps)
qed

lemma setCurrent_good: "pair_ok d h m es k \<Longrightarrow> good d (setCurrent m) \<and> rest (setCurrent m) = es \<and> height (setCurrent m) = k"
  by (auto simp: pair_ok_def node_ok_def merge_simps)

lemma pair_ok_key:
  assumes "pair_ok d h m es k" "mi_Valid m"
  shows "es \<noteq> [] \<and> mi_Key m = fst (hd es)"
proof -
  from setCurrent_good [OF assms(1)] have "good d (setCurrent m)" "rest (setCurrent m) = es" by auto
  moreover have "mi_Valid (setCurrent m)" "mi_Key (setCurrent m) = mi_Key m"
    using assms(2) by (cases m; simp)+
  ultimately show ?thesis using good_head by (metis fst_conv)
qed

lemma mi_Next_ok:
  assumes st: "steps d h nx" and g: "good d (Merge l r s c d)" and v: "mi_Valid (Merge l r s c d)"
    and ht: "height (n_iter l) \<le> h" "height (n_iter r) \<le> h"
  shows "good d (mi_Next nx (Merge l r s c d)) \<and>
    rest (mi_Next nx (Merge l r s c d)) = tl (rest (Merge l r s c d)) \<and>
    height (mi_Next nx (Merge l r s c d)) = height (Merge l r s c d)"
proof -
  let ?m = "Merge l r s c d"
  have l: "node_ok d h l" and r: "node_ok d h r" and ch: "chosen d l r s"
    and c: "c = n_key (small l r s)" and sv: "n_valid (small l r s)"
    using g v ht by (auto simp: merge_simps node_ok_def)
  define m1 where "m1 = mi_fix nx (small_next nx ?m)"
  have m1: "pair_ok d h m1 (tl (rest ?m)) (height ?m) \<and> curKey m1 = c"
  proof (cases s)
    case True
    have n: "node_ok d h (node_next nx l)" "rest (n_iter (node_next nx l)) = tl (rest (n_iter l))"
      "height (n_iter (node_next nx l)) = height (n_iter l)"
      using node_next_ok [OF st l] sv True by auto
    have ll: "rest (n_iter l) = (n_key l, mi_Value (n_iter l)) # tl (rest (n_iter l))"
      using node_ok_head(2) [OF l] sv True by auto
    have "tl (rest ?m) = merge2 d (tl (rest (n_iter l))) (rest (n_iter r))"
    proof (cases "rest (n_iter r)")
      case Nil
      then show ?thesis by (simp add: merge_simps)
    next
      case (Cons y ys)
      then have "n_valid r" "fst y = n_key r" using node_ok_head [OF r] by auto
      then have "before d (n_key l) (fst y)" "n_key l \<noteq> fst y" using ch True by (auto simp: chosen_def)
      then show ?thesis unfolding merge_simps Cons by (subst ll) simp
    qed
    then show ?thesis
      using mi_fix_ok [OF st n(1) r, of s c] True n by (simp add: m1_def merge_simps)
  next
    case False
    have n: "node_ok d h (node_next nx r)" "rest (n_iter (node_next nx r)) = tl (rest (n_iter r))"
      "height (n_iter (node_next nx r)) = height (n_iter r)"
      using node_next_ok [OF st r] sv False by auto
    have rr: "rest (n_iter r) = (n_key r, mi_Value (n_iter r)) # tl (rest (n_iter r))"
      using node_ok_head(2) [OF r] sv False by auto
    have "tl (rest ?m) = merge2 d (rest (n_iter l)) (tl (rest (n_iter r)))"
    proof (cases "rest (n_iter l)")
      case Nil
      then show ?thesis by (simp add: merge_simps)
    next
      case (Cons x xs)
      then have "n_valid l" "fst x = n_key l" using node_ok_head [OF l] by auto
      then have "before d (n_key r) (fst x)" "n_key r \<noteq> fst x" using ch False by (auto simp: chosen_def)
      then show ?thesis unfolding merge_simps Cons by (subst rr) (auto dest: before_asym)
    qed
    then show ?thesis
      using mi_fix_ok [OF st l n(1), of s c] False n by (simp add: m1_def merge_simps)
  qed
  have hd: "rest ?m \<noteq> []" "fst (hd (rest ?m)) = c" using good_head [OF g] v c by (auto simp: prod_eq_iff)
  have "in_dir d (rest ?m)" using g good_leaves in_dir_rest by blast
  then have later: "\<forall>e \<in> set (tl (rest ?m)). before d c (fst e)"
    using hd by (cases "rest ?m") auto
  have stop: "\<not> (mi_Valid m1 \<and> mi_Key m1 = curKey m1)"
  proof
    assume a: "mi_Valid m1 \<and> mi_Key m1 = curKey m1"
    then have "tl (rest ?m) \<noteq> []" "fst (hd (tl (rest ?m))) = c"
      using pair_ok_key [of d h m1 "tl (rest ?m)"] m1 by auto
    with later show False by (metis before_irrefl hd_in_set)
  qed
  define B where "B = (\<lambda>m. mi_Valid m \<and> mi_Key m = curKey m)"
  define C where "C = (\<lambda>m. mi_fix nx (small_next nx m))"
  have "B ?m" using v c by (simp add: B_def)
  then have "while B C ?m = while B C m1"
    using while_unfold [of B C ?m] by (simp add: C_def m1_def del: mi_fix.simps small_next.simps)
  also have "\<dots> = m1" using while_unfold [of B C m1] stop by (simp add: B_def)
  finally have "mi_Next nx ?m = setCurrent m1" by (simp add: mi_Next_def B_def C_def)
  then show ?thesis using setCurrent_good [of d h m1 "tl (rest ?m)" "height ?m"] m1 by simp
qed

lemma next_at_ok: "height m \<le> h \<Longrightarrow> good d m \<Longrightarrow> mi_Valid m \<Longrightarrow>
    good d (next_at h m) \<and> rest (next_at h m) = tl (rest m) \<and> height (next_at h m) = height m"
proof (induction h arbitrary: m)
  case 0
  then show ?case by (cases m) (auto simp: merge_simps drop_Suc tl_drop)
next
  case (Suc h)
  show ?case
  proof (cases m)
    case (Leaf xs p)
    with Suc show ?thesis by (simp add: drop_Suc tl_drop)
  next
    case (Merge l r s c e)
    then have "e = d" using Suc.prems by (simp add: merge_simps)
    moreover have "steps d h (next_at h)" using Suc.IH by (simp add: steps_def)
    moreover have "height (n_iter l) \<le> h" "height (n_iter r) \<le> h"
      using Suc.prems(1) Merge by (simp_all add: merge_simps)
    ultimately show ?thesis using mi_Next_ok Suc.prems Merge by simp
  qed
qed

lemma iter_Next_ok: "good d m \<Longrightarrow> mi_Valid m \<Longrightarrow> good d (iter_Next m) \<and> rest (iter_Next m) = tl (rest m) \<and>
    height (iter_Next m) = height m"
  by (simp add: iter_Next_def next_at_ok)

lemma steps_iter_Next: "steps d h iter_Next"
  by (simp add: steps_def iter_Next_ok)

interpretation mit: iterator mi_Valid mi_Key mi_Value iter_Next rest "good d" for d
proof
  fix i
  show "good d i \<Longrightarrow> mi_Valid i \<longleftrightarrow> rest i \<noteq> []" using good_head by blast
  show "good d i \<Longrightarrow> mi_Valid i \<Longrightarrow> (mi_Key i, mi_Value i) = hd (rest i)" using good_head by blast
  show "good d i \<Longrightarrow> mi_Valid i \<Longrightarrow> good d (iter_Next i)" using iter_Next_ok by blast
  show "good d i \<Longrightarrow> mi_Valid i \<Longrightarrow> rest (iter_Next i) = tl (rest i)" using iter_Next_ok by blast
qed

section \<open>Positioning\<close>

lemma node_ok_setKey: "good d i \<Longrightarrow> height i \<le> h \<Longrightarrow> node_ok d h (setKey (Node v k i))"
  by (simp add: node_ok_def)

lemma position_ok:
  assumes "good d l" "good d r"
  shows "good d (setCurrent (mi_fix iter_Next (Merge (setKey (Node lv lk l)) (setKey (Node rv rk r)) s c d))) \<and>
    rest (setCurrent (mi_fix iter_Next (Merge (setKey (Node lv lk l)) (setKey (Node rv rk r)) s c d))) =
      merge2 d (rest l) (rest r)"
proof -
  let ?h = "max (height l) (height r)"
  have "node_ok d ?h (setKey (Node lv lk l))" "node_ok d ?h (setKey (Node rv rk r))"
    using assms by (simp_all add: node_ok_setKey)
  from setCurrent_good [OF conjunct1 [OF mi_fix_ok [OF steps_iter_Next this]]] show ?thesis by simp
qed

lemma Rewind_ok: "leaves_ok d m \<Longrightarrow> good d (iter_Rewind m) \<and> rest (iter_Rewind m) = merged m"
proof (induction d m rule: leaves_ok.induct)
  case (2 d lv lk l rv rk r s c e)
  then show ?case using position_ok [of d "iter_Rewind l" "iter_Rewind r" lv lk rv rk s c] by simp
qed simp

lemma in_dir_dropWhile:
  "in_dir d xs \<Longrightarrow> dropWhile (\<lambda>e. before d (fst e) k) xs = filter (\<lambda>e. \<not> before d (fst e) k) xs"
proof (induction xs)
  case (Cons x xs)
  show ?case
  proof (cases "before d (fst x) k")
    case False
    then have "\<forall>e \<in> set xs. \<not> before d (fst e) k" using Cons.prems before_trans by fastforce
    then have "filter (\<lambda>e. \<not> before d (fst e) k) xs = xs" by (simp add: filter_id_conv)
    with False show ?thesis by simp
  qed (use Cons in simp)
qed simp

lemma filter_merge2:
  "filter (\<lambda>e. \<not> before d (fst e) k) (merge2 d xs ys) =
    merge2 d (filter (\<lambda>e. \<not> before d (fst e) k) xs) (filter (\<lambda>e. \<not> before d (fst e) k) ys)"
proof (induction d xs ys rule: merge2.induct)
  case (3 d x xs y ys)
  have up: "before d a b \<Longrightarrow> \<not> before d a k \<Longrightarrow> \<not> before d b k" for a b
    using before_trans by blast
  consider "fst x = fst y" | "fst x \<noteq> fst y" "before d (fst x) (fst y)"
    | "fst x \<noteq> fst y" "\<not> before d (fst x) (fst y)" "before d (fst y) (fst x)"
    using before_linear by blast
  then show ?case
  proof cases
    case 1
    with 3 show ?thesis by simp
  next
    case 2
    with 3 up [of "fst x" "fst y"] show ?thesis by simp
  next
    case 3
    with "3.IH" up [of "fst y" "fst x"] show ?thesis by simp
  qed
qed simp_all

lemma Seek_ok: "leaves_ok d m \<Longrightarrow> good d (iter_Seek d k m) \<and>
    rest (iter_Seek d k m) = filter (\<lambda>e. \<not> before d (fst e) k) (merged m)"
proof (induction d m rule: leaves_ok.induct)
  case (1 d xs p)
  then show ?case
    by (simp add: dropWhile_eq_drop [symmetric] in_dir_dropWhile)
next
  case (2 d lv lk l rv rk r s c e)
  then show ?case
    using position_ok [of d "iter_Seek d k l" "iter_Seek d k r" lv lk rv rk s c]
    by (simp add: filter_merge2)
qed

text \<open>What a list of iterators stands for: each key with the value of the first that has it.\<close>

definition first_of :: "iter list \<Rightarrow> bytes \<rightharpoonup> ValueStruct" where
  "first_of iters = foldr (\<lambda>i m. m ++ map_of (merged i)) iters Map.empty"

lemma first_of_append: "first_of (xs @ ys) = first_of ys ++ first_of xs"
  by (induction xs) (simp_all add: first_of_def)

lemma first_of_single: "first_of [i] = map_of (merged i)"
  by (simp add: first_of_def)

lemma merge_two_ok: "leaves_ok d a \<Longrightarrow> leaves_ok d b \<Longrightarrow> leaves_ok d (merge_two a b d) \<and>
    map_of (merged (merge_two a b d)) = map_of (merged b) ++ map_of (merged a)"
  by (simp add: merge_two_def map_of_merge2 in_dir_merged)

lemma NewMergeIterator_ok:
  "iters \<noteq> [] \<Longrightarrow> \<forall>i \<in> set iters. leaves_ok d i \<Longrightarrow>
    \<exists>m. NewMergeIterator iters d = Some m \<and> leaves_ok d m \<and> map_of (merged m) = first_of iters"
proof (induction iters d rule: NewMergeIterator.induct)
  case (1 iters d)
  consider i where "iters = [i]" | i j where "iters = [i, j]"
    | i j k zs where "iters = i # j # k # zs"
    using "1.prems"(1) by (metis list.exhaust)
  then show ?case
  proof cases
    case 1
    then show ?thesis using "1.prems" by (subst NewMergeIterator.simps) (simp add: first_of_single)
  next
    case 2
    then show ?thesis using "1.prems" merge_two_ok [of d i j]
      by (subst NewMergeIterator.simps) (simp add: first_of_def)
  next
    case 3
    let ?mid = "length iters div 2"
    have mem: "\<forall>x \<in> set (take ?mid iters). leaves_ok d x" "\<forall>x \<in> set (drop ?mid iters). leaves_ok d x"
      using "1.prems"(2) by (auto dest: in_set_takeD in_set_dropD)
    have ne: "take ?mid iters \<noteq> []" "drop ?mid iters \<noteq> []" using 3 by auto
    obtain a where a: "NewMergeIterator (take ?mid iters) d = Some a" "leaves_ok d a"
      "map_of (merged a) = first_of (take ?mid iters)"
      using "1.IH"(1) [OF 3 refl refl refl ne(1) mem(1)] by blast
    obtain b where b: "NewMergeIterator (drop ?mid iters) d = Some b" "leaves_ok d b"
      "map_of (merged b) = first_of (drop ?mid iters)"
      using "1.IH"(2) [OF 3 refl refl refl ne(2) mem(2)] by blast
    have "NewMergeIterator iters d = Some (merge_two a b d)"
      using 3 a(1) b(1) by (subst NewMergeIterator.simps) (simp add: Let_def)
    moreover have "first_of iters = first_of (drop ?mid iters) ++ first_of (take ?mid iters)"
      using first_of_append [of "take ?mid iters" "drop ?mid iters"] by simp
    ultimately show ?thesis using merge_two_ok [OF a(2) b(2)] a b by simp
  qed
qed

text \<open>The iterator over a transaction's pending writes has the same interface.\<close>

definition pending_items :: "pendingWritesIterator \<Rightarrow> entries" where
  "pending_items p = map (\<lambda>e. (KeyWithTs (e_Key e) (word_of_nat (pi_readTs p)),
     \<lparr>vs_Meta = e_meta e, vs_UserMeta = e_UserMeta e, vs_ExpiresAt = e_ExpiresAt e,
      vs_Value = e_Value e, vs_Version = word_of_nat (pi_readTs p)\<rparr>)) (drop (pi_nextIdx p) (pi_entries p))"

interpretation pit: iterator pi_Valid "\<lambda>p. the (pi_Key p)" "\<lambda>p. the (pi_Value p)" pi_Next
    pending_items "\<lambda>_. True"
  by unfold_locales (auto simp: pi_Valid_def pi_Key_def pi_Value_def pi_Next_def pending_items_def
      Let_def hd_map hd_drop_conv_nth drop_Suc drop_tl map_tl [symmetric])

section \<open>Properties\<close>

text \<open>
  C10: iterating over the merge of any number of sorted iterators gives their keys in
  order, each once, with the value of the first iterator in the list that has the key;
  whatever tree \<open>NewMergeIterator\<close> builds, and in both directions.
\<close>

theorem merge_iterates:
  assumes "iters \<noteq> []" and "\<forall>i \<in> set iters. leaves_ok d i"
  shows "\<exists>m. NewMergeIterator iters d = Some m \<and> (\<forall>n \<ge> length (merged m).
    in_dir d (mit.drain n (iter_Rewind m)) \<and> map_of (mit.drain n (iter_Rewind m)) = first_of iters)"
proof -
  from NewMergeIterator_ok [OF assms] obtain m where m: "NewMergeIterator iters d = Some m" "leaves_ok d m"
    "map_of (merged m) = first_of iters" by blast
  from Rewind_ok [OF m(2)] have "good d (iter_Rewind m)" "rest (iter_Rewind m) = merged m" by auto
  then have "mit.drain n (iter_Rewind m) = merged m" if "length (merged m) \<le> n" for n
    using mit.drain_all that by metis
  with m in_dir_merged [OF m(2)] show ?thesis by auto
qed

text \<open>
  \<open>Seek\<close> positions a merge iterator so that iterating gives exactly the merged
  entries that are not before the key in the iteration's direction.
\<close>

theorem merge_seek:
  assumes "leaves_ok d m" and "length (merged m) \<le> n"
  shows "mit.drain n (iter_Seek d k m) = filter (\<lambda>e. \<not> before d (fst e) k) (merged m) \<and>
    (mi_Valid (iter_Seek d k m) \<longleftrightarrow> (\<exists>e \<in> set (merged m). \<not> before d (fst e) k))"
proof -
  from Seek_ok [OF assms(1), of k] have g: "good d (iter_Seek d k m)"
    and r: "rest (iter_Seek d k m) = filter (\<lambda>e. \<not> before d (fst e) k) (merged m)" by auto
  have "length (rest (iter_Seek d k m)) \<le> n"
    unfolding r using assms(2) length_filter_le [of _ "merged m"] by (meson le_trans)
  from mit.drain_all [OF g this] mit.valid_items [OF g] r show ?thesis
    by (auto simp: filter_empty_conv)
qed

definition ex_vs :: "byte \<Rightarrow> ValueStruct" where
  "ex_vs b = zero_vs\<lparr>vs_Value := Some [b]\<rparr>"

definition ex_leaf :: "byte \<Rightarrow> byte list \<Rightarrow> iter" where
  "ex_leaf v ks = Leaf (map (\<lambda>k. (KeyWithTs [k] 1, ex_vs v)) ks) 0"

lemma ex_leaf_ok: "sorted_wrt (<) ks \<Longrightarrow> leaves_ok False (ex_leaf v ks)"
  by (simp add: ex_leaf_def sorted_wrt_map before_def key_less_def cmp_keys_KeyWithTs_less)

lemma merge_iterates_witness:
  "\<exists>m. NewMergeIterator [ex_leaf 10 [2, 5], ex_leaf 20 [1, 2], ex_leaf 30 [2, 3]] False = Some m \<and>
    map_of (mit.drain (length (merged m)) (iter_Rewind m)) (KeyWithTs [2] 1) = Some (ex_vs 10)"
proof -
  let ?is = "[ex_leaf 10 [2, 5], ex_leaf 20 [1, 2], ex_leaf 30 [2, 3]]"
  have "\<forall>i \<in> set ?is. leaves_ok False i" by (auto intro!: ex_leaf_ok)
  from merge_iterates [OF _ this] obtain m where "NewMergeIterator ?is False = Some m"
    "map_of (mit.drain (length (merged m)) (iter_Rewind m)) = first_of ?is" by auto
  then show ?thesis by (simp add: first_of_def ex_leaf_def)
qed

lemma merge_seek_witness:
  "mit.drain 4 (iter_Seek False (KeyWithTs [2] 9) (merge_two (ex_leaf 10 [2, 5]) (ex_leaf 20 [1, 2]) False)) =
    [(KeyWithTs [2] 1, ex_vs 10), (KeyWithTs [5] 1, ex_vs 10)]"
proof -
  let ?m = "merge_two (ex_leaf 10 [2, 5]) (ex_leaf 20 [1, 2]) False"
  have ok: "leaves_ok False ?m" using merge_two_ok ex_leaf_ok by simp
  have m: "merged ?m = [(KeyWithTs [1] 1, ex_vs 20), (KeyWithTs [2] 1, ex_vs 10), (KeyWithTs [5] 1, ex_vs 10)]"
    by (simp add: merge_two_def ex_leaf_def before_def key_less_def cmp_keys_KeyWithTs_less)
      (simp add: KeyWithTs_def)
  from merge_seek [OF ok, of 4 "KeyWithTs [2] 9"] show ?thesis
    unfolding m by (simp add: before_def key_less_def cmp_keys_KeyWithTs_less)
qed

end
