(* ===== verification/TableRead.thy ===== *)
theory TableRead
  imports TableBuild Iterators
begin

text \<open>
  Opening a table file (\<open>table/table.go\<close>: \<open>OpenTable\<close>, \<open>initIndex\<close>, \<open>block\<close>) and the
  iterators over it (\<open>table/iterator.go\<close>). The block and index caches give back what was put
  into them and are left out; the file is given by its content. \<open>None\<close> is a panic.
\<close>

section \<open>Reading blocks\<close>

record open_table =
  ot_data :: bytes
  ot_opt :: tbl_opts
  ot_index :: table_index
  ot_smallest :: bytes
  ot_biggest :: bytes
  ot_id :: u64

definition tb_decrypt :: "table_codec \<Rightarrow> bytes \<Rightarrow> bytes option" where
  "tb_decrypt tc data = Option.bind (go_slice data (int (length data) - 16) (int (length data))) (\<lambda>iv.
     map_option (XORBlock (tc_stream tc iv)) (go_slice data 0 (int (length data) - 16)))"

definition verifies_blocks :: "tbl_opts \<Rightarrow> bool" where
  "verifies_blocks opt \<longleftrightarrow> to_ChkMode opt = OnBlockRead \<or> to_ChkMode opt = OnTableAndBlockRead"

definition read_block :: "table_codec \<Rightarrow> open_table \<Rightarrow> int \<Rightarrow> (table_error + block) option" where
  "read_block tc t idx =
     (if idx < 0 then None
      else if int (length (ti_offsets (ot_index t))) \<le> idx then Some (Inl (NoBlock idx))
      else
        let ko = ti_offsets (ot_index t) ! nat idx; off = int (unat (bo_offset ko)); len = int (unat (bo_len ko))
        in case go_slice (ot_data t) off (off + len) of None \<Rightarrow> Some (Inl (ReadFailed off len))
           | Some d0 \<Rightarrow>
              (case (if shouldEncrypt (ot_opt t) then tb_decrypt tc d0 else Some d0) of None \<Rightarrow> None
               | Some d1 \<Rightarrow>
                  (case (if to_Compression (ot_opt t) = 0 then Some d1 else tc_decompress tc d1) of
                     None \<Rightarrow> Some (Inl CannotDecompress)
                   | Some d2 \<Rightarrow>
                      (case parse_block d2 of None \<Rightarrow> None
                       | Some (Inl e) \<Rightarrow> Some (Inl e)
                       | Some (Inr b) \<Rightarrow>
                          (if verifies_blocks (ot_opt t)
                           then case verifyChecksum (tc_unsum tc) (bk_data b) (bk_checksum b) of
                               Some e \<Rightarrow> Some (Inl e) | None \<Rightarrow> Some (Inr b)
                           else Some (Inr b))))))"

section \<open>The iterator\<close>

datatype it_error = It_OK | It_EOF | It_Error table_error

record titer =
  it_bpos :: int
  it_bi :: block_iter
  it_err :: it_error

definition nil_bi :: block_iter where
  "nil_bi = \<lparr>bi_data = [], bi_idx = 0, bi_eof = False, bi_baseKey = [], bi_key = [], bi_val = [], bi_entryOffsets = [], bi_prevOverlap = 0\<rparr>"

definition NewIterator :: titer where
  "NewIterator = \<lparr>it_bpos = 0, it_bi = nil_bi, it_err = It_OK\<rparr>"

definition numBlocks :: "open_table \<Rightarrow> int" where
  "numBlocks t = int (length (ti_offsets (ot_index t)))"

text \<open>Every move to a block reads it, sets it, positions in it and takes over its error.\<close>

definition bi_error :: "block_iter \<Rightarrow> it_error" where
  "bi_error bi = (if bi_eof bi then It_EOF else It_OK)"

definition enter_block :: "table_codec \<Rightarrow> open_table \<Rightarrow> titer \<Rightarrow> (block_iter \<Rightarrow> block_iter option) \<Rightarrow> titer option" where
  "enter_block tc t itr position = (case read_block tc t (it_bpos itr) of None \<Rightarrow> None
     | Some (Inl e) \<Rightarrow> Some (itr\<lparr>it_err := It_Error e\<rparr>)
     | Some (Inr b) \<Rightarrow> map_option (\<lambda>bi. itr\<lparr>it_bi := bi, it_err := bi_error bi\<rparr>) (position (setBlock b)))"

definition it_seekToFirst :: "table_codec \<Rightarrow> open_table \<Rightarrow> titer \<Rightarrow> titer option" where
  "it_seekToFirst tc t itr = (if numBlocks t = 0 then Some (itr\<lparr>it_err := It_EOF\<rparr>)
     else enter_block tc t (itr\<lparr>it_bpos := 0\<rparr>) bi_seekToFirst)"

definition it_seekToLast :: "table_codec \<Rightarrow> open_table \<Rightarrow> titer \<Rightarrow> titer option" where
  "it_seekToLast tc t itr = (if numBlocks t = 0 then Some (itr\<lparr>it_err := It_EOF\<rparr>)
     else enter_block tc t (itr\<lparr>it_bpos := numBlocks t - 1\<rparr>) bi_seekToLast)"

definition seekHelper :: "table_codec \<Rightarrow> open_table \<Rightarrow> int \<Rightarrow> bytes \<Rightarrow> titer \<Rightarrow> titer option" where
  "seekHelper tc t blockIdx key itr = enter_block tc t (itr\<lparr>it_bpos := blockIdx\<rparr>) (\<lambda>bi. bi_seek bi key False)"

text \<open>The only callers of \<open>seekFrom\<close> ask for \<open>origin\<close>.\<close>

definition it_seek :: "table_codec \<Rightarrow> open_table \<Rightarrow> bytes \<Rightarrow> titer \<Rightarrow> titer option" where
  "it_seek tc t key itr0 =
     (let itr = itr0\<lparr>it_bpos := 0, it_err := It_OK\<rparr>; offs = ti_offsets (ot_index t);
          idx = sort_search (length offs) (\<lambda>i. 0 < cmp_keys (bo_key (offs ! i)) key)
      in if idx = 0 then seekHelper tc t 0 key itr
         else case seekHelper tc t (int idx - 1) key itr of None \<Rightarrow> None
           | Some itr1 \<Rightarrow>
              if it_err itr1 = It_EOF then (if idx = length offs then Some itr1 else seekHelper tc t (int idx) key itr1)
              else Some itr1)"

text \<open>
  \<open>next\<close> calls itself once after leaving a block: it has dropped the data of the block
  then, so the second call enters the next one.
\<close>

function it_next :: "table_codec \<Rightarrow> open_table \<Rightarrow> titer \<Rightarrow> titer option" where
  "it_next tc t itr0 =
     (let itr = itr0\<lparr>it_err := It_OK\<rparr>
      in if numBlocks t \<le> it_bpos itr then Some (itr\<lparr>it_err := It_EOF\<rparr>)
         else if bi_data (it_bi itr) = [] then enter_block tc t itr bi_seekToFirst
         else case bi_next (it_bi itr) of None \<Rightarrow> None
           | Some bi \<Rightarrow> if \<not> bi_eof bi then Some (itr\<lparr>it_bi := bi\<rparr>)
               else it_next tc t (itr\<lparr>it_bpos := it_bpos itr + 1, it_bi := bi\<lparr>bi_data := []\<rparr>\<rparr>))"
  by pat_completeness auto
termination
  by (relation "measure (\<lambda>(_, _, itr). length (bi_data (it_bi itr)))") auto

function it_prev :: "table_codec \<Rightarrow> open_table \<Rightarrow> titer \<Rightarrow> titer option" where
  "it_prev tc t itr0 =
     (let itr = itr0\<lparr>it_err := It_OK\<rparr>
      in if it_bpos itr < 0 then Some (itr\<lparr>it_err := It_EOF\<rparr>)
         else if bi_data (it_bi itr) = [] then enter_block tc t itr bi_seekToLast
         else case bi_prev (it_bi itr) of None \<Rightarrow> None
           | Some bi \<Rightarrow> if \<not> bi_eof bi then Some (itr\<lparr>it_bi := bi\<rparr>)
               else it_prev tc t (itr\<lparr>it_bpos := it_bpos itr - 1, it_bi := bi\<lparr>bi_data := []\<rparr>\<rparr>))"
  by pat_completeness auto
termination
  by (relation "measure (\<lambda>(_, _, itr). length (bi_data (it_bi itr)))") auto

declare it_next.simps [simp del] it_prev.simps [simp del]

definition it_seekForPrev :: "table_codec \<Rightarrow> open_table \<Rightarrow> bytes \<Rightarrow> titer \<Rightarrow> titer option" where
  "it_seekForPrev tc t key itr = (case it_seek tc t key itr of None \<Rightarrow> None
     | Some itr1 \<Rightarrow> if bi_key (it_bi itr1) \<noteq> key then it_prev tc t itr1 else Some itr1)"

definition it_Valid :: "titer \<Rightarrow> bool" where
  "it_Valid itr \<longleftrightarrow> it_err itr = It_OK"

definition it_Key :: "titer \<Rightarrow> bytes" where
  "it_Key itr = bi_key (it_bi itr)"

definition it_Value :: "titer \<Rightarrow> ValueStruct option" where
  "it_Value itr = Decode zero_vs (bi_val (it_bi itr))"

text \<open>The direction is the \<open>REVERSED\<close> bit of the options.\<close>

definition it_Next :: "table_codec \<Rightarrow> open_table \<Rightarrow> bool \<Rightarrow> titer \<Rightarrow> titer option" where
  "it_Next tc t reversed itr = (if \<not> reversed then it_next tc t itr else it_prev tc t itr)"

definition it_Rewind :: "table_codec \<Rightarrow> open_table \<Rightarrow> bool \<Rightarrow> titer \<Rightarrow> titer option" where
  "it_Rewind tc t reversed itr = (if \<not> reversed then it_seekToFirst tc t itr else it_seekToLast tc t itr)"

definition it_Seek :: "table_codec \<Rightarrow> open_table \<Rightarrow> bool \<Rightarrow> bytes \<Rightarrow> titer \<Rightarrow> titer option" where
  "it_Seek tc t reversed key itr = (if \<not> reversed then it_seek tc t key itr else it_seekForPrev tc t key itr)"

section \<open>Opening a table\<close>

text \<open>\<open>initIndex\<close> reads the file from its end; \<open>readNoFail\<close> panics outside the file.\<close>

definition initIndex :: "table_codec \<Rightarrow> tbl_opts \<Rightarrow> bytes \<Rightarrow> (table_error + table_index) option" where
  "initIndex tc opt data =
     (let p1 = int (length data) - 4
      in Option.bind (u32_at data p1) (\<lambda>checksumLen.
         let p2 = p1 - int checksumLen
         in Option.bind (go_slice data p2 (p2 + int checksumLen)) (\<lambda>checksum.
            if tc_unsum tc checksum = None then Some (Inl BadSum)
            else
              let p3 = p2 - 4
              in Option.bind (u32_at data p3) (\<lambda>indexLen.
                 let p4 = p3 - int indexLen
                 in Option.bind (go_slice data p4 (p4 + int indexLen)) (\<lambda>d.
                    case verifyChecksum (tc_unsum tc) d checksum of Some e \<Rightarrow> Some (Inl e)
                    | None \<Rightarrow>
                        Option.bind (if shouldEncrypt opt then tb_decrypt tc d else Some d) (\<lambda>d1.
                        let ix = tc_unindex tc d1
                        in if ti_offsets ix = [] then None else Some (Inr ix)))))))"

definition initBiggestAndSmallest :: "table_codec \<Rightarrow> tbl_opts \<Rightarrow> u64 \<Rightarrow> bytes \<Rightarrow> (table_error + open_table) option" where
  "initBiggestAndSmallest tc opt tid data =
     (case initIndex tc opt data of None \<Rightarrow> None
      | Some (Inl e) \<Rightarrow> Some (Inl e)
      | Some (Inr ix) \<Rightarrow>
          let t = \<lparr>ot_data = data, ot_opt = opt, ot_index = ix, ot_smallest = bo_key (hd (ti_offsets ix)), ot_biggest = [], ot_id = tid\<rparr>
          in case it_Rewind tc t True NewIterator of None \<Rightarrow> None
             | Some it2 \<Rightarrow> if \<not> it_Valid it2 then Some (Inl NoBiggest) else Some (Inr (t\<lparr>ot_biggest := it_Key it2\<rparr>)))"

text \<open>
  \<open>VerifyChecksum\<close> reads every block; with \<open>OnBlockRead\<close> the reading itself verifies. When the
  reading fails, the block is nil and the error message asks for its offset: a panic.
\<close>

fun verify_blocks :: "table_codec \<Rightarrow> open_table \<Rightarrow> nat list \<Rightarrow> (table_error + unit) option" where
  "verify_blocks tc t [] = Some (Inr ())"
| "verify_blocks tc t (i # is) = (case read_block tc t (int i) of None \<Rightarrow> None
     | Some (Inl e) \<Rightarrow> None
     | Some (Inr b) \<Rightarrow>
        (if verifies_blocks (ot_opt t) then verify_blocks tc t is
         else case verifyChecksum (tc_unsum tc) (bk_data b) (bk_checksum b) of
             Some e \<Rightarrow> Some (Inl e) | None \<Rightarrow> verify_blocks tc t is))"

definition OpenTable :: "table_codec \<Rightarrow> tbl_opts \<Rightarrow> u64 \<Rightarrow> bytes \<Rightarrow> (table_error + open_table) option" where
  "OpenTable tc opt tid data =
     (if to_BlockSize opt = 0 \<and> to_Compression opt \<noteq> 0 then Some (Inl ZeroBlockSize)
      else case initBiggestAndSmallest tc opt tid data of None \<Rightarrow> None
      | Some (Inl e) \<Rightarrow> Some (Inl e)
      | Some (Inr t) \<Rightarrow>
          if to_ChkMode opt = OnTableRead \<or> to_ChkMode opt = OnTableAndBlockRead
          then case verify_blocks tc t [0..<length (ti_offsets (ot_index t))] of None \<Rightarrow> None
            | Some (Inl e) \<Rightarrow> Some (Inl e) | Some (Inr _) \<Rightarrow> Some (Inr t)
          else Some (Inr t))"

text \<open>The first keys of every \<open>jump\<close>-th block, for \<open>n\<close> splits of a table.\<close>

definition KeySplits :: "open_table \<Rightarrow> nat \<Rightarrow> bytes \<Rightarrow> bytes list" where
  "KeySplits t n pfx =
     (if n = 0 then []
      else let oLen = length (ti_offsets (ot_index t)); jump = (if oLen div n = 0 then 1 else oLen div n)
        in map (\<lambda>i. bo_key (ti_offsets (ot_index t) ! i))
             (filter (\<lambda>i. i mod jump = 0 \<and> has_prefix (bo_key (ti_offsets (ot_index t) ! i)) pfx) [0..<oLen]))"

section \<open>Blocks come back\<close>

text \<open>What is asked of the third-party code.\<close>

definition codec_ok :: "table_codec \<Rightarrow> bool" where
  "codec_ok tc \<longleftrightarrow> (\<forall>s. tc_unsum tc (tc_sum tc s) = Some s) \<and> (\<forall>s. length (tc_sum tc s) < 2 ^ 30) \<and>
     (\<forall>ix. length (tc_index tc ix) < 2 ^ 32 \<longrightarrow> tc_unindex tc (tc_index tc ix) = ix) \<and>
     (\<forall>d. tc_decompress tc (tc_compress tc d) = Some d) \<and> (\<forall>i. length (tc_iv tc i) = 16)"

lemma XORBlock_twice [simp]: "XORBlock f (XORBlock f d) = d"
  by (rule nth_equalityI) (simp_all add: XORBlock_def xor.assoc)

lemma length_XORBlock [simp]: "length (XORBlock f d) = length d"
  by (simp add: XORBlock_def)

lemma tb_decrypt_encrypt: "length iv = 16 \<Longrightarrow> tb_decrypt tc (tb_encrypt tc iv d) = Some d"
proof -
  assume iv: "length iv = 16"
  let ?x = "XORBlock (tc_stream tc iv) d"
  have "go_slice (?x @ iv) (int (length d)) (int (length d + 16)) = Some iv"
    by (subst slice_simps) (simp_all add: iv)
  moreover have "go_slice (?x @ iv) (int 0) (int (length d)) = Some ?x"
    by (subst slice_simps) (simp_all add: iv)
  ultimately show ?thesis by (simp add: tb_decrypt_def tb_encrypt_def iv)
qed

lemma concat_part:
  assumes "i < length xss"
  shows "go_slice (concat xss @ r) (int (length (concat (take i xss)))) (int (length (concat (take i xss))) + int (length (xss ! i))) = Some (xss ! i)"
proof -
  have "concat xss @ r = concat (take i xss) @ xss ! i @ (concat (drop (Suc i) xss) @ r)"
    using id_take_nth_drop [OF assms] by (metis append.assoc concat.simps(2) concat_append)
  then show ?thesis using go_slice_middle [of "concat (take i xss)" "xss ! i" "concat (drop (Suc i) xss) @ r"] by (simp del: length_concat)
qed

lemma sealed_offset_bound:
  "i < length cs \<Longrightarrow> sealed_offset tc opt cs i + length (sealed tc opt cs i) \<le> length (concat (sealed_all tc opt cs))"
proof -
  assume i: "i < length cs"
  let ?xss = "sealed_all tc opt cs"
  have "i < length ?xss" "?xss ! i = sealed tc opt cs i" using i by (simp_all add: sealed_all_def)
  then have "concat ?xss = concat (take i ?xss) @ sealed tc opt cs i @ concat (drop (Suc i) ?xss)"
    using id_take_nth_drop by (metis concat.simps(2) concat_append)
  then have "length (concat ?xss) = length (concat (take i ?xss) @ sealed tc opt cs i @ concat (drop (Suc i) ?xss))" by simp
  then show ?thesis unfolding sealed_offset_def by (simp del: length_concat)
qed

text \<open>What the readers rely on: the blocks are those of the chunks.\<close>

definition reads :: "table_codec \<Rightarrow> open_table \<Rightarrow> chunk list \<Rightarrow> bool" where
  "reads tc t cs \<longleftrightarrow> length (ti_offsets (ot_index t)) = length cs \<and> (\<forall>c \<in> set cs. chunk_ok c) \<and>
     (\<forall>i < length cs. bo_key (ti_offsets (ot_index t) ! i) = fst (cs ! i) \<and>
        (\<exists>b. read_block tc t (int i) = Some (Inr b) \<and> bi_inv (fst (cs ! i)) (snd (cs ! i)) (setBlock b) \<and>
           bk_checksum b = calculateChecksum (tc_sum tc) (bk_data b)))"

lemma file_reads:
  assumes c: "codec_ok tc" and ok: "\<forall>c \<in> set cs. chunk_ok c" and small: "length (concat (sealed_all tc opt cs)) < 2 ^ 32"
    and t: "ot_data t = concat (sealed_all tc opt cs) @ r" "ot_opt t = opt"
      "ti_offsets (ot_index t) = map (\<lambda>i. \<lparr>bo_key = fst (cs ! i), bo_offset = word_of_nat (sealed_offset tc opt cs i),
         bo_len = word_of_nat (length (sealed tc opt cs i))\<rparr>) [0..<length cs]"
  shows "reads tc t cs"
proof -
  have "\<exists>b. read_block tc t (int i) = Some (Inr b) \<and> bi_inv (fst (cs ! i)) (snd (cs ! i)) (setBlock b) \<and>
      bk_checksum b = calculateChecksum (tc_sum tc) (bk_data b)" if i: "i < length cs" for i
  proof -
    let ?s = "sealed tc opt cs i" and ?o = "sealed_offset tc opt cs i"
    have u: "unat (word_of_nat ?o :: u32) = ?o" "unat (word_of_nat (length ?s) :: u32) = length ?s"
      using sealed_offset_bound [OF i, of tc opt] small by (simp_all add: unat_of_nat del: length_concat)
    have "go_slice (ot_data t) (int ?o) (int ?o + int (length ?s)) = Some ?s"
      using concat_part [of i "sealed_all tc opt cs" r] i unfolding t(1) sealed_offset_def by (simp add: sealed_all_def del: length_concat)
    then have d0: "go_slice (ot_data t) (int (unat (word_of_nat ?o :: u32))) (int (unat (word_of_nat ?o :: u32)) + int (unat (word_of_nat (length ?s) :: u32))) = Some ?s"
      unfolding u .
    let ?d = "bb_data (chunk_block (tc_sum tc) (cs ! i))"
    have iv: "length (tc_iv tc i) = 16" using c by (simp add: codec_ok_def)
    have d1: "(if shouldEncrypt opt then tb_decrypt tc ?s else Some ?s) = Some (if to_Compression opt \<noteq> 0 then tc_compress tc ?d else ?d)"
      using tb_decrypt_encrypt [OF iv] by (simp add: sealed_def handleBlock_def Let_def)
    have d2: "(if to_Compression opt = 0 then Some (if to_Compression opt \<noteq> 0 then tc_compress tc ?d else ?d)
        else tc_decompress tc (if to_Compression opt \<noteq> 0 then tc_compress tc ?d else ?d)) = Some ?d"
      using c by (simp add: codec_ok_def)
    have ck: "chunk_ok (cs ! i)" using ok i by simp
    have sums: "\<forall>s. length (tc_sum tc s) < 2 ^ 30" "\<forall>s. tc_unsum tc (tc_sum tc s) = Some s" using c by (simp_all add: codec_ok_def)
    obtain b where b: "parse_block ?d = Some (Inr b)" "bi_inv (fst (cs ! i)) (snd (cs ! i)) (setBlock b)"
      "bk_checksum b = calculateChecksum (tc_sum tc) (bk_data b)"
      using parse_block_finish [of "snd (cs ! i)" "tc_sum tc" "fst (cs ! i)"] ck sums(1) by (auto simp: chunk_block_def chunk_ok_def items_ok_def)
    have v: "verifyChecksum (tc_unsum tc) (bk_data b) (bk_checksum b) = None"
      unfolding b(3) by (rule verifyChecksum_ok [OF sums(2)])
    have "read_block tc t (int i) = Some (Inr b)"
      using i d0 by (simp add: read_block_def t Let_def d1 d2 b(1) v del: of_nat_unat)
    then show ?thesis using b by blast
  qed
  then show ?thesis using ok by (simp add: reads_def t(3))
qed

section \<open>Where an iterator stands\<close>

definition it_at :: "chunk list \<Rightarrow> nat \<Rightarrow> nat \<Rightarrow> titer \<Rightarrow> bool" where
  "it_at cs b i itr \<longleftrightarrow> b < length cs \<and> i < length (snd (cs ! b)) \<and> it_bpos itr = int b \<and> it_err itr = It_OK \<and>
     bi_inv (fst (cs ! b)) (snd (cs ! b)) (it_bi itr) \<and> at_item (snd (cs ! b) ! i) (int i) (it_bi itr)"

lemma enter_item:
  assumes r: "reads tc t cs" and b: "b < length cs" "it_bpos itr = int b" and i: "i < length (snd (cs ! b))"
    and p: "\<And>bi. length (bi_entryOffsets bi) = length (snd (cs ! b)) \<Longrightarrow> position bi = setIdx bi (int i)"
  shows "\<exists>itr'. enter_block tc t itr position = Some itr' \<and> it_at cs b i itr'"
proof -
  obtain bk where bk: "read_block tc t (int b) = Some (Inr bk)" "bi_inv (fst (cs ! b)) (snd (cs ! b)) (setBlock bk)"
    using r b(1) by (auto simp: reads_def)
  have ok: "items_ok (fst (cs ! b)) (snd (cs ! b))" using r b(1) by (simp add: reads_def chunk_ok_def)
  have len: "length (bi_entryOffsets (setBlock bk)) = length (snd (cs ! b))" using bk(2) by (simp add: bi_inv_def)
  obtain bi where bi: "setIdx (setBlock bk) (int i) = Some bi" "bi_inv (fst (cs ! b)) (snd (cs ! b)) bi" "at_item (snd (cs ! b) ! i) (int i) bi"
    using setIdx_item [OF ok bk(2) i] by blast
  have "\<not> bi_eof bi" using bi(3) by (simp add: at_item_def)
  then show ?thesis
    using bk(1) b i bi p [OF len] by (simp add: enter_block_def it_at_def bi_error_def)
qed

lemma enter_first: "reads tc t cs \<Longrightarrow> b < length cs \<Longrightarrow> it_bpos itr = int b \<Longrightarrow>
    \<exists>itr'. enter_block tc t itr bi_seekToFirst = Some itr' \<and> it_at cs b 0 itr'"
  by (rule enter_item) (simp_all add: bi_seekToFirst_def reads_def chunk_ok_def)

lemma enter_last: "reads tc t cs \<Longrightarrow> b < length cs \<Longrightarrow> it_bpos itr = int b \<Longrightarrow>
    \<exists>itr'. enter_block tc t itr bi_seekToLast = Some itr' \<and> it_at cs b (length (snd (cs ! b)) - 1) itr'"
  by (rule enter_item) (simp_all add: bi_seekToLast_def reads_def chunk_ok_def of_nat_diff Suc_leI)

lemma numBlocks_chunks: "reads tc t cs \<Longrightarrow> numBlocks t = int (length cs)"
  by (simp add: numBlocks_def reads_def)

lemma item_bytes_nonempty: "item_bytes x \<noteq> []"
  by (cases x) (simp add: item_bytes_def flip: length_greater_0_conv)

lemma at_data: "it_at cs b i itr \<Longrightarrow> bi_data (it_bi itr) \<noteq> []"
proof -
  assume "it_at cs b i itr"
  then have "bi_data (it_bi itr) = items_bytes (snd (cs ! b))" "snd (cs ! b) \<noteq> []" by (auto simp: it_at_def bi_inv_def)
  then show ?thesis using item_bytes_nonempty by (cases "snd (cs ! b)") auto
qed

lemma next_at:
  assumes r: "reads tc t cs" and a: "it_at cs b i itr"
  shows "\<exists>itr'. it_next tc t itr = Some itr' \<and>
    (if Suc i < length (snd (cs ! b)) then it_at cs b (Suc i) itr'
     else if Suc b < length cs then it_at cs (Suc b) 0 itr' else it_err itr' = It_EOF)"
proof -
  let ?xs = "snd (cs ! b)"
  have b: "b < length cs" "it_bpos itr = int b" "bi_inv (fst (cs ! b)) ?xs (it_bi itr)" "bi_idx (it_bi itr) = int i"
    using a by (auto simp: it_at_def at_item_def)
  have ok: "items_ok (fst (cs ! b)) ?xs" using r b(1) by (simp add: reads_def chunk_ok_def)
  have len: "length (bi_entryOffsets (it_bi itr)) = length ?xs" using b(3) by (simp add: bi_inv_def)
  note step = it_next.simps [of tc t itr] and nb = numBlocks_chunks [OF r]
  show ?thesis
  proof (cases "Suc i < length ?xs")
    case True
    obtain bi where bi: "setIdx (it_bi itr) (int (Suc i)) = Some bi" "bi_inv (fst (cs ! b)) ?xs bi" "at_item (?xs ! Suc i) (int (Suc i)) bi"
      using setIdx_item [OF ok b(3) True] by blast
    have "bi_next (it_bi itr) = Some bi" using bi(1) by (simp add: bi_next_def b(4) add.commute)
    then have "it_next tc t itr = Some (itr\<lparr>it_err := It_OK, it_bi := bi\<rparr>)"
      using step nb b(1,2) at_data [OF a] bi(3) by (simp add: at_item_def)
    moreover have "it_at cs b (Suc i) (itr\<lparr>it_err := It_OK, it_bi := bi\<rparr>)" using bi b True by (simp add: it_at_def)
    ultimately show ?thesis using True by simp
  next
    case False
    have "i < length ?xs" using a by (simp add: it_at_def)
    then have i: "int i + 1 = int (length ?xs)" using False by linarith
    let ?bi = "(it_bi itr)\<lparr>bi_idx := int i + 1, bi_eof := True\<rparr>"
    have n: "bi_next (it_bi itr) = Some ?bi" unfolding bi_next_def b(4) by (rule setIdx_out) (simp add: len i)
    let ?itr = "itr\<lparr>it_err := It_OK, it_bpos := int b + 1, it_bi := ?bi\<lparr>bi_data := []\<rparr>\<rparr>"
    have same: "?itr\<lparr>it_err := It_OK\<rparr> = ?itr" by (rule titer.equality) simp_all
    have e: "it_next tc t itr = it_next tc t ?itr"
      using step nb b(1,2) at_data [OF a] n by simp
    show ?thesis
    proof (cases "Suc b < length cs")
      case True
      have "it_next tc t ?itr = enter_block tc t ?itr bi_seekToFirst"
        using it_next.simps [of tc t ?itr, unfolded same Let_def] nb True by simp
      then show ?thesis using enter_first [OF r True, of ?itr] False True e by simp
    next
      case last: False
      have "it_next tc t ?itr = Some (?itr\<lparr>it_err := It_EOF\<rparr>)"
        using it_next.simps [of tc t ?itr] nb last b(1) by simp
      then show ?thesis using False last e by simp
    qed
  qed
qed

lemma prev_at:
  assumes r: "reads tc t cs" and b: "b < length cs" "it_bpos itr = int b" "bi_inv (fst (cs ! b)) (snd (cs ! b)) (it_bi itr)"
    and i: "bi_idx (it_bi itr) = int i" "i \<le> length (snd (cs ! b))"
  shows "\<exists>itr'. it_prev tc t itr = Some itr' \<and>
    (if 0 < i then it_at cs b (i - 1) itr'
     else if 0 < b then it_at cs (b - 1) (length (snd (cs ! (b - 1))) - 1) itr' else it_err itr' = It_EOF)"
proof -
  let ?xs = "snd (cs ! b)"
  have ok: "items_ok (fst (cs ! b)) ?xs" "?xs \<noteq> []" using r b(1) by (simp_all add: reads_def chunk_ok_def)
  have len: "length (bi_entryOffsets (it_bi itr)) = length ?xs" using b(3) by (simp add: bi_inv_def)
  have ne: "bi_data (it_bi itr) \<noteq> []" using b(3) ok(2) item_bytes_nonempty by (cases ?xs) (auto simp: bi_inv_def)
  note step = it_prev.simps [of tc t itr]
  show ?thesis
  proof (cases "0 < i")
    case True
    then have lt: "i - 1 < length ?xs" using i(2) by simp
    obtain bi where bi: "setIdx (it_bi itr) (int (i - 1)) = Some bi" "bi_inv (fst (cs ! b)) ?xs bi" "at_item (?xs ! (i - 1)) (int (i - 1)) bi"
      using setIdx_item [OF ok(1) b(3) lt] by blast
    have "bi_prev (it_bi itr) = Some bi" using bi(1) True by (simp add: bi_prev_def i(1) of_nat_diff)
    then have "it_prev tc t itr = Some (itr\<lparr>it_err := It_OK, it_bi := bi\<rparr>)"
      using step b(1,2) ne bi(3) by (simp add: at_item_def)
    moreover have "it_at cs b (i - 1) (itr\<lparr>it_err := It_OK, it_bi := bi\<rparr>)" using bi b lt by (simp add: it_at_def)
    ultimately show ?thesis using True by simp
  next
    case False
    let ?bi = "(it_bi itr)\<lparr>bi_idx := int i - 1, bi_eof := True\<rparr>"
    have n: "bi_prev (it_bi itr) = Some ?bi" unfolding bi_prev_def i(1) by (rule setIdx_out) (use False in simp)
    let ?itr = "itr\<lparr>it_err := It_OK, it_bpos := int b - 1, it_bi := ?bi\<lparr>bi_data := []\<rparr>\<rparr>"
    have same: "?itr\<lparr>it_err := It_OK\<rparr> = ?itr" by (rule titer.equality) simp_all
    have e: "it_prev tc t itr = it_prev tc t ?itr"
      using step b(1,2) ne n by simp
    show ?thesis
    proof (cases "0 < b")
      case True
      have "it_prev tc t ?itr = enter_block tc t ?itr bi_seekToLast"
        using it_prev.simps [of tc t ?itr, unfolded same Let_def] True by simp
      then show ?thesis using enter_last [OF r, of "b - 1" ?itr] False True b(1) e by (simp add: of_nat_diff)
    next
      case first: False
      have "it_prev tc t ?itr = Some (?itr\<lparr>it_err := It_EOF\<rparr>)"
        using it_prev.simps [of tc t ?itr] first by simp
      then show ?thesis using False first e by simp
    qed
  qed
qed

end
