(* ===== verification/TableIter.thy ===== *)
theory TableIter
  imports TableRead
begin

text \<open>
  What the iterator of an open table goes through: the entries that were added, in order. The
  position in a block becomes one position in the list of all entries, so the iterator is an
  \<open>iterator\<close> (theory \<open>Iterators\<close>) and \<open>seek\<close> is a search in a sorted list.
\<close>

section \<open>One position\<close>

definition flat :: "chunk list \<Rightarrow> nat \<Rightarrow> nat \<Rightarrow> nat" where
  "flat cs b i = length (chunk_entries (take b cs)) + i"

lemma flat_Suc: "flat cs b (Suc i) = Suc (flat cs b i)"
  by (simp add: flat_def)

lemma flat_end: "b < length cs \<Longrightarrow> flat cs b (length (snd (cs ! b))) = flat cs (Suc b) 0"
  by (simp add: flat_def take_Suc_conv_app_nth)

lemma flat_over: "length cs \<le> b \<Longrightarrow> flat cs b 0 = length (chunk_entries cs)"
  by (simp add: flat_def)

lemma chunk_entries_split:
  assumes "b < length cs"
  shows "chunk_entries cs = chunk_entries (take b cs) @ map item_entry (snd (cs ! b)) @ chunk_entries (drop (Suc b) cs)"
  using id_take_nth_drop [OF assms] chunk_entries_simps(2,3) by metis

lemma flat_nth:
  assumes "b < length cs" and "i < length (snd (cs ! b))"
  shows "flat cs b i < length (chunk_entries cs)" and "chunk_entries cs ! flat cs b i = item_entry (snd (cs ! b) ! i)"
proof -
  note e = chunk_entries_split [OF assms(1)]
  have "length (chunk_entries cs) = length (chunk_entries (take b cs)) + (length (snd (cs ! b)) + length (chunk_entries (drop (Suc b) cs)))"
    by (subst e) simp
  then show "flat cs b i < length (chunk_entries cs)" using assms(2) by (simp add: flat_def)
  show "chunk_entries cs ! flat cs b i = item_entry (snd (cs ! b) ! i)"
    by (subst e) (simp add: flat_def nth_append assms(2))
qed

text \<open>What \<open>Value\<close> makes of an encoded value: never nil, and without a version.\<close>

definition as_read :: "bytes \<times> ValueStruct \<Rightarrow> bytes \<times> ValueStruct" where
  "as_read e = (fst e, (snd e)\<lparr>vs_Value := Some (slice_bytes (vs_Value (snd e))), vs_Version := 0\<rparr>)"

lemma fst_as_read [simp]: "fst (as_read e) = fst e"
  by (simp add: as_read_def)

lemma as_read_id: "vs_Value (snd e) \<noteq> None \<Longrightarrow> vs_Version (snd e) = 0 \<Longrightarrow> as_read e = e"
  by (cases e) (auto simp: as_read_def slice_bytes_def)

definition it_items :: "chunk list \<Rightarrow> titer \<Rightarrow> (bytes \<times> ValueStruct) list" where
  "it_items cs itr = (if it_Valid itr
     then map as_read (drop (flat cs (nat (it_bpos itr)) (nat (bi_idx (it_bi itr)))) (chunk_entries cs)) else [])"

definition it_good :: "table_codec \<Rightarrow> open_table \<Rightarrow> chunk list \<Rightarrow> titer \<Rightarrow> bool" where
  "it_good tc t cs itr \<longleftrightarrow> reads tc t cs \<and> (it_Valid itr \<longrightarrow> (\<exists>b i. it_at cs b i itr))"

lemma at_items:
  assumes "it_at cs b i itr"
  shows "it_items cs itr = map as_read (drop (flat cs b i) (chunk_entries cs))"
    and "it_items cs itr = as_read (item_entry (snd (cs ! b) ! i)) # map as_read (drop (flat cs b (Suc i)) (chunk_entries cs))"
proof -
  have "it_err itr = It_OK" "it_bpos itr = int b" "bi_idx (it_bi itr) = int i" "b < length cs" "i < length (snd (cs ! b))"
    using assms by (auto simp: it_at_def at_item_def)
  then show "it_items cs itr = map as_read (drop (flat cs b i) (chunk_entries cs))"
    and "it_items cs itr = as_read (item_entry (snd (cs ! b) ! i)) # map as_read (drop (flat cs b (Suc i)) (chunk_entries cs))"
    using flat_nth [of b cs i] by (simp_all add: it_items_def it_Valid_def flat_Suc flip: Cons_nth_drop_Suc)
qed

lemma at_entry:
  assumes "it_at cs b i itr"
  shows "it_Valid itr" and "(it_Key itr, the (it_Value itr)) = as_read (item_entry (snd (cs ! b) ! i))" and "it_Value itr \<noteq> None"
proof -
  obtain n k v where x: "snd (cs ! b) ! i = (n, k, v)" by (cases "snd (cs ! b) ! i")
  have "it_err itr = It_OK" "bi_key (it_bi itr) = k" "bi_val (it_bi itr) = EncodeTo v"
    using assms x by (auto simp: it_at_def at_item_def)
  then show "it_Valid itr" and "(it_Key itr, the (it_Value itr)) = as_read (item_entry (snd (cs ! b) ! i))" and "it_Value itr \<noteq> None"
    by (simp_all add: it_Valid_def it_Key_def it_Value_def Decode_EncodeTo as_read_def item_entry_def x zero_vs_def)
qed

lemma at_step:
  assumes r: "reads tc t cs" and a: "it_at cs b i itr"
  shows "\<exists>itr'. it_next tc t itr = Some itr' \<and> it_good tc t cs itr' \<and>
    it_items cs itr' = map as_read (drop (flat cs b (Suc i)) (chunk_entries cs))"
proof -
  obtain itr' where n: "it_next tc t itr = Some itr'" and
    c: "if Suc i < length (snd (cs ! b)) then it_at cs b (Suc i) itr'
      else if Suc b < length cs then it_at cs (Suc b) 0 itr' else it_err itr' = It_EOF"
    using next_at [OF r a] by blast
  have b: "b < length cs" "i < length (snd (cs ! b))" using a by (simp_all add: it_at_def)
  have "it_good tc t cs itr' \<and> it_items cs itr' = map as_read (drop (flat cs b (Suc i)) (chunk_entries cs))"
  proof (cases "Suc i < length (snd (cs ! b))")
    case True
    then have "it_at cs b (Suc i) itr'" using c by simp
    then show ?thesis using at_items(1) r by (auto simp: it_good_def)
  next
    case False
    then have e: "flat cs b (Suc i) = flat cs (Suc b) 0" using b flat_end [OF b(1)] by (simp add: le_less_Suc_eq not_less_eq)
    show ?thesis
    proof (cases "Suc b < length cs")
      case True
      then have "it_at cs (Suc b) 0 itr'" using c False by simp
      then show ?thesis using at_items(1) [of cs "Suc b" 0 itr'] r e by (auto simp: it_good_def)
    next
      case last: False
      then have "it_err itr' = It_EOF" using c False by simp
      then show ?thesis using e flat_over [of cs "Suc b"] last r by (simp add: it_good_def it_items_def it_Valid_def)
    qed
  qed
  then show ?thesis using n by blast
qed

interpretation ti: iterator it_Valid it_Key "\<lambda>i. the (it_Value i)" "\<lambda>i. the (it_next tc t i)" "it_items cs" "it_good tc t cs" for tc t cs
proof unfold_locales
  fix i assume "it_good tc t cs i"
  then have a: "it_Valid i \<Longrightarrow> \<exists>b j. it_at cs b j i" and r: "reads tc t cs" by (auto simp: it_good_def)
  show "it_Valid i \<longleftrightarrow> it_items cs i \<noteq> []"
  proof (cases "it_Valid i")
    case True
    then obtain b j where "it_at cs b j i" using a by blast
    then show ?thesis using at_items(2) True by simp
  qed (simp add: it_items_def)
  show "(it_Key i, the (it_Value i)) = hd (it_items cs i)" if v: "it_Valid i"
    using a [OF v] at_items(2) at_entry(2) by (metis list.sel(1))
  obtain b j where at: "it_Valid i \<Longrightarrow> it_at cs b j i" using a by blast
  show "it_good tc t cs (the (it_next tc t i))" if v: "it_Valid i"
    using at_step [OF r at [OF v]] by auto
  show "it_items cs (the (it_next tc t i)) = tl (it_items cs i)" if v: "it_Valid i"
    using at_step [OF r at [OF v]] at_items(2) [OF at [OF v]] by auto
qed

lemma chunks_nonempty: "reads tc t cs \<Longrightarrow> b < length cs \<Longrightarrow> snd (cs ! b) \<noteq> []"
  by (simp add: reads_def chunk_ok_def)

lemma rewind_items:
  assumes r: "reads tc t cs"
  shows "\<exists>itr'. it_Rewind tc t False itr = Some itr' \<and> it_good tc t cs itr' \<and> it_items cs itr' = map as_read (chunk_entries cs)"
proof (cases "cs = []")
  case True
  then show ?thesis using r numBlocks_chunks [OF r]
    by (simp add: it_Rewind_def it_seekToFirst_def it_good_def it_items_def it_Valid_def chunk_entries_def)
next
  case False
  then have b: "0 < length cs" by simp
  obtain itr' where "enter_block tc t (itr\<lparr>it_bpos := 0\<rparr>) bi_seekToFirst = Some itr'" "it_at cs 0 0 itr'"
    using enter_first [OF r b, of "itr\<lparr>it_bpos := 0\<rparr>"] by auto
  then show ?thesis using at_items(1) [of cs 0 0 itr'] r numBlocks_chunks [OF r] False
    by (auto simp: it_Rewind_def it_seekToFirst_def it_good_def flat_def)
qed

text \<open>The loop \<open>for it.Rewind(); it.Valid(); it.Next()\<close> over the whole table.\<close>

lemma rewind_drain:
  assumes "reads tc t cs" and "length (chunk_entries cs) \<le> n"
  shows "\<exists>itr'. it_Rewind tc t False itr = Some itr' \<and> ti.drain tc t n itr' = map as_read (chunk_entries cs)"
  using rewind_items [OF assms(1), of itr] ti.drain_all assms(2) by (metis length_map)

section \<open>Seeking\<close>

lemma search_loop_cong: "\<forall>h < j. f h = g h \<Longrightarrow> search_loop f i j = search_loop g i j"
proof (induction f i j rule: search_loop.induct)
  case (1 f i j)
  show ?case
  proof (cases "i < j")
    case True
    then have h: "f ((i + j) div 2) = g ((i + j) div 2)" using 1(3) by simp
    show ?thesis
      using True 1(3) 1(1) [OF True refl] 1(2) [OF True refl] by (simp add: search_loop.simps [of _ i j] h Let_def)
  qed (simp add: search_loop.simps)
qed

lemma takeWhile_full: "length xs \<le> length (takeWhile P xs) \<Longrightarrow> \<forall>x \<in> set xs. P x"
  by (induction xs) (auto split: if_splits)

lemma dropWhile_search:
  assumes "upward (length xs) (\<lambda>h. f (xs ! h))"
  shows "dropWhile (\<lambda>x. \<not> f x) xs = drop (sort_search (length xs) (\<lambda>h. f (xs ! h))) xs"
proof -
  let ?n = "sort_search (length xs) (\<lambda>h. f (xs ! h))"
  have t: "takeWhile (\<lambda>x. \<not> f x) xs = take ?n xs"
    by (rule takeWhile_eq_take_P_nth) (use sort_search_before [OF assms] sort_search_hit [of "length xs" "\<lambda>h. f (xs ! h)"] in auto)
  have "length (take ?n xs) = ?n" by simp
  then show ?thesis unfolding dropWhile_eq_drop t by simp
qed

definition key_below :: "bytes \<Rightarrow> bytes \<times> ValueStruct \<Rightarrow> bool" where
  "key_below key e \<longleftrightarrow> key_less (fst e) key"

definition in_order :: "(bytes \<times> ValueStruct) list \<Rightarrow> bool" where
  "in_order es \<longleftrightarrow> sorted_wrt key_less (map fst es)"

lemma in_order_append: "in_order (es @ fs) \<longleftrightarrow> in_order es \<and> in_order fs \<and> (\<forall>e \<in> set es. \<forall>f \<in> set fs. key_less (fst e) (fst f))"
  by (auto simp: in_order_def sorted_wrt_append)

lemma in_order_nth: "in_order es \<Longrightarrow> i < j \<Longrightarrow> j < length es \<Longrightarrow> key_less (fst (es ! i)) (fst (es ! j))"
  using sorted_wrt_nth_less [of key_less "map fst es" i j] by (simp add: in_order_def)

text \<open>What a seek within block \<open>b\<close> leaves behind.\<close>

definition sought :: "chunk list \<Rightarrow> bytes \<Rightarrow> nat \<Rightarrow> titer \<Rightarrow> bool" where
  "sought cs key b itr \<longleftrightarrow> (let xs = snd (cs ! b); n = length (takeWhile (key_below key) (map item_entry xs))
     in if n < length xs then it_at cs b n itr
        else it_err itr = It_EOF \<and> it_bpos itr = int b \<and> bi_inv (fst (cs ! b)) xs (it_bi itr) \<and> bi_idx (it_bi itr) = int (length xs))"

lemma seekHelper_sought:
  assumes r: "reads tc t cs" and b: "b < length cs" and s: "in_order (chunk_entries cs)"
  shows "\<exists>itr'. seekHelper tc t (int b) key itr = Some itr' \<and> sought cs key b itr'"
proof -
  let ?xs = "snd (cs ! b)" and ?f = "\<lambda>x. key_le key (item_key x)"
  obtain bk where bk: "read_block tc t (int b) = Some (Inr bk)" "bi_inv (fst (cs ! b)) ?xs (setBlock bk)"
    using r b by (auto simp: reads_def)
  have ok: "items_ok (fst (cs ! b)) ?xs" using r b by (simp add: reads_def chunk_ok_def)
  have srt: "in_order (map item_entry ?xs)" using s chunk_entries_split [OF b] by (metis in_order_append)
  have up: "upward (length ?xs) (\<lambda>h. ?f (?xs ! h))"
  proof (rule upwardI)
    fix i j assume "i \<le> j" "j < length ?xs" "?f (?xs ! i)"
    then show "?f (?xs ! j)" using in_order_nth [OF srt, of i j] key_le_less_trans [of key "item_key (?xs ! i)" "item_key (?xs ! j)"]
      by (cases "i = j") (auto simp: item_entry_def key_le_iff)
  qed
  let ?n = "sort_search (length ?xs) (\<lambda>h. ?f (?xs ! h))"
  have "takeWhile (key_below key) (map item_entry ?xs) = map item_entry (takeWhile (\<lambda>x. \<not> ?f x) ?xs)"
    by (simp add: takeWhile_map comp_def key_below_def item_entry_def flip: not_key_less)
  moreover have "length (takeWhile (\<lambda>x. \<not> ?f x) ?xs) = ?n"
  proof -
    have "length (takeWhile (\<lambda>x. \<not> ?f x) ?xs) + length (dropWhile (\<lambda>x. \<not> ?f x) ?xs) = length ?xs"
      by (metis length_append takeWhile_dropWhile_id)
    moreover have "length (dropWhile (\<lambda>x. \<not> ?f x) ?xs) = length ?xs - ?n" unfolding dropWhile_search [OF up] by simp
    ultimately show ?thesis using sort_search_le [of "length ?xs" "\<lambda>h. ?f (?xs ! h)"] by linarith
  qed
  ultimately have n: "length (takeWhile (key_below key) (map item_entry ?xs)) = ?n" by simp
  obtain bi where bi: "bi_seek (setBlock bk) key False = Some bi" "bi_inv (fst (cs ! b)) ?xs bi"
    "if ?n < length ?xs then at_item (?xs ! ?n) (int ?n) bi else bi_eof bi \<and> bi_idx bi = int (length ?xs)"
    using bi_seek_item [OF ok bk(2) up] by blast
  let ?itr = "itr\<lparr>it_bpos := int b, it_bi := bi, it_err := bi_error bi\<rparr>"
  have "seekHelper tc t (int b) key itr = Some ?itr" by (simp add: seekHelper_def enter_block_def bk(1) bi(1))
  moreover have "sought cs key b ?itr"
    using bi(2,3) b n by (auto simp: sought_def Let_def it_at_def at_item_def bi_error_def)
  ultimately show ?thesis by blast
qed

lemma base_first: "reads tc t cs \<Longrightarrow> b < length cs \<Longrightarrow> fst (item_entry (hd (snd (cs ! b)))) = fst (cs ! b)"
  by (simp add: reads_def chunk_ok_def items_ok_def item_entry_def)

lemma base_mem: "reads tc t cs \<Longrightarrow> b < length cs \<Longrightarrow> item_entry (hd (snd (cs ! b))) \<in> set (map item_entry (snd (cs ! b)))"
  using chunks_nonempty [of tc t cs b] by simp

text \<open>The keys before a block are below its first key, those after it above all of its keys.\<close>

lemma before_base:
  assumes "reads tc t cs" and "b < length cs" and "in_order (chunk_entries cs)" and "e \<in> set (chunk_entries (take b cs))"
  shows "key_less (fst e) (fst (cs ! b))"
  using assms(3,4) chunk_entries_split [OF assms(2)] base_mem [OF assms(1,2)] base_first [OF assms(1,2)]
  by (metis Un_iff in_order_append set_append)

lemma bases_up:
  assumes r: "reads tc t cs" and s: "in_order (chunk_entries cs)"
  shows "upward (length cs) (\<lambda>i. key_less key (fst (cs ! i)))"
proof (rule upwardI)
  fix i j assume i: "i \<le> j" "j < length cs" "key_less key (fst (cs ! i))"
  show "key_less key (fst (cs ! j))"
  proof (cases "i = j")
    case False
    then have "cs ! i \<in> set (take j cs)" using i by (auto simp: in_set_conv_nth intro!: exI [of _ i])
    then have "set (map item_entry (snd (cs ! i))) \<subseteq> set (chunk_entries (take j cs))" by (auto simp: chunk_entries_def)
    then have "item_entry (hd (snd (cs ! i))) \<in> set (chunk_entries (take j cs))"
      by (rule subsetD) (rule base_mem [OF r le_less_trans [OF i(1,2)]])
    then have "key_less (fst (item_entry (hd (snd (cs ! i))))) (fst (cs ! j))" by (rule before_base [OF r i(2) s])
    then have "key_less (fst (cs ! i)) (fst (cs ! j))" unfolding base_first [OF r le_less_trans [OF i(1,2)]] .
    then show ?thesis using i(3) key_less_trans by blast
  qed (use i in simp)
qed

lemma sought_items:
  assumes r: "reads tc t cs" and b: "b < length cs" and k: "sought cs key b itr" and s: "in_order (chunk_entries cs)"
    and before: "\<forall>e \<in> set (chunk_entries (take b cs)). key_below key e"
    and n: "length (takeWhile (key_below key) (map item_entry (snd (cs ! b)))) < length (snd (cs ! b))"
  shows "it_at cs b (length (takeWhile (key_below key) (map item_entry (snd (cs ! b))))) itr"
    and "it_items cs itr = map as_read (dropWhile (key_below key) (chunk_entries cs))"
    and "flat cs b (length (takeWhile (key_below key) (map item_entry (snd (cs ! b))))) = length (takeWhile (key_below key) (chunk_entries cs))"
proof -
  let ?m = "map item_entry (snd (cs ! b))"
  let ?n = "length (takeWhile (key_below key) ?m)" and ?A = "chunk_entries (take b cs)" and ?C = "chunk_entries (drop (Suc b) cs)"
  note e = chunk_entries_split [OF b]
  show at: "it_at cs b ?n itr" using k n by (simp add: sought_def Let_def)
  have "takeWhile (key_below key) (chunk_entries cs) = ?A @ takeWhile (key_below key) (?m @ ?C)"
    by (subst e) (use before in \<open>simp add: takeWhile_append2\<close>)
  also have "takeWhile (key_below key) (?m @ ?C) = takeWhile (key_below key) ?m"
  proof -
    have "\<not> key_below key (?m ! ?n)" using nth_length_takeWhile [of "key_below key" ?m] n by simp
    moreover have "?m ! ?n \<in> set ?m" using n by (intro nth_mem) simp
    ultimately show ?thesis by (rule takeWhile_append1 [rotated])
  qed
  finally have t: "takeWhile (key_below key) (chunk_entries cs) = ?A @ takeWhile (key_below key) ?m" .
  then show "flat cs b ?n = length (takeWhile (key_below key) (chunk_entries cs))" by (simp add: flat_def)
  then show "it_items cs itr = map as_read (dropWhile (key_below key) (chunk_entries cs))"
    using at_items(1) [OF at] by (simp add: dropWhile_eq_drop)
qed

text \<open>\<open>seek\<close> stands at the first entry that is not below the key.\<close>

lemma seek_split:
  assumes r: "reads tc t cs" and ne: "cs \<noteq> []" and s: "in_order (chunk_entries cs)"
  shows "\<exists>itr'. it_seek tc t key itr = Some itr' \<and> it_good tc t cs itr' \<and>
      it_items cs itr' = map as_read (dropWhile (key_below key) (chunk_entries cs)) \<and>
      (if \<forall>e \<in> set (chunk_entries cs). key_below key e
       then sought cs key (length cs - 1) itr' \<and> it_err itr' = It_EOF
       else \<exists>b i. it_at cs b i itr' \<and> flat cs b i = length (takeWhile (key_below key) (chunk_entries cs)))"
proof -
  let ?offs = "ti_offsets (ot_index t)" and ?f = "\<lambda>i. key_less key (fst (cs ! i))"
  have len: "length ?offs = length cs" using r by (simp add: reads_def)
  have idx: "sort_search (length cs) (\<lambda>i. 0 < cmp_keys (bo_key (?offs ! i)) key) = sort_search (length cs) ?f"
    unfolding sort_search_def using r
    by (intro search_loop_cong) (simp_all add: reads_def cmp_keys_greater)
  let ?idx = "sort_search (length cs) ?f"
  have le: "?idx \<le> length cs" by simp
  have hit: "?idx < length cs \<Longrightarrow> key_less key (fst (cs ! ?idx))" by (rule sort_search_hit)
  let ?itr0 = "itr\<lparr>it_bpos := 0, it_err := It_OK\<rparr>"
  note seek = it_seek_def [of tc t key itr, unfolded Let_def len idx]
  have found: ?thesis if st: "it_seek tc t key itr = Some itr'" and b: "b < length cs" and k: "sought cs key b itr'"
      and before: "\<forall>e \<in> set (chunk_entries (take b cs)). key_below key e"
      and n: "length (takeWhile (key_below key) (map item_entry (snd (cs ! b)))) < length (snd (cs ! b))" for itr' b
  proof -
    note i = sought_items [OF r b k s before n]
    have lt: "length (takeWhile (key_below key) (chunk_entries cs)) < length (chunk_entries cs)"
      using flat_nth(1) [OF b, of "length (takeWhile (key_below key) (map item_entry (snd (cs ! b))))"] n i(3) by simp
    have "\<not> (\<forall>e \<in> set (chunk_entries cs). key_below key e)"
    proof
      assume "\<forall>e \<in> set (chunk_entries cs). key_below key e"
      then have "takeWhile (key_below key) (chunk_entries cs) = chunk_entries cs" using takeWhile_eq_all_conv by blast
      with lt show False by simp
    qed
    then show ?thesis using st i(1-3) r by (auto simp: it_good_def)
  qed
  have high: "length (takeWhile (key_below key) (map item_entry (snd (cs ! b)))) = 0"
    if b: "b < length cs" and k: "key_less key (fst (cs ! b))" for b
  proof -
    have "\<not> key_below key (item_entry (hd (snd (cs ! b))))" using base_first [OF r b] k key_less_asym by (simp add: key_below_def)
    then show ?thesis using chunks_nonempty [OF r b] by (cases "snd (cs ! b)") simp_all
  qed
  show ?thesis
  proof (cases "?idx = 0")
    case True
    have b: "0 < length cs" using ne by simp
    obtain itr' where h: "seekHelper tc t (int 0) key ?itr0 = Some itr'" "sought cs key 0 itr'"
      using seekHelper_sought [OF r b s] by blast
    have "key_less key (fst (cs ! 0))" using hit True b by simp
    then have "length (takeWhile (key_below key) (map item_entry (snd (cs ! 0)))) < length (snd (cs ! 0))"
      using high [OF b] chunks_nonempty [OF r b] by simp
    moreover have "it_seek tc t key itr = Some itr'" using seek True h(1) by simp
    ultimately show ?thesis by (intro found [OF _ b h(2)]) simp_all
  next
    case False
    let ?b = "?idx - 1"
    have b: "?b < length cs" "Suc ?b = ?idx" using False le by linarith+
    have low: "key_le (fst (cs ! ?b)) key" using sort_search_pred [of "length cs" ?f] False by (simp add: not_key_less)
    have before: "\<forall>e \<in> set (chunk_entries (take ?b cs)). key_below key e"
      using before_base [OF r b(1) s] key_less_le_trans [OF _ low] by (auto simp: key_below_def)
    obtain itr1 where h: "seekHelper tc t (int ?b) key ?itr0 = Some itr1" "sought cs key ?b itr1"
      using seekHelper_sought [OF r b(1) s] by blast
    let ?m = "map item_entry (snd (cs ! ?b))"
    have ib: "int ?idx - 1 = int ?b" using False by (simp add: of_nat_diff)
    show ?thesis
    proof (cases "length (takeWhile (key_below key) ?m) < length (snd (cs ! ?b))")
      case True
      then have "it_err itr1 = It_OK" using h(2) by (simp add: sought_def Let_def it_at_def)
      then have "it_seek tc t key itr = Some itr1" unfolding seek if_not_P [OF False] ib h(1) by simp
      then show ?thesis by (rule found [OF _ b(1) h(2) before True])
    next
      case end_of_block: False
      then have eof: "it_err itr1 = It_EOF" using h(2) by (simp add: sought_def Let_def)
      have all_m: "\<forall>e \<in> set ?m. key_below key e" by (rule takeWhile_full) (use end_of_block in simp)
      have parts: "chunk_entries (take ?idx cs) = chunk_entries (take ?b cs) @ ?m"
      proof -
        have "take ?idx cs = take ?b cs @ [cs ! ?b]" using take_Suc_conv_app_nth [OF b(1)] unfolding b(2) .
        then show ?thesis by simp
      qed
      then have upto: "\<forall>e \<in> set (chunk_entries (take ?idx cs)). key_below key e" using before all_m by auto
      show ?thesis
      proof (cases "?idx = length cs")
        case True
        have st: "it_seek tc t key itr = Some itr1" unfolding seek if_not_P [OF False] ib h(1) using eof True by simp
        have all: "\<forall>e \<in> set (chunk_entries cs). key_below key e" using upto True by simp
        then have "dropWhile (key_below key) (chunk_entries cs) = []" by (simp add: dropWhile_eq_Nil_conv)
        then show ?thesis using st all eof h(2) True r by (simp add: it_good_def it_items_def it_Valid_def)
      next
        case more: False
        then have b2: "?idx < length cs" by (rule le_neq_implies_less [OF le])
        obtain itr2 where h2: "seekHelper tc t (int ?idx) key itr1 = Some itr2" "sought cs key ?idx itr2"
          using seekHelper_sought [OF r b2 s] by blast
        have st: "it_seek tc t key itr = Some itr2" unfolding seek if_not_P [OF False] ib h(1) using eof more h2(1) by simp
        have "length (takeWhile (key_below key) (map item_entry (snd (cs ! ?idx)))) < length (snd (cs ! ?idx))"
          using high [OF b2 hit [OF b2]] chunks_nonempty [OF r b2] by simp
        then show ?thesis by (rule found [OF st b2 h2(2) upto])
      qed
    qed
  qed
qed

text \<open>\<open>seekForPrev\<close> stands at the last entry that is not above the key.\<close>

lemma takeWhile_le_below:
  assumes s: "in_order es" and n: "n = length (takeWhile (key_below key) es)" "n < length es"
  shows "length (takeWhile (\<lambda>e. key_le (fst e) key) es) = (if fst (es ! n) = key then Suc n else n)"
proof -
  have nb: "key_le key (fst (es ! n))" using nth_length_takeWhile [of "key_below key" es] n by (simp add: key_below_def not_key_less)
  have lt: "key_le (fst (es ! i)) key" if "i < n" for i
    using that n takeWhile_nth [of i "key_below key" es] nth_mem [of i "takeWhile (key_below key) es"] set_takeWhileD [of "es ! i" "key_below key" es]
    by (simp add: key_below_def key_le_iff)
  have "takeWhile (\<lambda>e. key_le (fst e) key) es = take (if fst (es ! n) = key then Suc n else n) es"
  proof (rule takeWhile_eq_take_P_nth)
    fix i assume "i < (if fst (es ! n) = key then Suc n else n)" "i < length es"
    then show "key_le (fst (es ! i)) key" using lt [of i] by (cases "i < n") (auto split: if_splits simp: less_Suc_eq)
  next
    assume l: "(if fst (es ! n) = key then Suc n else n) < length es"
    show "\<not> key_le (fst (es ! (if fst (es ! n) = key then Suc n else n))) key"
    proof (cases "fst (es ! n) = key")
      case True
      then show ?thesis using in_order_nth [OF s, of n "Suc n"] l by (simp flip: not_key_less add: key_less_asym)
    next
      case False
      then show ?thesis using nb by (auto simp: key_le_iff not_key_less dest: key_less_asym)
    qed
  qed
  then show ?thesis using n(2) by simp
qed

lemma seekForPrev_split:
  assumes r: "reads tc t cs" and ne: "cs \<noteq> []" and s: "in_order (chunk_entries cs)" and key: "key \<noteq> []"
  defines "n \<equiv> length (takeWhile (\<lambda>e. key_le (fst e) key) (chunk_entries cs))"
  shows "\<exists>itr'. it_seekForPrev tc t key itr = Some itr' \<and>
    (if n = 0 then it_err itr' = It_EOF else \<exists>b i. it_at cs b i itr' \<and> flat cs b i = n - 1)"
proof -
  obtain itr1 where st: "it_seek tc t key itr = Some itr1" and
    c: "if \<forall>e \<in> set (chunk_entries cs). key_below key e then sought cs key (length cs - 1) itr1 \<and> it_err itr1 = It_EOF
       else \<exists>b i. it_at cs b i itr1 \<and> flat cs b i = length (takeWhile (key_below key) (chunk_entries cs))"
    using seek_split [OF r ne s, of key itr] by blast
  show ?thesis
  proof (cases "\<forall>e \<in> set (chunk_entries cs). key_below key e")
    case True
    let ?b = "length cs - 1"
    have b: "?b < length cs" using ne by simp
    note ch = chunk_entries_split [OF b]
    have k: "it_bpos itr1 = int ?b" "bi_inv (fst (cs ! ?b)) (snd (cs ! ?b)) (it_bi itr1)" "bi_idx (it_bi itr1) = int (length (snd (cs ! ?b)))"
      using c True by (auto simp: sought_def Let_def it_at_def split: if_splits)
    have other: "bi_key (it_bi itr1) \<noteq> key"
    proof
      assume e: "bi_key (it_bi itr1) = key"
      then have "key \<in> (\<lambda>x. item_key x) ` set (snd (cs ! ?b))" using k(2) key by (auto simp: bi_inv_def comp_def)
      then obtain x where "x \<in> set (snd (cs ! ?b))" "key = item_key x" by blast
      then have "item_entry x \<in> set (map item_entry (snd (cs ! ?b)))" and k: "fst (item_entry x) = key" by (simp_all add: item_entry_def)
      then have "item_entry x \<in> set (chunk_entries cs)" by (subst ch) simp
      then show False using True k by (auto simp: key_below_def)
    qed
    have l: "0 < length (snd (cs ! ?b))" using chunks_nonempty [OF r b] by simp
    obtain itr2 where p: "it_prev tc t itr1 = Some itr2" "it_at cs ?b (length (snd (cs ! ?b)) - 1) itr2"
      using prev_at [OF r b k(1,2,3)] l by auto
    have "takeWhile (\<lambda>e. key_le (fst e) key) (chunk_entries cs) = chunk_entries cs"
      using True takeWhile_eq_all_conv [of "\<lambda>e. key_le (fst e) key" "chunk_entries cs"] by (auto simp only: key_below_def key_le_iff)
    then have n: "n = length (chunk_entries cs)" unfolding n_def by (rule arg_cong)
    have "length (chunk_entries cs) = flat cs ?b (length (snd (cs ! ?b)))"
      using flat_end [OF b] flat_over [of cs "Suc ?b"] by simp
    then have "flat cs ?b (length (snd (cs ! ?b)) - 1) = n - 1" "n \<noteq> 0" using l n unfolding flat_def by linarith+
    then show ?thesis using st other p by (auto simp: it_seekForPrev_def)
  next
    case False
    then obtain b i where at: "it_at cs b i itr1" and f: "flat cs b i = length (takeWhile (key_below key) (chunk_entries cs))"
      using c [unfolded if_not_P [OF False]] by blast
    have b: "b < length cs" "i < length (snd (cs ! b))" "it_bpos itr1 = int b" "bi_inv (fst (cs ! b)) (snd (cs ! b)) (it_bi itr1)" "bi_idx (it_bi itr1) = int i"
      using at by (auto simp: it_at_def at_item_def)
    have fk: "fst (chunk_entries cs ! flat cs b i) = bi_key (it_bi itr1)"
      using at_entry(2) [OF at] flat_nth(2) [OF b(1,2)] by (simp add: it_Key_def as_read_def)
    have nn: "n = (if bi_key (it_bi itr1) = key then Suc (flat cs b i) else flat cs b i)"
      using takeWhile_le_below [OF s f flat_nth(1) [OF b(1,2)]] unfolding fk n_def .
    show ?thesis
    proof (cases "bi_key (it_bi itr1) = key")
      case True
      then show ?thesis using st at nn by (auto simp: it_seekForPrev_def)
    next
      case other: False
      obtain itr2 where p: "it_prev tc t itr1 = Some itr2"
        "if 0 < i then it_at cs b (i - 1) itr2
         else if 0 < b then it_at cs (b - 1) (length (snd (cs ! (b - 1))) - 1) itr2 else it_err itr2 = It_EOF"
        using prev_at [OF r b(1,3,4,5)] b(2) by auto
      have f0: "it_seekForPrev tc t key itr = Some itr2" using st other p(1) by (simp add: it_seekForPrev_def)
      have n: "n = flat cs b i" using nn other by simp
      show ?thesis
      proof (cases "0 < i")
        case True
        then have "it_at cs b (i - 1) itr2" "flat cs b (i - 1) = n - 1" "n \<noteq> 0" using p(2) n by (simp_all add: flat_def)
        then show ?thesis using f0 by auto
      next
        case i0: False
        show ?thesis
        proof (cases "0 < b")
          case True
          let ?l = "length (snd (cs ! (b - 1)))"
          have l: "0 < ?l" using chunks_nonempty [OF r, of "b - 1"] b(1) by simp
          have "flat cs (b - 1) ?l = flat cs b 0" using flat_end [of "b - 1" cs] b(1) True by simp
          then have "flat cs (b - 1) (?l - 1) = n - 1" "n \<noteq> 0" using l n i0 unfolding flat_def by linarith+
          moreover have "it_at cs (b - 1) (?l - 1) itr2" using p(2) True i0 by simp
          ultimately show ?thesis using f0 by auto
        next
          case False
          then show ?thesis using f0 p(2) n i0 by (simp add: flat_def)
        qed
      qed
    qed
  qed
qed

end
