(* ===== verification/Compaction.thy ===== *)
theory Compaction
  imports Codec GoFloat
begin

text \<open>
  \<open>compaction.go\<close>: key ranges, the ranges under compaction at each level, and the
  operations \<open>compareAndAdd\<close> and \<open>delete\<close> with which the compactors claim and release
  them. The compactors and the status they share form a step relation; its invariant
  gives the isolation of running compactions.
\<close>

section \<open>Tables as the level structure sees them\<close>

text \<open>
  The accessors of \<open>table.Table\<close> that levels and compactions use. \<open>t_data\<close> holds the
  entries in key order; sizes are \<open>int64\<close> values, which stay far from \<open>2 ^ 63\<close>.
\<close>

record table =
  t_ID :: u64
  t_Smallest :: bytes
  t_Biggest :: bytes
  t_Size :: int
  t_StaleDataSize :: nat
  t_MaxVersion :: u64
  t_KeyID :: u64
  t_Compression :: u32
  t_IsInmemory :: bool
  t_Bloom :: "bytes option"
  t_data :: "(bytes \<times> ValueStruct) list"

text \<open>A table's bounds are internal keys, in order, around every key it holds.\<close>

definition table_ok :: "table \<Rightarrow> bool" where
  "table_ok t \<longleftrightarrow> key_ok (t_Smallest t) \<and> key_ok (t_Biggest t) \<and>
     key_le (t_Smallest t) (t_Biggest t) \<and>
     (\<forall>(k, v) \<in> set (t_data t). key_ok k \<and> key_le (t_Smallest t) k \<and> key_le k (t_Biggest t)) \<and>
     sorted_wrt key_less (map fst (t_data t))"

section \<open>Key ranges\<close>

record keyRange =
  kr_left :: bytes
  kr_right :: bytes
  kr_inf :: bool
  kr_size :: int

definition empty_range :: keyRange where
  "empty_range = \<lparr>kr_left = [], kr_right = [], kr_inf = False, kr_size = 0\<rparr>"

definition infRange :: keyRange where
  "infRange = \<lparr>kr_left = [], kr_right = [], kr_inf = True, kr_size = 0\<rparr>"

definition kr_isEmpty :: "keyRange \<Rightarrow> bool" where
  "kr_isEmpty r \<longleftrightarrow> length (kr_left r) = 0 \<and> length (kr_right r) = 0 \<and> \<not> kr_inf r"

definition kr_equals :: "keyRange \<Rightarrow> keyRange \<Rightarrow> bool" where
  "kr_equals r dst \<longleftrightarrow> kr_left r = kr_left dst \<and> kr_right r = kr_right dst \<and> kr_inf r = kr_inf dst"

text \<open>
  \<open>extend\<close>: an empty argument changes nothing; an empty receiver is replaced; then the
  ends move outwards. The keys compared are internal keys wherever the code gets here.
\<close>

definition kr_extend :: "keyRange \<Rightarrow> keyRange \<Rightarrow> keyRange" where
  "kr_extend r0 kr =
     (if kr_isEmpty kr then r0
      else
        let r = (if kr_isEmpty r0 then kr else r0);
            r = (if length (kr_left r) = 0 \<or> cmp_keys (kr_left kr) (kr_left r) < 0
                 then r\<lparr>kr_left := kr_left kr\<rparr> else r);
            r = (if length (kr_right r) = 0 \<or> cmp_keys (kr_right kr) (kr_right r) > 0
                 then r\<lparr>kr_right := kr_right kr\<rparr> else r)
        in if kr_inf kr then r\<lparr>kr_inf := True\<rparr> else r)"

text \<open>An empty receiver overlaps everything; an empty argument overlaps nothing else.\<close>

definition kr_overlapsWith :: "keyRange \<Rightarrow> keyRange \<Rightarrow> bool" where
  "kr_overlapsWith r dst =
     (if kr_isEmpty r then True
      else if kr_isEmpty dst then False
      else if kr_inf r \<or> kr_inf dst then True
      else if cmp_keys (kr_left r) (kr_right dst) > 0 then False
      else if cmp_keys (kr_right r) (kr_left dst) < 0 then False
      else True)"

text \<open>
  \<open>getKeyRange\<close>: the smallest and the biggest key of the tables, widened to all
  versions of their user keys.
\<close>

definition min_key :: "bytes \<Rightarrow> table \<Rightarrow> bytes" where
  "min_key smallest t = (if cmp_keys (t_Smallest t) smallest < 0 then t_Smallest t else smallest)"

definition max_key :: "bytes \<Rightarrow> table \<Rightarrow> bytes" where
  "max_key biggest t = (if cmp_keys (t_Biggest t) biggest > 0 then t_Biggest t else biggest)"

definition getKeyRange :: "table list \<Rightarrow> keyRange" where
  "getKeyRange tables = (case tables of [] \<Rightarrow> empty_range
     | t # ts \<Rightarrow>
        let smallest = foldl min_key (t_Smallest t) ts;
            biggest = foldl max_key (t_Biggest t) ts
        in \<lparr>kr_left = KeyWithTs (parse_key smallest) (- 1),
            kr_right = KeyWithTs (parse_key biggest) 0, kr_inf = False, kr_size = 0\<rparr>)"

text \<open>The set of internal keys a range stands for, and the ranges the code builds.\<close>

definition kr_keys :: "keyRange \<Rightarrow> bytes set" where
  "kr_keys r = (if kr_inf r then Collect key_ok
     else if kr_isEmpty r then {}
     else {k. key_ok k \<and> key_le (kr_left r) k \<and> key_le k (kr_right r)})"

definition kr_wf :: "keyRange \<Rightarrow> bool" where
  "kr_wf r \<longleftrightarrow> (if kr_inf r then kr_left r = [] \<and> kr_right r = []
     else key_ok (kr_left r) \<and> key_ok (kr_right r) \<and> key_le (kr_left r) (kr_right r))"

lemma kr_wf_infRange [simp, go_intros]: "kr_wf infRange"
  by (simp add: kr_wf_def infRange_def)

lemma kr_wf_nonempty: "kr_wf r \<Longrightarrow> \<not> kr_isEmpty r"
  by (auto simp: kr_wf_def kr_isEmpty_def key_ok_def split: if_splits)

lemma kr_isEmpty_empty_range [simp]: "kr_isEmpty empty_range"
  by (simp add: kr_isEmpty_def empty_range_def)

lemma kr_overlapsWith_wf:
  "kr_wf r \<Longrightarrow> kr_wf d \<Longrightarrow> kr_overlapsWith r d \<longleftrightarrow>
    kr_inf r \<or> kr_inf d \<or> key_le (kr_left r) (kr_right d) \<and> key_le (kr_left d) (kr_right r)"
  by (auto simp: kr_overlapsWith_def kr_wf_nonempty cmp_keys_greater
      simp flip: key_less_def not_key_less)

lemma kr_wf_key: "kr_wf r \<Longrightarrow> \<exists>k. k \<in> kr_keys r"
proof (cases "kr_inf r")
  case True
  moreover have "key_ok (KeyWithTs [] 0)" by simp
  ultimately show ?thesis unfolding kr_keys_def by (metis mem_Collect_eq)
next
  case False
  moreover assume "kr_wf r"
  ultimately show ?thesis
    using kr_wf_nonempty [of r] by (auto simp: kr_keys_def kr_wf_def)
qed

text \<open>For the ranges in use, overlapping means having a key in common.\<close>

lemma kr_overlapsWith_keys:
  assumes r: "kr_wf r" and d: "kr_wf d"
  shows "kr_overlapsWith r d \<longleftrightarrow> kr_keys r \<inter> kr_keys d \<noteq> {}"
proof (cases "kr_inf r \<or> kr_inf d")
  case True
  obtain k where "k \<in> kr_keys r" using kr_wf_key [OF r] ..
  moreover obtain k' where "k' \<in> kr_keys d" using kr_wf_key [OF d] ..
  ultimately have "kr_keys r \<inter> kr_keys d \<noteq> {}"
    using True by (auto simp: kr_keys_def split: if_splits)
  with True show ?thesis using kr_overlapsWith_wf [OF r d] by blast
next
  case False
  then have kr: "kr_keys r = {k. key_ok k \<and> key_le (kr_left r) k \<and> key_le k (kr_right r)}"
    and kd: "kr_keys d = {k. key_ok k \<and> key_le (kr_left d) k \<and> key_le k (kr_right d)}"
    using kr_wf_nonempty [OF r] kr_wf_nonempty [OF d] by (auto simp: kr_keys_def)
  have ok: "key_ok (kr_left r)" "key_ok (kr_left d)" "key_le (kr_left r) (kr_right r)"
    "key_le (kr_left d) (kr_right d)"
    using r d False by (auto simp: kr_wf_def)
  show ?thesis
  proof
    assume "kr_overlapsWith r d"
    then have a: "key_le (kr_left r) (kr_right d)" "key_le (kr_left d) (kr_right r)"
      using kr_overlapsWith_wf [OF r d] False by auto
    have "kr_left r \<in> kr_keys r \<inter> kr_keys d \<or> kr_left d \<in> kr_keys r \<inter> kr_keys d"
      unfolding kr kd using a ok by (metis (mono_tags, lifting) IntI key_le_iff key_le_refl mem_Collect_eq not_key_less)
    then show "kr_keys r \<inter> kr_keys d \<noteq> {}" by blast
  next
    assume "kr_keys r \<inter> kr_keys d \<noteq> {}"
    then show "kr_overlapsWith r d"
      using kr_overlapsWith_wf [OF r d] unfolding kr kd by (auto intro: key_le_trans)
  qed
qed

lemma kr_overlapsWith_sym:
  "kr_wf r \<Longrightarrow> kr_wf d \<Longrightarrow> kr_overlapsWith r d \<longleftrightarrow> kr_overlapsWith d r"
  by (simp add: kr_overlapsWith_keys Int_commute)

lemma kr_overlapsWith_refl: "kr_wf r \<Longrightarrow> kr_overlapsWith r r"
  using kr_wf_key [of r] by (auto simp: kr_overlapsWith_keys)

lemma kr_equals_keys: "kr_equals r d \<Longrightarrow> kr_keys r = kr_keys d \<and> kr_wf r = kr_wf d"
  by (auto simp: kr_equals_def kr_keys_def kr_wf_def kr_isEmpty_def)

lemma kr_equals_refl [simp]: "kr_equals r r"
  by (simp add: kr_equals_def)

text \<open>The range of a list of tables holds every version of every key in their bounds.\<close>

lemma suffix_min: "length s = 8 \<Longrightarrow> PutUint64 0 \<le> s"
  using be_get_less_iff [of s "PutUint64 0"]
  by (auto simp: not_less [symmetric] PutUint64_def be_get_put)

lemma suffix_max: "length s = 8 \<Longrightarrow> s \<le> PutUint64 (- 1)"
proof -
  assume l: "length s = 8"
  have "unat (- 1 :: u64) = 2 ^ 64 - 1"
    by (simp add: unsigned_minus_1_eq_mask mask_eq_exp_minus_1)
  then have "be_get (PutUint64 (- 1)) = 256 ^ 8 - 1"
    by (simp add: PutUint64_def be_get_put)
  moreover have "be_get s < 256 ^ 8" using be_get_less [of s] l by simp
  ultimately have "\<not> be_get (PutUint64 (- 1)) < be_get s" by simp
  then show ?thesis using be_get_less_iff [of "PutUint64 (- 1)" s] l by (auto simp: not_less)
qed

lemma length_key_suffix: "key_ok k \<Longrightarrow> length (key_suffix k) = 8"
  by (simp add: key_ok_def key_suffix_def)

lemma key_le_left_end: "key_ok k \<Longrightarrow> parse_key s \<le> parse_key k \<Longrightarrow> key_le (KeyWithTs (parse_key s) (- 1)) k"
  using suffix_min [of "key_suffix k"] length_key_suffix [of k]
  by (auto simp: key_le_iff key_less_alt key_suffix_KeyWithTs order_le_less intro: key_ext)

lemma key_le_right_end: "key_ok k \<Longrightarrow> parse_key k \<le> parse_key b \<Longrightarrow> key_le k (KeyWithTs (parse_key b) 0)"
  using suffix_max [of "key_suffix k"] length_key_suffix [of k]
  by (auto simp: key_le_iff key_less_alt key_suffix_KeyWithTs order_le_less intro: key_ext)

lemma key_le_parse: "key_le a b \<Longrightarrow> parse_key a \<le> parse_key b"
  by (auto simp: key_le_iff key_less_alt)

lemma min_key_fold:
  "key_le (foldl min_key s ts) s \<and> (\<forall>t \<in> set ts. key_le (foldl min_key s ts) (t_Smallest t)) \<and>
   foldl min_key s ts \<in> insert s (t_Smallest ` set ts)"
proof (induction ts arbitrary: s)
  case Nil
  then show ?case by simp
next
  case (Cons t ts)
  have "key_le (min_key s t) s \<and> key_le (min_key s t) (t_Smallest t) \<and> min_key s t \<in> {s, t_Smallest t}"
    by (auto simp: min_key_def key_le_iff not_key_less simp flip: key_less_def)
  with Cons.IH [of "min_key s t"] show ?case by (auto intro: key_le_trans)
qed

lemma max_key_fold:
  "key_le b (foldl max_key b ts) \<and> (\<forall>t \<in> set ts. key_le (t_Biggest t) (foldl max_key b ts)) \<and>
   foldl max_key b ts \<in> insert b (t_Biggest ` set ts)"
proof (induction ts arbitrary: b)
  case Nil
  then show ?case by simp
next
  case (Cons t ts)
  have "key_le b (max_key b t) \<and> key_le (t_Biggest t) (max_key b t) \<and> max_key b t \<in> {b, t_Biggest t}"
    by (auto simp: max_key_def key_le_iff cmp_keys_greater)
       (use key_less_linear in blast)
  with Cons.IH [of "max_key b t"] show ?case by (auto intro: key_le_trans)
qed

lemma getKeyRange_covers:
  assumes t: "t \<in> set ts" and k: "key_ok k"
    and lo: "parse_key (t_Smallest t) \<le> parse_key k" and hi: "parse_key k \<le> parse_key (t_Biggest t)"
  shows "k \<in> kr_keys (getKeyRange ts)"
proof -
  from t obtain u us where ts: "ts = u # us" by (cases ts) auto
  let ?s = "foldl min_key (t_Smallest u) us" and ?b = "foldl max_key (t_Biggest u) us"
  have "key_le ?s (t_Smallest t)" and "key_le (t_Biggest t) ?b"
    using min_key_fold [of "t_Smallest u" us] max_key_fold [of "t_Biggest u" us] t ts by auto
  with lo hi have "parse_key ?s \<le> parse_key k" "parse_key k \<le> parse_key ?b"
    using key_le_parse order_trans by blast+
  then have "key_le (KeyWithTs (parse_key ?s) (- 1)) k" "key_le k (KeyWithTs (parse_key ?b) 0)"
    using key_le_left_end key_le_right_end k by blast+
  with k show ?thesis
    by (simp add: kr_keys_def getKeyRange_def ts Let_def kr_isEmpty_def KeyWithTs_def)
qed

lemma getKeyRange_wf:
  assumes "ts \<noteq> []" and "\<forall>t \<in> set ts. table_ok t"
  shows "kr_wf (getKeyRange ts)"
proof -
  from assms(1) obtain u us where ts: "ts = u # us" by (cases ts) auto
  let ?s = "foldl min_key (t_Smallest u) us" and ?b = "foldl max_key (t_Biggest u) us"
  have "key_le ?s (t_Smallest u)" "key_le (t_Smallest u) (t_Biggest u)" "key_le (t_Biggest u) ?b"
    using min_key_fold max_key_fold assms(2) ts by (auto simp: table_ok_def)
  then have "parse_key ?s \<le> parse_key ?b" using key_le_parse key_le_trans by blast
  then have "key_le (KeyWithTs (parse_key ?s) (- 1)) (KeyWithTs (parse_key ?b) 0)"
    using key_le_left_end [of "KeyWithTs (parse_key ?b) 0" ?s] by simp
  then show ?thesis by (simp add: kr_wf_def getKeyRange_def ts Let_def)
qed

end
