(* ===== verification/Versions.thy ===== *)
theory Versions
  imports Codec
begin

text \<open>
  What a read promises, stated on entries: the newest version of a user key at or
  below a timestamp. The search structures (tables, levels, memtables) are proved to
  compute \<open>newest\<close> of the entries they hold, compactions to keep it, and since it
  composes over appended lists the parts can be put together.
\<close>

type_synonym entry = "bytes \<times> ValueStruct"
type_synonym version = "(u64 \<times> ValueStruct) option"

text \<open>Internal keys of stored entries: a user key that is not empty, a version above 0.\<close>

definition stored_key :: "bytes \<Rightarrow> bool" where
  "stored_key k \<longleftrightarrow> 8 < length k \<and> 0 < ParseTs k"

definition matches :: "bytes \<Rightarrow> u64 \<Rightarrow> bytes \<Rightarrow> bool" where
  "matches k ts ik \<longleftrightarrow> parse_key ik = k \<and> ParseTs ik \<le> ts"

text \<open>The newer of two versions; the first where they are equal.\<close>

fun newer :: "version \<Rightarrow> version \<Rightarrow> version" where
  "newer None b = b"
| "newer a None = a"
| "newer (Some a) (Some b) = (if fst a < fst b then Some b else Some a)"

fun newest :: "entry list \<Rightarrow> bytes \<Rightarrow> u64 \<Rightarrow> version" where
  "newest [] k ts = None"
| "newest ((ik, v) # es) k ts =
     newer (if matches k ts ik then Some (ParseTs ik, v) else None) (newest es k ts)"

lemma newer_None [simp]: "newer a None = a"
  by (cases a) auto

lemma newer_assoc: "newer (newer a b) c = newer a (newer b c)"
  by (cases a; cases b; cases c) auto

lemma newest_append: "newest (es @ fs) k ts = newer (newest es k ts) (newest fs k ts)"
  by (induction es) (auto simp: newer_assoc)

lemma newest_None: "newest es k ts = None \<longleftrightarrow> (\<forall>e \<in> set es. \<not> matches k ts (fst e))"
proof (induction es)
  case (Cons e es)
  obtain ik v where e: "e = (ik, v)" by fastforce
  show ?case using Cons by (cases "newest es k ts") (auto simp: e)
qed simp

lemma newest_filter: "(\<And>e. e \<in> set es \<Longrightarrow> \<not> P e \<Longrightarrow> \<not> matches k ts (fst e)) \<Longrightarrow>
    newest (filter P es) k ts = newest es k ts"
proof (induction es)
  case (Cons e es)
  obtain ik v where e: "e = (ik, v)" by fastforce
  have "newest (filter P es) k ts = newest es k ts" using Cons by auto
  moreover have "P e \<or> \<not> matches k ts ik" using Cons.prems [of e] by (auto simp: e)
  ultimately show ?case by (auto simp: e)
qed simp

lemma newest_Some:
  "newest es k ts = Some (w, v) \<Longrightarrow> (\<exists>ik. (ik, v) \<in> set es \<and> matches k ts ik \<and> ParseTs ik = w) \<and>
    (\<forall>e \<in> set es. matches k ts (fst e) \<longrightarrow> ParseTs (fst e) \<le> w)"
proof (induction es arbitrary: w v)
  case (Cons e es)
  obtain ik u where e: "e = (ik, u)" by fastforce
  show ?case
  proof (cases "newest es k ts")
    case None
    then have "\<forall>e \<in> set es. \<not> matches k ts (fst e)" by (simp add: newest_None)
    with Cons.prems None show ?thesis by (auto simp: e split: if_splits)
  next
    case (Some p)
    obtain w' v' where p: "p = (w', v')" by fastforce
    note IH = Cons.IH [of w' v', unfolded Some p, simplified]
    show ?thesis
    proof (cases "matches k ts ik \<and> w' \<le> ParseTs ik")
      case True
      then have "w = ParseTs ik \<and> v = u" using Cons.prems by (auto simp: e Some p not_less [symmetric])
      moreover have "\<forall>x \<in> set es. matches k ts (fst x) \<longrightarrow> ParseTs (fst x) \<le> ParseTs ik"
        using IH True by force
      ultimately show ?thesis using True by (auto simp: e)
    next
      case False
      then have w: "w = w'" "v = v'" and le: "matches k ts ik \<longrightarrow> ParseTs ik \<le> w'"
        using Cons.prems by (auto simp: e Some p split: if_splits)
      show ?thesis using IH le by (auto simp: e w)
    qed
  qed
qed simp

text \<open>The struct that the code returns: the value with its version, zero when absent.\<close>

fun as_vs :: "version \<Rightarrow> ValueStruct" where
  "as_vs None = zero_vs"
| "as_vs (Some (w, v)) = v\<lparr>vs_Version := w\<rparr>"

definition max_vs :: "ValueStruct \<Rightarrow> ValueStruct \<Rightarrow> ValueStruct" where
  "max_vs a b = (if vs_Version a < vs_Version b then b else a)"

definition real_version :: "version \<Rightarrow> bool" where
  "real_version a \<longleftrightarrow> (case a of None \<Rightarrow> True | Some (w, v) \<Rightarrow> 0 < w)"

lemma max_vs_newer: "real_version a \<Longrightarrow> real_version b \<Longrightarrow> max_vs (as_vs a) (as_vs b) = as_vs (newer a b)"
  by (cases a; cases b) (auto simp: max_vs_def zero_vs_def real_version_def)

lemma max_vs_assoc: "max_vs (max_vs a b) c = max_vs a (max_vs b c)"
  by (auto simp: max_vs_def)

lemma max_vs_zero [simp]: "max_vs zero_vs (as_vs a) = as_vs a \<or> \<not> real_version a"
  by (cases a) (auto simp: max_vs_def zero_vs_def real_version_def)

lemma real_newest: "\<forall>e \<in> set es. stored_key (fst e) \<Longrightarrow> real_version (newest es k ts)"
  using newest_Some [of es k ts] by (fastforce simp: real_version_def stored_key_def split: option.splits)

text \<open>A stored key is put together from its user key and its version.\<close>

lemma stored_key_eq:
  assumes "8 < length ik"
  shows "ik = KeyWithTs (parse_key ik) (ParseTs ik)"
proof -
  have "length (key_suffix ik) = 8" using assms by (simp add: key_suffix_def)
  moreover have "ParseTs ik = - 1 - Uint64 (key_suffix ik)"
    using assms by (simp add: ParseTs_def key_suffix_def)
  ultimately have "PutUint64 (- 1 - ParseTs ik) = key_suffix ik"
    using Put_Uint64 by simp
  then show ?thesis using key_split [of ik] by (simp add: KeyWithTs_def)
qed

lemma stored_key_ok [intro]: "stored_key k \<Longrightarrow> key_ok k"
  by (simp add: stored_key_def key_ok_def)

lemma key_less_stored:
  "8 < length a \<Longrightarrow> 8 < length b \<Longrightarrow>
    key_less a b \<longleftrightarrow> parse_key a < parse_key b \<or> parse_key a = parse_key b \<and> ParseTs b < ParseTs a"
  using cmp_keys_KeyWithTs_less [of "parse_key a" "ParseTs a" "parse_key b" "ParseTs b"]
    stored_key_eq [of a] stored_key_eq [of b] by (simp add: key_less_def)

text \<open>
  Searching sorted entries for \<open>KeyWithTs k ts\<close> finds the newest version: it is the first
  entry at or behind that key, if it has the user key at all.
\<close>

definition seek_first :: "entry list \<Rightarrow> bytes \<Rightarrow> entry option" where
  "seek_first es key = find (\<lambda>e. key_le key (fst e)) es"

lemma newest_seek:
  assumes "sorted_wrt key_less (map fst es)" and "\<forall>e \<in> set es. stored_key (fst e)" and "k \<noteq> []"
  shows "newest es k ts = (case seek_first es (KeyWithTs k ts) of None \<Rightarrow> None
    | Some (ik, v) \<Rightarrow> if parse_key ik = k then Some (ParseTs ik, v) else None)"
  using assms(1,2)
proof (induction es)
  case (Cons e es)
  obtain ik v where e: "e = (ik, v)" by fastforce
  let ?q = "KeyWithTs k ts"
  have q: "8 < length ?q" "parse_key ?q = k" "ParseTs ?q = ts" using assms(3) by auto
  have lik: "8 < length ik" using Cons.prems by (auto simp: e stored_key_def)
  have order: "key_less ik ?q \<longleftrightarrow> parse_key ik < k \<or> parse_key ik = k \<and> ts < ParseTs ik"
    using key_less_stored [OF lik q(1)] q by simp
  show ?case
  proof (cases "key_less ik ?q")
    case True
    then have "\<not> matches k ts ik" using order by (auto simp: matches_def)
    moreover have "\<not> key_le ?q ik" using True by (simp add: not_key_le)
    ultimately show ?thesis using Cons by (simp add: e seek_first_def)
  next
    case False
    then have le: "key_le ?q ik" by (simp add: not_key_less)
    have behind: "parse_key ik < parse_key jk \<or> parse_key ik = parse_key jk \<and> ParseTs jk < ParseTs ik"
      if "(jk, u) \<in> set es" for jk u
      using Cons.prems that key_less_stored [of ik jk] lik by (force simp: e stored_key_def)
    show ?thesis
    proof (cases "parse_key ik = k")
      case True
      then have "ParseTs ik \<le> ts" using False order by auto
      then have m: "matches k ts ik" using True by (simp add: matches_def)
      have "newer (Some (ParseTs ik, v)) (newest es k ts) = Some (ParseTs ik, v)"
      proof (cases "newest es k ts")
        case (Some p)
        then obtain jk where "(jk, snd p) \<in> set es" "matches k ts jk" "ParseTs jk = fst p"
          using newest_Some [of es k ts "fst p" "snd p"] by auto
        with behind [of jk "snd p"] True have "\<not> ParseTs ik < fst p" by (auto simp: matches_def)
        then show ?thesis using Some by (cases p) auto
      qed simp
      with m True le show ?thesis by (simp add: e seek_first_def)
    next
      case other: False
      then have "k < parse_key ik" using False order by auto
      then have "\<forall>x \<in> set es. \<not> matches k ts (fst x)"
        using behind by (fastforce simp: matches_def)
      then have "newest es k ts = None" by (simp add: newest_None)
      with other le show ?thesis by (simp add: e seek_first_def matches_def)
    qed
  qed
qed (simp add: seek_first_def)

end
