(* ===== verification/LevelHandler.thy ===== *)
theory LevelHandler
  imports Compaction Bloom Versions
begin

text \<open>
  \<open>level_handler.go\<close>: the tables of one level, their sizes and reference counts, the
  operations of flushes and compactions on them, point lookups and the search for the
  tables a range overlaps. Levels 0 and 98 (the hot tier) hold tables that may overlap,
  in the order of their age; every other level is sorted and disjoint. A table's file
  is given by its entries (\<open>t_data\<close>), so \<open>Seek\<close> is the search of \<open>Versions\<close>;
  an error of deleting a file is not modelled.
\<close>

section \<open>Reference counts\<close>

record table_refs =
  rf_count :: "u64 \<Rightarrow> int"
  rf_deleted :: "u64 set"

definition IncrRef :: "table_refs \<Rightarrow> table \<Rightarrow> table_refs" where
  "IncrRef s t = s\<lparr>rf_count := (rf_count s)(t_ID t := rf_count s (t_ID t) + 1)\<rparr>"

definition DecrRef :: "table_refs \<Rightarrow> table \<Rightarrow> table_refs" where
  "DecrRef s t =
     (let n = rf_count s (t_ID t) - 1; s1 = s\<lparr>rf_count := (rf_count s)(t_ID t := n)\<rparr>
      in if n = 0 then s1\<lparr>rf_deleted := insert (t_ID t) (rf_deleted s1)\<rparr> else s1)"

definition decrRefs :: "table_refs \<Rightarrow> table list \<Rightarrow> table_refs" where
  "decrRefs s tables = foldl DecrRef s tables"

section \<open>The handler\<close>

record levelHandler =
  lh_tables :: "table list"
  lh_totalSize :: int
  lh_totalStaleSize :: int
  lh_level :: nat

definition newLevelHandler :: "nat \<Rightarrow> levelHandler" where
  "newLevelHandler level = \<lparr>lh_tables = [], lh_totalSize = 0, lh_totalStaleSize = 0, lh_level = level\<rparr>"

definition isLastLevel :: "nat \<Rightarrow> levelHandler \<Rightarrow> bool" where
  "isLastLevel maxLevels lh \<longleftrightarrow> int (lh_level lh) = int maxLevels - 1"

definition addSize :: "levelHandler \<Rightarrow> table \<Rightarrow> levelHandler" where
  "addSize lh t = lh\<lparr>lh_totalSize := lh_totalSize lh + t_Size t,
     lh_totalStaleSize := lh_totalStaleSize lh + int (t_StaleDataSize t)\<rparr>"

definition subtractSize :: "levelHandler \<Rightarrow> table \<Rightarrow> levelHandler" where
  "subtractSize lh t = lh\<lparr>lh_totalSize := lh_totalSize lh - t_Size t,
     lh_totalStaleSize := lh_totalStaleSize lh - int (t_StaleDataSize t)\<rparr>"

definition by_ID :: "table \<Rightarrow> table \<Rightarrow> bool" where
  "by_ID a b \<longleftrightarrow> t_ID a < t_ID b"

definition by_Smallest :: "table \<Rightarrow> table \<Rightarrow> bool" where
  "by_Smallest a b \<longleftrightarrow> cmp_keys (t_Smallest a) (t_Smallest b) < 0"

definition initTables :: "levelHandler \<Rightarrow> table list \<Rightarrow> levelHandler" where
  "initTables lh tables =
     (let lh1 = lh\<lparr>lh_tables := tables, lh_totalSize := 0, lh_totalStaleSize := 0\<rparr>;
          lh2 = foldl addSize lh1 tables
      in if lh_level lh = 0 \<or> lh_level lh = 98
         then lh2\<lparr>lh_tables := go_sort by_ID (lh_tables lh2)\<rparr>
         else lh2\<lparr>lh_tables := go_sort by_Smallest (lh_tables lh2)\<rparr>)"

text \<open>The loop that drops the tables to delete from the list and from the sizes.\<close>

fun keep_tables :: "u64 set \<Rightarrow> table list \<Rightarrow> table list \<Rightarrow> levelHandler \<Rightarrow> table list \<times> levelHandler" where
  "keep_tables toDel [] newTables lh = (newTables, lh)"
| "keep_tables toDel (t # ts) newTables lh =
     (if t_ID t \<notin> toDel then keep_tables toDel ts (newTables @ [t]) lh
      else keep_tables toDel ts newTables (subtractSize lh t))"

definition deleteTables :: "table_refs \<Rightarrow> levelHandler \<Rightarrow> table list \<Rightarrow> table_refs \<times> levelHandler" where
  "deleteTables s lh toDel =
     (let (newTables, lh1) = keep_tables (t_ID ` set toDel) (lh_tables lh) [] lh
      in (decrRefs s toDel, lh1\<lparr>lh_tables := newTables\<rparr>))"

definition replaceTables ::
    "table_refs \<Rightarrow> levelHandler \<Rightarrow> table list \<Rightarrow> table list \<Rightarrow> table_refs \<times> levelHandler" where
  "replaceTables s lh toDel toAdd =
     (let (newTables, lh1) = keep_tables (t_ID ` set toDel) (lh_tables lh) [] lh;
          lh2 = foldl addSize lh1 toAdd;
          s1 = foldl IncrRef s toAdd;
          lh3 = lh2\<lparr>lh_tables := newTables @ toAdd\<rparr>;
          lh4 = (if lh_level lh = 98 then lh3\<lparr>lh_tables := go_sort by_ID (lh_tables lh3)\<rparr>
                 else lh3\<lparr>lh_tables := go_sort by_Smallest (lh_tables lh3)\<rparr>)
      in (decrRefs s1 toDel, lh4))"

definition addTable :: "table_refs \<Rightarrow> levelHandler \<Rightarrow> table \<Rightarrow> table_refs \<times> levelHandler" where
  "addTable s lh t = (let lh1 = addSize lh t in (IncrRef s t, lh1\<lparr>lh_tables := lh_tables lh1 @ [t]\<rparr>))"

definition sortTables :: "levelHandler \<Rightarrow> levelHandler" where
  "sortTables lh = lh\<lparr>lh_tables := go_sort by_Smallest (lh_tables lh)\<rparr>"

text \<open>\<open>None\<close> is the failed assertion on the level.\<close>

definition tryAddLevel0Table ::
    "nat \<Rightarrow> table_refs \<Rightarrow> levelHandler \<Rightarrow> table \<Rightarrow> (table_refs \<times> levelHandler \<times> bool) option" where
  "tryAddLevel0Table stall s lh t =
     (if lh_level lh \<noteq> 0 then None
      else if stall \<le> length (lh_tables lh) then Some (s, lh, False)
      else Some (IncrRef s t, addSize (lh\<lparr>lh_tables := lh_tables lh @ [t]\<rparr>) t, True))"

definition addHotTable :: "table_refs \<Rightarrow> levelHandler \<Rightarrow> table \<Rightarrow> (table_refs \<times> levelHandler) option" where
  "addHotTable s lh t =
     (if lh_level lh < 98 then None
      else Some (IncrRef s t, addSize (lh\<lparr>lh_tables := lh_tables lh @ [t]\<rparr>) t))"

section \<open>Lookups\<close>

definition unsorted :: "levelHandler \<Rightarrow> bool" where
  "unsorted lh \<longleftrightarrow> lh_level lh = 0 \<or> lh_level lh = 98"

text \<open>The tables to search, newest first, with a reference to each.\<close>

definition tables_for :: "levelHandler \<Rightarrow> bytes \<Rightarrow> table list" where
  "tables_for lh key =
     (if unsorted lh then rev (lh_tables lh)
      else let idx = sort_search (length (lh_tables lh)) (\<lambda>i. cmp_keys (t_Biggest (lh_tables lh ! i)) key \<ge> 0)
           in if length (lh_tables lh) \<le> idx then [] else [lh_tables lh ! idx])"

definition getTableForKey :: "table_refs \<Rightarrow> levelHandler \<Rightarrow> bytes \<Rightarrow> table_refs \<times> table list" where
  "getTableForKey s lh key = (let out = tables_for lh key in (foldl IncrRef s out, out))"

text \<open>\<open>DoesNotHave\<close> of \<open>table/table.go\<close>; \<open>None\<close> is a panic of the filter.\<close>

definition DoesNotHave :: "table \<Rightarrow> u32 \<Rightarrow> bool option" where
  "DoesNotHave t hash = (case t_Bloom t of None \<Rightarrow> Some False
     | Some f \<Rightarrow> map_option Not (MayContain f hash))"

fun search_tables :: "bytes \<Rightarrow> u32 \<Rightarrow> table list \<Rightarrow> ValueStruct \<Rightarrow> ValueStruct option" where
  "search_tables key hash [] maxVs = Some maxVs"
| "search_tables key hash (th # ths) maxVs =
     (case DoesNotHave th hash of
        None \<Rightarrow> None
      | Some True \<Rightarrow> search_tables key hash ths maxVs
      | Some False \<Rightarrow>
         (case seek_first (t_data th) key of
            None \<Rightarrow> search_tables key hash ths maxVs
          | Some (k, v) \<Rightarrow>
              if SameKey key k \<and> vs_Version maxVs < ParseTs k
              then search_tables key hash ths (v\<lparr>vs_Version := ParseTs k\<rparr>)
              else search_tables key hash ths maxVs))"

definition level_get :: "table_refs \<Rightarrow> levelHandler \<Rightarrow> bytes \<Rightarrow> (table_refs \<times> ValueStruct) option" where
  "level_get s lh key =
     (let (s1, tables) = getTableForKey s lh key
      in case search_tables key (Hash (parse_key key)) tables zero_vs of
           None \<Rightarrow> None | Some maxVs \<Rightarrow> Some (decrRefs s1 tables, maxVs))"

definition overlappingTables :: "levelHandler \<Rightarrow> keyRange \<Rightarrow> nat \<times> nat" where
  "overlappingTables lh kr =
     (if length (kr_left kr) = 0 \<or> length (kr_right kr) = 0 then (0, 0)
      else (sort_search (length (lh_tables lh)) (\<lambda>i. cmp_keys (kr_left kr) (t_Biggest (lh_tables lh ! i)) \<le> 0),
            sort_search (length (lh_tables lh)) (\<lambda>i. cmp_keys (kr_right kr) (t_Smallest (lh_tables lh ! i)) < 0)))"

section \<open>The invariant of a level\<close>

text \<open>
  A table that \<open>table.Builder\<close> made: stored keys in order between the bounds, and no
  filter or the filter of its user keys.
\<close>

definition built_table :: "table \<Rightarrow> bool" where
  "built_table t \<longleftrightarrow> table_ok t \<and> t_data t \<noteq> [] \<and>
     t_Smallest t = fst (hd (t_data t)) \<and> t_Biggest t = fst (last (t_data t)) \<and>
     (\<forall>e \<in> set (t_data t). stored_key (fst e) \<and> vs_Value (snd e) \<noteq> None) \<and>
     (\<forall>f. t_Bloom t = Some f \<longrightarrow> (\<exists>b. NewFilter (map (\<lambda>e. Hash (parse_key (fst e))) (t_data t)) b = Some f))"

definition before_table :: "table \<Rightarrow> table \<Rightarrow> bool" where
  "before_table a b \<longleftrightarrow> key_less (t_Biggest a) (t_Smallest b)"

definition sizes_ok :: "levelHandler \<Rightarrow> bool" where
  "sizes_ok lh \<longleftrightarrow> lh_totalSize lh = sum_list (map t_Size (lh_tables lh)) \<and>
     lh_totalStaleSize lh = sum_list (map (\<lambda>t. int (t_StaleDataSize t)) (lh_tables lh))"

definition level_wf :: "levelHandler \<Rightarrow> bool" where
  "level_wf lh \<longleftrightarrow> (\<forall>t \<in> set (lh_tables lh). built_table t) \<and> sizes_ok lh \<and>
     (\<not> unsorted lh \<longrightarrow> sorted_wrt before_table (lh_tables lh))"

text \<open>The entries of a level in the order in which a lookup prefers them.\<close>

definition level_entries :: "levelHandler \<Rightarrow> entry list" where
  "level_entries lh = concat (map t_data (if unsorted lh then rev (lh_tables lh) else lh_tables lh))"

section \<open>Lookups find the newest version\<close>

lemma set_level_entries: "set (level_entries lh) = (\<Union>t \<in> set (lh_tables lh). set (t_data t))"
  by (simp add: level_entries_def)

lemma built_entries: "built_table t \<Longrightarrow> sorted_wrt key_less (map fst (t_data t)) \<and>
    (\<forall>e \<in> set (t_data t). stored_key (fst e))"
  by (auto simp: built_table_def table_ok_def)

lemma built_bounds: "built_table t \<Longrightarrow> e \<in> set (t_data t) \<Longrightarrow>
    key_le (t_Smallest t) (fst e) \<and> key_le (fst e) (t_Biggest t)"
  unfolding built_table_def table_ok_def by auto

lemma DoesNotHave_sound:
  assumes "built_table t"
  shows "\<exists>r. DoesNotHave t (Hash k) = Some r \<and> (r \<longrightarrow> newest (t_data t) k ts = None)"
proof (cases "t_Bloom t")
  case (Some f)
  with assms obtain b where "NewFilter (map (\<lambda>e. Hash (parse_key (fst e))) (t_data t)) b = Some f"
    and "t_data t \<noteq> []"
    unfolding built_table_def by blast
  from bf.denial [OF this, of "Hash k"] obtain r where r: "MayContain f (Hash k) = Some r"
    and no: "\<not> r \<longrightarrow> (\<forall>e \<in> set (t_data t). Hash (parse_key (fst e)) \<noteq> Hash k)" by blast
  have "newest (t_data t) k ts = None" if "\<not> r"
    using no that by (force simp: newest_None matches_def)
  with r Some show ?thesis by (auto simp: DoesNotHave_def)
next
  case None
  then have "DoesNotHave t (Hash k) = Some False" by (simp add: DoesNotHave_def)
  then show ?thesis by blast
qed

lemma search_tables_newest:
  assumes "\<forall>t \<in> set tables. built_table t" and "k \<noteq> []"
  shows "search_tables (KeyWithTs k ts) (Hash k) tables m =
    Some (max_vs m (as_vs (newest (concat (map t_data tables)) k ts)))"
  using assms(1)
proof (induction tables arbitrary: m)
  case Nil
  show ?case by (simp add: max_vs_def zero_vs_def)
next
  case (Cons t tables)
  let ?q = "KeyWithTs k ts" and ?n = "newest (t_data t) k ts"
  and ?rest = "newest (concat (map t_data tables)) k ts"
  have t: "built_table t" using Cons.prems by simp
  have real: "real_version ?n" "real_version ?rest"
    using Cons.prems built_entries by (auto intro!: real_newest) fastforce
  have IH: "search_tables ?q (Hash k) tables m' = Some (max_vs m' (as_vs ?rest))" for m'
    using Cons by simp
  have sum: "as_vs (newest (concat (map t_data (t # tables))) k ts) = max_vs (as_vs ?n) (as_vs ?rest)"
    using max_vs_newer [OF real] by (simp add: newest_append)
  note seek = newest_seek [OF conjunct1 [OF built_entries [OF t]] conjunct2 [OF built_entries [OF t]] assms(2), of ts]
  have step: "max_vs m (max_vs (as_vs ?n) (as_vs ?rest)) = max_vs (max_vs m (as_vs ?n)) (as_vs ?rest)"
    by (simp add: max_vs_assoc)
  have zero: "max_vs m zero_vs = m" by (simp add: max_vs_def zero_vs_def)
  from DoesNotHave_sound [OF t, of k ts] obtain r where r: "DoesNotHave t (Hash k) = Some r"
    and no: "r \<Longrightarrow> ?n = None" by blast
  show ?case
  proof (cases r)
    case True
    then show ?thesis using r IH no sum step zero by simp
  next
    case False
    show ?thesis
    proof (cases "seek_first (t_data t) ?q")
      case None
      then show ?thesis using r False IH sum step zero seek by simp
    next
      case (Some e)
      obtain ik v where e: "e = (ik, v)" by fastforce
      have "(ik, v) \<in> set (t_data t)"
        using Some by (auto simp: seek_first_def e find_Some_iff set_conv_nth)
      then have "key_ok ik" using built_entries [OF t] by fastforce
      then have "SameKey ?q ik \<longleftrightarrow> parse_key ik = k" using SameKey_iff [of ?q ik] by auto
      moreover have "max_vs m (v\<lparr>vs_Version := w\<rparr>) = (if vs_Version m < w then v\<lparr>vs_Version := w\<rparr> else m)" for w
        by (simp add: max_vs_def)
      ultimately show ?thesis using r False IH sum step zero seek Some e by auto
    qed
  qed
qed

text \<open>In a sorted level, only the first table that ends at or behind the key can have it.\<close>

lemma biggest_upward:
  assumes "sorted_wrt before_table ts" and "\<forall>t \<in> set ts. built_table t"
  shows "upward (length ts) (\<lambda>i. key_le key (t_Biggest (ts ! i)))"
proof (rule upwardI)
  fix i j
  assume ij: "i \<le> j" "j < length ts" and le: "key_le key (t_Biggest (ts ! i))"
  show "key_le key (t_Biggest (ts ! j))"
  proof (cases "i = j")
    case False
    then have "before_table (ts ! i) (ts ! j)" using assms(1) ij by (simp add: sorted_wrt_nth_mono)
    moreover have "built_table (ts ! j)" using assms(2) ij by simp
    ultimately show ?thesis
      using le unfolding before_table_def built_table_def table_ok_def by (meson key_le_iff key_le_trans)
  qed (use le in simp)
qed

text \<open>The entries of a sorted level are in key order as a whole.\<close>

lemma level_sorted:
  assumes "sorted_wrt before_table ts" and "\<forall>t \<in> set ts. built_table t"
  shows "sorted_wrt key_less (map fst (concat (map t_data ts)))"
  using assms
proof (induction ts)
  case (Cons t ts)
  have t: "sorted_wrt key_less (map fst (t_data t))" using Cons.prems built_entries by simp
  have "key_less (fst e) (fst f)" if e: "e \<in> set (t_data t)" and u: "u \<in> set ts" and f: "f \<in> set (t_data u)" for e f u
  proof -
    have "key_le (fst e) (t_Biggest t)" "key_le (t_Smallest u) (fst f)" "before_table t u"
      using Cons.prems e u f built_bounds [of t e] built_bounds [of u f] by auto
    then show ?thesis unfolding before_table_def by (blast intro: key_le_less_trans key_less_le_trans)
  qed
  moreover have srt: "sorted_wrt key_less (map fst (concat (map t_data ts)))" using Cons by simp
  ultimately have "\<forall>x \<in> set (map fst (t_data t)). \<forall>y \<in> set (map fst (concat (map t_data ts))). key_less x y"
    by fastforce
  with t srt show ?case by (simp only: list.map concat.simps map_append sorted_wrt_append simp_thms)
qed simp

lemma seek_first_append: "seek_first (es @ fs) key =
    (case seek_first es key of None \<Rightarrow> seek_first fs key | Some e \<Rightarrow> Some e)"
  by (induction es) (auto simp: seek_first_def)

lemma seek_first_None: "seek_first es key = None \<longleftrightarrow> (\<forall>e \<in> set es. key_less (fst e) key)"
  by (auto simp: seek_first_def find_None_iff not_key_le)

lemma tables_for_newest:
  assumes wf: "level_wf lh" and k: "k \<noteq> []"
  shows "newest (concat (map t_data (tables_for lh (KeyWithTs k ts)))) k ts = newest (level_entries lh) k ts"
proof (cases "unsorted lh")
  case False
  let ?ts = "lh_tables lh" and ?q = "KeyWithTs k ts"
  define idx where "idx = sort_search (length ?ts) (\<lambda>i. key_le ?q (t_Biggest (?ts ! i)))"
  have built: "\<forall>t \<in> set ?ts. built_table t" and srt: "sorted_wrt before_table ?ts"
    using wf False by (auto simp: level_wf_def)
  note up = biggest_upward [OF srt built, of ?q]
  have tf: "tables_for lh ?q = (if length ?ts \<le> idx then [] else [?ts ! idx])"
    unfolding tables_for_def idx_def using False by (simp add: cmp_keys_ge)
  have le: "level_entries lh = concat (map t_data ?ts)" using False by (simp add: level_entries_def)
  have ok: "sorted_wrt key_less (map fst (concat (map t_data us)))"
    "\<forall>e \<in> set (concat (map t_data us)). stored_key (fst e)"
    if "set us \<subseteq> set ?ts" "sorted_wrt before_table us" for us
    using level_sorted [of us] that built built_entries by fastforce+
  have "key_less (fst e) ?q" if "i < idx" "e \<in> set (t_data (?ts ! i))" for i e
  proof -
    have "i < length ?ts" using that sort_search_le unfolding idx_def by (meson less_le_trans)
    then have "key_le (fst e) (t_Biggest (?ts ! i))"
      using that built nth_mem [of i ?ts] unfolding built_table_def table_ok_def by fastforce
    moreover have "key_less (t_Biggest (?ts ! i)) ?q"
      using sort_search_before [OF up] that(1) unfolding idx_def by (simp add: not_key_le)
    ultimately show ?thesis by (rule key_le_less_trans)
  qed
  then have pre: "seek_first (concat (map t_data (take idx ?ts))) ?q = None"
    unfolding seek_first_None by (fastforce simp: in_set_conv_nth)
  have "seek_first (concat (map t_data ?ts)) ?q = seek_first (concat (map t_data (tables_for lh ?q))) ?q"
  proof (cases "length ?ts \<le> idx")
    case True
    then show ?thesis using pre tf by (simp add: seek_first_def)
  next
    case False
    then have lt: "idx < length ?ts" by simp
    have "concat (map t_data ?ts) = concat (map t_data (take idx ?ts)) @ t_data (?ts ! idx) @
        concat (map t_data (drop (Suc idx) ?ts))"
      using id_take_nth_drop [OF lt] by (metis concat.simps(2) concat_append list.simps(9) map_append)
    moreover have "seek_first (t_data (?ts ! idx)) ?q \<noteq> None"
    proof -
      have "key_le ?q (t_Biggest (?ts ! idx))"
        using sort_search_hit [of "length ?ts" "\<lambda>i. key_le ?q (t_Biggest (?ts ! i))"] lt unfolding idx_def by simp
      moreover have "\<exists>e \<in> set (t_data (?ts ! idx)). fst e = t_Biggest (?ts ! idx)"
        using built nth_mem [OF lt] unfolding built_table_def by (metis last_in_set)
      ultimately show ?thesis unfolding seek_first_None by (metis not_key_less)
    qed
    ultimately show ?thesis using pre tf False by (auto simp: seek_first_append split: option.splits)
  qed
  moreover have "newest (concat (map t_data us)) k ts = (case seek_first (concat (map t_data us)) ?q of
      None \<Rightarrow> None | Some (ik, v) \<Rightarrow> if parse_key ik = k then Some (ParseTs ik, v) else None)"
    if "set us \<subseteq> set ?ts" "sorted_wrt before_table us" for us
    by (rule newest_seek [OF ok [OF that] k])
  moreover have "set (tables_for lh ?q) \<subseteq> set ?ts" "sorted_wrt before_table (tables_for lh ?q)"
    using tf by auto
  ultimately show ?thesis using srt unfolding le by auto
qed (simp add: tables_for_def level_entries_def)

lemma tables_for_subset: "set (tables_for lh key) \<subseteq> set (lh_tables lh)"
  by (auto simp: tables_for_def Let_def)

text \<open>Taking references and giving them back leaves the counts as they were.\<close>

lemma foldl_IncrRef:
  "foldl IncrRef s ts = s\<lparr>rf_count := \<lambda>i. rf_count s i + int (count_list (map t_ID ts) i)\<rparr>"
  by (induction ts arbitrary: s) (auto simp: IncrRef_def fun_eq_iff intro!: table_refs.equality)

lemma decrRefs_count: "rf_count (decrRefs s ts) i = rf_count s i - int (count_list (map t_ID ts) i)"
  unfolding decrRefs_def by (induction ts arbitrary: s) (auto simp: DecrRef_def Let_def)

lemma decrRefs_kept:
  "(\<And>t. t \<in> set ts \<Longrightarrow> int (count_list (map t_ID ts) (t_ID t)) < rf_count s (t_ID t)) \<Longrightarrow>
    rf_deleted (decrRefs s ts) = rf_deleted s"
proof (induction ts arbitrary: s)
  case (Cons t ts)
  have "rf_count s (t_ID t) - 1 \<noteq> 0" using Cons.prems [of t] by auto
  then have d: "DecrRef s t = s\<lparr>rf_count := (rf_count s)(t_ID t := rf_count s (t_ID t) - 1)\<rparr>"
    by (simp add: DecrRef_def Let_def)
  have "rf_deleted (decrRefs (DecrRef s t) ts) = rf_deleted (DecrRef s t)"
  proof (rule Cons.IH)
    fix u
    assume "u \<in> set ts"
    then have "int (count_list (map t_ID (t # ts)) (t_ID u)) < rf_count s (t_ID u)"
      using Cons.prems [of u] by simp
    then show "int (count_list (map t_ID ts) (t_ID u)) < rf_count (DecrRef s t) (t_ID u)"
      unfolding d by (auto split: if_splits)
  qed
  then show ?case using d by (simp add: decrRefs_def)
qed (simp add: decrRefs_def)

lemma refs_balance:
  assumes "\<forall>t \<in> set ts. 0 < rf_count s (t_ID t)"
  shows "decrRefs (foldl IncrRef s ts) ts = s"
proof -
  have "rf_count (decrRefs (foldl IncrRef s ts) ts) = rf_count s"
    by (simp add: decrRefs_count foldl_IncrRef fun_eq_iff)
  moreover have "rf_deleted (decrRefs (foldl IncrRef s ts) ts) = rf_deleted s"
    using decrRefs_kept [of ts "foldl IncrRef s ts"] assms by (simp add: foldl_IncrRef)
  ultimately show ?thesis by simp
qed

lemma level_get_newest:
  assumes "level_wf lh" and "k \<noteq> []" and "\<forall>t \<in> set (lh_tables lh). 0 < rf_count s (t_ID t)"
  shows "level_get s lh (KeyWithTs k ts) = Some (s, as_vs (newest (level_entries lh) k ts))"
proof -
  let ?ts = "tables_for lh (KeyWithTs k ts)"
  have built: "\<forall>t \<in> set ?ts. built_table t"
    using tables_for_subset [of lh "KeyWithTs k ts"] assms(1) by (auto simp: level_wf_def)
  have "real_version (newest (concat (map t_data ?ts)) k ts)"
    using built built_entries by (auto intro!: real_newest) fastforce
  then have "max_vs zero_vs (as_vs (newest (concat (map t_data ?ts)) k ts)) = as_vs (newest (concat (map t_data ?ts)) k ts)"
    using max_vs_zero by blast
  moreover have "decrRefs (foldl IncrRef s ?ts) ?ts = s"
    using tables_for_subset [of lh "KeyWithTs k ts"] assms(3) by (intro refs_balance) auto
  ultimately show ?thesis
    using search_tables_newest [OF built assms(2), of ts zero_vs] tables_for_newest [OF assms(1,2), of ts]
    by (simp add: level_get_def getTableForKey_def Let_def)
qed

section \<open>Updates keep the invariant\<close>

lemma keep_tables_eq:
  "keep_tables D ts acc lh = (acc @ filter (\<lambda>t. t_ID t \<notin> D) ts, foldl subtractSize lh (filter (\<lambda>t. t_ID t \<in> D) ts))"
  by (induction D ts acc lh rule: keep_tables.induct) auto

lemma foldl_addSize: "foldl addSize lh ts = lh\<lparr>lh_totalSize := lh_totalSize lh + sum_list (map t_Size ts),
    lh_totalStaleSize := lh_totalStaleSize lh + sum_list (map (\<lambda>t. int (t_StaleDataSize t)) ts)\<rparr>"
  by (induction ts arbitrary: lh) (auto simp: addSize_def)

lemma foldl_subtractSize: "foldl subtractSize lh ts = lh\<lparr>lh_totalSize := lh_totalSize lh - sum_list (map t_Size ts),
    lh_totalStaleSize := lh_totalStaleSize lh - sum_list (map (\<lambda>t. int (t_StaleDataSize t)) ts)\<rparr>"
  by (induction ts arbitrary: lh) (auto simp: subtractSize_def)

lemma sum_list_split: "sum_list (map f xs) - sum_list (map f (filter (\<lambda>x. P x) xs)) =
    (sum_list (map f (filter (\<lambda>x. \<not> P x) xs)) :: int)"
  by (induction xs) auto

lemmas level_updates = keep_tables_eq foldl_addSize foldl_subtractSize gs.sum_list_srt

lemma sort_apart:
  assumes "distinct ts" and "\<forall>a \<in> set ts. \<forall>b \<in> set ts. a \<noteq> b \<longrightarrow> before_table a b \<or> before_table b a"
    and "\<forall>t \<in> set ts. built_table t"
  shows "sorted_wrt before_table (go_sort by_Smallest ts)"
  unfolding sorted_wrt_iff_nth_less
proof (intro allI impI)
  let ?xs = "go_sort by_Smallest ts"
  fix i j
  assume ij: "i < j" "j < length ?xs"
  have "strict_weak by_Smallest"
    using strict_weak_key_less [of t_Smallest] by (simp add: by_Smallest_def key_less_def strict_weak_def)
  then have "sorted_wrt (\<lambda>a b. \<not> by_Smallest b a) ?xs"
    using in_order_go_sort unfolding in_order_def by blast
  then have ord: "\<not> key_less (t_Smallest (?xs ! j)) (t_Smallest (?xs ! i))"
    using sorted_wrt_nth_mono [of _ ?xs i j] ij unfolding by_Smallest_def key_less_def by blast
  have ne: "?xs ! i \<noteq> ?xs ! j"
    using assms(1) ij nth_eq_iff_index_eq [of ?xs i j] by (simp add: less_imp_neq)
  have mem: "?xs ! i \<in> set ts" "?xs ! j \<in> set ts"
    using ij nth_mem [of i ?xs] nth_mem [of j ?xs] by auto
  have "\<not> before_table (?xs ! j) (?xs ! i)"
  proof
    assume "before_table (?xs ! j) (?xs ! i)"
    moreover have "key_le (t_Smallest (?xs ! j)) (t_Biggest (?xs ! j))"
      using assms(3) mem unfolding built_table_def table_ok_def by blast
    ultimately show False using ord unfolding before_table_def by (blast intro: key_le_less_trans)
  qed
  then show "before_table (?xs ! i) (?xs ! j)" using assms(2) mem ne by blast
qed

text \<open>After a compaction: the tables that were not deleted, and the new ones.\<close>

definition kept :: "levelHandler \<Rightarrow> table list \<Rightarrow> table list" where
  "kept lh toDel = filter (\<lambda>t. t_ID t \<notin> t_ID ` set toDel) (lh_tables lh)"

lemma deleteTables_eq: "snd (deleteTables s lh toDel) =
    (let d = filter (\<lambda>t. t_ID t \<in> t_ID ` set toDel) (lh_tables lh)
     in lh\<lparr>lh_tables := kept lh toDel, lh_totalSize := lh_totalSize lh - sum_list (map t_Size d),
         lh_totalStaleSize := lh_totalStaleSize lh - sum_list (map (\<lambda>t. int (t_StaleDataSize t)) d)\<rparr>)"
  by (simp add: deleteTables_def level_updates kept_def Let_def)

lemma deleteTables_wf:
  assumes "level_wf lh"
  shows "level_wf (snd (deleteTables s lh toDel)) \<and> lh_tables (snd (deleteTables s lh toDel)) = kept lh toDel"
  using assms by (auto simp: deleteTables_eq level_wf_def sizes_ok_def unsorted_def kept_def Let_def
      sum_list_split sorted_wrt_filter)

lemma replaceTables_wf:
  fixes s :: table_refs
  assumes wf: "level_wf lh" and add: "\<forall>t \<in> set toAdd. built_table t"
    and dj: "\<not> unsorted lh \<Longrightarrow> distinct (kept lh toDel @ toAdd) \<and>
      (\<forall>a \<in> set (kept lh toDel @ toAdd). \<forall>b \<in> set (kept lh toDel @ toAdd). a \<noteq> b \<longrightarrow> before_table a b \<or> before_table b a)"
  defines "lh' \<equiv> snd (replaceTables s lh toDel toAdd)"
  shows "level_wf lh' \<and> set (lh_tables lh') = set (kept lh toDel) \<union> set toAdd \<and> lh_level lh' = lh_level lh"
proof -
  let ?ts = "kept lh toDel @ toAdd"
  have lh': "lh_tables lh' = go_sort (if lh_level lh = 98 then by_ID else by_Smallest) ?ts"
    "lh_level lh' = lh_level lh"
    "lh_totalSize lh' = lh_totalSize lh - sum_list (map t_Size (filter (\<lambda>t. t_ID t \<in> t_ID ` set toDel) (lh_tables lh)))
      + sum_list (map t_Size toAdd)"
    "lh_totalStaleSize lh' = lh_totalStaleSize lh -
      sum_list (map (\<lambda>t. int (t_StaleDataSize t)) (filter (\<lambda>t. t_ID t \<in> t_ID ` set toDel) (lh_tables lh)))
      + sum_list (map (\<lambda>t. int (t_StaleDataSize t)) toAdd)"
    by (auto simp: lh'_def replaceTables_def level_updates kept_def Let_def)
  have built: "\<forall>t \<in> set ?ts. built_table t" using wf add by (auto simp: level_wf_def kept_def)
  have sz: "sizes_ok lh'"
    using wf unfolding level_wf_def sizes_ok_def lh' by (simp add: sum_list_split gs.sum_list_srt kept_def)
  have srt: "sorted_wrt before_table (lh_tables lh')" if "\<not> unsorted lh'"
  proof -
    have ns: "\<not> unsorted lh" "lh_level lh \<noteq> 98" using that lh'(2) by (auto simp: unsorted_def)
    with sort_apart [of ?ts] dj built show ?thesis by (simp add: lh'(1))
  qed
  have st: "set (lh_tables lh') = set (kept lh toDel) \<union> set toAdd" by (simp add: lh'(1))
  have "\<forall>t \<in> set (lh_tables lh'). built_table t" using built unfolding st by simp
  with sz srt st lh'(2) show ?thesis unfolding level_wf_def by blast
qed

lemma initTables_wf:
  assumes "\<forall>t \<in> set ts. built_table t"
    and "\<not> unsorted lh \<Longrightarrow> distinct ts \<and> (\<forall>a \<in> set ts. \<forall>b \<in> set ts. a \<noteq> b \<longrightarrow> before_table a b \<or> before_table b a)"
  shows "level_wf (initTables lh ts) \<and> set (lh_tables (initTables lh ts)) = set ts"
proof -
  have "sorted_wrt before_table (go_sort by_Smallest ts)" if "\<not> unsorted lh"
    using sort_apart [of ts] assms that by blast
  then show ?thesis using assms(1)
    by (auto simp: initTables_def level_wf_def sizes_ok_def unsorted_def level_updates Let_def)
qed

lemma append_table_wf:
  assumes "level_wf lh" and "built_table t" and "unsorted lh"
  shows "level_wf (addSize (lh\<lparr>lh_tables := lh_tables lh @ [t]\<rparr>) t)"
  using assms by (auto simp: level_wf_def sizes_ok_def unsorted_def addSize_def)

section \<open>The tables a range overlaps\<close>

lemma smallest_upward:
  assumes "sorted_wrt before_table ts" and "\<forall>t \<in> set ts. built_table t"
  shows "upward (length ts) (\<lambda>i. key_less key (t_Smallest (ts ! i)))"
proof (rule upwardI)
  fix i j
  assume ij: "i \<le> j" "j < length ts" and le: "key_less key (t_Smallest (ts ! i))"
  show "key_less key (t_Smallest (ts ! j))"
  proof (cases "i = j")
    case False
    then have "before_table (ts ! i) (ts ! j)" using assms(1) ij by (simp add: sorted_wrt_nth_mono)
    moreover have "built_table (ts ! i)" using assms(2) ij by simp
    ultimately show ?thesis
      using le unfolding before_table_def built_table_def table_ok_def by (meson key_less_trans key_less_le_trans)
  qed (use le in simp)
qed

lemma overlappingTables_iff:
  assumes "level_wf lh" and "\<not> unsorted lh" and "kr_left kr \<noteq> []" and "kr_right kr \<noteq> []" and "i < length (lh_tables lh)"
  shows "(fst (overlappingTables lh kr) \<le> i \<longleftrightarrow> key_le (kr_left kr) (t_Biggest (lh_tables lh ! i))) \<and>
    (i < snd (overlappingTables lh kr) \<longleftrightarrow> key_le (t_Smallest (lh_tables lh ! i)) (kr_right kr))"
proof -
  have s: "sorted_wrt before_table (lh_tables lh)" "\<forall>t \<in> set (lh_tables lh). built_table t"
    using assms(1,2) by (auto simp: level_wf_def)
  from sort_search_iff [OF biggest_upward [OF s] assms(5)] sort_search_iff [OF smallest_upward [OF s] assms(5)]
    assms(3,4) show ?thesis
    by (simp add: overlappingTables_def key_le_def key_less_def not_le [symmetric])
      (metis cmp_keys_ge key_le_def not_le)
qed

section \<open>Properties\<close>

text \<open>A table without a filter, given by its entries, for the witnesses.\<close>

definition small_table :: "u64 \<Rightarrow> entry list \<Rightarrow> table" where
  "small_table i es = \<lparr>t_ID = i, t_Smallest = fst (hd es), t_Biggest = fst (last es), t_Size = int (length es),
     t_StaleDataSize = 0, t_MaxVersion = 1, t_KeyID = 0, t_Compression = 0, t_IsInmemory = False, t_Bloom = None,
     t_data = es\<rparr>"

lemma small_table_simps [simp]: "t_data (small_table i es) = es" "t_ID (small_table i es) = i"
  by (simp_all add: small_table_def)

definition small_vs :: "byte \<Rightarrow> ValueStruct" where
  "small_vs b = \<lparr>vs_Meta = 0, vs_UserMeta = 0, vs_ExpiresAt = 0, vs_Value = Some [b], vs_Version = 0\<rparr>"

lemma small_vs_Value [simp]: "vs_Value (small_vs b) = Some [b]"
  by (simp add: small_vs_def)

lemma sorted_bounds:
  assumes "sorted_wrt key_less (map fst es)" and "e \<in> set es"
  shows "key_le (fst (hd es)) (fst e) \<and> key_le (fst e) (fst (last es))"
proof -
  obtain i where i: "i < length es" "e = es ! i" using assms(2) by (auto simp: in_set_conv_nth)
  have lt: "key_less (fst (es ! a)) (fst (es ! b))" if "a < b" "b < length es" for a b
    using sorted_wrt_nth_mono [OF assms(1), of a b] that by simp
  have "key_less (fst (es ! 0)) (fst (es ! i))" if "0 < i" using lt i that by simp
  moreover have "key_less (fst (es ! i)) (fst (es ! (length es - 1)))" if "i < length es - 1"
    using lt i that by simp
  moreover have "hd es = es ! 0" "last es = es ! (length es - 1)"
    using assms(2) hd_conv_nth last_conv_nth by (metis empty_iff list.set(1))+
  ultimately show ?thesis using i by (cases "i = 0"; cases "i = length es - 1") (auto simp: key_le_iff)
qed

lemma small_table_built [intro, simp]:
  assumes "es \<noteq> []" and "sorted_wrt key_less (map fst es)"
    and "\<forall>e \<in> set es. stored_key (fst e) \<and> vs_Value (snd e) \<noteq> None"
  shows "built_table (small_table i es)"
proof -
  have "key_le (fst (hd es)) (fst (last es))" using sorted_bounds [OF assms(2), of "hd es"] assms(1) by simp
  moreover have "\<forall>(k, v) \<in> set es. key_ok k \<and> key_le (fst (hd es)) k \<and> key_le k (fst (last es))"
    using sorted_bounds [OF assms(2)] assms(3) by fastforce
  moreover have "hd es \<in> set es" "last es \<in> set es" using assms(1) by simp_all
  ultimately show ?thesis
    using assms unfolding built_table_def table_ok_def by (auto simp: small_table_def)
qed

lemma stored_KeyWithTs [simp]: "k \<noteq> [] \<Longrightarrow> stored_key (KeyWithTs k ts) \<longleftrightarrow> 0 < ts"
  by (simp add: stored_key_def)

lemma key_less_KeyWithTs [simp]: "key_less (KeyWithTs k s) (KeyWithTs l t) \<longleftrightarrow> k < l \<or> k = l \<and> t < s"
  by (simp add: key_less_def cmp_keys_KeyWithTs_less)

definition two_refs :: table_refs where
  "two_refs = \<lparr>rf_count = (\<lambda>_. 1), rf_deleted = {}\<rparr>"

definition ex_tables :: "table list" where
  "ex_tables = [small_table 1 [(KeyWithTs [1] 4, small_vs 1), (KeyWithTs [2] 7, small_vs 2)],
     small_table 2 [(KeyWithTs [2] 3, small_vs 3), (KeyWithTs [5] 9, small_vs 4)]]"

definition ex_level :: levelHandler where
  "ex_level = initTables (newLevelHandler 3) ex_tables"

lemma ex_tables_built: "\<forall>t \<in> set ex_tables. built_table t"
  by (simp add: ex_tables_def)

lemma ex_level_wf: "level_wf ex_level \<and> set (lh_tables ex_level) = set ex_tables \<and> \<not> unsorted ex_level"
proof -
  have "distinct ex_tables \<and> (\<forall>a \<in> set ex_tables. \<forall>b \<in> set ex_tables. a \<noteq> b \<longrightarrow> before_table a b \<or> before_table b a)"
    by (auto simp: ex_tables_def small_table_def before_table_def)
  then show ?thesis using initTables_wf [OF ex_tables_built, of "newLevelHandler 3"]
    by (auto simp: ex_level_def unsorted_def newLevelHandler_def initTables_def Let_def foldl_addSize)
qed

text \<open>
  C20: a lookup in a level finds the newest version of the key at or below the timestamp
  among all entries of the level, or the zero struct, whatever tables it skips: those the
  Bloom filter denies, and in a sorted level all but the one found by binary search. The
  reference counts are as before.
\<close>

theorem level_lookup:
  assumes "level_wf lh" and "k \<noteq> []" and "\<forall>t \<in> set (lh_tables lh). 0 < rf_count s (t_ID t)"
  shows "level_get s lh (KeyWithTs k ts) = Some (s, as_vs (newest (level_entries lh) k ts))"
  by (rule level_get_newest [OF assms])

lemma level_lookup_witness:
  "level_get two_refs ex_level (KeyWithTs [2] 5) = Some (two_refs, as_vs (newest (level_entries ex_level) [2] 5))"
  by (rule level_lookup) (use ex_level_wf in \<open>auto simp: two_refs_def\<close>)

text \<open>
  C23: a level stays well formed when a compaction replaces tables: the new tables and the
  ones that stay must not overlap each other; then the level is sorted again, holds exactly
  these tables, and its sizes are the sums over them.
\<close>

theorem level_replace:
  assumes "level_wf lh" and "\<forall>t \<in> set toAdd. built_table t"
    and "\<not> unsorted lh \<Longrightarrow> distinct (kept lh toDel @ toAdd) \<and>
      (\<forall>a \<in> set (kept lh toDel @ toAdd). \<forall>b \<in> set (kept lh toDel @ toAdd). a \<noteq> b \<longrightarrow> before_table a b \<or> before_table b a)"
  shows "level_wf (snd (replaceTables s lh toDel toAdd)) \<and>
    set (lh_tables (snd (replaceTables s lh toDel toAdd))) = set (kept lh toDel) \<union> set toAdd"
  using replaceTables_wf [OF assms(1,2), of toDel s] assms(3) by blast

lemma level_replace_witness:
  "level_wf (snd (replaceTables two_refs ex_level ex_tables [small_table 3 [(KeyWithTs [3] 2, small_vs 9)]]))"
proof -
  have "kept ex_level ex_tables = []" using ex_level_wf by (auto simp: kept_def filter_empty_conv)
  then show ?thesis using level_replace [of ex_level "[small_table 3 [(KeyWithTs [3] 2, small_vs 9)]]" ex_tables two_refs]
      ex_level_wf by simp
qed

end
