(* ===== verification/CompactStatus.thy ===== *)
theory CompactStatus
  imports Compaction
begin

text \<open>
  The second half of \<open>compaction.go\<close>: the status the compactors share. Levels are
  named by their number; 98 and 99 are the hot tiers, whose status is created on first
  use. A claim of two ranges (\<open>compareAndAdd\<close>), its release (\<open>delete\<close>), the claim of
  all of level 0 (the end of \<open>fillTablesL0ToL0\<close>), and any interleaving of them as the
  step relation \<open>cstep\<close>.
\<close>

section \<open>State\<close>

record levelCompactStatus =
  ls_ranges :: "keyRange list"
  ls_delSize :: int

definition new_ls :: levelCompactStatus where
  "new_ls = \<lparr>ls_ranges = [], ls_delSize = 0\<rparr>"

definition ls_overlapsWith :: "levelCompactStatus \<Rightarrow> keyRange \<Rightarrow> bool" where
  "ls_overlapsWith lcs dst \<longleftrightarrow> list_ex (\<lambda>r. kr_overlapsWith r dst) (ls_ranges lcs)"

definition ls_remove :: "levelCompactStatus \<Rightarrow> keyRange \<Rightarrow> levelCompactStatus \<times> bool" where
  "ls_remove lcs dst =
     (lcs\<lparr>ls_ranges := filter (\<lambda>r. \<not> kr_equals r dst) (ls_ranges lcs)\<rparr>,
      list_ex (\<lambda>r. kr_equals r dst) (ls_ranges lcs))"

record compactStatus =
  cs_levels :: "levelCompactStatus list"
  cs_tables :: "u64 set"
  cs_hotTierStatus :: "levelCompactStatus option"
  cs_hotTierOrdStatus :: "levelCompactStatus option"

text \<open>
  \<open>getLevelStatus\<close> gives a pointer; here the status a level has (\<open>None\<close> for an index
  that panics), and the write-back of a changed one.
\<close>

definition getLevelStatus :: "compactStatus \<Rightarrow> nat \<Rightarrow> levelCompactStatus option" where
  "getLevelStatus cs level =
     (if level = 98 then
        Some (case cs_hotTierStatus cs of None \<Rightarrow> new_ls | Some s \<Rightarrow> s)
      else if level = 99 then
        Some (case cs_hotTierOrdStatus cs of None \<Rightarrow> new_ls | Some s \<Rightarrow> s)
      else if level < length (cs_levels cs) then Some (cs_levels cs ! level)
      else None)"

definition setLevelStatus :: "compactStatus \<Rightarrow> nat \<Rightarrow> levelCompactStatus \<Rightarrow> compactStatus" where
  "setLevelStatus cs level s =
     (if level = 98 then cs\<lparr>cs_hotTierStatus := Some s\<rparr>
      else if level = 99 then cs\<lparr>cs_hotTierOrdStatus := Some s\<rparr>
      else cs\<lparr>cs_levels := (cs_levels cs)[level := s]\<rparr>)"

definition level_ok :: "compactStatus \<Rightarrow> nat \<Rightarrow> bool" where
  "level_ok cs l \<longleftrightarrow> l = 98 \<or> l = 99 \<or> l < length (cs_levels cs)"

definition ranges_at :: "compactStatus \<Rightarrow> nat \<Rightarrow> keyRange list" where
  "ranges_at cs l = (case getLevelStatus cs l of None \<Rightarrow> [] | Some s \<Rightarrow> ls_ranges s)"

definition cs_overlapsWith :: "compactStatus \<Rightarrow> nat \<Rightarrow> keyRange \<Rightarrow> bool option" where
  "cs_overlapsWith cs level this =
     (case getLevelStatus cs level of None \<Rightarrow> None | Some s \<Rightarrow> Some (ls_overlapsWith s this))"

definition cs_delSize :: "compactStatus \<Rightarrow> nat \<Rightarrow> int option" where
  "cs_delSize cs l = map_option ls_delSize (getLevelStatus cs l)"

text \<open>What a compaction is about: \<open>targets\<close>, \<open>compactionPriority\<close>, \<open>compactDef\<close>.\<close>

record targets =
  baseLevel :: nat
  targetSz :: "int list"
  fileSz :: "int list"

record compactionPriority =
  p_level :: nat
  p_score :: f64
  p_adjusted :: f64
  p_dropPrefixes :: "bytes list"
  p_t :: targets

record compactDef =
  cd_compactorId :: int
  cd_t :: targets
  cd_p :: compactionPriority
  cd_thisLevel :: nat
  cd_nextLevel :: nat
  cd_top :: "table list"
  cd_bot :: "table list"
  cd_thisRange :: keyRange
  cd_nextRange :: keyRange
  cd_splits :: "keyRange list"
  cd_thisSize :: int
  cd_dropPrefixes :: "bytes list"

definition allTables :: "compactDef \<Rightarrow> table list" where
  "allTables cd = cd_top cd @ cd_bot cd"

section \<open>Claiming and releasing\<close>

definition add_range :: "compactStatus \<Rightarrow> nat \<Rightarrow> keyRange \<Rightarrow> compactStatus" where
  "add_range cs l r = (case getLevelStatus cs l of None \<Rightarrow> cs
     | Some s \<Rightarrow> setLevelStatus cs l (s\<lparr>ls_ranges := ls_ranges s @ [r]\<rparr>))"

definition add_delSize :: "compactStatus \<Rightarrow> nat \<Rightarrow> int \<Rightarrow> compactStatus" where
  "add_delSize cs l n = (case getLevelStatus cs l of None \<Rightarrow> cs
     | Some s \<Rightarrow> setLevelStatus cs l (s\<lparr>ls_delSize := ls_delSize s + n\<rparr>))"

definition remove_range :: "compactStatus \<Rightarrow> nat \<Rightarrow> keyRange \<Rightarrow> compactStatus \<times> bool" where
  "remove_range cs l r = (case getLevelStatus cs l of None \<Rightarrow> (cs, False)
     | Some s \<Rightarrow> let (s', found) = ls_remove s r in (setLevelStatus cs l s', found))"

text \<open>
  \<open>compareAndAdd\<close>: both ranges must be free at their levels; then they are appended,
  the tables marked and the size booked. \<open>None\<close> is the panic for a level that does
  not exist.
\<close>

definition compareAndAdd :: "compactStatus \<Rightarrow> compactDef \<Rightarrow> (compactStatus \<times> bool) option" where
  "compareAndAdd cs cd =
     (case getLevelStatus cs (cd_thisLevel cd) of None \<Rightarrow> None
      | Some thisLevel \<Rightarrow>
     (case getLevelStatus cs (cd_nextLevel cd) of None \<Rightarrow> None
      | Some nextLevel \<Rightarrow>
          if ls_overlapsWith thisLevel (cd_thisRange cd) then Some (cs, False)
          else if ls_overlapsWith nextLevel (cd_nextRange cd) then Some (cs, False)
          else
            let cs1 = add_range cs (cd_thisLevel cd) (cd_thisRange cd);
                cs2 = add_range cs1 (cd_nextLevel cd) (cd_nextRange cd);
                cs3 = add_delSize cs2 (cd_thisLevel cd) (cd_thisSize cd)
            in Some (cs3\<lparr>cs_tables := cs_tables cs3 \<union> set (map t_ID (allTables cd))\<rparr>, True)))"

text \<open>The loop over the tables: each must be marked, and is unmarked.\<close>

fun unmark :: "u64 set \<Rightarrow> table list \<Rightarrow> u64 set option" where
  "unmark ids [] = Some ids"
| "unmark ids (t # ts) = (if t_ID t \<in> ids then unmark (ids - {t_ID t}) ts else None)"

text \<open>
  \<open>delete\<close>: \<open>None\<close> stands for \<open>log.Fatal("keyRange not found")\<close>, for the failed
  assertion on a table that is not marked, and for the panic on a missing level.
\<close>

definition cs_delete :: "compactStatus \<Rightarrow> compactDef \<Rightarrow> compactStatus option" where
  "cs_delete cs cd =
     (if \<not> level_ok cs (cd_thisLevel cd) \<or> \<not> level_ok cs (cd_nextLevel cd) then None
      else
        let cs1 = add_delSize cs (cd_thisLevel cd) (- cd_thisSize cd);
            (cs2, found) = remove_range cs1 (cd_thisLevel cd) (cd_thisRange cd);
            (cs3, found) =
              (if cd_thisLevel cd \<noteq> cd_nextLevel cd \<and> \<not> kr_isEmpty (cd_nextRange cd)
               then let (cs', f) = remove_range cs2 (cd_nextLevel cd) (cd_nextRange cd)
                    in (cs', f \<and> found)
               else (cs2, found))
        in if \<not> found then None
           else map_option (\<lambda>ids. cs3\<lparr>cs_tables := ids\<rparr>) (unmark (cs_tables cs3) (allTables cd)))"

text \<open>The end of \<open>fillTablesL0ToL0\<close>: all of level 0 is claimed for the chosen tables.\<close>

definition claim_L0 :: "compactStatus \<Rightarrow> table list \<Rightarrow> compactStatus" where
  "claim_L0 cs out = (let cs1 = add_range cs 0 infRange
     in cs1\<lparr>cs_tables := cs_tables cs1 \<union> set (map t_ID out)\<rparr>)"

section \<open>The ranges at each level after an operation\<close>

lemma getLevelStatus_ok: "level_ok cs l \<longleftrightarrow> (\<exists>s. getLevelStatus cs l = Some s)"
  by (auto simp: level_ok_def getLevelStatus_def)

lemma get_set [simp]:
  "level_ok cs l \<Longrightarrow> getLevelStatus (setLevelStatus cs l s) l' =
    (if l' = l then Some s else getLevelStatus cs l')"
  by (auto simp: getLevelStatus_def setLevelStatus_def level_ok_def)

lemma level_ok_set [simp]: "level_ok (setLevelStatus cs l s) l' = level_ok cs l'"
  by (simp add: level_ok_def setLevelStatus_def)

lemma cs_tables_set [simp]: "cs_tables (setLevelStatus cs l s) = cs_tables cs"
  by (simp add: setLevelStatus_def)

lemma get_tables_update [simp]:
  "getLevelStatus (cs\<lparr>cs_tables := T\<rparr>) l = getLevelStatus cs l"
  "level_ok (cs\<lparr>cs_tables := T\<rparr>) l = level_ok cs l"
  "ranges_at (cs\<lparr>cs_tables := T\<rparr>) l = ranges_at cs l"
  by (simp_all add: getLevelStatus_def level_ok_def ranges_at_def)

lemma add_range_simps [simp]:
  "level_ok (add_range cs l r) l' = level_ok cs l'"
  "cs_tables (add_range cs l r) = cs_tables cs"
  by (auto simp: add_range_def split: option.splits)

lemma add_delSize_simps [simp]:
  "level_ok (add_delSize cs l n) l' = level_ok cs l'"
  "cs_tables (add_delSize cs l n) = cs_tables cs"
  by (auto simp: add_delSize_def split: option.splits)

lemma ranges_add_range:
  "level_ok cs l \<Longrightarrow> ranges_at (add_range cs l r) l' =
    (if l' = l then ranges_at cs l @ [r] else ranges_at cs l')"
  by (auto simp: add_range_def ranges_at_def getLevelStatus_ok)

lemma ranges_add_delSize [simp]: "ranges_at (add_delSize cs l n) l' = ranges_at cs l'"
proof (cases "getLevelStatus cs l")
  case None
  then show ?thesis by (simp add: add_delSize_def)
next
  case (Some s)
  then have "level_ok cs l" by (auto simp: getLevelStatus_ok)
  with Some show ?thesis by (simp add: add_delSize_def ranges_at_def)
qed

lemma remove_range_ranges:
  assumes "level_ok cs l"
  shows "remove_range cs l r = (fst (remove_range cs l r), list_ex (\<lambda>x. kr_equals x r) (ranges_at cs l))"
    and "ranges_at (fst (remove_range cs l r)) l' =
      (if l' = l then filter (\<lambda>x. \<not> kr_equals x r) (ranges_at cs l) else ranges_at cs l')"
    and "level_ok (fst (remove_range cs l r)) l' = level_ok cs l'"
    and "cs_tables (fst (remove_range cs l r)) = cs_tables cs"
  using assms
  by (auto simp: remove_range_def ls_remove_def ranges_at_def getLevelStatus_ok split: if_splits)

lemma ls_overlapsWith_ranges:
  "getLevelStatus cs l = Some s \<Longrightarrow>
    ls_overlapsWith s r \<longleftrightarrow> (\<exists>x \<in> set (ranges_at cs l). kr_overlapsWith x r)"
  by (simp add: ls_overlapsWith_def ranges_at_def list_ex_iff)

lemma compareAndAdd_True:
  "compareAndAdd cs cd = Some (cs', True) \<longleftrightarrow>
    level_ok cs (cd_thisLevel cd) \<and> level_ok cs (cd_nextLevel cd) \<and>
    (\<forall>x \<in> set (ranges_at cs (cd_thisLevel cd)). \<not> kr_overlapsWith x (cd_thisRange cd)) \<and>
    (\<forall>x \<in> set (ranges_at cs (cd_nextLevel cd)). \<not> kr_overlapsWith x (cd_nextRange cd)) \<and>
    cs' = (add_delSize (add_range (add_range cs (cd_thisLevel cd) (cd_thisRange cd))
             (cd_nextLevel cd) (cd_nextRange cd)) (cd_thisLevel cd) (cd_thisSize cd))
          \<lparr>cs_tables := cs_tables cs \<union> set (map t_ID (allTables cd))\<rparr>"
  by (auto simp: compareAndAdd_def getLevelStatus_ok ls_overlapsWith_ranges Let_def
      split: option.splits)

text \<open>A refused claim leaves the status as it was.\<close>

lemma compareAndAdd_False: "compareAndAdd cs cd = Some (cs', False) \<Longrightarrow> cs' = cs"
  by (auto simp: compareAndAdd_def Let_def split: option.splits if_splits)

lemma unmark_Some:
  "distinct (map t_ID ts) \<Longrightarrow> set (map t_ID ts) \<subseteq> ids \<Longrightarrow>
    unmark ids ts = Some (ids - set (map t_ID ts))"
proof (induction ts arbitrary: ids)
  case Nil
  then show ?case by simp
next
  case (Cons t ts)
  have "distinct (map t_ID ts)" using Cons.prems(1) by simp
  moreover have "set (map t_ID ts) \<subseteq> ids - {t_ID t}"
    using Cons.prems by (simp only: list.map distinct.simps set_simps) blast
  ultimately have "unmark (ids - {t_ID t}) ts = Some (ids - {t_ID t} - set (map t_ID ts))"
    by (rule Cons.IH)
  moreover have "ids - {t_ID t} - set (map t_ID ts) = ids - set (map t_ID (t # ts))" by auto
  ultimately show ?case using Cons.prems(2) by simp
qed

section \<open>Compactors at work\<close>

text \<open>
  The compactors of \<open>levels.go\<close> as steps on the shared status: a compaction starts
  when \<open>compareAndAdd\<close> accepts it, or by claiming level 0 (compactor 0 only, which runs
  one compaction at a time), and ends with \<open>delete\<close>. \<open>home\<close> gives the level and the
  bounds of the table file with a given number, which never change.
\<close>

record cworld =
  cw_status :: compactStatus
  cw_running :: "compactDef list"

definition ids_of :: "compactDef \<Rightarrow> u64 set" where
  "ids_of cd = t_ID ` set (allTables cd)"

definition homed :: "(u64 \<Rightarrow> nat \<times> keyRange) \<Rightarrow> nat \<Rightarrow> keyRange \<Rightarrow> table list \<Rightarrow> bool" where
  "homed home l r ts \<longleftrightarrow> (\<forall>t \<in> set ts. \<exists>k. home (t_ID t) = (l, k) \<and> kr_wf k \<and> kr_keys k \<subseteq> kr_keys r)"

text \<open>
  What the fill functions guarantee of a compaction they ask for: its ranges are real
  ranges, and hold the top tables at this level and the bottom tables at the next.
\<close>

definition cdef_ok :: "(u64 \<Rightarrow> nat \<times> keyRange) \<Rightarrow> compactDef \<Rightarrow> bool" where
  "cdef_ok home cd \<longleftrightarrow>
     kr_wf (cd_thisRange cd) \<and> kr_wf (cd_nextRange cd) \<and>
     \<not> kr_inf (cd_thisRange cd) \<and> \<not> kr_inf (cd_nextRange cd) \<and>
     homed home (cd_thisLevel cd) (cd_thisRange cd) (cd_top cd) \<and>
     homed home (cd_nextLevel cd) (cd_nextRange cd) (cd_bot cd) \<and>
     distinct (map t_ID (allTables cd))"

definition L0_def_ok :: "(u64 \<Rightarrow> nat \<times> keyRange) \<Rightarrow> compactStatus \<Rightarrow> compactDef \<Rightarrow> bool" where
  "L0_def_ok home cs cd \<longleftrightarrow>
     cd_compactorId cd = 0 \<and> cd_thisLevel cd = 0 \<and> cd_nextLevel cd = 0 \<and>
     cd_thisRange cd = infRange \<and> cd_nextRange cd = empty_range \<and> cd_bot cd = [] \<and>
     homed home 0 infRange (cd_top cd) \<and>
     (\<forall>t \<in> set (cd_top cd). t_ID t \<notin> cs_tables cs) \<and> distinct (map t_ID (cd_top cd))"

inductive cstep :: "(u64 \<Rightarrow> nat \<times> keyRange) \<Rightarrow> cworld \<Rightarrow> cworld \<Rightarrow> bool" for home where
  start: "compareAndAdd (cw_status w) cd = Some (cs', True) \<Longrightarrow> cdef_ok home cd \<Longrightarrow>
    cstep home w \<lparr>cw_status = cs', cw_running = cd # cw_running w\<rparr>"
| start_L0: "level_ok (cw_status w) 0 \<Longrightarrow> L0_def_ok home (cw_status w) cd \<Longrightarrow>
    \<forall>c \<in> set (cw_running w). \<not> kr_inf (cd_thisRange c) \<Longrightarrow>
    cstep home w \<lparr>cw_status = claim_L0 (cw_status w) (cd_top cd), cw_running = cd # cw_running w\<rparr>"
| finish: "cw_running w = xs @ cd # ys \<Longrightarrow> cs_delete (cw_status w) cd = Some cs' \<Longrightarrow>
    cstep home w \<lparr>cw_status = cs', cw_running = xs @ ys\<rparr>"

inductive_cases cstepE: "cstep home w w'"

definition fresh_world :: "nat \<Rightarrow> cworld" where
  "fresh_world n = \<lparr>cw_status = \<lparr>cs_levels = replicate n new_ls, cs_tables = {},
      cs_hotTierStatus = Some new_ls, cs_hotTierOrdStatus = Some new_ls\<rparr>, cw_running = []\<rparr>"

inductive creach :: "(u64 \<Rightarrow> nat \<times> keyRange) \<Rightarrow> nat \<Rightarrow> cworld \<Rightarrow> bool" for home n where
  init: "creach home n (fresh_world n)"
| step: "creach home n w \<Longrightarrow> cstep home w w' \<Longrightarrow> creach home n w'"

text \<open>The ranges a compaction holds, with their levels.\<close>

definition claims :: "compactDef \<Rightarrow> (nat \<times> keyRange) set" where
  "claims cd = {(l, r). (l, r) = (cd_thisLevel cd, cd_thisRange cd) \<or>
     (l, r) = (cd_nextLevel cd, cd_nextRange cd) \<and> \<not> kr_isEmpty (cd_nextRange cd)}"

definition apart :: "compactDef \<Rightarrow> compactDef \<Rightarrow> bool" where
  "apart c d \<longleftrightarrow> ids_of c \<inter> ids_of d = {} \<and>
     (\<forall>(l, r) \<in> claims c. \<forall>(m, q) \<in> claims d. l = m \<longrightarrow> \<not> kr_equals r q \<and>
       (kr_keys r \<inter> kr_keys q = {} \<or> l = 0 \<and> (r = infRange \<or> q = infRange)))"

definition held_ok :: "(u64 \<Rightarrow> nat \<times> keyRange) \<Rightarrow> compactStatus \<Rightarrow> compactDef \<Rightarrow> bool" where
  "held_ok home cs cd \<longleftrightarrow> (\<forall>(l, r) \<in> claims cd. level_ok cs l \<and> r \<in> set (ranges_at cs l) \<and> kr_wf r) \<and>
     level_ok cs (cd_nextLevel cd) \<and> distinct (map t_ID (allTables cd)) \<and>
     (\<forall>t \<in> set (allTables cd). \<exists>(l, r) \<in> claims cd. homed home l r [t])"

definition cinv :: "(u64 \<Rightarrow> nat \<times> keyRange) \<Rightarrow> cworld \<Rightarrow> bool" where
  "cinv home w \<longleftrightarrow> sorted_wrt apart (cw_running w) \<and>
     (\<forall>cd \<in> set (cw_running w). held_ok home (cw_status w) cd) \<and>
     cs_tables (cw_status w) = (\<Union>cd \<in> set (cw_running w). ids_of cd) \<and>
     (\<forall>cd \<in> set (cw_running w). \<not> kr_inf (cd_nextRange cd))"

lemma apart_claims:
  "apart c d \<Longrightarrow> (l, r) \<in> claims c \<Longrightarrow> (l, q) \<in> claims d \<Longrightarrow>
    \<not> kr_equals r q \<and> (kr_keys r \<inter> kr_keys q = {} \<or> l = 0 \<and> (r = infRange \<or> q = infRange))"
  by (fastforce simp: apart_def)

lemma apart_sym: "apart c d \<Longrightarrow> apart d c"
proof -
  assume a: "apart c d"
  have "kr_equals r q = kr_equals q r" for r q by (auto simp: kr_equals_def)
  then have "\<not> kr_equals q r \<and> (kr_keys q \<inter> kr_keys r = {} \<or> l = 0 \<and> (q = infRange \<or> r = infRange))"
    if "(l, r) \<in> claims c" "(l, q) \<in> claims d" for l r q using apart_claims [OF a that] by blast
  then show ?thesis using a unfolding apart_def by blast
qed

lemma cdef_ok_claims: "cdef_ok home cd \<Longrightarrow>
  claims cd = {(cd_thisLevel cd, cd_thisRange cd), (cd_nextLevel cd, cd_nextRange cd)}"
  using kr_wf_nonempty by (auto simp: claims_def cdef_ok_def)

lemma L0_claims: "L0_def_ok home cs cd \<Longrightarrow> claims cd = {(0, infRange)}"
  by (auto simp: claims_def L0_def_ok_def)

lemma cinv_fresh: "cinv home (fresh_world n)"
  by (simp add: cinv_def fresh_world_def)

text \<open>A table in the hands of a running compaction lies in a range that is claimed.\<close>

lemma held_table:
  "held_ok home cs c \<Longrightarrow> t \<in> set (allTables c) \<Longrightarrow> home (t_ID t) = (l, k) \<Longrightarrow>
    \<exists>r \<in> set (ranges_at cs l). kr_wf r \<and> kr_keys k \<subseteq> kr_keys r"
  unfolding held_ok_def homed_def by fastforce

lemma held_ok_mono:
  assumes "held_ok home cs c" and "\<And>l. level_ok cs' l = level_ok cs l"
    and "\<And>l r. (l, r) \<in> claims c \<Longrightarrow> r \<in> set (ranges_at cs l) \<Longrightarrow> r \<in> set (ranges_at cs' l)"
  shows "held_ok home cs' c"
proof -
  have "level_ok cs' l \<and> r \<in> set (ranges_at cs' l) \<and> kr_wf r" if "(l, r) \<in> claims c" for l r
    using that assms unfolding held_ok_def by fastforce
  then show ?thesis using assms(1,2) unfolding held_ok_def by fastforce
qed

lemma compareAndAdd_ranges:
  assumes "compareAndAdd cs cd = Some (cs', True)"
  shows "level_ok cs' l = level_ok cs l" and "set (ranges_at cs l) \<subseteq> set (ranges_at cs' l)"
    and "(l, r) \<in> claims cd \<Longrightarrow> level_ok cs l \<and> r \<in> set (ranges_at cs' l)"
    and "cs_tables cs' = ids_of cd \<union> cs_tables cs"
  using assms
  by (auto simp: compareAndAdd_True ranges_add_range claims_def ids_of_def)

lemma compareAndAdd_held:
  "compareAndAdd cs cd = Some (cs', True) \<Longrightarrow> held_ok home cs c \<Longrightarrow> held_ok home cs' c"
  by (erule held_ok_mono) (use compareAndAdd_ranges in blast)+

lemma new_apart:
  assumes ca: "compareAndAdd cs cd = Some (cs', True)" and ok: "cdef_ok home cd"
    and held: "held_ok home cs c"
  shows "apart cd c"
proof -
  have free: "\<not> kr_overlapsWith x r" if "(l, r) \<in> claims cd" "x \<in> set (ranges_at cs l)" for l r x
    using ca that cdef_ok_claims [OF ok] by (auto simp: compareAndAdd_True)
  have wf: "kr_wf r" if "(l, r) \<in> claims cd" for l r
    using that ok cdef_ok_claims [OF ok] by (auto simp: cdef_ok_def)
  have "t_ID t \<noteq> t_ID u" if t: "t \<in> set (allTables cd)" and u: "u \<in> set (allTables c)" for t u
  proof
    assume eq: "t_ID t = t_ID u"
    obtain l r k where lr: "(l, r) \<in> claims cd" and k: "home (t_ID t) = (l, k)" "kr_wf k" "kr_keys k \<subseteq> kr_keys r"
      using t ok cdef_ok_claims [OF ok] by (fastforce simp: cdef_ok_def homed_def allTables_def)
    obtain x where x: "x \<in> set (ranges_at cs l)" "kr_wf x" "kr_keys k \<subseteq> kr_keys x"
      using held_table [OF held u] k(1) eq by auto
    have "kr_keys x \<inter> kr_keys r \<noteq> {}" using kr_wf_key [OF k(2)] k(3) x(3) by auto
    then show False using free [OF lr x(1)] kr_overlapsWith_keys [OF x(2) wf [OF lr]] by simp
  qed
  then have "ids_of cd \<inter> ids_of c = {}" by (auto simp: ids_of_def)
  moreover have "\<not> kr_equals r q \<and> kr_keys r \<inter> kr_keys q = {}" if "(l, r) \<in> claims cd" "(l, q) \<in> claims c" for l r q
  proof -
    have q: "q \<in> set (ranges_at cs l)" "kr_wf q" using held that by (auto simp: held_ok_def)
    then have d: "kr_keys r \<inter> kr_keys q = {}"
      using free [OF that(1) q(1)] kr_overlapsWith_keys [OF q(2) wf [OF that(1)]] by blast
    then show ?thesis using kr_equals_keys [of r q] kr_wf_key [OF wf [OF that(1)]] by auto
  qed
  ultimately show ?thesis unfolding apart_def by blast
qed

lemma start_held:
  assumes ca: "compareAndAdd cs cd = Some (cs', True)" and ok: "cdef_ok home cd"
  shows "held_ok home cs' cd"
proof -
  have lv: "level_ok cs (cd_nextLevel cd)" "level_ok cs (cd_thisLevel cd)"
    using ca by (simp_all add: compareAndAdd_True)
  show ?thesis
    using compareAndAdd_ranges [OF ca] ok lv
    by (auto simp: held_ok_def cdef_ok_claims [OF ok] cdef_ok_def homed_def allTables_def)
qed

lemma claim_L0_simps:
  assumes "level_ok cs 0"
  shows "level_ok (claim_L0 cs out) l = level_ok cs l"
    and "ranges_at (claim_L0 cs out) l = (if l = 0 then ranges_at cs 0 @ [infRange] else ranges_at cs l)"
    and "cs_tables (claim_L0 cs out) = cs_tables cs \<union> t_ID ` set out"
  using assms by (simp_all add: claim_L0_def Let_def ranges_add_range)

lemma cinv_start:
  assumes ca: "compareAndAdd (cw_status w) cd = Some (cs', True)" and ok: "cdef_ok home cd"
    and inv: "cinv home w"
  shows "cinv home \<lparr>cw_status = cs', cw_running = cd # cw_running w\<rparr>"
  using inv new_apart [OF ca ok] compareAndAdd_held [OF ca] start_held [OF ca ok]
    compareAndAdd_ranges(4) [OF ca] ok
  by (auto simp: cinv_def cdef_ok_def)

lemma cinv_start_L0:
  assumes lv: "level_ok (cw_status w) 0" and ok: "L0_def_ok home (cw_status w) cd"
    and one: "\<forall>c \<in> set (cw_running w). \<not> kr_inf (cd_thisRange c)" and inv: "cinv home w"
  shows "cinv home \<lparr>cw_status = claim_L0 (cw_status w) (cd_top cd), cw_running = cd # cw_running w\<rparr>"
proof -
  note simps = claim_L0_simps [OF lv]
  have tabs: "allTables cd = cd_top cd" using ok by (simp add: L0_def_ok_def allTables_def)
  have "apart cd c" if c: "c \<in> set (cw_running w)" for c
  proof -
    have "ids_of c \<subseteq> cs_tables (cw_status w)" using c inv by (auto simp: cinv_def)
    then have "ids_of cd \<inter> ids_of c = {}"
      using ok tabs by (auto simp: L0_def_ok_def ids_of_def)
    moreover have "\<not> kr_inf r" if "(l, r) \<in> claims c" for l r
      using that one inv c by (auto simp: claims_def cinv_def)
    ultimately show ?thesis
      using L0_claims [OF ok] by (auto simp: apart_def kr_equals_def infRange_def)
  qed
  moreover have "held_ok home (claim_L0 (cw_status w) (cd_top cd)) c" if "c \<in> set (cw_running w)" for c
  proof (rule held_ok_mono [of home "cw_status w"])
    show "held_ok home (cw_status w) c" using inv that by (simp add: cinv_def)
  qed (auto simp: simps)
  moreover have "held_ok home (claim_L0 (cw_status w) (cd_top cd)) cd"
  proof -
    have "homed home 0 infRange [t]" if "t \<in> set (cd_top cd)" for t
      using ok that by (simp add: L0_def_ok_def homed_def)
    moreover have "cd_nextLevel cd = 0" "distinct (map t_ID (cd_top cd))"
      using ok by (simp_all add: L0_def_ok_def)
    ultimately show ?thesis
      using lv by (simp add: held_ok_def L0_claims [OF ok] simps tabs)
  qed
  moreover have "sorted_wrt apart (cw_running w)" "cs_tables (cw_status w) = (\<Union>c \<in> set (cw_running w). ids_of c)"
    "\<forall>c \<in> set (cw_running w). \<not> kr_inf (cd_nextRange c)"
    using inv by (auto simp: cinv_def)
  moreover have "\<not> kr_inf (cd_nextRange cd)" using ok by (simp add: L0_def_ok_def empty_range_def)
  moreover have "ids_of cd = t_ID ` set (cd_top cd)" by (simp add: ids_of_def tabs)
  ultimately show ?thesis by (simp add: cinv_def simps Un_commute)
qed

text \<open>\<open>delete\<close> step by step: the ranges after the first and after the second removal.\<close>

definition after_this :: "compactStatus \<Rightarrow> compactDef \<Rightarrow> compactStatus" where
  "after_this cs cd = fst (remove_range (add_delSize cs (cd_thisLevel cd) (- cd_thisSize cd))
     (cd_thisLevel cd) (cd_thisRange cd))"

definition two_ranges :: "compactDef \<Rightarrow> bool" where
  "two_ranges cd \<longleftrightarrow> cd_thisLevel cd \<noteq> cd_nextLevel cd \<and> \<not> kr_isEmpty (cd_nextRange cd)"

definition after_next :: "compactStatus \<Rightarrow> compactDef \<Rightarrow> compactStatus" where
  "after_next cs cd = (if two_ranges cd
     then fst (remove_range (after_this cs cd) (cd_nextLevel cd) (cd_nextRange cd))
     else after_this cs cd)"

lemma after_this_simps:
  assumes "level_ok cs (cd_thisLevel cd)"
  shows "level_ok (after_this cs cd) l = level_ok cs l"
    and "cs_tables (after_this cs cd) = cs_tables cs"
    and "ranges_at (after_this cs cd) l = (if l = cd_thisLevel cd
      then filter (\<lambda>x. \<not> kr_equals x (cd_thisRange cd)) (ranges_at cs l) else ranges_at cs l)"
  using assms remove_range_ranges(2-4) [of "add_delSize cs (cd_thisLevel cd) (- cd_thisSize cd)" "cd_thisLevel cd"]
  by (simp_all add: after_this_def)

lemma after_next_simps:
  assumes "level_ok cs (cd_thisLevel cd)" "level_ok cs (cd_nextLevel cd)"
  shows "level_ok (after_next cs cd) l = level_ok cs l"
    and "cs_tables (after_next cs cd) = cs_tables cs"
    and "ranges_at (after_next cs cd) l =
      (if l = cd_thisLevel cd then filter (\<lambda>x. \<not> kr_equals x (cd_thisRange cd)) (ranges_at cs l)
       else if two_ranges cd \<and> l = cd_nextLevel cd
       then filter (\<lambda>x. \<not> kr_equals x (cd_nextRange cd)) (ranges_at cs l) else ranges_at cs l)"
proof -
  note this1 = after_this_simps [OF assms(1)]
  have lv: "level_ok (after_this cs cd) (cd_nextLevel cd)" using assms by (simp add: this1)
  note rr = remove_range_ranges(2-4) [OF lv]
  show "level_ok (after_next cs cd) l = level_ok cs l" "cs_tables (after_next cs cd) = cs_tables cs"
    by (simp_all add: after_next_def this1 rr)
  show "ranges_at (after_next cs cd) l =
      (if l = cd_thisLevel cd then filter (\<lambda>x. \<not> kr_equals x (cd_thisRange cd)) (ranges_at cs l)
       else if two_ranges cd \<and> l = cd_nextLevel cd
       then filter (\<lambda>x. \<not> kr_equals x (cd_nextRange cd)) (ranges_at cs l) else ranges_at cs l)"
    by (auto simp: after_next_def rr this1 two_ranges_def)
qed

lemma cs_delete_alt:
  assumes "level_ok cs (cd_thisLevel cd)" "level_ok cs (cd_nextLevel cd)"
  shows "cs_delete cs cd =
    (if list_ex (\<lambda>x. kr_equals x (cd_thisRange cd)) (ranges_at cs (cd_thisLevel cd)) \<and>
        (two_ranges cd \<longrightarrow> list_ex (\<lambda>x. kr_equals x (cd_nextRange cd)) (ranges_at cs (cd_nextLevel cd)))
     then map_option (\<lambda>ids. (after_next cs cd)\<lparr>cs_tables := ids\<rparr>) (unmark (cs_tables cs) (allTables cd))
     else None)"
proof -
  let ?cs1 = "add_delSize cs (cd_thisLevel cd) (- cd_thisSize cd)"
  have r1: "remove_range ?cs1 (cd_thisLevel cd) (cd_thisRange cd) = (after_this cs cd,
      list_ex (\<lambda>x. kr_equals x (cd_thisRange cd)) (ranges_at cs (cd_thisLevel cd)))"
    using remove_range_ranges(1) [of ?cs1 "cd_thisLevel cd" "cd_thisRange cd"] assms
    by (simp add: after_this_def)
  have lv: "level_ok (after_this cs cd) (cd_nextLevel cd)"
    using assms by (simp add: after_this_simps [OF assms(1)])
  have r2: "remove_range (after_this cs cd) (cd_nextLevel cd) (cd_nextRange cd) = (after_next cs cd,
      list_ex (\<lambda>x. kr_equals x (cd_nextRange cd)) (ranges_at cs (cd_nextLevel cd)))" if "two_ranges cd"
    using remove_range_ranges(1) [OF lv, of "cd_nextRange cd"] that
    by (simp add: after_next_def after_this_simps [OF assms(1)] two_ranges_def)
  have n: "\<not> two_ranges cd \<Longrightarrow> after_next cs cd = after_this cs cd" by (simp add: after_next_def)
  have t: "cs_tables (after_next cs cd) = cs_tables cs" by (rule after_next_simps(2) [OF assms])
  show ?thesis
  proof (cases "two_ranges cd")
    case True
    then show ?thesis using assms r1 r2 t unfolding two_ranges_def
      by (simp add: cs_delete_def Let_def conj_commute)
  next
    case False
    then show ?thesis using assms r1 n t unfolding two_ranges_def
      by (auto simp: cs_delete_def Let_def)
  qed
qed

lemma cs_delete_shape:
  "cs_delete cs cd = Some cs' \<Longrightarrow> level_ok cs (cd_thisLevel cd) \<Longrightarrow> level_ok cs (cd_nextLevel cd) \<Longrightarrow>
    \<exists>ids. cs' = (after_next cs cd)\<lparr>cs_tables := ids\<rparr>"
  by (auto simp: cs_delete_alt split: if_splits)

lemma cs_delete_defined:
  assumes held: "held_ok home cs cd" and ids: "ids_of cd \<subseteq> cs_tables cs"
  shows "cs_delete cs cd = Some ((after_next cs cd)\<lparr>cs_tables := cs_tables cs - ids_of cd\<rparr>)"
proof -
  have h: "level_ok cs (cd_thisLevel cd)" "cd_thisRange cd \<in> set (ranges_at cs (cd_thisLevel cd))"
    "level_ok cs (cd_nextLevel cd)"
    "two_ranges cd \<Longrightarrow> cd_nextRange cd \<in> set (ranges_at cs (cd_nextLevel cd))"
    "distinct (map t_ID (allTables cd))"
    using held by (auto simp: held_ok_def claims_def two_ranges_def)
  then have "unmark (cs_tables cs) (allTables cd) = Some (cs_tables cs - set (map t_ID (allTables cd)))"
    using ids by (intro unmark_Some) (auto simp: ids_of_def)
  with h show ?thesis
    by (auto simp: cs_delete_alt list_ex_iff ids_of_def intro: kr_equals_refl)
qed

lemma after_next_keeps:
  assumes "level_ok cs (cd_thisLevel cd)" "level_ok cs (cd_nextLevel cd)"
    and "x \<in> set (ranges_at cs l)" and "\<And>r. (l, r) \<in> claims cd \<Longrightarrow> \<not> kr_equals x r"
  shows "x \<in> set (ranges_at (after_next cs cd) l)"
proof -
  have "(cd_thisLevel cd, cd_thisRange cd) \<in> claims cd"
    "two_ranges cd \<Longrightarrow> (cd_nextLevel cd, cd_nextRange cd) \<in> claims cd"
    by (auto simp: claims_def two_ranges_def)
  then show ?thesis using assms by (auto simp: after_next_simps)
qed

lemma cinv_finish:
  assumes run: "cw_running w = xs @ cd # ys" and del: "cs_delete (cw_status w) cd = Some cs'"
    and inv: "cinv home w"
  shows "cinv home \<lparr>cw_status = cs', cw_running = xs @ ys\<rparr>"
proof -
  let ?cs = "cw_status w"
  have held: "held_ok home ?cs c" if "c \<in> set (xs @ cd # ys)" for c
    using inv that run by (auto simp: cinv_def)
  have tabs: "cs_tables ?cs = (\<Union>c \<in> set (xs @ cd # ys). ids_of c)"
    using inv run by (simp add: cinv_def)
  have srt: "sorted_wrt apart (xs @ cd # ys)" using inv run by (simp add: cinv_def)
  have ap: "apart cd c" if "c \<in> set (xs @ ys)" for c
    using srt that by (auto simp: sorted_wrt_append intro: apart_sym)
  have lv: "level_ok ?cs (cd_thisLevel cd)" "level_ok ?cs (cd_nextLevel cd)"
    using held [of cd] by (auto simp: held_ok_def claims_def)
  have cs': "cs' = (after_next ?cs cd)\<lparr>cs_tables := cs_tables ?cs - ids_of cd\<rparr>"
    using cs_delete_defined [OF held [of cd]] del tabs by auto
  have "held_ok home cs' c" if c: "c \<in> set (xs @ ys)" for c
  proof (rule held_ok_mono [of home ?cs])
    show "held_ok home ?cs c" using held c by auto
    show "level_ok cs' l = level_ok ?cs l" for l by (simp add: cs' after_next_simps lv)
    fix l r assume lr: "(l, r) \<in> claims c" "r \<in> set (ranges_at ?cs l)"
    have "\<not> kr_equals r q" if "(l, q) \<in> claims cd" for q
      using ap [OF c] lr(1) that by (fastforce simp: apart_def kr_equals_def)
    then show "r \<in> set (ranges_at cs' l)"
      using after_next_keeps [OF lv lr(2)] by (simp add: cs')
  qed
  moreover have "cs_tables cs' = (\<Union>c \<in> set (xs @ ys). ids_of c)"
  proof -
    have "ids_of cd \<inter> ids_of c = {}" if "c \<in> set (xs @ ys)" for c
      using ap [OF that] by (simp add: apart_def)
    then show ?thesis unfolding cs' using tabs by fastforce
  qed
  moreover have "sorted_wrt apart (xs @ ys)" using srt by (auto simp: sorted_wrt_append)
  moreover have "\<forall>c \<in> set (xs @ ys). \<not> kr_inf (cd_nextRange c)" using inv run by (simp add: cinv_def)
  ultimately show ?thesis by (simp add: cinv_def)
qed

lemma cinv_step: "cstep home w w' \<Longrightarrow> cinv home w \<Longrightarrow> cinv home w'"
  by (erule cstepE) (simp_all add: cinv_start cinv_start_L0 cinv_finish)

lemma creach_cinv: "creach home n w \<Longrightarrow> cinv home w"
  by (induction rule: creach.induct) (auto simp: cinv_fresh intro: cinv_step)

section \<open>Properties\<close>

text \<open>
  C8: compactions are isolated. Whatever compactors start and finish in whatever order, no table
  file is in the hands of two running compactions, and the key ranges they claim at a level they share
  are disjoint, except at level 0, where a compaction of level 0 into itself claims the infinite
  range without a check.
\<close>

theorem compaction_isolation:
  assumes "creach home n w" and "cw_running w = xs @ c # ys @ d # zs"
  shows "ids_of c \<inter> ids_of d = {} \<and>
    (\<forall>l r q. (l, r) \<in> claims c \<longrightarrow> (l, q) \<in> claims d \<longrightarrow>
      kr_keys r \<inter> kr_keys q = {} \<or> l = 0 \<and> (r = infRange \<or> q = infRange))"
proof -
  have a: "apart c d" using creach_cinv [OF assms(1)] assms(2) by (simp add: cinv_def sorted_wrt_append)
  then have "ids_of c \<inter> ids_of d = {}" by (simp add: apart_def)
  then show ?thesis using apart_claims [OF a] by blast
qed

text \<open>
  every running compaction can be released: \<open>delete\<close> finds its ranges and its
  tables, so neither \<open>log.Fatal("keyRange not found")\<close> nor the assertion on a table
  that is not marked is reached, and the marks of the other compactions stay.
\<close>

theorem compaction_release:
  assumes "creach home n w" and "cd \<in> set (cw_running w)"
  shows "\<exists>cs'. cs_delete (cw_status w) cd = Some cs' \<and>
    cs_tables cs' = cs_tables (cw_status w) - ids_of cd"
proof -
  from creach_cinv [OF assms(1)] assms(2)
  have "held_ok home (cw_status w) cd" "ids_of cd \<subseteq> cs_tables (cw_status w)"
    by (auto simp: cinv_def)
  then show ?thesis using cs_delete_defined by fastforce
qed

text \<open>
  C31: a compaction within one level whose two ranges differ is not wholly released:
  \<open>delete\<close> removes \<open>thisRange\<close> only, \<open>nextRange\<close> stays in the status, and every
  later compaction of that level whose range overlaps it is refused.
\<close>

theorem same_level_release_leaks:
  assumes add: "compareAndAdd cs cd = Some (cs1, True)"
    and same: "cd_thisLevel cd = cd_nextLevel cd"
    and diff: "\<not> kr_equals (cd_nextRange cd) (cd_thisRange cd)"
    and del: "cs_delete cs1 cd = Some cs2"
    and later: "cd_thisLevel cd' = cd_thisLevel cd" "level_ok cs (cd_nextLevel cd')"
      "kr_overlapsWith (cd_nextRange cd) (cd_thisRange cd')"
  shows "cd_nextRange cd \<in> set (ranges_at cs2 (cd_thisLevel cd)) \<and>
    compareAndAdd cs2 cd' = Some (cs2, False)"
proof -
  have lv: "level_ok cs (cd_thisLevel cd)" using add by (simp add: compareAndAdd_True)
  have lv1: "level_ok cs1 l = level_ok cs l" for l using compareAndAdd_ranges(1) [OF add] .
  obtain ids where cs2: "cs2 = (after_next cs1 cd)\<lparr>cs_tables := ids\<rparr>"
    using cs_delete_shape [OF del] lv lv1 same by auto
  have "cd_nextRange cd \<in> set (ranges_at cs1 (cd_thisLevel cd))"
    using add same lv by (auto simp: compareAndAdd_True ranges_add_range)
  then have mem: "cd_nextRange cd \<in> set (ranges_at cs2 (cd_thisLevel cd))"
    using diff lv lv1 same by (simp add: cs2 after_next_simps)
  have lv2: "level_ok cs2 l = level_ok cs l" for l
    using lv lv1 same by (simp add: cs2 after_next_simps)
  obtain s where s: "getLevelStatus cs2 (cd_thisLevel cd') = Some s"
    using lv2 lv later(1) by (auto simp: getLevelStatus_ok)
  obtain s' where s': "getLevelStatus cs2 (cd_nextLevel cd') = Some s'"
    using lv2 later(2) by (auto simp: getLevelStatus_ok)
  have "ls_overlapsWith s (cd_thisRange cd')"
    using s mem later by (auto simp: ls_overlapsWith_ranges)
  with mem s s' show ?thesis by (simp add: compareAndAdd_def)
qed

section \<open>Witnesses\<close>

definition ex_table :: "u64 \<Rightarrow> byte \<Rightarrow> table" where
  "ex_table n b = \<lparr>t_ID = n, t_Smallest = KeyWithTs [b] 1, t_Biggest = KeyWithTs [b] 1, t_Size = 10,
     t_StaleDataSize = 0, t_MaxVersion = 1, t_KeyID = 0, t_Compression = 0, t_IsInmemory = False, t_Bloom = None,
     t_data = [(KeyWithTs [b] 1, zero_vs)]\<rparr>"

definition ex_targets :: targets where
  "ex_targets = \<lparr>baseLevel = 1, targetSz = [0, 10, 10], fileSz = [10, 10, 10]\<rparr>"

definition ex_def :: "table \<Rightarrow> keyRange \<Rightarrow> nat \<Rightarrow> nat \<Rightarrow> compactDef" where
  "ex_def t r l m = \<lparr>cd_compactorId = 1, cd_t = ex_targets,
     cd_p = \<lparr>p_level = l, p_score = 1, p_adjusted = 1, p_dropPrefixes = [], p_t = ex_targets\<rparr>,
     cd_thisLevel = l, cd_nextLevel = m, cd_top = [t], cd_bot = [],
     cd_thisRange = getKeyRange [t], cd_nextRange = r, cd_splits = [], cd_thisSize = 10,
     cd_dropPrefixes = []\<rparr>"

definition ex_c :: compactDef where
  "ex_c = ex_def (ex_table 1 97) (getKeyRange [ex_table 1 97]) 1 2"

definition ex_d :: compactDef where
  "ex_d = ex_def (ex_table 2 98) (getKeyRange [ex_table 2 98]) 1 2"

definition ex_home :: "u64 \<Rightarrow> nat \<times> keyRange" where
  "ex_home n = (1, getKeyRange [ex_table n (if n = 1 then 97 else 98)])"

lemma ex_table_ok: "table_ok (ex_table n b)"
  by (simp add: table_ok_def ex_table_def)

lemma ex_range: "kr_wf (getKeyRange [ex_table n b])" "\<not> kr_inf (getKeyRange [ex_table n b])"
  using getKeyRange_wf [of "[ex_table n b]"] ex_table_ok by (simp_all add: getKeyRange_def Let_def)

lemma ex_defs_ok: "cdef_ok ex_home ex_c" "cdef_ok ex_home ex_d"
  using ex_range
  by (auto simp: cdef_ok_def ex_c_def ex_d_def ex_def_def homed_def ex_home_def allTables_def ex_table_def)

lemma ex_reach:
  "\<exists>w. creach ex_home 3 w \<and> cw_running w = [ex_d, ex_c]"
proof -
  let ?w0 = "fresh_world 3" and ?s0 = "cw_status (fresh_world 3)"
  have lv: "level_ok ?s0 1" "level_ok ?s0 2" by (simp_all add: fresh_world_def level_ok_def)
  have rg: "ranges_at ?s0 1 = []" "ranges_at ?s0 2 = []"
    by (simp_all add: fresh_world_def ranges_at_def getLevelStatus_def new_ls_def)
  have lev: "cd_thisLevel ex_c = 1" "cd_nextLevel ex_c = 2" "cd_thisLevel ex_d = 1" "cd_nextLevel ex_d = 2"
    "cd_thisRange ex_c = getKeyRange [ex_table 1 97]" "cd_nextRange ex_c = getKeyRange [ex_table 1 97]"
    "cd_thisRange ex_d = getKeyRange [ex_table 2 98]" "cd_nextRange ex_d = getKeyRange [ex_table 2 98]"
    by (simp_all add: ex_c_def ex_d_def ex_def_def)
  obtain cs1 where c1: "compareAndAdd ?s0 ex_c = Some (cs1, True)"
    using lv rg by (auto simp: compareAndAdd_True lev)
  have "\<not> kr_overlapsWith (getKeyRange [ex_table 1 97]) (getKeyRange [ex_table 2 98])"
    by (simp add: kr_overlapsWith_def getKeyRange_def ex_table_def kr_isEmpty_def cmp_keys_def
        Let_def)
  then obtain cs2 where c2: "compareAndAdd cs1 ex_d = Some (cs2, True)"
    using c1 lv rg by (auto simp: compareAndAdd_True ranges_add_range lev)
  let ?w1 = "\<lparr>cw_status = cs1, cw_running = [ex_c]\<rparr>"
  have "cstep ex_home ?w0 ?w1"
    using cstep.start [OF c1 ex_defs_ok(1)] by (simp add: fresh_world_def)
  then have "creach ex_home 3 ?w1" by (blast intro: creach.intros)
  moreover have "cstep ex_home ?w1 \<lparr>cw_status = cs2, cw_running = [ex_d, ex_c]\<rparr>"
    using cstep.start [of ?w1 ex_d cs2 ex_home] c2 ex_defs_ok(2) by simp
  ultimately show ?thesis by (metis creach.step cworld.select_convs(2))
qed

lemma compaction_isolation_witness:
  "\<exists>w. creach ex_home 3 w \<and> cw_running w = [ex_d, ex_c] \<and> ids_of ex_d \<inter> ids_of ex_c = {} \<and>
     kr_keys (cd_thisRange ex_d) \<inter> kr_keys (cd_thisRange ex_c) = {}"
proof -
  obtain w where w: "creach ex_home 3 w" "cw_running w = [ex_d, ex_c]" using ex_reach by blast
  have "(1, cd_thisRange ex_d) \<in> claims ex_d" "(1, cd_thisRange ex_c) \<in> claims ex_c" by (simp_all add: claims_def ex_c_def ex_d_def ex_def_def)
  then show ?thesis
    using w compaction_isolation [of ex_home 3 w "[]" ex_d "[]" ex_c "[]"] by fastforce
qed

lemma compaction_release_witness:
  "\<exists>w cs'. creach ex_home 3 w \<and> cs_delete (cw_status w) ex_c = Some cs' \<and>
    cs_tables cs' = cs_tables (cw_status w) - {1}"
proof -
  obtain w where w: "creach ex_home 3 w" "cw_running w = [ex_d, ex_c]" using ex_reach by blast
  moreover have "ids_of ex_c = {1}"
    by (simp add: ids_of_def allTables_def ex_c_def ex_def_def ex_table_def)
  ultimately show ?thesis using compaction_release [of ex_home 3 w ex_c] by auto
qed

definition ex_max :: compactDef where
  "ex_max = ex_def (ex_table 1 97) (getKeyRange [ex_table 1 97, ex_table 2 98]) 2 2"

lemma same_level_release_leaks_witness:
  "\<exists>cs1 cs2. compareAndAdd (cw_status (fresh_world 3)) ex_max = Some (cs1, True) \<and>
    cs_delete cs1 ex_max = Some cs2 \<and>
    compareAndAdd cs2 (ex_def (ex_table 2 98) (getKeyRange [ex_table 2 98]) 2 2) = Some (cs2, False)"
proof -
  let ?cs = "cw_status (fresh_world 3)"
  let ?d = "ex_def (ex_table 2 98) (getKeyRange [ex_table 2 98]) 2 2"
  obtain cs1 where add: "compareAndAdd ?cs ex_max = Some (cs1, True)"
    by (auto simp: fresh_world_def ex_max_def ex_def_def compareAndAdd_True level_ok_def ranges_at_def
        getLevelStatus_def new_ls_def)
  have "\<exists>cs2. cs_delete cs1 ex_max = Some cs2"
    using add
    by (auto simp: compareAndAdd_True cs_delete_alt ranges_add_range ex_max_def ex_def_def two_ranges_def
        allTables_def)
  then obtain cs2 where del: "cs_delete cs1 ex_max = Some cs2" by blast
  have d: "cd_thisLevel ex_max = cd_nextLevel ex_max"
    "\<not> kr_equals (cd_nextRange ex_max) (cd_thisRange ex_max)"
    "cd_thisLevel ?d = cd_thisLevel ex_max" "level_ok ?cs (cd_nextLevel ?d)"
    by (simp_all add: ex_max_def ex_def_def level_ok_def fresh_world_def kr_equals_def getKeyRange_def
        Let_def max_key_def ex_table_def cmp_keys_def) (simp add: KeyWithTs_def)
  have "KeyWithTs [98] 1 \<in> kr_keys (getKeyRange [ex_table 1 97, ex_table 2 98])"
    "KeyWithTs [98] 1 \<in> kr_keys (getKeyRange [ex_table 2 98])"
    by (rule getKeyRange_covers [of "ex_table 2 98"]; simp add: ex_table_def)+
  moreover have "kr_wf (getKeyRange [ex_table 1 97, ex_table 2 98])"
    by (rule getKeyRange_wf) (simp_all add: ex_table_ok)
  ultimately have "kr_overlapsWith (cd_nextRange ex_max) (cd_thisRange ?d)"
    using kr_overlapsWith_keys ex_range(1) by (auto simp: ex_max_def ex_def_def)
  then have "compareAndAdd cs2 ?d = Some (cs2, False)"
    using same_level_release_leaks [OF add d(1,2) del d(3,4)] by simp
  with add del show ?thesis by blast
qed

end
