(* ===== verification/Levels.thy ===== *)
theory Levels
  imports LevelHandler CompactStatus "HOL-Library.Signed_Division"
begin

text \<open>
  The read side of \<open>levels.go\<close> (\<open>get\<close>, \<open>getHotTier\<close>) with \<open>DB.get\<close> of \<open>db.go\<close>, the
  consistency check of \<open>util.go\<close>, and the choice of what to compact: \<open>levelTargets\<close> and
  \<open>pickCompactLevels\<close>. The levels of the tree are numbered from 0; the hot tier is 98 and
  its sorted part is 99. Metrics and logging are left out.
\<close>

section \<open>State\<close>

record lv_opts =
  lo_BaseLevelSize :: int
  lo_LevelSizeMultiplier :: int
  lo_TableSizeMultiplier :: int
  lo_BaseTableSize :: int
  lo_MemTableSize :: int
  lo_NumLevelZeroTables :: int
  lo_NumLevelZeroTablesStall :: nat
  lo_NumVersionsToKeep :: int
  lo_InMemory :: bool

record levelsController =
  lc_levels :: "levelHandler list"
  lc_hotTier :: "levelHandler option"
  lc_hotTierOrd :: "levelHandler option"
  lc_nextFileID :: u64
  lc_cstatus :: compactStatus
  lc_refs :: table_refs

definition reserveFileID :: "levelsController \<Rightarrow> levelsController \<times> u64" where
  "reserveFileID lc = (let id = lc_nextFileID lc + 1 in (lc\<lparr>lc_nextFileID := id\<rparr>, id - 1))"

definition handler_at :: "levelsController \<Rightarrow> nat \<Rightarrow> levelHandler option" where
  "handler_at lc l = (if l = 98 then lc_hotTier lc else if l = 99 then lc_hotTierOrd lc
     else if l < length (lc_levels lc) then Some (lc_levels lc ! l) else None)"

definition set_handler :: "levelsController \<Rightarrow> nat \<Rightarrow> levelHandler \<Rightarrow> levelsController" where
  "set_handler lc l h = (if l = 98 then lc\<lparr>lc_hotTier := Some h\<rparr> else if l = 99 then lc\<lparr>lc_hotTierOrd := Some h\<rparr>
     else lc\<lparr>lc_levels := (lc_levels lc)[l := h]\<rparr>)"

definition lastLevel :: "levelsController \<Rightarrow> levelHandler" where
  "lastLevel lc = lc_levels lc ! (length (lc_levels lc) - 1)"

section \<open>Reading\<close>

text \<open>
  The results: \<open>None\<close> is a panic (a filter with no bits, a hot tier without its sorted
  part), \<open>Inl\<close> an error.
\<close>

datatype lv_error = ErrDBClosed

definition getHotTier :: "table_refs \<Rightarrow> levelHandler \<Rightarrow> levelHandler option \<Rightarrow> bytes \<Rightarrow>
    (table_refs \<times> ValueStruct) option" where
  "getHotTier s hot hotOrd key =
     (case level_get s hot key of None \<Rightarrow> None
      | Some (s1, vs) \<Rightarrow>
          if 0 < vs_Version vs then Some (s1, vs)
          else case hotOrd of None \<Rightarrow> None | Some h \<Rightarrow> level_get s1 h key)"

text \<open>One result against the best so far: an exact version ends the search.\<close>

datatype found = Exact ValueStruct | Best ValueStruct

definition merge_vs :: "u64 \<Rightarrow> ValueStruct \<Rightarrow> ValueStruct \<Rightarrow> found" where
  "merge_vs version maxVs vs =
     (if vs_absent vs then Best maxVs
      else if vs_Version vs = version then Exact vs
      else if vs_Version maxVs < vs_Version vs then Best vs else Best maxVs)"

fun get_levels :: "table_refs \<Rightarrow> bytes \<Rightarrow> nat \<Rightarrow> levelHandler list \<Rightarrow> ValueStruct \<Rightarrow>
    (table_refs \<times> ValueStruct) option" where
  "get_levels s key startLevel [] maxVs = Some (s, maxVs)"
| "get_levels s key startLevel (h # hs) maxVs =
     (if lh_level h < startLevel then get_levels s key startLevel hs maxVs
      else case level_get s h key of None \<Rightarrow> None
        | Some (s1, vs) \<Rightarrow>
           (case merge_vs (ParseTs key) maxVs vs of Exact v \<Rightarrow> Some (s1, v)
            | Best m \<Rightarrow> get_levels s1 key startLevel hs m))"

definition lc_get :: "bool \<Rightarrow> levelsController \<Rightarrow> bytes \<Rightarrow> ValueStruct \<Rightarrow> nat \<Rightarrow>
    (table_refs \<times> (lv_error + ValueStruct)) option" where
  "lc_get isClosed lc key maxVs startLevel =
     (if isClosed then Some (lc_refs lc, Inl ErrDBClosed)
      else
        let hot = (case lc_hotTier lc of None \<Rightarrow> Some (lc_refs lc, Best maxVs)
              | Some h \<Rightarrow> map_option (\<lambda>(s, vs). (s, merge_vs (ParseTs key) maxVs vs))
                            (getHotTier (lc_refs lc) h (lc_hotTierOrd lc) key))
        in case hot of None \<Rightarrow> None
           | Some (s, Exact v) \<Rightarrow> Some (s, Inr v)
           | Some (s, Best m) \<Rightarrow>
               map_option (\<lambda>(s', v). (s', Inr v)) (get_levels s key startLevel (lc_levels lc) m))"

text \<open>
  \<open>DB.get\<close>: the memtables, newest first, then the levels. A memtable is given by its
  entries in key order; its \<open>Get\<close> is the first entry at or behind the key, when that has
  the same user key.
\<close>

definition mem_get :: "entry list \<Rightarrow> bytes \<Rightarrow> ValueStruct" where
  "mem_get es key = (case seek_first es key of None \<Rightarrow> zero_vs
     | Some (k, v) \<Rightarrow> if \<not> SameKey key k then zero_vs else v\<lparr>vs_Version := ParseTs k\<rparr>)"

fun get_mems :: "bytes \<Rightarrow> entry list list \<Rightarrow> ValueStruct \<Rightarrow> found" where
  "get_mems key [] maxVs = Best maxVs"
| "get_mems key (es # ms) maxVs =
     (case merge_vs (ParseTs key) maxVs (mem_get es key) of Exact v \<Rightarrow> Exact v
      | Best m \<Rightarrow> get_mems key ms m)"

definition db_get :: "bool \<Rightarrow> entry list list \<Rightarrow> levelsController \<Rightarrow> bytes \<Rightarrow>
    (table_refs \<times> (lv_error + ValueStruct)) option" where
  "db_get isClosed mems lc key =
     (if isClosed then Some (lc_refs lc, Inl ErrDBClosed)
      else case get_mems key mems zero_vs of Exact v \<Rightarrow> Some (lc_refs lc, Inr v)
        | Best m \<Rightarrow> lc_get isClosed lc key m 0)"

section \<open>Level validation\<close>

fun validate_from :: "table list \<Rightarrow> bool" where
  "validate_from (a # b # ts) \<longleftrightarrow> cmp_keys (t_Biggest a) (t_Smallest b) < 0 \<and>
     cmp_keys (t_Smallest b) (t_Biggest b) \<le> 0 \<and> validate_from (b # ts)"
| "validate_from ts \<longleftrightarrow> True"

definition lh_validate :: "levelHandler \<Rightarrow> bool" where
  "lh_validate lh = (if lh_level lh = 0 \<or> lh_level lh = 98 then True else validate_from (lh_tables lh))"

definition lc_validate :: "levelsController \<Rightarrow> bool" where
  "lc_validate lc \<longleftrightarrow> list_all lh_validate (lc_levels lc) \<and>
     (case lc_hotTier lc of None \<Rightarrow> True | Some h \<Rightarrow> lh_validate h) \<and>
     (case lc_hotTierOrd lc of None \<Rightarrow> True | Some h \<Rightarrow> lh_validate h)"

section \<open>The invariant of the tree\<close>

definition hot_entries :: "levelHandler option \<Rightarrow> entry list" where
  "hot_entries h = (case h of None \<Rightarrow> [] | Some lh \<Rightarrow> level_entries lh)"

definition all_entries :: "levelsController \<Rightarrow> entry list" where
  "all_entries lc = hot_entries (lc_hotTier lc) @ hot_entries (lc_hotTierOrd lc) @
     concat (map level_entries (lc_levels lc))"

definition handlers :: "levelsController \<Rightarrow> levelHandler list" where
  "handlers lc = (case lc_hotTier lc of None \<Rightarrow> [] | Some h \<Rightarrow> [h]) @
     (case lc_hotTierOrd lc of None \<Rightarrow> [] | Some h \<Rightarrow> [h]) @ lc_levels lc"

text \<open>
  In the hot tiers the unsorted part is the newer one: it takes the flushes, and only its
  oldest tables move on.
\<close>

definition hot_newer :: "levelsController \<Rightarrow> bool" where
  "hot_newer lc \<longleftrightarrow> (\<forall>a \<in> set (hot_entries (lc_hotTier lc)). \<forall>b \<in> set (hot_entries (lc_hotTierOrd lc)).
     parse_key (fst a) = parse_key (fst b) \<longrightarrow> ParseTs (fst b) < ParseTs (fst a))"

definition lc_wf :: "levelsController \<Rightarrow> bool" where
  "lc_wf lc \<longleftrightarrow> (\<forall>h \<in> set (handlers lc). level_wf h \<and> (\<forall>t \<in> set (lh_tables h). 0 < rf_count (lc_refs lc) (t_ID t))) \<and>
     hot_newer lc \<and> (lc_hotTier lc = None \<longleftrightarrow> lc_hotTierOrd lc = None)"

section \<open>Reads find the newest version\<close>

lemma level_entries_built: "level_wf lh \<Longrightarrow> e \<in> set (level_entries lh) \<Longrightarrow>
    stored_key (fst e) \<and> vs_Value (snd e) \<noteq> None"
  unfolding level_entries_def level_wf_def built_table_def by (fastforce split: if_splits)

text \<open>A version with a value, as every entry of a table has.\<close>

definition present :: "version \<Rightarrow> bool" where
  "present a \<longleftrightarrow> (case a of None \<Rightarrow> True | Some (w, v) \<Rightarrow> 0 < w \<and> vs_Value v \<noteq> None)"

lemma present_real: "present a \<Longrightarrow> real_version a"
  by (auto simp: present_def real_version_def split: option.splits)

lemma present_newer: "present a \<Longrightarrow> present b \<Longrightarrow> present (newer a b)"
  by (cases a; cases b) (auto simp: present_def)

lemma present_newest: "(\<And>e. e \<in> set es \<Longrightarrow> stored_key (fst e) \<and> vs_Value (snd e) \<noteq> None) \<Longrightarrow> present (newest es k ts)"
  using newest_Some [of es k ts] unfolding present_def stored_key_def by (fastforce split: option.splits)

text \<open>A version that can still be beaten: below the timestamp asked for.\<close>

definition below :: "u64 \<Rightarrow> version \<Rightarrow> bool" where
  "below ts a \<longleftrightarrow> (case a of None \<Rightarrow> True | Some (w, v) \<Rightarrow> w < ts)"

definition at_most :: "u64 \<Rightarrow> version \<Rightarrow> bool" where
  "at_most ts a \<longleftrightarrow> (case a of None \<Rightarrow> True | Some (w, v) \<Rightarrow> w \<le> ts)"

lemma newest_at_most: "at_most ts (newest es k ts)"
  using newest_Some [of es k ts] by (auto simp: at_most_def matches_def split: option.splits)

lemma merge_vs_newer:
  assumes "present a" and "present b" and "below ts a" and "at_most ts b"
  shows "merge_vs ts (as_vs a) (as_vs b) =
    (if \<exists>v. b = Some (ts, v) then Exact (as_vs b) else Best (as_vs (newer a b)))"
  using assms by (cases a; cases b)
    (auto simp: merge_vs_def present_def below_def at_most_def vs_absent_def zero_vs_def)

lemma newer_exact: "below ts a \<Longrightarrow> at_most ts c \<Longrightarrow> newer a (newer (Some (ts, v)) c) = Some (ts, v)"
  by (cases a; cases c) (auto simp: below_def at_most_def not_less)

lemma below_newer: "below ts a \<Longrightarrow> at_most ts b \<Longrightarrow> \<not> (\<exists>v. b = Some (ts, v)) \<Longrightarrow> below ts (newer a b)"
  by (cases a; cases b) (auto simp: below_def at_most_def order_le_less)

lemma level_newest_present: "level_wf lh \<Longrightarrow> present (newest (level_entries lh) k ts)"
  using level_entries_built by (intro present_newest)

lemma get_levels_newest:
  assumes "\<forall>h \<in> set hs. level_wf h \<and> (\<forall>t \<in> set (lh_tables h). 0 < rf_count s (t_ID t))"
    and "k \<noteq> []" and "present a" and "below ts a"
  shows "get_levels s (KeyWithTs k ts) 0 hs (as_vs a) =
    Some (s, as_vs (newer a (newest (concat (map level_entries hs)) k ts)))"
  using assms(1,3,4)
proof (induction hs arbitrary: a)
  case (Cons h hs)
  let ?n = "newest (level_entries h) k ts" and ?r = "newest (concat (map level_entries hs)) k ts"
  have h: "level_wf h" "\<forall>t \<in> set (lh_tables h). 0 < rf_count s (t_ID t)" using Cons.prems by auto
  have n: "present ?n" "at_most ts ?n" "at_most ts ?r"
    using level_newest_present [OF h(1)] newest_at_most by auto
  have m: "merge_vs ts (as_vs a) (as_vs ?n) =
      (if \<exists>v. ?n = Some (ts, v) then Exact (as_vs ?n) else Best (as_vs (newer a ?n)))"
    using merge_vs_newer Cons.prems n by blast
  have sum: "newest (concat (map level_entries (h # hs))) k ts = newer ?n ?r"
    by (simp add: newest_append)
  show ?case
  proof (cases "\<exists>v. ?n = Some (ts, v)")
    case True
    then obtain v where v: "?n = Some (ts, v)" by blast
    then show ?thesis
      unfolding sum using level_get_newest [OF h(1) assms(2) h(2), of ts] assms(2) m
        newer_exact [OF Cons.prems(3) n(3)] by simp
  next
    case False
    have "get_levels s (KeyWithTs k ts) 0 hs (as_vs (newer a ?n)) = Some (s, as_vs (newer (newer a ?n) ?r))"
      using Cons.IH [of "newer a ?n"] Cons.prems n present_newer below_newer False by simp
    then show ?thesis
      unfolding sum using level_get_newest [OF h(1) assms(2) h(2), of ts] assms(2) m False
      by (simp add: newer_assoc)
  qed
qed simp

lemma hot_tier_newest:
  assumes "lc_wf lc" and "lc_hotTier lc = Some h" and "lc_hotTierOrd lc = Some g" and "k \<noteq> []"
  shows "getHotTier (lc_refs lc) h (Some g) (KeyWithTs k ts) =
    Some (lc_refs lc, as_vs (newest (level_entries h @ level_entries g) k ts))"
proof -
  have h: "level_wf h" "\<forall>t \<in> set (lh_tables h). 0 < rf_count (lc_refs lc) (t_ID t)"
    and g: "level_wf g" "\<forall>t \<in> set (lh_tables g). 0 < rf_count (lc_refs lc) (t_ID t)"
    using assms(1-3) by (auto simp: lc_wf_def handlers_def)
  note lg = level_get_newest [OF h(1) assms(4) h(2), of ts] level_get_newest [OF g(1) assms(4) g(2), of ts]
  show ?thesis
  proof (cases "newest (level_entries h) k ts")
    case None
    then show ?thesis using lg by (simp add: getHotTier_def newest_append zero_vs_def)
  next
    case (Some p)
    obtain w v where p: "p = (w, v)" by fastforce
    have "present (Some (w, v))" using level_newest_present [OF h(1), of k ts] Some p by simp
    then have w: "0 < w" by (simp add: present_def)
    obtain ik where ik: "(ik, v) \<in> set (level_entries h)" "matches k ts ik" "ParseTs ik = w"
      using newest_Some [of "level_entries h" k ts w v] Some p by auto
    have "newer (Some (w, v)) (newest (level_entries g) k ts) = Some (w, v)"
    proof (cases "newest (level_entries g) k ts")
      case (Some q)
      then obtain jk where jk: "(jk, snd q) \<in> set (level_entries g)" "matches k ts jk" "ParseTs jk = fst q"
        using newest_Some [of "level_entries g" k ts "fst q" "snd q"] by auto
      have "ParseTs jk < ParseTs ik"
        using assms(1-3) ik jk unfolding lc_wf_def hot_newer_def hot_entries_def matches_def by fastforce
      then show ?thesis using Some ik jk by (cases q) auto
    qed simp
    then show ?thesis using lg(1) w Some p by (simp add: getHotTier_def newest_append)
  qed
qed

lemma hot_present: "lc_wf lc \<Longrightarrow> present (newest (hot_entries (lc_hotTier lc) @ hot_entries (lc_hotTierOrd lc)) k ts)"
proof (rule present_newest)
  fix e
  assume "lc_wf lc" and "e \<in> set (hot_entries (lc_hotTier lc) @ hot_entries (lc_hotTierOrd lc))"
  then obtain h where "level_wf h" "e \<in> set (level_entries h)"
    by (auto simp: lc_wf_def handlers_def hot_entries_def split: option.splits)
  then show "stored_key (fst e) \<and> vs_Value (snd e) \<noteq> None" by (rule level_entries_built)
qed

lemma lc_get_newest:
  assumes wf: "lc_wf lc" and k: "k \<noteq> []" and a: "present a" "below ts a"
  shows "lc_get False lc (KeyWithTs k ts) (as_vs a) 0 =
    Some (lc_refs lc, Inr (as_vs (newer a (newest (all_entries lc) k ts))))"
proof -
  let ?hot = "newest (hot_entries (lc_hotTier lc) @ hot_entries (lc_hotTierOrd lc)) k ts"
  let ?lv = "newest (concat (map level_entries (lc_levels lc))) k ts"
  have sum: "newest (all_entries lc) k ts = newer ?hot ?lv"
    by (simp add: all_entries_def newest_append newer_assoc)
  have lv: "get_levels (lc_refs lc) (KeyWithTs k ts) 0 (lc_levels lc) (as_vs b) =
      Some (lc_refs lc, as_vs (newer b ?lv))" if "present b" "below ts b" for b
    using wf k that by (intro get_levels_newest) (auto simp: lc_wf_def handlers_def)
  note hot = hot_present [OF wf, of k ts] newest_at_most [of ts _ k]
  have m: "merge_vs ts (as_vs a) (as_vs ?hot) =
      (if \<exists>v. ?hot = Some (ts, v) then Exact (as_vs ?hot) else Best (as_vs (newer a ?hot)))"
    using merge_vs_newer a hot by blast
  show ?thesis
  proof (cases "lc_hotTier lc")
    case None
    moreover have "lc_hotTierOrd lc = None" using wf None by (simp add: lc_wf_def)
    ultimately show ?thesis using lv [OF a] sum by (simp add: lc_get_def hot_entries_def)
  next
    case (Some h)
    then obtain g where g: "lc_hotTierOrd lc = Some g" using wf by (auto simp: lc_wf_def)
    note tier = hot_tier_newest [OF wf Some g k, of ts]
    have he: "newest (level_entries h @ level_entries g) k ts = ?hot" by (simp add: Some g hot_entries_def)
    show ?thesis
    proof (cases "\<exists>v. ?hot = Some (ts, v)")
      case True
      then obtain v where v: "?hot = Some (ts, v)" by blast
      have "newer a (newer ?hot ?lv) = ?hot"
        using newer_exact [OF a(2) newest_at_most, of v "concat (map level_entries (lc_levels lc))" k] v by simp
      then show ?thesis using tier Some g m True k sum by (simp add: lc_get_def he)
    next
      case False
      then have b: "present (newer a ?hot)" "below ts (newer a ?hot)"
        using present_newer below_newer a hot by blast+
      show ?thesis using tier Some g m False k sum lv [OF b] by (simp add: lc_get_def he newer_assoc)
    qed
  qed
qed

text \<open>Memtables: sorted entries with stored keys and values.\<close>

definition mem_ok :: "entry list \<Rightarrow> bool" where
  "mem_ok es \<longleftrightarrow> sorted_wrt key_less (map fst es) \<and>
     (\<forall>e \<in> set es. stored_key (fst e) \<and> vs_Value (snd e) \<noteq> None)"

lemma mem_get_newest: "mem_ok es \<Longrightarrow> k \<noteq> [] \<Longrightarrow> mem_get es (KeyWithTs k ts) = as_vs (newest es k ts)"
proof -
  assume "mem_ok es" "k \<noteq> []"
  then have s: "newest es k ts = (case seek_first es (KeyWithTs k ts) of None \<Rightarrow> None
      | Some (ik, v) \<Rightarrow> if parse_key ik = k then Some (ParseTs ik, v) else None)"
    by (intro newest_seek) (auto simp: mem_ok_def)
  have "SameKey (KeyWithTs k ts) ik \<longleftrightarrow> parse_key ik = k" if "seek_first es (KeyWithTs k ts) = Some (ik, v)" for ik v
  proof -
    have "(ik, v) \<in> set es" using that by (auto simp: seek_first_def find_Some_iff set_conv_nth)
    then have "key_ok ik" using \<open>mem_ok es\<close> by (fastforce simp: mem_ok_def)
    then show ?thesis using SameKey_iff [of "KeyWithTs k ts" ik] by auto
  qed
  with s show ?thesis by (auto simp: mem_get_def split: option.splits)
qed

lemma get_mems_newest:
  assumes "\<forall>es \<in> set mems. mem_ok es" and "k \<noteq> []" and "present a" and "below ts a"
  defines "n \<equiv> newer a (newest (concat mems) k ts)"
  shows "get_mems (KeyWithTs k ts) mems (as_vs a) =
    (if \<exists>v. n = Some (ts, v) then Exact (as_vs n) else Best (as_vs n))"
  using assms(1,3,4) unfolding n_def
proof (induction mems arbitrary: a)
  case Nil
  then show ?case by (auto simp: below_def)
next
  case (Cons es mems)
  let ?m = "newest es k ts" and ?r = "newest (concat mems) k ts"
  have es: "present ?m" "at_most ts ?m" "at_most ts ?r"
    using Cons.prems(1) newest_at_most by (auto intro!: present_newest simp: mem_ok_def)
  have m: "merge_vs ts (as_vs a) (as_vs ?m) =
      (if \<exists>v. ?m = Some (ts, v) then Exact (as_vs ?m) else Best (as_vs (newer a ?m)))"
    using merge_vs_newer Cons.prems es by blast
  have g: "mem_get es (KeyWithTs k ts) = as_vs ?m" using mem_get_newest Cons.prems(1) assms(2) by simp
  show ?case
  proof (cases "\<exists>v. ?m = Some (ts, v)")
    case True
    then obtain v where v: "?m = Some (ts, v)" by blast
    then show ?thesis using g m assms(2) newer_exact [OF Cons.prems(3) es(3), of v]
      by (simp add: newest_append)
  next
    case False
    then show ?thesis
      using g m assms(2) Cons.IH [of "newer a ?m"] Cons.prems es present_newer below_newer
      by (simp add: newest_append newer_assoc)
  qed
qed

lemma db_get_newest:
  assumes wf: "lc_wf lc" and mems: "\<forall>es \<in> set mems. mem_ok es" and k: "k \<noteq> []"
  shows "db_get False mems lc (KeyWithTs k ts) =
    Some (lc_refs lc, Inr (as_vs (newest (concat mems @ all_entries lc) k ts)))"
proof -
  let ?m = "newest (concat mems) k ts"
  have p: "present ?m" using mems by (intro present_newest) (auto simp: mem_ok_def)
  note at = newest_at_most [of ts "concat mems" k] newest_at_most [of ts "all_entries lc" k]
  have g: "get_mems (KeyWithTs k ts) mems zero_vs =
      (if \<exists>v. ?m = Some (ts, v) then Exact (as_vs ?m) else Best (as_vs ?m))"
    using get_mems_newest [OF mems k, of None ts] by (simp add: present_def below_def)
  show ?thesis
  proof (cases "\<exists>v. ?m = Some (ts, v)")
    case True
    then obtain v where v: "?m = Some (ts, v)" by blast
    then show ?thesis using g newer_exact [of ts None, OF _ at(2), of v]
      by (simp add: db_get_def newest_append below_def)
  next
    case False
    then have "below ts ?m" using at(1) by (auto simp: below_def at_most_def order_le_less split: option.splits)
    then show ?thesis using g False lc_get_newest [OF wf k p] by (simp add: db_get_def newest_append)
  qed
qed

section \<open>Properties\<close>

lemma apart_trans: "before_table a b \<Longrightarrow> before_table b c \<Longrightarrow> built_table b \<Longrightarrow> before_table a c"
  unfolding before_table_def built_table_def table_ok_def by (meson key_less_le_trans key_less_trans)

lemma validate_from_apart: "\<forall>t \<in> set ts. built_table t \<Longrightarrow> validate_from ts \<longleftrightarrow> sorted_wrt before_table ts"
proof (induction ts rule: validate_from.induct)
  case (1 a b ts)
  have "cmp_keys (t_Smallest b) (t_Biggest b) \<le> 0"
    using 1(2) unfolding built_table_def table_ok_def key_le_def by (meson list.set_intros)
  moreover have "before_table a b \<Longrightarrow> sorted_wrt before_table (b # ts) \<Longrightarrow> \<forall>t \<in> set ts. before_table a t"
    using apart_trans [of a b] 1(2) by auto
  moreover have "cmp_keys (t_Biggest a) (t_Smallest b) < 0 \<longleftrightarrow> before_table a b"
    by (simp add: before_table_def key_less_def)
  ultimately show ?case using 1 by auto
qed auto

text \<open>
  the check at the start accepts exactly the levels that lookups can search: tables
  in order and disjoint at every level but 0 and 98.
\<close>

theorem level_validate:
  assumes "\<forall>t \<in> set (lh_tables lh). built_table t" and "sizes_ok lh"
  shows "lh_validate lh \<longleftrightarrow> level_wf lh"
  using assms validate_from_apart [OF assms(1)] by (auto simp: lh_validate_def level_wf_def unsorted_def)

lemma level_validate_witness: "lh_validate ex_level"
proof -
  have w: "level_wf ex_level" using ex_level_wf by simp
  then have "\<forall>t \<in> set (lh_tables ex_level). built_table t" "sizes_ok ex_level" by (auto simp: level_wf_def)
  from level_validate [OF this] w show ?thesis by simp
qed

text \<open>
  C2: a read of the database finds the newest version of the key at or below its
  timestamp among everything stored: the memtables, the two hot tiers and all levels; it
  stops early only at an exact match, and a hot-tier result does not hide a newer version.
\<close>

theorem read_newest:
  assumes "lc_wf lc" and "\<forall>es \<in> set mems. mem_ok es" and "k \<noteq> []"
  shows "db_get False mems lc (KeyWithTs k ts) =
    Some (lc_refs lc, Inr (as_vs (newest (concat mems @ all_entries lc) k ts)))"
  by (rule db_get_newest [OF assms])

text \<open>A small tree: version 7 of a key in level 3, version 9 in the hot tier, 8 in its sorted part.\<close>

definition ex_hot :: levelHandler where
  "ex_hot = initTables (newLevelHandler 98) [small_table 3 [(KeyWithTs [2] 9, small_vs 5)]]"

definition ex_ord :: levelHandler where
  "ex_ord = initTables (newLevelHandler 99) [small_table 4 [(KeyWithTs [2] 8, small_vs 6)]]"

definition ex_status :: "nat \<Rightarrow> compactStatus" where
  "ex_status n = \<lparr>cs_levels = replicate n new_ls, cs_tables = {}, cs_hotTierStatus = Some new_ls,
     cs_hotTierOrdStatus = Some new_ls\<rparr>"

definition ex_tree :: levelsController where
  "ex_tree = \<lparr>lc_levels = [newLevelHandler 0, newLevelHandler 1, newLevelHandler 2, ex_level], lc_hotTier = Some ex_hot,
     lc_hotTierOrd = Some ex_ord, lc_nextFileID = 5, lc_cstatus = ex_status 4, lc_refs = two_refs\<rparr>"

lemma ex_hot_wf: "level_wf ex_hot \<and> set (level_entries ex_hot) = {(KeyWithTs [2] 9, small_vs 5)}"
  using initTables_wf [of "[small_table 3 [(KeyWithTs [2] 9, small_vs 5)]]" "newLevelHandler 98"]
  by (simp add: ex_hot_def set_level_entries unsorted_def newLevelHandler_def)

lemma ex_ord_wf: "level_wf ex_ord \<and> set (level_entries ex_ord) = {(KeyWithTs [2] 8, small_vs 6)}"
  using initTables_wf [of "[small_table 4 [(KeyWithTs [2] 8, small_vs 6)]]" "newLevelHandler 99"]
  by (simp add: ex_ord_def set_level_entries unsorted_def newLevelHandler_def)

lemma new_level_wf [simp]: "level_wf (newLevelHandler n)"
  by (simp add: level_wf_def newLevelHandler_def sizes_ok_def)

lemma ex_tree_wf: "lc_wf ex_tree"
  using ex_hot_wf ex_ord_wf ex_level_wf
  unfolding lc_wf_def hot_newer_def handlers_def hot_entries_def by (simp add: ex_tree_def two_refs_def)

lemma read_newest_witness:
  "db_get False [[(KeyWithTs [2] 11, small_vs 7)]] ex_tree (KeyWithTs [2] 10) =
    Some (two_refs, Inr (as_vs (newest ((KeyWithTs [2] 11, small_vs 7) # all_entries ex_tree) [2] 10)))"
  using read_newest [OF ex_tree_wf, of "[[(KeyWithTs [2] 11, small_vs 7)]]" "[2]" 10]
  by (simp add: mem_ok_def ex_tree_def)

end
