(* ===== verification/Targets.thy ===== *)
theory Targets
  imports Levels
begin

text \<open>
  \<open>levelTargets\<close> and \<open>pickCompactLevels\<close> of \<open>levels.go\<close>: the size every level should have,
  the base level that level 0 is compacted into, and the levels to compact in the order of
  their scores. Divisors are the options' multipliers, which are positive.
\<close>

section \<open>Targets\<close>

definition adjust_size :: "lv_opts \<Rightarrow> int \<Rightarrow> int" where
  "adjust_size opt sz = (if sz < lo_BaseLevelSize opt then lo_BaseLevelSize opt else sz)"

text \<open>The loop from the last level up to level 1; the accumulator is the base level and the target sizes.\<close>

fun target_loop :: "lv_opts \<Rightarrow> nat \<Rightarrow> int \<Rightarrow> nat \<Rightarrow> int list \<Rightarrow> nat \<times> int list" where
  "target_loop opt 0 dbSize base ts = (base, ts)"
| "target_loop opt (Suc i) dbSize base ts =
     (let ltarget = adjust_size opt dbSize
      in target_loop opt i (dbSize sdiv lo_LevelSizeMultiplier opt)
           (if base = 0 \<and> ltarget \<le> lo_BaseLevelSize opt then Suc i else base) (ts[Suc i := ltarget]))"

fun file_sizes :: "lv_opts \<Rightarrow> nat \<Rightarrow> nat list \<Rightarrow> int \<Rightarrow> int list" where
  "file_sizes opt base [] tsz = []"
| "file_sizes opt base (i # is) tsz =
     (if i = 0 then lo_MemTableSize opt # file_sizes opt base is tsz
      else if i \<le> base then tsz # file_sizes opt base is tsz
      else let tsz' = tsz * lo_TableSizeMultiplier opt in tsz' # file_sizes opt base is tsz')"

text \<open>The base level moves down over the empty levels below it.\<close>

fun skip_empty :: "levelHandler list \<Rightarrow> nat list \<Rightarrow> nat \<Rightarrow> nat" where
  "skip_empty levels [] base = base"
| "skip_empty levels (i # is) base =
     (if 0 < lh_totalSize (levels ! i) then base else skip_empty levels is i)"

definition levelTargets :: "lv_opts \<Rightarrow> levelsController \<Rightarrow> targets" where
  "levelTargets opt lc =
     (let lvl = lc_levels lc; n = length lvl;
          (base, ts) = target_loop opt (n - 1) (lh_totalSize (lastLevel lc)) 0 (replicate n 0);
          fs = file_sizes opt base [0..<n] (lo_BaseTableSize opt);
          b = skip_empty lvl [base + 1..<n - 1] base;
          b' = (if b < n - 1 \<and> lh_totalSize (lvl ! b) = 0 \<and> lh_totalSize (lvl ! (b + 1)) < ts ! (b + 1)
                then b + 1 else b)
      in \<lparr>baseLevel = b', targetSz = ts, fileSz = fs\<rparr>)"

section \<open>Priorities\<close>

definition priority :: "targets \<Rightarrow> nat \<Rightarrow> f64 \<Rightarrow> compactionPriority" where
  "priority t level score = \<lparr>p_level = level, p_score = score, p_adjusted = score, p_dropPrefixes = [], p_t = t\<rparr>"

fun level_priorities :: "compactStatus \<Rightarrow> targets \<Rightarrow> levelHandler list \<Rightarrow> nat list \<Rightarrow> compactionPriority list option" where
  "level_priorities cs t levels [] = Some []"
| "level_priorities cs t levels (i # is) =
     (case cs_delSize cs i of None \<Rightarrow> None
      | Some delSize \<Rightarrow>
          let sz = lh_totalSize (levels ! i) - delSize
          in map_option ((#) (priority t i (f_div (f_of_int sz) (f_of_int (targetSz t ! i)))))
               (level_priorities cs t levels is))"

definition minScore :: f64 where
  "minScore = rnd (1 / 100)"

text \<open>A level whose next level is full, too, gives up some of its priority.\<close>

fun adjust_loop :: "nat list \<Rightarrow> nat \<Rightarrow> compactionPriority list \<Rightarrow> compactionPriority list" where
  "adjust_loop [] prevLevel prios = prios"
| "adjust_loop (level # ls) prevLevel prios =
     (let p = prios ! prevLevel
      in adjust_loop ls level
           (if 1 \<le> p_adjusted p then
              prios[prevLevel := p\<lparr>p_adjusted := f_div (p_adjusted p)
                (if minScore \<le> p_score (prios ! level) then p_adjusted (prios ! level) else minScore)\<rparr>]
            else prios))"

definition by_adjusted :: "compactionPriority \<Rightarrow> compactionPriority \<Rightarrow> bool" where
  "by_adjusted a b \<longleftrightarrow> p_adjusted b < p_adjusted a"

definition pickCompactLevels :: "lv_opts \<Rightarrow> levelsController \<Rightarrow> compactionPriority list option" where
  "pickCompactLevels opt lc =
     (let lvl = lc_levels lc; n = length lvl; t = levelTargets opt lc;
          p0 = priority t 0 (f_div (f_of_int (int (length (lh_tables (lvl ! 0))))) (f_of_int (lo_NumLevelZeroTables opt)))
      in case level_priorities (lc_cstatus lc) t lvl [1..<n] of None \<Rightarrow> None
         | Some ps \<Rightarrow>
            let prios = adjust_loop [baseLevel t..<n] 0 (p0 # ps);
                out = filter (\<lambda>p. 1 \<le> p_score p) (butlast prios);
                out = (case lc_hotTier lc of None \<Rightarrow> out
                   | Some h \<Rightarrow> out @ [\<lparr>p_level = 98, p_score = 2,
                        p_adjusted = f_div (f_of_int (int (length (lh_tables h)))) 8, p_dropPrefixes = [], p_t = t\<rparr>])
            in Some (go_sort by_adjusted out))"

section \<open>The base level\<close>

lemma target_loop_length [simp]: "length (snd (target_loop opt i sz base ts)) = length ts"
  by (induction opt i sz base ts rule: target_loop.induct) (auto simp: Let_def)

lemma target_loop_kept: "base \<noteq> 0 \<Longrightarrow> fst (target_loop opt i sz base ts) = base"
  by (induction opt i sz base ts rule: target_loop.induct) (auto simp: Let_def)

lemma adjust_size_le: "adjust_size opt sz \<le> lo_BaseLevelSize opt \<longleftrightarrow> sz \<le> lo_BaseLevelSize opt"
  by (auto simp: adjust_size_def)

lemma sdiv_div: "0 \<le> a \<Longrightarrow> 0 < b \<Longrightarrow> a sdiv b = (a :: int) div b"
  by (auto simp: signed_divide_int_def sgn_if)

lemma div_pow_mono: "0 < m \<Longrightarrow> 0 \<le> sz \<Longrightarrow> sz div m ^ Suc i \<le> (sz :: int) div m ^ i"
  by (rule zdiv_mono2) (auto intro: power_increasing)

lemma div_pow_le: "0 < m \<Longrightarrow> 0 \<le> sz \<Longrightarrow> sz div m ^ i \<le> (sz :: int)"
  by (induction i) (use div_pow_mono in \<open>auto intro: order_trans\<close>)

text \<open>
  A base level is found when the last level, scaled down to level 1, is within the base
  size: sizes shrink with the level, so level 1 passes the test if any level does.
\<close>

lemma target_loop_base:
  assumes "0 < lo_LevelSizeMultiplier opt" and "0 \<le> sz"
  shows "(fst (target_loop opt (Suc i) sz 0 ts) = 0 \<longleftrightarrow>
      lo_BaseLevelSize opt < sz div lo_LevelSizeMultiplier opt ^ i) \<and>
    fst (target_loop opt (Suc i) sz 0 ts) \<le> Suc i"
  using assms(2)
proof (induction i arbitrary: sz ts)
  case 0
  then show ?case by (auto simp: Let_def adjust_size_le target_loop_kept)
next
  case (Suc i)
  let ?m = "lo_LevelSizeMultiplier opt"
  have m: "0 < ?m" by (rule assms(1))
  have q: "sz sdiv ?m = sz div ?m" "0 \<le> sz div ?m"
    using sdiv_div Suc.prems m by (auto simp: pos_imp_zdiv_nonneg_iff)
  have e: "sz div ?m div ?m ^ i = sz div ?m ^ Suc i"
    using m by (simp add: zdiv_zmult2_eq)
  show ?case
  proof (cases "sz \<le> lo_BaseLevelSize opt")
    case True
    then have "\<not> lo_BaseLevelSize opt < sz div ?m ^ Suc i" using div_pow_le [OF m Suc.prems, of "Suc i"] by linarith
    with True show ?thesis
      using target_loop_kept [of "Suc (Suc i)"] unfolding target_loop.simps(2) [of opt "Suc i"] Let_def
      by (simp add: adjust_size_le)
  next
    case False
    with Suc.IH [OF q(2), of "ts[Suc (Suc i) := adjust_size opt sz]"] show ?thesis
      unfolding target_loop.simps(2) [of opt "Suc i"] Let_def
      by (simp add: adjust_size_le q e del: target_loop.simps)
  qed
qed

lemma target_loop_sizes:
  assumes "0 < lo_LevelSizeMultiplier opt" and "0 \<le> sz" and "i < length ts"
  shows "(\<forall>j. 1 \<le> j \<longrightarrow> j \<le> i \<longrightarrow> snd (target_loop opt i sz base ts) ! j =
      max (lo_BaseLevelSize opt) (sz div lo_LevelSizeMultiplier opt ^ (i - j))) \<and>
    (\<forall>j. i < j \<longrightarrow> snd (target_loop opt i sz base ts) ! j = ts ! j)"
  using assms(2,3)
proof (induction i arbitrary: sz base ts)
  case (Suc i)
  let ?m = "lo_LevelSizeMultiplier opt" and ?b = "if base = 0 \<and> adjust_size opt sz \<le> lo_BaseLevelSize opt then Suc i else base"
  and ?ts = "ts[Suc i := adjust_size opt sz]"
  have q: "sz sdiv ?m = sz div ?m" "0 \<le> sz div ?m"
    using sdiv_div Suc.prems assms(1) by (auto simp: pos_imp_zdiv_nonneg_iff)
  have step: "target_loop opt (Suc i) sz base ts = target_loop opt i (sz div ?m) ?b ?ts"
    by (simp add: Let_def q)
  have IH1: "snd (target_loop opt i (sz div ?m) ?b ?ts) ! j =
      max (lo_BaseLevelSize opt) (sz div ?m div ?m ^ (i - j))" if "1 \<le> j" "j \<le> i" for j
    using Suc.IH [OF q(2), of ?ts ?b] Suc.prems(2) that by auto
  have IH2: "snd (target_loop opt i (sz div ?m) ?b ?ts) ! j = ?ts ! j" if "i < j" for j
    using Suc.IH [OF q(2), of ?ts ?b] Suc.prems(2) that by auto
  have e: "sz div ?m div ?m ^ (i - j) = sz div ?m ^ (Suc i - j)" if "j \<le> i" for j
    using assms(1) that by (simp add: zdiv_zmult2_eq Suc_diff_le)
  have a: "adjust_size opt sz = max (lo_BaseLevelSize opt) sz" by (auto simp: adjust_size_def)
  show ?case unfolding step
  proof (intro conjI allI impI)
    fix j
    assume "1 \<le> j" "j \<le> Suc i"
    then show "snd (target_loop opt i (sz div ?m) ?b ?ts) ! j =
        max (lo_BaseLevelSize opt) (sz div ?m ^ (Suc i - j))"
      using IH1 [of j] IH2 [of j] e [of j] a Suc.prems(2) by (cases "j = Suc i") auto
  next
    fix j
    assume "Suc i < j"
    then show "snd (target_loop opt i (sz div ?m) ?b ?ts) ! j = ts ! j" using IH2 [of j] by simp
  qed
qed simp

text \<open>The loop takes the lowest level (the largest number) whose scaled size is within the base size.\<close>

lemma target_loop_first:
  assumes "0 < lo_LevelSizeMultiplier opt" and "0 \<le> sz" and "fst (target_loop opt i sz 0 ts) = c" and "c \<noteq> 0"
  shows "c \<le> i \<and> sz div lo_LevelSizeMultiplier opt ^ (i - c) \<le> lo_BaseLevelSize opt \<and>
    (\<forall>j. c < j \<longrightarrow> j \<le> i \<longrightarrow> lo_BaseLevelSize opt < sz div lo_LevelSizeMultiplier opt ^ (i - j))"
  using assms(2-4)
proof (induction i arbitrary: sz ts)
  case (Suc i)
  let ?m = "lo_LevelSizeMultiplier opt"
  have q: "sz sdiv ?m = sz div ?m" "0 \<le> sz div ?m"
    using sdiv_div Suc.prems(1) assms(1) by (auto simp: pos_imp_zdiv_nonneg_iff)
  have e: "sz div ?m div ?m ^ (i - j) = sz div ?m ^ (Suc i - j)" if "j \<le> i" for j
    using assms(1) that by (simp add: zdiv_zmult2_eq Suc_diff_le)
  show ?case
  proof (cases "sz \<le> lo_BaseLevelSize opt")
    case True
    then have "c = Suc i" using Suc.prems(2) by (simp add: Let_def adjust_size_le target_loop_kept)
    then show ?thesis using True by simp
  next
    case False
    then have "fst (target_loop opt i (sz div ?m) 0 (ts[Suc i := adjust_size opt sz])) = c"
      using Suc.prems(2) by (simp add: Let_def adjust_size_le q)
    from Suc.IH [OF q(2) this Suc.prems(3)] have IH: "c \<le> i" "sz div ?m div ?m ^ (i - c) \<le> lo_BaseLevelSize opt"
      "\<And>j. c < j \<Longrightarrow> j \<le> i \<Longrightarrow> lo_BaseLevelSize opt < sz div ?m div ?m ^ (i - j)" by auto
    have "lo_BaseLevelSize opt < sz div ?m ^ (Suc i - j)" if "c < j" "j \<le> Suc i" for j
      using False IH(3) [of j] e [of j] that by (cases "j = Suc i") auto
    then show ?thesis using IH(1,2) e [OF IH(1)] by simp
  qed
qed simp

lemma file_sizes_nth:
  "i < n - k \<Longrightarrow> file_sizes opt base [k..<n] tsz ! i =
    (if k + i = 0 then lo_MemTableSize opt else tsz * lo_TableSizeMultiplier opt ^ (k + i - base - (k - 1 - base)))"
proof (induction i arbitrary: k tsz)
  case 0
  then have u: "[k..<n] = k # [Suc k..<n]" by (simp add: upt_conv_Cons)
  show ?case
  proof (cases "k \<le> base")
    case False
    then have "k - base - (k - 1 - base) = 1" by simp
    then show ?thesis using False by (simp add: u Let_def)
  qed (simp add: u)
next
  case (Suc i)
  then have u: "[k..<n] = k # [Suc k..<n]" by (simp add: upt_conv_Cons)
  have IH: "file_sizes opt base [Suc k..<n] tsz ! i = tsz * lo_TableSizeMultiplier opt ^ (k + Suc i - base - (k - base))" for tsz
    using Suc.IH [of "Suc k" tsz] Suc.prems by simp
  show ?case
  proof (cases "k \<le> base")
    case False
    then have "k + Suc i - base - (k - 1 - base) = Suc (k + Suc i - base - (k - base))" by simp
    then show ?thesis using False by (simp add: u Let_def IH mult.assoc del: power_Suc add_Suc_right) (simp add: mult.commute)
  next
    case True
    show ?thesis unfolding u using True IH [of tsz] by (cases "k = 0") simp_all
  qed
qed

lemma skip_empty_empty: "skip_empty lvl [a..<n] base = b \<Longrightarrow> base < a \<Longrightarrow> a \<le> i \<Longrightarrow> i \<le> b \<Longrightarrow> \<not> 0 < lh_totalSize (lvl ! i)"
proof (induction "n - a" arbitrary: a base)
  case 0
  then show ?case by simp
next
  case (Suc d)
  then have u: "[a..<n] = a # [Suc a..<n]" by (simp add: upt_conv_Cons)
  have e: "\<not> 0 < lh_totalSize (lvl ! a)" using Suc.prems u by (auto split: if_splits)
  then have r: "skip_empty lvl [Suc a..<n] a = b" using Suc.prems(1) by (simp add: u)
  show ?case
  proof (cases "i = a")
    case False
    show ?thesis by (rule Suc.hyps(1) [OF _ r]) (use Suc.hyps(2) Suc.prems False in auto)
  qed (use e in simp)
qed

lemma skip_empty_in: "skip_empty lvl is base \<in> insert base (set is)"
  by (induction lvl "is" base rule: skip_empty.induct) auto

lemma skip_empty_stop: "is \<noteq> [] \<Longrightarrow> 0 < lh_totalSize (lvl ! hd is) \<Longrightarrow> skip_empty lvl is base = base"
  by (cases "is") auto

lemma length_file_sizes [simp]: "length (file_sizes opt base is tsz) = length is"
  by (induction opt base "is" tsz rule: file_sizes.induct) (auto simp: Let_def)

text \<open>What the targets are, unfolded once.\<close>

lemma levelTargets_cases:
  fixes lc opt
  defines "n \<equiv> length (lc_levels lc)" and "r \<equiv> target_loop opt (length (lc_levels lc) - 1)
      (lh_totalSize (lastLevel lc)) 0 (replicate (length (lc_levels lc)) 0)"
  obtains b where "b \<in> insert (fst r) {fst r + 1..<n - 1}"
    "baseLevel (levelTargets opt lc) = b \<or> b < n - 1 \<and> baseLevel (levelTargets opt lc) = b + 1"
    "targetSz (levelTargets opt lc) = snd r" "length (fileSz (levelTargets opt lc)) = n"
    "b = skip_empty (lc_levels lc) [fst r + 1..<n - 1] (fst r)"
    "baseLevel (levelTargets opt lc) = b \<or> lh_totalSize (lc_levels lc ! b) = 0"
    "fileSz (levelTargets opt lc) = file_sizes opt (fst r) [0..<n] (lo_BaseTableSize opt)"
proof -
  let ?b = "skip_empty (lc_levels lc) [fst r + 1..<n - 1] (fst r)"
  have "?b \<in> insert (fst r) {fst r + 1..<n - 1}"
    using skip_empty_in [of "lc_levels lc" "[fst r + 1..<n - 1]" "fst r"] by simp
  then show ?thesis
    by (intro that [of ?b])
      (auto simp: levelTargets_def Let_def n_def r_def split: prod.splits)
qed

text \<open>
  C30: the targets of a tree, under the condition that the last level, scaled down by the level
  multiplier to level 1, is within the base size. Every level from 1 on gets the size of the last
  level scaled down to it, but at least the base size. Let \<open>c\<close> be the lowest level whose scaled size
  is within the base size. Files have the size of a memtable at level 0, the base table size up to
  \<open>c\<close>, and grow by the table multiplier with each level below. The base level is \<open>c\<close> or a level
  below it with nothing in between.
\<close>

theorem level_targets:
  assumes n: "2 \<le> length (lc_levels lc)" and m: "0 < lo_LevelSizeMultiplier opt"
    and sz: "0 \<le> lh_totalSize (lastLevel lc)"
    and fits: "lh_totalSize (lastLevel lc) div lo_LevelSizeMultiplier opt ^ (length (lc_levels lc) - 2) \<le> lo_BaseLevelSize opt"
  defines "scaled \<equiv> (\<lambda>i. lh_totalSize (lastLevel lc) div lo_LevelSizeMultiplier opt ^ (length (lc_levels lc) - 1 - i))"
    and "t \<equiv> levelTargets opt lc"
  shows "(\<forall>i. 1 \<le> i \<longrightarrow> i < length (lc_levels lc) \<longrightarrow> targetSz t ! i = max (lo_BaseLevelSize opt) (scaled i)) \<and>
    (\<exists>c. 1 \<le> c \<and> c < length (lc_levels lc) \<and> scaled c \<le> lo_BaseLevelSize opt \<and>
      (\<forall>i. c < i \<longrightarrow> i < length (lc_levels lc) \<longrightarrow> lo_BaseLevelSize opt < scaled i) \<and>
      length (fileSz t) = length (lc_levels lc) \<and>
      (\<forall>i < length (lc_levels lc). fileSz t ! i =
        (if i = 0 then lo_MemTableSize opt else lo_BaseTableSize opt * lo_TableSizeMultiplier opt ^ (i - c))) \<and>
      c \<le> baseLevel t \<and> baseLevel t < length (lc_levels lc) \<and>
      (\<forall>i. c < i \<longrightarrow> i < baseLevel t \<longrightarrow> \<not> 0 < lh_totalSize (lc_levels lc ! i)))"
proof -
  let ?n = "length (lc_levels lc)" and ?S = "lh_totalSize (lastLevel lc)"
  let ?r = "target_loop opt (?n - 1) ?S 0 (replicate ?n 0)"
  let ?c = "fst ?r"
  obtain b where b: "b \<in> insert ?c {?c + 1..<?n - 1}"
    "baseLevel t = b \<or> b < ?n - 1 \<and> baseLevel t = b + 1" "targetSz t = snd ?r" "length (fileSz t) = ?n"
    "b = skip_empty (lc_levels lc) [?c + 1..<?n - 1] ?c" "fileSz t = file_sizes opt ?c [0..<?n] (lo_BaseTableSize opt)"
    using levelTargets_cases [of opt lc] unfolding t_def by metis
  have n1: "?n - 1 = Suc (?n - 2)" using n by simp
  have c1: "?c \<noteq> 0" using target_loop_base [OF m sz, of "?n - 2" "replicate ?n 0"] fits unfolding n1 by auto
  have c: "?c \<le> ?n - 1" "scaled ?c \<le> lo_BaseLevelSize opt" "\<And>j. ?c < j \<Longrightarrow> j \<le> ?n - 1 \<Longrightarrow> lo_BaseLevelSize opt < scaled j"
    using target_loop_first [OF m sz refl c1] unfolding scaled_def by blast+
  have "targetSz t ! i = max (lo_BaseLevelSize opt) (scaled i)" if "1 \<le> i" "i < ?n" for i
    using target_loop_sizes [OF m sz, of "?n - 1" "replicate ?n 0" 0] n that b(3) by (simp add: scaled_def)
  moreover have "fileSz t ! i = (if i = 0 then lo_MemTableSize opt else lo_BaseTableSize opt * lo_TableSizeMultiplier opt ^ (i - ?c))" if "i < ?n" for i
    using file_sizes_nth [of i ?n 0 opt ?c "lo_BaseTableSize opt"] that b(6) by simp
  moreover have "\<not> 0 < lh_totalSize (lc_levels lc ! i)" if "?c < i" "i < baseLevel t" for i
    by (rule skip_empty_empty [OF b(5) [symmetric]]) (use that b(2) in auto)
  moreover have "?c \<le> b" "b \<le> ?n - 1" using b(1) c(1) by auto
  ultimately show ?thesis using b(2,4) c c1 n by (intro conjI exI [of _ ?c]) auto
qed

text \<open>Without that condition there may be no base level.\<close>

lemma base_level_zero:
  assumes n: "3 \<le> length (lc_levels lc)" and m: "0 < lo_LevelSizeMultiplier opt"
    and sz: "0 \<le> lh_totalSize (lastLevel lc)"
    and used: "lh_totalSize (lc_levels lc ! 0) \<noteq> 0" "0 < lh_totalSize (lc_levels lc ! 1)"
  shows "baseLevel (levelTargets opt lc) = 0 \<longleftrightarrow>
    lo_BaseLevelSize opt < lh_totalSize (lastLevel lc) div lo_LevelSizeMultiplier opt ^ (length (lc_levels lc) - 2)"
proof -
  let ?n = "length (lc_levels lc)"
  let ?r = "target_loop opt (?n - 1) (lh_totalSize (lastLevel lc)) 0 (replicate ?n 0)"
  obtain b where b: "b \<in> insert (fst ?r) {fst ?r + 1..<?n - 1}" "b = skip_empty (lc_levels lc) [fst ?r + 1..<?n - 1] (fst ?r)"
    "baseLevel (levelTargets opt lc) = b \<or> b < ?n - 1 \<and> baseLevel (levelTargets opt lc) = b + 1"
    "baseLevel (levelTargets opt lc) = b \<or> lh_totalSize (lc_levels lc ! b) = 0"
    using levelTargets_cases [of opt lc] by metis
  have n1: "?n - 1 = Suc (?n - 2)" using n by simp
  have z: "fst ?r = 0 \<longleftrightarrow> lo_BaseLevelSize opt < lh_totalSize (lastLevel lc) div lo_LevelSizeMultiplier opt ^ (?n - 2)"
    using target_loop_base [OF m sz, of "?n - 2" "replicate ?n 0"] unfolding n1 by simp
  show ?thesis
  proof (cases "fst ?r = 0")
    case True
    have "hd [1..<?n - 1] = 1" "[1..<?n - 1] \<noteq> []" using n by auto
    then have "b = 0" using skip_empty_stop [of "[1..<?n - 1]" "lc_levels lc" 0] used b(2) True by simp
    then show ?thesis using z True b(4) used by simp
  next
    case False
    then have "b \<noteq> 0" using b(1) by auto
    then show ?thesis using z False b(3) by auto
  qed
qed

text \<open>A tree of seven levels that only has sizes, with the default options.\<close>

definition default_opts :: lv_opts where
  "default_opts = \<lparr>lo_BaseLevelSize = 10485760, lo_LevelSizeMultiplier = 10, lo_TableSizeMultiplier = 2,
     lo_BaseTableSize = 2097152, lo_MemTableSize = 67108864, lo_NumLevelZeroTables = 5,
     lo_NumLevelZeroTablesStall = 15, lo_NumVersionsToKeep = 1, lo_InMemory = False\<rparr>"

definition new_status :: "nat \<Rightarrow> compactStatus" where
  "new_status n = \<lparr>cs_levels = replicate n new_ls, cs_tables = {}, cs_hotTierStatus = Some new_ls,
     cs_hotTierOrdStatus = Some new_ls\<rparr>"

definition no_refs :: table_refs where
  "no_refs = \<lparr>rf_count = (\<lambda>_. 0), rf_deleted = {}\<rparr>"

definition sized_tree :: "int list \<Rightarrow> levelsController" where
  "sized_tree szs = \<lparr>lc_levels = map (\<lambda>(i, s). (newLevelHandler i)\<lparr>lh_totalSize := s\<rparr>) (zip [0..<length szs] szs),
     lc_hotTier = Some (newLevelHandler 98), lc_hotTierOrd = Some (newLevelHandler 99), lc_nextFileID = 1,
     lc_cstatus = new_status (length szs), lc_refs = no_refs\<rparr>"

lemma level_targets_witness:
  "\<exists>c. 1 \<le> c \<and> c \<le> baseLevel (levelTargets default_opts (sized_tree [0, 0, 0, 0, 0, 0, 5000000000])) \<and>
   fileSz (levelTargets default_opts (sized_tree [0, 0, 0, 0, 0, 0, 5000000000])) ! 6 = 2097152 * 2 ^ (6 - c)"
  using level_targets [of "sized_tree [0, 0, 0, 0, 0, 0, 5000000000]" default_opts]
  by (fastforce simp: sized_tree_def default_opts_def lastLevel_def newLevelHandler_def)

section \<open>Picking levels\<close>

lemma level_priorities_level:
  "level_priorities cs t levels is = Some ps \<Longrightarrow> map p_level ps = is"
  by (induction cs t levels "is" arbitrary: ps rule: level_priorities.induct)
    (auto simp: Let_def priority_def split: option.splits)

lemma adjust_loop_level: "set ls \<subseteq> {..<length ps} \<Longrightarrow> prev < length ps \<Longrightarrow>
    map p_level (adjust_loop ls prev ps) = map p_level ps \<and> map p_score (adjust_loop ls prev ps) = map p_score ps"
proof (induction ls prev ps rule: adjust_loop.induct)
  case (2 level ls prev ps)
  let ?p = "ps ! prev" and ?d = "if minScore \<le> p_score (ps ! level) then p_adjusted (ps ! level) else minScore"
  have "map p_level (ps[prev := ?p\<lparr>p_adjusted := x\<rparr>]) = map p_level ps"
    "map p_score (ps[prev := ?p\<lparr>p_adjusted := x\<rparr>]) = map p_score ps" for x
    by (simp_all add: map_update_same)
  with 2 show ?case by (simp add: Let_def)
qed simp

lemma level_priorities_some:
  "\<forall>i \<in> set is. level_ok cs i \<Longrightarrow> \<exists>ps. level_priorities cs t levels is = Some ps"
  by (induction cs t levels "is" rule: level_priorities.induct)
    (auto simp: Let_def cs_delSize_def getLevelStatus_ok split: option.splits)

lemma pick_some:
  assumes "length (cs_levels (lc_cstatus lc)) = length (lc_levels lc)"
  shows "\<exists>prios. pickCompactLevels opt lc = Some prios"
  using level_priorities_some [of "[1..<length (lc_levels lc)]" "lc_cstatus lc" "levelTargets opt lc" "lc_levels lc"] assms
  by (auto simp: pickCompactLevels_def Let_def level_ok_def)

text \<open>
  \<open>pickCompactLevels\<close> gives the levels in the order of their adjusted scores, the
  highest first; each is a level of the tree that is full and not the last one, or the hot
  tier, which is always there; no level twice.
\<close>

theorem pick_compact_levels:
  assumes "2 \<le> length (lc_levels lc)" and "length (lc_levels lc) \<le> 98"
    and "pickCompactLevels opt lc = Some prios"
  shows "sorted_wrt (\<lambda>a b. p_adjusted b \<le> p_adjusted a) prios \<and> distinct (map p_level prios) \<and>
    (\<forall>p \<in> set prios. p_level p = 98 \<and> lc_hotTier lc \<noteq> None \<or> p_level p < length (lc_levels lc) - 1 \<and> 1 \<le> p_score p) \<and>
    (lc_hotTier lc \<noteq> None \<longrightarrow> 98 \<in> p_level ` set prios)"
proof -
  let ?n = "length (lc_levels lc)" and ?t = "levelTargets opt lc"
  define p0 where "p0 = priority ?t 0 (f_div (f_of_int (int (length (lh_tables (lc_levels lc ! 0))))) (f_of_int (lo_NumLevelZeroTables opt)))"
  have p0: "p_level p0 = 0" by (simp add: p0_def priority_def)
  obtain ps where ps: "level_priorities (lc_cstatus lc) ?t (lc_levels lc) [1..<?n] = Some ps"
    and prios: "prios = go_sort by_adjusted (let out = filter (\<lambda>p. 1 \<le> p_score p) (butlast (adjust_loop [baseLevel ?t..<?n] 0 (p0 # ps)))
        in case lc_hotTier lc of None \<Rightarrow> out
           | Some h \<Rightarrow> out @ [\<lparr>p_level = 98, p_score = 2,
                p_adjusted = f_div (f_of_int (int (length (lh_tables h)))) 8, p_dropPrefixes = [], p_t = ?t\<rparr>])"
    using assms(3) unfolding pickCompactLevels_def Let_def p0_def [symmetric]
    by (cases "level_priorities (lc_cstatus lc) ?t (lc_levels lc) [1..<?n]") auto
  let ?a = "adjust_loop [baseLevel ?t..<?n] 0 (p0 # ps)"
  have lv: "map p_level ps = [1..<?n]" using level_priorities_level [OF ps] .
  then have len: "length ps = ?n - 1" by (metis length_map length_upt)
  have "map p_level ?a = map p_level (p0 # ps)"
  proof -
    have "set [baseLevel ?t..<?n] \<subseteq> {..<length (p0 # ps)}" using len assms(1) by auto
    from adjust_loop_level [OF this, of 0] show ?thesis by simp
  qed
  also have "\<dots> = [0..<?n]" using lv p0 assms(1) upt_conv_Cons [of 0 ?n] by fastforce
  finally have a: "map p_level (butlast ?a) = [0..<?n - 1]" by (cases ?n) (simp_all add: map_butlast)
  let ?o = "filter (\<lambda>p. 1 \<le> p_score p) (butlast ?a)"
  have lt: "p_level p < ?n - 1" if "p \<in> set (butlast ?a)" for p
    using a that by (metis atLeastLessThan_iff imageI list.set_map set_upt)
  have o: "distinct (map p_level ?o)" "\<forall>p \<in> set ?o. p_level p < ?n - 1 \<and> 1 \<le> p_score p"
    using a lt by (auto intro: distinct_map_filter)
  have "strict_weak by_adjusted" using strict_weak_key_rev [of p_adjusted] by (simp add: by_adjusted_def strict_weak_def)
  then have "in_order by_adjusted prios" unfolding prios by (rule in_order_go_sort)
  then have "sorted_wrt (\<lambda>a b. p_adjusted b \<le> p_adjusted a) prios"
    by (simp add: in_order_def by_adjusted_def not_less)
  moreover have "98 \<notin> p_level ` set ?o" using o(2) assms(2) by fastforce
  then have "distinct (map p_level prios)"
    using o(1) unfolding prios Let_def gs.distinct_map_srt by (cases "lc_hotTier lc") auto
  moreover have "\<forall>p \<in> set prios. p_level p = 98 \<and> lc_hotTier lc \<noteq> None \<or> p_level p < ?n - 1 \<and> 1 \<le> p_score p"
  proof (cases "lc_hotTier lc")
    case None
    then show ?thesis using o(2) unfolding prios Let_def by simp
  next
    case (Some h)
    then show ?thesis using o(2) unfolding prios Let_def by simp
  qed
  moreover have "lc_hotTier lc \<noteq> None \<longrightarrow> 98 \<in> p_level ` set prios"
    unfolding prios Let_def by (cases "lc_hotTier lc") simp_all
  ultimately show ?thesis by blast
qed

lemma pick_compact_levels_witness:
  "\<exists>prios. pickCompactLevels default_opts (sized_tree [0, 20971520, 0, 50000000]) = Some prios \<and>
    distinct (map p_level prios) \<and> 98 \<in> p_level ` set prios"
proof -
  let ?lc = "sized_tree [0, 20971520, 0, 50000000]"
  have lc: "length (lc_levels ?lc) = 4" "length (cs_levels (lc_cstatus ?lc)) = 4" "lc_hotTier ?lc \<noteq> None"
    by (simp_all add: sized_tree_def new_status_def)
  then obtain prios where "pickCompactLevels default_opts ?lc = Some prios" using pick_some by metis
  with pick_compact_levels [of ?lc default_opts prios] lc show ?thesis by simp
qed

end
