(* ===== verification/Subcompact.thy ===== *)
theory Subcompact
  imports Targets Iterators
begin

unbundle bit_operations_syntax

text \<open>
  The merge of a compaction (\<open>levels.go\<close>: \<open>checkOverlap\<close>, \<open>subcompact\<close> with its \<open>addKeys\<close>,
  \<open>compactBuildTables\<close>, \<open>hasAnyPrefixes\<close>): which versions are written to the new tables,
  which are dropped, and where one table ends and the next begins. The iterator is given by
  the entries still to come (theory \<open>Iterators\<close> shows that merge iterators are such lists).
  When a table builder is full (\<open>ReachedCapacity\<close>) is a parameter, as is the clock; errors
  of writing tables are not modelled.
\<close>

section \<open>Overlap with other levels\<close>

definition level_overlaps :: "levelHandler \<Rightarrow> keyRange \<Rightarrow> bool" where
  "level_overlaps lh kr = (let (left, right) = overlappingTables lh kr in left < right)"

definition any_overlaps :: "levelHandler \<Rightarrow> keyRange \<Rightarrow> bool" where
  "any_overlaps lh kr = list_ex (\<lambda>t. kr_overlapsWith (getKeyRange [t]) kr) (lh_tables lh)"

definition checkOverlap :: "levelsController \<Rightarrow> table list \<Rightarrow> nat \<Rightarrow> nat \<Rightarrow> nat \<Rightarrow> bool" where
  "checkOverlap lc tables lev currentLev baseLev =
     (let kr = getKeyRange tables
      in list_ex (\<lambda>i. \<not> (currentLev < 98 \<and> i < lev) \<and>
             (if i \<noteq> 0 then level_overlaps (lc_levels lc ! i) kr else any_overlaps (lc_levels lc ! i) kr))
           [0..<length (lc_levels lc)] \<or>
         (currentLev < baseLev \<and>
           ((case lc_hotTier lc of None \<Rightarrow> False | Some h \<Rightarrow> any_overlaps h kr) \<or>
            (case lc_hotTierOrd lc of None \<Rightarrow> False | Some h \<Rightarrow> level_overlaps h kr))))"

section \<open>The merge\<close>

definition hasAnyPrefixes :: "bytes \<Rightarrow> bytes list \<Rightarrow> bool" where
  "hasAnyPrefixes s listOfPrefixes = list_ex (has_prefix s) listOfPrefixes"

text \<open>What the merge depends on.\<close>

record merge_env =
  me_dropPrefixes :: "bytes list"
  me_right :: bytes
  me_discardTs :: u64
  me_hasOverlap :: bool
  me_keepVersions :: int
  me_inMemory :: bool
  me_now :: nat
  me_exceeds :: "keyRange \<Rightarrow> bool"

text \<open>An entry in a builder: whether it was added as stale, and the length of its value in the log.\<close>

record added =
  ad_stale :: bool
  ad_key :: bytes
  ad_vs :: ValueStruct
  ad_vpLen :: u32

text \<open>The variables that live as long as the subcompaction.\<close>

record merge_state =
  ms_lastKey :: bytes
  ms_skipKey :: bytes
  ms_numVersions :: int
  ms_firstKeyHasDiscardSet :: bool
  ms_discardStats :: "u32 \<Rightarrow> int"

definition merge_start :: merge_state where
  "merge_start = \<lparr>ms_lastKey = [], ms_skipKey = [], ms_numVersions = 0, ms_firstKeyHasDiscardSet = False,
     ms_discardStats = (\<lambda>_. 0)\<rparr>"

text \<open>The pointer in a value; \<open>None\<close> is the panic of \<open>Decode\<close> on a short value.\<close>

definition value_pointer :: "ValueStruct \<Rightarrow> valuePointer option" where
  "value_pointer vs = vp_Decode (slice_bytes (vs_Value vs))"

definition updateStats :: "merge_env \<Rightarrow> ValueStruct \<Rightarrow> merge_state \<Rightarrow> merge_state option" where
  "updateStats env vs st =
     (if me_inMemory env then Some st
      else if 0 < vs_Meta vs AND bitValuePointer then
        (case value_pointer vs of None \<Rightarrow> None
         | Some vp \<Rightarrow> Some (st\<lparr>ms_discardStats := (ms_discardStats st)(vp_Fid vp :=
             ms_discardStats st (vp_Fid vp) + uint (vp_Len vp))\<rparr>))
      else Some st)"

definition add_entry :: "merge_env \<Rightarrow> merge_state \<Rightarrow> bytes \<Rightarrow> ValueStruct \<Rightarrow> added option" where
  "add_entry env st ik vs =
     (let stale = ms_firstKeyHasDiscardSet st \<or> isDeletedOrExpired (me_now env) (vs_Meta vs) (vs_ExpiresAt vs)
      in if 0 < vs_Meta vs AND bitValuePointer then
           map_option (\<lambda>vp. \<lparr>ad_stale = stale, ad_key = ik, ad_vs = vs, ad_vpLen = vp_Len vp\<rparr>) (value_pointer vs)
         else Some \<lparr>ad_stale = stale, ad_key = ik, ad_vs = vs, ad_vpLen = 0\<rparr>)"

text \<open>
  The block for a key that differs from the last one: it may end the table. The counter
  and the range of the table are the locals of one call of \<open>addKeys\<close>.
\<close>

datatype on_key = Stop merge_state | Go merge_state keyRange nat

definition new_key ::
    "merge_env \<Rightarrow> (added list \<Rightarrow> bool) \<Rightarrow> merge_state \<Rightarrow> keyRange \<Rightarrow> nat \<Rightarrow> added list \<Rightarrow> bytes \<Rightarrow> ValueStruct \<Rightarrow> on_key" where
  "new_key env reached st tableKr rangeCheck built ik vs =
     (if SameKey ik (ms_lastKey st) then Go st tableKr rangeCheck
      else
        let st1 = st\<lparr>ms_firstKeyHasDiscardSet := False\<rparr>
        in if 0 < length (me_right env) \<and> cmp_keys ik (me_right env) \<ge> 0 then Stop st1
           else if reached built then Stop st1
           else
             let st2 = st1\<lparr>ms_lastKey := ik, ms_numVersions := 0,
                   ms_firstKeyHasDiscardSet := (0 < vs_Meta vs AND bitDiscardEarlierVersions)\<rparr>;
                 kr = (if length (kr_left tableKr) = 0 then tableKr\<lparr>kr_left := ik\<rparr> else tableKr)\<lparr>kr_right := ik\<rparr>
             in if (rangeCheck + 1) mod 5000 = 0 \<and> me_exceeds env kr then Stop st2
                else Go st2 kr (rangeCheck + 1))"

text \<open>The discard rules for one version: the new state, and whether it is dropped.\<close>

definition discard_rules :: "merge_env \<Rightarrow> merge_state \<Rightarrow> bytes \<Rightarrow> ValueStruct \<Rightarrow> merge_state \<times> bool" where
  "discard_rules env st ik vs =
     (let isExpired = isDeletedOrExpired (me_now env) (vs_Meta vs) (vs_ExpiresAt vs)
      in if ParseTs ik \<le> me_discardTs env \<and> vs_Meta vs AND bitMergeEntry = 0 then
           let st1 = st\<lparr>ms_numVersions := ms_numVersions st + 1\<rparr>;
               lastValidVersion = (0 < vs_Meta vs AND bitDiscardEarlierVersions \<or>
                 ms_numVersions st1 = me_keepVersions env)
           in if isExpired \<or> lastValidVersion then
                let st2 = st1\<lparr>ms_skipKey := ik\<rparr>
                in if \<not> isExpired \<and> lastValidVersion then (st2, False)
                   else if me_hasOverlap env then (st2, False)
                   else (st2, True)
              else (st1, False)
         else (st, False))"

text \<open>\<open>addKeys\<close>: the state, the builder's entries and the entries not consumed.\<close>

fun add_keys ::
    "merge_env \<Rightarrow> (added list \<Rightarrow> bool) \<Rightarrow> merge_state \<Rightarrow> keyRange \<Rightarrow> nat \<Rightarrow> added list \<Rightarrow> entry list \<Rightarrow>
     (merge_state \<times> added list \<times> entry list) option" where
  "add_keys env reached st tableKr rangeCheck built [] = Some (st, built, [])"
| "add_keys env reached st tableKr rangeCheck built ((ik, vs) # es) =
     (if 0 < length (me_dropPrefixes env) \<and> hasAnyPrefixes ik (me_dropPrefixes env) then
        (case updateStats env vs st of None \<Rightarrow> None
         | Some st' \<Rightarrow> add_keys env reached st' tableKr rangeCheck built es)
      else if 0 < length (ms_skipKey st) \<and> SameKey ik (ms_skipKey st) then
        (case updateStats env vs st of None \<Rightarrow> None
         | Some st' \<Rightarrow> add_keys env reached st' tableKr rangeCheck built es)
      else
        case new_key env reached (st\<lparr>ms_skipKey := []\<rparr>) tableKr rangeCheck built ik vs of
          Stop st' \<Rightarrow> Some (st', built, (ik, vs) # es)
        | Go st1 kr n \<Rightarrow>
            (case discard_rules env st1 ik vs of
               (st2, True) \<Rightarrow>
                 (case updateStats env vs st2 of None \<Rightarrow> None
                  | Some st' \<Rightarrow> add_keys env reached st' kr n built es)
             | (st2, False) \<Rightarrow>
                 (case add_entry env st2 ik vs of None \<Rightarrow> None
                  | Some a \<Rightarrow> add_keys env reached st2 kr n (built @ [a]) es)))"

text \<open>
  The loop over tables. A round that consumes nothing would repeat itself for ever; the
  bound on the rounds is the number of entries, plus one for the final test.
\<close>

fun build_tables ::
    "nat \<Rightarrow> merge_env \<Rightarrow> (added list \<Rightarrow> bool) \<Rightarrow> merge_state \<Rightarrow> added list list \<Rightarrow> entry list \<Rightarrow>
     (merge_state \<times> added list list) option" where
  "build_tables 0 env reached st tables es = None"
| "build_tables (Suc n) env reached st tables es =
     (case es of [] \<Rightarrow> Some (st, tables)
      | (ik, vs) # _ \<Rightarrow>
          if 0 < length (me_right env) \<and> cmp_keys ik (me_right env) \<ge> 0 then Some (st, tables)
          else case add_keys env reached st empty_range 0 [] es of None \<Rightarrow> None
            | Some (st', built, es') \<Rightarrow>
                if built = [] then build_tables n env reached st' tables es'
                else build_tables n env reached st' (tables @ [built]) es')"

text \<open>\<open>it.Seek(kr.left)\<close> or \<open>it.Rewind()\<close>, then the tables and the discard statistics.\<close>

definition subcompact ::
    "merge_env \<Rightarrow> (added list \<Rightarrow> bool) \<Rightarrow> bytes \<Rightarrow> entry list \<Rightarrow> ((u32 \<Rightarrow> int) \<times> added list list) option" where
  "subcompact env reached left es =
     (let start = (if 0 < length left then dropWhile (\<lambda>e. key_less (fst e) left) es else es)
      in map_option (\<lambda>(st, tables). (ms_discardStats st, tables))
           (build_tables (length start + 1) env reached merge_start [] start))"

section \<open>A reference for the discard rules\<close>

text \<open>
  The same decisions without tables, in one pass: for each entry, whether it survives. The
  arguments are the key to skip, the last key and the number of its versions so far.
\<close>

definition expired :: "merge_env \<Rightarrow> ValueStruct \<Rightarrow> bool" where
  "expired env vs \<longleftrightarrow> isDeletedOrExpired (me_now env) (vs_Meta vs) (vs_ExpiresAt vs)"

definition prunable :: "merge_env \<Rightarrow> entry \<Rightarrow> bool" where
  "prunable env e \<longleftrightarrow> ParseTs (fst e) \<le> me_discardTs env \<and> vs_Meta (snd e) AND bitMergeEntry = 0"

definition last_valid :: "merge_env \<Rightarrow> ValueStruct \<Rightarrow> int \<Rightarrow> bool" where
  "last_valid env vs n \<longleftrightarrow> 0 < vs_Meta vs AND bitDiscardEarlierVersions \<or> n = me_keepVersions env"

definition dropped_prefix :: "merge_env \<Rightarrow> bytes \<Rightarrow> bool" where
  "dropped_prefix env ik \<longleftrightarrow> hasAnyPrefixes ik (me_dropPrefixes env)"

fun decide :: "merge_env \<Rightarrow> bytes \<Rightarrow> bytes \<Rightarrow> int \<Rightarrow> entry list \<Rightarrow> bool list" where
  "decide env skip lst n [] = []"
| "decide env skip lst n (e # es) =
     (if dropped_prefix env (fst e) then False # decide env skip lst n es
      else if skip \<noteq> [] \<and> SameKey (fst e) skip then False # decide env skip lst n es
      else
        let m = (if SameKey (fst e) lst then n else 0); l = (if SameKey (fst e) lst then lst else fst e)
        in if \<not> prunable env e then True # decide env [] l m es
           else if expired env (snd e) \<or> last_valid env (snd e) (m + 1) then
             (\<not> expired env (snd e) \<and> last_valid env (snd e) (m + 1) \<or> me_hasOverlap env)
               # decide env (fst e) l (m + 1) es
           else True # decide env [] l (m + 1) es)"

definition chosen_by :: "bool list \<Rightarrow> entry list \<Rightarrow> entry list" where
  "chosen_by bs es = map fst (filter snd (zip es bs))"

definition survivors :: "merge_env \<Rightarrow> entry list \<Rightarrow> entry list" where
  "survivors env es = chosen_by (decide env [] [] 0 es) es"

definition discarded :: "merge_env \<Rightarrow> entry list \<Rightarrow> entry list" where
  "discarded env es = chosen_by (map Not (decide env [] [] 0 es)) es"

definition written :: "added list \<Rightarrow> entry list" where
  "written as = map (\<lambda>a. (ad_key a, ad_vs a)) as"

lemma chosen_by_simps [simp]:
  "chosen_by [] es = []" "chosen_by bs [] = []"
  "chosen_by (b # bs) (e # es) = (if b then e # chosen_by bs es else chosen_by bs es)"
  by (auto simp: chosen_by_def)

lemma length_decide [simp]: "length (decide env skip lst n es) = length es"
  by (induction env skip lst n es rule: decide.induct) (auto simp: Let_def)

lemma chosen_by_subset: "set (chosen_by bs es) \<subseteq> set es"
  by (auto simp: chosen_by_def dest: set_zip_leftD)

text \<open>Values that are pointers hold one, so nothing panics.\<close>

definition pointers_ok :: "entry list \<Rightarrow> bool" where
  "pointers_ok es \<longleftrightarrow> (\<forall>e \<in> set es. 0 < vs_Meta (snd e) AND bitValuePointer \<longrightarrow> value_pointer (snd e) \<noteq> None)"

text \<open>The statistics of a list of dropped entries.\<close>

definition dropped_bytes :: "merge_env \<Rightarrow> entry list \<Rightarrow> u32 \<Rightarrow> int" where
  "dropped_bytes env es fid = (if me_inMemory env then 0 else
     sum_list (map (\<lambda>e. case value_pointer (snd e) of
         Some vp \<Rightarrow> if 0 < vs_Meta (snd e) AND bitValuePointer \<and> vp_Fid vp = fid then uint (vp_Len vp) else 0
       | None \<Rightarrow> 0) es))"

lemma updateStats_some:
  assumes "0 < vs_Meta vs AND bitValuePointer \<longrightarrow> value_pointer vs \<noteq> None"
  obtains d where "updateStats env vs st = Some (st\<lparr>ms_discardStats := d\<rparr>)"
    "\<And>fid. d fid = ms_discardStats st fid + dropped_bytes env [(ik, vs)] fid"
proof (cases "me_inMemory env")
  case True
  then show ?thesis using that [of "ms_discardStats st"] by (simp add: updateStats_def dropped_bytes_def)
next
  case False
  show ?thesis
  proof (cases "0 < vs_Meta vs AND bitValuePointer")
    case True
    then obtain vp where vp: "value_pointer vs = Some vp" using assms by auto
    show ?thesis
      by (rule that [of "(ms_discardStats st)(vp_Fid vp := ms_discardStats st (vp_Fid vp) + uint (vp_Len vp))"])
        (use True False vp in \<open>auto simp: updateStats_def dropped_bytes_def\<close>)
  next
    case no: False
    show ?thesis
      by (rule that [of "ms_discardStats st"])
        (use no False in \<open>auto simp: updateStats_def dropped_bytes_def split: option.splits\<close>)
  qed
qed

section \<open>The merge follows the reference\<close>

text \<open>The decisions still to come in a state, and what they keep and drop.\<close>

definition to_keep :: "merge_env \<Rightarrow> merge_state \<Rightarrow> entry list \<Rightarrow> entry list" where
  "to_keep env st es = chosen_by (decide env (ms_skipKey st) (ms_lastKey st) (ms_numVersions st) es) es"

definition to_drop :: "merge_env \<Rightarrow> merge_state \<Rightarrow> entry list \<Rightarrow> entry list" where
  "to_drop env st es = chosen_by (map Not (decide env (ms_skipKey st) (ms_lastKey st) (ms_numVersions st) es)) es"

definition stats_with :: "merge_env \<Rightarrow> merge_state \<Rightarrow> entry list \<Rightarrow> u32 \<Rightarrow> int" where
  "stats_with env st es fid = ms_discardStats st fid + dropped_bytes env (to_drop env st es) fid"

lemma dropped_bytes_Cons: "dropped_bytes env (e # es) fid = dropped_bytes env [e] fid + dropped_bytes env es fid"
  by (simp add: dropped_bytes_def)

lemma prefix_test: "me_dropPrefixes env \<noteq> [] \<and> hasAnyPrefixes ik (me_dropPrefixes env) \<longleftrightarrow> dropped_prefix env ik"
  by (auto simp: dropped_prefix_def hasAnyPrefixes_def)

text \<open>One version: the rules of the code against the reference.\<close>

lemma add_keys_Cons: "add_keys env reached st kr n built ((ik, vs) # es) =
    (if dropped_prefix env ik \<or> ms_skipKey st \<noteq> [] \<and> SameKey ik (ms_skipKey st) then
       (case updateStats env vs st of None \<Rightarrow> None
        | Some st' \<Rightarrow> add_keys env reached st' kr n built es)
     else
       case new_key env reached (st\<lparr>ms_skipKey := []\<rparr>) kr n built ik vs of
         Stop st' \<Rightarrow> Some (st', built, (ik, vs) # es)
       | Go st1 kr n \<Rightarrow>
           (case discard_rules env st1 ik vs of
              (st2, True) \<Rightarrow>
                (case updateStats env vs st2 of None \<Rightarrow> None
                 | Some st' \<Rightarrow> add_keys env reached st' kr n built es)
            | (st2, False) \<Rightarrow>
                (case add_entry env st2 ik vs of None \<Rightarrow> None
                 | Some a \<Rightarrow> add_keys env reached st2 kr n (built @ [a]) es)))"
  by (cases "dropped_prefix env ik")
    (simp_all only: add_keys.simps(2) length_greater_0_conv prefix_test if_True if_False simp_thms)

lemma discard_rules_eq: "discard_rules env st ik vs =
    (if prunable env (ik, vs) then
       (if expired env vs \<or> last_valid env vs (ms_numVersions st + 1) then
          (st\<lparr>ms_numVersions := ms_numVersions st + 1, ms_skipKey := ik\<rparr>,
           \<not> (\<not> expired env vs \<and> last_valid env vs (ms_numVersions st + 1)) \<and> \<not> me_hasOverlap env)
        else (st\<lparr>ms_numVersions := ms_numVersions st + 1\<rparr>, False))
     else (st, False))"
  by (simp add: discard_rules_def Let_def prunable_def expired_def last_valid_def)

lemma discard_rules_decide:
  assumes r: "discard_rules env st ik vs = (st2, drp)" and "ms_skipKey st = []"
    and "SameKey ik (ms_lastKey st)" and "\<not> dropped_prefix env ik"
  shows "decide env [] (ms_lastKey st) (ms_numVersions st) ((ik, vs) # es) =
      (\<not> drp) # decide env (ms_skipKey st2) (ms_lastKey st2) (ms_numVersions st2) es \<and>
    ms_discardStats st2 = ms_discardStats st"
proof (cases "prunable env (ik, vs)")
  case True
  show ?thesis
  proof (cases "expired env vs \<or> last_valid env vs (ms_numVersions st + 1)")
    case e: True
    then have "st2 = st\<lparr>ms_numVersions := ms_numVersions st + 1, ms_skipKey := ik\<rparr>"
      "drp = (\<not> (\<not> expired env vs \<and> last_valid env vs (ms_numVersions st + 1)) \<and> \<not> me_hasOverlap env)"
      using r True by (simp_all add: discard_rules_eq)
    then show ?thesis using assms(2-4) True e by (simp add: Let_def)
  next
    case False
    then have "st2 = st\<lparr>ms_numVersions := ms_numVersions st + 1\<rparr>" "\<not> drp"
      using r True by (simp_all add: discard_rules_eq)
    then show ?thesis using assms(2-4) True False by (simp add: Let_def)
  qed
next
  case False
  then have "st2 = st" "\<not> drp" using r by (simp_all add: discard_rules_eq)
  then show ?thesis using assms(2-4) False by simp
qed

lemma SameKey_refl [simp]: "SameKey k k"
  by (simp add: SameKey_def)

text \<open>The state after the block for a new key makes the same decisions as before it.\<close>

lemma new_key_state:
  assumes "\<not> dropped_prefix env ik" and "ms_skipKey st = [] \<or> \<not> SameKey ik (ms_skipKey st)"
    and "new_key env reached (st\<lparr>ms_skipKey := []\<rparr>) kr n built ik vs = r"
    and "r = Stop st1 \<or> r = Go st1 kr' n'"
  shows "decide env (ms_skipKey st1) (ms_lastKey st1) (ms_numVersions st1) ((ik, vs) # es) =
      decide env (ms_skipKey st) (ms_lastKey st) (ms_numVersions st) ((ik, vs) # es) \<and>
    ms_discardStats st1 = ms_discardStats st \<and> ms_skipKey st1 = [] \<and>
    (r = Go st1 kr' n' \<longrightarrow> SameKey ik (ms_lastKey st1))"
proof -
  have skip: "decide env (ms_skipKey st) l m ((ik, vs) # es) = decide env [] l m ((ik, vs) # es)" for l m
    using assms(1,2) by (cases "ms_skipKey st = []") auto
  have new: "decide env [] ik 0 ((ik, vs) # es) = decide env [] l m ((ik, vs) # es)" if "\<not> SameKey ik l" for l m
    using that assms(1) by simp
  show ?thesis
  proof (cases "SameKey ik (ms_lastKey st)")
    case True
    then have "r = Go (st\<lparr>ms_skipKey := []\<rparr>) kr n" using assms(3) by (simp add: new_key_def)
    then show ?thesis using assms(4) True skip by auto
  next
    case False
    note n = new [OF False, of "ms_numVersions st"]
    have st1: "(ms_lastKey st1 = ms_lastKey st \<and> ms_numVersions st1 = ms_numVersions st \<and> r = Stop st1 \<or>
        ms_lastKey st1 = ik \<and> ms_numVersions st1 = 0) \<and> ms_skipKey st1 = [] \<and> ms_discardStats st1 = ms_discardStats st"
      using assms(3,4) False unfolding new_key_def by (auto simp: Let_def split: if_splits)
    then show ?thesis unfolding skip using n by (metis SameKey_refl on_key.distinct(1))
  qed
qed

lemma add_entry_some:
  assumes "0 < vs_Meta vs AND bitValuePointer \<longrightarrow> value_pointer vs \<noteq> None"
  obtains a where "add_entry env st ik vs = Some a" "ad_key a = ik" "ad_vs a = vs"
proof -
  have "\<exists>a. add_entry env st ik vs = Some a \<and> ad_key a = ik \<and> ad_vs a = vs"
    using assms by (auto simp: add_entry_def Let_def)
  then show ?thesis using that by blast
qed

lemma pointers_ok_Cons: "pointers_ok (e # es) \<longleftrightarrow>
    (0 < vs_Meta (snd e) AND bitValuePointer \<longrightarrow> value_pointer (snd e) \<noteq> None) \<and> pointers_ok es"
  by (simp add: pointers_ok_def)

text \<open>An entry the reference drops: its bytes move from the drops to come into the statistics.\<close>

lemma drop_step:
  assumes d: "decide env (ms_skipKey st) (ms_lastKey st) (ms_numVersions st) (e # es) =
      False # decide env (ms_skipKey st1) (ms_lastKey st1) (ms_numVersions st1) es"
    and s: "ms_discardStats st1 = ms_discardStats st"
    and u: "\<And>fid. dd fid = ms_discardStats st fid + dropped_bytes env [e] fid"
  shows "to_keep env st (e # es) = to_keep env (st1\<lparr>ms_discardStats := dd\<rparr>) es \<and>
    stats_with env st (e # es) = stats_with env (st1\<lparr>ms_discardStats := dd\<rparr>) es"
proof -
  let ?st = "st1\<lparr>ms_discardStats := dd\<rparr>"
  have "to_drop env st (e # es) = e # to_drop env ?st es" by (simp add: to_drop_def d del: decide.simps)
  moreover have "to_keep env st (e # es) = to_keep env ?st es" by (simp add: to_keep_def d del: decide.simps)
  ultimately show ?thesis
    using dropped_bytes_Cons [of env e "to_drop env ?st es"] by (simp add: stats_with_def u fun_eq_iff)
qed

lemma keep_step:
  assumes d: "decide env (ms_skipKey st) (ms_lastKey st) (ms_numVersions st) (e # es) =
      True # decide env (ms_skipKey st1) (ms_lastKey st1) (ms_numVersions st1) es"
    and s: "ms_discardStats st1 = ms_discardStats st"
  shows "to_keep env st (e # es) = e # to_keep env st1 es \<and> stats_with env st (e # es) = stats_with env st1 es"
  using d s by (simp add: to_keep_def stats_with_def to_drop_def fun_eq_iff del: decide.simps)

declare add_keys.simps(2) [simp del] decide.simps(2) [simp del]

lemma add_keys_decide:
  assumes "pointers_ok es"
  shows "\<exists>st' new es'. add_keys env reached st kr n built es = Some (st', built @ new, es') \<and> suffix es' es \<and>
    to_keep env st es = written new @ to_keep env st' es' \<and> stats_with env st es = stats_with env st' es'"
  using assms
proof (induction env reached st kr n built es rule: add_keys.induct)
  case (1 env reached st kr n built)
  then show ?case by (simp add: written_def)
next
  case (2 env reached st kr n built ik vs es)
  note p = "2.prems"[unfolded pointers_ok_Cons]
  have drop_case: ?case
    if rec: "\<And>st'. updateStats env vs st1 = Some st' \<Longrightarrow> add_keys env reached st kr n built ((ik, vs) # es) =
        add_keys env reached st' kr1 n1 built es"
      and IH: "\<And>st'. updateStats env vs st1 = Some st' \<Longrightarrow> pointers_ok es \<Longrightarrow>
        \<exists>st'' new es'. add_keys env reached st' kr1 n1 built es = Some (st'', built @ new, es') \<and> suffix es' es \<and>
          to_keep env st' es = written new @ to_keep env st'' es' \<and> stats_with env st' es = stats_with env st'' es'"
      and d: "decide env (ms_skipKey st) (ms_lastKey st) (ms_numVersions st) ((ik, vs) # es) =
        False # decide env (ms_skipKey st1) (ms_lastKey st1) (ms_numVersions st1) es"
      and s: "ms_discardStats st1 = ms_discardStats st" for st1 kr1 n1
  proof -
    obtain dd where dd: "updateStats env vs st1 = Some (st1\<lparr>ms_discardStats := dd\<rparr>)"
      "\<And>fid. dd fid = ms_discardStats st1 fid + dropped_bytes env [(ik, vs)] fid"
      using updateStats_some [of vs env st1 ik] p by auto
    note step = drop_step [OF d s, of dd]
    from IH [OF dd(1)] p step dd(2) s rec [OF dd(1)] show ?thesis by (fastforce intro: suffix_ConsI)
  qed
  show ?case
  proof (cases "dropped_prefix env ik")
    case True
    then show ?thesis
      by (intro drop_case [of st kr n]) (use "2.IH"(1) [unfolded length_greater_0_conv prefix_test] True in \<open>auto simp: add_keys_Cons decide.simps(2)\<close>)
  next
    case np: False
    show ?thesis
    proof (cases "0 < length (ms_skipKey st) \<and> SameKey ik (ms_skipKey st)")
      case True
      then show ?thesis
        by (intro drop_case [of st kr n]) (use "2.IH"(2) [unfolded length_greater_0_conv prefix_test] True np in \<open>auto simp: add_keys_Cons decide.simps(2)\<close>)
    next
      case ns: False
      let ?nk = "new_key env reached (st\<lparr>ms_skipKey := []\<rparr>) kr n built ik vs"
      have ns': "ms_skipKey st = [] \<or> \<not> SameKey ik (ms_skipKey st)" using ns by auto
      show ?thesis
      proof (cases ?nk)
        case (Stop st1)
        note k = new_key_state [OF np ns' Stop, of st1 _ _ es]
        have "add_keys env reached st kr n built ((ik, vs) # es) = Some (st1, built @ [], (ik, vs) # es)"
          using np ns Stop by (auto simp: add_keys_Cons)
        moreover have "to_keep env st ((ik, vs) # es) = written [] @ to_keep env st1 ((ik, vs) # es)"
          "stats_with env st ((ik, vs) # es) = stats_with env st1 ((ik, vs) # es)"
          using k by (auto simp: to_keep_def stats_with_def to_drop_def written_def)
        ultimately show ?thesis by blast
      next
        case (Go st1 kr1 n1)
        note k = new_key_state [OF np ns' Go, of st1 kr1 n1 es]
        obtain st2 drp where r: "discard_rules env st1 ik vs = (st2, drp)" by fastforce
        have dr: "decide env (ms_skipKey st) (ms_lastKey st) (ms_numVersions st) ((ik, vs) # es) =
            (\<not> drp) # decide env (ms_skipKey st2) (ms_lastKey st2) (ms_numVersions st2) es"
          and st2: "ms_discardStats st2 = ms_discardStats st"
          using discard_rules_decide [OF r _ _ np, of es] k by auto
        show ?thesis
        proof (cases drp)
          case True
          then show ?thesis
            by (intro drop_case [of st2 kr1 n1])
              (use "2.IH"(3) [unfolded length_greater_0_conv prefix_test, OF _ _ Go r [symmetric]] Go r dr st2 np ns in \<open>auto simp: add_keys_Cons\<close>)
        next
          case False
          obtain a where a: "add_entry env st2 ik vs = Some a" "ad_key a = ik" "ad_vs a = vs"
            using add_entry_some [of vs env st2 ik] p by auto
          have eq: "add_keys env reached st kr n built ((ik, vs) # es) = add_keys env reached st2 kr1 n1 (built @ [a]) es"
            using np ns Go r False a by (auto simp: add_keys_Cons)
          have "\<exists>st'' new es'. add_keys env reached st2 kr1 n1 (built @ [a]) es = Some (st'', (built @ [a]) @ new, es') \<and> suffix es' es \<and>
              to_keep env st2 es = written new @ to_keep env st'' es' \<and> stats_with env st2 es = stats_with env st'' es'"
            using "2.IH"(4) [unfolded length_greater_0_conv prefix_test, OF _ _ Go r [symmetric] _ a(1)] np ns' False p by simp
          then obtain st'' new es' where f: "add_keys env reached st2 kr1 n1 (built @ [a]) es = Some (st'', (built @ [a]) @ new, es')"
            "suffix es' es" "to_keep env st2 es = written new @ to_keep env st'' es'"
            "stats_with env st2 es = stats_with env st'' es'" by blast
          have "to_keep env st ((ik, vs) # es) = written (a # new) @ to_keep env st'' es'"
            "stats_with env st ((ik, vs) # es) = stats_with env st'' es'"
            using keep_step [of env st "(ik, vs)" es st2] dr st2 False f(3,4) a by (auto simp: written_def)
          with f(1,2) eq show ?thesis by (intro exI [of _ st''] exI [of _ "a # new"] exI [of _ es']) (auto intro: suffix_ConsI)
        qed
      qed
    qed
  qed
qed

definition in_range :: "merge_env \<Rightarrow> entry \<Rightarrow> bool" where
  "in_range env e \<longleftrightarrow> me_right env = [] \<or> key_less (fst e) (me_right env)"

text \<open>A round with a fresh builder consumes its first entry.\<close>

lemma add_keys_progress:
  assumes "pointers_ok (e # es)" and "in_range env e" and "\<not> reached []"
    and "add_keys env reached st kr 0 [] (e # es) = Some (st', built, es')"
  shows "suffix es' es"
proof -
  obtain ik vs where e: "e = (ik, vs)" by fastforce
  have rec: "suffix es' es" if "add_keys env reached st1 kr1 n1 b1 es = Some (st', built, es')" for st1 kr1 n1 b1
    using add_keys_decide [of es env reached st1 kr1 n1 b1] assms(1) that by (auto simp: pointers_ok_def)
  have go: "\<exists>st1 kr1 n1. new_key env reached (st\<lparr>ms_skipKey := []\<rparr>) kr 0 [] ik vs = Go st1 kr1 n1"
  proof (cases "SameKey ik (ms_lastKey st)")
    case False
    have "\<not> (0 < length (me_right env) \<and> cmp_keys ik (me_right env) \<ge> 0)"
      using assms(2) by (auto simp: in_range_def e key_less_def)
    with False assms(3) show ?thesis by (simp add: new_key_def Let_def)
  qed (simp add: new_key_def)
  show ?thesis
    using assms(4) go unfolding e add_keys_Cons
    by (auto split: if_splits option.splits prod.splits bool.splits dest: rec)
qed

lemma to_keep_Nil [simp]: "to_keep env st [] = []"
  by (simp add: to_keep_def)

lemma stats_with_Nil [simp]: "stats_with env st [] = ms_discardStats st"
  by (simp add: stats_with_def to_drop_def dropped_bytes_def fun_eq_iff)

lemma written_append [simp]: "written (as @ bs) = written as @ written bs"
  by (simp add: written_def)

lemma build_tables_decide:
  assumes "pointers_ok es" and "\<forall>e \<in> set es. in_range env e" and "\<not> reached []" and "length es < n"
  shows "\<exists>st' new. build_tables n env reached st tables es = Some (st', tables @ new) \<and>
    written (concat new) = to_keep env st es \<and> ms_discardStats st' = stats_with env st es \<and> [] \<notin> set new"
  using assms(1,2,4)
proof (induction n arbitrary: st tables es)
  case (Suc n)
  show ?case
  proof (cases es)
    case Nil
    then show ?thesis by (simp add: written_def)
  next
    case (Cons e fs)
    obtain ik vs where e: "e = (ik, vs)" by fastforce
    obtain st1 new1 es' where a: "add_keys env reached st empty_range 0 [] es = Some (st1, new1, es')" "suffix es' es"
      "to_keep env st es = written new1 @ to_keep env st1 es'" "stats_with env st es = stats_with env st1 es'"
      using add_keys_decide [OF Suc.prems(1), of env reached st empty_range 0 "[]"] by auto
    have "suffix es' fs"
      using add_keys_progress [of e fs env reached st empty_range st1 new1 es'] Suc.prems assms(3) a(1) Cons by auto
    then have len: "length es' < n" using Suc.prems(3) Cons by (auto dest: suffix_length_le)
    have sub: "pointers_ok es'" "\<forall>e \<in> set es'. in_range env e"
      using Suc.prems a(2) by (auto simp: pointers_ok_def suffix_def)
    let ?t = "if new1 = [] then tables else tables @ [new1]"
    obtain st2 new2 where b: "build_tables n env reached st1 ?t es' = Some (st2, ?t @ new2)"
      "written (concat new2) = to_keep env st1 es'" "ms_discardStats st2 = stats_with env st1 es'" "[] \<notin> set new2"
      using Suc.IH [OF sub len, of st1 ?t] by blast
    have "\<not> (0 < length (me_right env) \<and> cmp_keys ik (me_right env) \<ge> 0)"
      using Suc.prems(2) Cons by (auto simp: in_range_def e key_less_def)
    then have "build_tables (Suc n) env reached st tables es = Some (st2, ?t @ new2)"
      using a(1) b(1) Cons e by auto
    then show ?thesis
    proof (cases "new1 = []")
      case True
      then show ?thesis using \<open>build_tables (Suc n) env reached st tables es = Some (st2, ?t @ new2)\<close> a b
        by (intro exI [of _ st2] exI [of _ new2]) (auto simp: written_def)
    next
      case False
      then show ?thesis using \<open>build_tables (Suc n) env reached st tables es = Some (st2, ?t @ new2)\<close> a b
        by (intro exI [of _ st2] exI [of _ "new1 # new2"]) auto
    qed
  qed
qed simp

lemma subcompact_survivors:
  assumes "pointers_ok es" and "\<forall>e \<in> set es. in_range env e" and "\<not> reached []"
  shows "\<exists>tables. subcompact env reached [] es = Some (dropped_bytes env (discarded env es), tables) \<and>
    written (concat tables) = survivors env es \<and> [] \<notin> set tables"
proof -
  obtain st' new where b: "build_tables (length es + 1) env reached merge_start [] es = Some (st', new)"
    "written (concat new) = to_keep env merge_start es" "ms_discardStats st' = stats_with env merge_start es" "[] \<notin> set new"
    using build_tables_decide [where env = env and es = es and reached = reached and n = "length es + 1"
        and st = merge_start and tables = "[]"] assms by auto
  have "stats_with env merge_start es = dropped_bytes env (discarded env es)"
    by (simp add: stats_with_def to_drop_def discarded_def merge_start_def fun_eq_iff)
  with b show ?thesis by (simp add: subcompact_def to_keep_def survivors_def merge_start_def)
qed

section \<open>Reads above the discard timestamp\<close>

definition visible :: "nat \<Rightarrow> version \<Rightarrow> version" where
  "visible now a = (case a of None \<Rightarrow> None
     | Some (w, v) \<Rightarrow> if isDeletedOrExpired now (vs_Meta v) (vs_ExpiresAt v) then None else Some (w, v))"

lemma visible_None [simp]: "visible now None = None"
  by (simp add: visible_def)

definition entries_ok :: "entry list \<Rightarrow> bool" where
  "entries_ok es \<longleftrightarrow> sorted_wrt key_less (map fst es) \<and> (\<forall>e \<in> set es. stored_key (fst e))"

lemma entries_ok_Cons: "entries_ok (e # es) \<longleftrightarrow> stored_key (fst e) \<and> entries_ok es \<and> (\<forall>f \<in> set es. key_less (fst e) (fst f))"
  by (auto simp: entries_ok_def)

lemma entries_ok_user: "entries_ok (e # es) \<Longrightarrow> f \<in> set es \<Longrightarrow>
    parse_key (fst e) < parse_key (fst f) \<or> parse_key (fst e) = parse_key (fst f) \<and> ParseTs (fst f) < ParseTs (fst e)"
  using key_less_stored [of "fst e" "fst f"] by (auto simp: entries_ok_def stored_key_def)

text \<open>The first match in sorted entries is the newest.\<close>

lemma newest_head:
  assumes "entries_ok ((ik, v) # es)" and "matches k ts ik"
  shows "newest ((ik, v) # es) k ts = Some (ParseTs ik, v)"
proof (cases "newest es k ts")
  case (Some p)
  then obtain jk where "(jk, snd p) \<in> set es" "matches k ts jk" "ParseTs jk = fst p"
    using newest_Some [of es k ts "fst p" "snd p"] by auto
  then have "fst p < ParseTs ik"
    using entries_ok_user [OF assms(1), of "(jk, snd p)"] assms(2) by (auto simp: matches_def)
  then show ?thesis using Some assms(2) by (cases p) auto
qed (use assms in simp)

lemma entries_ok_chosen: "entries_ok es \<Longrightarrow> entries_ok (chosen_by bs es)"
proof (induction es arbitrary: bs)
  case (Cons e es)
  show ?case
  proof (cases bs)
    case (Cons b bs')
    have e: "stored_key (fst e)" "entries_ok es" "\<forall>f \<in> set es. key_less (fst e) (fst f)"
      using Cons.prems by (simp_all add: entries_ok_Cons)
    have "entries_ok (chosen_by bs' es)" using Cons.IH e(2) .
    moreover have "\<forall>f \<in> set (chosen_by bs' es). key_less (fst e) (fst f)"
      using e(3) chosen_by_subset by blast
    ultimately show ?thesis unfolding Cons chosen_by_simps using e(1) by (simp add: entries_ok_Cons)
  qed (simp add: entries_ok_def)
qed (simp add: entries_ok_def)

lemma newest_none_if: "(\<And>e. e \<in> set es \<Longrightarrow> parse_key (fst e) \<noteq> k) \<Longrightarrow> newest es k ts = None"
  by (auto simp: newest_None matches_def)

lemma same_user: "stored_key a \<Longrightarrow> stored_key b \<Longrightarrow> SameKey a b \<longleftrightarrow> parse_key a = parse_key b"
  using SameKey_iff by blast

text \<open>While a key is skipped, none of its versions survives.\<close>

lemma decide_skipped:
  "entries_ok es \<Longrightarrow> stored_key skip \<Longrightarrow> parse_key skip = k \<Longrightarrow> (\<forall>e \<in> set es. k \<le> parse_key (fst e)) \<Longrightarrow>
    newest (chosen_by (decide env skip lst n es) es) k ts = None"
proof (induction es arbitrary: lst n)
  case (Cons e es)
  have ok: "entries_ok es" "stored_key (fst e)" using Cons.prems by (auto simp: entries_ok_Cons)
  show ?case
  proof (cases "parse_key (fst e) = k")
    case True
    then have "SameKey (fst e) skip" using same_user [OF ok(2) Cons.prems(2)] Cons.prems(3) by simp
    moreover have "skip \<noteq> []" using Cons.prems(2) by (auto simp: stored_key_def)
    ultimately show ?thesis using Cons ok by (simp add: decide.simps(2))
  next
    case False
    with Cons.prems(4) have "k < parse_key (fst e)" by (auto simp: order_le_less)
    then have "k < parse_key (fst f)" if "f \<in> set (e # es)" for f
      using entries_ok_user [OF Cons.prems(1), of f] that by auto
    then have "\<forall>f \<in> set (chosen_by (decide env skip lst n (e # es)) (e # es)). k < parse_key (fst f)"
      using chosen_by_subset by blast
    then show ?thesis by (intro newest_none_if) auto
  qed
qed simp

text \<open>A step of the reference: the key to skip stays, is cleared or is the entry's.\<close>

lemma decide_Cons:
  fixes lst :: bytes and n :: int
  assumes "\<not> dropped_prefix env (fst e)" and "\<not> (skip \<noteq> [] \<and> SameKey (fst e) skip)"
  defines "m \<equiv> if SameKey (fst e) lst then n else 0" and "l \<equiv> if SameKey (fst e) lst then lst else fst e"
  shows "decide env skip lst n (e # es) = (if \<not> prunable env e then True # decide env [] l m es
       else if expired env (snd e) \<or> last_valid env (snd e) (m + 1) then
         (\<not> expired env (snd e) \<and> last_valid env (snd e) (m + 1) \<or> me_hasOverlap env)
           # decide env (fst e) l (m + 1) es
       else True # decide env [] l (m + 1) es)"
  using assms(1,2) unfolding decide.simps(2) m_def l_def Let_def by (simp only: if_False)

lemma decide_next: "\<exists>b skip' lst' n'. decide env skip lst n (e # es) = b # decide env skip' lst' n' es \<and>
    (skip' = skip \<or> skip' = [] \<or> skip' = fst e)"
proof (cases "dropped_prefix env (fst e) \<or> skip \<noteq> [] \<and> SameKey (fst e) skip")
  case True
  then show ?thesis by (auto simp: decide.simps(2))
next
  case no: False
  then have n: "\<not> dropped_prefix env (fst e)" "\<not> (skip \<noteq> [] \<and> SameKey (fst e) skip)" by auto
  note d = decide_Cons [OF n, of lst n es]
  consider "\<not> prunable env e" | "prunable env e" "expired env (snd e) \<or> last_valid env (snd e) ((if SameKey (fst e) lst then n else 0) + 1)"
    | "prunable env e" "\<not> (expired env (snd e) \<or> last_valid env (snd e) ((if SameKey (fst e) lst then n else 0) + 1))"
    by blast
  then show ?thesis
  proof cases
    case 1
    then show ?thesis unfolding d if_P [OF 1] by blast
  next
    case 2
    then show ?thesis unfolding d using 2 by (simp only: simp_thms if_True if_False) blast
  next
    case 3
    then show ?thesis unfolding d using 3 by (simp only: simp_thms if_True if_False) blast
  qed
qed

text \<open>
  The newest version at a timestamp that is not below the discard timestamp survives, or it
  is a deletion that nothing older survives it.
\<close>

definition kept_or_gone :: "merge_env \<Rightarrow> version \<Rightarrow> version \<Rightarrow> bool" where
  "kept_or_gone env new old \<longleftrightarrow> new = old \<or> new = None \<and> \<not> me_hasOverlap env \<and> (\<exists>w v. old = Some (w, v) \<and> expired env v)"

lemma decide_newest:
  assumes "entries_ok es" and "skip = [] \<or> stored_key skip \<and> parse_key skip \<noteq> k" and "me_discardTs env \<le> ts"
    and "\<forall>e \<in> set es. parse_key (fst e) = k \<longrightarrow> \<not> dropped_prefix env (fst e)"
  shows "kept_or_gone env (newest (chosen_by (decide env skip lst n es) es) k ts) (newest es k ts)"
  using assms(1,2,4)
proof (induction es arbitrary: skip lst n)
  case (Cons e es)
  obtain ik v where e: "e = (ik, v)" by fastforce
  have ok: "entries_ok es" "stored_key ik" using Cons.prems(1) by (auto simp: e entries_ok_Cons)
  have np: "\<forall>e \<in> set es. parse_key (fst e) = k \<longrightarrow> \<not> dropped_prefix env (fst e)" using Cons.prems(3) by simp
  note IH = Cons.IH [OF ok(1) _ np]
  show ?case
  proof (cases "parse_key ik = k")
    case False
    then have "\<not> matches k ts ik" by (simp add: matches_def)
    moreover obtain b skip' lst' n' where dn: "decide env skip lst n (e # es) = b # decide env skip' lst' n' es"
      "skip' = skip \<or> skip' = [] \<or> skip' = fst e"
      using decide_next by blast
    moreover have "skip' = [] \<or> stored_key skip' \<and> parse_key skip' \<noteq> k"
      using dn(2) Cons.prems(2) False ok(2) by (auto simp: e)
    ultimately show ?thesis using IH [of skip' lst' n'] by (simp add: e)
  next
    case True
    have ns: "\<not> (skip \<noteq> [] \<and> SameKey ik skip)" using Cons.prems(2) True same_user [OF ok(2), of skip] by auto
    have nd: "\<not> dropped_prefix env ik" using Cons.prems(3) True by (simp add: e)
    define m where "m = (if SameKey ik lst then n else 0)"
    define l where "l = (if SameKey ik lst then lst else ik)"
    have d: "decide env skip lst n (e # es) = (if \<not> prunable env e then True # decide env [] l m es
         else if expired env v \<or> last_valid env v (m + 1) then
           (\<not> expired env v \<and> last_valid env v (m + 1) \<or> me_hasOverlap env) # decide env ik l (m + 1) es
         else True # decide env [] l (m + 1) es)"
      using decide_Cons [of env e skip lst n es] nd ns unfolding m_def l_def e fst_conv snd_conv by blast
    have keep: ?thesis if "decide env skip lst n (e # es) = True # decide env [] l m' es" for m'
    proof (cases "matches k ts ik")
      case m: True
      have "entries_ok ((ik, v) # chosen_by (decide env [] l m' es) es)"
        using entries_ok_chosen [OF Cons.prems(1), of "True # decide env [] l m' es"] by (simp add: e)
      then show ?thesis using newest_head [OF _ m] Cons.prems(1) that by (simp add: e kept_or_gone_def)
    next
      case False
      then show ?thesis using IH [of "[]" l m'] that by (simp add: e)
    qed
    show ?thesis
    proof (cases "prunable env e \<and> (expired env v \<or> last_valid env v (m + 1))")
      case True
      then have mt: "matches k ts ik" using \<open>parse_key ik = k\<close> assms(3) by (auto simp: matches_def prunable_def e)
      let ?b = "\<not> expired env v \<and> last_valid env v (m + 1) \<or> me_hasOverlap env"
      have d: "decide env skip lst n (e # es) = ?b # decide env ik l (m + 1) es"
        unfolding d using True by simp
      have "\<forall>f \<in> set es. k \<le> parse_key (fst f)"
      proof
        fix f
        assume "f \<in> set es"
        then show "k \<le> parse_key (fst f)"
          using entries_ok_user [OF Cons.prems(1), of f] \<open>parse_key ik = k\<close> by (auto simp: e)
      qed
      then have gone: "newest (chosen_by (decide env ik l (m + 1) es) es) k ts = None"
        by (rule decide_skipped [OF ok(1,2) \<open>parse_key ik = k\<close>])
      have old: "newest (e # es) k ts = Some (ParseTs ik, v)"
        using newest_head [of ik v es k ts] Cons.prems(1) mt unfolding e by blast
      have new: "newest (chosen_by (decide env skip lst n (e # es)) (e # es)) k ts = (if ?b then Some (ParseTs ik, v) else None)"
        unfolding d chosen_by_simps using gone mt by (cases ?b) (simp_all add: e)
      show ?thesis
      proof (cases ?b)
        case True
        with new old show ?thesis by (simp add: kept_or_gone_def)
      next
        case False
        then have "expired env v" using True by blast
        with False new old show ?thesis by (simp add: kept_or_gone_def)
      qed
    next
      case False
      then show ?thesis
        using keep d by (cases "prunable env e") auto
    qed
  qed
qed (simp add: kept_or_gone_def)

lemma survivors_newest:
  assumes "entries_ok es" and "me_discardTs env \<le> ts"
    and "\<forall>e \<in> set es. parse_key (fst e) = k \<longrightarrow> \<not> dropped_prefix env (fst e)"
  shows "kept_or_gone env (newest (survivors env es) k ts) (newest es k ts)"
  unfolding survivors_def using assms by (intro decide_newest) auto

lemma visible_kept_or_gone:
  assumes "kept_or_gone env new old" and "visible (me_now env) (newer r1 (newer old r2)) = visible (me_now env) (newer r1 r2) \<or> new = old"
  shows "visible (me_now env) (newer r1 (newer new r2)) = visible (me_now env) (newer r1 (newer old r2))"
  using assms by (auto simp: kept_or_gone_def)

lemma reads_around:
  assumes ok: "entries_ok es" and ts: "me_discardTs env \<le> ts"
    and np: "\<forall>e \<in> set es. parse_key (fst e) = k \<longrightarrow> \<not> dropped_prefix env (fst e)"
    and older: "me_hasOverlap env \<or> (\<forall>r \<in> set (R1 @ R2). \<forall>e \<in> set es. parse_key (fst r) = k \<longrightarrow>
      parse_key (fst e) = k \<longrightarrow> ParseTs (fst e) < ParseTs (fst r) \<or> r = e)"
  shows "visible (me_now env) (newest (R1 @ survivors env es @ R2) k ts) =
    visible (me_now env) (newest (R1 @ es @ R2) k ts)"
proof -
  let ?r1 = "newest R1 k ts" and ?r2 = "newest R2 k ts" and ?o = "newest es k ts" and ?n = "newest (survivors env es) k ts"
  have kg: "kept_or_gone env ?n ?o" by (rule survivors_newest [OF ok ts np])
  have "visible (me_now env) (newer ?r1 (newer ?o ?r2)) = visible (me_now env) (newer ?r1 ?r2) \<or> ?n = ?o"
  proof (cases "?n = ?o")
    case False
    then obtain w v where o: "?o = Some (w, v)" and x: "expired env v" and nov: "\<not> me_hasOverlap env"
      using kg by (auto simp: kept_or_gone_def)
    obtain ik where ik: "(ik, v) \<in> set es" "matches k ts ik" "ParseTs ik = w" using newest_Some [OF o] by auto
    have lt: "w < fst p \<or> p = (w, v)" if Rp: "newest R k ts = Some p" and sub: "set R \<subseteq> set (R1 @ R2)" for R p
    proof -
      obtain jk where jk: "(jk, snd p) \<in> set R" "matches k ts jk" "ParseTs jk = fst p"
        using newest_Some [of R k ts "fst p" "snd p"] Rp by auto
      have "(jk, snd p) \<in> set (R1 @ R2)" using jk(1) sub by blast
      moreover have "parse_key jk = k" "parse_key ik = k" using jk(2) ik(2) by (auto simp: matches_def)
      ultimately have "ParseTs ik < ParseTs jk \<or> (jk, snd p) = (ik, v)"
        using older nov ik(1) by (metis fst_conv)
      then show ?thesis using ik jk by (cases p) auto
    qed
    have gone: "visible (me_now env) (Some (w, v)) = None" using x by (simp add: visible_def expired_def)
    moreover have "?r1 = Some p \<Longrightarrow> w < fst p \<or> p = (w, v)" "?r2 = Some p \<Longrightarrow> w < fst p \<or> p = (w, v)" for p
      using lt [of R1 p] lt [of R2 p] by auto
    ultimately show ?thesis unfolding o by (cases ?r1; cases ?r2) (auto simp: not_less)
  qed simp
  from visible_kept_or_gone [OF kg this] show ?thesis by (simp add: newest_append)
qed

section \<open>One table per user key\<close>

definition users_le :: "entry list \<Rightarrow> bool" where
  "users_le es \<longleftrightarrow> sorted_wrt (\<lambda>a b. parse_key (fst a) \<le> parse_key (fst b)) es"

lemma users_le_ok: "entries_ok es \<Longrightarrow> users_le es"
proof (induction es)
  case (Cons e es)
  have "parse_key (fst e) \<le> parse_key (fst f)" if "f \<in> set es" for f
    using entries_ok_user [OF Cons.prems that] by auto
  with Cons show ?case by (auto simp: users_le_def entries_ok_Cons)
qed (simp add: users_le_def)

text \<open>What a builder holds when it is closed lies before the next entry's user key.\<close>

definition behind_last :: "merge_state \<Rightarrow> added list \<Rightarrow> entry list \<Rightarrow> bool" where
  "behind_last st built es \<longleftrightarrow> (built \<noteq> [] \<longrightarrow> key_ok (ms_lastKey st)) \<and>
     (\<forall>a \<in> set built. parse_key (ad_key a) \<le> parse_key (ms_lastKey st)) \<and>
     (\<forall>e \<in> set es. parse_key (ms_lastKey st) \<le> parse_key (fst e))"

lemma new_key_lastKey:
  assumes "new_key env reached st kr n built ik vs = r"
  shows "(r = Go st1 kr' n' \<longrightarrow> (SameKey ik (ms_lastKey st) \<and> ms_lastKey st1 = ms_lastKey st \<or> ms_lastKey st1 = ik)) \<and>
    (r = Stop st1 \<longrightarrow> \<not> SameKey ik (ms_lastKey st) \<and> (ms_lastKey st1 = ms_lastKey st \<or> ms_lastKey st1 = ik))"
  using assms unfolding new_key_def by (auto simp: Let_def split: if_splits)

lemma discard_rules_lastKey: "discard_rules env st ik vs = (st2, b) \<Longrightarrow> ms_lastKey st2 = ms_lastKey st"
  unfolding discard_rules_eq by (auto split: if_splits)

lemma updateStats_lastKey: "updateStats env vs st = Some st2 \<Longrightarrow> ms_lastKey st2 = ms_lastKey st"
  unfolding updateStats_def by (auto split: if_splits option.splits)

lemma add_entry_key: "add_entry env st ik vs = Some a \<Longrightarrow> ad_key a = ik"
  unfolding add_entry_def by (auto simp: Let_def split: if_splits)

lemma behind_last_tl: "behind_last st built (e # es) \<Longrightarrow> ms_lastKey st' = ms_lastKey st \<Longrightarrow> behind_last st' built es"
  by (simp add: behind_last_def)

lemma add_keys_apart:
  assumes "add_keys env reached st kr n built es = Some (st', built', es')" and "users_le es"
    and "\<forall>e \<in> set es. key_ok (fst e)" and "behind_last st built es"
  shows "(\<forall>a \<in> set built'. \<forall>e \<in> set es'. parse_key (ad_key a) < parse_key (fst e)) \<and>
    (\<forall>e \<in> set es'. parse_key (ms_lastKey st') \<le> parse_key (fst e))"
  using assms
proof (induction env reached st kr n built es rule: add_keys.induct)
  case (2 env reached st kr n built ik vs es)
  have tl: "users_le es" "\<forall>e \<in> set es. key_ok (fst e)" "key_ok ik"
    "\<forall>e \<in> set es. parse_key ik \<le> parse_key (fst e)"
    using "2.prems"(2,3) by (auto simp: users_le_def)
  note IH = "2.IH" [unfolded length_greater_0_conv prefix_test]
  show ?case
  proof (cases "dropped_prefix env ik \<or> ms_skipKey st \<noteq> [] \<and> SameKey ik (ms_skipKey st)")
    case True
    then obtain st1 where st1: "updateStats env vs st = Some st1"
      "add_keys env reached st1 kr n built es = Some (st', built', es')"
      using "2.prems"(1) unfolding add_keys_Cons by (auto split: option.splits)
    have "behind_last st1 built es" using behind_last_tl "2.prems"(4) updateStats_lastKey [OF st1(1)] by blast
    with IH(1,2) True st1 tl show ?thesis by blast
  next
    case no: False
    let ?nk = "new_key env reached (st\<lparr>ms_skipKey := []\<rparr>) kr n built ik vs"
    show ?thesis
    proof (cases ?nk)
      case (Stop st1)
      then have r: "built' = built" "es' = (ik, vs) # es" "st' = st1" using "2.prems"(1) no unfolding add_keys_Cons by auto
      have "\<not> SameKey ik (ms_lastKey st)" using new_key_lastKey [OF Stop, of st1] by simp
      then have "parse_key (ms_lastKey st) \<noteq> parse_key ik" if "built \<noteq> []"
        using SameKey_iff tl(3) "2.prems"(4) that unfolding behind_last_def by metis
      moreover have "parse_key (ms_lastKey st) \<le> parse_key ik" using "2.prems"(4) by (simp add: behind_last_def)
      ultimately have "parse_key (ad_key a) < parse_key ik" if "a \<in> set built" for a
        using "2.prems"(4) that unfolding behind_last_def by (metis empty_iff le_less_trans list.set(1) order_le_neq_trans)
      moreover have "parse_key (ms_lastKey st1) \<le> parse_key ik"
        using new_key_lastKey [OF Stop, of st1] \<open>parse_key (ms_lastKey st) \<le> parse_key ik\<close> by auto
      ultimately show ?thesis using tl(4) unfolding r by (auto intro: less_le_trans order_trans)
    next
      case (Go st1 kr1 n1)
      obtain st2 b where d: "discard_rules env st1 ik vs = (st2, b)" by fastforce
      have last: "ms_lastKey st2 = ms_lastKey st \<and> parse_key ik = parse_key (ms_lastKey st) \<or> ms_lastKey st2 = ik"
        using new_key_lastKey [OF Go, of st1 kr1 n1] discard_rules_lastKey [OF d] by (auto simp: SameKey_def)
      have lk: "parse_key (ms_lastKey st) \<le> parse_key ik" using "2.prems"(4) by (simp add: behind_last_def)
      have b2: "behind_last st2 built es"
        using last lk tl "2.prems"(4) unfolding behind_last_def by (auto intro: order_trans)
      have ok2: "key_ok (ms_lastKey st2)"
        using new_key_lastKey [OF Go, of st1 kr1 n1] discard_rules_lastKey [OF d] tl(3)
        by (auto simp: SameKey_def key_ok_def)
      show ?thesis
      proof (cases b)
        case True
        then obtain st3 where st3: "updateStats env vs st2 = Some st3"
          "add_keys env reached st3 kr1 n1 built es = Some (st', built', es')"
          using "2.prems"(1) no Go d unfolding add_keys_Cons by (auto split: option.splits)
        have "behind_last st3 built es" using b2 updateStats_lastKey [OF st3(1)] by (simp add: behind_last_def)
        with IH(3) [OF _ _ Go d [symmetric] _ st3(1) st3(2)] no True tl show ?thesis by blast
      next
        case False
        then obtain a where a: "add_entry env st2 ik vs = Some a"
          "add_keys env reached st2 kr1 n1 (built @ [a]) es = Some (st', built', es')"
          using "2.prems"(1) no Go d unfolding add_keys_Cons by (auto split: option.splits)
        have "behind_last st2 (built @ [a]) es"
          using b2 ok2 last add_entry_key [OF a(1)] by (auto simp: behind_last_def)
        with IH(4) [OF _ _ Go d [symmetric] _ a(1) a(2)] no False tl show ?thesis by blast
      qed
    qed
  qed
qed simp

definition tables_apart :: "added list list \<Rightarrow> bool" where
  "tables_apart ts \<longleftrightarrow> sorted_wrt (\<lambda>t u. \<forall>a \<in> set t. \<forall>b \<in> set u. parse_key (ad_key a) < parse_key (ad_key b)) ts"

lemma to_keep_subset: "set (to_keep env st es) \<subseteq> set es"
  by (simp add: to_keep_def chosen_by_subset)

lemma build_tables_apart:
  assumes "pointers_ok es" and "\<forall>e \<in> set es. in_range env e" and "\<not> reached []" and "length es < n"
    and "users_le es" and "\<forall>e \<in> set es. key_ok (fst e)"
    and "\<forall>e \<in> set es. parse_key (ms_lastKey st) \<le> parse_key (fst e)"
    and "build_tables n env reached st tables es = Some (st', tables @ new)"
  shows "tables_apart new"
  using assms(1,2,4-)
proof (induction n arbitrary: st tables es new)
  case (Suc n)
  show ?case
  proof (cases es)
    case Nil
    then show ?thesis using Suc.prems by (simp add: tables_apart_def)
  next
    case (Cons e fs)
    obtain ik vs where e: "e = (ik, vs)" by fastforce
    obtain st1 new1 es' where a: "add_keys env reached st empty_range 0 [] es = Some (st1, new1, es')" "suffix es' es"
      using add_keys_decide [OF Suc.prems(1), of env reached st empty_range 0 "[]"] by auto
    have "suffix es' fs"
      using add_keys_progress [of e fs env reached st empty_range st1 new1 es'] Suc.prems assms(3) a(1) Cons by auto
    then have len: "length es' < n" using Suc.prems(3) Cons by (auto dest: suffix_length_le)
    have sub: "pointers_ok es'" "\<forall>e \<in> set es'. in_range env e" "users_le es'" "\<forall>e \<in> set es'. key_ok (fst e)"
      using Suc.prems a(2) by (auto simp: pointers_ok_def users_le_def sorted_wrt_append suffix_def)
    have ap: "(\<forall>a \<in> set new1. \<forall>e \<in> set es'. parse_key (ad_key a) < parse_key (fst e)) \<and>
        (\<forall>e \<in> set es'. parse_key (ms_lastKey st1) \<le> parse_key (fst e))"
      using add_keys_apart [OF a(1) Suc.prems(4,5)] Suc.prems(6) by (simp add: behind_last_def)
    then have lst: "\<forall>e \<in> set es'. parse_key (ms_lastKey st1) \<le> parse_key (fst e)" ..
    let ?t = "if new1 = [] then tables else tables @ [new1]"
    have "\<not> (0 < length (me_right env) \<and> cmp_keys ik (me_right env) \<ge> 0)"
      using Suc.prems(2) Cons by (auto simp: in_range_def e key_less_def)
    then have b: "build_tables n env reached st1 ?t es' = Some (st', tables @ new)"
      using a(1) Suc.prems(7) Cons e by (auto split: if_splits)
    obtain st2 new2 where b2: "build_tables n env reached st1 ?t es' = Some (st2, ?t @ new2)"
      "written (concat new2) = to_keep env st1 es'"
      using build_tables_decide [where n = n and es = es' and env = env and reached = reached and st = st1 and tables = ?t]
        sub len assms(3) by blast
    have IH: "tables_apart new2"
      using Suc.IH [OF sub(1,2) len sub(3,4) lst, of ?t new2] b b2(1) by simp
    have new: "new = (if new1 = [] then new2 else new1 # new2)" using b b2(1) by (auto split: if_splits)
    have "\<exists>e \<in> set es'. fst e = ad_key c" if "c \<in> set (concat new2)" for c
    proof -
      have "(ad_key c, ad_vs c) \<in> set (written (concat new2))" using that unfolding written_def by (simp del: set_concat)
      then show ?thesis using to_keep_subset [of env st1 es'] b2(2) by force
    qed
    then have "\<forall>a \<in> set new1. \<forall>u \<in> set new2. \<forall>b \<in> set u. parse_key (ad_key a) < parse_key (ad_key b)"
      using ap by (metis UN_I set_concat)
    with IH new show ?thesis by (simp add: tables_apart_def)
  qed
qed simp

section \<open>What the overlap check rules out\<close>

text \<open>Levels without the keys of a range do not change what a read of these keys finds.\<close>

lemma user_in_range:
  assumes "t \<in> set ts" and "built_table t" and "e \<in> set (t_data t)" and "key_ok k" and "parse_key k = parse_key (fst e)"
  shows "k \<in> kr_keys (getKeyRange ts)"
proof -
  have b: "key_le (t_Smallest t) (fst e)" "key_le (fst e) (t_Biggest t)" using built_bounds [OF assms(2,3)] by auto
  show ?thesis
    using getKeyRange_covers [OF assms(1,4)] key_le_parse [OF b(1)] key_le_parse [OF b(2)] assms(5) by simp
qed

lemma any_overlaps_none:
  assumes "\<not> any_overlaps lh (getKeyRange ts)" and "\<forall>t \<in> set ts \<union> set (lh_tables lh). built_table t"
    and "t \<in> set ts" and "e \<in> set (t_data t)" and "u \<in> set (lh_tables lh)" and "f \<in> set (t_data u)"
  shows "parse_key (fst e) \<noteq> parse_key (fst f)"
proof
  assume same: "parse_key (fst e) = parse_key (fst f)"
  have bt: "built_table t" "built_table u" using assms by auto
  have "key_ok (fst e)" using bt(1) assms(4) built_entries by blast
  then have "fst e \<in> kr_keys (getKeyRange ts)" "fst e \<in> kr_keys (getKeyRange [u])"
    using user_in_range [OF assms(3) bt(1) assms(4)] user_in_range [OF _ bt(2) assms(6), of "[u]" "fst e"] same by auto
  moreover have "kr_wf (getKeyRange ts)" "kr_wf (getKeyRange [u])"
    using assms(2,3) bt by (auto intro!: getKeyRange_wf simp: built_table_def)
  ultimately have "kr_overlapsWith (getKeyRange [u]) (getKeyRange ts)" using kr_overlapsWith_keys by blast
  then show False using assms(1,5) by (auto simp: any_overlaps_def list_ex_iff)
qed

lemma level_overlaps_none:
  assumes "\<not> level_overlaps lh (getKeyRange ts)" and "level_wf lh" and "\<not> unsorted lh" and "\<forall>t \<in> set ts. built_table t"
    and "t \<in> set ts" and "e \<in> set (t_data t)" and "u \<in> set (lh_tables lh)" and "f \<in> set (t_data u)"
  shows "parse_key (fst e) \<noteq> parse_key (fst f)"
proof
  let ?kr = "getKeyRange ts"
  assume same: "parse_key (fst e) = parse_key (fst f)"
  have bt: "built_table t" "built_table u" using assms by (auto simp: level_wf_def)
  have "key_ok (fst f)" using bt(2) assms(8) built_entries by blast
  then have k: "fst f \<in> kr_keys ?kr"
    using user_in_range [OF assms(5) bt(1) assms(6)] same by auto
  obtain t0 ts0 where ts: "ts = t0 # ts0" using assms(5) by (cases ts) auto
  then have inf: "\<not> kr_inf ?kr" "kr_left ?kr \<noteq> []" "kr_right ?kr \<noteq> []"
    by (auto simp: getKeyRange_def Let_def simp flip: length_greater_0_conv)
  then have kb: "key_le (kr_left ?kr) (fst f)" "key_le (fst f) (kr_right ?kr)"
    using k by (auto simp: kr_keys_def kr_isEmpty_def)
  have fb: "key_le (t_Smallest u) (fst f)" "key_le (fst f) (t_Biggest u)" using built_bounds [OF bt(2) assms(8)] by auto
  obtain i where i: "i < length (lh_tables lh)" "u = lh_tables lh ! i" using assms(7) by (auto simp: in_set_conv_nth)
  have "fst (overlappingTables lh ?kr) \<le> i" "i < snd (overlappingTables lh ?kr)"
    using overlappingTables_iff [OF assms(2,3) inf(2,3) i(1)] kb fb i(2) key_le_trans by blast+
  then show False using assms(1) by (auto simp: level_overlaps_def split: prod.splits)
qed

text \<open>
  \<open>checkOverlap\<close> looks at the levels below the next one (all of them for a compaction of the
  hot tiers) and, for a compaction of a level above the base level, at the hot tiers.
\<close>

lemma checkOverlap_none:
  assumes "\<not> checkOverlap lc ts lev cur base" and "lc_wf lc" and "\<forall>i < length (lc_levels lc). lh_level (lc_levels lc ! i) = i"
    and "length (lc_levels lc) \<le> 98" and "\<forall>t \<in> set ts. built_table t" and "t \<in> set ts" and "e \<in> set (t_data t)"
    and i: "i < length (lc_levels lc)" "\<not> (cur < 98 \<and> i < lev)" and f: "f \<in> set (level_entries (lc_levels lc ! i))"
  shows "parse_key (fst e) \<noteq> parse_key (fst f)"
proof -
  let ?h = "lc_levels lc ! i"
  have wf: "level_wf ?h" using assms(2) i(1) by (auto simp: lc_wf_def handlers_def)
  obtain u where u: "u \<in> set (lh_tables ?h)" "f \<in> set (t_data u)" using f by (auto simp: set_level_entries)
  have "\<not> (if i \<noteq> 0 then level_overlaps ?h (getKeyRange ts) else any_overlaps ?h (getKeyRange ts))"
  proof
    assume "if i \<noteq> 0 then level_overlaps ?h (getKeyRange ts) else any_overlaps ?h (getKeyRange ts)"
    moreover have "i \<in> set [0..<length (lc_levels lc)]" using i(1) by simp
    ultimately have "checkOverlap lc ts lev cur base"
      unfolding checkOverlap_def Let_def list_ex_iff using i(2) by blast
    then show False using assms(1) by simp
  qed
  moreover have "i \<noteq> 0 \<Longrightarrow> \<not> unsorted ?h" using assms(3,4) i(1) by (auto simp: unsorted_def)
  ultimately show ?thesis
    using level_overlaps_none [OF _ wf _ assms(5-7) u] any_overlaps_none [OF _ _ assms(6,7) u] assms(5) wf
    by (cases "i = 0") (auto simp: level_wf_def)
qed

text \<open>The levels a check for a compaction from one level into the level before \<open>lev\<close> looks at.\<close>

definition checked_level :: "nat \<Rightarrow> nat \<Rightarrow> nat \<Rightarrow> nat \<Rightarrow> bool" where
  "checked_level lev cur base l \<longleftrightarrow> (if l = 98 \<or> l = 99 then cur < base else 98 \<le> cur \<or> lev \<le> l)"

lemma checkOverlap_handler:
  assumes n: "\<not> checkOverlap lc ts lev cur base" and wf: "lc_wf lc" and home: "\<forall>l h. handler_at lc l = Some h \<longrightarrow> lh_level h = l"
    and len: "length (lc_levels lc) \<le> 98" and bt: "\<forall>t \<in> set ts. built_table t" and t: "t \<in> set ts" "e \<in> set (t_data t)"
    and l: "checked_level lev cur base l" "handler_at lc l = Some h" and f: "f \<in> set (level_entries h)"
  shows "parse_key (fst e) \<noteq> parse_key (fst f)"
proof -
  obtain u where u: "u \<in> set (lh_tables h)" "f \<in> set (t_data u)" using f by (auto simp: set_level_entries)
  have lw: "level_wf h" using wf l(2) by (auto simp: lc_wf_def handlers_def handler_at_def split: if_splits)
  consider "l = 98" | "l = 99" | "l \<noteq> 98" "l \<noteq> 99" by blast
  then show ?thesis
  proof cases
    case 1
    then have "\<not> any_overlaps h (getKeyRange ts)" using n l by (simp add: checkOverlap_def handler_at_def checked_level_def Let_def)
    then show ?thesis using any_overlaps_none [OF _ _ t u] bt lw by (auto simp: level_wf_def)
  next
    case 2
    then have "\<not> level_overlaps h (getKeyRange ts)" using n l by (auto simp: checkOverlap_def handler_at_def checked_level_def Let_def)
    moreover have "\<not> unsorted h" using home l(2) 2 by (auto simp: unsorted_def)
    ultimately show ?thesis using level_overlaps_none [OF _ lw _ bt t u] by blast
  next
    case 3
    then have h: "l < length (lc_levels lc)" "h = lc_levels lc ! l" using l(2) by (auto simp: handler_at_def split: if_splits)
    have "lh_level (lc_levels lc ! i) = i" if "i < length (lc_levels lc)" for i
      using home [rule_format, of i "lc_levels lc ! i"] that len by (simp add: handler_at_def)
    moreover have "\<not> (cur < 98 \<and> l < lev)" using l(1) 3 by (auto simp: checked_level_def)
    ultimately show ?thesis using checkOverlap_none [OF n wf _ len bt t h(1)] f h(2) by blast
  qed
qed

lemma checkOverlap_skips_hot:
  "base \<le> cur \<Longrightarrow> checkOverlap lc ts lev cur base = checkOverlap (lc\<lparr>lc_hotTier := h, lc_hotTierOrd := g\<rparr>) ts lev cur base"
  by (simp add: checkOverlap_def)

section \<open>The end of a split\<close>

text \<open>
  Entries behind the right end of the split only end the loops: they may be consumed when
  their prefix is dropped or their key skipped, but are never written.
\<close>

definition other_keys :: "entry list \<Rightarrow> bytes \<Rightarrow> bool" where
  "other_keys post k \<longleftrightarrow> (\<forall>e \<in> set post. \<not> SameKey (fst e) k)"

definition past_end :: "merge_env \<Rightarrow> entry list \<Rightarrow> bool" where
  "past_end env es \<longleftrightarrow> (\<forall>e \<in> set es. \<not> in_range env e)"

lemma not_in_range: "\<not> in_range env e \<longleftrightarrow> 0 < length (me_right env) \<and> cmp_keys (fst e) (me_right env) \<ge> 0"
  by (auto simp: in_range_def key_less_def)

lemma add_keys_post:
  assumes "past_end env es" and "pointers_ok es" and "other_keys es (ms_lastKey st)"
  shows "\<exists>st' es'. add_keys env reached st kr n built es = Some (st', built, es') \<and> suffix es' es"
  using assms
proof (induction es arbitrary: st)
  case (Cons e es)
  obtain ik vs where e: "e = (ik, vs)" by fastforce
  have tl: "past_end env es" "pointers_ok es" "other_keys es (ms_lastKey st)"
    using Cons.prems by (auto simp: past_end_def pointers_ok_def other_keys_def)
  show ?case
  proof (cases "dropped_prefix env ik \<or> ms_skipKey st \<noteq> [] \<and> SameKey ik (ms_skipKey st)")
    case True
    have "0 < vs_Meta vs AND bitValuePointer \<longrightarrow> value_pointer vs \<noteq> None"
      using Cons.prems(2) by (simp add: pointers_ok_def e)
    then obtain d where d: "updateStats env vs st = Some (st\<lparr>ms_discardStats := d\<rparr>)"
      using updateStats_some [of vs env st ik] by blast
    then show ?thesis
      using Cons.IH [OF tl(1,2), of "st\<lparr>ms_discardStats := d\<rparr>"] tl(3) True unfolding e add_keys_Cons
      by (auto intro: suffix_ConsI)
  next
    case False
    have "\<not> in_range env e" "\<not> SameKey ik (ms_lastKey st)"
      using Cons.prems(1,3) by (auto simp: past_end_def other_keys_def e)
    then have "new_key env reached (st\<lparr>ms_skipKey := []\<rparr>) kr n built ik vs =
        Stop (st\<lparr>ms_skipKey := [], ms_firstKeyHasDiscardSet := False\<rparr>)"
      unfolding not_in_range by (simp add: new_key_def e)
    then show ?thesis using False unfolding e add_keys_Cons by auto
  qed
qed simp

lemma add_keys_before_end:
  assumes "add_keys env reached st kr n built pre = Some (st0, built0, es0)"
    and "past_end env post" and "pointers_ok (pre @ post)"
    and "other_keys post (ms_lastKey st)" and "\<forall>e \<in> set pre. other_keys post (fst e)"
  shows "\<exists>st' es'. add_keys env reached st kr n built (pre @ post) = Some (st', built0, es') \<and>
    other_keys post (ms_lastKey st0) \<and>
    (if es0 = [] then suffix es' post else st' = st0 \<and> es' = es0 @ post)"
  using assms
proof (induction env reached st kr n built pre rule: add_keys.induct)
  case (1 env reached st kr n built)
  then show ?case using add_keys_post [of env post st reached kr n built] by (auto simp: pointers_ok_def)
next
  case (2 env reached st kr n built ik vs es)
  note IH = "2.IH" [unfolded length_greater_0_conv prefix_test]
  have tl: "pointers_ok (es @ post)" "\<forall>e \<in> set es. other_keys post (fst e)" "other_keys post ik"
    using "2.prems" by (auto simp: pointers_ok_def)
  show ?case
  proof (cases "dropped_prefix env ik \<or> ms_skipKey st \<noteq> [] \<and> SameKey ik (ms_skipKey st)")
    case True
    then obtain st1 where st1: "updateStats env vs st = Some st1"
      "add_keys env reached st1 kr n built es = Some (st0, built0, es0)"
      using "2.prems"(1) unfolding add_keys_Cons by (auto split: option.splits)
    have "other_keys post (ms_lastKey st1)" using "2.prems"(4) updateStats_lastKey [OF st1(1)] by simp
    then have "\<exists>st' es'. add_keys env reached st1 kr n built (es @ post) = Some (st', built0, es') \<and>
        other_keys post (ms_lastKey st0) \<and> (if es0 = [] then suffix es' post else st' = st0 \<and> es' = es0 @ post)"
      using IH(1) [OF _ st1 "2.prems"(2) tl(1)] IH(2) [OF _ _ st1 "2.prems"(2) tl(1)] True tl(2) by blast
    then show ?thesis using True st1(1) by (simp add: add_keys_Cons)
  next
    case no: False
    let ?nk = "new_key env reached (st\<lparr>ms_skipKey := []\<rparr>) kr n built ik vs"
    show ?thesis
    proof (cases ?nk)
      case (Stop st1)
      then have r: "built0 = built" "es0 = (ik, vs) # es" "st0 = st1" using "2.prems"(1) no unfolding add_keys_Cons by auto
      have "ms_lastKey st1 = ms_lastKey st \<or> ms_lastKey st1 = ik" using new_key_lastKey [OF Stop, of st1] by simp
      then show ?thesis using r Stop no tl(3) "2.prems"(4) by (auto simp: add_keys_Cons)
    next
      case (Go st1 kr1 n1)
      obtain st2 b where d: "discard_rules env st1 ik vs = (st2, b)" by fastforce
      have last: "ms_lastKey st2 = ms_lastKey st \<or> ms_lastKey st2 = ik"
        using new_key_lastKey [OF Go, of st1 kr1 n1] discard_rules_lastKey [OF d] by auto
      then have ok: "other_keys post (ms_lastKey st2)" using tl(3) "2.prems"(4) by auto
      show ?thesis
      proof (cases b)
        case True
        then obtain st3 where st3: "updateStats env vs st2 = Some st3"
          "add_keys env reached st3 kr1 n1 built es = Some (st0, built0, es0)"
          using "2.prems"(1) no Go d unfolding add_keys_Cons by (auto split: option.splits)
        have "other_keys post (ms_lastKey st3)" using ok updateStats_lastKey [OF st3(1)] by simp
        with IH(3) [OF _ _ Go d [symmetric] _ st3] no True tl Go d st3(1) "2.prems"(2) show ?thesis
          by (auto simp: add_keys_Cons)
      next
        case False
        then obtain a where a: "add_entry env st2 ik vs = Some a"
          "add_keys env reached st2 kr1 n1 (built @ [a]) es = Some (st0, built0, es0)"
          using "2.prems"(1) no Go d unfolding add_keys_Cons by (auto split: option.splits)
        with IH(4) [OF _ _ Go d [symmetric] _ a] no False tl Go d ok "2.prems"(2) show ?thesis
          by (auto simp: add_keys_Cons)
      qed
    qed
  qed
qed

lemma build_tables_past_end: "past_end env es \<Longrightarrow> build_tables (Suc n) env reached st tables es = Some (st, tables)"
  by (cases es) (auto simp: past_end_def not_in_range)

lemma build_tables_before_end:
  assumes "build_tables n env reached st tables pre = Some (st0, new)" and "length (pre @ post) < m"
    and "past_end env post" and "\<forall>e \<in> set pre. in_range env e" and "\<not> reached []" and "pointers_ok (pre @ post)"
    and "other_keys post (ms_lastKey st)" and "\<forall>e \<in> set pre. other_keys post (fst e)"
  shows "\<exists>st'. build_tables m env reached st tables (pre @ post) = Some (st', new)"
  using assms(1,2,4,6-)
proof (induction n arbitrary: m st tables pre)
  case (Suc n)
  then obtain m' where m: "m = Suc m'" by (cases m) auto
  show ?case
  proof (cases pre)
    case Nil
    then have "new = tables" using Suc.prems(1) by simp
    then show ?thesis using build_tables_past_end [OF assms(3), of m' reached st tables] Nil m by simp
  next
    case (Cons e fs)
    obtain ik vs where e: "e = (ik, vs)" by fastforce
    have pp: "pointers_ok pre" using Suc.prems(4) by (simp add: pointers_ok_def)
    obtain st1 b1 es' where a: "add_keys env reached st empty_range 0 [] pre = Some (st1, b1, es')" "suffix es' pre"
      using add_keys_decide [OF pp, of env reached st empty_range 0 "[]"] by auto
    have in_e: "\<not> (0 < length (me_right env) \<and> cmp_keys ik (me_right env) \<ge> 0)"
      using Suc.prems(3) Cons not_in_range [of env e] by (simp add: e)
    let ?t = "if b1 = [] then tables else tables @ [b1]"
    have bt: "build_tables n env reached st1 ?t es' = Some (st0, new)"
      using Suc.prems(1) a(1) in_e Cons e by (auto split: if_splits)
    obtain st2 es2 where k: "add_keys env reached st empty_range 0 [] (pre @ post) = Some (st2, b1, es2)"
      "other_keys post (ms_lastKey st1)" "if es' = [] then suffix es2 post else st2 = st1 \<and> es2 = es' @ post"
      using add_keys_before_end [OF a(1) assms(3) Suc.prems(4,5,6)] by blast
    have step: "build_tables m env reached st tables (pre @ post) = build_tables m' env reached st2 ?t es2"
      using k(1) in_e Cons e m by auto
    show ?thesis
    proof (cases "es' = []")
      case True
      then have new: "new = ?t" using bt by (cases n) (auto split: if_splits)
      have "past_end env es2" using k(3) True assms(3) by (auto simp: past_end_def dest: set_mono_suffix)
      moreover obtain m'' where "m' = Suc m''" using Suc.prems(2) m Cons by (cases m') auto
      ultimately show ?thesis using build_tables_past_end [of env es2 m'' reached st2 ?t] step new by auto
    next
      case False
      have "suffix es' fs"
        using add_keys_progress [of e fs env reached st empty_range st1 b1 es'] pp Suc.prems(3) assms(5) a(1) Cons by auto
      then have len: "length (es' @ post) < m'" using Suc.prems(2) Cons m by (auto dest: suffix_length_le)
      have sub: "\<forall>e \<in> set es'. in_range env e" "pointers_ok (es' @ post)" "\<forall>e \<in> set es'. other_keys post (fst e)"
        using set_mono_suffix [OF a(2)] Suc.prems(3,4,6) unfolding pointers_ok_def set_append by blast+
      show ?thesis using Suc.IH [OF bt len sub(1,2) k(2) sub(3)] step k(3) False by simp
    qed
  qed
qed simp

section \<open>A split of a compaction\<close>

text \<open>
  The bounds that \<open>addSplits\<close> makes: no bound, or the first or the last place of a user key. Between two bounds lie all the versions of a user key or none of them.
\<close>

definition split_bound :: "bytes \<Rightarrow> bool" where
  "split_bound b \<longleftrightarrow> b = [] \<or> 8 < length b \<and> (ParseTs b = 0 \<or> ParseTs b = - 1)"

definition split_entries :: "bytes \<Rightarrow> bytes \<Rightarrow> entry list \<Rightarrow> entry list" where
  "split_entries left right es =
     filter (\<lambda>e. \<not> (left \<noteq> [] \<and> key_less (fst e) left) \<and> (right = [] \<or> key_less (fst e) right)) es"

lemma decide_fresh:
  assumes "other_keys es lst" and "skip = [] \<or> other_keys es skip" and "\<forall>e \<in> set es. stored_key (fst e)"
  shows "decide env skip lst n es = decide env [] [] 0 es"
  using assms
proof (induction es arbitrary: skip lst n)
  case (Cons e es)
  have tl: "other_keys es lst" "skip = [] \<or> other_keys es skip" "\<forall>e \<in> set es. stored_key (fst e)"
    and hd: "\<not> SameKey (fst e) lst" "\<not> (skip \<noteq> [] \<and> SameKey (fst e) skip)" "\<not> SameKey (fst e) []"
    using Cons.prems by (auto simp: other_keys_def stored_key_def SameKey_def)
  show ?case
  proof (cases "dropped_prefix env (fst e)")
    case True
    then show ?thesis using Cons.IH [OF tl, of n] unfolding decide.simps by simp
  next
    case False
    then show ?thesis unfolding decide.simps Let_def by (simp only: hd if_False simp_thms)
  qed
qed simp

lemma decide_append:
  assumes "\<forall>e \<in> set xs. other_keys ys (fst e)" and "other_keys ys lst" and "skip = [] \<or> other_keys ys skip"
    and "\<forall>e \<in> set ys. stored_key (fst e)"
  shows "decide env skip lst n (xs @ ys) = decide env skip lst n xs @ decide env [] [] 0 ys"
  using assms
proof (induction env skip lst n xs rule: decide.induct)
  case (1 env skip lst n)
  then show ?case by (simp add: decide_fresh)
next
  case (2 env skip lst n e es)
  have tl: "\<forall>e \<in> set es. other_keys ys (fst e)" "other_keys ys (fst e)" using "2.prems" by auto
  let ?l = "if SameKey (fst e) lst then lst else fst e"
  have l: "other_keys ys ?l" using tl(2) "2.prems"(2) by simp
  note st = "2.prems"(4)
  show ?case
  proof (cases "dropped_prefix env (fst e) \<or> skip \<noteq> [] \<and> SameKey (fst e) skip")
    case True
    then show ?thesis
      using "2.IH"(1) [OF _ tl(1) "2.prems"(2,3) st] "2.IH"(2) [OF _ _ tl(1) "2.prems"(2,3) st]
      unfolding append_Cons decide.simps by auto
  next
    case False
    then have nd: "\<not> dropped_prefix env (fst e)" "\<not> (skip \<noteq> [] \<and> SameKey (fst e) skip)" by auto
    show ?thesis
      using nd "2.IH"(3) [OF nd refl refl _ tl(1) l _ st] "2.IH"(4) [OF nd refl refl _ _ tl(1) l _ st]
        "2.IH"(5) [OF nd refl refl _ _ tl(1) l _ st] tl(2)
      unfolding append_Cons decide.simps Let_def by (simp only: if_False simp_thms) (simp del: decide.simps)
  qed
qed

lemma chosen_by_append: "length bs = length xs \<Longrightarrow> chosen_by (bs @ cs) (xs @ ys) = chosen_by bs xs @ chosen_by cs ys"
  by (simp add: chosen_by_def)

text \<open>The splits of a compaction write what one merge of everything writes.\<close>

lemma survivors_append:
  assumes "\<forall>e \<in> set xs. other_keys ys (fst e)" and "\<forall>e \<in> set ys. stored_key (fst e)"
  shows "survivors env (xs @ ys) = survivors env xs @ survivors env ys"
proof -
  have "other_keys ys []" using assms(2) by (auto simp: other_keys_def stored_key_def SameKey_def)
  then show ?thesis using assms by (simp add: survivors_def decide_append chosen_by_append)
qed

lemma KeyWithTs_not_Nil [simp]: "KeyWithTs k ts \<noteq> []"
  by (simp flip: length_greater_0_conv)

lemma bound_user:
  assumes "split_bound b" and "b \<noteq> []" and "stored_key a" and "stored_key c" and "parse_key a \<le> parse_key c" and "key_less c b"
  shows "key_less a b"
proof -
  have top: "\<not> - 1 < ParseTs x" for x by simp
  show ?thesis
    using assms key_less_stored [of a b] key_less_stored [of c b] top
    by (auto simp: split_bound_def stored_key_def)
qed

lemma split_at_bounds:
  assumes ok: "entries_ok es" and b: "split_bound left" "split_bound right"
  obtains pre mid post where "es = pre @ mid @ post" and "mid = split_entries left right es"
    and "(if 0 < length left then dropWhile (\<lambda>e. key_less (fst e) left) es else es) = mid @ post"
    and "\<forall>e \<in> set mid. right = [] \<or> key_less (fst e) right"
    and "\<forall>e \<in> set post. right \<noteq> [] \<and> \<not> key_less (fst e) right"
    and "\<forall>e \<in> set pre. other_keys (mid @ post) (fst e)" and "\<forall>e \<in> set mid. other_keys post (fst e)"
proof -
  let ?L = "\<lambda>e. left \<noteq> [] \<and> key_less (fst e) left" and ?R = "\<lambda>e. right = [] \<or> key_less (fst e) right"
  define pre where "pre = takeWhile ?L es"
  define rst where "rst = dropWhile ?L es"
  define mid where "mid = takeWhile ?R rst"
  define post where "post = dropWhile ?R rst"
  have es: "es = pre @ mid @ post" by (simp add: pre_def mid_def post_def rst_def)
  have st: "stored_key (fst e)" if "e \<in> set es" for e using ok that by (auto simp: entries_ok_def)
  have srt: "sorted_wrt (\<lambda>a c. key_less (fst a) (fst c)) (pre @ mid @ post)"
    using ok unfolding es entries_ok_def sorted_wrt_map by blast
  have rst: "\<not> ?L e" if "e \<in> set (mid @ post)" for e
  proof (cases "mid @ post")
    case (Cons f fs)
    then have "dropWhile ?L es = f # fs" by (simp add: mid_def post_def rst_def)
    then have "\<not> ?L f" using hd_dropWhile [of ?L es] by auto
    moreover have "e = f \<or> key_less (fst f) (fst e)" using that srt unfolding Cons by (auto simp: sorted_wrt_append)
    ultimately show ?thesis using key_less_trans [of "fst f" "fst e" left] by auto
  qed (use that in simp)
  have post: "\<not> ?R e" if "e \<in> set post" for e
  proof (cases post)
    case (Cons f fs)
    then have "\<not> ?R f" using hd_dropWhile [of ?R rst] by (simp add: post_def)
    moreover have "e = f \<or> key_less (fst f) (fst e)" using that srt Cons by (auto simp: sorted_wrt_append)
    ultimately show ?thesis using key_less_trans [of "fst f" "fst e" right] by auto
  qed (use that in simp)
  have pre: "?L e" if "e \<in> set pre" for e using set_takeWhileD [of e ?L es] that by (simp add: pre_def)
  have mid: "?R e" if "e \<in> set mid" for e using set_takeWhileD [of e ?R rst] that by (simp add: mid_def)
  have f: "mid = split_entries left right es"
  proof -
    let ?F = "\<lambda>e. \<not> (left \<noteq> [] \<and> key_less (fst e) left) \<and> (right = [] \<or> key_less (fst e) right)"
    have "filter ?F pre = []" unfolding filter_empty_conv using pre by blast
    moreover have "filter ?F mid = mid" unfolding filter_id_conv using mid rst by auto
    moreover have "filter ?F post = []" unfolding filter_empty_conv using post by blast
    ultimately show ?thesis unfolding split_entries_def es filter_append by simp
  qed
  show ?thesis
  proof (rule that [OF es f])
    show "(if 0 < length left then dropWhile (\<lambda>e. key_less (fst e) left) es else es) = mid @ post"
      unfolding mid_def post_def rst_def takeWhile_dropWhile_id by simp
    show "\<forall>e \<in> set mid. ?R e" using mid by blast
    show "\<forall>e \<in> set post. right \<noteq> [] \<and> \<not> key_less (fst e) right" using post by blast
    show "\<forall>e \<in> set pre. other_keys (mid @ post) (fst e)"
    proof (intro ballI, unfold other_keys_def, intro ballI notI)
      fix e g assume e: "e \<in> set pre" and g: "g \<in> set (mid @ post)" and s: "SameKey (fst g) (fst e)"
      have sk: "stored_key (fst e)" "stored_key (fst g)" using st e g es by auto
      show False using bound_user [OF b(1) _ sk(2,1)] s same_user [OF sk(2,1)] pre [OF e] rst [OF g] by auto
    qed
    show "\<forall>e \<in> set mid. other_keys post (fst e)"
    proof (intro ballI, unfold other_keys_def, intro ballI notI)
      fix e g assume e: "e \<in> set mid" and g: "g \<in> set post" and s: "SameKey (fst g) (fst e)"
      have sk: "stored_key (fst e)" "stored_key (fst g)" using st e g es by auto
      show False using bound_user [OF b(2) _ sk(2,1)] s same_user [OF sk(2,1)] mid [OF e] post [OF g] by auto
    qed
  qed
qed

lemma subcompact_bounds:
  assumes "entries_ok es" and "pointers_ok es" and "\<not> reached []"
    and "split_bound left" and "split_bound (me_right env)"
  shows "\<exists>stats tables. subcompact env reached left es = Some (stats, tables) \<and>
    written (concat tables) = survivors env (split_entries left (me_right env) es) \<and> tables_apart tables \<and> [] \<notin> set tables"
proof -
  obtain pre mid post where es: "es = pre @ mid @ post" "mid = split_entries left (me_right env) es"
    and start: "(if 0 < length left then dropWhile (\<lambda>e. key_less (fst e) left) es else es) = mid @ post"
    and r: "\<forall>e \<in> set mid. me_right env = [] \<or> key_less (fst e) (me_right env)"
    and p: "\<forall>e \<in> set post. me_right env \<noteq> [] \<and> \<not> key_less (fst e) (me_right env)"
    and ot: "\<forall>e \<in> set mid. other_keys post (fst e)"
    by (rule split_at_bounds [OF assms(1,4,5)]) blast
  have in_mid: "\<forall>e \<in> set mid. in_range env e" using r by (simp add: in_range_def)
  have past: "past_end env post" using p by (simp add: past_end_def in_range_def)
  have pok: "pointers_ok mid" "pointers_ok (mid @ post)" using assms(2) es(1) by (auto simp: pointers_ok_def)
  have srt: "users_le mid"
    using users_le_ok [OF assms(1)] unfolding users_le_def es(1) sorted_wrt_append by blast
  have keys: "\<forall>e \<in> set mid. key_ok (fst e)"
    using assms(1) unfolding es(1) by (auto simp: entries_ok_def stored_key_def key_ok_def dest: less_imp_le)
  obtain st' new where b: "build_tables (length mid + 1) env reached merge_start [] mid = Some (st', new)"
    "written (concat new) = to_keep env merge_start mid" "[] \<notin> set new"
    using build_tables_decide [where env = env and es = mid and reached = reached and n = "length mid + 1"
        and st = merge_start and tables = "[]"] pok(1) in_mid assms(3) by auto
  have m: "ms_lastKey merge_start = []" by (simp add: merge_start_def)
  have none: "other_keys post (ms_lastKey merge_start)"
    using assms(1) unfolding m es(1) by (force simp: other_keys_def entries_ok_def stored_key_def SameKey_def)
  have low: "\<forall>e \<in> set mid. parse_key (ms_lastKey merge_start) \<le> parse_key (fst e)"
    unfolding m by (simp add: parse_key_def)
  obtain st2 where "build_tables (length (mid @ post) + 1) env reached merge_start [] (mid @ post) = Some (st2, new)"
    using build_tables_before_end [OF b(1) _ past in_mid assms(3) pok(2) none ot, of "length (mid @ post) + 1"] by auto
  then have "subcompact env reached left es = Some (ms_discardStats st2, new)"
    unfolding subcompact_def start Let_def by simp
  moreover have "tables_apart new"
    using build_tables_apart [where es = mid and env = env and reached = reached and n = "length mid + 1"
        and st = merge_start and tables = "[]" and st' = st' and new = new] pok(1) in_mid assms(3) srt keys low b(1) by simp
  moreover have "written (concat new) = survivors env mid"
    using b(2) by (simp add: to_keep_def survivors_def merge_start_def)
  ultimately show ?thesis using b(3) es(2) by blast
qed

section \<open>Properties\<close>

text \<open>
  C13: a subcompaction ends and, whatever the table builder's capacity, writes exactly the
  versions between its bounds that the one-pass rules keep, in order; no table is empty and
  no user key is spread over two tables.
\<close>

theorem subcompact_split:
  assumes "entries_ok es" and "pointers_ok es" and "\<not> reached []"
    and "split_bound left" and "split_bound (me_right env)"
  shows "\<exists>stats tables. subcompact env reached left es = Some (stats, tables) \<and>
    written (concat tables) = survivors env (split_entries left (me_right env) es) \<and> tables_apart tables \<and> [] \<notin> set tables"
  using assms by (rule subcompact_bounds)

definition ex_env :: merge_env where
  "ex_env = \<lparr>me_dropPrefixes = [], me_right = [], me_discardTs = 10, me_hasOverlap = False, me_keepVersions = 1,
     me_inMemory = False, me_now = 200, me_exceeds = (\<lambda>_. False)\<rparr>"

text \<open>Version 7 of a key expired at time 100, version 3 did not; the next key is live.\<close>

definition ex_merge :: "entry list" where
  "ex_merge = [(KeyWithTs [1] 7, (small_vs 4)\<lparr>vs_ExpiresAt := 100\<rparr>), (KeyWithTs [1] 3, small_vs 1),
     (KeyWithTs [2] 12, small_vs 5), (KeyWithTs [2] 9, small_vs 6), (KeyWithTs [2] 5, small_vs 7)]"

lemma ex_merge_ok: "entries_ok ex_merge" "pointers_ok ex_merge"
  by (simp_all add: ex_merge_def entries_ok_def pointers_ok_def small_vs_def)

lemma subcompact_split_witness:
  "\<exists>stats tables. subcompact ex_env (\<lambda>b. 1 \<le> length b) (KeyWithTs [2] (- 1)) ex_merge = Some (stats, tables) \<and>
    written (concat tables) = survivors ex_env (drop 2 ex_merge)"
proof -
  have s: "split_entries (KeyWithTs [2] (- 1)) [] ex_merge = drop 2 ex_merge"
    by (simp add: split_entries_def ex_merge_def)
  have b: "split_bound (KeyWithTs [2] (- 1))" "split_bound (me_right ex_env)" "me_right ex_env = []"
    by (simp_all add: split_bound_def ex_env_def)
  show ?thesis
    using subcompact_split [OF ex_merge_ok _ b(1,2), of "\<lambda>b. 1 \<le> length b"] unfolding b(3) s by auto
qed

text \<open>
  the discard statistics of a subcompaction without bounds are the value log bytes of
  exactly the versions it does not write.
\<close>

theorem subcompact_stats:
  assumes "pointers_ok es" and "me_right env = []" and "\<not> reached []"
  shows "map_option fst (subcompact env reached [] es) = Some (dropped_bytes env (discarded env es))"
  using subcompact_survivors [where es = es and env = env and reached = reached] assms by (auto simp: in_range_def)

lemma subcompact_stats_witness:
  "map_option fst (subcompact ex_env (\<lambda>_. False) [] ex_merge) = Some (dropped_bytes ex_env (discarded ex_env ex_merge))"
  by (rule subcompact_stats) (simp_all add: ex_merge_ok ex_env_def)

text \<open>
  C9: replacing merged entries by the survivors of the discard rules, among all entries of the store,
  does not change what a read of a key at or above the discard timestamp sees, if no prefix of the
  key is dropped and if the overlap check has found an overlap or no other entry of the key in the
  store is as old as a merged one. (A wrong answer of the check does change reads, as an expired entry below the
  base level shows.)
\<close>

theorem compaction_keeps_reads:
  assumes "entries_ok es" and "me_discardTs env \<le> ts"
    and "\<forall>e \<in> set es. parse_key (fst e) = k \<longrightarrow> \<not> dropped_prefix env (fst e)"
    and "me_hasOverlap env \<or> (\<forall>r \<in> set (upper @ lower). \<forall>e \<in> set es. parse_key (fst r) = k \<longrightarrow>
      parse_key (fst e) = k \<longrightarrow> ParseTs (fst e) < ParseTs (fst r) \<or> r = e)"
  shows "visible (me_now env) (newest (upper @ survivors env es @ lower) k ts) =
    visible (me_now env) (newest (upper @ es @ lower) k ts)"
  by (rule reads_around [OF assms])

lemma compaction_keeps_reads_witness:
  "visible 200 (newest ([(KeyWithTs [1] 15, small_vs 8)] @ survivors ex_env ex_merge @ []) [1] 12) =
    visible 200 (newest ([(KeyWithTs [1] 15, small_vs 8)] @ ex_merge @ []) [1] 12)"
proof -
  have e: "me_now ex_env = 200" "me_discardTs ex_env = 10" by (simp_all add: ex_env_def)
  show ?thesis
    using compaction_keeps_reads [OF ex_merge_ok(1), of ex_env 12 "[1]" "[(KeyWithTs [1] 15, small_vs 8)]" "[]"]
    by (simp add: e dropped_prefix_def hasAnyPrefixes_def ex_merge_def ex_env_def)
qed

text \<open>
  C29: when \<open>checkOverlap\<close> finds nothing, no level it has to look at holds a version of a user key of
  the compacted tables: the levels from \<open>lev\<close> on (all of them for a compaction of the hot tiers), and
  both hot tiers for a compaction of a level above the base level.
\<close>

theorem overlap_check_sound:
  assumes "\<not> checkOverlap lc ts lev cur base" and "lc_wf lc" and "\<forall>l h. handler_at lc l = Some h \<longrightarrow> lh_level h = l"
    and "length (lc_levels lc) \<le> 98" and "\<forall>t \<in> set ts. built_table t" and "t \<in> set ts" and "e \<in> set (t_data t)"
    and "checked_level lev cur base l" and "handler_at lc l = Some h" and "f \<in> set (level_entries h)"
  shows "parse_key (fst e) \<noteq> parse_key (fst f)"
  by (rule checkOverlap_handler [OF assms])

lemma cmp_KeyWithTs: "cmp_keys (KeyWithTs k s) (KeyWithTs l t) \<le> 0 \<longleftrightarrow> k < l \<or> k = l \<and> t \<le> s"
  "0 < cmp_keys (KeyWithTs k s) (KeyWithTs l t) \<longleftrightarrow> l < k \<or> k = l \<and> s < t"
  using key_less_KeyWithTs [of l t k s] by (auto simp: cmp_keys_greater not_less simp flip: not_less [of 0])

text \<open>A tree with the given tables in level 1 and version 3 of a key in the sorted hot tier.\<close>

definition ttl_tree :: "table list \<Rightarrow> levelsController" where
  "ttl_tree ts = ex_tree\<lparr>lc_levels := [newLevelHandler 0, initTables (newLevelHandler 1) ts, newLevelHandler 2],
     lc_hotTier := Some (newLevelHandler 98),
     lc_hotTierOrd := Some (initTables (newLevelHandler 99) [small_table 4 [(KeyWithTs [2] 3, small_vs 1)]])\<rparr>"

definition ttl_table :: table where
  "ttl_table = small_table 9 [(KeyWithTs [2] 5, (small_vs 4)\<lparr>vs_ExpiresAt := 100\<rparr>)]"

definition ex_far :: table where
  "ex_far = small_table 8 [(KeyWithTs [7] 2, small_vs 1)]"

lemma sort_search_1 [simp]: "sort_search (Suc 0) f = (if f 0 then 0 else 1)" "sort_search 0 f = 0"
  by (simp_all add: sort_search_def search_loop.simps)

lemma initTables_1: "lh_tables (initTables (newLevelHandler l) [t]) = [t]" "lh_tables (initTables (newLevelHandler l) []) = []"
  "lh_level (initTables (newLevelHandler l) ts) = l" "lh_tables (newLevelHandler l) = []"
  by (simp_all add: initTables_def newLevelHandler_def Let_def foldl_addSize addSize_def)

lemmas ex_checks = checkOverlap_def level_overlaps_def any_overlaps_def overlappingTables_def initTables_1 getKeyRange_def
  ttl_tree_def small_table_def cmp_keys_KeyWithTs_less cmp_KeyWithTs

lemma ttl_level_wf: "level_wf (initTables (newLevelHandler l) [small_table i [(KeyWithTs [b] ts, v)]])" 
  if "l \<noteq> 0" "l \<noteq> 98" "0 < ts" "vs_Value v \<noteq> None"
  using initTables_wf [of "[small_table i [(KeyWithTs [b] ts, v)]]" "newLevelHandler l"] that
  by simp

lemma overlap_check_sound_witness:
  "parse_key (KeyWithTs [7] 2) \<noteq> parse_key (KeyWithTs [2] 5) \<and> parse_key (KeyWithTs [7] 2) \<noteq> parse_key (KeyWithTs [2] 3)"
proof -
  let ?t = "ttl_tree [ttl_table]"
  have c: "\<not> checkOverlap ?t [ex_far] 100 98 1" "\<not> checkOverlap ?t [ex_far] 2 0 1"
    by (simp_all add: ex_checks ttl_table_def ex_far_def)
  have wf: "lc_wf ?t"
    using ttl_level_wf [of 99] ttl_level_wf [of 1] unfolding lc_wf_def hot_newer_def handlers_def hot_entries_def
    by (simp add: ttl_tree_def ttl_table_def ex_tree_def two_refs_def initTables_1 set_level_entries)
  have home: "\<forall>l h. handler_at ?t l = Some h \<longrightarrow> lh_level h = l"
  proof (intro allI impI)
    fix l h assume "handler_at ?t l = Some h"
    moreover have "lh_level (newLevelHandler k) = k" for k by (simp add: newLevelHandler_def)
    ultimately show "lh_level h = l"
      by (auto simp: handler_at_def ttl_tree_def initTables_1 less_Suc_eq numeral_2_eq_2 split: if_splits)
  qed
  have f1: "(KeyWithTs [2] 5, (small_vs 4)\<lparr>vs_ExpiresAt := 100\<rparr>) \<in> set (level_entries (initTables (newLevelHandler 1) [ttl_table]))"
    by (simp add: initTables_1 ttl_table_def set_level_entries)
  have f99: "(KeyWithTs [2] 3, small_vs 1) \<in> set (level_entries (initTables (newLevelHandler 99) [small_table 4 [(KeyWithTs [2] 3, small_vs 1)]]))"
    by (simp add: initTables_1 set_level_entries)
  show ?thesis
    using overlap_check_sound [OF c(1) wf home _ _ _ _ _ _ f1, of ex_far "(KeyWithTs [7] 2, small_vs 1)" 1]
      overlap_check_sound [OF c(2) wf home _ _ _ _ _ _ f99, of ex_far "(KeyWithTs [7] 2, small_vs 1)" 99]
    by (simp add: ex_far_def ttl_tree_def checked_level_def handler_at_def)
qed

text \<open>
  C33: an expired entry can bring back an older one. Below the base level the overlap check
  does not look at the hot tiers; version 5 of a key, in level 1 and expired, is dropped on
  the way to level 2 while the sorted hot tier holds version 3, which a read then finds.
\<close>

theorem expired_entry_resurrects:
  "let lc = ttl_tree [ttl_table]; env = ex_env\<lparr>me_hasOverlap := checkOverlap lc [ttl_table] 3 1 1\<rparr>
   in map_option snd (subcompact env (\<lambda>_. False) [] (t_data ttl_table)) = Some [] \<and>
     visible 200 (newest (all_entries lc) [2] 20) = None \<and>
     visible 200 (newest (all_entries (ttl_tree [])) [2] 20) = Some (3, small_vs 1)"
proof -
  have c: "\<not> checkOverlap (ttl_tree [ttl_table]) [ttl_table] 3 1 1"
    by (simp add: ex_checks ttl_table_def)
  have a: "all_entries (ttl_tree [ttl_table]) = [(KeyWithTs [2] 3, small_vs 1)] @ t_data ttl_table"
    "all_entries (ttl_tree []) = [(KeyWithTs [2] 3, small_vs 1)]"
    by (simp_all add: ttl_tree_def all_entries_def hot_entries_def level_entries_def initTables_1 ttl_table_def)
  have "map_option snd (subcompact ex_env (\<lambda>_. False) [] (t_data ttl_table)) = Some []"
  proof -
    have "survivors ex_env (t_data ttl_table) = []"
      by (simp add: survivors_def ttl_table_def ex_env_def decide.simps prunable_def expired_def last_valid_def
          dropped_prefix_def hasAnyPrefixes_def small_vs_def isDeletedOrExpired_def)
    moreover have "pointers_ok (t_data ttl_table)" "\<forall>e \<in> set (t_data ttl_table). in_range ex_env e"
      by (simp_all add: pointers_ok_def ttl_table_def small_vs_def in_range_def ex_env_def)
    ultimately obtain ts where "map_option snd (subcompact ex_env (\<lambda>_. False) [] (t_data ttl_table)) = Some ts"
      "written (concat ts) = []" "[] \<notin> set ts"
      using subcompact_survivors [of "t_data ttl_table" ex_env "\<lambda>_. False"] by auto
    then show ?thesis by (cases ts) (auto simp: written_def)
  qed
  moreover have "ex_env\<lparr>me_hasOverlap := False\<rparr> = ex_env" by (simp add: ex_env_def)
  ultimately show ?thesis using c a
    by (simp add: Let_def ttl_table_def matches_def visible_def small_vs_def isDeletedOrExpired_def)
qed

end
