(* ===== verification/Fill.thy ===== *)
theory Fill
  imports Subcompact
begin

text \<open>
  Which tables a compaction takes (\<open>levels.go\<close>: the \<open>fillTables\<close> functions, \<open>addSplits\<close>, and
  the part of \<open>doCompact\<close> that chooses among them). Every function reads the levels and the
  status of the compactors and claims what it takes with \<open>compareAndAdd\<close>; \<open>None\<close> is a panic.
  The locks of the two levels and of the status are held throughout in the code, so each
  function is one step here. The clock and the discard timestamp of the oracle are arguments.
\<close>

section \<open>Choosing tables\<close>

text \<open>\<open>int64(0.8 * float64(cd.t.fileSz[0]))\<close>\<close>

definition l0_target :: "targets \<Rightarrow> int" where
  "l0_target t = f_to_int (f_mul (rnd (8 / 10)) (f_of_int (fileSz t ! 0)))"

definition by_MaxVersion :: "table \<Rightarrow> table \<Rightarrow> bool" where
  "by_MaxVersion a b \<longleftrightarrow> t_MaxVersion a < t_MaxVersion b"

definition by_StaleDataSize :: "table \<Rightarrow> table \<Rightarrow> bool" where
  "by_StaleDataSize a b \<longleftrightarrow> t_StaleDataSize b < t_StaleDataSize a"

definition sortByHeuristic :: "table list \<Rightarrow> table list" where
  "sortByHeuristic tables = go_sort by_MaxVersion tables"

definition sortByStaleDataSize :: "table list \<Rightarrow> table list" where
  "sortByStaleDataSize tables = go_sort by_StaleDataSize tables"

text \<open>The two loops of \<open>fillTablesL0ToL0\<close> differ in the tables they skip.\<close>

fun pick_L0 :: "(table \<Rightarrow> bool) \<Rightarrow> int \<Rightarrow> table list \<Rightarrow> table list \<Rightarrow> int \<Rightarrow> table list \<times> int" where
  "pick_L0 skip targetSize [] out acc = (out, acc)"
| "pick_L0 skip targetSize (t # ts) out acc =
     (if skip t then (if 0 < length out then (out, acc) else pick_L0 skip targetSize ts out acc)
      else if targetSize \<le> acc + t_Size t then (out @ [t], acc + t_Size t)
      else pick_L0 skip targetSize ts (out @ [t]) (acc + t_Size t))"

definition fillTablesL0ToL0 :: "levelsController \<Rightarrow> compactDef \<Rightarrow> (compactStatus \<times> compactDef \<times> bool) option" where
  "fillTablesL0ToL0 lc cd0 =
     (let cs = lc_cstatus lc
      in if cd_compactorId cd0 \<noteq> 0 then Some (cs, cd0, False)
      else
        let cd = cd0\<lparr>cd_nextLevel := 0, cd_nextRange := empty_range, cd_bot := []\<rparr>
        in if cd_thisLevel cd \<noteq> 0 \<or> lc_levels lc = [] \<or> fileSz (cd_t cd) = [] then None
        else
          let tops = lh_tables (lc_levels lc ! 0);
              targetSize = l0_target (cd_t cd);
              busy = (\<lambda>t. t_ID t \<in> cs_tables cs);
              (out, accumulatedSize) =
                (if 0 < length tops \<and> targetSize \<le> t_Size (tops ! 0)
                 then pick_L0 (\<lambda>t. busy t \<or> targetSize \<le> t_Size t) targetSize tops [] 0
                 else pick_L0 busy targetSize tops [] 0)
          in if length out < 2 then Some (cs, cd, False)
             else if length out < 4 \<and> accumulatedSize < targetSize sdiv 2 then Some (cs, cd, False)
             else Some (claim_L0 cs out,
               cd\<lparr>cd_thisRange := infRange, cd_top := out,
                  cd_t := (cd_t cd)\<lparr>fileSz := (fileSz (cd_t cd))[0 := 2 ^ 32 - 1]\<rparr>\<rparr>, True))"

text \<open>The oldest tables of an unsorted level, as long as each overlaps those before it.\<close>

fun overlap_prefix :: "keyRange \<Rightarrow> table list \<Rightarrow> table list" where
  "overlap_prefix kr [] = []"
| "overlap_prefix kr (t # ts) =
     (let dkr = getKeyRange [t]
      in if kr_overlapsWith kr dkr then t # overlap_prefix (kr_extend kr dkr) ts else [])"

text \<open>\<open>make([]*table.Table, right-left)\<close> and \<open>copy\<close>: a negative length panics.\<close>

definition tables_between :: "levelHandler \<Rightarrow> keyRange \<Rightarrow> table list option" where
  "tables_between lh kr = (let (left, right) = overlappingTables lh kr
     in if right < left then None else Some (take (right - left) (drop left (lh_tables lh))))"

text \<open>The end of \<open>fillTablesL0ToLbase\<close> and of \<open>fillTablesL98\<close>: the ranges, and the claim.\<close>

definition claim_down :: "compactStatus \<Rightarrow> levelHandler \<Rightarrow> compactDef \<Rightarrow> table list \<Rightarrow> (compactStatus \<times> compactDef \<times> bool) option" where
  "claim_down cs nextLevel cd0 out =
     (let cd = cd0\<lparr>cd_thisRange := getKeyRange out, cd_top := out\<rparr>
      in case tables_between nextLevel (cd_thisRange cd) of None \<Rightarrow> None
         | Some bots \<Rightarrow>
            let cd1 = cd\<lparr>cd_bot := bots, cd_nextRange := (if length bots = 0 then cd_thisRange cd else getKeyRange bots)\<rparr>
            in map_option (\<lambda>(cs', ok). (cs', cd1, ok)) (compareAndAdd cs cd1))"

definition fillTablesL0ToLbase :: "levelsController \<Rightarrow> compactDef \<Rightarrow> (compactStatus \<times> compactDef \<times> bool) option" where
  "fillTablesL0ToLbase lc cd =
     (let cs = lc_cstatus lc
      in if cd_nextLevel cd = 0 then None
      else if 0 < p_adjusted (cd_p cd) \<and> p_adjusted (cd_p cd) < 1 then Some (cs, cd, False)
      else case (handler_at lc (cd_thisLevel cd), handler_at lc (cd_nextLevel cd)) of
        (Some this, Some next) \<Rightarrow>
          let tops = lh_tables this
          in if length tops = 0 then Some (cs, cd, False)
             else if fileSz (cd_t cd) = [] then None
             else if t_Size (tops ! 0) < l0_target (cd_t cd) then Some (cs, cd, False)
             else claim_down cs next cd (if 0 < length (cd_dropPrefixes cd) then tops else overlap_prefix empty_range tops)
      | _ \<Rightarrow> None)"

definition fillTablesL98 :: "levelsController \<Rightarrow> compactDef \<Rightarrow> (compactStatus \<times> compactDef \<times> bool) option" where
  "fillTablesL98 lc cd =
     (if cd_nextLevel cd = 0 then None
      else case (handler_at lc (cd_thisLevel cd), handler_at lc (cd_nextLevel cd)) of
        (Some this, Some next) \<Rightarrow>
          let tops = lh_tables this
          in if length tops = 0 then Some (lc_cstatus lc, cd, False)
             else claim_down (lc_cstatus lc) next cd
               (if 0 < length (cd_dropPrefixes cd) then tops else overlap_prefix empty_range tops)
      | _ \<Rightarrow> None)"

definition fillTablesL0 :: "levelsController \<Rightarrow> compactDef \<Rightarrow> (compactStatus \<times> compactDef \<times> bool) option" where
  "fillTablesL0 lc cd = (case fillTablesL0ToLbase lc cd of None \<Rightarrow> None
     | Some (cs, cd', True) \<Rightarrow> Some (cs, cd', True)
     | Some (cs, cd', False) \<Rightarrow> fillTablesL0ToL0 lc cd')"

text \<open>The loop that \<open>fillTables\<close> and \<open>fillTablesL99\<close> have in common.\<close>

definition with_range :: "compactDef \<Rightarrow> table \<Rightarrow> compactDef" where
  "with_range cd t = cd\<lparr>cd_thisSize := t_Size t, cd_thisRange := getKeyRange [t]\<rparr>"

definition with_tables :: "compactDef \<Rightarrow> table \<Rightarrow> table list \<Rightarrow> compactDef" where
  "with_tables cd t bots = cd\<lparr>cd_top := [t], cd_bot := bots,
     cd_nextRange := (if length bots = 0 then cd_thisRange cd else getKeyRange bots)\<rparr>"

definition next_busy :: "compactStatus \<Rightarrow> compactDef \<Rightarrow> bool option" where
  "next_busy cs cd = (if length (cd_bot cd) = 0 then Some False else cs_overlapsWith cs (cd_nextLevel cd) (cd_nextRange cd))"

fun try_tables :: "compactStatus \<Rightarrow> levelHandler \<Rightarrow> compactDef \<Rightarrow> table list \<Rightarrow> (compactStatus \<times> compactDef \<times> bool) option" where
  "try_tables cs nextLevel cd0 [] = Some (cs, cd0, False)"
| "try_tables cs nextLevel cd0 (t # ts) =
     (let cd = with_range cd0 t
      in case cs_overlapsWith cs (cd_thisLevel cd) (cd_thisRange cd) of
        None \<Rightarrow> None
      | Some True \<Rightarrow> try_tables cs nextLevel cd ts
      | Some False \<Rightarrow>
         (case tables_between nextLevel (cd_thisRange cd) of None \<Rightarrow> None
          | Some bots \<Rightarrow>
             let cd1 = with_tables cd t bots
             in case next_busy cs cd1 of
                  None \<Rightarrow> None
                | Some True \<Rightarrow> try_tables cs nextLevel cd1 ts
                | Some False \<Rightarrow>
                   (case compareAndAdd cs cd1 of None \<Rightarrow> None
                    | Some (cs', True) \<Rightarrow> Some (cs', cd1, True)
                    | Some (cs', False) \<Rightarrow> try_tables cs nextLevel cd1 ts)))"

definition fillTablesL99 :: "levelsController \<Rightarrow> compactDef \<Rightarrow> (compactStatus \<times> compactDef \<times> bool) option" where
  "fillTablesL99 lc cd =
     (case (handler_at lc (cd_thisLevel cd), handler_at lc (cd_nextLevel cd)) of
        (Some this, Some next) \<Rightarrow>
          if length (lh_tables this) = 0 then Some (lc_cstatus lc, cd, False)
          else try_tables (lc_cstatus lc) next cd (sortByHeuristic (lh_tables this))
      | _ \<Rightarrow> None)"

section \<open>The last level\<close>

text \<open>\<open>collectBotTables\<close>: the tables behind \<open>t\<close> until the size would reach the target.\<close>

fun collect_bot :: "int \<Rightarrow> int \<Rightarrow> compactDef \<Rightarrow> table list \<Rightarrow> compactDef" where
  "collect_bot totalSize needSz cd [] = cd"
| "collect_bot totalSize needSz cd (newT # ts) =
     (if needSz \<le> totalSize + t_Size newT then cd
      else collect_bot (totalSize + t_Size newT) needSz
        (cd\<lparr>cd_bot := cd_bot cd @ [newT], cd_nextRange := kr_extend (cd_nextRange cd) (getKeyRange [newT])\<rparr>) ts)"

definition collectBotTables :: "table list \<Rightarrow> table \<Rightarrow> int \<Rightarrow> compactDef \<Rightarrow> compactDef option" where
  "collectBotTables tables t needSz cd =
     (let j = sort_search (length tables) (\<lambda>i. cmp_keys (t_Smallest (tables ! i)) (t_Smallest t) \<ge> 0)
      in if length tables \<le> j \<or> t_ID (tables ! j) \<noteq> t_ID t then None
         else Some (collect_bot (t_Size t) needSz cd (drop (Suc j) tables)))"

text \<open>The loop over the tables ends with a claim, or leaves the last attempt behind.\<close>

datatype max_result = Claimed compactStatus compactDef | Unclaimed compactDef

definition at_table :: "compactDef \<Rightarrow> table \<Rightarrow> compactDef" where
  "at_table cd t = cd\<lparr>cd_thisSize := t_Size t, cd_thisRange := getKeyRange [t], cd_nextRange := getKeyRange [t]\<rparr>"

fun max_tables :: "compactStatus \<Rightarrow> u64 \<Rightarrow> (table \<Rightarrow> bool) \<Rightarrow> table list \<Rightarrow> compactDef \<Rightarrow> table list \<Rightarrow> max_result option" where
  "max_tables cs discardTs hour_old tables cd [] = Some (Unclaimed cd)"
| "max_tables cs discardTs hour_old tables cd (t # ts) =
    (if discardTs < t_MaxVersion t \<or> \<not> hour_old t \<or> t_StaleDataSize t < 10 * 2 ^ 20 then max_tables cs discardTs hour_old tables cd ts
     else case cs_overlapsWith cs (cd_thisLevel cd) (getKeyRange [t]) of
       None \<Rightarrow> None
     | Some True \<Rightarrow> max_tables cs discardTs hour_old tables (at_table cd t) ts
     | Some False \<Rightarrow>
         if length (fileSz (cd_t cd)) \<le> cd_thisLevel cd then None
         else if fileSz (cd_t cd) ! cd_thisLevel cd \<le> t_Size t then Some (Unclaimed (at_table cd t\<lparr>cd_top := [t]\<rparr>))
         else (case collectBotTables tables t (fileSz (cd_t cd) ! cd_thisLevel cd) (at_table cd t\<lparr>cd_top := [t]\<rparr>) of None \<Rightarrow> None
           | Some cd2 \<Rightarrow>
              (case compareAndAdd cs cd2 of None \<Rightarrow> None
               | Some (cs', True) \<Rightarrow> Some (Claimed cs' cd2)
               | Some (cs', False) \<Rightarrow>
                   max_tables cs discardTs hour_old tables (cd2\<lparr>cd_bot := [], cd_nextRange := empty_range\<rparr>) ts)))"

definition fillMaxLevelTables ::
    "compactStatus \<Rightarrow> u64 \<Rightarrow> (table \<Rightarrow> bool) \<Rightarrow> table list \<Rightarrow> compactDef \<Rightarrow> (compactStatus \<times> compactDef \<times> bool) option" where
  "fillMaxLevelTables cs discardTs hour_old tables cd =
     (let sortedTables = sortByStaleDataSize tables
      in if 0 < length sortedTables \<and> t_StaleDataSize (sortedTables ! 0) = 0 then Some (cs, cd, False)
         else case max_tables cs discardTs hour_old tables (cd\<lparr>cd_bot := []\<rparr>) sortedTables of
           None \<Rightarrow> None
         | Some (Claimed cs' cd') \<Rightarrow> Some (cs', cd', True)
         | Some (Unclaimed cd') \<Rightarrow>
             if length (cd_top cd') = 0 then Some (cs, cd', False)
             else map_option (\<lambda>(cs', ok). (cs', cd', ok)) (compareAndAdd cs cd'))"

definition fillTables ::
    "nat \<Rightarrow> u64 \<Rightarrow> (table \<Rightarrow> bool) \<Rightarrow> levelsController \<Rightarrow> compactDef \<Rightarrow> (compactStatus \<times> compactDef \<times> bool) option" where
  "fillTables maxLevels discardTs hour_old lc cd =
     (case (handler_at lc (cd_thisLevel cd), handler_at lc (cd_nextLevel cd)) of
        (Some this, Some next) \<Rightarrow>
          let tables = lh_tables this
          in if length tables = 0 then Some (lc_cstatus lc, cd, False)
             else if isLastLevel maxLevels this then fillMaxLevelTables (lc_cstatus lc) discardTs hour_old tables cd
             else try_tables (lc_cstatus lc) next cd (sortByHeuristic tables)
      | _ \<Rightarrow> None)"

section \<open>Splits\<close>

definition split_width :: "table list \<Rightarrow> nat" where
  "split_width bots = (let width = nat \<lceil>f_div (f_of_int (int (length bots))) 5\<rceil> in if width < 3 then 3 else width)"

fun split_loop :: "nat \<Rightarrow> nat \<Rightarrow> nat \<Rightarrow> keyRange \<Rightarrow> table list \<Rightarrow> keyRange list" where
  "split_loop width n i skr [] = []"
| "split_loop width n i skr (t # ts) =
     (if i + 1 = n then [skr\<lparr>kr_right := []\<rparr>]
      else if i mod width = width - 1 then
        let right = KeyWithTs (parse_key (t_Biggest t)) 0
        in skr\<lparr>kr_right := right\<rparr> # split_loop width n (i + 1) (skr\<lparr>kr_left := right, kr_right := right\<rparr>) ts
      else split_loop width n (i + 1) skr ts)"

definition addSplits :: "compactDef \<Rightarrow> compactDef" where
  "addSplits cd = cd\<lparr>cd_splits :=
     split_loop (split_width (cd_bot cd)) (length (cd_bot cd)) 0 (kr_extend (cd_thisRange cd) (cd_nextRange cd)) (cd_bot cd)\<rparr>"

section \<open>The choice of a compaction\<close>

text \<open>
  The beginning of \<open>doCompact\<close>: the targets when the priority has none, the two levels,
  and the function for the level; \<open>Inl\<close> is \<open>errFillTables\<close>.
\<close>

definition new_def :: "int \<Rightarrow> compactionPriority \<Rightarrow> nat \<Rightarrow> nat \<Rightarrow> compactDef" where
  "new_def i p this next = \<lparr>cd_compactorId = i, cd_t = p_t p, cd_p = p, cd_thisLevel = this, cd_nextLevel = next,
     cd_top = [], cd_bot = [], cd_thisRange = empty_range, cd_nextRange = empty_range, cd_splits = [],
     cd_thisSize = 0, cd_dropPrefixes = p_dropPrefixes p\<rparr>"

definition prepare :: "lv_opts \<Rightarrow> levelsController \<Rightarrow> compactionPriority \<Rightarrow> compactionPriority" where
  "prepare opt lc p = (if baseLevel (p_t p) = 0 then p\<lparr>p_t := levelTargets opt lc\<rparr> else p)"

definition fill_for ::
    "lv_opts \<Rightarrow> nat \<Rightarrow> u64 \<Rightarrow> (table \<Rightarrow> bool) \<Rightarrow> levelsController \<Rightarrow> int \<Rightarrow> compactionPriority \<Rightarrow>
     (compactStatus \<times> compactDef \<times> bool) option" where
  "fill_for opt maxLevels discardTs hour_old lc i p0 =
     (let l = p_level p0; p = prepare opt lc p0; base = baseLevel (p_t p)
      in if l \<noteq> 98 \<and> l \<noteq> 99 \<and> \<not> l < maxLevels then None
         else if l = 0 then fillTablesL0 lc (new_def i p 0 base)
         else if l = 98 then fillTablesL98 lc (new_def i p 98 99)
         else if l = 99 then fillTablesL99 lc (new_def i p 99 base)
         else case handler_at lc l of None \<Rightarrow> None
           | Some h \<Rightarrow> fillTables maxLevels discardTs hour_old lc
               (new_def i p l (if isLastLevel maxLevels h then l else l + 1)))"

section \<open>What the functions take\<close>

text \<open>The number of a table file tells its level and its bounds, and no level holds one twice.\<close>

definition at_home :: "(u64 \<Rightarrow> nat \<times> keyRange) \<Rightarrow> levelsController \<Rightarrow> bool" where
  "at_home home lc \<longleftrightarrow> (\<forall>l h. handler_at lc l = Some h \<longrightarrow> lh_level h = l \<and> distinct (map t_ID (lh_tables h)) \<and>
     (\<forall>t \<in> set (lh_tables h). home (t_ID t) = (l, getKeyRange [t]) \<and> table_ok t))"

text \<open>A compaction from one level to another: the tables below are those that overlap the range.\<close>

definition down_ok :: "levelsController \<Rightarrow> compactDef \<Rightarrow> bool" where
  "down_ok lc cd \<longleftrightarrow> (\<exists>this next. handler_at lc (cd_thisLevel cd) = Some this \<and> handler_at lc (cd_nextLevel cd) = Some next \<and>
     cd_top cd \<noteq> [] \<and> set (cd_top cd) \<subseteq> set (lh_tables this) \<and> distinct (map t_ID (cd_top cd)) \<and>
     cd_thisRange cd = getKeyRange (cd_top cd) \<and> tables_between next (cd_thisRange cd) = Some (cd_bot cd) \<and>
     cd_nextRange cd = (if cd_bot cd = [] then cd_thisRange cd else getKeyRange (cd_bot cd)))"

lemma range_inf [simp]: "kr_inf (getKeyRange ts) = False"
  by (simp add: getKeyRange_def empty_range_def Let_def split: list.split)

lemma range_keys: "k \<in> kr_keys (getKeyRange [t]) \<longleftrightarrow>
    key_ok k \<and> key_le (KeyWithTs (parse_key (t_Smallest t)) (- 1)) k \<and> key_le k (KeyWithTs (parse_key (t_Biggest t)) 0)"
  by (simp add: kr_keys_def getKeyRange_def kr_isEmpty_def)

lemma range_subset: "t \<in> set ts \<Longrightarrow> kr_keys (getKeyRange [t]) \<subseteq> kr_keys (getKeyRange ts)"
proof
  fix k assume t: "t \<in> set ts" and "k \<in> kr_keys (getKeyRange [t])"
  then have k: "key_ok k" "key_le (KeyWithTs (parse_key (t_Smallest t)) (- 1)) k"
    "key_le k (KeyWithTs (parse_key (t_Biggest t)) 0)" by (simp_all add: range_keys)
  show "k \<in> kr_keys (getKeyRange ts)"
    using getKeyRange_covers [OF t k(1)] key_le_parse [OF k(2)] key_le_parse [OF k(3)] by simp
qed

lemma homed_tables:
  assumes "at_home home lc" and "handler_at lc l = Some h" and "set ts \<subseteq> set (lh_tables h)"
  shows "homed home l (getKeyRange ts) ts"
  unfolding homed_def
proof
  fix t assume t: "t \<in> set ts"
  then have "home (t_ID t) = (l, getKeyRange [t])" "table_ok t" using assms by (auto simp: at_home_def)
  then show "\<exists>k. home (t_ID t) = (l, k) \<and> kr_wf k \<and> kr_keys k \<subseteq> kr_keys (getKeyRange ts)"
    using getKeyRange_wf [of "[t]"] range_subset [OF t] by simp
qed

lemma tables_between_part: "tables_between lh kr = Some ts \<Longrightarrow>
    (\<exists>a b. lh_tables lh = a @ ts @ b) \<and> ts = take (snd (overlappingTables lh kr) - fst (overlappingTables lh kr)) (drop (fst (overlappingTables lh kr)) (lh_tables lh))"
  by (auto simp: tables_between_def Let_def split: prod.splits if_splits)
    (metis append_take_drop_id)

lemma down_claimed:
  assumes "at_home home lc" and d: "down_ok lc cd" and "cd_thisLevel cd \<noteq> cd_nextLevel cd"
  shows "cdef_ok home cd"
proof -
  obtain h n where h: "handler_at lc (cd_thisLevel cd) = Some h" "handler_at lc (cd_nextLevel cd) = Some n"
    and t: "cd_top cd \<noteq> []" "set (cd_top cd) \<subseteq> set (lh_tables h)" "distinct (map t_ID (cd_top cd))"
    and r: "cd_thisRange cd = getKeyRange (cd_top cd)"
    and b: "tables_between n (cd_thisRange cd) = Some (cd_bot cd)"
    and r': "cd_nextRange cd = (if cd_bot cd = [] then cd_thisRange cd else getKeyRange (cd_bot cd))"
    using d by (auto simp: down_ok_def)
  obtain a c where n: "lh_tables n = a @ cd_bot cd @ c" using tables_between_part [OF b] by blast
  have ok: "\<forall>t \<in> set (cd_top cd) \<union> set (cd_bot cd). table_ok t"
    using assms(1) h t(2) n unfolding at_home_def by fastforce
  have wf: "kr_wf (cd_thisRange cd)" "kr_wf (cd_nextRange cd)"
    using r r' getKeyRange_wf ok t(1) by auto
  have inf: "\<not> kr_inf (cd_thisRange cd)" "\<not> kr_inf (cd_nextRange cd)" using r r' by auto
  have hm: "homed home (cd_thisLevel cd) (cd_thisRange cd) (cd_top cd)"
    unfolding r by (rule homed_tables [OF assms(1) h(1) t(2)])
  have "set (cd_bot cd) \<subseteq> set (lh_tables n)" using n by auto
  from homed_tables [OF assms(1) h(2) this]
  have hb: "homed home (cd_nextLevel cd) (cd_nextRange cd) (cd_bot cd)" using r' by (auto simp: homed_def)
  have "distinct (map t_ID (lh_tables n))" using assms(1) h(2) unfolding at_home_def by blast
  then have "distinct (map t_ID (cd_bot cd))" unfolding n by simp
  moreover have "t_ID ` set (cd_top cd) \<inter> t_ID ` set (cd_bot cd) = {}"
    using hm hb assms(3) by (fastforce simp: homed_def)
  ultimately have "distinct (map t_ID (allTables cd))" using t(3) by (simp add: allTables_def)
  with wf inf hm hb show ?thesis by (simp add: cdef_ok_def)
qed

lemma overlap_prefix_part: "\<exists>b. ts = overlap_prefix kr ts @ b"
  by (induction kr ts rule: overlap_prefix.induct) (auto simp: Let_def)

lemma overlap_prefix_first: "ts \<noteq> [] \<Longrightarrow> overlap_prefix empty_range ts \<noteq> []"
  by (cases ts) (auto simp: kr_overlapsWith_def)

definition same_job :: "compactDef \<Rightarrow> compactDef \<Rightarrow> bool" where
  "same_job cd cd' \<longleftrightarrow> cd_thisLevel cd' = cd_thisLevel cd \<and> cd_nextLevel cd' = cd_nextLevel cd \<and> cd_t cd' = cd_t cd \<and>
     cd_splits cd' = cd_splits cd"

lemma claim_down_ok:
  assumes "claim_down cs n cd out = Some (cs', cd', True)" and "handler_at lc (cd_nextLevel cd) = Some n"
    and "handler_at lc (cd_thisLevel cd) = Some h" and "set out \<subseteq> set (lh_tables h)" and "distinct (map t_ID out)" and "out \<noteq> []"
  shows "down_ok lc cd' \<and> compareAndAdd cs cd' = Some (cs', True) \<and>
    same_job cd cd'"
  using assms by (auto simp: same_job_def claim_down_def Let_def down_ok_def split: option.splits)

lemma with_simps [simp]:
  "cd_thisLevel (with_range cd t) = cd_thisLevel cd" "cd_nextLevel (with_range cd t) = cd_nextLevel cd"
  "cd_t (with_range cd t) = cd_t cd" "cd_splits (with_range cd t) = cd_splits cd" "cd_thisRange (with_range cd t) = getKeyRange [t]"
  "cd_thisLevel (with_tables cd t b) = cd_thisLevel cd" "cd_nextLevel (with_tables cd t b) = cd_nextLevel cd"
  "cd_t (with_tables cd t b) = cd_t cd" "cd_splits (with_tables cd t b) = cd_splits cd"
  "cd_thisRange (with_tables cd t b) = cd_thisRange cd" "cd_top (with_tables cd t b) = [t]" "cd_bot (with_tables cd t b) = b"
  "cd_nextRange (with_tables cd t b) = (if b = [] then cd_thisRange cd else getKeyRange b)"
  by (simp_all add: with_range_def with_tables_def)

lemma try_tables_ok:
  assumes "try_tables cs n cd ts = Some (cs', cd', True)" and "handler_at lc (cd_nextLevel cd) = Some n"
    and "handler_at lc (cd_thisLevel cd) = Some h" and "set ts \<subseteq> set (lh_tables h)"
  shows "down_ok lc cd' \<and> compareAndAdd cs cd' = Some (cs', True) \<and> same_job cd cd' \<and> length (cd_top cd') = 1"
  using assms
proof (induction cs n cd ts rule: try_tables.induct)
  case (2 cs n cd t ts)
  let ?cd = "with_range cd t"
  have sub: "set ts \<subseteq> set (lh_tables h)" using "2.prems"(4) by simp
  have same: "same_job ?cd c \<Longrightarrow> same_job cd c" "same_job (with_tables ?cd t b) c \<Longrightarrow> same_job cd c" for b c
    by (simp_all add: same_job_def)
  note hs = "2.prems"(2,3)
  obtain b where o: "cs_overlapsWith cs (cd_thisLevel ?cd) (cd_thisRange ?cd) = Some b"
    using "2.prems"(1) by (auto simp: Let_def split: option.splits)
  show ?case
  proof (cases b)
    case True
    have "try_tables cs n ?cd ts = Some (cs', cd', True)" using "2.prems"(1) o True by (simp add: Let_def)
    from "2.IH"(1) [OF refl o _ this _ _ sub] True hs same(1) show ?thesis by simp
  next
    case nb: False
    obtain bots where bt: "tables_between n (cd_thisRange ?cd) = Some bots"
      using "2.prems"(1) o nb by (auto simp: Let_def split: option.splits)
    let ?cd1 = "with_tables ?cd t bots"
    obtain c where c: "next_busy cs ?cd1 = Some c"
      using "2.prems"(1) o nb bt by (auto simp: Let_def split: option.splits)
    show ?thesis
    proof (cases c)
      case True
      have "try_tables cs n ?cd1 ts = Some (cs', cd', True)" using "2.prems"(1) o nb bt c True by (simp add: Let_def)
      from "2.IH"(2) [OF refl o _ bt refl c _ this _ _ sub] True nb hs same(2) [of bots cd'] show ?thesis by simp
    next
      case nc: False
      obtain cs1 ok where ca: "compareAndAdd cs ?cd1 = Some (cs1, ok)"
        using "2.prems"(1) o nb bt c nc by (auto simp: Let_def split: option.splits)
      show ?thesis
      proof (cases ok)
        case True
        then have "cs' = cs1" "cd' = ?cd1" using "2.prems"(1) o nb bt c nc ca by (auto simp: Let_def)
        then show ?thesis using ca True bt "2.prems"(2-4) by (auto simp: down_ok_def same_job_def)
      next
        case nok: False
        have "try_tables cs n ?cd1 ts = Some (cs', cd', True)" using "2.prems"(1) o nb bt c nc ca nok by (simp add: Let_def)
        from "2.IH"(3) [OF refl o _ bt refl c _ ca refl _ this _ _ sub] nok nb nc hs same(2) [of bots cd'] show ?thesis by simp
      qed
    qed
  qed
qed simp

text \<open>The tables taken within level 0: not claimed by others, in the order of the level.\<close>

lemma pick_L0_ok:
  assumes "distinct (map t_ID (out @ ts))" and "pick_L0 skip targetSize ts out acc = (out', acc')" and "\<forall>t \<in> set out. \<not> skip t"
  shows "set out' \<subseteq> set out \<union> set ts \<and> distinct (map t_ID out') \<and> (\<forall>t \<in> set out'. \<not> skip t)"
  using assms
proof (induction skip targetSize ts out acc rule: pick_L0.induct)
  case (2 skip targetSize t ts out acc)
  show ?case
  proof (cases "skip t")
    case True
    then show ?thesis using "2.IH"(1) "2.prems" by (auto split: if_splits)
  next
    case False
    then show ?thesis using "2.IH"(2) "2.prems" by (auto split: if_splits)
  qed
qed auto

lemma fillTablesL0ToL0_ok:
  assumes "fillTablesL0ToL0 lc cd = Some (cs', cd', True)" and h: "at_home home lc" and "lc_levels lc \<noteq> []"
  shows "L0_def_ok home (lc_cstatus lc) cd' \<and> cs' = claim_L0 (lc_cstatus lc) (cd_top cd')"
proof -
  let ?top = "lh_tables (lc_levels lc ! 0)" and ?busy = "\<lambda>t. t_ID t \<in> cs_tables (lc_cstatus lc)" and ?g = "l0_target (cd_t cd)"
  have l0: "handler_at lc 0 = Some (lc_levels lc ! 0)" using assms(3) by (simp add: handler_at_def)
  then have d: "distinct (map t_ID ?top)" and hm: "\<forall>t \<in> set ?top. home (t_ID t) = (0, getKeyRange [t]) \<and> table_ok t"
    using h unfolding at_home_def by blast+
  obtain skip out acc where p: "pick_L0 skip ?g ?top [] 0 = (out, acc)" and sk: "\<forall>t. ?busy t \<longrightarrow> skip t"
    and r: "cs' = claim_L0 (lc_cstatus lc) out" "cd_top cd' = out" "cd_thisRange cd' = infRange" "cd_nextRange cd' = empty_range"
      "cd_bot cd' = []" "cd_compactorId cd' = 0" "cd_thisLevel cd' = 0" "cd_nextLevel cd' = 0"
    using assms(1)
    by (fastforce simp: fillTablesL0ToL0_def Let_def split: if_splits prod.splits)
  have out: "set out \<subseteq> set ?top" "distinct (map t_ID out)" "\<forall>t \<in> set out. \<not> skip t"
    using pick_L0_ok [OF _ p] d by auto
  have "homed home 0 infRange out"
    unfolding homed_def
  proof
    fix t assume "t \<in> set out"
    then have "home (t_ID t) = (0, getKeyRange [t])" "table_ok t" using hm out(1) by auto
    then show "\<exists>k. home (t_ID t) = (0, k) \<and> kr_wf k \<and> kr_keys k \<subseteq> kr_keys infRange"
      using getKeyRange_wf [of "[t]"] range_keys [of _ t] by (auto simp: kr_keys_def [of infRange] infRange_def [THEN arg_cong [where f = kr_inf], simplified])
  qed
  then show ?thesis using r out sk by (auto simp: L0_def_ok_def)
qed

section \<open>What the last level takes\<close>

lemma kr_extend_ok:
  assumes "kr_wf r" and "kr_wf d" and "\<not> kr_inf r" and "\<not> kr_inf d"
  shows "kr_wf (kr_extend r d) \<and> \<not> kr_inf (kr_extend r d) \<and> kr_keys r \<subseteq> kr_keys (kr_extend r d) \<and> kr_keys d \<subseteq> kr_keys (kr_extend r d)"
proof -
  have ok: "key_ok (kr_left r)" "key_ok (kr_right r)" "key_ok (kr_left d)" "key_ok (kr_right d)"
    "key_le (kr_left r) (kr_right r)" "key_le (kr_left d) (kr_right d)"
    using assms by (auto simp: kr_wf_def)
  have ne: "\<not> kr_isEmpty r" "\<not> kr_isEmpty d" "kr_left r \<noteq> []" "kr_right r \<noteq> []"
    using kr_wf_nonempty assms(1,2) ok by (auto simp: key_ok_def)
  let ?l = "if key_less (kr_left d) (kr_left r) then kr_left d else kr_left r"
  let ?r = "if key_less (kr_right r) (kr_right d) then kr_right d else kr_right r"
  have e: "kr_left (kr_extend r d) = ?l" "kr_right (kr_extend r d) = ?r" "kr_inf (kr_extend r d) = False"
    using ne assms(3,4) by (auto simp: kr_extend_def Let_def key_less_def cmp_keys_greater)
  have b: "key_le ?l (kr_left r)" "key_le ?l (kr_left d)" "key_le (kr_right r) ?r" "key_le (kr_right d) ?r"
    by (auto simp: key_le_iff not_key_less)
  then have "key_le ?l ?r" using ok(5) key_le_trans by blast
  then have wf: "kr_wf (kr_extend r d)" using ok e by (auto simp: kr_wf_def)
  then have ne': "\<not> kr_isEmpty (kr_extend r d)" by (rule kr_wf_nonempty)
  have "kr_keys x \<subseteq> kr_keys (kr_extend r d)" if x: "\<not> kr_inf x" "\<not> kr_isEmpty x" "key_le ?l (kr_left x)" "key_le (kr_right x) ?r" for x
  proof
    fix k assume "k \<in> kr_keys x"
    then have k: "key_ok k" "key_le (kr_left x) k" "key_le k (kr_right x)" using x(1,2) by (auto simp: kr_keys_def)
    then have "key_le (kr_left (kr_extend r d)) k" "key_le k (kr_right (kr_extend r d))"
      unfolding e using key_le_trans [OF x(3)] key_le_trans [OF _ x(4)] by blast+
    with k(1) ne' e(3) show "k \<in> kr_keys (kr_extend r d)" by (simp add: kr_keys_def)
  qed
  from this [OF assms(3) ne(1) b(1,3)] this [OF assms(4) ne(2) b(2,4)] wf e(3) show ?thesis by simp
qed

lemma collect_bot_ok:
  "\<exists>xs b. ts = xs @ b \<and> collect_bot totalSize needSz cd ts =
    cd\<lparr>cd_bot := cd_bot cd @ xs, cd_nextRange := foldl (\<lambda>r t. kr_extend r (getKeyRange [t])) (cd_nextRange cd) xs\<rparr>"
proof (induction totalSize needSz cd ts rule: collect_bot.induct)
  case (2 totalSize needSz cd t ts)
  show ?case
  proof (cases "needSz \<le> totalSize + t_Size t")
    case True
    then show ?thesis by (intro exI [of _ "[]"] exI [of _ "t # ts"]) simp
  next
    case False
    then obtain xs b where "ts = xs @ b" "collect_bot totalSize needSz cd (t # ts) =
      cd\<lparr>cd_bot := cd_bot cd @ t # xs,
         cd_nextRange := foldl (\<lambda>r t. kr_extend r (getKeyRange [t])) (cd_nextRange cd) (t # xs)\<rparr>"
      using "2.IH" by auto
    then show ?thesis by (intro exI [of _ "t # xs"] exI [of _ b]) simp
  qed
qed auto

lemma foldl_extend_ok:
  assumes "kr_wf r" and "\<not> kr_inf r" and "\<forall>t \<in> set ts. table_ok t"
  shows "kr_wf (foldl (\<lambda>r t. kr_extend r (getKeyRange [t])) r ts) \<and> \<not> kr_inf (foldl (\<lambda>r t. kr_extend r (getKeyRange [t])) r ts) \<and>
    kr_keys r \<subseteq> kr_keys (foldl (\<lambda>r t. kr_extend r (getKeyRange [t])) r ts) \<and>
    (\<forall>t \<in> set ts. kr_keys (getKeyRange [t]) \<subseteq> kr_keys (foldl (\<lambda>r t. kr_extend r (getKeyRange [t])) r ts))"
  using assms
proof (induction ts arbitrary: r)
  case (Cons t ts)
  have "kr_wf (getKeyRange [t])" using getKeyRange_wf [of "[t]"] Cons.prems(3) by simp
  from kr_extend_ok [OF Cons.prems(1) this Cons.prems(2)] Cons.IH [of "kr_extend r (getKeyRange [t])"] Cons.prems(3)
  show ?case by auto
qed simp

text \<open>A compaction within the last level: a table, and those behind it.\<close>

definition max_ok :: "table list \<Rightarrow> compactDef \<Rightarrow> bool" where
  "max_ok tables cd \<longleftrightarrow> (\<exists>t a b. cd_top cd = [t] \<and> tables = a @ t # cd_bot cd @ b \<and> cd_thisRange cd = getKeyRange [t] \<and>
     cd_nextRange cd = foldl (\<lambda>r t. kr_extend r (getKeyRange [t])) (getKeyRange [t]) (cd_bot cd))"

text \<open>
  What a round leaves behind that did not end in a claim: nothing taken, an empty next range
  (from a claim that failed), or a range that is claimed.
\<close>

definition left_behind :: "compactStatus \<Rightarrow> compactDef \<Rightarrow> bool" where
  "left_behind cs cd \<longleftrightarrow> cd_bot cd = [] \<and> (cd_top cd = [] \<or> cd_nextRange cd = empty_range \<or>
     cs_overlapsWith cs (cd_thisLevel cd) (cd_thisRange cd) = Some True)"

lemma collectBotTables_ok:
  assumes "collectBotTables tables t needSz cd = Some cd'" and "cd_top cd = [t]" and "cd_bot cd = []"
    and "cd_thisRange cd = getKeyRange [t]" and "cd_nextRange cd = getKeyRange [t]"
    and "t \<in> set tables" and "distinct (map t_ID tables)"
  shows "max_ok tables cd' \<and> same_job cd cd'"
proof -
  obtain j where j: "j < length tables" "t_ID (tables ! j) = t_ID t" "cd' = collect_bot (t_Size t) needSz cd (drop (Suc j) tables)"
    using assms(1) unfolding collectBotTables_def Let_def by (metis linorder_not_le option.distinct(1) option.inject)
  obtain i where i: "i < length tables" "t = tables ! i" using assms(6) by (auto simp: in_set_conv_nth)
  have "i = j" using nth_eq_iff_index_eq [OF assms(7), of i j] i j by simp
  then have t: "tables = take j tables @ t # drop (Suc j) tables" using i id_take_nth_drop by blast
  obtain xs b where c: "drop (Suc j) tables = xs @ b" "cd' = cd\<lparr>cd_bot := cd_bot cd @ xs,
      cd_nextRange := foldl (\<lambda>r t. kr_extend r (getKeyRange [t])) (cd_nextRange cd) xs\<rparr>"
    using collect_bot_ok [of "drop (Suc j) tables" "t_Size t" needSz cd] j(3) by auto
  have "cd_top cd' = [t] \<and> tables = take j tables @ t # cd_bot cd' @ b \<and> cd_thisRange cd' = getKeyRange [t] \<and>
     cd_nextRange cd' = foldl (\<lambda>r t. kr_extend r (getKeyRange [t])) (getKeyRange [t]) (cd_bot cd')"
    using c(2) assms(2-5) t unfolding c(1) by simp
  then have "max_ok tables cd'" unfolding max_ok_def by blast
  then show ?thesis using c(2) by (simp add: same_job_def)
qed

lemma same_job_trans: "same_job a b \<Longrightarrow> same_job b c \<Longrightarrow> same_job a c"
  by (simp add: same_job_def)

lemma at_table_simps [simp]:
  "cd_thisLevel (at_table cd t) = cd_thisLevel cd" "cd_bot (at_table cd t) = cd_bot cd" "cd_top (at_table cd t) = cd_top cd"
  "cd_thisRange (at_table cd t) = getKeyRange [t]" "cd_nextRange (at_table cd t) = getKeyRange [t]" "same_job cd (at_table cd t)"
  "cd_t (at_table cd t) = cd_t cd" "cd_nextLevel (at_table cd t) = cd_nextLevel cd" "cd_splits (at_table cd t) = cd_splits cd"
  by (simp_all add: at_table_def same_job_def)

lemmas max_tables_Cons = max_tables.simps(2)

declare max_tables.simps(2) [simp del]

lemma max_tables_ok:
  assumes "max_tables cs discardTs hour_old tables cd ts = Some r" and "left_behind cs cd"
    and "set ts \<subseteq> set tables" and "distinct (map t_ID tables)"
  shows "case r of Claimed cs' cd' \<Rightarrow> max_ok tables cd' \<and> same_job cd cd' \<and> compareAndAdd cs cd' = Some (cs', True)
    | Unclaimed cd' \<Rightarrow> same_job cd cd' \<and> (max_ok tables cd' \<or> left_behind cs cd')"
  using assms(1-3)
proof (induction ts arbitrary: cd)
  case Nil
  then show ?case by (auto simp: same_job_def)
next
  case (Cons t ts)
  let ?goal = "\<lambda>c. case r of Claimed cs' cd' \<Rightarrow> max_ok tables cd' \<and> same_job c cd' \<and> compareAndAdd cs cd' = Some (cs', True)
    | Unclaimed cd' \<Rightarrow> same_job c cd' \<and> (max_ok tables cd' \<or> left_behind cs cd')"
  have again: "?goal cd" if "max_tables cs discardTs hour_old tables c ts = Some r" "left_behind cs c" "same_job cd c" for c
    using Cons.IH [OF that(1,2)] Cons.prems(3) same_job_trans [OF that(3)] by (auto split: max_result.splits)
  have bt: "cd_bot cd = []" using Cons.prems(2) by (simp add: left_behind_def)
  show ?case
  proof (cases "discardTs < t_MaxVersion t \<or> \<not> hour_old t \<or> t_StaleDataSize t < 10 * 2 ^ 20")
    case True
    then show ?thesis using again [of cd] Cons.prems unfolding max_tables_Cons by (simp add: same_job_def)
  next
    case no: False
    let ?b = "at_table cd t\<lparr>cd_top := [t]\<rparr>"
    obtain busy where o: "cs_overlapsWith cs (cd_thisLevel cd) (getKeyRange [t]) = Some busy"
      using Cons.prems(1) no unfolding max_tables_Cons by (auto split: option.splits)
    show ?thesis
    proof (cases busy)
      case True
      then have "left_behind cs (at_table cd t)" using o bt by (simp add: left_behind_def)
      then show ?thesis using again [of "at_table cd t"] Cons.prems(1) no o True unfolding max_tables_Cons by simp
    next
      case free: False
      have sb: "same_job cd ?b" by (simp add: same_job_def)
      show ?thesis
      proof (cases "fileSz (cd_t cd) ! cd_thisLevel cd \<le> t_Size t")
        case True
        then have r: "r = Unclaimed ?b" using Cons.prems(1) no o free unfolding max_tables_Cons by (simp split: if_splits)
        obtain a b where "tables = a @ t # b" using Cons.prems(3) split_list [of t tables] by auto
        then have "max_ok tables ?b" using bt by (simp add: max_ok_def) blast
        then show ?thesis using r sb by simp
      next
        case big: False
        obtain cd2 where c: "collectBotTables tables t (fileSz (cd_t cd) ! cd_thisLevel cd) ?b = Some cd2"
          using Cons.prems(1) no o free big unfolding max_tables_Cons by (auto split: option.splits if_splits)
        have m: "max_ok tables cd2" "same_job cd cd2"
          using collectBotTables_ok [OF c] bt Cons.prems(3) assms(4) same_job_trans [OF sb] by auto
        obtain cs1 ok where ca: "compareAndAdd cs cd2 = Some (cs1, ok)"
          using Cons.prems(1) no o free big c unfolding max_tables_Cons by (auto split: option.splits if_splits)
        show ?thesis
        proof (cases ok)
          case True
          then have "r = Claimed cs1 cd2"
            using Cons.prems(1) no o free big c ca unfolding max_tables_Cons by (simp split: if_splits)
          then show ?thesis using m ca True by simp
        next
          case nok: False
          let ?n = "cd2\<lparr>cd_bot := [], cd_nextRange := empty_range\<rparr>"
          have "left_behind cs ?n" "same_job cd ?n" using m(2) by (simp_all add: left_behind_def same_job_def)
          then show ?thesis
            using again [of ?n] Cons.prems(1) no o free big c ca nok unfolding max_tables_Cons by (simp split: if_splits)
        qed
      qed
    qed
  qed
qed

lemma max_ok_cdef:
  assumes "at_home home lc" and "handler_at lc (cd_thisLevel cd) = Some h" and "cd_nextLevel cd = cd_thisLevel cd"
    and "max_ok (lh_tables h) cd"
  shows "cdef_ok home cd"
proof -
  obtain t a b where t: "cd_top cd = [t]" "lh_tables h = a @ t # cd_bot cd @ b" "cd_thisRange cd = getKeyRange [t]"
    "cd_nextRange cd = foldl (\<lambda>r t. kr_extend r (getKeyRange [t])) (getKeyRange [t]) (cd_bot cd)"
    using assms(4) by (auto simp: max_ok_def)
  have d: "distinct (map t_ID (lh_tables h))"
    and hm: "\<forall>u \<in> set (lh_tables h). home (t_ID u) = (cd_thisLevel cd, getKeyRange [u]) \<and> table_ok u"
    using assms(1,2) unfolding at_home_def by blast+
  have ok: "table_ok t" "\<forall>u \<in> set (cd_bot cd). table_ok u" using hm t(2) by auto
  have wf: "kr_wf (getKeyRange [u])" if "table_ok u" for u using getKeyRange_wf [of "[u]"] that by simp
  note n = foldl_extend_ok [OF wf [OF ok(1)] _ ok(2), folded t(4), simplified]
  have "homed home (cd_thisLevel cd) (cd_thisRange cd) (cd_top cd)"
    unfolding t(1,3) by (rule homed_tables [OF assms(1,2)]) (use t(2) in simp)
  moreover have "homed home (cd_nextLevel cd) (cd_nextRange cd) (cd_bot cd)"
    unfolding homed_def
  proof
    fix u assume u: "u \<in> set (cd_bot cd)"
    then have "home (t_ID u) = (cd_nextLevel cd, getKeyRange [u])" using hm t(2) assms(3) by auto
    then show "\<exists>k. home (t_ID u) = (cd_nextLevel cd, k) \<and> kr_wf k \<and> kr_keys k \<subseteq> kr_keys (cd_nextRange cd)"
      using n u wf ok(2) by auto
  qed
  moreover have "distinct (map t_ID (allTables cd))" using d unfolding t(2) by (simp add: allTables_def t(1))
  moreover have "kr_wf (cd_thisRange cd)" "\<not> kr_inf (cd_thisRange cd)" using t(3) wf [OF ok(1)] by simp_all
  ultimately show ?thesis using n by (simp add: cdef_ok_def)
qed

lemma left_behind_claim: "left_behind cs cd \<Longrightarrow> cd_top cd \<noteq> [] \<Longrightarrow> compareAndAdd cs cd = Some (cs', True) \<Longrightarrow> cd_nextRange cd = empty_range"
  by (auto simp: left_behind_def compareAndAdd_True cs_overlapsWith_def ls_overlapsWith_ranges split: option.splits)

lemma fillMaxLevelTables_ok:
  assumes "fillMaxLevelTables cs discardTs hour_old tables cd = Some (cs', cd', True)" and "cd_top cd = []"
    and "distinct (map t_ID tables)"
  shows "same_job cd cd' \<and> compareAndAdd cs cd' = Some (cs', True) \<and>
    (max_ok tables cd' \<or> cd_bot cd' = [] \<and> cd_nextRange cd' = empty_range)"
proof -
  have lb: "left_behind cs (cd\<lparr>cd_bot := []\<rparr>)" using assms(2) by (simp add: left_behind_def)
  have sub: "set (sortByStaleDataSize tables) \<subseteq> set tables"
    unfolding sortByStaleDataSize_def using mset_go_sort [of by_StaleDataSize tables] by (metis set_mset_mset subset_refl)
  obtain r where r: "max_tables cs discardTs hour_old tables (cd\<lparr>cd_bot := []\<rparr>) (sortByStaleDataSize tables) = Some r"
    using assms(1) by (auto simp: fillMaxLevelTables_def Let_def split: if_splits option.splits)
  note m = max_tables_ok [OF r lb sub assms(3)]
  have sj: "same_job (cd\<lparr>cd_bot := []\<rparr>) c \<Longrightarrow> same_job cd c" for c by (simp add: same_job_def)
  show ?thesis
  proof (cases r)
    case (Claimed cs1 c)
    then have "cs' = cs1 \<and> cd' = c" using assms(1) r by (auto simp: fillMaxLevelTables_def Let_def split: if_splits)
    then show ?thesis using m Claimed sj by simp
  next
    case (Unclaimed c)
    then have "cd' = c \<and> cd_top c \<noteq> [] \<and> compareAndAdd cs c = Some (cs', True)"
      using assms(1) r by (auto simp: fillMaxLevelTables_def Let_def split: if_splits)
    moreover have "same_job cd c" using m Unclaimed sj by simp
    moreover have "max_ok tables c \<or> left_behind cs c" using m Unclaimed by simp
    ultimately show ?thesis using left_behind_claim [of cs c cs'] unfolding left_behind_def by blast
  qed
qed

section \<open>Every claim is a step of the compactors\<close>

definition status_matches :: "levelsController \<Rightarrow> bool" where
  "status_matches lc \<longleftrightarrow> length (cs_levels (lc_cstatus lc)) = length (lc_levels lc) \<and> length (lc_levels lc) \<le> 98"

lemma handler_level: "at_home home lc \<Longrightarrow> handler_at lc l = Some h \<Longrightarrow> lh_level h = l \<and> distinct (map t_ID (lh_tables h))"
  by (auto simp: at_home_def)

lemma same_job_levels: "same_job (new_def i p this next) cd \<Longrightarrow> cd_thisLevel cd = this \<and> cd_nextLevel cd = next \<and> cd_splits cd = []"
  by (simp add: same_job_def new_def_def)

lemma oldest_ok:
  assumes "ts \<noteq> []" and "distinct (map t_ID ts)"
  shows "set (if P then ts else overlap_prefix empty_range ts) \<subseteq> set ts"
    "distinct (map t_ID (if P then ts else overlap_prefix empty_range ts))"
    "(if P then ts else overlap_prefix empty_range ts) \<noteq> []"
proof -
  obtain b where b: "ts = overlap_prefix empty_range ts @ b" using overlap_prefix_part by blast
  have "set p \<subseteq> set ts \<and> distinct (map t_ID p)" if "ts = p @ b" for p using that assms(2) by auto
  from this [OF b] have "set (overlap_prefix empty_range ts) \<subseteq> set ts" "distinct (map t_ID (overlap_prefix empty_range ts))"
    by simp_all
  then show "set (if P then ts else overlap_prefix empty_range ts) \<subseteq> set ts"
    "distinct (map t_ID (if P then ts else overlap_prefix empty_range ts))"
    "(if P then ts else overlap_prefix empty_range ts) \<noteq> []"
    using assms overlap_prefix_first [OF assms(1)] by simp_all
qed

lemma fillTablesL0ToLbase_ok:
  assumes "fillTablesL0ToLbase lc cd = Some (cs', cd', True)" and "at_home home lc"
  shows "down_ok lc cd' \<and> compareAndAdd (lc_cstatus lc) cd' = Some (cs', True) \<and> same_job cd cd' \<and> cd_nextLevel cd \<noteq> 0"
proof -
  obtain h n where hn: "handler_at lc (cd_thisLevel cd) = Some h" "handler_at lc (cd_nextLevel cd) = Some n"
    and ne: "lh_tables h \<noteq> []" and nz: "cd_nextLevel cd \<noteq> 0"
    and c: "claim_down (lc_cstatus lc) n cd (if 0 < length (cd_dropPrefixes cd) then lh_tables h
        else overlap_prefix empty_range (lh_tables h)) = Some (cs', cd', True)"
    using assms(1) by (auto simp: fillTablesL0ToLbase_def Let_def split: if_splits option.splits)
  have d: "distinct (map t_ID (lh_tables h))" using handler_level [OF assms(2) hn(1)] by simp
  show ?thesis using claim_down_ok [OF c hn(2,1) oldest_ok [OF ne d]] nz by blast
qed

lemma fillTablesL98_ok:
  assumes "fillTablesL98 lc cd = Some (cs', cd', True)" and "at_home home lc"
  shows "down_ok lc cd' \<and> compareAndAdd (lc_cstatus lc) cd' = Some (cs', True) \<and> same_job cd cd'"
proof -
  obtain h n where hn: "handler_at lc (cd_thisLevel cd) = Some h" "handler_at lc (cd_nextLevel cd) = Some n"
    and ne: "lh_tables h \<noteq> []"
    and c: "claim_down (lc_cstatus lc) n cd (if 0 < length (cd_dropPrefixes cd) then lh_tables h
        else overlap_prefix empty_range (lh_tables h)) = Some (cs', cd', True)"
    using assms(1) by (auto simp: fillTablesL98_def Let_def split: if_splits option.splits)
  have d: "distinct (map t_ID (lh_tables h))" using handler_level [OF assms(2) hn(1)] by simp
  show ?thesis using claim_down_ok [OF c hn(2,1) oldest_ok [OF ne d]] by blast
qed

lemma sortByHeuristic_set: "set (sortByHeuristic ts) = set ts"
  unfolding sortByHeuristic_def using mset_go_sort [of by_MaxVersion ts] by (metis set_mset_mset)

lemma fillTablesL99_ok:
  assumes "fillTablesL99 lc cd = Some (cs', cd', True)"
  shows "down_ok lc cd' \<and> compareAndAdd (lc_cstatus lc) cd' = Some (cs', True) \<and> same_job cd cd'"
proof -
  obtain h n where hn: "handler_at lc (cd_thisLevel cd) = Some h" "handler_at lc (cd_nextLevel cd) = Some n"
    and c: "try_tables (lc_cstatus lc) n cd (sortByHeuristic (lh_tables h)) = Some (cs', cd', True)"
    using assms by (auto simp: fillTablesL99_def Let_def split: if_splits option.splits)
  show ?thesis using try_tables_ok [OF c hn(2,1)] sortByHeuristic_set by simp
qed

lemma fillTables_ok:
  assumes "fillTables maxLevels discardTs hour_old lc cd = Some (cs', cd', True)" and "at_home home lc" and "cd_top cd = []"
  obtains h where "handler_at lc (cd_thisLevel cd) = Some h" "same_job cd cd'" "compareAndAdd (lc_cstatus lc) cd' = Some (cs', True)"
    "if isLastLevel maxLevels h then max_ok (lh_tables h) cd' \<or> cd_bot cd' = [] \<and> cd_nextRange cd' = empty_range else down_ok lc cd'"
proof -
  obtain h n where hn: "handler_at lc (cd_thisLevel cd) = Some h" "handler_at lc (cd_nextLevel cd) = Some n"
    using assms(1) by (auto simp: fillTables_def split: option.splits)
  show ?thesis
  proof (cases "isLastLevel maxLevels h")
    case True
    then have "fillMaxLevelTables (lc_cstatus lc) discardTs hour_old (lh_tables h) cd = Some (cs', cd', True)"
      using assms(1) hn by (simp add: fillTables_def Let_def split: if_splits)
    from fillMaxLevelTables_ok [OF this assms(3)] handler_level [OF assms(2) hn(1)] True hn(1) that show ?thesis by simp
  next
    case False
    then have "try_tables (lc_cstatus lc) n cd (sortByHeuristic (lh_tables h)) = Some (cs', cd', True)"
      using assms(1) hn by (simp add: fillTables_def Let_def split: if_splits)
    from try_tables_ok [OF this hn(2,1)] sortByHeuristic_set hn(1) that False show ?thesis by simp
  qed
qed

text \<open>An empty range that a failed attempt in the last level leaves in the claim.\<close>

definition empty_claim :: "nat \<Rightarrow> compactDef \<Rightarrow> bool" where
  "empty_claim maxLevels cd \<longleftrightarrow> int (cd_thisLevel cd) = int maxLevels - 1 \<and> cd_nextLevel cd = cd_thisLevel cd \<and>
     cd_bot cd = [] \<and> cd_nextRange cd = empty_range"

lemma claim_step:
  assumes "at_home home lc" and "compareAndAdd (lc_cstatus lc) cd = Some (cs', True)" and "cdef_ok home cd"
  shows "cstep home \<lparr>cw_status = lc_cstatus lc, cw_running = R\<rparr> \<lparr>cw_status = cs', cw_running = cd # R\<rparr>"
  using cstep.start [of "\<lparr>cw_status = lc_cstatus lc, cw_running = R\<rparr>" cd cs' home] assms by simp

lemma fill_for_step:
  assumes f: "fill_for opt maxLevels discardTs hour_old lc i p = Some (cs', cd, True)"
    and home: "at_home home lc" and st: "status_matches lc" and b: "baseLevel (p_t (prepare opt lc p)) < 98" and "maxLevels \<le> 98"
    and R: "\<forall>c \<in> set R. \<not> kr_inf (cd_thisRange c)"
  shows "cstep home \<lparr>cw_status = lc_cstatus lc, cw_running = R\<rparr> \<lparr>cw_status = cs', cw_running = cd # R\<rparr> \<or>
    empty_claim maxLevels cd \<and> compareAndAdd (lc_cstatus lc) cd = Some (cs', True)"
proof -
  let ?p = "prepare opt lc p" and ?base = "baseLevel (p_t (prepare opt lc p))"
  have down: ?thesis if "down_ok lc cd \<and> compareAndAdd (lc_cstatus lc) cd = Some (cs', True) \<and> same_job (new_def i q this next) cd"
    "this \<noteq> next" for q this "next"
    using claim_step [OF home] down_claimed [OF home] that same_job_levels by metis
  consider "p_level p = 0" | "p_level p = 98" | "p_level p = 99" | "p_level p \<noteq> 0" "p_level p \<noteq> 98" "p_level p \<noteq> 99" by blast
  then show ?thesis
  proof cases
    case 1
    then have "fillTablesL0 lc (new_def i ?p 0 ?base) = Some (cs', cd, True)"
      using f by (simp add: fill_for_def Let_def split: if_splits)
    then consider "fillTablesL0ToLbase lc (new_def i ?p 0 ?base) = Some (cs', cd, True)"
      | cs1 cd1 where "fillTablesL0ToLbase lc (new_def i ?p 0 ?base) = Some (cs1, cd1, False)" "fillTablesL0ToL0 lc cd1 = Some (cs', cd, True)"
      by (auto simp: fillTablesL0_def split: option.splits bool.splits)
    then show ?thesis
    proof cases
      case 1
      from fillTablesL0ToLbase_ok [OF 1 home] have "?base \<noteq> 0" by (simp add: new_def_def)
      then show ?thesis using down [of ?p 0 ?base] fillTablesL0ToLbase_ok [OF 1 home] by simp
    next
      case 2
      have ne: "lc_levels lc \<noteq> []" using 2(2) by (auto simp: fillTablesL0ToL0_def Let_def split: if_splits)
      have "level_ok (lc_cstatus lc) 0" using st ne by (auto simp: status_matches_def level_ok_def)
      with fillTablesL0ToL0_ok [OF 2(2) home ne] R
        cstep.start_L0 [of "\<lparr>cw_status = lc_cstatus lc, cw_running = R\<rparr>" home cd]
      show ?thesis by simp
    qed
  next
    case 2
    then have "fillTablesL98 lc (new_def i ?p 98 99) = Some (cs', cd, True)"
      using f by (simp add: fill_for_def Let_def)
    from down [OF fillTablesL98_ok [OF this home]] show ?thesis by simp
  next
    case 3
    then have "fillTablesL99 lc (new_def i ?p 99 ?base) = Some (cs', cd, True)"
      using f by (simp add: fill_for_def Let_def)
    from down [OF fillTablesL99_ok [OF this]] b show ?thesis by simp
  next
    case 4
    let ?l = "p_level p"
    obtain h where h: "handler_at lc ?l = Some h"
      and ft: "fillTables maxLevels discardTs hour_old lc (new_def i ?p ?l (if isLastLevel maxLevels h then ?l else ?l + 1)) = Some (cs', cd, True)"
      using f 4 by (auto simp: fill_for_def Let_def split: if_splits option.splits)
    have top: "cd_top (new_def i ?p ?l (if isLastLevel maxLevels h then ?l else ?l + 1)) = []" by (simp add: new_def_def)
    obtain h' where r: "handler_at lc ?l = Some h'" "same_job (new_def i ?p ?l (if isLastLevel maxLevels h then ?l else ?l + 1)) cd"
      "compareAndAdd (lc_cstatus lc) cd = Some (cs', True)"
      "if isLastLevel maxLevels h' then max_ok (lh_tables h') cd \<or> cd_bot cd = [] \<and> cd_nextRange cd = empty_range else down_ok lc cd"
      using fillTables_ok [OF ft home top] by (auto simp: new_def_def)
    have hh: "h' = h" using r(1) h by simp
    note lv = same_job_levels [OF r(2)]
    have l: "lh_level h = ?l" using handler_level [OF home h] by simp
    show ?thesis
    proof (cases "isLastLevel maxLevels h")
      case False
      then show ?thesis using r(3,4) lv hh claim_step [OF home r(3)] down_claimed [OF home] by simp
    next
      case True
      then have nl: "cd_nextLevel cd = cd_thisLevel cd" "cd_thisLevel cd = ?l" using lv by simp_all
      have lev: "int ?l = int maxLevels - 1" using True l by (simp add: isLastLevel_def)
      show ?thesis
      proof (cases "max_ok (lh_tables h) cd")
        case m: True
        have "cdef_ok home cd" by (rule max_ok_cdef [OF home _ nl(1) m]) (use h nl in simp)
        then show ?thesis using claim_step [OF home r(3)] by simp
      next
        case False
        then show ?thesis using r(3,4) True hh nl lev by (simp add: empty_claim_def)
      qed
    qed
  qed
qed

section \<open>The splits cover the range\<close>

definition from_bound :: "bytes \<Rightarrow> entry list \<Rightarrow> entry list" where
  "from_bound l es = filter (\<lambda>e. \<not> (l \<noteq> [] \<and> key_less (fst e) l)) es"

lemma split_no_right: "split_entries l [] es = from_bound l es"
  by (simp add: split_entries_def from_bound_def)

lemma split_then:
  assumes "sorted_wrt key_less (map fst es)" and "b \<noteq> []" and "l = [] \<or> key_le l b"
  shows "split_entries l b es @ from_bound b es = from_bound l es"
  using assms(1)
proof (induction es)
  case (Cons e es)
  have IH: "split_entries l b es @ from_bound b es = from_bound l es" using Cons by simp
  show ?case
  proof (cases "key_less (fst e) b")
    case True
    then show ?thesis using IH assms(2) by (auto simp: split_entries_def from_bound_def)
  next
    case False
    have "\<not> key_less (fst f) b" if "f \<in> set es" for f
      using Cons.prems that False key_less_trans [of "fst e" "fst f" b] by auto
    then have "split_entries l b es = []" by (auto simp: split_entries_def filter_empty_conv assms(2))
    moreover have "\<not> (l \<noteq> [] \<and> key_less (fst e) l)" using False assms(3) key_less_le_trans [of "fst e" l b] by auto
    ultimately show ?thesis using IH False assms(2) by (auto simp: split_entries_def from_bound_def)
  qed
qed (simp add: split_entries_def from_bound_def)

definition end_of :: "table \<Rightarrow> bytes" where
  "end_of t = KeyWithTs (parse_key (t_Biggest t)) 0"

lemma end_of_not_Nil [simp]: "end_of t \<noteq> []"
  by (simp add: end_of_def)

lemma split_loop_cover:
  assumes "sorted_wrt key_less (map fst es)" and "ts \<noteq> []" and "n = i + length ts"
    and "sorted_wrt (\<lambda>a b. key_le (end_of a) (end_of b)) ts" and "\<forall>t \<in> set ts. kr_left skr = [] \<or> key_le (kr_left skr) (end_of t)"
  shows "concat (map (\<lambda>kr. split_entries (kr_left kr) (kr_right kr) es) (split_loop w n i skr ts)) = from_bound (kr_left skr) es"
  using assms(2-)
proof (induction w n i skr ts rule: split_loop.induct)
  case (2 w n i skr t ts)
  show ?case
  proof (cases "ts = []")
    case True
    then show ?thesis using "2.prems" by (simp add: split_no_right)
  next
    case False
    then have n: "i + 1 \<noteq> n" using "2.prems"(2) by (cases ts) auto
    have nn: "n = i + 1 + length ts" using "2.prems"(2) by simp
    show ?thesis
    proof (cases "i mod w = w - 1")
      case True
      have "sorted_wrt (\<lambda>a b. key_le (end_of a) (end_of b)) ts" using "2.prems"(3) by simp
      moreover have "\<forall>u \<in> set ts. kr_left (skr\<lparr>kr_left := end_of t, kr_right := end_of t\<rparr>) = [] \<or>
          key_le (kr_left (skr\<lparr>kr_left := end_of t, kr_right := end_of t\<rparr>)) (end_of u)"
        using "2.prems"(3) by simp
      ultimately have "concat (map (\<lambda>kr. split_entries (kr_left kr) (kr_right kr) es)
          (split_loop w n (i + 1) (skr\<lparr>kr_left := end_of t, kr_right := end_of t\<rparr>) ts)) = from_bound (end_of t) es"
        using "2.IH"(1) [OF n True refl False nn] by (simp add: end_of_def)
      moreover have "kr_left skr = [] \<or> key_le (kr_left skr) (end_of t)" using "2.prems"(4) by auto
      note split_then [OF assms(1) end_of_not_Nil this]
      ultimately show ?thesis using n True by (simp add: Let_def end_of_def)
    next
      case False': False
      then show ?thesis using "2.IH"(2) [OF n False' \<open>ts \<noteq> []\<close> nn] "2.prems"(3,4) n by simp
    qed
  qed
qed simp

lemma split_loop_count:
  "0 < w \<Longrightarrow> ts \<noteq> [] \<Longrightarrow> n = i + length ts \<Longrightarrow> length (split_loop w n i skr ts) = (n - 1) div w - i div w + 1"
proof (induction w n i skr ts rule: split_loop.induct)
  case (2 w n i skr t ts)
  show ?case
  proof (cases "ts = []")
    case True
    then show ?thesis using "2.prems" by simp
  next
    case False
    then have n: "i + 1 \<noteq> n" using "2.prems"(3) by (cases ts) auto
    have nn: "n = i + 1 + length ts" using "2.prems"(3) by simp
    have le: "(i + 1) div w \<le> (n - 1) div w" by (rule div_le_mono) (use nn False in \<open>cases ts, auto\<close>)
    show ?thesis
    proof (cases "i mod w = w - 1")
      case True
      then have "(i + 1) div w = i div w + 1" using "2.prems"(1) by (simp add: div_Suc mod_Suc)
      then show ?thesis using "2.IH"(1) [OF n True refl "2.prems"(1) False nn] n True le by (simp add: Let_def)
    next
      case no: False
      then have "(i + 1) mod w \<noteq> 0" using "2.prems"(1) by (auto simp: mod_Suc)
      then have "(i + 1) div w = i div w" by (simp add: div_Suc)
      then show ?thesis using "2.IH"(2) [OF n no "2.prems"(1) False nn] n no by simp
    qed
  qed
qed simp

text \<open>The width is the fifth part of the tables, rounded up.\<close>

lemma split_width_ge: "length ts < 2 ^ 40 \<Longrightarrow> length ts \<le> 5 * split_width ts"
proof -
  assume small: "length ts < 2 ^ 40"
  define k where "k = length ts div 5"
  define r where "r = length ts mod 5"
  have n: "length ts = 5 * k + r" by (simp add: k_def r_def)
  have k: "k < 2 ^ 40" using small k_def by simp
  have e: "f_of_int (int (length ts)) = of_nat (length ts)" using small by (simp add: f_of_int_exact)
  have "k + (if r = 0 then 0 else 1) \<le> nat \<lceil>f_div (f_of_int (int (length ts))) 5\<rceil>"
  proof (cases "r = 0")
    case True
    then have "f_div (f_of_int (int (length ts))) 5 = rnd (of_int (int k))"
      unfolding f_div_def e by (simp add: n)
    also have "\<dots> = of_int (int k)" by (rule rnd_of_int) (use k in simp)
    finally show ?thesis using True by simp
  next
    case False
    have "rnd ((8 * of_nat k + 1) / 8) = ((8 * of_nat k + 1) / 8 :: rat)"
      by (rule rnd_exact [of _ "8 * int k + 1" "- 3"]) (use k in \<open>auto simp: power_int_minus\<close>)
    moreover have "rnd ((8 * of_nat k + 1) / 8) \<le> rnd (of_nat (length ts) / 5)"
      by (rule rnd_mono) (use False in \<open>simp add: n\<close>)
    ultimately have "(8 * of_nat k + 1) / 8 \<le> f_div (f_of_int (int (length ts))) 5" by (simp add: f_div_def e)
    then have "of_int (int k) < f_div (f_of_int (int (length ts))) 5" by (simp add: field_simps)
    then have "int k < \<lceil>f_div (f_of_int (int (length ts))) 5\<rceil>" by (simp add: less_ceiling_iff)
    then show ?thesis using False by simp
  qed
  moreover have "r < 5" by (simp add: r_def)
  ultimately show ?thesis using n by (auto simp: split_width_def Let_def split: if_splits)
qed

lemma split_width_pos: "3 \<le> split_width ts"
  by (simp add: split_width_def Let_def)

lemma range_left:
  assumes "ts \<noteq> []"
  shows "\<exists>t \<in> set ts. kr_left (getKeyRange ts) = KeyWithTs (parse_key (t_Smallest t)) (- 1) \<and>
    (\<forall>u \<in> set ts. key_le (t_Smallest t) (t_Smallest u))"
proof -
  obtain t us where ts: "ts = t # us" using assms by (cases ts) auto
  let ?s = "foldl min_key (t_Smallest t) us"
  have "kr_left (getKeyRange ts) = KeyWithTs (parse_key ?s) (- 1)" by (simp add: ts getKeyRange_def Let_def)
  then show ?thesis using min_key_fold [of "t_Smallest t" us] ts by auto
qed

lemma kr_extend_left:
  assumes "kr_wf r" and "kr_wf d" and "\<not> kr_inf r" and "\<not> kr_inf d"
  shows "kr_left (kr_extend r d) \<in> {kr_left r, kr_left d} \<and> key_le (kr_left (kr_extend r d)) (kr_left r) \<and> key_le (kr_left (kr_extend r d)) (kr_left d)"
proof -
  have ne: "\<not> kr_isEmpty r" "\<not> kr_isEmpty d" "kr_left r \<noteq> []"
    using kr_wf_nonempty assms by (auto simp: kr_wf_def key_ok_def)
  then have "kr_left (kr_extend r d) = (if key_less (kr_left d) (kr_left r) then kr_left d else kr_left r)"
    using assms(3,4) by (auto simp: kr_extend_def Let_def key_less_def)
  then show ?thesis by (auto simp: key_le_iff not_key_less)
qed

lemma built_user: "built_table t \<Longrightarrow> parse_key (t_Smallest t) \<noteq> [] \<and> parse_key (t_Biggest t) \<noteq> [] \<and> key_le (t_Smallest t) (t_Biggest t) \<and>
    table_ok t"
proof -
  assume b: "built_table t"
  then have "stored_key (fst (hd (t_data t)))" "stored_key (fst (last (t_data t)))" by (auto simp: built_table_def)
  then have "parse_key (fst (hd (t_data t))) \<noteq> []" "parse_key (fst (last (t_data t))) \<noteq> []"
    by (auto simp: stored_key_def parse_key_def)
  moreover have "t_Smallest t = fst (hd (t_data t))" "t_Biggest t = fst (last (t_data t))" "table_ok t"
    using b unfolding built_table_def by blast+
  moreover have "key_le (t_Smallest t) (t_Biggest t)" using \<open>table_ok t\<close> unfolding table_ok_def by blast
  ultimately show ?thesis by simp
qed

lemma split_bound_ends:
  "built_table t \<Longrightarrow> split_bound (end_of t)" "built_table t \<Longrightarrow> split_bound (KeyWithTs (parse_key (t_Smallest t)) (- 1))"
  using built_user [of t] by (simp_all add: split_bound_def end_of_def)

lemma split_loop_bounds: "kr \<in> set (split_loop w n i skr ts) \<Longrightarrow>
    kr_left kr \<in> insert (kr_left skr) (end_of ` set ts) \<and> kr_right kr \<in> insert [] (end_of ` set ts)"
proof (induction w n i skr ts rule: split_loop.induct)
  case (2 w n i skr t ts)
  show ?case
  proof (cases "i + 1 = n \<or> i mod w \<noteq> w - 1")
    case True
    then show ?thesis using "2.prems" "2.IH"(2) by (auto split: if_splits)
  next
    case False
    then show ?thesis using "2.prems" "2.IH"(1) by (auto simp: Let_def end_of_def)
  qed
qed simp

lemma entry_from_left:
  assumes "t \<in> set ts" and "\<forall>t \<in> set ts. built_table t" and "e \<in> set (t_data t)"
  shows "key_le (kr_left (getKeyRange ts)) (fst e)"
proof -
  have ne: "ts \<noteq> []" using assms(1) by auto
  obtain u :: table where u: "kr_left (getKeyRange ts) = KeyWithTs (parse_key (t_Smallest u)) (- 1)" "\<forall>v \<in> set ts. key_le (t_Smallest u) (t_Smallest v)"
    using range_left [OF ne] by blast
  have b: "built_table t" using assms(1,2) by blast
  then have "key_le (t_Smallest t) (fst e)" "key_ok (fst e)" using built_bounds [OF b assms(3)] built_entries [OF b] assms(3) by auto
  then show ?thesis unfolding u(1) using key_le_parse key_le_trans u(2) assms(1) by (intro key_le_left_end) blast+
qed

lemma addSplits_ok:
  assumes "cd_bot cd \<noteq> []" and "length (cd_bot cd) < 2 ^ 40" and "\<forall>t \<in> set (cd_bot cd). built_table t"
    and "sorted_wrt before_table (cd_bot cd)" and "cd_nextRange cd = getKeyRange (cd_bot cd)"
    and "cd_thisRange cd = getKeyRange tops" and "tops \<noteq> []" and "\<forall>t \<in> set tops. built_table t"
    and "sorted_wrt key_less (map fst es)" and "\<forall>e \<in> set es. \<exists>t \<in> set tops \<union> set (cd_bot cd). e \<in> set (t_data t)"
  shows "concat (map (\<lambda>kr. split_entries (kr_left kr) (kr_right kr) es) (cd_splits (addSplits cd))) = es \<and>
    length (cd_splits (addSplits cd)) \<le> 5 \<and>
    (\<forall>kr \<in> set (cd_splits (addSplits cd)). split_bound (kr_left kr) \<and> split_bound (kr_right kr))"
proof -
  let ?bots = "cd_bot cd" and ?w = "split_width (cd_bot cd)" and ?skr = "kr_extend (cd_thisRange cd) (cd_nextRange cd)"
  have splits: "cd_splits (addSplits cd) = split_loop ?w (length ?bots) 0 ?skr ?bots" by (simp add: addSplits_def)
  have wf: "kr_wf (cd_thisRange cd)" "kr_wf (cd_nextRange cd)" "\<not> kr_inf (cd_thisRange cd)" "\<not> kr_inf (cd_nextRange cd)"
    using assms(1,3,5-8) getKeyRange_wf built_user by auto
  note l = kr_extend_left [OF wf]
  obtain u v where u: "u \<in> set tops" "kr_left (cd_thisRange cd) = KeyWithTs (parse_key (t_Smallest u)) (- 1)"
    and v: "v \<in> set ?bots" "kr_left (cd_nextRange cd) = KeyWithTs (parse_key (t_Smallest v)) (- 1)"
      "\<forall>t \<in> set ?bots. key_le (t_Smallest v) (t_Smallest t)"
    using range_left [OF assms(7)] range_left [OF assms(1)] assms(5,6) by auto
  have sb: "split_bound (kr_left ?skr)" using l u v split_bound_ends(2) assms(3,8) by auto
  have left: "key_le (kr_left ?skr) (end_of t)" if t: "t \<in> set ?bots" for t
  proof -
    have "key_le (t_Smallest v) (t_Biggest t)" using v(3) t built_user assms(3) key_le_trans by blast
    then have "key_le (kr_left (cd_nextRange cd)) (end_of t)"
      unfolding v(2) end_of_def using key_le_parse by (intro key_le_left_end) auto
    then show ?thesis using l key_le_trans by blast
  qed
  have ends: "sorted_wrt (\<lambda>a b. key_le (end_of a) (end_of b)) ?bots"
  proof (rule sorted_wrt_mono_rel [OF _ assms(4)])
    fix a b assume "a \<in> set ?bots" "b \<in> set ?bots" "before_table a b"
    then have "key_le (t_Biggest a) (t_Biggest b)"
      using built_user [of b] assms(3) key_less_le_trans [of "t_Biggest a" "t_Smallest b" "t_Biggest b"]
      by (auto simp: before_table_def key_le_iff)
    then show "key_le (end_of a) (end_of b)" unfolding end_of_def using key_le_parse by (intro key_le_right_end) auto
  qed
  have "\<not> key_less (fst e) (kr_left ?skr)" if e: "e \<in> set es" for e
  proof -
    obtain t where "t \<in> set tops \<or> t \<in> set ?bots" "e \<in> set (t_data t)" using assms(10) e by blast
    then have "key_le (kr_left (cd_thisRange cd)) (fst e) \<or> key_le (kr_left (cd_nextRange cd)) (fst e)"
      using entry_from_left assms(3,5,6,8) by metis
    then show ?thesis using l key_le_trans not_key_less by blast
  qed
  then have "from_bound (kr_left ?skr) es = es" by (auto simp: from_bound_def filter_id_conv)
  then have part: "concat (map (\<lambda>kr. split_entries (kr_left kr) (kr_right kr) es) (cd_splits (addSplits cd))) = es"
    unfolding splits using split_loop_cover [OF assms(9,1) _ ends, of "length ?bots" 0 ?skr ?w] left by simp
  have "(length ?bots - 1) div ?w \<le> 4"
  proof -
    have "length ?bots - 1 < 5 * ?w" using split_width_ge [OF assms(2)] assms(1) by (cases "cd_bot cd") auto
    then have "(length ?bots - 1) div ?w < 5" using split_width_pos [of ?bots] by (simp add: div_less_iff_less_mult)
    then show ?thesis by simp
  qed
  then have count: "length (cd_splits (addSplits cd)) \<le> 5"
    unfolding splits using split_loop_count [of ?w ?bots "length ?bots" 0 ?skr] split_width_pos [of ?bots] assms(1) by simp
  have "split_bound (kr_left kr) \<and> split_bound (kr_right kr)" if "kr \<in> set (cd_splits (addSplits cd))" for kr
    using split_loop_bounds [OF that [unfolded splits]] sb split_bound_ends(1) assms(3) by (auto simp: split_bound_def [of "[]"])
  with part count show ?thesis by blast
qed

section \<open>Properties\<close>

text \<open>
  C22: whatever compaction the fill functions choose is a step of the protocol that keeps
  compactions apart (theory \<open>CompactStatus\<close>): its tables lie in its levels and in its ranges, and
  \<open>compareAndAdd\<close> accepted its claim; or it is a compaction of level 0 into itself, of tables nobody
  has marked, which claims the infinite range without a check. The one exception is a compaction
  within the last level without bottom tables, whose claim was accepted but has an empty next range.
\<close>

theorem fill_claims:
  assumes "fill_for opt maxLevels discardTs hour_old lc i p = Some (cs', cd, True)"
    and "at_home home lc" and "status_matches lc" and "baseLevel (p_t (prepare opt lc p)) < 98" and "maxLevels \<le> 98"
    and "\<forall>c \<in> set R. \<not> kr_inf (cd_thisRange c)"
  shows "cstep home \<lparr>cw_status = lc_cstatus lc, cw_running = R\<rparr> \<lparr>cw_status = cs', cw_running = cd # R\<rparr> \<or>
    empty_claim maxLevels cd \<and> compareAndAdd (lc_cstatus lc) cd = Some (cs', True)"
  by (rule fill_for_step [OF assms])

definition ex_targets :: targets where
  "ex_targets = \<lparr>baseLevel = 1, targetSz = [0, 100, 100], fileSz = [10, 10, 10]\<rparr>"

definition ex_prio :: compactionPriority where
  "ex_prio = \<lparr>p_level = 1, p_score = 2, p_adjusted = 2, p_dropPrefixes = [], p_t = ex_targets\<rparr>"

definition ex_job :: compactDef where
  "ex_job = (new_def 1 ex_prio 1 2)\<lparr>cd_thisSize := 1, cd_thisRange := getKeyRange [ttl_table], cd_top := [ttl_table],
     cd_nextRange := getKeyRange [ttl_table]\<rparr>"

lemma ex_tree_status: "lc_cstatus ex_tree = ex_status 4"
  by (simp add: ex_tree_def)

definition ex_fill_tree :: levelsController where
  "ex_fill_tree = (ttl_tree [ttl_table])\<lparr>lc_cstatus := ex_status 3\<rparr>"

lemma ex_fill: "\<exists>cs'. fill_for default_opts 3 10 (\<lambda>_. True) ex_fill_tree 1 ex_prio = Some (cs', ex_job, True)"
proof -
  let ?cs = "ex_status 3" and ?cd = "new_def 1 ex_prio 1 2"
  have h: "handler_at ex_fill_tree (Suc 0) = Some (initTables (newLevelHandler 1) [ttl_table])"
    "handler_at ex_fill_tree 2 = Some (newLevelHandler 2)" "lc_cstatus ex_fill_tree = ?cs"
    by (simp_all add: ex_fill_tree_def handler_at_def ttl_tree_def)
  have free: "getLevelStatus ?cs 1 = Some new_ls" "getLevelStatus ?cs 2 = Some new_ls" "ls_ranges new_ls = []"
    by (simp_all add: ex_status_def getLevelStatus_def new_ls_def)
  have "fill_for default_opts 3 10 (\<lambda>_. True) ex_fill_tree 1 ex_prio = fillTables 3 10 (\<lambda>_. True) ex_fill_tree ?cd"
    using h(1) by (simp add: fill_for_def Let_def prepare_def ex_prio_def ex_targets_def isLastLevel_def initTables_1 numeral_2_eq_2)
  also have "\<dots> = try_tables ?cs (newLevelHandler 2) ?cd [ttl_table]"
    using h by (simp add: fillTables_def new_def_def isLastLevel_def initTables_1 sortByHeuristic_def)
  also have "\<dots> = map_option (\<lambda>(cs', ok). (cs', ex_job, ok)) (compareAndAdd ?cs ex_job)"
  proof -
    have b: "tables_between (newLevelHandler 2) (getKeyRange [ttl_table]) = Some []"
      by (simp add: tables_between_def overlappingTables_def newLevelHandler_def)
    have j: "with_tables (with_range ?cd ttl_table) ttl_table [] = ex_job"
      by (simp add: with_tables_def with_range_def ex_job_def new_def_def ttl_table_def small_table_def)
    have lv: "cd_thisLevel ?cd = 1" "cd_nextLevel ?cd = 2" "cd_bot ex_job = []" by (simp_all add: new_def_def ex_job_def)
    show ?thesis
      using free b j lv by (auto simp: Let_def cs_overlapsWith_def ls_overlapsWith_def next_busy_def
          dest: compareAndAdd_False split: option.splits bool.splits)
  qed
  finally show ?thesis
    using free by (auto simp: compareAndAdd_def ls_overlapsWith_def ex_job_def new_def_def Let_def)
qed

definition ex_home :: "u64 \<Rightarrow> nat \<times> keyRange" where
  "ex_home i = (if i = 9 then (1, getKeyRange [ttl_table]) else (99, getKeyRange [small_table 4 [(KeyWithTs [2] 3, small_vs 1)]]))"

lemma ex_fill_home: "at_home ex_home ex_fill_tree"
proof -
  have b: "built_table ttl_table" "built_table (small_table 4 [(KeyWithTs [2] 3, small_vs 1)])"
    unfolding ttl_table_def by (rule small_table_built; simp)+
  have lv: "lc_levels ex_fill_tree = [newLevelHandler 0, initTables (newLevelHandler 1) [ttl_table], newLevelHandler 2]"
    by (simp add: ex_fill_tree_def ttl_tree_def)
  have e: "lh_level (newLevelHandler n) = n" for n by (simp add: newLevelHandler_def)
  have "(l, h) \<in> {(0, newLevelHandler 0), (1, initTables (newLevelHandler 1) [ttl_table]), (2, newLevelHandler 2), (98, newLevelHandler 98),
      (99, initTables (newLevelHandler 99) [small_table 4 [(KeyWithTs [2] 3, small_vs 1)]])}"
    if "handler_at ex_fill_tree l = Some h" for l h
  proof -
    have "l = 98 \<or> l = 99 \<or> l = 0 \<or> l = 1 \<or> l = 2" using that unfolding handler_at_def lv by (auto split: if_splits)
    then show ?thesis using that unfolding handler_at_def lv by (elim disjE) (simp_all add: ex_fill_tree_def ttl_tree_def)
  qed
  moreover have "t_ID ttl_table = 9" by (simp add: ttl_table_def)
  ultimately show ?thesis
    using b unfolding at_home_def by (fastforce simp: initTables_1 e ex_home_def built_table_def)
qed

lemma fill_claims_witness:
  "\<exists>cs'. cstep ex_home \<lparr>cw_status = ex_status 3, cw_running = []\<rparr> \<lparr>cw_status = cs', cw_running = [ex_job]\<rparr>"
proof -
  obtain cs' where c: "fill_for default_opts 3 10 (\<lambda>_. True) ex_fill_tree 1 ex_prio = Some (cs', ex_job, True)" using ex_fill by blast
  have st: "status_matches ex_fill_tree" by (simp add: status_matches_def ex_fill_tree_def ttl_tree_def ex_status_def)
  have b: "baseLevel (p_t (prepare default_opts ex_fill_tree ex_prio)) < 98"
    by (simp add: prepare_def ex_prio_def ex_targets_def)
  have "\<not> empty_claim 3 ex_job" by (simp add: empty_claim_def ex_job_def new_def_def)
  then show ?thesis using fill_claims [OF c ex_fill_home st b, of "[]"] by (auto simp: ex_fill_tree_def)
qed

text \<open>
  C34: with data in levels 0 and 1 there is no base level (it is 0) exactly when the last level, scaled
  down to level 1, exceeds the base size; and then every attempt to compact level 0 panics, since
  \<open>fillTablesL0ToLbase\<close> asserts that there is one.
\<close>

theorem no_base_level:
  assumes n: "3 \<le> length (lc_levels lc)" and m: "0 < lo_LevelSizeMultiplier opt"
    and sz: "0 \<le> lh_totalSize (lastLevel lc)"
    and used: "lh_totalSize (lc_levels lc ! 0) \<noteq> 0" "0 < lh_totalSize (lc_levels lc ! 1)"
    and p: "p_level p = 0" "p_t p = levelTargets opt lc" "0 < maxLevels"
  shows "(baseLevel (levelTargets opt lc) = 0 \<longleftrightarrow>
      lo_BaseLevelSize opt < lh_totalSize (lastLevel lc) div lo_LevelSizeMultiplier opt ^ (length (lc_levels lc) - 2)) \<and>
    (baseLevel (levelTargets opt lc) = 0 \<longrightarrow> fill_for opt maxLevels discardTs hour_old lc i p = None)"
  using base_level_zero [OF n m sz used] p
  by (simp add: fill_for_def prepare_def fillTablesL0_def fillTablesL0ToLbase_def new_def_def Let_def)

lemma no_base_level_witness:
  "baseLevel (levelTargets default_opts (sized_tree [1, 1, 0, 0, 0, 0, 2000000000000])) = 0 \<and>
   fill_for default_opts 7 0 (\<lambda>_. True) (sized_tree [1, 1, 0, 0, 0, 0, 2000000000000]) 0
     (priority (levelTargets default_opts (sized_tree [1, 1, 0, 0, 0, 0, 2000000000000])) 0 1) = None"
  using no_base_level [of "sized_tree [1, 1, 0, 0, 0, 0, 2000000000000]" default_opts
    "priority (levelTargets default_opts (sized_tree [1, 1, 0, 0, 0, 0, 2000000000000])) 0 1" 7 0 "\<lambda>_. True" 0]
  by (simp add: sized_tree_def default_opts_def lastLevel_def newLevelHandler_def priority_def)

text \<open>
  C25: the splits of a compaction cut its entries into at most five parts that make up all
  of them, in order, and never cut between two versions of a user key.
\<close>

theorem splits_partition:
  assumes "cd_bot cd \<noteq> []" and "length (cd_bot cd) < 2 ^ 40" and "\<forall>t \<in> set (cd_bot cd). built_table t"
    and "sorted_wrt before_table (cd_bot cd)" and "cd_nextRange cd = getKeyRange (cd_bot cd)"
    and "cd_thisRange cd = getKeyRange tops" and "tops \<noteq> []" and "\<forall>t \<in> set tops. built_table t"
    and "sorted_wrt key_less (map fst es)" and "\<forall>e \<in> set es. \<exists>t \<in> set tops \<union> set (cd_bot cd). e \<in> set (t_data t)"
  shows "concat (map (\<lambda>kr. split_entries (kr_left kr) (kr_right kr) es) (cd_splits (addSplits cd))) = es \<and>
    length (cd_splits (addSplits cd)) \<le> 5 \<and>
    (\<forall>kr \<in> set (cd_splits (addSplits cd)). split_bound (kr_left kr) \<and> split_bound (kr_right kr))"
  by (rule addSplits_ok [OF assms])

lemma splits_partition_witness:
  "concat (map (\<lambda>kr. split_entries (kr_left kr) (kr_right kr) (t_data ttl_table))
    (cd_splits (addSplits (ex_job\<lparr>cd_bot := [ttl_table]\<rparr>)))) = t_data ttl_table"
proof -
  have b: "built_table ttl_table" unfolding ttl_table_def by (rule small_table_built; simp)
  show ?thesis
    using splits_partition [of "ex_job\<lparr>cd_bot := [ttl_table]\<rparr>" "[ttl_table]" "t_data ttl_table"] b
    by (simp add: ex_job_def) (simp add: ttl_table_def)
qed

text \<open>
  a failed attempt in the last level can end in a claim with an empty next range. It
  overlaps everything and is never removed, so that no later compaction can claim anything
  in the last level, even when nothing runs any more.
\<close>

definition stale_table :: "u64 \<Rightarrow> byte \<Rightarrow> nat \<Rightarrow> table" where
  "stale_table i b n = (small_table i [(KeyWithTs [b] 5, small_vs 1)])\<lparr>t_StaleDataSize := n\<rparr>"

definition last_tables :: "table list" where
  "last_tables = [stale_table 1 1 (2 ^ 24), stale_table 2 2 0]"

text \<open>A compaction into the last level that has claimed the range of its second table.\<close>

definition other_job :: compactDef where
  "other_job = (new_def 2 ex_prio 1 2)\<lparr>cd_thisRange := getKeyRange [stale_table 2 2 0], cd_nextRange := getKeyRange [stale_table 2 2 0]\<rparr>"

definition max_job :: compactDef where
  "max_job = new_def 1 ex_prio 2 2"

lemma empty_range_blocks:
  assumes "empty_range \<in> set (ranges_at cs (cd_nextLevel cd))"
  shows "compareAndAdd cs cd \<noteq> Some (cs', True)"
proof
  assume "compareAndAdd cs cd = Some (cs', True)"
  then have "\<not> kr_overlapsWith empty_range (cd_nextRange cd)" using assms unfolding compareAndAdd_True by blast
  then show False by (simp add: kr_overlapsWith_def)
qed

lemma bytes_1_2: "\<not> (2 :: byte) \<le> 1" "(1 :: byte) \<le> 2"
  by (simp_all add: word_le_nat_alt)

text \<open>C35: The status with the given ranges in levels 1 and 2.\<close>

definition status3 :: "keyRange list \<Rightarrow> keyRange list \<Rightarrow> int \<Rightarrow> u64 set \<Rightarrow> compactStatus" where
  "status3 rs1 rs2 n ids = \<lparr>cs_levels = [new_ls, \<lparr>ls_ranges = rs1, ls_delSize = 0\<rparr>, \<lparr>ls_ranges = rs2, ls_delSize = n\<rparr>],
     cs_tables = ids, cs_hotTierStatus = Some new_ls, cs_hotTierOrdStatus = Some new_ls\<rparr>"

definition byte_range :: "byte \<Rightarrow> byte \<Rightarrow> keyRange" where
  "byte_range a b = \<lparr>kr_left = KeyWithTs [a] (- 1), kr_right = KeyWithTs [b] 0, kr_inf = False, kr_size = 0\<rparr>"

lemma byte_ranges:
  "getKeyRange [stale_table i b n] = byte_range b b"
  "kr_overlapsWith (byte_range a b) (byte_range c d) \<longleftrightarrow> a \<le> d \<and> c \<le> b"
  "\<not> kr_overlapsWith (byte_range a b) empty_range"
  "kr_extend (byte_range 1 1) (byte_range 2 2) = byte_range 1 2"
  "kr_equals (byte_range a b) (byte_range c d) \<longleftrightarrow> a = c \<and> b = d"
  "\<not> kr_equals empty_range (byte_range c d)"
  "\<not> kr_isEmpty (byte_range a b)"
proof -
  have ne: "\<not> kr_isEmpty (byte_range a b)" for a b by (simp add: byte_range_def kr_isEmpty_def)
  show "\<not> kr_isEmpty (byte_range a b)" by (rule ne)
  show "getKeyRange [stale_table i b n] = byte_range b b"
    by (simp add: getKeyRange_def stale_table_def small_table_def byte_range_def)
  have c: "0 < cmp_keys (KeyWithTs [a] (- 1)) (KeyWithTs [d] 0) \<longleftrightarrow> d < a" "cmp_keys (KeyWithTs [b] 0) (KeyWithTs [c] (- 1)) < 0 \<longleftrightarrow> b < c"
    for a b c d :: byte by (auto simp: cmp_KeyWithTs cmp_keys_KeyWithTs_less)
  show "kr_overlapsWith (byte_range a b) (byte_range c d) \<longleftrightarrow> a \<le> d \<and> c \<le> b"
    using ne by (auto simp: kr_overlapsWith_def byte_range_def c)
  show "\<not> kr_overlapsWith (byte_range a b) empty_range" using ne by (simp add: kr_overlapsWith_def)
  show "kr_extend (byte_range 1 1) (byte_range 2 2) = byte_range 1 2"
    by (simp add: kr_extend_def ne) (simp add: byte_range_def cmp_KeyWithTs cmp_keys_KeyWithTs_less)
  have inj: "KeyWithTs [a] t = KeyWithTs [b] t \<longleftrightarrow> a = b" for a b t
    by (metis list.inject parse_key_KeyWithTs)
  show "kr_equals (byte_range a b) (byte_range c d) \<longleftrightarrow> a = c \<and> b = d"
    by (simp add: kr_equals_def byte_range_def inj)
  show "\<not> kr_equals empty_range (byte_range c d)"
    using KeyWithTs_not_Nil [of "[c]" "- 1", symmetric] by (auto simp: kr_equals_def byte_range_def empty_range_def)
qed

theorem last_level_blocked:
  "\<exists>cs1 cs2 cs3 cs4 cd. compareAndAdd (ex_status 3) other_job = Some (cs1, True) \<and>
     fillMaxLevelTables cs1 10 (\<lambda>_. True) last_tables max_job = Some (cs2, cd, True) \<and>
     cs_delete cs2 cd = Some cs3 \<and> cs_delete cs3 other_job = Some cs4 \<and>
     (\<forall>cd' cs5. compareAndAdd cs4 (cd'\<lparr>cd_nextLevel := 2\<rparr>) \<noteq> Some (cs5, True))"
proof -
  let ?t = "stale_table 1 1 (2 ^ 24)" and ?u = "stale_table 2 2 0" and ?r = "byte_range 2 2"
  let ?cs1 = "status3 [?r] [?r] 0 {}"
  let ?cd = "max_job\<lparr>cd_thisSize := 1, cd_thisRange := byte_range 1 1, cd_top := [?t], cd_nextRange := empty_range\<rparr>"
  let ?cs2 = "status3 [?r] [?r, byte_range 1 1, empty_range] 1 {1}"
  have st: "ex_status 3 = status3 [] [] 0 {}"
    by (simp add: ex_status_def status3_def new_ls_def numeral_3_eq_3)
  note defs = compareAndAdd_def getLevelStatus_def setLevelStatus_def add_range_def add_delSize_def status3_def ls_overlapsWith_def
    new_def_def allTables_def byte_ranges bytes_1_2
  have a: "compareAndAdd (ex_status 3) other_job = Some (?cs1, True)"
    unfolding st by (simp add: other_job_def defs new_ls_def)
  have b: "fillMaxLevelTables ?cs1 10 (\<lambda>_. True) last_tables max_job = Some (?cs2, ?cd, True)"
  proof -
    have s: "sortByStaleDataSize last_tables = [?t, ?u]"
      by (simp add: sortByStaleDataSize_def last_tables_def by_StaleDataSize_def stale_table_def)
    have f: "t_StaleDataSize ?t = 2 ^ 24" "t_StaleDataSize ?u = 0" "t_MaxVersion ?t \<le> 10" "t_MaxVersion ?u \<le> 10" "t_Size ?t = 1" "t_Size ?u = 1"
      by (simp_all add: stale_table_def small_table_def)
    let ?c2 = "at_table max_job ?t\<lparr>cd_top := [?t], cd_bot := [?u], cd_nextRange := byte_range 1 2\<rparr>"
    have ov: "cs_overlapsWith ?cs1 2 (byte_range 1 1) = Some False"
      by (simp add: cs_overlapsWith_def defs)
    have col: "collectBotTables last_tables ?t 10 (at_table max_job ?t\<lparr>cd_top := [?t]\<rparr>) = Some ?c2"
    proof -
      have k: "0 \<le> cmp_keys (t_Smallest ?t) (t_Smallest ?t)" "last_tables ! 0 = ?t" "length last_tables = 2" "drop 1 last_tables = [?u]"
        "0 \<le> cmp_keys (t_Smallest (last_tables ! Suc 0)) (t_Smallest ?t)"
        by (simp_all add: last_tables_def cmp_keys_ge) (simp add: stale_table_def small_table_def key_le_def cmp_KeyWithTs)
      then have "sort_search (length last_tables) (\<lambda>i. 0 \<le> cmp_keys (t_Smallest (last_tables ! i)) (t_Smallest ?t)) = 0"
        by (simp add: sort_search_def search_loop.simps)
      then show ?thesis using k f by (simp add: collectBotTables_def at_table_def max_job_def new_def_def byte_ranges)
    qed
    have ca: "compareAndAdd ?cs1 ?c2 = Some (?cs1, False)"
      by (simp add: defs at_table_def max_job_def)
    have m: "max_tables ?cs1 10 (\<lambda>_. True) last_tables (max_job\<lparr>cd_bot := []\<rparr>) [?t, ?u] = Some (Unclaimed ?cd)"
      using f ov col ca by (simp add: max_tables_Cons max_job_def new_def_def ex_prio_def ex_targets_def at_table_def byte_ranges)
    have "compareAndAdd ?cs1 ?cd = Some (?cs2, True)"
      by (simp add: defs max_job_def stale_table_def)
    then show ?thesis using m f by (simp add: fillMaxLevelTables_def s)
  qed
  have c: "cs_delete ?cs2 ?cd = Some (status3 [?r] [?r, empty_range] 0 {})"
    by (simp add: cs_delete_def level_ok_def remove_range_def ls_remove_def defs max_job_def stale_table_def)
  have d: "cs_delete (status3 [?r] [?r, empty_range] 0 {}) other_job = Some (status3 [] [empty_range] 0 {})"
    by (simp add: cs_delete_def level_ok_def remove_range_def ls_remove_def defs other_job_def)
  have "empty_range \<in> set (ranges_at (status3 [] [empty_range] 0 {}) 2)"
    by (simp add: status3_def ranges_at_def getLevelStatus_def)
  then have "\<forall>cd' cs5. compareAndAdd (status3 [] [empty_range] 0 {}) (cd'\<lparr>cd_nextLevel := 2\<rparr>) \<noteq> Some (cs5, True)"
    using empty_range_blocks by simp
  with a b c d show ?thesis by blast
qed

end
