(* ===== verification/Compact.thy ===== *)
theory Compact
  imports Fill Manifest
begin

text \<open>
  A compaction from its choice to its end (\<open>levels.go\<close>: \<open>compactBuildTables\<close>,
  \<open>buildChangeSet\<close>, \<open>runCompactDef\<close>, \<open>doCompact\<close>): the tables are merged split by split, the
  changes go to the manifest, then the next level gets the new tables and this level loses
  the old ones. The splits run concurrently in the code and share the file numbers and the
  discard statistics only; here they run one after the other. Making a table of the entries
  of a builder is an argument, whose contract is the locale \<open>table_maker\<close>; writing to disk
  does not fail. Metrics and logging are left out.
\<close>

section \<open>Building the new tables\<close>

definition keepTable :: "bytes list \<Rightarrow> table \<Rightarrow> bool" where
  "keepTable dropPrefixes t \<longleftrightarrow>
     \<not> list_ex (\<lambda>p. has_prefix (t_Smallest t) p \<and> has_prefix (t_Biggest t) p) dropPrefixes"

text \<open>\<open>newIterator\<close>: \<open>None\<close> is the failed assertion that there is one top table.\<close>

definition compaction_iters :: "nat \<Rightarrow> table list \<Rightarrow> table list \<Rightarrow> iter list option" where
  "compaction_iters lev topTables valid =
     (let concat_it = Leaf (concat (map t_data valid)) 0
      in if lev = 0 \<or> lev = 98 then Some (map (\<lambda>t. Leaf (t_data t) 0) (rev topTables) @ [concat_it])
         else if 0 < length topTables then
           (if length topTables = 1 then Some [Leaf (t_data (hd topTables)) 0, concat_it] else None)
         else Some [concat_it])"

text \<open>What the merge iterator over them goes through (theory \<open>Iterators\<close>).\<close>

definition merged_entries :: "iter list \<Rightarrow> entry list" where
  "merged_entries iters = (case NewMergeIterator iters False of None \<Rightarrow> [] | Some m \<Rightarrow> merged m)"

definition exceedsAllowedOverlap :: "levelsController \<Rightarrow> nat \<Rightarrow> keyRange \<Rightarrow> bool" where
  "exceedsAllowedOverlap lc nextLevel kr =
     (let n2n = nextLevel + 1
      in if n2n \<le> 1 \<or> length (lc_levels lc) \<le> n2n then False
         else let (l, r) = overlappingTables (lc_levels lc ! n2n) kr in 10 \<le> int r - int l)"

definition split_env :: "lv_opts \<Rightarrow> u64 \<Rightarrow> nat \<Rightarrow> levelsController \<Rightarrow> compactDef \<Rightarrow> keyRange \<Rightarrow> merge_env" where
  "split_env opt discardTs now lc cd kr =
     \<lparr>me_dropPrefixes = cd_dropPrefixes cd, me_right = kr_right kr, me_discardTs = discardTs,
      me_hasOverlap = checkOverlap lc (allTables cd) (cd_nextLevel cd + 1) (cd_thisLevel cd) (baseLevel (cd_t cd)),
      me_keepVersions = lo_NumVersionsToKeep opt, me_inMemory = lo_InMemory opt, me_now = now,
      me_exceeds = exceedsAllowedOverlap lc (cd_nextLevel cd)\<rparr>"

text \<open>The tables that the builders of one split become, each with the next file number.\<close>

fun number_tables :: "(u64 \<Rightarrow> added list \<Rightarrow> table) \<Rightarrow> levelsController \<Rightarrow> added list list \<Rightarrow> levelsController \<times> table list" where
  "number_tables mk lc [] = (lc, [])"
| "number_tables mk lc (b # bs) =
     (let (lc1, i) = reserveFileID lc; (lc2, ts) = number_tables mk lc1 bs in (lc2, mk i b # ts))"

fun run_splits ::
    "(u64 \<Rightarrow> added list \<Rightarrow> table) \<Rightarrow> (added list \<Rightarrow> bool) \<Rightarrow> (keyRange \<Rightarrow> merge_env) \<Rightarrow> entry list \<Rightarrow>
     levelsController \<Rightarrow> keyRange list \<Rightarrow> (levelsController \<times> (u32 \<Rightarrow> int) \<times> table list) option" where
  "run_splits mk reached env es lc [] = Some (lc, (\<lambda>_. 0), [])"
| "run_splits mk reached env es lc (kr # krs) =
     (case subcompact (env kr) reached (kr_left kr) es of None \<Rightarrow> None
      | Some (stats, bs) \<Rightarrow>
          (let (lc1, ts) = number_tables mk lc bs
           in case run_splits mk reached env es lc1 krs of None \<Rightarrow> None
              | Some (lc2, stats2, ts2) \<Rightarrow> Some (lc2, (\<lambda>f. stats f + stats2 f), ts @ ts2)))"

definition by_Biggest :: "table \<Rightarrow> table \<Rightarrow> bool" where
  "by_Biggest a b \<longleftrightarrow> cmp_keys (t_Biggest a) (t_Biggest b) < 0"

text \<open>\<open>OpenTable\<close> gives a table its first reference.\<close>

definition open_refs :: "table_refs \<Rightarrow> table list \<Rightarrow> table_refs" where
  "open_refs s ts = s\<lparr>rf_count := (\<lambda>i. if i \<in> t_ID ` set ts then 1 else rf_count s i)\<rparr>"

definition compactBuildTables ::
    "(u64 \<Rightarrow> added list \<Rightarrow> table) \<Rightarrow> (added list \<Rightarrow> bool) \<Rightarrow> lv_opts \<Rightarrow> u64 \<Rightarrow> nat \<Rightarrow> nat \<Rightarrow> levelsController \<Rightarrow> compactDef \<Rightarrow>
     (levelsController \<times> (u32 \<Rightarrow> int) \<times> table list) option" where
  "compactBuildTables mk reached opt discardTs now lev lc cd =
     (let valid = filter (keepTable (cd_dropPrefixes cd)) (cd_bot cd)
      in case compaction_iters lev (cd_top cd) valid of None \<Rightarrow> None
         | Some iters \<Rightarrow>
            (case run_splits mk reached (split_env opt discardTs now lc cd) (merged_entries iters) lc (cd_splits cd) of
               None \<Rightarrow> None
             | Some (lc1, stats, newTables) \<Rightarrow>
                 Some (lc1\<lparr>lc_refs := open_refs (lc_refs lc1) newTables\<rparr>, stats, go_sort by_Biggest newTables)))"

section \<open>Installing them\<close>

definition buildChangeSet :: "compactDef \<Rightarrow> table list \<Rightarrow> ManifestChange list" where
  "buildChangeSet cd newTables =
     map (\<lambda>t. newCreateChange (t_ID t) (cd_nextLevel cd) (t_KeyID t) (t_Compression t)) newTables @
     map (\<lambda>t. newDeleteChange (t_ID t)) (filter (\<lambda>t. \<not> t_IsInmemory t) (cd_top cd)) @
     map (\<lambda>t. newDeleteChange (t_ID t)) (cd_bot cd)"

definition replace_at :: "levelsController \<Rightarrow> nat \<Rightarrow> table list \<Rightarrow> table list \<Rightarrow> levelsController option" where
  "replace_at lc l toDel toAdd = (case handler_at lc l of None \<Rightarrow> None
     | Some h \<Rightarrow> let (s, h') = replaceTables (lc_refs lc) h toDel toAdd in Some ((set_handler lc l h')\<lparr>lc_refs := s\<rparr>))"

definition delete_at :: "levelsController \<Rightarrow> nat \<Rightarrow> table list \<Rightarrow> levelsController option" where
  "delete_at lc l toDel = (case handler_at lc l of None \<Rightarrow> None
     | Some h \<Rightarrow> let (s, h') = deleteTables (lc_refs lc) h toDel in Some ((set_handler lc l h')\<lparr>lc_refs := s\<rparr>))"

text \<open>The two steps: between them, both the old tables above and the new ones are visible.\<close>

definition install :: "levelsController \<Rightarrow> compactDef \<Rightarrow> table list \<Rightarrow> levelsController option" where
  "install lc cd newTables = (case replace_at lc (cd_nextLevel cd) (cd_bot cd) newTables of None \<Rightarrow> None
     | Some lc1 \<Rightarrow> delete_at lc1 (cd_thisLevel cd) (cd_top cd))"

datatype compact_error = NoFileSizes | ManifestFailed manifest_error | ErrFillTables

definition drop_refs :: "levelsController \<Rightarrow> table list \<Rightarrow> levelsController" where
  "drop_refs lc ts = lc\<lparr>lc_refs := decrRefs (lc_refs lc) ts\<rparr>"

record compact_out =
  co_lc :: levelsController
  co_mf :: manifestFile
  co_stats :: "u32 \<Rightarrow> int"
  co_err :: "compact_error option"

definition with_splits :: "compactDef \<Rightarrow> compactDef" where
  "with_splits cd0 = (let cd = (if cd_thisLevel cd0 = cd_nextLevel cd0 then cd0 else addSplits cd0)
     in if cd_splits cd = [] then cd\<lparr>cd_splits := [empty_range]\<rparr> else cd)"

definition runCompactDef ::
    "(ManifestChange list \<Rightarrow> bytes) \<Rightarrow> ((u64 \<rightharpoonup> TableManifest) \<Rightarrow> u64 list) \<Rightarrow>
     (u64 \<Rightarrow> added list \<Rightarrow> table) \<Rightarrow> (added list \<Rightarrow> bool) \<Rightarrow> lv_opts \<Rightarrow> u64 \<Rightarrow> nat \<Rightarrow> nat \<Rightarrow>
     levelsController \<Rightarrow> manifestFile \<Rightarrow> compactDef \<Rightarrow> compact_out option" where
  "runCompactDef marshal keys mk reached opt discardTs now l lc mf cd =
     (if length (fileSz (cd_t cd)) = 0 then Some \<lparr>co_lc = lc, co_mf = mf, co_stats = (\<lambda>_. 0), co_err = Some NoFileSizes\<rparr>
      else if cd_splits cd \<noteq> [] then None
      else
        case compactBuildTables mk reached opt discardTs now l lc (with_splits cd) of None \<Rightarrow> None
        | Some (lc1, stats, newTables) \<Rightarrow>
           (case addChanges marshal keys mf (buildChangeSet cd newTables) of
              (mf1, Some e) \<Rightarrow>
                Some \<lparr>co_lc = drop_refs lc1 newTables, co_mf = mf1, co_stats = stats, co_err = Some (ManifestFailed e)\<rparr>
            | (mf1, None) \<Rightarrow>
                (case install lc1 cd newTables of None \<Rightarrow> None
                 | Some lc2 \<Rightarrow> Some \<lparr>co_lc = drop_refs lc2 newTables, co_mf = mf1, co_stats = stats, co_err = None\<rparr>)))"

text \<open>\<open>doCompact\<close>: the claim, the compaction, and the release whatever its outcome.\<close>

definition doCompact ::
    "(ManifestChange list \<Rightarrow> bytes) \<Rightarrow> ((u64 \<rightharpoonup> TableManifest) \<Rightarrow> u64 list) \<Rightarrow>
     (u64 \<Rightarrow> added list \<Rightarrow> table) \<Rightarrow> (added list \<Rightarrow> bool) \<Rightarrow> lv_opts \<Rightarrow> nat \<Rightarrow> u64 \<Rightarrow> nat \<Rightarrow> (table \<Rightarrow> bool) \<Rightarrow>
     levelsController \<Rightarrow> manifestFile \<Rightarrow> int \<Rightarrow> compactionPriority \<Rightarrow> compact_out option" where
  "doCompact marshal keys mk reached opt maxLevels discardTs now hour_old lc mf i p =
     (case fill_for opt maxLevels discardTs hour_old lc i p of None \<Rightarrow> None
      | Some (cs, cd, False) \<Rightarrow> Some \<lparr>co_lc = lc\<lparr>lc_cstatus := cs\<rparr>, co_mf = mf, co_stats = (\<lambda>_. 0), co_err = Some ErrFillTables\<rparr>
      | Some (cs, cd, True) \<Rightarrow>
         (case runCompactDef marshal keys mk reached opt discardTs now (p_level p) (lc\<lparr>lc_cstatus := cs\<rparr>) mf cd of None \<Rightarrow> None
          | Some r \<Rightarrow> map_option (\<lambda>cs'. r\<lparr>co_lc := (co_lc r)\<lparr>lc_cstatus := cs'\<rparr>\<rparr>) (cs_delete (lc_cstatus (co_lc r)) cd)))"

section \<open>The contract of table building\<close>

locale table_maker =
  fixes mk :: "u64 \<Rightarrow> added list \<Rightarrow> table" and fits :: "added list \<Rightarrow> bool"
  assumes made: "b \<noteq> [] \<Longrightarrow> fits b \<Longrightarrow> entries_ok (written b) \<Longrightarrow>
    t_ID (mk i b) = i \<and> t_data (mk i b) = written b \<and> built_table (mk i b) \<and> \<not> t_IsInmemory (mk i b)"

end
