(* ===== verification/CompactSafe.thy ===== *)
theory CompactSafe
  imports Compact
begin

text \<open>
  What a compaction does to the tree as a whole: the merged tables are replaced by tables of
  the survivors, the levels stay well formed, and reads above the discard timestamp see what
  they saw before. The lemmas about making tables are proved under the contract
  \<open>table_maker\<close>.
\<close>

section \<open>Entries as a set\<close>

text \<open>A key with its version has one value in the store, however many tables hold it.\<close>

definition consistent :: "entry list \<Rightarrow> bool" where
  "consistent es \<longleftrightarrow> (\<forall>e \<in> set es. \<forall>f \<in> set es. fst e = fst f \<longrightarrow> e = f)"

lemma consistent_subset: "consistent es \<Longrightarrow> set fs \<subseteq> set es \<Longrightarrow> consistent fs"
  unfolding consistent_def by blast

lemma newest_set:
  assumes "consistent es" and "set es = set fs" and "\<forall>e \<in> set es. stored_key (fst e)"
  shows "newest es k ts = newest fs k ts"
proof (cases "newest es k ts")
  case None
  then show ?thesis using assms(2) by (metis newest_None)
next
  case (Some p)
  obtain w v where p: "p = (w, v)" by fastforce
  obtain ik where e: "(ik, v) \<in> set es" "matches k ts ik" "ParseTs ik = w"
    and mx: "\<forall>e \<in> set es. matches k ts (fst e) \<longrightarrow> ParseTs (fst e) \<le> w"
    using newest_Some Some p by blast
  have "newest fs k ts \<noteq> None" using e assms(2) newest_None [of fs k ts] by auto
  then obtain w' v' where q: "newest fs k ts = Some (w', v')" by auto
  obtain jk where f: "(jk, v') \<in> set fs" "matches k ts jk" "ParseTs jk = w'"
    and mx': "\<forall>e \<in> set fs. matches k ts (fst e) \<longrightarrow> ParseTs (fst e) \<le> w'"
    using newest_Some [OF q] by blast
  have "w \<le> w'" "w' \<le> w" using mx mx' e f assms(2) by fastforce+
  then have w: "w = w'" by simp
  have st: "stored_key ik" "stored_key jk" using assms(2,3) e(1) f(1) by fastforce+
  have "parse_key ik = parse_key jk" "ParseTs ik = ParseTs jk" using e f w by (auto simp: matches_def)
  then have "ik = jk" using stored_key_eq [of ik] stored_key_eq [of jk] st by (simp add: stored_key_def)
  then have "v = v'" using assms(1,2) e(1) f(1) unfolding consistent_def by fastforce
  then show ?thesis using Some p q w by simp
qed

text \<open>Merging the sorted lists of the iterators gives all their entries.\<close>

lemma first_of_Some: "first_of iters k = Some v \<Longrightarrow> \<exists>i \<in> set iters. (k, v) \<in> set (merged i)"
  by (induction iters) (auto simp: first_of_def map_add_Some_iff dest: map_of_SomeD)

lemma first_of_None: "first_of iters k = None \<Longrightarrow> i \<in> set iters \<Longrightarrow> (k, v) \<notin> set (merged i)"
  by (induction iters) (auto simp: first_of_def map_of_eq_None_iff rev_image_eqI)

lemma sorted_keys_distinct: "sorted_wrt key_less ks \<Longrightarrow> distinct ks"
  by (induction ks) auto

lemma merged_entries_ok:
  assumes "xss \<noteq> []" and "\<forall>xs \<in> set xss. sorted_wrt key_less (map fst xs)" and "consistent (concat xss)"
  shows "sorted_wrt key_less (map fst (merged_entries (map (\<lambda>xs. Leaf xs 0) xss))) \<and>
    set (merged_entries (map (\<lambda>xs. Leaf xs 0) xss)) = set (concat xss)"
proof -
  let ?iters = "map (\<lambda>xs. Leaf xs 0) xss"
  have ok: "\<forall>i \<in> set ?iters. leaves_ok False i" using assms(2) by (auto simp: before_def sorted_wrt_map)
  obtain m where m: "NewMergeIterator ?iters False = Some m" "leaves_ok False m" "map_of (merged m) = first_of ?iters"
    using NewMergeIterator_ok [OF _ ok] assms(1) by auto
  have srt: "sorted_wrt key_less (map fst (merged m))" using in_dir_merged [OF m(2)] by (simp add: before_def sorted_wrt_map)
  have dk: "distinct (map fst (merged m))" by (rule sorted_keys_distinct [OF srt])
  have iff: "(k, v) \<in> set (merged m) \<longleftrightarrow> (k, v) \<in> set (concat xss)" for k v
  proof
    assume "(k, v) \<in> set (merged m)"
    then have "first_of ?iters k = Some v" using dk m(3) by (metis map_of_is_SomeI)
    then show "(k, v) \<in> set (concat xss)" using first_of_Some by fastforce
  next
    assume kv: "(k, v) \<in> set (concat xss)"
    then have "first_of ?iters k \<noteq> None" using first_of_None by fastforce
    then obtain u where u: "first_of ?iters k = Some u" by auto
    then have "(k, u) \<in> set (concat xss)" using first_of_Some by fastforce
    then have "u = v" using assms(3) kv unfolding consistent_def by fastforce
    then show "(k, v) \<in> set (merged m)" using u m(3) by (metis map_of_SomeD)
  qed
  show ?thesis using srt iff m(1) by (auto simp: merged_entries_def)
qed

section \<open>The splits together\<close>

lemma decide_right [simp]: "decide (env\<lparr>me_right := r\<rparr>) skip lst n es = decide env skip lst n es"
proof (induction es arbitrary: skip lst n)
  case (Cons e es)
  have p: "dropped_prefix (env\<lparr>me_right := r\<rparr>) k = dropped_prefix env k" "prunable (env\<lparr>me_right := r\<rparr>) e = prunable env e"
    "expired (env\<lparr>me_right := r\<rparr>) v = expired env v" "last_valid (env\<lparr>me_right := r\<rparr>) v m = last_valid env v m"
    "me_hasOverlap (env\<lparr>me_right := r\<rparr>) = me_hasOverlap env" for k v m
    by (simp_all add: dropped_prefix_def prunable_def expired_def last_valid_def)
  show ?case unfolding decide.simps p Cons.IH by (rule refl)
qed simp

lemma survivors_right [simp]: "survivors (env\<lparr>me_right := r\<rparr>) es = survivors env es"
  by (simp add: survivors_def)

lemma survivors_concat:
  assumes "distinct (concat xss)" and "\<forall>e \<in> set (concat xss). stored_key (fst e)"
    and "\<forall>xs \<in> set xss. \<forall>e \<in> set xs. \<forall>f \<in> set (concat xss). SameKey (fst f) (fst e) \<longrightarrow> f \<in> set xs"
  shows "survivors env (concat xss) = concat (map (survivors env) xss)"
  using assms
proof (induction xss)
  case Nil
  then show ?case by (simp add: survivors_def)
next
  case (Cons xs xss)
  have d: "distinct (concat xss)" "set xs \<inter> set (concat xss) = {}" using Cons.prems(1) by auto
  have "other_keys (concat xss) (fst e)" if "e \<in> set xs" for e
    unfolding other_keys_def
  proof (intro ballI notI)
    fix f assume f: "f \<in> set (concat xss)" and "SameKey (fst f) (fst e)"
    moreover have "xs \<in> set (xs # xss)" "f \<in> set (concat (xs # xss))" using f by simp_all
    ultimately have "f \<in> set xs" using Cons.prems(3) that by blast
    then show False using d(2) f by blast
  qed
  moreover have "\<forall>e \<in> set (concat xss). stored_key (fst e)" using Cons.prems(2) by simp
  ultimately have "survivors env (xs @ concat xss) = survivors env xs @ survivors env (concat xss)"
    by (intro survivors_append) blast+
  moreover have "survivors env (concat xss) = concat (map (survivors env) xss)"
  proof (rule Cons.IH [OF d(1)])
    show "\<forall>e \<in> set (concat xss). stored_key (fst e)" using Cons.prems(2) by simp
    show "\<forall>ys \<in> set xss. \<forall>e \<in> set ys. \<forall>f \<in> set (concat xss). SameKey (fst f) (fst e) \<longrightarrow> f \<in> set ys"
      using Cons.prems(3) by (simp del: set_concat)
  qed
  ultimately show ?case by simp
qed

lemma split_closed:
  assumes "split_bound l" and "split_bound r" and "e \<in> set (split_entries l r es)" and "f \<in> set es"
    and "stored_key (fst e)" and "stored_key (fst f)" and "SameKey (fst f) (fst e)"
  shows "f \<in> set (split_entries l r es)"
proof -
  have u: "parse_key (fst f) = parse_key (fst e)" using same_user [OF assms(6,5)] assms(7) by simp
  have "\<not> (l \<noteq> [] \<and> key_less (fst e) l)" "r = [] \<or> key_less (fst e) r" using assms(3) by (auto simp: split_entries_def)
  then have "\<not> (l \<noteq> [] \<and> key_less (fst f) l)" "r = [] \<or> key_less (fst f) r"
    using bound_user [OF assms(1) _ assms(5,6)] bound_user [OF assms(2) _ assms(6,5)] u by auto
  then show ?thesis using assms(4) by (simp add: split_entries_def)
qed

lemma entries_ok_distinct: "entries_ok es \<Longrightarrow> distinct es"
  unfolding entries_ok_def using sorted_keys_distinct distinct_map by blast

lemma survivors_split:
  assumes "entries_ok es" and "concat (map (\<lambda>kr. split_entries (kr_left kr) (kr_right kr) es) krs) = es"
    and "\<forall>kr \<in> set krs. split_bound (kr_left kr) \<and> split_bound (kr_right kr)"
  shows "concat (map (\<lambda>kr. survivors env (split_entries (kr_left kr) (kr_right kr) es)) krs) = survivors env es"
proof -
  let ?xss = "map (\<lambda>kr. split_entries (kr_left kr) (kr_right kr) es) krs"
  have st: "\<forall>e \<in> set es. stored_key (fst e)" using assms(1) by (simp add: entries_ok_def)
  have "survivors env (concat ?xss) = concat (map (survivors env) ?xss)"
  proof (rule survivors_concat)
    show "distinct (concat ?xss)" unfolding assms(2) by (rule entries_ok_distinct [OF assms(1)])
    show "\<forall>e \<in> set (concat ?xss). stored_key (fst e)" unfolding assms(2) by (rule st)
    show "\<forall>xs \<in> set ?xss. \<forall>e \<in> set xs. \<forall>f \<in> set (concat ?xss). SameKey (fst f) (fst e) \<longrightarrow> f \<in> set xs"
    proof (intro ballI impI)
      fix xs e f assume xs: "xs \<in> set ?xss" and e: "e \<in> set xs" and f: "f \<in> set (concat ?xss)" and s: "SameKey (fst f) (fst e)"
      obtain kr where kr: "kr \<in> set krs" "xs = split_entries (kr_left kr) (kr_right kr) es" using xs by auto
      have "f \<in> set es" using f unfolding assms(2) .
      moreover have "e \<in> set es" using e kr(2) by (simp add: split_entries_def)
      ultimately show "f \<in> set xs" unfolding kr(2)
        using split_closed [OF _ _ e [unfolded kr(2)] _ _ _ s] assms(3) kr(1) st by blast
    qed
  qed
  then show ?thesis using assms(2) by (simp add: comp_def)
qed

lemma survivors_subset: "set (survivors env es) \<subseteq> set es"
  unfolding survivors_def by (rule chosen_by_subset)

section \<open>New tables under the contract\<close>

definition next_ids :: "levelsController \<Rightarrow> nat \<Rightarrow> u64 list" where
  "next_ids lc n = map (\<lambda>j. lc_nextFileID lc + of_nat j) [0..<n]"

lemma next_ids_Suc: "next_ids lc (Suc n) = lc_nextFileID lc # next_ids (lc\<lparr>lc_nextFileID := lc_nextFileID lc + 1\<rparr>) n"
  unfolding next_ids_def by (simp add: upt_conv_Cons del: upt_Suc flip: map_Suc_upt) 

lemma next_ids_append: "next_ids lc (m + n) = next_ids lc m @ next_ids (lc\<lparr>lc_nextFileID := lc_nextFileID lc + of_nat m\<rparr>) n"
proof (induction m arbitrary: lc)
  case (Suc m)
  show ?case using Suc.IH [of "lc\<lparr>lc_nextFileID := lc_nextFileID lc + 1\<rparr>"] by (simp add: next_ids_Suc add_ac)
qed (simp add: next_ids_def)

text \<open>Two tables that hold no user key in common.\<close>

definition users_differ :: "table \<Rightarrow> table \<Rightarrow> bool" where
  "users_differ a b \<longleftrightarrow> (\<forall>e \<in> set (t_data a). \<forall>f \<in> set (t_data b). parse_key (fst e) \<noteq> parse_key (fst f))"

lemma users_differ_sym: "users_differ a b \<Longrightarrow> users_differ b a"
  unfolding users_differ_def by metis

lemma written_apart: "tables_apart bs \<Longrightarrow> map t_data ts = map written bs \<Longrightarrow> sorted_wrt users_differ ts"
proof (induction bs arbitrary: ts)
  case (Cons b bs)
  obtain t us where ts: "ts = t # us" "t_data t = written b" "map t_data us = map written bs" using Cons.prems(2) by auto
  have "users_differ t u" if u: "u \<in> set us" for u
  proof -
    obtain c where c: "c \<in> set bs" "t_data u = written c" using ts(3) u by (metis image_eqI image_iff list.set_map)
    then show ?thesis using Cons.prems(1) ts(2) by (fastforce simp: tables_apart_def users_differ_def written_def)
  qed
  moreover have "sorted_wrt users_differ us" using Cons.IH [OF _ ts(3)] Cons.prems(1) by (simp add: tables_apart_def)
  ultimately show ?case by (simp add: ts(1))
qed simp

context table_maker begin

lemma number_tables_ok:
  assumes "\<forall>b \<in> set bs. b \<noteq> [] \<and> fits b \<and> entries_ok (written b)"
  shows "\<exists>ts. number_tables mk lc bs = (lc\<lparr>lc_nextFileID := lc_nextFileID lc + of_nat (length bs)\<rparr>, ts) \<and>
    map t_data ts = map written bs \<and> map t_ID ts = next_ids lc (length bs) \<and> (\<forall>t \<in> set ts. built_table t \<and> \<not> t_IsInmemory t)"
  using assms
proof (induction bs arbitrary: lc)
  case Nil
  then show ?case by (simp add: next_ids_def)
next
  case (Cons b bs)
  let ?lc = "lc\<lparr>lc_nextFileID := lc_nextFileID lc + 1\<rparr>"
  obtain ts where ts: "number_tables mk ?lc bs = (?lc\<lparr>lc_nextFileID := lc_nextFileID ?lc + of_nat (length bs)\<rparr>, ts)"
    "map t_data ts = map written bs" "map t_ID ts = next_ids ?lc (length bs)" "\<forall>t \<in> set ts. built_table t \<and> \<not> t_IsInmemory t"
    using Cons.IH [of ?lc] Cons.prems by auto
  have "number_tables mk lc (b # bs) = (lc\<lparr>lc_nextFileID := lc_nextFileID lc + of_nat (length (b # bs))\<rparr>, mk (lc_nextFileID lc) b # ts)"
    using ts(1) by (simp add: reserveFileID_def Let_def add_ac)
  then show ?case using ts(2-4) made [of b "lc_nextFileID lc"] Cons.prems by (simp add: next_ids_Suc)
qed

lemma run_splits_ok:
  assumes ok: "entries_ok es" "pointers_ok es" "\<not> reached []"
    and env: "\<forall>kr. env kr = env0\<lparr>me_right := kr_right kr\<rparr>"
    and krs: "\<forall>kr \<in> set krs. split_bound (kr_left kr) \<and> split_bound (kr_right kr)"
    and fit: "\<forall>b. set (written b) \<subseteq> set es \<longrightarrow> distinct (map ad_key b) \<longrightarrow> fits b"
    and dist: "distinct (concat (map (\<lambda>kr. split_entries (kr_left kr) (kr_right kr) es) krs))"
  shows "\<exists>stats ts. run_splits mk reached env es lc krs = Some (lc\<lparr>lc_nextFileID := lc_nextFileID lc + of_nat (length ts)\<rparr>, stats, ts) \<and>
    concat (map t_data ts) = concat (map (\<lambda>kr. survivors env0 (split_entries (kr_left kr) (kr_right kr) es)) krs) \<and>
    map t_ID ts = next_ids lc (length ts) \<and> (\<forall>t \<in> set ts. built_table t \<and> \<not> t_IsInmemory t) \<and> sorted_wrt users_differ ts"
  using krs dist
proof (induction krs arbitrary: lc)
  case Nil
  then show ?case by (simp add: next_ids_def)
next
  case (Cons kr krs)
  let ?p = "split_entries (kr_left kr) (kr_right kr) es"
  have e: "env kr = env0\<lparr>me_right := kr_right kr\<rparr>" using env by blast
  have b: "split_bound (kr_left kr)" "split_bound (me_right (env kr))" using Cons.prems e by simp_all
  obtain stats bs where bs: "subcompact (env kr) reached (kr_left kr) es = Some (stats, bs)"
    "written (concat bs) = survivors env0 ?p" "[] \<notin> set bs" "tables_apart bs"
    using subcompact_bounds [where env = "env kr" and reached = reached and left = "kr_left kr" and es = es] ok b unfolding e by auto
  have p_ok: "entries_ok (survivors env0 ?p)"
    unfolding survivors_def split_entries_def using ok(1)
    by (intro entries_ok_chosen) (simp add: entries_ok_def sorted_wrt_map sorted_wrt_filter)
  have sub: "set (survivors env0 ?p) \<subseteq> set es"
    unfolding survivors_def using chosen_by_subset by (fastforce simp: split_entries_def)
  have each: "\<forall>b \<in> set bs. b \<noteq> [] \<and> fits b \<and> entries_ok (written b)"
  proof
    fix b assume m: "b \<in> set bs"
    then obtain x y where xy: "bs = x @ b # y" by (meson split_list)
    have w: "survivors env0 ?p = written (concat x) @ written b @ written (concat y)"
      using bs(2) unfolding xy by simp
    have wok: "entries_ok (written b)" using p_ok unfolding w by (simp add: entries_ok_def sorted_wrt_append)
    then have "distinct (map ad_key b)"
      using sorted_keys_distinct [of "map fst (written b)"] by (simp add: entries_ok_def written_def comp_def)
    moreover have "set (written b) \<subseteq> set es" using sub unfolding w by simp
    ultimately show "b \<noteq> [] \<and> fits b \<and> entries_ok (written b)" using fit wok m bs(3) by blast
  qed
  obtain ts where ts: "number_tables mk lc bs = (lc\<lparr>lc_nextFileID := lc_nextFileID lc + of_nat (length bs)\<rparr>, ts)"
    "map t_data ts = map written bs" "map t_ID ts = next_ids lc (length bs)" "\<forall>t \<in> set ts. built_table t \<and> \<not> t_IsInmemory t"
    using number_tables_ok [OF each] by blast
  have len: "length bs = length ts" using ts(2) by (metis length_map)
  let ?lc = "lc\<lparr>lc_nextFileID := lc_nextFileID lc + of_nat (length bs)\<rparr>"
  obtain stats2 us where us: "run_splits mk reached env es ?lc krs = Some (?lc\<lparr>lc_nextFileID := lc_nextFileID ?lc + of_nat (length us)\<rparr>, stats2, us)"
    "concat (map t_data us) = concat (map (\<lambda>kr. survivors env0 (split_entries (kr_left kr) (kr_right kr) es)) krs)"
    "map t_ID us = next_ids ?lc (length us)" "\<forall>t \<in> set us. built_table t \<and> \<not> t_IsInmemory t" "sorted_wrt users_differ us"
    using Cons.IH [of ?lc] Cons.prems by auto
  have "written (concat bs) = concat (map written bs)" by (induction bs) (simp_all add: written_def)
  then have data: "concat (map t_data ts) = survivors env0 ?p" using bs(2) unfolding ts(2) by simp
  have cross: "users_differ t u" if t: "t \<in> set ts" and u: "u \<in> set us" for t u
    unfolding users_differ_def
  proof (intro ballI notI)
    fix e f assume e: "e \<in> set (t_data t)" and f: "f \<in> set (t_data u)" and same: "parse_key (fst e) = parse_key (fst f)"
    have "e \<in> set (concat (map t_data ts))" using e t by auto
    then have e': "e \<in> set ?p" unfolding data using survivors_subset by blast
    have "f \<in> set (concat (map t_data us))" using f u by auto
    then obtain kr' where kr': "kr' \<in> set krs" "f \<in> set (split_entries (kr_left kr') (kr_right kr') es)"
      unfolding us(2) using survivors_subset by fastforce
    have st: "\<forall>e \<in> set es. stored_key (fst e)" using ok(1) by (simp add: entries_ok_def)
    have "e \<in> set es" "f \<in> set es" using e' kr'(2) by (auto simp: split_entries_def)
    then have "f \<in> set ?p" using split_closed [OF _ _ e', of f] Cons.prems(1) st same same_user by simp
    moreover have "f \<in> set (concat (map (\<lambda>kr. split_entries (kr_left kr) (kr_right kr) es) krs))" using kr' by auto
    ultimately show False using Cons.prems(2) by auto
  qed
  have "map t_ID (ts @ us) = next_ids lc (length (ts @ us))"
    using ts(3) us(3) next_ids_append [of lc "length ts" "length us"] len by simp
  moreover have "concat (map t_data (ts @ us)) = concat (map (\<lambda>kr. survivors env0 (split_entries (kr_left kr) (kr_right kr) es)) (kr # krs))"
    using data us(2) by simp
  moreover have "run_splits mk reached env es lc (kr # krs) =
      Some (lc\<lparr>lc_nextFileID := lc_nextFileID lc + of_nat (length (ts @ us))\<rparr>, (\<lambda>f. stats f + stats2 f), ts @ us)"
    using bs(1) ts(1) us(1) len by (simp add: add_ac)
  moreover have "\<forall>t \<in> set (ts @ us). built_table t \<and> \<not> t_IsInmemory t" using ts(4) us(4) by auto
  moreover have "sorted_wrt users_differ (ts @ us)"
    using written_apart [OF bs(4) ts(2)] us(5) cross by (simp add: sorted_wrt_append)
  ultimately show ?case by blast
qed

end

section \<open>What a compaction builds\<close>

definition merge_input :: "compactDef \<Rightarrow> entry list" where
  "merge_input cd = concat (map t_data (cd_top cd)) @ concat (map t_data (cd_bot cd))"

text \<open>What is asked of a compaction from one level to another, besides \<open>down_ok\<close>.\<close>

definition job_ready :: "compactDef \<Rightarrow> nat \<Rightarrow> bool" where
  "job_ready cd l \<longleftrightarrow> l = cd_thisLevel cd \<and> cd_thisLevel cd \<noteq> cd_nextLevel cd \<and> cd_nextLevel cd \<noteq> 0 \<and> cd_nextLevel cd \<noteq> 98 \<and>
     (l \<noteq> 0 \<longrightarrow> l \<noteq> 98 \<longrightarrow> length (cd_top cd) = 1) \<and> cd_dropPrefixes cd = [] \<and> cd_splits cd = [] \<and> fileSz (cd_t cd) \<noteq> [] \<and>
     length (cd_bot cd) < 2 ^ 40"

lemma table_entries_ok: "built_table t \<Longrightarrow> sorted_wrt key_less (map fst (t_data t)) \<and> (\<forall>e \<in> set (t_data t). stored_key (fst e))"
  using built_entries [of t] by (simp add: built_table_def)

lemma merge_input_ok:
  assumes "job_ready cd l" and "cd_top cd \<noteq> []" and "\<forall>t \<in> set (cd_top cd) \<union> set (cd_bot cd). built_table t"
    and "sorted_wrt before_table (cd_bot cd)" and "consistent (merge_input cd)"
  shows "\<exists>iters. compaction_iters l (cd_top cd) (filter (keepTable []) (cd_bot cd)) = Some iters \<and>
    entries_ok (merged_entries iters) \<and> set (merged_entries iters) = set (merge_input cd)"
proof -
  have keep: "filter (keepTable []) (cd_bot cd) = cd_bot cd" by (simp add: keepTable_def)
  let ?xss = "map t_data (rev (cd_top cd)) @ [concat (map t_data (cd_bot cd))]"
  have it: "compaction_iters l (cd_top cd) (cd_bot cd) = Some (map (\<lambda>xs. Leaf xs 0) ?xss)"
  proof (cases "l = 0 \<or> l = 98")
    case True
    then show ?thesis by (auto simp: compaction_iters_def Let_def)
  next
    case False
    then have "length (cd_top cd) = 1" using assms(1) by (simp add: job_ready_def)
    then obtain t where "cd_top cd = [t]" by (cases "cd_top cd") auto
    then show ?thesis using False by (simp add: compaction_iters_def)
  qed
  have set_xss: "set (concat ?xss) = set (merge_input cd)" by (auto simp: merge_input_def)
  have srt: "\<forall>xs \<in> set ?xss. sorted_wrt key_less (map fst xs)"
  proof
    fix xs assume "xs \<in> set ?xss"
    then consider t where "t \<in> set (cd_top cd)" "xs = t_data t" | "xs = concat (map t_data (cd_bot cd))" by auto
    then show "sorted_wrt key_less (map fst xs)"
    proof cases
      case 1
      then show ?thesis using table_entries_ok assms(3) by blast
    next
      case 2
      have "\<forall>t \<in> set (cd_bot cd). built_table t" using assms(3) by simp
      then show ?thesis unfolding 2 by (rule level_sorted [OF assms(4)])
    qed
  qed
  have con: "consistent (concat ?xss)" by (rule consistent_subset [OF assms(5)]) (simp only: set_xss order_refl)
  have "?xss \<noteq> []" by simp
  note m = merged_entries_ok [OF this srt con]
  have st: "\<forall>e \<in> set (merge_input cd). stored_key (fst e)"
    using table_entries_ok assms(3) by (auto simp: merge_input_def)
  show ?thesis unfolding keep
  proof (intro exI conjI)
    show "compaction_iters l (cd_top cd) (cd_bot cd) = Some (map (\<lambda>xs. Leaf xs 0) ?xss)" by (rule it)
    show "set (merged_entries (map (\<lambda>xs. Leaf xs 0) ?xss)) = set (merge_input cd)" using m set_xss by blast
    then show "entries_ok (merged_entries (map (\<lambda>xs. Leaf xs 0) ?xss))" using m st by (simp add: entries_ok_def)
  qed
qed

lemma with_splits_ok:
  assumes "job_ready cd l" and "cd_top cd \<noteq> []" and bt: "\<forall>t \<in> set (cd_top cd) \<union> set (cd_bot cd). built_table t"
    and "sorted_wrt before_table (cd_bot cd)" and r: "cd_thisRange cd = getKeyRange (cd_top cd)"
    and r': "cd_nextRange cd = (if cd_bot cd = [] then cd_thisRange cd else getKeyRange (cd_bot cd))"
    and es: "entries_ok es" "set es = set (merge_input cd)"
  shows "concat (map (\<lambda>kr. split_entries (kr_left kr) (kr_right kr) es) (cd_splits (with_splits cd))) = es \<and>
    (\<forall>kr \<in> set (cd_splits (with_splits cd)). split_bound (kr_left kr) \<and> split_bound (kr_right kr))"
proof (cases "cd_bot cd = []")
  case True
  then have "cd_splits (with_splits cd) = [empty_range]"
    using assms(1) by (simp add: with_splits_def addSplits_def Let_def job_ready_def)
  then show ?thesis by (simp add: split_entries_def empty_range_def split_bound_def)
next
  case False
  have srt: "sorted_wrt key_less (map fst es)" using es(1) by (simp add: entries_ok_def)
  have cov: "\<forall>e \<in> set es. \<exists>t \<in> set (cd_top cd) \<union> set (cd_bot cd). e \<in> set (t_data t)"
    unfolding es(2) by (auto simp: merge_input_def)
  have bb: "\<forall>t \<in> set (cd_bot cd). built_table t" "\<forall>t \<in> set (cd_top cd). built_table t" using bt by auto
  have len: "length (cd_bot cd) < 2 ^ 40" using assms(1) by (simp add: job_ready_def)
  have nr: "cd_nextRange cd = getKeyRange (cd_bot cd)" using r' False by simp
  note a = addSplits_ok [OF False len bb(1) assms(4) nr r assms(2) bb(2) srt cov]
  have "cd_splits (addSplits cd) \<noteq> []"
  proof
    assume "cd_splits (addSplits cd) = []"
    then have "es = []" using a by simp
    then have "merge_input cd = []" using es(2) by simp
    moreover obtain t where "t \<in> set (cd_bot cd)" using False by (cases "cd_bot cd") auto
    moreover then have "t_data t \<noteq> []" using bb(1) by (simp add: built_table_def)
    ultimately show False by (auto simp: merge_input_def)
  qed
  then have "with_splits cd = addSplits cd" using assms(1) by (simp add: with_splits_def job_ready_def Let_def)
  then show ?thesis using a by simp
qed

text \<open>Tables cut from one sorted list lie apart.\<close>

lemma cut_apart:
  assumes "sorted_wrt key_less (map fst (concat (map t_data ts)))" and "\<forall>t \<in> set ts. built_table t"
  shows "sorted_wrt before_table ts"
  using assms
proof (induction ts)
  case (Cons t ts)
  have "before_table t u" if u: "u \<in> set ts" for u
  proof -
    have b: "built_table t" "built_table u" using Cons.prems u by auto
    then have "last (t_data t) \<in> set (t_data t)" "hd (t_data u) \<in> set (concat (map t_data ts))"
      using u by (auto simp: built_table_def intro!: bexI [of _ u])
    then have "key_less (fst (last (t_data t))) (fst (hd (t_data u)))"
      using Cons.prems(1) by (auto simp: sorted_wrt_append)
    then show ?thesis using b by (simp add: before_table_def built_table_def)
  qed
  then show ?case using Cons by (auto simp: sorted_wrt_append)
qed simp

context table_maker begin

lemma compactBuildTables_ok:
  fixes lc cd opt now discardTs
  defines "env \<equiv> split_env opt discardTs now lc cd empty_range"
  assumes j: "job_ready cd l" and "cd_top cd \<noteq> []" and bt: "\<forall>t \<in> set (cd_top cd) \<union> set (cd_bot cd). built_table t"
    and srt: "sorted_wrt before_table (cd_bot cd)" and r: "cd_thisRange cd = getKeyRange (cd_top cd)"
    and r': "cd_nextRange cd = (if cd_bot cd = [] then cd_thisRange cd else getKeyRange (cd_bot cd))"
    and con: "consistent (merge_input cd)" and po: "pointers_ok (merge_input cd)" and "\<not> reached []"
    and fit: "\<forall>b. set (written b) \<subseteq> set (merge_input cd) \<longrightarrow> distinct (map ad_key b) \<longrightarrow> fits b"
  shows "\<exists>stats new es. compactBuildTables mk reached opt discardTs now l lc (with_splits cd) =
      Some (lc\<lparr>lc_nextFileID := lc_nextFileID lc + of_nat (length new), lc_refs := open_refs (lc_refs lc) new\<rparr>, stats, new) \<and>
    entries_ok es \<and> set es = set (merge_input cd) \<and> set (concat (map t_data new)) = set (survivors env es) \<and>
    set (map t_ID new) = set (next_ids lc (length new)) \<and> (\<forall>t \<in> set new. built_table t \<and> \<not> t_IsInmemory t) \<and>
    distinct new \<and> (\<forall>a \<in> set new. \<forall>b \<in> set new. a \<noteq> b \<longrightarrow> (before_table a b \<or> before_table b a) \<and> users_differ a b)"
proof -
  obtain iters where it: "compaction_iters l (cd_top cd) (filter (keepTable []) (cd_bot cd)) = Some iters"
    and es: "entries_ok (merged_entries iters)" "set (merged_entries iters) = set (merge_input cd)"
    using merge_input_ok [OF j assms(3) bt srt con] by blast
  let ?es = "merged_entries iters" and ?krs = "cd_splits (with_splits cd)"
  have sp: "concat (map (\<lambda>kr. split_entries (kr_left kr) (kr_right kr) ?es) ?krs) = ?es"
    "\<forall>kr \<in> set ?krs. split_bound (kr_left kr) \<and> split_bound (kr_right kr)"
    using with_splits_ok [OF j assms(3) bt srt r r' es] by blast+
  have po': "pointers_ok ?es" using po unfolding pointers_ok_def es(2) .
  have ws: "cd_top (with_splits cd) = cd_top cd" "cd_bot (with_splits cd) = cd_bot cd" "cd_dropPrefixes (with_splits cd) = []"
    "split_env opt discardTs now lc (with_splits cd) = split_env opt discardTs now lc cd"
    using j by (auto simp: with_splits_def addSplits_def Let_def job_ready_def split_env_def allTables_def)
  have env: "\<forall>kr. split_env opt discardTs now lc cd kr = env\<lparr>me_right := kr_right kr\<rparr>" by (simp add: env_def split_env_def)
  have fit': "\<forall>b. set (written b) \<subseteq> set ?es \<longrightarrow> distinct (map ad_key b) \<longrightarrow> fits b" using fit unfolding es(2) .
  obtain stats ts where ts: "run_splits mk reached (split_env opt discardTs now lc cd) ?es lc ?krs =
      Some (lc\<lparr>lc_nextFileID := lc_nextFileID lc + of_nat (length ts)\<rparr>, stats, ts)"
    "concat (map t_data ts) = concat (map (\<lambda>kr. survivors env (split_entries (kr_left kr) (kr_right kr) ?es)) ?krs)"
    "map t_ID ts = next_ids lc (length ts)" "\<forall>t \<in> set ts. built_table t \<and> \<not> t_IsInmemory t" "sorted_wrt users_differ ts"
    using run_splits_ok [of ?es reached "split_env opt discardTs now lc cd" env ?krs lc] es(1) po' \<open>\<not> reached []\<close> env sp(2) fit'
      entries_ok_distinct [OF es(1)] sp(1) by auto
  have data: "concat (map t_data ts) = survivors env ?es" using ts(2) survivors_split [OF es(1) sp] by simp
  have "sorted_wrt key_less (map fst (concat (map t_data ts)))"
    unfolding data survivors_def using entries_ok_chosen [OF es(1)] by (simp add: entries_ok_def)
  then have ap: "sorted_wrt before_table ts" using cut_apart ts(4) by blast
  have irr: "\<not> before_table t t" if "t \<in> set ts" for t
    using ts(4) that unfolding before_table_def built_table_def table_ok_def by (meson key_le_less_trans key_less_irrefl)
  have dist: "distinct ts" using ap irr by (induction ts) auto
  have pair: "(before_table a b \<or> before_table b a) \<and> users_differ a b" if "a \<in> set ts" "b \<in> set ts" "a \<noteq> b" for a b
    using ap ts(5) that by (induction ts) (auto dest: users_differ_sym)
  let ?new = "go_sort by_Biggest ts"
  have ms: "mset ?new = mset ts" by (rule mset_go_sort)
  then have new: "set ?new = set ts" "length ?new = length ts" "distinct ?new"
    using dist mset_eq_setD mset_eq_length mset_eq_imp_distinct_iff by blast+
  have cb: "compactBuildTables mk reached opt discardTs now l lc (with_splits cd) =
      Some (lc\<lparr>lc_nextFileID := lc_nextFileID lc + of_nat (length ts), lc_refs := open_refs (lc_refs lc) ts\<rparr>, stats, ?new)"
    unfolding compactBuildTables_def ws it Let_def ts(1) by (simp add: ws it ts(1))
  have "set (concat (map t_data ?new)) = set (survivors env ?es)" using data new(1) by (metis set_concat set_map)
  moreover have "set (map t_ID ?new) = set (next_ids lc (length ?new))" using ts(3) new by (metis set_map)
  moreover have "open_refs (lc_refs lc) ts = open_refs (lc_refs lc) ?new" using new(1) by (simp add: open_refs_def)
  moreover have "\<forall>a \<in> set ?new. \<forall>b \<in> set ?new. a \<noteq> b \<longrightarrow> (before_table a b \<or> before_table b a) \<and> users_differ a b" using pair new(1) by blast
  ultimately show ?thesis using cb es ts(4) new by metis
qed

end

end
