(* ===== verification/CompactStep.thy ===== *)
theory CompactStep
  imports CompactSafe
begin

text \<open>
  One compaction between two levels as a step of the whole tree: which tables are in which
  level afterwards, that the tree stays well formed, and that reads at or above the discard
  timestamp find what they found before.
\<close>

section \<open>The tables of the tree\<close>

definition tables_at :: "levelsController \<Rightarrow> nat \<Rightarrow> table set" where
  "tables_at lc l = (case handler_at lc l of None \<Rightarrow> {} | Some h \<Rightarrow> set (lh_tables h))"

definition entries_of :: "table set \<Rightarrow> entry set" where
  "entries_of T = (\<Union>t \<in> T. set (t_data t))"

lemma entries_of_Un [simp]: "entries_of (A \<union> B) = entries_of A \<union> entries_of B"
  by (simp add: entries_of_def)

lemma entries_of_set: "entries_of (set ts) = set (concat (map t_data ts))"
  by (simp add: entries_of_def)

lemma level_entries_of: "set (level_entries h) = entries_of (set (lh_tables h))"
  by (simp add: entries_of_def set_level_entries)

text \<open>
  The tree between compactions: well formed, every table at home and older than the next
  file number, no user key in two tables of a sorted level.
\<close>

definition tree_ok :: "levelsController \<Rightarrow> bool" where
  "tree_ok lc \<longleftrightarrow> lc_wf lc \<and> length (lc_levels lc) \<le> 98 \<and> (\<exists>home. at_home home lc) \<and>
     (\<forall>l. \<forall>t \<in> tables_at lc l. t_ID t < lc_nextFileID lc) \<and>
     (\<forall>l. l \<noteq> 0 \<longrightarrow> l \<noteq> 98 \<longrightarrow> (\<forall>a \<in> tables_at lc l. \<forall>b \<in> tables_at lc l. a \<noteq> b \<longrightarrow> users_differ a b))"

lemma level_of_handler:
  assumes "length (lc_levels lc) \<le> 98" and "h \<in> set (lc_levels lc)"
  shows "\<exists>l. handler_at lc l = Some h"
proof -
  obtain i where "i < length (lc_levels lc)" "h = lc_levels lc ! i" using assms(2) by (auto simp: in_set_conv_nth)
  then have "handler_at lc i = Some h" using assms(1) by (simp add: handler_at_def)
  then show ?thesis by blast
qed

lemma handlers_at: "length (lc_levels lc) \<le> 98 \<Longrightarrow> h \<in> set (handlers lc) \<longleftrightarrow> (\<exists>l. handler_at lc l = Some h)"
proof
  assume len: "length (lc_levels lc) \<le> 98" and "h \<in> set (handlers lc)"
  then consider "lc_hotTier lc = Some h" | "lc_hotTierOrd lc = Some h" | "h \<in> set (lc_levels lc)"
    by (auto simp: handlers_def split: option.splits)
  then show "\<exists>l. handler_at lc l = Some h"
  proof cases
    case 1
    then have "handler_at lc 98 = Some h" by (simp add: handler_at_def)
    then show ?thesis by blast
  next
    case 2
    then have "handler_at lc 99 = Some h" by (simp add: handler_at_def)
    then show ?thesis by blast
  next
    case 3
    then show ?thesis using level_of_handler [OF len] by blast
  qed
next
  assume "\<exists>l. handler_at lc l = Some h"
  then show "h \<in> set (handlers lc)" by (auto simp: handler_at_def handlers_def split: if_splits)
qed

lemma hot_at: "set (hot_entries (lc_hotTier lc)) = entries_of (tables_at lc 98)"
  "set (hot_entries (lc_hotTierOrd lc)) = entries_of (tables_at lc 99)"
  by (auto simp: hot_entries_def tables_at_def handler_at_def level_entries_of entries_of_def split: option.split)

lemma all_entries_at:
  assumes "length (lc_levels lc) \<le> 98"
  shows "set (all_entries lc) = (\<Union>l. entries_of (tables_at lc l))"
proof -
  have "e \<in> set (all_entries lc) \<longleftrightarrow> (\<exists>h \<in> set (handlers lc). e \<in> set (level_entries h))" for e
    by (auto simp: all_entries_def handlers_def hot_entries_def split: option.split)
  then have "e \<in> set (all_entries lc) \<longleftrightarrow> (\<exists>l h. handler_at lc l = Some h \<and> e \<in> entries_of (set (lh_tables h)))" for e
    using handlers_at [OF assms] by (metis level_entries_of)
  moreover have "(\<exists>l h. handler_at lc l = Some h \<and> e \<in> entries_of (set (lh_tables h))) \<longleftrightarrow> (\<exists>l. e \<in> entries_of (tables_at lc l))" for e
  proof -
    have "(\<exists>h. handler_at lc l = Some h \<and> e \<in> entries_of (set (lh_tables h))) \<longleftrightarrow> e \<in> entries_of (tables_at lc l)" for l
      by (cases "handler_at lc l") (auto simp: tables_at_def entries_of_def)
    then show ?thesis by simp
  qed
  ultimately show ?thesis by blast
qed

section \<open>Installing new tables\<close>

lemma handler_at_upd [simp]: "handler_at (lc\<lparr>lc_refs := s\<rparr>) = handler_at lc" "handler_at (lc\<lparr>lc_nextFileID := i\<rparr>) = handler_at lc"
  "handler_at (lc\<lparr>lc_cstatus := cs\<rparr>) = handler_at lc"
  by (rule ext, simp add: handler_at_def)+

lemma tables_at_upd [simp]: "tables_at (lc\<lparr>lc_refs := s\<rparr>) = tables_at lc" "tables_at (lc\<lparr>lc_nextFileID := i\<rparr>) = tables_at lc"
  "tables_at (lc\<lparr>lc_cstatus := cs\<rparr>) = tables_at lc"
  by (rule ext, simp add: tables_at_def)+

lemma handler_set: "handler_at lc l = Some h0 \<Longrightarrow> handler_at (set_handler lc l h) l' = (if l' = l then Some h else handler_at lc l')"
  by (auto simp: handler_at_def set_handler_def split: if_splits)

lemma set_handler_keeps [simp]: "lc_refs (set_handler lc l h) = lc_refs lc" "length (lc_levels (set_handler lc l h)) = length (lc_levels lc)"
  "lc_nextFileID (set_handler lc l h) = lc_nextFileID lc" "lc_cstatus (set_handler lc l h) = lc_cstatus lc"
  by (simp_all add: set_handler_def)

lemma set_handler_hot: "handler_at lc l = Some h0 \<Longrightarrow>
    (lc_hotTier (set_handler lc l h) = None \<longleftrightarrow> lc_hotTier lc = None) \<and> (lc_hotTierOrd (set_handler lc l h) = None \<longleftrightarrow> lc_hotTierOrd lc = None)"
  by (auto simp: set_handler_def handler_at_def split: if_splits)

text \<open>What \<open>install\<close> does: the two handlers it replaces, and the references.\<close>

lemma install_eq:
  assumes "handler_at lc (cd_thisLevel cd) = Some h" and "handler_at lc (cd_nextLevel cd) = Some n" and "cd_thisLevel cd \<noteq> cd_nextLevel cd"
  shows "\<exists>lc2. install lc cd new = Some lc2 \<and>
    (\<forall>l. handler_at lc2 l = (if l = cd_nextLevel cd then Some (snd (replaceTables (lc_refs lc) n (cd_bot cd) new))
       else if l = cd_thisLevel cd then Some (snd (deleteTables (lc_refs lc) h (cd_top cd))) else handler_at lc l)) \<and>
    lc_refs lc2 = decrRefs (decrRefs (foldl IncrRef (lc_refs lc) new) (cd_bot cd)) (cd_top cd) \<and>
    length (lc_levels lc2) = length (lc_levels lc) \<and> lc_nextFileID lc2 = lc_nextFileID lc \<and> lc_cstatus lc2 = lc_cstatus lc \<and>
    (lc_hotTier lc2 = None \<longleftrightarrow> lc_hotTier lc = None) \<and> (lc_hotTierOrd lc2 = None \<longleftrightarrow> lc_hotTierOrd lc = None)"
proof -
  let ?r = "replaceTables (lc_refs lc) n (cd_bot cd) new"
  let ?lc1 = "(set_handler lc (cd_nextLevel cd) (snd ?r))\<lparr>lc_refs := fst ?r\<rparr>"
  have 1: "replace_at lc (cd_nextLevel cd) (cd_bot cd) new = Some ?lc1"
    using assms(2) by (simp add: replace_at_def split: prod.split)
  have h1: "handler_at ?lc1 (cd_thisLevel cd) = Some h" using assms handler_set [OF assms(2)] by simp
  let ?d = "deleteTables (fst ?r) h (cd_top cd)"
  let ?lc2 = "(set_handler ?lc1 (cd_thisLevel cd) (snd ?d))\<lparr>lc_refs := fst ?d\<rparr>"
  have 2: "install lc cd new = Some ?lc2"
    using 1 h1 by (simp add: install_def delete_at_def split: prod.split)
  have d: "snd ?d = snd (deleteTables (lc_refs lc) h (cd_top cd))" by (simp add: deleteTables_eq)
  have "\<forall>l. handler_at ?lc2 l = (if l = cd_nextLevel cd then Some (snd ?r)
       else if l = cd_thisLevel cd then Some (snd (deleteTables (lc_refs lc) h (cd_top cd))) else handler_at lc l)"
    using handler_set [OF h1] handler_set [OF assms(2)] d assms(3) by simp
  moreover have "fst ?r = decrRefs (foldl IncrRef (lc_refs lc) new) (cd_bot cd)" "fst ?d = decrRefs (fst ?r) (cd_top cd)"
    by (auto simp: replaceTables_def deleteTables_def Let_def split: prod.split)
  ultimately show ?thesis
    using 2 set_handler_hot [OF h1, of "snd ?d"] set_handler_hot [OF assms(2), of "snd ?r"] by (intro exI [of _ ?lc2]) simp
qed

section \<open>The tables that stay in the next level\<close>

text \<open>A table of the next level that is not taken ends before the range of the compaction, or begins behind it.\<close>

lemma not_taken:
  assumes "level_wf n" and "\<not> unsorted n" and tb: "tables_between n kr = Some bots" and kr: "kr_left kr \<noteq> []" "kr_right kr \<noteq> []"
    and t: "t \<in> set (lh_tables n)" "t \<notin> set bots"
  shows "key_less (t_Biggest t) (kr_left kr) \<and> (\<forall>b \<in> set bots. before_table t b) \<or>
    key_less (kr_right kr) (t_Smallest t) \<and> (\<forall>b \<in> set bots. before_table b t)"
proof -
  let ?ts = "lh_tables n"
  obtain left right where lr: "overlappingTables n kr = (left, right)" by fastforce
  have bots: "bots = take (right - left) (drop left ?ts)"
    using tb lr by (auto simp: tables_between_def split: if_splits)
  obtain i where i: "i < length ?ts" "t = ?ts ! i" using t(1) by (auto simp: in_set_conv_nth)
  have srt: "sorted_wrt before_table ?ts" using assms(1,2) by (simp add: level_wf_def)
  have mem: "\<exists>j. left \<le> j \<and> j < right \<and> j < length ?ts \<and> b = ?ts ! j" if "b \<in> set bots" for b
  proof -
    from that obtain m where "m < right - left" "m < length ?ts - left" "b = ?ts ! (left + m)"
      unfolding bots in_set_conv_nth by auto
    then show ?thesis by (intro exI [of _ "left + m"]) auto
  qed
  have "\<not> (left \<le> i \<and> i < right)"
  proof
    assume "left \<le> i \<and> i < right"
    then have "t = bots ! (i - left)" "i - left < length bots" using i unfolding bots by auto
    then show False using t(2) by simp
  qed
  moreover have "left \<le> i \<longleftrightarrow> key_le (kr_left kr) (t_Biggest t)" "i < right \<longleftrightarrow> key_le (t_Smallest t) (kr_right kr)"
    using overlappingTables_iff [OF assms(1,2) kr i(1)] lr i(2) by auto
  ultimately consider "i < left" "key_less (t_Biggest t) (kr_left kr)" | "left \<le> i" "right \<le> i" "key_less (kr_right kr) (t_Smallest t)"
    by (metis not_le not_key_le)
  then show ?thesis
  proof cases
    case 1
    have "before_table t b" if b: "b \<in> set bots" for b
    proof -
      obtain j where "left \<le> j" "j < length ?ts" "b = ?ts ! j" using mem [OF b] by blast
      then show ?thesis using srt i 1(1) by (simp add: sorted_wrt_nth_less)
    qed
    then show ?thesis using 1(2) by blast
  next
    case 2
    have "before_table b t" if b: "b \<in> set bots" for b
    proof -
      obtain j where "j < right" "b = ?ts ! j" using mem [OF b] by blast
      then show ?thesis using srt i 2(2) by (simp add: sorted_wrt_nth_less)
    qed
    then show ?thesis using 2(3) by blast
  qed
qed

text \<open>So it shares no user key with the tables from above and lies apart from all that is made of them.\<close>

lemma range_bounds:
  assumes "tops \<noteq> []"
  shows "kr_left (getKeyRange tops) \<noteq> []" "kr_right (getKeyRange tops) \<noteq> []" "\<not> kr_inf (getKeyRange tops)"
  using assms by (cases tops; simp add: getKeyRange_def Let_def flip: length_greater_0_conv)+

lemma range_holds:
  assumes "t \<in> set tops" and "built_table t" and "e \<in> set (t_data t)" and "key_ok k" and "parse_key k = parse_key (fst e)"
  shows "key_le (kr_left (getKeyRange tops)) k \<and> key_le k (kr_right (getKeyRange tops))"
proof -
  have "tops \<noteq> []" using assms(1) by auto
  then show ?thesis
    using user_in_range [OF assms] range_bounds [of tops] by (auto simp: kr_keys_def kr_isEmpty_def)
qed

lemma not_taken_users:
  assumes "level_wf n" and "\<not> unsorted n" and "tables_between n (getKeyRange tops) = Some bots"
    and "\<forall>t \<in> set tops. built_table t" and t: "t \<in> set (lh_tables n)" "t \<notin> set bots" and u: "u \<in> set tops"
  shows "users_differ t u"
  unfolding users_differ_def
proof (intro ballI notI)
  fix f e assume f: "f \<in> set (t_data t)" and e: "e \<in> set (t_data u)" and same: "parse_key (fst f) = parse_key (fst e)"
  have bt: "built_table t" "built_table u" using assms(1,4) t(1) u by (auto simp: level_wf_def)
  have ne: "tops \<noteq> []" using u by auto
  have "key_ok (fst f)" using built_entries [OF bt(1)] f by blast
  then have k: "key_le (kr_left (getKeyRange tops)) (fst f)" "key_le (fst f) (kr_right (getKeyRange tops))"
    using range_holds [OF u bt(2) e _ same] by auto
  have b: "key_le (t_Smallest t) (fst f)" "key_le (fst f) (t_Biggest t)" using built_bounds [OF bt(1) f] by auto
  from not_taken [OF assms(1-3) range_bounds(1,2) [OF ne] t] show False
    using k b by (meson key_le_trans not_key_le)
qed

lemma tables_between_subset: "tables_between n kr = Some bots \<Longrightarrow> set bots \<subseteq> set (lh_tables n)"
proof -
  assume "tables_between n kr = Some bots"
  then obtain a c where "lh_tables n = a @ bots @ c" using conjunct1 [OF tables_between_part] by blast
  then show ?thesis by auto
qed

lemma not_taken_apart:
  assumes "level_wf n" and "\<not> unsorted n" and tb: "tables_between n (getKeyRange tops) = Some bots"
    and bt: "\<forall>t \<in> set tops. built_table t" and t: "t \<in> set (lh_tables n)" "t \<notin> set bots" and "tops \<noteq> []"
    and u: "built_table u" "set (t_data u) \<subseteq> entries_of (set tops \<union> set bots)"
  shows "before_table t u \<or> before_table u t"
proof -
  let ?kr = "getKeyRange tops"
  have bots: "set bots \<subseteq> set (lh_tables n)" by (rule tables_between_subset [OF tb])
  have bb: "\<forall>b \<in> set bots. built_table b" using assms(1) bots by (auto simp: level_wf_def)
  have ends: "hd (t_data u) \<in> set (t_data u)" "last (t_data u) \<in> set (t_data u)" "t_Smallest u = fst (hd (t_data u))"
    "t_Biggest u = fst (last (t_data u))" using u(1) by (auto simp: built_table_def)
  have src: "(\<exists>a \<in> set tops. e \<in> set (t_data a)) \<or> (\<exists>b \<in> set bots. e \<in> set (t_data b))" if "e \<in> set (t_data u)" for e
    using u(2) that by (auto simp: entries_of_def)
  have top: "key_le (kr_left ?kr) (fst e) \<and> key_le (fst e) (kr_right ?kr)" if "a \<in> set tops" "e \<in> set (t_data a)" for a e
  proof -
    have "built_table a" using bt that(1) by blast
    then show ?thesis using range_holds [OF that(1) _ that(2)] built_entries [of a] that(2) by blast
  qed
  from not_taken [OF assms(1-3) range_bounds(1,2) [OF \<open>tops \<noteq> []\<close>] t] show ?thesis
  proof
    assume l: "key_less (t_Biggest t) (kr_left ?kr) \<and> (\<forall>b \<in> set bots. before_table t b)"
    have "key_less (t_Biggest t) (fst e)" if "e \<in> set (t_data u)" for e
      using src [OF that] l top bb built_bounds unfolding before_table_def by (meson key_less_le_trans)
    then show ?thesis using ends by (simp add: before_table_def)
  next
    assume r: "key_less (kr_right ?kr) (t_Smallest t) \<and> (\<forall>b \<in> set bots. before_table b t)"
    have "key_less (fst e) (t_Smallest t)" if "e \<in> set (t_data u)" for e
      using src [OF that] r top bb built_bounds unfolding before_table_def by (meson key_le_less_trans)
    then show ?thesis using ends by (simp add: before_table_def)
  qed
qed

section \<open>The tree after a compaction\<close>

lemma replaceTables_mset: "mset (lh_tables (snd (replaceTables s lh toDel toAdd))) = mset (kept lh toDel @ toAdd)"
  by (simp add: replaceTables_def level_updates kept_def Let_def mset_go_sort split: prod.split)

lemma next_ids_fresh:
  assumes "unat (lc_nextFileID lc) + n < 2 ^ 64"
  shows "distinct (next_ids lc n)" and "i \<in> set (next_ids lc n) \<Longrightarrow> lc_nextFileID lc \<le> i \<and> i < lc_nextFileID lc + of_nat n"
    and "lc_nextFileID lc \<le> lc_nextFileID lc + of_nat n"
proof -
  let ?i = "lc_nextFileID lc"
  have u: "unat (?i + of_nat j) = unat ?i + j" if "j \<le> n" for j
  proof -
    have "unat (of_nat j :: u64) = j" using that assms by (simp add: unat_of_nat)
    then show ?thesis using that assms by (simp add: unat_word_ariths)
  qed
  show "distinct (next_ids lc n)"
    unfolding next_ids_def distinct_map using u by (auto intro!: inj_onI) (metis add_left_cancel less_imp_le)
  show "?i \<le> ?i + of_nat n" using u [of n] by (simp add: word_le_nat_alt)
  show "i \<in> set (next_ids lc n) \<Longrightarrow> ?i \<le> i \<and> i < ?i + of_nat n"
    using u u [of n] by (auto simp: next_ids_def word_le_nat_alt word_less_nat_alt)
qed

text \<open>
  What \<open>checkOverlap\<close> looks at. The entries of a key in the other levels and in the memtables it
  leaves to the order of ages: what stays there must be newer than what is merged.
\<close>

definition looked_at :: "compactDef \<Rightarrow> nat \<Rightarrow> bool" where
  "looked_at cd l \<longleftrightarrow> (if l = 98 \<or> l = 99 then cd_thisLevel cd < baseLevel (cd_t cd)
     else \<not> (cd_thisLevel cd < 98 \<and> l < cd_nextLevel cd + 1))"

definition key_aged :: "entry list \<Rightarrow> levelsController \<Rightarrow> compactDef \<Rightarrow> bytes \<Rightarrow> bool" where
  "key_aged M lc cd k \<longleftrightarrow>
     (\<forall>r \<in> set M. \<forall>e \<in> set (merge_input cd). parse_key (fst r) = k \<longrightarrow> parse_key (fst e) = k \<longrightarrow> ParseTs (fst e) < ParseTs (fst r) \<or> r = e) \<and>
     (\<forall>l. \<forall>r \<in> entries_of (tables_at lc l - set (allTables cd)). \<forall>e \<in> set (merge_input cd).
        l \<noteq> cd_nextLevel cd \<longrightarrow> \<not> looked_at cd l \<longrightarrow> parse_key (fst r) = k \<longrightarrow> parse_key (fst e) = k \<longrightarrow> ParseTs (fst e) < ParseTs (fst r) \<or> r = e)"

text \<open>What is left in the unsorted hot tier must be newer than what moves down from it.\<close>

definition hot_aged :: "levelsController \<Rightarrow> compactDef \<Rightarrow> bool" where
  "hot_aged lc cd \<longleftrightarrow> (cd_thisLevel cd = 98 \<longrightarrow> (\<forall>r \<in> entries_of (tables_at lc 98 - set (allTables cd)). \<forall>e \<in> set (merge_input cd).
     parse_key (fst r) = parse_key (fst e) \<longrightarrow> ParseTs (fst e) < ParseTs (fst r)))"

text \<open>The levels of a compaction as \<open>doCompact\<close> pairs them.\<close>

definition levels_paired :: "compactDef \<Rightarrow> bool" where
  "levels_paired cd \<longleftrightarrow> (cd_thisLevel cd = 98 \<longleftrightarrow> cd_nextLevel cd = 99) \<and> baseLevel (cd_t cd) < 98"

definition new_ok :: "levelsController \<Rightarrow> compactDef \<Rightarrow> table list \<Rightarrow> bool" where
  "new_ok lc cd new \<longleftrightarrow> (\<forall>t \<in> set new. built_table t \<and> \<not> t_IsInmemory t \<and> set (t_data t) \<subseteq> set (merge_input cd)) \<and>
     distinct new \<and> set (map t_ID new) = set (next_ids lc (length new)) \<and>
     (\<forall>a \<in> set new. \<forall>b \<in> set new. a \<noteq> b \<longrightarrow> (before_table a b \<or> before_table b a) \<and> users_differ a b)"

lemma merge_input_entries: "set (merge_input cd) = entries_of (set (cd_top cd) \<union> set (cd_bot cd))"
  by (auto simp: merge_input_def entries_of_def)

lemma new_ok_count:
  assumes "new_ok lc cd new" and "unat (lc_nextFileID lc) + length (merge_input cd) < 2 ^ 64"
  shows "unat (lc_nextFileID lc) + length new < 2 ^ 64"
proof -
  let ?f = "\<lambda>t. hd (t_data t)"
  have h: "?f t \<in> set (t_data t)" if "t \<in> set new" for t
    using assms(1) that by (auto simp: new_ok_def built_table_def)
  have "inj_on ?f (set new)"
  proof (rule inj_onI, rule ccontr)
    fix a b assume ab: "a \<in> set new" "b \<in> set new" "?f a = ?f b" "a \<noteq> b"
    then have "users_differ a b" using assms(1) by (auto simp: new_ok_def)
    then show False using h [OF ab(1)] h [OF ab(2)] ab(3) unfolding users_differ_def by metis
  qed
  moreover have "?f ` set new \<subseteq> set (merge_input cd)" using h assms(1) by (fastforce simp: new_ok_def)
  ultimately have "card (set new) \<le> card (set (merge_input cd))" by (rule card_inj_on_le) simp
  moreover have "card (set new) = length new" using assms(1) by (simp add: new_ok_def distinct_card)
  ultimately show ?thesis using assms(2) card_length [of "merge_input cd"] by linarith
qed

text \<open>The facts that the proofs share: the two handlers and what is taken from them.\<close>

lemma kept_set:
  assumes "distinct (map t_ID (lh_tables h))" and "set ts \<subseteq> set (lh_tables h)"
  shows "set (kept h ts) = set (lh_tables h) - set ts"
proof -
  have "t \<in> set ts" if "t \<in> set (lh_tables h)" "u \<in> set ts" "t_ID t = t_ID u" for t u
    using that assms by (metis distinct_map inj_onD subsetD)
  then show ?thesis by (auto simp: kept_def image_iff)
qed

lemma down_handlers:
  assumes "tree_ok lc" and "down_ok lc cd" and "job_ready cd l"
  shows "\<exists>h n. handler_at lc (cd_thisLevel cd) = Some h \<and> handler_at lc (cd_nextLevel cd) = Some n \<and>
    level_wf h \<and> level_wf n \<and> \<not> unsorted n \<and> set (cd_top cd) \<subseteq> set (lh_tables h) \<and> set (cd_bot cd) \<subseteq> set (lh_tables n) \<and>
    set (kept h (cd_top cd)) = tables_at lc (cd_thisLevel cd) - set (cd_top cd) \<and>
    set (kept n (cd_bot cd)) = tables_at lc (cd_nextLevel cd) - set (cd_bot cd) \<and>
    cd_top cd \<noteq> [] \<and> (\<forall>t \<in> set (cd_top cd) \<union> set (cd_bot cd). built_table t) \<and>
    tables_between n (getKeyRange (cd_top cd)) = Some (cd_bot cd) \<and> sorted_wrt before_table (cd_bot cd) \<and>
    cd_thisRange cd = getKeyRange (cd_top cd) \<and> cd_nextRange cd = (if cd_bot cd = [] then cd_thisRange cd else getKeyRange (cd_bot cd))"
proof -
  obtain h n where h: "handler_at lc (cd_thisLevel cd) = Some h" "handler_at lc (cd_nextLevel cd) = Some n"
    and t: "cd_top cd \<noteq> []" "set (cd_top cd) \<subseteq> set (lh_tables h)"
    and r: "cd_thisRange cd = getKeyRange (cd_top cd)"
    and b: "tables_between n (cd_thisRange cd) = Some (cd_bot cd)"
    and r': "cd_nextRange cd = (if cd_bot cd = [] then cd_thisRange cd else getKeyRange (cd_bot cd))"
    using assms(2) by (auto simp: down_ok_def)
  have len: "length (lc_levels lc) \<le> 98" and wf: "lc_wf lc" using assms(1) by (simp_all add: tree_ok_def)
  obtain home where hm: "at_home home lc" using assms(1) by (auto simp: tree_ok_def)
  have lw: "level_wf h" "level_wf n" using wf h handlers_at [OF len] by (auto simp: lc_wf_def)
  have "lh_level n = cd_nextLevel cd" using hm h(2) by (simp add: at_home_def)
  then have un: "\<not> unsorted n" using assms(3) by (simp add: unsorted_def job_ready_def)
  have dist: "distinct (map t_ID (lh_tables h))" "distinct (map t_ID (lh_tables n))" using hm h unfolding at_home_def by blast+
  have bs: "set (cd_bot cd) \<subseteq> set (lh_tables n)" by (rule tables_between_subset [OF b])
  obtain a c where n: "lh_tables n = a @ cd_bot cd @ c" using conjunct1 [OF tables_between_part [OF b]] by blast
  have "sorted_wrt before_table (lh_tables n)" using lw(2) un by (simp add: level_wf_def)
  then have srt: "sorted_wrt before_table (cd_bot cd)" unfolding n by (simp add: sorted_wrt_append)
  have bt: "\<forall>t \<in> set (cd_top cd) \<union> set (cd_bot cd). built_table t" using lw t(2) bs unfolding level_wf_def by blast
  show ?thesis
    using h lw un t bs kept_set [OF dist(1) t(2)] kept_set [OF dist(2) bs] bt b srt r r'
    by (intro exI [of _ h] exI [of _ n]) (simp add: tables_at_def)
qed

text \<open>Levels are disjoint, so the tables taken are in their two levels only.\<close>

lemma tables_apart_levels:
  assumes "at_home home lc" and "t \<in> tables_at lc l" and "u \<in> tables_at lc m" and "t_ID t = t_ID u"
  shows "l = m \<and> t = u"
proof -
  obtain h g where h: "handler_at lc l = Some h" "t \<in> set (lh_tables h)" "handler_at lc m = Some g" "u \<in> set (lh_tables g)"
    using assms(2,3) by (auto simp: tables_at_def split: option.splits)
  then have "home (t_ID t) = (l, getKeyRange [t])" "home (t_ID u) = (m, getKeyRange [u])" "distinct (map t_ID (lh_tables h))"
    using assms(1) by (auto simp: at_home_def)
  then show ?thesis using assms(4) h by (metis Pair_inject distinct_map inj_onD option.inject)
qed

definition after :: "levelsController \<Rightarrow> compactDef \<Rightarrow> table list \<Rightarrow> nat \<Rightarrow> table set" where
  "after lc cd new l = (if l = cd_nextLevel cd then tables_at lc l - set (cd_bot cd) \<union> set new
     else if l = cd_thisLevel cd then tables_at lc l - set (cd_top cd) else tables_at lc l)"

text \<open>The references: one for every new table, none for the old ones.\<close>

lemma refs_after:
  assumes "i \<notin> t_ID ` set (cd_top cd) \<union> t_ID ` set (cd_bot cd)"
  shows "rf_count (decrRefs (decrRefs (decrRefs (foldl IncrRef (open_refs s new) new) (cd_bot cd)) (cd_top cd)) new) i =
    (if i \<in> t_ID ` set new then 1 else rf_count s i)"
proof -
  have "count_list (map t_ID (cd_top cd)) i = 0" "count_list (map t_ID (cd_bot cd)) i = 0"
    using assms by (simp_all add: count_list_0_iff)
  then show ?thesis by (simp add: decrRefs_count foldl_IncrRef open_refs_def)
qed

lemma sorted_pair: "sorted_wrt P xs \<Longrightarrow> a \<in> set xs \<Longrightarrow> b \<in> set xs \<Longrightarrow> a \<noteq> b \<Longrightarrow> P a b \<or> P b a"
  by (induction xs) auto

definition numbered :: "levelsController \<Rightarrow> table list \<Rightarrow> levelsController" where
  "numbered lc new = lc\<lparr>lc_nextFileID := lc_nextFileID lc + of_nat (length new), lc_refs := open_refs (lc_refs lc) new\<rparr>"

lemma numbered_simps [simp]: "handler_at (numbered lc new) = handler_at lc" "tables_at (numbered lc new) = tables_at lc"
  "lc_refs (numbered lc new) = open_refs (lc_refs lc) new" "lc_levels (numbered lc new) = lc_levels lc"
  "lc_nextFileID (numbered lc new) = lc_nextFileID lc + of_nat (length new)"
  "lc_hotTier (numbered lc new) = lc_hotTier lc" "lc_hotTierOrd (numbered lc new) = lc_hotTierOrd lc"
  "lc_cstatus (numbered lc new) = lc_cstatus lc"
  by (rule ext | simp add: numbered_def handler_at_def tables_at_def)+

text \<open>New numbers are not in the tree.\<close>

lemma new_ids:
  assumes "tree_ok lc" and "new_ok lc cd new" and "unat (lc_nextFileID lc) + length (merge_input cd) < 2 ^ 64"
  shows "distinct (map t_ID new)" and "t \<in> tables_at lc l \<Longrightarrow> u \<in> set new \<Longrightarrow> t_ID t \<noteq> t_ID u"
    and "u \<in> set new \<Longrightarrow> t_ID u < lc_nextFileID lc + of_nat (length new)"
    and "lc_nextFileID lc \<le> lc_nextFileID lc + of_nat (length new)"
proof -
  note room = new_ok_count [OF assms(2,3)]
  have s: "set (map t_ID new) = set (next_ids lc (length new))" using assms(2) by (simp add: new_ok_def)
  have "card (set (map t_ID new)) = length (next_ids lc (length new))"
    unfolding s by (rule distinct_card [OF next_ids_fresh(1) [OF room]])
  then show "distinct (map t_ID new)" by (intro card_distinct) (simp add: next_ids_def)
  have u: "lc_nextFileID lc \<le> t_ID u \<and> t_ID u < lc_nextFileID lc + of_nat (length new)" if "u \<in> set new" for u
  proof -
    have "t_ID u \<in> set (next_ids lc (length new))" unfolding s [symmetric] using that by simp
    then show ?thesis by (rule next_ids_fresh(2) [OF room])
  qed
  show "u \<in> set new \<Longrightarrow> t_ID u < lc_nextFileID lc + of_nat (length new)" using u by blast
  show "lc_nextFileID lc \<le> lc_nextFileID lc + of_nat (length new)" by (rule next_ids_fresh(3) [OF room])
  assume t: "t \<in> tables_at lc l" and new: "u \<in> set new"
  have "t_ID t < lc_nextFileID lc" using assms(1) t unfolding tree_ok_def by blast
  then show "t_ID t \<noteq> t_ID u" using u [OF new] by auto
qed

lemma install_tables:
  assumes tree: "tree_ok lc" and d: "down_ok lc cd" and j: "job_ready cd l" and new: "new_ok lc cd new"
    and room: "unat (lc_nextFileID lc) + length (merge_input cd) < 2 ^ 64"
  shows "\<exists>lc2. install (numbered lc new) cd new = Some lc2 \<and> tables_at lc2 = after lc cd new \<and>
    (\<forall>m h. handler_at lc2 m = Some h \<longrightarrow> level_wf h \<and> lh_level h = m \<and> distinct (map t_ID (lh_tables h))) \<and>
    lc_refs lc2 = decrRefs (decrRefs (foldl IncrRef (open_refs (lc_refs lc) new) new) (cd_bot cd)) (cd_top cd) \<and>
    length (lc_levels lc2) = length (lc_levels lc) \<and> lc_nextFileID lc2 = lc_nextFileID lc + of_nat (length new) \<and>
    lc_cstatus lc2 = lc_cstatus lc \<and>
    (lc_hotTier lc2 = None \<longleftrightarrow> lc_hotTier lc = None) \<and> (lc_hotTierOrd lc2 = None \<longleftrightarrow> lc_hotTierOrd lc = None)"
proof -
  from down_handlers [OF tree d j] obtain h n where
    h: "handler_at lc (cd_thisLevel cd) = Some h" and n: "handler_at lc (cd_nextLevel cd) = Some n"
    and wf: "level_wf h" "level_wf n" and un: "\<not> unsorted n"
    and kh: "set (kept h (cd_top cd)) = tables_at lc (cd_thisLevel cd) - set (cd_top cd)"
    and kn: "set (kept n (cd_bot cd)) = tables_at lc (cd_nextLevel cd) - set (cd_bot cd)"
    and top: "cd_top cd \<noteq> []" "\<forall>t \<in> set (cd_top cd) \<union> set (cd_bot cd). built_table t"
    and tb: "tables_between n (getKeyRange (cd_top cd)) = Some (cd_bot cd)" by blast
  have lv: "cd_thisLevel cd \<noteq> cd_nextLevel cd" using j by (simp add: job_ready_def)
  obtain home where hm: "at_home home lc" using tree by (auto simp: tree_ok_def)
  have len: "length (lc_levels lc) \<le> 98" and lw: "lc_wf lc" using tree by (simp_all add: tree_ok_def)
  let ?s = "lc_refs (numbered lc new)"
  let ?n' = "snd (replaceTables ?s n (cd_bot cd) new)" and ?h' = "snd (deleteTables ?s h (cd_top cd))"
  have apart: "before_table a b \<or> before_table b a" if a: "a \<in> set (kept n (cd_bot cd))" and b: "b \<in> set new" for a b
  proof (rule not_taken_apart [OF wf(2) un tb _ _ _ top(1)])
    show "\<forall>t \<in> set (cd_top cd). built_table t" using top(2) by blast
    show "a \<in> set (lh_tables n)" "a \<notin> set (cd_bot cd)" using a kn n by (auto simp: kept_def tables_at_def)
    show "built_table b" using new b by (simp add: new_ok_def)
    show "set (t_data b) \<subseteq> entries_of (set (cd_top cd) \<union> set (cd_bot cd))"
      using new b unfolding new_ok_def merge_input_entries by blast
  qed
  have kept: "\<forall>t \<in> set (kept n (cd_bot cd)). t \<in> tables_at lc (cd_nextLevel cd)" using kn by blast
  have dist: "distinct (map t_ID (lh_tables h))" "distinct (map t_ID (lh_tables n))" using hm h n unfolding at_home_def by blast+
  have kd: "distinct (map t_ID (kept h (cd_top cd)))" "distinct (map t_ID (kept n (cd_bot cd)))"
    using dist by (simp_all add: kept_def distinct_map_filter)
  have ids: "distinct (map t_ID (kept n (cd_bot cd) @ new))"
    using kd(2) new_ids(1,2) [OF tree new room] kept by fastforce
  have srt: "sorted_wrt before_table (lh_tables n)" using wf(2) un by (simp add: level_wf_def)
  have dj: "distinct (kept n (cd_bot cd) @ new) \<and> (\<forall>a \<in> set (kept n (cd_bot cd) @ new). \<forall>b \<in> set (kept n (cd_bot cd) @ new).
      a \<noteq> b \<longrightarrow> before_table a b \<or> before_table b a)"
  proof (intro conjI ballI impI)
    show "distinct (kept n (cd_bot cd) @ new)" using ids distinct_map by blast
    fix a b assume "a \<in> set (kept n (cd_bot cd) @ new)" "b \<in> set (kept n (cd_bot cd) @ new)" and ne: "a \<noteq> b"
    then consider "a \<in> set (kept n (cd_bot cd))" "b \<in> set (kept n (cd_bot cd))" | "a \<in> set (kept n (cd_bot cd))" "b \<in> set new"
      | "b \<in> set (kept n (cd_bot cd))" "a \<in> set new" | "a \<in> set new" "b \<in> set new" by auto
    then show "before_table a b \<or> before_table b a"
    proof cases
      case 1
      then have "a \<in> set (lh_tables n)" "b \<in> set (lh_tables n)" by (auto simp: kept_def)
      then show ?thesis by (rule sorted_pair [OF srt _ _ ne])
    next
      case 4
      then show ?thesis using new ne by (simp add: new_ok_def)
    qed (use apart in blast)+
  qed
  have built: "\<forall>t \<in> set new. built_table t" using new by (simp add: new_ok_def)
  note rep = replaceTables_wf [OF wf(2) built dj, of ?s] and del = deleteTables_wf [OF wf(1), of ?s "cd_top cd"]
  obtain lc2 where i: "install (numbered lc new) cd new = Some lc2"
    and hs: "\<forall>m. handler_at lc2 m = (if m = cd_nextLevel cd then Some ?n' else if m = cd_thisLevel cd then Some ?h' else handler_at lc m)"
    and keep: "lc_refs lc2 = decrRefs (decrRefs (foldl IncrRef (open_refs (lc_refs lc) new) new) (cd_bot cd)) (cd_top cd)"
      "length (lc_levels lc2) = length (lc_levels lc)" "lc_nextFileID lc2 = lc_nextFileID lc + of_nat (length new)" "lc_cstatus lc2 = lc_cstatus lc"
      "(lc_hotTier lc2 = None \<longleftrightarrow> lc_hotTier lc = None) \<and> (lc_hotTierOrd lc2 = None \<longleftrightarrow> lc_hotTierOrd lc = None)"
    using install_eq [of "numbered lc new" cd h n new] h n lv by auto
  have "tables_at lc2 m = after lc cd new m" for m
    using hs rep del kn kh by (simp add: tables_at_def after_def)
  then have tabs: "tables_at lc2 = after lc cd new" by (rule ext)
  have "level_wf g \<and> lh_level g = m \<and> distinct (map t_ID (lh_tables g))" if g: "handler_at lc2 m = Some g" for m g
  proof -
    have lvl: "lh_level h = cd_thisLevel cd" "lh_level n = cd_nextLevel cd" using hm h n by (auto simp: at_home_def)
    have "distinct (map t_ID (lh_tables ?n'))"
      using ids replaceTables_mset [of ?s n "cd_bot cd" new] by (metis mset_eq_imp_distinct_iff mset_map)
    moreover have "lh_level ?h' = lh_level h" by (simp add: deleteTables_eq Let_def)
    ultimately show ?thesis
      using g hs rep del lvl kd(1) hm handlers_at [OF len] lw
      by (auto simp: at_home_def lc_wf_def split: if_splits)
  qed
  then have "\<forall>m g. handler_at lc2 m = Some g \<longrightarrow> level_wf g \<and> lh_level g = m \<and> distinct (map t_ID (lh_tables g))" by blast
  then show ?thesis using i tabs keep by (intro exI [of _ lc2] conjI) simp_all
qed

text \<open>What is in a level afterwards was there before and not taken, or is new in the next level.\<close>

lemma after_iff:
  assumes tree: "tree_ok lc" and d: "down_ok lc cd" and j: "job_ready cd l"
  shows "t \<in> after lc cd new m \<longleftrightarrow> t \<in> tables_at lc m - set (allTables cd) \<or> m = cd_nextLevel cd \<and> t \<in> set new"
proof -
  obtain home where hm: "at_home home lc" using tree by (auto simp: tree_ok_def)
  from down_handlers [OF tree d j] obtain h n where h: "handler_at lc (cd_thisLevel cd) = Some h" "handler_at lc (cd_nextLevel cd) = Some n"
    and s: "set (cd_top cd) \<subseteq> set (lh_tables h)" "set (cd_bot cd) \<subseteq> set (lh_tables n)" by blast
  have top: "m = cd_thisLevel cd" if "t \<in> set (cd_top cd)" "t \<in> tables_at lc m"
    using tables_apart_levels [OF hm that(2), of t "cd_thisLevel cd"] that(1) s(1) h(1) by (auto simp: tables_at_def)
  have bot: "m = cd_nextLevel cd" if "t \<in> set (cd_bot cd)" "t \<in> tables_at lc m"
    using tables_apart_levels [OF hm that(2), of t "cd_nextLevel cd"] that(1) s(2) h(2) by (auto simp: tables_at_def)
  have "cd_thisLevel cd \<noteq> cd_nextLevel cd" using j by (simp add: job_ready_def)
  then show ?thesis using top bot by (auto simp: after_def allTables_def)
qed

lemma taken_at:
  assumes tree: "tree_ok lc" and d: "down_ok lc cd" and j: "job_ready cd l"
  shows "(\<Union>m. tables_at lc m) = (\<Union>m. tables_at lc m - set (allTables cd)) \<union> set (allTables cd)"
proof -
  from down_handlers [OF tree d j] have "set (cd_top cd) \<subseteq> tables_at lc (cd_thisLevel cd)" "set (cd_bot cd) \<subseteq> tables_at lc (cd_nextLevel cd)"
    by (auto simp: tables_at_def)
  then show ?thesis by (auto simp: allTables_def)
qed

lemma kept_new_differ:
  assumes tree: "tree_ok lc" and d: "down_ok lc cd" and j: "job_ready cd l" 
    and a: "a \<in> tables_at lc (cd_nextLevel cd) - set (allTables cd)" and sub: "E \<subseteq> set (merge_input cd)"
    and f: "f \<in> set (t_data a)" and e: "e \<in> E"
  shows "parse_key (fst f) \<noteq> parse_key (fst e)"
proof -
  from down_handlers [OF tree d j] obtain n where n: "handler_at lc (cd_nextLevel cd) = Some n"
    and wf: "level_wf n" "\<not> unsorted n" and bs: "set (cd_bot cd) \<subseteq> set (lh_tables n)"
    and bt: "\<forall>t \<in> set (cd_top cd) \<union> set (cd_bot cd). built_table t"
    and tb: "tables_between n (getKeyRange (cd_top cd)) = Some (cd_bot cd)" by blast
  have lv: "cd_nextLevel cd \<noteq> 0" "cd_nextLevel cd \<noteq> 98" using j by (simp_all add: job_ready_def)
  have a': "a \<in> set (lh_tables n)" "a \<notin> set (cd_bot cd)" "a \<in> tables_at lc (cd_nextLevel cd)"
    using a n by (auto simp: tables_at_def allTables_def)
  have "e \<in> set (merge_input cd)" using e sub by blast
  then obtain u where u: "u \<in> set (cd_top cd) \<or> u \<in> set (cd_bot cd)" "e \<in> set (t_data u)"
    by (auto simp: merge_input_def)
  have "users_differ a u" using u(1)
  proof
    assume "u \<in> set (cd_top cd)"
    then show ?thesis using not_taken_users [OF wf tb _ a'(1,2)] bt by blast
  next
    assume b: "u \<in> set (cd_bot cd)"
    then have "u \<in> tables_at lc (cd_nextLevel cd)" "a \<noteq> u" using bs n a'(2) by (auto simp: tables_at_def)
    then show ?thesis using tree a'(3) lv unfolding tree_ok_def by blast
  qed
  then show ?thesis using f u(2) by (simp add: users_differ_def)
qed

lemma after_users:
  assumes tree: "tree_ok lc" and d: "down_ok lc cd" and j: "job_ready cd l" and new: "new_ok lc cd new"
    and m: "m \<noteq> 0" "m \<noteq> 98" and ab: "a \<in> after lc cd new m" "b \<in> after lc cd new m" "a \<noteq> b"
  shows "users_differ a b"
proof -
  have mix: "users_differ t u" if t: "t \<in> tables_at lc (cd_nextLevel cd) - set (allTables cd)" and u: "u \<in> set new" for t u
  proof -
    have "set (t_data u) \<subseteq> set (merge_input cd)" using new u by (simp add: new_ok_def)
    then show ?thesis using kept_new_differ [OF tree d j t] unfolding users_differ_def by blast
  qed
  have "users_differ a b" if "a \<in> tables_at lc m" "b \<in> tables_at lc m" using tree m ab(3) that unfolding tree_ok_def by blast
  moreover have "users_differ a b" if "a \<in> set new" "b \<in> set new" using new ab(3) that by (simp add: new_ok_def)
  ultimately show ?thesis
    using ab(1,2) [unfolded after_iff [OF tree d j]] mix [of a b] mix [of b a] users_differ_sym [of b a] by blast
qed

lemma after_fresh:
  assumes tree: "tree_ok lc" and d: "down_ok lc cd" and j: "job_ready cd l" and new: "new_ok lc cd new"
    and room: "unat (lc_nextFileID lc) + length (merge_input cd) < 2 ^ 64" and t: "t \<in> after lc cd new m"
  shows "t_ID t \<notin> t_ID ` set (allTables cd)"
proof
  assume "t_ID t \<in> t_ID ` set (allTables cd)"
  then obtain u where u: "u \<in> set (allTables cd)" "t_ID t = t_ID u" by auto
  obtain home where hm: "at_home home lc" using tree by (auto simp: tree_ok_def)
  obtain k where k: "u \<in> tables_at lc k" using taken_at [OF tree d j] u(1) by blast
  from t [unfolded after_iff [OF tree d j]] show False
  proof
    assume "t \<in> tables_at lc m - set (allTables cd)"
    then show False using tables_apart_levels [OF hm _ k u(2)] u(1) by blast
  next
    assume "m = cd_nextLevel cd \<and> t \<in> set new"
    then show False using new_ids(2) [OF tree new room k, of t] u(2) by simp
  qed
qed

lemma tree_after:
  assumes tree: "tree_ok lc" and d: "down_ok lc cd" and j: "job_ready cd l" and new: "new_ok lc cd new"
    and room: "unat (lc_nextFileID lc) + length (merge_input cd) < 2 ^ 64"
    and lp: "levels_paired cd" and ages: "hot_aged lc cd"
  shows "\<exists>lc2. install (numbered lc new) cd new = Some lc2 \<and> tables_at lc2 = after lc cd new \<and> tree_ok (drop_refs lc2 new) \<and>
    lc_cstatus lc2 = lc_cstatus lc"
proof -
  obtain lc2 where i: "install (numbered lc new) cd new = Some lc2" and tabs: "tables_at lc2 = after lc cd new"
    and hs: "\<forall>m h. handler_at lc2 m = Some h \<longrightarrow> level_wf h \<and> lh_level h = m \<and> distinct (map t_ID (lh_tables h))"
    and refs: "lc_refs lc2 = decrRefs (decrRefs (foldl IncrRef (open_refs (lc_refs lc) new) new) (cd_bot cd)) (cd_top cd)"
    and keep: "length (lc_levels lc2) = length (lc_levels lc)" "lc_nextFileID lc2 = lc_nextFileID lc + of_nat (length new)"
      "lc_cstatus lc2 = lc_cstatus lc" "lc_hotTier lc2 = None \<longleftrightarrow> lc_hotTier lc = None" "lc_hotTierOrd lc2 = None \<longleftrightarrow> lc_hotTierOrd lc = None"
    using install_tables [OF tree d j new room] by (elim exE conjE) (rule that, assumption+)
  obtain home where hm: "at_home home lc" using tree by (auto simp: tree_ok_def)
  have len: "length (lc_levels lc) \<le> 98" and lw: "lc_wf lc" using tree by (simp_all add: tree_ok_def)
  note in_after = after_iff [OF tree d j, of _ new]
  have fresh: "t_ID t \<notin> t_ID ` set (cd_top cd) \<union> t_ID ` set (cd_bot cd)" if "t \<in> after lc cd new m" for t m
    using after_fresh [OF tree d j new room that] by (simp add: allTables_def image_Un)
  have old: "0 < rf_count (lc_refs lc) (t_ID t)" if "t \<in> tables_at lc m" for t m
    using lw that handlers_at [OF len] by (fastforce simp: lc_wf_def tables_at_def split: option.splits)
  have rf: "0 < rf_count (lc_refs (drop_refs lc2 new)) (t_ID t)" if t: "t \<in> after lc cd new m" for t m
    using refs_after [OF fresh [OF t], of "lc_refs lc" new] t [unfolded in_after] old [of t m] by (auto simp: drop_refs_def refs)
  have hot: "hot_newer (drop_refs lc2 new)"
    unfolding hot_newer_def hot_at drop_refs_def tables_at_upd tabs
  proof (intro ballI impI)
    fix a b assume "a \<in> entries_of (after lc cd new 98)" "b \<in> entries_of (after lc cd new 99)" and same: "parse_key (fst a) = parse_key (fst b)"
    then obtain t u where t: "t \<in> after lc cd new 98" "a \<in> set (t_data t)" and u: "u \<in> after lc cd new 99" "b \<in> set (t_data u)"
      by (auto simp: entries_of_def)
    have t': "t \<in> tables_at lc 98 - set (allTables cd)" using t(1) j unfolding in_after by (simp add: job_ready_def)
    then have a: "a \<in> entries_of (tables_at lc 98 - set (allTables cd))" "a \<in> entries_of (tables_at lc 98)"
      using t(2) by (auto simp: entries_of_def)
    from u(1) [unfolded in_after] show "ParseTs (fst b) < ParseTs (fst a)"
    proof
      assume "u \<in> tables_at lc 99 - set (allTables cd)"
      then have "b \<in> entries_of (tables_at lc 99)" using u(2) by (auto simp: entries_of_def)
      then show ?thesis using lw a(2) same unfolding lc_wf_def hot_newer_def hot_at by blast
    next
      assume n: "99 = cd_nextLevel cd \<and> u \<in> set new"
      then have "b \<in> set (merge_input cd)" using new u(2) unfolding new_ok_def by blast
      moreover have "cd_thisLevel cd = 98" using n lp by (auto simp: levels_paired_def)
      ultimately show ?thesis using ages a(1) same unfolding hot_aged_def by blast
    qed
  qed
  define home' where "home' i = (case map_of (map (\<lambda>t. (t_ID t, getKeyRange [t])) new) i of None \<Rightarrow> home i | Some r \<Rightarrow> (cd_nextLevel cd, r))" for i
  have home_new: "home' (t_ID t) = (cd_nextLevel cd, getKeyRange [t])" if "t \<in> set new" for t
  proof -
    have "map_of (map (\<lambda>t. (t_ID t, getKeyRange [t])) new) (t_ID t) = Some (getKeyRange [t])"
      using new_ids(1) [OF tree new room] that by (intro map_of_is_SomeI) (auto simp: comp_def)
    then show ?thesis by (simp add: home'_def)
  qed
  have home_old: "home' (t_ID t) = home (t_ID t)" if "t \<in> tables_at lc m" for t m
  proof -
    have "map_of (map (\<lambda>t. (t_ID t, getKeyRange [t])) new) (t_ID t) = None"
      using new_ids(2) [OF tree new room that] by (force simp: map_of_eq_None_iff)
    then show ?thesis by (simp add: home'_def)
  qed
  have at_old: "home (t_ID t) = (m, getKeyRange [t]) \<and> table_ok t" if "t \<in> tables_at lc m" for t m
    using hm that by (auto simp: at_home_def tables_at_def split: option.splits)
  have each: "home' (t_ID t) = (m, getKeyRange [t]) \<and> table_ok t" if t: "t \<in> after lc cd new m" for t m
    using t [unfolded in_after]
  proof
    assume "t \<in> tables_at lc m - set (allTables cd)"
    then show ?thesis using home_old [of t m] at_old [of t m] by simp
  next
    assume n: "m = cd_nextLevel cd \<and> t \<in> set new"
    then have "built_table t" using new by (simp add: new_ok_def)
    then show ?thesis using n home_new by (simp add: built_table_def)
  qed
  have tab: "t \<in> after lc cd new m" if "handler_at lc2 m = Some h" "t \<in> set (lh_tables h)" for m h t
    using that unfolding tabs [symmetric] by (simp add: tables_at_def)
  have "at_home home' (drop_refs lc2 new)"
    unfolding at_home_def drop_refs_def handler_at_upd using hs each tab by blast
  moreover have "lc_wf (drop_refs lc2 new)"
  proof -
    have "level_wf h \<and> (\<forall>t \<in> set (lh_tables h). 0 < rf_count (lc_refs (drop_refs lc2 new)) (t_ID t))"
      if g: "h \<in> set (handlers (drop_refs lc2 new))" for h
    proof -
      have "handlers (drop_refs lc2 new) = handlers lc2" by (simp add: handlers_def drop_refs_def)
      then obtain m where m: "handler_at lc2 m = Some h" using g handlers_at [of lc2 h] keep(1) len by auto
      then show ?thesis using hs rf tab [OF m] by blast
    qed
    moreover have "lc_hotTier lc2 = None \<longleftrightarrow> lc_hotTierOrd lc2 = None" using keep lw by (simp add: lc_wf_def)
    ultimately show ?thesis using hot unfolding lc_wf_def by (simp add: drop_refs_def)
  qed
  moreover have "t_ID t < lc_nextFileID (drop_refs lc2 new)" if t: "t \<in> tables_at (drop_refs lc2 new) m" for t m
  proof -
    have "t \<in> after lc cd new m" using t by (simp add: drop_refs_def tabs)
    then consider "t \<in> tables_at lc m" | "t \<in> set new" unfolding in_after by blast
    then show ?thesis
    proof cases
      case 1
      then have "t_ID t < lc_nextFileID lc" using tree by (auto simp: tree_ok_def)
      then show ?thesis using new_ids(4) [OF tree new room] keep(2) by (simp add: drop_refs_def)
    qed (use new_ids(3) [OF tree new room] keep(2) in \<open>simp add: drop_refs_def\<close>)
  qed
  moreover have "users_differ a b" if "m \<noteq> 0" "m \<noteq> 98" "a \<in> tables_at (drop_refs lc2 new) m" "b \<in> tables_at (drop_refs lc2 new) m" "a \<noteq> b" for a b m
    using after_users [OF tree d j new that(1,2) _ _ that(5)] that(3,4) by (simp add: drop_refs_def tabs)
  ultimately have "tree_ok (drop_refs lc2 new)"
    using keep(1) len unfolding tree_ok_def by (simp add: drop_refs_def) blast
  then show ?thesis using i tabs keep(3) by blast
qed

section \<open>Reads\<close>

text \<open>Where \<open>checkOverlap\<close> has looked and found nothing, no user key of the merge is left.\<close>

lemma checkOverlap_hot_none:
  assumes n: "\<not> checkOverlap lc ts lev cur base" and "cur < base" and wf: "lc_wf lc" and lv: "\<And>h. handler_at lc 99 = Some h \<Longrightarrow> lh_level h = 99"
    and bt: "\<forall>t \<in> set ts. built_table t" and t: "t \<in> set ts" "e \<in> set (t_data t)"
    and u: "l = 98 \<or> l = 99" "u \<in> tables_at lc l" "f \<in> set (t_data u)"
  shows "parse_key (fst e) \<noteq> parse_key (fst f)"
proof -
  obtain h where h: "handler_at lc l = Some h" "u \<in> set (lh_tables h)" using u(2) by (auto simp: tables_at_def split: option.splits)
  have lw: "level_wf h" using wf h(1) u(1) by (auto simp: lc_wf_def handlers_def handler_at_def)
  show ?thesis
  proof (cases "l = 98")
    case True
    then have "\<not> any_overlaps h (getKeyRange ts)" using n assms(2) h(1) by (simp add: checkOverlap_def handler_at_def Let_def)
    then show ?thesis using any_overlaps_none [OF _ _ t h(2) u(3)] bt lw by (auto simp: level_wf_def)
  next
    case False
    then have "\<not> level_overlaps h (getKeyRange ts)" "\<not> unsorted h"
      using n assms(2) h(1) u(1) lv by (auto simp: checkOverlap_def handler_at_def unsorted_def Let_def)
    then show ?thesis using level_overlaps_none [OF _ lw _ bt t h(2) u(3)] by blast
  qed
qed

lemma looked_at_none:
  assumes tree: "tree_ok lc" and n: "\<not> checkOverlap lc (allTables cd) (cd_nextLevel cd + 1) (cd_thisLevel cd) (baseLevel (cd_t cd))"
    and bt: "\<forall>t \<in> set (allTables cd). built_table t" and e: "e \<in> set (merge_input cd)"
    and l: "looked_at cd m" "r \<in> entries_of (tables_at lc m)"
  shows "parse_key (fst e) \<noteq> parse_key (fst r)"
proof -
  obtain t where t: "t \<in> set (allTables cd)" "e \<in> set (t_data t)" using e by (auto simp: merge_input_def allTables_def)
  obtain u where u: "u \<in> tables_at lc m" "r \<in> set (t_data u)" using l(2) by (auto simp: entries_of_def)
  obtain home where hm: "at_home home lc" using tree by (auto simp: tree_ok_def)
  have wf: "lc_wf lc" and len: "length (lc_levels lc) \<le> 98" using tree by (simp_all add: tree_ok_def)
  show ?thesis
  proof (cases "m = 98 \<or> m = 99")
    case True
    then have "cd_thisLevel cd < baseLevel (cd_t cd)" using l(1) by (simp add: looked_at_def)
    moreover have "\<And>h. handler_at lc 99 = Some h \<Longrightarrow> lh_level h = 99" using hm by (simp add: at_home_def)
    ultimately show ?thesis using checkOverlap_hot_none [OF n _ wf _ bt t True u] by blast
  next
    case False
    then have m: "m < length (lc_levels lc)" "tables_at lc m = set (lh_tables (lc_levels lc ! m))"
      using u(1) by (auto simp: tables_at_def handler_at_def split: if_splits)
    have "lh_level (lc_levels lc ! i) = i" if i: "i < length (lc_levels lc)" for i
    proof -
      have "handler_at lc i = Some (lc_levels lc ! i)" using i len by (simp add: handler_at_def)
      then show ?thesis using hm by (simp add: at_home_def)
    qed
    moreover have "\<not> (cd_thisLevel cd < 98 \<and> m < cd_nextLevel cd + 1)" using l(1) False by (simp add: looked_at_def)
    moreover have "r \<in> set (level_entries (lc_levels lc ! m))" using u m(2) by (auto simp: level_entries_of entries_of_def)
    ultimately show ?thesis using checkOverlap_none [OF n wf _ len bt t m(1), of r] by blast
  qed
qed

lemma reads_kept:
  fixes opt discardTs now
  assumes tree: "tree_ok lc" and d: "down_ok lc cd" and j: "job_ready cd l" and new: "new_ok lc cd new"
    and ages: "key_aged M lc cd k" and es: "entries_ok es" "set es = set (merge_input cd)"
    and env: "env = split_env opt discardTs now lc cd empty_range"
    and data: "entries_of (set new) = set (survivors env es)"
    and after: "tables_at lc3 = after lc cd new" "tree_ok lc3"
    and con: "consistent (M @ all_entries lc)" and M: "\<forall>r \<in> set M. stored_key (fst r)"
    and ts: "discardTs \<le> ts"
  shows "visible now (newest (M @ all_entries lc3) k ts) = visible now (newest (M @ all_entries lc) k ts)"
proof -
  have len: "length (lc_levels lc) \<le> 98" "length (lc_levels lc3) \<le> 98" and wf: "lc_wf lc" "lc_wf lc3"
    using tree after(2) by (simp_all add: tree_ok_def)
  let ?rest = "\<Union>m. entries_of (tables_at lc m - set (allTables cd))"
  have un: "(\<Union>m. entries_of (tables_at lc m)) = ?rest \<union> set es"
  proof -
    have "(\<Union>m. entries_of (tables_at lc m)) = entries_of (\<Union>m. tables_at lc m)" by (auto simp: entries_of_def)
    also have "\<dots> = ?rest \<union> entries_of (set (allTables cd))" unfolding taken_at [OF tree d j] by (auto simp: entries_of_def)
    also have "entries_of (set (allTables cd)) = set es" unfolding es(2) merge_input_entries by (auto simp: allTables_def entries_of_def)
    finally show ?thesis .
  qed
  have all: "set (all_entries lc) = ?rest \<union> set es" unfolding all_entries_at [OF len(1)] by (rule un)
  have all3: "set (all_entries lc3) = ?rest \<union> set (survivors env es)"
  proof -
    have "e \<in> entries_of (after lc cd new m) \<longleftrightarrow> e \<in> entries_of (tables_at lc m - set (allTables cd)) \<or> m = cd_nextLevel cd \<and> e \<in> entries_of (set new)" for e m
      using after_iff [OF tree d j, of _ new m] unfolding entries_of_def by blast
    then have "(\<Union>m. entries_of (after lc cd new m)) = ?rest \<union> entries_of (set new)" by auto
    then show ?thesis unfolding all_entries_at [OF len(2)] after(1) data .
  qed
  have "finite (set (all_entries lc))" by simp
  then have fin: "finite ?rest" unfolding all finite_Un by (rule conjunct1)
  obtain R where R: "set R = ?rest" using finite_list [OF fin] by (elim exE) (rule that)
  let ?x = "M @ R"
  have sub: "set (survivors env es) \<subseteq> set es" by (rule survivors_subset)
  have con3: "consistent (M @ all_entries lc3)" 
    by (rule consistent_subset [OF con], unfold set_append all all3) (use sub in blast)
  have stored: "\<forall>e \<in> set (M @ all_entries lc'). stored_key (fst e)" if w: "lc_wf lc'" for lc'
  proof -
    have "stored_key (fst e)" if e: "e \<in> set (all_entries lc')" for e
    proof -
      obtain h where "h \<in> set (handlers lc')" "e \<in> set (level_entries h)"
        using e by (auto simp: all_entries_def handlers_def hot_entries_def split: option.splits)
      then show ?thesis using w level_entries_built unfolding lc_wf_def by blast
    qed
    then show ?thesis using M by auto
  qed
  have a: "newest (M @ all_entries lc3) k ts = newest (?x @ survivors env es @ []) k ts"
    by (rule newest_set [OF con3 _ stored [OF wf(2)]]) (simp only: all3 R set_append list.set Un_empty_right Un_assoc)
  have b: "newest (M @ all_entries lc) k ts = newest (?x @ es @ []) k ts"
    by (rule newest_set [OF con _ stored [OF wf(1)]]) (simp only: all R set_append list.set Un_empty_right Un_assoc)
  from down_handlers [OF tree d j] have bt: "\<forall>t \<in> set (allTables cd). built_table t" by (auto simp: allTables_def)
  have older: "ParseTs (fst e) < ParseTs (fst r) \<or> r = e"
    if ov: "\<not> me_hasOverlap env" and r: "r \<in> set ?x" and e: "e \<in> set es" and keys: "parse_key (fst r) = k" "parse_key (fst e) = k" for r e
  proof -
    have e': "e \<in> set (merge_input cd)" using e es(2) by simp
    have same: "parse_key (fst r) = parse_key (fst e)" using keys by simp
    show ?thesis
    proof (cases "r \<in> set M")
      case True
      then show ?thesis using ages e' keys unfolding key_aged_def by blast
    next
      case False
      then have "r \<in> ?rest" using r unfolding set_append R by blast
      then obtain m where m: "r \<in> entries_of (tables_at lc m - set (allTables cd))" by blast
      then have m': "r \<in> entries_of (tables_at lc m)" by (auto simp: entries_of_def)
      have "\<not> looked_at cd m"
        using looked_at_none [OF tree _ bt e' _ m'] ov same by (auto simp: env split_env_def)
      moreover have "m \<noteq> cd_nextLevel cd"
        using kept_new_differ [OF tree d j _ order_refl _ e', of _ r] m same by (auto simp: entries_of_def)
      ultimately show ?thesis using ages m e' keys unfolding key_aged_def by blast
    qed
  qed
  have np: "\<forall>e \<in> set es. parse_key (fst e) = k \<longrightarrow> \<not> dropped_prefix env (fst e)"
    using j by (simp add: dropped_prefix_def hasAnyPrefixes_def env split_env_def job_ready_def)
  have "visible (me_now env) (newest (?x @ survivors env es @ []) k ts) = visible (me_now env) (newest (?x @ es @ []) k ts)"
  proof (rule reads_around [OF es(1) _ np])
    show "me_discardTs env \<le> ts" using ts by (simp add: env split_env_def)
    show "me_hasOverlap env \<or> (\<forall>r \<in> set (?x @ []). \<forall>e \<in> set es. parse_key (fst r) = k \<longrightarrow>
        parse_key (fst e) = k \<longrightarrow> ParseTs (fst e) < ParseTs (fst r) \<or> r = e)"
      unfolding append_Nil2 using older by metis
  qed
  then show ?thesis unfolding a b by (simp add: env split_env_def)
qed

text \<open>All that is asked of the tree, the memtables and the compaction before it runs.\<close>

definition ready :: "(added list \<Rightarrow> bool) \<Rightarrow> entry list \<Rightarrow> levelsController \<Rightarrow> compactDef \<Rightarrow> nat \<Rightarrow> bool" where
  "ready fits M lc cd l \<longleftrightarrow> tree_ok lc \<and> down_ok lc cd \<and> job_ready cd l \<and> levels_paired cd \<and> hot_aged lc cd \<and>
     consistent (M @ all_entries lc) \<and> (\<forall>r \<in> set M. stored_key (fst r)) \<and>
     pointers_ok (merge_input cd) \<and> unat (lc_nextFileID lc) + length (merge_input cd) < 2 ^ 64 \<and>
     (\<forall>b. set (written b) \<subseteq> set (merge_input cd) \<longrightarrow> distinct (map ad_key b) \<longrightarrow> fits b)"

context table_maker begin

lemma runCompactDef_ok:
  assumes r: "ready fits M lc cd l" and nr: "\<not> reached []"
  shows "\<exists>new stats es lc2. compactBuildTables mk reached opt discardTs now l lc (with_splits cd) = Some (numbered lc new, stats, new) \<and>
    new_ok lc cd new \<and> entries_ok es \<and> set es = set (merge_input cd) \<and>
    entries_of (set new) = set (survivors (split_env opt discardTs now lc cd empty_range) es) \<and>
    install (numbered lc new) cd new = Some lc2 \<and> tables_at lc2 = after lc cd new \<and> tree_ok (drop_refs lc2 new) \<and>
    lc_cstatus lc2 = lc_cstatus lc \<and>
    runCompactDef marshal keys mk reached opt discardTs now l lc mf cd = Some
      (case addChanges marshal keys mf (buildChangeSet cd new) of
         (mf1, Some e) \<Rightarrow> \<lparr>co_lc = drop_refs (numbered lc new) new, co_mf = mf1, co_stats = stats, co_err = Some (ManifestFailed e)\<rparr>
       | (mf1, None) \<Rightarrow> \<lparr>co_lc = drop_refs lc2 new, co_mf = mf1, co_stats = stats, co_err = None\<rparr>)"
proof -
  have tree: "tree_ok lc" and d: "down_ok lc cd" and j: "job_ready cd l" and lp: "levels_paired cd" and ages: "hot_aged lc cd"
    and con: "consistent (M @ all_entries lc)" and po: "pointers_ok (merge_input cd)"
    and room: "unat (lc_nextFileID lc) + length (merge_input cd) < 2 ^ 64"
    and fit: "\<forall>b. set (written b) \<subseteq> set (merge_input cd) \<longrightarrow> distinct (map ad_key b) \<longrightarrow> fits b"
    using r by (simp_all add: ready_def)
  from down_handlers [OF tree d j] have top: "cd_top cd \<noteq> []" and bt: "\<forall>t \<in> set (cd_top cd) \<union> set (cd_bot cd). built_table t"
    and srt: "sorted_wrt before_table (cd_bot cd)" and rg: "cd_thisRange cd = getKeyRange (cd_top cd)"
      "cd_nextRange cd = (if cd_bot cd = [] then cd_thisRange cd else getKeyRange (cd_bot cd))" by blast+
  have "set (merge_input cd) \<subseteq> set (all_entries lc)"
  proof -
    have "set (allTables cd) \<subseteq> (\<Union>m. tables_at lc m)" using taken_at [OF tree d j] by blast
    then have "entries_of (set (allTables cd)) \<subseteq> (\<Union>m. entries_of (tables_at lc m))" unfolding entries_of_def by blast
    then show ?thesis using all_entries_at tree unfolding merge_input_entries tree_ok_def allTables_def set_append by blast
  qed
  then have con': "consistent (merge_input cd)" by (intro consistent_subset [OF con]) auto
  obtain stats new es where cb: "compactBuildTables mk reached opt discardTs now l lc (with_splits cd) = Some (numbered lc new, stats, new)"
    and es: "entries_ok es" "set es = set (merge_input cd)"
    and data: "set (concat (map t_data new)) = set (survivors (split_env opt discardTs now lc cd empty_range) es)"
    and ids: "set (map t_ID new) = set (next_ids lc (length new))" and built: "\<forall>t \<in> set new. built_table t \<and> \<not> t_IsInmemory t"
    and apart: "distinct new" "\<forall>a \<in> set new. \<forall>b \<in> set new. a \<noteq> b \<longrightarrow> (before_table a b \<or> before_table b a) \<and> users_differ a b"
    using compactBuildTables_ok [where reached = reached and opt = opt and discardTs = discardTs and now = now and lc = lc, OF j top bt srt rg con' po nr fit] unfolding numbered_def by (elim exE conjE) (rule that, simp_all)
  have "set (t_data t) \<subseteq> set (merge_input cd)" if "t \<in> set new" for t
  proof -
    have "set (t_data t) \<subseteq> set (concat (map t_data new))" using that by auto
    then show ?thesis using data survivors_subset es(2) by blast
  qed
  then have new: "new_ok lc cd new" using ids built apart by (simp add: new_ok_def)
  obtain lc2 where i: "install (numbered lc new) cd new = Some lc2" "tables_at lc2 = after lc cd new" "tree_ok (drop_refs lc2 new)"
    "lc_cstatus lc2 = lc_cstatus lc" using tree_after [OF tree d j new room lp ages] by blast
  have fz: "length (fileSz (cd_t cd)) \<noteq> 0" "cd_splits cd = []" using j by (simp_all add: job_ready_def)
  have run: "runCompactDef marshal keys mk reached opt discardTs now l lc mf cd = Some
      (case addChanges marshal keys mf (buildChangeSet cd new) of
         (mf1, Some e) \<Rightarrow> \<lparr>co_lc = drop_refs (numbered lc new) new, co_mf = mf1, co_stats = stats, co_err = Some (ManifestFailed e)\<rparr>
       | (mf1, None) \<Rightarrow> \<lparr>co_lc = drop_refs lc2 new, co_mf = mf1, co_stats = stats, co_err = None\<rparr>)"
    using fz cb i(1) by (simp add: runCompactDef_def split: prod.split option.split)
  show ?thesis
    using cb new es data i run by (intro exI [of _ new] exI [of _ stats] exI [of _ es] exI [of _ lc2]) (simp add: entries_of_set)
qed

lemma compact_reads:
  assumes r: "ready fits M lc cd l" and nr: "\<not> reached []"
    and run: "runCompactDef marshal keys mk reached opt discardTs now l lc mf cd = Some out" and ok: "co_err out = None"
  shows "tree_ok (co_lc out) \<and> lc_cstatus (co_lc out) = lc_cstatus lc \<and>
    (discardTs \<le> ts \<longrightarrow> key_aged M lc cd k \<longrightarrow> visible now (newest (M @ all_entries (co_lc out)) k ts) = visible now (newest (M @ all_entries lc) k ts))"
proof -
  obtain new stats es lc2 where new: "new_ok lc cd new" and es: "entries_ok es" "set es = set (merge_input cd)"
    and data: "entries_of (set new) = set (survivors (split_env opt discardTs now lc cd empty_range) es)"
    and i: "tables_at lc2 = after lc cd new" "tree_ok (drop_refs lc2 new)" "lc_cstatus lc2 = lc_cstatus lc"
    and eq: "runCompactDef marshal keys mk reached opt discardTs now l lc mf cd = Some
      (case addChanges marshal keys mf (buildChangeSet cd new) of
         (mf1, Some e) \<Rightarrow> \<lparr>co_lc = drop_refs (numbered lc new) new, co_mf = mf1, co_stats = stats, co_err = Some (ManifestFailed e)\<rparr>
       | (mf1, None) \<Rightarrow> \<lparr>co_lc = drop_refs lc2 new, co_mf = mf1, co_stats = stats, co_err = None\<rparr>)"
    using runCompactDef_ok [where reached = reached and opt = opt and discardTs = discardTs and now = now and marshal = marshal
        and keys = keys and mf = mf, OF r nr] by (elim exE conjE) (rule that, assumption+)
  have out: "co_lc out = drop_refs lc2 new"
    using run eq ok by (auto split: prod.splits option.splits)
  have "visible now (newest (M @ all_entries (drop_refs lc2 new)) k ts) = visible now (newest (M @ all_entries lc) k ts)" if "discardTs \<le> ts" "key_aged M lc cd k"
    by (rule reads_kept [where l = l, OF _ _ _ new that(2) es refl data _ i(2) _ _ that(1)]) (use r i(1) in \<open>simp_all add: ready_def drop_refs_def\<close>)
  then show ?thesis using out i(2,3) by (simp add: drop_refs_def)
qed

end

end
