(* ===== verification/CompactManifest.thy ===== *)
theory CompactManifest
  imports CompactStep
begin

text \<open>
  The manifest and the tree in a compaction: the change set of \<open>buildChangeSet\<close> is accepted,
  and applied to a manifest that lists the tables of the tree it gives one that lists the
  tables of the tree afterwards. With it, a compaction that is ready always succeeds.
\<close>

definition in_manifest :: "nat \<Rightarrow> table \<Rightarrow> TableManifest" where
  "in_manifest l t = \<lparr>tm_Level = word_of_nat l, tm_KeyID = t_KeyID t, tm_Compression = t_Compression t\<rparr>"

definition tracks :: "Manifest \<Rightarrow> (nat \<Rightarrow> table set) \<Rightarrow> bool" where
  "tracks m T \<longleftrightarrow> manifest_inv m \<and>
     (\<forall>i tm. m_Tables m i = Some tm \<longleftrightarrow> (\<exists>l. \<exists>t \<in> T l. t_ID t = i \<and> tm = in_manifest l t))"

lemma newDeleteChange_sel [simp]: "mc_Id (newDeleteChange i) = i" "mc_Op (newDeleteChange i) = DELETE" "change_ok (newDeleteChange i)"
  by (simp_all add: newDeleteChange_def change_ok_def)

lemma apply_deletes:
  assumes "manifest_inv b" and "distinct ids" and "\<forall>i \<in> set ids. m_Tables b i \<noteq> None"
  shows "\<exists>b'. applyChangeSet b (map newDeleteChange ids) = (b', None) \<and> m_Tables b' = m_Tables b |` (- set ids) \<and> manifest_inv b'"
  using assms
proof (induction ids arbitrary: b)
  case Nil
  then show ?case by simp
next
  case (Cons i ids)
  obtain tm where tm: "m_Tables b i = Some tm" using Cons.prems(3) by auto
  obtain b1 where b1: "applyManifestChange b (newDeleteChange i) = (b1, None)" "manifest_inv b1"
    using apply_delete_inv [OF Cons.prems(1), of "newDeleteChange i" tm] tm by (cases "applyManifestChange b (newDeleteChange i)") auto
  have t1: "m_Tables b1 = (m_Tables b)(i := None)"
    using b1(1) tm by (auto simp: applyManifestChange_def Let_def split: if_splits)
  have "\<forall>j \<in> set ids. m_Tables b1 j \<noteq> None" using Cons.prems(2,3) t1 by auto
  then obtain b' where b': "applyChangeSet b1 (map newDeleteChange ids) = (b', None)" "m_Tables b' = m_Tables b1 |` (- set ids)" "manifest_inv b'"
    using Cons.IH [OF b1(2)] Cons.prems(2) by auto
  have "m_Tables b1 |` (- set ids) = m_Tables b |` (- set (i # ids))" unfolding t1 by (auto simp: restrict_map_def)
  then show ?case using b1 b' by simp
qed

lemma apply_new_tables:
  assumes inv: "manifest_inv b" and d: "distinct (map t_ID new)" and n: "\<forall>t \<in> set new. m_Tables b (t_ID t) = None" and l: "l < 256"
  shows "\<exists>b'. applyChangeSet b (map (\<lambda>t. newCreateChange (t_ID t) l (t_KeyID t) (t_Compression t)) new) = (b', None) \<and>
    m_Tables b' = m_Tables b ++ map_of (map (\<lambda>t. (t_ID t, in_manifest l t)) new) \<and> manifest_inv b'"
proof -
  let ?ts = "map_of (map (\<lambda>t. (t_ID t, in_manifest l t)) new)"
  have u: "unat (word_of_nat l :: byte) = l" using l by (simp add: unat_of_nat)
  have ts: "?ts (t_ID t) = Some (in_manifest l t)" if "t \<in> set new" for t
    using d that by (intro map_of_is_SomeI) (auto simp: comp_def)
  let ?cs = "map (\<lambda>t. newCreateChange (t_ID t) l (t_KeyID t) (t_Compression t)) new"
  have cs: "map (\<lambda>k. case ?ts k of None \<Rightarrow> newCreateChange k 0 0 0
       | Some tm \<Rightarrow> newCreateChange k (unat (tm_Level tm)) (tm_KeyID tm) (tm_Compression tm)) (map t_ID new) = ?cs"
    using ts u by (simp add: in_manifest_def)
  obtain b' where b': "applyChangeSet b ?cs = (b', None)" "m_Tables b' = m_Tables b ++ (?ts |` set (map t_ID new))"
    using applyChangeSet_creates [of "map t_ID new" ?ts b, unfolded cs] d n ts by auto
  have "(?ts |` set (map t_ID new)) i = ?ts i" for i
  proof (cases "i \<in> set (map t_ID new)")
    case False
    then have "?ts i = None" by (force simp: map_of_eq_None_iff)
    then show ?thesis using False by simp
  qed (simp add: restrict_map_def)
  then have "?ts |` set (map t_ID new) = ?ts" by (rule ext)
  moreover have "manifest_inv b'"
  proof -
    have "unat (word_of_nat l :: u32) = l" using l by (simp add: unat_of_nat)
    then have "list_all change_ok ?cs" using l by (simp add: list_all_iff change_ok_def)
    then show ?thesis using applyChangeSet_inv [OF inv, of ?cs] b'(1) by simp
  qed
  ultimately show ?thesis using b' by simp
qed

lemma handler_level_bound: "length (lc_levels lc) \<le> 98 \<Longrightarrow> handler_at lc l = Some h \<Longrightarrow> l < 100"
  by (auto simp: handler_at_def split: if_splits)

lemma change_set_tracked:
  assumes tree: "tree_ok lc" and d: "down_ok lc cd" and j: "job_ready cd l" and new: "new_ok lc cd new"
    and room: "unat (lc_nextFileID lc) + length (merge_input cd) < 2 ^ 64"
    and tr: "tracks m (tables_at lc)" and mem: "\<forall>t \<in> set (cd_top cd). \<not> t_IsInmemory t"
  shows "\<exists>m'. applyChangeSet m (buildChangeSet cd new) = (m', None) \<and> tracks m' (after lc cd new)"
proof -
  obtain home where hm: "at_home home lc" using tree by (auto simp: tree_ok_def)
  have len: "length (lc_levels lc) \<le> 98" using tree by (simp add: tree_ok_def)
  let ?n = "cd_nextLevel cd"
  from down_handlers [OF tree d j] obtain n where "handler_at lc ?n = Some n" by blast
  then have lb: "?n < 256" using handler_level_bound [OF len] by fastforce
  have inv: "manifest_inv m" and tab: "m_Tables m i = Some tm \<longleftrightarrow> (\<exists>l. \<exists>t \<in> tables_at lc l. t_ID t = i \<and> tm = in_manifest l t)" for i tm
    using tr by (auto simp: tracks_def)
  have taken: "\<exists>k. t \<in> tables_at lc k" if "t \<in> set (allTables cd)" for t using taken_at [OF tree d j] that by blast
  have absent: "\<forall>t \<in> set new. m_Tables m (t_ID t) = None"
  proof
    fix t assume t: "t \<in> set new"
    have "m_Tables m (t_ID t) \<noteq> Some tm" for tm
      using tab [of "t_ID t" tm] new_ids(2) [OF tree new room _ t] by metis
    then show "m_Tables m (t_ID t) = None" by (cases "m_Tables m (t_ID t)") auto
  qed
  let ?new = "map_of (map (\<lambda>t. (t_ID t, in_manifest ?n t)) new)"
  obtain m1 where m1: "applyChangeSet m (map (\<lambda>t. newCreateChange (t_ID t) ?n (t_KeyID t) (t_Compression t)) new) = (m1, None)"
    "m_Tables m1 = m_Tables m ++ ?new" "manifest_inv m1"
    using apply_new_tables [OF inv new_ids(1) [OF tree new room] absent lb] by blast
  let ?ids = "map t_ID (allTables cd)"
  have dist: "distinct ?ids"
  proof -
    have "cdef_ok home cd" using down_claimed [OF hm d] j by (simp add: job_ready_def)
    then show ?thesis by (simp add: cdef_ok_def)
  qed
  have there: "\<forall>i \<in> set ?ids. m_Tables m1 i \<noteq> None"
  proof
    fix i assume "i \<in> set ?ids"
    then obtain t where t: "t \<in> set (allTables cd)" "i = t_ID t" by auto
    then obtain k where "t \<in> tables_at lc k" using taken by blast
    then have "m_Tables m i = Some (in_manifest k t)" unfolding t(2) using tab by blast
    then show "m_Tables m1 i \<noteq> None" unfolding m1(2) by (auto simp: map_add_def split: option.split)
  qed
  obtain m2 where m2: "applyChangeSet m1 (map newDeleteChange ?ids) = (m2, None)" "m_Tables m2 = m_Tables m1 |` (- set ?ids)" "manifest_inv m2"
    using apply_deletes [OF m1(3) dist there] by blast
  have cs: "buildChangeSet cd new = map (\<lambda>t. newCreateChange (t_ID t) ?n (t_KeyID t) (t_Compression t)) new @ map newDeleteChange ?ids"
    using mem by (simp add: buildChangeSet_def allTables_def filter_id_conv [THEN iffD2] comp_def)
  have app: "applyChangeSet m (buildChangeSet cd new) = (m2, None)"
    unfolding cs applyChangeSet_append using m1(1) m2(1) by simp
  have new_iff: "?new i = Some tm \<longleftrightarrow> (\<exists>t \<in> set new. t_ID t = i \<and> tm = in_manifest ?n t)" for i tm
  proof
    assume "?new i = Some tm"
    then have "(i, tm) \<in> set (map (\<lambda>t. (t_ID t, in_manifest ?n t)) new)" by (rule map_of_SomeD)
    then show "\<exists>t \<in> set new. t_ID t = i \<and> tm = in_manifest ?n t" by auto
  next
    assume "\<exists>t \<in> set new. t_ID t = i \<and> tm = in_manifest ?n t"
    then show "?new i = Some tm"
      using new_ids(1) [OF tree new room] by (intro map_of_is_SomeI) (auto simp: comp_def)
  qed
  have "m_Tables m2 i = Some tm \<longleftrightarrow> (\<exists>l. \<exists>t \<in> after lc cd new l. t_ID t = i \<and> tm = in_manifest l t)" for i tm
  proof (cases "i \<in> set ?ids")
    case True
    then have "m_Tables m2 i = None" using m2(2) by simp
    moreover have "t_ID t \<noteq> i" if "t \<in> after lc cd new k" for t k
      using after_fresh [OF tree d j new room that] True by auto
    ultimately show ?thesis by simp
  next
    case False
    have old: "(\<exists>k. \<exists>t \<in> tables_at lc k. t_ID t = i \<and> tm = in_manifest k t) \<longleftrightarrow> m_Tables m i = Some tm" using tab by blast
    have f: "t \<notin> set (allTables cd)" if "t_ID t = i" for t using False that by auto
    have "m_Tables m2 i = Some tm \<longleftrightarrow> ?new i = Some tm \<or> ?new i = None \<and> m_Tables m i = Some tm"
      using False unfolding m2(2) m1(2) by (simp add: map_add_Some_iff)
    also have "\<dots> \<longleftrightarrow> ?new i = Some tm \<or> m_Tables m i = Some tm"
    proof -
      have "m_Tables m i = None" if n: "?new i = Some x" for x
      proof -
        obtain t where "t \<in> set new" "t_ID t = i" using n unfolding new_iff by blast
        then show ?thesis using absent by auto
      qed
      then show ?thesis by (cases "?new i") auto
    qed
    also have "\<dots> \<longleftrightarrow> (\<exists>l. \<exists>t \<in> after lc cd new l. t_ID t = i \<and> tm = in_manifest l t)"
    proof -
      have af: "t \<in> after lc cd new k \<and> t_ID t = i \<and> tm = x \<longleftrightarrow> (t \<in> tables_at lc k \<or> k = ?n \<and> t \<in> set new) \<and> t_ID t = i \<and> tm = x" for t k x
        using after_iff [OF tree d j, of t new k] f [of t] by auto
      show ?thesis unfolding new_iff old [symmetric] Bex_def af by blast
    qed
    finally show ?thesis .
  qed
  then show ?thesis using app m2(3) by (auto simp: tracks_def)
qed

lemma addChanges_tracked:
  assumes "applyChangeSet (mf_manifest mf) cs = (m', None)" and "tracks m' T" and "keys_ok keys" and "\<not> mf_inMemory mf"
  shows "\<exists>mf'. addChanges marshal keys mf cs = (mf', None) \<and> tracks (mf_manifest mf') T"
proof -
  have "manifest_inv m'" using assms(2) by (simp add: tracks_def)
  then have "tracks (m'\<lparr>m_Creations := int (length (keys (m_Tables m'))), m_Deletions := 0\<rparr>) T"
    using assms(2) manifest_inv_rewrite [OF _ assms(3)] by (simp add: tracks_def)
  then show ?thesis using assms by (simp add: addChanges_def rewrite_def helpRewrite_def Let_def)
qed

lemma tracks_same: "tables_at lc = T \<Longrightarrow> tracks m (tables_at (drop_refs lc new)) \<longleftrightarrow> tracks m T"
  by (simp add: drop_refs_def)

context table_maker begin

text \<open>A compaction that is ready ends without an error, whatever the manifest decides about rewriting.\<close>

lemma compact_succeeds:
  assumes r: "ready fits M lc cd l" and nr: "\<not> reached []" and tr: "tracks (mf_manifest mf) (tables_at lc)"
    and mem: "\<forall>t \<in> set (cd_top cd). \<not> t_IsInmemory t" and mf: "keys_ok keys" "\<not> mf_inMemory mf"
  shows "\<exists>out. runCompactDef marshal keys mk reached opt discardTs now l lc mf cd = Some out \<and> co_err out = None \<and>
    tree_ok (co_lc out) \<and> tracks (mf_manifest (co_mf out)) (tables_at (co_lc out)) \<and> lc_cstatus (co_lc out) = lc_cstatus lc \<and>
    (\<forall>k ts. discardTs \<le> ts \<longrightarrow> key_aged M lc cd k \<longrightarrow> visible now (newest (M @ all_entries (co_lc out)) k ts) = visible now (newest (M @ all_entries lc) k ts))"
proof -
  obtain new stats es lc2 where new: "new_ok lc cd new"
    and i: "tables_at lc2 = after lc cd new" "tree_ok (drop_refs lc2 new)" "lc_cstatus lc2 = lc_cstatus lc"
    and eq: "runCompactDef marshal keys mk reached opt discardTs now l lc mf cd = Some
      (case addChanges marshal keys mf (buildChangeSet cd new) of
         (mf1, Some e) \<Rightarrow> \<lparr>co_lc = drop_refs (numbered lc new) new, co_mf = mf1, co_stats = stats, co_err = Some (ManifestFailed e)\<rparr>
       | (mf1, None) \<Rightarrow> \<lparr>co_lc = drop_refs lc2 new, co_mf = mf1, co_stats = stats, co_err = None\<rparr>)"
    using runCompactDef_ok [where reached = reached and opt = opt and discardTs = discardTs and now = now and marshal = marshal
        and keys = keys and mf = mf, OF r nr] by (elim exE conjE) (rule that, assumption+)
  have tree: "tree_ok lc" and d: "down_ok lc cd" and j: "job_ready cd l"
    and room: "unat (lc_nextFileID lc) + length (merge_input cd) < 2 ^ 64" using r by (simp_all add: ready_def)
  obtain m' where m': "applyChangeSet (mf_manifest mf) (buildChangeSet cd new) = (m', None)" "tracks m' (after lc cd new)"
    using change_set_tracked [OF tree d j new room tr mem] by blast
  obtain mf' where mf': "addChanges marshal keys mf (buildChangeSet cd new) = (mf', None)" "tracks (mf_manifest mf') (after lc cd new)"
    using addChanges_tracked [OF m' mf] by blast
  let ?out = "\<lparr>co_lc = drop_refs lc2 new, co_mf = mf', co_stats = stats, co_err = None\<rparr>"
  have run: "runCompactDef marshal keys mk reached opt discardTs now l lc mf cd = Some ?out" using eq mf'(1) by simp
  have "visible now (newest (M @ all_entries (drop_refs lc2 new)) k ts) = visible now (newest (M @ all_entries lc) k ts)" if "discardTs \<le> ts" "key_aged M lc cd k" for k ts
    using compact_reads [OF r nr run, of ts k] that by simp
  then show ?thesis using run i(2,3) tracks_same [OF i(1)] mf'(2) by (intro exI [of _ ?out]) (simp add: drop_refs_def)
qed

end

end
