(* ===== verification/TableMaker.thy ===== *)
theory TableMaker
  imports TableIter CompactManifest
begin

text \<open>
  From the entries of a compaction to a table of the level structure: the loop that feeds the
  builder, \<open>CreateTable\<close> (\<open>Done\<close>, \<open>Copy\<close>, \<open>OpenTable\<close>), and the accessors of \<open>table.Table\<close>.
  The contract \<open>table_maker\<close> of the compaction holds for this way of making tables, so the
  theorems about compactions hold for the tables as they are in the files.
\<close>

section \<open>Building and opening\<close>

fun feed :: "(u64 \<Rightarrow> bytes) \<Rightarrow> tbl_opts \<Rightarrow> builder \<Rightarrow> added list \<Rightarrow> builder option" where
  "feed marshal opt b [] = Some b"
| "feed marshal opt b (a # as) =
     Option.bind ((if ad_stale a then AddStaleKey else Add) marshal opt b (ad_key a) (ad_vs a) (ad_vpLen a))
       (\<lambda>b'. feed marshal opt b' as)"

definition CreateTable :: "table_codec \<Rightarrow> tbl_opts \<Rightarrow> u64 \<Rightarrow> builder \<Rightarrow> (table_error + open_table) option" where
  "CreateTable tc opt i b = Option.bind (tb_Finish tc opt b) (OpenTable tc opt i)"

fun read_all :: "table_codec \<Rightarrow> open_table \<Rightarrow> nat \<Rightarrow> titer \<Rightarrow> (bytes \<times> ValueStruct) list option" where
  "read_all tc t 0 itr = Some []"
| "read_all tc t (Suc n) itr =
     (if \<not> it_Valid itr then Some []
      else Option.bind (it_Value itr) (\<lambda>v. Option.bind (it_next tc t itr) (\<lambda>itr'.
        map_option (Cons (it_Key itr, v)) (read_all tc t n itr'))))"

text \<open>What the level structure sees of an open table; \<open>KeyCount\<close> bounds the rounds of the loop.\<close>

definition table_data :: "table_codec \<Rightarrow> open_table \<Rightarrow> (bytes \<times> ValueStruct) list option" where
  "table_data tc t = Option.bind (it_Rewind tc t False NewIterator) (read_all tc t (unat (ti_keyCount (ot_index t))))"

definition ot_KeyID :: "tbl_opts \<Rightarrow> u64" where
  "ot_KeyID opt = (case to_DataKey opt of None \<Rightarrow> 0 | Some i \<Rightarrow> i)"

definition ot_bloom :: "open_table \<Rightarrow> bytes option" where
  "ot_bloom t = (if 0 < length (ti_bloom (ot_index t)) then Some (ti_bloom (ot_index t)) else None)"

definition table_view :: "table_codec \<Rightarrow> open_table \<Rightarrow> table option" where
  "table_view tc t = map_option (\<lambda>es.
     \<lparr>t_ID = ot_id t, t_Smallest = ot_smallest t, t_Biggest = ot_biggest t, t_Size = int (length (ot_data t)),
      t_StaleDataSize = unat (ti_staleDataSize (ot_index t)), t_MaxVersion = ti_maxVersion (ot_index t),
      t_KeyID = ot_KeyID (ot_opt t), t_Compression = to_Compression (ot_opt t), t_IsInmemory = False,
      t_Bloom = ot_bloom t, t_data = es\<rparr>) (table_data tc t)"

definition open_made :: "table_codec \<Rightarrow> tbl_opts \<Rightarrow> u64 \<Rightarrow> added list \<Rightarrow> open_table option" where
  "open_made tc opt i as = Option.bind (feed (tc_sum tc) opt NewTableBuilder as) (\<lambda>b.
     case CreateTable tc opt i b of Some (Inr t) \<Rightarrow> Some t | _ \<Rightarrow> None)"

definition make_table :: "table_codec \<Rightarrow> tbl_opts \<Rightarrow> u64 \<Rightarrow> added list \<Rightarrow> table option" where
  "make_table tc opt i as = Option.bind (open_made tc opt i as) (table_view tc)"

section \<open>Feeding the builder\<close>

definition key_fits :: "added \<Rightarrow> bool" where
  "key_fits a \<longleftrightarrow> ad_key a \<noteq> [] \<and> length (ad_key a) + 4 < 2 ^ 16"

lemma add_holds:
  assumes "tb_holds marshal b cs cur" and "key_fits a"
    and "weights (chunk_entries (cs @ [cur]) @ written [a]) < 2 ^ 28"
  shows "\<exists>b' cs' cur'. (if ad_stale a then AddStaleKey else Add) marshal opt b (ad_key a) (ad_vs a) (ad_vpLen a) = Some b' \<and>
    tb_holds marshal b' cs' cur' \<and> snd cur' \<noteq> [] \<and> chunk_entries (cs' @ [cur']) = chunk_entries (cs @ [cur]) @ written [a]"
proof -
  have k: "ad_key a \<noteq> []" "length (ad_key a) + 4 < 2 ^ 16" using assms(2) by (simp_all add: key_fits_def)
  have w: "weights (chunk_entries (cs @ [cur]) @ [(ad_key a, ad_vs a)]) < 2 ^ 28" using assms(3) by (simp add: written_def)
  have h: "tb_holds marshal (b\<lparr>tb_staleDataSize := s\<rparr>) cs cur" for s using assms(1) by (simp add: tb_holds_def)
  show ?thesis
  proof (cases "ad_stale a")
    case True
    then show ?thesis using addInternal_holds [OF h k w] by (simp add: AddStaleKey_def written_def)
  next
    case False
    then show ?thesis using addInternal_holds [OF assms(1) k w] by (simp add: Add_def written_def)
  qed
qed

lemma feed_holds:
  assumes "tb_holds marshal b cs cur" and "\<forall>a \<in> set as. key_fits a"
    and "weights (chunk_entries (cs @ [cur]) @ written as) < 2 ^ 28" and "as \<noteq> [] \<or> snd cur \<noteq> []"
  shows "\<exists>b' cs' cur'. feed marshal opt b as = Some b' \<and> tb_holds marshal b' cs' cur' \<and> snd cur' \<noteq> [] \<and>
    chunk_entries (cs' @ [cur']) = chunk_entries (cs @ [cur]) @ written as"
  using assms
proof (induction as arbitrary: b cs cur)
  case Nil
  then show ?case by (intro exI [of _ b] exI [of _ cs] exI [of _ cur]) (simp add: written_def)
next
  case (Cons a as)
  have wr: "written (a # as) = written [a] @ written as" by (simp add: written_def)
  have w: "weights (chunk_entries (cs @ [cur]) @ written [a]) < 2 ^ 28" using Cons.prems(3) unfolding wr by simp
  have k: "key_fits a" using Cons.prems(2) by simp
  obtain b1 cs1 cur1 where b1: "(if ad_stale a then AddStaleKey else Add) marshal opt b (ad_key a) (ad_vs a) (ad_vpLen a) = Some b1"
    "tb_holds marshal b1 cs1 cur1" "snd cur1 \<noteq> []" "chunk_entries (cs1 @ [cur1]) = chunk_entries (cs @ [cur]) @ written [a]"
    using add_holds [OF Cons.prems(1) k w] by blast
  have w1: "weights (chunk_entries (cs1 @ [cur1]) @ written as) < 2 ^ 28" using Cons.prems(3) b1(4) unfolding wr by simp
  have as: "\<forall>a \<in> set as. key_fits a" using Cons.prems(2) by simp
  obtain b2 cs2 cur2 where "feed marshal opt b1 as = Some b2" "tb_holds marshal b2 cs2 cur2" "snd cur2 \<noteq> []"
    "chunk_entries (cs2 @ [cur2]) = chunk_entries (cs1 @ [cur1]) @ written as"
    using Cons.IH [OF b1(2) as w1 disjI2 [OF b1(3)]] by blast
  then show ?case using b1(1,4) unfolding wr by (intro exI [of _ b2] exI [of _ cs2] exI [of _ cur2]) simp
qed

lemma chunk_length:
  assumes "weights (chunk_entries (cs @ [cur])) < 2 ^ 28"
  shows "length (snd cur) < 2 ^ 30"
  using assms weights_length [of "map item_entry (snd cur)"] by simp

section \<open>Opening the file\<close>

lemma initIndex_file:
  assumes c: "codec_ok tc" and ix: "ti_offsets ix \<noteq> []"
    and small: "length (sealed_index tc opt n (tc_index tc ix)) < 2 ^ 32"
  shows "initIndex tc opt (a @ sealed_index tc opt n (tc_index tc ix) @ U32ToBytes (word_of_nat (length (sealed_index tc opt n (tc_index tc ix)))) @
    calculateChecksum (tc_sum tc) (sealed_index tc opt n (tc_index tc ix)) @
    U32ToBytes (word_of_nat (length (calculateChecksum (tc_sum tc) (sealed_index tc opt n (tc_index tc ix)))))) = Some (Inr ix)"
proof -
  let ?i = "sealed_index tc opt n (tc_index tc ix)"
  let ?c = "calculateChecksum (tc_sum tc) ?i"
  let ?li = "U32ToBytes (word_of_nat (length ?i))" and ?lc = "U32ToBytes (word_of_nat (length ?c))"
  let ?all = "a @ ?i @ ?li @ ?c @ ?lc"
  have lc: "length ?c < 2 ^ 30" using c by (simp add: codec_ok_def calculateChecksum_def)
  have u: "unat (word_of_nat (length ?c) :: u32) = length ?c" "unat (word_of_nat (length ?i) :: u32) = length ?i"
    using lc small by (simp_all add: unat_of_nat)
  have p1: "int (length ?all) - 4 = int (length (a @ ?i @ ?li @ ?c))" by simp
  have 1: "u32_at ?all (int (length (a @ ?i @ ?li @ ?c))) = Some (length ?c)"
    using u32_at_append [of "a @ ?i @ ?li @ ?c" "word_of_nat (length ?c)" "[]"] u by simp
  have p2: "int (length (a @ ?i @ ?li @ ?c)) - int (length ?c) = int (length (a @ ?i @ ?li))" by simp
  have 2: "go_slice ?all (int (length (a @ ?i @ ?li))) (int (length (a @ ?i @ ?li)) + int (length ?c)) = Some ?c"
    using go_slice_middle [of "a @ ?i @ ?li" ?c ?lc] by simp
  have p3: "int (length (a @ ?i @ ?li)) - 4 = int (length (a @ ?i))" by simp
  have 3: "u32_at ?all (int (length (a @ ?i))) = Some (length ?i)"
    using u32_at_append [of "a @ ?i" "word_of_nat (length ?i)" "?c @ ?lc"] u by simp
  have p4: "int (length (a @ ?i)) - int (length ?i) = int (length a)" by simp
  have 4: "go_slice ?all (int (length a)) (int (length a) + int (length ?i)) = Some ?i"
    by (rule go_slice_middle)
  have sums: "\<forall>s. tc_unsum tc (tc_sum tc s) = Some s" using c by (simp add: codec_ok_def)
  have 5: "tc_unsum tc ?c \<noteq> None" using sums by (simp add: calculateChecksum_def)
  have 6: "verifyChecksum (tc_unsum tc) ?i ?c = None" by (rule verifyChecksum_ok [OF sums])
  have iv: "length (tc_iv tc n) = 16" using c by (simp add: codec_ok_def)
  have 7: "(if shouldEncrypt opt then tb_decrypt tc ?i else Some ?i) = Some (tc_index tc ix)"
    using tb_decrypt_encrypt [OF iv] by (simp add: sealed_index_def)
  have "length (tc_index tc ix) \<le> length ?i" by (simp add: sealed_index_def tb_encrypt_def)
  then have 8: "tc_unindex tc (tc_index tc ix) = ix" using c small by (simp add: codec_ok_def)
  show ?thesis
    unfolding initIndex_def Let_def p1 1 Option.bind.bind_lunit p2 2 if_not_P [OF 5] p3 3 p4 4 6 option.case 7 8 using ix by simp
qed

lemma seekToLast_at:
  assumes r: "reads tc t cs" and ne: "cs \<noteq> []"
  shows "\<exists>itr'. it_Rewind tc t True itr = Some itr' \<and> it_Valid itr' \<and> it_Key itr' = fst (last (chunk_entries cs))"
proof -
  let ?b = "length cs - 1"
  have b: "?b < length cs" using ne by simp
  let ?i = "length (snd (cs ! ?b)) - 1"
  have nb: "numBlocks t = int (length cs)" by (rule numBlocks_chunks [OF r])
  have p: "it_bpos (itr\<lparr>it_bpos := int (length cs) - 1\<rparr>) = int ?b" using ne by (simp add: of_nat_diff Suc_leI)
  obtain itr' where e: "enter_block tc t (itr\<lparr>it_bpos := int (length cs) - 1\<rparr>) bi_seekToLast = Some itr'" "it_at cs ?b ?i itr'"
    using enter_last [OF r b p] by blast
  have i: "?i < length (snd (cs ! ?b))" using chunks_nonempty [OF r b] by simp
  have si: "Suc ?i = length (snd (cs ! ?b))" using i by linarith
  have "flat cs ?b (Suc ?i) = length (chunk_entries cs)"
    unfolding si using flat_end [OF b] flat_over [of cs "Suc ?b"] by simp
  then have l: "flat cs ?b ?i = length (chunk_entries cs) - 1" by (simp add: flat_def)
  have "chunk_entries cs \<noteq> []" using flat_nth(1) [OF b i] by auto
  then have "last (chunk_entries cs) = item_entry (snd (cs ! ?b) ! ?i)"
    using flat_nth(2) [OF b i] l by (simp add: last_conv_nth)
  then have "it_Key itr' = fst (last (chunk_entries cs))" using at_entry(2) [OF e(2)] by (simp add: as_read_def)
  moreover have "it_Rewind tc t True itr = Some itr'" using e(1) ne by (simp add: it_Rewind_def it_seekToLast_def nb)
  ultimately show ?thesis using at_entry(1) [OF e(2)] by blast
qed

lemma verify_blocks_ok:
  assumes r: "reads tc t cs" and c: "codec_ok tc"
  shows "\<forall>i \<in> set is. i < length cs \<Longrightarrow> verify_blocks tc t is = Some (Inr ())"
proof (induction "is")
  case (Cons i js)
  obtain b where b: "read_block tc t (int i) = Some (Inr b)" "bk_checksum b = calculateChecksum (tc_sum tc) (bk_data b)"
    using r Cons.prems by (auto simp: reads_def)
  have "\<forall>s. tc_unsum tc (tc_sum tc s) = Some s" using c by (simp add: codec_ok_def)
  then have "verifyChecksum (tc_unsum tc) (bk_data b) (bk_checksum b) = None" unfolding b(2) by (rule verifyChecksum_ok)
  then show ?case using Cons b(1) by simp
qed simp

text \<open>The file that the builder writes can be opened, and the opened table reads the entries.\<close>

definition opts_ok :: "tbl_opts \<Rightarrow> bool" where
  "opts_ok opt \<longleftrightarrow> to_BlockSize opt \<noteq> 0 \<or> to_Compression opt = 0"

lemma create_table:
  assumes c: "codec_ok tc" and o: "opts_ok opt"
    and h: "tb_holds (tc_sum tc) b cs cur" and ne: "snd cur \<noteq> []" "length (snd cur) < 2 ^ 30"
    and f: "(if to_Bloom opt then NewFilter (tb_keyHashes b) (tc_bits tc (length (tb_keyHashes b))) else Some []) = Some bloom"
    and small: "\<forall>bd. tb_Done tc opt b = Some bd \<longrightarrow> length (bd_Copy bd) < 2 ^ 32"
  defines "all \<equiv> cs @ [cur]"
  shows "\<exists>t. CreateTable tc opt i b = Some (Inr t) \<and> reads tc t all \<and> ot_id t = i \<and> ot_opt t = opt \<and>
    ot_smallest t = fst (hd (chunk_entries all)) \<and> ot_biggest t = fst (last (chunk_entries all)) \<and>
    ti_bloom (ot_index t) = bloom \<and> ti_maxVersion (ot_index t) = tb_maxVersion b \<and>
    ti_keyCount (ot_index t) = word_of_nat (length (tb_keyHashes b))"
proof -
  let ?ix = "index_of tc opt (finishBlock (tc_sum tc) b) all bloom"
  let ?i = "sealed_index tc opt (length all) (tc_index tc ?ix)"
  note d = tb_Done_file [OF h ne f, folded all_def]
  have copy: "length (file_of tc opt all ?i) < 2 ^ 32"
    using small [rule_format, OF d(1)] by (simp add: bd_Copy_def file_of_def Let_def del: length_concat)
  note fin = tb_Finish_file [OF d(1) copy]
  let ?file = "file_of tc opt all ?i"
  have len: "all \<noteq> []" by (simp add: all_def)
  have offs: "ti_offsets ?ix = map (\<lambda>i. \<lparr>bo_key = fst (all ! i), bo_offset = word_of_nat (sealed_offset tc opt all i),
      bo_len = word_of_nat (length (sealed tc opt all i))\<rparr>) [0..<length all]" by (simp add: index_of_def Let_def)
  then have ixne: "ti_offsets ?ix \<noteq> []" using len by simp
  have li: "length ?i < 2 ^ 32" using copy by (simp add: file_of_def Let_def)
  have init: "initIndex tc opt ?file = Some (Inr ?ix)"
    using initIndex_file [OF c ixne li, of "concat (sealed_all tc opt all)"] by (simp only: file_of_def Let_def)
  have dat: "ot_data t = ?file \<Longrightarrow> \<exists>r. ot_data t = concat (sealed_all tc opt all) @ r" for t by (simp add: file_of_def Let_def)
  have total: "length (concat (sealed_all tc opt all)) < 2 ^ 32" using copy by (simp add: file_of_def Let_def)
  have rd: "reads tc t all" if t: "ot_data t = ?file" "ot_opt t = opt" "ot_index t = ?ix" for t
  proof -
    obtain r where "ot_data t = concat (sealed_all tc opt all) @ r" using dat [OF t(1)] by blast
    then show ?thesis using file_reads [OF c d(2) total _ t(2)] offs t(3) by simp
  qed
  let ?t0 = "\<lparr>ot_data = ?file, ot_opt = opt, ot_index = ?ix, ot_smallest = bo_key (hd (ti_offsets ?ix)), ot_biggest = [], ot_id = i\<rparr>"
  have r0: "reads tc ?t0 all" by (rule rd) simp_all
  obtain it2 where it2: "it_Rewind tc ?t0 True NewIterator = Some it2" "it_Valid it2" "it_Key it2 = fst (last (chunk_entries all))"
    using seekToLast_at [OF r0 len] by blast
  let ?t1 = "?t0\<lparr>ot_biggest := it_Key it2\<rparr>"
  have r1: "reads tc ?t1 all" by (rule rd) simp_all
  have v: "verify_blocks tc ?t1 [0..<length (ti_offsets ?ix)] = Some (Inr ())"
    by (rule verify_blocks_ok [OF r1 c]) (simp add: offs)
  have no: "\<not> (to_BlockSize opt = 0 \<and> to_Compression opt \<noteq> 0)" using o by (auto simp: opts_ok_def)
  have op: "OpenTable tc opt i ?file = Some (Inr ?t1)"
    using it2(2) v unfolding OpenTable_def if_not_P [OF no] initBiggestAndSmallest_def Let_def init option.case sum.case it2(1) by simp
  have sm: "bo_key (hd (ti_offsets ?ix)) = fst (hd (chunk_entries all))"
  proof -
    have l: "0 < length all" using len by simp
    have "hd [0..<length all] = 0" using l by simp
    then have "bo_key (hd (ti_offsets ?ix)) = fst (all ! 0)" using l by (simp add: offs hd_map)
    also have "\<dots> = fst (item_entry (hd (snd (all ! 0))))" using base_first [OF r1 l] by simp
    also have "\<dots> = fst (hd (chunk_entries all))"
      using chunk_entries_split [OF l] chunks_nonempty [OF r1 l] by (simp add: hd_append hd_map)
    finally show ?thesis .
  qed
  have "CreateTable tc opt i b = Some (Inr ?t1)" by (simp add: CreateTable_def fin op)
  moreover have "ti_bloom ?ix = bloom" "ti_maxVersion ?ix = tb_maxVersion b" "ti_keyCount ?ix = word_of_nat (length (tb_keyHashes b))"
    using d(3,4) by (simp_all add: index_of_def Let_def)
  ultimately show ?thesis using r1 sm it2(3) by (intro exI [of _ ?t1]) simp
qed

lemma read_all_drain:
  assumes "it_good tc t cs itr"
  shows "read_all tc t n itr = Some (ti.drain tc t n itr)"
  using assms
proof (induction n arbitrary: itr)
  case (Suc n)
  show ?case
  proof (cases "it_Valid itr")
    case True
    then obtain b i where at: "it_at cs b i itr" and r: "reads tc t cs" using Suc.prems by (auto simp: it_good_def)
    obtain itr' where n: "it_next tc t itr = Some itr'" "it_good tc t cs itr'" using at_step [OF r at] by blast
    obtain v where "it_Value itr = Some v" using at_entry(3) [OF at] by blast
    then show ?thesis using True n Suc.IH [OF n(2)] by simp
  qed simp
qed simp

lemma table_data_entries:
  assumes "reads tc t cs" and "ti_keyCount (ot_index t) = word_of_nat (length (chunk_entries cs))" and "length (chunk_entries cs) < 2 ^ 32"
  shows "table_data tc t = Some (map as_read (chunk_entries cs))"
proof -
  obtain itr where itr: "it_Rewind tc t False NewIterator = Some itr" "it_good tc t cs itr" "it_items cs itr = map as_read (chunk_entries cs)"
    using rewind_items [OF assms(1)] by blast
  have n: "unat (ti_keyCount (ot_index t)) = length (chunk_entries cs)" using assms(2,3) by (simp add: unat_of_nat)
  have "ti.drain tc t (length (chunk_entries cs)) itr = map as_read (chunk_entries cs)"
    using ti.drain_all [OF itr(2)] itr(3) by simp
  then show ?thesis by (simp add: table_data_def itr(1) n read_all_drain [OF itr(2)])
qed

section \<open>The contract of the compaction\<close>

definition table_fits :: "table_codec \<Rightarrow> tbl_opts \<Rightarrow> added list \<Rightarrow> bool" where
  "table_fits tc opt as \<longleftrightarrow>
     (\<forall>a \<in> set as. key_fits a \<and> vs_Value (ad_vs a) \<noteq> None \<and> vs_Version (ad_vs a) = 0) \<and>
     weights (written as) < 2 ^ 28 \<and>
     (to_Bloom opt \<longrightarrow> int (length as) * tc_bits tc (length as) < 2 ^ 32 - 8) \<and>
     (case Option.bind (feed (tc_sum tc) opt NewTableBuilder as) (tb_Done tc opt) of None \<Rightarrow> True
      | Some bd \<Rightarrow> length (bd_Copy bd) < 2 ^ 32)"

lemma NewFilter_nonempty: "NewFilter hs b = Some f \<Longrightarrow> f \<noteq> []"
proof -
  have len: "length (fold (\<lambda>h. add_hash k n (d h) h) hs g) = length g" for k n d and g :: bytes
    by (induction hs arbitrary: g) simp_all
  assume f: "NewFilter hs b = Some f"
  define b' where "b' = (if b < 0 then 0 else b)"
  have "length f = length (replicate (filter_bytes (length hs) b' + 1) (0 :: byte))"
    using f unfolding NewFilter_def appendFilter_def extend_zeros_def b'_def [symmetric] Let_def
    by (auto simp del: replicate_Suc simp: len split: if_splits)
  then show ?thesis by auto
qed

text \<open>The table that is opened on the file of some entries.\<close>

lemma open_made_ok:
  assumes c: "codec_ok tc" and o: "opts_ok opt" and f: "table_fits tc opt as" and ne: "as \<noteq> []"
  shows "\<exists>t cs. open_made tc opt i as = Some t \<and> reads tc t cs \<and> cs \<noteq> [] \<and> chunk_entries cs = written as \<and>
    ot_id t = i \<and> ot_opt t = opt \<and> ot_smallest t = fst (hd (written as)) \<and> ot_biggest t = fst (last (written as)) \<and>
    ot_bloom t = (if to_Bloom opt then NewFilter (map (\<lambda>e. Hash (parse_key (fst e))) (written as)) (tc_bits tc (length as)) else None) \<and>
    ti_maxVersion (ot_index t) = fold (\<lambda>e m. if m < ParseTs (fst e) then ParseTs (fst e) else m) (written as) 0 \<and>
    ti_keyCount (ot_index t) = word_of_nat (length as)"
proof -
  have w: "weights (chunk_entries ([] @ [([], [])]) @ written as) < 2 ^ 28" and k: "\<forall>a \<in> set as. key_fits a"
    using f by (simp_all add: table_fits_def)
  obtain b cs cur where b: "feed (tc_sum tc) opt NewTableBuilder as = Some b" "tb_holds (tc_sum tc) b cs cur" "snd cur \<noteq> []"
    "chunk_entries (cs @ [cur]) = written as"
    using feed_holds [OF NewTableBuilder_holds [where marshal = "tc_sum tc"] k w disjI1 [OF ne], where opt = opt]
    by (elim exE conjE) (rule that, simp_all)
  have wts: "weights (chunk_entries (cs @ [cur])) < 2 ^ 28" using w unfolding b(4) by simp
  have hashes: "tb_keyHashes b = map (\<lambda>e. Hash (parse_key (fst e))) (written as)"
    and maxv: "tb_maxVersion b = fold (\<lambda>e m. if m < ParseTs (fst e) then ParseTs (fst e) else m) (written as) 0"
    using b(2) unfolding tb_holds_def b(4) by simp_all
  have lw: "length (written as) = length as" by (simp add: written_def)
  have "to_Bloom opt \<Longrightarrow> \<exists>g. NewFilter (tb_keyHashes b) (tc_bits tc (length (tb_keyHashes b))) = Some g"
    using f by (intro NewFilter_total) (simp add: table_fits_def hashes lw)
  then obtain bloom where bloom: "(if to_Bloom opt then NewFilter (tb_keyHashes b) (tc_bits tc (length (tb_keyHashes b))) else Some []) = Some bloom"
    by fastforce
  have small: "\<forall>bd. tb_Done tc opt b = Some bd \<longrightarrow> length (bd_Copy bd) < 2 ^ 32"
    using f b(1) by (auto simp: table_fits_def)
  obtain t where t: "CreateTable tc opt i b = Some (Inr t)" "reads tc t (cs @ [cur])" "ot_id t = i" "ot_opt t = opt"
    "ot_smallest t = fst (hd (written as))" "ot_biggest t = fst (last (written as))"
    "ti_bloom (ot_index t) = bloom" "ti_maxVersion (ot_index t) = tb_maxVersion b"
    "ti_keyCount (ot_index t) = word_of_nat (length (tb_keyHashes b))"
    using create_table [OF c o b(2,3) chunk_length [OF wts] bloom small, of i] unfolding b(4)
    by (elim exE conjE) (rule that, assumption+)
  have blm: "ot_bloom t = (if to_Bloom opt then NewFilter (map (\<lambda>e. Hash (parse_key (fst e))) (written as)) (tc_bits tc (length as)) else None)"
    using bloom NewFilter_nonempty [of _ _ bloom] by (auto simp: ot_bloom_def t(7) hashes lw split: if_splits)
  have "open_made tc opt i as = Some t" by (simp add: open_made_def b(1) t(1))
  then show ?thesis using t b(4) blm maxv hashes lw by (intro exI [of _ t] exI [of _ "cs @ [cur]"]) simp
qed

lemma make_table_ok:
  assumes c: "codec_ok tc" and o: "opts_ok opt" and f: "table_fits tc opt as" and ne: "as \<noteq> []"
  shows "\<exists>t. make_table tc opt i as = Some t \<and> t_ID t = i \<and> t_data t = written as \<and>
    t_Smallest t = fst (hd (written as)) \<and> t_Biggest t = fst (last (written as)) \<and> \<not> t_IsInmemory t \<and>
    t_KeyID t = ot_KeyID opt \<and> t_Compression t = to_Compression opt \<and>
    t_MaxVersion t = fold (\<lambda>e m. if m < ParseTs (fst e) then ParseTs (fst e) else m) (written as) 0 \<and>
    t_Bloom t = (if to_Bloom opt then NewFilter (map (\<lambda>e. Hash (parse_key (fst e))) (written as)) (tc_bits tc (length as)) else None)"
proof -
  obtain t cs where t: "open_made tc opt i as = Some t" "reads tc t cs" "chunk_entries cs = written as" "ot_id t = i" "ot_opt t = opt"
    "ot_smallest t = fst (hd (written as))" "ot_biggest t = fst (last (written as))"
    "ot_bloom t = (if to_Bloom opt then NewFilter (map (\<lambda>e. Hash (parse_key (fst e))) (written as)) (tc_bits tc (length as)) else None)"
    "ti_maxVersion (ot_index t) = fold (\<lambda>e m. if m < ParseTs (fst e) then ParseTs (fst e) else m) (written as) 0"
    "ti_keyCount (ot_index t) = word_of_nat (length as)"
    using open_made_ok [OF assms, of i] by (elim exE conjE) (rule that, assumption+)
  have lw: "length (written as) = length as" by (simp add: written_def)
  have "4 * length (written as) \<le> weights (written as)" "weights (written as) < 2 ^ 28"
    using weights_length f by (simp_all add: table_fits_def)
  then have "length (chunk_entries cs) < 2 ^ 32" unfolding t(3) by simp
  then have "table_data tc t = Some (map as_read (written as))"
    using table_data_entries [OF t(2)] unfolding t(3) by (simp add: t(10) lw)
  moreover have "\<forall>e \<in> set (written as). as_read e = e" using f by (auto simp: table_fits_def written_def intro!: as_read_id)
  then have "map as_read (written as) = written as" by (simp add: map_idI)
  ultimately show ?thesis by (simp add: make_table_def table_view_def t)
qed

definition made_table :: "table_codec \<Rightarrow> tbl_opts \<Rightarrow> u64 \<Rightarrow> added list \<Rightarrow> table" where
  "made_table tc opt i as = the (make_table tc opt i as)"

lemma entries_ok_ends:
  assumes "entries_ok es" and "e \<in> set es"
  shows "key_le (fst (hd es)) (fst e)" and "key_le (fst e) (fst (last es))"
proof -
  obtain n where n: "n < length es" "e = es ! n" using assms(2) by (auto simp: in_set_conv_nth)
  have srt: "in_order es" using assms(1) by (simp add: entries_ok_def in_order_def)
  have ne: "es \<noteq> []" using n by auto
  have "hd es = es ! 0" "last es = es ! (length es - 1)" using ne by (simp_all add: hd_conv_nth last_conv_nth)
  moreover have "n = 0 \<or> key_less (fst (es ! 0)) (fst (es ! n))" using in_order_nth [OF srt, of 0 n] n by auto
  moreover have "n = length es - 1 \<or> key_less (fst (es ! n)) (fst (es ! (length es - 1)))"
    using in_order_nth [OF srt, of n "length es - 1"] n by linarith
  ultimately show "key_le (fst (hd es)) (fst e)" "key_le (fst e) (fst (last es))" using n(2) by (auto simp: key_le_iff)
qed

lemma built_from_entries:
  assumes es: "entries_ok (t_data t)" "t_data t \<noteq> []" and b: "t_Smallest t = fst (hd (t_data t))" "t_Biggest t = fst (last (t_data t))"
    and v: "\<forall>e \<in> set (t_data t). vs_Value (snd e) \<noteq> None"
    and f: "\<forall>f. t_Bloom t = Some f \<longrightarrow> (\<exists>n. NewFilter (map (\<lambda>e. Hash (parse_key (fst e))) (t_data t)) n = Some f)"
  shows "built_table t"
proof -
  have ok: "stored_key x \<Longrightarrow> key_ok x" for x by (simp add: stored_key_def key_ok_def)
  have "\<forall>e \<in> set (t_data t). stored_key (fst e)" using es(1) by (simp add: entries_ok_def)
  then have k: "\<forall>e \<in> set (t_data t). key_ok (fst e) \<and> stored_key (fst e)" using ok by simp
  have "table_ok t"
    using k es entries_ok_ends [OF es(1)] hd_in_set [OF es(2)] last_in_set [OF es(2)]
    by (auto simp: table_ok_def b entries_ok_def)
  then show ?thesis using k es(2) b v f by (simp add: built_table_def)
qed

interpretation tm: table_maker "made_table tc opt" "\<lambda>as. codec_ok tc \<and> opts_ok opt \<and> table_fits tc opt as" for tc opt
proof unfold_locales
  fix as :: "added list" and i
  assume ne: "as \<noteq> []" and f: "codec_ok tc \<and> opts_ok opt \<and> table_fits tc opt as" and es: "entries_ok (written as)"
  obtain t where t: "make_table tc opt i as = Some t" "t_ID t = i" "t_data t = written as"
    "t_Smallest t = fst (hd (written as))" "t_Biggest t = fst (last (written as))" "\<not> t_IsInmemory t"
    "t_Bloom t = (if to_Bloom opt then NewFilter (map (\<lambda>e. Hash (parse_key (fst e))) (written as)) (tc_bits tc (length as)) else None)"
    using make_table_ok [of tc opt as i] f ne by blast
  have wn: "written as \<noteq> []" using ne by (simp add: written_def)
  have v: "\<forall>e \<in> set (written as). vs_Value (snd e) \<noteq> None" using f by (auto simp: table_fits_def written_def)
  have "built_table t"
    by (rule built_from_entries) (use es wn v t in \<open>auto split: if_splits\<close>)
  then show "t_ID (made_table tc opt i as) = i \<and> t_data (made_table tc opt i as) = written as \<and>
      built_table (made_table tc opt i as) \<and> \<not> t_IsInmemory (made_table tc opt i as)"
    using t by (simp add: made_table_def)
qed

end
