(* ===== verification/ConcatIter.thy ===== *)
theory ConcatIter
  imports TableIter
begin

text \<open>
  \<open>ConcatIterator\<close> of \<open>table/iterator.go\<close>: one iterator over tables that follow one another.
  Iterators of the tables are made when they are needed. \<open>cur\<close> points into \<open>iters\<close>, so it is
  the iterator at \<open>idx\<close>, and nil outside. Forward over tables in order it goes through the
  concatenation of their entries, which is what a compaction merges.
\<close>

section \<open>The iterator\<close>

record concat_iter =
  ci_idx :: int
  ci_iters :: "titer option list"
  ci_tables :: "open_table list"
  ci_reversed :: bool

definition NewConcatIterator :: "open_table list \<Rightarrow> bool \<Rightarrow> concat_iter" where
  "NewConcatIterator tbls reversed = \<lparr>ci_idx = - 1, ci_iters = replicate (length tbls) None, ci_tables = tbls, ci_reversed = reversed\<rparr>"

definition ci_cur :: "concat_iter \<Rightarrow> titer option" where
  "ci_cur s = (if 0 \<le> ci_idx s \<and> ci_idx s < int (length (ci_iters s)) then ci_iters s ! nat (ci_idx s) else None)"

definition ci_setIdx :: "concat_iter \<Rightarrow> int \<Rightarrow> concat_iter" where
  "ci_setIdx s0 idx =
     (let s = s0\<lparr>ci_idx := idx\<rparr>
      in if idx < 0 \<or> int (length (ci_iters s)) \<le> idx then s
         else if ci_iters s ! nat idx = None then s\<lparr>ci_iters := (ci_iters s)[nat idx := Some NewIterator]\<rparr> else s)"

text \<open>A method call on \<open>cur\<close>; on nil it panics.\<close>

definition ci_call :: "concat_iter \<Rightarrow> (open_table \<Rightarrow> titer \<Rightarrow> titer option) \<Rightarrow> concat_iter option" where
  "ci_call s call = (case ci_cur s of None \<Rightarrow> None
     | Some itr \<Rightarrow> map_option (\<lambda>itr'. s\<lparr>ci_iters := (ci_iters s)[nat (ci_idx s) := Some itr']\<rparr>)
         (call (ci_tables s ! nat (ci_idx s)) itr))"

definition ci_Rewind :: "table_codec \<Rightarrow> concat_iter \<Rightarrow> concat_iter option" where
  "ci_Rewind tc s =
     (if length (ci_iters s) = 0 then Some s
      else ci_call (ci_setIdx s (if \<not> ci_reversed s then 0 else int (length (ci_iters s)) - 1)) (\<lambda>t. it_Rewind tc t (ci_reversed s)))"

definition ci_Valid :: "concat_iter \<Rightarrow> bool" where
  "ci_Valid s \<longleftrightarrow> (case ci_cur s of None \<Rightarrow> False | Some itr \<Rightarrow> it_Valid itr)"

definition ci_Key :: "concat_iter \<Rightarrow> bytes option" where
  "ci_Key s = map_option it_Key (ci_cur s)"

definition ci_Value :: "concat_iter \<Rightarrow> ValueStruct option" where
  "ci_Value s = Option.bind (ci_cur s) it_Value"

definition ci_Seek :: "table_codec \<Rightarrow> bytes \<Rightarrow> concat_iter \<Rightarrow> concat_iter option" where
  "ci_Seek tc key s =
     (let ts = ci_tables s; n = length ts;
          idx = (if \<not> ci_reversed s then int (sort_search n (\<lambda>i. 0 \<le> cmp_keys (ot_biggest (ts ! i)) key))
                 else int n - 1 - int (sort_search n (\<lambda>i. cmp_keys (ot_smallest (ts ! (n - 1 - i))) key \<le> 0)))
      in if int n \<le> idx \<or> idx < 0 then Some (ci_setIdx s (- 1))
         else ci_call (ci_setIdx s idx) (\<lambda>t. it_Seek tc t (ci_reversed s) key))"

text \<open>The loop of \<open>Next\<close> over empty tables.\<close>

lemma ci_setIdx_simps [simp]: "ci_idx (ci_setIdx s i) = i" "ci_tables (ci_setIdx s i) = ci_tables s"
  "ci_reversed (ci_setIdx s i) = ci_reversed s" "length (ci_iters (ci_setIdx s i)) = length (ci_iters s)"
  by (simp_all add: ci_setIdx_def Let_def)

lemma ci_call_same: "ci_call s f = Some s' \<Longrightarrow> ci_idx s' = ci_idx s \<and> ci_tables s' = ci_tables s \<and> ci_reversed s' = ci_reversed s \<and>
    length (ci_iters s') = length (ci_iters s)"
  by (auto simp: ci_call_def split: option.splits)

function ci_skip :: "table_codec \<Rightarrow> concat_iter \<Rightarrow> concat_iter option" where
  "ci_skip tc s =
     (let s1 = ci_setIdx s (if \<not> ci_reversed s then ci_idx s + 1 else ci_idx s - 1)
      in if ci_cur s1 = None then Some s1
         else case ci_call s1 (\<lambda>t. it_Rewind tc t (ci_reversed s)) of None \<Rightarrow> None
           | Some s2 \<Rightarrow> if ci_Valid s2 then Some s2 else ci_skip tc s2)"
  by pat_completeness auto
termination
proof (relation "measure (\<lambda>(_, s). if ci_reversed s then nat (ci_idx s) else nat (int (length (ci_iters s)) - ci_idx s))", simp)
  fix tc s s1 s2
  assume s1: "s1 = ci_setIdx s (if \<not> ci_reversed s then ci_idx s + 1 else ci_idx s - 1)" "ci_cur s1 \<noteq> None"
    and s2: "ci_call s1 (\<lambda>t. it_Rewind tc t (ci_reversed s)) = Some s2"
  have "0 \<le> ci_idx s1 \<and> ci_idx s1 < int (length (ci_iters s1))" using s1(2) by (auto simp: ci_cur_def split: if_splits)
  then show "((tc, s2), (tc, s)) \<in> measure (\<lambda>(_, s). if ci_reversed s then nat (ci_idx s) else nat (int (length (ci_iters s)) - ci_idx s))"
    using ci_call_same [OF s2] s1(1) by (auto split: if_splits)
qed

declare ci_skip.simps [simp del]

definition ci_Next :: "table_codec \<Rightarrow> concat_iter \<Rightarrow> concat_iter option" where
  "ci_Next tc s = (case ci_call s (\<lambda>t. it_Next tc t (ci_reversed s)) of None \<Rightarrow> None
     | Some s1 \<Rightarrow> if ci_Valid s1 then Some s1 else ci_skip tc s1)"

section \<open>Forward, the tables follow one another\<close>

definition concat_reads :: "table_codec \<Rightarrow> chunk list list \<Rightarrow> concat_iter \<Rightarrow> bool" where
  "concat_reads tc css s \<longleftrightarrow> \<not> ci_reversed s \<and> length (ci_iters s) = length css \<and> length (ci_tables s) = length css \<and>
     (\<forall>i < length css. reads tc (ci_tables s ! i) (css ! i) \<and> css ! i \<noteq> [])"

definition ci_good :: "table_codec \<Rightarrow> chunk list list \<Rightarrow> concat_iter \<Rightarrow> bool" where
  "ci_good tc css s \<longleftrightarrow> concat_reads tc css s \<and>
     (ci_Valid s \<longrightarrow> (\<exists>i itr. i < length css \<and> ci_idx s = int i \<and> ci_cur s = Some itr \<and> it_good tc (ci_tables s ! i) (css ! i) itr))"

definition tables_entries :: "chunk list list \<Rightarrow> (bytes \<times> ValueStruct) list" where
  "tables_entries css = concat (map chunk_entries css)"

definition ci_items :: "chunk list list \<Rightarrow> concat_iter \<Rightarrow> (bytes \<times> ValueStruct) list" where
  "ci_items css s = (if ci_Valid s
     then it_items (css ! nat (ci_idx s)) (the (ci_cur s)) @ map as_read (tables_entries (drop (Suc (nat (ci_idx s))) css)) else [])"

lemma tables_entries_simps [simp]: "tables_entries [] = []" "tables_entries (c # cs) = chunk_entries c @ tables_entries cs"
  "tables_entries (cs @ ds) = tables_entries cs @ tables_entries ds"
  by (simp_all add: tables_entries_def)

lemma cur_call:
  assumes "ci_cur s = Some itr" and "call (ci_tables s ! nat (ci_idx s)) itr = Some itr'"
  shows "\<exists>s'. ci_call s call = Some s' \<and> ci_cur s' = Some itr' \<and> ci_idx s' = ci_idx s \<and> ci_tables s' = ci_tables s \<and>
    ci_reversed s' = ci_reversed s \<and> length (ci_iters s') = length (ci_iters s)"
proof -
  have "0 \<le> ci_idx s" "ci_idx s < int (length (ci_iters s))" using assms(1) by (auto simp: ci_cur_def split: if_splits)
  then show ?thesis using assms by (auto simp: ci_call_def ci_cur_def)
qed

lemma setIdx_cur: "i < length (ci_iters s) \<Longrightarrow> \<exists>itr. ci_cur (ci_setIdx s (int i)) = Some itr"
  by (auto simp: ci_cur_def ci_setIdx_def Let_def)

lemma setIdx_out_cur: "idx < 0 \<or> int (length (ci_iters s)) \<le> idx \<Longrightarrow> ci_cur (ci_setIdx s idx) = None"
  by (auto simp: ci_cur_def)

text \<open>Any positioning in a table leaves the rest of it and the tables after it.\<close>

lemma call_at:
  assumes r: "concat_reads tc css s" and i: "i < length css" and c: "ci_cur s = Some itr" "ci_idx s = int i"
    and m: "call (ci_tables s ! i) itr = Some itr'" "it_good tc (ci_tables s ! i) (css ! i) itr'" "it_items (css ! i) itr' = map as_read es" "es \<noteq> []"
  shows "\<exists>s'. ci_call s call = Some s' \<and> ci_Valid s' \<and> ci_good tc css s' \<and> ci_items css s' = map as_read (es @ tables_entries (drop (Suc i) css)) \<and> ci_idx s' = int i"
proof -
  have "call (ci_tables s ! nat (ci_idx s)) itr = Some itr'" using m(1) c(2) by simp
  then obtain s' where s': "ci_call s call = Some s'" "ci_cur s' = Some itr'" "ci_idx s' = ci_idx s" "ci_tables s' = ci_tables s"
    "ci_reversed s' = ci_reversed s" "length (ci_iters s') = length (ci_iters s)"
    using cur_call [OF c(1), of call] by blast
  have "it_items (css ! i) itr' \<noteq> []" using m(3,4) by simp
  then have v: "it_Valid itr'" by (simp add: it_items_def split: if_splits)
  have "concat_reads tc css s'" using r s' by (simp add: concat_reads_def)
  then show ?thesis using s' c(2) v m(2,3) i by (auto simp: ci_good_def ci_Valid_def ci_items_def)
qed

lemma rewind_at:
  assumes r: "concat_reads tc css s" and i: "i < length css"
  shows "\<exists>s'. ci_call (ci_setIdx s (int i)) (\<lambda>t. it_Rewind tc t False) = Some s' \<and> ci_Valid s' \<and> ci_good tc css s' \<and>
    ci_items css s' = map as_read (tables_entries (drop i css)) \<and> ci_idx s' = int i"
proof -
  let ?s = "ci_setIdx s (int i)"
  have len: "i < length (ci_iters s)" using r i by (simp add: concat_reads_def)
  obtain itr where c: "ci_cur ?s = Some itr" using setIdx_cur [OF len] by blast
  have r': "concat_reads tc css ?s" using r by (simp add: concat_reads_def)
  have rd: "reads tc (ci_tables ?s ! i) (css ! i)" "css ! i \<noteq> []" using r i by (simp_all add: concat_reads_def)
  obtain itr' where n: "it_Rewind tc (ci_tables ?s ! i) False itr = Some itr'" "it_good tc (ci_tables ?s ! i) (css ! i) itr'"
    "it_items (css ! i) itr' = map as_read (chunk_entries (css ! i))"
    using rewind_items [OF rd(1)] by blast
  have b: "0 < length (css ! i)" using rd(2) by simp
  have "chunk_entries (css ! i) \<noteq> []"
    using flat_nth(1) [OF b, of 0] chunks_nonempty [OF rd(1) b] by auto
  then show ?thesis
    using call_at [where call = "\<lambda>t. it_Rewind tc t False", OF r' i c _ n] i by (simp flip: Cons_nth_drop_Suc)
qed

lemma skip_at:
  assumes r: "concat_reads tc css s" and i: "ci_idx s = int i" "i < length css"
  shows "\<exists>s'. ci_skip tc s = Some s' \<and> ci_good tc css s' \<and> ci_items css s' = map as_read (tables_entries (drop (Suc i) css))"
proof -
  have f: "\<not> ci_reversed s" and len: "length (ci_iters s) = length css" using r by (simp_all add: concat_reads_def)
  have n: "ci_idx s + 1 = int (Suc i)" using i by simp
  note step = ci_skip.simps [of tc s, unfolded Let_def if_P [OF f] n]
  show ?thesis
  proof (cases "Suc i < length css")
    case True
    obtain s' where s': "ci_call (ci_setIdx s (int (Suc i))) (\<lambda>t. it_Rewind tc t False) = Some s'" "ci_Valid s'" "ci_good tc css s'"
      "ci_items css s' = map as_read (tables_entries (drop (Suc i) css))"
      using rewind_at [OF r True] by blast
    obtain itr where "ci_cur (ci_setIdx s (int (Suc i))) = Some itr" using setIdx_cur [of "Suc i" s] True len by auto
    then have "ci_skip tc s = Some s'" unfolding step using s'(1,2) f by simp
    then show ?thesis using s'(3,4) by blast
  next
    case False
    let ?s = "ci_setIdx s (int (Suc i))"
    have none: "ci_cur ?s = None" by (rule setIdx_out_cur) (use False len in linarith)
    then have "ci_skip tc s = Some ?s" unfolding step by simp
    moreover have "ci_good tc css ?s" "ci_items css ?s = []"
      using none r by (simp_all add: ci_good_def ci_items_def ci_Valid_def concat_reads_def)
    ultimately show ?thesis using False by simp
  qed
qed

lemma concat_next:
  assumes g: "ci_good tc css s" and v: "ci_Valid s"
  shows "\<exists>s'. ci_Next tc s = Some s' \<and> ci_good tc css s' \<and> ci_items css s' = tl (ci_items css s)"
    and "\<exists>k v. ci_Key s = Some k \<and> ci_Value s = Some v \<and> ci_items css s \<noteq> [] \<and> hd (ci_items css s) = (k, v)"
proof -
  obtain i itr where i: "i < length css" "ci_idx s = int i" "ci_cur s = Some itr" "it_good tc (ci_tables s ! i) (css ! i) itr"
    using g v by (auto simp: ci_good_def)
  have r: "concat_reads tc css s" using g by (simp add: ci_good_def)
  have f: "\<not> ci_reversed s" using r by (simp add: concat_reads_def)
  have iv: "it_Valid itr" using v i(3) by (simp add: ci_Valid_def)
  let ?rest = "map as_read (tables_entries (drop (Suc i) css))"
  have items: "ci_items css s = it_items (css ! i) itr @ ?rest" using v i by (simp add: ci_items_def)
  obtain b j where at: "it_at (css ! i) b j itr" and rd: "reads tc (ci_tables s ! i) (css ! i)" using i(4) iv by (auto simp: it_good_def)
  have ne: "it_items (css ! i) itr \<noteq> []" using at_items(2) [OF at] by simp
  show "\<exists>k v. ci_Key s = Some k \<and> ci_Value s = Some v \<and> ci_items css s \<noteq> [] \<and> hd (ci_items css s) = (k, v)"
    using at_entry(2,3) [OF at] at_items(2) [OF at] ne i(3) unfolding items by (auto simp: ci_Key_def ci_Value_def)
  obtain itr' where n: "it_next tc (ci_tables s ! i) itr = Some itr'" "it_good tc (ci_tables s ! i) (css ! i) itr'"
    "it_items (css ! i) itr' = map as_read (drop (flat (css ! i) b (Suc j)) (chunk_entries (css ! i)))"
    using at_step [OF rd at] by blast
  let ?es = "drop (flat (css ! i) b (Suc j)) (chunk_entries (css ! i))"
  have t: "tl (ci_items css s) = map as_read (?es @ tables_entries (drop (Suc i) css))"
    unfolding items at_items(2) [OF at] by simp
  have m: "(\<lambda>t. it_Next tc t (ci_reversed s)) (ci_tables s ! i) itr = Some itr'" using n(1) f by (simp add: it_Next_def)
  show "\<exists>s'. ci_Next tc s = Some s' \<and> ci_good tc css s' \<and> ci_items css s' = tl (ci_items css s)"
  proof (cases "?es = []")
    case False
    obtain s' where "ci_call s (\<lambda>t. it_Next tc t (ci_reversed s)) = Some s'" "ci_Valid s'" "ci_good tc css s'"
      "ci_items css s' = map as_read (?es @ tables_entries (drop (Suc i) css))"
      using call_at [where call = "\<lambda>t. it_Next tc t (ci_reversed s)", OF r i(1,3,2) m n(2,3) False] by blast
    then show ?thesis unfolding t by (intro exI [of _ s']) (simp add: ci_Next_def)
  next
    case True
    have "(\<lambda>t. it_Next tc t (ci_reversed s)) (ci_tables s ! nat (ci_idx s)) itr = Some itr'" using m i(2) by simp
    then obtain s1 where s1: "ci_call s (\<lambda>t. it_Next tc t (ci_reversed s)) = Some s1" "ci_cur s1 = Some itr'" "ci_idx s1 = ci_idx s"
      "ci_tables s1 = ci_tables s" "ci_reversed s1 = ci_reversed s" "length (ci_iters s1) = length (ci_iters s)"
      using cur_call [OF i(3), of "\<lambda>t. it_Next tc t (ci_reversed s)"] by blast
    have "it_items (css ! i) itr' = []" using n(3) True by simp
    then have "\<not> it_Valid itr'" using ti.valid_items [OF n(2)] by blast
    then have nv: "\<not> ci_Valid s1" using s1(2) by (simp add: ci_Valid_def)
    have r1: "concat_reads tc css s1" using r s1 by (simp add: concat_reads_def)
    have idx: "ci_idx s1 = int i" using s1(3) i(2) by simp
    obtain s' where "ci_skip tc s1 = Some s'" "ci_good tc css s'" "ci_items css s' = map as_read (tables_entries (drop (Suc i) css))"
      using skip_at [OF r1 idx i(1)] by blast
    then show ?thesis using s1(1) nv unfolding t True by (intro exI [of _ s']) (simp add: ci_Next_def)
  qed
qed

interpretation cti: iterator ci_Valid "\<lambda>s. the (ci_Key s)" "\<lambda>s. the (ci_Value s)" "\<lambda>s. the (ci_Next tc s)" "ci_items css" "ci_good tc css" for tc css
proof unfold_locales
  fix s assume g: "ci_good tc css s"
  show "ci_Valid s \<longleftrightarrow> ci_items css s \<noteq> []"
    using concat_next(2) [OF g] by (cases "ci_Valid s") (auto simp: ci_items_def)
  assume v: "ci_Valid s"
  show "(the (ci_Key s), the (ci_Value s)) = hd (ci_items css s)" using concat_next(2) [OF g v] by auto
  show "ci_good tc css (the (ci_Next tc s))" "ci_items css (the (ci_Next tc s)) = tl (ci_items css s)"
    using concat_next(1) [OF g v] by auto
qed

section \<open>Rewinding and seeking\<close>

lemma concat_rewind:
  assumes r: "concat_reads tc css s"
  shows "\<exists>s'. ci_Rewind tc s = Some s' \<and> (css \<noteq> [] \<longrightarrow> ci_good tc css s' \<and> ci_items css s' = map as_read (tables_entries css))"
proof (cases "css = []")
  case True
  then show ?thesis using r by (simp add: ci_Rewind_def concat_reads_def)
next
  case False
  have i: "0 < length css" using False by simp
  have f: "\<not> ci_reversed s" "length (ci_iters s) \<noteq> 0" using r False by (auto simp: concat_reads_def)
  show ?thesis using rewind_at [OF r i] f by (auto simp: ci_Rewind_def)
qed

lemma dropWhile_parts:
  assumes "\<forall>e \<in> set a. P e"
  shows "dropWhile P (a @ b @ c) = (if \<forall>e \<in> set b. P e then dropWhile P c else dropWhile P b @ c)"
proof -
  have a: "dropWhile P (a @ b @ c) = dropWhile P (b @ c)" by (rule dropWhile_append2) (use assms in blast)
  show ?thesis
  proof (cases "\<forall>e \<in> set b. P e")
    case True
    have "dropWhile P (b @ c) = dropWhile P c" by (rule dropWhile_append2) (use True in blast)
    then show ?thesis using True a by simp
  next
    case False
    then obtain x where "x \<in> set b" "\<not> P x" by blast
    then have "dropWhile P (b @ c) = dropWhile P b @ c" by (rule dropWhile_append1)
    then show ?thesis unfolding a if_not_P [OF False] .
  qed
qed

lemma concat_seek:
  assumes r: "concat_reads tc css s" and srt: "in_order (tables_entries css)"
    and big: "\<forall>i < length css. ot_biggest (ci_tables s ! i) = fst (last (chunk_entries (css ! i)))"
  shows "\<exists>s'. ci_Seek tc key s = Some s' \<and> ci_good tc css s' \<and> ci_items css s' = map as_read (dropWhile (key_below key) (tables_entries css))"
proof -
  have f: "\<not> ci_reversed s" and len: "length (ci_tables s) = length css" "length (ci_iters s) = length css" using r by (simp_all add: concat_reads_def)
  let ?f = "\<lambda>i. key_le key (fst (last (chunk_entries (css ! i))))"
  let ?idx = "sort_search (length css) ?f"
  have ne: "chunk_entries (css ! i) \<noteq> []" if i: "i < length css" for i
  proof -
    have rd: "reads tc (ci_tables s ! i) (css ! i)" and b: "0 < length (css ! i)" using r i by (simp_all add: concat_reads_def)
    show ?thesis using flat_nth(1) [OF b, of 0] chunks_nonempty [OF rd b] by auto
  qed
  have idx: "sort_search (length css) (\<lambda>i. 0 \<le> cmp_keys (ot_biggest (ci_tables s ! i)) key) = ?idx"
    unfolding sort_search_def by (intro search_loop_cong) (simp add: big cmp_keys_ge)
  have split: "tables_entries css = tables_entries (take i css) @ chunk_entries (css ! i) @ tables_entries (drop (Suc i) css)" if "i < length css" for i
    using id_take_nth_drop [OF that] tables_entries_simps(2,3) by metis
  have part: "in_order (chunk_entries (css ! i))" if "i < length css" for i
    using srt split [OF that] by (metis in_order_append)
  have lst: "key_le (fst e) (fst (last (chunk_entries (css ! i))))" if i: "i < length css" and e: "e \<in> set (chunk_entries (css ! i))" for i e
  proof -
    let ?es = "chunk_entries (css ! i)"
    obtain n where n: "n < length ?es" "e = ?es ! n" using e by (auto simp: in_set_conv_nth)
    have "last ?es = ?es ! (length ?es - 1)" by (rule last_conv_nth [OF ne [OF i]])
    moreover have "n = length ?es - 1 \<or> key_less (fst (?es ! n)) (fst (?es ! (length ?es - 1)))"
      using in_order_nth [OF part [OF i], of n "length ?es - 1"] n(1) by linarith
    ultimately show ?thesis using n(2) by (auto simp: key_le_iff)
  qed
  have up: "upward (length css) ?f"
  proof (rule upwardI)
    fix i j assume ij: "i \<le> j" "j < length css" "?f i"
    show "?f j"
    proof (cases "i = j")
      case False
      have il: "i < length css" using ij by linarith
      have "last (chunk_entries (css ! i)) \<in> set (tables_entries (take j css))"
      proof -
        have "css ! i \<in> set (take j css)" using ij False by (auto simp: in_set_conv_nth intro!: exI [of _ i])
        then show ?thesis using last_in_set [OF ne [OF il]] by (auto simp: tables_entries_def)
      qed
      moreover have "last (chunk_entries (css ! j)) \<in> set (chunk_entries (css ! j))" by (rule last_in_set [OF ne [OF ij(2)]])
      ultimately have "key_less (fst (last (chunk_entries (css ! i)))) (fst (last (chunk_entries (css ! j))))"
        using srt split [OF ij(2)] by (metis in_order_append Un_iff set_append)
      then show ?thesis using ij(3) key_le_less_trans key_le_iff by blast
    qed (use ij in simp)
  qed
  have below: "\<forall>e \<in> set (tables_entries (take ?idx css)). key_below key e"
  proof
    fix e assume "e \<in> set (tables_entries (take ?idx css))"
    then obtain c where c: "c \<in> set (take ?idx css)" "e \<in> set (chunk_entries c)" by (auto simp: tables_entries_def)
    then obtain i where ic: "i < ?idx" "c = css ! i" by (auto simp: in_set_conv_nth)
    have i: "i < ?idx" "i < length css" "c = css ! i"
      using ic less_le_trans [OF ic(1) sort_search_le] by simp_all
    have "\<not> ?f i" by (rule sort_search_before [OF up i(1)])
    then have "key_less (fst (last (chunk_entries (css ! i)))) key" by (simp flip: not_key_less)
    moreover have "key_le (fst e) (fst (last (chunk_entries (css ! i))))" using lst [OF i(2)] c(2) i(3) by blast
    ultimately show "key_below key e" using key_le_less_trans by (auto simp: key_below_def)
  qed
  note seek = ci_Seek_def [of tc key s, unfolded Let_def if_P [OF f] len idx]
  show ?thesis
  proof (cases "?idx = length css")
    case True
    let ?s = "ci_setIdx s (- 1)"
    have none: "ci_cur ?s = None" by (rule setIdx_out_cur) simp
    have "ci_Seek tc key s = Some ?s" using seek True by simp
    moreover have "ci_good tc css ?s" "ci_items css ?s = []"
      using none r by (simp_all add: ci_good_def ci_items_def ci_Valid_def concat_reads_def)
    moreover have "dropWhile (key_below key) (tables_entries css) = []" using below True by (simp add: dropWhile_eq_Nil_conv)
    ultimately show ?thesis by simp
  next
    case False
    then have i: "?idx < length css" using sort_search_le [of "length css" ?f] by (rule le_neq_implies_less [rotated])
    let ?s = "ci_setIdx s (int ?idx)"
    have li: "?idx < length (ci_iters s)" using i len by simp
    obtain itr where c: "ci_cur ?s = Some itr" using setIdx_cur [OF li] by blast
    have r': "concat_reads tc css ?s" using r by (simp add: concat_reads_def)
    have rd: "reads tc (ci_tables ?s ! ?idx) (css ! ?idx)" "css ! ?idx \<noteq> []" using r i by (simp_all add: concat_reads_def)
    have hit: "?f ?idx" by (rule sort_search_hit [OF i])
    let ?es = "dropWhile (key_below key) (chunk_entries (css ! ?idx))"
    have nb: "\<not> (\<forall>e \<in> set (chunk_entries (css ! ?idx)). key_below key e)"
      using last_in_set [OF ne [OF i]] hit by (auto simp: key_below_def simp flip: not_key_less)
    then have es: "?es \<noteq> []" by (simp add: dropWhile_eq_Nil_conv)
    obtain itr' where n: "it_seek tc (ci_tables ?s ! ?idx) key itr = Some itr'" "it_good tc (ci_tables ?s ! ?idx) (css ! ?idx) itr'"
      "it_items (css ! ?idx) itr' = map as_read ?es"
      using seek_split [OF rd part [OF i]] by blast
    have m: "(\<lambda>t. it_Seek tc t (ci_reversed s) key) (ci_tables ?s ! ?idx) itr = Some itr'" using n(1) f by (simp add: it_Seek_def)
    obtain s' where s': "ci_call ?s (\<lambda>t. it_Seek tc t (ci_reversed s) key) = Some s'" "ci_good tc css s'"
      "ci_items css s' = map as_read (?es @ tables_entries (drop (Suc ?idx) css))"
      using call_at [where call = "\<lambda>t. it_Seek tc t (ci_reversed s) key", OF r' i c ci_setIdx_simps(1) m n(2,3) es] by blast
    have "ci_Seek tc key s = Some s'" using seek i s'(1) by simp
    moreover have "dropWhile (key_below key) (tables_entries css) = ?es @ tables_entries (drop (Suc ?idx) css)"
      unfolding split [OF i] dropWhile_parts [OF below] if_not_P [OF nb] by simp
    ultimately show ?thesis using s'(2,3) by (intro exI [of _ s']) simp
  qed
qed

text \<open>The loop that reads everything from the current position on.\<close>

fun ci_read_all :: "table_codec \<Rightarrow> nat \<Rightarrow> concat_iter \<Rightarrow> (bytes \<times> ValueStruct) list option" where
  "ci_read_all tc 0 s = Some []"
| "ci_read_all tc (Suc n) s =
     (if \<not> ci_Valid s then Some []
      else Option.bind (ci_Key s) (\<lambda>k. Option.bind (ci_Value s) (\<lambda>v. Option.bind (ci_Next tc s) (\<lambda>s'.
        map_option (Cons (k, v)) (ci_read_all tc n s')))))"

lemma ci_read_all_drain:
  assumes "ci_good tc css s"
  shows "ci_read_all tc n s = Some (cti.drain tc n s)"
  using assms
proof (induction n arbitrary: s)
  case (Suc n)
  show ?case
  proof (cases "ci_Valid s")
    case True
    obtain s' where s': "ci_Next tc s = Some s'" "ci_good tc css s'" using concat_next(1) [OF Suc.prems True] by blast
    obtain k v where "ci_Key s = Some k" "ci_Value s = Some v" using concat_next(2) [OF Suc.prems True] by blast
    then show ?thesis using True s' Suc.IH [OF s'(2)] by simp
  qed simp
qed simp

end
