(* ===== verification/TableFacts.thy ===== *)
theory TableFacts
  imports TableMaker ConcatIter
begin

text \<open>
  What table files promise to the rest of the program: the table made of the entries of a
  compaction reads back as these entries, seeks are searches in them, and a compaction over
  such tables changes no read. A small concrete codec shows that the contracts on the
  third-party code can hold.
\<close>

section \<open>A concrete codec\<close>

definition put_bytes :: "bytes \<Rightarrow> bytes" where
  "put_bytes b = U32ToBytes (word_of_nat (length b)) @ b"

definition get_u32 :: "bytes \<Rightarrow> u32" where
  "get_u32 b = the (BytesToU32 b)"

definition get_bytes :: "bytes \<Rightarrow> bytes \<times> bytes" where
  "get_bytes b = (let n = unat (get_u32 b) in (take n (drop 4 b), drop n (drop 4 b)))"

definition put_offset :: "block_offset \<Rightarrow> bytes" where
  "put_offset o' = put_bytes (bo_key o') @ U32ToBytes (bo_offset o') @ U32ToBytes (bo_len o')"

fun get_offsets :: "nat \<Rightarrow> bytes \<Rightarrow> block_offset list \<times> bytes" where
  "get_offsets 0 b = ([], b)"
| "get_offsets (Suc n) b = (let (k, b1) = get_bytes b; (os, r) = get_offsets n (drop 8 b1)
     in (\<lparr>bo_key = k, bo_offset = get_u32 b1, bo_len = get_u32 (drop 4 b1)\<rparr> # os, r))"

definition put_index :: "table_index \<Rightarrow> bytes" where
  "put_index ix = U64ToBytes (ti_maxVersion ix) @ U32ToBytes (ti_uncompressedSize ix) @ U32ToBytes (ti_keyCount ix) @
     U32ToBytes (ti_onDiskSize ix) @ U32ToBytes (ti_staleDataSize ix) @ put_bytes (ti_bloom ix) @
     U32ToBytes (word_of_nat (length (ti_offsets ix))) @ concat (map put_offset (ti_offsets ix))"

definition get_index :: "bytes \<Rightarrow> table_index" where
  "get_index b = (let b1 = drop 8 b; (f, r) = get_bytes (drop 16 b1); (os, _) = get_offsets (unat (get_u32 r)) (drop 4 r)
     in \<lparr>ti_offsets = os, ti_bloom = f, ti_maxVersion = the (BytesToU64 b), ti_uncompressedSize = get_u32 b1,
         ti_keyCount = get_u32 (drop 4 b1), ti_onDiskSize = get_u32 (drop 8 b1), ti_staleDataSize = get_u32 (drop 12 b1)\<rparr>)"

definition plain_codec :: table_codec where
  "plain_codec = \<lparr>tc_sum = U64ToBytes, tc_unsum = BytesToU64, tc_index = put_index, tc_unindex = get_index,
     tc_compress = (\<lambda>d. d), tc_decompress = Some, tc_stream = (\<lambda>_ _. 0), tc_iv = (\<lambda>_. replicate 16 0), tc_bits = (\<lambda>_. 10)\<rparr>"

lemma get_u32_append [simp]: "get_u32 (U32ToBytes w @ r) = w"
  by (simp add: get_u32_def BytesToU32_append)

lemma drop_u32 [simp]: "drop 4 (U32ToBytes w @ r) = r" "drop 8 (U64ToBytes x @ r) = r"
  by simp_all

lemma get_put_bytes [simp]: "length b < 2 ^ 32 \<Longrightarrow> get_bytes (put_bytes b @ r) = (b, r)"
  by (simp add: get_bytes_def put_bytes_def unat_of_nat)

lemma get_put_offsets: "\<forall>o' \<in> set os. length (bo_key o') < 2 ^ 32 \<Longrightarrow> get_offsets (length os) (concat (map put_offset os) @ r) = (os, r)"
proof (induction os)
  case (Cons o' os)
  have d: "drop 8 (U32ToBytes x @ U32ToBytes y @ s) = s" for x y s by simp
  show ?case using Cons by (simp add: put_offset_def d)
qed simp

lemma put_index_length:
  "length (put_index ix) = 32 + length (ti_bloom ix) + (\<Sum>o' \<leftarrow> ti_offsets ix. 12 + length (bo_key o'))"
  by (simp add: put_index_def put_bytes_def put_offset_def length_concat comp_def)

lemma get_put_index:
  assumes "length (put_index ix) < 2 ^ 32"
  shows "get_index (put_index ix) = ix"
proof -
  have l: "(\<Sum>o' \<leftarrow> ti_offsets ix. 12 + length (bo_key o')) < 2 ^ 32" "length (ti_bloom ix) < 2 ^ 32"
    using assms unfolding put_index_length by simp_all
  have k: "\<forall>o' \<in> set (ti_offsets ix). length (bo_key o') < 2 ^ 32"
  proof
    fix o' assume "o' \<in> set (ti_offsets ix)"
    then have "12 + length (bo_key o') \<le> (\<Sum>o' \<leftarrow> ti_offsets ix. 12 + length (bo_key o'))" by (intro member_le_sum_list) auto
    then show "length (bo_key o') < 2 ^ 32" using l(1) by simp
  qed
  have "length (ti_offsets ix) \<le> (\<Sum>o' \<leftarrow> ti_offsets ix. 12 + length (bo_key o'))" by (induction "ti_offsets ix") (simp_all add: sum_list_addf sum_list_triv)
  then have n: "unat (word_of_nat (length (ti_offsets ix)) :: u32) = length (ti_offsets ix)" using l(1) by (simp add: unat_of_nat)
  have d: "drop 4 (drop 4 b) = drop 8 b" "drop 4 (drop 8 b) = drop 12 b" "drop 4 (drop 12 b) = drop 16 b" for b :: bytes by simp_all
  show ?thesis
    using get_put_offsets [OF k, of "[]"] l(2)
    by (simp add: get_index_def put_index_def n BytesToU64_append)
qed

lemma plain_codec_ok: "codec_ok plain_codec"
  using BytesToU64_append [of _ "[]"] by (simp add: codec_ok_def plain_codec_def get_put_index)

definition plain_opts :: tbl_opts where
  "plain_opts = \<lparr>to_TableSize = 2 ^ 21, to_BlockSize = 4096, to_Bloom = False, to_DataKey = None, to_Compression = 0, to_ChkMode = OnTableAndBlockRead\<rparr>"

lemma plain_opts_ok: "opts_ok plain_opts"
  by (simp add: opts_ok_def plain_opts_def)

text \<open>Without compression and encryption, the bound on the entries bounds the file.\<close>

lemma plain_chunk:
  assumes "chunk_ok c"
  shows "length (bb_data (chunk_block U64ToBytes c)) \<le> weights (map item_entry (snd c)) + 4 * length (snd c) + 16"
    and "length (fst c) \<le> weights (map item_entry (snd c))"
proof -
  have ok: "items_ok (fst c) (snd c)" "snd c \<noteq> []" using assms by (simp_all add: chunk_ok_def)
  have i: "length (items_bytes (snd c)) \<le> weights (map item_entry (snd c))"
    using items_weight [of "snd c" "fst c"] ok(1) by (simp add: items_ok_def)
  have u: "length (U64ToBytes x) = 8" for x by (simp add: U64ToBytes_def)
  show "length (bb_data (chunk_block U64ToBytes c)) \<le> weights (map item_entry (snd c)) + 4 * length (snd c) + 16"
    using i by (simp add: chunk_block_def block_finish_def Let_def calculateChecksum_def u)
  obtain x xs where x: "snd c = x # xs" using ok(2) by (cases "snd c") auto
  have "fst (snd x) = fst c" using ok(1) x by (simp add: items_ok_def)
  then show "length (fst c) \<le> weights (map item_entry (snd c))" by (simp add: x weight_def item_entry_def)
qed

lemma plain_chunks:
  assumes "\<forall>c \<in> set cs. chunk_ok c"
  shows "(\<Sum>c \<leftarrow> cs. length (bb_data (chunk_block U64ToBytes c))) + (\<Sum>c \<leftarrow> cs. 12 + length (fst c)) \<le> 10 * weights (chunk_entries cs)"
  using assms
proof (induction cs)
  case (Cons c cs)
  have "chunk_ok c" using Cons.prems by simp
  note p = plain_chunk [OF this]
  have "4 * length (snd c) \<le> weights (map item_entry (snd c))" using weights_length [of "map item_entry (snd c)"] by simp
  moreover have "1 \<le> length (snd c)" using \<open>chunk_ok c\<close> by (simp add: chunk_ok_def Suc_leI)
  moreover have "(\<Sum>c \<leftarrow> cs. length (bb_data (chunk_block U64ToBytes c))) + (\<Sum>c \<leftarrow> cs. 12 + length (fst c)) \<le> 10 * weights (chunk_entries cs)"
    using Cons by simp
  ultimately show ?case using p by simp
qed simp

lemma plain_fits:
  assumes "\<forall>a \<in> set as. key_fits a \<and> vs_Value (ad_vs a) \<noteq> None \<and> vs_Version (ad_vs a) = 0" and "weights (written as) < 2 ^ 28"
  shows "table_fits plain_codec plain_opts as"
proof -
  have "length (bd_Copy bd) < 2 ^ 32"
    if d: "Option.bind (feed (tc_sum plain_codec) plain_opts NewTableBuilder as) (tb_Done plain_codec plain_opts) = Some bd" for bd
  proof (cases "as = []")
    case True
    then show ?thesis using d by (auto simp: tb_Done_def finishBlock_def NewTableBuilder_def new_bblock_def bd_Copy_def)
  next
    case False
    have w: "weights (chunk_entries ([] @ [([], [])]) @ written as) < 2 ^ 28" and k: "\<forall>a \<in> set as. key_fits a" using assms by simp_all
    obtain b cs cur where b: "feed (tc_sum plain_codec) plain_opts NewTableBuilder as = Some b" "tb_holds (tc_sum plain_codec) b cs cur" "snd cur \<noteq> []"
      "chunk_entries (cs @ [cur]) = written as"
      using feed_holds [OF NewTableBuilder_holds [where marshal = "tc_sum plain_codec"] k w disjI1 [OF False], where opt = plain_opts]
      by (elim exE conjE) (rule that, simp_all)
    let ?all = "cs @ [cur]"
    have wts: "weights (chunk_entries ?all) < 2 ^ 28" using assms(2) unfolding b(4) .
    have nf: "(if to_Bloom plain_opts then NewFilter (tb_keyHashes b) (tc_bits plain_codec (length (tb_keyHashes b))) else Some []) = Some []"
      by (simp add: plain_opts_def)
    note dn = tb_Done_file [OF b(2,3) chunk_length [OF wts] nf]
    let ?ix = "index_of plain_codec plain_opts (finishBlock (tc_sum plain_codec) b) ?all []"
    have s: "sealed plain_codec plain_opts ?all i = bb_data (chunk_block U64ToBytes (?all ! i))" for i
      by (simp add: sealed_def handleBlock_def plain_opts_def shouldEncrypt_def plain_codec_def)
    have "sealed_all plain_codec plain_opts ?all = map (\<lambda>c. bb_data (chunk_block U64ToBytes c)) ?all"
      by (rule nth_equalityI) (simp_all add: sealed_all_def s del: upt_Suc map_append)
    then have l1: "length (concat (sealed_all plain_codec plain_opts ?all)) = (\<Sum>c \<leftarrow> ?all. length (bb_data (chunk_block U64ToBytes c)))"
      by (simp add: length_concat comp_def)
    have "map (\<lambda>o'. 12 + length (bo_key o')) (ti_offsets ?ix) = map (\<lambda>c. 12 + length (fst c)) ?all"
      by (rule nth_equalityI) (simp_all add: index_of_def Let_def del: upt_Suc map_append)
    then have l2: "length (put_index ?ix) = 32 + (\<Sum>c \<leftarrow> ?all. 12 + length (fst c))"
      unfolding put_index_length by (simp add: index_of_def Let_def)
    have si: "sealed_index plain_codec plain_opts n (tc_index plain_codec ?ix) = put_index ?ix" for n
      by (simp add: sealed_index_def plain_opts_def shouldEncrypt_def plain_codec_def)
    have sum: "length (calculateChecksum (tc_sum plain_codec) x) = 8" for x by (simp add: calculateChecksum_def plain_codec_def U64ToBytes_def)
    have "length (bd_Copy bd) = length (concat (sealed_all plain_codec plain_opts ?all)) + length (put_index ?ix) + 16"
      using d b(1) dn(1) by (auto simp: bd_Copy_def sum si simp del: length_concat)
    moreover have "(\<Sum>c \<leftarrow> ?all. length (bb_data (chunk_block U64ToBytes c))) + (\<Sum>c \<leftarrow> ?all. 12 + length (fst c)) \<le> 10 * weights (chunk_entries ?all)"
      by (rule plain_chunks [OF dn(2)])
    ultimately show ?thesis unfolding l1 l2 using wts by simp
  qed
  then show ?thesis using assms by (auto simp: table_fits_def plain_opts_def split: option.split)
qed

section \<open>Properties of table files\<close>

text \<open>C7: a table file gives back the entries that were added, with its bounds and its filter.\<close>

theorem table_roundtrip:
  assumes "codec_ok tc" and "opts_ok opt" and "table_fits tc opt as" and "as \<noteq> []"
  shows "\<exists>t. make_table tc opt i as = Some t \<and> t_ID t = i \<and> t_data t = written as \<and>
    t_Smallest t = fst (hd (written as)) \<and> t_Biggest t = fst (last (written as)) \<and> \<not> t_IsInmemory t \<and>
    t_KeyID t = ot_KeyID opt \<and> t_Compression t = to_Compression opt \<and>
    t_MaxVersion t = fold (\<lambda>e m. if m < ParseTs (fst e) then ParseTs (fst e) else m) (written as) 0 \<and>
    t_Bloom t = (if to_Bloom opt then NewFilter (map (\<lambda>e. Hash (parse_key (fst e))) (written as)) (tc_bits tc (length as)) else None)"
  using assms by (rule make_table_ok)

definition ex_added :: "added list" where
  "ex_added = [\<lparr>ad_stale = False, ad_key = KeyWithTs [1, 2] 9, ad_vs = \<lparr>vs_Meta = 0, vs_UserMeta = 3, vs_ExpiresAt = 0, vs_Value = Some [7, 7], vs_Version = 0\<rparr>, ad_vpLen = 0\<rparr>,
     \<lparr>ad_stale = True, ad_key = KeyWithTs [1, 2] 4, ad_vs = \<lparr>vs_Meta = 1, vs_UserMeta = 0, vs_ExpiresAt = 300, vs_Value = Some [], vs_Version = 0\<rparr>, ad_vpLen = 0\<rparr>,
     \<lparr>ad_stale = False, ad_key = KeyWithTs [1, 5] 2, ad_vs = \<lparr>vs_Meta = 0, vs_UserMeta = 0, vs_ExpiresAt = 0, vs_Value = Some [8], vs_Version = 0\<rparr>, ad_vpLen = 5\<rparr>]"

lemma ex_added_fits: "table_fits plain_codec plain_opts ex_added"
  by (rule plain_fits) (simp_all add: ex_added_def key_fits_def KeyWithTs_def written_def weight_def EncodeTo_def
    sizeVarint.simps [of 0] sizeVarint.simps [of 2] sizeVarint.simps [of 300])

lemma table_roundtrip_witness:
  "\<exists>t. make_table plain_codec plain_opts 12 ex_added = Some t \<and> t_ID t = 12 \<and> t_data t = written ex_added \<and>
    t_Smallest t = KeyWithTs [1, 2] 9 \<and> t_Biggest t = KeyWithTs [1, 5] 2"
proof -
  have "ex_added \<noteq> []" by (simp add: ex_added_def)
  from table_roundtrip [OF plain_codec_ok plain_opts_ok ex_added_fits this, of 12]
  obtain t where t: "make_table plain_codec plain_opts 12 ex_added = Some t" "t_ID t = 12" "t_data t = written ex_added"
    "t_Smallest t = fst (hd (written ex_added))" "t_Biggest t = fst (last (written ex_added))"
    by (elim exE conjE) (rule that, assumption+)
  have "fst (hd (written ex_added)) = KeyWithTs [1, 2] 9" "fst (last (written ex_added)) = KeyWithTs [1, 5] 2"
    by (simp_all add: ex_added_def written_def)
  then show ?thesis using t by auto
qed

text \<open>
  C18: on the iterator of a table, \<open>seek\<close> stands at the first entry that is not below the key,
  and the loop from there reads all the entries from it on; at the end it is not valid.
\<close>

theorem table_seek:
  assumes "codec_ok tc" and "opts_ok opt" and "table_fits tc opt as" and "as \<noteq> []" and "entries_ok (written as)"
  shows "\<exists>t. open_made tc opt i as = Some t \<and> (\<forall>key itr. \<exists>itr'. it_seek tc t key itr = Some itr' \<and>
    read_all tc t (length as) itr' = Some (dropWhile (key_below key) (written as)) \<and>
    (it_Valid itr' \<longleftrightarrow> (\<exists>e \<in> set (written as). key_le key (fst e))))"
proof -
  obtain t cs where t: "open_made tc opt i as = Some t" "reads tc t cs" "cs \<noteq> []" "chunk_entries cs = written as"
    using open_made_ok [OF assms(1-4)] by blast
  have srt: "in_order (chunk_entries cs)" using assms(5) t(4) by (simp add: entries_ok_def in_order_def)
  have "\<exists>itr'. it_seek tc t key itr = Some itr' \<and> read_all tc t (length as) itr' = Some (dropWhile (key_below key) (written as)) \<and>
    (it_Valid itr' \<longleftrightarrow> (\<exists>e \<in> set (written as). key_le key (fst e)))" for key itr
  proof -
    obtain itr' where s: "it_seek tc t key itr = Some itr'" "it_good tc t cs itr'" "it_items cs itr' = map as_read (dropWhile (key_below key) (written as))"
      using seek_split [OF t(2,3) srt] unfolding t(4) by blast
    have "\<forall>e \<in> set (written as). as_read e = e" using assms(3) by (auto simp: table_fits_def written_def intro!: as_read_id)
    then have m: "map as_read (dropWhile (key_below key) (written as)) = dropWhile (key_below key) (written as)"
      by (auto intro!: map_idI dest: set_dropWhileD)
    have "length (dropWhile (key_below key) (written as)) \<le> length as"
      using length_dropWhile_le [of "key_below key" "written as"] by (simp add: written_def)
    then have "ti.drain tc t (length as) itr' = dropWhile (key_below key) (written as)"
      using ti.drain_all [OF s(2), of "length as"] s(3) m by simp
    moreover have "it_Valid itr' \<longleftrightarrow> dropWhile (key_below key) (written as) \<noteq> []"
      using ti.valid_items [OF s(2)] s(3) by simp
    ultimately show ?thesis
      using s(1) read_all_drain [OF s(2)] by (auto simp: key_below_def not_key_less dropWhile_eq_Nil_conv)
  qed
  then show ?thesis using t(1) by blast
qed

lemma ex_added_ok: "entries_ok (written ex_added)"
  by (simp add: ex_added_def written_def entries_ok_def stored_key_def key_less_def cmp_keys_KeyWithTs_less)

lemma table_seek_witness:
  "\<exists>t itr. open_made plain_codec plain_opts 12 ex_added = Some t \<and> it_seek plain_codec t (KeyWithTs [1, 2] 6) NewIterator = Some itr \<and>
    read_all plain_codec t 3 itr = Some (tl (written ex_added))"
proof -
  have ne: "ex_added \<noteq> []" by (simp add: ex_added_def)
  obtain t where t: "open_made plain_codec plain_opts 12 ex_added = Some t" and
    s: "\<forall>key itr. \<exists>itr'. it_seek plain_codec t key itr = Some itr' \<and>
      read_all plain_codec t (length ex_added) itr' = Some (dropWhile (key_below key) (written ex_added)) \<and>
      (it_Valid itr' \<longleftrightarrow> (\<exists>e \<in> set (written ex_added). key_le key (fst e)))"
    using table_seek [OF plain_codec_ok plain_opts_ok ex_added_fits ne ex_added_ok, of 12] by blast
  have "length ex_added = 3" by (simp add: ex_added_def)
  moreover have "dropWhile (key_below (KeyWithTs [1, 2] 6)) (written ex_added) = tl (written ex_added)"
    by (simp add: ex_added_def written_def key_below_def key_less_def cmp_keys_KeyWithTs_less)
  ultimately show ?thesis using t s [rule_format, of "KeyWithTs [1, 2] 6" NewIterator] by auto
qed

text \<open>
  C26: \<open>seekForPrev\<close> stands at the last entry that is not above the key, or is at its end
  when there is none.
\<close>

theorem table_seek_prev:
  assumes "codec_ok tc" and "opts_ok opt" and "table_fits tc opt as" and "as \<noteq> []" and "entries_ok (written as)" and "key \<noteq> []"
  shows "\<exists>t itr'. open_made tc opt i as = Some t \<and> it_seekForPrev tc t key itr = Some itr' \<and>
    (let below = takeWhile (\<lambda>e. key_le (fst e) key) (written as)
     in if below = [] then \<not> it_Valid itr'
        else it_Valid itr' \<and> (it_Key itr', it_Value itr') = (fst (last below), Some (snd (last below))))"
proof -
  obtain t cs where t: "open_made tc opt i as = Some t" "reads tc t cs" "cs \<noteq> []" "chunk_entries cs = written as"
    using open_made_ok [OF assms(1-4)] by blast
  have srt: "in_order (chunk_entries cs)" using assms(5) t(4) by (simp add: entries_ok_def in_order_def)
  let ?b = "takeWhile (\<lambda>e. key_le (fst e) key) (chunk_entries cs)"
  obtain itr' where s: "it_seekForPrev tc t key itr = Some itr'"
    "if length ?b = 0 then it_err itr' = It_EOF else \<exists>b j. it_at cs b j itr' \<and> flat cs b j = length ?b - 1"
    using seekForPrev_split [OF t(2,3) srt assms(6)] by blast
  have "it_Valid itr' \<and> (it_Key itr', it_Value itr') = (fst (last ?b), Some (snd (last ?b)))" if ne: "?b \<noteq> []"
  proof -
    obtain b j where at: "it_at cs b j itr'" and f: "flat cs b j = length ?b - 1" using s(2) ne by auto
    have bj: "b < length cs" "j < length (snd (cs ! b))" using at by (simp_all add: it_at_def)
    have lt: "length ?b - 1 < length ?b" using ne by simp
    have "last ?b = ?b ! (length ?b - 1)" using ne by (rule last_conv_nth)
    also have "\<dots> = chunk_entries cs ! (length ?b - 1)" by (rule takeWhile_nth [OF lt])
    also have "\<dots> = item_entry (snd (cs ! b) ! j)" using flat_nth(2) [OF bj] f by simp
    finally have l: "item_entry (snd (cs ! b) ! j) = last ?b" by simp
    have "last ?b \<in> set (written as)" using last_in_set [OF ne] t(4) set_takeWhileD by metis
    then have "as_read (last ?b) = last ?b" using assms(3) by (auto simp: table_fits_def written_def intro!: as_read_id)
    then have "(it_Key itr', the (it_Value itr')) = last ?b" using at_entry(2) [OF at] l by simp
    then show ?thesis using at_entry(1,3) [OF at] by (cases "last ?b") auto
  qed
  then show ?thesis using t(1,4) s by (intro exI [of _ t] exI [of _ itr']) (auto simp: Let_def it_Valid_def)
qed

lemma table_seek_prev_witness:
  "\<exists>t itr. open_made plain_codec plain_opts 12 ex_added = Some t \<and> it_seekForPrev plain_codec t (KeyWithTs [1, 3] 6) NewIterator = Some itr \<and>
    it_Valid itr \<and> it_Key itr = KeyWithTs [1, 2] 4"
proof -
  have ne: "ex_added \<noteq> []" by (simp add: ex_added_def)
  have k: "KeyWithTs [1, 3] 6 \<noteq> []" by (simp add: KeyWithTs_def)
  have b: "takeWhile (\<lambda>e. key_le (fst e) (KeyWithTs [1, 3] 6)) (written ex_added) = take 2 (written ex_added)"
    by (simp add: ex_added_def written_def key_le_def cmp_KeyWithTs)
  have l: "fst (last (take 2 (written ex_added))) = KeyWithTs [1, 2] 4" "take 2 (written ex_added) \<noteq> []"
    by (simp_all add: ex_added_def written_def)
  show ?thesis
    using table_seek_prev [OF plain_codec_ok plain_opts_ok ex_added_fits ne ex_added_ok k, of 12 NewIterator] l
    unfolding b by (auto simp: Let_def)
qed

text \<open>Several tables, one after the other.\<close>

lemma open_parts:
  assumes c: "codec_ok tc" and o: "opts_ok opt" and f: "\<forall>p \<in> set parts. table_fits tc opt (snd p) \<and> snd p \<noteq> []"
  shows "\<exists>ts css. those (map (\<lambda>p. open_made tc opt (fst p) (snd p)) parts) = Some ts \<and> length ts = length css \<and> length css = length parts \<and>
    (\<forall>i < length css. reads tc (ts ! i) (css ! i) \<and> css ! i \<noteq> [] \<and> ot_biggest (ts ! i) = fst (last (chunk_entries (css ! i)))) \<and>
    tables_entries css = written (concat (map snd parts))"
  using f
proof (induction parts)
  case Nil
  show ?case by (intro exI [of _ "[]"]) (simp add: written_def)
next
  case (Cons p parts)
  have fp: "table_fits tc opt (snd p)" "snd p \<noteq> []" using Cons.prems by simp_all
  obtain t cs where t: "open_made tc opt (fst p) (snd p) = Some t" "reads tc t cs" "cs \<noteq> []" "chunk_entries cs = written (snd p)"
    "ot_biggest t = fst (last (written (snd p)))"
    using open_made_ok [OF c o fp, of "fst p"] by (elim exE conjE) (rule that, assumption+)
  have ps: "\<forall>p \<in> set parts. table_fits tc opt (snd p) \<and> snd p \<noteq> []" using Cons.prems by simp
  obtain ts css where ts: "those (map (\<lambda>p. open_made tc opt (fst p) (snd p)) parts) = Some ts" "length ts = length css" "length css = length parts"
    "\<forall>i < length css. reads tc (ts ! i) (css ! i) \<and> css ! i \<noteq> [] \<and> ot_biggest (ts ! i) = fst (last (chunk_entries (css ! i)))"
    "tables_entries css = written (concat (map snd parts))"
    using Cons.IH [OF ps] by (elim exE conjE) (rule that, assumption+)
  have all: "reads tc ((t # ts) ! i) ((cs # css) ! i) \<and> (cs # css) ! i \<noteq> [] \<and>
      ot_biggest ((t # ts) ! i) = fst (last (chunk_entries ((cs # css) ! i)))" if "i < length (cs # css)" for i
    using that ts(4) t(2-5) by (cases i) simp_all
  show ?case
    using t(1,4) ts(1,2,3,5) all by (intro exI [of _ "t # ts"] exI [of _ "cs # css"]) (simp add: written_def)
qed

text \<open>
  C19: over table files that follow one another, the concatenating iterator goes through all
  their entries in order, and from \<open>Seek\<close> on through those that are not below the key.
\<close>

theorem concat_iterates:
  assumes "codec_ok tc" and "opts_ok opt" and "\<forall>p \<in> set parts. table_fits tc opt (snd p) \<and> snd p \<noteq> []" and "parts \<noteq> []"
    and "entries_ok (written (concat (map snd parts)))"
  shows "\<exists>ts s s2. those (map (\<lambda>p. open_made tc opt (fst p) (snd p)) parts) = Some ts \<and>
    ci_Rewind tc (NewConcatIterator ts False) = Some s \<and>
    ci_read_all tc (length (concat (map snd parts))) s = Some (written (concat (map snd parts))) \<and>
    ci_Seek tc key (NewConcatIterator ts False) = Some s2 \<and>
    ci_read_all tc (length (concat (map snd parts))) s2 = Some (dropWhile (key_below key) (written (concat (map snd parts))))"
proof -
  let ?es = "written (concat (map snd parts))" and ?n = "length (concat (map snd parts))"
  obtain ts css where ts: "those (map (\<lambda>p. open_made tc opt (fst p) (snd p)) parts) = Some ts" "length ts = length css" "length css = length parts"
    "\<forall>i < length css. reads tc (ts ! i) (css ! i) \<and> css ! i \<noteq> [] \<and> ot_biggest (ts ! i) = fst (last (chunk_entries (css ! i)))"
    "tables_entries css = ?es"
    using open_parts [OF assms(1-3)] by (elim exE conjE) (rule that, assumption+)
  let ?s = "NewConcatIterator ts False"
  have r: "concat_reads tc css ?s" using ts by (simp add: concat_reads_def NewConcatIterator_def)
  have big: "\<forall>i < length css. ot_biggest (ci_tables ?s ! i) = fst (last (chunk_entries (css ! i)))" using ts(4) by (simp add: NewConcatIterator_def)
  have srt: "in_order (tables_entries css)" using assms(5) ts(5) by (simp add: entries_ok_def in_order_def)
  have ne: "css \<noteq> []" using assms(4) ts(3) by auto
  obtain s where s: "ci_Rewind tc ?s = Some s" "ci_good tc css s" "ci_items css s = map as_read ?es"
    using concat_rewind [OF r] ne ts(5) by auto
  obtain s2 where s2: "ci_Seek tc key ?s = Some s2" "ci_good tc css s2" "ci_items css s2 = map as_read (dropWhile (key_below key) ?es)"
    using concat_seek [OF r srt big, of key] ts(5) by auto
  have id: "\<forall>e \<in> set ?es. as_read e = e" using assms(3) by (auto simp: table_fits_def written_def intro!: as_read_id)
  have m: "map as_read ?es = ?es" "map as_read (dropWhile (key_below key) ?es) = dropWhile (key_below key) ?es"
    using id by (auto intro!: map_idI dest: set_dropWhileD)
  have lw: "length (written as) = length as" for as by (simp add: written_def)
  have l: "length (dropWhile (key_below key) ?es) \<le> ?n" using length_dropWhile_le [of "key_below key" ?es] lw by simp
  have "cti.drain tc ?n s = ?es" "cti.drain tc ?n s2 = dropWhile (key_below key) ?es"
    using cti.drain_all [OF s(2), of ?n] cti.drain_all [OF s2(2), of ?n] s(3) s2(3) m l lw by simp_all
  then show ?thesis using ts(1) s(1) s2(1) ci_read_all_drain [OF s(2)] ci_read_all_drain [OF s2(2)] by auto
qed

lemma concat_iterates_witness:
  "\<exists>ts s. those [open_made plain_codec plain_opts 12 (take 2 ex_added), open_made plain_codec plain_opts 13 (drop 2 ex_added)] = Some ts \<and>
    ci_Rewind plain_codec (NewConcatIterator ts False) = Some s \<and> ci_read_all plain_codec 3 s = Some (written ex_added)"
proof -
  let ?parts = "[(12, take 2 ex_added), (13, drop 2 ex_added)]"
  have "table_fits plain_codec plain_opts (take 2 ex_added)" "table_fits plain_codec plain_opts (drop 2 ex_added)"
    by (rule plain_fits; simp add: ex_added_def key_fits_def KeyWithTs_def written_def weight_def EncodeTo_def
      sizeVarint.simps [of 0] sizeVarint.simps [of 2] sizeVarint.simps [of 300])+
  moreover have "take 2 ex_added \<noteq> []" "drop 2 ex_added \<noteq> []" by (simp_all add: ex_added_def)
  ultimately have f: "\<forall>p \<in> set ?parts. table_fits plain_codec plain_opts (snd p) \<and> snd p \<noteq> []" by simp
  have c: "concat (map snd ?parts) = ex_added" by simp
  have n: "length ex_added = 3" by (simp add: ex_added_def)
  have e: "entries_ok (written (concat (map snd ?parts)))" unfolding c by (rule ex_added_ok)
  obtain ts s where "those (map (\<lambda>p. open_made plain_codec plain_opts (fst p) (snd p)) ?parts) = Some ts"
    "ci_Rewind plain_codec (NewConcatIterator ts False) = Some s" "ci_read_all plain_codec 3 s = Some (written ex_added)"
    using concat_iterates [OF plain_codec_ok plain_opts_ok f _ e, of "[]", unfolded c n] by auto
  then show ?thesis by auto
qed

text \<open>
  C36: verifying the checksums of a table panics when a block cannot be read: the error path
  asks the block that is nil for its offset.
\<close>

theorem verify_checksum_panics:
  assumes "\<forall>j < i. \<exists>b. read_block tc t (int j) = Some (Inr b) \<and> verifyChecksum (tc_unsum tc) (bk_data b) (bk_checksum b) = None"
    and "read_block tc t (int i) = Some (Inl e)" and "i < n"
  shows "verify_blocks tc t [0..<n] = None"
proof -
  have step: "verify_blocks tc t (map nat [int m..int n - 1]) = None" if "m \<le> i" for m
    using that
  proof (induction "i - m" arbitrary: m)
    case 0
    then have "m = i" by simp
    then have "map nat [int m..int n - 1] = i # map nat [int i + 1..int n - 1]" using assms(3) by (simp add: upto_rec1)
    then show ?case using assms(2) by simp
  next
    case (Suc d)
    then have m: "m < i" "m < n" using assms(3) by linarith+
    then obtain b where "read_block tc t (int m) = Some (Inr b)" "verifyChecksum (tc_unsum tc) (bk_data b) (bk_checksum b) = None"
      using assms(1) by blast
    moreover have "map nat [int m..int n - 1] = m # map nat [int (Suc m)..int n - 1]" using m(2) by (simp add: upto_rec1 add.commute)
    moreover have "verify_blocks tc t (map nat [int (Suc m)..int n - 1]) = None" using Suc.hyps(1) [of "Suc m"] Suc.hyps(2) m(1) by simp
    ultimately show ?case by simp
  qed
  have "map nat [int 0..int n - 1] = [0..<n]" by (rule nth_equalityI) simp_all
  then show ?thesis using step [of 0] by simp
qed

definition ex_torn :: open_table where
  "ex_torn = \<lparr>ot_data = [1, 2, 3], ot_opt = plain_opts, ot_index =
     \<lparr>ti_offsets = [\<lparr>bo_key = [1], bo_offset = 0, bo_len = 9\<rparr>], ti_bloom = [], ti_maxVersion = 1, ti_uncompressedSize = 9, ti_keyCount = 1,
       ti_onDiskSize = 9, ti_staleDataSize = 0\<rparr>, ot_smallest = [1], ot_biggest = [1], ot_id = 4\<rparr>"

lemma verify_checksum_panics_witness: "verify_blocks plain_codec ex_torn [0..<1] = None"
proof -
  have "read_block plain_codec ex_torn (int 0) = Some (Inl (ReadFailed 0 9))"
    by (simp add: read_block_def ex_torn_def go_slice_def)
  then show ?thesis using verify_checksum_panics [of 0 plain_codec ex_torn "ReadFailed 0 9" 1] by simp
qed

text \<open>
  C37: the builder accepts a first key of up to 65535 bytes, but from 65532 bytes on the block
  iterator panics on it, because it adds the size of the header in 16 bits.
\<close>

theorem long_key_panics:
  assumes "65531 < length k" and "length k \<le> 65535" and "length (EncodeTo v) < 2 ^ 31" and "\<forall>s. length (marshal s) < 2 ^ 30"
  shows "\<exists>bb b. block_add new_bblock k v = Some bb \<and> parse_block (bb_data (block_finish marshal bb)) = Some (Inr b) \<and>
    bi_seekToFirst (setBlock b) = None"
proof -
  let ?xs = "[(0, k, v)] :: item list"
  have u: "unat (EncodedSize v) = length (EncodeTo v)" using assms(3) by (simp add: EncodedSize_EncodeTo unat_of_nat)
  have e: "Encode v (replicate (unat (EncodedSize v)) 0) = Some (EncodeTo v, EncodedSize v)"
    using Encode_EncodeTo [of v "replicate (unat (EncodedSize v)) 0"] u by simp
  have ne: "k \<noteq> []" using assms(1) by auto
  have add: "block_add new_bblock k v = Some (bblock_of k ?xs)"
    using assms(2) by (simp add: block_add_def new_bblock_def e bblock_of_def item_bytes_def offsets_of_def item_offset_def)
  have len: "length (items_bytes ?xs) < 2 ^ 32" using assms(2,3) by (simp add: item_bytes_def)
  obtain b where b: "parse_block (bb_data (block_finish marshal (bblock_of k ?xs))) = Some (Inr b)" "bi_inv k ?xs (setBlock b)"
    "bk_entryOffsets b = offsets_of ?xs"
    using parse_block_finish [OF len _ assms(4), of k] by auto
  have d: "bi_data (setBlock b) = item_bytes (0, k, v)" using b(2) by (simp add: bi_inv_def)
  have o1: "bi_entryOffsets (setBlock b) = offsets_of ?xs" "bi_baseKey (setBlock b) = []" using b(3) by (simp_all add: setBlock_def)
  define n where "n = length k - 65532"
  have n: "length k = n + 65532" "n < 4" using assms(1,2) by (simp_all add: n_def)
  have h: "4 + word_of_nat (length k) = (word_of_nat n :: u16)"
    unfolding n(1) by (simp add: word_of_nat_eq_iff)
  have "unat (4 + word_of_nat (length k) :: u16) = n" unfolding h using n(2) by (simp add: unat_of_nat)
  then have "read_baseKey (setBlock b) = None"
    using n(2) by (simp add: read_baseKey_def o1 d item_bytes_def go_slice_def del: of_nat_unat)
  then have "bi_seekToFirst (setBlock b) = None"
    using o1(2) by (simp add: bi_seekToFirst_def setIdx_def o1 read_baseKey_def Let_def)
  then show ?thesis using add b(1) by blast
qed

lemma long_key_panics_witness:
  "\<exists>bb b. block_add new_bblock (replicate 65533 7) zero_vs = Some bb \<and> parse_block (bb_data (block_finish U64ToBytes bb)) = Some (Inr b) \<and>
    bi_seekToFirst (setBlock b) = None"
  by (rule long_key_panics) (simp_all add: EncodeTo_def zero_vs_def slice_bytes_def sizeVarint.simps [of 0] U64ToBytes_def)

section \<open>Compactions over table files\<close>

text \<open>
  C1: a compaction from one level into another (not from level 0 into itself nor within a level, and
  with no prefixes to drop) whose tables are made by the builder and opened from their files ends
  without an error. The level structure stays well formed, the manifest lists exactly its tables
  again and the claims on key ranges are untouched. A read at or above the discard timestamp of a
  key does not change if the key is aged: the memtables and the levels that the overlap check does
  not look at hold only newer versions of it than the merged ones. Without this condition reads can
  change, as an expired entry below the base level shows.
\<close>

theorem compaction_of_files:
  assumes "ready (\<lambda>as. codec_ok tc \<and> opts_ok topt \<and> table_fits tc topt as) M lc cd l" and "\<not> reached []"
    and "tracks (mf_manifest mf) (tables_at lc)" and "\<forall>t \<in> set (cd_top cd). \<not> t_IsInmemory t"
    and "keys_ok keys" and "\<not> mf_inMemory mf"
  shows "\<exists>out. runCompactDef marshal keys (made_table tc topt) reached opt discardTs now l lc mf cd = Some out \<and> co_err out = None \<and>
    tree_ok (co_lc out) \<and> tracks (mf_manifest (co_mf out)) (tables_at (co_lc out)) \<and> lc_cstatus (co_lc out) = lc_cstatus lc \<and>
    (\<forall>k ts. discardTs \<le> ts \<longrightarrow> key_aged M lc cd k \<longrightarrow> visible now (newest (M @ all_entries (co_lc out)) k ts) = visible now (newest (M @ all_entries lc) k ts))"
  using assms by (rule tm.compact_succeeds)

definition ex_top :: table where
  "ex_top = small_table 9 [(KeyWithTs [2] 5, small_vs 4)]"

definition ex_bot :: table where
  "ex_bot = small_table 3 [(KeyWithTs [2] 3, small_vs 1), (KeyWithTs [4] 2, small_vs 6)]"

definition ex_lc :: levelsController where
  "ex_lc = \<lparr>lc_levels = [newLevelHandler 0, initTables (newLevelHandler 1) [ex_top], initTables (newLevelHandler 2) [ex_bot]],
     lc_hotTier = None, lc_hotTierOrd = None, lc_nextFileID = 10, lc_cstatus = ex_status 3, lc_refs = two_refs\<rparr>"

definition ex_compaction :: compactDef where
  "ex_compaction = (new_def 1 ex_prio 1 2)\<lparr>cd_thisRange := getKeyRange [ex_top], cd_top := [ex_top], cd_bot := [ex_bot],
     cd_nextRange := getKeyRange [ex_bot]\<rparr>"

definition ex_mf :: manifestFile where
  "ex_mf = \<lparr>mf_file = [], mf_externalMagic = 0, mf_deletionsRewriteThreshold = 10000,
     mf_manifest = \<lparr>m_Levels = [{}, {9}, {3}], m_Tables = [9 \<mapsto> in_manifest 1 ex_top, 3 \<mapsto> in_manifest 2 ex_bot],
       m_Creations = 2, m_Deletions = 0\<rparr>, mf_inMemory = False\<rparr>"

lemma ex_built: "built_table ex_top" "built_table ex_bot"
  unfolding ex_top_def ex_bot_def
  by (rule small_table_built; simp add: stored_key_def key_less_def cmp_keys_KeyWithTs_less small_vs_def)+

lemma ex_lc_at: "handler_at ex_lc l = (if l = 0 then Some (newLevelHandler 0) else if l = 1 then Some (initTables (newLevelHandler 1) [ex_top])
    else if l = 2 then Some (initTables (newLevelHandler 2) [ex_bot]) else None)"
  by (auto simp: handler_at_def ex_lc_def less_Suc_eq numeral_3_eq_3 numeral_2_eq_2 nth_Cons split: nat.splits)

lemma ex_lc_tables: "tables_at ex_lc l = (if l = 1 then {ex_top} else if l = 2 then {ex_bot} else {})"
  by (simp add: tables_at_def ex_lc_at initTables_1)

lemma ex_ids: "t_ID ex_top = 9" "t_ID ex_bot = 3" "t_data ex_top = [(KeyWithTs [2] 5, small_vs 4)]"
  "t_data ex_bot = [(KeyWithTs [2] 3, small_vs 1), (KeyWithTs [4] 2, small_vs 6)]" "\<not> t_IsInmemory ex_top"
  by (simp_all add: ex_top_def ex_bot_def small_table_def)

lemma ex_lc_wf: "lc_wf ex_lc"
proof -
  have w: "level_wf (initTables (newLevelHandler n) [t])" "lh_tables (initTables (newLevelHandler n) [t]) = [t]" if "built_table t" for n t
    using initTables_wf [of "[t]" "newLevelHandler n"] that by (simp_all add: initTables_1)
  show ?thesis
    using w ex_built unfolding lc_wf_def hot_newer_def handlers_def hot_entries_def by (simp add: ex_lc_def two_refs_def initTables_1)
qed

lemma ex_tree_ok: "tree_ok ex_lc"
proof -
  have lv: "lh_level (newLevelHandler n) = n" for n by (simp add: newLevelHandler_def)
  let ?home = "\<lambda>i. if i = 9 then (1, getKeyRange [ex_top]) else (2, getKeyRange [ex_bot])"
  have "at_home ?home ex_lc"
    using ex_built lv by (simp add: at_home_def ex_lc_at initTables_1 ex_ids built_table_def)
  moreover have "length (lc_levels ex_lc) \<le> 98" "lc_nextFileID ex_lc = 10" by (simp_all add: ex_lc_def)
  ultimately show ?thesis using ex_lc_wf by (auto simp: tree_ok_def ex_lc_tables ex_ids)
qed

lemma ex_down: "down_ok ex_lc ex_compaction"
proof -
  have "tables_between (initTables (newLevelHandler 2) [ex_bot]) (getKeyRange [ex_top]) = Some [ex_bot]"
    by (simp add: tables_between_def overlappingTables_def initTables_1 getKeyRange_def ex_top_def ex_bot_def small_table_def
        cmp_KeyWithTs cmp_keys_KeyWithTs_less)
  then show ?thesis by (simp add: down_ok_def ex_compaction_def new_def_def ex_lc_at initTables_1)
qed

lemma KeyWithTs_eq: "k \<noteq> [] \<Longrightarrow> l \<noteq> [] \<Longrightarrow> KeyWithTs k s = KeyWithTs l t \<longleftrightarrow> k = l \<and> s = t"
  by (metis ParseTs_KeyWithTs parse_key_KeyWithTs)

lemma weights_bound: "(\<forall>e \<in> set es. weight e \<le> n) \<Longrightarrow> weights es \<le> n * length es"
  by (induction es) auto

lemma ex_none: "tables_at ex_lc k - set (allTables ex_compaction) = {}"
  by (simp add: ex_lc_tables allTables_def ex_compaction_def new_def_def)

lemma ex_ready: "ready (\<lambda>as. codec_ok plain_codec \<and> opts_ok plain_opts \<and> table_fits plain_codec plain_opts as) [] ex_lc ex_compaction 1"
proof -
  have mi: "merge_input ex_compaction = [(KeyWithTs [2] 5, small_vs 4), (KeyWithTs [2] 3, small_vs 1), (KeyWithTs [4] 2, small_vs 6)]"
    by (simp add: merge_input_def ex_compaction_def new_def_def ex_ids)
  have job: "job_ready ex_compaction 1"
    by (simp add: job_ready_def ex_compaction_def new_def_def ex_prio_def Fill.ex_targets_def)
  have paired: "levels_paired ex_compaction"
    by (simp add: levels_paired_def ex_compaction_def new_def_def ex_prio_def Fill.ex_targets_def)
  note none = ex_none
  have ages: "hot_aged ex_lc ex_compaction" unfolding hot_aged_def none by (simp add: entries_of_def)
  have all: "all_entries ex_lc = merge_input ex_compaction"
    by (simp add: all_entries_def ex_lc_def hot_entries_def level_entries_def initTables_1 mi ex_ids)
  have ne: "KeyWithTs [2] 5 \<noteq> KeyWithTs [2] 3" "KeyWithTs [2] 5 \<noteq> KeyWithTs [4] 2" "KeyWithTs [2] 3 \<noteq> KeyWithTs [4] 2"
    by (simp_all add: KeyWithTs_eq)
  have cons: "consistent ([] @ all_entries ex_lc)" unfolding all mi using ne by (auto simp: consistent_def)
  have ptr: "pointers_ok (merge_input ex_compaction)" by (simp add: mi pointers_ok_def small_vs_def)
  have fits: "table_fits plain_codec plain_opts b" if s: "set (written b) \<subseteq> set (merge_input ex_compaction)" and d: "distinct (map ad_key b)" for b
  proof (rule plain_fits)
    have e: "(ad_key a, ad_vs a) \<in> set (merge_input ex_compaction)" if "a \<in> set b" for a
      using s that by (auto simp: written_def)
    show "\<forall>a \<in> set b. key_fits a \<and> vs_Value (ad_vs a) \<noteq> None \<and> vs_Version (ad_vs a) = 0"
    proof
      fix a assume "a \<in> set b"
      then have "(ad_key a, ad_vs a) \<in> set (merge_input ex_compaction)" by (rule e)
      then consider "ad_key a = KeyWithTs [2] 5" "ad_vs a = small_vs 4" | "ad_key a = KeyWithTs [2] 3" "ad_vs a = small_vs 1"
        | "ad_key a = KeyWithTs [4] 2" "ad_vs a = small_vs 6" unfolding mi by auto
      then show "key_fits a \<and> vs_Value (ad_vs a) \<noteq> None \<and> vs_Version (ad_vs a) = 0"
        by cases (simp_all add: key_fits_def small_vs_def flip: length_greater_0_conv)
    qed
    have "set (map ad_key b) \<subseteq> fst ` set (merge_input ex_compaction)" using e by force
    then have "card (set (map ad_key b)) \<le> card (fst ` set (merge_input ex_compaction))" by (intro card_mono) simp_all
    also have "\<dots> \<le> 3" unfolding mi by (rule order_trans [OF card_image_le]) (simp_all add: card_insert_if)
    finally have "length (map ad_key b) \<le> 3" unfolding distinct_card [OF d] .
    then have l: "length (written b) \<le> 3" by (simp add: written_def)
    have "\<forall>e \<in> set (merge_input ex_compaction). weight e \<le> 100"
      by (simp add: mi weight_def KeyWithTs_def small_vs_def EncodeTo_def sizeVarint.simps [of 0])
    then have "weights (written b) \<le> 100 * length (written b)" using s by (intro weights_bound) blast
    then show "weights (written b) < 2 ^ 28" using l by simp
  qed
  have id: "unat (lc_nextFileID ex_lc) = 10" by (simp add: ex_lc_def)
  show ?thesis
    using ex_tree_ok ex_down job paired ages cons ptr fits plain_codec_ok plain_opts_ok by (simp add: ready_def id mi)
qed

lemma ex_tracks: "tracks (mf_manifest ex_mf) (tables_at ex_lc)"
proof -
  let ?m = "mf_manifest ex_mf"
  have t: "m_Tables ?m i = (if i = 3 then Some (in_manifest 2 ex_bot) else if i = 9 then Some (in_manifest 1 ex_top) else None)" for i
    by (simp add: ex_mf_def)
  have lv: "unat (tm_Level (in_manifest 1 ex_top)) = 1" "unat (tm_Level (in_manifest 2 ex_bot)) = 2"
    "unat (tm_Level (in_manifest (Suc 0) ex_top)) = 1" by (simp_all add: in_manifest_def)
  have dom: "dom (m_Tables ?m) = {3, 9}" using t by (auto simp: dom_def split: if_splits)
  have l: "m_Levels ?m = [{}, {9}, {3}]" by (simp add: ex_mf_def)
  have three: "k < 3 \<longleftrightarrow> k = 0 \<or> k = 1 \<or> k = 2" for k :: nat by auto
  have levels: "m_Levels ?m ! k = {i. \<exists>tm. m_Tables ?m i = Some tm \<and> unat (tm_Level tm) = k \<and> \<not> hot_level k}" if "k < 3" for k
    using that unfolding three l by (elim disjE) (auto simp: t lv hot_level_def split: if_splits)
  have "manifest_inv ?m"
    using levels by (auto simp: manifest_inv_def dom l t lv split: if_splits) (simp_all add: ex_mf_def)
  moreover have "(\<exists>l. \<exists>x \<in> tables_at ex_lc l. P l x) \<longleftrightarrow> P 1 ex_top \<or> P 2 ex_bot" for P
    unfolding ex_lc_tables by (auto split: if_splits intro: exI [of _ 1] exI [of _ 2])
  ultimately show ?thesis using t by (auto simp: tracks_def ex_ids)
qed

lemma compaction_of_files_witness:
  "\<exists>out. runCompactDef (\<lambda>_. []) (\<lambda>t. sorted_list_of_set (dom t)) (made_table plain_codec plain_opts) (\<lambda>b. b \<noteq> []) default_opts 10 0 1 ex_lc ex_mf
      ex_compaction = Some out \<and> co_err out = None \<and>
    visible 0 (newest (all_entries (co_lc out)) [2] 12) = visible 0 (newest (all_entries ex_lc) [2] 12)"
proof -
  have k: "keys_ok (\<lambda>t. sorted_list_of_set (dom t))" by (simp add: keys_ok_def)
  have m: "\<forall>t \<in> set (cd_top ex_compaction). \<not> t_IsInmemory t" "\<not> mf_inMemory ex_mf"
    by (simp_all add: ex_compaction_def new_def_def ex_ids ex_mf_def)
  have nr: "\<not> (\<lambda>b. b \<noteq> []) ([] :: added list)" by simp
  obtain out where out: "runCompactDef (\<lambda>_. []) (\<lambda>t. sorted_list_of_set (dom t)) (made_table plain_codec plain_opts) (\<lambda>b. b \<noteq> []) default_opts 10 0 1
      ex_lc ex_mf ex_compaction = Some out" "co_err out = None" and
    r: "\<forall>k ts. 10 \<le> ts \<longrightarrow> key_aged [] ex_lc ex_compaction k \<longrightarrow> visible 0 (newest ([] @ all_entries (co_lc out)) k ts) = visible 0 (newest ([] @ all_entries ex_lc) k ts)"
    using compaction_of_files [where marshal = "\<lambda>_. []" and opt = default_opts and discardTs = 10 and now = 0 and reached = "\<lambda>b. b \<noteq> []", OF ex_ready nr ex_tracks m(1) k m(2)]
    by (elim exE conjE) (rule that, assumption+)
  have "key_aged [] ex_lc ex_compaction [2]" unfolding key_aged_def ex_none by (simp add: entries_of_def)
  then show ?thesis using out r [rule_format, of 12 "[2]"] by auto
qed

end
