(* ===== verification/TxnSafety.thy ===== *)
theory TxnSafety
  imports Txn
begin

text \<open>
  Transactions and the oracle in any interleaving, with the two watermark goroutines
  that process their marks later: snapshots are complete, and no committed transaction
  has read what another one wrote between its read and its commit timestamp.
\<close>

section \<open>The step relation\<close>

text \<open>The log of commits is a ghost: the program keeps only \<open>committedTxns\<close>.\<close>

record commit =
  cm_ts :: nat
  cm_readTs :: nat
  cm_reads :: "u64 list"
  cm_keys :: "u64 set"

record ssi =
  ss_orc :: orc
  ss_txns :: "nat \<rightharpoonup> Txn"
  ss_started :: "nat set"
  ss_log :: "commit list"
  ss_pending :: "nat set"

text \<open>
  An opened store: \<open>Open\<close> sets \<open>nextTxnTs\<close> to the greatest version \<open>d\<close> it finds, marks
  it done on both watermarks and increments it.
\<close>

definition opened :: "txn_opts \<Rightarrow> nat \<Rightarrow> ssi" where
  "opened opt d = \<lparr>ss_orc = incrementNextTs ((newOracle opt)\<lparr>o_nextTxnTs := d,
       o_txnMark := the (process (new_watermark 0) [Done d]),
       o_readMark := the (process (new_watermark 0) [Done d])\<rparr>),
     ss_txns = Map.empty, ss_started = {}, ss_log = [], ss_pending = {}\<rparr>"

definition commit_record :: "Txn \<Rightarrow> nat \<Rightarrow> commit" where
  "commit_record t ts = \<lparr>cm_ts = ts, cm_readTs = tx_readTs t, cm_reads = tx_reads t,
     cm_keys = tx_conflictKeys t\<rparr>"

inductive ssi_step :: "txn_opts \<Rightarrow> ssi \<Rightarrow> ssi \<Rightarrow> bool" for opt where
  begin_txn: "ss_txns s i = None \<Longrightarrow> readTs (ss_orc s) = (o', r) \<Longrightarrow>
    ssi_step opt s (s\<lparr>ss_orc := o', ss_txns := (ss_txns s)(i \<mapsto> newTransaction opt upd r)\<rparr>)"
| wait_txn: "WaitForMark (o_txnMark (ss_orc s)) r ch = Some m \<Longrightarrow>
    ssi_step opt s (s\<lparr>ss_orc := (ss_orc s)\<lparr>o_txnQueue := o_txnQueue (ss_orc s) @ [m]\<rparr>\<rparr>)"
| start_txn: "ss_txns s i = Some t \<Longrightarrow> readTs_ready (ss_orc s) (tx_readTs t) \<Longrightarrow>
    ssi_step opt s (s\<lparr>ss_started := insert i (ss_started s)\<rparr>)"
| get_txn: "i \<in> ss_started s \<Longrightarrow> ss_txns s i = Some t \<Longrightarrow>
    txn_Get opt now db_get t key = (res, t') \<Longrightarrow>
    ssi_step opt s (s\<lparr>ss_txns := (ss_txns s)(i \<mapsto> t')\<rparr>)"
| iter_txn: "i \<in> ss_started s \<Longrightarrow> ss_txns s i = Some t \<Longrightarrow>
    ssi_step opt s (s\<lparr>ss_txns := (ss_txns s)(i \<mapsto> addReadKey opt t key)\<rparr>)"
| write_txn: "i \<in> ss_started s \<Longrightarrow> ss_txns s i = Some t \<Longrightarrow> modify opt t e = (err, t') \<Longrightarrow>
    ssi_step opt s (s\<lparr>ss_txns := (ss_txns s)(i \<mapsto> t')\<rparr>)"
| commit_txn: "i \<in> ss_started s \<Longrightarrow> ss_txns s i = Some t \<Longrightarrow>
    Commit opt sent (ss_orc s) t = Some (o', t', Inr (Some (ts, entries))) \<Longrightarrow>
    ssi_step opt s (s\<lparr>ss_orc := o', ss_txns := (ss_txns s)(i \<mapsto> t'),
      ss_log := ss_log s @ [commit_record t ts], ss_pending := insert ts (ss_pending s)\<rparr>)"
| fail_commit: "i \<in> ss_started s \<Longrightarrow> ss_txns s i = Some t \<Longrightarrow>
    Commit opt sent (ss_orc s) t = Some (o', t', Inl err) \<Longrightarrow>
    ssi_step opt s (s\<lparr>ss_orc := o', ss_txns := (ss_txns s)(i \<mapsto> t')\<rparr>)"
| empty_commit: "i \<in> ss_started s \<Longrightarrow> ss_txns s i = Some t \<Longrightarrow>
    Commit opt sent (ss_orc s) t = Some (o', t', Inr None) \<Longrightarrow>
    ssi_step opt s (s\<lparr>ss_orc := o', ss_txns := (ss_txns s)(i \<mapsto> t')\<rparr>)"
| commit_done: "ts \<in> ss_pending s \<Longrightarrow>
    ssi_step opt s (s\<lparr>ss_orc := doneCommit (ss_orc s) ts, ss_pending := ss_pending s - {ts}\<rparr>)"
| discard_txn: "ss_txns s i = Some t \<Longrightarrow> Discard (ss_orc s) t = Some (o', t') \<Longrightarrow>
    ssi_step opt s (s\<lparr>ss_orc := o', ss_txns := (ss_txns s)(i \<mapsto> t')\<rparr>)"
| read_mark: "o_readQueue (ss_orc s) = m # q \<Longrightarrow> process_mark (o_readMark (ss_orc s)) m = Some w \<Longrightarrow>
    ssi_step opt s (s\<lparr>ss_orc := (ss_orc s)\<lparr>o_readMark := w, o_readQueue := q\<rparr>\<rparr>)"
| txn_mark: "o_txnQueue (ss_orc s) = m # q \<Longrightarrow> process_mark (o_txnMark (ss_orc s)) m = Some w \<Longrightarrow>
    ssi_step opt s (s\<lparr>ss_orc := (ss_orc s)\<lparr>o_txnMark := w, o_txnQueue := q\<rparr>\<rparr>)"

inductive ssi_reach :: "txn_opts \<Rightarrow> nat \<Rightarrow> ssi \<Rightarrow> bool" for opt d where
  ssi_open: "ssi_reach opt d (opened opt d)"
| ssi_next: "ssi_reach opt d s \<Longrightarrow> ssi_step opt s s' \<Longrightarrow> ssi_reach opt d s'"

section \<open>Histories\<close>

lemma history_append: "history (a @ b) = history a @ history b"
  by (simp add: history_def)

lemma history_snoc [simp]: "history (ms @ [m]) = history ms @ events_of m"
  by (simp add: history_def)

lemma events_of_simps [simp]: "events_of (Begin r) = [(r, False)]" "events_of (Done r) = [(r, True)]"
  by (simp_all add: events_of_def Begin_def Done_def)

lemma open_count_append: "open_count (a @ b) i = open_count a i + open_count b i"
  by (simp add: open_count_def)

lemma open_count_none: "i \<notin> fst ` set h \<Longrightarrow> open_count h i = 0"
proof -
  assume "i \<notin> fst ` set h"
  then have "filter (\<lambda>e. e = (i, x)) h = []" for x by (force simp: filter_empty_conv)
  then show ?thesis by (simp add: open_count_def)
qed

lemma open_count_pos: "0 < open_count h i \<Longrightarrow> (i, False) \<in> set h"
proof (rule ccontr)
  assume "0 < open_count h i" "(i, False) \<notin> set h"
  then have "filter (\<lambda>e. e = (i, False)) h = []" by (auto simp: filter_empty_conv)
  with \<open>0 < open_count h i\<close> show False by (simp add: open_count_def)
qed

lemma disciplined_iff: "disciplined h \<longleftrightarrow> (\<forall>n i. 0 \<le> open_count (take n h) i)"
proof
  assume d: "disciplined h"
  show "\<forall>n i. 0 \<le> open_count (take n h) i"
  proof (intro allI)
    fix n i
    let ?n = "min n (length h)"
    have t: "take n h = take ?n h" by (simp add: min_def)
    show "0 \<le> open_count (take n h) i"
    proof (cases "i \<in> fst ` set h")
      case True
      have "?n \<in> set [0 ..< Suc (length h)]" unfolding set_upt by simp
      with d True show ?thesis unfolding disciplined_def t by auto
    next
      case False
      then have "i \<notin> fst ` set (take n h)" by (auto dest: in_set_takeD)
      then show ?thesis by (simp add: open_count_none)
    qed
  qed
qed (simp add: disciplined_def)

lemma disciplined_snocI:
  assumes "disciplined h" and "0 \<le> open_count (h @ [e]) (fst e)"
  shows "disciplined (h @ [e])"
  unfolding disciplined_iff
proof (intro allI)
  fix n i
  have h: "0 \<le> open_count (take m h) i" for m using assms(1) unfolding disciplined_iff by blast
  show "0 \<le> open_count (take n (h @ [e])) i"
  proof (cases "n \<le> length h")
    case True
    with h show ?thesis by simp
  next
    case False
    then have t: "take n (h @ [e]) = h @ [e]" by simp
    show ?thesis
    proof (cases "i = fst e")
      case True
      with assms(2) t show ?thesis by simp
    next
      case False
      with h [of "length h"] t show ?thesis by (cases e) (simp add: open_count_snoc)
    qed
  qed
qed

lemma disciplined_appendD: "disciplined (a @ b) \<Longrightarrow> disciplined a"
  unfolding disciplined_iff by (metis append_take_drop_id min.cobounded1 take_append take_take min_def
      append_Nil2 diff_is_0_eq' nat_le_linear take0 take_all)

lemma disciplined_nonneg: "disciplined h \<Longrightarrow> 0 \<le> open_count h i"
  unfolding disciplined_iff by (metis order_refl take_all)

section \<open>What committing does to the oracle\<close>

definition committed :: "orc \<Rightarrow> Txn \<Rightarrow> nat \<Rightarrow> orc \<Rightarrow> bool" where
  "committed o1 t ts o2 \<longleftrightarrow> ts = o_nextTxnTs o1 \<and> \<not> hasConflict o1 t \<and> \<not> tx_doneRead t \<and>
     o_isManaged o2 = o_isManaged o1 \<and> o_detectConflicts o2 = o_detectConflicts o1 \<and>
     o_nextTxnTs o2 = ts + 1 \<and> o_txnMark o2 = o_txnMark o1 \<and> o_txnQueue o2 = o_txnQueue o1 @ [Begin ts] \<and>
     o_readMark o2 = o_readMark o1 \<and> o_readQueue o2 = o_readQueue o1 @ [Done (tx_readTs t)] \<and>
     o_lastCleanupTs o2 = wm_doneUntil (o_readMark o1) \<and>
     (\<forall>c \<in> set (o_committedTxns o1). wm_doneUntil (o_readMark o1) < ct_ts c \<longrightarrow> c \<in> set (o_committedTxns o2)) \<and>
     \<lparr>ct_ts = ts, ct_conflictKeys = tx_conflictKeys t\<rparr> \<in> set (o_committedTxns o2)"

definition unmanaged :: "orc \<Rightarrow> bool" where
  "unmanaged o1 \<longleftrightarrow> \<not> o_isManaged o1 \<and> o_detectConflicts o1"

definition finished :: "Txn \<Rightarrow> Txn" where
  "finished t = t\<lparr>tx_doneRead := True, tx_discarded := True\<rparr>"

lemma newCommitTs_unmanaged:
  assumes "unmanaged o1" "\<not> tx_doneRead t" "newCommitTs o1 t = Some (o2, t2, ts, c)"
  shows "if c then o2 = o1 \<and> t2 = t else committed o1 t ts o2 \<and> t2 = t\<lparr>tx_doneRead := True\<rparr>"
  using assms
  by (auto simp: newCommitTs_def unmanaged_def committed_def doneRead_def cleanupCommittedTransactions_def
      Let_def bind_eq_Some_conv split: if_splits)

lemma Discard_active:
  assumes "unmanaged o1" "tx_discarded t = tx_doneRead t" "Discard o1 t = Some (o2, t2)"
  shows "(tx_doneRead t \<and> o2 = o1 \<and> t2 = t) \<or>
    (\<not> tx_doneRead t \<and> o2 = o1\<lparr>o_readQueue := o_readQueue o1 @ [Done (tx_readTs t)]\<rparr> \<and> t2 = finished t)"
  using assms by (auto simp: Discard_def unmanaged_def doneRead_def finished_def Let_def split: if_splits)

lemma Discard_done:
  assumes "tx_doneRead t" "Discard o1 t = Some (o2, t2)"
  shows "o2 = o1 \<and> t2 = t\<lparr>tx_discarded := True\<rparr>"
  using assms by (auto simp: Discard_def doneRead_def Let_def split: if_splits)

lemma Commit_cases:
  assumes "unmanaged o1" "tx_discarded t = tx_doneRead t" "Commit opt sent o1 t = Some (o2, t2, res)"
  shows "(o2 = o1 \<and> t2 = t \<and> (\<exists>e. res = Inl e)) \<or>
    (Discard o1 t = Some (o2, t2) \<and> (res = Inl ErrConflict \<or> res = Inr None)) \<or>
    (\<exists>o3 ts. committed o1 t ts o3 \<and> t2 = finished t \<and>
      (o2 = o3 \<and> (\<exists>es. res = Inr (Some (ts, es))) \<or> o2 = doneCommit o3 ts \<and> res = Inl ErrStore))"
proof (cases "tx_pendingWrites t = []")
  case True
  with assms(3) show ?thesis by (auto simp: Commit_def)
next
  case False
  show ?thesis
  proof (cases "commitPrecheck opt t")
    case (Some e)
    with assms(3) False show ?thesis by (auto simp: Commit_def)
  next
    case None
    then have nd: "\<not> tx_doneRead t" using assms(2) by (auto simp: commitPrecheck_def split: if_splits)
    from assms(3) False None obtain o3 t3 r3 where
      c: "commitAndSend sent o1 t = Some (o3, t3, r3)" "Discard o3 t3 = Some (o2, t2)"
      "res = map_sum (\<lambda>e. e) Some r3"
      by (auto simp: Commit_def bind_eq_Some_conv)
    from c(1) obtain o4 t4 ts cf where n: "newCommitTs o1 t = Some (o4, t4, ts, cf)"
      by (auto simp: commitAndSend_def bind_eq_Some_conv)
    note N = newCommitTs_unmanaged [OF assms(1) nd n]
    show ?thesis
    proof (cases cf)
      case True
      with c n N show ?thesis by (auto simp: commitAndSend_def)
    next
      case False
      from c(1) n False have t3: "t3 = t\<lparr>tx_doneRead := True\<rparr>"
        using N by (auto simp: commitAndSend_def bind_eq_Some_conv split: if_splits)
      with Discard_done [OF _ c(2)] have d: "o2 = o3" "t2 = finished t" by (auto simp: finished_def)
      have "committed o1 t ts o4" using N False by simp
      moreover have "(o3 = o4 \<and> (\<exists>es. r3 = Inr (ts, es))) \<or> (o3 = doneCommit o4 ts \<and> r3 = Inl ErrStore)"
        using c(1) n False by (auto simp: commitAndSend_def bind_eq_Some_conv split: if_splits)
      ultimately have "committed o1 t ts o4 \<and> t2 = finished t \<and>
          (o2 = o4 \<and> (\<exists>es. res = Inr (Some (ts, es))) \<or> o2 = doneCommit o4 ts \<and> res = Inl ErrStore)"
        using d c(3) by auto
      then show ?thesis by blast
    qed
  qed
qed

lemma record_write_same: "tx_readTs (record_write opt t e) = tx_readTs t \<and>
    tx_doneRead (record_write opt t e) = tx_doneRead t \<and> tx_discarded (record_write opt t e) = tx_discarded t"
  unfolding record_write_def Let_def by (simp split: option.split)

lemma modify_same:
  "modify opt t e = (err, t') \<Longrightarrow> tx_readTs t' = tx_readTs t \<and> tx_doneRead t' = tx_doneRead t \<and>
    tx_discarded t' = tx_discarded t"
  by (auto simp: modify_def checkSize_def Let_def record_write_same split: if_splits option.splits prod.splits)

lemma addReadKey_same:
  "tx_readTs (addReadKey opt t k) = tx_readTs t \<and> tx_doneRead (addReadKey opt t k) = tx_doneRead t \<and>
    tx_discarded (addReadKey opt t k) = tx_discarded t"
  by (simp add: addReadKey_def)

lemma txn_Get_txn:
  "txn_Get opt now db_get t key = (res, t') \<Longrightarrow> t' = t \<or> t' = addReadKey opt t key"
  by (auto simp: txn_Get_def Let_def split: if_splits option.splits)

section \<open>The invariant\<close>

definition readers :: "(nat \<rightharpoonup> Txn) \<Rightarrow> nat \<Rightarrow> nat set" where
  "readers txns r = {i. \<exists>t. txns i = Some t \<and> \<not> tx_doneRead t \<and> tx_readTs t = r}"

definition read_inv :: "nat \<Rightarrow> mark list \<Rightarrow> orc \<Rightarrow> (nat \<rightharpoonup> Txn) \<Rightarrow> bool" where
  "read_inv d rm o1 txns \<longleftrightarrow> (let H = history (rm @ o_readQueue o1) in
     process (new_watermark d) rm = Some (o_readMark o1) \<and> disciplined H \<and>
     sorted_wrt (\<lambda>a b. \<not> snd b \<longrightarrow> fst a \<le> fst b) H \<and> (\<forall>e \<in> set H. d \<le> fst e \<and> fst e < o_nextTxnTs o1) \<and>
     (\<forall>r. open_count H r = int (card (readers txns r))))"

definition txn_inv :: "nat \<Rightarrow> mark list \<Rightarrow> orc \<Rightarrow> nat set \<Rightarrow> bool" where
  "txn_inv d tm o1 pending \<longleftrightarrow> (let H = history (tm @ o_txnQueue o1) in
     process (new_watermark d) tm = Some (o_txnMark o1) \<and> disciplined H \<and> distinct H \<and>
     sorted_wrt (\<lambda>a b. \<not> snd b \<longrightarrow> fst a < fst b) H \<and> (\<forall>e \<in> set H. d < fst e \<and> fst e < o_nextTxnTs o1) \<and>
     (\<forall>ts. open_count H ts = (if ts \<in> pending then 1 else 0)))"

definition log_inv :: "orc \<Rightarrow> commit list \<Rightarrow> bool" where
  "log_inv o1 log \<longleftrightarrow> o_lastCleanupTs o1 \<le> wm_doneUntil (o_readMark o1) \<and>
     sorted_wrt (<) (map cm_ts log) \<and>
     (\<forall>c \<in> set log. cm_ts c < o_nextTxnTs o1) \<and>
     (\<forall>c \<in> set log. o_lastCleanupTs o1 < cm_ts c \<longrightarrow>
        \<lparr>ct_ts = cm_ts c, ct_conflictKeys = cm_keys c\<rparr> \<in> set (o_committedTxns o1)) \<and>
     (\<forall>a \<in> set log. \<forall>b \<in> set log. cm_readTs a < cm_ts b \<longrightarrow> cm_ts b < cm_ts a \<longrightarrow>
        set (cm_reads a) \<inter> cm_keys b = {})"

definition txns_ok :: "nat \<Rightarrow> orc \<Rightarrow> (nat \<rightharpoonup> Txn) \<Rightarrow> bool" where
  "txns_ok d o1 txns \<longleftrightarrow> finite (dom txns) \<and>
     (\<forall>i t. txns i = Some t \<longrightarrow> d \<le> tx_readTs t \<and> tx_readTs t < o_nextTxnTs o1 \<and>
        tx_discarded t = tx_doneRead t)"

definition started_ok :: "(nat \<rightharpoonup> Txn) \<Rightarrow> nat set \<Rightarrow> nat set \<Rightarrow> bool" where
  "started_ok txns started pending \<longleftrightarrow> started \<subseteq> dom txns \<and>
     (\<forall>i \<in> started. \<forall>t. txns i = Some t \<longrightarrow> (\<forall>ts \<in> pending. tx_readTs t < ts))"

definition ssi_inv :: "nat \<Rightarrow> ssi \<Rightarrow> bool" where
  "ssi_inv d s \<longleftrightarrow> unmanaged (ss_orc s) \<and> d < o_nextTxnTs (ss_orc s) \<and>
     (\<exists>rm. read_inv d rm (ss_orc s) (ss_txns s)) \<and> (\<exists>tm. txn_inv d tm (ss_orc s) (ss_pending s)) \<and>
     log_inv (ss_orc s) (ss_log s) \<and> txns_ok d (ss_orc s) (ss_txns s) \<and>
     started_ok (ss_txns s) (ss_started s) (ss_pending s)"

text \<open>An active transaction is never below the read watermark.\<close>

lemma active_above_watermark:
  assumes inv: "read_inv d rm o1 txns" and fin: "finite (dom txns)"
    and t: "txns i = Some t" "\<not> tx_doneRead t" "d \<le> tx_readTs t"
  shows "wm_doneUntil (o_readMark o1) \<le> tx_readTs t"
proof -
  let ?r = "tx_readTs t" and ?P = "history rm" and ?Q = "history (o_readQueue o1)"
  have I: "process (new_watermark d) rm = Some (o_readMark o1)" "disciplined (?P @ ?Q)"
    "sorted_wrt (\<lambda>a b. \<not> snd b \<longrightarrow> fst a \<le> fst b) (?P @ ?Q)"
    "open_count (?P @ ?Q) ?r = int (card (readers txns ?r))"
    using inv unfolding read_inv_def Let_def history_append by blast+
  have "readers txns ?r \<subseteq> dom txns" by (auto simp: readers_def)
  then have "finite (readers txns ?r)" using fin finite_subset by blast
  moreover have "i \<in> readers txns ?r" using t by (simp add: readers_def)
  ultimately have "0 < open_count ?P ?r + open_count ?Q ?r"
    using I(4) by (metis card_gt_0_iff empty_iff of_nat_0_less_iff open_count_append)
  then consider "0 < open_count ?P ?r" | "0 < open_count ?Q ?r" by linarith
  then show ?thesis
  proof cases
    case 1
    have "disciplined (history (rm @ []))" using disciplined_appendD [OF I(2)] by simp
    with watermark_tracks [OF I(1), of "[]" "o_readMark o1" ] 1 show ?thesis by simp
  next
    case 2
    then have "(?r, False) \<in> set ?Q" by (rule open_count_pos)
    then have "\<forall>e \<in> set ?P. fst e \<le> ?r" using I(3) by (fastforce simp: sorted_wrt_append)
    moreover have "wm_doneUntil (o_readMark o1) \<in> insert d (fst ` set ?P)"
      using watermark_tracks [OF I(1), of "[]" "o_readMark o1"] disciplined_appendD [OF I(2)] by simp
    ultimately show ?thesis using t(3) by auto
  qed
qed

text \<open>Below the commit watermark nothing is pending.\<close>

lemma pending_above_watermark:
  assumes inv: "txn_inv d tm o1 pending" and ts: "ts \<in> pending"
  shows "wm_doneUntil (o_txnMark o1) < ts"
proof -
  let ?P = "history tm" and ?Q = "history (o_txnQueue o1)" and ?D = "wm_doneUntil (o_txnMark o1)"
  have I: "process (new_watermark d) tm = Some (o_txnMark o1)" "disciplined (?P @ ?Q)" "distinct (?P @ ?Q)"
    "sorted_wrt (\<lambda>a b. \<not> snd b \<longrightarrow> fst a < fst b) (?P @ ?Q)" "\<forall>e \<in> set (?P @ ?Q). d < fst e"
    "open_count (?P @ ?Q) ts = 1"
    using inv ts unfolding txn_inv_def Let_def history_append by auto
  have dis: "disciplined ?P" using disciplined_appendD [OF I(2)] .
  have w: "wm_inv d ?P (waits tm) (o_txnMark o1)"
    using wm_inv_process [OF wm_inv_new I(1), of "[]"] dis by simp
  then have 0: "open_count ?P ?D = 0"
    using I(3,5) unfolding wm_inv_def by simp
  have D: "?D \<in> insert d (fst ` set ?P)" "\<And>i. 0 < open_count ?P i \<Longrightarrow> ?D \<le> i"
    using watermark_tracks [OF I(1), of "[]" "o_txnMark o1"] dis by simp_all
  have "0 < open_count ?P ts + open_count ?Q ts" using I(6) by (simp add: open_count_append)
  then consider "0 < open_count ?P ts" | "0 < open_count ?Q ts" by linarith
  then show ?thesis
  proof cases
    case 1
    then have "?D \<le> ts" by (rule D(2))
    moreover have "?D \<noteq> ts" using 0 1 by auto
    ultimately show ?thesis by simp
  next
    case 2
    then have q: "(ts, False) \<in> set ?Q" by (rule open_count_pos)
    then have "\<forall>e \<in> set ?P. fst e < ts" using I(4) by (fastforce simp: sorted_wrt_append)
    moreover have "d < ts" using I(5) q by (metis UnI2 fst_conv set_append)
    ultimately show ?thesis using D(1) by auto
  qed
qed

section \<open>Preservation\<close>

lemma readers_upd_same:
  "txns i = Some t \<Longrightarrow> tx_doneRead t' = tx_doneRead t \<Longrightarrow> tx_readTs t' = tx_readTs t \<Longrightarrow>
    readers (txns(i \<mapsto> t')) r = readers txns r"
  by (auto simp: readers_def)

lemma readers_new:
  "txns i = None \<Longrightarrow> \<not> tx_doneRead t \<Longrightarrow> readers (txns(i \<mapsto> t)) r =
    (if tx_readTs t = r then insert i (readers txns r) else readers txns r)"
  by (auto simp: readers_def)

lemma readers_finish:
  "txns i = Some t \<Longrightarrow> readers (txns(i \<mapsto> finished t)) r = readers txns r - {i}"
  by (auto simp: readers_def finished_def)

lemma finite_readers: "finite (dom txns) \<Longrightarrow> finite (readers txns r)"
  by (rule finite_subset [of _ "dom txns"]) (auto simp: readers_def)

lemma read_inv_cong:
  "read_inv d rm o1 txns \<Longrightarrow> o_readMark o2 = o_readMark o1 \<Longrightarrow> o_readQueue o2 = o_readQueue o1 \<Longrightarrow>
    o_nextTxnTs o1 \<le> o_nextTxnTs o2 \<Longrightarrow> (\<And>r. readers txns2 r = readers txns r) \<Longrightarrow> read_inv d rm o2 txns2"
  by (fastforce simp: read_inv_def Let_def)

lemma txn_inv_cong:
  "txn_inv d tm o1 p \<Longrightarrow> o_txnMark o2 = o_txnMark o1 \<Longrightarrow> o_txnQueue o2 = o_txnQueue o1 \<Longrightarrow>
    o_nextTxnTs o1 \<le> o_nextTxnTs o2 \<Longrightarrow> txn_inv d tm o2 p"
  by (fastforce simp: txn_inv_def Let_def)

lemma log_inv_cong:
  "log_inv o1 log \<Longrightarrow> o_readMark o2 = o_readMark o1 \<Longrightarrow> o_lastCleanupTs o2 = o_lastCleanupTs o1 \<Longrightarrow>
    o_committedTxns o2 = o_committedTxns o1 \<Longrightarrow> o_nextTxnTs o1 \<le> o_nextTxnTs o2 \<Longrightarrow> log_inv o2 log"
  by (fastforce simp: log_inv_def)

text \<open>A new reader: the greatest index so far begins.\<close>

lemma read_inv_begin:
  assumes inv: "read_inv d rm o1 txns" and fin: "finite (dom txns)" and new: "txns i = None"
    and t: "\<not> tx_doneRead t" "tx_readTs t = r" and r: "o_nextTxnTs o1 = Suc r" "d \<le> r"
  shows "read_inv d rm (o1\<lparr>o_readQueue := o_readQueue o1 @ [Begin r]\<rparr>) (txns(i \<mapsto> t))"
proof -
  let ?r = r and ?H = "history (rm @ o_readQueue o1)"
  have I: "process (new_watermark d) rm = Some (o_readMark o1)" "disciplined ?H"
    "sorted_wrt (\<lambda>a b. \<not> snd b \<longrightarrow> fst a \<le> fst b) ?H" "\<forall>e \<in> set ?H. d \<le> fst e \<and> fst e < o_nextTxnTs o1"
    "\<And>r. open_count ?H r = int (card (readers txns r))"
    using inv unfolding read_inv_def Let_def by blast+
  have H: "history (rm @ o_readQueue o1 @ [Begin ?r]) = ?H @ [(?r, False)]"
    by (simp add: history_def)
  have "i \<notin> readers txns r" for r using new by (simp add: readers_def)
  then have cnt: "open_count (?H @ [(?r, False)]) r = int (card (readers (txns(i \<mapsto> t)) r))" for r
    using I(5) t new finite_readers [OF fin] by (simp add: open_count_snoc readers_new)
  have "disciplined (?H @ [(?r, False)])"
    using I(2) cnt by (intro disciplined_snocI) simp_all
  moreover have "sorted_wrt (\<lambda>a b. \<not> snd b \<longrightarrow> fst a \<le> fst b) (?H @ [(?r, False)])"
    using I(3,4) r(1) by (auto simp: sorted_wrt_append less_Suc_eq_le)
  ultimately show ?thesis using I cnt r unfolding read_inv_def Let_def by (auto simp: H)
qed

lemma read_inv_end:
  assumes inv: "read_inv d rm o1 txns" and fin: "finite (dom txns)" and t: "txns i = Some t"
    and nd: "\<not> tx_doneRead t" and r: "d \<le> tx_readTs t" "tx_readTs t < o_nextTxnTs o1"
  shows "read_inv d rm (o1\<lparr>o_readQueue := o_readQueue o1 @ [Done (tx_readTs t)]\<rparr>) (txns(i \<mapsto> finished t))"
proof -
  let ?r = "tx_readTs t" and ?H = "history (rm @ o_readQueue o1)"
  have I: "process (new_watermark d) rm = Some (o_readMark o1)" "disciplined ?H"
    "sorted_wrt (\<lambda>a b. \<not> snd b \<longrightarrow> fst a \<le> fst b) ?H" "\<forall>e \<in> set ?H. d \<le> fst e \<and> fst e < o_nextTxnTs o1"
    "\<And>r. open_count ?H r = int (card (readers txns r))"
    using inv unfolding read_inv_def Let_def by blast+
  have H: "history (rm @ o_readQueue o1 @ [Done ?r]) = ?H @ [(?r, True)]"
    by (simp add: history_def)
  have in_r: "i \<in> readers txns r \<longleftrightarrow> r = ?r" for r using t nd by (auto simp: readers_def)
  have pos: "0 < card (readers txns ?r)"
    using in_r finite_readers [OF fin] by (metis card_gt_0_iff empty_iff)
  have cnt: "open_count (?H @ [(?r, True)]) r = int (card (readers (txns(i \<mapsto> finished t)) r))" for r
    using I(5) [of r] pos in_r [of r] by (cases "r = ?r") (simp_all add: open_count_snoc readers_finish [of txns, OF t])
  have "disciplined (?H @ [(?r, True)])"
    using I(2) cnt by (intro disciplined_snocI) simp_all
  moreover have "sorted_wrt (\<lambda>a b. \<not> snd b \<longrightarrow> fst a \<le> fst b) (?H @ [(?r, True)])"
    using I(3) by (simp add: sorted_wrt_append)
  ultimately show ?thesis using I cnt r unfolding read_inv_def Let_def by (auto simp: H)
qed

text \<open>A mark that is processed moves from the queue to the history of the watermark.\<close>

lemma process_snoc: "process w ms = Some w1 \<Longrightarrow> process_mark w1 m = Some w2 \<Longrightarrow> process w (ms @ [m]) = Some w2"
  by (simp add: process_append)

lemma read_inv_mark:
  "read_inv d rm o1 txns \<Longrightarrow> o_readQueue o1 = m # q \<Longrightarrow> process_mark (o_readMark o1) m = Some w \<Longrightarrow>
    read_inv d (rm @ [m]) (o1\<lparr>o_readMark := w, o_readQueue := q\<rparr>) txns"
  by (simp add: read_inv_def Let_def process_snoc)

lemma txn_inv_mark:
  "txn_inv d tm o1 p \<Longrightarrow> o_txnQueue o1 = m # q \<Longrightarrow> process_mark (o_txnMark o1) m = Some w \<Longrightarrow>
    txn_inv d (tm @ [m]) (o1\<lparr>o_txnMark := w, o_txnQueue := q\<rparr>) p"
  by (simp add: txn_inv_def Let_def process_snoc)

lemma watermark_step_mono:
  assumes "process (new_watermark d) ms = Some w" "process_mark w m = Some w'"
    and "disciplined (history (ms @ m # q))"
  shows "wm_doneUntil w \<le> wm_doneUntil w'"
proof -
  have "disciplined (history (ms @ [m]))"
    using assms(3) disciplined_appendD [of "history (ms @ [m])" "history q"]
    by (simp add: history_def)
  moreover have "process w [m] = Some w'" using assms(2) by simp
  ultimately show ?thesis using watermark_tracks [OF assms(1), of "[m]" w'] by blast
qed

lemma distinct_filter_eq: "distinct xs \<Longrightarrow> length (filter (\<lambda>e. e = x) xs) = (if x \<in> set xs then 1 else 0)"
  by (induction xs) auto

lemma txn_inv_begin:
  assumes inv: "txn_inv d tm o1 p" and d: "d < o_nextTxnTs o1" and p: "o_nextTxnTs o1 \<notin> p"
    and o2: "o_txnMark o2 = o_txnMark o1" "o_txnQueue o2 = o_txnQueue o1 @ [Begin (o_nextTxnTs o1)]"
      "o_nextTxnTs o2 = o_nextTxnTs o1 + 1"
  shows "txn_inv d tm o2 (insert (o_nextTxnTs o1) p)"
proof -
  let ?n = "o_nextTxnTs o1" and ?H = "history (tm @ o_txnQueue o1)"
  have I: "process (new_watermark d) tm = Some (o_txnMark o1)" "disciplined ?H" "distinct ?H"
    "sorted_wrt (\<lambda>a b. \<not> snd b \<longrightarrow> fst a < fst b) ?H" "\<forall>e \<in> set ?H. d < fst e \<and> fst e < ?n"
    "\<And>ts. open_count ?H ts = (if ts \<in> p then 1 else 0)"
    using inv unfolding txn_inv_def Let_def by auto
  have H: "history (tm @ o_txnQueue o1 @ [Begin ?n]) = ?H @ [(?n, False)]"
    by (simp add: history_def)
  have cnt: "open_count (?H @ [(?n, False)]) ts = (if ts \<in> insert ?n p then 1 else 0)" for ts
    using I(6) p by (simp add: open_count_snoc)
  have "disciplined (?H @ [(?n, False)])"
    using I(2) cnt by (intro disciplined_snocI) simp_all
  moreover have "sorted_wrt (\<lambda>a b. \<not> snd b \<longrightarrow> fst a < fst b) (?H @ [(?n, False)])"
    using I(4,5) by (simp add: sorted_wrt_append)
  moreover have "distinct (?H @ [(?n, False)])" using I(3,5) by auto
  moreover have "\<forall>e \<in> set (?H @ [(?n, False)]). d < fst e \<and> fst e < ?n + 1" using I(5) d by auto
  ultimately show ?thesis using I(1) cnt unfolding txn_inv_def Let_def o2 H by blast
qed

lemma txn_inv_done:
  assumes inv: "txn_inv d tm o1 p" and ts: "ts \<in> p"
    and o2: "o_txnMark o2 = o_txnMark o1" "o_txnQueue o2 = o_txnQueue o1 @ [Done ts]"
      "o_nextTxnTs o2 = o_nextTxnTs o1"
  shows "txn_inv d tm o2 (p - {ts})"
proof -
  let ?H = "history (tm @ o_txnQueue o1)"
  have I: "process (new_watermark d) tm = Some (o_txnMark o1)" "disciplined ?H" "distinct ?H"
    "sorted_wrt (\<lambda>a b. \<not> snd b \<longrightarrow> fst a < fst b) ?H" "\<forall>e \<in> set ?H. d < fst e \<and> fst e < o_nextTxnTs o1"
    "\<And>ts. open_count ?H ts = (if ts \<in> p then 1 else 0)"
    using inv unfolding txn_inv_def Let_def by auto
  have H: "history (tm @ o_txnQueue o1 @ [Done ts]) = ?H @ [(ts, True)]"
    by (simp add: history_def)
  have cnt: "open_count (?H @ [(ts, True)]) i = (if i \<in> p - {ts} then 1 else 0)" for i
    using I(6) [of i] ts by (simp add: open_count_snoc)
  have one: "open_count ?H ts = 1" using I(6) ts by simp
  then have "(ts, False) \<in> set ?H" by (intro open_count_pos) simp
  moreover have "(ts, True) \<notin> set ?H"
    using one I(3) by (auto simp: open_count_def distinct_filter_eq split: if_splits)
  ultimately have "disciplined (?H @ [(ts, True)])" "distinct (?H @ [(ts, True)])"
    "\<forall>e \<in> set (?H @ [(ts, True)]). d < fst e \<and> fst e < o_nextTxnTs o1"
    using I(2,3,5) cnt by (auto intro!: disciplined_snocI)
  moreover have "sorted_wrt (\<lambda>a b. \<not> snd b \<longrightarrow> fst a < fst b) (?H @ [(ts, True)])"
    using I(4) by (simp add: sorted_wrt_append)
  ultimately show ?thesis using I(1) cnt unfolding txn_inv_def Let_def o2 H by blast
qed

text \<open>
  The decisive step: a transaction without a conflict in \<open>committedTxns\<close> has none with
  any commit since its read timestamp, because what was cleaned up is not newer.
\<close>

lemma log_inv_commit:
  assumes log: "log_inv o1 log" and com: "committed o1 t ts o2"
    and above: "wm_doneUntil (o_readMark o1) \<le> tx_readTs t"
  shows "log_inv o2 (log @ [commit_record t ts])"
proof -
  let ?D = "wm_doneUntil (o_readMark o1)"
  have C: "ts = o_nextTxnTs o1" "\<not> hasConflict o1 t" "o_nextTxnTs o2 = ts + 1"
    "o_readMark o2 = o_readMark o1" "o_lastCleanupTs o2 = ?D"
    "\<forall>c \<in> set (o_committedTxns o1). ?D < ct_ts c \<longrightarrow> c \<in> set (o_committedTxns o2)"
    "\<lparr>ct_ts = ts, ct_conflictKeys = tx_conflictKeys t\<rparr> \<in> set (o_committedTxns o2)"
    using com unfolding committed_def by blast+
  have L: "o_lastCleanupTs o1 \<le> ?D" "\<forall>c \<in> set log. cm_ts c < o_nextTxnTs o1"
    "sorted_wrt (<) (map cm_ts log)"
    "\<forall>c \<in> set log. o_lastCleanupTs o1 < cm_ts c \<longrightarrow>
        \<lparr>ct_ts = cm_ts c, ct_conflictKeys = cm_keys c\<rparr> \<in> set (o_committedTxns o1)"
    "\<forall>a \<in> set log. \<forall>b \<in> set log. cm_readTs a < cm_ts b \<longrightarrow> cm_ts b < cm_ts a \<longrightarrow>
        set (cm_reads a) \<inter> cm_keys b = {}"
    using log unfolding log_inv_def by blast+
  have srt: "sorted_wrt (<) (map cm_ts (log @ [commit_record t ts]))"
    using L(2,3) C(1) by (auto simp: sorted_wrt_append commit_record_def)
  have kept: "\<lparr>ct_ts = cm_ts c, ct_conflictKeys = cm_keys c\<rparr> \<in> set (o_committedTxns o1)"
    if "c \<in> set log" "?D < cm_ts c" for c using that L(1,4) by fastforce
  have free: "set (tx_reads t) \<inter> cm_keys b = {}" if "b \<in> set log" "tx_readTs t < cm_ts b" for b
  proof -
    have "\<lparr>ct_ts = cm_ts b, ct_conflictKeys = cm_keys b\<rparr> \<in> set (o_committedTxns o1)"
      using kept that above by simp
    with C(2) that(2) show ?thesis
      by (fastforce simp: hasConflict_def list_ex_iff split: if_splits)
  qed
  show ?thesis
    unfolding log_inv_def
  proof (intro conjI)
    show "\<forall>a \<in> set (log @ [commit_record t ts]). \<forall>b \<in> set (log @ [commit_record t ts]).
        cm_readTs a < cm_ts b \<longrightarrow> cm_ts b < cm_ts a \<longrightarrow> set (cm_reads a) \<inter> cm_keys b = {}"
      using L(2,5) free C(1) by (auto simp: commit_record_def)
  qed (use C L(2) kept srt in \<open>auto simp: commit_record_def less_Suc_eq\<close>)
qed

text \<open>A failed send leaves an entry in \<open>committedTxns\<close> but no commit in the log.\<close>

lemma log_inv_drop: "log_inv o1 (log @ [c]) \<Longrightarrow> log_inv o1 log"
  by (simp add: log_inv_def sorted_wrt_append)

lemma doneCommit_fields:
  "unmanaged o1 \<Longrightarrow> o_txnQueue (doneCommit o1 ts) = o_txnQueue o1 @ [Done ts] \<and>
    o_txnMark (doneCommit o1 ts) = o_txnMark o1 \<and> o_nextTxnTs (doneCommit o1 ts) = o_nextTxnTs o1 \<and>
    o_readMark (doneCommit o1 ts) = o_readMark o1 \<and> o_readQueue (doneCommit o1 ts) = o_readQueue o1 \<and>
    o_lastCleanupTs (doneCommit o1 ts) = o_lastCleanupTs o1 \<and>
    o_committedTxns (doneCommit o1 ts) = o_committedTxns o1 \<and> unmanaged (doneCommit o1 ts)"
  by (simp add: doneCommit_def unmanaged_def)

lemma committed_unmanaged: "committed o1 t ts o2 \<Longrightarrow> unmanaged o1 \<Longrightarrow> unmanaged o2"
  by (simp add: committed_def unmanaged_def)

lemma txns_ok_finish:
  "txns_ok d o1 txns \<Longrightarrow> txns i = Some t \<Longrightarrow> o_nextTxnTs o1 \<le> o_nextTxnTs o2 \<Longrightarrow>
    txns_ok d o2 (txns(i \<mapsto> finished t))"
  by (fastforce simp: txns_ok_def finished_def)

lemma started_ok_upd:
  "started_ok txns st p \<Longrightarrow> txns i = Some t \<Longrightarrow> tx_readTs t' = tx_readTs t \<Longrightarrow>
    started_ok (txns(i \<mapsto> t')) st p"
  by (fastforce simp: started_ok_def)

text \<open>One lemma for a commit, whether or not the send works.\<close>

lemma inv_committed:
  assumes inv: "ssi_inv d s" and i: "ss_txns s i = Some t" and com: "committed (ss_orc s) t ts o2"
  shows "ssi_inv d (s\<lparr>ss_orc := o2, ss_txns := (ss_txns s)(i \<mapsto> finished t),
    ss_log := ss_log s @ [commit_record t ts], ss_pending := insert ts (ss_pending s)\<rparr>)"
proof -
  let ?o = "ss_orc s"
  from inv obtain rm tm where I: "unmanaged ?o" "d < o_nextTxnTs ?o" "read_inv d rm ?o (ss_txns s)"
    "txn_inv d tm ?o (ss_pending s)" "log_inv ?o (ss_log s)" "txns_ok d ?o (ss_txns s)"
    "started_ok (ss_txns s) (ss_started s) (ss_pending s)"
    unfolding ssi_inv_def by blast
  have T: "d \<le> tx_readTs t" "tx_readTs t < o_nextTxnTs ?o" "finite (dom (ss_txns s))"
    using I(6) i by (auto simp: txns_ok_def)
  have C: "ts = o_nextTxnTs ?o" "\<not> tx_doneRead t" "o_nextTxnTs o2 = o_nextTxnTs ?o + 1"
    "o_txnMark o2 = o_txnMark ?o" "o_txnQueue o2 = o_txnQueue ?o @ [Begin ts]"
    "o_readMark o2 = o_readMark ?o" "o_readQueue o2 = o_readQueue ?o @ [Done (tx_readTs t)]"
    using com unfolding committed_def by auto
  have notin: "o_nextTxnTs ?o \<notin> ss_pending s"
  proof
    assume "o_nextTxnTs ?o \<in> ss_pending s"
    then have "0 < open_count (history (tm @ o_txnQueue ?o)) (o_nextTxnTs ?o)"
      using I(4) by (simp add: txn_inv_def Let_def)
    then have "(o_nextTxnTs ?o, False) \<in> set (history (tm @ o_txnQueue ?o))" by (rule open_count_pos)
    then show False using I(4) by (fastforce simp: txn_inv_def Let_def)
  qed
  have "wm_doneUntil (o_readMark ?o) \<le> tx_readTs t"
    using active_above_watermark [OF I(3) T(3) i C(2) T(1)] .
  then have "log_inv o2 (ss_log s @ [commit_record t ts])" using log_inv_commit [OF I(5) com] by blast
  moreover have "txn_inv d tm o2 (insert ts (ss_pending s))"
    using txn_inv_begin [OF I(4,2) notin] C by simp
  moreover have "read_inv d rm o2 ((ss_txns s)(i \<mapsto> finished t))"
    by (rule read_inv_cong [OF read_inv_end [OF I(3) T(3) i C(2) T(1,2)]]) (simp_all add: C)
  moreover have "txns_ok d o2 ((ss_txns s)(i \<mapsto> finished t))"
    using txns_ok_finish [OF I(6) i] C(3) by simp
  moreover have "started_ok ((ss_txns s)(i \<mapsto> finished t)) (ss_started s) (insert ts (ss_pending s))"
  proof -
    have "started_ok (ss_txns s) (ss_started s) (insert ts (ss_pending s))"
      using I(6,7) C(1) by (fastforce simp: started_ok_def txns_ok_def)
    then show ?thesis using i by (intro started_ok_upd) (auto simp: finished_def)
  qed
  ultimately show ?thesis
    using I(1,2) committed_unmanaged [OF com] C(3) by (auto simp: ssi_inv_def)
qed

lemma ssi_invE:
  assumes "ssi_inv d s"
  obtains rm tm where "unmanaged (ss_orc s)" "d < o_nextTxnTs (ss_orc s)"
    "read_inv d rm (ss_orc s) (ss_txns s)" "txn_inv d tm (ss_orc s) (ss_pending s)"
    "log_inv (ss_orc s) (ss_log s)" "txns_ok d (ss_orc s) (ss_txns s)"
    "started_ok (ss_txns s) (ss_started s) (ss_pending s)"
  using assms unfolding ssi_inv_def by blast

lemma inv_upd:
  assumes "ssi_inv d s" "ss_txns s i = Some t" "tx_readTs t' = tx_readTs t"
    "tx_doneRead t' = tx_doneRead t" "tx_discarded t' = tx_discarded t"
  shows "ssi_inv d (s\<lparr>ss_txns := (ss_txns s)(i \<mapsto> t')\<rparr>)"
proof -
  from assms(1) obtain rm tm where I: "unmanaged (ss_orc s)" "d < o_nextTxnTs (ss_orc s)"
    "read_inv d rm (ss_orc s) (ss_txns s)" "txn_inv d tm (ss_orc s) (ss_pending s)"
    "log_inv (ss_orc s) (ss_log s)" "txns_ok d (ss_orc s) (ss_txns s)"
    "started_ok (ss_txns s) (ss_started s) (ss_pending s)" by (rule ssi_invE)
  have "read_inv d rm (ss_orc s) ((ss_txns s)(i \<mapsto> t'))"
    by (rule read_inv_cong [OF I(3)]) (simp_all add: readers_upd_same [of "ss_txns s" i t t'] assms)
  moreover have "txns_ok d (ss_orc s) ((ss_txns s)(i \<mapsto> t'))"
    using I(6) assms(2-5) by (fastforce simp: txns_ok_def)
  moreover have "started_ok ((ss_txns s)(i \<mapsto> t')) (ss_started s) (ss_pending s)"
    using started_ok_upd [OF I(7) assms(2,3)] .
  ultimately show ?thesis using I by (auto simp: ssi_inv_def)
qed

lemma inv_done:
  assumes "ssi_inv d s" "ts \<in> ss_pending s"
  shows "ssi_inv d (s\<lparr>ss_orc := doneCommit (ss_orc s) ts, ss_pending := ss_pending s - {ts}\<rparr>)"
proof -
  from assms(1) obtain rm tm where I: "unmanaged (ss_orc s)" "d < o_nextTxnTs (ss_orc s)"
    "read_inv d rm (ss_orc s) (ss_txns s)" "txn_inv d tm (ss_orc s) (ss_pending s)"
    "log_inv (ss_orc s) (ss_log s)" "txns_ok d (ss_orc s) (ss_txns s)"
    "started_ok (ss_txns s) (ss_started s) (ss_pending s)" by (rule ssi_invE)
  note F = doneCommit_fields [OF I(1), of ts]
  have "read_inv d rm (doneCommit (ss_orc s) ts) (ss_txns s)"
    by (rule read_inv_cong [OF I(3)]) (simp_all add: F)
  moreover have "txn_inv d tm (doneCommit (ss_orc s) ts) (ss_pending s - {ts})"
    by (rule txn_inv_done [OF I(4) assms(2)]) (simp_all add: F)
  moreover have "log_inv (doneCommit (ss_orc s) ts) (ss_log s)"
    by (rule log_inv_cong [OF I(5)]) (simp_all add: F)
  moreover have "txns_ok d (doneCommit (ss_orc s) ts) (ss_txns s)"
    using I(6) F by (simp add: txns_ok_def)
  moreover have "started_ok (ss_txns s) (ss_started s) (ss_pending s - {ts})"
    using I(7) by (auto simp: started_ok_def)
  ultimately show ?thesis using I(2) F by (auto simp: ssi_inv_def)
qed

lemma inv_discard:
  assumes inv: "ssi_inv d s" and i: "ss_txns s i = Some t" and dis: "Discard (ss_orc s) t = Some (o2, t2)"
  shows "ssi_inv d (s\<lparr>ss_orc := o2, ss_txns := (ss_txns s)(i \<mapsto> t2)\<rparr>)"
proof -
  from inv obtain rm tm where I: "unmanaged (ss_orc s)" "d < o_nextTxnTs (ss_orc s)"
    "read_inv d rm (ss_orc s) (ss_txns s)" "txn_inv d tm (ss_orc s) (ss_pending s)"
    "log_inv (ss_orc s) (ss_log s)" "txns_ok d (ss_orc s) (ss_txns s)"
    "started_ok (ss_txns s) (ss_started s) (ss_pending s)" by (rule ssi_invE)
  have T: "d \<le> tx_readTs t" "tx_readTs t < o_nextTxnTs (ss_orc s)" "finite (dom (ss_txns s))"
    "tx_discarded t = tx_doneRead t"
    using I(6) i by (auto simp: txns_ok_def)
  from Discard_active [OF I(1) T(4) dis] consider
      "tx_doneRead t" "o2 = ss_orc s" "t2 = t"
    | "\<not> tx_doneRead t" "o2 = (ss_orc s)\<lparr>o_readQueue := o_readQueue (ss_orc s) @ [Done (tx_readTs t)]\<rparr>"
      "t2 = finished t" by blast
  then show ?thesis
  proof cases
    case 1
    with inv_upd [OF inv i, of t] show ?thesis by simp
  next
    case 2
    have "read_inv d rm o2 ((ss_txns s)(i \<mapsto> finished t))"
      unfolding 2(2) by (rule read_inv_end [OF I(3) T(3) i 2(1) T(1,2)])
    moreover have "txn_inv d tm o2 (ss_pending s)" by (rule txn_inv_cong [OF I(4)]) (simp_all add: 2)
    moreover have "log_inv o2 (ss_log s)" by (rule log_inv_cong [OF I(5)]) (simp_all add: 2)
    moreover have "txns_ok d o2 ((ss_txns s)(i \<mapsto> finished t))"
      using txns_ok_finish [OF I(6) i] 2 by simp
    moreover have "started_ok ((ss_txns s)(i \<mapsto> finished t)) (ss_started s) (ss_pending s)"
      by (rule started_ok_upd [OF I(7) i]) (simp add: finished_def)
    moreover have "unmanaged o2" using I(1) 2 by (simp add: unmanaged_def)
    ultimately show ?thesis using I(2) 2 by (auto simp: ssi_inv_def)
  qed
qed

lemma inv_begin:
  assumes inv: "ssi_inv d s" and i: "ss_txns s i = None" and r: "readTs (ss_orc s) = (o2, r)"
  shows "ssi_inv d (s\<lparr>ss_orc := o2, ss_txns := (ss_txns s)(i \<mapsto> newTransaction opt upd r)\<rparr>)"
proof -
  from inv obtain rm tm where I: "unmanaged (ss_orc s)" "d < o_nextTxnTs (ss_orc s)"
    "read_inv d rm (ss_orc s) (ss_txns s)" "txn_inv d tm (ss_orc s) (ss_pending s)"
    "log_inv (ss_orc s) (ss_log s)" "txns_ok d (ss_orc s) (ss_txns s)"
    "started_ok (ss_txns s) (ss_started s) (ss_pending s)" by (rule ssi_invE)
  have r': "o_nextTxnTs (ss_orc s) = Suc r" "d \<le> r"
    and o2: "o2 = (ss_orc s)\<lparr>o_readQueue := o_readQueue (ss_orc s) @ [Begin r]\<rparr>"
    using r I(2) by (auto simp: readTs_def Let_def)
  have fin: "finite (dom (ss_txns s))" using I(6) by (simp add: txns_ok_def)
  have "read_inv d rm o2 ((ss_txns s)(i \<mapsto> newTransaction opt upd r))"
    unfolding o2 by (rule read_inv_begin [OF I(3) fin i _ _ r']) (simp_all add: newTransaction_def)
  moreover have "txn_inv d tm o2 (ss_pending s)" by (rule txn_inv_cong [OF I(4)]) (simp_all add: o2)
  moreover have "log_inv o2 (ss_log s)" by (rule log_inv_cong [OF I(5)]) (simp_all add: o2)
  moreover have "txns_ok d o2 ((ss_txns s)(i \<mapsto> newTransaction opt upd r))"
    using I(6) r' by (auto simp: txns_ok_def o2 newTransaction_def)
  moreover have "started_ok ((ss_txns s)(i \<mapsto> newTransaction opt upd r)) (ss_started s) (ss_pending s)"
    using I(7) i by (fastforce simp: started_ok_def)
  moreover have "unmanaged o2" using I(1) by (simp add: unmanaged_def o2)
  ultimately show ?thesis using I(2) by (auto simp: ssi_inv_def o2)
qed

lemma inv_marks:
  assumes inv: "ssi_inv d s"
  shows "WaitForMark (o_txnMark (ss_orc s)) r ch = Some m \<Longrightarrow>
      ssi_inv d (s\<lparr>ss_orc := (ss_orc s)\<lparr>o_txnQueue := o_txnQueue (ss_orc s) @ [m]\<rparr>\<rparr>)"
    and "o_readQueue (ss_orc s) = m # q \<Longrightarrow> process_mark (o_readMark (ss_orc s)) m = Some w \<Longrightarrow>
      ssi_inv d (s\<lparr>ss_orc := (ss_orc s)\<lparr>o_readMark := w, o_readQueue := q\<rparr>\<rparr>)"
    and "o_txnQueue (ss_orc s) = m # q \<Longrightarrow> process_mark (o_txnMark (ss_orc s)) m = Some w \<Longrightarrow>
      ssi_inv d (s\<lparr>ss_orc := (ss_orc s)\<lparr>o_txnMark := w, o_txnQueue := q\<rparr>\<rparr>)"
proof -
  from inv obtain rm tm where I: "unmanaged (ss_orc s)" "d < o_nextTxnTs (ss_orc s)"
    "read_inv d rm (ss_orc s) (ss_txns s)" "txn_inv d tm (ss_orc s) (ss_pending s)"
    "log_inv (ss_orc s) (ss_log s)" "txns_ok d (ss_orc s) (ss_txns s)"
    "started_ok (ss_txns s) (ss_started s) (ss_pending s)" by (rule ssi_invE)
  {
    assume "WaitForMark (o_txnMark (ss_orc s)) r ch = Some m"
    then have m: "events_of m = []" by (auto simp: WaitForMark_def events_of_def split: if_splits)
    have H: "history (tm @ o_txnQueue (ss_orc s) @ [m]) = history (tm @ o_txnQueue (ss_orc s))"
      using m by (simp add: history_def)
    have "txn_inv d tm ((ss_orc s)\<lparr>o_txnQueue := o_txnQueue (ss_orc s) @ [m]\<rparr>) (ss_pending s)"
      using I(4) by (simp add: txn_inv_def Let_def H)
    moreover have "read_inv d rm ((ss_orc s)\<lparr>o_txnQueue := o_txnQueue (ss_orc s) @ [m]\<rparr>) (ss_txns s)"
      by (rule read_inv_cong [OF I(3)]) simp_all
    ultimately show "ssi_inv d (s\<lparr>ss_orc := (ss_orc s)\<lparr>o_txnQueue := o_txnQueue (ss_orc s) @ [m]\<rparr>\<rparr>)"
      using I by (auto simp: ssi_inv_def unmanaged_def log_inv_def txns_ok_def)
  next
    assume q: "o_readQueue (ss_orc s) = m # q" "process_mark (o_readMark (ss_orc s)) m = Some w"
    let ?o = "(ss_orc s)\<lparr>o_readMark := w, o_readQueue := q\<rparr>"
    have "read_inv d (rm @ [m]) ?o (ss_txns s)" using read_inv_mark [OF I(3) q] .
    moreover have "wm_doneUntil (o_readMark (ss_orc s)) \<le> wm_doneUntil w"
      using watermark_step_mono [OF _ q(2), of d rm q] I(3) q(1) by (simp add: read_inv_def Let_def)
    then have "log_inv ?o (ss_log s)" using I(5) by (auto simp: log_inv_def)
    moreover have "txn_inv d tm ?o (ss_pending s)" by (rule txn_inv_cong [OF I(4)]) simp_all
    ultimately show "ssi_inv d (s\<lparr>ss_orc := ?o\<rparr>)"
      using I by (auto simp: ssi_inv_def unmanaged_def txns_ok_def)
  next
    assume q: "o_txnQueue (ss_orc s) = m # q" "process_mark (o_txnMark (ss_orc s)) m = Some w"
    let ?o = "(ss_orc s)\<lparr>o_txnMark := w, o_txnQueue := q\<rparr>"
    have "txn_inv d (tm @ [m]) ?o (ss_pending s)" using txn_inv_mark [OF I(4) q] .
    moreover have "read_inv d rm ?o (ss_txns s)" by (rule read_inv_cong [OF I(3)]) simp_all
    moreover have "log_inv ?o (ss_log s)" by (rule log_inv_cong [OF I(5)]) simp_all
    ultimately show "ssi_inv d (s\<lparr>ss_orc := ?o\<rparr>)"
      using I by (auto simp: ssi_inv_def unmanaged_def txns_ok_def)
  }
qed

lemma inv_commit:
  assumes inv: "ssi_inv d s" and i: "ss_txns s i = Some t"
    and com: "Commit opt sent (ss_orc s) t = Some (o2, t2, res)"
  shows "\<forall>ts es. res = Inr (Some (ts, es)) \<longrightarrow> ssi_inv d (s\<lparr>ss_orc := o2, ss_txns := (ss_txns s)(i \<mapsto> t2),
      ss_log := ss_log s @ [commit_record t ts], ss_pending := insert ts (ss_pending s)\<rparr>)"
    and "\<forall>x. res \<noteq> Inr (Some x) \<Longrightarrow> ssi_inv d (s\<lparr>ss_orc := o2, ss_txns := (ss_txns s)(i \<mapsto> t2)\<rparr>)"
proof -
  have un: "unmanaged (ss_orc s)" and eq: "tx_discarded t = tx_doneRead t"
    using inv i by (auto simp: ssi_inv_def txns_ok_def)
  note cases = Commit_cases [OF un eq com]
  show "\<forall>ts es. res = Inr (Some (ts, es)) \<longrightarrow> ssi_inv d (s\<lparr>ss_orc := o2, ss_txns := (ss_txns s)(i \<mapsto> t2),
      ss_log := ss_log s @ [commit_record t ts], ss_pending := insert ts (ss_pending s)\<rparr>)"
    using cases inv_committed [OF inv i] by auto
  assume no: "\<forall>x. res \<noteq> Inr (Some x)"
  from cases no consider "o2 = ss_orc s" "t2 = t" | "Discard (ss_orc s) t = Some (o2, t2)"
    | o3 ts where "committed (ss_orc s) t ts o3" "t2 = finished t" "o2 = doneCommit o3 ts" by blast
  then show "ssi_inv d (s\<lparr>ss_orc := o2, ss_txns := (ss_txns s)(i \<mapsto> t2)\<rparr>)"
  proof cases
    case 1
    with inv_upd [OF inv i, of t] show ?thesis by simp
  next
    case 2
    then show ?thesis by (rule inv_discard [OF inv i])
  next
    case 3
    let ?s = "s\<lparr>ss_orc := o3, ss_txns := (ss_txns s)(i \<mapsto> finished t),
      ss_log := ss_log s @ [commit_record t ts], ss_pending := insert ts (ss_pending s)\<rparr>"
    have ts: "ts \<notin> ss_pending s"
    proof
      assume "ts \<in> ss_pending s"
      moreover obtain tm where "txn_inv d tm (ss_orc s) (ss_pending s)"
        using inv by (auto simp: ssi_inv_def)
      ultimately have "\<exists>H. open_count H ts = 1 \<and> (\<forall>e \<in> set H. fst e < o_nextTxnTs (ss_orc s))"
        unfolding txn_inv_def Let_def by metis
      then obtain H where "0 < open_count H ts" "\<forall>e \<in> set H. fst e < o_nextTxnTs (ss_orc s)"
        by (metis zero_less_one)
      then have "ts < o_nextTxnTs (ss_orc s)" using open_count_pos [of H ts] by fastforce
      then show False using 3(1) by (simp add: committed_def)
    qed
    have "ssi_inv d ?s" by (rule inv_committed [OF inv i 3(1)])
    then have "ssi_inv d (?s\<lparr>ss_orc := doneCommit (ss_orc ?s) ts, ss_pending := ss_pending ?s - {ts}\<rparr>)"
      by (rule inv_done) simp
    then show ?thesis using ts 3 log_inv_drop by (fastforce simp: ssi_inv_def)
  qed
qed

lemma ssi_inv_step: "ssi_step opt s s' \<Longrightarrow> ssi_inv d s \<Longrightarrow> ssi_inv d s'"
proof (induction rule: ssi_step.induct)
  case (begin_txn s i o' r upd)
  then show ?case by (intro inv_begin)
next
  case (wait_txn s r ch m)
  then show ?case by (intro inv_marks(1))
next
  case (start_txn s i t)
  then have "wm_doneUntil (o_txnMark (ss_orc s)) \<ge> tx_readTs t"
    by (auto simp: readTs_ready_def WaitForMark_def split: if_splits)
  then have "\<forall>ts \<in> ss_pending s. tx_readTs t < ts"
    using start_txn.prems pending_above_watermark unfolding ssi_inv_def by (metis le_less_trans)
  with start_txn show ?case by (auto simp: ssi_inv_def started_ok_def)
next
  case (get_txn i s t now db_get key res t')
  have "tx_readTs t' = tx_readTs t" "tx_doneRead t' = tx_doneRead t" "tx_discarded t' = tx_discarded t"
    using txn_Get_txn [OF get_txn(3)] addReadKey_same [of opt t key] by auto
  with get_txn show ?case by (intro inv_upd)
next
  case (iter_txn i s t key)
  with addReadKey_same [of opt t key] show ?case by (intro inv_upd) auto
next
  case (write_txn i s t e err t')
  with modify_same [OF write_txn(3)] show ?case by (intro inv_upd) auto
next
  case (commit_txn i s t sent o' t' ts entries)
  with inv_commit(1) [OF commit_txn.prems commit_txn(2,3)] show ?case by blast
next
  case (fail_commit i s t sent o' t' err)
  with inv_commit(2) [OF fail_commit.prems fail_commit(2,3)] show ?case by simp
next
  case (empty_commit i s t sent o' t')
  with inv_commit(2) [OF empty_commit.prems empty_commit(2,3)] show ?case by simp
next
  case (commit_done ts s)
  then show ?case by (intro inv_done)
next
  case (discard_txn s i t o' t')
  then show ?case by (intro inv_discard)
next
  case (read_mark s m q w)
  then show ?case by (intro inv_marks(2))
next
  case (txn_mark s m q w)
  then show ?case by (intro inv_marks(3))
qed

lemma ssi_inv_opened:
  "\<not> op_managedTxns opt \<Longrightarrow> op_DetectConflicts opt \<Longrightarrow> ssi_inv d (opened opt d)"
  unfolding opened_def process_first_done ssi_inv_def
  by (auto simp: newOracle_def incrementNextTs_def unmanaged_def log_inv_def txns_ok_def
      started_ok_def read_inv_def txn_inv_def history_def readers_def open_count_def disciplined_def
      intro!: exI [of _ "[]"])

lemma ssi_inv_reach:
  "ssi_reach opt d s \<Longrightarrow> \<not> op_managedTxns opt \<Longrightarrow> op_DetectConflicts opt \<Longrightarrow> ssi_inv d s"
  by (induction rule: ssi_reach.induct) (auto intro: ssi_inv_opened ssi_inv_step)

section \<open>A concrete run\<close>

text \<open>
  Transactions 0 and 1 read at timestamp 5; the first writes key 1, the second reads key 2
  and writes key 3; they commit at 6 and 7.
\<close>

definition ex_begin :: "nat \<Rightarrow> ssi \<Rightarrow> ssi" where
  "ex_begin i s = s\<lparr>ss_orc := fst (readTs (ss_orc s)),
     ss_txns := (ss_txns s)(i \<mapsto> newTransaction small_opts True (snd (readTs (ss_orc s))))\<rparr>"

definition ex_start :: "nat \<Rightarrow> ssi \<Rightarrow> ssi" where
  "ex_start i s = s\<lparr>ss_started := insert i (ss_started s)\<rparr>"

definition ex_read :: "nat \<Rightarrow> bytes \<Rightarrow> ssi \<Rightarrow> ssi" where
  "ex_read i k s = s\<lparr>ss_txns := (ss_txns s)(i \<mapsto> addReadKey small_opts (the (ss_txns s i)) k)\<rparr>"

definition ex_write :: "nat \<Rightarrow> bytes \<Rightarrow> ssi \<Rightarrow> ssi" where
  "ex_write i k s = s\<lparr>ss_txns := (ss_txns s)(i \<mapsto> snd (modify small_opts (the (ss_txns s i)) (NewEntry k (Some [7]))))\<rparr>"

definition ex_commit :: "nat \<Rightarrow> ssi \<Rightarrow> ssi" where
  "ex_commit i s = (case Commit small_opts True (ss_orc s) (the (ss_txns s i)) of
     Some (o', t', Inr (Some (ts, es))) \<Rightarrow> s\<lparr>ss_orc := o', ss_txns := (ss_txns s)(i \<mapsto> t'),
       ss_log := ss_log s @ [commit_record (the (ss_txns s i)) ts], ss_pending := insert ts (ss_pending s)\<rparr>
   | _ \<Rightarrow> s)"

lemma ex_commit_reach:
  assumes "ssi_reach small_opts d s" "i \<in> ss_started s" "ss_txns s i = Some t"
  shows "ssi_reach small_opts d (ex_commit i s)"
proof (cases "\<exists>o' t' ts es. Commit small_opts True (ss_orc s) t = Some (o', t', Inr (Some (ts, es)))")
  case True
  then obtain o' t' ts es where c: "Commit small_opts True (ss_orc s) t = Some (o', t', Inr (Some (ts, es)))" by blast
  from ssi_next [OF assms(1) commit_txn [OF assms(2,3) c]] show ?thesis
    by (simp add: ex_commit_def assms(3) c)
next
  case False
  then have "ex_commit i s = s"
    by (auto simp: ex_commit_def assms(3) split: option.splits sum.splits prod.splits)
  with assms(1) show ?thesis by simp
qed

lemma opened_alt: "opened opt d = \<lparr>ss_orc = incrementNextTs ((newOracle opt)\<lparr>o_nextTxnTs := d,
       o_txnMark := new_watermark d, o_readMark := new_watermark d\<rparr>),
     ss_txns = Map.empty, ss_started = {}, ss_log = [], ss_pending = {}\<rparr>"
  unfolding opened_def process_first_done by simp

lemmas ex_eval = ex_begin_def ex_start_def ex_read_def ex_write_def opened_alt
  newOracle_def incrementNextTs_def readTs_def newTransaction_def addReadKey_def modify_def
  record_write_def
  NewEntry_def checkSize_def estimateSizeAndSetThreshold_def set_threshold_def value_len_def
  has_prefix_def badgerPrefix_def txnKey_def maxKeySize_def isBanned_def small_opts_def
  readTs_ready_def WaitForMark_def new_watermark_def Let_def

lemmas ex_commit_eval = ex_commit_def Commit_def commitPrecheck_def commitAndSend_def newCommitTs_def
  hasConflict_def doneRead_def cleanupCommittedTransactions_def commit_entries_def Discard_def
  commit_record_def

definition ex_before :: ssi where
  "ex_before = ex_write 1 [3] (ex_read 1 [2] (ex_write 0 [1] (ex_start 1 (ex_start 0
     (ex_begin 1 (ex_begin 0 (opened small_opts 5)))))))"

definition ex_run :: ssi where
  "ex_run = ex_commit 1 (ex_commit 0 ex_before)"

lemma ex_before_reach: "ssi_reach small_opts 5 ex_before"
proof -
  let ?s1 = "ex_begin 0 (opened small_opts 5)" and ?s2 = "ex_begin 1 (ex_begin 0 (opened small_opts 5))"
  have "ssi_reach small_opts 5 ?s1"
    unfolding ex_begin_def by (rule ssi_next [OF ssi_open begin_txn]) (simp_all add: opened_def)
  then have 2: "ssi_reach small_opts 5 ?s2"
    unfolding ex_begin_def [of 1] by (rule ssi_next [OF _ begin_txn]) (simp_all add: ex_eval)
  have "ssi_reach small_opts 5 (ex_start 0 ?s2)"
    unfolding ex_start_def
    by (rule ssi_next [OF 2 start_txn [where t = "newTransaction small_opts True 5"]]) (simp_all add: ex_eval)
  then have 4: "ssi_reach small_opts 5 (ex_start 1 (ex_start 0 ?s2))"
    unfolding ex_start_def [of 1]
    by (rule ssi_next [OF _ start_txn [where t = "newTransaction small_opts True 5"]]) (simp_all add: ex_eval)
  have "ssi_reach small_opts 5 (ex_write 0 [1] (ex_start 1 (ex_start 0 ?s2)))"
    unfolding ex_write_def
    by (rule ssi_next [OF 4 write_txn [OF _ _ prod.collapse [symmetric]]]) (simp_all add: ex_eval)
  then have "ssi_reach small_opts 5 (ex_read 1 [2] (ex_write 0 [1] (ex_start 1 (ex_start 0 ?s2))))"
    unfolding ex_read_def by (rule ssi_next [OF _ iter_txn]) (simp_all add: ex_eval)
  then show ?thesis
    unfolding ex_before_def ex_write_def [of 1]
    by (rule ssi_next [OF _ write_txn [OF _ _ prod.collapse [symmetric]]]) (simp_all add: ex_eval)
qed

lemma ex_before_fields: "ss_started ex_before = {0, 1}" "\<exists>t. ss_txns ex_before 0 = Some t"
   "\<exists>t. ss_txns ex_before 1 = Some t" 
  by (auto simp: ex_before_def ex_eval)

lemma ex_commit_keeps: "ss_started (ex_commit i s) = ss_started s"
  "ss_txns s j = Some t \<Longrightarrow> \<exists>t. ss_txns (ex_commit i s) j = Some t"
  by (auto simp: ex_commit_def split: option.splits sum.splits prod.splits)

lemma ex_run_reach: "ssi_reach small_opts 5 ex_run"
proof -
  obtain t where "ss_txns ex_before 0 = Some t" using ex_before_fields by blast
  then have 1: "ssi_reach small_opts 5 (ex_commit 0 ex_before)"
    by (intro ex_commit_reach [OF ex_before_reach]) (simp_all add: ex_before_fields)
  obtain u where "ss_txns (ex_commit 0 ex_before) 1 = Some u"
    using ex_before_fields(3) ex_commit_keeps(2) by metis
  then show ?thesis
    unfolding ex_run_def by (intro ex_commit_reach [OF 1]) (simp_all add: ex_before_fields ex_commit_keeps)
qed

lemma ex_run_log: "ss_log ex_run = [\<lparr>cm_ts = 6, cm_readTs = 5, cm_reads = [], cm_keys = {1}\<rparr>,
    \<lparr>cm_ts = 7, cm_readTs = 5, cm_reads = [2], cm_keys = {3}\<rparr>]"
  by (simp add: ex_run_def ex_before_def ex_eval ex_commit_eval be_get_def)

lemma ex_run_txn: "ss_txns ex_before 1 = Some t \<Longrightarrow> tx_readTs t = 5 \<and> \<not> tx_doneRead t"
  by (auto simp: ex_before_def ex_eval)

section \<open>Properties\<close>

text \<open>
  C4: serializable snapshot isolation, in an unmanaged store that detects conflicts. Commit timestamps grow in commit order, and a
  committed transaction has read no key (fingerprint) that another one committed between
  its read and its commit timestamp, although \<open>committedTxns\<close> is cleaned up as the read
  watermark advances and the watermark goroutines lag behind.
\<close>

theorem serializable:
  assumes "ssi_reach opt d s" and "\<not> op_managedTxns opt" and "op_DetectConflicts opt"
  shows "sorted_wrt (<) (map cm_ts (ss_log s)) \<and>
    (\<forall>a \<in> set (ss_log s). \<forall>b \<in> set (ss_log s). cm_readTs a < cm_ts b \<longrightarrow> cm_ts b < cm_ts a \<longrightarrow>
       set (cm_reads a) \<inter> cm_keys b = {})"
  using ssi_inv_reach [OF assms] unfolding ssi_inv_def log_inv_def by blast

lemma serializable_witness:
  "\<exists>s. ssi_reach small_opts 5 s \<and> map cm_ts (ss_log s) = [6, 7] \<and>
    (\<forall>a \<in> set (ss_log s). \<forall>b \<in> set (ss_log s). cm_readTs a < cm_ts b \<longrightarrow> cm_ts b < cm_ts a \<longrightarrow>
       set (cm_reads a) \<inter> cm_keys b = {})"
proof -
  have "\<not> op_managedTxns small_opts" "op_DetectConflicts small_opts" by (simp_all add: small_opts_def)
  from serializable [OF ex_run_reach this] ex_run_log ex_run_reach show ?thesis
    by (intro exI [of _ ex_run]) simp
qed

text \<open>
  C11: snapshots are complete, in an unmanaged store that detects conflicts. When \<open>readTs\<close> has returned to a transaction, every commit
  at or below its read timestamp is done (its writes are in the memtable), and later
  commits get greater timestamps.
\<close>

theorem snapshot_complete:
  assumes "ssi_reach opt d s" and "\<not> op_managedTxns opt" and "op_DetectConflicts opt"
    and "i \<in> ss_started s" and "ss_txns s i = Some t"
  shows "(\<forall>c \<in> set (ss_log s). cm_ts c \<le> tx_readTs t \<longrightarrow> cm_ts c \<notin> ss_pending s) \<and>
    tx_readTs t < o_nextTxnTs (ss_orc s)"
  using ssi_inv_reach [OF assms(1-3)] assms(4,5)
  unfolding ssi_inv_def started_ok_def txns_ok_def by (meson not_le)

lemma snapshot_complete_witness:
  "\<exists>t. ss_txns ex_before 1 = Some t \<and> tx_readTs t < o_nextTxnTs (ss_orc ex_before)"
proof -
  obtain t where t: "ss_txns ex_before 1 = Some t" using ex_before_fields by blast
  have "\<not> op_managedTxns small_opts" "op_DetectConflicts small_opts" by (simp_all add: small_opts_def)
  from snapshot_complete [OF ex_before_reach this _ t] t show ?thesis by (simp add: ex_before_fields)
qed

text \<open>
  C24: in an unmanaged store that detects conflicts, no version that an active transaction may need
  is given to the compactor as discardable: \<open>discardAtOrBelow\<close> never exceeds the read timestamp of an active transaction.
\<close>

theorem discard_below_readers:
  assumes "ssi_reach opt d s" and "\<not> op_managedTxns opt" and "op_DetectConflicts opt"
    and "ss_txns s i = Some t" and "\<not> tx_doneRead t"
  shows "discardAtOrBelow (ss_orc s) \<le> tx_readTs t"
proof -
  from ssi_inv_reach [OF assms(1-3)] obtain rm where "unmanaged (ss_orc s)"
    "read_inv d rm (ss_orc s) (ss_txns s)" "txns_ok d (ss_orc s) (ss_txns s)"
    unfolding ssi_inv_def by blast
  with active_above_watermark [of d rm "ss_orc s" "ss_txns s" i t] assms(4,5) show ?thesis
    by (auto simp: discardAtOrBelow_def unmanaged_def txns_ok_def)
qed

lemma discard_below_readers_witness:
  "discardAtOrBelow (ss_orc ex_before) \<le> 5"
proof -
  obtain t where t: "ss_txns ex_before 1 = Some t" using ex_before_fields by blast
  have "\<not> op_managedTxns small_opts" "op_DetectConflicts small_opts" by (simp_all add: small_opts_def)
  from discard_below_readers [OF ex_before_reach this t] ex_run_txn [OF t] show ?thesis by simp
qed

end
