(* ===== verification/DbIter.thy ===== *)
theory DbIter
  imports Subcompact
begin

text \<open>
  The iterator of a transaction (\<open>iterator.go\<close>): \<open>parseItem\<close> picks versions from the merge
  iterator below, \<open>prefetch\<close> and \<open>Next\<close> keep a queue of items. The merge iterator is given by
  the entries it goes through (\<open>di_all\<close>) and those it has left (\<open>di_rest\<close>), as theory \<open>Iterators\<close>
  proves. Prefetched values are filled by goroutines and are left out, the clock is an argument,
  and \<open>None\<close> is a panic.
\<close>

section \<open>Items\<close>

record iter_item =
  im_key :: bytes
  im_vptr :: "bytes option"
  im_version :: u64
  im_expiresAt :: u64
  im_meta :: byte
  im_userMeta :: byte

record iter_opts =
  io_PrefetchSize :: int
  io_PrefetchValues :: bool
  io_Reverse :: bool
  io_AllVersions :: bool
  io_InternalAccess :: bool
  io_prefixIsKey :: bool
  io_Prefix :: bytes
  io_SinceTs :: u64

definition DefaultIteratorOptions :: iter_opts where
  "DefaultIteratorOptions = \<lparr>io_PrefetchSize = 100, io_PrefetchValues = True, io_Reverse = False, io_AllVersions = False,
     io_InternalAccess = False, io_prefixIsKey = False, io_Prefix = [], io_SinceTs = 0\<rparr>"

definition hasValue :: "iter_item \<Rightarrow> bool" where
  "hasValue i = (if im_meta i = 0 \<and> im_vptr i = None then False else True)"

definition DiscardEarlierVersions :: "iter_item \<Rightarrow> bool" where
  "DiscardEarlierVersions i \<longleftrightarrow> 0 < im_meta i AND bitDiscardEarlierVersions"

definition EstimatedSize :: "iter_item \<Rightarrow> int option" where
  "EstimatedSize i =
     (if \<not> hasValue i then Some 0
      else if im_meta i AND bitValuePointer = 0 then Some (int (length (im_key i)) + int (length (slice_bytes (im_vptr i))))
      else map_option (\<lambda>vp. uint (vp_Len vp)) (vp_Decode (slice_bytes (im_vptr i))))"

definition ValueSize :: "iter_item \<Rightarrow> int option" where
  "ValueSize i =
     (if \<not> hasValue i then Some 0
      else if im_meta i AND bitValuePointer = 0 then Some (int (length (slice_bytes (im_vptr i))))
      else map_option (\<lambda>vp. uint (vp_Len vp) - (int (length (im_key i)) + 8) - 6 - 4) (vp_Decode (slice_bytes (im_vptr i))))"

text \<open>\<open>append(a[:0], src...)\<close>: nil only of nil and nothing.\<close>

definition SafeCopy :: "bytes option \<Rightarrow> bytes \<Rightarrow> bytes option" where
  "SafeCopy a src = (if a = None \<and> src = [] then None else Some src)"

text \<open>The queues of items are linked lists; \<open>newItem\<close> takes a used item again.\<close>

definition newItem :: "iter_item list \<Rightarrow> iter_item \<times> iter_item list" where
  "newItem waste = (case waste of
     [] \<Rightarrow> (\<lparr>im_key = [], im_vptr = None, im_version = 0, im_expiresAt = 0, im_meta = 0, im_userMeta = 0\<rparr>, [])
   | i # is \<Rightarrow> (i, is))"

definition fill :: "iter_item \<Rightarrow> bytes \<Rightarrow> ValueStruct \<Rightarrow> iter_item" where
  "fill i ik vs = \<lparr>im_key = parse_key ik, im_vptr = SafeCopy (im_vptr i) (slice_bytes (vs_Value vs)), im_version = ParseTs ik,
     im_expiresAt = vs_ExpiresAt vs, im_meta = vs_Meta vs, im_userMeta = vs_UserMeta vs\<rparr>"

section \<open>The iterator\<close>

record db_iter =
  di_nil :: bool
  di_all :: "entry list"
  di_rest :: "entry list"
  di_readTs :: u64
  di_opt :: iter_opts
  di_item :: "iter_item option"
  di_data :: "iter_item list"
  di_waste :: "iter_item list"
  di_lastKey :: bytes
  di_scanned :: int
  di_txn :: Txn

definition setItem :: "db_iter \<Rightarrow> iter_item \<Rightarrow> db_iter" where
  "setItem it i = (case di_item it of None \<Rightarrow> it\<lparr>di_item := Some i\<rparr> | Some _ \<Rightarrow> it\<lparr>di_data := di_data it @ [i]\<rparr>)"

text \<open>The part of \<open>parseItem\<close> from \<open>FILL\<close> on: in reverse it goes on to the newest version.\<close>

fun fill_loop :: "nat \<Rightarrow> bool \<Rightarrow> u64 \<Rightarrow> iter_item list \<Rightarrow> entry list \<Rightarrow> iter_item list \<times> entry list \<times> iter_item option" where
  "fill_loop now reversed rts waste [] = (waste, [], None)"
| "fill_loop now reversed rts waste ((ik, vs) # es) =
     (if isDeletedOrExpired now (vs_Meta vs) (vs_ExpiresAt vs) then (waste, es, None)
      else
        let (i0, waste1) = newItem waste; i = fill i0 ik vs
        in if \<not> reversed then (waste1, es, Some i)
           else case es of [] \<Rightarrow> (waste1, es, Some i)
             | (mk, _) # _ \<Rightarrow>
                 if ParseTs mk \<le> rts \<and> parse_key mk = im_key i then fill_loop now reversed rts waste1 es
                 else (waste1, es, Some i))"

definition eligible :: "txn_opts \<Rightarrow> iter_opts \<Rightarrow> u64 \<Rightarrow> bytes \<Rightarrow> bool" where
  "eligible topt opt rts key \<longleftrightarrow>
     (let isInternalKey = has_prefix key badgerPrefix; version = ParseTs key
      in if \<not> io_InternalAccess opt \<and> isInternalKey then False
         else if rts < version \<or> (0 < io_SinceTs opt \<and> version \<le> io_SinceTs opt) then False
         else if \<not> isInternalKey \<and> isBanned topt key then False
         else True)"

definition parseItem :: "txn_opts \<Rightarrow> nat \<Rightarrow> db_iter \<Rightarrow> db_iter \<times> bool" where
  "parseItem topt now it =
     (case di_rest it of [] \<Rightarrow> (it, False)
      | (key, vs) # es \<Rightarrow>
          let opt = di_opt it
          in if \<not> eligible topt opt (di_readTs it) key then (it\<lparr>di_rest := es\<rparr>, False)
             else if io_AllVersions opt then
               (let (i0, waste1) = newItem (di_waste it) in ((setItem (it\<lparr>di_waste := waste1\<rparr>) (fill i0 key vs))\<lparr>di_rest := es\<rparr>, True))
             else if \<not> io_Reverse opt \<and> SameKey (di_lastKey it) key then (it\<lparr>di_rest := es\<rparr>, False)
             else
               let it1 = (if \<not> io_Reverse opt then it\<lparr>di_lastKey := key\<rparr> else it);
                   (waste1, rest1, found) = fill_loop now (io_Reverse opt) (di_readTs it) (di_waste it) (di_rest it);
                   it2 = it1\<lparr>di_waste := waste1, di_rest := rest1\<rparr>
               in case found of None \<Rightarrow> (it2, False) | Some i \<Rightarrow> (setItem it2 i, True))"

definition hasPrefix :: "db_iter \<Rightarrow> bool" where
  "hasPrefix it = (if \<not> io_Reverse (di_opt it) \<and> 0 < length (io_Prefix (di_opt it))
     then has_prefix (parse_key (fst (hd (di_rest it)))) (io_Prefix (di_opt it)) else True)"

definition goes_on :: "u64 \<Rightarrow> bytes \<Rightarrow> entry list \<Rightarrow> bool" where
  "goes_on rts ik es \<longleftrightarrow> (case es of [] \<Rightarrow> False | f # _ \<Rightarrow> ParseTs (fst f) \<le> rts \<and> parse_key (fst f) = parse_key ik)"

abbreviation dead :: "nat \<Rightarrow> ValueStruct \<Rightarrow> bool" where
  "dead now vs \<equiv> isDeletedOrExpired now (vs_Meta vs) (vs_ExpiresAt vs)"

lemma fill_loop_step:
  "fill_loop now d rts w ((ik, vs) # es) =
     (if dead now vs then (w, es, None)
      else if d \<and> goes_on rts ik es then fill_loop now d rts (snd (newItem w)) es
      else (snd (newItem w), es, Some (fill (fst (newItem w)) ik vs)))"
proof -
  have k: "im_key (fill i ik vs) = parse_key ik" for i by (simp add: fill_def)
  show ?thesis
    by (subst fill_loop.simps) (simp add: Let_def k goes_on_def split: list.split prod.split del: fill_loop.simps)
qed

declare fill_loop.simps(2) [simp del]

lemma fill_loop_shorter: "es \<noteq> [] \<Longrightarrow> length (fst (snd (fill_loop now d rts w es))) < length es"
proof (induction es arbitrary: w)
  case (Cons e es)
  obtain ik vs where e: "e = (ik, vs)" by fastforce
  show ?case
  proof (cases "goes_on rts ik es")
    case True
    then have "es \<noteq> []" by (auto simp: goes_on_def)
    then have "length (fst (snd (fill_loop now d rts (snd (newItem w)) es))) < length es" by (rule Cons.IH)
    then show ?thesis by (cases d) (simp_all add: e fill_loop_step)
  next
    case False
    then show ?thesis by (simp add: e fill_loop_step)
  qed
qed simp

lemma setItem_same [simp]: "di_rest (setItem it i) = di_rest it" "di_opt (setItem it i) = di_opt it" "di_readTs (setItem it i) = di_readTs it"
  "di_lastKey (setItem it i) = di_lastKey it"
  by (simp_all add: setItem_def split: option.split)

lemma parseItem_shorter: "di_rest it \<noteq> [] \<Longrightarrow> length (di_rest (fst (parseItem topt now it))) < length (di_rest it)"
proof -
  assume ne: "di_rest it \<noteq> []"
  then obtain key vs es where r: "di_rest it = (key, vs) # es" by (cases "di_rest it") auto
  obtain w1 r1 x where f: "fill_loop now (io_Reverse (di_opt it)) (di_readTs it) (di_waste it) (di_rest it) = (w1, r1, x)" by (metis prod.exhaust)
  have "length r1 < length (di_rest it)" using fill_loop_shorter [OF ne, of now "io_Reverse (di_opt it)" "di_readTs it" "di_waste it"] f by simp
  then show ?thesis
    using f by (simp add: parseItem_def r Let_def split: option.split prod.split)
qed

text \<open>The loops of \<open>Next\<close> (until an item is found) and \<open>prefetch\<close> (until enough are).\<close>

function parse_loop :: "txn_opts \<Rightarrow> nat \<Rightarrow> db_iter \<Rightarrow> db_iter" where
  "parse_loop topt now it =
     (if di_rest it \<noteq> [] \<and> hasPrefix it
      then let (it', found) = parseItem topt now it in if found then it' else parse_loop topt now it'
      else it)"
  by pat_completeness auto
termination
proof (relation "measure (\<lambda>(_, _, it). length (di_rest it))", simp)
  fix topt now it p it' found
  assume "di_rest it \<noteq> [] \<and> hasPrefix it" "p = parseItem topt now it" "(it', found) = p"
  then show "((topt, now, it'), topt, now, it) \<in> measure (\<lambda>(_, _, it). length (di_rest it))"
    using parseItem_shorter [of it topt now] by (metis (mono_tags, lifting) fst_conv in_measure old.prod.case)
qed

function prefetch_loop :: "txn_opts \<Rightarrow> nat \<Rightarrow> int \<Rightarrow> int \<Rightarrow> db_iter \<Rightarrow> db_iter" where
  "prefetch_loop topt now prefetchSize c it =
     (if di_rest it \<noteq> [] \<and> hasPrefix it
      then let (it', found) = parseItem topt now it
        in if \<not> found then prefetch_loop topt now prefetchSize c it'
           else if c + 1 = prefetchSize then it'
           else prefetch_loop topt now prefetchSize (c + 1) it'
      else it)"
  by pat_completeness auto
termination
proof (relation "measure (\<lambda>(_, _, _, _, it). length (di_rest it))", simp)
  fix topt now sz c it p it' found
  assume "di_rest it \<noteq> [] \<and> hasPrefix it" "p = parseItem topt now it" "(it', found) = p"
  then have "length (di_rest it') < length (di_rest it)"
    using parseItem_shorter [of it topt now] by (metis fst_conv)
  then show "((topt, now, sz, c, it'), topt, now, sz, c, it) \<in> measure (\<lambda>(_, _, _, _, it). length (di_rest it))"
    and "((topt, now, sz, c + 1, it'), topt, now, sz, c, it) \<in> measure (\<lambda>(_, _, _, _, it). length (di_rest it))" by simp_all
qed

declare parse_loop.simps [simp del] prefetch_loop.simps [simp del]

definition prefetch :: "txn_opts \<Rightarrow> nat \<Rightarrow> db_iter \<Rightarrow> db_iter" where
  "prefetch topt now it =
     (let opt = di_opt it; prefetchSize = (if io_PrefetchValues opt \<and> 1 < io_PrefetchSize opt then io_PrefetchSize opt else 2)
      in prefetch_loop topt now prefetchSize 0 (it\<lparr>di_item := None\<rparr>))"

definition di_Valid :: "db_iter \<Rightarrow> bool" where
  "di_Valid it = (case di_item it of None \<Rightarrow> False
     | Some i \<Rightarrow> if io_prefixIsKey (di_opt it) then im_key i = io_Prefix (di_opt it) else has_prefix (im_key i) (io_Prefix (di_opt it)))"

definition di_ValidForPrefix :: "db_iter \<Rightarrow> bytes \<Rightarrow> bool" where
  "di_ValidForPrefix it pfx \<longleftrightarrow> di_Valid it \<and> (case di_item it of None \<Rightarrow> False | Some i \<Rightarrow> has_prefix (im_key i) pfx)"

text \<open>\<open>Item\<close> panics where there is none; so does \<open>Next\<close>.\<close>

definition di_Item :: "txn_opts \<Rightarrow> db_iter \<Rightarrow> (db_iter \<times> iter_item) option" where
  "di_Item topt it = map_option (\<lambda>i. (it\<lparr>di_txn := addReadKey topt (di_txn it) (im_key i)\<rparr>, i)) (di_item it)"

definition di_Next :: "txn_opts \<Rightarrow> nat \<Rightarrow> db_iter \<Rightarrow> db_iter option" where
  "di_Next topt now it = (if di_nil it then Some it else case di_item it of None \<Rightarrow> None
     | Some i \<Rightarrow>
         let it1 = it\<lparr>di_scanned := di_scanned it + int (length (im_key i)) + int (length (slice_bytes (im_vptr i))) + 2,
               di_waste := di_waste it @ [i]\<rparr>;
             it2 = (case di_data it1 of [] \<Rightarrow> it1\<lparr>di_item := None\<rparr> | j # js \<Rightarrow> it1\<lparr>di_item := Some j, di_data := js\<rparr>)
         in Some (parse_loop topt now it2))"

definition di_Seek :: "txn_opts \<Rightarrow> nat \<Rightarrow> bytes \<Rightarrow> db_iter \<Rightarrow> db_iter" where
  "di_Seek topt now key0 it0 =
     (if di_nil it0 then it0
      else let it1 = (if 0 < length key0 then it0\<lparr>di_txn := addReadKey topt (di_txn it0) key0\<rparr> else it0);
          it = it1\<lparr>di_data := [], di_waste := di_waste it1 @ di_data it1, di_lastKey := []\<rparr>;
          key = (if length key0 = 0 then io_Prefix (di_opt it) else key0);
          d = io_Reverse (di_opt it)
      in if length key = 0 then prefetch topt now (it\<lparr>di_rest := di_all it\<rparr>)
         else prefetch topt now (it\<lparr>di_rest := filter (\<lambda>e. \<not> before d (fst e)
                (KeyWithTs key (if \<not> d then di_readTs it else 0))) (di_all it)\<rparr>))"

definition di_Rewind :: "txn_opts \<Rightarrow> nat \<Rightarrow> db_iter \<Rightarrow> db_iter" where
  "di_Rewind topt now it = di_Seek topt now [] it"

text \<open>The user's loop \<open>for it.Seek(key); it.Valid(); it.Next()\<close>.\<close>

fun scan :: "txn_opts \<Rightarrow> nat \<Rightarrow> nat \<Rightarrow> db_iter \<Rightarrow> iter_item list option" where
  "scan topt now 0 it = Some []"
| "scan topt now (Suc n) it =
     (if \<not> di_Valid it then Some []
      else Option.bind (di_Item topt it) (\<lambda>(it1, i). Option.bind (di_Next topt now it1) (\<lambda>it2.
        map_option (Cons i) (scan topt now n it2))))"

section \<open>What a scan returns\<close>

type_synonym shown = "bytes \<times> u64 \<times> ValueStruct"

definition entry_out :: "entry \<Rightarrow> shown" where
  "entry_out e = (parse_key (fst e), ParseTs (fst e), (snd e)\<lparr>vs_Value := Some (slice_bytes (vs_Value (snd e))), vs_Version := 0\<rparr>)"

definition shown_item :: "iter_item \<Rightarrow> shown" where
  "shown_item i = (im_key i, im_version i, \<lparr>vs_Meta = im_meta i, vs_UserMeta = im_userMeta i, vs_ExpiresAt = im_expiresAt i,
     vs_Value = Some (slice_bytes (im_vptr i)), vs_Version = 0\<rparr>)"

lemma shown_fill [simp]: "shown_item (fill i ik vs) = entry_out (ik, vs)"
  by (auto simp: shown_item_def fill_def entry_out_def SafeCopy_def slice_bytes_def)

text \<open>Which item is recycled makes no difference.\<close>

definition picked :: "nat \<Rightarrow> bool \<Rightarrow> u64 \<Rightarrow> entry list \<Rightarrow> entry list \<times> shown list" where
  "picked now d rts es = (let (w, r, x) = fill_loop now d rts [] es in (r, case x of None \<Rightarrow> [] | Some i \<Rightarrow> [shown_item i]))"

lemma fill_loop_waste:
  "fst (snd (fill_loop now d rts w es)) = fst (snd (fill_loop now d rts v es)) \<and>
    map_option shown_item (snd (snd (fill_loop now d rts w es))) = map_option shown_item (snd (snd (fill_loop now d rts v es)))"
proof (induction es arbitrary: w v)
  case (Cons e es)
  obtain ik vs where e: "e = (ik, vs)" by fastforce
  show ?case using Cons.IH [of "snd (newItem w)" "snd (newItem v)"] by (cases d) (simp_all add: e fill_loop_step)
qed simp

lemma fill_loop_picked:
  assumes "fill_loop now d rts w es = (w', r, x)"
  shows "r = fst (picked now d rts es)" and "(case x of None \<Rightarrow> [] | Some i \<Rightarrow> [shown_item i]) = snd (picked now d rts es)"
proof -
  obtain w1 r1 x1 where f: "fill_loop now d rts [] es = (w1, r1, x1)" by (metis prod.exhaust)
  have "r = r1" "map_option shown_item x = map_option shown_item x1" using fill_loop_waste [of now d rts w es "[]"] assms f by simp_all
  then show "r = fst (picked now d rts es)" and "(case x of None \<Rightarrow> [] | Some i \<Rightarrow> [shown_item i]) = snd (picked now d rts es)"
    by (cases x; cases x1; simp add: picked_def f)+
qed

lemma picked_step:
  "picked now d rts ((ik, vs) # es) =
     (if dead now vs then (es, []) else if d \<and> goes_on rts ik es then picked now d rts es else (es, [entry_out (ik, vs)]))"
proof -
  have "picked now d rts es = (fst (snd (fill_loop now d rts w es)), case snd (snd (fill_loop now d rts w es)) of None \<Rightarrow> [] | Some i \<Rightarrow> [shown_item i])" for w
    using fill_loop_picked [of now d rts w es] by (cases "fill_loop now d rts w es") simp
  then show ?thesis by (cases d) (simp_all add: picked_def [of _ _ _ "(ik, vs) # es"] fill_loop_step case_prod_unfold Let_def)
qed

lemma picked_shorter: "es \<noteq> [] \<Longrightarrow> length (fst (picked now d rts es)) < length es"
  using fill_loop_shorter [of es now d rts "[]"] by (simp add: picked_def case_prod_unfold Let_def)

text \<open>The items that come out one after the other, without the queue.\<close>

function outputs :: "txn_opts \<Rightarrow> nat \<Rightarrow> iter_opts \<Rightarrow> u64 \<Rightarrow> bytes \<Rightarrow> entry list \<Rightarrow> shown list" where
  "outputs topt now opt rts lk es =
     (if es = [] \<or> \<not> io_Reverse opt \<and> \<not> has_prefix (parse_key (fst (hd es))) (io_Prefix opt) then []
      else if \<not> eligible topt opt rts (fst (hd es)) then outputs topt now opt rts lk (tl es)
      else if io_AllVersions opt then entry_out (hd es) # outputs topt now opt rts lk (tl es)
      else if \<not> io_Reverse opt \<and> SameKey lk (fst (hd es)) then outputs topt now opt rts lk (tl es)
      else snd (picked now (io_Reverse opt) rts es) @
        outputs topt now opt rts (if io_Reverse opt then lk else fst (hd es)) (fst (picked now (io_Reverse opt) rts es)))"
  by pat_completeness auto
termination
  by (relation "measure (\<lambda>(_, _, _, _, _, es). length es)") (auto intro: picked_shorter)

declare outputs.simps [simp del]

definition queue :: "db_iter \<Rightarrow> shown list" where
  "queue it = (case di_item it of None \<Rightarrow> [] | Some i \<Rightarrow> map shown_item (i # di_data it))"

definition ahead :: "txn_opts \<Rightarrow> nat \<Rightarrow> db_iter \<Rightarrow> shown list" where
  "ahead topt now it = queue it @ outputs topt now (di_opt it) (di_readTs it) (di_lastKey it) (di_rest it)"

definition queue_wf :: "db_iter \<Rightarrow> bool" where
  "queue_wf it \<longleftrightarrow> (di_item it = None \<longrightarrow> di_data it = [])"

definition same_run :: "db_iter \<Rightarrow> db_iter \<Rightarrow> bool" where
  "same_run it it' \<longleftrightarrow> di_opt it' = di_opt it \<and> di_readTs it' = di_readTs it \<and> di_all it' = di_all it \<and> di_nil it' = di_nil it"

lemma queue_setItem [simp]: "queue_wf it \<Longrightarrow> queue (setItem it i) = queue it @ [shown_item i]"
  by (auto simp: queue_def setItem_def queue_wf_def split: option.split)

lemma queue_same [simp]: "queue (it\<lparr>di_rest := r\<rparr>) = queue it" "queue (it\<lparr>di_waste := w\<rparr>) = queue it" "queue (it\<lparr>di_lastKey := k\<rparr>) = queue it"
  by (simp_all add: queue_def split: option.split)

lemma wf_same [simp]: "queue_wf (it\<lparr>di_rest := r\<rparr>) = queue_wf it" "queue_wf (it\<lparr>di_waste := w\<rparr>) = queue_wf it"
  "queue_wf (it\<lparr>di_lastKey := k\<rparr>) = queue_wf it" "queue_wf (setItem it i)"
  by (auto simp: queue_wf_def setItem_def split: option.split)

lemma run_setItem [simp]: "di_all (setItem it i) = di_all it" "di_nil (setItem it i) = di_nil it"
  by (simp_all add: setItem_def split: option.split)

lemma parse_ahead:
  assumes ne: "di_rest it \<noteq> []" and hp: "hasPrefix it" and wf: "queue_wf it" and p: "parseItem topt now it = (it', found)"
  shows "ahead topt now it' = ahead topt now it \<and> queue_wf it' \<and> same_run it it' \<and> (found \<longrightarrow> queue it' \<noteq> []) \<and> (\<not> found \<longrightarrow> queue it' = queue it)"
proof -
  obtain key vs es where r: "di_rest it = (key, vs) # es" using ne by (cases "di_rest it") auto
  have hp': "\<not> (di_rest it = [] \<or> \<not> io_Reverse (di_opt it) \<and> \<not> has_prefix (parse_key (fst (hd (di_rest it)))) (io_Prefix (di_opt it)))"
    using hp ne by (auto simp: hasPrefix_def has_prefix_def split: if_splits)
  note out = outputs.simps [of topt now "di_opt it" "di_readTs it" "di_lastKey it" "di_rest it", unfolded if_not_P [OF hp'], unfolded r list.sel fst_conv]
  obtain w1 r1 x where f: "fill_loop now (io_Reverse (di_opt it)) (di_readTs it) (di_waste it) ((key, vs) # es) = (w1, r1, x)" by (metis prod.exhaust)
  note pk = fill_loop_picked [OF f]
  obtain i0 w0 where n: "newItem (di_waste it) = (i0, w0)" by fastforce
  note parse = p [unfolded parseItem_def r list.case prod.case Let_def f n]
  show ?thesis
  proof (cases "eligible topt (di_opt it) (di_readTs it) key")
    case False
    then have "it' = it\<lparr>di_rest := es\<rparr>" "\<not> found" using parse by auto
    then show ?thesis using out False wf r by (simp add: ahead_def same_run_def)
  next
    case el: True
    show ?thesis
    proof (cases "io_AllVersions (di_opt it)")
      case True
      then have "it' = (setItem (it\<lparr>di_waste := w0\<rparr>) (fill i0 key vs))\<lparr>di_rest := es\<rparr>" "found" using parse el by auto
      then show ?thesis using out True el wf r by (simp add: ahead_def same_run_def)
    next
      case av: False
      show ?thesis
      proof (cases "\<not> io_Reverse (di_opt it) \<and> SameKey (di_lastKey it) key")
        case True
        then have "it' = it\<lparr>di_rest := es\<rparr>" "\<not> found" using parse el av by auto
        then show ?thesis using out True el av wf r by (simp add: ahead_def same_run_def)
      next
        case False
        let ?it1 = "if \<not> io_Reverse (di_opt it) then it\<lparr>di_lastKey := key\<rparr> else it"
        let ?it2 = "?it1\<lparr>di_waste := w1, di_rest := r1\<rparr>"
        have it': "(it', found) = (case x of None \<Rightarrow> (?it2, False) | Some i \<Rightarrow> (setItem ?it2 i, True))"
          using parse el av False by (simp add: r)
        have o2: "outputs topt now (di_opt it) (di_readTs it) (di_lastKey it) (di_rest it) =
          snd (picked now (io_Reverse (di_opt it)) (di_readTs it) ((key, vs) # es)) @
          outputs topt now (di_opt it) (di_readTs it) (if io_Reverse (di_opt it) then di_lastKey it else key)
            (fst (picked now (io_Reverse (di_opt it)) (di_readTs it) ((key, vs) # es)))"
          using out el av False by (simp add: r)
        have q: "queue ?it2 = queue it" "queue_wf ?it2" using wf by simp_all
        show ?thesis
          using it' q o2 pk by (cases x) (auto simp: ahead_def same_run_def)
      qed
    qed
  qed
qed

lemma same_run_refl [simp]: "same_run it it"
  by (simp add: same_run_def)

lemma same_run_trans: "same_run a b \<Longrightarrow> same_run b c \<Longrightarrow> same_run a c"
  by (simp add: same_run_def)

definition ready :: "txn_opts \<Rightarrow> nat \<Rightarrow> db_iter \<Rightarrow> bool" where
  "ready topt now it \<longleftrightarrow> queue_wf it \<and> (queue it = [] \<longrightarrow> ahead topt now it = [])"

lemma ahead_stop:
  assumes "\<not> (di_rest it \<noteq> [] \<and> hasPrefix it)"
  shows "ahead topt now it = queue it"
proof -
  have "di_rest it = [] \<or> \<not> io_Reverse (di_opt it) \<and> \<not> has_prefix (parse_key (fst (hd (di_rest it)))) (io_Prefix (di_opt it))"
    using assms by (auto simp: hasPrefix_def has_prefix_def split: if_splits)
  then show ?thesis unfolding ahead_def by (subst outputs.simps) simp
qed

lemma parse_loop_ahead:
  "queue_wf it \<Longrightarrow> ahead topt now (parse_loop topt now it) = ahead topt now it \<and> ready topt now (parse_loop topt now it) \<and>
    same_run it (parse_loop topt now it)"
proof (induction topt now it rule: parse_loop.induct)
  case (1 topt now it)
  show ?case
  proof (cases "di_rest it \<noteq> [] \<and> hasPrefix it")
    case False
    have "parse_loop topt now it = it" by (subst parse_loop.simps) (simp only: False if_False)
    then show ?thesis using "1.prems" ahead_stop [OF False] by (simp add: ready_def)
  next
    case True
    obtain it' found where p: "parseItem topt now it = (it', found)" by fastforce
    note step = parse_ahead [OF conjunct1 [OF True] conjunct2 [OF True] "1.prems" p]
    have l: "parse_loop topt now it = (if found then it' else parse_loop topt now it')"
      by (subst parse_loop.simps) (simp add: True p)
    show ?thesis
    proof (cases found)
      case True
      then show ?thesis using step by (simp add: l ready_def)
    next
      case False
      have "ahead topt now (parse_loop topt now it') = ahead topt now it' \<and> ready topt now (parse_loop topt now it') \<and>
          same_run it' (parse_loop topt now it')"
        by (rule "1.IH" [OF True p [symmetric] refl False]) (use step in simp)
      then show ?thesis using step False same_run_trans by (simp add: l) blast
    qed
  qed
qed

lemma prefetch_loop_ahead:
  "queue_wf it \<Longrightarrow> ahead topt now (prefetch_loop topt now sz c it) = ahead topt now it \<and> ready topt now (prefetch_loop topt now sz c it) \<and>
    same_run it (prefetch_loop topt now sz c it)"
proof (induction topt now sz c it rule: prefetch_loop.induct)
  case (1 topt now sz c it)
  show ?case
  proof (cases "di_rest it \<noteq> [] \<and> hasPrefix it")
    case False
    have "prefetch_loop topt now sz c it = it" by (subst prefetch_loop.simps) (simp only: False if_False)
    then show ?thesis using "1.prems" ahead_stop [OF False] by (simp add: ready_def)
  next
    case True
    obtain it' found where p: "parseItem topt now it = (it', found)" by fastforce
    note step = parse_ahead [OF conjunct1 [OF True] conjunct2 [OF True] "1.prems" p]
    have wf': "queue_wf it'" using step by simp
    have l: "prefetch_loop topt now sz c it =
        (if \<not> found then prefetch_loop topt now sz c it' else if c + 1 = sz then it' else prefetch_loop topt now sz (c + 1) it')"
      by (subst prefetch_loop.simps) (simp add: True p)
    consider "\<not> found" | "found" "c + 1 = sz" | "found" "c + 1 \<noteq> sz" by blast
    then show ?thesis
    proof cases
      case 1
      note rec = "1.IH"(1) [OF True p [symmetric] refl 1 wf']
      show ?thesis using rec step 1 same_run_trans by (simp add: l) blast
    next
      case 2
      then show ?thesis using step by (simp add: l ready_def)
    next
      case 3
      have nn: "\<not> \<not> found" using 3 by simp
      note rec = "1.IH"(2) [OF True p [symmetric] refl nn 3(2) wf']
      show ?thesis using rec step 3 same_run_trans by (simp add: l) blast
    qed
  qed
qed

definition shown_valid :: "iter_opts \<Rightarrow> shown \<Rightarrow> bool" where
  "shown_valid opt s = (if io_prefixIsKey opt then fst s = io_Prefix opt else has_prefix (fst s) (io_Prefix opt))"

lemma Valid_ahead:
  assumes "ready topt now it"
  shows "di_Valid it \<longleftrightarrow> ahead topt now it \<noteq> [] \<and> shown_valid (di_opt it) (hd (ahead topt now it))"
proof (cases "di_item it")
  case None
  then show ?thesis using assms by (simp add: di_Valid_def ready_def queue_def)
next
  case (Some i)
  then show ?thesis by (simp add: di_Valid_def ahead_def queue_def shown_valid_def shown_item_def)
qed

lemma Next_ahead:
  assumes wf: "queue_wf it" and i: "di_item it = Some i" and nil: "\<not> di_nil it"
  shows "\<exists>it'. di_Next topt now it = Some it' \<and> ahead topt now it' = tl (ahead topt now it) \<and> ready topt now it' \<and> same_run it it' \<and>
    hd (ahead topt now it) = shown_item i \<and> ahead topt now it \<noteq> []"
proof -
  let ?it1 = "it\<lparr>di_scanned := di_scanned it + int (length (im_key i)) + int (length (slice_bytes (im_vptr i))) + 2, di_waste := di_waste it @ [i]\<rparr>"
  let ?it2 = "case di_data ?it1 of [] \<Rightarrow> ?it1\<lparr>di_item := None\<rparr> | j # js \<Rightarrow> ?it1\<lparr>di_item := Some j, di_data := js\<rparr>"
  have two: "queue_wf ?it2 \<and> same_run it ?it2 \<and> ahead topt now ?it2 = tl (ahead topt now it)"
    using i by (cases "di_data it") (simp_all add: queue_wf_def same_run_def ahead_def queue_def)
  have "di_Next topt now it = Some (parse_loop topt now ?it2)" by (simp add: di_Next_def i nil Let_def)
  moreover have "hd (ahead topt now it) = shown_item i \<and> ahead topt now it \<noteq> []" by (simp add: ahead_def queue_def i)
  moreover note p = parse_loop_ahead [OF conjunct1 [OF two], of topt now]
  moreover have "same_run it (parse_loop topt now ?it2)" by (rule same_run_trans [of _ ?it2]) (use two p in simp_all)
  ultimately show ?thesis using two by (intro exI [of _ "parse_loop topt now ?it2"]) simp
qed

lemma scan_ahead:
  "ready topt now it \<Longrightarrow> \<not> di_nil it \<Longrightarrow>
    map_option (map shown_item) (scan topt now n it) = Some (take n (takeWhile (shown_valid (di_opt it)) (ahead topt now it)))"
proof (induction n arbitrary: it)
  case (Suc n)
  note V = Valid_ahead [OF Suc.prems(1)]
  show ?case
  proof (cases "di_Valid it")
    case False
    then show ?thesis using V by (cases "ahead topt now it") auto
  next
    case True
    then obtain i where i: "di_item it = Some i" by (auto simp: di_Valid_def split: option.splits)
    let ?it1 = "it\<lparr>di_txn := addReadKey topt (di_txn it) (im_key i)\<rparr>"
    have one: "queue_wf ?it1" "di_item ?it1 = Some i" "ahead topt now ?it1 = ahead topt now it" "same_run it ?it1" "\<not> di_nil ?it1"
      using Suc.prems i by (simp_all add: ready_def queue_wf_def ahead_def queue_def same_run_def)
    obtain it' where n: "di_Next topt now ?it1 = Some it'" "ahead topt now it' = tl (ahead topt now it)" "ready topt now it'" "same_run ?it1 it'"
        "hd (ahead topt now it) = shown_item i" "ahead topt now it \<noteq> []"
      using Next_ahead [OF one(1,2,5), of topt now, unfolded one(3)] by (elim exE conjE) (rule that, assumption+)
    have o: "di_opt it' = di_opt it" "\<not> di_nil it'" using n(4) Suc.prems(2) by (simp_all add: same_run_def)
    obtain js where s: "scan topt now n it' = Some js" "map shown_item js = take n (takeWhile (shown_valid (di_opt it)) (tl (ahead topt now it)))"
      using Suc.IH [OF n(3) o(2)] by (auto simp: o(1) n(2))
    have "scan topt now (Suc n) it = Some (i # js)"
      using True by (simp add: di_Item_def i n(1) s(1))
    then show ?thesis using V True n(5,6) s(2) by (cases "ahead topt now it") auto
  qed
qed simp

definition seek_key :: "db_iter \<Rightarrow> bytes \<Rightarrow> bytes" where
  "seek_key it key0 = (if length key0 = 0 then io_Prefix (di_opt it) else key0)"

definition from_key :: "db_iter \<Rightarrow> bytes \<Rightarrow> entry list" where
  "from_key it key = (if key = [] then di_all it else filter (\<lambda>e. \<not> before (io_Reverse (di_opt it)) (fst e)
     (KeyWithTs key (if \<not> io_Reverse (di_opt it) then di_readTs it else 0))) (di_all it))"

lemma prefetch_ahead:
  assumes "di_data it = []"
  shows "ahead topt now (prefetch topt now it) = outputs topt now (di_opt it) (di_readTs it) (di_lastKey it) (di_rest it) \<and>
    ready topt now (prefetch topt now it) \<and> same_run it (prefetch topt now it)"
proof -
  have "queue_wf (it\<lparr>di_item := None\<rparr>)" using assms by (simp add: queue_wf_def)
  note P = prefetch_loop_ahead [OF this]
  show ?thesis unfolding prefetch_def Let_def using P by (simp add: ahead_def [of _ _ "it\<lparr>di_item := None\<rparr>"] queue_def same_run_def)
qed

lemma Seek_ahead:
  "\<not> di_nil it \<Longrightarrow> ahead topt now (di_Seek topt now key it) = outputs topt now (di_opt it) (di_readTs it) [] (from_key it (seek_key it key)) \<and>
    ready topt now (di_Seek topt now key it) \<and> same_run it (di_Seek topt now key it)"
proof -
  assume nil: "\<not> di_nil it"
  let ?it0 = "if 0 < length key then it\<lparr>di_txn := addReadKey topt (di_txn it) key\<rparr> else it"
  let ?it = "?it0\<lparr>di_data := [], di_waste := di_waste ?it0 @ di_data ?it0, di_lastKey := [], di_rest := from_key it (seek_key it key)\<rparr>"
  have "di_Seek topt now key it = prefetch topt now ?it"
    by (simp add: di_Seek_def nil Let_def seek_key_def from_key_def)
  then show ?thesis using prefetch_ahead [of ?it topt now] by (simp add: same_run_def split: if_splits)
qed

section \<open>The entries a scan returns\<close>

text \<open>The newest version that the iterator may show, of a user key among the entries, unless it is deleted.\<close>

definition returned :: "txn_opts \<Rightarrow> nat \<Rightarrow> iter_opts \<Rightarrow> u64 \<Rightarrow> entry list \<Rightarrow> entry \<Rightarrow> bool" where
  "returned topt now opt rts es e \<longleftrightarrow> eligible topt opt rts (fst e) \<and> \<not> dead now (snd e) \<and>
     (\<forall>f \<in> set es. parse_key (fst f) = parse_key (fst e) \<longrightarrow> eligible topt opt rts (fst f) \<longrightarrow> ParseTs (fst f) \<le> ParseTs (fst e))"

lemma returned_Cons:
  "returned topt now opt rts (x # es) e \<longleftrightarrow> returned topt now opt rts es e \<and>
     (parse_key (fst x) = parse_key (fst e) \<longrightarrow> eligible topt opt rts (fst x) \<longrightarrow> ParseTs (fst x) \<le> ParseTs (fst e))"
  by (auto simp: returned_def)

lemma has_prefix_Cons_filter [simp]: "has_prefix xs []"
  by (simp add: has_prefix_def)

lemma stored_len: "stored_key k \<Longrightarrow> 8 < length k"
  by (simp add: stored_key_def)

text \<open>Forward: of the entries of a user key the first that may be shown is the newest.\<close>

lemma outputs_forward:
  assumes opt: "\<not> io_Reverse opt" "\<not> io_AllVersions opt"
  shows "sorted_wrt key_less (map fst es) \<Longrightarrow> (\<forall>e \<in> set es. stored_key (fst e)) \<Longrightarrow>
    lk = [] \<or> stored_key lk \<and> (\<forall>e \<in> set es. key_less lk (fst e)) \<Longrightarrow>
    outputs topt now opt rts lk es = map entry_out (filter (\<lambda>e. returned topt now opt rts es e \<and> (lk = [] \<or> parse_key lk \<noteq> parse_key (fst e)))
      (takeWhile (\<lambda>e. has_prefix (parse_key (fst e)) (io_Prefix opt)) es))"
proof (induction es arbitrary: lk)
  case Nil
  then show ?case by (subst outputs.simps) simp
next
  case (Cons x es)
  let ?P = "\<lambda>e. has_prefix (parse_key (fst e)) (io_Prefix opt)" and ?el = "\<lambda>e. eligible topt opt rts (fst e)"
  have so: "sorted_wrt key_less (map fst es)" and st: "\<forall>e \<in> set es. stored_key (fst e)" and sx: "stored_key (fst x)"
    and lt: "\<forall>e \<in> set es. key_less (fst x) (fst e)" using Cons.prems(1,2) by auto
  have ts: "ParseTs (fst e) < ParseTs (fst x)" if "e \<in> set es" "parse_key (fst e) = parse_key (fst x)" for e
    using key_less_stored [OF stored_len [OF sx] stored_len [OF bspec [OF st that(1)]]] bspec [OF lt that(1)] that(2) by simp
  have lk': "lk = [] \<or> stored_key lk \<and> (\<forall>e \<in> set es. key_less lk (fst e))" using Cons.prems(3) by auto
  note IH = Cons.IH [OF so st]
  show ?case
  proof (cases "?P x")
    case False
    then show ?thesis using opt by (subst outputs.simps) simp
  next
    case P: True
    note step = outputs.simps [of topt now opt rts lk "x # es", unfolded list.sel]
    show ?thesis
    proof (cases "?el x")
      case False
      have "returned topt now opt rts (x # es) = returned topt now opt rts es" using False by (auto simp: fun_eq_iff returned_Cons)
      moreover have "\<not> returned topt now opt rts es x" using False by (simp add: returned_def)
      ultimately show ?thesis using IH [OF lk'] step P False by simp
    next
      case el: True
      show ?thesis
      proof (cases "lk \<noteq> [] \<and> parse_key lk = parse_key (fst x)")
        case True
        then have sk: "SameKey lk (fst x)" using SameKey_iff Cons.prems(3) sx stored_key_ok by blast
        have eq: "returned topt now opt rts (x # es) e \<and> (lk = [] \<or> parse_key lk \<noteq> parse_key (fst e)) \<longleftrightarrow>
            returned topt now opt rts es e \<and> (lk = [] \<or> parse_key lk \<noteq> parse_key (fst e))" for e
          using True by (auto simp: returned_Cons)
        then have fe: "(\<lambda>e. returned topt now opt rts (x # es) e \<and> (lk = [] \<or> parse_key lk \<noteq> parse_key (fst e))) =
            (\<lambda>e. returned topt now opt rts es e \<and> (lk = [] \<or> parse_key lk \<noteq> parse_key (fst e)))" by (intro ext) simp
        have "outputs topt now opt rts lk (x # es) = outputs topt now opt rts lk es" using step P el opt sk by simp
        then show ?thesis using P True unfolding fe IH [OF lk'] by simp
      next
        case new: False
        then have sk: "\<not> SameKey lk (fst x)" using SameKey_iff Cons.prems(3) sx stored_key_ok stored_len [OF sx]
          by (cases "lk = []") (auto simp: SameKey_def)
        have eq: "returned topt now opt rts (x # es) e \<and> (lk = [] \<or> parse_key lk \<noteq> parse_key (fst e)) \<longleftrightarrow>
            returned topt now opt rts es e \<and> (fst x = [] \<or> parse_key (fst x) \<noteq> parse_key (fst e))" if e: "e \<in> set es" for e
        proof (cases "parse_key (fst e) = parse_key (fst x)")
          case True
          then show ?thesis using ts [OF e] sx el by (auto simp: returned_Cons stored_key_def)
        next
          case False
          have "lk = [] \<or> parse_key lk \<noteq> parse_key (fst e)"
          proof (rule ccontr)
            assume "\<not> ?thesis"
            then have l: "lk \<noteq> []" "parse_key lk = parse_key (fst e)" by auto
            then have s: "stored_key lk" "key_less lk (fst x)" using Cons.prems(3) by auto
            have "parse_key (fst x) < parse_key (fst e)"
              using key_less_stored [OF stored_len [OF sx] stored_len [OF bspec [OF st e]]] bspec [OF lt e] False by simp
            moreover have "parse_key lk < parse_key (fst x)"
              using key_less_stored [OF stored_len [OF s(1)] stored_len [OF sx]] s(2) new l(1) by simp
            ultimately show False using l(2) by simp
          qed
          then show ?thesis using False by (auto simp: returned_Cons)
        qed
        have rx: "returned topt now opt rts (x # es) x \<longleftrightarrow> \<not> dead now (snd x)"
          using el less_imp_le [OF ts] by (auto simp: returned_def)
        have pk: "picked now False rts (x # es) = (es, if dead now (snd x) then [] else [entry_out x])"
          by (cases x) (simp add: picked_step)
        have I: "outputs topt now opt rts (fst x) es = map entry_out (filter (\<lambda>e. returned topt now opt rts es e \<and>
            (fst x = [] \<or> parse_key (fst x) \<noteq> parse_key (fst e))) (takeWhile ?P es))" using lt sx by (intro IH) simp
        have "filter (\<lambda>e. returned topt now opt rts (x # es) e \<and> (lk = [] \<or> parse_key lk \<noteq> parse_key (fst e))) (takeWhile ?P es) =
            filter (\<lambda>e. returned topt now opt rts es e \<and> (fst x = [] \<or> parse_key (fst x) \<noteq> parse_key (fst e))) (takeWhile ?P es)"
          using eq by (intro filter_cong refl) (auto dest: set_takeWhileD)
        then show ?thesis using I step P el opt sk new rx by (auto simp: pk)
      qed
    qed
  qed
qed

text \<open>Backward the entries of a user key come oldest first; banned keys must not depend on the version.\<close>

definition uniform :: "txn_opts \<Rightarrow> u64 \<Rightarrow> entry list \<Rightarrow> bool" where
  "uniform topt rts es \<longleftrightarrow> (\<forall>e \<in> set es. \<forall>f \<in> set es. parse_key (fst e) = parse_key (fst f) \<longrightarrow> ParseTs (fst e) \<le> rts \<longrightarrow> ParseTs (fst f) \<le> rts \<longrightarrow>
     has_prefix (fst e) badgerPrefix = has_prefix (fst f) badgerPrefix \<and> isBanned topt (fst e) = isBanned topt (fst f))"

lemma uniform_subset: "uniform topt rts es \<Longrightarrow> set fs \<subseteq> set es \<Longrightarrow> uniform topt rts fs"
  unfolding uniform_def by (meson subsetD)

lemma uniform_same:
  "uniform topt rts es \<Longrightarrow> e \<in> set es \<Longrightarrow> f \<in> set es \<Longrightarrow> parse_key (fst e) = parse_key (fst f) \<Longrightarrow> ParseTs (fst e) \<le> rts \<Longrightarrow> ParseTs (fst f) \<le> rts \<Longrightarrow>
    has_prefix (fst e) badgerPrefix = has_prefix (fst f) badgerPrefix \<and> isBanned topt (fst e) = isBanned topt (fst f)"
  unfolding uniform_def by meson

lemma eligible_ts: "eligible topt opt rts k \<Longrightarrow> ParseTs k \<le> rts"
  by (auto simp: eligible_def Let_def split: if_splits)

lemma outputs_backward:
  assumes opt: "io_Reverse opt" "\<not> io_AllVersions opt"
  shows "sorted_wrt (\<lambda>a b. key_less b a) (map fst es) \<Longrightarrow> (\<forall>e \<in> set es. stored_key (fst e)) \<Longrightarrow> uniform topt rts es \<Longrightarrow>
    outputs topt now opt rts lk es = map entry_out (filter (returned topt now opt rts es) es)"
proof (induction es)
  case Nil
  then show ?case by (subst outputs.simps) simp
next
  case (Cons x es)
  have so: "sorted_wrt (\<lambda>a b. key_less b a) (map fst es)" and st: "\<forall>e \<in> set es. stored_key (fst e)" and sx: "stored_key (fst x)"
    and lt: "\<forall>e \<in> set es. key_less (fst e) (fst x)"
    using Cons.prems(1,2) by simp_all
  have un: "uniform topt rts es" by (rule uniform_subset [OF Cons.prems(3)]) auto
  have ts: "ParseTs (fst x) < ParseTs (fst e)" if "e \<in> set es" "parse_key (fst e) = parse_key (fst x)" for e
    using key_less_stored [OF stored_len [OF bspec [OF st that(1)]] stored_len [OF sx]] bspec [OF lt that(1)] that(2) by simp
  have old: "returned topt now opt rts (x # es) e = returned topt now opt rts es e" if "e \<in> set es" for e
  proof -
    have "ParseTs (fst x) \<le> ParseTs (fst e)" if "parse_key (fst x) = parse_key (fst e)"
      by (rule less_imp_le [OF ts [OF \<open>e \<in> set es\<close> that [symmetric]]])
    then show ?thesis by (simp add: returned_Cons)
  qed
  have fl: "filter (returned topt now opt rts (x # es)) es = filter (returned topt now opt rts es) es"
    using old by (intro filter_cong refl) auto
  note IH = Cons.IH [OF so st un]
  note step = outputs.simps [of topt now opt rts lk "x # es", unfolded list.sel]
  show ?case
  proof (cases "eligible topt opt rts (fst x)")
    case False
    then have "\<not> returned topt now opt rts (x # es) x" by (simp add: returned_def)
    then show ?thesis using IH step False opt fl by simp
  next
    case el: True
    have up: "eligible topt opt rts (fst e)" if "e \<in> set es" "parse_key (fst e) = parse_key (fst x)" "ParseTs (fst e) \<le> rts" for e
    proof -
      have "has_prefix (fst e) badgerPrefix = has_prefix (fst x) badgerPrefix" "isBanned topt (fst e) = isBanned topt (fst x)"
        using uniform_same [OF Cons.prems(3), of e x] that eligible_ts [OF el] by simp_all
      then show ?thesis using el that(3) ts [OF that(1,2)] by (auto simp: eligible_def Let_def split: if_splits)
    qed
    obtain ik vs where x: "x = (ik, vs)" by fastforce
    consider "dead now vs" | "\<not> dead now vs" "goes_on rts ik es" | "\<not> dead now vs" "\<not> goes_on rts ik es" by blast
    then show ?thesis
    proof cases
      case 1
      then have "picked now True rts (x # es) = (es, [])" "\<not> returned topt now opt rts (x # es) x"
        by (simp_all add: x picked_step returned_def)
      then show ?thesis using IH step el opt fl by simp
    next
      case 2
      then obtain y ys where es: "es = y # ys" and y: "ParseTs (fst y) \<le> rts" "parse_key (fst y) = parse_key (fst x)"
        by (auto simp: goes_on_def x split: list.splits)
      have ely: "eligible topt opt rts (fst y)" using up y es by simp
      have "\<not> returned topt now opt rts (x # es) x" using ts [of y] ely y(2) es by (auto simp: returned_def)
      moreover have "picked now True rts (x # es) = picked now True rts es" using 2 by (simp add: x picked_step)
      moreover have "outputs topt now opt rts lk es = snd (picked now True rts es) @ outputs topt now opt rts lk (fst (picked now True rts es))"
        using ely opt by (subst outputs.simps) (simp add: es)
      ultimately show ?thesis using IH step el opt fl by simp
    next
      case 3
      have none: "\<not> eligible topt opt rts (fst e)" if e: "e \<in> set es" "parse_key (fst e) = parse_key (fst x)" for e
      proof -
        obtain y ys where es: "es = y # ys" using e by (cases es) auto
        have ge: "e = y \<or> key_less (fst e) (fst y)" using e(1) so by (auto simp: es)
        have sy: "stored_key (fst y)" "key_less (fst y) (fst x)" using st lt es by auto
        have le: "parse_key (fst e) \<le> parse_key (fst y)" "parse_key (fst y) \<le> parse_key (fst x)"
          using ge key_less_stored [OF stored_len [OF bspec [OF st e(1)]] stored_len [OF sy(1)]]
            key_less_stored [OF stored_len [OF sy(1)] stored_len [OF sx]] sy(2) by auto
        then have py: "parse_key (fst y) = parse_key (fst x)" using e(2) by simp
        then have "rts < ParseTs (fst y)" using 3(2) by (auto simp: goes_on_def es x)
        moreover have "ParseTs (fst y) \<le> ParseTs (fst e)"
          using ge key_less_stored [OF stored_len [OF bspec [OF st e(1)]] stored_len [OF sy(1)]] e(2) py by auto
        ultimately have "rts < ParseTs (fst e)" by (rule less_le_trans)
        then show ?thesis by (simp add: eligible_def Let_def)
      qed
      then have "returned topt now opt rts (x # es) x" using el 3(1) by (auto simp: returned_def x)
      moreover have "picked now True rts (x # es) = (es, [entry_out x])" using 3 by (simp add: x picked_step)
      ultimately show ?thesis using IH step el opt fl by simp
    qed
  qed
qed

lemma in_dir_distinct: "in_dir d es \<Longrightarrow> distinct (map fst es)"
proof (induction es)
  case (Cons e es)
  then have "fst e \<noteq> fst f" if "f \<in> set es" for f using that before_irrefl by fastforce
  then show ?case using Cons by auto
qed simp

lemma returned_newest:
  assumes so: "in_dir d E" and st: "\<forall>e \<in> set E. stored_key (fst e)" and e: "e \<in> set E"
  shows "returned topt now opt rts E e \<longleftrightarrow>
    visible now (newest (filter (\<lambda>f. eligible topt opt rts (fst f)) E) (parse_key (fst e)) rts) = Some (ParseTs (fst e), snd e)"
proof -
  let ?F = "filter (\<lambda>f. eligible topt opt rts (fst f)) E"
  have same: "ik = fst e \<and> v = snd e" if m: "(ik, v) \<in> set E" "parse_key ik = parse_key (fst e)" "ParseTs ik = ParseTs (fst e)" for ik v
  proof -
    have k: "8 < length ik" "8 < length (fst e)" using stored_len [OF bspec [OF st m(1)]] stored_len [OF bspec [OF st e]] by simp_all
    have "ik = fst e" by (metis stored_key_eq [OF k(1)] stored_key_eq [OF k(2)] m(2,3))
    then show ?thesis using eq_key_imp_eq_value [OF in_dir_distinct [OF so]] m(1) e by (metis prod.collapse)
  qed
  show ?thesis
  proof (cases "newest ?F (parse_key (fst e)) rts")
    case None
    then have "\<forall>f \<in> set ?F. \<not> matches (parse_key (fst e)) rts (fst f)" by (simp add: newest_None)
    then have "\<not> eligible topt opt rts (fst e)" using e eligible_ts [of topt opt rts "fst e"] unfolding matches_def set_filter by blast
    then have "\<not> returned topt now opt rts E e" by (simp add: returned_def)
    then show ?thesis by (simp add: None)
  next
    case (Some p)
    obtain w v where p: "newest ?F (parse_key (fst e)) rts = Some (w, v)" by (cases p) (simp add: Some)
    obtain ik where ik: "(ik, v) \<in> set E" "eligible topt opt rts ik" "parse_key ik = parse_key (fst e)" "ParseTs ik = w"
      and top: "\<And>f. f \<in> set E \<Longrightarrow> eligible topt opt rts (fst f) \<Longrightarrow> parse_key (fst f) = parse_key (fst e) \<Longrightarrow> ParseTs (fst f) \<le> w"
      using newest_Some [OF p] eligible_ts by (auto simp: matches_def)
    show ?thesis
    proof
      assume R: "returned topt now opt rts E e"
      have "ParseTs (fst e) \<le> w" using top [OF e] R by (simp add: returned_def)
      moreover have "w \<le> ParseTs (fst e)" using R ik by (force simp: returned_def)
      ultimately have "ParseTs ik = ParseTs (fst e)" using ik(4) by simp
      then have "ik = fst e \<and> v = snd e" using same ik by blast
      then show "visible now (newest ?F (parse_key (fst e)) rts) = Some (ParseTs (fst e), snd e)"
        using R ik(4) by (auto simp: p visible_def returned_def)
    next
      assume "visible now (newest ?F (parse_key (fst e)) rts) = Some (ParseTs (fst e), snd e)"
      then have w: "w = ParseTs (fst e)" "v = snd e" "\<not> dead now v" by (auto simp: p visible_def split: if_splits)
      then have "ik = fst e" using same ik by blast
      then show "returned topt now opt rts E e" using w ik(2) top by (simp add: returned_def)
    qed
  qed
qed

lemma prefix_le: "prefix p b \<Longrightarrow> p \<le> (b :: bytes)"
  by (induction p arbitrary: b) (auto simp: prefix_def)

lemma prefix_between: "p \<le> a \<Longrightarrow> a \<le> b \<Longrightarrow> prefix p b \<Longrightarrow> prefix p (a :: bytes)"
proof (induction p arbitrary: a b)
  case (Cons x p)
  then obtain y a' z b' where "a = y # a'" "b = z # b'" by (cases a; cases b) auto
  then show ?case using Cons by auto
qed simp

lemma takeWhile_sorted:
  assumes "sorted_wrt R xs" and "\<And>x y. x \<in> set xs \<Longrightarrow> y \<in> set xs \<Longrightarrow> R x y \<Longrightarrow> P y \<Longrightarrow> P x"
  shows "takeWhile P xs = filter P xs"
  using assms
proof (induction xs)
  case (Cons x xs)
  show ?case
  proof (cases "P x")
    case True
    have "takeWhile P xs = filter P xs" by (rule Cons.IH) (use Cons.prems in auto)
    then show ?thesis using True by simp
  next
    case False
    then have "\<forall>y \<in> set xs. \<not> P y" using Cons.prems by auto
    then show ?thesis using False by simp
  qed
qed simp

lemma returned_filter:
  assumes "\<And>f. f \<in> set E \<Longrightarrow> parse_key (fst f) = parse_key (fst e) \<Longrightarrow> eligible topt opt rts (fst f) \<Longrightarrow> Q f"
  shows "returned topt now opt rts (filter Q E) e = returned topt now opt rts E e"
  using assms unfolding returned_def set_filter mem_Collect_eq by blast

lemma outputs_all:
  assumes "io_AllVersions opt"
  shows "outputs topt now opt rts lk es = map entry_out (filter (\<lambda>e. eligible topt opt rts (fst e))
    (if io_Reverse opt then es else takeWhile (\<lambda>e. has_prefix (parse_key (fst e)) (io_Prefix opt)) es))"
proof (induction es)
  case Nil
  then show ?case by (subst outputs.simps) simp
next
  case (Cons x es)
  note step = outputs.simps [of topt now opt rts lk "x # es", unfolded list.sel]
  show ?case using Cons.IH step assms by (cases "io_Reverse opt") simp_all
qed

text \<open>What the iterator gives from a seek on, in its direction.\<close>

definition spanned :: "txn_opts \<Rightarrow> nat \<Rightarrow> bytes \<Rightarrow> db_iter \<Rightarrow> entry list" where
  "spanned topt now key it = (let opt = di_opt it; rts = di_readTs it in filter (\<lambda>e.
     (if io_Reverse opt then seek_key it key = [] \<or> parse_key (fst e) \<le> seek_key it key
      else has_prefix (parse_key (fst e)) (io_Prefix opt) \<and> key \<le> parse_key (fst e)) \<and>
     (if io_AllVersions opt then eligible topt opt rts (fst e) else returned topt now opt rts (di_all it) e)) (di_all it))"

definition chosen_entry :: "txn_opts \<Rightarrow> nat \<Rightarrow> iter_opts \<Rightarrow> u64 \<Rightarrow> entry list \<Rightarrow> entry \<Rightarrow> bool" where
  "chosen_entry topt now opt rts es e = (if io_AllVersions opt then eligible topt opt rts (fst e) else returned topt now opt rts es e)"

lemma chosen_eligible: "chosen_entry topt now opt rts es e \<Longrightarrow> eligible topt opt rts (fst e)"
  by (simp add: chosen_entry_def returned_def split: if_splits)

lemma outputs_chosen:
  assumes "in_dir (io_Reverse opt) es" and "\<forall>e \<in> set es. stored_key (fst e)" and "io_Reverse opt \<Longrightarrow> \<not> io_AllVersions opt \<Longrightarrow> uniform topt rts es"
  shows "outputs topt now opt rts [] es = map entry_out (filter (chosen_entry topt now opt rts es)
    (if io_Reverse opt then es else takeWhile (\<lambda>e. has_prefix (parse_key (fst e)) (io_Prefix opt)) es))"
proof (cases "io_AllVersions opt")
  case True
  then show ?thesis by (simp add: outputs_all chosen_entry_def [abs_def])
next
  case av: False
  then have ch: "chosen_entry topt now opt rts es = returned topt now opt rts es" by (simp add: chosen_entry_def fun_eq_iff)
  show ?thesis
  proof (cases "io_Reverse opt")
    case True
    then show ?thesis using assms av unfolding ch
      by (subst outputs_backward) (auto simp: before_def sorted_wrt_map)
  next
    case False
    then show ?thesis using assms av unfolding ch
      by (subst outputs_forward) (auto simp: before_def sorted_wrt_map)
  qed
qed

lemma before_pos:
  assumes "stored_key k"
  shows "before False k (KeyWithTs sk ts) \<longleftrightarrow> parse_key k < sk \<or> parse_key k = sk \<and> ts < ParseTs k"
    and "before True k (KeyWithTs sk 0) \<longleftrightarrow> sk < parse_key k"
proof -
  have k: "KeyWithTs (parse_key k) (ParseTs k) = k" by (rule stored_key_eq [OF stored_len [OF assms], symmetric])
  have "key_less k (KeyWithTs sk ts) \<longleftrightarrow> key_less (KeyWithTs (parse_key k) (ParseTs k)) (KeyWithTs sk ts)"
    and "key_less (KeyWithTs sk 0) k \<longleftrightarrow> key_less (KeyWithTs sk 0) (KeyWithTs (parse_key k) (ParseTs k))" by (simp_all only: k)
  then show "before False k (KeyWithTs sk ts) \<longleftrightarrow> parse_key k < sk \<or> parse_key k = sk \<and> ts < ParseTs k"
    and "before True k (KeyWithTs sk 0) \<longleftrightarrow> sk < parse_key k"
    by (auto simp: before_def)
qed

lemma from_key_filter:
  assumes st: "\<forall>e \<in> set (di_all it). stored_key (fst e)"
  shows "from_key it sk = filter (\<lambda>e. if io_Reverse (di_opt it) then sk = [] \<or> parse_key (fst e) \<le> sk
      else sk < parse_key (fst e) \<or> parse_key (fst e) = sk \<and> ParseTs (fst e) \<le> di_readTs it \<or> sk = []) (di_all it)"
proof (cases "sk = []")
  case False
  let ?E = "di_all it" and ?opt = "di_opt it" and ?rts = "di_readTs it"
  have "\<not> before (io_Reverse ?opt) (fst e) (KeyWithTs sk (if \<not> io_Reverse ?opt then ?rts else 0)) \<longleftrightarrow>
      (if io_Reverse ?opt then parse_key (fst e) \<le> sk else sk < parse_key (fst e) \<or> parse_key (fst e) = sk \<and> ParseTs (fst e) \<le> ?rts)"
    if "e \<in> set ?E" for e using before_pos [OF bspec [OF st that], of sk] by (auto simp: not_less le_less)
  then have "filter (\<lambda>e. \<not> before (io_Reverse ?opt) (fst e) (KeyWithTs sk (if \<not> io_Reverse ?opt then ?rts else 0))) ?E =
      filter (\<lambda>e. if io_Reverse ?opt then parse_key (fst e) \<le> sk else sk < parse_key (fst e) \<or> parse_key (fst e) = sk \<and> ParseTs (fst e) \<le> ?rts) ?E"
    by (rule filter_cong [OF refl])
  then show ?thesis using False by (simp add: from_key_def)
qed (simp add: from_key_def)

lemma outputs_spanned:
  assumes so: "in_dir (io_Reverse (di_opt it)) (di_all it)" and st: "\<forall>e \<in> set (di_all it). stored_key (fst e)"
    and un: "io_Reverse (di_opt it) \<Longrightarrow> uniform topt (di_readTs it) (di_all it)" and key: "key = [] \<or> has_prefix key (io_Prefix (di_opt it))"
  shows "outputs topt now (di_opt it) (di_readTs it) [] (from_key it (seek_key it key)) = map entry_out (spanned topt now key it)"
proof -
  let ?E = "di_all it" and ?opt = "di_opt it" and ?rts = "di_readTs it" and ?sk = "seek_key it key"
  let ?F = "from_key it ?sk" and ?P = "\<lambda>e. has_prefix (parse_key (fst e)) (io_Prefix ?opt)"
  note F = from_key_filter [OF st, of ?sk]
  have soF: "in_dir (io_Reverse ?opt) ?F" "\<forall>e \<in> set ?F. stored_key (fst e)"
    using so st by (auto simp: F intro: sorted_wrt_filter)
  have cF: "chosen_entry topt now ?opt ?rts ?F e = chosen_entry topt now ?opt ?rts ?E e" if "e \<in> set ?F" for e
  proof -
    have "returned topt now ?opt ?rts ?F e = returned topt now ?opt ?rts ?E e"
      unfolding F by (rule returned_filter) (use that eligible_ts in \<open>auto simp: F split: if_splits\<close>)
    then show ?thesis by (simp add: chosen_entry_def)
  qed
  have sc: "spanned topt now key it = filter (\<lambda>e. (if io_Reverse ?opt then ?sk = [] \<or> parse_key (fst e) \<le> ?sk else ?P e \<and> key \<le> parse_key (fst e)) \<and>
      chosen_entry topt now ?opt ?rts ?E e) ?E"
    unfolding spanned_def Let_def chosen_entry_def ..
  have uF: "uniform topt ?rts ?F" if "io_Reverse ?opt" "\<not> io_AllVersions ?opt"
    by (rule uniform_subset [OF un [OF that(1)]]) (auto simp: F)
  have "outputs topt now ?opt ?rts [] ?F = map entry_out (filter (chosen_entry topt now ?opt ?rts ?F) (if io_Reverse ?opt then ?F else takeWhile ?P ?F))"
    using soF uF by (rule outputs_chosen)
  also have "filter (chosen_entry topt now ?opt ?rts ?F) (if io_Reverse ?opt then ?F else takeWhile ?P ?F) =
      filter (chosen_entry topt now ?opt ?rts ?E) (if io_Reverse ?opt then ?F else takeWhile ?P ?F)"
    using cF by (intro filter_cong refl) (auto dest: set_takeWhileD split: if_splits)
  also have "\<dots> = spanned topt now key it"
  proof (cases "io_Reverse ?opt")
    case True
    then show ?thesis unfolding F sc by (simp add: filter_filter)
  next
    case False
    have "?P x" if x: "x \<in> set ?F" "y \<in> set ?F" "before False (fst x) (fst y)" "?P y" for x y
    proof -
      have "io_Prefix ?opt \<le> ?sk" using key prefix_le by (auto simp: seek_key_def has_prefix_iff)
      moreover have "?sk \<le> parse_key (fst x)" using x(1) False by (auto simp: F)
      moreover have "parse_key (fst x) \<le> parse_key (fst y)"
        using x key_less_stored [OF stored_len stored_len, of "fst x" "fst y"] soF(2) by (auto simp: before_def)
      ultimately show ?thesis using x(4) prefix_between by (fastforce simp: has_prefix_iff)
    qed
    then have tw: "takeWhile ?P ?F = filter ?P ?F"
      using False by (intro takeWhile_sorted [OF soF(1)]) auto
    have le: "?sk \<le> parse_key (fst e) \<longleftrightarrow> key \<le> parse_key (fst e)" if "?P e" for e
      using that prefix_le by (auto simp: seek_key_def has_prefix_iff)
    have el: "?sk < parse_key (fst e) \<or> parse_key (fst e) = ?sk \<and> ParseTs (fst e) \<le> ?rts \<or> ?sk = [] \<longleftrightarrow> key \<le> parse_key (fst e)"
      if "?P e" "chosen_entry topt now ?opt ?rts ?E e" for e
    proof (cases "?sk = []")
      case True
      then show ?thesis using le [OF that(1)] by simp
    next
      case False
      then show ?thesis using le [OF that(1)] eligible_ts [OF chosen_eligible [OF that(2)]] by (auto simp: le_less)
    qed
    show ?thesis unfolding if_not_P [OF False] tw unfolding sc F filter_filter if_not_P [OF False]
      by (rule filter_cong [OF refl]) (use el in blast)
  qed
  finally show ?thesis .
qed

text \<open>
  The loop of the user ends where \<open>Valid\<close> does: in reverse at the first key without the prefix, and
  where the prefix is a whole key, behind that key.
\<close>

definition scanned :: "txn_opts \<Rightarrow> nat \<Rightarrow> bytes \<Rightarrow> db_iter \<Rightarrow> entry list" where
  "scanned topt now key it = filter (\<lambda>e. shown_valid (di_opt it) (entry_out e)) (spanned topt now key it)"

definition seek_allowed :: "iter_opts \<Rightarrow> bytes \<Rightarrow> bool" where
  "seek_allowed opt key \<longleftrightarrow> key = [] \<or> has_prefix key (io_Prefix opt) \<and> (io_Reverse opt \<and> io_prefixIsKey opt \<longrightarrow> key = io_Prefix opt)"

lemma takeWhile_spanned:
  assumes so: "in_dir (io_Reverse (di_opt it)) (di_all it)" and st: "\<forall>e \<in> set (di_all it). stored_key (fst e)"
    and key: "seek_allowed (di_opt it) key"
  shows "takeWhile (shown_valid (di_opt it)) (map entry_out (spanned topt now key it)) = map entry_out (scanned topt now key it)"
proof -
  let ?S = "spanned topt now key it" and ?V = "\<lambda>e. shown_valid (di_opt it) (entry_out e)" and ?p = "io_Prefix (di_opt it)" and ?d = "io_Reverse (di_opt it)"
  have S: "e \<in> set (di_all it) \<and> (if ?d then seek_key it key = [] \<or> parse_key (fst e) \<le> seek_key it key else has_prefix (parse_key (fst e)) ?p)"
    if "e \<in> set ?S" for e using that by (auto simp: spanned_def Let_def)
  have "in_dir ?d ?S" using so unfolding spanned_def Let_def by (intro sorted_wrt_filter)
  moreover have "?V x" if xy: "x \<in> set ?S" "y \<in> set ?S" "before ?d (fst x) (fst y)" "?V y" for x y
  proof -
    have sk: "stored_key (fst x)" "stored_key (fst y)" using S xy(1,2) st by auto
    have ne: "parse_key (fst y) \<noteq> []" using sk(2) by (auto simp: stored_key_def parse_key_def)
    have y: "prefix ?p (parse_key (fst y))" "io_prefixIsKey (di_opt it) \<Longrightarrow> parse_key (fst y) = ?p"
      using xy(4) by (auto simp: shown_valid_def entry_out_def has_prefix_iff split: if_splits)
    have pk: "if ?d then parse_key (fst y) \<le> parse_key (fst x) else parse_key (fst x) \<le> parse_key (fst y)"
      using xy(3) key_less_stored [OF stored_len [OF sk(1)] stored_len [OF sk(2)]] key_less_stored [OF stored_len [OF sk(2)] stored_len [OF sk(1)]]
      by (auto simp: before_def)
    have px: "prefix ?p (parse_key (fst x))"
    proof (cases "?p = []")
      case False
      show ?thesis
      proof (cases ?d)
        case True
        have k: "seek_key it key \<noteq> []" "prefix ?p (seek_key it key)" using key False by (auto simp: seek_key_def seek_allowed_def has_prefix_iff)
        have "?p \<le> parse_key (fst x)" using prefix_le [OF y(1)] pk True by auto
        then show ?thesis using prefix_between [OF _ _ k(2)] S [OF xy(1)] True k(1) by auto
      next
        case False
        then show ?thesis using S [OF xy(1)] by (simp add: has_prefix_iff)
      qed
    qed simp
    show ?thesis
    proof (cases "io_prefixIsKey (di_opt it)")
      case False
      then show ?thesis using px by (simp add: shown_valid_def entry_out_def has_prefix_iff)
    next
      case True
      have sp: "seek_key it key = ?p" if ?d using that True key by (auto simp: seek_key_def seek_allowed_def)
      have "?p \<noteq> []" using ne y(2) [OF True] by simp
      then have "parse_key (fst x) \<le> ?p" using pk y(2) [OF True] S [OF xy(1)] sp by (auto split: if_splits)
      then have "parse_key (fst x) = ?p" using prefix_le [OF px] by simp
      then show ?thesis using True by (simp add: shown_valid_def entry_out_def)
    qed
  qed
  ultimately have "takeWhile ?V ?S = filter ?V ?S" by (rule takeWhile_sorted)
  then show ?thesis by (simp add: scanned_def takeWhile_map comp_def)
qed

lemma scan_scanned:
  assumes "in_dir (io_Reverse (di_opt it)) (di_all it)" and "\<forall>e \<in> set (di_all it). stored_key (fst e)"
    and "\<not> di_nil it" and un: "io_Reverse (di_opt it) \<Longrightarrow> uniform topt (di_readTs it) (di_all it)" and key: "seek_allowed (di_opt it) key"
    and "length (di_all it) \<le> n"
  shows "map_option (map shown_item) (scan topt now n (di_Seek topt now key it)) = Some (map entry_out (scanned topt now key it))"
proof -
  let ?S = "scanned topt now key it"
  have key': "key = [] \<or> has_prefix key (io_Prefix (di_opt it))" using key by (auto simp: seek_allowed_def)
  have os: "outputs topt now (di_opt it) (di_readTs it) [] (from_key it (seek_key it key)) = map entry_out (spanned topt now key it)"
    by (rule outputs_spanned [OF assms(1,2) un key'])
  note A = Seek_ahead [OF assms(3), of topt now key, unfolded os]
  have o: "di_opt (di_Seek topt now key it) = di_opt it" "\<not> di_nil (di_Seek topt now key it)"
    using A assms(3) by (simp_all add: same_run_def)
  note tw = takeWhile_spanned [OF assms(1,2) key, of topt now]
  have "length ?S \<le> n" using assms(6) unfolding scanned_def spanned_def Let_def by (meson le_trans length_filter_le)
  then show ?thesis using scan_ahead [OF conjunct1 [OF conjunct2 [OF A]] o(2), of n] unfolding o(1) conjunct1 [OF A] tw by simp
qed

section \<open>What a scan has to return\<close>

text \<open>
  The specification speaks of user keys and versions and is independent of the tests of
  \<open>parseItem\<close>: the version is at most the read timestamp and above \<open>SinceTs\<close>, internal keys are shown
  on request only, and the others unless the eight bytes of their namespace are banned.
\<close>

definition banned_key :: "txn_opts \<Rightarrow> bytes \<Rightarrow> bool" where
  "banned_key topt k \<longleftrightarrow> 0 \<le> op_NamespaceOffset topt \<and> op_NamespaceOffset topt + 8 < int (length k) \<and>
     (\<exists>ns \<in> op_banned topt. take 8 (drop (nat (op_NamespaceOffset topt)) k) = PutUint64 ns)"

definition may_show :: "txn_opts \<Rightarrow> iter_opts \<Rightarrow> u64 \<Rightarrow> bytes \<Rightarrow> u64 \<Rightarrow> bool" where
  "may_show topt opt rts k w \<longleftrightarrow> w \<le> rts \<and> (io_SinceTs opt = 0 \<or> io_SinceTs opt < w) \<and>
     (if prefix badgerPrefix k then io_InternalAccess opt else \<not> banned_key topt k)"

definition alive :: "nat \<Rightarrow> ValueStruct \<Rightarrow> bool" where
  "alive now v \<longleftrightarrow> \<not> bit (vs_Meta v) 0 \<and> (vs_ExpiresAt v = 0 \<or> now < unat (vs_ExpiresAt v))"

text \<open>
  The code tests internal keys with their timestamp behind them. So keys that end inside of the
  bytes of the namespace or right behind them are left out (there the iterator and \<open>Get\<close> ban
  different keys), and read timestamps are below \<open>2 ^ 63\<close>.
\<close>

definition clear_namespace :: "txn_opts \<Rightarrow> bytes \<Rightarrow> bool" where
  "clear_namespace topt k \<longleftrightarrow> int (length k) \<le> op_NamespaceOffset topt \<or> op_NamespaceOffset topt + 8 < int (length k) \<or> op_NamespaceOffset topt < 0"

definition clear_keys :: "txn_opts \<Rightarrow> u64 \<Rightarrow> entry list \<Rightarrow> bool" where
  "clear_keys topt rts es \<longleftrightarrow> unat rts < 2 ^ 63 \<and> (\<forall>e \<in> set es. clear_namespace topt (parse_key (fst e)))"

lemma isBanned_key:
  assumes st: "stored_key ik" and cl: "clear_namespace topt (parse_key ik)"
  shows "isBanned topt ik \<longleftrightarrow> banned_key topt (parse_key ik)"
proof -
  let ?k = "parse_key ik" and ?off = "op_NamespaceOffset topt"
  have ik: "ik = ?k @ PutUint64 (- 1 - ParseTs ik)" using stored_key_eq [OF stored_len [OF st]] by (simp add: KeyWithTs_def)
  have len: "length ik = length ?k + 8" using arg_cong [OF ik, of length] by simp
  show ?thesis
  proof (cases "0 \<le> ?off \<and> ?off + 8 < int (length ?k)")
    case True
    let ?s = "take 8 (drop (nat ?off) ik)"
    have o: "nat ?off + 8 \<le> length ?k" using True by linarith
    have "take 8 (drop (nat ?off) (?k @ t)) = take 8 (drop (nat ?off) ?k)" for t using o by simp
    from this [of "PutUint64 (- 1 - ParseTs ik)"] have s: "?s = take 8 (drop (nat ?off) ?k)" unfolding ik [symmetric] .
    have l: "length ?s = 8" using o len by simp
    have n: "\<not> int (length ik) \<le> ?off + 8" "\<not> length ik - nat ?off < 8" using True len o by linarith+
    have "isBanned topt ik \<longleftrightarrow> Uint64 ?s \<in> op_banned topt"
      using True n by (simp add: isBanned_def BytesToU64_def)
    also have "\<dots> \<longleftrightarrow> (\<exists>ns \<in> op_banned topt. ?s = PutUint64 ns)" using Put_Uint64 [OF l] by (metis Uint64_Put)
    finally show ?thesis using True s by (simp add: banned_key_def)
  next
    case False
    then show ?thesis using cl len by (auto simp: isBanned_def banned_key_def clear_namespace_def)
  qed
qed

lemma hd_be_put: "hd (be_put (Suc n) x) = word_of_nat (x div 256 ^ n)"
proof (induction n arbitrary: x)
  case (Suc n)
  have "be_put (Suc n) (x div 256) \<noteq> []" by simp
  then have "hd (be_put (Suc (Suc n)) x) = hd (be_put (Suc n) (x div 256))" by (metis be_put.simps(2) hd_append2)
  then show ?case using Suc.IH [of "x div 256"] by (simp add: div_mult2_eq [symmetric] del: be_put.simps)
qed simp

lemma PutUint64_high: "unat w < 2 ^ 63 \<Longrightarrow> 128 \<le> unat (hd (PutUint64 (- 1 - w)))"
proof -
  assume w: "unat w < 2 ^ 63"
  let ?v = "unat (- 1 - w)"
  have "?v = unat (- 1 :: u64) - unat w" by (rule unat_sub) simp
  also have "unat (- 1 :: u64) = 2 ^ 64 - 1" by (simp add: unsigned_minus_1_eq_mask mask_eq_exp_minus_1)
  finally have v: "9223372036854775808 \<le> ?v" using w by simp
  have lt: "?v < 18446744073709551616" using unsigned_less [of "- 1 - w", where ?'a = nat] by simp
  have "hd (PutUint64 (- 1 - w)) = word_of_nat (?v div 256 ^ 7)" unfolding PutUint64_def using hd_be_put [of 7 ?v] by (simp only: Suc_numeral)  simp
  moreover have "128 \<le> ?v div 256 ^ 7" "?v div 256 ^ 7 < 256" using v lt by (simp_all add: div_le_dividend less_eq_div_iff_mult_less_eq div_less_iff_less_mult)
  ultimately show ?thesis by (simp add: unsigned_of_nat take_bit_nat_eq_self)
qed

lemma internal_key:
  assumes st: "stored_key ik" and ts: "unat (ParseTs ik) < 2 ^ 63"
  shows "has_prefix ik badgerPrefix \<longleftrightarrow> prefix badgerPrefix (parse_key ik)"
proof -
  let ?k = "parse_key ik" and ?t = "PutUint64 (- 1 - ParseTs ik)"
  have ik: "ik = ?k @ ?t" using stored_key_eq [OF stored_len [OF st]] by (simp add: KeyWithTs_def)
  have t: "length ?t = 8" "128 \<le> unat (hd ?t)" using PutUint64_high [OF ts] by simp_all
  then have "?t \<noteq> []" by (metis list.size(3) zero_neq_numeral)
  have ascii: "\<forall>b \<in> set badgerPrefix. unat b < 128" by (simp add: badgerPrefix_def)
  show ?thesis
  proof (cases "length badgerPrefix \<le> length ?k")
    case True
    then have "prefix badgerPrefix (?k @ t) \<longleftrightarrow> prefix badgerPrefix ?k" for t
      using prefix_length_prefix [of badgerPrefix "?k @ t" ?k] by auto
    from this [of ?t] show ?thesis unfolding has_prefix_iff ik [symmetric] .
  next
    case False
    have "\<not> prefix badgerPrefix (?k @ ?t)"
    proof
      assume "prefix badgerPrefix (?k @ ?t)"
      then obtain us where us: "?k @ ?t = badgerPrefix @ us" by (auto simp: prefix_def)
      have "(?k @ ?t) ! length ?k = hd ?t" using \<open>?t \<noteq> []\<close> by (simp add: nth_append_right hd_conv_nth)
      moreover have "(badgerPrefix @ us) ! length ?k = badgerPrefix ! length ?k" using False by (simp add: nth_append)
      ultimately have "badgerPrefix ! length ?k = hd ?t" unfolding us by simp
      moreover have "badgerPrefix ! length ?k \<in> set badgerPrefix" using False by simp
      ultimately show False using ascii t(2) by fastforce
    qed
    then have "\<not> has_prefix ik badgerPrefix" unfolding has_prefix_iff ik [symmetric] .
    moreover have "\<not> prefix badgerPrefix ?k" using False prefix_length_le by auto
    ultimately show ?thesis by simp
  qed
qed

lemma eligible_may_show:
  assumes "stored_key ik" and "clear_namespace topt (parse_key ik)" and "unat rts < 2 ^ 63"
  shows "eligible topt opt rts ik \<longleftrightarrow> may_show topt opt rts (parse_key ik) (ParseTs ik)"
proof (cases "ParseTs ik \<le> rts")
  case True
  then have "unat (ParseTs ik) < 2 ^ 63" using assms(3) by (simp add: word_le_nat_alt)
  note internal_key [OF assms(1) this] isBanned_key [OF assms(1,2)]
  then show ?thesis using True by (auto simp: eligible_def may_show_def Let_def word_gt_0)
next
  case False
  then show ?thesis using eligible_ts [of topt opt rts ik] by (auto simp: may_show_def)
qed

lemma dead_alive: "dead now v \<longleftrightarrow> \<not> alive now v"
proof -
  have "0 < vs_Meta v AND bitDelete \<longleftrightarrow> bit (vs_Meta v) 0"
    by (auto simp: bitDelete_def word_gt_0 and_one_eq bit_0 odd_iff_mod_2_eq_one)
  then show ?thesis by (auto simp: isDeletedOrExpired_def alive_def not_less)
qed

lemma uniform_clear:
  assumes "clear_keys topt rts es" and "\<forall>e \<in> set es. stored_key (fst e)"
  shows "uniform topt rts es"
  unfolding uniform_def
proof (intro ballI impI)
  fix e f assume e: "e \<in> set es" "f \<in> set es" "parse_key (fst e) = parse_key (fst f)" "ParseTs (fst e) \<le> rts" "ParseTs (fst f) \<le> rts"
  have "unat (ParseTs (fst e)) < 2 ^ 63" "unat (ParseTs (fst f)) < 2 ^ 63" using assms(1) e(4,5) by (simp_all add: clear_keys_def word_le_nat_alt)
  then show "has_prefix (fst e) badgerPrefix = has_prefix (fst f) badgerPrefix \<and> isBanned topt (fst e) = isBanned topt (fst f)"
    using internal_key isBanned_key [of _ topt] assms e by (simp add: clear_keys_def)
qed

text \<open>An entry that a scan has to show: the newest that may be shown of its key, if it is alive, or each one.\<close>

definition asked :: "iter_opts \<Rightarrow> bytes \<Rightarrow> bytes \<Rightarrow> bool" where
  "asked opt key k \<longleftrightarrow> (if io_prefixIsKey opt then k = io_Prefix opt else prefix (io_Prefix opt) k) \<and>
     (if io_Reverse opt then (let sk = (if key = [] then io_Prefix opt else key) in sk = [] \<or> k \<le> sk) else key \<le> k)"

definition to_show :: "txn_opts \<Rightarrow> nat \<Rightarrow> iter_opts \<Rightarrow> u64 \<Rightarrow> entry list \<Rightarrow> entry \<Rightarrow> bool" where
  "to_show topt now opt rts E e \<longleftrightarrow> may_show topt opt rts (parse_key (fst e)) (ParseTs (fst e)) \<and>
     (io_AllVersions opt \<or> alive now (snd e) \<and>
       (\<forall>f \<in> set E. parse_key (fst f) = parse_key (fst e) \<longrightarrow> may_show topt opt rts (parse_key (fst f)) (ParseTs (fst f)) \<longrightarrow> ParseTs (fst f) \<le> ParseTs (fst e)))"

lemma scanned_asked:
  assumes st: "\<forall>e \<in> set (di_all it). stored_key (fst e)" and cl: "clear_keys topt (di_readTs it) (di_all it)" and key: "seek_allowed (di_opt it) key"
  shows "scanned topt now key it = filter (\<lambda>e. asked (di_opt it) key (parse_key (fst e)) \<and> to_show topt now (di_opt it) (di_readTs it) (di_all it) e) (di_all it)"
proof -
  have el: "eligible topt (di_opt it) (di_readTs it) (fst e) \<longleftrightarrow> may_show topt (di_opt it) (di_readTs it) (parse_key (fst e)) (ParseTs (fst e))"
    if "e \<in> set (di_all it)" for e using eligible_may_show st cl that by (simp add: clear_keys_def)
  have ret: "returned topt now (di_opt it) (di_readTs it) (di_all it) e \<longleftrightarrow> may_show topt (di_opt it) (di_readTs it) (parse_key (fst e)) (ParseTs (fst e)) \<and>
      alive now (snd e) \<and> (\<forall>f \<in> set (di_all it). parse_key (fst f) = parse_key (fst e) \<longrightarrow>
        may_show topt (di_opt it) (di_readTs it) (parse_key (fst f)) (ParseTs (fst f)) \<longrightarrow> ParseTs (fst f) \<le> ParseTs (fst e))"
    if "e \<in> set (di_all it)" for e using el that by (auto simp: returned_def dead_alive)
  show ?thesis unfolding scanned_def spanned_def Let_def filter_filter
  proof (rule filter_cong [OF refl])
    fix e assume e: "e \<in> set (di_all it)"
    show "((if io_Reverse (di_opt it) then seek_key it key = [] \<or> parse_key (fst e) \<le> seek_key it key
          else has_prefix (parse_key (fst e)) (io_Prefix (di_opt it)) \<and> key \<le> parse_key (fst e)) \<and>
        (if io_AllVersions (di_opt it) then eligible topt (di_opt it) (di_readTs it) (fst e)
         else returned topt now (di_opt it) (di_readTs it) (di_all it) e)) \<and> shown_valid (di_opt it) (entry_out e) \<longleftrightarrow>
        asked (di_opt it) key (parse_key (fst e)) \<and> to_show topt now (di_opt it) (di_readTs it) (di_all it) e"
      unfolding el [OF e] ret [OF e] to_show_def asked_def seek_key_def shown_valid_def entry_out_def by (auto simp: has_prefix_iff Let_def)
  qed
qed

text \<open>
  C14: a scan with a transaction's iterator, from a seek on and as long as it is valid, ends and
  gives, in the order of the iteration, exactly the entries below it that have to be shown: the
  version is at most the read timestamp and above \<open>SinceTs\<close>, the key is neither internal (unless
  asked for) nor banned, lies under the prefix and on the right side of the seek key, and is the
  newest such version of its key and neither deleted nor expired (or all versions are asked for).
  It holds in both directions and from any state of the iterator, for any prefetch size and any
  recycled items. The seek key is empty or has the prefix (the prefix itself, in reverse where the
  prefix is a whole key); a reversed scan with an empty key starts at the prefix itself. Read
  timestamps are below \<open>2 ^ 63\<close> and no key ends in the bytes of its namespace or right behind them.
\<close>

theorem db_iterates:
  assumes "in_dir (io_Reverse (di_opt it)) (di_all it)" and "\<forall>e \<in> set (di_all it). stored_key (fst e)"
    and "\<not> di_nil it" and "clear_keys topt (di_readTs it) (di_all it)" and "seek_allowed (di_opt it) key"
    and "length (di_all it) \<le> n"
  shows "map_option (map shown_item) (scan topt now n (di_Seek topt now key it)) =
    Some (map entry_out (filter (\<lambda>e. asked (di_opt it) key (parse_key (fst e)) \<and>
      to_show topt now (di_opt it) (di_readTs it) (di_all it) e) (di_all it)))"
  using scan_scanned [OF assms(1-3) uniform_clear [OF assms(4,2)] assms(5,6)] scanned_asked [OF assms(2,4,5)] by simp

definition scan_value :: "byte \<Rightarrow> ValueStruct" where
  "scan_value m = \<lparr>vs_Meta = m, vs_UserMeta = 0, vs_ExpiresAt = 0, vs_Value = Some [9], vs_Version = 0\<rparr>"

definition scan_entries :: "entry list" where
  "scan_entries = [(KeyWithTs [1] 5, scan_value bitDelete), (KeyWithTs [1] 3, scan_value 0), (KeyWithTs [2] 7, scan_value 0),
     (KeyWithTs [2] 4, scan_value 0), (KeyWithTs [3] 2, scan_value 0)]"

definition scan_iter :: "bool \<Rightarrow> db_iter" where
  "scan_iter d = \<lparr>di_nil = False, di_all = (if d then rev scan_entries else scan_entries), di_rest = [], di_readTs = 6, di_opt = DefaultIteratorOptions\<lparr>io_Reverse := d\<rparr>,
     di_item = None, di_data = [], di_waste = [], di_lastKey = [], di_scanned = 0, di_txn = newTransaction small_opts False 6\<rparr>"

lemma scan_may_show: "k \<noteq> 33 \<Longrightarrow> may_show small_opts (di_opt (scan_iter d)) 6 [k] ts \<longleftrightarrow> ts \<le> 6"
  by (simp add: may_show_def scan_iter_def DefaultIteratorOptions_def banned_key_def small_opts_def badgerPrefix_def)

theorem db_iterates_witness:
  "map_option (map shown_item) (scan small_opts 0 9 (di_Seek small_opts 0 [] (scan_iter False))) =
      Some [([2], 4, scan_value 0), ([3], 2, scan_value 0)] \<and>
    map_option (map shown_item) (scan small_opts 0 9 (di_Seek small_opts 0 [2] (scan_iter True))) = Some [([2], 4, scan_value 0)]"
proof -
  have opt: "io_Reverse (di_opt (scan_iter d)) = d" "io_Prefix (di_opt (scan_iter d)) = []" "\<not> io_AllVersions (di_opt (scan_iter d))"
    "\<not> io_prefixIsKey (di_opt (scan_iter d))" "\<not> di_nil (scan_iter d)" "di_readTs (scan_iter d) = 6" for d by (simp_all add: scan_iter_def DefaultIteratorOptions_def)
  have all: "di_all (scan_iter False) = scan_entries" "di_all (scan_iter True) = rev scan_entries" by (simp_all add: scan_iter_def)
  have al: "alive 0 (scan_value 0)" "\<not> alive 0 (scan_value bitDelete)" by (simp_all add: alive_def scan_value_def bitDelete_def)
  have "filter (\<lambda>e. asked (di_opt (scan_iter False)) [] (parse_key (fst e)) \<and> to_show small_opts 0 (di_opt (scan_iter False)) 6 scan_entries e) scan_entries =
      [(KeyWithTs [2] 4, scan_value 0), (KeyWithTs [3] 2, scan_value 0)]"
    and "filter (\<lambda>e. asked (di_opt (scan_iter True)) [2] (parse_key (fst e)) \<and> to_show small_opts 0 (di_opt (scan_iter True)) 6 (rev scan_entries) e) (rev scan_entries) =
      [(KeyWithTs [2] 4, scan_value 0)]"
    by (simp_all add: asked_def to_show_def opt) (simp_all add: scan_entries_def scan_may_show al)
  moreover have "clear_keys small_opts 6 scan_entries" "clear_keys small_opts 6 (rev scan_entries)"
    by (simp_all add: clear_keys_def clear_namespace_def small_opts_def)
  moreover have "seek_allowed (di_opt (scan_iter False)) []" "seek_allowed (di_opt (scan_iter True)) [2]"
    by (simp_all add: seek_allowed_def opt has_prefix_def)
  moreover note db_iterates [of "scan_iter False" small_opts "[]" 9 0] and db_iterates [of "scan_iter True" small_opts "[2]" 9 0]
  ultimately show ?thesis
    by (simp add: opt all) (simp add: scan_entries_def before_def entry_out_def scan_value_def slice_bytes_def)
qed

end
