(* ===== verification/NewIter.thy ===== *)
theory NewIter
  imports DbIter Levels
begin

text \<open>
  How a transaction gets its iterator (\<open>txn_NewIterator\<close> and \<open>txn_NewKeyIterator\<close> of \<open>iterator.go\<close>): the
  tables that can hold something the options ask for are picked, level by level
  (\<open>appendIterators\<close>), and merged with the memtables and the pending writes, the newer first.
  A table's iterator is given by its entries (theories \<open>TableIter\<close> and \<open>ConcatIter\<close>), and
  \<open>None\<close> is a panic.
\<close>

section \<open>Picking tables\<close>

definition compareToPrefix :: "iter_opts \<Rightarrow> bytes \<Rightarrow> int" where
  "compareToPrefix opt key0 =
     (let key1 = parse_key key0; key = (if length (io_Prefix opt) < length key1 then take (length (io_Prefix opt)) key1 else key1)
      in bytes_compare key (io_Prefix opt))"

definition pickTable :: "iter_opts \<Rightarrow> table \<Rightarrow> bool option" where
  "pickTable opt t =
     (if t_MaxVersion t < io_SinceTs opt then Some False
      else if length (io_Prefix opt) = 0 then Some True
      else if 0 < compareToPrefix opt (t_Smallest t) then Some False
      else if compareToPrefix opt (t_Biggest t) < 0 then Some False
      else if io_prefixIsKey opt then map_option Not (DoesNotHave t (Hash (io_Prefix opt)))
      else Some True)"

definition filterTables :: "iter_opts \<Rightarrow> table list \<Rightarrow> table list" where
  "filterTables opt tables = (if 0 < io_SinceTs opt then filter (\<lambda>t. \<not> t_MaxVersion t < io_SinceTs opt) tables else tables)"

text \<open>The loop of \<open>pickTables\<close> where the prefix is a whole key.\<close>

fun pick_key_tables :: "iter_opts \<Rightarrow> u32 \<Rightarrow> table list \<Rightarrow> table list option" where
  "pick_key_tables opt hash [] = Some []"
| "pick_key_tables opt hash (t # ts) =
     (if 0 < compareToPrefix opt (t_Smallest t) then Some []
      else case DoesNotHave t hash of None \<Rightarrow> None
        | Some True \<Rightarrow> pick_key_tables opt hash ts
        | Some False \<Rightarrow> map_option (Cons t) (pick_key_tables opt hash ts))"

definition pickTables :: "iter_opts \<Rightarrow> table list \<Rightarrow> table list option" where
  "pickTables opt all =
     (if length (io_Prefix opt) = 0 then Some (filterTables opt all)
      else
        let sIdx = sort_search (length all) (\<lambda>i. 0 \<le> compareToPrefix opt (t_Biggest (all ! i)))
        in if sIdx = length all then Some []
           else
             let filtered = drop sIdx all
             in if \<not> io_prefixIsKey opt then
                  (let eIdx = sort_search (length filtered) (\<lambda>i. 0 < compareToPrefix opt (t_Smallest (filtered ! i)))
                   in Some (filterTables opt (take eIdx filtered)))
                else map_option (filterTables opt) (pick_key_tables opt (Hash (io_Prefix opt)) filtered))"

section \<open>The iterators of the levels\<close>

fun pick_all :: "iter_opts \<Rightarrow> table list \<Rightarrow> table list option" where
  "pick_all opt [] = Some []"
| "pick_all opt (t # ts) =
     (case pickTable opt t of None \<Rightarrow> None
      | Some b \<Rightarrow> map_option (\<lambda>out. if b then t # out else out) (pick_all opt ts))"

definition data_iter :: "bool \<Rightarrow> entry list \<Rightarrow> iter" where
  "data_iter reversed es = Leaf (if reversed then rev es else es) 0"

definition lh_appendIterators :: "table_refs \<Rightarrow> iter list \<Rightarrow> levelHandler \<Rightarrow> iter_opts \<Rightarrow> (table_refs \<times> iter list) option" where
  "lh_appendIterators s iters lh opt =
     (if lh_level lh = 0 \<or> lh_level lh = 98 then
        map_option (\<lambda>out. (foldl IncrRef s (rev out), iters @ map (\<lambda>t. data_iter (io_Reverse opt) (t_data t)) (rev out)))
          (pick_all opt (lh_tables lh))
      else map_option (\<lambda>tables. if tables = [] then (s, iters)
          else (foldl IncrRef s tables, iters @ [data_iter (io_Reverse opt) (concat (map t_data tables))]))
        (pickTables opt (lh_tables lh)))"

fun append_levels :: "table_refs \<Rightarrow> iter list \<Rightarrow> levelHandler list \<Rightarrow> iter_opts \<Rightarrow> (table_refs \<times> iter list) option" where
  "append_levels s iters [] opt = Some (s, iters)"
| "append_levels s iters (h # hs) opt =
     (case lh_appendIterators s iters h opt of None \<Rightarrow> None | Some (s1, iters1) \<Rightarrow> append_levels s1 iters1 hs opt)"

definition lc_appendIterators :: "levelsController \<Rightarrow> iter list \<Rightarrow> iter_opts \<Rightarrow> (table_refs \<times> iter list) option" where
  "lc_appendIterators lc iters opt =
     append_levels (lc_refs lc) iters ((case lc_hotTier lc of None \<Rightarrow> [] | Some h \<Rightarrow> [h]) @
       (case lc_hotTierOrd lc of None \<Rightarrow> [] | Some h \<Rightarrow> [h]) @ lc_levels lc) opt"

text \<open>
  \<open>txn_NewIterator\<close>: a memtable is given by its entries in key order, the merge iterator by what it
  goes through; \<open>di_nil\<close> is a nil one. The counts of the memtables and the value log are left out.
\<close>

definition txn_NewIterator :: "bool \<Rightarrow> Txn \<Rightarrow> entry list list \<Rightarrow> levelsController \<Rightarrow> iter_opts \<Rightarrow> (table_refs \<times> db_iter) option" where
  "txn_NewIterator isClosed txn mems lc opt =
     (if tx_discarded txn then None
      else if isClosed then None
      else
        let txn1 = txn\<lparr>tx_numIterators := tx_numIterators txn + 1\<rparr>;
            own = (case newPendingWritesIterator txn1 (io_Reverse opt) of None \<Rightarrow> [] | Some p \<Rightarrow> [Leaf (pending_items p) 0]);
            mem = map (data_iter (io_Reverse opt)) mems
        in case lc_appendIterators lc (own @ mem) opt of None \<Rightarrow> None
           | Some (s, iters) \<Rightarrow>
               let m = NewMergeIterator iters (io_Reverse opt)
               in Some (s, \<lparr>di_nil = (m = None), di_all = (case m of None \<Rightarrow> [] | Some i \<Rightarrow> merged i), di_rest = [],
                    di_readTs = word_of_nat (tx_readTs txn1), di_opt = opt, di_item = None, di_data = [], di_waste = [],
                    di_lastKey = [], di_scanned = 0, di_txn = txn1\<rparr>))"

definition txn_NewKeyIterator :: "bool \<Rightarrow> Txn \<Rightarrow> entry list list \<Rightarrow> levelsController \<Rightarrow> bytes \<Rightarrow> iter_opts \<Rightarrow> (table_refs \<times> db_iter) option" where
  "txn_NewKeyIterator isClosed txn mems lc key opt =
     (if 0 < length (io_Prefix opt) then None
      else txn_NewIterator isClosed txn mems lc (opt\<lparr>io_Prefix := key, io_prefixIsKey := True, io_AllVersions := True\<rparr>))"

section \<open>Nothing the options ask for is left out\<close>

definition wanted :: "iter_opts \<Rightarrow> bytes \<Rightarrow> bool" where
  "wanted opt k \<longleftrightarrow> io_SinceTs opt \<le> ParseTs k \<and>
     (if io_prefixIsKey opt \<and> io_Prefix opt \<noteq> [] then parse_key k = io_Prefix opt else has_prefix (parse_key k) (io_Prefix opt))"

definition version_bound :: "table \<Rightarrow> bool" where
  "version_bound t \<longleftrightarrow> (\<forall>e \<in> set (t_data t). ParseTs (fst e) \<le> t_MaxVersion t)"

lemma compareToPrefix_take:
  "compareToPrefix opt k = bytes_compare (take (length (io_Prefix opt)) (parse_key k)) (io_Prefix opt)"
  by (simp add: compareToPrefix_def Let_def)

lemma take_mono: "a \<le> b \<Longrightarrow> take n a \<le> take n (b :: bytes)"
proof (induction n arbitrary: a b)
  case (Suc n)
  then show ?case by (cases a; cases b) auto
qed simp

lemma compare_mono:
  assumes "key_le a b"
  shows "0 < compareToPrefix opt a \<Longrightarrow> 0 < compareToPrefix opt b" and "0 \<le> compareToPrefix opt a \<Longrightarrow> 0 \<le> compareToPrefix opt b"
  using take_mono [OF key_le_parse [OF assms], of "length (io_Prefix opt)"] by (auto simp: compareToPrefix_take)

lemma wanted_compare: "wanted opt k \<Longrightarrow> compareToPrefix opt k = 0"
  by (auto simp: wanted_def compareToPrefix_take has_prefix_def split: if_splits)

lemma wanted_bounds:
  assumes "built_table t" and "e \<in> set (t_data t)" and "wanted opt (fst e)"
  shows "compareToPrefix opt (t_Smallest t) \<le> 0" and "0 \<le> compareToPrefix opt (t_Biggest t)"
  using built_bounds [OF assms(1,2)] compare_mono [of "t_Smallest t" "fst e" opt] compare_mono [of "fst e" "t_Biggest t" opt]
    wanted_compare [OF assms(3)] by (force simp: not_less [symmetric])+

lemma wanted_bloom:
  assumes t: "built_table t" and key: "io_prefixIsKey opt" "io_Prefix opt \<noteq> []"
  shows "\<exists>b. DoesNotHave t (Hash (io_Prefix opt)) = Some b \<and> (b \<longrightarrow> (\<forall>e \<in> set (t_data t). \<not> wanted opt (fst e)))"
proof -
  obtain b where b: "DoesNotHave t (Hash (io_Prefix opt)) = Some b" "b \<longrightarrow> newest (t_data t) (io_Prefix opt) (- 1) = None"
    using DoesNotHave_sound [OF t, of "io_Prefix opt" "- 1"] by blast
  have "\<not> wanted opt (fst e)" if "b" "e \<in> set (t_data t)" for e
  proof -
    have "\<not> matches (io_Prefix opt) (- 1) (fst e)" using b(2) that by (simp add: newest_None)
    then show ?thesis using key word_order.extremum [of "ParseTs (fst e)"] by (auto simp: matches_def wanted_def)
  qed
  then show ?thesis using b(1) by blast
qed

lemma wanted_version: "version_bound t \<Longrightarrow> e \<in> set (t_data t) \<Longrightarrow> wanted opt (fst e) \<Longrightarrow> \<not> t_MaxVersion t < io_SinceTs opt"
  unfolding version_bound_def wanted_def by (meson leD le_less_trans order_trans)

lemma pickTable_wanted:
  assumes "built_table t" and "version_bound t"
  shows "\<exists>b. pickTable opt t = Some b \<and> (\<not> b \<longrightarrow> (\<forall>e \<in> set (t_data t). \<not> wanted opt (fst e)))"
proof -
  have total: "pickTable opt t \<noteq> None"
    using wanted_bloom [OF assms(1), of opt] by (auto simp: pickTable_def)
  have "pickTable opt t = Some True" if e: "e \<in> set (t_data t)" "wanted opt (fst e)" for e
  proof -
    have c: "\<not> t_MaxVersion t < io_SinceTs opt" "\<not> 0 < compareToPrefix opt (t_Smallest t)" "\<not> compareToPrefix opt (t_Biggest t) < 0"
      using wanted_version [OF assms(2) e] wanted_bounds [OF assms(1) e] by auto
    have "DoesNotHave t (Hash (io_Prefix opt)) = Some False" if "io_prefixIsKey opt" "io_Prefix opt \<noteq> []"
      using wanted_bloom [OF assms(1) that] e by auto
    then show ?thesis using c by (simp add: pickTable_def)
  qed
  then show ?thesis using total by (cases "pickTable opt t") auto
qed

lemma pick_all_wanted:
  "\<forall>t \<in> set ts. built_table t \<and> version_bound t \<Longrightarrow>
    \<exists>P. pick_all opt ts = Some (filter P ts) \<and> (\<forall>t \<in> set ts. \<not> P t \<longrightarrow> (\<forall>e \<in> set (t_data t). \<not> wanted opt (fst e)))"
proof -
  assume ok: "\<forall>t \<in> set ts. built_table t \<and> version_bound t"
  have "pick_all opt us = Some (filter (\<lambda>t. pickTable opt t = Some True) us)" if "set us \<subseteq> set ts" for us
    using that
  proof (induction us)
    case (Cons u us)
    then obtain b where "pickTable opt u = Some b" using pickTable_wanted ok by (metis list.set_intros(1) subset_iff)
    then show ?case using Cons by (cases b) auto
  qed simp
  moreover have "\<forall>e \<in> set (t_data t). \<not> wanted opt (fst e)" if "t \<in> set ts" "pickTable opt t \<noteq> Some True" for t
    using pickTable_wanted [of t opt] ok that by (metis (full_types))
  ultimately show ?thesis by blast
qed

lemma pick_key_wanted:
  assumes key: "io_prefixIsKey opt" "io_Prefix opt \<noteq> []"
  shows "\<forall>t \<in> set ts. built_table t \<Longrightarrow> sorted_wrt before_table ts \<Longrightarrow>
    \<exists>out. pick_key_tables opt (Hash (io_Prefix opt)) ts = Some out \<and> subseq out ts \<and>
      (\<forall>t \<in> set ts. (\<exists>e \<in> set (t_data t). wanted opt (fst e)) \<longrightarrow> t \<in> set out)"
proof (induction ts)
  case (Cons t ts)
  then obtain out where out: "pick_key_tables opt (Hash (io_Prefix opt)) ts = Some out" "subseq out ts"
      "\<forall>u \<in> set ts. (\<exists>e \<in> set (t_data u). wanted opt (fst e)) \<longrightarrow> u \<in> set out" by auto
  show ?case
  proof (cases "0 < compareToPrefix opt (t_Smallest t)")
    case True
    have "\<not> wanted opt (fst e)" if e: "u \<in> set (t # ts)" "e \<in> set (t_data u)" for u e
    proof
      assume w: "wanted opt (fst e)"
      have u: "built_table u" using Cons.prems(1) e(1) by auto
      have "u = t \<or> before_table t u" using Cons.prems(2) e(1) by auto
      moreover have "built_table t" using Cons.prems(1) by simp
      then have "key_le (t_Smallest t) (t_Biggest t)" unfolding built_table_def table_ok_def by blast
      ultimately have "key_le (t_Smallest t) (t_Smallest u)"
        by (auto simp: before_table_def key_le_iff [of "t_Smallest t" "t_Smallest u"] intro: key_le_less_trans)
      then show False using compare_mono(1) [OF _ True] wanted_bounds(1) [OF u e(2) w] by (meson not_le)
    qed
    then show ?thesis using True by auto
  next
    case False
    obtain b where b: "DoesNotHave t (Hash (io_Prefix opt)) = Some b" "b \<longrightarrow> (\<forall>e \<in> set (t_data t). \<not> wanted opt (fst e))"
      using wanted_bloom [of t opt] key Cons.prems(1) by auto
    show ?thesis using False b out by (cases b) auto
  qed
qed simp

lemma pickTables_wanted:
  assumes ok: "\<forall>t \<in> set ts. built_table t \<and> version_bound t" and so: "sorted_wrt before_table ts"
  shows "\<exists>out. pickTables opt ts = Some out \<and> subseq out ts \<and>
    (\<forall>t \<in> set ts. (\<exists>e \<in> set (t_data t). wanted opt (fst e)) \<longrightarrow> t \<in> set out)"
proof -
  have f: "subseq (filterTables opt us) us \<and> (\<forall>t \<in> set us. t \<in> set ts \<longrightarrow> (\<exists>e \<in> set (t_data t). wanted opt (fst e)) \<longrightarrow> t \<in> set (filterTables opt us))" for us
    using wanted_version ok by (auto simp: filterTables_def)
  have le: "key_le (t_Biggest a) (t_Biggest b) \<and> key_le (t_Smallest a) (t_Smallest b)" if "before_table a b" "a \<in> set ts" "b \<in> set ts" for a b
    using that ok unfolding before_table_def built_table_def table_ok_def
    by (meson key_le_iff key_le_less_trans key_less_le_trans)
  show ?thesis
  proof (cases "io_Prefix opt = []")
    case True
    then show ?thesis using f [of ts] by (auto simp: pickTables_def)
  next
    case ne: False
    let ?f = "\<lambda>i. 0 \<le> compareToPrefix opt (t_Biggest (ts ! i))"
    define sIdx where "sIdx = sort_search (length ts) ?f"
    have up: "upward (length ts) ?f"
    proof (rule upwardI)
      fix i j assume ij: "i \<le> j" "j < length ts" "?f i"
      have "i = j \<or> before_table (ts ! i) (ts ! j)" using ij so by (auto simp: sorted_wrt_iff_nth_less le_less)
      then show "?f j" using compare_mono(2) ij le by (metis nth_mem order.strict_trans1)
    qed
    have right: "sIdx \<le> i" if "i < length ts" "e \<in> set (t_data (ts ! i))" "wanted opt (fst e)" for i e
      using sort_search_iff [OF up that(1)] wanted_bounds(2) [OF _ that(2,3)] ok that(1) unfolding sIdx_def by (metis nth_mem)
    let ?us = "drop sIdx ts"
    have us: "subseq ?us ts" by (rule suffix_imp_subseq [OF suffix_drop])
    have inus: "t \<in> set ?us" if t: "t \<in> set ts" "e \<in> set (t_data t)" "wanted opt (fst e)" for t e
    proof -
      obtain i where i: "i < length ts" "t = ts ! i" using t(1) by (metis in_set_conv_nth)
      then have "sIdx \<le> i" using right t by blast
      then have "t = ?us ! (i - sIdx)" "i - sIdx < length ?us" using i by auto
      then show ?thesis by (metis nth_mem)
    qed
    have soU: "sorted_wrt before_table ?us" using so by (rule sorted_wrt_drop)
    have okU: "\<forall>t \<in> set ?us. built_table t" using ok by (auto dest: in_set_dropD)
    consider "sIdx = length ts" | "sIdx \<noteq> length ts" "io_prefixIsKey opt" | "sIdx \<noteq> length ts" "\<not> io_prefixIsKey opt" by blast
    then show ?thesis
    proof cases
      case 1
      then have "\<not> (\<exists>e \<in> set (t_data t). wanted opt (fst e))" if "t \<in> set ts" for t using inus [OF that] by auto
      then show ?thesis using 1 ne by (auto simp: pickTables_def sIdx_def)
    next
      case 2
      obtain out where out: "pick_key_tables opt (Hash (io_Prefix opt)) ?us = Some out" "subseq out ?us"
          "\<forall>t \<in> set ?us. (\<exists>e \<in> set (t_data t). wanted opt (fst e)) \<longrightarrow> t \<in> set out"
        using pick_key_wanted [OF 2(2) ne okU soU] by blast
      have "pickTables opt ts = Some (filterTables opt out)" using 2 ne out(1) by (simp add: pickTables_def Let_def sIdx_def)
      moreover have "subseq (filterTables opt out) ts" using f out(2) us by (meson subseq_order.trans)
      moreover have "t \<in> set (filterTables opt out)" if "t \<in> set ts" "\<exists>e \<in> set (t_data t). wanted opt (fst e)" for t
        using f inus out(3) that by blast
      ultimately show ?thesis by blast
    next
      case 3
      let ?g = "\<lambda>i. 0 < compareToPrefix opt (t_Smallest (?us ! i))"
      define eIdx where "eIdx = sort_search (length ?us) ?g"
      have upg: "upward (length ?us) ?g"
      proof (rule upwardI)
        fix i j assume ij: "i \<le> j" "j < length ?us" "?g i"
        have "i = j \<or> before_table (?us ! i) (?us ! j)" using ij soU by (auto simp: sorted_wrt_iff_nth_less le_less)
        moreover have "?us ! i \<in> set ts" "?us ! j \<in> set ts" using ij us by (metis in_set_dropD nth_mem order.strict_trans1)+
        ultimately show "?g j" using compare_mono(1) ij le by metis
      qed
      have p: "pickTables opt ts = Some (filterTables opt (take eIdx ?us))" using 3 ne by (simp add: pickTables_def Let_def sIdx_def eIdx_def)
      have "subseq (take eIdx ?us) ?us" by (rule prefix_imp_subseq [OF take_is_prefix])
      then have "subseq (filterTables opt (take eIdx ?us)) ts" using f us by (meson subseq_order.trans)
      moreover have "t \<in> set (filterTables opt (take eIdx ?us))" if t: "t \<in> set ts" "e \<in> set (t_data t)" "wanted opt (fst e)" for t e
      proof -
        obtain i where i: "i < length ?us" "t = ?us ! i" using inus [OF t] by (metis in_set_conv_nth)
        have "\<not> ?g i" using wanted_bounds(1) [OF _ t(2,3)] ok t(1) i(2) by (auto simp: not_less)
        then have "i < eIdx" using sort_search_iff [OF upg i(1)] unfolding eIdx_def by simp
        then have "t \<in> set (take eIdx ?us)" using i by (metis in_set_conv_nth length_take min_less_iff_conj nth_take)
        then show ?thesis using f t by blast
      qed
      ultimately show ?thesis using p by blast
    qed
  qed
qed

section \<open>What the iterator goes through\<close>

lemma subseq_map_concat: "subseq us ts \<Longrightarrow> subseq (concat (map f us)) (concat (map f ts))"
  by (induction rule: list_emb.induct) (auto intro: list_emb_append2 list_emb_append_mono)

lemma tables_sorted:
  "sorted_wrt before_table ts \<Longrightarrow> \<forall>t \<in> set ts. built_table t \<Longrightarrow> sorted_wrt key_less (map fst (concat (map t_data ts)))"
proof (induction ts)
  case (Cons t ts)
  have "sorted_wrt key_less (map fst (t_data t))" using Cons.prems(2) by (simp add: built_table_def table_ok_def)
  moreover have "key_less (fst e) (fst f)" if "e \<in> set (t_data t)" "u \<in> set ts" "f \<in> set (t_data u)" for e f u
    using built_bounds [of t e] built_bounds [of u f] Cons.prems that
    unfolding sorted_wrt.simps before_table_def by (meson key_le_less_trans key_less_le_trans list.set_intros)
  ultimately show ?case using Cons by (auto simp: sorted_wrt_append)
qed simp

lemma data_iter_ok: "sorted_wrt key_less (map fst es) \<Longrightarrow> leaves_ok d (data_iter d es) \<and> map_of (merged (data_iter d es)) = map_of es"
proof -
  assume so: "sorted_wrt key_less (map fst es)"
  then have "in_dir False es" by (simp add: before_def sorted_wrt_map)
  then have "distinct (map fst es)" by (rule in_dir_distinct)
  moreover have "in_dir True (rev es)" using so by (simp add: before_def sorted_wrt_map sorted_wrt_rev)
  moreover have "map_of (rev es) = map_of es" by (rule map_of_inject_set [THEN iffD2]) (use calculation in \<open>simp_all add: rev_map [symmetric]\<close>)
  ultimately show ?thesis using \<open>in_dir False es\<close> by (simp add: data_iter_def)
qed

lemma first_of_map: "(\<And>t. t \<in> set ts \<Longrightarrow> map_of (merged (f t)) = map_of (g t)) \<Longrightarrow> first_of (map f ts) = map_of (concat (map g ts))"
  by (induction ts) (simp_all add: first_of_def)

lemma map_of_concat_filter:
  "(\<And>t. t \<in> set ts \<Longrightarrow> \<not> P t \<Longrightarrow> k \<notin> fst ` set (g t)) \<Longrightarrow> map_of (concat (map g (filter P ts))) k = map_of (concat (map g ts)) k"
proof (induction ts)
  case (Cons t ts)
  have IH: "map_of (concat (map g (filter P ts))) k = map_of (concat (map g ts)) k" using Cons by auto
  show ?case
  proof (cases "P t")
    case True
    then show ?thesis using IH by (simp add: map_add_def split: option.split)
  next
    case False
    then have "map_of (g t) k = None" using Cons.prems [of t] by (simp add: map_of_eq_None_iff)
    then show ?thesis using IH False by (simp add: map_add_def split: option.split)
  qed
qed simp

lemma subseq_set_subset: "subseq xs ys \<Longrightarrow> set xs \<subseteq> set ys"
  by (induction rule: list_emb.induct) auto

lemma subseq_sorted_wrt: "subseq xs ys \<Longrightarrow> sorted_wrt R ys \<Longrightarrow> sorted_wrt R xs"
  by (induction rule: list_emb.induct) (auto dest: list_emb_set)

text \<open>The iterators of a level, for the internal keys the options ask for, give what the level holds.\<close>

definition gives :: "iter_opts \<Rightarrow> iter list \<Rightarrow> entry list \<Rightarrow> bool" where
  "gives opt iters es \<longleftrightarrow> (\<forall>i \<in> set iters. leaves_ok (io_Reverse opt) i) \<and>
     (\<forall>k v. first_of iters k = Some v \<longrightarrow> (k, v) \<in> set es) \<and> (\<forall>k. wanted opt k \<longrightarrow> first_of iters k = map_of es k)"

lemma level_gives:
  assumes wf: "level_wf lh" and vb: "\<forall>t \<in> set (lh_tables lh). version_bound t"
  shows "\<exists>s' its. lh_appendIterators s iters lh opt = Some (s', iters @ its) \<and> gives opt its (level_entries lh)"
proof -
  let ?ts = "lh_tables lh" and ?d = "io_Reverse opt"
  have ok: "\<forall>t \<in> set ?ts. built_table t \<and> version_bound t" using wf vb by (simp add: level_wf_def)
  have srt: "sorted_wrt key_less (map fst (t_data t))" if "t \<in> set ?ts" for t
    using ok that by (simp add: built_table_def table_ok_def)
  show ?thesis
  proof (cases "unsorted lh")
    case True
    obtain P where P: "pick_all opt ?ts = Some (filter P ?ts)"
        "\<forall>t \<in> set ?ts. \<not> P t \<longrightarrow> (\<forall>e \<in> set (t_data t). \<not> wanted opt (fst e))" using pick_all_wanted [OF ok] by blast
    let ?out = "filter P (rev ?ts)" and ?f = "\<lambda>t. data_iter ?d (t_data t)"
    have f: "leaves_ok ?d (?f t) \<and> map_of (merged (?f t)) = map_of (t_data t)" if "t \<in> set ?ts" for t
      using data_iter_ok srt that by blast
    have fo: "first_of (map ?f ?out) = map_of (concat (map t_data ?out))" using f by (intro first_of_map) auto
    have "first_of (map ?f ?out) k = map_of (level_entries lh) k" if "wanted opt k" for k
      unfolding fo level_entries_def if_P [OF True] by (rule map_of_concat_filter) (use P(2) that in force)
    moreover have "(k, v) \<in> set (level_entries lh)" if "first_of (map ?f ?out) k = Some v" for k v
      using map_of_SomeD [OF that [unfolded fo]] unfolding set_level_entries by auto
    moreover have "\<forall>i \<in> set (map ?f ?out). leaves_ok ?d i" using f by auto
    ultimately have "gives opt (map ?f ?out) (level_entries lh)" unfolding gives_def by blast
    moreover have "lh_appendIterators s iters lh opt = Some (foldl IncrRef s ?out, iters @ map ?f ?out)"
      using True P(1) by (simp add: lh_appendIterators_def unsorted_def rev_filter)
    ultimately show ?thesis by blast
  next
    case False
    have so: "sorted_wrt before_table ?ts" using wf False by (simp add: level_wf_def)
    obtain out where out: "pickTables opt ?ts = Some out" "subseq out ?ts"
        "\<forall>t \<in> set ?ts. (\<exists>e \<in> set (t_data t). wanted opt (fst e)) \<longrightarrow> t \<in> set out" using pickTables_wanted [OF ok so] by blast
    let ?o = "concat (map t_data out)" and ?l = "concat (map t_data ?ts)"
    let ?its = "if out = [] then [] else [data_iter ?d ?o]"
    have le: "level_entries lh = ?l" using False by (simp add: level_entries_def)
    have sl: "sorted_wrt key_less (map fst ?l)" using so ok by (intro tables_sorted) auto
    have sub: "subseq ?o ?l" by (rule subseq_map_concat [OF out(2)])
    have sO: "sorted_wrt key_less (map fst ?o)" by (rule subseq_sorted_wrt [OF subseq_map [OF sub] sl])
    have fo: "first_of ?its = map_of ?o" using data_iter_ok [OF sO] by (simp add: first_of_single) (simp add: first_of_def)
    have dl: "distinct (map fst ?l)" "distinct (map fst ?o)"
      using sl sO in_dir_distinct [of False] by (simp_all add: before_def sorted_wrt_map)
    have agree: "map_of ?o k = map_of ?l k" if k: "wanted opt k" for k
    proof (cases "map_of ?l k")
      case None
      then have "k \<notin> fst ` set ?o" using image_mono [OF subseq_set_subset [OF sub], of fst] by (simp only: map_of_eq_None_iff) blast
      then have "map_of ?o k = None" by (rule map_of_eq_None_iff [THEN iffD2])
      then show ?thesis using None by (rule trans [OF _ sym])
    next
      case (Some v)
      then obtain t where t: "t \<in> set ?ts" "(k, v) \<in> set (t_data t)" using map_of_SomeD [OF Some] by auto
      then have "t \<in> set out" using out(3) k by force
      then have "(k, v) \<in> set ?o" using t(2) by auto
      then show ?thesis using Some dl(2) by (simp add: map_of_is_SomeI)
    qed
    moreover have "(k, v) \<in> set ?l" if "map_of ?o k = Some v" for k v
      using map_of_SomeD [OF that] subseq_set_subset [OF sub] by blast
    moreover have "\<forall>i \<in> set ?its. leaves_ok ?d i" using data_iter_ok [OF sO] by simp
    ultimately have "gives opt ?its (level_entries lh)" unfolding gives_def le fo by blast
    moreover have "lh_appendIterators s iters lh opt = Some (if out = [] then s else foldl IncrRef s out, iters @ ?its)"
      using False out(1) by (simp add: lh_appendIterators_def unsorted_def)
    ultimately show ?thesis by blast
  qed
qed

lemma gives_append: "gives opt xs es \<Longrightarrow> gives opt ys fs \<Longrightarrow> gives opt (xs @ ys) (es @ fs)"
  unfolding gives_def first_of_append by (auto simp: map_add_def split: option.splits)

lemma gives_Nil [simp]: "gives opt [] []"
  by (simp add: gives_def first_of_def)

lemma append_levels_gives:
  "\<forall>h \<in> set hs. level_wf h \<and> (\<forall>t \<in> set (lh_tables h). version_bound t) \<Longrightarrow>
    \<exists>s' its. append_levels s iters hs opt = Some (s', iters @ its) \<and> gives opt its (concat (map level_entries hs))"
proof (induction hs arbitrary: s iters)
  case (Cons h hs)
  obtain s1 its1 where a: "lh_appendIterators s iters h opt = Some (s1, iters @ its1)" "gives opt its1 (level_entries h)"
    using level_gives [of h s iters opt] Cons.prems by auto
  obtain s2 its2 where b: "append_levels s1 (iters @ its1) hs opt = Some (s2, (iters @ its1) @ its2)"
      "gives opt its2 (concat (map level_entries hs))"
    using Cons.IH [of s1 "iters @ its1"] Cons.prems by auto
  show ?case using a b gives_append by auto
qed simp

definition own_entries :: "Txn \<Rightarrow> bool \<Rightarrow> entry list" where
  "own_entries txn reversed = (case newPendingWritesIterator txn reversed of None \<Rightarrow> [] | Some p \<Rightarrow> pending_items p)"

text \<open>Everything a transaction can read, in the order in which \<open>Get\<close> prefers it.\<close>

definition db_entries :: "Txn \<Rightarrow> bool \<Rightarrow> entry list list \<Rightarrow> levelsController \<Rightarrow> entry list" where
  "db_entries txn reversed mems lc = own_entries txn reversed @ concat mems @ all_entries lc"

lemma own_gives:
  assumes "txn_wf topt txn" and "0 < tx_readTs txn" and "tx_readTs txn < 2 ^ 64"
  shows "gives opt (case newPendingWritesIterator txn (io_Reverse opt) of None \<Rightarrow> [] | Some p \<Rightarrow> [Leaf (pending_items p) 0])
      (own_entries txn (io_Reverse opt)) \<and> (\<forall>e \<in> set (own_entries txn (io_Reverse opt)). stored_key (fst e))"
proof (cases "newPendingWritesIterator txn (io_Reverse opt)")
  case None
  then show ?thesis by (simp add: own_entries_def)
next
  case (Some p)
  note P = pending_iterator_ok [OF assms(1) Some]
  have z: "pi_nextIdx p = 0" "pi_readTs p = tx_readTs txn"
    using Some by (auto simp: newPendingWritesIterator_def split: if_splits)
  have key: "e_Key e \<noteq> []" if "e \<in> set (pi_entries p)" for e
  proof -
    have "e \<in> snd ` set (tx_pendingWrites txn)" using P that by (metis mset_eq_setD set_map)
    then show ?thesis using assms(1) by (auto simp: txn_wf_def)
  qed
  have r: "(word_of_nat (tx_readTs txn) :: u64) \<noteq> 0" using assms(2,3) by (simp add: word_of_nat_eq_0_iff nat_dvd_not_less)
  have "in_dir (io_Reverse opt) (pending_items p)"
    using conjunct1 [OF conjunct2 [OF P]] by (simp add: pending_items_def z sorted_wrt_map before_def) (auto elim!: sorted_wrt_mono_rel [rotated])
  then show ?thesis using key r
    by (auto simp: own_entries_def Some gives_def first_of_single pending_items_def z word_neq_0_conv dest: map_of_SomeD)
qed

lemma mems_gives:
  assumes "\<forall>es \<in> set mems. mem_ok es"
  shows "gives opt (map (data_iter (io_Reverse opt)) mems) (concat mems)"
proof -
  have f: "leaves_ok (io_Reverse opt) (data_iter (io_Reverse opt) es) \<and> map_of (merged (data_iter (io_Reverse opt) es)) = map_of es" if "es \<in> set mems" for es
    using data_iter_ok assms that by (auto simp: mem_ok_def)
  have "first_of (map (data_iter (io_Reverse opt)) mems) = map_of (concat (map (\<lambda>es. es) mems))"
    using f by (intro first_of_map) auto
  then show ?thesis using f unfolding gives_def by (auto dest: map_of_SomeD)
qed

text \<open>Agreement on the wanted keys is all that reads of them depend on.\<close>

lemma newest_agree:
  assumes st: "\<forall>e \<in> set es \<union> set fs. stored_key (fst e)" and eq: "\<And>ik. matches k ts ik \<Longrightarrow> map_of es ik = map_of fs ik"
  shows "newest es k ts = newest fs k ts"
proof -
  have found: "newest es k ts = Some (w, v) \<Longrightarrow> map_of es (KeyWithTs k w) = Some v \<and> w \<le> ts \<and> k \<noteq> []"
    if "\<forall>e \<in> set es. stored_key (fst e)" for es w v
    using that
  proof (induction es arbitrary: w v)
    case (Cons e es)
    obtain ik u where e: "e = (ik, u)" by fastforce
    have sk: "stored_key ik" using Cons.prems(2) by (simp add: e)
    have ik: "ik = KeyWithTs (parse_key ik) (ParseTs ik)" by (rule stored_key_eq [OF stored_len [OF sk]])
    have ne: "parse_key ik \<noteq> []" using sk by (auto simp: stored_key_def parse_key_def)
    show ?case
    proof (cases "newest es k ts")
      case None
      then show ?thesis using Cons.prems(1) ik ne by (auto simp: e matches_def split: if_splits)
    next
      case (Some p)
      obtain w' v' where p: "p = (w', v')" by fastforce
      note IH = Cons.IH [of w' v', unfolded Some p]
      have d: "ik \<noteq> KeyWithTs k w'" if "matches k ts ik \<longrightarrow> ParseTs ik < w'"
        using that IH Cons.prems(2) by (auto simp: matches_def)
      show ?thesis
      proof (cases "matches k ts ik \<and> w' \<le> ParseTs ik")
        case True
        then show ?thesis using Cons.prems(1) ik ne by (auto simp: e Some p matches_def not_less [symmetric] split: if_splits)
      next
        case False
        then show ?thesis using Cons.prems IH d by (auto simp: e Some p split: if_splits)
      qed
    qed
  qed simp
  have miss: "map_of es ik = None" if "newest es k ts = None" "matches k ts ik" for es ik
    using that by (auto simp: newest_None map_of_eq_None_iff)
  have top: "newest es k ts \<noteq> None \<and> (\<forall>w v. newest es k ts = Some (w, v) \<longrightarrow> ParseTs ik \<le> w)"
    if "map_of es ik = Some u" "matches k ts ik" for es ik u
  proof -
    have i: "(ik, u) \<in> set es" using that(1) by (rule map_of_SomeD)
    then have "newest es k ts \<noteq> None" using that(2) unfolding newest_None by force
    moreover have "ParseTs ik \<le> w" if "newest es k ts = Some (w, v)" for w v
      using newest_Some [OF that] i \<open>matches k ts ik\<close> by force
    ultimately show ?thesis by blast
  qed
  have s: "\<forall>e \<in> set es. stored_key (fst e)" "\<forall>e \<in> set fs. stored_key (fst e)" using st by auto
  show ?thesis
  proof (cases "newest es k ts")
    case None
    have "newest fs k ts = None"
    proof (rule ccontr)
      assume "newest fs k ts \<noteq> None"
      then obtain w v where n: "newest fs k ts = Some (w, v)" by auto
      have "matches k ts (KeyWithTs k w)" using found [OF s(2) n] by (simp add: matches_def)
      then show False using found [OF s(2) n] eq miss [OF None] by simp
    qed
    then show ?thesis using None by simp
  next
    case (Some p)
    obtain w v where n: "newest es k ts = Some (w, v)" by (cases p) (simp add: Some)
    have m: "matches k ts (KeyWithTs k w)" using found [OF s(1) n] by (simp add: matches_def)
    have k: "k \<noteq> []" and mv: "map_of fs (KeyWithTs k w) = Some v" using eq [OF m] found [OF s(1) n] by simp_all
    obtain w' v' where n': "newest fs k ts = Some (w', v')" using top [OF mv m] by (cases "newest fs k ts") auto
    have le: "w \<le> w'" using conjunct2 [OF top [OF mv m]] n' k by simp
    have m': "matches k ts (KeyWithTs k w')" using found [OF s(2) n'] by (simp add: matches_def)
    have mv': "map_of es (KeyWithTs k w') = Some v'" using eq [OF m'] found [OF s(2) n'] by simp
    have "w' \<le> w" using conjunct2 [OF top [OF mv' m']] n k by simp
    with le have w: "w' = w" by (rule antisym [rotated])
    have "map_of fs (KeyWithTs k w) = Some v'" using found [OF s(2) n'] unfolding w by blast
    with mv have "v' = v" by simp
    then show ?thesis unfolding n n' w by simp
  qed
qed

lemma map_of_filter_key: "map_of (filter (\<lambda>e. P (fst e)) es) k = (if P k then map_of es k else None)"
  by (induction es) auto

lemma distinct_length: "distinct (map fst es) \<Longrightarrow> set es \<subseteq> set fs \<Longrightarrow> length es \<le> length fs"
  by (metis card_length card_mono distinct_card distinct_map le_trans List.finite_set)

definition sources_ok :: "txn_opts \<Rightarrow> Txn \<Rightarrow> entry list list \<Rightarrow> levelsController \<Rightarrow> bool" where
  "sources_ok topt txn mems lc \<longleftrightarrow> txn_wf topt txn \<and> \<not> tx_discarded txn \<and> 0 < tx_readTs txn \<and> tx_readTs txn < 2 ^ 64 \<and>
     (\<forall>es \<in> set mems. mem_ok es) \<and> lc_wf lc \<and> (\<forall>h \<in> set (handlers lc). \<forall>t \<in> set (lh_tables h). version_bound t)"

lemma NewIterator_gives:
  fixes opt :: iter_opts
  assumes ok: "sources_ok topt txn mems lc"
  defines "E \<equiv> db_entries txn (io_Reverse opt) mems lc"
  shows "\<exists>s it. txn_NewIterator False txn mems lc opt = Some (s, it) \<and> di_opt it = opt \<and> di_readTs it = word_of_nat (tx_readTs txn) \<and>
    di_item it = None \<and> in_dir (io_Reverse opt) (di_all it) \<and> (\<forall>e \<in> set (di_all it). e \<in> set E) \<and>
    (\<forall>k. wanted opt k \<longrightarrow> map_of (di_all it) k = map_of E k) \<and> (\<forall>e \<in> set E. stored_key (fst e)) \<and> (di_nil it \<longrightarrow> di_all it = [])"
proof -
  let ?txn = "txn\<lparr>tx_numIterators := tx_numIterators txn + 1\<rparr>" and ?d = "io_Reverse opt"
  have same: "newPendingWritesIterator ?txn ?d = newPendingWritesIterator txn ?d" by (simp add: newPendingWritesIterator_def)
  let ?own = "case newPendingWritesIterator txn ?d of None \<Rightarrow> [] | Some p \<Rightarrow> [Leaf (pending_items p) 0]"
  let ?mem = "map (data_iter ?d) mems"
  have own: "gives opt ?own (own_entries txn ?d)" "\<forall>e \<in> set (own_entries txn ?d). stored_key (fst e)"
    using own_gives [of topt txn opt] ok by (simp_all add: sources_ok_def)
  have mem: "gives opt ?mem (concat mems)" "\<forall>e \<in> set (concat mems). stored_key (fst e)"
    using mems_gives [of mems opt] ok by (auto simp: sources_ok_def mem_ok_def)
  have hs: "\<forall>h \<in> set (handlers lc). level_wf h \<and> (\<forall>t \<in> set (lh_tables h). version_bound t)"
    using ok by (auto simp: sources_ok_def lc_wf_def)
  have all: "all_entries lc = concat (map level_entries (handlers lc))"
    by (simp add: all_entries_def handlers_def hot_entries_def split: option.split)
  obtain s its where lev: "append_levels (lc_refs lc) (?own @ ?mem) (handlers lc) opt = Some (s, (?own @ ?mem) @ its)"
      "gives opt its (all_entries lc)"
    using append_levels_gives [OF hs, of "lc_refs lc" "?own @ ?mem" opt] unfolding all by blast
  have st: "\<forall>e \<in> set E. stored_key (fst e)"
    using own(2) mem(2) hs level_entries_built unfolding E_def db_entries_def all by fastforce
  let ?iters = "(?own @ ?mem) @ its"
  have g: "gives opt ?iters E" unfolding E_def db_entries_def using gives_append [OF gives_append [OF own(1) mem(1)] lev(2)] by simp
  let ?all = "case NewMergeIterator ?iters ?d of None \<Rightarrow> [] | Some i \<Rightarrow> merged i"
  have m: "in_dir ?d ?all \<and> map_of ?all = first_of ?iters"
  proof (cases "?iters = []")
    case True
    have "NewMergeIterator [] ?d = None" by (subst NewMergeIterator.simps) simp
    then show ?thesis using True by (simp only: True) (simp add: first_of_def)
  next
    case False
    obtain i where "NewMergeIterator ?iters ?d = Some i" "leaves_ok ?d i" "map_of (merged i) = first_of ?iters"
      using NewMergeIterator_ok [OF False, of ?d] g unfolding gives_def by blast
    then show ?thesis using in_dir_merged by simp
  qed
  have mem_E: "e \<in> set E" if "e \<in> set ?all" for e
  proof -
    have "map_of ?all (fst e) = Some (snd e)" using that in_dir_distinct [OF conjunct1 [OF m]] by simp
    then show ?thesis using g m unfolding gives_def by (metis prod.collapse)
  qed
  let ?it = "\<lparr>di_nil = (NewMergeIterator ?iters ?d = None), di_all = ?all, di_rest = [], di_readTs = word_of_nat (tx_readTs txn), di_opt = opt,
     di_item = None, di_data = [], di_waste = [], di_lastKey = [], di_scanned = 0, di_txn = ?txn\<rparr>"
  have "txn_NewIterator False txn mems lc opt = Some (s, ?it)"
    using ok lev(1) by (simp add: txn_NewIterator_def sources_ok_def Let_def lc_appendIterators_def handlers_def same)
  moreover have "map_of ?all k = map_of E k" if "wanted opt k" for k using g m that unfolding gives_def by simp
  ultimately show ?thesis using m mem_E st by (intro exI [of _ s] exI [of _ ?it]) auto
qed

section \<open>A scan shows what reads find\<close>

lemma eligible_wanted: "eligible topt opt rts ik \<Longrightarrow> asked opt key (parse_key ik) \<Longrightarrow> wanted opt ik"
proof -
  assume a: "eligible topt opt rts ik" "asked opt key (parse_key ik)"
  have "io_SinceTs opt \<le> ParseTs ik"
    using a(1) by (cases "io_SinceTs opt = 0") (auto simp: eligible_def Let_def word_gt_0 split: if_splits)
  then show ?thesis using a(2) by (simp add: wanted_def asked_def has_prefix_iff split: if_splits)
qed

lemma scanned_set:
  fixes opt :: iter_opts and topt :: txn_opts
  assumes it: "di_opt it = opt" "di_readTs it = rts"
    and so: "in_dir (io_Reverse opt) (di_all it)" and sub: "\<forall>e \<in> set (di_all it). e \<in> set E" and st: "\<forall>e \<in> set E. stored_key (fst e)"
    and eq: "\<forall>k. wanted opt k \<longrightarrow> map_of (di_all it) k = map_of E k"
  defines "R \<equiv> filter (\<lambda>f. eligible topt opt rts (fst f)) E"
  shows "set (map entry_out (scanned topt now key it)) = {entry_out (KeyWithTs k w, v) | k w v. asked opt key k \<and>
      (if io_AllVersions opt then map_of R (KeyWithTs k w) = Some v else visible now (newest R k rts) = Some (w, v))}" (is "?L = ?R")
proof -
  let ?el = "filter (\<lambda>f. eligible topt opt rts (fst f))"
  have st': "\<forall>e \<in> set (di_all it). stored_key (fst e)" using sub st by blast
  have agree: "map_of (?el (di_all it)) ik = map_of R ik" if "asked opt key (parse_key ik)" for ik
    using eq eligible_wanted [of topt opt rts ik key] that by (simp add: R_def map_of_filter_key [where P = "eligible topt opt rts"])
  have same: "newest (?el (di_all it)) k rts = newest R k rts" if "asked opt key k" for k
  proof (rule newest_agree)
    show "\<forall>e \<in> set (?el (di_all it)) \<union> set R. stored_key (fst e)" using st st' by (auto simp: R_def)
    fix ik assume "matches k rts ik"
    then show "map_of (?el (di_all it)) ik = map_of R ik" using agree that by (simp add: matches_def)
  qed
  have "asked opt key (parse_key (fst e)) \<longleftrightarrow> (if io_Reverse opt then seek_key it key = [] \<or> parse_key (fst e) \<le> seek_key it key
      else has_prefix (parse_key (fst e)) (io_Prefix opt) \<and> key \<le> parse_key (fst e)) \<and> shown_valid opt (entry_out e)" for e
    by (auto simp: asked_def shown_valid_def entry_out_def seek_key_def it has_prefix_iff Let_def)
  then have mem: "e \<in> set (scanned topt now key it) \<longleftrightarrow> e \<in> set (di_all it) \<and> asked opt key (parse_key (fst e)) \<and>
      (if io_AllVersions opt then eligible topt opt rts (fst e) else returned topt now opt rts (di_all it) e)" for e
    by (auto simp: scanned_def spanned_def it Let_def)
  have out: "KeyWithTs (parse_key (fst e)) (ParseTs (fst e)) = fst e" if "e \<in> set (di_all it)" for e
    using stored_key_eq [OF stored_len [OF bspec [OF st' that]]] by simp
  have dist: "e \<in> set (di_all it) \<longleftrightarrow> map_of (di_all it) (fst e) = Some (snd e)" for e
    using in_dir_distinct [OF so] by (metis map_of_eq_Some_iff prod.collapse)
  have chosen: "e \<in> set (scanned topt now key it) \<longleftrightarrow> e \<in> set (di_all it) \<and> asked opt key (parse_key (fst e)) \<and>
      (if io_AllVersions opt then map_of R (fst e) = Some (snd e) else visible now (newest R (parse_key (fst e)) rts) = Some (ParseTs (fst e), snd e))" for e
  proof (cases "e \<in> set (di_all it) \<and> asked opt key (parse_key (fst e))")
    case True
    have "map_of R (fst e) = Some (snd e) \<longleftrightarrow> eligible topt opt rts (fst e)"
      using agree [of "fst e"] dist [of e] True by (auto simp: map_of_filter_key [where P = "eligible topt opt rts"] split: if_splits)
    moreover have "returned topt now opt rts (di_all it) e \<longleftrightarrow> visible now (newest R (parse_key (fst e)) rts) = Some (ParseTs (fst e), snd e)"
      using returned_newest [OF so st'] same True by simp
    ultimately show ?thesis using True mem by simp
  next
    case False
    then show ?thesis unfolding mem by blast
  qed
  show ?thesis
  proof (intro equalityI subsetI)
    fix s assume "s \<in> ?L"
    then obtain e where e: "e \<in> set (scanned topt now key it)" "s = entry_out e" by auto
    then have "s = entry_out (KeyWithTs (parse_key (fst e)) (ParseTs (fst e)), snd e)" using out [of e] chosen by simp
    then show "s \<in> ?R" using e(1) out [of e] unfolding chosen by (intro CollectI exI [of _ "parse_key (fst e)"] exI [of _ "ParseTs (fst e)"] exI [of _ "snd e"]) simp
  next
    fix s assume "s \<in> ?R"
    then obtain k w v where kwv: "s = entry_out (KeyWithTs k w, v)" "asked opt key k"
        "if io_AllVersions opt then map_of R (KeyWithTs k w) = Some v else visible now (newest R k rts) = Some (w, v)" by blast
    have "\<exists>ik. (ik, v) \<in> set (di_all it) \<and> parse_key ik = k \<and> ParseTs ik = w"
    proof (cases "io_AllVersions opt")
      case True
      then have m: "map_of R (KeyWithTs k w) = Some v" using kwv(3) by simp
      then have "stored_key (KeyWithTs k w)" using map_of_SomeD [OF m] st by (auto simp: R_def)
      then have "k \<noteq> []" by (auto simp: stored_key_def KeyWithTs_def)
      moreover have "(KeyWithTs k w, v) \<in> set (di_all it)" using m agree [of "KeyWithTs k w"] kwv(2) map_of_SomeD by fastforce
      ultimately show ?thesis by auto
    next
      case False
      then have "newest (?el (di_all it)) k rts = Some (w, v)" using kwv(3) same [OF kwv(2)] by (auto simp: visible_def split: option.splits if_splits)
      then show ?thesis using newest_Some [of "?el (di_all it)" k rts w v] by (auto simp: matches_def)
    qed
    then obtain ik where ik: "(ik, v) \<in> set (di_all it)" "parse_key ik = k" "ParseTs ik = w" by blast
    have kw: "KeyWithTs k w = ik" using out [OF ik(1)] ik(2,3) by simp
    have "(ik, v) \<in> set (scanned topt now key it)" using ik(1) kwv(2) kwv(3) [unfolded kw] unfolding chosen fst_conv snd_conv ik(2,3) by blast
    with kwv(1) kw show "s \<in> ?L" by (metis image_eqI set_map)
  qed
qed

text \<open>The order of the items: by key, and the versions of a key downwards; all of it backwards in reverse.\<close>

definition in_turn :: "iter_opts \<Rightarrow> shown \<Rightarrow> shown \<Rightarrow> bool" where
  "in_turn opt a b \<longleftrightarrow>
     (let p = (if io_Reverse opt then b else a); q = (if io_Reverse opt then a else b)
      in fst p < fst q \<or> io_AllVersions opt \<and> fst p = fst q \<and> fst (snd q) < fst (snd p))"

lemma scanned_sorted:
  assumes so: "in_dir (io_Reverse (di_opt it)) (di_all it)" and st: "\<forall>e \<in> set (di_all it). stored_key (fst e)"
  shows "sorted_wrt (in_turn (di_opt it)) (map entry_out (scanned topt now key it))"
proof -
  let ?d = "io_Reverse (di_opt it)" and ?S = "scanned topt now key it"
  have S: "e \<in> set (di_all it) \<and> (\<not> io_AllVersions (di_opt it) \<longrightarrow> returned topt now (di_opt it) (di_readTs it) (di_all it) e)" if "e \<in> set ?S" for e
    using that by (auto simp: scanned_def spanned_def Let_def)
  have "in_dir ?d ?S" using so unfolding scanned_def spanned_def Let_def by (intro sorted_wrt_filter)
  moreover have "in_turn (di_opt it) (entry_out a) (entry_out b)"
    if ab: "a \<in> set ?S" "b \<in> set ?S" "before ?d (fst a) (fst b)" for a b
  proof -
    let ?p = "if ?d then b else a" and ?q = "if ?d then a else b"
    have m: "?p \<in> set ?S" "?q \<in> set ?S" "key_less (fst ?p) (fst ?q)" using ab by (auto simp: before_def split: if_splits)
    have "parse_key (fst ?p) < parse_key (fst ?q) \<or> parse_key (fst ?p) = parse_key (fst ?q) \<and> ParseTs (fst ?q) < ParseTs (fst ?p)"
      using key_less_stored [OF stored_len stored_len, of "fst ?p" "fst ?q"] m S st by blast
    moreover have "io_AllVersions (di_opt it)" if "parse_key (fst ?p) = parse_key (fst ?q)" "ParseTs (fst ?q) < ParseTs (fst ?p)"
    proof (rule ccontr)
      assume "\<not> io_AllVersions (di_opt it)"
      then have "returned topt now (di_opt it) (di_readTs it) (di_all it) ?p" "returned topt now (di_opt it) (di_readTs it) (di_all it) ?q"
        using S [OF m(1)] S [OF m(2)] by blast+
      then have "ParseTs (fst ?p) \<le> ParseTs (fst ?q)" using that(1) S [OF m(1)] unfolding returned_def by blast
      then show False using that(2) by simp
    qed
    ultimately show ?thesis by (cases ?d) (auto simp: in_turn_def entry_out_def)
  qed
  ultimately show ?thesis by (auto simp: sorted_wrt_map intro: sorted_wrt_mono_rel [rotated])
qed

lemma map_option_Some: "map_option f x = Some y \<Longrightarrow> \<exists>z. x = Some z \<and> f z = y"
  by (cases x) auto

text \<open>What a transaction may see: the first of the entries with an internal key counts.\<close>

definition readable :: "txn_opts \<Rightarrow> iter_opts \<Rightarrow> u64 \<Rightarrow> entry list \<Rightarrow> entry list" where
  "readable topt opt rts E = filter (\<lambda>f. may_show topt opt rts (parse_key (fst f)) (ParseTs (fst f))) E"

lemma scan_reads:
  fixes opt :: iter_opts
  assumes ok: "sources_ok topt txn mems lc"
  defines "E \<equiv> db_entries txn (io_Reverse opt) mems lc" and "rts \<equiv> word_of_nat (tx_readTs txn)"
  assumes cl: "clear_keys topt rts E" and key: "seek_allowed opt key" and n: "length E \<le> n"
  shows "\<exists>s it js. txn_NewIterator False txn mems lc opt = Some (s, it) \<and> scan topt now n (di_Seek topt now key it) = Some js \<and>
    sorted_wrt (in_turn opt) (map shown_item js) \<and>
    set (map shown_item js) = {entry_out (KeyWithTs k w, v) | k w v. asked opt key k \<and>
      (if io_AllVersions opt then map_of (readable topt opt rts E) (KeyWithTs k w) = Some v
       else newest (readable topt opt rts E) k rts = Some (w, v) \<and> alive now v)}"
proof -
  obtain s it where it: "txn_NewIterator False txn mems lc opt = Some (s, it)" "di_opt it = opt" "di_readTs it = rts"
      "di_item it = None" "in_dir (io_Reverse opt) (di_all it)" "\<forall>e \<in> set (di_all it). e \<in> set E"
      "\<forall>k. wanted opt k \<longrightarrow> map_of (di_all it) k = map_of E k" "\<forall>e \<in> set E. stored_key (fst e)" "di_nil it \<longrightarrow> di_all it = []"
    using NewIterator_gives [OF ok, of opt] unfolding E_def [symmetric] rts_def [symmetric] by (elim exE conjE) (rule that, assumption+)
  have st: "\<forall>e \<in> set (di_all it). stored_key (fst e)" using it(6,8) by blast
  have len: "length (di_all it) \<le> n" using distinct_length [OF in_dir_distinct [OF it(5)], of E] it(6) n by (meson le_trans subsetI)
  have "map_option (map shown_item) (scan topt now n (di_Seek topt now key it)) = Some (map entry_out (scanned topt now key it))"
  proof (cases "di_nil it")
    case True
    have "scanned topt now key it = []" using True it(9) by (simp add: scanned_def spanned_def Let_def)
    moreover have "\<not> di_Valid (di_Seek topt now key it)" using True it(4) by (simp add: di_Seek_def di_Valid_def)
    ultimately show ?thesis by (cases n) simp_all
  next
    case False
    have "clear_keys topt rts (di_all it)" using cl it(6) by (auto simp: clear_keys_def)
    then have "uniform topt rts (di_all it)" using st by (rule uniform_clear)
    then show ?thesis using it(2,3,5) st False key len by (intro scan_scanned) auto
  qed
  then obtain js where js: "scan topt now n (di_Seek topt now key it) = Some js" "map shown_item js = map entry_out (scanned topt now key it)"
    using map_option_Some by blast
  have "sorted_wrt (in_turn opt) (map shown_item js)"
    unfolding js(2) using scanned_sorted [of it topt now key] it(2,5) st by simp
  moreover have R: "filter (\<lambda>f. eligible topt opt rts (fst f)) E = readable topt opt rts E"
    unfolding readable_def using eligible_may_show cl it(8) by (intro filter_cong refl) (simp add: clear_keys_def)
  have vis: "visible now a = Some (w, v) \<longleftrightarrow> a = Some (w, v) \<and> alive now v" for a w v
    by (auto simp: visible_def dead_alive split: option.split)
  note scanned_set [OF it(2,3,5,6,8,7), of topt now key, folded js(2), unfolded R vis]
  ultimately show ?thesis using it(1) js(1) by (intro exI conjI)
qed

text \<open>
  C3: a scan of a new iterator ends and shows, in order, what the options and the seek key ask for of
  everything the transaction can read: its pending writes, the memtables, the hot tiers and all
  levels. Without \<open>AllVersions\<close> these are the newest versions at or below the read timestamp and above
  \<open>SinceTs\<close> that are alive, each key once; with it (so for \<open>NewKeyIterator\<close> too, whose filters rule
  out whole tables) these are all versions. Internal keys appear on request only, and banned ones
  never. In particular the tables that are not picked hold nothing of it. The seek key is empty or
  has the prefix (a reversed scan with an empty key starts at the prefix itself), read timestamps
  are below \<open>2 ^ 63\<close>, and no key ends in the bytes of its namespace or right behind them, where the
  iterator bans by the bytes of the timestamp.
\<close>

theorem iterator_reads:
  fixes opt :: iter_opts
  assumes "sources_ok topt txn mems lc" and "clear_keys topt (word_of_nat (tx_readTs txn)) (db_entries txn (io_Reverse opt) mems lc)"
    and "seek_allowed opt key" and "length (db_entries txn (io_Reverse opt) mems lc) \<le> n"
  shows "\<exists>s it js. txn_NewIterator False txn mems lc opt = Some (s, it) \<and> scan topt now n (di_Seek topt now key it) = Some js \<and>
    sorted_wrt (in_turn opt) (map shown_item js) \<and>
    set (map shown_item js) = {entry_out (KeyWithTs k w, v) | k w v. asked opt key k \<and>
      (let R = readable topt opt (word_of_nat (tx_readTs txn)) (db_entries txn (io_Reverse opt) mems lc)
       in if io_AllVersions opt then map_of R (KeyWithTs k w) = Some v
          else newest R k (word_of_nat (tx_readTs txn)) = Some (w, v) \<and> alive now v)}"
  unfolding Let_def by (rule scan_reads [OF assms])

definition scan_table :: table where
  "scan_table = (small_table 3 [(KeyWithTs [2] 9, small_vs 5)])\<lparr>t_MaxVersion := 9\<rparr>"

definition scan_level :: levelHandler where
  "scan_level = \<lparr>lh_tables = [scan_table], lh_totalSize = t_Size scan_table, lh_totalStaleSize = int (t_StaleDataSize scan_table), lh_level = 0\<rparr>"

definition scan_tree :: levelsController where
  "scan_tree = \<lparr>lc_levels = [scan_level], lc_hotTier = None, lc_hotTierOrd = None, lc_nextFileID = 5,
     lc_cstatus = ex_status 1, lc_refs = two_refs\<rparr>"

definition scan_mems :: "entry list list" where
  "scan_mems = [[(KeyWithTs [2] 11, small_vs 7)]]"

lemma scan_tree_ok: "sources_ok small_opts (newTransaction small_opts False 10) scan_mems scan_tree"
proof -
  have "built_table (small_table 3 [(KeyWithTs [2] 9, small_vs 5)])" by simp
  then have b: "built_table scan_table" by (simp add: scan_table_def built_table_def table_ok_def)
  then have "level_wf scan_level" by (simp add: level_wf_def scan_level_def sizes_ok_def unsorted_def)
  moreover have "lh_tables scan_level = [scan_table]" by (simp add: scan_level_def)
  moreover have "version_bound scan_table" by (simp add: version_bound_def scan_table_def)
  ultimately show ?thesis
    by (simp add: sources_ok_def newTransaction_def lc_wf_def handlers_def scan_tree_def scan_mems_def mem_ok_def two_refs_def hot_newer_def
        hot_entries_def txn_wf_def)
qed

theorem iterator_reads_witness:
  "\<exists>s it js. txn_NewIterator False (newTransaction small_opts False 10) scan_mems scan_tree DefaultIteratorOptions = Some (s, it) \<and>
    scan small_opts 0 2 (di_Seek small_opts 0 [] it) = Some js \<and> map shown_item js = [([2], 9, small_vs 5)]"
proof -
  let ?txn = "newTransaction small_opts False 10" and ?opt = DefaultIteratorOptions
  let ?E = "[(KeyWithTs [2] 11, small_vs 7), (KeyWithTs [2] 9, small_vs 5)]"
  have opt: "\<not> io_Reverse ?opt" "\<not> io_AllVersions ?opt" "\<not> io_prefixIsKey ?opt" "io_Prefix ?opt = []" "io_SinceTs ?opt = 0"
    by (simp_all add: DefaultIteratorOptions_def)
  have E: "db_entries ?txn False scan_mems scan_tree = ?E"
    by (simp add: db_entries_def own_entries_def newPendingWritesIterator_def newTransaction_def scan_mems_def scan_tree_def all_entries_def
        hot_entries_def level_entries_def scan_level_def scan_table_def)
  have ts: "(word_of_nat (tx_readTs ?txn) :: u64) = 10" by (simp add: newTransaction_def)
  have d: "io_Reverse ?opt = False" using opt by simp
  have R: "readable small_opts ?opt 10 ?E = [(KeyWithTs [2] 9, small_vs 5)]"
    by (simp add: readable_def may_show_def opt banned_key_def small_opts_def badgerPrefix_def)
  have vis: "newest (readable small_opts ?opt 10 ?E) k 10 = Some (w, v) \<and> alive 0 v \<longleftrightarrow> k = [2] \<and> w = 9 \<and> v = small_vs 5" for k w v
    unfolding R by (auto simp: matches_def small_vs_def alive_def split: if_splits)
  have cl: "clear_keys small_opts 10 ?E" by (simp add: clear_keys_def clear_namespace_def small_opts_def)
  note I = iterator_reads [OF scan_tree_ok, of ?opt "[]" 2 0, unfolded d E ts Let_def if_not_P [OF opt(2)] vis, OF cl]
  obtain s it js where r: "txn_NewIterator False ?txn scan_mems scan_tree ?opt = Some (s, it)" "scan small_opts 0 2 (di_Seek small_opts 0 [] it) = Some js"
      "sorted_wrt (in_turn ?opt) (map shown_item js)"
      "set (map shown_item js) = {entry_out (KeyWithTs k w, v) | k w v. k = [2] \<and> w = 9 \<and> v = small_vs 5}"
    using I by (simp add: asked_def opt d seek_allowed_def) blast
  have one: "{entry_out (KeyWithTs k w, v) | k w v. k = [2] \<and> w = 9 \<and> v = small_vs 5} = {([2], 9, small_vs 5)}"
    by (simp add: entry_out_def small_vs_def slice_bytes_def)
  have "distinct (map shown_item js)" using r(3) by (induction js) (auto simp: in_turn_def opt)
  then have "map shown_item js = [([2], 9, small_vs 5)]" using r(4) one distinct_card [of "map shown_item js"]
    by (cases js; cases "tl js") auto
  with r(1,2) show ?thesis by (intro exI conjI)
qed

end
