(* ===== verification/HeatTree.thy ===== *)
theory HeatTree
  imports GoFloat "HOL-Library.Monad_Syntax"
begin

text \<open>
  The heat tree of \<open>heatLSM\<close>: leaves cover key ranges and sample the keys written to them
  (\<open>AddSample\<close>); a full leaf splits by the prefixes of its samples (\<open>Evolve\<close>); each epoch
  the rates of overwrites decay, cold nodes collapse and the hottest ranges become the
  snapshot that \<open>IsHotKey\<close> searches. A node is a value with its children, the statistics
  live in the pool of chunks as in the code. The HyperLogLog sketch and the random numbers
  are parameters; one goroutine works at a time; \<open>None\<close> is a panic.
\<close>

section \<open>Keys\<close>

fun commonPrefixLen :: "bytes \<Rightarrow> bytes \<Rightarrow> nat" where
  "commonPrefixLen (a # as) (b # bs) = (if a \<noteq> b then 0 else Suc (commonPrefixLen as bs))"
| "commonPrefixLen as bs = 0"

definition calcCommonPrefix :: "bytes list \<Rightarrow> bytes" where
  "calcCommonPrefix keys = (case keys of [] \<Rightarrow> []
     | k # ks \<Rightarrow> foldl (\<lambda>prefix key. take (commonPrefixLen prefix key) prefix) k ks)"

definition getByteAt :: "bytes \<Rightarrow> nat \<Rightarrow> int" where
  "getByteAt k index = (if length k \<le> index then -1 else uint (k ! index))"

fun next_rev :: "bytes \<Rightarrow> bytes" where
  "next_rev [] = []"
| "next_rev (b # bs) = (if b + 1 \<noteq> 0 then (b + 1) # bs else 0 # next_rev bs)"

definition NextKeySameLength :: "bytes \<Rightarrow> bytes" where
  "NextKeySameLength key = rev (next_rev (rev key))"

definition CompareKey :: "bytes \<Rightarrow> bytes \<Rightarrow> int" where
  "CompareKey a b = bytes_compare a b"

definition MergeKey :: "bytes \<Rightarrow> bytes \<Rightarrow> bytes" where
  "MergeKey k1 k2 = k1 @ k2"

section \<open>Groups of samples\<close>

record ResIndexRange =
  rg_Start :: nat
  rg_End :: nat
  rg_Count :: nat
  rg_CommonPrefix :: bytes

definition MinPrefixRatio :: f64 where "MinPrefixRatio = rnd (5 / 100)"
definition GuaranteedFanOut :: nat where "GuaranteedFanOut = 4"

definition res_range :: "bytes list \<Rightarrow> nat \<Rightarrow> nat \<Rightarrow> ResIndexRange" where
  "res_range keys s e = \<lparr>rg_Start = s, rg_End = e, rg_Count = e - s, rg_CommonPrefix = calcCommonPrefix (take (e - s) (drop s keys))\<rparr>"

definition cut_groups :: "bytes list \<Rightarrow> ResIndexRange list" where
  "cut_groups keys =
     (let baseDepth = commonPrefixLen (hd keys) (last keys);
          (groups, startIndex) = foldl (\<lambda>(gs, s) i.
            if getByteAt (keys ! (i - 1)) baseDepth \<noteq> getByteAt (keys ! i) baseDepth then (gs @ [res_range keys s i], i) else (gs, s))
            ([], 0) [1..<length keys]
      in groups @ [res_range keys startIndex (length keys)])"

fun valid_groups :: "int \<Rightarrow> nat \<Rightarrow> ResIndexRange list \<Rightarrow> ResIndexRange list" where
  "valid_groups densityThreshold i [] = []"
| "valid_groups densityThreshold i (g # gs) =
     (if i < GuaranteedFanOut \<or> densityThreshold \<le> int (rg_Count g) then g # valid_groups densityThreshold (Suc i) gs else [])"

definition FindTopNPrefixGroups :: "bytes list \<Rightarrow> ResIndexRange list" where
  "FindTopNPrefixGroups keys =
     (if length keys = 0 then []
      else let groups = go_sort (\<lambda>a b. rg_Count b < rg_Count a) (cut_groups keys);
               densityThreshold = f_to_int (f_mul (f_of_int (int (length keys))) MinPrefixRatio)
           in valid_groups densityThreshold 0 groups)"

definition CalculateRangeRatio :: "nat \<Rightarrow> bytes \<Rightarrow> bytes list \<Rightarrow> f64 \<times> nat" where
  "CalculateRangeRatio lastSplitIndex currentSplitKey reservoir =
     (let totalLen = length reservoir
      in if totalLen = 0 then (0, 0)
         else
           let endIndex = (if 0 < length currentSplitKey
                 then sort_search totalLen (\<lambda>i. 0 \<le> bytes_compare (reservoir ! i) currentSplitKey) else totalLen)
           in if endIndex < lastSplitIndex then (0, endIndex)
              else (f_div (f_of_int (int (endIndex - lastSplitIndex))) (f_of_int (int totalLen)), endIndex))"

section \<open>The pool of statistics\<close>

record 'h hll_ops =
  hll_New14 :: 'h
  hll_Insert :: "bytes \<Rightarrow> 'h \<Rightarrow> 'h"
  hll_Estimate :: "'h \<Rightarrow> u64"

record 'h RegionStats =
  rs_IsActive :: bool
  rs_WriteCount :: u32
  rs_WindowStartWrite :: u32
  rs_EpochStartWrite :: u32
  rs_OverwriteRation :: f64
  rs_CurrentHLL :: 'h
  rs_WSuffixReservoir :: "bytes list"

definition StatsChunkSize :: nat where "StatsChunkSize = 1024"
definition MinReservoirCap :: nat where "MinReservoirCap = 256"
definition MaxReservoirCap :: nat where "MaxReservoirCap = 1024"

record 'h heat_pool =
  hp_StatsChunks :: "'h RegionStats list list"
  hp_FreeList :: "int list"

definition getStats :: "'h heat_pool \<Rightarrow> int \<Rightarrow> 'h RegionStats option" where
  "getStats p sid =
     (let c = nat sid div StatsChunkSize; i = nat sid mod StatsChunkSize
      in if 0 \<le> sid \<and> c < length (hp_StatsChunks p) \<and> i < length (hp_StatsChunks p ! c) then Some (hp_StatsChunks p ! c ! i) else None)"

text \<open>Writing through the pointer that \<open>getStats\<close> gives.\<close>

definition setStats :: "'h heat_pool \<Rightarrow> int \<Rightarrow> 'h RegionStats \<Rightarrow> 'h heat_pool" where
  "setStats p sid s =
     (let c = nat sid div StatsChunkSize; i = nat sid mod StatsChunkSize
      in p\<lparr>hp_StatsChunks := (hp_StatsChunks p)[c := (hp_StatsChunks p ! c)[i := s]]\<rparr>)"

definition newStats :: "'h hll_ops \<Rightarrow> 'h RegionStats" where
  "newStats ops = \<lparr>rs_IsActive = True, rs_WriteCount = 0, rs_WindowStartWrite = 0, rs_EpochStartWrite = 0, rs_OverwriteRation = 0,
     rs_CurrentHLL = hll_New14 ops, rs_WSuffixReservoir = []\<rparr>"

definition AllocateStats :: "'h hll_ops \<Rightarrow> 'h heat_pool \<Rightarrow> ('h heat_pool \<times> int) option" where
  "AllocateStats ops p =
     (if 0 < length (hp_FreeList p) then
        (let sid = last (hp_FreeList p); p1 = p\<lparr>hp_FreeList := butlast (hp_FreeList p)\<rparr>
         in map_option (\<lambda>stats. (setStats p1 sid (stats\<lparr>rs_IsActive := True, rs_WriteCount := 0, rs_EpochStartWrite := 0,
              rs_WindowStartWrite := 0, rs_CurrentHLL := hll_New14 ops, rs_OverwriteRation := 0, rs_WSuffixReservoir := []\<rparr>), sid)) (getStats p1 sid))
      else
        let chunks = hp_StatsChunks p;
            chunks1 = (if length chunks = 0 \<or> length (last chunks) = StatsChunkSize then chunks @ [[]] else chunks);
            chunkIdx = length chunks1 - 1;
            offset = length (chunks1 ! chunkIdx)
        in Some (p\<lparr>hp_StatsChunks := chunks1[chunkIdx := chunks1 ! chunkIdx @ [newStats ops]]\<rparr>, int (chunkIdx * StatsChunkSize + offset)))"

definition FreeStats :: "'h heat_pool \<Rightarrow> int \<Rightarrow> 'h heat_pool option" where
  "FreeStats p sid = map_option (\<lambda>stats.
     (setStats p sid (stats\<lparr>rs_IsActive := False, rs_WSuffixReservoir := []\<rparr>))\<lparr>hp_FreeList := hp_FreeList p @ [sid]\<rparr>) (getStats p sid)"

section \<open>Nodes\<close>

record heat_node =
  hn_Level :: int
  hn_SplitThreshold :: int
  hn_RangeStart :: bytes
  hn_RangeEnd :: bytes
  hn_PathSegment :: bytes
  hn_IsLeaf :: bool
  hn_SplitRangeKey :: "bytes list"
  hn_StatsID :: int
  hn_ReservoirCap :: nat

datatype heat_tree = HeatNode heat_node "heat_tree list"

fun root_of :: "heat_tree \<Rightarrow> heat_node" where "root_of (HeatNode n cs) = n"
fun children_of :: "heat_tree \<Rightarrow> heat_tree list" where "children_of (HeatNode n cs) = cs"

text \<open>\<open>math.Pow(1.5, level)\<close>, which is exact up to level 33.\<close>

definition f_pow :: "f64 \<Rightarrow> nat \<Rightarrow> f64" where
  "f_pow x n = rnd (x ^ n)"

definition reservoir_cap :: "int \<Rightarrow> nat" where
  "reservoir_cap level = (let c = MaxReservoirCap div 2 ^ nat level in if c < MinReservoirCap then MinReservoirCap else c)"

definition newHeatNode :: "int \<Rightarrow> bytes \<Rightarrow> bytes \<Rightarrow> bytes \<Rightarrow> int \<Rightarrow> heat_tree" where
  "newHeatNode level start fin pathSeg statsID =
     HeatNode \<lparr>hn_Level = level, hn_SplitThreshold = f_to_int (f_mul 2048 (f_pow (3 / 2) (nat level))), hn_RangeStart = start, hn_RangeEnd = fin,
       hn_PathSegment = pathSeg, hn_IsLeaf = True, hn_SplitRangeKey = [], hn_StatsID = statsID, hn_ReservoirCap = reservoir_cap level\<rparr> []"

section \<open>Splitting a leaf\<close>

text \<open>The ratio of overwrites a split passes on to the children.\<close>

definition father_ration :: "'h hll_ops \<Rightarrow> 'h RegionStats \<Rightarrow> f64" where
  "father_ration ops stats =
     (let windowWrites = rs_WriteCount stats - rs_WindowStartWrite stats;
          r = (if of_nat MinReservoirCap \<le> windowWrites then
                 (let uniqueKeys = f_of_int (uint (hll_Estimate ops (rs_CurrentHLL stats)));
                      cur = f_sub 1 (f_div uniqueKeys (f_of_int (uint windowWrites)))
                  in f_add (f_mul cur (1 / 2)) (f_mul (rs_OverwriteRation stats) (f_sub 1 (1 / 2))))
               else rs_OverwriteRation stats)
      in if r < 0 then 0 else r)"

text \<open>The samples a child takes over, without its prefix, up to its capacity.\<close>

fun take_samples :: "nat \<Rightarrow> nat \<Rightarrow> bytes list \<Rightarrow> bytes list \<Rightarrow> bytes list" where
  "take_samples cap pathSegLen [] res = res"
| "take_samples cap pathSegLen (key # keys) res =
     (if cap \<le> length res then res
      else if pathSegLen \<le> length key then take_samples cap pathSegLen keys (res @ [drop pathSegLen key])
      else take_samples cap pathSegLen keys res)"

text \<open>
  One child of a split, for the samples \<open>[lo, hi)\<close>: its share of the writes is cut to half of the
  base threshold of its level. The code has this block three times.
\<close>

definition make_child :: "'h hll_ops \<Rightarrow> int \<Rightarrow> 'h RegionStats \<Rightarrow> f64 \<Rightarrow> 'h heat_pool \<Rightarrow> f64 \<Rightarrow> nat \<Rightarrow> nat \<Rightarrow> bytes \<Rightarrow> bytes \<Rightarrow> bytes \<Rightarrow>
    ('h heat_pool \<times> heat_tree) option" where
  "make_child ops nextLevel stats father p ratio lo hi start fin pathSeg = do {
     (p1, sid) \<leftarrow> AllocateStats ops p;
     child \<leftarrow> getStats p1 sid;
     let inherited = (word_of_int (f_to_int (f_mul (f_of_int (uint (rs_WriteCount stats))) ratio)) :: u32);
     let safeMaxWrites = (push_bit (nat (nextLevel + 10)) 1 :: u32) div 2;
     let writes = (if safeMaxWrites < inherited then safeMaxWrites else inherited);
     if hi < lo then None
     else Some (setStats p1 sid (child\<lparr>rs_WriteCount := writes, rs_EpochStartWrite := writes, rs_WindowStartWrite := writes,
             rs_OverwriteRation := (if 0 < writes then father else rs_OverwriteRation child),
             rs_WSuffixReservoir := take_samples (reservoir_cap nextLevel) (length pathSeg)
               (take (hi - lo) (drop lo (rs_WSuffixReservoir stats))) (rs_WSuffixReservoir child)\<rparr>),
           newHeatNode nextLevel start fin pathSeg sid)
   }"

text \<open>
  The loop of \<open>splitReservoir\<close>: before the first group the gap in front of it, then each group, and
  behind it the gap up to the next group or the end, unless it is empty.
\<close>

fun split_groups :: "'h hll_ops \<Rightarrow> heat_node \<Rightarrow> 'h RegionStats \<Rightarrow> f64 \<Rightarrow> bool \<Rightarrow> ResIndexRange list \<Rightarrow> nat \<Rightarrow> 'h heat_pool \<Rightarrow>
    heat_tree list \<Rightarrow> bytes list \<Rightarrow> ('h heat_pool \<times> heat_tree list \<times> bytes list) option" where
  "split_groups ops node stats father front [] lastW p children splitKeys = Some (p, children, splitKeys)"
| "split_groups ops node stats father front (g # gs) lastW p children splitKeys = do {
     let res = rs_WSuffixReservoir stats;
     let level = hn_Level node + 1;
     let pre = rg_CommonPrefix g;
     (p1, children1, splitKeys1, last1) \<leftarrow>
       (if front then do {
          let (ratio, cur) = CalculateRangeRatio lastW pre res;
          (p1, child) \<leftarrow> make_child ops level stats father p ratio lastW cur
            (if length (hn_PathSegment node) = 0 then hn_RangeStart node else []) pre [];
          Some (p1, children @ [child], splitKeys @ [pre], cur)
        } else Some (p, children, splitKeys, lastW));
     let fin = NextKeySameLength pre;
     let (ratio2, cur2) = CalculateRangeRatio last1 fin res;
     (p2, child2) \<leftarrow> make_child ops level stats father p1 ratio2 last1 cur2 pre fin pre;
     let children2 = children1 @ [child2];
     let splitKeys2 = splitKeys1 @ [fin];
     let after = (case gs of [] \<Rightarrow> (if length (hn_PathSegment node) = 0 then hn_RangeEnd node else [])
        | h # _ \<Rightarrow> rg_CommonPrefix h);
     if CompareKey after fin \<noteq> 0 then do {
       let (ratio3, cur3) = CalculateRangeRatio cur2 after res;
       (p3, child3) \<leftarrow> make_child ops level stats father p2 ratio3 cur2 cur3 fin after [];
       split_groups ops node stats father False gs cur3 p3 (children2 @ [child3]) (if gs = [] then splitKeys2 else splitKeys2 @ [after])
     } else split_groups ops node stats father False gs cur2 p2 children2 splitKeys2
   }"

definition splitReservoir :: "'h hll_ops \<Rightarrow> heat_node \<Rightarrow> 'h RegionStats \<Rightarrow> ResIndexRange list \<Rightarrow> 'h heat_pool \<Rightarrow>
    ('h heat_pool \<times> heat_tree list \<times> bytes list) option" where
  "splitReservoir ops node stats groups p = split_groups ops node stats (father_ration ops stats) True groups 0 p [] []"

definition Evolve :: "'h hll_ops \<Rightarrow> 'h heat_pool \<Rightarrow> heat_node \<Rightarrow> ('h heat_pool \<times> heat_tree) option" where
  "Evolve ops p node = do {
     stats0 \<leftarrow> getStats p (hn_StatsID node);
     let stats = stats0\<lparr>rs_WSuffixReservoir := go_sort (\<lambda>a b. bytes_compare a b < 0) (rs_WSuffixReservoir stats0)\<rparr>;
     let p1 = setStats p (hn_StatsID node) stats;
     let groups = go_sort (\<lambda>a b. rg_Start a < rg_Start b) (FindTopNPrefixGroups (rs_WSuffixReservoir stats));
     (p2, children, splitKeys) \<leftarrow> splitReservoir ops node stats groups p1;
     if 0 < length children then do {
       p3 \<leftarrow> FreeStats p2 (hn_StatsID node);
       Some (p3, HeatNode (node\<lparr>hn_IsLeaf := False, hn_SplitRangeKey := splitKeys, hn_StatsID := -1\<rparr>) children)
     } else Some (p2, HeatNode (node\<lparr>hn_SplitThreshold := hn_SplitThreshold node * 2\<rparr>) [])
   }"

section \<open>Sampling\<close>

definition AddSample :: "'h hll_ops \<Rightarrow> (u32 \<Rightarrow> u32) \<Rightarrow> bytes \<Rightarrow> bool \<Rightarrow> 'h heat_pool \<Rightarrow> heat_node \<Rightarrow> heat_tree list \<Rightarrow> ('h heat_pool \<times> heat_tree) option" where
  "AddSample ops rand keySuffix isRead p n cs =
     (if isRead then Some (p, HeatNode n cs)
      else if \<not> hn_IsLeaf n \<or> hn_StatsID n = -1 then Some (p, HeatNode n cs)
      else do {
        stats0 \<leftarrow> getStats p (hn_StatsID n);
        let stats1 = stats0\<lparr>rs_WriteCount := rs_WriteCount stats0 + 1, rs_CurrentHLL := hll_Insert ops keySuffix (rs_CurrentHLL stats0)\<rparr>;
        if length (rs_WSuffixReservoir stats1) < hn_ReservoirCap n then
          Some (setStats p (hn_StatsID n) (stats1\<lparr>rs_WSuffixReservoir := rs_WSuffixReservoir stats1 @ [keySuffix]\<rparr>), HeatNode n cs)
        else do {
          let r = rand (rs_WriteCount stats1);
          let stats2 = (if r < of_nat (hn_ReservoirCap n) then stats1\<lparr>rs_WSuffixReservoir := (rs_WSuffixReservoir stats1)[unat r := keySuffix]\<rparr> else stats1);
          let p1 = setStats p (hn_StatsID n) stats2;
          if (word_of_int (hn_SplitThreshold n) :: u32) < rs_WriteCount stats2 \<and> hn_ReservoirCap n \<le> length (rs_WSuffixReservoir stats2) then
            (if rnd (85 / 100) \<le> rs_OverwriteRation stats2 then Some (p1, HeatNode (n\<lparr>hn_SplitThreshold := hn_SplitThreshold n * 2\<rparr>) cs)
             else Evolve ops p1 n)
          else Some (p1, HeatNode n cs)
        }
      })"

text \<open>The child that covers the rest of a key.\<close>

definition route :: "bytes list \<Rightarrow> nat \<Rightarrow> bytes \<Rightarrow> int" where
  "route splitKeys children remainingKey =
     (let idx = sort_search (length splitKeys) (\<lambda>i. 0 < bytes_compare (splitKeys ! i) remainingKey)
      in if children \<le> idx then int children - 1 else int idx)"

text \<open>The result says whether a leaf was found; an inner node without children panics.\<close>

function SearchLeaf :: "'h hll_ops \<Rightarrow> (u32 \<Rightarrow> u32) \<Rightarrow> bytes \<Rightarrow> bool \<Rightarrow> 'h heat_pool \<Rightarrow> heat_tree \<Rightarrow> ('h heat_pool \<times> heat_tree \<times> bool) option" where
  "SearchLeaf ops rand searchSuffix isRead p (HeatNode n cs) =
     (if \<not> has_prefix searchSuffix (hn_PathSegment n) then Some (p, HeatNode n cs, False)
      else
        let remainingKey = drop (length (hn_PathSegment n)) searchSuffix
        in if hn_IsLeaf n then map_option (\<lambda>(p1, t). (p1, t, True)) (AddSample ops rand remainingKey isRead p n cs)
           else
             let idx = route (hn_SplitRangeKey n) (length cs) remainingKey
             in if 0 \<le> idx \<and> nat idx < length cs
                then map_option (\<lambda>(p1, c, b). (p1, HeatNode n (cs[nat idx := c]), b)) (SearchLeaf ops rand remainingKey isRead p (cs ! nat idx))
                else None)"
  by pat_completeness auto
termination
proof (relation "measure (\<lambda>(_, _, _, _, _, t). size t)", simp)
  fix ops :: "'h hll_ops" and rand :: "u32 \<Rightarrow> u32" and searchSuffix isRead and p :: "'h heat_pool" and n and cs :: "heat_tree list" and x xa
  assume "0 \<le> xa \<and> nat xa < length cs"
  then have "cs ! nat xa \<in> set cs" by simp
  then have "size (cs ! nat xa) < size (HeatNode n cs)" by (simp add: size_list_estimation' less_Suc_eq_le)
  then show "((ops, rand, x, isRead, p, cs ! nat xa), ops, rand, searchSuffix, isRead, p, HeatNode n cs) \<in> measure (\<lambda>(_, _, _, _, _, t). size t)"
    by simp
qed

declare SearchLeaf.simps [simp del]

section \<open>Epochs\<close>

record zoneCandidate =
  zc_Start :: bytes
  zc_End :: bytes
  zc_Ratio :: f64
  zc_Volume :: u64

record HotZone =
  hz_Start :: bytes
  hz_End :: bytes

text \<open>The settlement of a leaf: its volume, and its new ratio of overwrites.\<close>

definition settle_leaf :: "'h hll_ops \<Rightarrow> heat_node \<Rightarrow> 'h RegionStats \<Rightarrow> 'h RegionStats \<times> u64" where
  "settle_leaf ops n stats =
     (let windowWrites = rs_WriteCount stats - rs_WindowStartWrite stats;
          epochWrites = rs_WriteCount stats - rs_EpochStartWrite stats;
          s1 = stats\<lparr>rs_EpochStartWrite := rs_WriteCount stats\<rparr>;
          m = (word_of_int (hn_SplitThreshold n div 4) :: u32);
          minEpochWrites = (if m < of_nat MinReservoirCap then of_nat MinReservoirCap else m);
          currentUniqueKeys = f_of_int (uint (hll_Estimate ops (rs_CurrentHLL stats)));
          volume = word_of_int (f_to_int currentUniqueKeys)
      in if 0 < epochWrites then
           (let minConfidence = (word_of_int (f_to_int (f_mul (f_of_int (hn_SplitThreshold n)) (rnd (1 / 10)))) :: u32);
                s2 = (if minConfidence \<le> windowWrites then
                   (let currentRatio = f_sub 1 (f_div currentUniqueKeys (f_of_int (uint windowWrites)));
                        r = f_add (f_mul currentRatio (1 / 2)) (f_mul (rs_OverwriteRation s1) (f_sub 1 (1 / 2)))
                    in s1\<lparr>rs_OverwriteRation := (if r < 0 then 0 else r)\<rparr>)
                   else s1);
                s3 = (if minEpochWrites \<le> windowWrites then s2\<lparr>rs_WindowStartWrite := rs_WriteCount s2, rs_CurrentHLL := hll_New14 ops\<rparr> else s2)
            in (s3, volume))
         else
           (let s2 = s1\<lparr>rs_OverwriteRation := f_add (f_mul 0 (1 / 2)) (f_mul (rs_OverwriteRation s1) (f_sub 1 (1 / 2)))\<rparr>;
                s3 = (if rs_OverwriteRation s2 < rnd (5 / 100)
                   then s2\<lparr>rs_OverwriteRation := 0, rs_WindowStartWrite := rs_WriteCount s2, rs_CurrentHLL := hll_New14 ops\<rparr> else s2)
            in (s3, volume)))"

definition MinHotRatioFloor :: f64 where "MinHotRatioFloor = rnd (30 / 100)"
definition HotVolumePercentage :: f64 where "HotVolumePercentage = rnd (20 / 100)"
definition HighHeatBypassRatio :: f64 where "HighHeatBypassRatio = 1 / 2"

text \<open>The checks before a node collapses: stops at a child that is not a leaf.\<close>

fun prune_sums :: "'h heat_pool \<Rightarrow> heat_tree list \<Rightarrow> bool \<Rightarrow> f64 \<Rightarrow> u32 \<Rightarrow> (bool \<times> f64 \<times> u32) option" where
  "prune_sums p [] allLeaves totalRatio totalEpochWrites = Some (allLeaves, totalRatio, totalEpochWrites)"
| "prune_sums p (c # cs) allLeaves totalRatio totalEpochWrites =
     (if \<not> hn_IsLeaf (root_of c) then Some (False, totalRatio, totalEpochWrites)
      else if hn_StatsID (root_of c) = -1 then prune_sums p cs allLeaves totalRatio totalEpochWrites
      else Option.bind (getStats p (hn_StatsID (root_of c))) (\<lambda>s.
        prune_sums p cs allLeaves (f_add totalRatio (rs_OverwriteRation s)) (totalEpochWrites + (rs_WriteCount s - rs_EpochStartWrite s))))"

fun free_children :: "'h heat_pool \<Rightarrow> heat_tree list \<Rightarrow> 'h heat_pool option" where
  "free_children p [] = Some p"
| "free_children p (c # cs) =
     (if hn_StatsID (root_of c) = -1 then free_children p cs
      else Option.bind (FreeStats p (hn_StatsID (root_of c))) (\<lambda>p1. free_children p1 cs))"

definition prune_node :: "'h hll_ops \<Rightarrow> 'h heat_pool \<Rightarrow> heat_node \<Rightarrow> heat_tree list \<Rightarrow> ('h heat_pool \<times> heat_tree) option" where
  "prune_node ops p n cs = do {
     (allLeaves, totalRatio, totalEpochWrites) \<leftarrow> prune_sums p cs True 0 0;
     if allLeaves \<and> totalRatio < rnd (1 / 10) \<and> totalEpochWrites < 100 then do {
       p1 \<leftarrow> free_children p cs;
       (p2, sid) \<leftarrow> AllocateStats ops p1;
       stats \<leftarrow> getStats p2 sid;
       Some (setStats p2 sid (stats\<lparr>rs_OverwriteRation := 0\<rparr>), HeatNode (n\<lparr>hn_IsLeaf := True, hn_SplitRangeKey := [], hn_StatsID := sid\<rparr>) [])
     } else Some (p, HeatNode n cs)
   }"

text \<open>The walk over the tree, with the candidates and the volume found so far.\<close>

fun traverse :: "'h hll_ops \<Rightarrow> bytes \<Rightarrow> bytes \<Rightarrow> bytes \<Rightarrow> 'h heat_pool \<Rightarrow> zoneCandidate list \<Rightarrow> u64 \<Rightarrow> heat_tree \<Rightarrow>
      ('h heat_pool \<times> zoneCandidate list \<times> u64 \<times> heat_tree) option"
  and traverse_all :: "'h hll_ops \<Rightarrow> bytes \<Rightarrow> bytes \<Rightarrow> bytes \<Rightarrow> 'h heat_pool \<Rightarrow> zoneCandidate list \<Rightarrow> u64 \<Rightarrow> heat_tree list \<Rightarrow>
      ('h heat_pool \<times> zoneCandidate list \<times> u64 \<times> heat_tree list) option" where
  "traverse ops currentPrefix parentStart parentEnd p cands vol (HeatNode n cs) =
     (let absStart = (if 0 < length (hn_RangeStart n) then currentPrefix @ hn_RangeStart n else parentStart);
          absEnd = (if 0 < length (hn_RangeEnd n) then currentPrefix @ hn_RangeEnd n else parentEnd);
          nextPrefix = currentPrefix @ hn_PathSegment n
      in if hn_IsLeaf n then
           (if hn_StatsID n = -1 then Some (p, cands, vol, HeatNode n cs)
            else Option.bind (getStats p (hn_StatsID n)) (\<lambda>stats.
              let (s, volume) = settle_leaf ops n stats
              in Some (setStats p (hn_StatsID n) s,
                   (if MinHotRatioFloor \<le> rs_OverwriteRation s
                    then cands @ [\<lparr>zc_Start = absStart, zc_End = absEnd, zc_Ratio = rs_OverwriteRation s, zc_Volume = volume\<rparr>] else cands),
                   vol + volume, HeatNode n cs)))
         else Option.bind (traverse_all ops nextPrefix absStart absEnd p cands vol cs) (\<lambda>(p1, cands1, vol1, cs1).
           Option.bind (prune_node ops p1 n cs1) (\<lambda>(p2, t). Some (p2, cands1, vol1, t))))"
| "traverse_all ops pre parentStart parentEnd p cands vol [] = Some (p, cands, vol, [])"
| "traverse_all ops pre parentStart parentEnd p cands vol (c # cs) =
     Option.bind (traverse ops pre parentStart parentEnd p cands vol c) (\<lambda>(p1, cands1, vol1, c1).
       Option.bind (traverse_all ops pre parentStart parentEnd p1 cands1 vol1 cs) (\<lambda>(p2, cands2, vol2, cs1).
         Some (p2, cands2, vol2, c1 # cs1)))"

text \<open>The candidates admitted, hottest first, until the quota is used up.\<close>

fun admit_zones :: "u64 \<Rightarrow> u64 \<Rightarrow> zoneCandidate list \<Rightarrow> HotZone list" where
  "admit_zones targetQuota admitted [] = []"
| "admit_zones targetQuota admitted (c # cs) =
     (if targetQuota < admitted + zc_Volume c \<and> zc_Ratio c < HighHeatBypassRatio then []
      else \<lparr>hz_Start = zc_Start c, hz_End = zc_End c\<rparr> # admit_zones targetQuota (admitted + zc_Volume c) cs)"

text \<open>Adjacent zones become one; the accumulator is the last zone so far.\<close>

fun merge_zones :: "HotZone \<Rightarrow> HotZone list \<Rightarrow> HotZone list" where
  "merge_zones lastMerged [] = [lastMerged]"
| "merge_zones lastMerged (z # zs) =
     (if 0 < length (hz_End lastMerged) \<and> bytes_compare (hz_End lastMerged) (hz_Start z) = 0
      then merge_zones (lastMerged\<lparr>hz_End := hz_End z\<rparr>) zs
      else lastMerged # merge_zones z zs)"

definition snapshot_zones :: "u64 \<Rightarrow> zoneCandidate list \<Rightarrow> HotZone list" where
  "snapshot_zones globalEpochVolume candidates =
     (let targetQuota = word_of_int (f_to_int (f_mul (f_of_int (uint globalEpochVolume)) HotVolumePercentage));
          ranked = go_sort (\<lambda>a b. zc_Ratio b < zc_Ratio a) candidates;
          newZones = go_sort (\<lambda>a b. bytes_compare (hz_Start a) (hz_Start b) < 0) (admit_zones targetQuota 0 ranked)
      in case newZones of [] \<Rightarrow> [] | z # zs \<Rightarrow> merge_zones z zs)"

section \<open>The manager\<close>

record 'h heat_manager =
  hm_MotherTree :: heat_tree
  hm_pool :: "'h heat_pool"
  hm_hotZonesSnapshot :: "HotZone list"
  hm_flushThreshold :: int
  hm_flushCount :: int
  hm_isDecaying :: bool
  hm_sampleCh :: "bytes list"
  hm_DropCount :: int

definition sampleChSize :: nat where "sampleChSize = 100000"

definition NewHeatmapManager :: "'h hll_ops \<Rightarrow> 'h heat_manager option" where
  "NewHeatmapManager ops = map_option (\<lambda>(p, sid).
     \<lparr>hm_MotherTree = newHeatNode 0 [] [] [] sid, hm_pool = p, hm_hotZonesSnapshot = [], hm_flushThreshold = 1, hm_flushCount = 0,
      hm_isDecaying = False, hm_sampleCh = [], hm_DropCount = 0\<rparr>)
     (AllocateStats ops \<lparr>hp_StatsChunks = [], hp_FreeList = []\<rparr>)"

definition RecordWriteAsync :: "bytes \<Rightarrow> 'h heat_manager \<Rightarrow> 'h heat_manager" where
  "RecordWriteAsync key m =
     (if length (hm_sampleCh m) < sampleChSize then m\<lparr>hm_sampleCh := hm_sampleCh m @ [key]\<rparr> else m\<lparr>hm_DropCount := hm_DropCount m + 1\<rparr>)"

text \<open>One turn of \<open>asyncProcessSamples\<close>: \<open>None\<close> is a panic.\<close>

definition process_sample :: "'h hll_ops \<Rightarrow> (u32 \<Rightarrow> u32) \<Rightarrow> 'h heat_manager \<Rightarrow> 'h heat_manager option" where
  "process_sample ops rand m =
     (case hm_sampleCh m of [] \<Rightarrow> Some m
      | key # ch \<Rightarrow> map_option (\<lambda>(p, t, found). m\<lparr>hm_MotherTree := t, hm_pool := p, hm_sampleCh := ch\<rparr>)
          (SearchLeaf ops rand key False (hm_pool m) (hm_MotherTree m)))"

definition EpochDecayAndSnapshot :: "'h hll_ops \<Rightarrow> 'h heat_manager \<Rightarrow> 'h heat_manager option" where
  "EpochDecayAndSnapshot ops m =
     map_option (\<lambda>(p, cands, vol, t). m\<lparr>hm_MotherTree := t, hm_pool := p, hm_hotZonesSnapshot := snapshot_zones vol cands\<rparr>)
       (traverse ops [] [] [] (hm_pool m) [] 0 (hm_MotherTree m))"

text \<open>The result says whether a decay was started, which then runs and clears the mark.\<close>

definition OnMemtableFlush :: "'h heat_manager \<Rightarrow> 'h heat_manager \<times> bool" where
  "OnMemtableFlush m =
     (let count = hm_flushCount m + 1; m1 = m\<lparr>hm_flushCount := count\<rparr>
      in if hm_flushThreshold m1 \<le> count then
           (let m2 = m1\<lparr>hm_flushCount := 0\<rparr>
            in if \<not> hm_isDecaying m2 then (m2\<lparr>hm_isDecaying := True\<rparr>, True) else (m2, False))
         else (m1, False))"

definition finish_decay :: "'h hll_ops \<Rightarrow> 'h heat_manager \<Rightarrow> 'h heat_manager option" where
  "finish_decay ops m = map_option (\<lambda>m1. m1\<lparr>hm_isDecaying := False\<rparr>) (EpochDecayAndSnapshot ops m)"

definition IsHotKey :: "HotZone list \<Rightarrow> bytes \<Rightarrow> bool" where
  "IsHotKey zones key =
     (if length zones = 0 then False
      else
        let idx = sort_search (length zones) (\<lambda>i. if length (hz_End (zones ! i)) = 0 then True else 0 < bytes_compare (hz_End (zones ! i)) key)
        in if idx < length zones
           then (let start = hz_Start (zones ! idx) in if length start = 0 \<or> 0 \<le> bytes_compare key start then True else False)
           else False)"

section \<open>The tracker of accesses\<close>

record AccessStats =
  as_ReadCount :: u64
  as_WriteCount :: u64

definition as_Total :: "AccessStats \<Rightarrow> u64" where
  "as_Total s = as_ReadCount s + as_WriteCount s"

type_synonym key_tracker = "bytes \<rightharpoonup> AccessStats"

definition getOrInit :: "key_tracker \<Rightarrow> bytes \<Rightarrow> AccessStats" where
  "getOrInit kt key = (case kt key of Some s \<Rightarrow> s | None \<Rightarrow> \<lparr>as_ReadCount = 0, as_WriteCount = 0\<rparr>)"

definition RecordRead :: "key_tracker \<Rightarrow> bytes \<Rightarrow> key_tracker" where
  "RecordRead kt key = (let s = getOrInit kt key in kt(key \<mapsto> s\<lparr>as_ReadCount := as_ReadCount s + 1\<rparr>))"

definition RecordWrite :: "key_tracker \<Rightarrow> bytes \<Rightarrow> key_tracker" where
  "RecordWrite kt key = (let s = getOrInit kt key in kt(key \<mapsto> s\<lparr>as_WriteCount := as_WriteCount s + 1\<rparr>))"

end
