(* ===== verification/HeatZones.thy ===== *)
theory HeatZones
  imports HeatTree "HOL-Library.Sublist"
begin

text \<open>
  The hot ranges of \<open>heatLSM\<close>: the range of a prefix, the ranges of the leaves, which tile the
  keys as long as every split tiles the range of its leaf, and the snapshot of the hottest ones,
  whose binary search (\<open>IsHotKey\<close>) is exact for disjoint ranges.
\<close>

section \<open>The range of a prefix\<close>

lemma Next_snoc: "b \<noteq> -1 \<Longrightarrow> NextKeySameLength (q @ [b]) = q @ [b + 1]"
proof -
  assume "b \<noteq> -1"
  then have "b + 1 \<noteq> 0" by (metis add_eq_0_iff2)
  then show ?thesis by (simp add: NextKeySameLength_def)
qed

lemma byte_uint_succ: "b \<noteq> (-1 :: byte) \<Longrightarrow> uint (b + 1) = uint b + 1"
proof -
  assume "b \<noteq> -1"
  then have "uint b \<noteq> uint (-1 :: byte)" by (simp add: word_uint_eq_iff)
  then have "uint b < 255" using uint_lt2p [of b] by (simp add: unsigned_minus_1_eq_mask mask_eq_exp_minus_1)
  then show ?thesis by (simp add: uint_word_ariths)
qed

lemma byte_succ: "b \<noteq> -1 \<Longrightarrow> b < b + (1 :: byte)"
  by (simp add: word_less_def byte_uint_succ)

lemma byte_less_succ: "b \<noteq> -1 \<Longrightarrow> c < b + (1 :: byte) \<longleftrightarrow> c \<le> b"
  by (simp add: word_less_def word_le_def byte_uint_succ)

text \<open>Both are ordered by their first difference.\<close>

lemma append_less: "(q @ xs :: bytes) < q @ ys \<longleftrightarrow> xs < ys"
  by (induction q) auto

lemma append_le: "(q @ xs :: bytes) \<le> q @ ys \<longleftrightarrow> xs \<le> ys"
  by (induction q) auto

lemma prefix_range_snoc: "b \<noteq> -1 \<Longrightarrow> prefix (q @ [b] :: bytes) k \<longleftrightarrow> q @ [b] \<le> k \<and> k < q @ [b + 1]"
proof (induction q arbitrary: k)
  case Nil
  then show ?case by (cases k) (auto simp: byte_less_succ byte_succ)
next
  case (Cons x q)
  note IH = Cons.IH [OF Cons.prems]
  show ?case
  proof (cases k)
    case (Cons y ys)
    then show ?thesis using IH [of ys] by auto
  qed simp
qed

lemma snoc_last: "p \<noteq> [] \<Longrightarrow> p = butlast p @ [last p]"
  by simp

lemma prefix_range: "p \<noteq> [] \<Longrightarrow> last p \<noteq> -1 \<Longrightarrow> prefix p k \<longleftrightarrow> p \<le> k \<and> k < NextKeySameLength p"
  using prefix_range_snoc [of "last p" "butlast p" k] Next_snoc [of "last p" "butlast p"] by simp

lemma Next_greater: "p \<noteq> [] \<Longrightarrow> last p \<noteq> -1 \<Longrightarrow> p < NextKeySameLength p"
  using prefix_range [of p p] by simp

lemma Next_above: "p \<noteq> [] \<Longrightarrow> last p \<noteq> -1 \<Longrightarrow> p < k \<Longrightarrow> \<not> prefix p k \<Longrightarrow> NextKeySameLength p \<le> k"
  using prefix_range [of p k] by auto

lemma Next_all_max: "set p \<subseteq> {-1} \<Longrightarrow> NextKeySameLength p = replicate (length p) 0"
proof -
  have "set xs \<subseteq> {-1} \<Longrightarrow> next_rev xs = replicate (length xs) 0" for xs :: bytes
    by (induction xs) auto
  then show "set p \<subseteq> {-1} \<Longrightarrow> ?thesis" by (simp add: NextKeySameLength_def)
qed

text \<open>
  C38: for a nonempty prefix whose last byte is not 255, the keys with the prefix are exactly those from it
  up to its successor of the same length; the successor of a key of bytes 255 is all zeros.
\<close>

theorem next_key_range:
  "(p \<noteq> [] \<and> last p \<noteq> 255 \<longrightarrow> (has_prefix k p \<longleftrightarrow> 0 \<le> CompareKey k p \<and> CompareKey k (NextKeySameLength p) < 0)) \<and>
    NextKeySameLength (replicate n 255) = replicate n 0"
proof -
  have m: "(255 :: byte) = -1" by simp
  have "set (replicate n (-1 :: byte)) \<subseteq> {-1}" by auto
  from Next_all_max [OF this] have z: "NextKeySameLength (replicate n (-1)) = replicate n 0" by simp
  have "has_prefix k p \<longleftrightarrow> 0 \<le> CompareKey k p \<and> CompareKey k (NextKeySameLength p) < 0" if "p \<noteq> []" "last p \<noteq> -1"
    using prefix_range [OF that, of k] by (auto simp: has_prefix_iff CompareKey_def not_less)
  then show ?thesis using z unfolding m by blast
qed

theorem next_key_range_witness:
  "has_prefix [7, 9, 1] [7, 9] \<and> NextKeySameLength [7, 9] = [7, 10]"
  using next_key_range [of "[7, 9]" "[7, 9, 1]" 2] by (simp add: CompareKey_def NextKeySameLength_def has_prefix_def)

section \<open>Zones\<close>

definition covers :: "bytes \<times> bytes \<Rightarrow> bytes \<Rightarrow> bool" where
  "covers r key \<longleftrightarrow> fst r \<le> key \<and> (snd r = [] \<or> key < snd r)"

definition proper :: "bytes \<times> bytes \<Rightarrow> bool" where
  "proper r \<longleftrightarrow> snd r = [] \<or> fst r < snd r"

definition left_of :: "bytes \<times> bytes \<Rightarrow> bytes \<times> bytes \<Rightarrow> bool" where
  "left_of r r' \<longleftrightarrow> snd r \<noteq> [] \<and> snd r \<le> fst r'"

definition hz_range :: "HotZone \<Rightarrow> bytes \<times> bytes" where "hz_range z = (hz_Start z, hz_End z)"
definition zc_range :: "zoneCandidate \<Rightarrow> bytes \<times> bytes" where "zc_range c = (zc_Start c, zc_End c)"

definition zones_ok :: "HotZone list \<Rightarrow> bool" where
  "zones_ok zs \<longleftrightarrow> sorted_wrt left_of (map hz_range zs) \<and> (\<forall>z \<in> set zs. proper (hz_range z))"

lemma left_of_trans: "left_of a b \<Longrightarrow> proper b \<Longrightarrow> left_of b c \<Longrightarrow> left_of a c"
  by (auto simp: left_of_def proper_def)

lemma IsHotKey_covers:
  assumes ok: "zones_ok zs"
  shows "IsHotKey zs key \<longleftrightarrow> (\<exists>z \<in> set zs. covers (hz_range z) key)"
proof (cases "zs = []")
  case True
  then show ?thesis by (simp add: IsHotKey_def)
next
  case ne: False
  let ?f = "\<lambda>i. if length (hz_End (zs ! i)) = 0 then True else 0 < bytes_compare (hz_End (zs ! i)) key"
  have f: "?f i \<longleftrightarrow> hz_End (zs ! i) = [] \<or> key < hz_End (zs ! i)" for i by simp
  define idx where "idx = sort_search (length zs) ?f"
  have lf: "left_of (hz_range (zs ! i)) (hz_range (zs ! j))" if "i < j" "j < length zs" for i j
    using ok that by (auto simp: zones_ok_def sorted_wrt_iff_nth_less)
  have pr: "proper (hz_range (zs ! i))" if "i < length zs" for i using ok that by (simp add: zones_ok_def)
  have up: "upward (length zs) ?f"
  proof (rule upwardI)
    fix i j assume ij: "i \<le> j" "j < length zs" "?f i"
    show "?f j"
    proof (cases "i = j")
      case True
      show ?thesis using ij(3) unfolding True .
    next
      case False
      then have "hz_End (zs ! i) \<noteq> []" "hz_End (zs ! i) \<le> hz_Start (zs ! j)" using lf ij by (force simp: left_of_def hz_range_def)+
      then show ?thesis using ij pr [OF ij(2)] unfolding f by (auto simp: proper_def hz_range_def)
    qed
  qed
  have hot: "IsHotKey zs key \<longleftrightarrow> idx < length zs \<and> hz_Start (zs ! idx) \<le> key"
    using ne by (auto simp: IsHotKey_def Let_def idx_def)
  show ?thesis
  proof
    assume "IsHotKey zs key"
    then have i: "idx < length zs" "hz_Start (zs ! idx) \<le> key" by (simp_all add: hot)
    have "?f idx" using i(1) unfolding idx_def by (rule sort_search_hit)
    then have "covers (hz_range (zs ! idx)) key" using i(2) unfolding f by (auto simp: covers_def hz_range_def)
    then show "\<exists>z \<in> set zs. covers (hz_range z) key" using i(1) by auto
  next
    assume "\<exists>z \<in> set zs. covers (hz_range z) key"
    then obtain z where z: "z \<in> set zs" "covers (hz_range z) key" by (elim bexE)
    obtain j where j0: "j < length zs" "zs ! j = z" using z(1) unfolding in_set_conv_nth by (elim exE conjE)
    have j: "j < length zs" "covers (hz_range (zs ! j)) key" using j0 z(2) by simp_all
    then have "?f j" unfolding f by (auto simp: covers_def hz_range_def)
    then have le: "idx \<le> j" unfolding idx_def sort_search_iff [OF up j(1)] .
    then have "idx < length zs" using j(1) by simp
    then have "?f idx" unfolding idx_def by (rule sort_search_hit)
    have "idx = j"
    proof (rule ccontr)
      assume "idx \<noteq> j"
      then have "left_of (hz_range (zs ! idx)) (hz_range (zs ! j))" using lf le j(1) by simp
      then show False using \<open>?f idx\<close> j(2) unfolding f by (auto simp: left_of_def covers_def hz_range_def)
    qed
    then show "IsHotKey zs key" using j unfolding hot by (auto simp: covers_def hz_range_def)
  qed
qed

lemma merge_zones_ok:
  "zones_ok (z # zs) \<Longrightarrow> zones_ok (merge_zones z zs) \<and>
    (\<forall>key. (\<exists>y \<in> set (merge_zones z zs). covers (hz_range y) key) \<longleftrightarrow> (\<exists>y \<in> set (z # zs). covers (hz_range y) key)) \<and>
    (\<forall>y \<in> set (merge_zones z zs). hz_Start z \<le> hz_Start y)"
proof (induction zs arbitrary: z)
  case (Cons y zs)
  have ok: "zones_ok (y # zs)" "left_of (hz_range z) (hz_range y)" "\<forall>x \<in> set zs. left_of (hz_range z) (hz_range x)"
      "\<forall>x \<in> set zs. left_of (hz_range y) (hz_range x)" "proper (hz_range z)" "proper (hz_range y)"
    using Cons.prems by (auto simp: zones_ok_def)
  show ?case
  proof (cases "hz_End z = hz_Start y")
    case True
    let ?m = "z\<lparr>hz_End := hz_End y\<rparr>"
    have ne: "hz_End z \<noteq> []" using ok(2) by (simp add: left_of_def hz_range_def)
    have "zones_ok (?m # zs)" using ok Cons.prems True by (auto simp: zones_ok_def hz_range_def left_of_def proper_def)
    note IH = Cons.IH [OF this]
    have cov: "covers (hz_range ?m) key \<longleftrightarrow> covers (hz_range z) key \<or> covers (hz_range y) key" for key
      using ok(2,5,6) True by (auto simp: covers_def hz_range_def left_of_def proper_def)
    show ?thesis using IH cov True ne by simp
  next
    case False
    note IH = Cons.IH [OF ok(1)]
    have le: "hz_Start z \<le> hz_Start y" using ok(2,5) by (auto simp: left_of_def proper_def hz_range_def)
    have "left_of (hz_range z) (hz_range x)" if "x \<in> set (merge_zones y zs)" for x
      using ok(2) IH that by (auto simp: left_of_def hz_range_def)
    then have "zones_ok (z # merge_zones y zs)" using IH ok(5) by (auto simp: zones_ok_def)
    then show ?thesis using IH le False by auto
  qed
qed (simp add: zones_ok_def)

section \<open>The snapshot\<close>

definition apart_ranges :: "(bytes \<times> bytes) list \<Rightarrow> bool" where
  "apart_ranges rs \<longleftrightarrow> sorted_wrt (\<lambda>a b. left_of a b \<or> left_of b a) rs \<and> (\<forall>r \<in> set rs. proper r)"

lemma left_of_self: "proper r \<Longrightarrow> \<not> left_of r r"
  by (auto simp: left_of_def proper_def)

lemma apart_alt:
  "apart_ranges rs \<longleftrightarrow> distinct rs \<and> pairwise (\<lambda>a b. left_of a b \<or> left_of b a) (set rs) \<and> (\<forall>r \<in> set rs. proper r)"
proof (induction rs)
  case (Cons r rs)
  have "apart_ranges (r # rs) \<longleftrightarrow> (\<forall>x \<in> set rs. left_of r x \<or> left_of x r) \<and> proper r \<and> apart_ranges rs"
    by (simp add: apart_ranges_def) blast
  moreover have "r \<notin> set rs" if "\<forall>x \<in> set rs. left_of r x \<or> left_of x r" "proper r" using that left_of_self by blast
  ultimately show ?case unfolding Cons.IH distinct.simps list.set pairwise_insert ball_simps by blast
qed (simp add: apart_ranges_def)

lemma apart_perm:
  assumes "apart_ranges rs" and "mset rs = mset rs'"
  shows "apart_ranges rs'"
proof -
  have "set rs' = set rs" "distinct rs' \<longleftrightarrow> distinct rs"
    using mset_eq_setD [OF assms(2)] mset_eq_imp_distinct_iff [OF assms(2)] by simp_all
  then show ?thesis using assms(1) unfolding apart_alt by simp
qed

lemma apart_sorted: "apart_ranges rs \<Longrightarrow> sorted_wrt (\<lambda>a b. fst a \<le> fst b) rs \<Longrightarrow> sorted_wrt left_of rs"
proof (induction rs)
  case (Cons r rs)
  have "left_of r x" if "x \<in> set rs" for x
  proof -
    have "left_of r x \<or> left_of x r" "proper x" "fst r \<le> fst x" using Cons.prems that by (auto simp: apart_ranges_def)
    moreover have False if "left_of x r" "proper x" "fst r \<le> fst x"
      using that leD [of "snd x" "fst x"] order_trans [of "snd x" "fst r" "fst x"] unfolding left_of_def proper_def by blast
    ultimately show ?thesis by blast
  qed
  moreover have "sorted_wrt left_of rs" using Cons by (simp add: apart_ranges_def)
  ultimately show ?case by simp
qed simp

lemma admit_subseq: "subseq (map hz_range (admit_zones q v cs)) (map zc_range cs)"
  by (induction q v cs rule: admit_zones.induct) (auto simp: hz_range_def zc_range_def)

lemma admit_hot:
  "sorted_wrt (\<lambda>a b. zc_Ratio b \<le> zc_Ratio a) cs \<Longrightarrow> c \<in> set cs \<Longrightarrow> HighHeatBypassRatio \<le> zc_Ratio c \<Longrightarrow>
    zc_range c \<in> hz_range ` set (admit_zones q v cs)"
proof (induction q v cs rule: admit_zones.induct)
  case (2 q v d cs)
  have "HighHeatBypassRatio \<le> zc_Ratio d" using "2.prems" by auto
  then show ?case using 2 by (auto simp: hz_range_def zc_range_def)
qed simp

lemma subseq_subset: "subseq xs ys \<Longrightarrow> set xs \<subseteq> set ys"
  by (induction rule: list_emb.induct) auto

lemma apart_subseq: "subseq rs' rs \<Longrightarrow> apart_ranges rs \<Longrightarrow> apart_ranges rs'"
  unfolding apart_ranges_def by (induction rule: list_emb.induct) (auto dest: list_emb_set)

definition hot_quota :: "u64 \<Rightarrow> u64" where
  "hot_quota vol = word_of_int (f_to_int (f_mul (f_of_int (uint vol)) HotVolumePercentage))"

definition admitted_zones :: "u64 \<Rightarrow> zoneCandidate list \<Rightarrow> HotZone list" where
  "admitted_zones vol cands = admit_zones (hot_quota vol) 0 (go_sort (\<lambda>a b. zc_Ratio b < zc_Ratio a) cands)"

lemma snapshot_ok:
  assumes "apart_ranges (map zc_range cands)"
  shows "zones_ok (snapshot_zones vol cands) \<and>
    (IsHotKey (snapshot_zones vol cands) key \<longleftrightarrow> (\<exists>z \<in> set (admitted_zones vol cands). covers (hz_range z) key)) \<and>
    hz_range ` set (admitted_zones vol cands) \<subseteq> zc_range ` set cands \<and>
    (\<forall>c \<in> set cands. HighHeatBypassRatio \<le> zc_Ratio c \<longrightarrow> zc_range c \<in> hz_range ` set (admitted_zones vol cands))"
proof -
  let ?ranked = "go_sort (\<lambda>a b. zc_Ratio b < zc_Ratio a) cands" and ?ad = "admitted_zones vol cands"
  let ?lt = "\<lambda>a b. bytes_compare (hz_Start a) (hz_Start b) < 0"
  let ?zs = "go_sort ?lt ?ad"
  have m: "mset ?ranked = mset cands" by (rule mset_go_sort)
  have ap: "apart_ranges (map zc_range ?ranked)" by (rule apart_perm [OF assms]) (simp add: m)
  have "apart_ranges (map hz_range ?ad)" unfolding admitted_zones_def by (rule apart_subseq [OF admit_subseq ap])
  then have ap2: "apart_ranges (map hz_range ?zs)" by (rule apart_perm) (simp add: mset_go_sort)
  have "strict_weak ?lt" by (auto simp: strict_weak_def)
  then have "in_order ?lt ?zs" by (rule in_order_go_sort)
  then have srt: "sorted_wrt (\<lambda>a b. hz_Start a \<le> hz_Start b) ?zs" by (simp add: in_order_def not_less)
  have "sorted_wrt left_of (map hz_range ?zs)" by (rule apart_sorted [OF ap2]) (use srt in \<open>simp add: sorted_wrt_map hz_range_def\<close>)
  then have zok: "zones_ok ?zs" using ap2 unfolding zones_ok_def apart_ranges_def set_map by blast
  have snap: "snapshot_zones vol cands = (case ?zs of [] \<Rightarrow> [] | z # zs \<Rightarrow> merge_zones z zs)"
    by (simp add: snapshot_zones_def admitted_zones_def hot_quota_def Let_def)
  have set: "set ?zs = set ?ad" by simp
  have ok: "zones_ok (snapshot_zones vol cands) \<and> (\<forall>key. (\<exists>z \<in> set (snapshot_zones vol cands). covers (hz_range z) key) \<longleftrightarrow> (\<exists>z \<in> set ?ad. covers (hz_range z) key))"
  proof (cases ?zs)
    case Nil
    then show ?thesis using set unfolding snap by (simp add: zones_ok_def)
  next
    case (Cons z zs)
    then have "insert z (set zs) = set ?ad" using set by simp
    then show ?thesis using merge_zones_ok [of z zs] zok unfolding snap Cons by simp
  qed
  have "strict_weak (\<lambda>a b. zc_Ratio b < zc_Ratio a)" by (auto simp: strict_weak_def)
  then have "in_order (\<lambda>a b. zc_Ratio b < zc_Ratio a) ?ranked" by (rule in_order_go_sort)
  then have "sorted_wrt (\<lambda>a b. zc_Ratio b \<le> zc_Ratio a) ?ranked" by (simp add: in_order_def not_less)
  then have hot: "\<forall>c \<in> set cands. HighHeatBypassRatio \<le> zc_Ratio c \<longrightarrow> zc_range c \<in> hz_range ` set ?ad"
    using admit_hot [of ?ranked] unfolding admitted_zones_def by (simp add: mset_eq_setD [OF m])
  have "set (map hz_range ?ad) \<subseteq> set (map zc_range ?ranked)"
    unfolding admitted_zones_def by (rule subseq_subset [OF admit_subseq])
  then have "hz_range ` set ?ad \<subseteq> zc_range ` set cands" using mset_eq_setD [OF m] by simp
  moreover have "IsHotKey (snapshot_zones vol cands) key \<longleftrightarrow> (\<exists>z \<in> set ?ad. covers (hz_range z) key)"
    unfolding IsHotKey_covers [OF conjunct1 [OF ok]] by (rule spec [OF conjunct2 [OF ok]])
  ultimately show ?thesis using hot conjunct1 [OF ok] by (intro conjI)
qed

text \<open>
  C17: when the ranges of the leaves are disjoint, the binary search of \<open>IsHotKey\<close> on the merged
  snapshot says exactly whether the key lies in an admitted range, whatever the order of heat, and
  every leaf whose ratio of overwrites is at least one half is admitted, whatever the quota.
\<close>

theorem hot_snapshot_exact:
  assumes "apart_ranges (map zc_range cands)"
  shows "(IsHotKey (snapshot_zones vol cands) key \<longleftrightarrow> (\<exists>z \<in> set (admitted_zones vol cands). covers (hz_range z) key)) \<and>
    hz_range ` set (admitted_zones vol cands) \<subseteq> zc_range ` set cands \<and>
    (\<forall>c \<in> set cands. HighHeatBypassRatio \<le> zc_Ratio c \<longrightarrow> zc_range c \<in> hz_range ` set (admitted_zones vol cands))"
  by (rule conjunct2 [OF snapshot_ok [OF assms]])

definition two_leaves :: "zoneCandidate list" where
  "two_leaves = [\<lparr>zc_Start = [5], zc_End = [], zc_Ratio = 1 / 2, zc_Volume = 9\<rparr>, \<lparr>zc_Start = [], zc_End = [5], zc_Ratio = 3 / 4, zc_Volume = 1\<rparr>]"

theorem hot_snapshot_exact_witness:
  "apart_ranges (map zc_range two_leaves) \<and> ([], [5]) \<in> hz_range ` set (admitted_zones 3 two_leaves) \<and>
    ([5], []) \<in> hz_range ` set (admitted_zones 3 two_leaves)"
proof -
  have ap: "apart_ranges (map zc_range two_leaves)"
    by (simp add: two_leaves_def apart_ranges_def zc_range_def left_of_def proper_def)
  show ?thesis using ap hot_snapshot_exact [OF ap, of 3 "[7]"] by (simp add: two_leaves_def HighHeatBypassRatio_def zc_range_def)
qed

end
