(* ===== verification/HeatGroups.thy ===== *)
theory HeatGroups
  imports HeatZones
begin

text \<open>
  The groups a full leaf splits into: consecutive samples that agree on one more byte than all
  of them do. When no sample is a proper prefix of another and no byte is 255, the prefixes of the
  chosen groups give ranges that follow one another.
\<close>

section \<open>Common prefixes\<close>

lemma lcp_take: "prefix q (take (commonPrefixLen a b) a) \<longleftrightarrow> prefix q a \<and> prefix q b"
proof (induction a b arbitrary: q rule: commonPrefixLen.induct)
  case (1 a as b bs)
  then show ?case by (cases q) auto
qed auto

lemma calc_fold: "prefix q (foldl (\<lambda>p k. take (commonPrefixLen p k) p) k ks) \<longleftrightarrow> prefix q k \<and> (\<forall>x \<in> set ks. prefix q x)"
  by (induction ks arbitrary: k) (auto simp: lcp_take)

lemma calc_prefix: "keys \<noteq> [] \<Longrightarrow> prefix q (calcCommonPrefix keys) \<longleftrightarrow> (\<forall>x \<in> set keys. prefix q x)"
  by (cases keys) (simp_all add: calcCommonPrefix_def calc_fold)

lemma prefix_sandwich: "prefix q x \<Longrightarrow> prefix q z \<Longrightarrow> x \<le> y \<Longrightarrow> y \<le> z \<Longrightarrow> prefix q (y :: bytes)"
proof (induction q arbitrary: x y z)
  case (Cons a q)
  obtain x' where x: "x = a # x'" "prefix q x'" using Cons.prems(1) by (cases x) auto
  obtain z' where z: "z = a # z'" "prefix q z'" using Cons.prems(2) by (cases z) auto
  show ?case
  proof (cases y)
    case Nil
    then show ?thesis using Cons.prems(3) x(1) by simp
  next
    case (Cons b y')
    then show ?thesis using Cons.IH [OF x(2) z(2), of y'] Cons.prems(3,4) x(1) z(1) by (auto split: if_splits)
  qed
qed simp

lemma less_of_prefixes: "prefix p x \<Longrightarrow> prefix q y \<Longrightarrow> x \<le> y \<Longrightarrow> \<not> prefix p q \<Longrightarrow> \<not> prefix q p \<Longrightarrow> (p :: bytes) < q"
proof (induction p arbitrary: q x y)
  case (Cons a p)
  obtain b q' where q: "q = b # q'" using Cons.prems(5) by (cases q) auto
  obtain x' where x: "x = a # x'" "prefix p x'" using Cons.prems(1) by (cases x) auto
  obtain y' where y: "y = b # y'" "prefix q' y'" using Cons.prems(2) q by (cases y) auto
  show ?case using Cons.IH [OF x(2) y(2)] Cons.prems(3-5) x(1) y(1) q by auto
qed simp

section \<open>Cutting the samples\<close>

definition is_group :: "bytes list \<Rightarrow> nat \<Rightarrow> ResIndexRange \<Rightarrow> bool" where
  "is_group keys d g \<longleftrightarrow> rg_Start g < rg_End g \<and> rg_End g \<le> length keys \<and> g = res_range keys (rg_Start g) (rg_End g) \<and>
     (\<forall>i. rg_Start g \<le> i \<and> i < rg_End g \<longrightarrow> getByteAt (keys ! i) d = getByteAt (keys ! rg_Start g) d) \<and>
     (rg_End g < length keys \<longrightarrow> getByteAt (keys ! (rg_End g - 1)) d \<noteq> getByteAt (keys ! rg_End g) d)"

definition follow :: "ResIndexRange list \<Rightarrow> bool" where
  "follow gs \<longleftrightarrow> sorted_wrt (\<lambda>g h. rg_End g \<le> rg_Start h) gs"

definition cut_step :: "bytes list \<Rightarrow> nat \<Rightarrow> ResIndexRange list \<times> nat \<Rightarrow> nat \<Rightarrow> ResIndexRange list \<times> nat" where
  "cut_step keys d = (\<lambda>(gs, s) i. if getByteAt (keys ! (i - 1)) d \<noteq> getByteAt (keys ! i) d then (gs @ [res_range keys s i], i) else (gs, s))"

lemma res_range_sel [simp]: "rg_Start (res_range keys s e) = s" "rg_End (res_range keys s e) = e"
    "rg_CommonPrefix (res_range keys s e) = calcCommonPrefix (take (e - s) (drop s keys))"
  by (simp_all add: res_range_def)

lemma cut_fold:
  "m < length keys \<Longrightarrow> foldl (cut_step keys d) ([], 0) [1..<Suc m] = (gs, s) \<Longrightarrow>
    (\<forall>g \<in> set gs. is_group keys d g \<and> rg_End g \<le> s) \<and> follow gs \<and> s \<le> m \<and>
    (\<forall>i. s \<le> i \<and> i \<le> m \<longrightarrow> getByteAt (keys ! i) d = getByteAt (keys ! s) d)"
proof (induction m arbitrary: gs s)
  case 0
  then show ?case by (simp add: follow_def)
next
  case (Suc m)
  obtain gs0 s0 where f: "foldl (cut_step keys d) ([], 0) [1..<Suc m] = (gs0, s0)" by fastforce
  note all = Suc.IH [OF Suc_lessD [OF Suc.prems(1)] f]
  note IH = conjunct1 [OF all] conjunct1 [OF conjunct2 [OF all]] conjunct1 [OF conjunct2 [OF conjunct2 [OF all]]] conjunct2 [OF conjunct2 [OF conjunct2 [OF all]]]
  have st: "(gs, s) = cut_step keys d (gs0, s0) (Suc m)" using Suc.prems(2) f by simp
  show ?case
  proof (cases "getByteAt (keys ! m) d = getByteAt (keys ! Suc m) d")
    case True
    then have eq: "gs = gs0" "s = s0" using st by (simp_all add: cut_step_def)
    have "getByteAt (keys ! i) d = getByteAt (keys ! s0) d" if i: "s0 \<le> i" "i \<le> Suc m" for i
    proof (cases "i = Suc m")
      case True
      have "getByteAt (keys ! m) d = getByteAt (keys ! s0) d" using IH(3,4) by blast
      then show ?thesis using \<open>getByteAt (keys ! m) d = getByteAt (keys ! Suc m) d\<close> unfolding True by (rule trans [OF sym, rotated])
    next
      case False
      then have "i \<le> m" using i(2) by simp
      then show ?thesis using IH(4) i(1) by blast
    qed
    then show ?thesis using IH(1-3) unfolding eq by (intro conjI allI impI) (blast | simp)+
  next
    case False
    then have eq: "gs = gs0 @ [res_range keys s0 (Suc m)]" "s = Suc m" using st by (simp_all add: cut_step_def)
    have "is_group keys d (res_range keys s0 (Suc m))"
      unfolding is_group_def res_range_sel using IH(3,4) False Suc.prems(1) by (intro conjI allI impI) (simp_all only: less_Suc_eq_le diff_Suc_1, blast+)
    then have "\<forall>g \<in> set gs. is_group keys d g \<and> rg_End g \<le> s" using IH(1,3) unfolding eq by (fastforce intro: le_trans)
    moreover have "follow gs" using IH(1,2) by (simp add: eq follow_def sorted_wrt_append)
    moreover have "getByteAt (keys ! i) d = getByteAt (keys ! s) d" if "s \<le> i" "i \<le> Suc m" for i
    proof -
      have "i = s" using that by (simp add: eq)
      then show ?thesis by simp
    qed
    moreover have "s \<le> Suc m" by (simp add: eq)
    ultimately show ?thesis by blast
  qed
qed

lemma cut_groups_ok:
  assumes "keys \<noteq> []"
  shows "(\<forall>g \<in> set (cut_groups keys). is_group keys (commonPrefixLen (hd keys) (last keys)) g) \<and> follow (cut_groups keys) \<and> cut_groups keys \<noteq> []"
proof -
  let ?d = "commonPrefixLen (hd keys) (last keys)"
  have n: "length keys = Suc (length keys - 1)" "length keys - 1 < length keys" using assms by simp_all
  obtain gs s where f: "foldl (cut_step keys ?d) ([], 0) [1..<Suc (length keys - 1)] = (gs, s)" by fastforce
  note inv = cut_fold [OF n(2) f]
  have c: "cut_groups keys = gs @ [res_range keys s (length keys)]"
    using f unfolding n(1) [symmetric] by (simp add: cut_groups_def Let_def cut_step_def)
  have "is_group keys ?d (res_range keys s (length keys))"
    unfolding is_group_def res_range_sel
  proof (intro conjI allI impI)
    show "s < length keys" using inv n(2) by (elim conjE) (rule le_less_trans)
    fix i assume "s \<le> i \<and> i < length keys"
    then have "s \<le> i \<and> i \<le> length keys - 1" by linarith
    then show "getByteAt (keys ! i) ?d = getByteAt (keys ! s) ?d" using inv by blast
  qed simp_all
  moreover have "follow (cut_groups keys)" using conjunct1 [OF inv] conjunct1 [OF conjunct2 [OF inv]] by (simp add: c follow_def sorted_wrt_append)
  ultimately show ?thesis using conjunct1 [OF inv] unfolding c by simp
qed

section \<open>The chosen groups\<close>

definition chosen_groups :: "bytes list \<Rightarrow> ResIndexRange list" where
  "chosen_groups keys = go_sort (\<lambda>a b. rg_Start a < rg_Start b) (FindTopNPrefixGroups keys)"

lemma valid_take: "\<exists>n. valid_groups t i gs = take n gs"
proof (induction t i gs rule: valid_groups.induct)
  case (2 t i g gs)
  show ?case
  proof (cases "i < GuaranteedFanOut \<or> t \<le> int (rg_Count g)")
    case True
    then obtain n where "valid_groups t (Suc i) gs = take n gs" using 2 by auto
    then have "valid_groups t i (g # gs) = take (Suc n) (g # gs)" using True by simp
    then show ?thesis by blast
  next
    case False
    then have "valid_groups t i (g # gs) = take 0 (g # gs)" by simp
    then show ?thesis by blast
  qed
qed simp

lemma follow_starts: "follow gs \<Longrightarrow> \<forall>g \<in> set gs. rg_Start g < rg_End g \<Longrightarrow> distinct gs \<and> distinct (map rg_Start gs)"
  unfolding follow_def by (induction gs) force+

lemma follow_any: "follow gs \<Longrightarrow> \<forall>g \<in> set gs. rg_Start g < rg_End g \<Longrightarrow> g \<in> set gs \<Longrightarrow> h \<in> set gs \<Longrightarrow>
    rg_Start g < rg_Start h \<Longrightarrow> rg_End g \<le> rg_Start h"
  unfolding follow_def by (induction gs) force+

lemma sorted_follow:
  "sorted (map rg_Start gs) \<Longrightarrow> distinct (map rg_Start gs) \<Longrightarrow> set gs \<subseteq> G \<Longrightarrow>
    \<forall>g \<in> G. \<forall>h \<in> G. rg_Start g < rg_Start h \<longrightarrow> rg_End g \<le> rg_Start h \<Longrightarrow> follow gs"
proof (induction gs)
  case (Cons g gs)
  have "rg_End g \<le> rg_Start h" if "h \<in> set gs" for h
  proof -
    have "rg_Start g \<le> rg_Start h" "rg_Start g \<noteq> rg_Start h" using Cons.prems(1,2) that by auto
    then have "rg_Start g < rg_Start h" by simp
    moreover have "g \<in> G" "h \<in> G" using Cons.prems(3) that by auto
    ultimately show ?thesis using Cons.prems(4) by blast
  qed
  then show ?case using Cons by (simp add: follow_def)
qed (simp add: follow_def)

lemma chosen_ok:
  assumes "keys \<noteq> []"
  shows "(\<forall>g \<in> set (chosen_groups keys). is_group keys (commonPrefixLen (hd keys) (last keys)) g) \<and> follow (chosen_groups keys) \<and> chosen_groups keys \<noteq> []"
proof -
  let ?ranked = "go_sort (\<lambda>a b. rg_Count b < rg_Count a) (cut_groups keys)" and ?cut = "cut_groups keys"
  define t where "t = f_to_int (f_mul (f_of_int (int (length keys))) MinPrefixRatio)"
  have cut: "\<forall>g \<in> set ?cut. is_group keys (commonPrefixLen (hd keys) (last keys)) g" "follow ?cut" "?cut \<noteq> []"
    using cut_groups_ok [OF assms] by blast+
  have pos: "\<forall>g \<in> set ?cut. rg_Start g < rg_End g" using cut(1) by (simp add: is_group_def)
  have top: "FindTopNPrefixGroups keys = valid_groups t 0 ?ranked" using assms by (simp add: FindTopNPrefixGroups_def Let_def t_def)
  obtain n where n: "valid_groups t 0 ?ranked = take n ?ranked" using valid_take by blast
  have sub: "set (chosen_groups keys) \<subseteq> set ?cut" unfolding chosen_groups_def top n using set_take_subset [of n ?ranked] by simp
  have "mset (map rg_Start ?ranked) = mset (map rg_Start ?cut)" unfolding mset_map by (simp only: mset_go_sort)
  then have "distinct (map rg_Start ?ranked)" using follow_starts [OF cut(2) pos] mset_eq_imp_distinct_iff by blast
  then have "distinct (map rg_Start (take n ?ranked))" by (simp add: take_map [symmetric] distinct_take)
  moreover have "mset (map rg_Start (chosen_groups keys)) = mset (map rg_Start (take n ?ranked))"
    unfolding mset_map chosen_groups_def top n by (simp only: mset_go_sort)
  ultimately have d: "distinct (map rg_Start (chosen_groups keys))" using mset_eq_imp_distinct_iff by blast
  have "in_order (\<lambda>a b. rg_Start a < rg_Start b) (chosen_groups keys)" unfolding chosen_groups_def by (rule in_order_go_sort) simp
  then have srt: "sorted (map rg_Start (chosen_groups keys))" by (simp add: in_order_key)
  have "follow (chosen_groups keys)"
    by (rule sorted_follow [OF srt d sub]) (use follow_any [OF cut(2) pos] in blast)
  moreover have "chosen_groups keys \<noteq> []"
  proof -
    obtain g gs where "?ranked = g # gs" using cut(3) by (metis mset_go_sort mset_zero_iff neq_Nil_conv)
    then have "valid_groups t 0 ?ranked \<noteq> []" by (simp add: GuaranteedFanOut_def)
    then show ?thesis unfolding chosen_groups_def top by (metis mset_go_sort mset_zero_iff)
  qed
  ultimately show ?thesis using cut(1) sub by blast
qed

section \<open>Prefix-free samples\<close>

definition prefix_free :: "bytes set \<Rightarrow> bool" where
  "prefix_free S \<longleftrightarrow> (\<forall>x \<in> S. \<forall>y \<in> S. prefix x y \<longrightarrow> x = y)"

definition no_max :: "bytes set \<Rightarrow> bool" where
  "no_max S \<longleftrightarrow> (\<forall>x \<in> S. -1 \<notin> set x)"

text \<open>The prefixes of groups are separate, and no two ranges of theirs meet.\<close>

definition separate :: "bytes list \<Rightarrow> bool" where
  "separate ps \<longleftrightarrow> sorted_wrt (\<lambda>p q. NextKeySameLength p \<le> q) ps \<and> (\<forall>p \<in> set ps. p \<noteq> [] \<and> last p \<noteq> -1)"

lemma group_prefix:
  assumes "is_group keys d g"
  shows "prefix q (rg_CommonPrefix g) \<longleftrightarrow> (\<forall>i. rg_Start g \<le> i \<and> i < rg_End g \<longrightarrow> prefix q (keys ! i))"
proof -
  let ?sl = "take (rg_End g - rg_Start g) (drop (rg_Start g) keys)"
  have b: "rg_Start g < rg_End g" "rg_End g \<le> length keys" "g = res_range keys (rg_Start g) (rg_End g)"
    using assms unfolding is_group_def by blast+
  have len: "length ?sl = rg_End g - rg_Start g" using b(2) by simp
  then have ne: "?sl \<noteq> []" using b(1) by (metis list.size(3) not_less_eq_eq order_refl zero_less_diff less_nat_zero_code)
  have nth: "?sl ! j = keys ! (rg_Start g + j)" if "j < rg_End g - rg_Start g" for j using that b(2) by simp
  have "rg_CommonPrefix g = calcCommonPrefix ?sl" by (subst b(3)) simp
  then have "prefix q (rg_CommonPrefix g) \<longleftrightarrow> (\<forall>x \<in> set ?sl. prefix q x)" using calc_prefix [OF ne] by simp
  also have "\<dots> \<longleftrightarrow> (\<forall>j < rg_End g - rg_Start g. prefix q (keys ! (rg_Start g + j)))"
    unfolding all_set_conv_all_nth len using nth by simp
  also have "\<dots> \<longleftrightarrow> (\<forall>i. rg_Start g \<le> i \<and> i < rg_End g \<longrightarrow> prefix q (keys ! i))"
  proof (intro iffI allI impI)
    fix i assume a: "\<forall>j < rg_End g - rg_Start g. prefix q (keys ! (rg_Start g + j))" and i: "rg_Start g \<le> i \<and> i < rg_End g"
    then have "i - rg_Start g < rg_End g - rg_Start g" "rg_Start g + (i - rg_Start g) = i" by linarith+
    then show "prefix q (keys ! i)" using a by metis
  next
    fix j assume a: "\<forall>i. rg_Start g \<le> i \<and> i < rg_End g \<longrightarrow> prefix q (keys ! i)" and j: "j < rg_End g - rg_Start g"
    then have "rg_Start g \<le> rg_Start g + j \<and> rg_Start g + j < rg_End g" by linarith
    then show "prefix q (keys ! (rg_Start g + j))" using a by blast
  qed
  finally show ?thesis .
qed

lemma sorted_ends:
  assumes "sorted keys" and "x \<in> set keys"
  shows "hd keys \<le> x \<and> x \<le> (last keys :: bytes)"
proof -
  obtain i where i: "i < length keys" "keys ! i = x" using assms(2) by (auto simp: in_set_conv_nth)
  then have "keys \<noteq> []" by auto
  then show ?thesis
    using sorted_nth_mono [OF assms(1), of 0 i] sorted_nth_mono [OF assms(1), of i "length keys - 1"] i by (simp add: hd_conv_nth last_conv_nth)
qed

lemma cpl_le: "commonPrefixLen a b \<le> length a"
  by (induction a b rule: commonPrefixLen.induct) auto

lemma prefix_snoc_nth: "prefix q x \<Longrightarrow> length q < length x \<Longrightarrow> prefix (q @ [x ! length q]) x"
  by (auto simp: prefix_def) (metis append_Cons append_Nil list.exhaust nth_append_length)

lemma samples_branch:
  assumes "sorted keys" and "prefix_free S" and "set keys \<subseteq> S" and "hd keys \<noteq> last keys" and d: "d = commonPrefixLen (hd keys) (last keys)"
    and x: "x \<in> set keys"
  shows "prefix (take d (hd keys)) x \<and> d < length x"
proof -
  let ?q = "take d (hd keys)"
  have ne: "keys \<noteq> []" using x by auto
  have len: "length ?q = d" using cpl_le [of "hd keys" "last keys"] by (simp add: d)
  have q: "prefix ?q (hd keys)" "prefix ?q (last keys)" using lcp_take [of ?q "hd keys" "last keys"] by (simp_all add: d)
  have px: "prefix ?q x" using prefix_sandwich [OF q] sorted_ends [OF assms(1) x] by simp
  have "d < length x"
  proof (rule ccontr)
    assume "\<not> d < length x"
    then have "x = ?q" using px len by (metis le_neq_implies_less not_less prefix_length_le prefix_length_less prefix_order.le_imp_less_or_eq)
    then have "prefix x (hd keys)" "prefix x (last keys)" using q by metis+
    moreover have "x \<in> S" "hd keys \<in> S" "last keys \<in> S" using assms(3) x ne by auto
    ultimately have "x = hd keys \<and> x = last keys" using assms(2) unfolding prefix_free_def by blast
    then show False using assms(4) by metis
  qed
  then show ?thesis using px by blast
qed

lemma group_branch:
  assumes srt: "sorted keys" and pf: "prefix_free S" "set keys \<subseteq> S" and ne: "hd keys \<noteq> last keys"
    and d: "d = commonPrefixLen (hd keys) (last keys)" and g: "is_group keys d g"
  shows "prefix (take d (hd keys) @ [keys ! rg_Start g ! d]) (rg_CommonPrefix g)"
  unfolding group_prefix [OF g]
proof (intro allI impI)
  fix i assume i: "rg_Start g \<le> i \<and> i < rg_End g"
  have b: "rg_Start g < rg_End g" "rg_End g \<le> length keys" "getByteAt (keys ! i) d = getByteAt (keys ! rg_Start g) d"
    using g i unfolding is_group_def by blast+
  have x: "prefix (take d (hd keys)) (keys ! i) \<and> d < length (keys ! i)"
    by (rule samples_branch [OF srt pf ne d nth_mem]) (use i b(2) in linarith)
  have y: "d < length (keys ! rg_Start g)"
    by (rule conjunct2 [OF samples_branch [OF srt pf ne d nth_mem]]) (use b(1,2) in linarith)
  have "keys ! i ! d = keys ! rg_Start g ! d" using b(3) x y by (simp add: getByteAt_def word_uint_eq_iff)
  moreover have "length (take d (hd keys)) = d" using cpl_le [of "hd keys" "last keys"] by (simp add: d)
  ultimately show "prefix (take d (hd keys) @ [keys ! rg_Start g ! d]) (keys ! i)"
    using prefix_snoc_nth [of "take d (hd keys)" "keys ! i"] x by simp
qed

lemma groups_differ:
  assumes srt: "sorted keys" and pf: "prefix_free S" "set keys \<subseteq> S" and ne: "hd keys \<noteq> last keys"
    and d: "d = commonPrefixLen (hd keys) (last keys)" and g: "is_group keys d g" and h: "is_group keys d h" and gh: "rg_End g \<le> rg_Start h"
  shows "keys ! rg_Start g ! d \<noteq> keys ! rg_Start h ! d"
proof -
  have b: "rg_Start g < rg_End g" "rg_Start h < length keys" "rg_End g < length keys"
    using g h gh unfolding is_group_def by linarith+
  have at: "getByteAt (keys ! i) d = uint (keys ! i ! d)" if "i < length keys" for i
    using samples_branch [OF srt pf ne d nth_mem [OF that]] by (simp add: getByteAt_def)
  have mono: "keys ! i ! d \<le> keys ! j ! d" if "i \<le> j" "j < length keys" for i j
  proof -
    have il: "i < length keys" and jl: "j < length keys" using that by simp_all
    have br: "prefix (take d (hd keys)) (keys ! k)" "d < length (keys ! k)" if "k < length keys" for k
      using samples_branch [OF srt pf ne d nth_mem [OF that]] by blast+
    have len: "length (take d (hd keys)) = d" using cpl_le [of "hd keys" "last keys"] by (simp add: d)
    obtain r where r: "keys ! i = (take d (hd keys) @ [keys ! i ! d]) @ r"
      using prefix_snoc_nth [OF br(1), of i] br(2) [of i] il len unfolding prefix_def by auto
    obtain r' where r': "keys ! j = (take d (hd keys) @ [keys ! j ! d]) @ r'"
      using prefix_snoc_nth [OF br(1), of j] br(2) [of j] jl len unfolding prefix_def by auto
    have "keys ! i \<le> keys ! j" using sorted_nth_mono [OF srt that] .
    then have "take d (hd keys) @ (keys ! i ! d) # r \<le> take d (hd keys) @ (keys ! j ! d) # r'" using r r' by (metis append.assoc append_Cons append_Nil)
    then show ?thesis unfolding append_le by auto
  qed
  have "rg_Start g \<le> rg_End g - 1 \<and> rg_End g - 1 < rg_End g" using b(1) by simp
  then have "getByteAt (keys ! (rg_End g - 1)) d = getByteAt (keys ! rg_Start g) d" using g unfolding is_group_def by blast
  moreover have "getByteAt (keys ! (rg_End g - 1)) d \<noteq> getByteAt (keys ! rg_End g) d" using g b(3) unfolding is_group_def by blast
  ultimately have "getByteAt (keys ! rg_Start g) d \<noteq> getByteAt (keys ! rg_End g) d" by simp
  then have "keys ! rg_Start g ! d \<noteq> keys ! rg_End g ! d" using at [of "rg_Start g"] at [OF b(3)] b by auto
  moreover have "keys ! rg_Start g ! d \<le> keys ! rg_End g ! d" "keys ! rg_End g ! d \<le> keys ! rg_Start h ! d"
    using mono [of "rg_Start g" "rg_End g"] mono [OF gh b(2)] b by simp_all
  ultimately show ?thesis by auto
qed

lemma chosen_separate:
  assumes srt: "sorted keys" and ne: "keys \<noteq> []" and pf: "prefix_free S" "set keys \<subseteq> S" and nm: "no_max S" and nil: "[] \<notin> set keys"
  shows "separate (map rg_CommonPrefix (chosen_groups keys))"
proof -
  define d where "d = commonPrefixLen (hd keys) (last keys)"
  have ch: "\<forall>g \<in> set (chosen_groups keys). is_group keys d g" "follow (chosen_groups keys)"
    using chosen_ok [OF ne] unfolding d_def by blast+
  have first: "prefix (rg_CommonPrefix g) (keys ! rg_Start g)" "keys ! rg_Start g \<in> set keys" if "is_group keys d g" for g
    using group_prefix [OF that, of "rg_CommonPrefix g"] that by (auto simp: is_group_def)
  have nonempty: "rg_CommonPrefix g \<noteq> []" if g: "is_group keys d g" for g
  proof (cases "hd keys = last keys")
    case True
    then have "keys ! i = hd keys" if "i < length keys" for i using sorted_ends [OF srt nth_mem [OF that]] True by (simp add: antisym)
    then have "prefix (hd keys) (rg_CommonPrefix g)" using g unfolding group_prefix [OF g] by (simp add: is_group_def)
    then show ?thesis using nil hd_in_set [OF ne] by auto
  next
    case False
    then show ?thesis using group_branch [OF srt pf False d_def g] by auto
  qed
  have last: "last (rg_CommonPrefix g) \<noteq> -1" if g: "is_group keys d g" for g
  proof -
    have "last (rg_CommonPrefix g) \<in> set (rg_CommonPrefix g)" using nonempty [OF g] by simp
    then have "last (rg_CommonPrefix g) \<in> set (keys ! rg_Start g)" using set_mono_prefix [OF first(1) [OF g]] by blast
    then show ?thesis using first(2) [OF g] pf(2) nm unfolding no_max_def by auto
  qed
  have order: "NextKeySameLength (rg_CommonPrefix g) \<le> rg_CommonPrefix h" if g: "is_group keys d g" and h: "is_group keys d h" and gh: "rg_End g \<le> rg_Start h" for g h
  proof -
    have hl: "hd keys \<noteq> last keys"
    proof
      assume "hd keys = last keys"
      then have "keys ! i = hd keys" if "i < length keys" for i using sorted_ends [OF srt nth_mem [OF that]] by (simp add: antisym)
      then show False using g h gh by (auto simp: is_group_def)
    qed
    let ?q = "take d (hd keys)"
    have p: "prefix (?q @ [keys ! rg_Start g ! d]) (rg_CommonPrefix g)" "prefix (?q @ [keys ! rg_Start h ! d]) (rg_CommonPrefix h)"
      using group_branch [OF srt pf hl d_def] g h by blast+
    have inc: "\<not> prefix (rg_CommonPrefix a) (rg_CommonPrefix b)"
      if "prefix (?q @ [x]) (rg_CommonPrefix a)" "prefix (?q @ [y]) (rg_CommonPrefix b)" "x \<noteq> y" for a b x y
      using that by (auto simp: prefix_def)
    have neq: "keys ! rg_Start g ! d \<noteq> keys ! rg_Start h ! d" by (rule groups_differ [OF srt pf hl d_def g h gh])
    have "keys ! rg_Start g \<le> keys ! rg_Start h" by (rule sorted_nth_mono [OF srt]) (use g h gh in \<open>auto simp: is_group_def\<close>)
    then have "rg_CommonPrefix g < rg_CommonPrefix h"
      using less_of_prefixes [OF first(1) [OF g] first(1) [OF h]] inc [OF p neq] inc [OF p(2,1) neq [symmetric]] by blast
    then show ?thesis using Next_above [OF nonempty [OF g] last [OF g]] inc [OF p neq] by blast
  qed
  have "sorted_wrt (\<lambda>g h. NextKeySameLength (rg_CommonPrefix g) \<le> rg_CommonPrefix h) (chosen_groups keys)"
    using ch(2) unfolding follow_def by (rule sorted_wrt_mono_rel [rotated]) (use ch(1) order in blast)
  then show ?thesis using ch(1) nonempty last by (simp add: separate_def sorted_wrt_map)
qed

text \<open>An empty sample is the only one: then there is one group, of the empty prefix.\<close>

lemma chosen_empty:
  assumes "keys \<noteq> []" and "set keys \<subseteq> {[]}"
  shows "map rg_CommonPrefix (chosen_groups keys) = [[]]"
proof -
  define d where "d = commonPrefixLen (hd keys) (last keys)"
  have ch: "\<forall>g \<in> set (chosen_groups keys). is_group keys d g" "follow (chosen_groups keys)" "chosen_groups keys \<noteq> []"
    using chosen_ok [OF assms(1)] unfolding d_def by blast+
  have all: "keys ! i = []" if "i < length keys" for i using nth_mem [OF that] assms(2) by blast
  have p: "rg_CommonPrefix g = []" if "is_group keys d g" for g
    using group_prefix [OF that, of "rg_CommonPrefix g"] that all by (auto simp: is_group_def)
  obtain g gs where gs: "chosen_groups keys = g # gs" using ch(3) by (cases "chosen_groups keys") auto
  have "gs = []"
  proof (rule ccontr)
    assume "gs \<noteq> []"
    then obtain h where h: "h \<in> set gs" by fastforce
    then have "rg_End g \<le> rg_Start h" "is_group keys d g" "is_group keys d h" using ch(1,2) by (auto simp: gs follow_def)
    then show False using all by (auto simp: is_group_def)
  qed
  then show ?thesis using p ch(1) by (simp add: gs)
qed

lemma prefix_free_nil: "prefix_free S \<Longrightarrow> [] \<in> S \<Longrightarrow> S = {[]}"
  unfolding prefix_free_def by fastforce

end
