(* ===== verification/HeatPool.thy ===== *)
theory HeatPool
  imports HeatTree
begin

text \<open>
  Who owns the slots of the statistics pool: every leaf of the heat tree has a slot of its
  own, the free list holds all others, and no operation looks up a slot that does not exist.
\<close>

section \<open>Slots\<close>

definition slots :: "'h heat_pool \<Rightarrow> int set" where
  "slots p = {i. getStats p i \<noteq> None}"

definition chunks_ok :: "'h heat_pool \<Rightarrow> bool" where
  "chunks_ok p \<longleftrightarrow> (\<forall>ch \<in> set (hp_StatsChunks p). length ch \<le> StatsChunkSize)"

text \<open>The slots in use are \<open>ids\<close>, one each, and the free ones are those of the free list.\<close>

definition owns :: "'h heat_pool \<Rightarrow> int list \<Rightarrow> bool" where
  "owns p ids \<longleftrightarrow> chunks_ok p \<and> distinct (ids @ hp_FreeList p) \<and> set ids \<union> set (hp_FreeList p) = slots p \<and>
     (\<forall>i s. getStats p i = Some s \<longrightarrow> rs_IsActive s = (i \<in> set ids))"

definition same_on :: "int set \<Rightarrow> 'h heat_pool \<Rightarrow> 'h heat_pool \<Rightarrow> bool" where
  "same_on I p p' \<longleftrightarrow> (\<forall>i \<in> I. getStats p' i = getStats p i)"

lemma same_on_refl [simp]: "same_on I p p"
  by (simp add: same_on_def)

lemma same_on_trans: "same_on I p q \<Longrightarrow> same_on I q r \<Longrightarrow> same_on I p r"
  by (simp add: same_on_def)

lemma same_on_mono: "same_on I p q \<Longrightarrow> J \<subseteq> I \<Longrightarrow> same_on J p q"
  by (auto simp: same_on_def)

lemma owns_perm: "owns p ids \<Longrightarrow> mset ids = mset ids' \<Longrightarrow> owns p ids'"
  unfolding owns_def using mset_eq_setD mset_eq_imp_distinct_iff by (metis mset_append)

lemma owns_slot: "owns p ids \<Longrightarrow> i \<in> set ids \<Longrightarrow> \<exists>s. getStats p i = Some s"
  by (auto simp: owns_def slots_def)

lemma slot_nonneg: "getStats p i = Some s \<Longrightarrow> 0 \<le> i"
  by (simp add: getStats_def Let_def split: if_splits)

lemma getStats_setStats:
  assumes "getStats p i = Some s0"
  shows "getStats (setStats p i s) j = (if j = i then Some s else getStats p j)"
proof -
  let ?n = StatsChunkSize
  have pos: "0 < ?n" by (simp add: StatsChunkSize_def)
  have i: "0 \<le> i" "nat i div ?n < length (hp_StatsChunks p)" "nat i mod ?n < length (hp_StatsChunks p ! (nat i div ?n))"
    using assms by (simp_all add: getStats_def Let_def split: if_splits)
  have eq: "nat j = nat i" if "nat j div ?n = nat i div ?n" "nat j mod ?n = nat i mod ?n"
    using that by (metis div_mult_mod_eq)
  show ?thesis
  proof (cases "j = i")
    case True
    then show ?thesis using i by (simp add: getStats_def setStats_def Let_def)
  next
    case False
    then have "0 \<le> j \<Longrightarrow> nat j div ?n \<noteq> nat i div ?n \<or> nat j mod ?n \<noteq> nat i mod ?n" using eq i(1) by fastforce
    then show ?thesis using False i by (auto simp: getStats_def setStats_def Let_def nth_list_update)
  qed
qed

lemma chunks_setStats:
  assumes "chunks_ok p" and "getStats p i = Some s0"
  shows "chunks_ok (setStats p i s)"
proof -
  have "nat i div StatsChunkSize < length (hp_StatsChunks p)" using assms(2) by (simp add: getStats_def Let_def split: if_splits)
  then have "length (hp_StatsChunks p ! (nat i div StatsChunkSize)) \<le> StatsChunkSize" using assms(1) by (simp add: chunks_ok_def)
  then show ?thesis using assms(1) by (auto simp: chunks_ok_def setStats_def Let_def dest: set_update_subset_insert [THEN subsetD])
qed

lemma free_setStats [simp]: "hp_FreeList (setStats p i s) = hp_FreeList p"
  by (simp add: setStats_def Let_def)

lemma owns_setStats:
  assumes "owns p ids" and "getStats p i = Some s0" and "rs_IsActive s = rs_IsActive s0"
  shows "owns (setStats p i s) ids"
proof -
  have "slots (setStats p i s) = slots p" using assms(2) by (auto simp: slots_def getStats_setStats)
  then show ?thesis using assms chunks_setStats by (auto simp: owns_def getStats_setStats split: if_splits)
qed

lemma same_setStats: "getStats p i = Some s0 \<Longrightarrow> i \<notin> I \<Longrightarrow> same_on I p (setStats p i s)"
  by (auto simp: same_on_def getStats_setStats)

lemma getStats_free [simp]: "getStats (p\<lparr>hp_FreeList := f\<rparr>) i = getStats p i"
  by (simp add: getStats_def Let_def)

lemma chunks_free [simp]: "chunks_ok (p\<lparr>hp_FreeList := f\<rparr>) = chunks_ok p"
  by (simp add: chunks_ok_def)

lemma AllocateStats_ok:
  assumes "owns p ids"
  shows "\<exists>p' sid s. AllocateStats ops p = Some (p', sid) \<and> owns p' (sid # ids) \<and> same_on (set ids) p p' \<and> sid \<notin> set ids \<and>
    getStats p' sid = Some s \<and> rs_WSuffixReservoir s = []"
proof (cases "hp_FreeList p = []")
  case False
  let ?sid = "last (hp_FreeList p)" and ?p1 = "p\<lparr>hp_FreeList := butlast (hp_FreeList p)\<rparr>"
  have free: "hp_FreeList p = butlast (hp_FreeList p) @ [?sid]" using False by simp
  have d: "distinct ids" "distinct (butlast (hp_FreeList p) @ [?sid])" "set ids \<inter> set (hp_FreeList p) = {}"
    using assms unfolding owns_def free [symmetric] by auto
  have sin: "?sid \<in> set (hp_FreeList p)" using False by simp
  obtain s0 where s0: "getStats p ?sid = Some s0" using assms sin unfolding owns_def slots_def by blast
  let ?s = "s0\<lparr>rs_IsActive := True, rs_WriteCount := 0, rs_EpochStartWrite := 0, rs_WindowStartWrite := 0,
      rs_CurrentHLL := hll_New14 ops, rs_OverwriteRation := 0, rs_WSuffixReservoir := []\<rparr>"
  let ?p' = "setStats ?p1 ?sid ?s"
  have s1: "getStats ?p1 ?sid = Some s0" by (simp add: s0)
  have get: "getStats ?p' j = (if j = ?sid then Some ?s else getStats p j)" for j by (simp add: getStats_setStats [OF s1])
  have nid: "?sid \<notin> set ids" using d(3) sin by blast
  have fs: "set (hp_FreeList p) = insert ?sid (set (butlast (hp_FreeList p)))" by (subst free) simp
  have "slots ?p' = slots p" using s0 by (auto simp: slots_def get)
  moreover have "chunks_ok ?p'" by (rule chunks_setStats [OF _ s1]) (use assms in \<open>simp add: owns_def\<close>)
  moreover have "rs_IsActive s = (i \<in> set (?sid # ids))" if "getStats ?p' i = Some s" for i s
    using that assms by (auto simp: get owns_def split: if_splits)
  moreover have "set (?sid # ids) \<union> set (butlast (hp_FreeList p)) = slots p" using assms fs by (auto simp: owns_def)
  moreover have "distinct ((?sid # ids) @ butlast (hp_FreeList p))" using d nid fs by auto
  ultimately have "owns ?p' (?sid # ids)" by (simp add: owns_def)
  moreover have "same_on (set ids) p ?p'" using nid by (auto simp: same_on_def get)
  moreover have "AllocateStats ops p = Some (?p', ?sid)" using False by (simp add: AllocateStats_def s0 Let_def)
  ultimately show ?thesis using nid get by (intro exI [of _ ?p'] exI [of _ ?sid] exI [of _ ?s]) simp
next
  case True
  let ?n = StatsChunkSize
  define chunks where "chunks = (if length (hp_StatsChunks p) = 0 \<or> length (last (hp_StatsChunks p)) = ?n then hp_StatsChunks p @ [[]] else hp_StatsChunks p)"
  define c where "c = length chunks - 1"
  define off where "off = length (chunks ! c)"
  let ?p' = "p\<lparr>hp_StatsChunks := chunks[c := chunks ! c @ [newStats ops]]\<rparr>" and ?sid = "int (c * ?n + off)"
  have pos: "0 < ?n" by (simp add: StatsChunkSize_def)
  have ch: "\<forall>ch \<in> set (hp_StatsChunks p). length ch \<le> ?n" using assms by (simp add: owns_def chunks_ok_def)
  have ne: "chunks \<noteq> []" by (auto simp: chunks_def)
  then have cl: "c < length chunks" "chunks ! c = last chunks" by (simp_all add: c_def last_conv_nth)
  have all: "\<forall>ch \<in> set chunks. length ch \<le> ?n" using ch by (auto simp: chunks_def)
  have off: "off < ?n"
  proof (cases "length (hp_StatsChunks p) = 0 \<or> length (last (hp_StatsChunks p)) = ?n")
    case True
    then have "last chunks = []" by (simp add: chunks_def)
    then show ?thesis using pos by (simp add: off_def cl)
  next
    case False
    then have "last chunks \<in> set (hp_StatsChunks p)" "length (last chunks) \<noteq> ?n" by (auto simp: chunks_def)
    then have "length (last chunks) < ?n" using ch by (intro le_neq_implies_less) auto
    then show ?thesis by (simp add: off_def cl)
  qed
  have dm: "(c * ?n + off) div ?n = c" "(c * ?n + off) mod ?n = off" using off pos by simp_all
  have old: "getStats p i = (if 0 \<le> i \<and> nat i div ?n < length chunks \<and> nat i mod ?n < length (chunks ! (nat i div ?n))
      then Some (chunks ! (nat i div ?n) ! (nat i mod ?n)) else None)" for i
    by (auto simp: getStats_def Let_def chunks_def nth_append)
  have new: "getStats ?p' i = (if i = ?sid then Some (newStats ops) else getStats p i)" for i
  proof (cases "i = ?sid")
    case True
    have "off = length (last chunks)" by (simp add: off_def cl)
    then show ?thesis using True cl off dm by (simp add: getStats_def Let_def del: of_nat_add of_nat_mult)
  next
    case False
    have d: "nat i div ?n = c \<Longrightarrow> 0 \<le> i \<Longrightarrow> nat i mod ?n \<noteq> off"
      using False by (metis div_mult_mod_eq nat_0_le of_nat_add)
    have "getStats ?p' i = (if 0 \<le> i \<and> nat i div ?n < length chunks \<and> nat i mod ?n < length (chunks[c := chunks ! c @ [newStats ops]] ! (nat i div ?n))
      then Some (chunks[c := chunks ! c @ [newStats ops]] ! (nat i div ?n) ! (nat i mod ?n)) else None)"
      by (simp add: getStats_def Let_def)
    also have "\<dots> = getStats p i"
    proof (cases "nat i div ?n = c")
      case True
      then show ?thesis using d cl unfolding old by (auto simp: nth_append off_def less_Suc_eq)
    next
      case False
      then show ?thesis unfolding old by simp
    qed
    finally show ?thesis using False by simp
  qed
  have none: "getStats p ?sid = None"
    unfolding old using dm by (simp add: off_def del: of_nat_add of_nat_mult)
  have nid: "?sid \<notin> set ids" using owns_slot [OF assms, of ?sid] none by (metis option.distinct(1))
  have "length (chunks ! c @ [newStats ops]) \<le> ?n" using off by (simp add: off_def)
  then have "chunks_ok ?p'" using all by (auto simp: chunks_ok_def dest!: set_update_subset_insert [THEN subsetD])
  moreover have "slots ?p' = insert ?sid (slots p)" by (auto simp: slots_def new)
  moreover have "rs_IsActive s = (i \<in> set (?sid # ids))" if s: "getStats ?p' i = Some s" for i s
  proof (cases "i = ?sid")
    case True
    then show ?thesis using s unfolding new by (auto simp: newStats_def)
  next
    case False
    then have "getStats p i = Some s" using s unfolding new by simp
    then have "rs_IsActive s = (i \<in> set ids)" using assms by (simp add: owns_def)
    then show ?thesis using False by simp
  qed
  ultimately have "owns ?p' (?sid # ids)" using assms nid True by (simp add: owns_def)
  moreover have "same_on (set ids) p ?p'" using nid by (auto simp: same_on_def new)
  moreover have "AllocateStats ops p = Some (?p', ?sid)"
    unfolding AllocateStats_def Let_def chunks_def [symmetric] c_def [symmetric] off_def [symmetric] using True by simp
  ultimately show ?thesis using nid new by (intro exI [of _ ?p'] exI [of _ ?sid] exI [of _ "newStats ops"]) (simp add: newStats_def)
qed

lemma FreeStats_ok:
  assumes "owns p (sid # ids)"
  shows "\<exists>p'. FreeStats p sid = Some p' \<and> owns p' ids \<and> same_on (set ids) p p'"
proof -
  obtain s0 where s0: "getStats p sid = Some s0" using owns_slot [OF assms] by auto
  let ?s = "s0\<lparr>rs_IsActive := False, rs_WSuffixReservoir := []\<rparr>"
  let ?p' = "(setStats p sid ?s)\<lparr>hp_FreeList := hp_FreeList p @ [sid]\<rparr>"
  have get: "getStats ?p' j = (if j = sid then Some ?s else getStats p j)" for j by (simp add: getStats_setStats [OF s0])
  have nid: "sid \<notin> set ids" using assms by (simp add: owns_def)
  have "slots ?p' = slots p" unfolding slots_def get using s0 by auto
  moreover have "chunks_ok ?p'" using chunks_setStats [OF _ s0] assms by (simp add: owns_def)
  moreover have "rs_IsActive s = (i \<in> set ids)" if "getStats ?p' i = Some s" for i s
    using that assms nid unfolding get by (auto simp: owns_def split: if_splits)
  moreover have "distinct (ids @ hp_FreeList p @ [sid])" using assms by (auto simp: owns_def)
  moreover have "set ids \<union> set (hp_FreeList p @ [sid]) = slots p" using assms by (auto simp: owns_def)
  ultimately have "owns ?p' ids" by (simp add: owns_def)
  moreover have "same_on (set ids) p ?p'" using nid unfolding same_on_def get by auto
  moreover have "FreeStats p sid = Some ?p'" by (simp add: FreeStats_def s0)
  ultimately show ?thesis by blast
qed

section \<open>Trees\<close>

fun leaf_ids :: "heat_tree \<Rightarrow> int list" where
  "leaf_ids (HeatNode n cs) = (if hn_IsLeaf n then [hn_StatsID n] else concat (map leaf_ids cs))"

text \<open>A leaf has no children and a slot with at most as many samples as it may keep.\<close>

fun tree_ok :: "'h heat_pool \<Rightarrow> heat_tree \<Rightarrow> bool" where
  "tree_ok p (HeatNode n cs) \<longleftrightarrow> (\<forall>c \<in> set cs. tree_ok p c) \<and>
     (if hn_IsLeaf n then cs = [] \<and> (\<exists>s. getStats p (hn_StatsID n) = Some s \<and> length (rs_WSuffixReservoir s) \<le> hn_ReservoirCap n)
      else cs \<noteq> [])"

lemma tree_ok_same: "same_on (set (leaf_ids t)) p p' \<Longrightarrow> tree_ok p t \<Longrightarrow> tree_ok p' t"
proof (induction t)
  case (HeatNode n cs)
  show ?case
  proof (cases "hn_IsLeaf n")
    case True
    then show ?thesis using HeatNode.prems by (simp add: same_on_def)
  next
    case False
    have "tree_ok p' c" if c: "c \<in> set cs" for c
      by (rule HeatNode.IH [OF c]) (use HeatNode.prems c False in \<open>auto simp: same_on_def\<close>)
    then show ?thesis using False HeatNode.prems by simp
  qed
qed

abbreviation forest_ids :: "heat_tree list \<Rightarrow> int list" where
  "forest_ids cs \<equiv> concat (map leaf_ids cs)"

lemma make_child_ok:
  assumes "owns p ids" and mk: "make_child ops level stats father p ratio lo hi start fin pre = Some (p', c)"
  shows "owns p' (leaf_ids c @ ids) \<and> same_on (set ids) p p' \<and> tree_ok p' c"
proof -
  obtain p1 sid s where a: "AllocateStats ops p = Some (p1, sid)" "owns p1 (sid # ids)" "same_on (set ids) p p1" "sid \<notin> set ids"
      "getStats p1 sid = Some s" "rs_WSuffixReservoir s = []"
    using AllocateStats_ok [OF assms(1), of ops] by (elim exE conjE) (rule that, assumption+)
  have cap: "length (take_samples k l keys res) \<le> k" if "length res \<le> k" for k l keys res
    using that by (induction k l keys res rule: take_samples.induct) auto
  obtain s' where c: "c = newHeatNode level start fin pre sid" and p': "p' = setStats p1 sid s'" and s': "rs_IsActive s' = rs_IsActive s"
      "length (rs_WSuffixReservoir s') \<le> reservoir_cap level"
    using mk a(1,5,6) cap [of "[]"] by (auto simp: make_child_def Let_def split: if_splits)
  have "owns p' (sid # ids)" unfolding p' by (rule owns_setStats [OF a(2,5) s'(1)])
  moreover have "same_on (set ids) p p'" unfolding p' using same_on_trans [OF a(3) same_setStats [OF a(5) a(4)]] .
  moreover have "tree_ok p' c" using s'(2) by (simp add: c p' newHeatNode_def getStats_setStats [OF a(5)])
  ultimately show ?thesis by (simp add: c newHeatNode_def)
qed

text \<open>What a step on part of the tree keeps: the rest of the leaves and their statistics.\<close>

definition keeps :: "'h heat_pool \<Rightarrow> 'h heat_pool \<Rightarrow> heat_tree list \<Rightarrow> int list \<Rightarrow> bool" where
  "keeps p p' cs ids \<longleftrightarrow> owns p' (forest_ids cs @ ids) \<and> same_on (set ids) p p' \<and> (\<forall>c \<in> set cs. tree_ok p' c)"

lemma keeps_add:
  assumes k: "keeps p p1 cs ids" and mk: "make_child ops level stats father p1 ratio lo hi start fin pre = Some (p2, c)"
  shows "keeps p p2 (cs @ [c]) ids"
proof -
  have m: "owns p2 (leaf_ids c @ forest_ids cs @ ids)" "same_on (set (forest_ids cs @ ids)) p1 p2" "tree_ok p2 c"
    using make_child_ok [OF _ mk, of "forest_ids cs @ ids"] k by (simp_all add: keeps_def)
  have "tree_ok p2 d" if "d \<in> set cs" for d
    by (rule tree_ok_same [of d p1]) (use m(2) k that in \<open>auto simp: keeps_def same_on_def\<close>)
  moreover have "owns p2 (forest_ids (cs @ [c]) @ ids)" by (rule owns_perm [OF m(1)]) simp
  moreover have "same_on (set ids) p p2" using k m(2) by (auto simp: keeps_def same_on_def)
  ultimately show ?thesis using m(3) by (auto simp: keeps_def)
qed

lemma split_groups_keeps:
  "split_groups ops node stats father front gs lastW p1 cs keys = Some (p2, cs2, keys2) \<Longrightarrow> keeps p p1 cs ids \<Longrightarrow>
    keeps p p2 cs2 ids \<and> (gs = [] \<and> cs2 = cs \<or> cs2 \<noteq> [])"
proof (induction gs arbitrary: front lastW p1 cs keys)
  case (Cons g gs)
  obtain p3 cs3 keys3 last3 where one: "keeps p p3 cs3 ids"
      and r: "(let (ratio2, cur2) = CalculateRangeRatio last3 (NextKeySameLength (rg_CommonPrefix g)) (rs_WSuffixReservoir stats)
        in Option.bind (make_child ops (hn_Level node + 1) stats father p3 ratio2 last3 cur2 (rg_CommonPrefix g) (NextKeySameLength (rg_CommonPrefix g)) (rg_CommonPrefix g))
         (\<lambda>(p4, child2).
          let after = (case gs of [] \<Rightarrow> (if length (hn_PathSegment node) = 0 then hn_RangeEnd node else []) | h # _ \<Rightarrow> rg_CommonPrefix h)
          in if CompareKey after (NextKeySameLength (rg_CommonPrefix g)) \<noteq> 0 then
            (let (ratio3, cur3) = CalculateRangeRatio cur2 after (rs_WSuffixReservoir stats)
             in Option.bind (make_child ops (hn_Level node + 1) stats father p4 ratio3 cur2 cur3 (NextKeySameLength (rg_CommonPrefix g)) after [])
              (\<lambda>(p5, child3). split_groups ops node stats father False gs cur3 p5 ((cs3 @ [child2]) @ [child3])
                (if gs = [] then keys3 @ [NextKeySameLength (rg_CommonPrefix g)] else (keys3 @ [NextKeySameLength (rg_CommonPrefix g)]) @ [after])))
          else split_groups ops node stats father False gs cur2 p4 (cs3 @ [child2]) (keys3 @ [NextKeySameLength (rg_CommonPrefix g)]))) = Some (p2, cs2, keys2)"
  proof (cases front)
    case True
    obtain ratio cur where c: "CalculateRangeRatio lastW (rg_CommonPrefix g) (rs_WSuffixReservoir stats) = (ratio, cur)" by fastforce
    obtain p3 child where m: "make_child ops (hn_Level node + 1) stats father p1 ratio lastW cur
        (if length (hn_PathSegment node) = 0 then hn_RangeStart node else []) (rg_CommonPrefix g) [] = Some (p3, child)"
      using Cons.prems(1) True c by (cases "make_child ops (hn_Level node + 1) stats father p1 ratio lastW cur
        (if length (hn_PathSegment node) = 0 then hn_RangeStart node else []) (rg_CommonPrefix g) []") (simp_all add: Let_def, fastforce)
    show ?thesis using Cons.prems(1) True c m by (intro that [OF keeps_add [OF Cons.prems(2) m]]) (simp add: Let_def)
  next
    case False
    then show ?thesis using Cons.prems(1) by (intro that [OF Cons.prems(2)]) (simp add: Let_def)
  qed
  obtain ratio2 cur2 where c2: "CalculateRangeRatio last3 (NextKeySameLength (rg_CommonPrefix g)) (rs_WSuffixReservoir stats) = (ratio2, cur2)" by fastforce
  define after where "after = (case gs of [] \<Rightarrow> (if length (hn_PathSegment node) = 0 then hn_RangeEnd node else []) | h # _ \<Rightarrow> rg_CommonPrefix h)"
  obtain ratio3 cur3 where c3: "CalculateRangeRatio cur2 after (rs_WSuffixReservoir stats) = (ratio3, cur3)" by fastforce
  note r = r [folded after_def, unfolded Let_def c2 c3 prod.case]
  obtain p4 child2 where m2: "make_child ops (hn_Level node + 1) stats father p3 ratio2 last3 cur2 (rg_CommonPrefix g) (NextKeySameLength (rg_CommonPrefix g)) (rg_CommonPrefix g) = Some (p4, child2)"
    using r by (auto simp: bind_eq_Some_conv)
  note k2 = keeps_add [OF one m2]
  show ?case
  proof (cases "CompareKey after (NextKeySameLength (rg_CommonPrefix g)) \<noteq> 0")
    case True
    obtain p5 child3 where m3: "make_child ops (hn_Level node + 1) stats father p4 ratio3 cur2 cur3 (NextKeySameLength (rg_CommonPrefix g)) after [] = Some (p5, child3)"
      using r m2 True by (auto simp: bind_eq_Some_conv)
    show ?thesis using Cons.IH [OF _ keeps_add [OF k2 m3]] r m2 m3 True by auto
  next
    case False
    then show ?thesis using Cons.IH [OF _ k2] r m2 by auto
  qed
qed simp

lemma set_keeps:
  assumes "owns p (sid # ids)" and "getStats p sid = Some s0" and "rs_IsActive s = rs_IsActive s0"
  shows "owns (setStats p sid s) (sid # ids) \<and> same_on (set ids) p (setStats p sid s) \<and> getStats (setStats p sid s) sid = Some s"
  using owns_setStats [OF assms] same_setStats [OF assms(2), of "set ids"] getStats_setStats [OF assms(2)] assms(1) by (simp add: owns_def)

definition step_ok :: "'h heat_pool \<Rightarrow> 'h heat_pool \<Rightarrow> heat_tree \<Rightarrow> int list \<Rightarrow> bool" where
  "step_ok p p' t ids \<longleftrightarrow> owns p' (leaf_ids t @ ids) \<and> same_on (set ids) p p' \<and> tree_ok p' t"

lemma length_go_sort [simp]: "length (go_sort lt xs) = length xs"
  by (metis mset_go_sort size_mset)

lemma Evolve_ok:
  assumes own: "owns p (hn_StatsID n # ids)" and s0: "getStats p (hn_StatsID n) = Some s0"
    and cap: "length (rs_WSuffixReservoir s0) \<le> hn_ReservoirCap n" and leaf: "hn_IsLeaf n" and ev: "Evolve ops p n = Some (p', t)"
  shows "step_ok p p' t ids"
proof -
  let ?sid = "hn_StatsID n"
  let ?s = "s0\<lparr>rs_WSuffixReservoir := go_sort (\<lambda>a b. bytes_compare a b < 0) (rs_WSuffixReservoir s0)\<rparr>"
  let ?p1 = "setStats p ?sid ?s"
  let ?gs = "go_sort (\<lambda>a b. rg_Start a < rg_Start b) (FindTopNPrefixGroups (rs_WSuffixReservoir ?s))"
  have p1: "owns ?p1 (?sid # ids)" "same_on (set ids) p ?p1" "getStats ?p1 ?sid = Some ?s"
    using set_keeps [OF own s0, of ?s] by simp_all
  have k0: "keeps ?p1 ?p1 [] (?sid # ids)" using p1 by (simp add: keeps_def)
  obtain p2 cs keys where sp: "splitReservoir ops n ?s ?gs ?p1 = Some (p2, cs, keys)"
    using ev s0 by (auto simp: Evolve_def Let_def bind_eq_Some_conv)
  have k: "keeps ?p1 p2 cs (?sid # ids)"
    using split_groups_keeps [OF sp [unfolded splitReservoir_def] k0] by blast
  have s2: "getStats p2 ?sid = Some ?s" using k p1(3) by (simp add: keeps_def same_on_def)
  show ?thesis
  proof (cases "cs = []")
    case True
    then have "p' = p2" "t = HeatNode (n\<lparr>hn_SplitThreshold := hn_SplitThreshold n * 2\<rparr>) []"
      using ev s0 sp by (simp_all add: Evolve_def Let_def)
    moreover have "tree_ok p2 (HeatNode (n\<lparr>hn_SplitThreshold := hn_SplitThreshold n * 2\<rparr>) [])" using s2 cap leaf by simp
    moreover have "owns p2 (?sid # ids)" "same_on (set ids) p p2"
      using k True same_on_trans [OF p1(2) same_on_mono] by (auto simp: keeps_def)
    ultimately show ?thesis using leaf by (simp add: step_ok_def)
  next
    case False
    have "owns p2 (?sid # forest_ids cs @ ids)" by (rule owns_perm [of _ "forest_ids cs @ ?sid # ids"]) (use k in \<open>simp_all add: keeps_def\<close>)
    then obtain p3 where p3: "FreeStats p2 ?sid = Some p3" "owns p3 (forest_ids cs @ ids)" "same_on (set (forest_ids cs @ ids)) p2 p3"
      using FreeStats_ok by blast
    then have r: "p' = p3" "t = HeatNode (n\<lparr>hn_IsLeaf := False, hn_SplitRangeKey := keys, hn_StatsID := -1\<rparr>) cs"
      using ev s0 sp False by (simp_all add: Evolve_def Let_def)
    have "tree_ok p3 c" if "c \<in> set cs" for c
      by (rule tree_ok_same [of c p2]) (use p3(3) k that in \<open>auto simp: keeps_def same_on_def\<close>)
    then show ?thesis using p3 k p1(2) False by (auto simp: r step_ok_def keeps_def same_on_def)
  qed
qed

lemma AddSample_ok:
  assumes own: "owns p (leaf_ids (HeatNode n cs) @ ids)" and ok: "tree_ok p (HeatNode n cs)" and leaf: "hn_IsLeaf n"
    and ev: "AddSample ops rand key isRead p n cs = Some (p', t)"
  shows "step_ok p p' t ids"
proof (cases "isRead \<or> hn_StatsID n = -1")
  case True
  then show ?thesis using ev own ok by (auto simp: AddSample_def step_ok_def split: if_splits)
next
  case False
  let ?sid = "hn_StatsID n"
  obtain s0 where s0: "getStats p ?sid = Some s0" "length (rs_WSuffixReservoir s0) \<le> hn_ReservoirCap n" and cs: "cs = []"
    using ok leaf by auto
  have own': "owns p (?sid # ids)" using own leaf by simp
  let ?s1 = "s0\<lparr>rs_WriteCount := rs_WriteCount s0 + 1, rs_CurrentHLL := hll_Insert ops key (rs_CurrentHLL s0)\<rparr>"
  show ?thesis
  proof (cases "length (rs_WSuffixReservoir s0) < hn_ReservoirCap n")
    case True
    let ?s2 = "?s1\<lparr>rs_WSuffixReservoir := rs_WSuffixReservoir s0 @ [key]\<rparr>"
    have "p' = setStats p ?sid ?s2" "t = HeatNode n []" using ev False True s0 leaf cs by (simp_all add: AddSample_def Let_def)
    then show ?thesis using set_keeps [OF own' s0(1), of ?s2] True leaf by (simp add: step_ok_def)
  next
    case full: False
    let ?r = "rand (rs_WriteCount s0 + 1)"
    define s2 where "s2 = (if ?r < of_nat (hn_ReservoirCap n) then ?s1\<lparr>rs_WSuffixReservoir := (rs_WSuffixReservoir s0)[unat ?r := key]\<rparr> else ?s1)"
    define p1 where "p1 = setStats p ?sid s2"
    have s2: "rs_IsActive s2 = rs_IsActive s0" "length (rs_WSuffixReservoir s2) \<le> hn_ReservoirCap n" using s0(2) by (simp_all add: s2_def)
    have p1: "owns p1 (?sid # ids)" "same_on (set ids) p p1" "getStats p1 ?sid = Some s2"
      using set_keeps [OF own' s0(1) s2(1)] by (simp_all add: p1_def)
    have st: "step_ok p p1 (HeatNode (n\<lparr>hn_SplitThreshold := d\<rparr>) []) ids" for d using p1 s2 leaf by (simp add: step_ok_def)
    have res: "AddSample ops rand key isRead p n cs = (if (word_of_int (hn_SplitThreshold n) :: u32) < rs_WriteCount s2 \<and> hn_ReservoirCap n \<le> length (rs_WSuffixReservoir s2) then
            (if rnd (85 / 100) \<le> rs_OverwriteRation s2 then Some (p1, HeatNode (n\<lparr>hn_SplitThreshold := hn_SplitThreshold n * 2\<rparr>) cs)
             else Evolve ops p1 n) else Some (p1, HeatNode n cs))"
      using False full s0 leaf by (simp add: AddSample_def Let_def s2_def p1_def)
    have st0: "step_ok p p1 (HeatNode n []) ids" using st [of "hn_SplitThreshold n"] by simp
    have one: "(p', t) = q \<Longrightarrow> q \<in> {(p1, HeatNode (n\<lparr>hn_SplitThreshold := hn_SplitThreshold n * 2\<rparr>) []), (p1, HeatNode n [])} \<Longrightarrow> ?thesis" for q
      using st st0 by (elim insertE emptyE) (simp_all only: prod.inject)
    have two: "Evolve ops p1 n = Some (p', t) \<Longrightarrow> ?thesis"
    proof -
      assume "Evolve ops p1 n = Some (p', t)"
      then have "step_ok p1 p' t ids" by (rule Evolve_ok [OF p1(1,3) s2(2) leaf])
      then show ?thesis using same_on_trans [OF p1(2)] by (simp add: step_ok_def)
    qed
    show ?thesis
    proof (cases "(word_of_int (hn_SplitThreshold n) :: u32) < rs_WriteCount s2 \<and> hn_ReservoirCap n \<le> length (rs_WSuffixReservoir s2)")
      case True
      show ?thesis
      proof (cases "rnd (85 / 100) \<le> rs_OverwriteRation s2")
        case hot: True
        show ?thesis using ev [unfolded res if_P [OF True] if_P [OF hot], unfolded cs] one by simp
      next
        case False
        show ?thesis using ev [unfolded res if_P [OF True] if_not_P [OF False]] by (rule two)
      qed
    next
      case False
      show ?thesis using ev [unfolded res if_not_P [OF False], unfolded cs] one by simp
    qed
  qed
qed

lemma SearchLeaf_ok:
  "SearchLeaf ops rand key isRead p t = Some (p', t', b) \<Longrightarrow> owns p (leaf_ids t @ ids) \<Longrightarrow> tree_ok p t \<Longrightarrow> step_ok p p' t' ids"
proof (induction ops rand key isRead p t arbitrary: p' t' b ids rule: SearchLeaf.induct)
  case (1 ops rand key isRead p n cs)
  let ?rest = "drop (length (hn_PathSegment n)) key"
  let ?idx = "route (hn_SplitRangeKey n) (length cs) ?rest"
  consider "\<not> has_prefix key (hn_PathSegment n)" | "has_prefix key (hn_PathSegment n)" "hn_IsLeaf n"
    | "has_prefix key (hn_PathSegment n)" "\<not> hn_IsLeaf n" by blast
  then show ?case
  proof cases
    case 1
    then show ?thesis using "1.prems" by (simp add: SearchLeaf.simps step_ok_def)
  next
    case 2
    then have "AddSample ops rand ?rest isRead p n cs = Some (p', t')" using "1.prems"(1) by (auto simp: SearchLeaf.simps Let_def)
    then show ?thesis using AddSample_ok [OF "1.prems"(2,3) 2(2)] by blast
  next
    case 3
    have i: "0 \<le> ?idx \<and> nat ?idx < length cs" using "1.prems"(1) 3 by (auto simp: SearchLeaf.simps Let_def split: if_splits)
    let ?k = "nat ?idx" and ?c = "cs ! nat ?idx"
    obtain c' where c: "SearchLeaf ops rand ?rest isRead p ?c = Some (p', c', b)" "t' = HeatNode n (cs[?k := c'])"
      using "1.prems"(1) 3 i by (auto simp: SearchLeaf.simps [of _ _ _ _ _ n] Let_def)
    define ls rs where "ls = take ?k cs" and "rs = drop (Suc ?k) cs"
    have cs: "cs = ls @ ?c # rs" using i by (simp add: ls_def rs_def id_take_nth_drop)
    have upd: "cs[?k := c'] = ls @ c' # rs" using i by (simp add: ls_def rs_def upd_conv_take_nth_drop)
    let ?ids = "forest_ids ls @ forest_ids rs @ ids"
    have "owns p (leaf_ids ?c @ ?ids)"
      by (rule owns_perm [OF "1.prems"(2)]) (use 3 in \<open>simp, subst cs, simp\<close>)
    moreover have "tree_ok p ?c" using "1.prems"(3) i by simp
    ultimately have st: "step_ok p p' c' ?ids" using "1.IH" [OF _ refl _ refl i c(1)] 3 by simp
    have "owns p' (leaf_ids t' @ ids)"
      by (rule owns_perm [of _ "leaf_ids c' @ ?ids"]) (use st 3 in \<open>simp_all add: step_ok_def c(2) upd\<close>)
    moreover have "tree_ok p' d" if d: "d \<in> set ls \<union> set rs" for d
      by (rule tree_ok_same [of d p]) (use st d "1.prems"(3) in \<open>auto simp: step_ok_def same_on_def ls_def rs_def dest: in_set_takeD in_set_dropD\<close>)
    ultimately show ?thesis using st 3 by (auto simp: step_ok_def c(2) upd same_on_def)
  qed
qed

section \<open>Epochs\<close>

lemma settle_same: "rs_IsActive (fst (settle_leaf ops n s)) = rs_IsActive s" "rs_WSuffixReservoir (fst (settle_leaf ops n s)) = rs_WSuffixReservoir s"
  by (simp_all add: settle_leaf_def Let_def)

lemma leaf_slot: "tree_ok p t \<Longrightarrow> hn_IsLeaf (root_of t) \<Longrightarrow>
    \<exists>s. getStats p (hn_StatsID (root_of t)) = Some s \<and> leaf_ids t = [hn_StatsID (root_of t)] \<and> hn_StatsID (root_of t) \<noteq> -1"
  using slot_nonneg by (cases t) force

lemma prune_sums_ok:
  "\<forall>c \<in> set cs. tree_ok p c \<Longrightarrow>
    \<exists>b r w. prune_sums p cs acc r0 w0 = Some (b, r, w) \<and> (b \<longrightarrow> acc \<and> (\<forall>c \<in> set cs. hn_IsLeaf (root_of c)))"
proof (induction cs arbitrary: r0 w0)
  case (Cons c cs)
  then show ?case using leaf_slot [of p c] by (cases "hn_IsLeaf (root_of c)") auto
qed simp

lemma free_children_ok:
  "owns p (forest_ids cs @ ids) \<Longrightarrow> \<forall>c \<in> set cs. tree_ok p c \<and> hn_IsLeaf (root_of c) \<Longrightarrow>
    \<exists>p'. free_children p cs = Some p' \<and> owns p' ids \<and> same_on (set ids) p p'"
proof (induction cs arbitrary: p)
  case (Cons c cs)
  let ?sid = "hn_StatsID (root_of c)"
  have c: "leaf_ids c = [?sid]" "?sid \<noteq> -1" using leaf_slot [of p c] Cons.prems(2) by auto
  obtain p1 where p1: "FreeStats p ?sid = Some p1" "owns p1 (forest_ids cs @ ids)" "same_on (set (forest_ids cs @ ids)) p p1"
    using FreeStats_ok [of p ?sid "forest_ids cs @ ids"] Cons.prems(1) c(1) by auto
  have "tree_ok p1 d" if "d \<in> set cs" for d
    by (rule tree_ok_same [of d p]) (use p1(3) Cons.prems(2) that in \<open>auto simp: same_on_def\<close>)
  then obtain p2 where "free_children p1 cs = Some p2" "owns p2 ids" "same_on (set ids) p1 p2"
    using Cons.IH [OF p1(2)] Cons.prems(2) by auto
  then show ?case using p1 c(2) by (auto simp: same_on_def)
qed simp

lemma prune_node_ok:
  assumes own: "owns p (forest_ids cs @ ids)" and ok: "\<forall>c \<in> set cs. tree_ok p c" and n: "\<not> hn_IsLeaf n" "cs \<noteq> []"
  shows "\<exists>p' t. prune_node ops p n cs = Some (p', t) \<and> step_ok p p' t ids"
proof -
  obtain b r w where sums: "prune_sums p cs True 0 0 = Some (b, r, w)" "b \<longrightarrow> (\<forall>c \<in> set cs. hn_IsLeaf (root_of c))"
    using prune_sums_ok [OF ok, of True 0 0] by auto
  show ?thesis
  proof (cases "b \<and> r < rnd (1 / 10) \<and> w < 100")
    case False
    have "prune_node ops p n cs = Some (p, HeatNode n cs)" by (simp add: prune_node_def sums(1)) (use False in blast)
    then show ?thesis using own ok n by (simp add: step_ok_def)
  next
    case True
    obtain p1 where p1: "free_children p cs = Some p1" "owns p1 ids" "same_on (set ids) p p1"
      using free_children_ok [OF own] ok sums(2) True by blast
    obtain p2 sid s where p2: "AllocateStats ops p1 = Some (p2, sid)" "owns p2 (sid # ids)" "same_on (set ids) p1 p2" "sid \<notin> set ids"
        "getStats p2 sid = Some s" "rs_WSuffixReservoir s = []"
      using AllocateStats_ok [OF p1(2), of ops] by (elim exE conjE) (rule that, assumption+)
    let ?p3 = "setStats p2 sid (s\<lparr>rs_OverwriteRation := 0\<rparr>)"
    let ?t = "HeatNode (n\<lparr>hn_IsLeaf := True, hn_SplitRangeKey := [], hn_StatsID := sid\<rparr>) []"
    have k: "owns ?p3 (sid # ids)" "same_on (set ids) p2 ?p3" "getStats ?p3 sid = Some (s\<lparr>rs_OverwriteRation := 0\<rparr>)"
      using set_keeps [OF p2(2,5), of "s\<lparr>rs_OverwriteRation := 0\<rparr>"] by simp_all
    have "prune_node ops p n cs = Some (?p3, ?t)" using True sums(1) p1(1) p2(1,5) by (simp add: prune_node_def)
    moreover have "step_ok p ?p3 ?t ids"
      using k p2(6) same_on_trans [OF p1(3) same_on_trans [OF p2(3) k(2)]] by (simp add: step_ok_def)
    ultimately show ?thesis by blast
  qed
qed

lemma traverse_ok:
  "owns p (leaf_ids t @ ids) \<Longrightarrow> tree_ok p t \<Longrightarrow>
    \<exists>p' cs' v' t'. traverse ops pre a b p cands vol t = Some (p', cs', v', t') \<and> step_ok p p' t' ids"
  "owns p (forest_ids ts @ ids) \<Longrightarrow> \<forall>t \<in> set ts. tree_ok p t \<Longrightarrow>
    \<exists>p' cs' v' ts'. traverse_all ops pre a b p cands vol ts = Some (p', cs', v', ts') \<and> keeps p p' ts' ids \<and> (ts' = [] \<longleftrightarrow> ts = [])"
proof (induction ops pre a b p cands vol t and ops pre a b p cands vol ts arbitrary: ids and ids rule: traverse_traverse_all.induct)
  case (1 ops pre a b p cands vol n cs)
  show ?case
  proof (cases "hn_IsLeaf n")
    case True
    let ?sid = "hn_StatsID n"
    obtain s0 where s0: "getStats p ?sid = Some s0" "length (rs_WSuffixReservoir s0) \<le> hn_ReservoirCap n" and cs: "cs = []"
      using "1.prems"(2) True by auto
    have ne: "?sid \<noteq> -1" using slot_nonneg [OF s0(1)] by simp
    obtain s v where sv: "settle_leaf ops n s0 = (s, v)" by fastforce
    have s: "rs_IsActive s = rs_IsActive s0" "rs_WSuffixReservoir s = rs_WSuffixReservoir s0" using settle_same [of ops n s0] by (simp_all add: sv)
    have own: "owns p (?sid # ids)" using "1.prems"(1) True by simp
    have "step_ok p (setStats p ?sid s) (HeatNode n cs) ids"
      using set_keeps [OF own s0(1) s(1)] s0(2) s(2) True cs by (simp add: step_ok_def)
    then show ?thesis using True ne s0(1) sv by (simp add: Let_def)
  next
    case False
    have own: "owns p (forest_ids cs @ ids)" and ok: "\<forall>c \<in> set cs. tree_ok p c" and ne: "cs \<noteq> []"
      using "1.prems" False by simp_all
    obtain p1 cands1 vol1 cs1 where tr: "traverse_all ops (pre @ hn_PathSegment n)
        (if 0 < length (hn_RangeStart n) then pre @ hn_RangeStart n else a) (if 0 < length (hn_RangeEnd n) then pre @ hn_RangeEnd n else b)
        p cands vol cs = Some (p1, cands1, vol1, cs1)" "keeps p p1 cs1 ids" "cs1 \<noteq> []"
      using "1.IH" [OF refl refl refl False own ok] ne by auto
    obtain p2 t where pr: "prune_node ops p1 n cs1 = Some (p2, t)" "step_ok p1 p2 t ids"
      using prune_node_ok [of p1 cs1 ids n ops] tr(2,3) False by (auto simp: keeps_def)
    have "step_ok p p2 t ids" using pr(2) tr(2) same_on_trans by (auto simp: step_ok_def keeps_def)
    then show ?thesis using False tr(1) pr(1) by (simp add: Let_def)
  qed
next
  case (2 ops pre a b p cands vol)
  then show ?case by (simp add: keeps_def)
next
  case (3 ops pre a b p cands vol c cs)
  obtain p1 cands1 vol1 c1 where c1: "traverse ops pre a b p cands vol c = Some (p1, cands1, vol1, c1)" "step_ok p p1 c1 (forest_ids cs @ ids)"
    using "3.IH"(1) [of "forest_ids cs @ ids"] "3.prems" by auto
  have own: "owns p1 (forest_ids cs @ leaf_ids c1 @ ids)"
    by (rule owns_perm [of _ "leaf_ids c1 @ forest_ids cs @ ids"]) (use c1(2) in \<open>simp_all add: step_ok_def\<close>)
  have ok: "\<forall>d \<in> set cs. tree_ok p1 d"
  proof
    fix d assume d: "d \<in> set cs"
    show "tree_ok p1 d" by (rule tree_ok_same [of d p]) (use c1(2) d "3.prems"(2) in \<open>auto simp: step_ok_def same_on_def\<close>)
  qed
  obtain p2 cands2 vol2 cs2 where cs2: "traverse_all ops pre a b p1 cands1 vol1 cs = Some (p2, cands2, vol2, cs2)" "keeps p1 p2 cs2 (leaf_ids c1 @ ids)"
    using "3.IH"(2) [OF c1(1) refl refl refl own ok] by auto
  have "owns p2 (forest_ids (c1 # cs2) @ ids)"
    by (rule owns_perm [of _ "forest_ids cs2 @ leaf_ids c1 @ ids"]) (use cs2(2) in \<open>simp_all add: keeps_def\<close>)
  moreover have "tree_ok p2 c1" by (rule tree_ok_same [of c1 p1]) (use cs2(2) c1(2) in \<open>auto simp: keeps_def step_ok_def same_on_def\<close>)
  ultimately have "keeps p p2 (c1 # cs2) ids" using cs2(2) c1(2) by (auto simp: keeps_def step_ok_def same_on_def)
  then show ?case using c1(1) cs2(1) by simp
qed

section \<open>Runs of the manager\<close>

text \<open>
  The steps: a write is queued, the background goroutine takes a sample, a memtable is flushed, a
  decay that was started runs. A panic has no step.
\<close>

inductive heat_step :: "'h hll_ops \<Rightarrow> 'h heat_manager \<Rightarrow> 'h heat_manager \<Rightarrow> bool" for ops where
  queue_write: "heat_step ops m (RecordWriteAsync key m)"
| take_sample: "process_sample ops rand m = Some m' \<Longrightarrow> heat_step ops m m'"
| flush: "heat_step ops m (fst (OnMemtableFlush m))"
| decay: "hm_isDecaying m \<Longrightarrow> finish_decay ops m = Some m' \<Longrightarrow> heat_step ops m m'"

inductive heat_reach :: "'h hll_ops \<Rightarrow> 'h heat_manager \<Rightarrow> bool" for ops where
  start: "NewHeatmapManager ops = Some m \<Longrightarrow> heat_reach ops m"
| step: "heat_reach ops m \<Longrightarrow> heat_step ops m m' \<Longrightarrow> heat_reach ops m'"

definition heat_ok :: "'h heat_manager \<Rightarrow> bool" where
  "heat_ok m \<longleftrightarrow> owns (hm_pool m) (leaf_ids (hm_MotherTree m)) \<and> tree_ok (hm_pool m) (hm_MotherTree m)"

lemma heat_start: "\<exists>m. NewHeatmapManager ops = Some m \<and> heat_ok m"
proof -
  let ?p = "\<lparr>hp_StatsChunks = [], hp_FreeList = []\<rparr> :: 'a heat_pool"
  have "owns ?p []" by (simp add: owns_def chunks_ok_def slots_def getStats_def Let_def)
  then obtain p' sid s where p: "AllocateStats ops ?p = Some (p', sid)" "owns p' [sid]" "getStats p' sid = Some s" "rs_WSuffixReservoir s = []"
    using AllocateStats_ok [of ?p "[]" ops] by auto
  then show ?thesis by (auto simp: NewHeatmapManager_def heat_ok_def newHeatNode_def)
qed

lemma heat_decay: "heat_ok m \<Longrightarrow> \<exists>m'. EpochDecayAndSnapshot ops m = Some m' \<and> heat_ok m'"
  using traverse_ok(1) [of "hm_pool m" "hm_MotherTree m" "[]" ops "[]" "[]" "[]" "[]" 0]
  by (auto simp: heat_ok_def EpochDecayAndSnapshot_def step_ok_def)

lemma heat_step_ok: "heat_step ops m m' \<Longrightarrow> heat_ok m \<Longrightarrow> heat_ok m'"
proof (induction rule: heat_step.induct)
  case (queue_write m key)
  then show ?case by (simp add: RecordWriteAsync_def heat_ok_def)
next
  case (take_sample rand m m')
  show ?case
  proof (cases "hm_sampleCh m")
    case Nil
    then show ?thesis using take_sample by (simp add: process_sample_def)
  next
    case (Cons key ch)
    then obtain p t b where r: "SearchLeaf ops rand key False (hm_pool m) (hm_MotherTree m) = Some (p, t, b)" "hm_MotherTree m' = t" "hm_pool m' = p"
      using take_sample(1) by (auto simp: process_sample_def)
    have "step_ok (hm_pool m) p t []"
      by (rule SearchLeaf_ok [OF r(1)]) (use take_sample(2) in \<open>simp_all add: heat_ok_def\<close>)
    then show ?thesis by (simp add: heat_ok_def step_ok_def r)
  qed
next
  case (flush m)
  then show ?case by (simp add: OnMemtableFlush_def Let_def heat_ok_def)
next
  case (decay m m')
  then show ?case using heat_decay [of m ops] by (auto simp: finish_decay_def heat_ok_def)
qed

lemma heat_reach_ok: "heat_reach ops m \<Longrightarrow> heat_ok m"
proof (induction rule: heat_reach.induct)
  case (start m)
  then show ?case using heat_start [of ops] by auto
next
  case (step m m')
  then show ?case using heat_step_ok by blast
qed

text \<open>
  C16: in every state the heat map reaches, each leaf of the tree has a slot of the pool of its own,
  marked active, with at most as many samples as its capacity; the free list holds exactly the
  other slots, each once and marked inactive; and a decay of this state runs to its end.
\<close>

theorem heat_pool_owned:
  assumes "heat_reach ops m"
  shows "distinct (leaf_ids (hm_MotherTree m) @ hp_FreeList (hm_pool m)) \<and>
    set (leaf_ids (hm_MotherTree m)) \<union> set (hp_FreeList (hm_pool m)) = slots (hm_pool m) \<and>
    (\<forall>i s. getStats (hm_pool m) i = Some s \<longrightarrow> rs_IsActive s = (i \<in> set (leaf_ids (hm_MotherTree m)))) \<and>
    tree_ok (hm_pool m) (hm_MotherTree m) \<and> EpochDecayAndSnapshot ops m \<noteq> None"
  using heat_reach_ok [OF assms] heat_decay [of m ops] by (auto simp: heat_ok_def owns_def)

definition set_ops :: "bytes set hll_ops" where
  "set_ops = \<lparr>hll_New14 = {}, hll_Insert = insert, hll_Estimate = (\<lambda>s. of_nat (card s))\<rparr>"

theorem heat_pool_owned_witness:
  "\<exists>m. heat_reach set_ops m \<and> hm_sampleCh m = [[7]] \<and> EpochDecayAndSnapshot set_ops m \<noteq> None"
proof -
  obtain m where m: "NewHeatmapManager set_ops = Some m" using heat_start [of set_ops] by blast
  have ch: "hm_sampleCh m = []" using m by (auto simp: NewHeatmapManager_def)
  have r: "heat_reach set_ops (RecordWriteAsync [7] m)" by (rule heat_reach.step [OF heat_reach.start [OF m] queue_write])
  have "hm_sampleCh (RecordWriteAsync [7] m) = [[7]]" by (simp add: RecordWriteAsync_def ch sampleChSize_def)
  then show ?thesis using heat_pool_owned [OF r] r by blast
qed

end
