(* ===== verification/HeatSplit.thy ===== *)
theory HeatSplit
  imports HeatGroups HeatPool
begin

text \<open>
  Splitting a leaf and finding one: when no recorded key is a proper prefix of another and no byte
  is 255, the background goroutine never panics, and every sample reaches a leaf. Where a sample is
  a prefix of the others, the split panics.
\<close>

section \<open>Ranks in the reservoir\<close>

definition rank :: "bytes list \<Rightarrow> bytes \<Rightarrow> nat" where
  "rank res key = (if key = [] then length res else sort_search (length res) (\<lambda>i. 0 \<le> bytes_compare (res ! i) key))"

definition below :: "bytes \<Rightarrow> bytes \<Rightarrow> bool" where
  "below b x \<longleftrightarrow> b = [] \<or> x < b"

lemma ratio_rank: "snd (CalculateRangeRatio l key res) = rank res key"
proof (cases "res = []")
  case True
  have "sort_search 0 f = 0" for f using sort_search_le [of 0 f] by simp
  then show ?thesis using True by (simp add: CalculateRangeRatio_def rank_def)
next
  case False
  then show ?thesis by (simp add: CalculateRangeRatio_def rank_def Let_def)
qed

lemma rank_le: "rank res key \<le> length res"
  using sort_search_le by (simp add: rank_def)

lemma rank_iff:
  assumes "sorted res" and "i < length res"
  shows "i < rank res key \<longleftrightarrow> below key (res ! i)"
proof (cases "key = []")
  case False
  have up: "upward (length res) (\<lambda>i. key \<le> res ! i)"
    by (rule upwardI) (use sorted_nth_mono [OF assms(1)] order_trans in blast)
  show ?thesis using sort_search_iff [OF up assms(2)] False by (simp add: rank_def below_def not_le [symmetric])
qed (use assms(2) in \<open>simp add: rank_def below_def\<close>)

lemma rank_mono:
  assumes srt: "sorted res" and le: "\<And>x. x \<in> set res \<Longrightarrow> below a x \<Longrightarrow> below b x"
  shows "rank res a \<le> rank res b"
proof (rule ccontr)
  assume "\<not> rank res a \<le> rank res b"
  then have i: "rank res b < rank res a" "rank res b < length res" using rank_le [of res a] by linarith+
  have "below a (res ! rank res b)" using i rank_iff [OF srt i(2), of a] by simp
  then have "below b (res ! rank res b)" using le nth_mem [OF i(2)] by blast
  then show False using rank_iff [OF srt i(2), of b] by simp
qed

lemma rank_slice: "sorted res \<Longrightarrow> x \<in> set (take (rank res b - lo) (drop lo res)) \<Longrightarrow> x \<in> set res \<and> below b x"
proof -
  assume srt: "sorted res" and x: "x \<in> set (take (rank res b - lo) (drop lo res))"
  obtain j where j: "j < rank res b - lo" "j < length (drop lo res)" "x = drop lo res ! j"
    using x by (auto simp: in_set_conv_nth)
  have "lo + j < length res" "x = res ! (lo + j)" "lo + j < rank res b" using j by auto
  then show ?thesis using rank_iff [OF srt, of "lo + j" b] by simp
qed

lemma take_samples_set: "set (take_samples cap l keys res) \<subseteq> set res \<union> drop l ` set keys"
  by (induction cap l keys res rule: take_samples.induct) auto

section \<open>Trees that fit their keys\<close>

text \<open>
  \<open>S\<close> holds the keys that can reach a node, without the prefixes above it. A leaf only keeps rests
  of such keys, and in an inner node the search for such a key goes to a child that takes it.
\<close>

definition rests :: "bytes set \<Rightarrow> bytes \<Rightarrow> bytes set" where
  "rests S q = {x. q @ x \<in> S}"

definition inner_end :: "heat_node \<Rightarrow> bytes" where
  "inner_end n = (if hn_PathSegment n = [] then hn_RangeEnd n else [])"

definition takes :: "heat_node \<Rightarrow> bytes \<Rightarrow> bool" where
  "takes n x \<longleftrightarrow> prefix (hn_PathSegment n) x \<and> (hn_PathSegment n = [] \<longrightarrow> below (hn_RangeEnd n) x)"

definition routes :: "bytes set \<Rightarrow> bytes \<Rightarrow> bytes list \<Rightarrow> heat_tree list \<Rightarrow> bool" where
  "routes S b keys cs \<longleftrightarrow> (\<forall>x \<in> S. below b x \<longrightarrow> 0 \<le> route keys (length cs) x \<and> nat (route keys (length cs) x) < length cs \<and>
     takes (root_of (cs ! nat (route keys (length cs) x))) x)"

fun fits :: "'h heat_pool \<Rightarrow> bytes set \<Rightarrow> heat_tree \<Rightarrow> bool" where
  "fits p S (HeatNode n cs) \<longleftrightarrow>
     (let S' = rests S (hn_PathSegment n)
      in if hn_IsLeaf n then (\<forall>s. getStats p (hn_StatsID n) = Some s \<longrightarrow> (\<forall>x \<in> set (rs_WSuffixReservoir s). x \<in> S' \<and> below (inner_end n) x))
         else routes S' (inner_end n) (hn_SplitRangeKey n) cs \<and> (\<forall>c \<in> set cs. fits p S' c))"

lemma prefix_free_rests: "prefix_free S \<Longrightarrow> prefix_free (rests S q)"
  unfolding prefix_free_def rests_def by (metis mem_Collect_eq same_append_eq same_prefix_prefix)

lemma no_max_rests: "no_max S \<Longrightarrow> no_max (rests S q)"
  by (fastforce simp: no_max_def rests_def)

lemma rests_nil [simp]: "rests S [] = S"
  by (simp add: rests_def)

lemma takes_rest: "takes n x \<Longrightarrow> x \<in> S \<Longrightarrow> drop (length (hn_PathSegment n)) x \<in> rests S (hn_PathSegment n) \<and>
    below (inner_end n) (drop (length (hn_PathSegment n)) x)"
  by (auto simp: takes_def rests_def inner_end_def below_def prefix_def)

lemma fits_same: "same_on (set (leaf_ids t)) p p' \<Longrightarrow> fits p S t \<Longrightarrow> fits p' S t"
proof (induction t arbitrary: S)
  case (HeatNode n cs)
  show ?case
  proof (cases "hn_IsLeaf n")
    case True
    then show ?thesis using HeatNode.prems by (simp add: same_on_def Let_def)
  next
    case False
    have "fits p' (rests S (hn_PathSegment n)) c" if c: "c \<in> set cs" for c
      by (rule HeatNode.IH [OF c]) (use HeatNode.prems c False in \<open>auto simp: same_on_def Let_def\<close>)
    then show ?thesis using HeatNode.prems False by (simp add: Let_def)
  qed
qed

text \<open>The child the split keys lead to, by a walk over both lists.\<close>

fun pick_child :: "bytes list \<Rightarrow> heat_tree list \<Rightarrow> bytes \<Rightarrow> heat_tree option" where
  "pick_child keys [] x = None"
| "pick_child [] (c # cs) x = Some (last (c # cs))"
| "pick_child (k # keys) (c # cs) x = (if x < k \<or> cs = [] then Some c else pick_child keys cs x)"

lemma pick_idx: "cs \<noteq> [] \<Longrightarrow> length cs \<le> Suc (length keys) \<Longrightarrow>
    pick_child keys cs x = Some (cs ! (let m = length (takeWhile (\<lambda>k. k \<le> x) keys) in if length cs \<le> m then length cs - 1 else m))"
proof (induction keys cs x rule: pick_child.induct)
  case (3 k keys c cs x)
  show ?case
  proof (cases "x < k \<or> cs = []")
    case False
    then have "k \<le> x" "0 < length cs" "length cs \<le> Suc (length keys)" using "3.prems" by (auto simp: not_less)
    then show ?thesis using "3.IH" [OF False] False by (simp add: Let_def nth_Cons')
  qed (auto simp: Let_def not_le)
qed simp_all

lemma sort_search_takeWhile:
  assumes "sorted keys"
  shows "sort_search (length keys) (\<lambda>i. x < keys ! i) = length (takeWhile (\<lambda>k. k \<le> (x :: bytes)) keys)"
proof -
  let ?f = "\<lambda>i. x < keys ! i" and ?n = "length (takeWhile (\<lambda>k. k \<le> x) keys)"
  have up: "upward (length keys) ?f" by (rule upwardI) (use sorted_nth_mono [OF assms] less_le_trans in blast)
  have n: "?n \<le> length keys" by (rule length_takeWhile_le)
  have lo: "\<not> ?f i" if "i < ?n" for i using nth_length_takeWhile that set_takeWhileD [OF nth_mem [OF that]] by (simp add: takeWhile_nth not_less)
  have hi: "?f ?n" if "?n < length keys" using nth_length_takeWhile [OF that] by simp
  have "\<not> sort_search (length keys) ?f < ?n"
    using lo sort_search_hit [of "length keys" ?f] n by (meson less_le_trans)
  moreover have "\<not> ?n < sort_search (length keys) ?f"
    using sort_search_before [OF up] hi n sort_search_le [of "length keys" ?f] by (meson less_le_trans)
  ultimately show ?thesis by simp
qed

lemma route_pick:
  assumes "sorted keys" and "cs \<noteq> []" and "length cs \<le> Suc (length keys)"
  shows "0 \<le> route keys (length cs) x \<and> nat (route keys (length cs) x) < length cs \<and> pick_child keys cs x = Some (cs ! nat (route keys (length cs) x))"
proof -
  let ?m = "length (takeWhile (\<lambda>k. k \<le> x) keys)"
  have r: "route keys (length cs) x = (if length cs \<le> ?m then int (length cs) - 1 else int ?m)"
    using sort_search_takeWhile [OF assms(1), of x] by (simp add: route_def Let_def)
  have "0 < length cs" using assms(2) by simp
  then have "0 \<le> route keys (length cs) x" "nat (route keys (length cs) x) = (if length cs \<le> ?m then length cs - 1 else ?m)"
      "nat (route keys (length cs) x) < length cs"
    unfolding r by (cases cs; auto)+
  then show ?thesis using pick_idx [OF assms(2,3), of x] by (simp add: Let_def)
qed

section \<open>One child\<close>

lemma make_child_total:
  assumes own: "owns p ids" and le: "lo \<le> hi"
  shows "\<exists>p' n. make_child ops level stats father p ratio lo hi start fin pre = Some (p', HeatNode n []) \<and>
    hn_IsLeaf n \<and> hn_PathSegment n = pre \<and> hn_RangeStart n = start \<and> hn_RangeEnd n = fin \<and>
    (\<forall>s. getStats p' (hn_StatsID n) = Some s \<longrightarrow> set (rs_WSuffixReservoir s) \<subseteq> drop (length pre) ` set (take (hi - lo) (drop lo (rs_WSuffixReservoir stats))))"
proof -
  obtain p1 sid s where a: "AllocateStats ops p = Some (p1, sid)" "getStats p1 sid = Some s" "rs_WSuffixReservoir s = []"
    using AllocateStats_ok [OF own, of ops] by (elim exE conjE) (rule that, assumption+)
  define res where "res = take_samples (reservoir_cap level) (length pre) (take (hi - lo) (drop lo (rs_WSuffixReservoir stats))) []"
  have res: "set res \<subseteq> drop (length pre) ` set (take (hi - lo) (drop lo (rs_WSuffixReservoir stats)))"
    using take_samples_set [of "reservoir_cap level" "length pre" _ "[]"] by (auto simp: res_def)
  obtain s' where mk: "make_child ops level stats father p ratio lo hi start fin pre = Some (setStats p1 sid s', newHeatNode level start fin pre sid)"
      and s': "rs_WSuffixReservoir s' = res"
    using a le by (simp add: make_child_def Let_def res_def)
  show ?thesis
    unfolding mk newHeatNode_def
    by (intro exI conjI, rule refl) (use res s' in \<open>simp_all add: getStats_setStats [OF a(2)]\<close>)
qed

text \<open>A child fits when the samples it is given lie in its range.\<close>

lemma make_child_fits:
  assumes k: "keeps q p cs ids" and srt: "sorted (rs_WSuffixReservoir stats)" and S: "set (rs_WSuffixReservoir stats) \<subseteq> S"
    and lo: "lo \<le> rank (rs_WSuffixReservoir stats) fin" and pre: "pre \<noteq> [] \<Longrightarrow> \<forall>x \<in> set (drop lo (rs_WSuffixReservoir stats)). x < fin \<longrightarrow> prefix pre x"
    and fin: "pre \<noteq> [] \<Longrightarrow> fin \<noteq> []" and cs: "\<forall>c \<in> set cs. fits p S c"
  shows "\<exists>p' n. make_child ops level stats father p ratio lo (rank (rs_WSuffixReservoir stats) fin) start fin pre = Some (p', HeatNode n []) \<and>
    hn_PathSegment n = pre \<and> hn_RangeStart n = start \<and> hn_RangeEnd n = fin \<and> keeps q p' (cs @ [HeatNode n []]) ids \<and> (\<forall>c \<in> set (cs @ [HeatNode n []]). fits p' S c)"
proof -
  let ?res = "rs_WSuffixReservoir stats"
  have own: "owns p (forest_ids cs @ ids)" using k by (simp add: keeps_def)
  obtain p' n where mk: "make_child ops level stats father p ratio lo (rank ?res fin) start fin pre = Some (p', HeatNode n [])"
      and n: "hn_IsLeaf n" "hn_PathSegment n = pre" "hn_RangeStart n = start" "hn_RangeEnd n = fin"
      and sm: "\<forall>s. getStats p' (hn_StatsID n) = Some s \<longrightarrow> set (rs_WSuffixReservoir s) \<subseteq> drop (length pre) ` set (take (rank ?res fin - lo) (drop lo ?res))"
    using make_child_total [OF own lo, of ops level stats father ratio start fin pre] by (elim exE conjE) (rule that, assumption+)
  have keep: "keeps q p' (cs @ [HeatNode n []]) ids" by (rule keeps_add [OF k mk])
  have one: "drop (length pre) x \<in> rests S pre \<and> below (inner_end n) (drop (length pre) x)"
    if x: "x \<in> set (take (rank ?res fin - lo) (drop lo ?res))" for x
  proof -
    have xs: "x \<in> S" "below fin x" using rank_slice [OF srt x] S by blast+
    show ?thesis
    proof (cases "pre = []")
      case True
      then show ?thesis using xs n by (simp add: inner_end_def)
    next
      case False
      then have "prefix pre x" using pre [OF False] fin [OF False] xs(2) in_set_takeD [OF x] by (simp add: below_def)
      then show ?thesis using xs(1) False n by (auto simp: prefix_def rests_def inner_end_def below_def)
    qed
  qed
  have "fits p' S (HeatNode n [])" using sm one n(1,2) by (auto simp: Let_def)
  moreover have "fits p' S c" if c: "c \<in> set cs" for c
  proof (rule fits_same)
    show "same_on (set (leaf_ids c)) p p'" using make_child_ok [OF own mk] c by (auto simp: same_on_def)
    show "fits p S c" using cs c by blast
  qed
  ultimately show ?thesis using mk n keep by auto
qed

lemma gap_fits:
  assumes "keeps q p cs ids" and "sorted (rs_WSuffixReservoir stats)" and "set (rs_WSuffixReservoir stats) \<subseteq> S"
    and "lo \<le> rank (rs_WSuffixReservoir stats) fin" and "\<forall>c \<in> set cs. fits p S c"
  shows "\<exists>p' n. make_child ops level stats father p ratio lo (rank (rs_WSuffixReservoir stats) fin) start fin [] = Some (p', HeatNode n []) \<and>
    hn_PathSegment n = [] \<and> hn_RangeStart n = start \<and> hn_RangeEnd n = fin \<and> keeps q p' (cs @ [HeatNode n []]) ids \<and> (\<forall>c \<in> set (cs @ [HeatNode n []]). fits p' S c)"
  by (rule make_child_fits [OF assms(1-4) _ _ assms(5)]) simp_all

section \<open>All children\<close>

definition range_ratio :: "nat \<Rightarrow> bytes \<Rightarrow> bytes list \<Rightarrow> f64" where
  "range_ratio l key res = fst (CalculateRangeRatio l key res)"

lemma ratio_pair: "CalculateRangeRatio l key res = (range_ratio l key res, rank res key)"
  unfolding range_ratio_def using ratio_rank [of l key res] by (cases "CalculateRangeRatio l key res") simp

text \<open>What the children from a group on do with the keys from its prefix on.\<close>

definition tail_ok :: "bytes \<Rightarrow> bytes \<Rightarrow> heat_tree list \<Rightarrow> bytes list \<Rightarrow> bool" where
  "tail_ok b lo cs keys \<longleftrightarrow> cs \<noteq> [] \<and> length cs \<le> Suc (length keys) \<and> sorted keys \<and> (\<forall>k \<in> set keys. lo \<le> k) \<and>
     (\<forall>x. lo \<le> x \<longrightarrow> below b x \<longrightarrow> (\<exists>c. pick_child keys cs x = Some c \<and> takes (root_of c) x))"

lemma pick_two: "pick_child (k # keys) (c # d # cs) x = (if x < k then Some c else pick_child keys (d # cs) x)"
    "pick_child keys [c] x = Some c"
  by (simp, cases keys) simp_all

lemma tail_last:
  assumes n: "hn_PathSegment n = pre" "pre \<noteq> []" "last pre \<noteq> -1"
  shows "hn_PathSegment m = [] \<Longrightarrow> hn_RangeEnd m = b \<Longrightarrow> tail_ok b pre [HeatNode n [], HeatNode m []] [NextKeySameLength pre]"
    and "b = NextKeySameLength pre \<Longrightarrow> tail_ok b pre [HeatNode n []] [NextKeySameLength pre]"
proof -
  let ?f = "NextKeySameLength pre"
  have f: "pre < ?f" by (rule Next_greater [OF n(2,3)])
  then have ne: "?f \<noteq> []" by auto
  have n_takes: "takes n x" if "pre \<le> x" "x < ?f" for x using prefix_range [OF n(2,3)] that n by (simp add: takes_def)
  show "tail_ok b pre [HeatNode n [], HeatNode m []] [?f]" if m: "hn_PathSegment m = []" "hn_RangeEnd m = b"
    using f n_takes m by (simp add: tail_ok_def pick_two takes_def)
  show "tail_ok b pre [HeatNode n []] [?f]" if "b = ?f"
    using f ne n_takes that by (simp add: tail_ok_def pick_two below_def)
qed

lemma tail_more:
  assumes n: "hn_PathSegment n = pre" "pre \<noteq> []" "last pre \<noteq> -1" and t: "tail_ok b q cs keys" and q: "NextKeySameLength pre \<le> q"
  shows "hn_PathSegment m = [] \<Longrightarrow> hn_RangeEnd m = q \<Longrightarrow> tail_ok b pre (HeatNode n [] # HeatNode m [] # cs) (NextKeySameLength pre # q # keys)"
    and "q = NextKeySameLength pre \<Longrightarrow> tail_ok b pre (HeatNode n [] # cs) (NextKeySameLength pre # keys)"
proof -
  let ?f = "NextKeySameLength pre"
  have f: "pre < ?f" "pre < q" using Next_greater [OF n(2,3)] q by auto
  have c: "cs \<noteq> []" "length cs \<le> Suc (length keys)" "sorted keys" "\<forall>k \<in> set keys. q \<le> k"
      "\<forall>x. q \<le> x \<longrightarrow> below b x \<longrightarrow> (\<exists>c. pick_child keys cs x = Some c \<and> takes (root_of c) x)"
    using t unfolding tail_ok_def by blast+
  have lo: "\<forall>k \<in> set keys. pre \<le> k \<and> ?f \<le> k" using c(4) q f(2) by (meson le_less_trans less_imp_le order_trans)
  have n_takes: "takes n x" if "pre \<le> x" "x < ?f" for x using prefix_range [OF n(2,3)] that n by (simp add: takes_def)
  show "tail_ok b pre (HeatNode n [] # HeatNode m [] # cs) (?f # q # keys)" if m: "hn_PathSegment m = []" "hn_RangeEnd m = q"
    using c lo f q n_takes m by (auto simp: tail_ok_def takes_def below_def not_less)
  show "tail_ok b pre (HeatNode n [] # cs) (?f # keys)" if "q = ?f"
    using c lo f n_takes that by (auto simp: tail_ok_def not_less)
qed

lemma rank_drop: "sorted res \<Longrightarrow> pre \<noteq> [] \<Longrightarrow> x \<in> set (drop (rank res pre) res) \<Longrightarrow> pre \<le> x"
proof -
  assume srt: "sorted res" and pre: "pre \<noteq> []" and x: "x \<in> set (drop (rank res pre) res)"
  obtain j where j: "j < length (drop (rank res pre) res)" "x = drop (rank res pre) res ! j" using x by (auto simp: in_set_conv_nth)
  have "rank res pre + j < length res" "x = res ! (rank res pre + j)" using j rank_le [of res pre] by auto
  then show ?thesis using rank_iff [OF srt, of "rank res pre + j" pre] pre by (simp add: below_def not_less)
qed

definition range_after :: "heat_node \<Rightarrow> ResIndexRange list \<Rightarrow> bytes" where
  "range_after node gs = (case gs of [] \<Rightarrow> inner_end node | h # _ \<Rightarrow> rg_CommonPrefix h)"

text \<open>One turn of the loop, without the front child.\<close>

lemma split_turn:
  assumes c2: "make_child ops (hn_Level node + 1) stats father p (range_ratio lastW (NextKeySameLength (rg_CommonPrefix g)) (rs_WSuffixReservoir stats)) lastW
      (rank (rs_WSuffixReservoir stats) (NextKeySameLength (rg_CommonPrefix g))) (rg_CommonPrefix g) (NextKeySameLength (rg_CommonPrefix g)) (rg_CommonPrefix g) = Some (p2, c2)"
    (is "make_child _ _ _ _ _ _ _ (rank ?res ?fin) ?pre _ _ = _")
  shows "range_after node gs = ?fin \<Longrightarrow> split_groups ops node stats father False (g # gs) lastW p cs keys =
      split_groups ops node stats father False gs (rank ?res ?fin) p2 (cs @ [c2]) (keys @ [?fin])"
    and "range_after node gs \<noteq> ?fin \<Longrightarrow>
      make_child ops (hn_Level node + 1) stats father p2 (range_ratio (rank ?res ?fin) (range_after node gs) ?res) (rank ?res ?fin)
        (rank ?res (range_after node gs)) ?fin (range_after node gs) [] = Some (p3, c3) \<Longrightarrow>
      split_groups ops node stats father False (g # gs) lastW p cs keys =
      split_groups ops node stats father False gs (rank ?res (range_after node gs)) p3 (cs @ [c2, c3]) (keys @ ?fin # (if gs = [] then [] else [range_after node gs]))"
  using c2 unfolding range_after_def inner_end_def
  by (cases gs; cases "hn_PathSegment node = []"; simp add: Let_def ratio_pair CompareKey_def)+

lemma split_front:
  assumes "make_child ops (hn_Level node + 1) stats father p (range_ratio 0 (rg_CommonPrefix g) (rs_WSuffixReservoir stats)) 0
      (rank (rs_WSuffixReservoir stats) (rg_CommonPrefix g)) (if length (hn_PathSegment node) = 0 then hn_RangeStart node else []) (rg_CommonPrefix g) [] = Some (p1, c)"
  shows "split_groups ops node stats father True (g # gs) 0 p [] [] =
    split_groups ops node stats father False (g # gs) (rank (rs_WSuffixReservoir stats) (rg_CommonPrefix g)) p1 [c] [rg_CommonPrefix g]"
  using assms by (simp add: Let_def ratio_pair)

lemma split_tail:
  assumes srt: "sorted (rs_WSuffixReservoir stats)" and S: "set (rs_WSuffixReservoir stats) \<subseteq> S"
    and b: "\<forall>x \<in> set (rs_WSuffixReservoir stats). below (inner_end node) x"
  shows "separate (map rg_CommonPrefix (g # gs)) \<Longrightarrow> keeps q p cs ids \<Longrightarrow> \<forall>c \<in> set cs. fits p S c \<Longrightarrow>
    \<exists>p2 cs2 keys2. split_groups ops node stats father False (g # gs) (rank (rs_WSuffixReservoir stats) (rg_CommonPrefix g)) p cs keys = Some (p2, cs @ cs2, keys @ keys2) \<and>
      keeps q p2 (cs @ cs2) ids \<and> (\<forall>c \<in> set (cs @ cs2). fits p2 S c) \<and> tail_ok (inner_end node) (rg_CommonPrefix g) cs2 keys2"
proof (induction gs arbitrary: g p cs keys)
  let ?res = "rs_WSuffixReservoir stats"
  have child: "\<exists>p2 n. make_child ops (hn_Level node + 1) stats father p (range_ratio (rank ?res pre) (NextKeySameLength pre) ?res) (rank ?res pre)
        (rank ?res (NextKeySameLength pre)) pre (NextKeySameLength pre) pre = Some (p2, HeatNode n []) \<and>
      hn_PathSegment n = pre \<and> keeps q p2 (cs @ [HeatNode n []]) ids \<and> (\<forall>c \<in> set (cs @ [HeatNode n []]). fits p2 S c)"
    if pre: "pre \<noteq> []" "last pre \<noteq> -1" and k: "keeps q p cs ids" "\<forall>c \<in> set cs. fits p S c" for pre p cs
  proof -
    have f: "pre < NextKeySameLength pre" by (rule Next_greater [OF pre])
    then have ne: "NextKeySameLength pre \<noteq> []" by auto
    have "rank ?res pre \<le> rank ?res (NextKeySameLength pre)"
      by (rule rank_mono [OF srt]) (use f pre(1) ne in \<open>auto simp: below_def\<close>)
    moreover have "\<forall>x \<in> set (drop (rank ?res pre) ?res). x < NextKeySameLength pre \<longrightarrow> prefix pre x"
      using rank_drop [OF srt pre(1)] prefix_range [OF pre] by blast
    ultimately show ?thesis
      using make_child_fits [OF k(1) srt S _ _ ne k(2), of "rank ?res pre" pre ops "hn_Level node + 1" father "range_ratio (rank ?res pre) (NextKeySameLength pre) ?res" pre]
      by (elim meta_impE) (assumption | elim exE conjE, intro exI conjI, assumption+)+
  qed
  have gap: "\<exists>p3 m. make_child ops (hn_Level node + 1) stats father p (range_ratio (rank ?res fin) after ?res) (rank ?res fin) (rank ?res after) fin after [] = Some (p3, HeatNode m []) \<and>
      hn_PathSegment m = [] \<and> hn_RangeEnd m = after \<and> keeps q p3 (cs @ [HeatNode m []]) ids \<and> (\<forall>c \<in> set (cs @ [HeatNode m []]). fits p3 S c)"
    if k: "keeps q p cs ids" "\<forall>c \<in> set cs. fits p S c" and le: "rank ?res fin \<le> rank ?res after" for fin after p cs
    using gap_fits [OF k(1) srt S le k(2), where ops = ops and level = "hn_Level node + 1" and father = father and ratio = "range_ratio (rank ?res fin) after ?res" and start = fin] by blast
  {
    case (Nil g p cs keys)
    let ?pre = "rg_CommonPrefix g" let ?fin = "NextKeySameLength ?pre"
    have pre: "?pre \<noteq> []" "last ?pre \<noteq> -1" using Nil.prems(1) by (simp_all add: separate_def)
    obtain p2 n where c: "make_child ops (hn_Level node + 1) stats father p (range_ratio (rank ?res ?pre) ?fin ?res) (rank ?res ?pre) (rank ?res ?fin) ?pre ?fin ?pre = Some (p2, HeatNode n [])"
        "hn_PathSegment n = ?pre" "keeps q p2 (cs @ [HeatNode n []]) ids" "\<forall>c \<in> set (cs @ [HeatNode n []]). fits p2 S c"
      using child [OF pre Nil.prems(2,3)] by (elim exE conjE) (rule that, assumption+)
    have af: "range_after node [] = inner_end node" by (simp add: range_after_def)
    show ?case
    proof (cases "inner_end node = ?fin")
      case True
      have "split_groups ops node stats father False [g] (rank ?res ?pre) p cs keys = Some (p2, cs @ [HeatNode n []], keys @ [?fin])"
        using split_turn(1) [OF c(1), of "[]"] True af by simp
      then show ?thesis using c(3,4) tail_last(2) [OF c(2) pre True] by blast
    next
      case False
      have le: "rank ?res ?fin \<le> rank ?res (inner_end node)" by (rule rank_mono [OF srt]) (use b in blast)
      obtain p3 m where d: "make_child ops (hn_Level node + 1) stats father p2 (range_ratio (rank ?res ?fin) (inner_end node) ?res) (rank ?res ?fin)
            (rank ?res (inner_end node)) ?fin (inner_end node) [] = Some (p3, HeatNode m [])"
          "hn_PathSegment m = []" "hn_RangeEnd m = inner_end node" "keeps q p3 ((cs @ [HeatNode n []]) @ [HeatNode m []]) ids"
          "\<forall>c \<in> set ((cs @ [HeatNode n []]) @ [HeatNode m []]). fits p3 S c"
        using gap [OF c(3,4) le] by (elim exE conjE) (rule that, assumption+)
      have "split_groups ops node stats father False [g] (rank ?res ?pre) p cs keys = Some (p3, cs @ [HeatNode n [], HeatNode m []], keys @ [?fin])"
        using split_turn(2) [OF c(1), of "[]" p3] False d(1) af by simp
      moreover have "keeps q p3 (cs @ [HeatNode n [], HeatNode m []]) ids" "\<forall>c \<in> set (cs @ [HeatNode n [], HeatNode m []]). fits p3 S c" using d(4,5) by simp_all
      ultimately show ?thesis using tail_last(1) [OF c(2) pre d(2,3)] by blast
    qed
  next
    case (Cons h gs g p cs keys)
    let ?pre = "rg_CommonPrefix g" let ?fin = "NextKeySameLength ?pre" and ?nx = "rg_CommonPrefix h"
    have pre: "?pre \<noteq> []" "last ?pre \<noteq> -1" "?fin \<le> ?nx" "?nx \<noteq> []" and sep: "separate (map rg_CommonPrefix (h # gs))"
      using Cons.prems(1) by (simp_all add: separate_def)
    obtain p2 n where c: "make_child ops (hn_Level node + 1) stats father p (range_ratio (rank ?res ?pre) ?fin ?res) (rank ?res ?pre) (rank ?res ?fin) ?pre ?fin ?pre = Some (p2, HeatNode n [])"
        "hn_PathSegment n = ?pre" "keeps q p2 (cs @ [HeatNode n []]) ids" "\<forall>c \<in> set (cs @ [HeatNode n []]). fits p2 S c"
      using child [OF pre(1,2) Cons.prems(2,3)] by (elim exE conjE) (rule that, assumption+)
    have af: "range_after node (h # gs) = ?nx" by (simp add: range_after_def)
    show ?case
    proof (cases "?nx = ?fin")
      case True
      obtain p4 cs4 keys4 where r: "split_groups ops node stats father False (h # gs) (rank ?res ?nx) p2 (cs @ [HeatNode n []]) (keys @ [?fin]) =
            Some (p4, (cs @ [HeatNode n []]) @ cs4, (keys @ [?fin]) @ keys4)" "keeps q p4 ((cs @ [HeatNode n []]) @ cs4) ids"
          "\<forall>c \<in> set ((cs @ [HeatNode n []]) @ cs4). fits p4 S c" "tail_ok (inner_end node) ?nx cs4 keys4"
        using Cons.IH [OF sep c(3,4), of "keys @ [?fin]"] by (elim exE conjE) (rule that, assumption+)
      have "split_groups ops node stats father False (g # h # gs) (rank ?res ?pre) p cs keys = Some (p4, cs @ HeatNode n [] # cs4, keys @ ?fin # keys4)"
        using split_turn(1) [OF c(1), of "h # gs"] True af r(1) by simp
      moreover have "keeps q p4 (cs @ HeatNode n [] # cs4) ids" "\<forall>c \<in> set (cs @ HeatNode n [] # cs4). fits p4 S c" using r(2,3) by simp_all
      ultimately show ?thesis using tail_more(2) [OF c(2) pre(1,2) r(4) pre(3) True] by blast
    next
      case False
      have le: "rank ?res ?fin \<le> rank ?res ?nx"
        by (rule rank_mono [OF srt]) (use pre(3) Next_greater [OF pre(1,2)] in \<open>auto simp: below_def\<close>)
      obtain p3 m where d: "make_child ops (hn_Level node + 1) stats father p2 (range_ratio (rank ?res ?fin) ?nx ?res) (rank ?res ?fin)
            (rank ?res ?nx) ?fin ?nx [] = Some (p3, HeatNode m [])"
          "hn_PathSegment m = []" "hn_RangeEnd m = ?nx" "keeps q p3 ((cs @ [HeatNode n []]) @ [HeatNode m []]) ids"
          "\<forall>c \<in> set ((cs @ [HeatNode n []]) @ [HeatNode m []]). fits p3 S c"
        using gap [OF c(3,4) le] by (elim exE conjE) (rule that, assumption+)
      obtain p4 cs4 keys4 where r: "split_groups ops node stats father False (h # gs) (rank ?res ?nx) p3 ((cs @ [HeatNode n []]) @ [HeatNode m []]) (keys @ [?fin, ?nx]) =
            Some (p4, ((cs @ [HeatNode n []]) @ [HeatNode m []]) @ cs4, (keys @ [?fin, ?nx]) @ keys4)" "keeps q p4 (((cs @ [HeatNode n []]) @ [HeatNode m []]) @ cs4) ids"
          "\<forall>c \<in> set (((cs @ [HeatNode n []]) @ [HeatNode m []]) @ cs4). fits p4 S c" "tail_ok (inner_end node) ?nx cs4 keys4"
        using Cons.IH [OF sep d(4,5), of "keys @ [?fin, ?nx]"] by (elim exE conjE) (rule that, assumption+)
      have "split_groups ops node stats father False (g # h # gs) (rank ?res ?pre) p cs keys = Some (p4, cs @ HeatNode n [] # HeatNode m [] # cs4, keys @ ?fin # ?nx # keys4)"
        using split_turn(2) [OF c(1), of "h # gs" p3] False af d(1) r(1) by simp
      moreover have "keeps q p4 (cs @ HeatNode n [] # HeatNode m [] # cs4) ids" "\<forall>c \<in> set (cs @ HeatNode n [] # HeatNode m [] # cs4). fits p4 S c" using r(2,3) by simp_all
      ultimately show ?thesis using tail_more(1) [OF c(2) pre(1,2) r(4) pre(3) d(2,3)] by blast
    qed
  }
qed

lemma split_ok:
  assumes srt: "sorted (rs_WSuffixReservoir stats)" and ne: "rs_WSuffixReservoir stats \<noteq> []"
    and S: "set (rs_WSuffixReservoir stats) \<subseteq> S" "prefix_free S" "no_max S"
    and b: "\<forall>x \<in> set (rs_WSuffixReservoir stats). below (inner_end node) x" and k: "keeps q p [] ids"
  shows "\<exists>p2 cs keys. splitReservoir ops node stats (chosen_groups (rs_WSuffixReservoir stats)) p = Some (p2, cs, keys) \<and> cs \<noteq> [] \<and>
    keeps q p2 cs ids \<and> (\<forall>c \<in> set cs. fits p2 S c) \<and> routes S (inner_end node) keys cs"
proof -
  let ?res = "rs_WSuffixReservoir stats" and ?father = "father_ration ops stats"
  define start where "start = (if length (hn_PathSegment node) = 0 then hn_RangeStart node else [])"
  obtain g gs where gs: "chosen_groups ?res = g # gs" using chosen_ok [OF ne] by (cases "chosen_groups ?res") auto
  let ?pre = "rg_CommonPrefix g"
  have none: "\<forall>c \<in> set []. fits p S c" by simp
  obtain p1 n where f: "make_child ops (hn_Level node + 1) stats ?father p (range_ratio 0 ?pre ?res) 0 (rank ?res ?pre) start ?pre [] = Some (p1, HeatNode n [])"
      "hn_PathSegment n = []" "hn_RangeEnd n = ?pre" "keeps q p1 ([] @ [HeatNode n []]) ids" "\<forall>c \<in> set ([] @ [HeatNode n []]). fits p1 S c"
    using gap_fits [OF k srt S(1) le0 none,
        where ops = ops and level = "hn_Level node + 1" and father = ?father and ratio = "range_ratio 0 ?pre ?res" and start = start and fin = ?pre]
    by (elim exE conjE) (rule that, assumption+)
  have sp: "splitReservoir ops node stats (chosen_groups ?res) p = split_groups ops node stats ?father False (g # gs) (rank ?res ?pre) p1 [HeatNode n []] [?pre]"
    unfolding splitReservoir_def gs by (rule split_front) (use f(1) in \<open>simp add: start_def\<close>)
  show ?thesis
  proof (cases "[] \<in> set ?res")
    case False
    have sep: "separate (map rg_CommonPrefix (g # gs))" using chosen_separate [OF srt ne S(2,1,3) False] by (simp add: gs)
    obtain p2 cs keys where t: "split_groups ops node stats ?father False (g # gs) (rank ?res ?pre) p1 [HeatNode n []] [?pre] = Some (p2, [HeatNode n []] @ cs, [?pre] @ keys)"
        "keeps q p2 ([HeatNode n []] @ cs) ids" "\<forall>c \<in> set ([HeatNode n []] @ cs). fits p2 S c" "tail_ok (inner_end node) ?pre cs keys"
      using split_tail [OF srt S(1) b sep f(4,5) [unfolded append_Nil], of ops ?father "[?pre]"] by (elim exE conjE) (rule that, assumption+)
    have c: "cs \<noteq> []" "length cs \<le> Suc (length keys)" "sorted (?pre # keys)" using t(4) by (simp_all add: tail_ok_def)
    have "takes (root_of c) x" if pk: "pick_child (?pre # keys) (HeatNode n [] # cs) x = Some c" and bx: "below (inner_end node) x" for c x
    proof (cases "x < ?pre")
      case True
      then show ?thesis using pk f(2,3) by (auto simp: takes_def below_def)
    next
      case False
      then obtain c' where "pick_child keys cs x = Some c'" "takes (root_of c') x" using t(4) bx by (auto simp: tail_ok_def not_less)
      then show ?thesis using pk False c(1) by simp
    qed
    then have "routes S (inner_end node) (?pre # keys) (HeatNode n [] # cs)"
      using route_pick [OF c(3), of "HeatNode n [] # cs"] c(2) unfolding routes_def by force
    then show ?thesis unfolding sp using t(1-3) by simp
  next
    case True
    have SS: "S = {[]}" by (rule prefix_free_nil [OF S(2)]) (use S(1) True in blast)
    have "map rg_CommonPrefix (g # gs) = [[]]" using chosen_empty [OF ne] S(1) by (simp add: SS gs)
    then have g: "gs = []" "?pre = []" by auto
    have nx: "NextKeySameLength [] = []" by (simp add: NextKeySameLength_def)
    obtain p2 m where c: "make_child ops (hn_Level node + 1) stats ?father p1 (range_ratio (rank ?res []) [] ?res) (rank ?res []) (rank ?res []) [] [] [] = Some (p2, HeatNode m [])"
        "hn_PathSegment m = []" "hn_RangeEnd m = []" "keeps q p2 (([] @ [HeatNode n []]) @ [HeatNode m []]) ids" "\<forall>c \<in> set (([] @ [HeatNode n []]) @ [HeatNode m []]). fits p2 S c"
      using gap_fits [OF f(4) srt S(1) order_refl f(5), where ops = ops and level = "hn_Level node + 1" and father = ?father and ratio = "range_ratio (rank ?res []) [] ?res" and start = "[]" and fin = "[]"]
      by (elim exE conjE) (rule that, assumption+)
    have af: "range_after node gs = inner_end node" by (simp add: range_after_def g(1))
    note turn = split_turn [of ops node stats ?father p1 "rank ?res ?pre" g, unfolded g(2) nx, OF c(1)]
    have route: "routes S (inner_end node) [[], []] cs"
      if cs: "cs \<noteq> []" "length cs \<le> 3" "pick_child [[], []] cs [] = Some c" "takes (root_of c) []" for cs c
      using route_pick [of "[[], []]" cs "[]"] cs by (simp add: routes_def SS)
    show ?thesis
    proof (cases "inner_end node = []")
      case True
      have "split_groups ops node stats ?father False (g # gs) (rank ?res ?pre) p1 [HeatNode n []] [?pre] = Some (p2, [HeatNode n [], HeatNode m []], [[], []])"
        using turn(1) [of gs "[HeatNode n []]" "[[]]"] True af g by simp
      moreover have "routes S (inner_end node) [[], []] [HeatNode n [], HeatNode m []]"
        by (rule route [of _ "HeatNode m []"]) (use c(2,3) in \<open>simp_all add: takes_def below_def\<close>)
      ultimately show ?thesis unfolding sp using c(4,5) by simp
    next
      case False
      have le: "rank ?res [] \<le> rank ?res (inner_end node)" by (rule rank_mono [OF srt]) (use b in blast)
      obtain p3 l where d: "make_child ops (hn_Level node + 1) stats ?father p2 (range_ratio (rank ?res []) (inner_end node) ?res) (rank ?res []) (rank ?res (inner_end node)) [] (inner_end node) [] = Some (p3, HeatNode l [])"
          "hn_PathSegment l = []" "hn_RangeEnd l = inner_end node" "keeps q p3 ((([] @ [HeatNode n []]) @ [HeatNode m []]) @ [HeatNode l []]) ids"
          "\<forall>c \<in> set ((([] @ [HeatNode n []]) @ [HeatNode m []]) @ [HeatNode l []]). fits p3 S c"
        using gap_fits [OF c(4) srt S(1) le c(5), where ops = ops and level = "hn_Level node + 1" and father = ?father and ratio = "range_ratio (rank ?res []) (inner_end node) ?res" and start = "[]"]
        by (elim exE conjE) (rule that, assumption+)
      have bl: "below (inner_end node) []" using b S(1) ne by (cases ?res) (auto simp: SS)
      have "split_groups ops node stats ?father False (g # gs) (rank ?res ?pre) p1 [HeatNode n []] [?pre] = Some (p3, [HeatNode n [], HeatNode m [], HeatNode l []], [[], []])"
        using turn(2) [of gs p3 _ "[HeatNode n []]" "[[]]"] False d(1) af g by simp
      moreover have "routes S (inner_end node) [[], []] [HeatNode n [], HeatNode m [], HeatNode l []]"
        by (rule route [of _ "HeatNode l []"]) (use d(2,3) bl in \<open>simp_all add: takes_def\<close>)
      ultimately show ?thesis unfolding sp using d(4,5) by simp
    qed
  qed
qed

section \<open>Sampling\<close>

lemma Evolve_fits:
  assumes own: "owns p (hn_StatsID n # ids)" and s0: "getStats p (hn_StatsID n) = Some s0" and leaf: "hn_IsLeaf n"
    and S: "prefix_free S" "no_max S" and fit: "fits p S (HeatNode n [])"
  shows "\<exists>p' n' cs. Evolve ops p n = Some (p', HeatNode n' cs) \<and> fits p' S (HeatNode n' cs) \<and>
    hn_PathSegment n' = hn_PathSegment n \<and> hn_RangeEnd n' = hn_RangeEnd n"
proof -
  let ?sid = "hn_StatsID n" and ?S = "rests S (hn_PathSegment n)"
  let ?s = "s0\<lparr>rs_WSuffixReservoir := go_sort (\<lambda>a b. bytes_compare a b < 0) (rs_WSuffixReservoir s0)\<rparr>"
  let ?p1 = "setStats p ?sid ?s" and ?res = "go_sort (\<lambda>a b. bytes_compare a b < 0) (rs_WSuffixReservoir s0)"
  have p1: "owns ?p1 (?sid # ids)" "getStats ?p1 ?sid = Some ?s" using set_keeps [OF own s0, of ?s] by simp_all
  have set: "set ?res = set (rs_WSuffixReservoir s0)" by simp
  have x: "\<forall>x \<in> set ?res. x \<in> ?S \<and> below (inner_end n) x" using fit s0 leaf unfolding set by (simp add: Let_def)
  have "in_order (\<lambda>a b. bytes_compare a b < 0) ?res" by (rule in_order_go_sort) (simp add: strict_weak_def)
  then have srt: "sorted ?res" by (simp add: in_order_def not_less)
  show ?thesis
  proof (cases "?res = []")
    case True
    have "splitReservoir ops n ?s (go_sort (\<lambda>a b. rg_Start a < rg_Start b) (FindTopNPrefixGroups ?res)) ?p1 = Some (?p1, [], [])"
      unfolding True by (simp add: FindTopNPrefixGroups_def splitReservoir_def)
    then have "Evolve ops p n = Some (?p1, HeatNode (n\<lparr>hn_SplitThreshold := hn_SplitThreshold n * 2\<rparr>) [])"
      using s0 by (simp add: Evolve_def Let_def)
    moreover have "fits ?p1 S (HeatNode (n\<lparr>hn_SplitThreshold := hn_SplitThreshold n * 2\<rparr>) [])" using leaf p1(2) True by (simp add: Let_def)
    ultimately show ?thesis by fastforce
  next
    case False
    have k: "keeps ?p1 ?p1 [] (?sid # ids)" using p1(1) by (simp add: keeps_def)
    obtain p2 cs keys where sp: "splitReservoir ops n ?s (chosen_groups ?res) ?p1 = Some (p2, cs, keys)" "cs \<noteq> []"
        "keeps ?p1 p2 cs (?sid # ids)" "\<forall>c \<in> set cs. fits p2 ?S c" "routes ?S (inner_end n) keys cs"
      using split_ok [of ?s ?S n ?p1 ?p1 "?sid # ids" ops] srt False x prefix_free_rests [OF S(1)] no_max_rests [OF S(2)] k
      by (simp del: go_sort_simps) blast
    have "owns p2 (?sid # forest_ids cs @ ids)" by (rule owns_perm [of _ "forest_ids cs @ ?sid # ids"]) (use sp(3) in \<open>simp_all add: keeps_def\<close>)
    then obtain p3 where p3: "FreeStats p2 ?sid = Some p3" "same_on (set (forest_ids cs @ ids)) p2 p3" using FreeStats_ok by blast
    have ev: "Evolve ops p n = Some (p3, HeatNode (n\<lparr>hn_IsLeaf := False, hn_SplitRangeKey := keys, hn_StatsID := -1\<rparr>) cs)"
      using s0 sp(1,2) p3(1) by (simp add: Evolve_def Let_def chosen_groups_def)
    have "fits p3 ?S c" if "c \<in> set cs" for c
      by (rule fits_same [of c p2]) (use p3(2) sp(4) that in \<open>auto simp: same_on_def\<close>)
    moreover have "inner_end (n\<lparr>hn_IsLeaf := False, hn_SplitRangeKey := keys, hn_StatsID := -1\<rparr>) = inner_end n" by (simp add: inner_end_def)
    ultimately have "fits p3 S (HeatNode (n\<lparr>hn_IsLeaf := False, hn_SplitRangeKey := keys, hn_StatsID := -1\<rparr>) cs)"
      using sp(5) by (simp add: Let_def)
    then show ?thesis using ev by fastforce
  qed
qed

text \<open>Where a node sends keys depends on the prefix and the end of its children only.\<close>

definition same_place :: "heat_tree \<Rightarrow> heat_tree \<Rightarrow> bool" where
  "same_place t t' \<longleftrightarrow> hn_PathSegment (root_of t') = hn_PathSegment (root_of t) \<and> hn_RangeEnd (root_of t') = hn_RangeEnd (root_of t)"

lemma same_place_refl [simp]: "same_place t t"
  by (simp add: same_place_def)

lemma takes_same: "same_place t t' \<Longrightarrow> takes (root_of t') = takes (root_of t)"
  by (intro ext) (simp add: same_place_def takes_def)

lemma inner_end_same: "same_place t t' \<Longrightarrow> inner_end (root_of t') = inner_end (root_of t)"
  by (simp add: same_place_def inner_end_def)

lemma routes_same: "list_all2 same_place cs cs' \<Longrightarrow> routes S b keys cs \<Longrightarrow> routes S b keys cs'"
proof -
  assume l: "list_all2 same_place cs cs'" and r: "routes S b keys cs"
  have len: "length cs' = length cs" using list_all2_lengthD [OF l] by simp
  have "takes (root_of (cs' ! i)) = takes (root_of (cs ! i))" if "i < length cs" for i
    by (rule takes_same) (rule list_all2_nthD [OF l that])
  then show "routes S b keys cs'" using r unfolding routes_def len by simp
qed

lemma fits_leaf_upd:
  "getStats p (hn_StatsID n) = Some s0 \<Longrightarrow> fits p S (HeatNode n cs) \<Longrightarrow> hn_IsLeaf n \<Longrightarrow>
    set (rs_WSuffixReservoir s) \<subseteq> insert key (set (rs_WSuffixReservoir s0)) \<Longrightarrow> key \<in> rests S (hn_PathSegment n) \<Longrightarrow> below (inner_end n) key \<Longrightarrow>
    fits (setStats p (hn_StatsID n) s) S (HeatNode (n\<lparr>hn_SplitThreshold := d\<rparr>) cs')"
  by (auto simp: Let_def getStats_setStats inner_end_def)

lemma AddSample_fits:
  assumes own: "owns p (leaf_ids (HeatNode n cs) @ ids)" and ok: "tree_ok p (HeatNode n cs)" and leaf: "hn_IsLeaf n"
    and S: "prefix_free S" "no_max S" and fit: "fits p S (HeatNode n cs)" and key: "key \<in> rests S (hn_PathSegment n)" "below (inner_end n) key"
  shows "\<exists>p' t. AddSample ops rand key False p n cs = Some (p', t) \<and> fits p' S t \<and> same_place (HeatNode n cs) t"
proof -
  let ?sid = "hn_StatsID n"
  obtain s0 where s0: "getStats p ?sid = Some s0" and cs: "cs = []" using ok leaf by auto
  have ne: "?sid \<noteq> -1" using slot_nonneg [OF s0] by simp
  have own': "owns p (?sid # ids)" using own leaf by simp
  let ?s1 = "s0\<lparr>rs_WriteCount := rs_WriteCount s0 + 1, rs_CurrentHLL := hll_Insert ops key (rs_CurrentHLL s0)\<rparr>"
  show ?thesis
  proof (cases "length (rs_WSuffixReservoir s0) < hn_ReservoirCap n")
    case True
    let ?s2 = "?s1\<lparr>rs_WSuffixReservoir := rs_WSuffixReservoir s0 @ [key]\<rparr>"
    have "AddSample ops rand key False p n cs = Some (setStats p ?sid ?s2, HeatNode n cs)"
      using True s0 leaf ne by (simp add: AddSample_def Let_def)
    moreover have "fits (setStats p ?sid ?s2) S (HeatNode n cs)"
      using fits_leaf_upd [OF s0 fit leaf, of ?s2 key "hn_SplitThreshold n" cs] key by simp
    ultimately show ?thesis by (intro exI conjI) (assumption | rule same_place_refl)+
  next
    case False
    let ?r = "rand (rs_WriteCount s0 + 1)"
    define s2 where "s2 = (if ?r < of_nat (hn_ReservoirCap n) then ?s1\<lparr>rs_WSuffixReservoir := (rs_WSuffixReservoir s0)[unat ?r := key]\<rparr> else ?s1)"
    define p1 where "p1 = setStats p ?sid s2"
    have s2: "rs_IsActive s2 = rs_IsActive s0" "set (rs_WSuffixReservoir s2) \<subseteq> insert key (set (rs_WSuffixReservoir s0))"
      using set_update_subset_insert [of "rs_WSuffixReservoir s0" "unat ?r" key] by (simp_all add: s2_def subset_insertI)
    have p1: "owns p1 (?sid # ids)" "getStats p1 ?sid = Some s2" using set_keeps [OF own' s0 s2(1)] by (simp_all add: p1_def)
    have fit1: "fits p1 S (HeatNode (n\<lparr>hn_SplitThreshold := d\<rparr>) cs)" for d
      unfolding p1_def by (rule fits_leaf_upd [OF s0 fit leaf s2(2) key])
    have fit2: "fits p1 S (HeatNode n [])" using fit1 [of "hn_SplitThreshold n"] unfolding cs by simp
    have res: "AddSample ops rand key False p n cs = (if (word_of_int (hn_SplitThreshold n) :: u32) < rs_WriteCount s2 \<and> hn_ReservoirCap n \<le> length (rs_WSuffixReservoir s2) then
            (if rnd (85 / 100) \<le> rs_OverwriteRation s2 then Some (p1, HeatNode (n\<lparr>hn_SplitThreshold := hn_SplitThreshold n * 2\<rparr>) cs)
             else Evolve ops p1 n) else Some (p1, HeatNode n cs))"
      using False s0 leaf ne by (simp add: AddSample_def Let_def s2_def p1_def)
    obtain p' n' cs' where ev: "Evolve ops p1 n = Some (p', HeatNode n' cs')" "fits p' S (HeatNode n' cs')"
        "hn_PathSegment n' = hn_PathSegment n" "hn_RangeEnd n' = hn_RangeEnd n"
      using Evolve_fits [OF p1 leaf S fit2, of ops] by (elim exE conjE) (rule that, assumption+)
    have sp: "same_place (HeatNode n cs) (HeatNode n' cs')" using ev(3,4) by (simp add: same_place_def)
    have sd: "same_place (HeatNode n cs) (HeatNode (n\<lparr>hn_SplitThreshold := d\<rparr>) cs)" for d by (simp add: same_place_def)
    show ?thesis
    proof (cases "(word_of_int (hn_SplitThreshold n) :: u32) < rs_WriteCount s2 \<and> hn_ReservoirCap n \<le> length (rs_WSuffixReservoir s2)")
      case True
      show ?thesis
      proof (cases "rnd (85 / 100) \<le> rs_OverwriteRation s2")
        case hot: True
        show ?thesis unfolding res if_P [OF True] if_P [OF hot] by (intro exI conjI) (rule refl, rule fit1, rule sd)
      next
        case False
        show ?thesis unfolding res if_P [OF True] if_not_P [OF False] by (intro exI conjI) (rule ev(1), rule ev(2), rule sp)
      qed
    next
      case False
      show ?thesis unfolding res if_not_P [OF False] by (intro exI conjI) (rule refl, use fit2 cs in simp, rule same_place_refl)
    qed
  qed
qed

lemma SearchLeaf_fits:
  "owns p (leaf_ids t @ ids) \<Longrightarrow> tree_ok p t \<Longrightarrow> fits p S t \<Longrightarrow> prefix_free S \<Longrightarrow> no_max S \<Longrightarrow> x \<in> S \<Longrightarrow> takes (root_of t) x \<Longrightarrow>
    \<exists>p' t'. SearchLeaf ops rand x False p t = Some (p', t', True) \<and> fits p' S t' \<and> same_place t t'"
proof (induction t arbitrary: ids S x)
  case (HeatNode n cs)
  let ?y = "drop (length (hn_PathSegment n)) x" and ?S = "rests S (hn_PathSegment n)"
  have pre: "has_prefix x (hn_PathSegment n)" using HeatNode.prems(7) by (simp add: takes_def has_prefix_iff)
  have y: "?y \<in> ?S" "below (inner_end n) ?y" using takes_rest [of n x S] HeatNode.prems(6,7) by simp_all
  show ?case
  proof (cases "hn_IsLeaf n")
    case True
    obtain p' t where "AddSample ops rand ?y False p n cs = Some (p', t)" "fits p' S t" "same_place (HeatNode n cs) t"
      using AddSample_fits [OF HeatNode.prems(1,2) True HeatNode.prems(4,5,3) y] by blast
    then show ?thesis using True pre by (simp add: SearchLeaf.simps)
  next
    case False
    let ?i = "route (hn_SplitRangeKey n) (length cs) ?y" let ?k = "nat ?i" let ?c = "cs ! ?k"
    have r: "routes ?S (inner_end n) (hn_SplitRangeKey n) cs" "\<forall>c \<in> set cs. fits p ?S c" using HeatNode.prems(3) False by (simp_all add: Let_def)
    have i: "0 \<le> ?i \<and> ?k < length cs" "takes (root_of ?c) ?y" using r(1) y by (simp_all add: routes_def)
    define ls rs where "ls = take ?k cs" and "rs = drop (Suc ?k) cs"
    have cs: "cs = ls @ ?c # rs" using i by (simp add: ls_def rs_def id_take_nth_drop)
    let ?ids = "forest_ids ls @ forest_ids rs @ ids"
    have own: "owns p (leaf_ids ?c @ ?ids)"
      by (rule owns_perm [OF HeatNode.prems(1)]) (use False in \<open>simp, subst cs, simp\<close>)
    have tok: "tree_ok p ?c" using HeatNode.prems(2) i by simp
    have "fits p ?S ?c" using r(2) i by simp
    then obtain p' c' where c: "SearchLeaf ops rand ?y False p ?c = Some (p', c', True)" "fits p' ?S c'" "same_place ?c c'"
      using HeatNode.IH [OF nth_mem own tok _ prefix_free_rests [OF HeatNode.prems(4)] no_max_rests [OF HeatNode.prems(5)] y(1) i(2)] i(1) by blast
    have same: "same_on (set ?ids) p p'" using SearchLeaf_ok [OF c(1) own tok] by (simp add: step_ok_def)
    have upd: "cs[?k := c'] = ls @ c' # rs" using i by (simp add: ls_def rs_def upd_conv_take_nth_drop)
    have "fits p' ?S d" if d: "d \<in> set ls \<union> set rs" for d
      by (rule fits_same [of d p]) (use same r(2) d in \<open>auto simp: same_on_def ls_def rs_def dest: in_set_takeD in_set_dropD\<close>)
    then have all: "\<forall>d \<in> set (cs[?k := c']). fits p' ?S d" using c(2) unfolding upd by auto
    have "list_all2 same_place cs (cs[?k := c'])"
      using c(3) i(1) by (auto simp: list_all2_conv_all_nth nth_list_update)
    then have "routes ?S (inner_end n) (hn_SplitRangeKey n) (cs[?k := c'])" by (rule routes_same) (rule r(1))
    then have "fits p' S (HeatNode n (cs[?k := c']))" using all False by (simp add: Let_def)
    then show ?thesis using pre False i(1) c(1) by (simp add: SearchLeaf.simps [of _ _ _ _ _ n] Let_def same_place_def)
  qed
qed

end
