(* ===== verification/HeatRun.thy ===== *)
theory HeatRun
  imports HeatSplit
begin

text \<open>
  Whole runs of the heat map: with keys of which none is a proper prefix of another and without
  bytes 255, every sample finds a leaf and no step panics; and the split that panics otherwise.
\<close>

section \<open>Decay keeps a fitting tree\<close>

lemma prune_cases:
  assumes own: "owns p (forest_ids cs @ ids)" and ok: "\<forall>c \<in> set cs. tree_ok p c" and pr: "prune_node ops p n cs = Some (p', t)"
  shows "(p' = p \<and> t = HeatNode n cs) \<or>
    (\<exists>sid s. t = HeatNode (n\<lparr>hn_IsLeaf := True, hn_SplitRangeKey := [], hn_StatsID := sid\<rparr>) [] \<and> getStats p' sid = Some s \<and> rs_WSuffixReservoir s = [])"
proof -
  obtain b r w where sums: "prune_sums p cs True 0 0 = Some (b, r, w)" "b \<longrightarrow> (\<forall>c \<in> set cs. hn_IsLeaf (root_of c))"
    using prune_sums_ok [OF ok, of True 0 0] by auto
  show ?thesis
  proof (cases "b \<and> r < rnd (1 / 10) \<and> w < 100")
    case False
    have "prune_node ops p n cs = Some (p, HeatNode n cs)" by (simp add: prune_node_def sums(1)) (use False in blast)
    then show ?thesis using pr by simp
  next
    case True
    obtain p1 where p1: "free_children p cs = Some p1" "owns p1 ids"
      using free_children_ok [OF own] ok sums(2) True by blast
    obtain p2 sid s where p2: "AllocateStats ops p1 = Some (p2, sid)" "getStats p2 sid = Some s" "rs_WSuffixReservoir s = []"
      using AllocateStats_ok [OF p1(2), of ops] by (elim exE conjE) (rule that, assumption+)
    have "p' = setStats p2 sid (s\<lparr>rs_OverwriteRation := 0\<rparr>)" "t = HeatNode (n\<lparr>hn_IsLeaf := True, hn_SplitRangeKey := [], hn_StatsID := sid\<rparr>) []"
      using pr True p1(1) p2(1,2) by (simp_all add: prune_node_def sums(1))
    then show ?thesis using getStats_setStats [OF p2(2)] p2(3) by auto
  qed
qed

lemma prune_fits:
  assumes own: "owns p (forest_ids cs @ ids)" and ok: "\<forall>c \<in> set cs. tree_ok p c" and pr: "prune_node ops p n cs = Some (p', t)"
    and fit: "fits p S (HeatNode n cs)"
  shows "fits p' S t \<and> same_place (HeatNode n cs) t"
  using prune_cases [OF own ok pr]
proof (elim disjE exE conjE)
  fix sid s
  assume t: "t = HeatNode (n\<lparr>hn_IsLeaf := True, hn_SplitRangeKey := [], hn_StatsID := sid\<rparr>) []" and s: "getStats p' sid = Some s" "rs_WSuffixReservoir s = []"
  then show ?thesis by (simp add: Let_def same_place_def)
qed (use fit in simp)

lemma traverse_fits:
  "owns p (leaf_ids t @ ids) \<Longrightarrow> tree_ok p t \<Longrightarrow> fits p S t \<Longrightarrow> traverse ops pre a b p cands vol t = Some (p', c', v', t') \<Longrightarrow>
    fits p' S t' \<and> same_place t t'"
  "owns p (forest_ids ts @ ids) \<Longrightarrow> \<forall>t \<in> set ts. tree_ok p t \<Longrightarrow> \<forall>t \<in> set ts. fits p S t \<Longrightarrow> traverse_all ops pre a b p cands vol ts = Some (p', c', v', ts') \<Longrightarrow>
    (\<forall>t \<in> set ts'. fits p' S t) \<and> list_all2 same_place ts ts'"
proof (induction ops pre a b p cands vol t and ops pre a b p cands vol ts arbitrary: ids S p' c' v' t' and ids S p' c' v' ts' rule: traverse_traverse_all.induct)
  case (1 ops pre a b p cands vol n cs)
  show ?case
  proof (cases "hn_IsLeaf n")
    case True
    let ?sid = "hn_StatsID n"
    obtain s0 where s0: "getStats p ?sid = Some s0" using "1.prems"(2) True by auto
    have ne: "?sid \<noteq> -1" using slot_nonneg [OF s0] by simp
    obtain s v where sv: "settle_leaf ops n s0 = (s, v)" by fastforce
    have s: "rs_WSuffixReservoir s = rs_WSuffixReservoir s0" using settle_same [of ops n s0] by (simp add: sv)
    have "p' = setStats p ?sid s" "t' = HeatNode n cs" using "1.prems"(4) True ne s0 sv by (simp_all add: Let_def)
    then show ?thesis using "1.prems"(3) True s s0 by (simp add: Let_def getStats_setStats [OF s0])
  next
    case False
    have own: "owns p (forest_ids cs @ ids)" and ok: "\<forall>c \<in> set cs. tree_ok p c" and fit: "\<forall>c \<in> set cs. fits p (rests S (hn_PathSegment n)) c"
        and r: "routes (rests S (hn_PathSegment n)) (inner_end n) (hn_SplitRangeKey n) cs"
      using "1.prems"(1-3) False by (simp_all add: Let_def)
    let ?a = "if 0 < length (hn_RangeStart n) then pre @ hn_RangeStart n else a" and ?b = "if 0 < length (hn_RangeEnd n) then pre @ hn_RangeEnd n else b"
    obtain p1 cands1 vol1 cs1 where tr: "traverse_all ops (pre @ hn_PathSegment n) ?a ?b p cands vol cs = Some (p1, cands1, vol1, cs1)" "keeps p p1 cs1 ids"
      using traverse_ok(2) [OF own ok, of ops "pre @ hn_PathSegment n" ?a ?b cands vol] by (elim exE conjE) (rule that, assumption+)
    obtain p2 t where pr: "prune_node ops p1 n cs1 = Some (p2, t)" "p' = p2" "t' = t"
      using "1.prems"(4) False tr(1) by (auto simp: Let_def bind_eq_Some_conv)
    have IH: "\<forall>c \<in> set cs1. fits p1 (rests S (hn_PathSegment n)) c" "list_all2 same_place cs cs1"
      using "1.IH" [OF refl refl refl False own ok fit tr(1)] by blast+
    have fit1: "fits p1 S (HeatNode n cs1)" using IH(1) routes_same [OF IH(2) r] False by (simp add: Let_def)
    have "fits p2 S t \<and> same_place (HeatNode n cs1) t"
      by (rule prune_fits [OF _ _ pr(1) fit1, of ids]) (use tr(2) in \<open>simp_all add: keeps_def\<close>)
    then show ?thesis using pr by (simp add: same_place_def)
  qed
next
  case (2 ops pre a b p cands vol)
  then show ?case by simp
next
  case (3 ops pre a b p cands vol c cs)
  obtain p1 cands1 vol1 c1 where c1: "traverse ops pre a b p cands vol c = Some (p1, cands1, vol1, c1)" "step_ok p p1 c1 (forest_ids cs @ ids)"
    using traverse_ok(1) [of p c "forest_ids cs @ ids" ops pre a b cands vol] "3.prems"(1,2) by auto
  have own: "owns p1 (forest_ids cs @ leaf_ids c1 @ ids)"
    by (rule owns_perm [of _ "leaf_ids c1 @ forest_ids cs @ ids"]) (use c1(2) in \<open>simp_all add: step_ok_def\<close>)
  have same: "same_on (set (leaf_ids d)) p p1" if "d \<in> set cs" for d
    using c1(2) that by (auto simp: step_ok_def same_on_def)
  have ok: "\<forall>d \<in> set cs. tree_ok p1 d" and fit: "\<forall>d \<in> set cs. fits p1 S d"
    using tree_ok_same [OF same] fits_same [OF same] "3.prems"(2,3) by simp_all
  obtain p2 cands2 vol2 cs2 where cs2: "traverse_all ops pre a b p1 cands1 vol1 cs = Some (p2, cands2, vol2, cs2)" "keeps p1 p2 cs2 (leaf_ids c1 @ ids)"
    using traverse_ok(2) [OF own ok, of ops pre a b cands1 vol1] by (elim exE conjE) (rule that, assumption+)
  have eq: "p' = p2" "ts' = c1 # cs2" using "3.prems"(4) c1(1) cs2(1) by simp_all
  have i1: "fits p1 S c1" "same_place c c1"
    using "3.IH"(1) [of "forest_ids cs @ ids" S p1 cands1 vol1 c1] "3.prems"(1-3) c1(1) by auto
  have i2: "\<forall>t \<in> set cs2. fits p2 S t" "list_all2 same_place cs cs2"
    using "3.IH"(2) [OF c1(1) refl refl refl own ok fit cs2(1)] by blast+
  have "fits p2 S c1" by (rule fits_same [OF _ i1(1)]) (use cs2(2) in \<open>auto simp: keeps_def same_on_def\<close>)
  then show ?case using i1 i2 by (simp add: eq)
qed

section \<open>Runs\<close>

text \<open>Runs of the manager in which only keys of \<open>U\<close> are recorded.\<close>

inductive heat_run :: "'h hll_ops \<Rightarrow> bytes set \<Rightarrow> 'h heat_manager \<Rightarrow> bool" for ops U where
  run_start: "NewHeatmapManager ops = Some m \<Longrightarrow> heat_run ops U m"
| run_write: "heat_run ops U m \<Longrightarrow> key \<in> U \<Longrightarrow> heat_run ops U (RecordWriteAsync key m)"
| run_sample: "heat_run ops U m \<Longrightarrow> process_sample ops rand m = Some m' \<Longrightarrow> heat_run ops U m'"
| run_flush: "heat_run ops U m \<Longrightarrow> heat_run ops U (fst (OnMemtableFlush m))"
| run_decay: "heat_run ops U m \<Longrightarrow> hm_isDecaying m \<Longrightarrow> finish_decay ops m = Some m' \<Longrightarrow> heat_run ops U m'"

definition run_ok :: "bytes set \<Rightarrow> 'h heat_manager \<Rightarrow> bool" where
  "run_ok U m \<longleftrightarrow> heat_ok m \<and> fits (hm_pool m) U (hm_MotherTree m) \<and> hn_PathSegment (root_of (hm_MotherTree m)) = [] \<and>
     hn_RangeEnd (root_of (hm_MotherTree m)) = [] \<and> set (hm_sampleCh m) \<subseteq> U"

lemma run_search:
  assumes "run_ok U m" and "prefix_free U" and "no_max U" and "key \<in> U"
  shows "\<exists>p t. SearchLeaf ops rand key False (hm_pool m) (hm_MotherTree m) = Some (p, t, True) \<and> fits p U t \<and> same_place (hm_MotherTree m) t"
proof -
  have "takes (root_of (hm_MotherTree m)) key" using assms(1) by (simp add: run_ok_def takes_def below_def)
  then show ?thesis
    using SearchLeaf_fits [of "hm_pool m" "hm_MotherTree m" "[]" U key ops rand] assms by (simp add: run_ok_def heat_ok_def)
qed

lemma run_keeps:
  assumes U: "prefix_free U" "no_max U"
  shows "heat_run ops U m \<Longrightarrow> run_ok U m"
proof (induction rule: heat_run.induct)
  case (run_start m)
  have ok: "heat_ok m" using heat_start [of ops] run_start by auto
  obtain p sid where m: "AllocateStats ops \<lparr>hp_StatsChunks = [], hp_FreeList = []\<rparr> = Some (p, sid)"
      "hm_MotherTree m = newHeatNode 0 [] [] [] sid" "hm_pool m = p" "hm_sampleCh m = []"
    using run_start by (auto simp: NewHeatmapManager_def)
  have "owns (\<lparr>hp_StatsChunks = [], hp_FreeList = []\<rparr> :: 'a heat_pool) []" by (simp add: owns_def chunks_ok_def slots_def getStats_def Let_def)
  then obtain s where "getStats p sid = Some s" "rs_WSuffixReservoir s = []" using AllocateStats_ok [of _ "[]" ops] m(1) by fastforce
  then show ?case using ok m by (simp add: run_ok_def newHeatNode_def Let_def)
next
  case (run_write m key)
  have "heat_ok (RecordWriteAsync key m)" by (rule heat_step_ok [OF queue_write]) (use run_write in \<open>simp add: run_ok_def\<close>)
  then show ?case using run_write by (auto simp: run_ok_def RecordWriteAsync_def)
next
  case (run_sample m rand m')
  have ok: "heat_ok m'" by (rule heat_step_ok [OF take_sample [OF run_sample.hyps(2)]]) (use run_sample in \<open>simp add: run_ok_def\<close>)
  show ?case
  proof (cases "hm_sampleCh m")
    case Nil
    then show ?thesis using run_sample by (simp add: process_sample_def)
  next
    case (Cons key ch)
    then have "key \<in> U" using run_sample.IH by (simp add: run_ok_def)
    then obtain p t where s: "SearchLeaf ops rand key False (hm_pool m) (hm_MotherTree m) = Some (p, t, True)" "fits p U t" "same_place (hm_MotherTree m) t"
      using run_search [OF run_sample.IH U] by blast
    have "m' = m\<lparr>hm_MotherTree := t, hm_pool := p, hm_sampleCh := ch\<rparr>" using run_sample.hyps(2) Cons s(1) by (simp add: process_sample_def)
    then show ?thesis using ok s(2,3) run_sample.IH Cons by (simp add: run_ok_def same_place_def)
  qed
next
  case (run_flush m)
  have "heat_ok (fst (OnMemtableFlush m))" by (rule heat_step_ok [OF flush]) (use run_flush in \<open>simp add: run_ok_def\<close>)
  then show ?case using run_flush by (simp add: run_ok_def OnMemtableFlush_def Let_def)
next
  case (run_decay m m')
  have ok: "heat_ok m'" by (rule heat_step_ok [OF decay [OF run_decay.hyps(2,3)]]) (use run_decay in \<open>simp add: run_ok_def\<close>)
  obtain p cands vol t where tr: "traverse ops [] [] [] (hm_pool m) [] 0 (hm_MotherTree m) = Some (p, cands, vol, t)"
      "m' = m\<lparr>hm_MotherTree := t, hm_pool := p, hm_hotZonesSnapshot := snapshot_zones vol cands, hm_isDecaying := False\<rparr>"
    using run_decay.hyps(3) by (auto simp: finish_decay_def EpochDecayAndSnapshot_def)
  have "fits p U t \<and> same_place (hm_MotherTree m) t"
    using traverse_fits(1) [OF _ _ _ tr(1), of "[]" U] run_decay.IH by (simp add: run_ok_def heat_ok_def)
  then show ?case using ok run_decay.IH by (simp add: tr(2) run_ok_def same_place_def)
qed

text \<open>
  C15: when no recorded key is a proper prefix of another and none has a byte 255, then in every
  state of a run, whatever the random numbers and the sketch, the next turn of the background
  goroutine does not panic, and the search for each of these keys ends in a leaf that samples it.
\<close>

theorem samples_find_leaves:
  assumes "prefix_free U" and "\<forall>key \<in> U. 255 \<notin> set key" and "heat_run ops U m"
  shows "process_sample ops rand m \<noteq> None \<and>
    (\<forall>key \<in> U. \<exists>p t. SearchLeaf ops rand key False (hm_pool m) (hm_MotherTree m) = Some (p, t, True))"
proof -
  have "(255 :: byte) = -1" by simp
  then have U: "no_max U" using assms(2) unfolding no_max_def by metis
  note ok = run_keeps [OF assms(1) U assms(3)]
  have all: "\<forall>key \<in> U. \<exists>p t. SearchLeaf ops rand key False (hm_pool m) (hm_MotherTree m) = Some (p, t, True)"
    using run_search [OF ok assms(1) U] by blast
  moreover have "process_sample ops rand m \<noteq> None"
  proof (cases "hm_sampleCh m")
    case (Cons key ch)
    then have "key \<in> U" using ok by (simp add: run_ok_def)
    then show ?thesis using all Cons by (fastforce simp: process_sample_def)
  qed (simp add: process_sample_def)
  ultimately show ?thesis by blast
qed

theorem samples_find_leaves_witness:
  "\<exists>m p t. heat_run set_ops {[7], [8, 1]} m \<and> SearchLeaf set_ops (\<lambda>n. 0) [8, 1] False (hm_pool m) (hm_MotherTree m) = Some (p, t, True)"
proof -
  obtain m where m: "NewHeatmapManager set_ops = Some m" using heat_start [of set_ops] by blast
  have r: "heat_run set_ops {[7], [8, 1]} (RecordWriteAsync [7] m)" by (rule run_write [OF run_start [OF m]]) simp
  have "prefix_free {[7], [8, 1]}" by (simp add: prefix_free_def)
  then show ?thesis using samples_find_leaves [OF _ _ r, of "\<lambda>n. 0"] r by auto
qed

section \<open>The split that panics\<close>

lemma make_child_none: "hi < lo \<Longrightarrow> make_child ops level stats father p ratio lo hi start fin pre = None"
  by (cases "AllocateStats ops p") (auto simp: make_child_def Let_def bind_eq_None_conv)

text \<open>
  C39: when the first group of a full leaf is that of the empty sample, the key of the leaf itself,
  and another group follows with a sample in it, the split slices its samples from their end
  back to the next group and panics.
\<close>

theorem empty_sample_panics:
  assumes s: "getStats p (hn_StatsID n) = Some s"
    and gs: "chosen_groups (go_sort (\<lambda>a b. bytes_compare a b < 0) (rs_WSuffixReservoir s)) = g # h # gs"
    and g: "rg_CommonPrefix g = []" and h: "rg_CommonPrefix h \<noteq> []" and x: "x \<in> set (rs_WSuffixReservoir s)" "rg_CommonPrefix h \<le> x"
  shows "Evolve ops p n = None"
proof -
  let ?res = "go_sort (\<lambda>a b. bytes_compare a b < 0) (rs_WSuffixReservoir s)"
  let ?s = "s\<lparr>rs_WSuffixReservoir := ?res\<rparr>"
  have "in_order (\<lambda>a b. bytes_compare a b < 0) ?res" by (rule in_order_go_sort) (simp add: strict_weak_def)
  then have srt: "sorted ?res" by (simp add: in_order_def not_less)
  have nx: "NextKeySameLength [] = []" by (simp add: NextKeySameLength_def)
  have lt: "rank ?res (rg_CommonPrefix h) < rank ?res []"
  proof -
    obtain i where i: "i < length ?res" "?res ! i = x" using x(1) in_set_conv_nth [of x ?res] by auto
    have "\<not> i < rank ?res (rg_CommonPrefix h)" using rank_iff [OF srt i(1), of "rg_CommonPrefix h"] h x(2) i(2) by (simp add: below_def not_less)
    then show ?thesis using i(1) by (simp add: rank_def [of _ "[]"])
  qed
  have "splitReservoir ops n ?s (g # h # gs) q = None" for q
  proof -
    let ?l = "hn_Level n + 1" and ?f = "father_ration ops ?s"
    let ?start = "if length (hn_PathSegment n) = 0 then hn_RangeStart n else []"
    have turn: "split_groups ops n ?s ?f False (g # h # gs) (rank ?res []) q1 cs keys = None" for q1 cs keys
    proof (cases "make_child ops ?l ?s ?f q1 (range_ratio (rank ?res []) [] ?res) (rank ?res []) (rank ?res []) [] [] []")
      case None
      then show ?thesis by (simp add: g nx Let_def ratio_pair)
    next
      case (Some qc)
      then show ?thesis by (cases qc) (simp add: g nx h Let_def ratio_pair CompareKey_def make_child_none [OF lt [simplified]])
    qed
    show ?thesis
    proof (cases "make_child ops ?l ?s ?f q (range_ratio 0 [] ?res) 0 (rank ?res []) ?start [] []")
      case None
      then show ?thesis by (simp add: splitReservoir_def g Let_def ratio_pair)
    next
      case (Some qc)
      obtain q1 c where qc: "qc = (q1, c)" by fastforce
      have rs: "rs_WSuffixReservoir ?s = ?res" by simp
      have "split_groups ops n ?s ?f True (g # h # gs) 0 q [] [] = None"
        unfolding split_front [of ops n ?s ?f q g q1 c "h # gs", unfolded rs g, OF Some [unfolded qc]] by (rule turn)
      then show ?thesis by (simp only: splitReservoir_def)
    qed
  qed
  then show ?thesis using s gs by (simp add: Evolve_def Let_def chosen_groups_def)
qed

definition shared_key_pool :: "bytes set heat_pool" where
  "shared_key_pool = \<lparr>hp_StatsChunks = [[(newStats set_ops)\<lparr>rs_WSuffixReservoir := [[48], [], [49]]\<rparr>]], hp_FreeList = []\<rparr>"

theorem empty_sample_panics_witness:
  "Evolve set_ops shared_key_pool (root_of (newHeatNode 0 [] [] [107] 0)) = None"
proof (rule empty_sample_panics)
  let ?s = "(newStats set_ops)\<lparr>rs_WSuffixReservoir := [[48], [], [49]]\<rparr>"
  show "getStats shared_key_pool (hn_StatsID (root_of (newHeatNode 0 [] [] [107] 0))) = Some ?s"
    by (simp add: getStats_def shared_key_pool_def newHeatNode_def StatsChunkSize_def)
  let ?g = "res_range [[], [48], [49]] 0 1" and ?h = "res_range [[], [48], [49]] 1 2" and ?k = "res_range [[], [48], [49]] 2 3"
  have srt: "go_sort (\<lambda>a b. bytes_compare a b < 0) (rs_WSuffixReservoir ?s) = [[], [48], [49]]" by simp
  have cut: "cut_groups [[], [48], [49]] = [?g, ?h, ?k]"
  proof -
    have "cut_groups [[], [48], [49]] = [?g, res_range [[], [48], [49]] 1 (Suc (Suc 0)), res_range [[], [48], [49]] (Suc (Suc 0)) (Suc (Suc (Suc 0)))]"
      by (simp add: cut_groups_def upt_rec getByteAt_def)
    moreover have "Suc (Suc 0) = 2" "Suc 2 = 3" by simp_all
    ultimately show ?thesis by (simp only:)
  qed
  have cnt: "rg_Count ?g = 1" "rg_Count ?h = 1" "rg_Count ?k = 1" by (simp_all add: res_range_def)
  show "chosen_groups (go_sort (\<lambda>a b. bytes_compare a b < 0) (rs_WSuffixReservoir ?s)) = ?g # ?h # [?k]"
    unfolding srt by (simp add: chosen_groups_def FindTopNPrefixGroups_def cut Let_def cnt GuaranteedFanOut_def)
  show "rg_CommonPrefix ?g = []" by (simp add: calcCommonPrefix_def)
  show "rg_CommonPrefix ?h \<noteq> []" "rg_CommonPrefix ?h \<le> [49]" "[49] \<in> set (rs_WSuffixReservoir ?s)" by (simp_all add: calcCommonPrefix_def)
qed

end
