(* ===== verification/LogFile.thy ===== *)
theory LogFile
  imports Txn TableRead
begin

text \<open>
  Log files (\<open>memtable.go\<close>: \<open>logFile\<close>), which hold the entries of the value log and of the
  memtables' write-ahead logs: their encoding, encryption by offset, and reading them back
  (\<open>value.go\<close>: \<open>safeRead\<close>). The file is the content of its memory map. AES in counter mode and
  two operations of the \<open>ristretto\<close> module on mapped files are parameters. \<open>None\<close> is a panic.
\<close>

section \<open>Files\<close>

record data_key =
  dk_KeyId :: u64
  dk_Data :: bytes

record logFile =
  lf_Data :: bytes
  lf_fid :: u32
  lf_size :: u32
  lf_writeAt :: u32
  lf_dataKey :: "data_key option"
  lf_baseIV :: bytes

text \<open>The key stream of a key and an initial vector, \<open>MmapFile.Truncate\<close> and \<open>z.ZeroOut\<close>.\<close>

record log_env =
  le_stream :: "bytes \<Rightarrow> bytes \<Rightarrow> nat \<Rightarrow> byte"
  le_truncate :: "bytes \<Rightarrow> nat \<Rightarrow> bytes"
  le_zero :: "bytes \<Rightarrow> nat \<Rightarrow> nat \<Rightarrow> bytes"

definition vlogHeaderSize :: nat where "vlogHeaderSize = 20"
definition maxHeaderSize :: nat where "maxHeaderSize = 22"

definition encryptionEnabled :: "logFile \<Rightarrow> bool" where
  "encryptionEnabled lf \<longleftrightarrow> lf_dataKey lf \<noteq> None"

definition keyID :: "logFile \<Rightarrow> u64" where
  "keyID lf = (case lf_dataKey lf of None \<Rightarrow> 0 | Some k \<Rightarrow> dk_KeyId k)"

definition generateIV :: "logFile \<Rightarrow> u32 \<Rightarrow> bytes option" where
  "generateIV lf offset = (if length (lf_baseIV lf) < 12 then None else Some (take 12 (lf_baseIV lf) @ U32ToBytes offset))"

definition decryptKV :: "log_env \<Rightarrow> logFile \<Rightarrow> bytes \<Rightarrow> u32 \<Rightarrow> bytes option" where
  "decryptKV env lf buf offset = (case lf_dataKey lf of None \<Rightarrow> None
     | Some k \<Rightarrow> map_option (\<lambda>iv. XORBlock (le_stream env (dk_Data k) iv) buf) (generateIV lf offset))"

text \<open>Encrypting and decrypting are the same where a key is set.\<close>

definition crypt :: "log_env \<Rightarrow> logFile \<Rightarrow> bytes \<Rightarrow> u32 \<Rightarrow> bytes option" where
  "crypt env lf kv offset = (if encryptionEnabled lf then decryptKV env lf kv offset else Some kv)"

definition entry_header :: "Entry \<Rightarrow> header" where
  "entry_header e = \<lparr>h_klen = word_of_nat (length (e_Key e)), h_vlen = word_of_nat (length (slice_bytes (e_Value e))),
     h_expiresAt = e_ExpiresAt e, h_meta = e_meta e, h_userMeta = e_UserMeta e\<rparr>"

definition encodeEntry :: "log_env \<Rightarrow> logFile \<Rightarrow> Entry \<Rightarrow> u32 \<Rightarrow> (bytes \<times> nat) option" where
  "encodeEntry env lf e offset =
     (let headerEnc = header_Encode (entry_header e);
          kv = e_Key e @ slice_bytes (e_Value e)
      in map_option (\<lambda>body. (headerEnc @ body @ U32ToBytes (crc32c (headerEnc @ body)),
           length headerEnc + length (e_Key e) + length (slice_bytes (e_Value e)) + 4)) (crypt env lf kv offset))"

definition zeroNextEntry :: "log_env \<Rightarrow> logFile \<Rightarrow> logFile" where
  "zeroNextEntry env lf = lf\<lparr>lf_Data := le_zero env (lf_Data lf) (unat (lf_writeAt lf)) (unat (lf_writeAt lf + of_nat maxHeaderSize))\<rparr>"

text \<open>The assertion says that the entry fits into the map.\<close>

definition writeEntry :: "log_env \<Rightarrow> logFile \<Rightarrow> Entry \<Rightarrow> logFile option" where
  "writeEntry env lf e = Option.bind (encodeEntry env lf e (lf_writeAt lf)) (\<lambda>(buf, plen).
     let w = unat (lf_writeAt lf)
     in if length (lf_Data lf) < w \<or> length (lf_Data lf) - w < plen then None
        else Some (zeroNextEntry env (lf\<lparr>lf_Data := take w (lf_Data lf) @ buf @ drop (w + plen) (lf_Data lf), lf_writeAt := lf_writeAt lf + of_nat plen\<rparr>)))"

text \<open>The slices of the key and the value panic where the header asks for more than there is.\<close>

definition decodeEntry :: "log_env \<Rightarrow> logFile \<Rightarrow> bytes \<Rightarrow> u32 \<Rightarrow> Entry option" where
  "decodeEntry env lf buf offset = Option.bind (header_Decode buf) (\<lambda>(h, hlen).
     Option.bind (slice_from buf hlen) (\<lambda>enc.
     Option.bind (crypt env lf enc offset) (\<lambda>kv.
     Option.bind (go_slice kv 0 (uint (h_klen h))) (\<lambda>key.
     Option.bind (go_slice kv (uint (h_klen h)) (uint (h_klen h + h_vlen h))) (\<lambda>val.
     Some \<lparr>e_Key = key, e_Value = Some val, e_ExpiresAt = h_expiresAt h, e_version = 0, e_UserMeta = h_userMeta h,
       e_meta = h_meta h, e_valThreshold = 0\<rparr>)))))"

datatype log_error = IoEOF | IoUnexpectedEOF | NeedsTruncate | VarintOverflow

text \<open>\<open>read\<close>: the bytes of a value pointer, or the error \<open>EOF\<close>.\<close>

definition lf_read :: "logFile \<Rightarrow> valuePointer \<Rightarrow> (log_error + bytes) option" where
  "lf_read lf p =
     (let offset = uint (vp_Offset p); size = int (length (lf_Data lf)); fin = uint (vp_Offset p + vp_Len p)
      in if size \<le> offset \<or> size < fin \<or> uint (lf_size lf) < fin then Some (Inl IoEOF)
         else map_option Inr (go_slice (lf_Data lf) offset fin))"

text \<open>\<open>Truncate\<close> asserts that the file is writable, unless it has the size already.\<close>

definition lf_Truncate :: "log_env \<Rightarrow> bool \<Rightarrow> logFile \<Rightarrow> nat \<Rightarrow> logFile option" where
  "lf_Truncate env readOnly lf fin =
     (if length (lf_Data lf) = fin then Some lf
      else if readOnly then None
      else Some (lf\<lparr>lf_size := of_nat fin, lf_Data := le_truncate env (lf_Data lf) fin\<rparr>))"

definition doneWriting :: "log_env \<Rightarrow> logFile \<Rightarrow> u32 \<Rightarrow> logFile option" where
  "doneWriting env lf offset = lf_Truncate env False lf (unat offset)"

text \<open>A new file of some size: the key identifier and a random vector in front.\<close>

definition bootstrap :: "log_env \<Rightarrow> data_key option \<Rightarrow> bytes \<Rightarrow> logFile \<Rightarrow> logFile option" where
  "bootstrap env dk rand lf =
     (let lf1 = lf\<lparr>lf_dataKey := dk\<rparr>; buf = U64ToBytes (keyID lf1) @ rand
      in if length rand \<noteq> 12 \<or> length (lf_Data lf1) < vlogHeaderSize then None
         else Some (zeroNextEntry env (lf1\<lparr>lf_baseIV := rand, lf_Data := buf @ drop vlogHeaderSize (lf_Data lf1)\<rparr>)))"

text \<open>
  \<open>open\<close>, for the content of the file; the registry gives the key of an identifier, and an error of
  the registry is \<open>None\<close> too. A file shorter than its header is left to the replay.
\<close>

definition read_header :: "(u64 \<Rightarrow> data_key option option) \<Rightarrow> logFile \<Rightarrow> logFile option" where
  "read_header registry lf = map_option (\<lambda>dk. lf\<lparr>lf_dataKey := dk, lf_baseIV := take 12 (drop 8 (lf_Data lf))\<rparr>) (registry (Uint64 (take 8 (lf_Data lf))))"

definition lf_open_new :: "log_env \<Rightarrow> (u64 \<Rightarrow> data_key option option) \<Rightarrow> data_key option \<Rightarrow> bytes \<Rightarrow> u32 \<Rightarrow> bytes \<Rightarrow> logFile option" where
  "lf_open_new env registry dk rand fid content =
     Option.bind (bootstrap env dk rand \<lparr>lf_Data = content, lf_fid = fid, lf_size = 0, lf_writeAt = of_nat vlogHeaderSize, lf_dataKey = None, lf_baseIV = []\<rparr>)
       (\<lambda>lf. read_header registry (lf\<lparr>lf_size := of_nat (length (lf_Data lf))\<rparr>))"

definition lf_open_old :: "(u64 \<Rightarrow> data_key option option) \<Rightarrow> u32 \<Rightarrow> bytes \<Rightarrow> logFile option" where
  "lf_open_old registry fid content =
     (let lf = \<lparr>lf_Data = content, lf_fid = fid, lf_size = of_nat (length content), lf_writeAt = of_nat vlogHeaderSize, lf_dataKey = None, lf_baseIV = []\<rparr>
      in if length content < vlogHeaderSize then Some lf
         else read_header registry lf)"

section \<open>Reading entries\<close>

text \<open>\<open>hashReader.ReadByte\<close>: what has been read is hashed, so the model keeps it by position.\<close>

definition ReadByte :: "bytes \<Rightarrow> log_error + (byte \<times> bytes)" where
  "ReadByte bs = (case bs of [] \<Rightarrow> Inl IoEOF | b # r \<Rightarrow> Inr (b, r))"

text \<open>\<open>binary.ReadUvarint\<close>.\<close>

fun ReadUvarint :: "nat \<Rightarrow> nat \<Rightarrow> bytes \<Rightarrow> log_error + (nat \<times> bytes)" where
  "ReadUvarint i x bs =
     (if 10 \<le> i then Inl VarintOverflow
      else case bs of [] \<Rightarrow> Inl (if 0 < i then IoUnexpectedEOF else IoEOF)
        | b # r \<Rightarrow>
            if unat b < 128 then (if i = 9 \<and> 1 < unat b then Inl VarintOverflow else Inr (x + unat b * 128 ^ i, r))
            else ReadUvarint (i + 1) (x + (unat b - 128) * 128 ^ i) r)"

declare ReadUvarint.simps [simp del]

definition bindE :: "'e + 'a \<Rightarrow> ('a \<Rightarrow> 'e + 'b) \<Rightarrow> 'e + 'b" where
  "bindE m f = (case m of Inl e \<Rightarrow> Inl e | Inr a \<Rightarrow> f a)"

lemma bindE_simps [simp]: "bindE (Inl e) f = Inl e" "bindE (Inr a) f = f a"
  by (simp_all add: bindE_def)

definition DecodeFrom :: "bytes \<Rightarrow> log_error + (header \<times> bytes)" where
  "DecodeFrom bs =
     bindE (ReadByte bs) (\<lambda>(meta, r1).
     bindE (ReadByte r1) (\<lambda>(userMeta, r2).
     bindE (ReadUvarint 0 0 r2) (\<lambda>(klen, r3).
     bindE (ReadUvarint 0 0 r3) (\<lambda>(vlen, r4).
     bindE (ReadUvarint 0 0 r4) (\<lambda>(expiresAt, r5).
     Inr (\<lparr>h_klen = of_nat klen, h_vlen = of_nat vlen, h_expiresAt = of_nat expiresAt, h_meta = meta, h_userMeta = userMeta\<rparr>, r5))))))"

text \<open>\<open>io.ReadFull\<close>; the callers turn its \<open>EOF\<close> into \<open>errTruncate\<close>.\<close>

definition ReadFull :: "nat \<Rightarrow> bytes \<Rightarrow> log_error + (bytes \<times> bytes)" where
  "ReadFull n bs = (if n \<le> length bs then Inr (take n bs, drop n bs) else if bs = [] then Inl NeedsTruncate else Inl IoUnexpectedEOF)"

text \<open>
  \<open>safeRead.Entry\<close>: the entry, the length of its header, and the rest of the input. The sum of the
  lengths is taken in 32 bits.
\<close>

definition read_log_entry :: "log_env \<Rightarrow> logFile \<Rightarrow> u32 \<Rightarrow> bytes \<Rightarrow> (log_error + (Entry \<times> nat \<times> bytes)) option" where
  "read_log_entry env lf recordOffset bs =
     (case DecodeFrom bs of Inl err \<Rightarrow> Some (Inl err)
      | Inr (h, r1) \<Rightarrow>
          let hlen = length bs - length r1
          in if 2 ^ 16 < unat (h_klen h) then Some (Inl NeedsTruncate)
             else case ReadFull (unat (h_klen h + h_vlen h)) r1 of Inl err \<Rightarrow> Some (Inl err)
               | Inr (enc, r2) \<Rightarrow>
                   Option.bind (crypt env lf enc recordOffset) (\<lambda>buf.
                   if length buf < unat (h_klen h) then None
                   else case ReadFull 4 r2 of Inl err \<Rightarrow> Some (Inl err)
                     | Inr (crcBuf, r3) \<Rightarrow>
                         if word_of_nat (be_get crcBuf) \<noteq> crc32c (take hlen bs @ enc) then Some (Inl NeedsTruncate)
                         else Some (Inr (\<lparr>e_Key = take (unat (h_klen h)) buf, e_Value = Some (drop (unat (h_klen h)) buf), e_ExpiresAt = h_expiresAt h,
                              e_version = 0, e_UserMeta = h_userMeta h, e_meta = h_meta h, e_valThreshold = 0\<rparr>, hlen, r3))))"

lemma ReadUvarint_rest: "ReadUvarint i x bs = Inr (n, r) \<Longrightarrow> length r < length bs"
proof (induction i x bs rule: ReadUvarint.induct)
  case (1 i x bs)
  show ?case
  proof (cases bs)
    case Nil
    then show ?thesis using "1.prems" by (simp add: ReadUvarint.simps split: if_splits)
  next
    case (Cons b r')
    show ?thesis
    proof (cases "10 \<le> i \<or> unat b < 128")
      case True
      then show ?thesis using "1.prems" Cons by (subst (asm) ReadUvarint.simps) (auto split: if_splits)
    next
      case False
      then have "ReadUvarint (i + 1) (x + (unat b - 128) * 128 ^ i) r' = Inr (n, r)"
        using "1.prems" Cons by (subst (asm) ReadUvarint.simps) simp
      then have "length r < length r'" using "1.IH" [of b r'] False Cons by simp
      then show ?thesis using Cons by simp
    qed
  qed
qed

lemma DecodeFrom_rest: "DecodeFrom bs = Inr (h, r) \<Longrightarrow> length r < length bs"
proof -
  assume d: "DecodeFrom bs = Inr (h, r)"
  obtain a b r2 where bs: "bs = a # b # r2"
    using d by (cases bs; cases "tl bs") (auto simp: DecodeFrom_def ReadByte_def)
  obtain k r3 where r3: "ReadUvarint 0 0 r2 = Inr (k, r3)"
    using d bs by (cases "ReadUvarint 0 0 r2") (auto simp: DecodeFrom_def ReadByte_def)
  obtain v r4 where r4: "ReadUvarint 0 0 r3 = Inr (v, r4)"
    using d bs r3 by (cases "ReadUvarint 0 0 r3") (auto simp: DecodeFrom_def ReadByte_def)
  obtain x r5 where r5: "ReadUvarint 0 0 r4 = Inr (x, r5)"
    using d bs r3 r4 by (cases "ReadUvarint 0 0 r4") (auto simp: DecodeFrom_def ReadByte_def)
  have "r = r5" using d bs r3 r4 r5 by (simp add: DecodeFrom_def ReadByte_def)
  then show ?thesis using ReadUvarint_rest [OF r3] ReadUvarint_rest [OF r4] ReadUvarint_rest [OF r5] bs by simp
qed

lemma read_log_entry_rest: "read_log_entry env lf off bs = Some (Inr (e, hlen, r)) \<Longrightarrow> length r < length bs"
proof -
  assume a: "read_log_entry env lf off bs = Some (Inr (e, hlen, r))"
  obtain h r1 where d: "DecodeFrom bs = Inr (h, r1)" using a by (cases "DecodeFrom bs") (auto simp: read_log_entry_def)
  have "length r \<le> length r1"
    using a d by (auto simp: read_log_entry_def Let_def ReadFull_def bind_eq_Some_conv split: if_splits)
  then show ?thesis using DecodeFrom_rest [OF d] by simp
qed

end
