(* ===== verification/LogCodec.thy ===== *)
theory LogCodec
  imports LogFile
begin

text \<open>
  Entries come back from a log file as they were written; a record that is cut off, and the
  zeros behind the last one, end the reading without an error.
\<close>

section \<open>Whole records\<close>

definition stored :: "Entry \<Rightarrow> Entry" where
  "stored e = \<lparr>e_Key = e_Key e, e_Value = Some (slice_bytes (e_Value e)), e_ExpiresAt = e_ExpiresAt e, e_version = 0,
     e_UserMeta = e_UserMeta e, e_meta = e_meta e, e_valThreshold = 0\<rparr>"

text \<open>What fits into the fields of a header.\<close>

definition entry_fits :: "Entry \<Rightarrow> bool" where
  "entry_fits e \<longleftrightarrow> length (e_Key e) \<le> 2 ^ 16 \<and> length (e_Key e) + length (slice_bytes (e_Value e)) < 2 ^ 32"

definition iv_ok :: "logFile \<Rightarrow> bool" where
  "iv_ok lf \<longleftrightarrow> (encryptionEnabled lf \<longrightarrow> 12 \<le> length (lf_baseIV lf))"

lemma crypt_some: "iv_ok lf \<Longrightarrow> \<exists>body. crypt env lf kv off = Some body \<and> length body = length kv \<and> crypt env lf body off = Some kv"
  by (auto simp: iv_ok_def crypt_def decryptKV_def generateIV_def encryptionEnabled_def)

lemma ReadUvarint_loop:
  "uvarint_loop i x bs = (n, c) \<Longrightarrow> 0 < c \<Longrightarrow> i \<le> 10 \<Longrightarrow> int i < c \<and> ReadUvarint i x bs = Inr (n, drop (nat c - i) bs)"
proof (induction i x bs rule: uvarint_loop.induct)
  case (2 i x b bs)
  show ?case
  proof (cases "i = 10 \<or> unat b < 128")
    case True
    have one: "nat (1 + int i) - i = Suc 0" "nat (int i + 1) - i = Suc 0" by simp_all
    show ?thesis using True "2.prems" one by (subst ReadUvarint.simps) (auto split: if_splits)
  next
    case False
    then have IH: "int (i + 1) < c" "ReadUvarint (i + 1) (x + (unat b - 128) * 128 ^ i) bs = Inr (n, drop (nat c - (i + 1)) bs)"
      using 2 by simp_all
    have "nat c - i = Suc (nat c - (i + 1))" using IH(1) by linarith
    then show ?thesis using IH False "2.prems"(3) by (subst ReadUvarint.simps) simp
  qed
qed simp

lemma ReadUvarint_put: "n < 2 ^ 64 \<Longrightarrow> ReadUvarint 0 0 (put_uvarint n @ r) = Inr (n, r)"
  using ReadUvarint_loop [OF uvarint_loop_put [of n 0 0 r]] by simp

lemma DecodeFrom_Encode: "DecodeFrom (header_Encode h @ r) = Inr (h, r)"
proof -
  have u32: "unat (w :: u32) < 2 ^ 64" for w using unsigned_less [of w, where ?'a = nat] by simp
  have u64: "unat (w :: u64) < 2 ^ 64" for w using unsigned_less [of w, where ?'a = nat] by simp
  show ?thesis
    by (simp add: DecodeFrom_def header_Encode_def ReadByte_def ReadUvarint_put [OF u32] ReadUvarint_put [OF u64])
qed

lemma be_get_crc: "word_of_nat (be_get (U32ToBytes w)) = w"
  using BytesToU32_append [of w "[]"] by (simp add: BytesToU32_def U32ToBytes_def)

lemma length_U32ToBytes [simp]: "length (U32ToBytes w) = 4"
  by (simp add: U32ToBytes_def)

lemma encodeEntry_some:
  assumes "iv_ok lf"
  shows "\<exists>enc. encodeEntry env lf e off = Some (enc, length enc) \<and> 9 \<le> length enc \<and> length enc \<le> 26 + length (e_Key e) + length (slice_bytes (e_Value e))"
proof -
  obtain body where b: "crypt env lf (e_Key e @ slice_bytes (e_Value e)) off = Some body" "length body = length (e_Key e @ slice_bytes (e_Value e))"
    using crypt_some [OF assms] by blast
  let ?h = "entry_header e"
  have "5 \<le> length (header_Encode ?h)"
  proof -
    have "1 \<le> sizeVarint n" for n using sizeVarint_pos [of n] by linarith
    from this [of "unat (h_klen ?h)"] this [of "unat (h_vlen ?h)"] this [of "unat (h_expiresAt ?h)"] show ?thesis
      unfolding header_Encode_def length_append length_put_uvarint by simp
  qed
  then show ?thesis using b length_header_Encode [of ?h] by (simp add: encodeEntry_def Let_def)
qed

lemma read_encoded:
  assumes iv: "iv_ok lf" and fit: "entry_fits e" and enc: "encodeEntry env lf e off = Some (enc, plen)"
  shows "\<exists>hlen. read_log_entry env lf off (enc @ r) = Some (Inr (stored e, hlen, r)) \<and> plen = length enc \<and>
    length enc = hlen + length (e_Key e) + length (slice_bytes (e_Value e)) + 4"
proof -
  let ?h = "entry_header e" and ?kv = "e_Key e @ slice_bytes (e_Value e)"
  obtain body where b: "crypt env lf ?kv off = Some body" "length body = length ?kv" "crypt env lf body off = Some ?kv"
    using crypt_some [OF iv] by blast
  have e: "enc = header_Encode ?h @ body @ U32ToBytes (crc32c (header_Encode ?h @ body))" "plen = length enc"
    using enc b(1,2) by (auto simp: encodeEntry_def Let_def)
  have kl: "unat (h_klen ?h) = length (e_Key e)" "unat (h_klen ?h + h_vlen ?h) = length ?kv"
    using fit by (simp_all add: entry_header_def entry_fits_def unsigned_of_nat take_bit_nat_eq_self flip: of_nat_add)
  have d: "DecodeFrom (enc @ r) = Inr (?h, body @ U32ToBytes (crc32c (header_Encode ?h @ body)) @ r)"
    by (simp add: e(1) DecodeFrom_Encode)
  have "read_log_entry env lf off (enc @ r) = Some (Inr (stored e, length (header_Encode ?h), r))"
    using fit b(2,3) d kl
    by (simp add: read_log_entry_def ReadFull_def e(1) be_get_crc stored_def entry_header_def entry_fits_def)
  then show ?thesis using e b(2) by simp
qed

section \<open>Records cut off\<close>

definition soft :: "log_error set" where "soft = {IoEOF, IoUnexpectedEOF, NeedsTruncate}"

lemma ReadUvarint_cut:
  "ReadUvarint i x bs = Inr (n, r) \<Longrightarrow>
    (k < length bs - length r \<longrightarrow> (\<exists>e \<in> soft. ReadUvarint i x (take k bs) = Inl e)) \<and>
    (length bs - length r \<le> k \<longrightarrow> ReadUvarint i x (take k bs) = Inr (n, take (k - (length bs - length r)) r))"
proof (induction i x bs arbitrary: k rule: ReadUvarint.induct)
  case (1 i x bs)
  have i: "\<not> 10 \<le> i" using "1.prems" by (subst (asm) ReadUvarint.simps) (simp split: if_splits)
  obtain b r' where bs: "bs = b # r'" using "1.prems" by (cases bs) (simp_all add: ReadUvarint.simps split: if_splits)
  have lr: "length r < length bs" by (rule ReadUvarint_rest [OF "1.prems"])
  show ?case
  proof (cases k)
    case 0
    then show ?thesis using lr i by (simp add: ReadUvarint.simps [of i x "[]"] soft_def)
  next
    case (Suc k')
    show ?thesis
    proof (cases "unat b < 128")
      case True
      then have "r = r'" "ReadUvarint i x (b # q) = Inr (n, q)" for q
        using "1.prems" i unfolding bs by (simp_all add: ReadUvarint.simps [of i x "_ # _"] split: if_splits)
      then show ?thesis using Suc bs by simp
    next
      case False
      have step: "ReadUvarint i x (b # q) = ReadUvarint (i + 1) (x + (unat b - 128) * 128 ^ i) q" for q
        using False i by (subst ReadUvarint.simps) simp
      have rr: "ReadUvarint (i + 1) (x + (unat b - 128) * 128 ^ i) r' = Inr (n, r)" using "1.prems" unfolding bs step .
      have "length r < length r'" by (rule ReadUvarint_rest [OF rr])
      then show ?thesis using "1.IH" [OF i bs False rr, of k'] Suc bs step by (simp add: Suc_diff_le less_imp_le)
    qed
  qed
qed

lemma DecodeFrom_cut:
  assumes "DecodeFrom bs = Inr (h, r)"
  shows "(k < length bs - length r \<longrightarrow> (\<exists>e \<in> soft. DecodeFrom (take k bs) = Inl e)) \<and>
    (length bs - length r \<le> k \<longrightarrow> DecodeFrom (take k bs) = Inr (h, take (k - (length bs - length r)) r))"
proof -
  obtain a b r2 where bs: "bs = a # b # r2"
    using assms by (cases bs; cases "tl bs") (auto simp: DecodeFrom_def ReadByte_def)
  obtain kl r3 where r3: "ReadUvarint 0 0 r2 = Inr (kl, r3)"
    using assms bs by (cases "ReadUvarint 0 0 r2") (auto simp: DecodeFrom_def ReadByte_def)
  obtain v r4 where r4: "ReadUvarint 0 0 r3 = Inr (v, r4)"
    using assms bs r3 by (cases "ReadUvarint 0 0 r3") (auto simp: DecodeFrom_def ReadByte_def)
  obtain x where r5: "ReadUvarint 0 0 r4 = Inr (x, r)" and h: "h = \<lparr>h_klen = of_nat kl, h_vlen = of_nat v, h_expiresAt = of_nat x, h_meta = a, h_userMeta = b\<rparr>"
    using assms bs r3 r4 by (cases "ReadUvarint 0 0 r4") (auto simp: DecodeFrom_def ReadByte_def)
  note lens = ReadUvarint_rest [OF r3] ReadUvarint_rest [OF r4] ReadUvarint_rest [OF r5]
  have total: "length bs - length r = 2 + (length r2 - length r3) + (length r3 - length r4) + (length r4 - length r)" using lens bs by simp
  let ?k2 = "k - 2" let ?k3 = "?k2 - (length r2 - length r3)" let ?k4 = "?k3 - (length r3 - length r4)"
  consider "k < 2" | "2 \<le> k" "?k2 < length r2 - length r3" | "2 \<le> k" "length r2 - length r3 \<le> ?k2" "?k3 < length r3 - length r4"
    | "2 \<le> k" "length r2 - length r3 \<le> ?k2" "length r3 - length r4 \<le> ?k3" by linarith
  then show ?thesis
  proof cases
    case 1
    then consider "k = 0" | "k = 1" by linarith
    then show ?thesis using lens bs by cases (simp_all add: DecodeFrom_def ReadByte_def soft_def)
  next
    case 2
    then obtain e where "e \<in> soft" "ReadUvarint 0 0 (take ?k2 r2) = Inl e" using ReadUvarint_cut [OF r3, of ?k2] by blast
    moreover have "take k bs = a # b # take ?k2 r2" using 2 bs by (simp add: take_Cons' numeral_2_eq_2)
    ultimately show ?thesis using lens bs 2 by (auto simp: DecodeFrom_def ReadByte_def)
  next
    case 3
    then obtain e where "e \<in> soft" "ReadUvarint 0 0 (take ?k3 r3) = Inl e" using ReadUvarint_cut [OF r4, of ?k3] by blast
    moreover have "ReadUvarint 0 0 (take ?k2 r2) = Inr (kl, take ?k3 r3)" using ReadUvarint_cut [OF r3, of ?k2] 3 by blast
    moreover have "take k bs = a # b # take ?k2 r2" using 3 bs by (simp add: take_Cons' numeral_2_eq_2)
    ultimately show ?thesis using lens bs 3 by (auto simp: DecodeFrom_def ReadByte_def)
  next
    case 4
    have t: "take k bs = a # b # take ?k2 r2" using 4 bs by (simp add: take_Cons' numeral_2_eq_2)
    have s: "ReadUvarint 0 0 (take ?k2 r2) = Inr (kl, take ?k3 r3)" "ReadUvarint 0 0 (take ?k3 r3) = Inr (v, take ?k4 r4)"
      using ReadUvarint_cut [OF r3, of ?k2] ReadUvarint_cut [OF r4, of ?k3] 4 by blast+
    have eq: "DecodeFrom (take k bs) = bindE (ReadUvarint 0 0 (take ?k4 r4)) (\<lambda>(expiresAt, r5).
        Inr (\<lparr>h_klen = of_nat kl, h_vlen = of_nat v, h_expiresAt = of_nat expiresAt, h_meta = a, h_userMeta = b\<rparr>, r5))"
      unfolding t using s by (simp add: DecodeFrom_def ReadByte_def)
    show ?thesis
    proof (cases "?k4 < length r4 - length r")
      case True
      then obtain e where "e \<in> soft" "ReadUvarint 0 0 (take ?k4 r4) = Inl e" using ReadUvarint_cut [OF r5, of ?k4] by blast
      then show ?thesis using True 4 lens bs unfolding eq by auto
    next
      case False
      have "ReadUvarint 0 0 (take ?k4 r4) = Inr (x, take (?k4 - (length r4 - length r)) r)" using ReadUvarint_cut [OF r5, of ?k4] False by simp
      moreover have "?k4 - (length r4 - length r) = k - (length bs - length r)" using total by simp
      moreover have "length bs - length r \<le> k" using total 4 False by linarith
      ultimately show ?thesis unfolding eq by (simp add: h)
    qed
  qed
qed

lemma ReadFull_cut: "n \<le> length bs \<Longrightarrow> k < n \<Longrightarrow> \<exists>e \<in> soft. ReadFull n (take k bs) = Inl e"
  by (simp add: ReadFull_def soft_def)

text \<open>Every strict prefix of a record is read as an end of the file.\<close>

lemma read_cut:
  assumes a: "read_log_entry env lf off bs = Some (Inr (e, hlen, r))" and k: "k < length bs - length r"
  shows "\<exists>err \<in> soft. read_log_entry env lf off (take k bs) = Some (Inl err)"
proof -
  obtain h r1 where d: "DecodeFrom bs = Inr (h, r1)" using a by (cases "DecodeFrom bs") (auto simp: read_log_entry_def)
  let ?n = "unat (h_klen h + h_vlen h)" and ?c = "length bs - length r1"
  have kl: "\<not> 2 ^ 16 < unat (h_klen h)" using a d by (auto simp: read_log_entry_def)
  obtain enc r2 where r2: "ReadFull ?n r1 = Inr (enc, r2)" using a d kl by (cases "ReadFull ?n r1") (auto simp: read_log_entry_def Let_def)
  obtain buf where buf: "crypt env lf enc off = Some buf" "\<not> length buf < unat (h_klen h)"
    using a d kl r2 by (auto simp: read_log_entry_def Let_def bind_eq_Some_conv split: if_splits)
  obtain crcBuf where r3: "ReadFull 4 r2 = Inr (crcBuf, r)"
    using a d kl r2 buf by (cases "ReadFull 4 r2") (auto simp: read_log_entry_def Let_def split: if_splits)
  have n: "?n \<le> length r1" "enc = take ?n r1" "r2 = drop ?n r1" using r2 by (auto simp: ReadFull_def split: if_splits)
  have m: "4 \<le> length r2" "r = drop 4 r2" using r3 by (auto simp: ReadFull_def split: if_splits)
  have lr: "length r1 < length bs" by (rule DecodeFrom_rest [OF d])
  show ?thesis
  proof (cases "k < ?c")
    case True
    then show ?thesis using DecodeFrom_cut [OF d, of k] by (auto simp: read_log_entry_def)
  next
    case False
    have dk: "DecodeFrom (take k bs) = Inr (h, take (k - ?c) r1)" using DecodeFrom_cut [OF d, of k] False by simp
    show ?thesis
    proof (cases "k - ?c < ?n")
      case True
      obtain err where "err \<in> soft" "ReadFull ?n (take (k - ?c) r1) = Inl err" using ReadFull_cut [OF n(1) True] by blast
      then show ?thesis using dk kl by (auto simp: read_log_entry_def Let_def)
    next
      case False
      have rk: "ReadFull ?n (take (k - ?c) r1) = Inr (enc, take (k - ?c - ?n) r2)"
        using False n(1) unfolding n(2,3) by (simp add: ReadFull_def drop_take min_absorb1)
      have "k - ?c - ?n < 4" using k n m lr \<open>\<not> k < ?c\<close> False by auto
      then obtain err where "err \<in> soft" "ReadFull 4 (take (k - ?c - ?n) r2) = Inl err" using ReadFull_cut [OF m(1)] by blast
      then show ?thesis using dk kl rk buf by (auto simp: read_log_entry_def Let_def)
    qed
  qed
qed

lemma crc_byte: "crc_bits 8 c = crc_bits (Suc (Suc (Suc (Suc (Suc (Suc (Suc (Suc 0)))))))) c"
  by (simp add: eval_nat_numeral del: crc_bits.simps)

lemma crc_first_bits:
  "crc_bits (Suc n) (4294967295 :: u32) = crc_bits n 4245275783"
  "crc_bits (Suc n) (4245275783 :: u32) = crc_bits n 4235385147"
  "crc_bits (Suc n) (4235385147 :: u32) = crc_bits n 4241446885"
  "crc_bits (Suc n) (4241446885 :: u32) = crc_bits n 4237398154"
  "crc_bits (Suc n) (4237398154 :: u32) = crc_bits n 2118699077"
  "crc_bits (Suc n) (2118699077 :: u32) = crc_bits n 3184680794"
  "crc_bits (Suc n) (3184680794 :: u32) = crc_bits n 1592340397"
  "crc_bits (Suc n) (1592340397 :: u32) = crc_bits n 2911022254"
  by simp_all

lemma crc_zero_bytes:
  "crc_bits 8 (- 1 :: u32) = 2911022254" "crc_bits 8 (2911022254 :: u32) = 245270573" "crc_bits 8 (245270573 :: u32) = 2677759109" "crc_bits 8 (2677759109 :: u32) = 3080238136" "crc_bits 8 (3080238136 :: u32) = 3129838026"
proof -
  have "(- 1 :: u32) = 4294967295" by simp
  then show "crc_bits 8 (- 1 :: u32) = 2911022254" by (simp only: crc_byte crc_first_bits crc_bits.simps(1))
qed (simp_all add: crc_byte)

lemma crc_zeros: "crc32c [0, 0, 0, 0, 0] \<noteq> 0"
  unfolding crc32c_def by (simp add: crc_zero_bytes)

definition ends_log :: "log_env \<Rightarrow> logFile \<Rightarrow> u32 \<Rightarrow> bytes \<Rightarrow> bool" where
  "ends_log env lf off bs \<longleftrightarrow> (\<exists>err \<in> soft. read_log_entry env lf off bs = Some (Inl err))"

lemma DecodeFrom_zeros: "DecodeFrom (0 # 0 # 0 # 0 # 0 # q) = Inr (\<lparr>h_klen = 0, h_vlen = 0, h_expiresAt = 0, h_meta = 0, h_userMeta = 0\<rparr>, q)"
  by (simp add: DecodeFrom_def ReadByte_def ReadUvarint.simps)

lemma read_zeros: "iv_ok lf \<Longrightarrow> ends_log env lf off (0 # 0 # 0 # 0 # 0 # 0 # 0 # 0 # 0 # r)"
proof -
  assume iv: "iv_ok lf"
  have c: "crypt env lf [] off = Some []" using crypt_some [OF iv, of env "[]" off] by auto
  then show ?thesis using crc_zeros by (simp add: DecodeFrom_zeros ends_log_def read_log_entry_def ReadFull_def soft_def be_get_def)
qed

lemma read_few_zeros:
  assumes n: "n < 9" and iv: "iv_ok lf"
  shows "ends_log env lf off (replicate n 0)"
proof (cases "n < 5")
  case True
  have five: "replicate 5 (0 :: byte) = [0, 0, 0, 0, 0]" by (simp add: eval_nat_numeral)
  have "take n [0, 0, 0, 0, 0 :: byte] = replicate n 0" using True unfolding five [symmetric] by simp
  then show ?thesis using DecodeFrom_cut [OF DecodeFrom_zeros [of "[]"], of n] True by (auto simp: ends_log_def read_log_entry_def)
next
  case False
  have c: "crypt env lf [] off = Some []" using crypt_some [OF iv, of env "[]" off] by auto
  have "replicate n (0 :: byte) = replicate 5 0 @ replicate (n - 5) 0" using False by (simp flip: replicate_add)
  also have "replicate 5 (0 :: byte) = [0, 0, 0, 0, 0]" by (simp add: eval_nat_numeral)
  finally have eq: "replicate n (0 :: byte) = 0 # 0 # 0 # 0 # 0 # replicate (n - 5) 0" by simp
  show ?thesis using c n unfolding eq by (auto simp: DecodeFrom_zeros ends_log_def read_log_entry_def ReadFull_def soft_def)
qed

end
