(* ===== verification/Wal.thy ===== *)
theory Wal
  imports LogCodec Levels
begin

text \<open>
  Going through a log file (\<open>logFile.iterate\<close>), which hands out the entries of whole transactions
  only, and the write-ahead log of a memtable (\<open>memtable.go\<close>): \<open>Put\<close> writes it, \<open>UpdateSkipList\<close>
  replays it. The skip list is the list of its entries in key order.
\<close>

section \<open>Iterating over a log file\<close>

text \<open>\<open>strconv.ParseUint(s, 10, 64)\<close>.\<close>

fun parse_digits :: "nat \<Rightarrow> bytes \<Rightarrow> nat option" where
  "parse_digits n [] = (if n < 2 ^ 64 then Some n else None)"
| "parse_digits n (c # cs) = (if 48 \<le> unat c \<and> unat c < 58 then parse_digits (n * 10 + (unat c - 48)) cs else None)"

definition ParseUint :: "bytes \<Rightarrow> nat option" where
  "ParseUint s = (if s = [] then None else parse_digits 0 s)"

text \<open>
  The callback gives its new state and whether it fails. \<open>errStop\<close> only leaves the statement it
  comes from, so the walk goes on; no callback of the code returns it.
\<close>

type_synonym 's log_fn = "'s \<Rightarrow> Entry \<Rightarrow> valuePointer \<Rightarrow> 's option"

fun call_all :: "'s log_fn \<Rightarrow> 's \<Rightarrow> (Entry \<times> valuePointer) list \<Rightarrow> 's option" where
  "call_all fn s [] = Some s"
| "call_all fn s ((e, vp) # es) = Option.bind (fn s e vp) (\<lambda>s1. call_all fn s1 es)"

datatype iterate_error = ReadError log_error | CallbackError

function iterate_loop :: "log_env \<Rightarrow> logFile \<Rightarrow> 's log_fn \<Rightarrow> u32 \<Rightarrow> u64 \<Rightarrow> u32 \<Rightarrow> (Entry \<times> valuePointer) list \<Rightarrow> 's \<Rightarrow> bytes \<Rightarrow>
    (iterate_error + (u32 \<times> 's)) option" where
  "iterate_loop env lf fn recordOffset lastCommit validEndOffset entries s input =
     (case read_log_entry env lf recordOffset input of
        None \<Rightarrow> None
      | Some (Inl err) \<Rightarrow> Some (if err = VarintOverflow then Inl (ReadError err) else Inr (validEndOffset, s))
      | Some (Inr (e, hlen, input1)) \<Rightarrow>
          if entry_isZero e then Some (Inr (validEndOffset, s))
          else
            let len = of_nat (hlen + length (e_Key e) + length (slice_bytes (e_Value e)) + 4);
                vp = \<lparr>vp_Fid = lf_fid lf, vp_Len = len, vp_Offset = recordOffset\<rparr>;
                after = recordOffset + len
            in if 0 < e_meta e AND bitTxn then
                 (let txnTs = ParseTs (e_Key e); last1 = (if lastCommit = 0 then txnTs else lastCommit)
                  in if last1 \<noteq> txnTs then Some (Inr (validEndOffset, s))
                     else iterate_loop env lf fn after last1 validEndOffset (entries @ [(e, vp)]) s input1)
               else if 0 < e_meta e AND bitFinTxn then
                 (case ParseUint (slice_bytes (e_Value e)) of None \<Rightarrow> Some (Inr (validEndOffset, s))
                  | Some txnTs \<Rightarrow> if lastCommit \<noteq> of_nat txnTs then Some (Inr (validEndOffset, s))
                      else case call_all fn s entries of None \<Rightarrow> Some (Inl CallbackError)
                        | Some s1 \<Rightarrow> iterate_loop env lf fn after 0 after [] s1 input1)
               else if lastCommit \<noteq> 0 then Some (Inr (validEndOffset, s))
               else (case fn s e vp of None \<Rightarrow> Some (Inl CallbackError)
                     | Some s1 \<Rightarrow> iterate_loop env lf fn after lastCommit after entries s1 input1))"
  by pat_completeness auto
termination
  by (relation "measure (\<lambda>(_, _, _, _, _, _, _, _, input). length input)") (auto dest: read_log_entry_rest)

declare iterate_loop.simps [simp del]

definition log_iterate :: "log_env \<Rightarrow> logFile \<Rightarrow> u32 \<Rightarrow> 's log_fn \<Rightarrow> 's \<Rightarrow> (iterate_error + (u32 \<times> 's)) option" where
  "log_iterate env lf offset0 fn s =
     (let offset = (if offset0 = 0 then of_nat vlogHeaderSize else offset0)
      in iterate_loop env lf fn offset 0 offset [] s (drop (unat offset) (lf_Data lf)))"

section \<open>Memtables\<close>

text \<open>\<open>Skiplist.Put\<close>: a key that is there gets the new value. Values are stored encoded.\<close>

fun sl_put :: "bytes \<Rightarrow> ValueStruct \<Rightarrow> entry list \<Rightarrow> entry list" where
  "sl_put key v [] = [(key, v)]"
| "sl_put key v ((k, w) # es) =
     (if cmp_keys key k < 0 then (key, v) # (k, w) # es
      else if key = k then (key, v) # es
      else (k, w) # sl_put key v es)"

definition encoded :: "ValueStruct \<Rightarrow> ValueStruct" where
  "encoded v = v\<lparr>vs_Value := Some (slice_bytes (vs_Value v)), vs_Version := 0\<rparr>"

record memTable =
  mt_sl :: "entry list"
  mt_wal :: "logFile option"
  mt_maxVersion :: u64

definition put_entry :: "bytes \<Rightarrow> ValueStruct \<Rightarrow> Entry" where
  "put_entry key value = \<lparr>e_Key = key, e_Value = vs_Value value, e_ExpiresAt = vs_ExpiresAt value, e_version = 0,
     e_UserMeta = vs_UserMeta value, e_meta = vs_Meta value, e_valThreshold = 0\<rparr>"

definition mt_insert :: "bytes \<Rightarrow> ValueStruct \<Rightarrow> memTable \<Rightarrow> memTable" where
  "mt_insert key value mt = mt\<lparr>mt_sl := sl_put key (encoded value) (mt_sl mt),
     mt_maxVersion := (let ts = ParseTs key in if mt_maxVersion mt < ts then ts else mt_maxVersion mt)\<rparr>"

definition mt_Put :: "log_env \<Rightarrow> bytes \<Rightarrow> ValueStruct \<Rightarrow> memTable \<Rightarrow> memTable option" where
  "mt_Put env key value mt =
     (let entry = put_entry key value
      in Option.bind (case mt_wal mt of None \<Rightarrow> Some mt | Some wal \<Rightarrow> map_option (\<lambda>w. mt\<lparr>mt_wal := Some w\<rparr>) (writeEntry env wal entry)) (\<lambda>mt1.
         if 0 < e_meta entry AND bitFinTxn then Some mt1 else Some (mt_insert key value mt1)))"

definition mt_isFull :: "int \<Rightarrow> int \<Rightarrow> memTable \<Rightarrow> bool" where
  "mt_isFull memTableSize memSize mt =
     (if memTableSize \<le> memSize then True
      else case mt_wal mt of None \<Rightarrow> False | Some wal \<Rightarrow> memTableSize \<le> uint (lf_writeAt wal))"

definition entry_value :: "Entry \<Rightarrow> ValueStruct" where
  "entry_value e = \<lparr>vs_Meta = e_meta e, vs_UserMeta = e_UserMeta e, vs_ExpiresAt = e_ExpiresAt e, vs_Value = e_Value e, vs_Version = 0\<rparr>"

definition replayFunction :: "memTable log_fn" where
  "replayFunction mt e vp =
     (let mt1 = mt\<lparr>mt_maxVersion := (let ts = ParseTs (e_Key e) in if mt_maxVersion mt < ts then ts else mt_maxVersion mt)\<rparr>
      in Some (mt1\<lparr>mt_sl := sl_put (e_Key e) (encoded (entry_value e)) (mt_sl mt1)\<rparr>))"

datatype replay_error = IterateFailed iterate_error | ErrTruncateNeeded u32 u32

definition UpdateSkipList :: "log_env \<Rightarrow> bool \<Rightarrow> memTable \<Rightarrow> (replay_error + memTable) option" where
  "UpdateSkipList env readOnly mt =
     (case mt_wal mt of None \<Rightarrow> Some (Inr mt)
      | Some wal \<Rightarrow>
          Option.bind (log_iterate env wal 0 replayFunction mt) (\<lambda>res. case res of
            Inl err \<Rightarrow> Some (Inl (IterateFailed err))
          | Inr (endOff, mt1) \<Rightarrow>
              if endOff < lf_size wal \<and> readOnly then Some (Inl (ErrTruncateNeeded endOff (lf_size wal)))
              else map_option (\<lambda>w. Inr (mt1\<lparr>mt_wal := Some w\<rparr>)) (lf_Truncate env readOnly wal (unat endOff))))"

text \<open>\<open>openMemTable\<close> for a new file and for one found on disk.\<close>

definition openMemTable_new :: "log_env \<Rightarrow> (u64 \<Rightarrow> data_key option option) \<Rightarrow> data_key option \<Rightarrow> bytes \<Rightarrow> u32 \<Rightarrow> bytes \<Rightarrow> memTable option" where
  "openMemTable_new env registry dk rand fid content =
     map_option (\<lambda>wal. \<lparr>mt_sl = [], mt_wal = Some wal, mt_maxVersion = 0\<rparr>) (lf_open_new env registry dk rand fid content)"

definition openMemTable_old :: "log_env \<Rightarrow> bool \<Rightarrow> (u64 \<Rightarrow> data_key option option) \<Rightarrow> u32 \<Rightarrow> bytes \<Rightarrow> (replay_error + memTable) option" where
  "openMemTable_old env readOnly registry fid content =
     Option.bind (lf_open_old registry fid content) (\<lambda>wal.
       UpdateSkipList env readOnly \<lparr>mt_sl = [], mt_wal = Some wal, mt_maxVersion = 0\<rparr>)"

text \<open>The memtables of a directory, oldest first; one that was cut to nothing is left out.\<close>

fun openMemTables :: "log_env \<Rightarrow> bool \<Rightarrow> (u64 \<Rightarrow> data_key option option) \<Rightarrow> (nat \<times> bytes) list \<Rightarrow> (replay_error + memTable list) option" where
  "openMemTables env readOnly registry [] = Some (Inr [])"
| "openMemTables env readOnly registry ((fid, content) # files) =
     (case openMemTable_old env readOnly registry (of_nat fid) content of None \<Rightarrow> None
      | Some (Inl err) \<Rightarrow> Some (Inl err)
      | Some (Inr mt) \<Rightarrow> map_option (\<lambda>r. case r of Inl err \<Rightarrow> Inl err | Inr imm \<Rightarrow> Inr (if mt_sl mt = [] then imm else mt # imm))
          (openMemTables env readOnly registry files))"

definition next_mem_fid :: "nat list \<Rightarrow> nat" where
  "next_mem_fid fids = (if length fids \<noteq> 0 then last fids else 0) + 1"

end
