(* ===== verification/WalFacts.thy ===== *)
theory WalFacts
  imports Wal
begin

text \<open>
  The write-ahead log of a memtable after a crash: whatever is cut off behind the last complete
  transaction, replaying the file gives the memtable as it was after that transaction.
\<close>

section \<open>The mapped file\<close>

text \<open>What the code relies on of the two operations of \<open>ristretto\<close>.\<close>

definition env_ok :: "log_env \<Rightarrow> bool" where
  "env_ok env \<longleftrightarrow> (\<forall>d n. n \<le> length d \<longrightarrow> le_truncate env d n = take n d) \<and>
     (\<forall>d s t. le_zero env d s t = map (\<lambda>i. if s \<le> i \<and> i < t then 0 else d ! i) [0..<length d])"

lemma zero_props:
  assumes "env_ok env"
  shows "length (le_zero env d s t) = length d" and "s \<le> length d \<Longrightarrow> take s (le_zero env d s t) = take s d"
    and "s \<le> i \<Longrightarrow> i < t \<Longrightarrow> i < length d \<Longrightarrow> le_zero env d s t ! i = 0"
  using assms by (auto simp: env_ok_def intro!: nth_equalityI)

definition same_key :: "logFile \<Rightarrow> logFile \<Rightarrow> bool" where
  "same_key lf lf' \<longleftrightarrow> lf_dataKey lf' = lf_dataKey lf \<and> lf_baseIV lf' = lf_baseIV lf"

lemma crypt_same: "same_key lf lf' \<Longrightarrow> crypt env lf' kv off = crypt env lf kv off"
  by (auto simp: same_key_def crypt_def decryptKV_def generateIV_def encryptionEnabled_def split: option.splits)

lemma encode_same: "same_key lf lf' \<Longrightarrow> encodeEntry env lf' e off = encodeEntry env lf e off"
  by (simp add: encodeEntry_def crypt_same)

lemma iv_same: "same_key lf lf' \<Longrightarrow> iv_ok lf' = iv_ok lf"
  by (simp add: same_key_def iv_ok_def encryptionEnabled_def)

definition enc :: "log_env \<Rightarrow> logFile \<Rightarrow> Entry \<Rightarrow> nat \<Rightarrow> bytes" where
  "enc env lf e off = fst (the (encodeEntry env lf e (of_nat off)))"

fun enc_all :: "log_env \<Rightarrow> logFile \<Rightarrow> nat \<Rightarrow> Entry list \<Rightarrow> bytes" where
  "enc_all env lf off [] = []"
| "enc_all env lf off (e # es) = enc env lf e off @ enc_all env lf (off + length (enc env lf e off)) es"

lemma enc_some: "iv_ok lf \<Longrightarrow> encodeEntry env lf e (of_nat off) = Some (enc env lf e off, length (enc env lf e off))"
  using encodeEntry_some [of lf env e "of_nat off"] by (auto simp: enc_def)

lemma enc_all_append: "enc_all env lf off (es @ fs) = enc_all env lf off es @ enc_all env lf (off + length (enc_all env lf off es)) fs"
  by (induction es arbitrary: off) (simp_all add: add.assoc)

lemma enc_all_same: "same_key lf lf' \<Longrightarrow> enc_all env lf' off es = enc_all env lf off es"
  by (induction es arbitrary: off) (simp_all add: enc_def encode_same)

text \<open>A log that holds some entries, with zeros behind them.\<close>

definition holds :: "log_env \<Rightarrow> logFile \<Rightarrow> Entry list \<Rightarrow> bool" where
  "holds env lf es \<longleftrightarrow> iv_ok lf \<and> length (lf_Data lf) + 22 < 2 ^ 32 \<and> unat (lf_writeAt lf) = 20 + length (enc_all env lf 20 es) \<and>
     unat (lf_writeAt lf) \<le> length (lf_Data lf) \<and> drop 20 (take (unat (lf_writeAt lf)) (lf_Data lf)) = enc_all env lf 20 es \<and>
     (\<forall>i. unat (lf_writeAt lf) \<le> i \<and> i < unat (lf_writeAt lf) + 22 \<and> i < length (lf_Data lf) \<longrightarrow> lf_Data lf ! i = 0)"

lemma write_holds:
  assumes env: "env_ok env" and h: "holds env lf es" and w: "writeEntry env lf e = Some lf'"
  shows "holds env lf' (es @ [e])" and "same_key lf lf'" and "lf_fid lf' = lf_fid lf" and "lf_size lf' = lf_size lf"
    and "length (lf_Data lf') = length (lf_Data lf)" and "take (unat (lf_writeAt lf)) (lf_Data lf') = take (unat (lf_writeAt lf)) (lf_Data lf)"
    and "unat (lf_writeAt lf) \<le> unat (lf_writeAt lf')"
proof -
  let ?w = "unat (lf_writeAt lf)" and ?d = "lf_Data lf"
  let ?b = "enc env lf e ?w"
  have iv: "iv_ok lf" and len: "length ?d + 22 < 2 ^ 32" and at: "?w = 20 + length (enc_all env lf 20 es)" "?w \<le> length ?d"
      and pre: "drop 20 (take ?w ?d) = enc_all env lf 20 es"
    using h unfolding holds_def by blast+
  have e: "encodeEntry env lf e (lf_writeAt lf) = Some (?b, length ?b)" using enc_some [OF iv, of env e ?w] by simp
  have fit: "?w + length ?b \<le> length ?d" using w e by (auto simp: writeEntry_def Let_def split: if_splits)
  let ?d1 = "take ?w ?d @ ?b @ drop (?w + length ?b) ?d" and ?at1 = "lf_writeAt lf + of_nat (length ?b)"
  have at1: "unat ?at1 = ?w + length ?b" using fit len by (simp add: unat_word_ariths unsigned_of_nat take_bit_nat_eq_self)
  have at2: "unat (?at1 + of_nat maxHeaderSize) = ?w + length ?b + 22"
    using fit len at1 by (simp add: unat_word_ariths maxHeaderSize_def)
  have lf': "lf' = lf\<lparr>lf_Data := le_zero env ?d1 (?w + length ?b) (?w + length ?b + 22), lf_writeAt := ?at1\<rparr>"
    using w e fit at1 at2 by (auto simp: writeEntry_def Let_def zeroNextEntry_def split: if_splits)
  have ld1: "length ?d1 = length ?d" using fit at(2) by simp
  show sk: "same_key lf lf'" by (simp add: lf' same_key_def)
  show "lf_fid lf' = lf_fid lf" "lf_size lf' = lf_size lf" by (simp_all add: lf')
  show ll: "length (lf_Data lf') = length ?d" using ld1 by (simp add: lf' zero_props(1) [OF env])
  have tk: "take (?w + length ?b) (lf_Data lf') = take ?w ?d @ ?b"
    using zero_props(2) [OF env, of "?w + length ?b" ?d1] ld1 fit at(2) by (simp add: lf')
  have "take ?w (take (?w + length ?b) (lf_Data lf')) = take ?w ?d" unfolding tk using at(2) by simp
  then show "take ?w (lf_Data lf') = take ?w ?d" by (simp add: min_def)
  show "?w \<le> unat (lf_writeAt lf')" using at1 by (simp add: lf')
  have "drop 20 (take (?w + length ?b) (lf_Data lf')) = enc_all env lf 20 (es @ [e])"
    unfolding tk using pre at by (simp add: enc_all_append)
  moreover have "\<forall>i. ?w + length ?b \<le> i \<and> i < ?w + length ?b + 22 \<and> i < length (lf_Data lf') \<longrightarrow> lf_Data lf' ! i = 0"
    using zero_props(3) [OF env, of "?w + length ?b" _ "?w + length ?b + 22" ?d1] zero_props(1) [OF env] by (simp add: lf')
  moreover have "unat (lf_writeAt lf') = ?w + length ?b" using at1 by (simp add: lf')
  ultimately show "holds env lf' (es @ [e])"
    using iv_same [OF sk] iv len ll fit at enc_all_same [OF sk, of env] encode_same [OF sk, of env]
    by (simp add: holds_def enc_all_append enc_def)
qed

section \<open>Walking over entries\<close>

lemma read_enc:
  assumes "iv_ok lf" and "entry_fits e"
  shows "\<exists>hlen. read_log_entry env lf (of_nat off) (enc env lf e off @ r) = Some (Inr (stored e, hlen, r)) \<and>
    length (enc env lf e off) = hlen + length (e_Key e) + length (slice_bytes (e_Value e)) + 4"
  using read_encoded [OF assms enc_some [OF assms(1)]] by blast

definition vp_at :: "log_env \<Rightarrow> logFile \<Rightarrow> Entry \<Rightarrow> nat \<Rightarrow> valuePointer" where
  "vp_at env lf e off = \<lparr>vp_Fid = lf_fid lf, vp_Len = of_nat (length (enc env lf e off)), vp_Offset = of_nat off\<rparr>"

text \<open>One turn of the loop over a whole record.\<close>

lemma iterate_turn:
  assumes "iv_ok lf" and "entry_fits e" and "e_Key e \<noteq> []"
  shows "iterate_loop env lf fn (of_nat off) lc valid es s (enc env lf e off @ r) =
    (let after = of_nat (off + length (enc env lf e off)); vp = vp_at env lf e off
     in if 0 < e_meta e AND bitTxn then
          (let txnTs = ParseTs (e_Key e); last1 = (if lc = 0 then txnTs else lc)
           in if last1 \<noteq> txnTs then Some (Inr (valid, s)) else iterate_loop env lf fn after last1 valid (es @ [(stored e, vp)]) s r)
        else if 0 < e_meta e AND bitFinTxn then
          (case ParseUint (slice_bytes (e_Value e)) of None \<Rightarrow> Some (Inr (valid, s))
           | Some txnTs \<Rightarrow> if lc \<noteq> of_nat txnTs then Some (Inr (valid, s))
               else case call_all fn s es of None \<Rightarrow> Some (Inl CallbackError) | Some s1 \<Rightarrow> iterate_loop env lf fn after 0 after [] s1 r)
        else if lc \<noteq> 0 then Some (Inr (valid, s))
        else (case fn s (stored e) vp of None \<Rightarrow> Some (Inl CallbackError) | Some s1 \<Rightarrow> iterate_loop env lf fn after lc after es s1 r))"
proof -
  obtain hlen where r: "read_log_entry env lf (of_nat off) (enc env lf e off @ r) = Some (Inr (stored e, hlen, r))"
      and l: "length (enc env lf e off) = hlen + length (e_Key e) + length (slice_bytes (e_Value e)) + 4"
    using read_enc [OF assms(1,2), of env off r] by blast
  have st: "e_Key (stored e) = e_Key e" "e_Value (stored e) = Some (slice_bytes (e_Value e))" "e_meta (stored e) = e_meta e"
    by (simp_all add: stored_def)
  show ?thesis
    by (subst iterate_loop.simps) (use assms(3) in \<open>simp add: r st entry_isZero_def Let_def vp_at_def l add.assoc\<close>)
qed

text \<open>The walk stops where reading ends.\<close>

lemma iterate_ends: "ends_log env lf off input \<Longrightarrow> iterate_loop env lf fn off lc valid es s input = Some (Inr (valid, s))"
  by (subst iterate_loop.simps) (auto simp: ends_log_def soft_def)

definition txn_part :: "u64 \<Rightarrow> Entry \<Rightarrow> bool" where
  "txn_part ts e \<longleftrightarrow> 0 < e_meta e AND bitTxn \<and> ParseTs (e_Key e) = ts"

definition entry_ok :: "Entry \<Rightarrow> bool" where
  "entry_ok e \<longleftrightarrow> entry_fits e \<and> e_Key e \<noteq> []"

fun vps :: "log_env \<Rightarrow> logFile \<Rightarrow> nat \<Rightarrow> Entry list \<Rightarrow> (Entry \<times> valuePointer) list" where
  "vps env lf off [] = []"
| "vps env lf off (e # es) = (stored e, vp_at env lf e off) # vps env lf (off + length (enc env lf e off)) es"

lemma iterate_body:
  assumes "iv_ok lf"
  shows "\<forall>e \<in> set body. entry_ok e \<and> txn_part ts e \<Longrightarrow> lc = 0 \<or> lc = ts \<Longrightarrow>
    iterate_loop env lf fn (of_nat off) lc valid es s (enc_all env lf off body @ r) =
    iterate_loop env lf fn (of_nat (off + length (enc_all env lf off body))) (if body = [] then lc else ts) valid (es @ vps env lf off body) s r"
proof (induction body arbitrary: off lc es)
  case (Cons e body)
  let ?o = "off + length (enc env lf e off)"
  have e: "entry_fits e" "e_Key e \<noteq> []" "0 < e_meta e AND bitTxn" "ParseTs (e_Key e) = ts" using Cons.prems(1) by (simp_all add: entry_ok_def txn_part_def)
  have "iterate_loop env lf fn (of_nat off) lc valid es s (enc_all env lf off (e # body) @ r) =
      iterate_loop env lf fn (of_nat ?o) ts valid (es @ [(stored e, vp_at env lf e off)]) s (enc_all env lf ?o body @ r)"
    using iterate_turn [OF assms e(1,2), of env fn off lc valid es s "enc_all env lf ?o body @ r"] e(3,4) Cons.prems(2) by (auto simp: Let_def)
  also have "\<dots> = iterate_loop env lf fn (of_nat (?o + length (enc_all env lf ?o body))) (if body = [] then ts else ts) valid
      ((es @ [(stored e, vp_at env lf e off)]) @ vps env lf ?o body) s r"
    by (rule Cons.IH) (use Cons.prems in auto)
  finally show ?case by (simp add: add.assoc)
qed simp

section \<open>Decimal numbers\<close>

lemma digits_append: "parse_digits n (format_uint m @ cs) = parse_digits (n * 10 ^ length (format_uint m) + m) cs"
proof (induction m arbitrary: n cs rule: format_uint.induct)
  case (1 m)
  have b: "unat (word_of_nat k :: byte) = k" if "k < 256" for k using that by (simp add: unsigned_of_nat take_bit_nat_eq_self)
  have d: "unat (word_of_nat (48 + k) :: byte) = 48 + k" if "k < 10" for k using b [of "48 + k"] that by simp
  show ?case
  proof (cases "m < 10")
    case True
    then show ?thesis using d [OF True] by (simp add: format_uint.simps [of m] del: unat_byte_of_nat of_nat_add)
  next
    case False
    have "m mod 10 < 10" by simp
    note dm = d [OF this]
    have "parse_digits n (format_uint m @ cs) = parse_digits (n * 10 ^ length (format_uint (m div 10)) + m div 10) (word_of_nat (48 + m mod 10) # cs)"
      using 1 [OF False] False by (simp add: format_uint.simps [of m] del: parse_digits.simps of_nat_add)
    also have "\<dots> = parse_digits ((n * 10 ^ length (format_uint (m div 10)) + m div 10) * 10 + m mod 10) cs"
      using dm by (simp del: unat_byte_of_nat of_nat_add)
    also have "(n * 10 ^ length (format_uint (m div 10)) + m div 10) * 10 + m mod 10 = n * 10 ^ length (format_uint m) + m"
    proof -
      have "length (format_uint m) = Suc (length (format_uint (m div 10)))" using False by (simp add: format_uint.simps [of m])
      then show ?thesis using div_mult_mod_eq [of m 10] by (simp add: distrib_right)
    qed
    finally show ?thesis .
  qed
qed

lemma ParseUint_format: "n < 2 ^ 64 \<Longrightarrow> ParseUint (format_uint n) = Some n"
proof -
  assume n: "n < 2 ^ 64"
  have "format_uint n \<noteq> []" by (subst format_uint.simps) simp
  then show ?thesis using digits_append [of 0 n "[]"] n by (simp add: ParseUint_def)
qed

section \<open>Transactions\<close>

definition is_fin :: "Entry \<Rightarrow> bool" where
  "is_fin e \<longleftrightarrow> 0 < e_meta e AND bitFinTxn"

text \<open>An entry outside of transactions, or all the entries of one with the one that ends it.\<close>

definition whole_batch :: "Entry list \<Rightarrow> bool" where
  "whole_batch b \<longleftrightarrow>
     (length b = 1 \<and> \<not> 0 < e_meta (hd b) AND bitTxn \<and> \<not> is_fin (hd b)) \<or>
     (2 \<le> length b \<and> ParseTs (e_Key (hd b)) \<noteq> 0 \<and> (\<forall>e \<in> set (butlast b). txn_part (ParseTs (e_Key (hd b))) e \<and> \<not> is_fin e) \<and>
      is_fin (List.last b) \<and> \<not> 0 < e_meta (List.last b) AND bitTxn \<and>
      slice_bytes (e_Value (List.last b)) = format_uint (unat (ParseTs (e_Key (hd b)))))"

definition replay_one :: "Entry \<Rightarrow> memTable \<Rightarrow> memTable" where
  "replay_one e mt = (if is_fin e then mt else mt_insert (e_Key e) (entry_value (stored e)) mt)"

lemma replay_stored: "\<not> is_fin e \<Longrightarrow> replayFunction mt (stored e) vp = Some (replay_one e mt)"
  by (simp add: replayFunction_def replay_one_def mt_insert_def stored_def Let_def)

lemma call_all_replay:
  "\<forall>e \<in> set es. \<not> is_fin e \<Longrightarrow> call_all replayFunction mt (vps env lf off es) = Some (fold replay_one es mt)"
  by (induction es arbitrary: off mt) (simp_all add: replay_stored)

lemma length_enc_all_append:
  "off + length (enc_all env lf off (es @ fs)) = (off + length (enc_all env lf off es)) + length (enc_all env lf (off + length (enc_all env lf off es)) fs)"
  by (simp add: enc_all_append)

lemma iterate_batch:
  assumes iv: "iv_ok lf" and b: "whole_batch b" and ok: "\<forall>e \<in> set b. entry_ok e"
  shows "iterate_loop env lf replayFunction (of_nat off) 0 valid [] mt (enc_all env lf off b @ r) =
    iterate_loop env lf replayFunction (of_nat (off + length (enc_all env lf off b))) 0 (of_nat (off + length (enc_all env lf off b))) [] (fold replay_one b mt) r"
proof (cases "length b = 1")
  case True
  then obtain e where e: "b = [e]" by (auto simp: length_Suc_conv)
  then have p: "\<not> 0 < e_meta e AND bitTxn" "\<not> is_fin e" "entry_fits e" "e_Key e \<noteq> []" using b ok by (simp_all add: whole_batch_def entry_ok_def)
  then have q: "\<not> 0 < e_meta e AND bitFinTxn" by (simp add: is_fin_def)
  show ?thesis using iterate_turn [OF iv p(3,4), of env replayFunction off 0 valid "[]" mt r] p q by (simp add: e replay_stored Let_def)
next
  case False
  let ?ts = "ParseTs (e_Key (hd b))"
  have w: "2 \<le> length b" "?ts \<noteq> 0" "\<forall>e \<in> set (butlast b). txn_part ?ts e \<and> \<not> is_fin e"
      "is_fin (List.last b)" "\<not> 0 < e_meta (List.last b) AND bitTxn" "slice_bytes (e_Value (List.last b)) = format_uint (unat ?ts)"
    using b False unfolding whole_batch_def by blast+
  obtain body fin where bf: "b = body @ [fin]" using w(1) by (cases b rule: rev_cases) auto
  have body: "body \<noteq> []" "\<forall>e \<in> set body. entry_ok e \<and> txn_part ?ts e" "\<forall>e \<in> set body. \<not> is_fin e" using w ok by (auto simp: bf)
  have fin: "entry_fits fin" "e_Key fin \<noteq> []" "0 < e_meta fin AND bitFinTxn" "\<not> 0 < e_meta fin AND bitTxn" "is_fin fin"
      "slice_bytes (e_Value fin) = format_uint (unat ?ts)"
    using w ok by (simp_all add: bf entry_ok_def is_fin_def)
  let ?o = "off + length (enc_all env lf off body)"
  have pu: "ParseUint (format_uint (unat ?ts)) = Some (unat ?ts)"
    using ParseUint_format unsigned_less [of ?ts, where ?'a = nat] by simp
  have "iterate_loop env lf replayFunction (of_nat off) 0 valid [] mt (enc_all env lf off b @ r) =
      iterate_loop env lf replayFunction (of_nat ?o) ?ts valid (vps env lf off body) mt (enc env lf fin ?o @ r)"
    using iterate_body [OF iv body(2), of 0 env replayFunction off valid "[]" mt "enc env lf fin ?o @ r"] body(1)
    by (simp add: bf enc_all_append)
  also have "\<dots> = iterate_loop env lf replayFunction (of_nat (?o + length (enc env lf fin ?o))) 0 (of_nat (?o + length (enc env lf fin ?o))) [] (fold replay_one body mt) r"
    using iterate_turn [OF iv fin(1,2), of env replayFunction ?o ?ts valid "vps env lf off body" mt r] fin(3,4,6) pu call_all_replay [OF body(3)]
    by (simp add: Let_def)
  finally show ?thesis using fin(5) by (simp add: bf enc_all_append replay_one_def add.assoc)
qed

lemma iterate_batches:
  assumes iv: "iv_ok lf"
  shows "\<forall>b \<in> set bs. whole_batch b \<and> (\<forall>e \<in> set b. entry_ok e) \<Longrightarrow>
    iterate_loop env lf replayFunction (of_nat off) 0 (of_nat off) [] mt (enc_all env lf off (concat bs) @ r) =
    iterate_loop env lf replayFunction (of_nat (off + length (enc_all env lf off (concat bs)))) 0 (of_nat (off + length (enc_all env lf off (concat bs)))) []
      (fold replay_one (concat bs) mt) r"
proof (induction bs arbitrary: off mt)
  case (Cons b bs)
  let ?o = "off + length (enc_all env lf off b)"
  have "iterate_loop env lf replayFunction (of_nat off) 0 (of_nat off) [] mt (enc_all env lf off (concat (b # bs)) @ r) =
      iterate_loop env lf replayFunction (of_nat ?o) 0 (of_nat ?o) [] (fold replay_one b mt) (enc_all env lf ?o (concat bs) @ r)"
    using iterate_batch [OF iv, of b env off "of_nat off" mt "enc_all env lf ?o (concat bs) @ r"] Cons.prems by (simp add: enc_all_append)
  also have "\<dots> = iterate_loop env lf replayFunction (of_nat (?o + length (enc_all env lf ?o (concat bs)))) 0
      (of_nat (?o + length (enc_all env lf ?o (concat bs)))) [] (fold replay_one (concat bs) (fold replay_one b mt)) r"
    by (rule Cons.IH) (use Cons.prems in simp)
  finally show ?case by (simp add: enc_all_append add.assoc)
qed simp

section \<open>The end of the log\<close>

definition zeros_front :: "bytes \<Rightarrow> bool" where
  "zeros_front z \<longleftrightarrow> (\<forall>i < min 9 (length z). z ! i = 0)"

lemma zeros_end:
  assumes iv: "iv_ok lf" and z: "zeros_front z"
  shows "ends_log env lf off (take k z)"
proof (cases "length (take k z) < 9")
  case True
  have "take k z = replicate (length (take k z)) 0" by (rule nth_equalityI) (use True z in \<open>auto simp: zeros_front_def\<close>)
  then show ?thesis using read_few_zeros [OF True iv, of env off] by simp
next
  case False
  then have l: "9 \<le> length (take k z)" by linarith
  have "take 9 (take k z) = replicate 9 0" by (rule nth_equalityI) (use l z in \<open>auto simp: zeros_front_def\<close>)
  then have "take k z = replicate 9 0 @ drop 9 (take k z)" using append_take_drop_id [of 9 "take k z"] by simp
  moreover have "replicate 9 (0 :: byte) = [0, 0, 0, 0, 0, 0, 0, 0, 0]" by (simp add: eval_nat_numeral)
  ultimately show ?thesis using read_zeros [OF iv, of env off "drop 9 (take k z)"] by simp
qed

text \<open>A transaction that has not ended leaves the state as it was.\<close>

lemma iterate_part:
  assumes iv: "iv_ok lf" and z: "zeros_front z"
  shows "\<forall>e \<in> set part. entry_ok e \<and> txn_part ts e \<Longrightarrow> lc = 0 \<or> lc = ts \<Longrightarrow>
    iterate_loop env lf fn (of_nat off) lc valid es s (take k (enc_all env lf off part @ z)) = Some (Inr (valid, s))"
proof (induction part arbitrary: off lc es k)
  case Nil
  then show ?case using iterate_ends [OF zeros_end [OF iv z]] by simp
next
  case (Cons e part)
  let ?b = "enc env lf e off"
  let ?rest = "enc_all env lf (off + length ?b) part @ z"
  have e: "entry_fits e" "e_Key e \<noteq> []" "0 < e_meta e AND bitTxn" "ParseTs (e_Key e) = ts" using Cons.prems(1) by (simp_all add: entry_ok_def txn_part_def)
  obtain hlen where r: "read_log_entry env lf (of_nat off) (?b @ ?rest) = Some (Inr (stored e, hlen, ?rest))"
    using read_enc [OF iv e(1), of env off ?rest] by blast
  show ?case
  proof (cases "k < length ?b")
    case True
    then have "ends_log env lf (of_nat off) (take k (?b @ ?rest))" using read_cut [OF r, of k] by (simp add: ends_log_def)
    then show ?thesis using iterate_ends by simp
  next
    case False
    have IH: "iterate_loop env lf fn (of_nat (off + length ?b)) ts valid (es @ [(stored e, vp_at env lf e off)]) s (take (k - length ?b) ?rest) = Some (Inr (valid, s))"
      by (rule Cons.IH) (use Cons.prems in auto)
    then show ?thesis
      using iterate_turn [OF iv e(1,2), of env fn off lc valid es s "take (k - length ?b) ?rest"] e(3,4) Cons.prems(2) False
      by (auto simp: Let_def)
  qed
qed

section \<open>Writing and replaying a memtable\<close>

fun puts :: "log_env \<Rightarrow> (bytes \<times> ValueStruct) list \<Rightarrow> memTable \<Rightarrow> memTable option" where
  "puts env [] mt = Some mt"
| "puts env ((k, v) # kvs) mt = Option.bind (mt_Put env k v mt) (puts env kvs)"

definition put_entries :: "(bytes \<times> ValueStruct) list \<Rightarrow> Entry list" where
  "put_entries kvs = map (\<lambda>(k, v). put_entry k v) kvs"

definition same_content :: "memTable \<Rightarrow> memTable \<Rightarrow> bool" where
  "same_content mt mt' \<longleftrightarrow> mt_sl mt = mt_sl mt' \<and> mt_maxVersion mt = mt_maxVersion mt'"

lemma replay_one_same: "same_content mt mt' \<Longrightarrow> same_content (replay_one e mt) (replay_one e mt')"
  by (simp add: same_content_def replay_one_def mt_insert_def Let_def)

lemma fold_replay_same: "same_content mt mt' \<Longrightarrow> same_content (fold replay_one es mt) (fold replay_one es mt')"
  by (induction es arbitrary: mt mt') (simp_all add: replay_one_same)

lemma fold_replay_wal [simp]: "mt_wal (fold replay_one es mt) = mt_wal mt"
  by (induction es arbitrary: mt) (simp_all add: replay_one_def mt_insert_def)

lemma put_replay:
  assumes "mt_wal mt = Some wal" and "mt_Put env k v mt = Some mt'"
  shows "\<exists>wal'. writeEntry env wal (put_entry k v) = Some wal' \<and> mt_wal mt' = Some wal' \<and> same_content mt' (replay_one (put_entry k v) mt)"
proof -
  obtain wal' where w: "writeEntry env wal (put_entry k v) = Some wal'"
    using assms by (cases "writeEntry env wal (put_entry k v)") (simp_all add: mt_Put_def Let_def)
  have "encoded (entry_value (stored (put_entry k v))) = encoded v" by (cases v) (simp add: encoded_def entry_value_def stored_def put_entry_def)
  moreover have "e_Key (put_entry k v) = k" by (simp add: put_entry_def)
  ultimately show ?thesis using assms w by (auto simp: mt_Put_def Let_def same_content_def replay_one_def is_fin_def mt_insert_def)
qed

lemma puts_holds:
  assumes env: "env_ok env"
  shows "holds env wal es \<Longrightarrow> mt_wal mt = Some wal \<Longrightarrow> puts env kvs mt = Some mt' \<Longrightarrow>
    \<exists>wal'. mt_wal mt' = Some wal' \<and> holds env wal' (es @ put_entries kvs) \<and> same_key wal wal' \<and> length (lf_Data wal') = length (lf_Data wal) \<and>
      take (unat (lf_writeAt wal)) (lf_Data wal') = take (unat (lf_writeAt wal)) (lf_Data wal) \<and> unat (lf_writeAt wal) \<le> unat (lf_writeAt wal') \<and>
      same_content mt' (fold replay_one (put_entries kvs) mt)"
proof (induction kvs arbitrary: wal es mt)
  case Nil
  then show ?case by (simp add: put_entries_def same_key_def same_content_def)
next
  case (Cons kv kvs)
  obtain k v where kv: "kv = (k, v)" by (cases kv)
  obtain mt1 where m1: "mt_Put env k v mt = Some mt1" "puts env kvs mt1 = Some mt'" using Cons.prems(3) by (auto simp: kv bind_eq_Some_conv)
  obtain wal1 where w1: "writeEntry env wal (put_entry k v) = Some wal1" "mt_wal mt1 = Some wal1" "same_content mt1 (replay_one (put_entry k v) mt)"
    using put_replay [OF Cons.prems(2) m1(1)] by blast
  note wh = write_holds [OF env Cons.prems(1) w1(1)]
  obtain wal' where w': "mt_wal mt' = Some wal'" "holds env wal' ((es @ [put_entry k v]) @ put_entries kvs)" "same_key wal1 wal'"
      "length (lf_Data wal') = length (lf_Data wal1)" "take (unat (lf_writeAt wal1)) (lf_Data wal') = take (unat (lf_writeAt wal1)) (lf_Data wal1)"
      "unat (lf_writeAt wal1) \<le> unat (lf_writeAt wal')" "same_content mt' (fold replay_one (put_entries kvs) mt1)"
    using Cons.IH [OF wh(1) w1(2) m1(2)] by blast
  have "take (unat (lf_writeAt wal)) (lf_Data wal') = take (unat (lf_writeAt wal)) (take (unat (lf_writeAt wal1)) (lf_Data wal'))"
    using wh(7) by (simp add: min_def)
  also have "\<dots> = take (unat (lf_writeAt wal)) (lf_Data wal)" unfolding w'(5) using wh(6,7) by (simp add: min_def)
  finally have t: "take (unat (lf_writeAt wal)) (lf_Data wal') = take (unat (lf_writeAt wal)) (lf_Data wal)" .
  have c: "same_content mt' (fold replay_one (put_entries (kv # kvs)) mt)"
    using w'(7) fold_replay_same [OF w1(3), of "put_entries kvs"] by (simp add: same_content_def put_entries_def kv)
  have "same_key wal wal'" using wh(2) w'(3) by (simp add: same_key_def)
  moreover have "es @ put_entries (kv # kvs) = (es @ [put_entry k v]) @ put_entries kvs" by (simp add: put_entries_def kv)
  ultimately show ?case using w'(1,2,4,6) wh(5,7) t c by simp
qed

text \<open>Writing does not fail while there is room.\<close>

lemma puts_some:
  assumes env: "env_ok env"
  shows "holds env wal es \<Longrightarrow> mt_wal mt = Some wal \<Longrightarrow>
    unat (lf_writeAt wal) + sum_list (map (\<lambda>(k, v). 26 + length k + length (slice_bytes (vs_Value v))) kvs) \<le> length (lf_Data wal) \<Longrightarrow>
    \<exists>mt'. puts env kvs mt = Some mt'"
proof (induction kvs arbitrary: wal es mt)
  case (Cons kv kvs)
  obtain k v where kv: "kv = (k, v)" by (cases kv)
  let ?e = "put_entry k v" and ?w = "unat (lf_writeAt wal)"
  have iv: "iv_ok wal" and at: "?w = 20 + length (enc_all env wal 20 es)" using Cons.prems(1) by (simp_all add: holds_def)
  have l: "length (enc env wal ?e ?w) \<le> 26 + length k + length (slice_bytes (vs_Value v))"
    using encodeEntry_some [OF iv, of env ?e "lf_writeAt wal"] by (auto simp: enc_def put_entry_def)
  obtain wal1 where w1: "writeEntry env wal ?e = Some wal1"
    using enc_some [OF iv, of env ?e ?w] l Cons.prems(3) by (fastforce simp: writeEntry_def Let_def kv)
  note wh = write_holds [OF env Cons.prems(1) w1]
  have at1: "unat (lf_writeAt wal1) = 20 + length (enc_all env wal1 20 (es @ [?e]))" using wh(1) by (simp add: holds_def)
  then have at2: "unat (lf_writeAt wal1) = ?w + length (enc env wal ?e ?w)"
    using at enc_all_same [OF wh(2), of env] encode_same [OF wh(2), of env] by (simp add: enc_all_append enc_def)
  obtain mt1 where m1: "mt_Put env k v mt = Some mt1"
    using w1 Cons.prems(2) by (cases "mt_Put env k v mt") (simp_all add: mt_Put_def Let_def split: if_splits)
  have "mt_wal mt1 = Some wal1" using put_replay [OF Cons.prems(2) m1] w1 by simp
  from Cons.IH [OF wh(1) this] show ?case using at2 l wh(5) Cons.prems(3) by (simp add: kv m1)
qed simp

lemma header_read:
  assumes d: "take 20 d = U64ToBytes i @ rand" and r: "length rand = 12"
  shows "take 8 d = U64ToBytes i \<and> take 12 (drop 8 d) = rand"
proof -
  have "take 8 (take 20 d) = U64ToBytes i" "drop 8 (take 20 d) = rand" unfolding d using r by (simp_all add: U64ToBytes_def)
  then show ?thesis by (simp add: drop_take min_def)
qed

lemma open_new_holds:
  assumes env: "env_ok env" and len: "length content + 22 < 2 ^ 32" and o1: "openMemTable_new env registry dk rand fid content = Some mt"
    and reg: "registry (case dk of None \<Rightarrow> 0 | Some k \<Rightarrow> dk_KeyId k) = Some dk"
  shows "\<exists>wal. mt_wal mt = Some wal \<and> holds env wal [] \<and> lf_dataKey wal = dk \<and> lf_baseIV wal = rand \<and> length rand = 12 \<and>
    unat (lf_writeAt wal) = 20 \<and> take 20 (lf_Data wal) = U64ToBytes (case dk of None \<Rightarrow> 0 | Some k \<Rightarrow> dk_KeyId k) @ rand \<and>
    length (lf_Data wal) = length content \<and> mt_sl mt = [] \<and> mt_maxVersion mt = 0"
proof -
  let ?id = "case dk of None \<Rightarrow> 0 | Some k \<Rightarrow> dk_KeyId k"
  let ?d = "U64ToBytes ?id @ rand @ List.drop 20 content"
  have r: "length rand = 12" "20 \<le> length content"
    using o1 by (auto simp: openMemTable_new_def lf_open_new_def bootstrap_def Let_def vlogHeaderSize_def split: if_splits)
  have u: "length (U64ToBytes ?id) = 8" by (simp add: U64ToBytes_def)
  have at: "unat (of_nat vlogHeaderSize :: u32) = 20" "unat (of_nat vlogHeaderSize + of_nat maxHeaderSize :: u32) = 42"
    by (simp_all add: vlogHeaderSize_def maxHeaderSize_def)
  let ?z = "le_zero env ?d 20 42"
  have ld: "length ?d = length content" using r u by simp
  have t: "take 20 ?z = U64ToBytes ?id @ rand" using zero_props(2) [OF env, of 20 ?d] ld r u by simp
  note hr = header_read [OF t r(1)]
  let ?wal = "\<lparr>lf_Data = ?z, lf_fid = fid, lf_size = of_nat (length ?z), lf_writeAt = of_nat vlogHeaderSize, lf_dataKey = dk, lf_baseIV = rand\<rparr>"
  have "bootstrap env dk rand \<lparr>lf_Data = content, lf_fid = fid, lf_size = 0, lf_writeAt = of_nat vlogHeaderSize, lf_dataKey = None, lf_baseIV = []\<rparr> =
      Some (?wal\<lparr>lf_size := 0\<rparr>)"
    using r at by (simp add: bootstrap_def Let_def keyID_def zeroNextEntry_def vlogHeaderSize_def maxHeaderSize_def)
  then have mt: "mt = \<lparr>mt_sl = [], mt_wal = Some ?wal, mt_maxVersion = 0\<rparr>"
    using o1 hr reg by (simp add: openMemTable_new_def lf_open_new_def read_header_def U64ToBytes_def)
  have "holds env ?wal []"
    using zero_props(1) [OF env] zero_props(3) [OF env, of 20 _ 42 ?d] r u len ld at(1) by (simp add: holds_def iv_ok_def)
  then show ?thesis using mt t r at(1) ld by (simp add: zero_props(1) [OF env])
qed

lemma holds_data:
  assumes h: "holds env wal (es @ fs)"
  shows "\<exists>z. drop 20 (lf_Data wal) = enc_all env wal 20 es @ enc_all env wal (20 + length (enc_all env wal 20 es)) fs @ z \<and> zeros_front z"
proof -
  let ?w = "unat (lf_writeAt wal)" and ?d = "lf_Data wal"
  have w: "?w = 20 + length (enc_all env wal 20 (es @ fs))" "?w \<le> length ?d" "drop 20 (take ?w ?d) = enc_all env wal 20 (es @ fs)"
      and z: "\<forall>i. ?w \<le> i \<and> i < ?w + 22 \<and> i < length ?d \<longrightarrow> ?d ! i = 0"
    using h unfolding holds_def by blast+
  have "drop 20 ?d = drop 20 (take ?w ?d @ drop ?w ?d)" by simp
  also have "\<dots> = drop 20 (take ?w ?d) @ drop ?w ?d" using w(1,2) by (simp del: append_take_drop_id)
  finally have "drop 20 ?d = enc_all env wal 20 es @ enc_all env wal (20 + length (enc_all env wal 20 es)) fs @ drop ?w ?d"
    using w(3) by (simp add: enc_all_append)
  moreover have "zeros_front (drop ?w ?d)" unfolding zeros_front_def
  proof (intro allI impI)
    fix i assume "i < min 9 (length (drop ?w ?d))"
    then show "drop ?w ?d ! i = 0" using z [rule_format, of "?w + i"] w(2) by (auto simp: less_diff_conv add.commute)
  qed
  ultimately show ?thesis by blast
qed

lemma batch_part:
  assumes "whole_batch b" and "n < length b" and "e \<in> set (take n b)"
  shows "txn_part (ParseTs (e_Key (hd b))) e"
proof -
  have "take n b = take n (butlast b)" using assms(2) by (simp add: take_butlast)
  then have "e \<in> set (butlast b)" using assms(3) in_set_takeD by fastforce
  moreover have "2 \<le> length b" using calculation by (cases b) (auto split: if_splits simp: Suc_le_eq)
  ultimately show ?thesis using assms(1) by (auto simp: whole_batch_def)
qed

text \<open>Replaying what is left of a file that was cut off somewhere behind its first batches.\<close>

lemma iterate_cut:
  assumes iv: "iv_ok lf" and sk: "same_key w lf" and h: "holds env w (concat bs @ take n b)" and len: "length (lf_Data w) < 2 ^ 32"
    and ok: "\<forall>x \<in> set (b # bs). whole_batch x \<and> (\<forall>e \<in> set x. entry_ok e)" and n: "n < length b"
    and v: "v = 20 + length (enc_all env w 20 (concat bs))" and c: "v \<le> c" and d: "lf_Data lf = take c (lf_Data w)"
  shows "log_iterate env lf 0 replayFunction mt = Some (Inr (of_nat v, fold replay_one (concat bs) mt))"
proof -
  obtain z where z: "drop 20 (lf_Data w) = enc_all env w 20 (concat bs) @ enc_all env w v (take n b) @ z" "zeros_front z"
    using holds_data [OF h] v by blast
  have "drop 20 (lf_Data lf) = take (c - 20) (drop 20 (lf_Data w))" by (simp add: d drop_take)
  also have "\<dots> = enc_all env lf 20 (concat bs) @ take (c - v) (enc_all env lf v (take n b) @ z)"
    unfolding z(1) using c v by (simp add: enc_all_same [OF sk])
  finally have dl: "drop 20 (lf_Data lf) = enc_all env lf 20 (concat bs) @ take (c - v) (enc_all env lf v (take n b) @ z)" .
  have v': "v = 20 + length (enc_all env lf 20 (concat bs))" by (simp add: v enc_all_same [OF sk])
  have o: "(of_nat vlogHeaderSize :: u32) = of_nat 20" "unat (of_nat vlogHeaderSize :: u32) = 20" by (simp_all add: vlogHeaderSize_def)
  have p: "\<forall>e \<in> set (take n b). entry_ok e \<and> txn_part (ParseTs (e_Key (hd b))) e"
    using ok batch_part [OF _ n] in_set_takeD [of _ n b] by auto
  have "log_iterate env lf 0 replayFunction mt = iterate_loop env lf replayFunction (of_nat 20) 0 (of_nat 20) [] mt
      (enc_all env lf 20 (concat bs) @ take (c - v) (enc_all env lf v (take n b) @ z))"
    unfolding log_iterate_def Let_def using dl o by simp
  also have "\<dots> = iterate_loop env lf replayFunction (of_nat v) 0 (of_nat v) [] (fold replay_one (concat bs) mt)
      (take (c - v) (enc_all env lf v (take n b) @ z))"
    unfolding v' by (rule iterate_batches [OF iv]) (use ok in auto)
  also have "\<dots> = Some (Inr (of_nat v, fold replay_one (concat bs) mt))"
    by (rule iterate_part [OF iv z(2) p]) simp
  finally show ?thesis .
qed

lemma reopened:
  assumes "lf_open_old registry fid content = Some wal"
    and "log_iterate env wal 0 replayFunction \<lparr>mt_sl = [], mt_wal = Some wal, mt_maxVersion = 0\<rparr> = Some (Inr (off, mt))"
    and "lf_Truncate env False wal (unat off) = Some w"
  shows "openMemTable_old env False registry fid content = Some (Inr (mt\<lparr>mt_wal := Some w\<rparr>))"
  by (simp add: openMemTable_old_def UpdateSkipList_def assms)

lemma truncate_back:
  assumes "env_ok env" and "v \<le> length (lf_Data wal)"
  shows "\<exists>w. lf_Truncate env False wal v = Some w \<and> lf_Data w = take v (lf_Data wal)"
  using assms by (auto simp: lf_Truncate_def env_ok_def)

text \<open>
  C6: A memtable's log survives a crash. Take a memtable on a new file, write whole transactions
  (or single entries outside of them) with \<open>Put\<close>, and then a strict part of one more, possibly empty.
  Cut the file anywhere behind the last whole transaction, in the middle of a record too, and open it
  again: the replay gives exactly the skip list and the largest version that the whole transactions
  gave, whatever the encryption, and truncates the file right behind them.
\<close>

theorem wal_recovers:
  assumes env: "env_ok env" and len: "length content + 22 < 2 ^ 32"
    and o1: "openMemTable_new env registry dk rand fid content = Some mt0"
    and ok: "\<forall>x \<in> set (b # bs). whole_batch (put_entries x) \<and> (\<forall>e \<in> set (put_entries x). entry_ok e)"
    and p1: "puts env (concat bs) mt0 = Some mt1" and p2: "puts env (take n b) mt1 = Some mt2" and n: "n < length b"
    and w1: "mt_wal mt1 = Some wal1" and w2: "mt_wal mt2 = Some wal2" and c: "unat (lf_writeAt wal1) \<le> c"
    and reg: "registry (case dk of None \<Rightarrow> 0 | Some k \<Rightarrow> dk_KeyId k) = Some dk"
  shows "\<exists>mt3 wal3. openMemTable_old env False registry fid2 (take c (lf_Data wal2)) = Some (Inr mt3) \<and>
    mt_sl mt3 = mt_sl mt1 \<and> mt_maxVersion mt3 = mt_maxVersion mt1 \<and>
    mt_wal mt3 = Some wal3 \<and> lf_Data wal3 = take (unat (lf_writeAt wal1)) (lf_Data wal1)"
proof -
  obtain wal0 where w0: "mt_wal mt0 = Some wal0" "holds env wal0 []" "lf_dataKey wal0 = dk" "lf_baseIV wal0 = rand" "length rand = 12"
      "unat (lf_writeAt wal0) = 20" "take 20 (lf_Data wal0) = U64ToBytes (case dk of None \<Rightarrow> 0 | Some k \<Rightarrow> dk_KeyId k) @ rand"
      "length (lf_Data wal0) = length content" "mt_sl mt0 = []" "mt_maxVersion mt0 = 0"
    using open_new_holds [OF env len o1 reg] by (elim exE conjE) (rule that, assumption+)
  note h1 = puts_holds [OF env w0(2,1) p1, simplified w1 option.inject ex_simps simp_thms append_Nil]
  let ?es = "concat (map put_entries bs)" and ?v = "unat (lf_writeAt wal1)"
  have es: "put_entries (concat bs) = ?es" by (simp add: put_entries_def [abs_def] map_concat)
  have hold1: "holds env wal1 ?es" and k1: "same_key wal0 wal1" "length (lf_Data wal1) = length content" "take 20 (lf_Data wal1) = take 20 (lf_Data wal0)"
      and sc: "same_content mt1 (fold replay_one ?es mt0)"
    using h1 w0(6,8) es by auto
  note h2 = puts_holds [OF env hold1 w1 p2, simplified w2 option.inject ex_simps simp_thms]
  have hold2: "holds env wal2 (?es @ take n (put_entries b))" and k2: "same_key wal1 wal2" "length (lf_Data wal2) = length content"
      and t2: "take ?v (lf_Data wal2) = take ?v (lf_Data wal1)"
    using h2 k1(2) by (auto simp: put_entries_def take_map)
  have v: "?v = 20 + length (enc_all env wal1 20 ?es)" "?v \<le> length (lf_Data wal1)" using hold1 unfolding holds_def by blast+
  let ?cut = "take c (lf_Data wal2)"
  let ?wal = "\<lparr>lf_Data = ?cut, lf_fid = fid2, lf_size = of_nat (length ?cut), lf_writeAt = of_nat vlogHeaderSize, lf_dataKey = dk, lf_baseIV = rand\<rparr>"
  have "take 20 ?cut = take 20 (take ?v (lf_Data wal2))" using v c by (simp add: min_def)
  also have "\<dots> = take 20 (lf_Data wal0)" unfolding t2 k1(3) [symmetric] using v by (simp add: min_def)
  finally have hd: "take 20 ?cut = U64ToBytes (case dk of None \<Rightarrow> 0 | Some k \<Rightarrow> dk_KeyId k) @ rand" using w0(7) by simp
  have id: "take 8 ?cut = U64ToBytes (case dk of None \<Rightarrow> 0 | Some k \<Rightarrow> dk_KeyId k)" "take 12 (drop 8 ?cut) = rand"
    using header_read [OF hd w0(5)] by blast+
  have lc: "vlogHeaderSize \<le> length ?cut" using v c k1(2) k2(2) by (simp add: vlogHeaderSize_def)
  have op: "lf_open_old registry fid2 ?cut = Some ?wal"
    using lc id reg by (simp add: lf_open_old_def read_header_def Let_def U64ToBytes_def not_less del: length_take take_take)
  have sk: "same_key wal2 ?wal" using w0(3,4) k1(1) k2(1) by (simp add: same_key_def)
  have vw: "?v = 20 + length (enc_all env wal2 20 ?es)" using v(1) enc_all_same [OF k2(1)] by simp
  have it: "log_iterate env ?wal 0 replayFunction mt0 = Some (Inr (of_nat ?v, fold replay_one ?es mt0))" for mt0
    by (rule iterate_cut [OF _ sk hold2 _ _ _ vw c]) (use len n k2(2) ok w0(5) in \<open>simp_all add: iv_ok_def put_entries_def\<close>)
  define mt where "mt = fold replay_one ?es \<lparr>mt_sl = [], mt_wal = Some ?wal, mt_maxVersion = 0\<rparr>"
  have "same_content \<lparr>mt_sl = [], mt_wal = Some ?wal, mt_maxVersion = 0\<rparr> mt0" using w0(9,10) by (simp add: same_content_def)
  from fold_replay_same [OF this, of ?es, folded mt_def]
  have mt: "mt_sl mt = mt_sl mt1" "mt_maxVersion mt = mt_maxVersion mt1" using sc by (simp_all add: same_content_def)
  have mw: "mt_wal mt = Some ?wal" by (simp add: mt_def)
  have tc: "take ?v ?cut = take ?v (lf_Data wal1)" using c t2 by (simp add: min_def)
  obtain w3 where w3: "lf_Truncate env False ?wal ?v = Some w3" "lf_Data w3 = take ?v (lf_Data wal1)"
    using truncate_back [OF env, of ?v ?wal] tc v(2) c k1(2) k2(2) by auto
  have u: "unat (of_nat ?v :: u32) = ?v" by simp
  have "lf_Truncate env False ?wal (unat (of_nat ?v :: u32)) = Some w3" unfolding u by (rule w3(1))
  from reopened [OF op it [of "\<lparr>mt_sl = [], mt_wal = Some ?wal, mt_maxVersion = 0\<rparr>", folded mt_def] this]
  have "openMemTable_old env False registry fid2 ?cut = Some (Inr (mt\<lparr>mt_wal := Some w3\<rparr>))" .
  then show ?thesis using mt mw w3(2) by simp
qed

definition wal_env :: log_env where
  "wal_env = \<lparr>le_stream = (\<lambda>k iv i. 0), le_truncate = (\<lambda>d n. take n d),
     le_zero = (\<lambda>d s t. if t \<le> s then d else take s d @ replicate (min t (length d) - s) 0 @ drop t d)\<rparr>"

definition wal_value :: "byte \<Rightarrow> bytes \<Rightarrow> ValueStruct" where
  "wal_value m v = \<lparr>vs_Meta = m, vs_UserMeta = 0, vs_ExpiresAt = 0, vs_Value = Some v, vs_Version = 0\<rparr>"

lemma wal_recovers_witness:
  "\<exists>mt0 mt1 mt2 mt3 w1 w2. openMemTable_new wal_env (\<lambda>_. Some None) None (replicate 12 7) 1 (replicate 200 0) = Some mt0 \<and>
     puts wal_env [(KeyWithTs [1] 4, wal_value 0 [2])] mt0 = Some mt1 \<and> mt_wal mt1 = Some w1 \<and>
     puts wal_env [(KeyWithTs [3] 5, wal_value bitTxn [])] mt1 = Some mt2 \<and> mt_wal mt2 = Some w2 \<and>
     openMemTable_old wal_env False (\<lambda>_. Some None) 1 (take (unat (lf_writeAt w1) + 3) (lf_Data w2)) = Some (Inr mt3) \<and>
     mt_sl mt3 = [(KeyWithTs [1] 4, encoded (wal_value 0 [2]))]"
proof -
  let ?kv = "(KeyWithTs [1] 4, wal_value 0 [2])" and ?kv2 = "(KeyWithTs [3] 5, wal_value bitTxn [])" and ?fin = "(KeyWithTs [9] 5, wal_value bitFinTxn [53])"
  have env: "env_ok wal_env" by (auto simp: env_ok_def wal_env_def nth_append intro!: nth_equalityI)
  have vs: "slice_bytes (vs_Value (wal_value m v)) = v" for m v by (simp add: wal_value_def slice_bytes_def)
  obtain mt0 where m0: "openMemTable_new wal_env (\<lambda>_. Some None) None (replicate 12 7) 1 (replicate 200 0) = Some mt0"
    by (simp add: openMemTable_new_def lf_open_new_def bootstrap_def read_header_def vlogHeaderSize_def)
  obtain w0 where w0: "mt_wal mt0 = Some w0" "holds wal_env w0 []" "unat (lf_writeAt w0) = 20" "length (lf_Data w0) = 200" "mt_sl mt0 = []"
    using open_new_holds [OF env _ m0] by auto
  obtain mt2 where m2: "puts wal_env [?kv, ?kv2] mt0 = Some mt2"
    using puts_some [OF env w0(2,1), of "[?kv, ?kv2]"] w0(3,4) by (auto simp: vs)
  obtain mt1 where m1: "puts wal_env [?kv] mt0 = Some mt1" "puts wal_env [?kv2] mt1 = Some mt2"
    using m2 by (auto simp: bind_eq_Some_conv)
  obtain w1 where w1: "mt_wal mt1 = Some w1" "holds wal_env w1 (put_entries [?kv])" "same_content mt1 (fold replay_one (put_entries [?kv]) mt0)"
    using puts_holds [OF env w0(2,1) m1(1)] by auto
  obtain w2 where w2: "mt_wal mt2 = Some w2" using puts_holds [OF env w1(2,1) m1(2)] by auto
  have sl: "mt_sl mt1 = [(KeyWithTs [1] 4, encoded (wal_value 0 [2]))]"
    using w1(3) w0(5) by (simp add: same_content_def put_entries_def replay_one_def is_fin_def mt_insert_def put_entry_def wal_value_def
      entry_value_def stored_def encoded_def slice_bytes_def)
  have ok: "\<forall>x \<in> set ([?kv2, ?fin] # [[?kv]]). whole_batch (put_entries x) \<and> (\<forall>e \<in> set (put_entries x). entry_ok e)"
    by (simp add: whole_batch_def put_entries_def put_entry_def wal_value_def is_fin_def bitTxn_def bitFinTxn_def txn_part_def
      entry_ok_def entry_fits_def slice_bytes_def format_uint.simps KeyWithTs_def ParseTs_def)
  show ?thesis
    using wal_recovers [OF env _ m0 ok, of mt1 1 mt2 w1 w2 "unat (lf_writeAt w1) + 3" 1] m0 m1 w1(1) w2 sl by fastforce
qed

end
