(* ===== verification/Spec2Isabelle.thy ===== *)
theory Spec2Isabelle
  imports TableFacts Fill TxnSafety Targets NewIter HeatRun WalFacts
begin

text \<open>draft\<close>

end
